(* ===== verification/ME_Prelude.thy ===== *)
theory ME_Prelude
  imports Main "HOL-Library.Word" "HOL-Library.Code_Target_Nat"
begin

text \<open>
  Shared vocabulary of the development: the machine-integer types the C++ sources use, the
  result type of the operations that may run off a caller-supplied buffer or never return, and
  the generic list and word lemmas the component proofs rest on.
\<close>

unbundle bit_operations_syntax

section \<open>Machine integers\<close>

text \<open>
  Quantities, identifiers, sequence numbers and generations keep their width: they are words and
  their arithmetic wraps.  Array positions (\<^verbatim>\<open>std::uint32_t\<close> indices, \<^verbatim>\<open>std::size_t\<close> sizes) are
  natural numbers; every index the code computes stays below its container's bound, which the
  components prove.
\<close>

type_synonym u8 = "8 word"
type_synonym u16 = "16 word"
type_synonym u32 = "32 word"
type_synonym u64 = "64 word"

definition kUint32Max :: nat where
  "kUint32Max = 2 ^ 32 - 1"

definition kUint64Max :: nat where
  "kUint64Max = 2 ^ 64 - 1"

definition kInt64Max :: int where
  "kInt64Max = 2 ^ 63 - 1"

definition kInt64Min :: int where
  "kInt64Min = - (2 ^ 63)"

text \<open>The \<^verbatim>\<open>std::int64_t\<close> range.\<close>

definition int64_range :: "int \<Rightarrow> bool" where
  "int64_range x \<longleftrightarrow> kInt64Min \<le> x \<and> x \<le> kInt64Max"

named_theorems word_nat "transfer of bounded word arithmetic to natural numbers"

lemma unat_minus_le [word_nat]:
  "(b::'a::len word) \<le> a \<Longrightarrow> unat (a - b) = unat a - unat b"
  by (rule unat_sub)

lemma unat_plus_less [word_nat]:
  "unat (a::'a::len word) + unat b < 2 ^ LENGTH('a) \<Longrightarrow> unat (a + b) = unat a + unat b"
  by (simp add: unat_add_lem)

lemma unat_min [word_nat]: "unat (min (a::'a::len word) b) = min (unat a) (unat b)"
  by (simp add: min_def word_le_nat_alt)

lemma unat_u64_less [simp]: "unat (w :: u64) < 18446744073709551616"
  using unsigned_less [of w, where ?'a = nat] by simp

lemma unat_u32_less [simp]: "unat (w :: u32) < 4294967296"
  using unsigned_less [of w, where ?'a = nat] by simp

lemma unat_of_nat_u64: "n < 2 ^ 64 \<Longrightarrow> unat (word_of_nat n :: u64) = n"
  by (simp add: unat_of_nat take_bit_eq_mod)

lemma unat_of_nat_u32: "n < 2 ^ 32 \<Longrightarrow> unat (word_of_nat n :: u32) = n"
  by (simp add: unat_of_nat take_bit_eq_mod)

lemma word_neq_0_unat: "(w :: 'a::len word) \<noteq> 0 \<longleftrightarrow> 0 < unat w"
  by (simp add: unat_gt_0)

section \<open>Outcome of an operation\<close>

text \<open>
  A C++ function that returns a value is a HOL function of that value.  Functions with a loop that
  may never exit, or with a write through a caller-supplied span, return an outcome: \<^term>\<open>None\<close>
  when the call never returns, \<^term>\<open>Some (Inl f)\<close> when it performs the out-of-range access \<open>f\<close>
  (undefined behaviour), \<^term>\<open>Some (Inr v)\<close> when it returns \<open>v\<close>.
\<close>

datatype fault =
    Trade_Buffer_Overflow   \<comment> \<open>\<^verbatim>\<open>trades[trade_count++]\<close> past the end of the span\<close>
  | Event_Buffer_Overflow   \<comment> \<open>\<^verbatim>\<open>events[index]\<close> past the end of the span\<close>
  | Activation_Overflow     \<comment> \<open>\<^verbatim>\<open>stop_activations_[count++]\<close> past the end of the array\<close>
  | Arena_Overflow          \<comment> \<open>a parallel array indexed with \<^verbatim>\<open>kInvalidIndex\<close> after a failed acquire\<close>
  | Empty_Optional          \<comment> \<open>\<^verbatim>\<open>*optional\<close> of an optional that holds nothing\<close>

text \<open>The C++ exceptions the constructors throw.\<close>

datatype cpp_exception = Invalid_Argument | Length_Error | Overflow_Error

type_synonym 'a run = "(fault + 'a) option"

definition ret :: "'a \<Rightarrow> 'a run" where
  "ret x = Some (Inr x)"

definition crash :: "fault \<Rightarrow> 'a run" where
  "crash f = Some (Inl f)"

definition run_bind :: "'a run \<Rightarrow> ('a \<Rightarrow> 'b run) \<Rightarrow> 'b run" where
  "run_bind m k = (case m of None \<Rightarrow> None
                   | Some r \<Rightarrow> (case r of Inl f \<Rightarrow> Some (Inl f) | Inr x \<Rightarrow> k x))"

lemma run_bind_ret [simp]: "run_bind (ret x) k = k x"
  by (simp add: run_bind_def ret_def)

lemma run_bind_crash [simp]: "run_bind (crash f) k = crash f"
  by (simp add: run_bind_def crash_def)

lemma run_bind_None [simp]: "run_bind None k = None"
  by (simp add: run_bind_def)

lemma ret_inject [simp]: "ret x = ret y \<longleftrightarrow> x = y"
  by (simp add: ret_def)

lemma ret_not_crash [simp]: "ret x \<noteq> crash f" "crash f \<noteq> ret x"
  by (simp_all add: ret_def crash_def)

lemma ret_not_None [simp]: "ret x \<noteq> None" "crash f \<noteq> None" "None \<noteq> ret x"
  by (simp_all add: ret_def crash_def)

lemma run_bind_eq_ret_iff:
  "run_bind m k = ret y \<longleftrightarrow> (\<exists>x. m = ret x \<and> k x = ret y)"
  by (auto simp: run_bind_def ret_def split: option.splits sum.splits)

lemma run_bind_assoc:
  "run_bind (run_bind m k) l = run_bind m (\<lambda>x. run_bind (k x) l)"
  by (simp add: run_bind_def split: option.splits sum.splits)

lemma run_bind_mono [partial_function_mono]:
  assumes "mono_option B" and "\<And>y. mono_option (\<lambda>f. C y f)"
  shows "mono_option (\<lambda>f. run_bind (B f) (\<lambda>y. C y f))"
proof -
  have eq: "(\<lambda>f. run_bind (B f) (\<lambda>y. C y f)) =
        (\<lambda>f. Option.bind (B f) (\<lambda>r. case r of Inl e \<Rightarrow> Some (Inl e) | Inr x \<Rightarrow> C x f))"
    by (simp add: run_bind_def fun_eq_iff split: option.splits)
  have "mono_option (\<lambda>f. case r of Inl e \<Rightarrow> Some (Inl e) | Inr x \<Rightarrow> C x f)" for r
    by (cases r) (simp_all add: assms(2) option.const_mono)
  then show ?thesis
    unfolding eq by (intro bind_mono assms(1))
qed

section \<open>Lists\<close>

lemma nth_list_update_if:
  "i < length xs \<Longrightarrow> xs[i := v] ! j = (if j = i then v else xs ! j)"
  by simp

lemma sum_list_map_remove:
  "sum_list (map f (xs @ x # ys)) = sum_list (map f (xs @ ys)) + (f x :: nat)"
  by simp

end
