(* ===== verification/ME_Types.thy ===== *)
theory ME_Types
  imports ME_Prelude
begin

text \<open>
  The strong types of \<^verbatim>\<open>types.hpp\<close>, the order record and its packed level/side word of
  \<^verbatim>\<open>order.hpp\<close>, and the bounded price domain of \<^verbatim>\<open>price_domain.hpp\<close>.  Prices are \<^verbatim>\<open>std::int64_t\<close>
  tick counts, modelled as integers whose range is stated where it matters; quantities and
  identifiers are 64-bit words.
\<close>

section \<open>Strong types\<close>

type_synonym price = int
type_synonym quantity = u64
type_synonym order_id = u64
type_synonym trader_id = u64
type_synonym sequence = u64

datatype side = Buy | Sell

text \<open>
  \<^verbatim>\<open>enum class Side : std::uint8_t\<close> as a caller may pass it: an enumerator, or another byte that a
  cast put there; the casts of the model give \<open>Raw_Side\<close> only for bytes that are no enumerator.
\<close>

datatype raw_side = Valid_Side side | Raw_Side u8

definition is_valid_side :: "raw_side \<Rightarrow> bool" where
  "is_valid_side s = (s = Valid_Side Buy \<or> s = Valid_Side Sell)"

record handle =
  h_index :: nat
  h_generation :: u32

section \<open>Orders\<close>

definition kInvalidIndex :: nat where
  "kInvalidIndex = 4294967295"

definition kOrderLevelMask :: u32 where
  "kOrderLevelMask = 0x7fffffff"

definition kOrderSideMask :: u32 where
  "kOrderSideMask = 0x80000000"

definition kOrderFlagDormantStop :: u32 where
  "kOrderFlagDormantStop = 1"

definition kOrderFlagStopMarket :: u32 where
  "kOrderFlagStopMarket = 2"

fun encode_level_side :: "nat \<Rightarrow> side \<Rightarrow> u32" where
  "encode_level_side level Buy = word_of_nat level"
| "encode_level_side level Sell = word_of_nat level OR kOrderSideMask"

definition is_encodable_tick_count :: "nat \<Rightarrow> bool" where
  "is_encodable_tick_count tick_count \<longleftrightarrow>
     tick_count \<noteq> 0 \<and> tick_count \<le> unat kOrderLevelMask + 1"

definition decode_level :: "u32 \<Rightarrow> nat" where
  "decode_level encoded = unat (encoded AND kOrderLevelMask)"

definition decode_side :: "u32 \<Rightarrow> side" where
  "decode_side encoded = (if encoded AND kOrderSideMask = 0 then Buy else Sell)"

record order =
  ord_id :: order_id
  ord_remaining :: quantity
  ord_prev :: nat
  ord_next :: nat
  ord_encoded :: u32
  ord_flags :: u32

lemma bit_kOrderLevelMask: "bit kOrderLevelMask n \<longleftrightarrow> n < 31"
proof -
  have eq: "kOrderLevelMask = mask 31" by (simp add: kOrderLevelMask_def mask_eq_decr_exp)
  show ?thesis unfolding eq by (auto simp: bit_simps)
qed

lemma bit_kOrderSideMask: "bit kOrderSideMask n \<longleftrightarrow> n = 31"
proof -
  have eq: "kOrderSideMask = push_bit 31 1" by (simp add: kOrderSideMask_def push_bit_eq_mult)
  show ?thesis unfolding eq by (auto simp only: bit_push_bit_iff possible_bit_word) auto
qed

lemma bit_word_of_nat_high:
  assumes "l < 2 ^ 31" and "31 \<le> n" shows "\<not> bit (word_of_nat l :: u32) n"
proof -
  have "l < 2 ^ n" using assms by (meson less_le_trans one_le_numeral power_increasing)
  then have "\<not> bit l n" by (simp add: bit_iff_odd)
  then show ?thesis by (simp add: bit_simps)
qed

lemma decode_level_encode [simp]:
  assumes "l < 2 ^ 31" shows "decode_level (encode_level_side l s) = l"
proof -
  have "bit (encode_level_side l s AND kOrderLevelMask) n \<longleftrightarrow> bit (word_of_nat l :: u32) n" for n
    using bit_word_of_nat_high [OF assms, of n]
    by (cases s)
      (auto simp: bit_kOrderLevelMask bit_kOrderSideMask bit_and_iff bit_or_iff not_le [symmetric])
  then have eq: "encode_level_side l s AND kOrderLevelMask = word_of_nat l"
    by (auto intro: bit_word_eqI)
  have "unat (word_of_nat l :: u32) = l" using assms by (intro unat_of_nat_u32) simp
  then show ?thesis unfolding decode_level_def eq .
qed

lemma decode_side_encode [simp]:
  assumes "l < 2 ^ 31" shows "decode_side (encode_level_side l s) = s"
proof -
  have b: "\<not> bit (word_of_nat l :: u32) 31" using bit_word_of_nat_high [OF assms] by simp
  have "word_of_nat l AND kOrderSideMask = (0::u32)"
    by (rule bit_word_eqI)
      (use b in \<open>auto simp: bit_kOrderSideMask bit_and_iff\<close>)
  moreover have "bit ((word_of_nat l OR kOrderSideMask) AND kOrderSideMask :: u32) 31"
    by (simp add: bit_kOrderSideMask bit_and_iff bit_or_iff)
  then have "(word_of_nat l OR kOrderSideMask) AND kOrderSideMask \<noteq> (0::u32)"
    by (metis bit_0_eq bot_apply bot_bool_def)
  ultimately show ?thesis by (cases s) (simp_all add: decode_side_def)
qed

section \<open>The price domain\<close>

record price_domain =
  pd_minimum :: price
  pd_maximum :: price
  pd_tick_count :: nat

definition checked_maximum :: "price \<Rightarrow> nat \<Rightarrow> cpp_exception + price" where
  "checked_maximum minimum tick_count =
     (if tick_count = 0 then Inl Invalid_Argument
      else let offset = int (tick_count - 1)
           in if minimum > kInt64Max - offset then Inl Overflow_Error
              else Inr (minimum + offset))"

definition make_price_domain :: "price \<Rightarrow> nat \<Rightarrow> cpp_exception + price_domain" where
  "make_price_domain minimum tick_count =
     (case checked_maximum minimum tick_count of
        Inl e \<Rightarrow> Inl e
      | Inr maximum \<Rightarrow>
          Inr \<lparr>pd_minimum = minimum, pd_maximum = maximum, pd_tick_count = tick_count\<rparr>)"

definition pd_contains :: "price_domain \<Rightarrow> price \<Rightarrow> bool" where
  "pd_contains d p \<longleftrightarrow> p \<ge> pd_minimum d \<and> p \<le> pd_maximum d"

definition index_of :: "price_domain \<Rightarrow> price \<Rightarrow> nat option" where
  "index_of d p = (if \<not> pd_contains d p then None else Some (nat (p - pd_minimum d)))"

definition price_at :: "price_domain \<Rightarrow> nat \<Rightarrow> price option" where
  "price_at d i = (if i \<ge> pd_tick_count d then None else Some (pd_minimum d + int i))"

text \<open>A domain the constructor can have produced.\<close>

definition domain_ok :: "price_domain \<Rightarrow> bool" where
  "domain_ok d \<longleftrightarrow> 0 < pd_tick_count d \<and> pd_maximum d = pd_minimum d + int (pd_tick_count d - 1)
     \<and> int64_range (pd_minimum d) \<and> pd_maximum d \<le> kInt64Max"

lemma make_price_domain_ok:
  "int64_range m \<Longrightarrow> make_price_domain m n = Inr d \<Longrightarrow>
     domain_ok d \<and> pd_minimum d = m \<and> pd_tick_count d = n"
  by (auto simp: make_price_domain_def checked_maximum_def domain_ok_def Let_def
      split: if_splits sum.splits)

lemma index_of_Some_iff:
  "domain_ok d \<Longrightarrow> index_of d p = Some i \<longleftrightarrow> i < pd_tick_count d \<and> p = pd_minimum d + int i"
  by (auto simp: index_of_def pd_contains_def domain_ok_def)

lemma index_of_less: "domain_ok d \<Longrightarrow> index_of d p = Some i \<Longrightarrow> i < pd_tick_count d"
  by (simp add: index_of_Some_iff)

lemma price_at_Some: "i < pd_tick_count d \<Longrightarrow> price_at d i = Some (pd_minimum d + int i)"
  by (simp add: price_at_def)

lemma price_at_int64: "domain_ok d \<Longrightarrow> price_at d i = Some p \<Longrightarrow> int64_range p"
  by (auto simp: price_at_def domain_ok_def int64_range_def split: if_splits)

end
