(* ===== verification/Bbo.thy ===== *)
theory Bbo
  imports ME_Types
begin

text \<open>
  The best-bid-and-offer snapshot (\<^verbatim>\<open>bbo.hpp\<close>, \<^verbatim>\<open>bbo.cpp\<close>): a sequence lock over six cells.  The writer makes
  the version odd, stores the cells and makes it even again; the reader retries until it sees the
  same even version before and after its loads.
\<close>

section \<open>State\<close>

record bbo_state =
  bs_bid_price :: "price option"
  bs_bid_quantity :: quantity
  bs_ask_price :: "price option"
  bs_ask_quantity :: quantity

record bbo_cells =
  bc_version :: u64
  bc_bid_price :: int
  bc_bid_quantity :: u64
  bc_ask_price :: int
  bc_ask_quantity :: u64
  bc_bid_present :: u8
  bc_ask_present :: u8

definition kDefaultReaderRetries :: nat where
  "kDefaultReaderRetries = 8"

definition empty_cells :: bbo_cells where
  "empty_cells = \<lparr>bc_version = 0, bc_bid_price = 0, bc_bid_quantity = 0, bc_ask_price = 0, bc_ask_quantity = 0,
     bc_bid_present = 0, bc_ask_present = 0\<rparr>"

definition value_or :: "int option \<Rightarrow> int \<Rightarrow> int" where
  "value_or x d = (case x of None \<Rightarrow> d | Some v \<Rightarrow> v)"

section \<open>Publishing\<close>

text \<open>The stores of \<^verbatim>\<open>publish\<close> in program order.\<close>

definition bump_version :: "bbo_cells \<Rightarrow> bbo_cells" where
  "bump_version c = c\<lparr>bc_version := bc_version c + 1\<rparr>"

definition publish_stores :: "bbo_state \<Rightarrow> (bbo_cells \<Rightarrow> bbo_cells) list" where
  "publish_stores s =
     [bump_version,
      \<lambda>c. c\<lparr>bc_bid_price := value_or (bs_bid_price s) 0\<rparr>,
      \<lambda>c. c\<lparr>bc_bid_quantity := bs_bid_quantity s\<rparr>,
      \<lambda>c. c\<lparr>bc_ask_price := value_or (bs_ask_price s) 0\<rparr>,
      \<lambda>c. c\<lparr>bc_ask_quantity := bs_ask_quantity s\<rparr>,
      \<lambda>c. c\<lparr>bc_bid_present := (if bs_bid_price s \<noteq> None then 1 else 0)\<rparr>,
      \<lambda>c. c\<lparr>bc_ask_present := (if bs_ask_price s \<noteq> None then 1 else 0)\<rparr>,
      bump_version]"

definition bbo_publish :: "bbo_state \<Rightarrow> bbo_cells \<Rightarrow> bbo_cells" where
  "bbo_publish s c = foldl (\<lambda>c store. store c) c (publish_stores s)"

section \<open>Reading\<close>

text \<open>What the reader has loaded so far, and the six loads in program order; an absent price is not loaded.\<close>

record bbo_loads =
  bl_bid_present :: u8
  bl_bid_price :: int
  bl_bid_quantity :: u64
  bl_ask_present :: u8
  bl_ask_price :: int
  bl_ask_quantity :: u64

definition no_loads :: bbo_loads where
  "no_loads = \<lparr>bl_bid_present = 0, bl_bid_price = 0, bl_bid_quantity = 0, bl_ask_present = 0, bl_ask_price = 0, bl_ask_quantity = 0\<rparr>"

definition load_cell :: "nat \<Rightarrow> bbo_cells \<Rightarrow> bbo_loads \<Rightarrow> bbo_loads" where
  "load_cell k c l =
     (if k = 0 then l\<lparr>bl_bid_present := bc_bid_present c\<rparr>
      else if k = 1 then (if bl_bid_present l \<noteq> 0 then l\<lparr>bl_bid_price := bc_bid_price c\<rparr> else l)
      else if k = 2 then l\<lparr>bl_bid_quantity := bc_bid_quantity c\<rparr>
      else if k = 3 then l\<lparr>bl_ask_present := bc_ask_present c\<rparr>
      else if k = 4 then (if bl_ask_present l \<noteq> 0 then l\<lparr>bl_ask_price := bc_ask_price c\<rparr> else l)
      else l\<lparr>bl_ask_quantity := bc_ask_quantity c\<rparr>)"

definition loaded_state :: "bbo_loads \<Rightarrow> bbo_state" where
  "loaded_state l = \<lparr>bs_bid_price = (if bl_bid_present l \<noteq> 0 then Some (bl_bid_price l) else None), bs_bid_quantity = bl_bid_quantity l,
     bs_ask_price = (if bl_ask_present l \<noteq> 0 then Some (bl_ask_price l) else None), bs_ask_quantity = bl_ask_quantity l\<rparr>"

text \<open>\<^verbatim>\<open>read\<close> with no writer in between: every attempt sees the same cells.\<close>

fun bbo_read :: "nat \<Rightarrow> bbo_cells \<Rightarrow> bbo_state option" where
  "bbo_read 0 c = None"
| "bbo_read (Suc n) c =
     (if bc_version c AND 1 \<noteq> 0 then bbo_read n c
      else Some (loaded_state (foldl (\<lambda>l k. load_cell k c l) no_loads [0..<6])))"

section \<open>The writer and a reader, interleaved\<close>

text \<open>
  Every access is sequentially consistent in the source, so the executions are the interleavings of
  the accesses.  The ghost \<open>lk_published\<close> is the state last published as a whole, \<open>lk_count\<close> the number
  of version increments.
\<close>

datatype reader_pc = R_Start nat | R_Load nat u64 nat bbo_loads | R_Done "bbo_state option"

record lock_state =
  lk_cells :: bbo_cells
  lk_writer :: "(bbo_cells \<Rightarrow> bbo_cells) list"
  lk_writing :: bbo_state
  lk_reader :: reader_pc
  lk_published :: bbo_state
  lk_history :: "bbo_state list"
  lk_count :: nat

inductive lock_step :: "lock_state \<Rightarrow> lock_state \<Rightarrow> bool" where
  begin_publish: "lk_writer x = [] \<Longrightarrow> lock_step x (x\<lparr>lk_writer := publish_stores s, lk_writing := s\<rparr>)"
| store: "lk_writer x = f # fs \<Longrightarrow> fs \<noteq> [] \<Longrightarrow>
    lock_step x (x\<lparr>lk_cells := f (lk_cells x), lk_writer := fs, lk_count := lk_count x + (if length fs = 7 then 1 else 0)\<rparr>)"
| last_store: "lk_writer x = [f] \<Longrightarrow>
    lock_step x (x\<lparr>lk_cells := f (lk_cells x), lk_writer := [], lk_count := lk_count x + 1,
      lk_published := lk_writing x, lk_history := lk_history x @ [lk_writing x]\<rparr>)"
| begin_read: "lk_reader x = R_Start (Suc n) \<Longrightarrow>
    lock_step x (x\<lparr>lk_reader := (if bc_version (lk_cells x) AND 1 \<noteq> 0 then R_Start n else R_Load n (bc_version (lk_cells x)) 0 no_loads)\<rparr>)"
| load: "lk_reader x = R_Load n before k l \<Longrightarrow> k < 6 \<Longrightarrow>
    lock_step x (x\<lparr>lk_reader := R_Load n before (k + 1) (load_cell k (lk_cells x) l)\<rparr>)"
| check: "lk_reader x = R_Load n before 6 l \<Longrightarrow>
    lock_step x (x\<lparr>lk_reader := (if before = bc_version (lk_cells x) then R_Done (Some (loaded_state l)) else R_Start n)\<rparr>)"
| give_up: "lk_reader x = R_Start 0 \<Longrightarrow> lock_step x (x\<lparr>lk_reader := R_Done None\<rparr>)"

end
