(* ===== verification/Bbo_Properties.thy ===== *)
theory Bbo_Properties
  imports Bbo
begin

text \<open>The sequence lock never hands out a torn snapshot.\<close>

section \<open>The invariant\<close>

text \<open>How far the cells hold the state that is being written, and how far the loads agree with the cells.\<close>

definition stored :: "nat \<Rightarrow> bbo_state \<Rightarrow> bbo_cells \<Rightarrow> bool" where
  "stored j s c \<longleftrightarrow> (1 < j \<longrightarrow> bc_bid_price c = value_or (bs_bid_price s) 0) \<and> (2 < j \<longrightarrow> bc_bid_quantity c = bs_bid_quantity s) \<and>
     (3 < j \<longrightarrow> bc_ask_price c = value_or (bs_ask_price s) 0) \<and> (4 < j \<longrightarrow> bc_ask_quantity c = bs_ask_quantity s) \<and>
     (5 < j \<longrightarrow> bc_bid_present c = (if bs_bid_price s \<noteq> None then 1 else 0)) \<and>
     (6 < j \<longrightarrow> bc_ask_present c = (if bs_ask_price s \<noteq> None then 1 else 0))"

definition agree :: "nat \<Rightarrow> bbo_loads \<Rightarrow> bbo_cells \<Rightarrow> bool" where
  "agree k l c \<longleftrightarrow> (0 < k \<longrightarrow> bl_bid_present l = bc_bid_present c) \<and> (1 < k \<longrightarrow> bc_bid_present c \<noteq> 0 \<longrightarrow> bl_bid_price l = bc_bid_price c) \<and>
     (2 < k \<longrightarrow> bl_bid_quantity l = bc_bid_quantity c) \<and> (3 < k \<longrightarrow> bl_ask_present l = bc_ask_present c) \<and>
     (4 < k \<longrightarrow> bc_ask_present c \<noteq> 0 \<longrightarrow> bl_ask_price l = bc_ask_price c) \<and> (5 < k \<longrightarrow> bl_ask_quantity l = bc_ask_quantity c)"

definition idle :: "lock_state \<Rightarrow> bool" where
  "idle x \<longleftrightarrow> lk_writer x = [] \<or> length (lk_writer x) = 8"

definition reader_ok :: "lock_state \<Rightarrow> bool" where
  "reader_ok x \<longleftrightarrow> (\<forall>n before k l. lk_reader x = R_Load n before k l \<longrightarrow> k \<le> 6 \<and>
     (\<exists>m. before = word_of_nat m \<and> even m \<and> m \<le> lk_count x \<and> (m = lk_count x \<longrightarrow> agree k l (lk_cells x))))"

definition lock_ok :: "lock_state \<Rightarrow> bool" where
  "lock_ok x \<longleftrightarrow> length (lk_writer x) \<le> 8 \<and> lk_writer x = drop (8 - length (lk_writer x)) (publish_stores (lk_writing x)) \<and>
     bc_version (lk_cells x) = word_of_nat (lk_count x) \<and> (even (lk_count x) \<longleftrightarrow> idle x) \<and>
     (idle x \<longrightarrow> stored 7 (lk_published x) (lk_cells x)) \<and>
     (\<not> idle x \<longrightarrow> stored (8 - length (lk_writer x)) (lk_writing x) (lk_cells x)) \<and>
     reader_ok x"

lemma reader_ok_stale:
  assumes "reader_ok x" "lk_reader x' = lk_reader x" "lk_count x' = lk_count x + 1 \<or> odd (lk_count x) \<and> lk_count x' = lk_count x"
  shows "reader_ok x'"
  unfolding reader_ok_def
proof (intro allI impI conjI)
  fix n before k l assume r: "lk_reader x' = R_Load n before k l"
  then obtain m where m: "k \<le> 6" "before = word_of_nat m" "even m" "m \<le> lk_count x" using assms(1,2) unfolding reader_ok_def by metis
  then have "m \<le> lk_count x'" "m \<noteq> lk_count x'" using assms(3) by auto
  then show "k \<le> 6" "\<exists>m. before = word_of_nat m \<and> even m \<and> m \<le> lk_count x' \<and> (m = lk_count x' \<longrightarrow> agree k l (lk_cells x'))"
    using m by blast+
qed

lemma length_publish_stores [simp]: "length (publish_stores s) = 8"
  by (simp add: publish_stores_def)

lemma even_version: "(word_of_nat m :: u64) AND 1 = 0 \<longleftrightarrow> even m"
  by (simp add: and_one_eq even_iff_mod_2_eq_zero [symmetric])

lemma agree_loaded: "agree 6 l c \<Longrightarrow> stored 7 s c \<Longrightarrow> loaded_state l = s"
  by (cases s) (auto simp: agree_def stored_def loaded_state_def value_or_def)

lemma load_agree: "agree k l c \<Longrightarrow> k < 6 \<Longrightarrow> agree (k + 1) (load_cell k c l) c"
  unfolding agree_def load_cell_def by (auto simp: less_Suc_eq)

lemma store_stored:
  assumes "stored j s c" "1 \<le> j" "j \<le> 6"
  shows "stored (j + 1) s ((publish_stores s ! j) c) \<and> bc_version ((publish_stores s ! j) c) = bc_version c"
proof -
  consider "j = 1" | "j = 2" | "j = 3" | "j = 4" | "j = 5" | "j = 6" using assms(2,3) by linarith
  then show ?thesis
    using assms(1) by cases (simp_all add: stored_def publish_stores_def)
qed

lemma lock_step_ok:
  assumes step: "lock_step x x'" and ok: "lock_ok x"
  shows "lock_ok x'"
proof -
  have o: "length (lk_writer x) \<le> 8" "lk_writer x = drop (8 - length (lk_writer x)) (publish_stores (lk_writing x))"
    "bc_version (lk_cells x) = word_of_nat (lk_count x)" "even (lk_count x) \<longleftrightarrow> idle x"
    "idle x \<Longrightarrow> stored 7 (lk_published x) (lk_cells x)" "\<not> idle x \<Longrightarrow> stored (8 - length (lk_writer x)) (lk_writing x) (lk_cells x)"
    "reader_ok x"
    using ok by (auto simp: lock_ok_def)
  from step show ?thesis
  proof (cases rule: lock_step.cases)
    case (begin_publish s)
    then show ?thesis using o by (simp add: lock_ok_def idle_def reader_ok_def)
  next
    case (store f fs)
    define j where "j = 8 - length (lk_writer x)"
    have len: "length (lk_writer x) = Suc (length fs)" "length fs \<noteq> 0" using store(2,3) by simp_all
    have j: "j \<le> 6" "length fs = 7 - j" using len o(1) by (simp_all add: j_def, linarith+)
    have "f # fs = publish_stores (lk_writing x) ! j # drop (Suc j) (publish_stores (lk_writing x))"
      using o(2) store(2) j(1) Cons_nth_drop_Suc [of j "publish_stores (lk_writing x)"] unfolding j_def [symmetric] by simp
    then have f: "f = publish_stores (lk_writing x) ! j" "fs = drop (8 - length fs) (publish_stores (lk_writing x))"
      using j by (simp_all add: Suc_diff_le)
    have x': "lk_cells x' = f (lk_cells x)" "lk_writer x' = fs" "lk_count x' = lk_count x + (if length fs = 7 then 1 else 0)"
      "lk_reader x' = lk_reader x" "lk_writing x' = lk_writing x" using store(1) by simp_all
    have ni: "\<not> idle x'" using len j by (auto simp: idle_def x')
    show ?thesis
    proof (cases "j = 0")
      case True
      then have lf: "length fs = 7" and id: "idle x" using j len by (simp_all add: idle_def)
      have bump: "f (lk_cells x) = bump_version (lk_cells x)" using f(1) True by (simp add: publish_stores_def)
      have "reader_ok x'" by (rule reader_ok_stale [OF o(7)]) (simp_all add: x' lf)
      then show ?thesis using lf f(2) bump o(3,4) ni id by (simp add: lock_ok_def x' bump_version_def stored_def)
    next
      case False
      then have lf: "length fs \<noteq> 7" "8 - length fs = j + 1" and nx: "\<not> idle x" using j len by (auto simp: idle_def)
      have "stored j (lk_writing x) (lk_cells x)" using o(6) [OF nx] by (simp add: j_def)
      then have st: "stored (j + 1) (lk_writing x) (f (lk_cells x))" "bc_version (f (lk_cells x)) = bc_version (lk_cells x)"
        using store_stored [of j "lk_writing x" "lk_cells x"] False j(1) f(1) by simp_all
      have "reader_ok x'" by (rule reader_ok_stale [OF o(7)]) (use nx o(4) lf in \<open>simp_all add: x'\<close>)
      then show ?thesis using lf f(2) st o(3,4) ni nx j(2) unfolding lock_ok_def x' by simp
    qed
  next
    case (last_store f)
    have ni: "\<not> idle x" and len: "length (lk_writer x) = 1" using last_store(2) by (simp_all add: idle_def)
    have "[f] = drop 7 (publish_stores (lk_writing x))" using o(2) last_store(2) by simp
    then have f: "f = bump_version" by (simp add: publish_stores_def)
    have st: "stored 7 (lk_writing x) (bump_version (lk_cells x))" using o(6) [OF ni] len by (simp add: stored_def bump_version_def)
    have "reader_ok x'" by (rule reader_ok_stale [OF o(7)]) (simp_all add: last_store(1))
    then show ?thesis using f st o(3,4) ni by (simp add: lock_ok_def last_store(1) idle_def) (simp add: bump_version_def)
  next
    case (begin_read n)
    have "reader_ok x'" using o(3) even_version [of "lk_count x"] by (auto simp: reader_ok_def begin_read(1) agree_def split: if_splits)
    then show ?thesis using o by (simp add: lock_ok_def begin_read(1) idle_def)
  next
    case (load n before k l)
    then obtain m where "before = word_of_nat m" "even m" "m \<le> lk_count x" "m = lk_count x \<longrightarrow> agree k l (lk_cells x)"
      using o(7) unfolding reader_ok_def by metis
    then have "\<exists>m. before = word_of_nat m \<and> even m \<and> m \<le> lk_count x \<and> (m = lk_count x \<longrightarrow> agree (k + 1) (load_cell k (lk_cells x) l) (lk_cells x))"
      using load_agree load(3) by blast
    then have "reader_ok x'" using load(1,3) by (simp add: reader_ok_def)
    then show ?thesis using o by (simp add: lock_ok_def load(1) idle_def)
  next
    case (check n before l)
    have "reader_ok x'" by (simp add: reader_ok_def check(1))
    then show ?thesis using o by (simp add: lock_ok_def check(1) idle_def)
  next
    case give_up
    have "reader_ok x'" by (simp add: reader_ok_def give_up(1))
    then show ?thesis using o by (simp add: lock_ok_def give_up(1) idle_def)
  qed
qed

section \<open>Properties\<close>

definition start_lock :: "nat \<Rightarrow> lock_state" where
  "start_lock retries = \<lparr>lk_cells = empty_cells, lk_writer = [],
     lk_writing = \<lparr>bs_bid_price = None, bs_bid_quantity = 0, bs_ask_price = None, bs_ask_quantity = 0\<rparr>, lk_reader = R_Start retries,
     lk_published = \<lparr>bs_bid_price = None, bs_bid_quantity = 0, bs_ask_price = None, bs_ask_quantity = 0\<rparr>, lk_history = [], lk_count = 0\<rparr>"

lemma start_lock_ok: "lock_ok (start_lock n)"
  by (simp add: lock_ok_def reader_ok_def start_lock_def idle_def stored_def empty_cells_def value_or_def)

lemma reachable_lock_ok: "lock_step\<^sup>*\<^sup>* (start_lock n) x \<Longrightarrow> lock_ok x"
  by (induction rule: rtranclp_induct) (use start_lock_ok lock_step_ok in auto)

text \<open>
  C21. However a reader and the writer interleave, a snapshot the reader accepts is the one published last at the
  moment of its final version check: never a mixture of two states.  This holds for the first
  \<open>2 ^ 64 - 1\<close> version increments; after that the version repeats.
\<close>

theorem bbo_read_not_torn:
  assumes "lock_step\<^sup>*\<^sup>* (start_lock n) x" "lock_step x x'" "lk_reader x = R_Load a before 6 l" "lk_reader x' = R_Done (Some s)"
    and "lk_count x < 2 ^ 64"
  shows "s = lk_published x"
proof -
  note ok = reachable_lock_ok [OF assms(1)]
  obtain m where m: "before = word_of_nat m" "even m" "m \<le> lk_count x" "m = lk_count x \<longrightarrow> agree 6 l (lk_cells x)"
    using ok assms(3) unfolding lock_ok_def reader_ok_def by metis
  have eq: "before = bc_version (lk_cells x) \<and> s = loaded_state l"
    using assms(2) by (cases rule: lock_step.cases) (use assms(3,4) in \<open>auto split: if_splits\<close>)
  then have "(word_of_nat m :: u64) = word_of_nat (lk_count x)" using m(1) ok by (simp add: lock_ok_def)
  then have "unat (word_of_nat m :: u64) = unat (word_of_nat (lk_count x) :: u64)" by simp
  then have "m = lk_count x" using m(3) assms(5) by (simp add: unsigned_of_nat take_bit_eq_mod)
  then have "agree 6 l (lk_cells x)" "idle x" using m ok by (simp_all add: lock_ok_def)
  then show ?thesis using agree_loaded eq ok by (simp add: lock_ok_def)
qed

section \<open>A concrete interleaving\<close>

lemma loads_run:
  "lk_reader x = R_Load n v k l \<Longrightarrow> k + m \<le> 6 \<Longrightarrow>
     lock_step\<^sup>*\<^sup>* x (x\<lparr>lk_reader := R_Load n v (k + m) (foldl (\<lambda>l k. load_cell k (lk_cells x) l) l [k..<k + m])\<rparr>)"
proof (induction m)
  case 0
  then have "x\<lparr>lk_reader := R_Load n v k l\<rparr> = x" by (cases x) simp
  then show ?case by simp
next
  case (Suc m)
  let ?l = "foldl (\<lambda>l k. load_cell k (lk_cells x) l) l [k..<k + m]"
  let ?x = "x\<lparr>lk_reader := R_Load n v (k + m) ?l\<rparr>"
  have "lock_step ?x (?x\<lparr>lk_reader := R_Load n v (k + m + 1) (load_cell (k + m) (lk_cells ?x) ?l)\<rparr>)"
    by (rule lock_step.load) (use Suc.prems in simp_all)
  then show ?case using Suc by (simp add: rtranclp.rtrancl_into_rtrancl)
qed

lemma stores_run:
  "lk_writer x = fs \<Longrightarrow> fs \<noteq> [] \<Longrightarrow> length fs \<le> 7 \<Longrightarrow>
     lock_step\<^sup>*\<^sup>* x (x\<lparr>lk_cells := foldl (\<lambda>c f. f c) (lk_cells x) fs, lk_writer := [], lk_count := lk_count x + 1,
       lk_published := lk_writing x, lk_history := lk_history x @ [lk_writing x]\<rparr>)"
proof (induction fs arbitrary: x)
  case (Cons f fs)
  show ?case
  proof (cases "fs = []")
    case True
    then show ?thesis using lock_step.last_store [of x f] Cons.prems(1) by (simp add: r_into_rtranclp)
  next
    case False
    let ?x = "x\<lparr>lk_cells := f (lk_cells x), lk_writer := fs, lk_count := lk_count x + (if length fs = 7 then 1 else 0)\<rparr>"
    have "lock_step x ?x" by (rule lock_step.store [OF Cons.prems(1) False])
    moreover have "lock_step\<^sup>*\<^sup>* ?x (?x\<lparr>lk_cells := foldl (\<lambda>c f. f c) (lk_cells ?x) fs, lk_writer := [], lk_count := lk_count ?x + 1,
       lk_published := lk_writing ?x, lk_history := lk_history ?x @ [lk_writing ?x]\<rparr>)"
      by (rule Cons.IH) (use False Cons.prems(3) in simp_all)
    ultimately show ?thesis using Cons.prems(3) by (simp add: converse_rtranclp_into_rtranclp)
  qed
qed simp

lemma publish_run:
  assumes "lk_writer x = []"
  shows "lock_step\<^sup>*\<^sup>* x (x\<lparr>lk_cells := bbo_publish s (lk_cells x), lk_writing := s, lk_count := lk_count x + 2, lk_published := s,
    lk_history := lk_history x @ [s]\<rparr>)"
proof -
  let ?x1 = "x\<lparr>lk_writer := publish_stores s, lk_writing := s\<rparr>"
  obtain f fs where fs: "publish_stores s = f # fs" "length fs = 7" using length_publish_stores [of s] by (cases "publish_stores s") auto
  let ?x2 = "?x1\<lparr>lk_cells := f (lk_cells ?x1), lk_writer := fs, lk_count := lk_count ?x1 + (if length fs = 7 then 1 else 0)\<rparr>"
  have 1: "lock_step x ?x1" by (rule lock_step.begin_publish [OF assms])
  have 2: "lock_step ?x1 ?x2" by (rule lock_step.store) (use fs in auto)
  have 3: "lock_step\<^sup>*\<^sup>* ?x2 (?x2\<lparr>lk_cells := foldl (\<lambda>c f. f c) (lk_cells ?x2) fs, lk_writer := [], lk_count := lk_count ?x2 + 1,
       lk_published := lk_writing ?x2, lk_history := lk_history ?x2 @ [lk_writing ?x2]\<rparr>)"
    by (rule stores_run) (use fs in auto)
  have "x\<lparr>lk_cells := bbo_publish s (lk_cells x), lk_writing := s, lk_count := lk_count x + 2, lk_published := s, lk_history := lk_history x @ [s]\<rparr> =
      ?x2\<lparr>lk_cells := foldl (\<lambda>c f. f c) (lk_cells ?x2) fs, lk_writer := [], lk_count := lk_count ?x2 + 1,
       lk_published := lk_writing ?x2, lk_history := lk_history ?x2 @ [lk_writing ?x2]\<rparr>"
    using assms fs by (cases x) (simp add: bbo_publish_def)
  then show ?thesis using 1 2 3 by (metis (no_types, lifting) converse_rtranclp_into_rtranclp)
qed

text \<open>The reader has begun and loaded three cells when a whole publication comes in between; its check fails, it starts again and reads the new state.\<close>

definition demo_quote :: bbo_state where
  "demo_quote = \<lparr>bs_bid_price = Some 5, bs_bid_quantity = 3, bs_ask_price = Some 6, bs_ask_quantity = 2\<rparr>"

theorem bbo_read_not_torn_witness:
  "\<exists>x x'. lock_step\<^sup>*\<^sup>* (start_lock 2) x \<and> lock_step x x' \<and> lk_history x = [demo_quote] \<and> lk_reader x' = R_Done (Some demo_quote)"
proof -
  let ?s = demo_quote
  let ?loads = "\<lambda>c l ks. foldl (\<lambda>l k. load_cell k c l) l ks"
  define x1 where "x1 = (start_lock 2)\<lparr>lk_reader := R_Load 1 0 0 no_loads\<rparr>"
  define x2 where "x2 = x1\<lparr>lk_reader := R_Load 1 0 3 (?loads empty_cells no_loads [0..<3])\<rparr>"
  define x3 where "x3 = x2\<lparr>lk_cells := bbo_publish ?s empty_cells, lk_writing := ?s, lk_count := Suc (Suc 0), lk_published := ?s, lk_history := [?s]\<rparr>"
  define l4 where "l4 = ?loads (bbo_publish ?s empty_cells) (?loads empty_cells no_loads [0..<3]) [3..<6]"
  define x4 where "x4 = x3\<lparr>lk_reader := R_Load 1 0 6 l4\<rparr>"
  define x5 where "x5 = x3\<lparr>lk_reader := R_Start 1\<rparr>"
  define x6 where "x6 = x3\<lparr>lk_reader := R_Load 0 2 0 no_loads\<rparr>"
  define l7 where "l7 = ?loads (bbo_publish ?s empty_cells) no_loads [0..<6]"
  define x7 where "x7 = x3\<lparr>lk_reader := R_Load 0 2 6 l7\<rparr>"
  have v: "bc_version (bbo_publish ?s empty_cells) = 2" by (simp add: bbo_publish_def publish_stores_def bump_version_def empty_cells_def)
  note xs = x1_def x2_def x3_def x4_def x5_def x6_def x7_def
  have st: "lk_cells (start_lock 2) = empty_cells" "lk_writer (start_lock 2) = []" "lk_count (start_lock 2) = 0" "lk_history (start_lock 2) = []"
    "lk_reader (start_lock 2) = R_Start 2" "bc_version empty_cells = 0"
    by (simp_all add: start_lock_def empty_cells_def)
  have "lock_step (start_lock 2) x1" using lock_step.begin_read [of "start_lock 2" 1] st by (simp add: x1_def)
  moreover have "lock_step\<^sup>*\<^sup>* x1 x2" using loads_run [of x1 1 0 0 no_loads 3] st by (simp add: xs del: upt_rec_numeral upt_Suc)
  moreover have "lock_step\<^sup>*\<^sup>* x2 x3" using publish_run [of x2 ?s] st by (simp add: xs)
  moreover have "lock_step\<^sup>*\<^sup>* x3 x4" using loads_run [of x3 1 0 3 "?loads empty_cells no_loads [0..<3]" 3] by (simp add: xs l4_def del: upt_rec_numeral upt_Suc)
  moreover have "lock_step x4 x5" using lock_step.check [of x4 1 0 l4] v by (simp add: xs)
  moreover have "lock_step x5 x6" using lock_step.begin_read [of x5 0] v by (simp add: xs)
  moreover have "lock_step\<^sup>*\<^sup>* x6 x7" using loads_run [of x6 0 2 0 no_loads 6] by (simp add: xs l7_def del: upt_rec_numeral upt_Suc)
  ultimately have run: "lock_step\<^sup>*\<^sup>* (start_lock 2) x7" by (meson converse_rtranclp_into_rtranclp rtranclp_trans)
  have step: "lock_step x7 (x7\<lparr>lk_reader := R_Done (Some (loaded_state l7))\<rparr>)" using lock_step.check [of x7 0 2 l7] v by (simp add: xs)
  have "loaded_state l7 = lk_published x7" by (rule bbo_read_not_torn [OF run step]) (simp_all add: xs)
  then have "loaded_state l7 = ?s" by (simp add: xs)
  then show ?thesis using run step by (intro exI [of _ x7] exI [of _ "x7\<lparr>lk_reader := R_Done (Some (loaded_state l7))\<rparr>"]) (simp add: xs)
qed

text \<open>
  Without interference a published state is read back as it is, at the first attempt.
\<close>

theorem bbo_publish_read:
  assumes "bc_version c AND 1 = 0" "0 < n"
  shows "bbo_read n (bbo_publish s c) = Some s \<and> bc_version (bbo_publish s c) AND 1 = 0"
proof -
  have v: "bc_version (bbo_publish s c) = bc_version c + 2" by (simp add: bbo_publish_def publish_stores_def bump_version_def)
  have e: "bc_version (bbo_publish s c) AND 1 = 0" using assms(1) unfolding v and_one_eq by (simp add: even_iff_mod_2_eq_zero [symmetric])
  have "agree k (foldl (\<lambda>l k. load_cell k d l) no_loads [0..<k]) d" if "k \<le> 6" for k d
    using that by (induction k) (use load_agree in \<open>auto simp: agree_def [of 0]\<close>)
  then have "agree 6 (foldl (\<lambda>l k. load_cell k (bbo_publish s c) l) no_loads [0..<6]) (bbo_publish s c)" by blast
  moreover have "stored 7 s (bbo_publish s c)" by (simp add: stored_def bbo_publish_def publish_stores_def bump_version_def)
  ultimately have "loaded_state (foldl (\<lambda>l k. load_cell k (bbo_publish s c) l) no_loads [0..<6]) = s" by (rule agree_loaded)
  then show ?thesis using e assms(2) by (cases n) (simp_all del: upt_Suc upt_rec_numeral)
qed

theorem bbo_publish_read_witness:
  "bbo_read 8 (bbo_publish \<lparr>bs_bid_price = Some 5, bs_bid_quantity = 3, bs_ask_price = None, bs_ask_quantity = 0\<rparr> empty_cells) =
     Some \<lparr>bs_bid_price = Some 5, bs_bid_quantity = 3, bs_ask_price = None, bs_ask_quantity = 0\<rparr>"
proof -
  have "bc_version empty_cells AND 1 = 0" by (simp add: empty_cells_def)
  from bbo_publish_read [OF this, of 8] show ?thesis by simp
qed

end
