(* ===== verification/Occupancy_Index.thy ===== *)
theory Occupancy_Index
  imports ME_Types
begin

text \<open>
  The contract between the order book and the structure that tells it which price levels hold
  orders: an ordered set of level indices below a fixed bound, with insertion, removal and the four
  neighbour queries.  The order book uses nothing else of the bitmap.
\<close>

text \<open>The result of a search for the least element from \<open>i\<close> on, below \<open>n\<close>.\<close>

definition is_least :: "(nat \<Rightarrow> bool) \<Rightarrow> nat \<Rightarrow> nat \<Rightarrow> nat option \<Rightarrow> bool" where
  "is_least P i n r \<longleftrightarrow> (case r of
       None \<Rightarrow> \<forall>j. i \<le> j \<and> j < n \<longrightarrow> \<not> P j
     | Some j \<Rightarrow> i \<le> j \<and> j < n \<and> P j \<and> (\<forall>k. i \<le> k \<and> k < j \<longrightarrow> \<not> P k))"

text \<open>The result of a search for the greatest element up to \<open>i\<close>.\<close>

definition is_greatest :: "(nat \<Rightarrow> bool) \<Rightarrow> nat \<Rightarrow> nat option \<Rightarrow> bool" where
  "is_greatest P i r \<longleftrightarrow> (case r of
       None \<Rightarrow> \<forall>j \<le> i. \<not> P j
     | Some j \<Rightarrow> j \<le> i \<and> P j \<and> (\<forall>k. j < k \<and> k \<le> i \<longrightarrow> \<not> P k))"

lemma is_least_eq_Some:
  assumes "is_least P i n r"
  shows "r = Some j \<longleftrightarrow> i \<le> j \<and> j < n \<and> P j \<and> (\<forall>k. i \<le> k \<and> k < j \<longrightarrow> \<not> P k)"
proof (cases r)
  case (Some m)
  with assms have m: "i \<le> m" "m < n" "P m" "\<And>k. i \<le> k \<Longrightarrow> k < m \<Longrightarrow> \<not> P k"
    by (auto simp: is_least_def)
  show ?thesis unfolding Some using m by (cases m j rule: linorder_cases) auto
qed (use assms in \<open>auto simp: is_least_def\<close>)

lemma is_least_eq_None:
  "is_least P i n r \<Longrightarrow> r = None \<longleftrightarrow> (\<forall>j. i \<le> j \<and> j < n \<longrightarrow> \<not> P j)"
  by (cases r) (auto simp: is_least_def)

lemma is_greatest_eq_Some:
  assumes "is_greatest P i r"
  shows "r = Some j \<longleftrightarrow> j \<le> i \<and> P j \<and> (\<forall>k. j < k \<and> k \<le> i \<longrightarrow> \<not> P k)"
proof (cases r)
  case (Some m)
  with assms have m: "m \<le> i" "P m" "\<And>k. m < k \<Longrightarrow> k \<le> i \<Longrightarrow> \<not> P k"
    by (auto simp: is_greatest_def)
  show ?thesis unfolding Some using m by (cases m j rule: linorder_cases) auto
qed (use assms in \<open>auto simp: is_greatest_def\<close>)

lemma is_greatest_eq_None:
  "is_greatest P i r \<Longrightarrow> r = None \<longleftrightarrow> (\<forall>j \<le> i. \<not> P j)"
  by (cases r) (auto simp: is_greatest_def)

locale occupancy_index =
  fixes invar :: "'s \<Rightarrow> bool"
    and elems :: "'s \<Rightarrow> nat set"
    and bound :: "'s \<Rightarrow> nat"
    and mark :: "'s \<Rightarrow> nat \<Rightarrow> 's"
    and unmark :: "'s \<Rightarrow> nat \<Rightarrow> 's"
    and lookup :: "'s \<Rightarrow> nat \<Rightarrow> bool option"
    and least :: "'s \<Rightarrow> nat option"
    and greatest :: "'s \<Rightarrow> nat option"
    and at_or_after :: "'s \<Rightarrow> nat \<Rightarrow> nat option"
    and at_or_before :: "'s \<Rightarrow> nat \<Rightarrow> nat option"
  assumes elems_bound: "invar s \<Longrightarrow> i \<in> elems s \<Longrightarrow> i < bound s"
    and invar_mark: "invar s \<Longrightarrow> i < bound s \<Longrightarrow> invar (mark s i)"
    and elems_mark: "invar s \<Longrightarrow> i < bound s \<Longrightarrow> elems (mark s i) = insert i (elems s)"
    and bound_mark: "invar s \<Longrightarrow> i < bound s \<Longrightarrow> bound (mark s i) = bound s"
    and invar_unmark: "invar s \<Longrightarrow> i < bound s \<Longrightarrow> invar (unmark s i)"
    and elems_unmark: "invar s \<Longrightarrow> i < bound s \<Longrightarrow> elems (unmark s i) = elems s - {i}"
    and bound_unmark: "invar s \<Longrightarrow> i < bound s \<Longrightarrow> bound (unmark s i) = bound s"
    and lookup_elems: "invar s \<Longrightarrow> i < bound s \<Longrightarrow> lookup s i = Some (i \<in> elems s)"
    and least_law: "invar s \<Longrightarrow> is_least (\<lambda>j. j \<in> elems s) 0 (bound s) (least s)"
    and greatest_law: "invar s \<Longrightarrow> is_greatest (\<lambda>j. j \<in> elems s) (bound s - 1) (greatest s)"
    and after_law: "invar s \<Longrightarrow> is_least (\<lambda>j. j \<in> elems s) i (bound s) (at_or_after s i)"
    and before_law: "invar s \<Longrightarrow> i < bound s \<Longrightarrow> is_greatest (\<lambda>j. j \<in> elems s) i (at_or_before s i)"
begin

lemma finite_elems: "invar s \<Longrightarrow> finite (elems s)"
  using elems_bound by (metis bounded_nat_set_is_finite)

lemma least_eq_Some_iff:
  assumes "invar s"
  shows "least s = Some i \<longleftrightarrow> i \<in> elems s \<and> (\<forall>j \<in> elems s. i \<le> j)"
  unfolding is_least_eq_Some [OF least_law [OF assms]] using elems_bound [OF assms]
  by (auto simp: not_less [symmetric])

lemma greatest_eq_Some_iff:
  assumes "invar s"
  shows "greatest s = Some i \<longleftrightarrow> i \<in> elems s \<and> (\<forall>j \<in> elems s. j \<le> i)"
proof -
  have "j \<le> bound s - 1" if "j \<in> elems s" for j using elems_bound [OF assms that] by simp
  then show ?thesis
    unfolding is_greatest_eq_Some [OF greatest_law [OF assms]] by (auto simp: not_less [symmetric])
qed

lemma least_eq_None_iff:
  assumes "invar s" shows "least s = None \<longleftrightarrow> elems s = {}"
  unfolding is_least_eq_None [OF least_law [OF assms]] using elems_bound [OF assms] by auto

lemma greatest_eq_None_iff:
  assumes "invar s" shows "greatest s = None \<longleftrightarrow> elems s = {}"
proof -
  have "j \<le> bound s - 1" if "j \<in> elems s" for j using elems_bound [OF assms that] by simp
  then show ?thesis unfolding is_greatest_eq_None [OF greatest_law [OF assms]] by auto
qed

text \<open>The successor of a level is the next element above it, the predecessor the next below.\<close>

lemma after_eq_Some_iff:
  assumes "invar s"
  shows "at_or_after s (Suc i) = Some j \<longleftrightarrow> j \<in> elems s \<and> i < j \<and> (\<forall>k \<in> elems s. i < k \<longrightarrow> j \<le> k)"
  unfolding is_least_eq_Some [OF after_law [OF assms]] Suc_le_eq using elems_bound [OF assms]
  by (auto simp: not_less [symmetric])

lemma after_eq_None_iff:
  assumes "invar s"
  shows "at_or_after s (Suc i) = None \<longleftrightarrow> (\<forall>k \<in> elems s. k \<le> i)"
  unfolding is_least_eq_None [OF after_law [OF assms]] Suc_le_eq using elems_bound [OF assms]
  by (auto simp: not_less [symmetric])

lemma before_eq_Some_iff:
  assumes "invar s" "0 < i" "i < bound s"
  shows "at_or_before s (i - 1) = Some j \<longleftrightarrow> j \<in> elems s \<and> j < i \<and> (\<forall>k \<in> elems s. k < i \<longrightarrow> k \<le> j)"
proof -
  have le: "k \<le> i - 1 \<longleftrightarrow> k < i" for k using assms(2) by auto
  have b: "i - 1 < bound s" using assms(3) by simp
  show ?thesis unfolding is_greatest_eq_Some [OF before_law [OF assms(1) b]] le
    by (auto simp: not_less [symmetric])
qed

lemma before_eq_None_iff:
  assumes "invar s" "0 < i" "i < bound s"
  shows "at_or_before s (i - 1) = None \<longleftrightarrow> (\<forall>k \<in> elems s. i \<le> k)"
proof -
  have le: "k \<le> i - 1 \<longleftrightarrow> k < i" for k using assms(2) by auto
  have b: "i - 1 < bound s" using assms(3) by simp
  show ?thesis unfolding is_greatest_eq_None [OF before_law [OF assms(1) b]] le
    by (auto simp: not_less [symmetric])
qed

end

end
