(* ===== verification/Hierarchical_Bitmap.thy ===== *)
theory Hierarchical_Bitmap
  imports Occupancy_Index
begin

text \<open>
  The occupancy index of \<^verbatim>\<open>hierarchical_bitmap.hpp\<close>: a base level with one bit per price level and
  summary levels in which bit \<open>i\<close> says that word \<open>i\<close> of the level below is not zero, all in one
  array of 64-bit words.
\<close>

section \<open>Data\<close>

definition kWordBits :: nat where
  "kWordBits = 64"

definition kMaximumLevels :: nat where
  "kMaximumLevels = 6"

record layout =
  lay_offsets :: "nat list"
  lay_word_counts :: "nat list"
  lay_level_count :: nat
  lay_total_words :: nat

record bitmap =
  bm_bit_count :: nat
  bm_offsets :: "nat list"
  bm_word_counts :: "nat list"
  bm_level_count :: nat
  bm_total_words :: nat
  bm_words :: "u64 list"

text \<open>\<^verbatim>\<open>std::countr_zero\<close> and \<^verbatim>\<open>std::countl_zero\<close> on 64-bit words (64 at zero).\<close>

definition countr_zero :: "u64 \<Rightarrow> nat" where
  "countr_zero w = length (takeWhile (\<lambda>i. \<not> bit w i) [0..<64])"

definition countl_zero :: "u64 \<Rightarrow> nat" where
  "countl_zero w = length (takeWhile (\<lambda>i. \<not> bit w i) (rev [0..<64]))"

section \<open>Construction\<close>

text \<open>
  \<^verbatim>\<open>make_layout\<close>: the \<^verbatim>\<open>while (true)\<close> loop ends because every turn raises the level count by one from
  zero, and the depth guard stops it when the count reaches \<^verbatim>\<open>kMaximumLevels\<close>.  The source tests for equality; the count is
  never above the maximum, so that the two tests agree, and the one here makes the function total.
\<close>

function make_layout_loop :: "nat \<Rightarrow> layout \<Rightarrow> cpp_exception + layout" where
  "make_layout_loop level_bits lay =
     (if lay_level_count lay \<ge> kMaximumLevels then Inl Length_Error
      else let level_words = (level_bits + (kWordBits - 1)) div kWordBits in
        if level_words > kUint32Max then Inl Length_Error
        else if lay_total_words lay > kUint64Max - level_words then Inl Length_Error
        else let lay' = lay\<lparr>
                 lay_offsets := (lay_offsets lay)[lay_level_count lay := lay_total_words lay],
                 lay_word_counts := (lay_word_counts lay)[lay_level_count lay := level_words],
                 lay_total_words := lay_total_words lay + level_words,
                 lay_level_count := lay_level_count lay + 1\<rparr>
             in if level_words = 1 then Inr lay' else make_layout_loop level_words lay')"
  by pat_completeness auto
termination
  by (relation "measure (\<lambda>(_, lay). kMaximumLevels - lay_level_count lay)") auto

declare make_layout_loop.simps [simp del]

definition make_layout :: "nat \<Rightarrow> cpp_exception + layout" where
  "make_layout bit_count =
     (if bit_count = 0 then Inl Invalid_Argument
      else case make_layout_loop bit_count
              \<lparr>lay_offsets = replicate kMaximumLevels 0, lay_word_counts = replicate kMaximumLevels 0,
               lay_level_count = 0, lay_total_words = 0\<rparr> of
             Inl e \<Rightarrow> Inl e
           | Inr lay \<Rightarrow> if lay_total_words lay > kUint64Max div 8 then Inl Length_Error else Inr lay)"

definition make_bitmap :: "nat \<Rightarrow> cpp_exception + bitmap" where
  "make_bitmap bit_count =
     (case make_layout bit_count of
        Inl e \<Rightarrow> Inl e
      | Inr lay \<Rightarrow> Inr \<lparr>bm_bit_count = bit_count, bm_offsets = lay_offsets lay,
          bm_word_counts = lay_word_counts lay, bm_level_count = lay_level_count lay,
          bm_total_words = lay_total_words lay, bm_words = replicate (lay_total_words lay) 0\<rparr>)"

section \<open>Operations\<close>

definition bm_word :: "bitmap \<Rightarrow> nat \<Rightarrow> nat \<Rightarrow> u64" where
  "bm_word b level word_index = bm_words b ! (bm_offsets b ! level + word_index)"

definition bm_store :: "bitmap \<Rightarrow> nat \<Rightarrow> nat \<Rightarrow> u64 \<Rightarrow> bitmap" where
  "bm_store b level word_index w =
     b\<lparr>bm_words := (bm_words b)[bm_offsets b ! level + word_index := w]\<rparr>"

definition checked_word :: "bitmap \<Rightarrow> nat \<Rightarrow> nat \<Rightarrow> u64 option" where
  "checked_word b level word_index =
     (if level \<ge> bm_level_count b \<or> level \<ge> kMaximumLevels \<or>
         word_index \<ge> bm_word_counts b ! level \<or> bm_offsets b ! level > bm_total_words b \<or>
         word_index \<ge> bm_total_words b - bm_offsets b ! level
      then None else Some (bm_words b ! (bm_offsets b ! level + word_index)))"

definition level_bit_count :: "bitmap \<Rightarrow> nat \<Rightarrow> nat" where
  "level_bit_count b level =
     (if level \<ge> bm_level_count b \<or> level \<ge> kMaximumLevels then 0
      else if level = 0 then bm_bit_count b else bm_word_counts b ! (level - 1))"

text \<open>The summary loop of \<^verbatim>\<open>set\<close>: it stops at the first summary word that was not empty.\<close>

function set_summaries :: "bitmap \<Rightarrow> nat \<Rightarrow> nat \<Rightarrow> bitmap" where
  "set_summaries b level child_word =
     (if level < bm_level_count b then
        let summary_word_index = child_word div kWordBits;
            summary_word = bm_word b level summary_word_index;
            summary_bit = push_bit (child_word mod kWordBits) (1 :: u64);
            b' = bm_store b level summary_word_index (summary_word OR summary_bit)
        in if summary_word \<noteq> 0 then b' else set_summaries b' (level + 1) summary_word_index
      else b)"
  by pat_completeness auto
termination
  by (relation "measure (\<lambda>(b, level, _). bm_level_count b - level)") (auto simp: bm_store_def)

declare set_summaries.simps [simp del]

definition bm_set :: "bitmap \<Rightarrow> nat \<Rightarrow> bool \<times> bitmap" where
  "bm_set b index =
     (if index \<ge> bm_bit_count b then (False, b)
      else let child_word = index div kWordBits;
               base_word = bm_word b 0 child_word;
               base_bit = push_bit (index mod kWordBits) (1 :: u64)
           in if base_word AND base_bit \<noteq> 0 then (True, b)
              else let b' = bm_store b 0 child_word (base_word OR base_bit)
                   in if base_word \<noteq> 0 then (True, b')
                      else (True, set_summaries b' 1 child_word))"

function clear_summaries :: "bitmap \<Rightarrow> nat \<Rightarrow> nat \<Rightarrow> bitmap" where
  "clear_summaries b level child_word =
     (if level < bm_level_count b then
        let summary_word_index = child_word div kWordBits;
            summary_bit = push_bit (child_word mod kWordBits) (1 :: u64);
            summary_word = bm_word b level summary_word_index AND NOT summary_bit;
            b' = bm_store b level summary_word_index summary_word
        in if summary_word \<noteq> 0 then b' else clear_summaries b' (level + 1) summary_word_index
      else b)"
  by pat_completeness auto
termination
  by (relation "measure (\<lambda>(b, level, _). bm_level_count b - level)") (auto simp: bm_store_def)

declare clear_summaries.simps [simp del]

definition bm_clear :: "bitmap \<Rightarrow> nat \<Rightarrow> bool \<times> bitmap" where
  "bm_clear b index =
     (if index \<ge> bm_bit_count b then (False, b)
      else let child_word = index div kWordBits;
               base_word = bm_word b 0 child_word;
               base_bit = push_bit (index mod kWordBits) (1 :: u64)
           in if base_word AND base_bit = 0 then (True, b)
              else let base_word' = base_word AND NOT base_bit;
                       b' = bm_store b 0 child_word base_word'
                   in if base_word' \<noteq> 0 then (True, b')
                      else (True, clear_summaries b' 1 child_word))"

definition bm_test :: "bitmap \<Rightarrow> nat \<Rightarrow> bool option" where
  "bm_test b index =
     (if index \<ge> bm_bit_count b then None
      else Some (bm_word b 0 (index div kWordBits) AND push_bit (index mod kWordBits) 1 \<noteq> 0))"

text \<open>
  The recursive searches: a word of the current level first, then the summary level for the next
  populated word, then that word.
\<close>

function find_at_or_after :: "bitmap \<Rightarrow> nat \<Rightarrow> nat \<Rightarrow> nat option" where
  "find_at_or_after b level index =
     (let represented_bits = level_bit_count b level in
      if represented_bits = 0 \<or> index \<ge> represented_bits then None
      else let word_index = index div kWordBits in
        case checked_word b level word_index of
          None \<Rightarrow> None
        | Some current_word \<Rightarrow>
            let candidates = current_word AND push_bit (index mod kWordBits) (-1) in
            if candidates \<noteq> 0 then
              let result = word_index * kWordBits + countr_zero candidates
              in if result < represented_bits then Some result else None
            else if level \<ge> bm_level_count b - 1 then None
            else case find_at_or_after b (level + 1) (word_index + 1) of
                   None \<Rightarrow> None
                 | Some next_word \<Rightarrow>
                     if next_word \<ge> bm_word_counts b ! level then None
                     else case checked_word b level next_word of
                            None \<Rightarrow> None
                          | Some populated_word \<Rightarrow>
                              if populated_word = 0 then None
                              else let result = next_word * kWordBits + countr_zero populated_word
                                   in if result < represented_bits then Some result else None)"
  by pat_completeness auto
termination
  by (relation "measure (\<lambda>(b, level, _). bm_level_count b - level)") auto

function find_at_or_before :: "bitmap \<Rightarrow> nat \<Rightarrow> nat \<Rightarrow> nat option" where
  "find_at_or_before b level index =
     (let represented_bits = level_bit_count b level in
      if represented_bits = 0 \<or> index \<ge> represented_bits then None
      else let word_index = index div kWordBits in
        case checked_word b level word_index of
          None \<Rightarrow> None
        | Some current_word \<Rightarrow>
            let bit_index = index mod kWordBits;
                bit_mask = (if bit_index = kWordBits - 1 then -1
                         else push_bit (bit_index + 1) (1 :: u64) - 1);
                candidates = current_word AND bit_mask
            in if candidates \<noteq> 0 then
                 Some (word_index * kWordBits + (kWordBits - 1) - countl_zero candidates)
               else if level \<ge> bm_level_count b - 1 \<or> word_index = 0 then None
               else case find_at_or_before b (level + 1) (word_index - 1) of
                      None \<Rightarrow> None
                    | Some previous_word \<Rightarrow>
                        if previous_word \<ge> bm_word_counts b ! level then None
                        else case checked_word b level previous_word of
                               None \<Rightarrow> None
                             | Some populated_word \<Rightarrow>
                                 if populated_word = 0 then None
                                 else let result = previous_word * kWordBits + (kWordBits - 1)
                                                   - countl_zero populated_word
                                      in if result < represented_bits then Some result else None)"
  by pat_completeness auto
termination
  by (relation "measure (\<lambda>(b, level, _). bm_level_count b - level)") auto

declare find_at_or_after.simps [simp del] find_at_or_before.simps [simp del]

definition first_set :: "bitmap \<Rightarrow> nat option" where
  "first_set b = find_at_or_after b 0 0"

definition last_set :: "bitmap \<Rightarrow> nat option" where
  "last_set b = find_at_or_before b 0 (bm_bit_count b - 1)"

definition next_set :: "bitmap \<Rightarrow> nat \<Rightarrow> nat option" where
  "next_set b index = (if index \<ge> bm_bit_count b then None else find_at_or_after b 0 index)"

definition previous_set :: "bitmap \<Rightarrow> nat \<Rightarrow> nat option" where
  "previous_set b index = (if index \<ge> bm_bit_count b then None else find_at_or_before b 0 index)"

text \<open>
  \<^verbatim>\<open>hierarchy_consistent\<close>: first the layout arithmetic, level by level, then the padding bits and
  the agreement of every summary bit with the word below it.
\<close>

function layout_consistent_from :: "bitmap \<Rightarrow> nat \<Rightarrow> nat \<Rightarrow> nat \<Rightarrow> nat option" where
  "layout_consistent_from b level represented_bits expected_offset =
     (if level < bm_level_count b then
        let expected_words = (represented_bits - 1) div kWordBits + 1;
            words = bm_word_counts b ! level
        in if expected_words > kUint32Max \<or> words \<noteq> expected_words \<or>
              bm_offsets b ! level \<noteq> expected_offset \<or> expected_offset > bm_total_words b \<or>
              words > bm_total_words b - expected_offset then None
           else if (words = 1) \<noteq> (level + 1 = bm_level_count b) then None
           else layout_consistent_from b (level + 1) words (expected_offset + words)
      else Some expected_offset)"
  by pat_completeness auto
termination
  by (relation "measure (\<lambda>(b, level, _, _). bm_level_count b - level)") auto

declare layout_consistent_from.simps [simp del]

definition padding_clear :: "bitmap \<Rightarrow> nat \<Rightarrow> nat \<Rightarrow> bool" where
  "padding_clear b level represented_bits =
     (let valid_bits_in_last_word = represented_bits mod kWordBits in
      valid_bits_in_last_word \<noteq> 0 \<longrightarrow>
        (case checked_word b level (bm_word_counts b ! level - 1) of
           None \<Rightarrow> False
         | Some last_word \<Rightarrow> last_word AND push_bit valid_bits_in_last_word (-1) = 0))"

definition summary_matches :: "bitmap \<Rightarrow> nat \<Rightarrow> bool" where
  "summary_matches b level =
     (level \<noteq> 0 \<longrightarrow>
        list_all (\<lambda>lower_index.
          case checked_word b (level - 1) lower_index of
            None \<Rightarrow> False
          | Some lower_word \<Rightarrow>
              (case checked_word b level (lower_index div kWordBits) of
                 None \<Rightarrow> False
               | Some summary_word \<Rightarrow>
                   (summary_word AND push_bit (lower_index mod kWordBits) 1 \<noteq> 0)
                     = (lower_word \<noteq> 0)))
          [0..<bm_word_counts b ! (level - 1)])"

function contents_consistent_from :: "bitmap \<Rightarrow> nat \<Rightarrow> nat \<Rightarrow> bool" where
  "contents_consistent_from b level represented_bits =
     (if level < bm_level_count b then
        padding_clear b level represented_bits \<and> summary_matches b level \<and>
        contents_consistent_from b (level + 1) (bm_word_counts b ! level)
      else bm_word_counts b ! (bm_level_count b - 1) = 1)"
  by pat_completeness auto
termination
  by (relation "measure (\<lambda>(b, level, _). bm_level_count b - level)") auto

declare contents_consistent_from.simps [simp del]

definition hierarchy_consistent :: "bitmap \<Rightarrow> bool" where
  "hierarchy_consistent b =
     (if bm_bit_count b = 0 \<or> bm_level_count b = 0 \<or> bm_level_count b > kMaximumLevels \<or>
         bm_total_words b = 0 then False
      else case layout_consistent_from b 0 (bm_bit_count b) 0 of
             None \<Rightarrow> False
           | Some expected_offset \<Rightarrow>
               if expected_offset \<noteq> bm_total_words b then False
               else contents_consistent_from b 0 (bm_bit_count b))"

section \<open>Bit counting\<close>

declare push_bit_of_1 [simp del]

lemma word_eq_0_bit: "(w :: u64) = 0 \<longleftrightarrow> (\<forall>k. \<not> bit w k)"
  by (metis bit_0_eq bit_word_eqI bot_apply bot_bool_def)

lemma bit_u64_less: "bit (w :: u64) k \<Longrightarrow> k < 64"
  using bit_imp_le_length [of w k] by simp

lemma exists_bit_below_64: "(w :: u64) \<noteq> 0 \<Longrightarrow> \<exists>i < 64. bit w i"
  using bit_u64_less [of w] by (auto simp: word_eq_0_bit)

lemma takeWhile_first:
  assumes "\<exists>x \<in> set xs. P x"
  defines "k \<equiv> length (takeWhile (\<lambda>x. \<not> P x) xs)"
  shows "k < length xs" and "P (xs ! k)" and "j < k \<Longrightarrow> \<not> P (xs ! j)"
proof -
  show lt: "k < length xs"
    using assms(1) unfolding k_def by (induction xs) auto
  show "P (xs ! k)" using nth_length_takeWhile [of "\<lambda>x. \<not> P x" xs] lt by (auto simp: k_def)
  show "\<not> P (xs ! j)" if "j < k"
    using that set_takeWhileD [of "xs ! j" "\<lambda>x. \<not> P x" xs]
      nth_mem [of j "takeWhile (\<lambda>x. \<not> P x) xs"] by (simp add: k_def takeWhile_nth)
qed

lemma countr_zero:
  assumes "w \<noteq> 0"
  shows "countr_zero w < 64" and "bit w (countr_zero w)"
    and "j < countr_zero w \<Longrightarrow> \<not> bit w j"
proof -
  have ex: "\<exists>x \<in> set [0..<64]. bit w x" using exists_bit_below_64 [OF assms] by auto
  note f = takeWhile_first [OF ex, folded countr_zero_def]
  show lt: "countr_zero w < 64" using f(1) by simp
  show "bit w (countr_zero w)" using f(2) lt by simp
  show "\<not> bit w j" if "j < countr_zero w" using f(3) [OF that] that lt by simp
qed

lemma countl_zero:
  assumes "w \<noteq> 0"
  shows "countl_zero w < 64" and "bit w (63 - countl_zero w)"
    and "63 - countl_zero w < j \<Longrightarrow> \<not> bit w j"
proof -
  have ex: "\<exists>x \<in> set (rev [0..<64]). bit w x" using exists_bit_below_64 [OF assms] by auto
  note f = takeWhile_first [OF ex, folded countl_zero_def]
  show lt: "countl_zero w < 64" using f(1) by simp
  show "bit w (63 - countl_zero w)" using f(2) lt by (simp add: rev_nth)
  show "\<not> bit w j" if "63 - countl_zero w < j"
  proof
    assume b: "bit w j"
    then have j: "j < 64" by (rule bit_u64_less)
    with that have "63 - j < countl_zero w" by linarith
    then show False using f(3) [of "63 - j"] j lt b by (simp add: rev_nth)
  qed
qed

lemma and_push_bit_1_eq_0: "(w :: u64) AND push_bit k 1 = 0 \<longleftrightarrow> \<not> bit w k"
proof -
  have "bit (w AND push_bit k 1) j \<longleftrightarrow> bit w k \<and> j = k" for j
    using bit_u64_less [of w j] by (auto simp: bit_simps)
  then show ?thesis by (auto simp: word_eq_0_bit)
qed

lemma bit_or_push_bit_1:
  "bit ((w :: u64) OR push_bit k 1) j \<longleftrightarrow> bit w j \<or> (j = k \<and> k < 64)"
  by (auto simp: bit_simps)

lemma bit_and_not_push_bit_1:
  "bit ((w :: u64) AND NOT (push_bit k 1)) j \<longleftrightarrow> bit w j \<and> j \<noteq> k"
  by (auto simp: bit_simps dest: bit_imp_le_length)

lemma bit_and_push_bit_minus_1:
  "bit ((w :: u64) AND push_bit k (-1)) j \<longleftrightarrow> bit w j \<and> k \<le> j"
  by (auto simp: bit_simps dest: bit_imp_le_length)

lemma bit_low_mask:
  assumes "k < 64"
  shows "bit ((w :: u64) AND (if k = 63 then -1 else push_bit (k + 1) 1 - 1)) j \<longleftrightarrow> bit w j \<and> j \<le> k"
proof (cases "k = 63")
  case True then show ?thesis by (auto simp: bit_simps dest: bit_imp_le_length)
next
  case False
  have "push_bit (k + 1) 1 - 1 = (mask (k + 1) :: u64)" by (simp add: mask_eq_exp_minus_1 push_bit_of_1)
  with False show ?thesis by (auto simp: bit_simps dest: bit_imp_le_length)
qed

section \<open>Well-formed bitmaps\<close>

text \<open>Number of bits the level represents, without the range guard of \<^const>\<open>level_bit_count\<close>.\<close>

definition lbits :: "bitmap \<Rightarrow> nat \<Rightarrow> nat" where
  "lbits b l = (if l = 0 then bm_bit_count b else bm_word_counts b ! (l - 1))"

definition layout_ok :: "bitmap \<Rightarrow> bool" where
  "layout_ok b \<longleftrightarrow>
     0 < bm_bit_count b \<and> 0 < bm_level_count b \<and> bm_level_count b \<le> kMaximumLevels \<and>
     length (bm_words b) = bm_total_words b \<and>
     bm_offsets b ! 0 = 0 \<and>
     (\<forall>l < bm_level_count b. bm_word_counts b ! l = (lbits b l - 1) div 64 + 1) \<and>
     (\<forall>l. Suc l < bm_level_count b \<longrightarrow>
        bm_offsets b ! Suc l = bm_offsets b ! l + bm_word_counts b ! l \<and> bm_word_counts b ! l \<noteq> 1) \<and>
     bm_total_words b = bm_offsets b ! (bm_level_count b - 1) + bm_word_counts b ! (bm_level_count b - 1) \<and>
     bm_word_counts b ! (bm_level_count b - 1) = 1"

definition level_bit :: "bitmap \<Rightarrow> nat \<Rightarrow> nat \<Rightarrow> bool" where
  "level_bit b l i = bit (bm_word b l (i div 64)) (i mod 64)"

definition padding_ok :: "bitmap \<Rightarrow> bool" where
  "padding_ok b \<longleftrightarrow>
     (\<forall>l < bm_level_count b. \<forall>w < bm_word_counts b ! l. \<forall>k. bit (bm_word b l w) k \<longrightarrow> w * 64 + k < lbits b l)"

text \<open>Every summary bit is right, with the exception of the bit for word \<open>c\<close> in level \<open>m\<close>.\<close>

definition summaries_ok_except :: "bitmap \<Rightarrow> nat \<Rightarrow> nat \<Rightarrow> bool" where
  "summaries_ok_except b m c \<longleftrightarrow>
     (\<forall>l w. Suc l < bm_level_count b \<longrightarrow> w < bm_word_counts b ! l \<longrightarrow> \<not> (Suc l = m \<and> w = c) \<longrightarrow>
        level_bit b (Suc l) w = (bm_word b l w \<noteq> 0))"

definition summaries_ok :: "bitmap \<Rightarrow> bool" where
  "summaries_ok b \<longleftrightarrow>
     (\<forall>l w. Suc l < bm_level_count b \<longrightarrow> w < bm_word_counts b ! l \<longrightarrow>
        level_bit b (Suc l) w = (bm_word b l w \<noteq> 0))"

definition bm_inv :: "bitmap \<Rightarrow> bool" where
  "bm_inv b \<longleftrightarrow> layout_ok b \<and> padding_ok b \<and> summaries_ok b"

definition bm_elems :: "bitmap \<Rightarrow> nat set" where
  "bm_elems b = {i. i < bm_bit_count b \<and> level_bit b 0 i}"

lemma lbits_Suc [simp]: "lbits b (Suc l) = bm_word_counts b ! l" "lbits b 0 = bm_bit_count b"
  by (simp_all add: lbits_def)

lemma lbits_pos: "layout_ok b \<Longrightarrow> l < bm_level_count b \<Longrightarrow> 0 < lbits b l"
  by (cases l) (auto simp: layout_ok_def)

lemma word_index_less:
  assumes "layout_ok b" "l < bm_level_count b" "i < lbits b l"
  shows "i div 64 < bm_word_counts b ! l"
proof -
  have "i div 64 \<le> (lbits b l - 1) div 64" using assms(3) by (intro div_le_mono) simp
  then show ?thesis using assms(1,2) by (auto simp: layout_ok_def)
qed

lemma layout_ok_counts_pos: "layout_ok b \<Longrightarrow> l < bm_level_count b \<Longrightarrow> 0 < bm_word_counts b ! l"
  by (auto simp: layout_ok_def)

lemma offset_bound:
  assumes "layout_ok b" "l < m" "m < bm_level_count b"
  shows "bm_offsets b ! l + bm_word_counts b ! l \<le> bm_offsets b ! m"
  using assms(2,3)
proof (induction m)
  case (Suc m)
  then show ?case using assms(1) by (cases "l = m") (auto simp: layout_ok_def)
qed simp

lemma offset_total:
  assumes "layout_ok b" "l < bm_level_count b" "w < bm_word_counts b ! l"
  shows "bm_offsets b ! l + w < bm_total_words b"
proof (cases "l = bm_level_count b - 1")
  case False
  then have "bm_offsets b ! l + bm_word_counts b ! l \<le> bm_offsets b ! (bm_level_count b - 1)"
    using assms by (intro offset_bound) auto
  then show ?thesis using assms by (auto simp: layout_ok_def)
qed (use assms in \<open>auto simp: layout_ok_def\<close>)

lemma offset_inj:
  assumes "layout_ok b" "l < bm_level_count b" "w < bm_word_counts b ! l"
    "m < bm_level_count b" "v < bm_word_counts b ! m"
  shows "bm_offsets b ! l + w = bm_offsets b ! m + v \<longleftrightarrow> l = m \<and> w = v"
  using offset_bound [of b l m] offset_bound [of b m l] assms
  by (cases l m rule: linorder_cases) auto

lemma bm_store_fields [simp]:
  "bm_bit_count (bm_store b l w x) = bm_bit_count b"
  "bm_offsets (bm_store b l w x) = bm_offsets b"
  "bm_word_counts (bm_store b l w x) = bm_word_counts b"
  "bm_level_count (bm_store b l w x) = bm_level_count b"
  "bm_total_words (bm_store b l w x) = bm_total_words b"
  "lbits (bm_store b l w x) = lbits b"
  by (simp_all add: bm_store_def lbits_def fun_eq_iff)

lemma layout_ok_store [simp]: "layout_ok (bm_store b l w x) = layout_ok b"
  by (simp add: layout_ok_def) (simp add: bm_store_def)

lemma bm_word_store:
  assumes "layout_ok b" "l < bm_level_count b" "w < bm_word_counts b ! l"
    "m < bm_level_count b" "v < bm_word_counts b ! m"
  shows "bm_word (bm_store b l w x) m v = (if m = l \<and> v = w then x else bm_word b m v)"
proof -
  have "bm_offsets b ! l + w < length (bm_words b)"
    using offset_total [OF assms(1-3)] assms(1) by (simp add: layout_ok_def)
  then show ?thesis using offset_inj [OF assms]
    by (auto simp: bm_word_def bm_store_def nth_list_update)
qed

lemma checked_word_Some:
  assumes "layout_ok b" "l < bm_level_count b" "w < bm_word_counts b ! l"
  shows "checked_word b l w = Some (bm_word b l w)"
proof -
  have "bm_offsets b ! l + w < bm_total_words b" by (rule offset_total [OF assms])
  then show ?thesis using assms by (auto simp: checked_word_def bm_word_def layout_ok_def)
qed

lemma level_bit_count_eq: "layout_ok b \<Longrightarrow> l < bm_level_count b \<Longrightarrow> level_bit_count b l = lbits b l"
  by (auto simp: level_bit_count_def lbits_def layout_ok_def)

lemma top_level:
  assumes "layout_ok b" "Suc l = bm_level_count b" shows "bm_word_counts b ! l = 1"
  using assms by (metis diff_Suc_1 layout_ok_def)

section \<open>Setting and clearing a bit\<close>

text \<open>
  Storing into a summary word a value that differs from the old one in the bit of the child word
  only: that bit becomes right, and what may be wrong is one level up.
\<close>

lemma store_summary:
  assumes lay: "layout_ok b" and pad: "padding_ok b" and ex: "summaries_ok_except b (Suc l) c"
    and l: "Suc l < bm_level_count b" and c: "c < bm_word_counts b ! l"
    and right: "bit x (c mod 64) = (bm_word b l c \<noteq> 0)"
    and other: "\<And>k. k \<noteq> c mod 64 \<Longrightarrow> bit x k = bit (bm_word b (Suc l) (c div 64)) k"
  defines "b' \<equiv> bm_store b (Suc l) (c div 64) x"
  shows "padding_ok b'" and "summaries_ok_except b' (Suc (Suc l)) (c div 64)"
    and "(x = 0) = (bm_word b (Suc l) (c div 64) = 0) \<Longrightarrow> summaries_ok b'"
proof -
  have si: "c div 64 < bm_word_counts b ! Suc l"
    using word_index_less [OF lay l, of c] c by simp
  note st = bm_word_store [OF lay l si]
  have w': "bm_word b' m v = (if m = Suc l \<and> v = c div 64 then x else bm_word b m v)"
    if "m < bm_level_count b" "v < bm_word_counts b ! m" for m v
    unfolding b'_def using st that by simp
  show "padding_ok b'"
    unfolding padding_ok_def
  proof (intro allI impI)
    fix m w k assume m: "m < bm_level_count b'" "w < bm_word_counts b' ! m" and k: "bit (bm_word b' m w) k"
    then have m': "m < bm_level_count b" "w < bm_word_counts b ! m" by (simp_all add: b'_def)
    show "w * 64 + k < lbits b' m"
    proof (cases "m = Suc l \<and> w = c div 64 \<and> k = c mod 64")
      case True
      then have "w * 64 + k = c" by simp
      then show ?thesis using True c by (simp add: b'_def)
    next
      case False
      then have "bit (bm_word b m w) k" using k w' [OF m'] other by (auto split: if_splits)
      then show ?thesis using pad m' by (auto simp: padding_ok_def b'_def)
    qed
  qed
  have main: "level_bit b' (Suc m) w = (bm_word b' m w \<noteq> 0)"
    if m: "Suc m < bm_level_count b" "w < bm_word_counts b ! m"
      and side: "(Suc m = Suc (Suc l) \<and> w = c div 64) \<longrightarrow> (x = 0) = (bm_word b (Suc l) (c div 64) = 0)" for m w
  proof -
    have wi: "w div 64 < bm_word_counts b ! Suc m" using word_index_less [OF lay m(1), of w] m(2) by simp
    have m1: "m < bm_level_count b" using m(1) by simp
    have lw: "bm_word b' m w = (if m = Suc l \<and> w = c div 64 then x else bm_word b m w)"
      by (rule w' [OF m1 m(2)])
    have uw: "bm_word b' (Suc m) (w div 64) =
        (if m = l \<and> w div 64 = c div 64 then x else bm_word b (Suc m) (w div 64))"
      using w' [OF m(1) wi] by simp
    have old: "level_bit b (Suc m) w = (bm_word b m w \<noteq> 0)" if "\<not> (m = l \<and> w = c)"
      using ex m that by (auto simp: summaries_ok_except_def)
    show ?thesis
    proof (cases "m = l \<and> w = c")
      case True
      then show ?thesis using lw uw right by (simp add: level_bit_def)
    next
      case False
      have "bit (bm_word b' (Suc m) (w div 64)) (w mod 64) = bit (bm_word b (Suc m) (w div 64)) (w mod 64)"
      proof (cases "m = l \<and> w div 64 = c div 64")
        case True
        with False have "w mod 64 \<noteq> c mod 64" by (metis div_mult_mod_eq)
        with True show ?thesis using uw other by auto
      qed (use uw in auto)
      moreover have "(bm_word b' m w = 0) = (bm_word b m w = 0)" using lw side by auto
      ultimately show ?thesis using old [OF False] by (simp add: level_bit_def)
    qed
  qed
  show "summaries_ok_except b' (Suc (Suc l)) (c div 64)"
    unfolding summaries_ok_except_def using main by (auto simp: b'_def)
  show "summaries_ok b'" if "(x = 0) = (bm_word b (Suc l) (c div 64) = 0)"
    unfolding summaries_ok_def using main that by (auto simp: b'_def)
qed

text \<open>A bitmap that differs from \<open>b\<close> only in words of levels above \<open>l\<close>.\<close>

definition same_upto :: "nat \<Rightarrow> bitmap \<Rightarrow> bitmap \<Rightarrow> bool" where
  "same_upto l b r \<longleftrightarrow> bm_bit_count r = bm_bit_count b \<and> bm_offsets r = bm_offsets b \<and>
     bm_word_counts r = bm_word_counts b \<and> bm_level_count r = bm_level_count b \<and>
     bm_total_words r = bm_total_words b \<and>
     (\<forall>m \<le> l. \<forall>w < bm_word_counts b ! m. m < bm_level_count b \<longrightarrow> bm_word r m w = bm_word b m w)"

lemma same_upto_refl [simp]: "same_upto l b b"
  by (simp add: same_upto_def)

lemma same_upto_trans: "same_upto l b r \<Longrightarrow> same_upto (Suc l) r t \<Longrightarrow> same_upto l b t"
  by (simp add: same_upto_def)

lemma same_upto_store:
  "layout_ok b \<Longrightarrow> Suc l < bm_level_count b \<Longrightarrow> w < bm_word_counts b ! Suc l \<Longrightarrow>
     same_upto l b (bm_store b (Suc l) w x)"
  by (auto simp: same_upto_def bm_word_store)

lemma summaries_ok_except_top:
  "bm_level_count b \<le> m \<Longrightarrow> summaries_ok_except b m c = summaries_ok b"
  by (auto simp: summaries_ok_except_def summaries_ok_def)

lemma set_summaries_ok:
  assumes "layout_ok b" "padding_ok b" "summaries_ok_except b (Suc l) c"
    "l < bm_level_count b" "c < bm_word_counts b ! l" "bm_word b l c \<noteq> 0"
  shows "bm_inv (set_summaries b (Suc l) c) \<and> same_upto l b (set_summaries b (Suc l) c)"
  using assms
proof (induction "bm_level_count b - l" arbitrary: b l c rule: less_induct)
  case less
  note lay = less.prems(1)
  show ?case
  proof (cases "Suc l < bm_level_count b")
    case False
    then have "set_summaries b (Suc l) c = b" by (subst set_summaries.simps) simp
    then show ?thesis using less.prems False by (simp add: bm_inv_def summaries_ok_except_top)
  next
    case True
    define si where "si = c div 64"
    define x where "x = bm_word b (Suc l) si OR push_bit (c mod 64) 1"
    define b' where "b' = bm_store b (Suc l) si x"
    have si: "si < bm_word_counts b ! Suc l"
      using word_index_less [OF lay True, of c] less.prems(5) by (simp add: si_def)
    have "bit x (c mod 64) = (bm_word b l c \<noteq> 0)" using less.prems(6) by (simp add: x_def bit_or_push_bit_1)
    moreover have "bit x k = bit (bm_word b (Suc l) (c div 64)) k" if "k \<noteq> c mod 64" for k
      using that by (simp add: x_def bit_or_push_bit_1 si_def)
    ultimately have st: "padding_ok b'" "summaries_ok_except b' (Suc (Suc l)) si"
      "(x = 0) = (bm_word b (Suc l) si = 0) \<Longrightarrow> summaries_ok b'"
      using store_summary [OF lay less.prems(2,3) True less.prems(5), of x] unfolding b'_def si_def by auto
    have x0: "x \<noteq> 0" using bit_or_push_bit_1 [of "bm_word b (Suc l) si" "c mod 64" "c mod 64"]
      by (auto simp: x_def word_eq_0_bit)
    have lay': "layout_ok b'" using lay by (simp add: b'_def)
    have same: "same_upto l b b'" unfolding b'_def using lay True si by (rule same_upto_store)
    have eq: "set_summaries b (Suc l) c =
        (if bm_word b (Suc l) si \<noteq> 0 then b' else set_summaries b' (Suc (Suc l)) si)"
      using True by (subst set_summaries.simps) (simp add: Let_def b'_def x_def si_def kWordBits_def)
    show ?thesis
    proof (cases "bm_word b (Suc l) si = 0")
      case False
      then show ?thesis using eq st x0 lay' same by (simp add: bm_inv_def)
    next
      case True2: True
      have "bm_word b' (Suc l) si = x"
        unfolding b'_def using bm_word_store [OF lay True si True si] by simp
      then have "bm_inv (set_summaries b' (Suc (Suc l)) si) \<and>
          same_upto (Suc l) b' (set_summaries b' (Suc (Suc l)) si)"
        using lay' st(1,2) True si x0 by (intro less.hyps) (auto simp: b'_def)
      then show ?thesis using eq True2 same by (auto intro: same_upto_trans)
    qed
  qed
qed

lemma clear_summaries_ok:
  assumes "layout_ok b" "padding_ok b" "summaries_ok_except b (Suc l) c"
    "l < bm_level_count b" "c < bm_word_counts b ! l" "bm_word b l c = 0"
  shows "bm_inv (clear_summaries b (Suc l) c) \<and> same_upto l b (clear_summaries b (Suc l) c)"
  using assms
proof (induction "bm_level_count b - l" arbitrary: b l c rule: less_induct)
  case less
  note lay = less.prems(1)
  show ?case
  proof (cases "Suc l < bm_level_count b")
    case False
    then have "clear_summaries b (Suc l) c = b" by (subst clear_summaries.simps) simp
    then show ?thesis using less.prems False by (simp add: bm_inv_def summaries_ok_except_top)
  next
    case True
    define si where "si = c div 64"
    define x where "x = bm_word b (Suc l) si AND NOT (push_bit (c mod 64) 1)"
    define b' where "b' = bm_store b (Suc l) si x"
    have si: "si < bm_word_counts b ! Suc l"
      using word_index_less [OF lay True, of c] less.prems(5) by (simp add: si_def)
    have "bit x (c mod 64) = (bm_word b l c \<noteq> 0)"
      using less.prems(6) unfolding x_def bit_and_not_push_bit_1 by simp
    moreover have "bit x k = bit (bm_word b (Suc l) (c div 64)) k" if "k \<noteq> c mod 64" for k
      using that unfolding x_def bit_and_not_push_bit_1 si_def by simp
    ultimately have st: "padding_ok b'" "summaries_ok_except b' (Suc (Suc l)) si"
      "(x = 0) = (bm_word b (Suc l) si = 0) \<Longrightarrow> summaries_ok b'"
      using store_summary [OF lay less.prems(2,3) True less.prems(5), of x] unfolding b'_def si_def by auto
    have x0: "x \<noteq> 0 \<Longrightarrow> bm_word b (Suc l) si \<noteq> 0" by (auto simp: x_def)
    have lay': "layout_ok b'" using lay by (simp add: b'_def)
    have same: "same_upto l b b'" unfolding b'_def using lay True si by (rule same_upto_store)
    have eq: "clear_summaries b (Suc l) c =
        (if x \<noteq> 0 then b' else clear_summaries b' (Suc (Suc l)) si)"
      using True by (subst clear_summaries.simps) (simp add: Let_def b'_def x_def si_def kWordBits_def)
    show ?thesis
    proof (cases "x = 0")
      case False
      then show ?thesis using eq st x0 lay' same by (simp add: bm_inv_def)
    next
      case True2: True
      have "bm_word b' (Suc l) si = x"
        unfolding b'_def using bm_word_store [OF lay True si True si] by simp
      then have "bm_inv (clear_summaries b' (Suc (Suc l)) si) \<and>
          same_upto (Suc l) b' (clear_summaries b' (Suc (Suc l)) si)"
        using lay' st(1,2) True si True2 by (intro less.hyps) (auto simp: b'_def)
      then show ?thesis using eq True2 same by (auto intro: same_upto_trans)
    qed
  qed
qed

text \<open>Storing a base word.\<close>

lemma store_base:
  assumes inv: "bm_inv b" and i: "i < bm_bit_count b"
    and other: "\<And>k. k \<noteq> i mod 64 \<Longrightarrow> bit x k = bit (bm_word b 0 (i div 64)) k"
  defines "b' \<equiv> bm_store b 0 (i div 64) x"
  shows "layout_ok b'" and "padding_ok b'" and "summaries_ok_except b' 1 (i div 64)"
    and "(x = 0) = (bm_word b 0 (i div 64) = 0) \<Longrightarrow> bm_inv b'"
    and "0 < bm_level_count b'" and "i div 64 < bm_word_counts b' ! 0"
    and "bm_word b' 0 (i div 64) = x"
    and "bm_elems b' = (if bit x (i mod 64) then insert i (bm_elems b) else bm_elems b - {i})"
proof -
  have lay: "layout_ok b" using inv by (simp add: bm_inv_def)
  have l0: "0 < bm_level_count b" using lay by (simp add: layout_ok_def)
  have wi: "i div 64 < bm_word_counts b ! 0" using word_index_less [OF lay l0] i by simp
  have w': "bm_word b' m v = (if m = 0 \<and> v = i div 64 then x else bm_word b m v)"
    if "m < bm_level_count b" "v < bm_word_counts b ! m" for m v
    unfolding b'_def using bm_word_store [OF lay l0 wi] that by simp
  show lay': "layout_ok b'" using lay by (simp add: b'_def)
  show "0 < bm_level_count b'" "i div 64 < bm_word_counts b' ! 0" using l0 wi by (simp_all add: b'_def)
  show "bm_word b' 0 (i div 64) = x" using w' [OF l0 wi] by simp
  show pad: "padding_ok b'"
    unfolding padding_ok_def
  proof (intro allI impI)
    fix m w k assume m: "m < bm_level_count b'" "w < bm_word_counts b' ! m" and k: "bit (bm_word b' m w) k"
    then have m': "m < bm_level_count b" "w < bm_word_counts b ! m" by (simp_all add: b'_def)
    show "w * 64 + k < lbits b' m"
    proof (cases "m = 0 \<and> w = i div 64 \<and> k = i mod 64")
      case True
      then show ?thesis using i by (simp add: b'_def)
    next
      case False
      then have "bit (bm_word b m w) k" using k w' [OF m'] other by (auto split: if_splits)
      then show ?thesis using inv m' by (auto simp: bm_inv_def padding_ok_def b'_def)
    qed
  qed
  have main: "level_bit b' (Suc m) w = (bm_word b' m w \<noteq> 0)"
    if m: "Suc m < bm_level_count b" "w < bm_word_counts b ! m"
      and ne: "(m = 0 \<and> w = i div 64) \<longrightarrow> (x = 0) = (bm_word b 0 (i div 64) = 0)" for m w
  proof -
    have wi': "w div 64 < bm_word_counts b ! Suc m" using word_index_less [OF lay m(1), of w] m(2) by simp
    have "bm_word b' (Suc m) (w div 64) = bm_word b (Suc m) (w div 64)" using w' [OF m(1) wi'] by simp
    moreover have "bm_word b' m w = (if m = 0 \<and> w = i div 64 then x else bm_word b m w)"
      using w' [of m w] m by simp
    moreover have "level_bit b (Suc m) w = (bm_word b m w \<noteq> 0)"
      using inv m by (auto simp: bm_inv_def summaries_ok_def)
    ultimately show ?thesis using ne by (auto simp: level_bit_def)
  qed
  show "summaries_ok_except b' 1 (i div 64)"
    using main by (auto simp: summaries_ok_except_def b'_def)
  show "bm_inv b'" if "(x = 0) = (bm_word b 0 (i div 64) = 0)"
    using main that lay' pad by (auto simp: bm_inv_def summaries_ok_def b'_def)
  have lb: "level_bit b' 0 j = (if j = i then bit x (i mod 64) else level_bit b 0 j)"
    if "j < bm_bit_count b" for j
  proof -
    have "j div 64 < bm_word_counts b ! 0" using word_index_less [OF lay l0] that by simp
    then have "bm_word b' 0 (j div 64) = (if j div 64 = i div 64 then x else bm_word b 0 (j div 64))"
      using w' [OF l0] by simp
    moreover have "j = i \<longleftrightarrow> j div 64 = i div 64 \<and> j mod 64 = i mod 64" by (metis div_mult_mod_eq)
    ultimately show ?thesis using other [of "j mod 64"] by (auto simp: level_bit_def)
  qed
  then show "bm_elems b' = (if bit x (i mod 64) then insert i (bm_elems b) else bm_elems b - {i})"
    using i by (auto simp: bm_elems_def b'_def split: if_splits)
qed

lemma bm_elems_same: "layout_ok b \<Longrightarrow> same_upto 0 b r \<Longrightarrow> bm_elems r = bm_elems b"
  using word_index_less [of b 0]
  by (auto simp: same_upto_def bm_elems_def level_bit_def layout_ok_def)

lemma bm_set_ok:
  assumes inv: "bm_inv b" and i: "i < bm_bit_count b"
  shows "fst (bm_set b i)" and "bm_inv (snd (bm_set b i))"
    and "bm_elems (snd (bm_set b i)) = insert i (bm_elems b)"
    and "bm_bit_count (snd (bm_set b i)) = bm_bit_count b"
proof -
  define w where "w = bm_word b 0 (i div 64)"
  define x where "x = w OR push_bit (i mod 64) 1"
  define b' where "b' = bm_store b 0 (i div 64) x"
  have other: "\<And>k. k \<noteq> i mod 64 \<Longrightarrow> bit x k = bit (bm_word b 0 (i div 64)) k"
    by (simp add: x_def bit_or_push_bit_1 w_def)
  note st = store_base [OF inv i other, folded b'_def, simplified]
  have bx: "bit x (i mod 64)" by (simp add: x_def bit_or_push_bit_1)
  then have x0: "x \<noteq> 0" by (auto simp: word_eq_0_bit)
  have el: "bm_elems b' = insert i (bm_elems b)" using st(8) bx by simp
  have eq: "bm_set b i = (if bit w (i mod 64) then (True, b) else if w \<noteq> 0 then (True, b')
      else (True, set_summaries b' 1 (i div 64)))"
    using i by (simp add: bm_set_def Let_def w_def x_def b'_def kWordBits_def and_push_bit_1_eq_0)
  have sm: "bm_inv (set_summaries b' 1 (i div 64)) \<and> same_upto 0 b' (set_summaries b' 1 (i div 64))"
    using set_summaries_ok [of b' 0 "i div 64"] st x0 by simp
  have "bm_inv (snd (bm_set b i)) \<and> bm_elems (snd (bm_set b i)) = insert i (bm_elems b)
      \<and> bm_bit_count (snd (bm_set b i)) = bm_bit_count b"
  proof (cases "bit w (i mod 64)")
    case True
    then have "i \<in> bm_elems b" using i by (simp add: bm_elems_def level_bit_def w_def)
    then show ?thesis using True eq inv by (simp add: insert_absorb)
  next
    case F: False
    show ?thesis
    proof (cases "w = 0")
      case False
      then have "bm_inv b'" using st(4) x0 by (simp add: w_def)
      then show ?thesis using False F eq el by (simp add: b'_def)
    next
      case True
      have "bm_elems (set_summaries b' 1 (i div 64)) = bm_elems b'"
        by (rule bm_elems_same [OF st(1)]) (use sm in simp)
      then show ?thesis using True F eq el sm by (simp add: same_upto_def b'_def)
    qed
  qed
  then show "bm_inv (snd (bm_set b i))" "bm_elems (snd (bm_set b i)) = insert i (bm_elems b)"
    "bm_bit_count (snd (bm_set b i)) = bm_bit_count b" by blast+
  show "fst (bm_set b i)" by (simp add: eq)
qed

lemma bm_clear_ok:
  assumes inv: "bm_inv b" and i: "i < bm_bit_count b"
  shows "fst (bm_clear b i)" and "bm_inv (snd (bm_clear b i))"
    and "bm_elems (snd (bm_clear b i)) = bm_elems b - {i}"
    and "bm_bit_count (snd (bm_clear b i)) = bm_bit_count b"
proof -
  define w where "w = bm_word b 0 (i div 64)"
  define x where "x = w AND NOT (push_bit (i mod 64) 1)"
  define b' where "b' = bm_store b 0 (i div 64) x"
  have other: "\<And>k. k \<noteq> i mod 64 \<Longrightarrow> bit x k = bit (bm_word b 0 (i div 64)) k"
    unfolding x_def bit_and_not_push_bit_1 w_def by simp
  note st = store_base [OF inv i other, folded b'_def, simplified]
  have bx: "\<not> bit x (i mod 64)" unfolding x_def bit_and_not_push_bit_1 by simp
  have el: "bm_elems b' = bm_elems b - {i}" using st(8) bx by simp
  have eq: "bm_clear b i = (if \<not> bit w (i mod 64) then (True, b) else if x \<noteq> 0 then (True, b')
      else (True, clear_summaries b' 1 (i div 64)))"
    using i by (simp add: bm_clear_def Let_def w_def x_def b'_def kWordBits_def and_push_bit_1_eq_0)
  have "bm_inv (snd (bm_clear b i)) \<and> bm_elems (snd (bm_clear b i)) = bm_elems b - {i}
      \<and> bm_bit_count (snd (bm_clear b i)) = bm_bit_count b"
  proof (cases "bit w (i mod 64)")
    case False
    then have "i \<notin> bm_elems b" by (simp add: bm_elems_def level_bit_def w_def)
    then show ?thesis using False eq inv by simp
  next
    case T: True
    show ?thesis
    proof (cases "x = 0")
      case False
      then have "w \<noteq> 0" by (auto simp: x_def)
      then have "bm_inv b'" using st(4) False by (simp add: w_def)
      then show ?thesis using False T eq el by (simp add: b'_def)
    next
      case True
      then have sm: "bm_inv (clear_summaries b' 1 (i div 64)) \<and>
          same_upto 0 b' (clear_summaries b' 1 (i div 64))"
        using clear_summaries_ok [of b' 0 "i div 64"] st by simp
      have "bm_elems (clear_summaries b' 1 (i div 64)) = bm_elems b'"
        by (rule bm_elems_same [OF st(1)]) (use sm in simp)
      then show ?thesis using True T eq el sm by (simp add: same_upto_def b'_def)
    qed
  qed
  then show "bm_inv (snd (bm_clear b i))" "bm_elems (snd (bm_clear b i)) = bm_elems b - {i}"
    "bm_bit_count (snd (bm_clear b i)) = bm_bit_count b" by blast+
  show "fst (bm_clear b i)" by (simp add: eq)
qed

section \<open>Searches\<close>

lemma bm_test_ok: "bm_inv b \<Longrightarrow> i < bm_bit_count b \<Longrightarrow> bm_test b i = Some (i \<in> bm_elems b)"
  by (simp add: bm_test_def bm_elems_def level_bit_def kWordBits_def and_push_bit_1_eq_0)

lemma level_bit_bound:
  "bm_inv b \<Longrightarrow> l < bm_level_count b \<Longrightarrow> w < bm_word_counts b ! l \<Longrightarrow> bit (bm_word b l w) k \<Longrightarrow>
     w * 64 + k < lbits b l"
  by (auto simp: bm_inv_def padding_ok_def)

lemma level_bit_eq: "k < 64 \<Longrightarrow> level_bit b l (w * 64 + k) = bit (bm_word b l w) k"
  by (simp add: level_bit_def)

lemma summary_bit:
  "bm_inv b \<Longrightarrow> Suc l < bm_level_count b \<Longrightarrow> w < bm_word_counts b ! l \<Longrightarrow>
     level_bit b (Suc l) w = (bm_word b l w \<noteq> 0)"
  by (auto simp: bm_inv_def summaries_ok_def)

text \<open>Words between the searched one and the next populated one hold no bit.\<close>

lemma no_bit_between:
  assumes "\<And>v. w < v \<Longrightarrow> v < u \<Longrightarrow> bm_word b l v = 0"
    and "w * 64 + 64 \<le> j" and "j < u * 64"
  shows "\<not> level_bit b l j"
proof -
  have "w < j div 64" "j div 64 < u" using assms(2,3) by (auto simp: less_mult_imp_div_less)
  then show ?thesis using assms(1) by (simp add: level_bit_def)
qed

lemma lbits_single_word:
  assumes "layout_ok b" "l < bm_level_count b" "\<not> Suc l < bm_level_count b"
  shows "lbits b l \<le> 64"
proof -
  have "bm_word_counts b ! l = 1" using assms by (intro top_level) auto
  then have "(lbits b l - 1) div 64 = 0" using assms by (simp add: layout_ok_def)
  then show ?thesis by (simp add: div_eq_0_iff)
qed

lemma same_word:
  fixes j w :: nat
  assumes "w * 64 \<le> j" "j < w * 64 + 64"
  shows "level_bit b l j = bit (bm_word b l w) (j - w * 64)"
  using level_bit_eq [of "j - w * 64" b l w] assms by simp

subsection \<open>Forward\<close>

definition cand_after :: "bitmap \<Rightarrow> nat \<Rightarrow> nat \<Rightarrow> u64" where
  "cand_after b l i = bm_word b l (i div 64) AND push_bit (i mod 64) (-1)"

lemma bit_cand_after: "bit (cand_after b l i) k \<longleftrightarrow> bit (bm_word b l (i div 64)) k \<and> i mod 64 \<le> k"
  unfolding cand_after_def bit_and_push_bit_minus_1 ..

lemma level_bit_cand_after:
  assumes "i \<le> j" "j < i div 64 * 64 + 64"
  shows "level_bit b l j = bit (cand_after b l i) (j - i div 64 * 64)"
proof -
  have i: "i = i div 64 * 64 + i mod 64" by simp
  have "i mod 64 \<le> j - i div 64 * 64" using assms(1) i by linarith
  moreover have "i div 64 * 64 \<le> j" using assms(1) i by linarith
  ultimately show ?thesis using assms(2) by (simp add: same_word bit_cand_after)
qed

lemma find_at_or_after_unfold:
  assumes "bm_inv b" "l < bm_level_count b" "i < lbits b l"
  shows "find_at_or_after b l i =
    (if cand_after b l i \<noteq> 0 then
       let r = i div 64 * 64 + countr_zero (cand_after b l i) in if r < lbits b l then Some r else None
     else if \<not> Suc l < bm_level_count b then None
     else case find_at_or_after b (Suc l) (Suc (i div 64)) of
            None \<Rightarrow> None
          | Some v \<Rightarrow> if v \<ge> bm_word_counts b ! l \<or> bm_word b l v = 0 then None
              else let r = v * 64 + countr_zero (bm_word b l v) in if r < lbits b l then Some r else None)"
proof -
  have lay: "layout_ok b" using assms(1) by (simp add: bm_inv_def)
  have here: "checked_word b l (i div 64) = Some (bm_word b l (i div 64))"
    using checked_word_Some [OF lay assms(2)] word_index_less [OF lay assms(2,3)]
    by simp
  have there: "(if v \<ge> bm_word_counts b ! l then None
      else case checked_word b l v of None \<Rightarrow> None | Some p \<Rightarrow> if p = 0 then None else f p)
    = (if v \<ge> bm_word_counts b ! l \<or> bm_word b l v = 0 then None else f (bm_word b l v))"
    for v and f :: "u64 \<Rightarrow> nat option"
    using checked_word_Some [OF lay assms(2), of v] by simp
  have bits: "level_bit_count b l = lbits b l" "\<not> (lbits b l = 0 \<or> lbits b l \<le> i)"
    using level_bit_count_eq [OF lay assms(2)] assms(3) by simp_all
  have top: "(bm_level_count b - 1 \<le> l) = (\<not> Suc l < bm_level_count b)" by linarith
  show ?thesis
    unfolding find_at_or_after.simps [of b l i] Let_def bits(1) here option.case there top
      if_not_P [OF bits(2)] kWordBits_def cand_after_def [symmetric] Suc_eq_plus1 ..
qed

lemma find_after_hit:
  assumes inv: "bm_inv b" and l: "l < bm_level_count b" and i: "i < lbits b l"
    and c0: "cand_after b l i \<noteq> 0"
  shows "is_least (level_bit b l) i (lbits b l) (find_at_or_after b l i)"
proof -
  let ?w = "i div 64" and ?c = "countr_zero (cand_after b l i)"
  note c = countr_zero [OF c0]
  have lay: "layout_ok b" using inv by (simp add: bm_inv_def)
  have lt: "?w * 64 + ?c < lbits b l"
    using level_bit_bound [OF inv l word_index_less [OF lay l i]] c(2) bit_cand_after by blast
  have "i = ?w * 64 + i mod 64" by simp
  moreover have "i mod 64 \<le> ?c" using c(2) bit_cand_after by blast
  ultimately have le: "i \<le> ?w * 64 + ?c" by linarith
  have "\<not> level_bit b l k" if "i \<le> k" "k < ?w * 64 + ?c" for k
  proof -
    have "?w * 64 \<le> i" by simp
    then have "k - ?w * 64 < ?c" using that by linarith
    then show ?thesis using that c level_bit_cand_after [of i k b l] by simp
  qed
  moreover have "level_bit b l (?w * 64 + ?c)"
    using c level_bit_cand_after [of i "?w * 64 + ?c" b l] le by simp
  ultimately show ?thesis
    using find_at_or_after_unfold [OF inv l i] c0 lt le by (simp add: is_least_def Let_def)
qed

lemma find_after_up:
  assumes inv: "bm_inv b" and up: "Suc l < bm_level_count b" and i: "i < lbits b l"
    and c0: "cand_after b l i = 0"
    and IH: "is_least (level_bit b (Suc l)) (Suc (i div 64)) (bm_word_counts b ! l)
               (find_at_or_after b (Suc l) (Suc (i div 64)))"
  shows "is_least (level_bit b l) i (lbits b l) (find_at_or_after b l i)"
proof -
  let ?w = "i div 64"
  have l: "l < bm_level_count b" using up by simp
  have lay: "layout_ok b" using inv by (simp add: bm_inv_def)
  have here: "\<not> level_bit b l j" if "i \<le> j" "j < ?w * 64 + 64" for j
    using level_bit_cand_after [OF that] c0 by simp
  have zero: "bm_word b l v = 0" if "v < bm_word_counts b ! l" "\<not> level_bit b (Suc l) v" for v
    using summary_bit [OF inv up] that by simp
  note step = find_at_or_after_unfold [OF inv l i]
  show ?thesis
  proof (cases "find_at_or_after b (Suc l) (Suc ?w)")
    case None
    have "\<not> level_bit b l j" if "i \<le> j" "j < lbits b l" for j
    proof (cases "j < ?w * 64 + 64")
      case False
      then have "Suc ?w \<le> j div 64" by (simp add: less_eq_div_iff_mult_less_eq)
      then have "bm_word b l (j div 64) = 0"
        using IH None zero word_index_less [OF lay l that(2)] by (simp add: is_least_def)
      then show ?thesis by (simp add: level_bit_def)
    qed (use that here in auto)
    then show ?thesis using step c0 up None by (simp add: is_least_def)
  next
    case (Some v)
    with IH have v: "Suc ?w \<le> v" "v < bm_word_counts b ! l" "level_bit b (Suc l) v"
      and between: "\<And>k. Suc ?w \<le> k \<Longrightarrow> k < v \<Longrightarrow> \<not> level_bit b (Suc l) k"
      by (auto simp: is_least_def)
    have p: "bm_word b l v \<noteq> 0" using summary_bit [OF inv up v(2)] v(3) by simp
    note c = countr_zero [OF p]
    let ?r = "v * 64 + countr_zero (bm_word b l v)"
    have lt: "?r < lbits b l" using level_bit_bound [OF inv l v(2) c(2)] .
    have "i < ?w * 64 + 64" by (metis div_mult_mod_eq mod_less_divisor nat_add_left_cancel_less zero_less_numeral)
    moreover have "?w * 64 + 64 \<le> v * 64" using v(1) by simp
    ultimately have "i \<le> ?r" by linarith
    moreover have "\<not> level_bit b l k" if "i \<le> k" "k < ?r" for k
    proof -
      consider "k < ?w * 64 + 64" | "?w * 64 + 64 \<le> k" "k < v * 64" | "v * 64 \<le> k" by linarith
      then show ?thesis
      proof cases
        case 2
        then show ?thesis using zero between v(2) by (intro no_bit_between [of ?w v]) auto
      next
        case 3
        then show ?thesis using that c by (subst same_word [of v]) auto
      qed (use that here in auto)
    qed
    ultimately show ?thesis
      using step c0 up Some v p lt c level_bit_eq [OF c(1), of b l v]
      by (simp add: is_least_def Let_def)
  qed
qed

lemma find_at_or_after_ok:
  assumes inv: "bm_inv b"
  shows "l < bm_level_count b \<Longrightarrow> is_least (level_bit b l) i (lbits b l) (find_at_or_after b l i)"
proof (induction "bm_level_count b - l" arbitrary: l i rule: less_induct)
  case less
  have lay: "layout_ok b" using inv by (simp add: bm_inv_def)
  note l = less.prems
  consider (out) "lbits b l \<le> i" | (hit) "i < lbits b l" "cand_after b l i \<noteq> 0"
    | (top) "i < lbits b l" "cand_after b l i = 0" "\<not> Suc l < bm_level_count b"
    | (up) "i < lbits b l" "cand_after b l i = 0" "Suc l < bm_level_count b" by linarith
  then show ?case
  proof cases
    case out
    then have "find_at_or_after b l i = None"
      using level_bit_count_eq [OF lay l] by (subst find_at_or_after.simps) (simp add: Let_def)
    then show ?thesis using out by (auto simp: is_least_def)
  next
    case hit then show ?thesis by (rule find_after_hit [OF inv l])
  next
    case top
    then have "i div 64 = 0" using lbits_single_word [OF lay l] by simp
    then have "\<not> level_bit b l j" if "i \<le> j" "j < lbits b l" for j
      using level_bit_cand_after [of i j b l] that lbits_single_word [OF lay l top(3)] top(2) by simp
    then show ?thesis using find_at_or_after_unfold [OF inv l top(1)] top by (simp add: is_least_def)
  next
    case up
    then show ?thesis using less.hyps [of "Suc l"] by (intro find_after_up [OF inv]) auto
  qed
qed

subsection \<open>Backward\<close>

definition cand_before :: "bitmap \<Rightarrow> nat \<Rightarrow> nat \<Rightarrow> u64" where
  "cand_before b l i = bm_word b l (i div 64) AND
     (if i mod 64 = 63 then -1 else push_bit (i mod 64 + 1) 1 - 1)"

lemma bit_cand_before: "bit (cand_before b l i) k \<longleftrightarrow> bit (bm_word b l (i div 64)) k \<and> k \<le> i mod 64"
  unfolding cand_before_def by (rule bit_low_mask) simp

lemma level_bit_cand_before:
  assumes "j \<le> i" "i div 64 * 64 \<le> j"
  shows "level_bit b l j = bit (cand_before b l i) (j - i div 64 * 64)"
proof -
  have i: "i = i div 64 * 64 + i mod 64" "i mod 64 < 64" by simp_all
  have "j - i div 64 * 64 \<le> i mod 64" using assms i(1) by linarith
  moreover have "j < i div 64 * 64 + 64" using assms(1) i by linarith
  ultimately show ?thesis using assms(2) by (simp add: same_word bit_cand_before)
qed

lemma find_at_or_before_unfold:
  assumes "bm_inv b" "l < bm_level_count b" "i < lbits b l"
  shows "find_at_or_before b l i =
    (if cand_before b l i \<noteq> 0 then Some (i div 64 * 64 + 63 - countl_zero (cand_before b l i))
     else if \<not> Suc l < bm_level_count b \<or> i div 64 = 0 then None
     else case find_at_or_before b (Suc l) (i div 64 - 1) of
            None \<Rightarrow> None
          | Some v \<Rightarrow> if v \<ge> bm_word_counts b ! l \<or> bm_word b l v = 0 then None
              else let r = v * 64 + 63 - countl_zero (bm_word b l v) in if r < lbits b l then Some r else None)"
proof -
  have lay: "layout_ok b" using assms(1) by (simp add: bm_inv_def)
  have here: "checked_word b l (i div 64) = Some (bm_word b l (i div 64))"
    using checked_word_Some [OF lay assms(2)] word_index_less [OF lay assms(2,3)] by simp
  have there: "(if v \<ge> bm_word_counts b ! l then None
      else case checked_word b l v of None \<Rightarrow> None | Some p \<Rightarrow> if p = 0 then None else f p)
    = (if v \<ge> bm_word_counts b ! l \<or> bm_word b l v = 0 then None else f (bm_word b l v))"
    for v and f :: "u64 \<Rightarrow> nat option"
    using checked_word_Some [OF lay assms(2), of v] by simp
  have bits: "level_bit_count b l = lbits b l" "\<not> (lbits b l = 0 \<or> lbits b l \<le> i)"
    using level_bit_count_eq [OF lay assms(2)] assms(3) by simp_all
  have top: "(bm_level_count b - 1 \<le> l) = (\<not> Suc l < bm_level_count b)" by linarith
  have 63: "64 - 1 = (63::nat)" by simp
  show ?thesis
    unfolding find_at_or_before.simps [of b l i] Let_def bits(1) here option.case there top
      if_not_P [OF bits(2)] kWordBits_def cand_before_def 63 Suc_eq_plus1 ..
qed

lemma find_before_hit:
  assumes inv: "bm_inv b" and l: "l < bm_level_count b" and i: "i < lbits b l"
    and c0: "cand_before b l i \<noteq> 0"
  shows "is_greatest (level_bit b l) i (find_at_or_before b l i)"
proof -
  let ?w = "i div 64"
  define c where "c = 63 - countl_zero (cand_before b l i)"
  note z = countl_zero [OF c0, folded c_def]
  have r: "?w * 64 + 63 - countl_zero (cand_before b l i) = ?w * 64 + c"
    using z(1) by (simp add: c_def)
  have c: "c \<le> i mod 64" using z(2) bit_cand_before by blast
  then have le: "?w * 64 + c \<le> i" by (metis add_le_cancel_left div_mult_mod_eq)
  have "\<not> level_bit b l k" if "?w * 64 + c < k" "k \<le> i" for k
    using z(3) [of "k - ?w * 64"] that level_bit_cand_before [of k i b l] by simp
  moreover have "level_bit b l (?w * 64 + c)" using level_bit_cand_before [OF le, of b l] z(2) by simp
  ultimately show ?thesis
    using find_at_or_before_unfold [OF inv l i] c0 r le by (simp add: is_greatest_def)
qed

lemma find_before_up:
  assumes inv: "bm_inv b" and up: "Suc l < bm_level_count b" and i: "i < lbits b l"
    and c0: "cand_before b l i = 0" and w: "i div 64 \<noteq> 0"
    and IH: "is_greatest (level_bit b (Suc l)) (i div 64 - 1) (find_at_or_before b (Suc l) (i div 64 - 1))"
  shows "is_greatest (level_bit b l) i (find_at_or_before b l i)"
proof -
  let ?w = "i div 64"
  have l: "l < bm_level_count b" using up by simp
  have lay: "layout_ok b" using inv by (simp add: bm_inv_def)
  have wl: "?w < bm_word_counts b ! l" using word_index_less [OF lay l i] .
  have here: "\<not> level_bit b l j" if "j \<le> i" "?w * 64 \<le> j" for j
    using level_bit_cand_before [OF that] c0 by simp
  have zero: "bm_word b l v = 0" if "v < ?w" "\<not> level_bit b (Suc l) v" for v
    using summary_bit [OF inv up] that wl by simp
  note step = find_at_or_before_unfold [OF inv l i]
  show ?thesis
  proof (cases "find_at_or_before b (Suc l) (?w - 1)")
    case None
    have "\<not> level_bit b l j" if "j \<le> i" for j
    proof (cases "?w * 64 \<le> j")
      case False
      then have "j div 64 < ?w" by (simp add: less_mult_imp_div_less)
      then have "bm_word b l (j div 64) = 0" using IH None zero by (simp add: is_greatest_def)
      then show ?thesis by (simp add: level_bit_def)
    qed (use that here in auto)
    then show ?thesis using step c0 up w None by (simp add: is_greatest_def)
  next
    case (Some v)
    with IH w have v: "v < ?w" "level_bit b (Suc l) v"
      and between: "\<And>k. v < k \<Longrightarrow> k < ?w \<Longrightarrow> \<not> level_bit b (Suc l) k"
      by (auto simp: is_greatest_def)
    have vl: "v < bm_word_counts b ! l" using v(1) wl by simp
    have p: "bm_word b l v \<noteq> 0" using summary_bit [OF inv up vl] v(2) by simp
    define c where "c = 63 - countl_zero (bm_word b l v)"
    note z = countl_zero [OF p, folded c_def]
    have r: "v * 64 + 63 - countl_zero (bm_word b l v) = v * 64 + c" and c63: "c < 64"
      using z(1) by (simp_all add: c_def)
    have "v * 64 + 64 \<le> ?w * 64" using v(1) by simp
    moreover have "?w * 64 \<le> i" by simp
    ultimately have le: "v * 64 + c \<le> i" using c63 by linarith
    have "\<not> level_bit b l k" if "v * 64 + c < k" "k \<le> i" for k
    proof -
      consider "?w * 64 \<le> k" | "v * 64 + 64 \<le> k" "k < ?w * 64" | "k < v * 64 + 64" by linarith
      then show ?thesis
      proof cases
        case 2
        then show ?thesis using zero between by (intro no_bit_between [of v ?w]) auto
      next
        case 3
        then show ?thesis using that z(3) by (subst same_word [of v]) auto
      qed (use that here in auto)
    qed
    moreover have "v * 64 + c < lbits b l" using le i by simp
    ultimately show ?thesis
      using step c0 up w Some vl p r le z(2) level_bit_eq [OF c63, of b l v]
      by (simp add: is_greatest_def Let_def)
  qed
qed

lemma find_at_or_before_ok:
  assumes inv: "bm_inv b"
  shows "l < bm_level_count b \<Longrightarrow> i < lbits b l \<Longrightarrow> is_greatest (level_bit b l) i (find_at_or_before b l i)"
proof (induction "bm_level_count b - l" arbitrary: l i rule: less_induct)
  case less
  have lay: "layout_ok b" using inv by (simp add: bm_inv_def)
  note l = less.prems(1) and i = less.prems(2)
  consider (hit) "cand_before b l i \<noteq> 0"
    | (first) "cand_before b l i = 0" "i div 64 = 0"
    | (up) "cand_before b l i = 0" "i div 64 \<noteq> 0" "Suc l < bm_level_count b"
    | (top) "i div 64 \<noteq> 0" "\<not> Suc l < bm_level_count b" by linarith
  then show ?case
  proof cases
    case hit then show ?thesis by (rule find_before_hit [OF inv l i])
  next
    case first
    then have "\<not> level_bit b l j" if "j \<le> i" for j
      using level_bit_cand_before [of j i b l] that by simp
    then show ?thesis using find_at_or_before_unfold [OF inv l i] first by (simp add: is_greatest_def)
  next
    case up
    have "i div 64 - 1 < lbits b (Suc l)" using word_index_less [OF lay l i] by simp
    moreover have "bm_level_count b - Suc l < bm_level_count b - l" using l by simp
    ultimately show ?thesis
      by (intro find_before_up [OF inv up(3) i up(1,2)] less.hyps up(3))
  next
    case top
    then show ?thesis using lbits_single_word [OF lay l] i by simp
  qed
qed

subsection \<open>The public queries\<close>

lemma next_set_ok:
  assumes "bm_inv b"
  shows "is_least (\<lambda>j. j \<in> bm_elems b) i (bm_bit_count b) (next_set b i)"
proof -
  have "0 < bm_level_count b" using assms by (simp add: bm_inv_def layout_ok_def)
  from find_at_or_after_ok [OF assms this, of i] show ?thesis
    by (auto simp: next_set_def is_least_def bm_elems_def split: option.splits)
qed

lemma first_set_ok:
  assumes "bm_inv b" shows "is_least (\<lambda>j. j \<in> bm_elems b) 0 (bm_bit_count b) (first_set b)"
proof -
  have "0 < bm_bit_count b" using assms by (simp add: bm_inv_def layout_ok_def)
  then show ?thesis using next_set_ok [OF assms, of 0] by (simp add: next_set_def first_set_def)
qed

lemma previous_set_ok:
  assumes "bm_inv b" "i < bm_bit_count b"
  shows "is_greatest (\<lambda>j. j \<in> bm_elems b) i (previous_set b i)"
proof -
  have "0 < bm_level_count b" using assms by (simp add: bm_inv_def layout_ok_def)
  from find_at_or_before_ok [OF assms(1) this, of i] show ?thesis
    using assms(2) by (auto simp: previous_set_def is_greatest_def bm_elems_def split: option.splits)
qed

lemma last_set_ok:
  assumes "bm_inv b" shows "is_greatest (\<lambda>j. j \<in> bm_elems b) (bm_bit_count b - 1) (last_set b)"
proof -
  have "0 < bm_bit_count b" using assms by (simp add: bm_inv_def layout_ok_def)
  then show ?thesis using previous_set_ok [OF assms, of "bm_bit_count b - 1"]
    by (simp add: previous_set_def last_set_def split: if_splits)
qed

text \<open>Whatever the words hold, a search moves strictly in its direction and stays in range.\<close>

lemma find_at_or_after_bounds:
  "find_at_or_after b l i = Some j \<Longrightarrow> i \<le> j \<and> j < level_bit_count b l"
proof (induction b l i arbitrary: j rule: find_at_or_after.induct)
  case (1 b l i)
  let ?c = "\<lambda>cw. cw AND push_bit (i mod kWordBits) (-1)"
  have w: "i < (i div 64) * 64 + 64" by (metis div_mult_mod_eq mod_less_divisor nat_add_left_cancel_less zero_less_numeral)
  have hit: "i \<le> i div 64 * 64 + countr_zero (?c cw)" if "?c cw \<noteq> 0" for cw
  proof -
    have "i mod 64 \<le> countr_zero (?c cw)"
      using countr_zero(2) [OF that] unfolding bit_and_push_bit_minus_1 by (simp add: kWordBits_def)
    then show ?thesis by (metis add_le_cancel_left div_mult_mod_eq)
  qed
  obtain cw where cw: "level_bit_count b l \<noteq> 0" "\<not> level_bit_count b l \<le> i"
      "checked_word b l (i div kWordBits) = Some cw"
    using "1.prems" by (subst (asm) find_at_or_after.simps) (auto simp: Let_def split: if_splits option.splits)
  show ?case
  proof (cases "?c cw = 0")
    case False
    then show ?thesis using "1.prems" cw hit [OF False]
      by (subst (asm) find_at_or_after.simps) (auto simp: Let_def kWordBits_def split: if_splits)
  next
    case c0: True
    obtain v p where v: "find_at_or_after b (l + 1) (i div kWordBits + 1) = Some v"
        "\<not> bm_level_count b - 1 \<le> l" "j = v * 64 + countr_zero p" "j < level_bit_count b l"
      using "1.prems" cw c0 by (subst (asm) find_at_or_after.simps)
        (auto simp: Let_def kWordBits_def split: if_splits option.splits)
    have "i div kWordBits + 1 \<le> v"
      using "1.IH" [OF refl _ refl cw(3) refl _ v(2) v(1)] cw c0 by simp
    then show ?thesis using v w by (simp add: kWordBits_def)
  qed
qed

lemma find_at_or_before_bounds:
  "find_at_or_before b l i = Some j \<Longrightarrow> j \<le> i \<and> j < level_bit_count b l"
proof (induction b l i arbitrary: j rule: find_at_or_before.induct)
  case (1 b l i)
  define m where "m = (if i mod 64 = 63 then -1 else push_bit (i mod 64 + 1) 1 - 1 :: u64)"
  have m: "(if i mod kWordBits = kWordBits - 1 then -1
      else push_bit (i mod kWordBits + 1) 1 - 1 :: u64) = m" by (simp add: m_def kWordBits_def)
  have w: "i div 64 * 64 \<le> i" by simp
  have hit: "i div 64 * 64 + 63 - countl_zero (cw AND m) \<le> i" if "cw AND m \<noteq> 0" for cw
  proof -
    have "63 - countl_zero (cw AND m) \<le> i mod 64"
      using countl_zero(2) [OF that] bit_low_mask [of "i mod 64" cw, folded m_def] by simp
    then have "i div 64 * 64 + (63 - countl_zero (cw AND m)) \<le> i"
      by (metis add_le_cancel_left div_mult_mod_eq)
    then show ?thesis by linarith
  qed
  obtain cw where cw: "level_bit_count b l \<noteq> 0" "\<not> level_bit_count b l \<le> i"
      "checked_word b l (i div kWordBits) = Some cw"
    using "1.prems" by (subst (asm) find_at_or_before.simps) (auto simp: Let_def split: if_splits option.splits)
  have "j \<le> i"
  proof (cases "cw AND m = 0")
    case False
    have "find_at_or_before b l i = Some (i div 64 * 64 + 63 - countl_zero (cw AND m))"
      unfolding find_at_or_before.simps [of b l i] Let_def m using cw False
      by (simp add: kWordBits_def)
    then show ?thesis using "1.prems" hit [OF False] by simp
  next
    case c0: True
    then obtain v p where v: "find_at_or_before b (l + 1) (i div kWordBits - 1) = Some v"
        "\<not> (bm_level_count b - 1 \<le> l \<or> i div kWordBits = 0)" "j = v * 64 + 63 - countl_zero p"
      using "1.prems" cw unfolding find_at_or_before.simps [of b l i] Let_def m
      by (simp split: if_splits option.splits) (simp add: kWordBits_def, blast)
    have "v \<le> i div kWordBits - 1"
      using "1.IH" [OF refl _ refl cw(3) refl refl refl _ v(2) v(1)] cw c0 m by simp
    then have "v + 1 \<le> i div 64" using v(2) by (auto simp: kWordBits_def)
    then have "v * 64 + 64 \<le> i div 64 * 64" by linarith
    then show ?thesis using v(3) w by linarith
  qed
  then show ?case using cw(2) by simp
qed

lemma next_set_bounds: "next_set b i = Some j \<Longrightarrow> i \<le> j \<and> j < bm_bit_count b"
  by (auto simp: next_set_def level_bit_count_def dest: find_at_or_after_bounds split: if_splits)

lemma previous_set_bounds: "previous_set b i = Some j \<Longrightarrow> j \<le> i"
  by (auto simp: previous_set_def dest: find_at_or_before_bounds split: if_splits)

section \<open>Construction\<close>

definition lay_bits :: "nat \<Rightarrow> layout \<Rightarrow> nat \<Rightarrow> nat" where
  "lay_bits n lay l = (if l = 0 then n else lay_word_counts lay ! (l - 1))"

definition lay_end :: "layout \<Rightarrow> nat \<Rightarrow> nat" where
  "lay_end lay l = (if l = 0 then 0 else lay_offsets lay ! (l - 1) + lay_word_counts lay ! (l - 1))"

text \<open>The levels laid out so far, for a bitmap of \<open>n\<close> bits.\<close>

definition levels_ok :: "nat \<Rightarrow> layout \<Rightarrow> bool" where
  "levels_ok n lay \<longleftrightarrow>
     length (lay_word_counts lay) = 6 \<and> length (lay_offsets lay) = 6 \<and>
     (\<forall>l < lay_level_count lay.
        lay_word_counts lay ! l = (lay_bits n lay l - 1) div 64 + 1 \<and>
        lay_offsets lay ! l = lay_end lay l) \<and>
     lay_total_words lay = lay_end lay (lay_level_count lay)"

definition add_level :: "nat \<Rightarrow> layout \<Rightarrow> layout" where
  "add_level words lay = lay\<lparr>
     lay_offsets := (lay_offsets lay)[lay_level_count lay := lay_total_words lay],
     lay_word_counts := (lay_word_counts lay)[lay_level_count lay := words],
     lay_total_words := lay_total_words lay + words,
     lay_level_count := lay_level_count lay + 1\<rparr>"

lemma levels_ok_add_level:
  assumes "levels_ok n lay" "lay_level_count lay < 6"
    and "words = (lay_bits n lay (lay_level_count lay) - 1) div 64 + 1"
  shows "levels_ok n (add_level words lay)"
proof -
  let ?lc = "lay_level_count lay" and ?r = "add_level words lay"
  have len: "length (lay_word_counts lay) = 6" "length (lay_offsets lay) = 6"
    using assms(1) by (simp_all add: levels_ok_def)
  have at: "lay_word_counts ?r ! l = (if l = ?lc then words else lay_word_counts lay ! l)"
      "lay_offsets ?r ! l = (if l = ?lc then lay_total_words lay else lay_offsets lay ! l)" for l
    using len assms(2) by (simp_all add: add_level_def nth_list_update)
  have keep: "lay_bits n ?r l = lay_bits n lay l" "lay_end ?r l = lay_end lay l" if "l \<le> ?lc" for l
    using that at by (auto simp: lay_bits_def lay_end_def)
  have "lay_word_counts ?r ! l = (lay_bits n ?r l - 1) div 64 + 1 \<and> lay_offsets ?r ! l = lay_end ?r l"
    if "l < Suc ?lc" for l
    using that assms at keep [of l] by (cases "l = ?lc") (auto simp: levels_ok_def)
  moreover have "lay_total_words ?r = lay_end ?r (Suc ?lc)"
    using at by (simp add: lay_end_def) (simp add: add_level_def)
  ultimately show ?thesis using len by (simp add: levels_ok_def) (simp add: add_level_def)
qed

lemma level_words_eq: "0 < n \<Longrightarrow> (n + (kWordBits - 1)) div kWordBits = (n - 1) div 64 + 1"
  by (cases n) (simp_all add: kWordBits_def)

definition layout_done :: "nat \<Rightarrow> layout \<Rightarrow> bool" where
  "layout_done n lay \<longleftrightarrow> levels_ok n lay \<and> 0 < lay_level_count lay \<and> lay_level_count lay \<le> 6 \<and>
     (\<forall>l. Suc l < lay_level_count lay \<longrightarrow> lay_word_counts lay ! l \<noteq> 1) \<and>
     lay_word_counts lay ! (lay_level_count lay - 1) = 1 \<and> lay_total_words lay \<le> 6 * 2 ^ 32"

lemma make_layout_loop_ok:
  assumes "levels_ok n lay" "lay_level_count lay < 6" "bits = lay_bits n lay (lay_level_count lay)"
    "0 < bits" "bits \<le> 2 ^ (36 - 6 * lay_level_count lay)" "bits < 2 ^ 32"
    "lay_total_words lay \<le> lay_level_count lay * 2 ^ 32"
    "\<forall>l < lay_level_count lay. lay_word_counts lay ! l \<noteq> 1"
  shows "\<exists>lay'. make_layout_loop bits lay = Inr lay' \<and> layout_done n lay'"
  using assms
proof (induction "6 - lay_level_count lay" arbitrary: bits lay rule: less_induct)
  case less
  define words where "words = (bits - 1) div 64 + 1"
  define lay' where "lay' = add_level words lay"
  have lw: "(bits + (kWordBits - 1)) div kWordBits = words"
    unfolding words_def by (rule level_words_eq [OF less.prems(4)])
  have small: "words \<le> 2 ^ (36 - 6 * Suc (lay_level_count lay))"
  proof -
    have e: "36 - 6 * lay_level_count lay = 6 + (36 - 6 * Suc (lay_level_count lay))"
      using less.prems(2) by simp
    have "bits - 1 < 64 * 2 ^ (36 - 6 * Suc (lay_level_count lay))"
      using less.prems(4,5) unfolding e power_add by simp
    then show ?thesis unfolding words_def using less_mult_imp_div_less
      by (metis Suc_eq_plus1 Suc_leI mult.commute)
  qed
  have w32: "words \<le> 2 ^ 26" unfolding words_def using less.prems(6)
    by (simp add: less_mult_imp_div_less Suc_leI)
  have lc: "lay_level_count lay < kMaximumLevels" using less.prems(2) by (simp add: kMaximumLevels_def)
  have tot: "lay_total_words lay \<le> 6 * 2 ^ 32"
    using less.prems(2,7) by (meson le_trans less_imp_le mult_le_mono1)
  have ok: "levels_ok n lay'" unfolding lay'_def
    using less.prems(1-3) words_def by (intro levels_ok_add_level) auto
  have eq: "make_layout_loop bits lay = (if words = 1 then Inr lay' else make_layout_loop words lay')"
  proof -
    have "\<not> lay_total_words lay > kUint64Max - words" using w32 tot by (simp add: kUint64Max_def)
    then show ?thesis using lc w32 unfolding make_layout_loop.simps [of bits lay] Let_def lw
      by (simp add: kUint32Max_def lay'_def add_level_def)
  qed
  have fields: "lay_level_count lay' = Suc (lay_level_count lay)"
      "lay_total_words lay' = lay_total_words lay + words"
    by (simp_all add: lay'_def add_level_def)
  have wc: "lay_word_counts lay' ! l = (if l = lay_level_count lay then words else lay_word_counts lay ! l)" for l
    using less.prems(1,2) by (simp add: lay'_def add_level_def levels_ok_def nth_list_update)
  show ?case
  proof (cases "words = 1")
    case True
    have "lay_total_words lay' \<le> 6 * 2 ^ 32"
      using fields less.prems(2,7) True by simp
    then show ?thesis using True eq ok fields wc less.prems(2,8) by (simp add: layout_done_def)
  next
    case False
    then have two: "2 \<le> words" unfolding words_def by simp
    then have "Suc (lay_level_count lay) < 6" using small less.prems(2)
      by (cases "lay_level_count lay = 5") auto
    moreover have "\<forall>l < lay_level_count lay'. lay_word_counts lay' ! l \<noteq> 1"
      using less.prems(8) wc fields False by (simp add: less_Suc_eq)
    moreover have "words = lay_bits n lay' (lay_level_count lay')" using wc fields by (simp add: lay_bits_def)
    ultimately have "\<exists>lay''. make_layout_loop words lay' = Inr lay'' \<and> layout_done n lay''"
      using ok fields less.prems(2,7) small w32 two by (intro less.hyps) auto
    then show ?thesis using eq False by simp
  qed
qed

lemma make_layout_ok:
  assumes "0 < n" "n < 2 ^ 32"
  shows "\<exists>lay. make_layout n = Inr lay \<and> layout_done n lay"
proof -
  let ?lay0 = "\<lparr>lay_offsets = replicate kMaximumLevels 0, lay_word_counts = replicate kMaximumLevels 0,
               lay_level_count = 0, lay_total_words = 0\<rparr>"
  have "levels_ok n ?lay0" by (simp add: levels_ok_def kMaximumLevels_def lay_end_def)
  then obtain lay where lay: "make_layout_loop n ?lay0 = Inr lay" "layout_done n lay"
    using make_layout_loop_ok [of n ?lay0 n] assms by (auto simp: lay_bits_def)
  moreover from lay(2) have "\<not> lay_total_words lay > kUint64Max div 8"
    by (simp add: kUint64Max_def layout_done_def)
  ultimately show ?thesis using assms(1) by (simp add: make_layout_def)
qed

lemma make_bitmap_ok:
  assumes "0 < n" "n < 2 ^ 32"
  shows "\<exists>b. make_bitmap n = Inr b \<and> bm_inv b \<and> bm_bit_count b = n \<and> bm_elems b = {}"
proof -
  obtain lay where lay: "make_layout n = Inr lay" and ld: "layout_done n lay"
    using make_layout_ok [OF assms] by blast
  define b where "b = \<lparr>bm_bit_count = n, bm_offsets = lay_offsets lay,
    bm_word_counts = lay_word_counts lay, bm_level_count = lay_level_count lay,
    bm_total_words = lay_total_words lay, bm_words = replicate (lay_total_words lay) 0\<rparr>"
  let ?lc = "lay_level_count lay"
  have lv: "levels_ok n lay" and lc: "0 < ?lc" using ld by (simp_all add: layout_done_def)
  have off: "lay_offsets lay ! l = lay_end lay l" if "l < ?lc" for l
    using lv that by (simp add: levels_ok_def)
  have "lay_offsets lay ! Suc l = lay_offsets lay ! l + lay_word_counts lay ! l" if "Suc l < ?lc" for l
    using off [OF that] by (simp add: lay_end_def)
  moreover have "lay_total_words lay = lay_offsets lay ! (?lc - 1) + lay_word_counts lay ! (?lc - 1)"
    using lv lc by (simp add: levels_ok_def lay_end_def)
  moreover have "lbits b l = lay_bits n lay l" for l by (simp add: b_def lbits_def lay_bits_def)
  moreover have "lay_word_counts lay ! l = (lay_bits n lay l - 1) div 64 + 1" if "l < ?lc" for l
    using lv that by (simp add: levels_ok_def)
  ultimately have ok: "layout_ok b"
    using ld assms(1) off [OF lc] unfolding layout_ok_def
    by (simp add: b_def layout_done_def kMaximumLevels_def lay_end_def)
  have "bm_word b l w = 0" if "l < bm_level_count b" "w < bm_word_counts b ! l" for l w
    using offset_total [OF ok that] by (simp add: bm_word_def b_def)
  moreover from this have "\<not> level_bit b l i" if "l < bm_level_count b" "i < lbits b l" for l i
    using word_index_less [OF ok that] that by (simp add: level_bit_def)
  ultimately have "bm_inv b \<and> bm_elems b = {}"
    using ok lc by (auto simp: bm_inv_def padding_ok_def summaries_ok_def bm_elems_def b_def)
  then show ?thesis using lay by (auto simp: make_bitmap_def b_def)
qed

section \<open>The diagnostic decides well-formedness\<close>

text \<open>What one turn of the layout loop checks.\<close>

definition level_fits :: "bitmap \<Rightarrow> nat \<Rightarrow> bool" where
  "level_fits b l \<longleftrightarrow> bm_word_counts b ! l = (lbits b l - 1) div 64 + 1 \<and>
     bm_word_counts b ! l \<le> kUint32Max \<and> (bm_word_counts b ! l = 1) = (Suc l = bm_level_count b) \<and>
     bm_offsets b ! l + bm_word_counts b ! l \<le> bm_total_words b"

lemma layout_consistent_step:
  assumes "l < bm_level_count b"
  shows "layout_consistent_from b l (lbits b l) off =
     (if off = bm_offsets b ! l \<and> level_fits b l
      then layout_consistent_from b (Suc l) (lbits b (Suc l)) (off + bm_word_counts b ! l) else None)"
  using assms by (subst layout_consistent_from.simps)
    (auto simp: Let_def kWordBits_def level_fits_def)

lemma layout_consistent_iff:
  "l < bm_level_count b \<Longrightarrow>
   layout_consistent_from b l (lbits b l) off = Some t \<longleftrightarrow>
     off = bm_offsets b ! l \<and> (\<forall>m. l \<le> m \<and> m < bm_level_count b \<longrightarrow> level_fits b m) \<and>
     (\<forall>m. l \<le> m \<and> Suc m < bm_level_count b \<longrightarrow>
        bm_offsets b ! Suc m = bm_offsets b ! m + bm_word_counts b ! m) \<and>
     t = bm_offsets b ! (bm_level_count b - 1) + bm_word_counts b ! (bm_level_count b - 1)"
proof (induction "bm_level_count b - l" arbitrary: l off rule: less_induct)
  case less
  have split: "(\<forall>m. l \<le> m \<and> Q m \<longrightarrow> P m) \<longleftrightarrow>
      (Q l \<longrightarrow> P l) \<and> (\<forall>m. Suc l \<le> m \<and> Q m \<longrightarrow> P m)" for P Q
    by (metis Suc_leD Suc_leI le_eq_less_or_eq)
  show ?case
  proof (cases "Suc l < bm_level_count b")
    case False
    then have top: "bm_level_count b = Suc l" using less.prems by simp
    have "layout_consistent_from b (Suc l) x y = Some y" for x y
      using top by (subst layout_consistent_from.simps) simp
    then show ?thesis unfolding layout_consistent_step [OF less.prems] using top
      by (auto simp: less_Suc_eq le_less_Suc_eq)
  next
    case True
    note IH = less.hyps [of "Suc l" "off + bm_word_counts b ! l"]
    show ?thesis unfolding layout_consistent_step [OF less.prems] split [of "\<lambda>m. m < _"]
      split [of "\<lambda>m. Suc m < _"] using IH True by auto
  qed
qed

lemma last_word:
  assumes "layout_ok b" "l < bm_level_count b" "lbits b l mod 64 \<noteq> 0"
  shows "bm_word_counts b ! l - 1 = lbits b l div 64"
proof -
  define n where "n = lbits b l"
  have "(n - 1) div 64 = n div 64" using assms(3) unfolding n_def [symmetric]
    by (metis One_nat_def Suc_pred' bot_nat_0.not_eq_extremum div_Suc mod_0)
  then show ?thesis using assms(1,2) by (simp add: layout_ok_def n_def)
qed

lemma high_bits_clear: "(w :: u64) AND push_bit n (-1) = 0 \<longleftrightarrow> (\<forall>k. bit w k \<longrightarrow> k < n)"
  unfolding word_eq_0_bit bit_and_push_bit_minus_1 by (auto simp: not_le)

lemma padding_clear_iff:
  assumes lay: "layout_ok b" and l: "l < bm_level_count b"
  shows "padding_clear b l (lbits b l) \<longleftrightarrow>
     (\<forall>w < bm_word_counts b ! l. \<forall>k. bit (bm_word b l w) k \<longrightarrow> w * 64 + k < lbits b l)"
proof (cases "lbits b l mod 64 = 0")
  case True
  have "w * 64 + k < lbits b l" if "w < bm_word_counts b ! l" "k < 64" for w k
  proof -
    have "w \<le> (lbits b l - 1) div 64" using that lay l by (simp add: layout_ok_def)
    moreover obtain q where q: "lbits b l = q * 64" using True by (metis mod_0_imp_dvd dvd_div_mult_self)
    moreover have "(lbits b l - 1) div 64 < q"
      using lbits_pos [OF lay l] q by (intro less_mult_imp_div_less) simp
    ultimately have "w + 1 \<le> q" by linarith
    then show ?thesis using that(2) q by linarith
  qed
  then show ?thesis using True by (auto simp: padding_clear_def kWordBits_def dest: bit_u64_less)
next
  case False
  let ?last = "bm_word_counts b ! l - 1"
  have last: "?last < bm_word_counts b ! l" using layout_ok_counts_pos [OF lay l] by simp
  have n: "lbits b l = ?last * 64 + lbits b l mod 64" using last_word [OF lay l False] by simp
  have below: "w * 64 + k < lbits b l" if "w < ?last" "k < 64" for w k
    using that n by linarith
  have "padding_clear b l (lbits b l) \<longleftrightarrow> (\<forall>k. bit (bm_word b l ?last) k \<longrightarrow> k < lbits b l mod 64)"
    using False checked_word_Some [OF lay l last]
    unfolding padding_clear_def Let_def kWordBits_def by (simp add: high_bits_clear del: push_bit_minus_one_eq_not_mask)
  also have "\<dots> \<longleftrightarrow> (\<forall>k. bit (bm_word b l ?last) k \<longrightarrow> ?last * 64 + k < lbits b l)" using n by auto
  finally show ?thesis
  proof (rule trans, intro iffI allI impI)
    fix w k assume all: "\<forall>k. bit (bm_word b l ?last) k \<longrightarrow> ?last * 64 + k < lbits b l"
      and w: "w < bm_word_counts b ! l" and k: "bit (bm_word b l w) k"
    show "w * 64 + k < lbits b l"
    proof (cases "w = ?last")
      case True
      then show ?thesis using all k by blast
    next
      case False
      then show ?thesis using below w bit_u64_less [OF k] by simp
    qed
  qed (use last in blast)
qed

lemma summary_matches_iff:
  assumes "layout_ok b" "Suc l < bm_level_count b"
  shows "summary_matches b (Suc l) \<longleftrightarrow>
     (\<forall>w < bm_word_counts b ! l. level_bit b (Suc l) w = (bm_word b l w \<noteq> 0))"
proof -
  have "checked_word b l w = Some (bm_word b l w)"
       "checked_word b (Suc l) (w div kWordBits) = Some (bm_word b (Suc l) (w div 64))"
    if "w < bm_word_counts b ! l" for w
    using that assms word_index_less [OF assms, of w]
    by (auto simp: kWordBits_def intro!: checked_word_Some)
  then show ?thesis
    by (auto simp: summary_matches_def list_all_iff level_bit_def kWordBits_def and_push_bit_1_eq_0)
qed

lemma contents_consistent_iff:
  assumes lay: "layout_ok b"
  shows "l < bm_level_count b \<Longrightarrow> contents_consistent_from b l (lbits b l) \<longleftrightarrow>
     (\<forall>m. l \<le> m \<and> m < bm_level_count b \<longrightarrow> padding_clear b m (lbits b m) \<and> summary_matches b m)"
proof (induction "bm_level_count b - l" arbitrary: l rule: less_induct)
  case less
  have split: "(\<forall>m. l \<le> m \<and> m < bm_level_count b \<longrightarrow> P m) \<longleftrightarrow>
      P l \<and> (\<forall>m. Suc l \<le> m \<and> m < bm_level_count b \<longrightarrow> P m)" for P
    using less.prems by (metis Suc_leD Suc_leI le_eq_less_or_eq)
  have step: "contents_consistent_from b l (lbits b l) \<longleftrightarrow> padding_clear b l (lbits b l) \<and>
      summary_matches b l \<and> contents_consistent_from b (Suc l) (lbits b (Suc l))"
    using less.prems by (subst contents_consistent_from.simps) simp
  show ?case
  proof (cases "Suc l < bm_level_count b")
    case True
    then show ?thesis using step less.hyps [of "Suc l"] unfolding split by auto
  next
    case False
    then have "contents_consistent_from b (Suc l) (lbits b (Suc l))"
      using lay by (subst contents_consistent_from.simps) (simp add: layout_ok_def)
    then show ?thesis using step False unfolding split by auto
  qed
qed

lemma hierarchy_consistent_iff:
  assumes len: "length (bm_words b) = bm_total_words b"
    and fit: "\<forall>l < bm_level_count b. bm_word_counts b ! l \<le> kUint32Max"
  shows "hierarchy_consistent b \<longleftrightarrow> bm_inv b"
proof -
  let ?lc = "bm_level_count b"
  have lay: "(0 < bm_bit_count b \<and> 0 < ?lc \<and> ?lc \<le> kMaximumLevels \<and> bm_total_words b \<noteq> 0 \<and>
      layout_consistent_from b 0 (bm_bit_count b) 0 = Some (bm_total_words b)) \<longleftrightarrow> layout_ok b"
  proof (cases "0 < ?lc")
    case True
    note iff = layout_consistent_iff [OF True, of 0 "bm_total_words b", simplified]
    have to: "level_fits b m" if "layout_ok b" "m < ?lc" for m
    proof -
      have "bm_offsets b ! m + bm_word_counts b ! m \<le> bm_total_words b"
        using offset_total [OF that, of "bm_word_counts b ! m - 1"] layout_ok_counts_pos [OF that] by simp
      moreover have "bm_word_counts b ! m = 1 \<longleftrightarrow> Suc m = ?lc"
        using that top_level [of b m] by (metis Suc_lessI layout_ok_def)
      ultimately show ?thesis using that fit by (simp add: level_fits_def layout_ok_def)
    qed
    have "bm_word_counts b ! (?lc - 1) = 1" if "level_fits b (?lc - 1)"
      using that True by (simp add: level_fits_def)
    moreover have "bm_word_counts b ! m = (lbits b m - 1) div 64 + 1"
        "Suc m < ?lc \<Longrightarrow> bm_word_counts b ! m \<noteq> 1" if "level_fits b m" for m
      using that by (auto simp: level_fits_def)
    ultimately have conv: "layout_ok b"
      if "0 < bm_bit_count b" "?lc \<le> kMaximumLevels" "0 = bm_offsets b ! 0" "\<forall>m < ?lc. level_fits b m"
        "\<forall>m. Suc m < ?lc \<longrightarrow> bm_offsets b ! Suc m = bm_offsets b ! m + bm_word_counts b ! m"
        "bm_total_words b = bm_offsets b ! (?lc - 1) + bm_word_counts b ! (?lc - 1)"
      using that True len unfolding layout_ok_def by simp
    show ?thesis unfolding iff
    proof
      assume a: "layout_ok b"
      then have "\<forall>m < ?lc. level_fits b m" using to by blast
      with a show "0 < bm_bit_count b \<and> 0 < ?lc \<and> ?lc \<le> kMaximumLevels \<and> bm_total_words b \<noteq> 0 \<and>
        bm_offsets b ! 0 = 0 \<and> (\<forall>m < ?lc. level_fits b m) \<and>
        (\<forall>m. Suc m < ?lc \<longrightarrow> bm_offsets b ! Suc m = bm_offsets b ! m + bm_word_counts b ! m) \<and>
        bm_total_words b = bm_offsets b ! (?lc - Suc 0) + bm_word_counts b ! (?lc - Suc 0)"
        by (simp add: layout_ok_def)
    qed (use conv in auto)
  qed (simp add: layout_ok_def)
  have contents: "(\<forall>m < ?lc. padding_clear b m (lbits b m) \<and> summary_matches b m) \<longleftrightarrow>
      padding_ok b \<and> summaries_ok b" if "layout_ok b"
  proof -
    have "(\<forall>m < ?lc. summary_matches b m) \<longleftrightarrow> (\<forall>m. Suc m < ?lc \<longrightarrow> summary_matches b (Suc m))"
      by (metis Suc_less_eq2 not0_implies_Suc summary_matches_def)
    then show ?thesis using padding_clear_iff [OF that] summary_matches_iff [OF that]
      by (auto simp: padding_ok_def summaries_ok_def)
  qed
  show ?thesis
  proof (cases "layout_ok b")
    case True
    with lay have "hierarchy_consistent b = contents_consistent_from b 0 (lbits b 0)"
      by (simp add: hierarchy_consistent_def)
    also have "\<dots> \<longleftrightarrow> padding_ok b \<and> summaries_ok b"
      using contents_consistent_iff [OF True, of 0] contents [OF True] True
      by (simp add: layout_ok_def)
    finally show ?thesis using True by (simp add: bm_inv_def)
  next
    case False
    with lay show ?thesis
      by (auto simp: hierarchy_consistent_def bm_inv_def split: option.splits if_splits)
  qed
qed

section \<open>The bitmap provides the occupancy index\<close>

interpretation bm: occupancy_index bm_inv bm_elems bm_bit_count
  "\<lambda>b i. snd (bm_set b i)" "\<lambda>b i. snd (bm_clear b i)" bm_test first_set last_set next_set previous_set
proof unfold_locales
  show "i < bm_bit_count s" if "bm_inv s" "i \<in> bm_elems s" for s i using that by (simp add: bm_elems_def)
qed (fact bm_set_ok bm_clear_ok bm_test_ok first_set_ok last_set_ok next_set_ok previous_set_ok)+

end
