(* ===== verification/Order_Arena.thy ===== *)
theory Order_Arena
  imports ME_Types
begin

text \<open>
  The fixed-capacity order arena of \<^verbatim>\<open>order_arena.hpp\<close>: an array of slots with a free list threaded
  through the dead ones, and handles that carry the slot's generation.
\<close>

section \<open>The contract of a handle store\<close>

text \<open>
  What the order book relies on: \<open>contents\<close> is the finite map from handles to orders that the store
  stands for; an acquire adds a handle that was not there, a release removes exactly one, a resolve
  looks one up.
\<close>

locale handle_store =
  fixes invar :: "'s \<Rightarrow> bool"
    and contents :: "'s \<Rightarrow> handle \<Rightarrow> 'o option"
    and used :: "'s \<Rightarrow> nat"
    and limit :: "'s \<Rightarrow> nat"
    and acquire :: "'s \<Rightarrow> 'o \<Rightarrow> handle option \<times> 's"
    and resolve :: "'s \<Rightarrow> handle \<Rightarrow> 'o option"
    and release :: "'s \<Rightarrow> handle \<Rightarrow> bool \<times> 's"
  assumes full_law: "invar s \<Longrightarrow> used s = limit s \<Longrightarrow> acquire s x = (None, s)"
    and acquire_law: "invar s \<Longrightarrow> used s \<noteq> limit s \<Longrightarrow>
      \<exists>h s'. acquire s x = (Some h, s') \<and> invar s' \<and> contents s h = None \<and>
        contents s' = (contents s)(h \<mapsto> x) \<and> used s' = Suc (used s) \<and> limit s' = limit s"
    and resolve_law: "invar s \<Longrightarrow> resolve s h = contents s h"
    and dead_law: "invar s \<Longrightarrow> contents s h = None \<Longrightarrow> release s h = (False, s)"
    and release_law: "invar s \<Longrightarrow> contents s h = Some x \<Longrightarrow>
      \<exists>s'. release s h = (True, s') \<and> invar s' \<and> contents s' = (contents s)(h := None) \<and>
        Suc (used s') = used s \<and> limit s' = limit s"
    and bound_law: "invar s \<Longrightarrow> used s \<le> limit s"
begin

lemma acquire_Some_iff: "invar s \<Longrightarrow> fst (acquire s x) \<noteq> None \<longleftrightarrow> used s < limit s"
  using full_law [of s x] acquire_law [of s x] bound_law [of s] by (cases "used s = limit s") auto

text \<open>A handle just handed out resolves to its order, and no other handle changes meaning.\<close>

lemma resolve_acquire:
  assumes "invar s" "acquire s x = (Some h, s')"
  shows "resolve s' g = (if g = h then Some x else resolve s g)" and "resolve s h = None"
proof -
  have "used s \<noteq> limit s" using full_law [OF assms(1)] assms(2) by fastforce
  then show "resolve s' g = (if g = h then Some x else resolve s g)" and "resolve s h = None"
    using acquire_law [OF assms(1), of x] assms by (auto simp: resolve_law)
qed

text \<open>A released handle no longer resolves; every other handle keeps its order.\<close>

lemma resolve_release:
  assumes "invar s" "release s h = (True, s')"
  shows "resolve s' g = (if g = h then None else resolve s g)"
proof (cases "contents s h")
  case None
  then show ?thesis using dead_law [OF assms(1)] assms(2) by simp
next
  case (Some x)
  then show ?thesis using release_law [OF assms(1) Some] assms by (auto simp: resolve_law)
qed

lemma acquire_release_id:
  assumes "invar s" "acquire s x = (Some h, s')" "release s' h = (ok, t)"
  shows "ok \<and> contents t = contents s \<and> used t = used s"
proof -
  have ne: "used s \<noteq> limit s" using full_law [OF assms(1)] assms(2) by fastforce
  then have s': "invar s'" "contents s h = None" "contents s' = (contents s)(h \<mapsto> x)" "used s' = Suc (used s)"
    using acquire_law [OF assms(1) ne, of x] assms(2) by auto
  then have "contents s' h = Some x" by simp
  then show ?thesis using release_law [OF s'(1), of h x] assms(3) s'(2-4) by auto
qed

end

section \<open>The arena\<close>

definition next_generation :: "u32 \<Rightarrow> u32" where
  "next_generation generation = (if generation = -1 then 1 else generation + 1)"

datatype arena_error = Arena_None | Arena_Full | Arena_Invalid_Handle

record acquire_result =
  acq_handle :: handle
  acq_error :: arena_error

record slot =
  sl_order :: order
  sl_generation :: u32
  sl_free_next :: nat
  sl_live :: bool

record arena =
  ar_capacity :: nat
  ar_slots :: "slot list"
  ar_size :: nat
  ar_free_head :: nat

definition initial_order :: order where
  "initial_order = \<lparr>ord_id = 0, ord_remaining = 0, ord_prev = kInvalidIndex, ord_next = kInvalidIndex,
     ord_encoded = 0, ord_flags = 0\<rparr>"

definition checked_capacity :: "nat \<Rightarrow> cpp_exception + nat" where
  "checked_capacity capacity = (if capacity > kUint32Max then Inl Length_Error else Inr capacity)"

definition make_arena :: "nat \<Rightarrow> cpp_exception + arena" where
  "make_arena capacity =
     (case checked_capacity capacity of
        Inl e \<Rightarrow> Inl e
      | Inr cap \<Rightarrow> Inr \<lparr>ar_capacity = cap,
          ar_slots = map (\<lambda>index. \<lparr>sl_order = initial_order, sl_generation = 1,
              sl_free_next = (if index = cap - 1 then kInvalidIndex else index + 1), sl_live = False\<rparr>)
            [0..<cap],
          ar_size = 0, ar_free_head = (if cap \<noteq> 0 then 0 else kInvalidIndex)\<rparr>)"

definition order_at :: "arena \<Rightarrow> nat \<Rightarrow> order" where
  "order_at a index = sl_order (ar_slots a ! index)"

text \<open>Writing through the reference \<^verbatim>\<open>order_at\<close> returns.\<close>

definition set_order_at :: "arena \<Rightarrow> nat \<Rightarrow> order \<Rightarrow> arena" where
  "set_order_at a index x = a\<lparr>ar_slots := (ar_slots a)[index := (ar_slots a ! index)\<lparr>sl_order := x\<rparr>]\<rparr>"

definition handle_at :: "arena \<Rightarrow> nat \<Rightarrow> handle" where
  "handle_at a index = \<lparr>h_index = index, h_generation = sl_generation (ar_slots a ! index)\<rparr>"

definition is_live_index :: "arena \<Rightarrow> nat \<Rightarrow> bool" where
  "is_live_index a index \<longleftrightarrow> index < ar_capacity a \<and> sl_live (ar_slots a ! index)"

definition is_live_handle :: "arena \<Rightarrow> handle \<Rightarrow> bool" where
  "is_live_handle a h \<longleftrightarrow> h_generation h \<noteq> 0 \<and> h_index h < ar_capacity a \<and>
     sl_live (ar_slots a ! h_index h) \<and> sl_generation (ar_slots a ! h_index h) = h_generation h"

definition acquire :: "arena \<Rightarrow> order \<Rightarrow> acquire_result \<times> arena" where
  "acquire a x =
     (if ar_free_head a = kInvalidIndex
      then (\<lparr>acq_handle = \<lparr>h_index = kInvalidIndex, h_generation = 0\<rparr>, acq_error = Arena_Full\<rparr>, a)
      else let index = ar_free_head a;
               sl = ar_slots a ! index;
               a' = a\<lparr>ar_free_head := sl_free_next sl,
                      ar_slots := (ar_slots a)[index := sl\<lparr>sl_order := x, sl_live := True\<rparr>],
                      ar_size := ar_size a + 1\<rparr>
           in (\<lparr>acq_handle = \<lparr>h_index = index, h_generation = sl_generation sl\<rparr>,
                acq_error = Arena_None\<rparr>, a'))"

definition resolve :: "arena \<Rightarrow> handle \<Rightarrow> order option" where
  "resolve a h = (if \<not> is_live_handle a h then None else Some (sl_order (ar_slots a ! h_index h)))"

definition release :: "arena \<Rightarrow> handle \<Rightarrow> arena_error \<times> arena" where
  "release a h =
     (if \<not> is_live_handle a h then (Arena_Invalid_Handle, a)
      else let index = h_index h;
               sl = ar_slots a ! index
           in (Arena_None,
               a\<lparr>ar_slots := (ar_slots a)[index := sl\<lparr>sl_live := False,
                   sl_generation := next_generation (sl_generation sl), sl_free_next := ar_free_head a\<rparr>],
                 ar_free_head := index, ar_size := ar_size a - 1\<rparr>))"

definition release_index :: "arena \<Rightarrow> nat \<Rightarrow> arena" where
  "release_index a index = snd (release a (handle_at a index))"

section \<open>Invariant\<close>

fun free_chain :: "slot list \<Rightarrow> nat \<Rightarrow> nat list \<Rightarrow> bool" where
  "free_chain sls h [] \<longleftrightarrow> h = kInvalidIndex"
| "free_chain sls h (i # is) \<longleftrightarrow> h = i \<and> free_chain sls (sl_free_next (sls ! i)) is"

definition live_set :: "arena \<Rightarrow> nat set" where
  "live_set a = {i. i < ar_capacity a \<and> sl_live (ar_slots a ! i)}"

definition arena_ok :: "arena \<Rightarrow> bool" where
  "arena_ok a \<longleftrightarrow> length (ar_slots a) = ar_capacity a \<and> ar_capacity a \<le> kUint32Max \<and>
     (\<forall>i < ar_capacity a. sl_generation (ar_slots a ! i) \<noteq> 0) \<and>
     ar_size a = card (live_set a) \<and>
     (\<exists>F. free_chain (ar_slots a) (ar_free_head a) F \<and> distinct F \<and>
          set F = {..<ar_capacity a} - live_set a)"

lemma next_generation_nonzero: "g \<noteq> 0 \<Longrightarrow> next_generation g \<noteq> 0"
  by (simp add: next_generation_def eq_neg_iff_add_eq_0)

lemma next_generation_neq: "g \<noteq> 0 \<Longrightarrow> next_generation g \<noteq> g"
  by (auto simp: next_generation_def)

lemma finite_live_set [simp]: "finite (live_set a)"
  by (rule finite_subset [of _ "{..<ar_capacity a}"]) (auto simp: live_set_def)

lemma live_set_bound: "i \<in> live_set a \<Longrightarrow> i < ar_capacity a"
  by (simp add: live_set_def)

lemma arena_index_valid: "arena_ok a \<Longrightarrow> i < ar_capacity a \<Longrightarrow> i \<noteq> kInvalidIndex"
  by (auto simp: arena_ok_def kInvalidIndex_def kUint32Max_def)

lemma is_live_index_iff: "is_live_index a i \<longleftrightarrow> i \<in> live_set a"
  by (auto simp: is_live_index_def live_set_def)

lemma handle_at_fields [simp]: "h_index (handle_at a i) = i"
  by (simp add: handle_at_def)

lemma is_live_handle_at: "arena_ok a \<Longrightarrow> i \<in> live_set a \<Longrightarrow> is_live_handle a (handle_at a i)"
  by (auto simp: is_live_handle_def handle_at_def live_set_def arena_ok_def)

lemma is_live_handle_iff:
  "arena_ok a \<Longrightarrow> is_live_handle a h \<longleftrightarrow> h_index h \<in> live_set a \<and> h = handle_at a (h_index h)"
  by (cases h) (auto simp: is_live_handle_def handle_at_def live_set_def arena_ok_def)

lemma free_chain_cong:
  "(\<And>i. i \<in> set F \<Longrightarrow> sl_free_next (sls ! i) = sl_free_next (sls' ! i)) \<Longrightarrow>
     free_chain sls h F = free_chain sls' h F"
  by (induction F arbitrary: h) auto

lemma free_chain_update [simp]: "i \<notin> set F \<Longrightarrow> free_chain (sls[i := v]) h F = free_chain sls h F"
  by (rule free_chain_cong) (metis nth_list_update_neq)

lemma size_le_capacity: "arena_ok a \<Longrightarrow> ar_size a \<le> ar_capacity a"
  using card_mono [of "{..<ar_capacity a}" "live_set a"] by (auto simp: arena_ok_def live_set_def)

lemma arena_full_iff:
  assumes "arena_ok a"
  shows "ar_free_head a = kInvalidIndex \<longleftrightarrow> ar_size a = ar_capacity a"
proof -
  obtain F where F: "free_chain (ar_slots a) (ar_free_head a) F" "distinct F"
      "set F = {..<ar_capacity a} - live_set a" using assms by (auto simp: arena_ok_def)
  have sub: "live_set a \<subseteq> {..<ar_capacity a}" by (auto simp: live_set_def)
  have "ar_free_head a = kInvalidIndex \<longleftrightarrow> F = []"
    using F(1,3) arena_index_valid [OF assms] by (cases F) auto
  also have "\<dots> \<longleftrightarrow> live_set a = {..<ar_capacity a}" using F(3) sub by auto
  also have "\<dots> \<longleftrightarrow> card (live_set a) = ar_capacity a"
    by (metis card_lessThan card_subset_eq finite_lessThan sub)
  finally show ?thesis using assms by (simp add: arena_ok_def)
qed

section \<open>Acquire\<close>

lemma acquire_full:
  "arena_ok a \<Longrightarrow> ar_size a = ar_capacity a \<Longrightarrow>
     acquire a x = (\<lparr>acq_handle = \<lparr>h_index = kInvalidIndex, h_generation = 0\<rparr>, acq_error = Arena_Full\<rparr>, a)"
  using arena_full_iff [of a] by (simp add: acquire_def)

lemma acquire_ok:
  assumes ok: "arena_ok a" and room: "ar_size a \<noteq> ar_capacity a"
  obtains i where "i < ar_capacity a" "i \<notin> live_set a" "fst (acquire a x) =
      \<lparr>acq_handle = handle_at a i, acq_error = Arena_None\<rparr>"
    "arena_ok (snd (acquire a x))" "live_set (snd (acquire a x)) = insert i (live_set a)"
    "ar_capacity (snd (acquire a x)) = ar_capacity a"
    "ar_slots (snd (acquire a x)) = (ar_slots a)[i := (ar_slots a ! i)\<lparr>sl_order := x, sl_live := True\<rparr>]"
    "ar_size (snd (acquire a x)) = Suc (ar_size a)"
proof -
  obtain F where F: "free_chain (ar_slots a) (ar_free_head a) F" "distinct F"
      "set F = {..<ar_capacity a} - live_set a" using ok by (auto simp: arena_ok_def)
  have ne: "ar_free_head a \<noteq> kInvalidIndex" using arena_full_iff [OF ok] room by simp
  with F(1) obtain i G where Fi: "F = i # G" "ar_free_head a = i" by (cases F) auto
  have i: "i < ar_capacity a" "i \<notin> live_set a" using F(3) Fi by auto
  have len: "length (ar_slots a) = ar_capacity a" using ok by (simp add: arena_ok_def)
  let ?a = "snd (acquire a x)"
  have a': "?a = a\<lparr>ar_free_head := sl_free_next (ar_slots a ! i),
      ar_slots := (ar_slots a)[i := (ar_slots a ! i)\<lparr>sl_order := x, sl_live := True\<rparr>],
      ar_size := ar_size a + 1\<rparr>"
    using ne Fi by (simp add: acquire_def Let_def)
  have live: "live_set ?a = insert i (live_set a)"
    using i len by (auto simp: a' live_set_def nth_list_update)
  have "free_chain (ar_slots ?a) (ar_free_head ?a) G"
    using F(1,2) Fi by (simp add: a')
  moreover have "distinct G" "set G = {..<ar_capacity ?a} - live_set ?a"
    using F(2,3) Fi live by (auto simp: a')
  moreover have "ar_size ?a = card (live_set ?a)"
    unfolding live using ok i by (simp add: a' arena_ok_def)
  moreover have "\<forall>j < ar_capacity a. sl_generation (ar_slots ?a ! j) \<noteq> 0"
    using ok len i by (auto simp: a' arena_ok_def nth_list_update)
  moreover have "length (ar_slots ?a) = ar_capacity ?a" "ar_capacity ?a = ar_capacity a" using len by (simp_all add: a')
  ultimately have "arena_ok ?a"
    using ok unfolding arena_ok_def by (intro conjI exI [of _ G]) simp_all
  then show ?thesis
    using that [of i] i live ne Fi by (simp add: a') (simp add: acquire_def Let_def handle_at_def)
qed

section \<open>Release\<close>

lemma release_ok:
  assumes ok: "arena_ok a" and i: "i \<in> live_set a"
  shows "arena_ok (snd (release a (handle_at a i)))"
    and "fst (release a (handle_at a i)) = Arena_None"
    and "live_set (snd (release a (handle_at a i))) = live_set a - {i}"
    and "ar_capacity (snd (release a (handle_at a i))) = ar_capacity a"
    and "ar_slots (snd (release a (handle_at a i))) = (ar_slots a)[i := (ar_slots a ! i)\<lparr>sl_live := False,
           sl_generation := next_generation (sl_generation (ar_slots a ! i)), sl_free_next := ar_free_head a\<rparr>]"
    and "Suc (ar_size (snd (release a (handle_at a i)))) = ar_size a"
proof -
  let ?r = "release a (handle_at a i)"
  obtain F where F: "free_chain (ar_slots a) (ar_free_head a) F" "distinct F"
      "set F = {..<ar_capacity a} - live_set a" using ok by (auto simp: arena_ok_def)
  have len: "length (ar_slots a) = ar_capacity a" "i < ar_capacity a"
    using ok i by (auto simp: arena_ok_def live_set_def)
  have r: "?r = (Arena_None, a\<lparr>ar_slots := (ar_slots a)[i := (ar_slots a ! i)\<lparr>sl_live := False,
      sl_generation := next_generation (sl_generation (ar_slots a ! i)), sl_free_next := ar_free_head a\<rparr>],
      ar_free_head := i, ar_size := ar_size a - 1\<rparr>)"
    using is_live_handle_at [OF ok i] by (simp add: release_def Let_def)
  then show "fst ?r = Arena_None" "ar_capacity (snd ?r) = ar_capacity a"
    "ar_slots (snd ?r) = (ar_slots a)[i := (ar_slots a ! i)\<lparr>sl_live := False,
      sl_generation := next_generation (sl_generation (ar_slots a ! i)), sl_free_next := ar_free_head a\<rparr>]"
    by simp_all
  show live: "live_set (snd ?r) = live_set a - {i}" using len by (auto simp: r live_set_def nth_list_update)
  have pos: "0 < ar_size a" using ok i by (auto simp: arena_ok_def card_gt_0_iff)
  then show "Suc (ar_size (snd ?r)) = ar_size a" by (simp add: r)
  have iF: "i \<notin> set F" using F(3) i by simp
  have "free_chain (ar_slots (snd ?r)) (ar_free_head (snd ?r)) (i # F)"
    using F(1) iF len by (simp add: r)
  moreover have "distinct (i # F)" "set (i # F) = {..<ar_capacity (snd ?r)} - live_set (snd ?r)"
    using F(2,3) iF live len i by (auto simp: r)
  moreover have "ar_size (snd ?r) = card (live_set (snd ?r))"
    unfolding live using ok i by (simp add: r arena_ok_def)
  moreover have "\<forall>j < ar_capacity a. sl_generation (ar_slots (snd ?r) ! j) \<noteq> 0"
    using ok len next_generation_nonzero by (auto simp: r arena_ok_def nth_list_update)
  moreover have "length (ar_slots (snd ?r)) = ar_capacity (snd ?r)" "ar_capacity (snd ?r) = ar_capacity a"
    using len by (simp_all add: r)
  ultimately show "arena_ok (snd ?r)"
    using ok unfolding arena_ok_def by (intro conjI exI [of _ "i # F"]) (simp_all only:)
qed

lemma release_dead: "\<not> is_live_handle a h \<Longrightarrow> release a h = (Arena_Invalid_Handle, a)"
  by (simp add: release_def)

section \<open>Writing an order in place\<close>

lemma set_order_at_fields [simp]:
  "ar_capacity (set_order_at a i x) = ar_capacity a" "ar_size (set_order_at a i x) = ar_size a"
  "ar_free_head (set_order_at a i x) = ar_free_head a"
  "length (ar_slots (set_order_at a i x)) = length (ar_slots a)"
  "sl_live (ar_slots (set_order_at a i x) ! j) = sl_live (ar_slots a ! j)"
  "sl_generation (ar_slots (set_order_at a i x) ! j) = sl_generation (ar_slots a ! j)"
  "sl_free_next (ar_slots (set_order_at a i x) ! j) = sl_free_next (ar_slots a ! j)"
  by (cases "i < length (ar_slots a)";
      auto simp: set_order_at_def nth_list_update list_update_beyond)+

lemma live_set_set_order_at [simp]: "live_set (set_order_at a i x) = live_set a"
  by (simp add: live_set_def)

lemma handle_at_set_order_at [simp]: "handle_at (set_order_at a i x) j = handle_at a j"
  by (simp add: handle_at_def)

lemma arena_ok_set_order_at [simp]: "arena_ok (set_order_at a i x) = arena_ok a"
proof -
  have "free_chain (ar_slots (set_order_at a i x)) h F = free_chain (ar_slots a) h F" for h F
    by (rule free_chain_cong) simp
  then show ?thesis by (simp add: arena_ok_def)
qed

lemma order_at_set_order_at:
  "arena_ok a \<Longrightarrow> i < ar_capacity a \<Longrightarrow>
     order_at (set_order_at a i x) j = (if j = i then x else order_at a j)"
  by (auto simp: order_at_def set_order_at_def arena_ok_def nth_list_update)


section \<open>Construction\<close>

lemma free_chain_upt:
  assumes "\<And>j. j < n \<Longrightarrow> sl_free_next (sls ! j) = (if j = n - 1 then kInvalidIndex else j + 1)" "i < n"
  shows "free_chain sls i [i..<n]"
  using assms(2)
proof (induction "n - i" arbitrary: i)
  case (Suc m)
  have c: "[i..<n] = i # [Suc i..<n]" using Suc.prems by (simp add: upt_conv_Cons)
  show ?case
  proof (cases "Suc i = n")
    case True
    then show ?thesis using assms(1) [of i] by (auto simp: c)
  next
    case False
    then have n: "sl_free_next (sls ! i) = Suc i" "Suc i < n" using assms(1) [of i] Suc.prems by auto
    have "free_chain sls (Suc i) [Suc i..<n]" using Suc.hyps(1) [of "Suc i"] Suc.hyps(2) n(2) by simp
    then show ?thesis by (simp add: c n(1))
  qed
qed simp

lemma make_arena_ok:
  assumes "make_arena n = Inr a"
  shows "arena_ok a" "live_set a = {}" "ar_capacity a = n" "n \<le> kUint32Max"
proof -
  show cap: "ar_capacity a = n" "n \<le> kUint32Max" "live_set a = {}"
    using assms by (auto simp: make_arena_def checked_capacity_def live_set_def split: if_splits)
  have nth: "ar_slots a ! j = \<lparr>sl_order = initial_order, sl_generation = 1,
      sl_free_next = (if j = n - 1 then kInvalidIndex else j + 1), sl_live = False\<rparr>" if "j < n" for j
    using assms that by (auto simp: make_arena_def checked_capacity_def split: if_splits)
  have hd: "ar_free_head a = (if n \<noteq> 0 then 0 else kInvalidIndex)" "ar_size a = 0" "length (ar_slots a) = n"
    using assms by (auto simp: make_arena_def checked_capacity_def split: if_splits)
  have "free_chain (ar_slots a) (ar_free_head a) [0..<n]"
    using free_chain_upt [of n "ar_slots a" 0] nth by (cases n) (simp_all add: hd)
  then show "arena_ok a" unfolding arena_ok_def
    by (intro conjI exI [of _ "[0..<n]"]) (auto simp: cap hd nth)
qed

section \<open>The arena is a handle store\<close>

definition arena_contents :: "arena \<Rightarrow> handle \<Rightarrow> order option" where
  "arena_contents a h = (if h_index h \<in> live_set a \<and> h = handle_at a (h_index h)
     then Some (order_at a (h_index h)) else None)"

definition acquire_handle :: "arena \<Rightarrow> order \<Rightarrow> handle option \<times> arena" where
  "acquire_handle a x = (let (r, a') = acquire a x
     in (if acq_error r = Arena_None then Some (acq_handle r) else None, a'))"

definition release_handle :: "arena \<Rightarrow> handle \<Rightarrow> bool \<times> arena" where
  "release_handle a h = (let (e, a') = release a h in (e = Arena_None, a'))"

lemma resolve_eq_contents: "arena_ok a \<Longrightarrow> resolve a h = arena_contents a h"
  by (auto simp: resolve_def arena_contents_def is_live_handle_iff order_at_def)

lemma handle_at_eq: "handle_at a i = \<lparr>h_index = i, h_generation = sl_generation (ar_slots a ! i)\<rparr>"
  by (simp add: handle_at_def)

interpretation arena: handle_store arena_ok arena_contents ar_size ar_capacity acquire_handle resolve
  release_handle
proof unfold_locales
  fix a x h
  assume ok: "arena_ok a"
  have len: "length (ar_slots a) = ar_capacity a" using ok by (simp add: arena_ok_def)
  show "ar_size a = ar_capacity a \<Longrightarrow> acquire_handle a x = (None, a)"
    by (simp add: acquire_handle_def acquire_full [OF ok])
  show "resolve a h = arena_contents a h" by (rule resolve_eq_contents [OF ok])
  show "ar_size a \<le> ar_capacity a" by (rule size_le_capacity [OF ok])
  show "arena_contents a h = None \<Longrightarrow> release_handle a h = (False, a)"
    by (auto simp: release_handle_def release_def arena_contents_def is_live_handle_iff [OF ok]
        split: if_splits)
  show "\<exists>h s'. acquire_handle a x = (Some h, s') \<and> arena_ok s' \<and> arena_contents a h = None \<and>
      arena_contents s' = (arena_contents a)(h \<mapsto> x) \<and> ar_size s' = Suc (ar_size a) \<and>
      ar_capacity s' = ar_capacity a" if room: "ar_size a \<noteq> ar_capacity a"
  proof -
    obtain i where i: "i < ar_capacity a" "i \<notin> live_set a"
      "fst (acquire a x) = \<lparr>acq_handle = handle_at a i, acq_error = Arena_None\<rparr>"
      "arena_ok (snd (acquire a x))" "live_set (snd (acquire a x)) = insert i (live_set a)"
      "ar_capacity (snd (acquire a x)) = ar_capacity a"
      "ar_slots (snd (acquire a x)) = (ar_slots a)[i := (ar_slots a ! i)\<lparr>sl_order := x, sl_live := True\<rparr>]"
      "ar_size (snd (acquire a x)) = Suc (ar_size a)"
      by (rule acquire_ok [OF ok room])
    have "acquire_handle a x = (Some (handle_at a i), snd (acquire a x))"
      using i(3) by (auto simp: acquire_handle_def split: prod.splits)
    moreover have "arena_contents (snd (acquire a x)) = (arena_contents a)(handle_at a i \<mapsto> x)"
      using i(1,2,5,7) len
      by (auto simp: fun_eq_iff arena_contents_def handle_at_eq order_at_def nth_list_update)
    moreover have "arena_contents a (handle_at a i) = None" using i(2) by (simp add: arena_contents_def)
    ultimately show ?thesis using i(4,6,8) by blast
  qed
  show "\<exists>s'. release_handle a h = (True, s') \<and> arena_ok s' \<and>
      arena_contents s' = (arena_contents a)(h := None) \<and> Suc (ar_size s') = ar_size a \<and>
      ar_capacity s' = ar_capacity a" if c: "arena_contents a h = Some x"
  proof -
    obtain i where i: "i \<in> live_set a" "h = handle_at a i"
      using c by (auto simp: arena_contents_def split: if_splits)
    note r = release_ok [OF ok i(1), folded i(2)]
    have b: "i < ar_capacity a" using i(1) by (rule live_set_bound)
    have g: "sl_generation (ar_slots a ! i) \<noteq> 0" using ok b by (simp add: arena_ok_def)
    have "release_handle a h = (True, snd (release a h))"
      using r(2) by (auto simp: release_handle_def split: prod.splits)
    moreover have "arena_contents (snd (release a h)) = (arena_contents a)(h := None)"
    proof
      fix k :: handle
      have idx: "h_index h = i" by (simp add: i(2))
      show "arena_contents (snd (release a h)) k = ((arena_contents a)(h := None)) k"
      proof (cases "h_index k = i")
        case True
        then show ?thesis using r(3) by (auto simp: arena_contents_def i(2) [symmetric])
      next
        case False
        then have "handle_at (snd (release a h)) (h_index k) = handle_at a (h_index k)"
          "order_at (snd (release a h)) (h_index k) = order_at a (h_index k)"
          "h_index k \<in> live_set (snd (release a h)) \<longleftrightarrow> h_index k \<in> live_set a" "k \<noteq> h"
          unfolding handle_at_def order_at_def r(3,5) using idx by auto
        then show ?thesis by (simp add: arena_contents_def)
      qed
    qed
    ultimately show ?thesis using r(1,4,6) by blast
  qed
qed

section \<open>Stale handles\<close>

text \<open>
  A run of the arena: acquires and releases in any order.  \<open>slot_releases\<close> counts the releases of one
  slot that took effect.
\<close>

datatype arena_op = Op_Acquire order | Op_Release handle

fun arena_step :: "arena \<Rightarrow> arena_op \<Rightarrow> arena" where
  "arena_step a (Op_Acquire x) = snd (acquire a x)"
| "arena_step a (Op_Release h) = snd (release a h)"

fun slot_releases :: "arena \<Rightarrow> arena_op list \<Rightarrow> nat \<Rightarrow> nat" where
  "slot_releases a [] i = 0"
| "slot_releases a (Op_Acquire x # ops) i = slot_releases (arena_step a (Op_Acquire x)) ops i"
| "slot_releases a (Op_Release h # ops) i =
     (if is_live_handle a h \<and> h_index h = i then 1 else 0) + slot_releases (arena_step a (Op_Release h)) ops i"

lemma arena_step_ok: "arena_ok a \<Longrightarrow> arena_ok (arena_step a p)"
proof (cases p)
  case (Op_Acquire x)
  assume ok: "arena_ok a"
  show ?thesis
  proof (cases "ar_size a = ar_capacity a")
    case True then show ?thesis using ok Op_Acquire by (simp add: acquire_full)
  next
    case False then show ?thesis using acquire_ok [OF ok False] Op_Acquire by (metis arena_step.simps(1))
  qed
next
  case (Op_Release h)
  assume ok: "arena_ok a"
  show ?thesis
  proof (cases "is_live_handle a h")
    case False then show ?thesis using ok Op_Release by (simp add: release_def)
  next
    case True
    then show ?thesis using release_ok(1) [OF ok, of "h_index h"] Op_Release
      by (simp add: is_live_handle_iff [OF ok])
  qed
qed

lemma fold_arena_step_ok: "arena_ok a \<Longrightarrow> arena_ok (foldl arena_step a ops)"
  by (induction ops arbitrary: a) (simp_all add: arena_step_ok)

lemma arena_step_generation:
  assumes "arena_ok a"
  shows "sl_generation (ar_slots (arena_step a p) ! i) =
    (case p of Op_Acquire x \<Rightarrow> sl_generation (ar_slots a ! i)
     | Op_Release h \<Rightarrow> if is_live_handle a h \<and> h_index h = i
         then next_generation (sl_generation (ar_slots a ! i)) else sl_generation (ar_slots a ! i))"
proof (cases p)
  case (Op_Acquire x)
  then show ?thesis
    by (cases "ar_free_head a < length (ar_slots a)")
      (auto simp: acquire_def Let_def nth_list_update list_update_beyond)
next
  case (Op_Release h)
  moreover have "h_index h < length (ar_slots a)" if "is_live_handle a h"
    using that assms by (simp add: is_live_handle_def arena_ok_def)
  ultimately show ?thesis by (auto simp: release_def Let_def nth_list_update)
qed

lemma run_generation:
  "arena_ok a \<Longrightarrow> sl_generation (ar_slots (foldl arena_step a ops) ! i) =
     (next_generation ^^ slot_releases a ops i) (sl_generation (ar_slots a ! i))"
proof (induction ops arbitrary: a)
  case (Cons p ops)
  have "sl_generation (ar_slots (foldl arena_step a (p # ops)) ! i) =
      (next_generation ^^ slot_releases (arena_step a p) ops i) (sl_generation (ar_slots (arena_step a p) ! i))"
    using Cons arena_step_ok by simp
  also have "\<dots> = (next_generation ^^ slot_releases a (p # ops) i) (sl_generation (ar_slots a ! i))"
    unfolding arena_step_generation [OF Cons.prems]
    by (cases p) (simp_all add: funpow_swap1 del: arena_step.simps)
  finally show ?case .
qed simp

text \<open>The generations of a slot run through all \<open>2 ^ 32 - 1\<close> nonzero values before one comes back.\<close>

lemma unat_next_generation:
  assumes "g \<noteq> 0"
  shows "unat (next_generation g) - 1 = (unat g - 1 + 1) mod (2 ^ 32 - 1)" "next_generation g \<noteq> 0"
proof -
  have pos: "0 < unat g" using assms by (simp add: unat_gt_0)
  show "next_generation g \<noteq> 0" using assms by (rule next_generation_nonzero)
  show "unat (next_generation g) - 1 = (unat g - 1 + 1) mod (2 ^ 32 - 1)"
  proof (cases "g = -1")
    case True
    then show ?thesis by (simp add: next_generation_def unsigned_minus_1_eq_mask mask_eq_exp_minus_1)
  next
    case False
    then have "unat g \<noteq> unat (- 1 :: u32)" by (simp add: word_unat_eq_iff)
    then have "unat g \<noteq> 2 ^ 32 - 1" by (simp add: unsigned_minus_1_eq_mask mask_eq_exp_minus_1)
    then have "unat g < 2 ^ 32 - 1" using unat_u32_less [of g] by (simp del: unat_u32_less)
    moreover from this have "unat (g + 1) = unat g + 1" by (simp add: unat_plus_less)
    ultimately show ?thesis using False pos by (simp add: next_generation_def)
  qed
qed

lemma unat_next_generation_pow:
  "g \<noteq> 0 \<Longrightarrow> unat ((next_generation ^^ k) g) - 1 = (unat g - 1 + k) mod (2 ^ 32 - 1) \<and>
     (next_generation ^^ k) g \<noteq> 0"
proof (induction k)
  case 0
  have "0 < unat g" using 0 by (simp add: unat_gt_0)
  then have "unat g - 1 < 2 ^ 32 - 1" using unat_u32_less [of g] by (simp del: unat_u32_less)
  then show ?case using 0 by simp
next
  case (Suc k)
  then show ?case using unat_next_generation [of "(next_generation ^^ k) g"]
    by (simp add: mod_Suc_eq)
qed

lemma next_generation_cycle:
  assumes "g \<noteq> 0"
  shows "(next_generation ^^ k) g = g \<longleftrightarrow> (2 ^ 32 - 1) dvd k"
proof -
  let ?N = "2 ^ 32 - 1 :: nat"
  have pos: "0 < unat g" "0 < unat ((next_generation ^^ k) g)"
    using assms unat_next_generation_pow [OF assms, of k] by (simp_all add: unat_gt_0)
  have "(next_generation ^^ k) g = g \<longleftrightarrow> unat ((next_generation ^^ k) g) - 1 = unat g - 1"
    using pos by (metis Suc_diff_1 word_unat_eq_iff)
  also have "\<dots> \<longleftrightarrow> (unat g - 1 + k) mod ?N = unat g - 1"
    using unat_next_generation_pow [OF assms, of k] by simp
  also have "\<dots> \<longleftrightarrow> (unat g - 1 + k) mod ?N = (unat g - 1 + 0) mod ?N"
  proof -
    have "unat g - 1 < ?N" using unat_u32_less [of g] pos by (simp del: unat_u32_less)
    then show ?thesis by simp
  qed
  also have "\<dots> \<longleftrightarrow> ?N dvd k"
    using mod_eq_dvd_iff_nat [of "unat g - 1" "unat g - 1 + k" ?N] by simp
  finally show ?thesis .
qed

end
