(* ===== verification/Order_Book.thy ===== *)
theory Order_Book
  imports Hierarchical_Bitmap Order_Arena
begin

text \<open>
  The order book of \<^verbatim>\<open>order_book.hpp\<close> and \<^verbatim>\<open>order_book.cpp\<close>: its state and every operation, in the
  order of the source.  Member functions take the book and return it updated; the reference
  parameters \<^verbatim>\<open>remaining\<close>, \<^verbatim>\<open>trades\<close> and \<^verbatim>\<open>trade_count\<close> of the matching functions travel in the record
  \<open>exec\<close>.  Loops over links or over the matching state are \<open>partial_function\<close>s into the outcome
  type of the prelude.
\<close>

section \<open>Data\<close>

definition kMaximumPriceLevels :: nat where
  "kMaximumPriceLevels = 1000000"

record price_level =
  pl_head :: nat
  pl_tail :: nat
  pl_aggregate :: u64
  pl_count :: u32

record level_info =
  li_aggregate :: quantity
  li_count :: u32

record order_info =
  oi_id :: order_id
  oi_side :: side
  oi_price :: price
  oi_remaining :: quantity

record trade =
  tr_buy :: order_id
  tr_sell :: order_id
  tr_price :: price
  tr_quantity :: quantity

datatype time_in_force = GTC | IOC | FOK | TIF_Raw u8

datatype reject_reason = RR_None | RR_Invalid_Side | RR_Invalid_Time_In_Force | RR_Invalid_Handle
  | RR_Zero_Quantity | RR_Quantity_Too_Large | RR_Price_Out_Of_Domain
  | RR_Insufficient_Trade_Capacity | RR_Order_Capacity_Exhausted | RR_Fok_Not_Fillable
  | RR_Post_Only_Would_Cross | RR_Self_Trade_Prevented | RR_Invalid_Display_Quantity
  | RR_Invalid_Trading_State

datatype self_trade_policy = STP_None | STP_Cancel_Taker | STP_Raw u8

datatype allocation_mode = Fifo | Threshold_Pro_Rata | Allocation_Raw u8

datatype trading_state = Continuous | Opening_Auction | Trading_Raw u8

datatype auction_error = AE_None | AE_Not_Opening_Auction | AE_Insufficient_Trade_Capacity

record auction_result =
  au_error :: auction_error
  au_clearing_price :: "price option"
  au_executed :: quantity
  au_trade_count :: nat

record submit_result =
  sr_reason :: reject_reason
  sr_executed :: quantity
  sr_unfilled :: quantity
  sr_trade_count :: nat
  sr_handle :: handle

record stop_activation =
  sa_id :: order_id
  sa_executed :: quantity
  sa_unfilled :: quantity
  sa_handle :: handle

datatype cancel_reason = CR_None | CR_Invalid_Handle

record cancel_result =
  cr_reason :: cancel_reason
  cr_id :: order_id
  cr_quantity :: quantity

datatype amend_reason = AR_None | AR_Invalid_Handle | AR_Zero_Quantity | AR_Quantity_Too_Large
  | AR_Increase_Not_Allowed

record amend_result =
  am_reason :: amend_reason
  am_id :: order_id
  am_previous :: quantity
  am_new :: quantity
  am_handle :: handle

text \<open>
  The members of \<^verbatim>\<open>OrderBook\<close>.  \<^verbatim>\<open>max_order_quantity_\<close> and \<^verbatim>\<open>pro_rata_minimum_\<close> are 32-bit in the code and
  are only compared with 64-bit quantities; they are kept at the width of the comparison.
\<close>

record book =
  ob_domain :: price_domain
  ob_max_quantity :: u64
  ob_bids :: "price_level list"
  ob_asks :: "price_level list"
  ob_bid_occupancy :: bitmap
  ob_ask_occupancy :: bitmap
  ob_arena :: arena
  ob_trader_ids :: "trader_id list"
  ob_display_quantities :: "u64 list"
  ob_displayed_remaining :: "u64 list"
  ob_stop_trigger_prices :: "price list"
  ob_stop_limit_prices :: "price list"
  ob_stop_prev :: "nat list"
  ob_stop_next :: "nat list"
  ob_stop_head :: nat
  ob_stop_tail :: nat
  ob_dormant_stop_count :: nat
  ob_stop_activations :: "stop_activation list"
  ob_stop_activation_count :: nat
  ob_last_execution_price :: "price option"
  ob_self_trade_policy :: self_trade_policy
  ob_allocation_mode :: allocation_mode
  ob_pro_rata_minimum :: u64
  ob_trading_state :: trading_state
  ob_trade_report_indices :: "nat list"
  ob_trade_report_epochs :: "u32 list"
  ob_trade_report_epoch :: u32
  ob_visit_marks :: "u32 list"
  ob_visit_epoch :: u32

section \<open>Helpers\<close>

definition kInvalidHandle :: handle where
  "kInvalidHandle = \<lparr>h_index = kInvalidIndex, h_generation = 0\<rparr>"

definition rejected :: "reject_reason \<Rightarrow> quantity \<Rightarrow> submit_result" where
  "rejected reason quantity = \<lparr>sr_reason = reason, sr_executed = 0, sr_unfilled = quantity,
     sr_trade_count = 0, sr_handle = kInvalidHandle\<rparr>"

fun opposite_side :: "side \<Rightarrow> side" where
  "opposite_side Buy = Sell"
| "opposite_side Sell = Buy"

fun crosses :: "side \<Rightarrow> nat \<Rightarrow> nat \<Rightarrow> bool" where
  "crosses Buy maker_level limit_level = (maker_level \<le> limit_level)"
| "crosses Sell maker_level limit_level = (maker_level \<ge> limit_level)"

definition is_valid_time_in_force :: "time_in_force \<Rightarrow> bool" where
  "is_valid_time_in_force t = (t = GTC \<or> t = IOC \<or> t = FOK)"

fun make_trade :: "side \<Rightarrow> order_id \<Rightarrow> order_id \<Rightarrow> price \<Rightarrow> quantity \<Rightarrow> trade" where
  "make_trade Buy taker_id maker_id p q = \<lparr>tr_buy = taker_id, tr_sell = maker_id, tr_price = p, tr_quantity = q\<rparr>"
| "make_trade Sell taker_id maker_id p q = \<lparr>tr_buy = maker_id, tr_sell = taker_id, tr_price = p, tr_quantity = q\<rparr>"

fun level :: "book \<Rightarrow> side \<Rightarrow> nat \<Rightarrow> price_level" where
  "level b Buy i = ob_bids b ! i"
| "level b Sell i = ob_asks b ! i"

text \<open>Writing through the \<^verbatim>\<open>PriceLevel&\<close>, \<^verbatim>\<open>HierarchicalBitmap&\<close> and \<^verbatim>\<open>Order&\<close> references.\<close>

fun upd_level :: "book \<Rightarrow> side \<Rightarrow> nat \<Rightarrow> (price_level \<Rightarrow> price_level) \<Rightarrow> book" where
  "upd_level b Buy i f = b\<lparr>ob_bids := (ob_bids b)[i := f (ob_bids b ! i)]\<rparr>"
| "upd_level b Sell i f = b\<lparr>ob_asks := (ob_asks b)[i := f (ob_asks b ! i)]\<rparr>"

fun occupancy :: "book \<Rightarrow> side \<Rightarrow> bitmap" where
  "occupancy b Buy = ob_bid_occupancy b"
| "occupancy b Sell = ob_ask_occupancy b"

fun set_occupancy :: "book \<Rightarrow> side \<Rightarrow> bitmap \<Rightarrow> book" where
  "set_occupancy b Buy m = b\<lparr>ob_bid_occupancy := m\<rparr>"
| "set_occupancy b Sell m = b\<lparr>ob_ask_occupancy := m\<rparr>"

definition bk_order :: "book \<Rightarrow> nat \<Rightarrow> order" where
  "bk_order b i = order_at (ob_arena b) i"

definition upd_order :: "book \<Rightarrow> nat \<Rightarrow> (order \<Rightarrow> order) \<Rightarrow> book" where
  "upd_order b i f = b\<lparr>ob_arena := set_order_at (ob_arena b) i (f (order_at (ob_arena b) i))\<rparr>"

fun best_index :: "book \<Rightarrow> side \<Rightarrow> nat option" where
  "best_index b Buy = last_set (ob_bid_occupancy b)"
| "best_index b Sell = first_set (ob_ask_occupancy b)"

fun next_level :: "book \<Rightarrow> side \<Rightarrow> nat \<Rightarrow> nat option" where
  "next_level b Buy current =
     (if current = 0 then None else previous_set (occupancy b Buy) (current - 1))"
| "next_level b Sell current =
     (if current + 1 \<ge> pd_tick_count (ob_domain b) then None
      else next_set (occupancy b Sell) (current + 1))"

definition required_trade_capacity :: "book \<Rightarrow> nat" where
  "required_trade_capacity b = ar_capacity (ob_arena b)"

section \<open>Construction\<close>

definition checked_domain :: "price_domain \<Rightarrow> cpp_exception + price_domain" where
  "checked_domain d = (if \<not> is_encodable_tick_count (pd_tick_count d) \<or>
       pd_tick_count d > kMaximumPriceLevels then Inl Length_Error else Inr d)"

definition checked_max_quantity :: "quantity \<Rightarrow> cpp_exception + u64" where
  "checked_max_quantity q = (if q = 0 \<or> unat q > kUint32Max then Inl Invalid_Argument else Inr q)"

definition checked_pro_rata_minimum ::
    "allocation_mode \<Rightarrow> quantity \<Rightarrow> u64 \<Rightarrow> cpp_exception + u64" where
  "checked_pro_rata_minimum mode minimum maximum =
     (if mode = Fifo then Inr 0
      else if mode \<noteq> Threshold_Pro_Rata \<or> minimum = 0 \<or> minimum > maximum then Inl Invalid_Argument
      else Inr minimum)"

definition empty_level :: price_level where
  "empty_level = \<lparr>pl_head = kInvalidIndex, pl_tail = kInvalidIndex, pl_aggregate = 0, pl_count = 0\<rparr>"

definition empty_activation :: stop_activation where
  "empty_activation = \<lparr>sa_id = 0, sa_executed = 0, sa_unfilled = 0,
     sa_handle = \<lparr>h_index = 0, h_generation = 0\<rparr>\<rparr>"

definition sum_bind :: "'e + 'a \<Rightarrow> ('a \<Rightarrow> 'e + 'b) \<Rightarrow> 'e + 'b" where
  "sum_bind m k = (case m of Inl e \<Rightarrow> Inl e | Inr x \<Rightarrow> k x)"

definition make_book :: "price_domain \<Rightarrow> nat \<Rightarrow> quantity \<Rightarrow> self_trade_policy \<Rightarrow> allocation_mode \<Rightarrow>
    quantity \<Rightarrow> trading_state \<Rightarrow> cpp_exception + book" where
  "make_book d max_orders max_quantity policy mode minimum state =
     sum_bind (checked_domain d) (\<lambda>dom.
     sum_bind (checked_max_quantity max_quantity) (\<lambda>maxq.
     sum_bind (make_bitmap (pd_tick_count dom)) (\<lambda>bid_occ.
     sum_bind (make_bitmap (pd_tick_count dom)) (\<lambda>ask_occ.
     sum_bind (make_arena max_orders) (\<lambda>ar.
     sum_bind (checked_pro_rata_minimum mode minimum maxq) (\<lambda>minq.
     let n = ar_capacity ar; t = pd_tick_count dom
     in if state \<noteq> Continuous \<and> state \<noteq> Opening_Auction then Inl Invalid_Argument
        else Inr \<lparr>ob_domain = dom, ob_max_quantity = maxq,
          ob_bids = replicate t empty_level, ob_asks = replicate t empty_level,
          ob_bid_occupancy = bid_occ, ob_ask_occupancy = ask_occ, ob_arena = ar,
          ob_trader_ids = replicate n 0, ob_display_quantities = replicate n 0,
          ob_displayed_remaining = replicate n 0, ob_stop_trigger_prices = replicate n 0,
          ob_stop_limit_prices = replicate n 0, ob_stop_prev = replicate n 0,
          ob_stop_next = replicate n 0, ob_stop_head = kInvalidIndex, ob_stop_tail = kInvalidIndex,
          ob_dormant_stop_count = 0, ob_stop_activations = replicate n empty_activation,
          ob_stop_activation_count = 0, ob_last_execution_price = None,
          ob_self_trade_policy = policy, ob_allocation_mode = mode, ob_pro_rata_minimum = minq,
          ob_trading_state = state, ob_trade_report_indices = replicate n 0,
          ob_trade_report_epochs = replicate n 0, ob_trade_report_epoch = 0,
          ob_visit_marks = replicate n 0, ob_visit_epoch = 0\<rparr>))))))"

section \<open>Admission checks\<close>

definition preflight :: "book \<Rightarrow> raw_side \<Rightarrow> quantity \<Rightarrow> reject_reason" where
  "preflight b s quantity =
     (if \<not> is_valid_side s then RR_Invalid_Side
      else if quantity = 0 then RR_Zero_Quantity
      else if quantity > ob_max_quantity b then RR_Quantity_Too_Large
      else RR_None)"

definition has_crossing_order :: "book \<Rightarrow> side \<Rightarrow> nat \<Rightarrow> bool" where
  "has_crossing_order b s limit_index =
     (case best_index b (opposite_side s) of
        None \<Rightarrow> False
      | Some opposite_best \<Rightarrow> crosses s opposite_best limit_index)"

text \<open>The loop of \<^verbatim>\<open>can_fully_fill\<close>; the next level is always further from the spread.\<close>

fun level_distance :: "book \<Rightarrow> side \<Rightarrow> nat option \<Rightarrow> nat" where
  "level_distance b s None = 0"
| "level_distance b Buy (Some l) = Suc l"
| "level_distance b Sell (Some l) = Suc (pd_tick_count (ob_domain b) - l)"

lemma next_level_distance: "level_distance b s (next_level b s l) < level_distance b s (Some l)"
proof (cases s)
  case Buy
  then show ?thesis
    by (cases "next_level b s l") (auto dest: previous_set_bounds split: if_splits)
next
  case Sell
  then show ?thesis
    by (cases "next_level b s l") (auto dest: next_set_bounds split: if_splits)
qed

function can_fully_fill_loop :: "book \<Rightarrow> side \<Rightarrow> nat \<Rightarrow> u64 \<Rightarrow> u64 \<Rightarrow> nat option \<Rightarrow> bool" where
  "can_fully_fill_loop b s limit_index quantity available maker_level =
     (case maker_level of
        None \<Rightarrow> False
      | Some l \<Rightarrow>
          if \<not> crosses s l limit_index then False
          else let maker_side = opposite_side s;
                   level_quantity = pl_aggregate (level b maker_side l);
                   needed = quantity - available;
                   available' = available + min level_quantity needed
               in if available' = quantity then True
                  else can_fully_fill_loop b s limit_index quantity available'
                         (next_level b maker_side l))"
  by pat_completeness auto
termination
  by (relation "measure (\<lambda>(b, s, _, _, _, m). level_distance b (opposite_side s) m)")
    (simp_all add: next_level_distance del: level_distance.simps next_level.simps)

definition can_fully_fill :: "book \<Rightarrow> side \<Rightarrow> nat \<Rightarrow> u64 \<Rightarrow> bool" where
  "can_fully_fill b s limit_index quantity =
     can_fully_fill_loop b s limit_index quantity 0 (best_index b (opposite_side s))"

declare can_fully_fill_loop.simps [simp del]

definition arena_exhausted :: "book \<Rightarrow> bool" where
  "arena_exhausted b \<longleftrightarrow> ar_size (ob_arena b) = ar_capacity (ob_arena b)"

definition preflight_limit :: "book \<Rightarrow> raw_side \<Rightarrow> price \<Rightarrow> quantity \<Rightarrow> time_in_force \<Rightarrow> reject_reason" where
  "preflight_limit b rs p quantity tif =
     (if \<not> is_valid_time_in_force tif then RR_Invalid_Time_In_Force
      else let basic = preflight b rs quantity
           in if basic \<noteq> RR_None then basic
              else case rs of Raw_Side _ \<Rightarrow> RR_Invalid_Side | Valid_Side s \<Rightarrow>
                (case index_of (ob_domain b) p of
                   None \<Rightarrow> RR_Price_Out_Of_Domain
                 | Some level_index \<Rightarrow>
                     if ob_trading_state b = Opening_Auction \<and> tif \<noteq> GTC then RR_Invalid_Trading_State
                     else if tif = FOK \<and> \<not> can_fully_fill b s level_index quantity then RR_Fok_Not_Fillable
                     else if tif = GTC \<and> arena_exhausted b \<and>
                        (ob_trading_state b = Opening_Auction \<or> \<not> has_crossing_order b s level_index)
                     then RR_Order_Capacity_Exhausted
                     else RR_None))"

definition preflight_post_only :: "book \<Rightarrow> raw_side \<Rightarrow> price \<Rightarrow> quantity \<Rightarrow> reject_reason" where
  "preflight_post_only b rs p quantity =
     (if ob_trading_state b = Opening_Auction then RR_Invalid_Trading_State
      else let basic = preflight b rs quantity
           in if basic \<noteq> RR_None then basic
              else case rs of Raw_Side _ \<Rightarrow> RR_Invalid_Side | Valid_Side s \<Rightarrow>
                (case index_of (ob_domain b) p of
                   None \<Rightarrow> RR_Price_Out_Of_Domain
                 | Some level_index \<Rightarrow>
                     if has_crossing_order b s level_index then RR_Post_Only_Would_Cross
                     else if arena_exhausted b then RR_Order_Capacity_Exhausted
                     else RR_None))"

definition preflight_market :: "book \<Rightarrow> raw_side \<Rightarrow> quantity \<Rightarrow> reject_reason" where
  "preflight_market b rs quantity =
     (if ob_trading_state b = Opening_Auction then RR_Invalid_Trading_State
      else preflight b rs quantity)"

definition preflight_stop :: "book \<Rightarrow> raw_side \<Rightarrow> price option \<Rightarrow> quantity \<Rightarrow> reject_reason" where
  "preflight_stop b rs limit_price quantity =
     (if ob_trading_state b = Opening_Auction then RR_Invalid_Trading_State
      else let basic = preflight b rs quantity
           in if basic \<noteq> RR_None then basic
              else if (case limit_price of None \<Rightarrow> False | Some p \<Rightarrow> index_of (ob_domain b) p = None)
                then RR_Price_Out_Of_Domain
              else if arena_exhausted b then RR_Order_Capacity_Exhausted
              else RR_None)"

definition is_dormant :: "order \<Rightarrow> bool" where
  "is_dormant x \<longleftrightarrow> ord_flags x AND kOrderFlagDormantStop \<noteq> 0"

definition is_stop_market :: "order \<Rightarrow> bool" where
  "is_stop_market x \<longleftrightarrow> ord_flags x AND kOrderFlagStopMarket \<noteq> 0"

definition preflight_replace :: "book \<Rightarrow> handle \<Rightarrow> price \<Rightarrow> quantity \<Rightarrow> reject_reason" where
  "preflight_replace b h new_price new_quantity =
     (case resolve (ob_arena b) h of
        None \<Rightarrow> RR_Invalid_Handle
      | Some x \<Rightarrow>
          if is_dormant x then RR_Invalid_Handle
          else let basic = preflight b (Valid_Side (decode_side (ord_encoded x))) new_quantity
               in if basic \<noteq> RR_None then basic
                  else if index_of (ob_domain b) new_price \<noteq> None then RR_None
                  else RR_Price_Out_Of_Domain)"

section \<open>Queue primitives\<close>

definition move_to_tail :: "book \<Rightarrow> nat \<Rightarrow> book" where
  "move_to_tail b order_index =
     (let x = bk_order b order_index; s = decode_side (ord_encoded x); l = decode_level (ord_encoded x)
      in if pl_tail (level b s l) = order_index then b
         else let previous_index = ord_prev x; next_index = ord_next x;
                  b1 = (if previous_index = kInvalidIndex
                        then upd_level b s l (\<lambda>pl. pl\<lparr>pl_head := next_index\<rparr>)
                        else upd_order b previous_index (\<lambda>y. y\<lparr>ord_next := next_index\<rparr>));
                  b2 = upd_order b1 next_index (\<lambda>y. y\<lparr>ord_prev := previous_index\<rparr>);
                  b3 = upd_order b2 (pl_tail (level b2 s l)) (\<lambda>y. y\<lparr>ord_next := order_index\<rparr>);
                  b4 = upd_order b3 order_index
                         (\<lambda>y. y\<lparr>ord_prev := pl_tail (level b3 s l), ord_next := kInvalidIndex\<rparr>)
              in upd_level b4 s l (\<lambda>pl. pl\<lparr>pl_tail := order_index\<rparr>))"

definition release_slot :: "book \<Rightarrow> handle \<Rightarrow> book" where
  "release_slot b h = b\<lparr>ob_arena := snd (release (ob_arena b) h)\<rparr>"

definition unlink :: "book \<Rightarrow> handle \<Rightarrow> u64 \<Rightarrow> book" where
  "unlink b h aggregate_reduction =
     (let removed = bk_order b (h_index h);
          s = decode_side (ord_encoded removed); l = decode_level (ord_encoded removed);
          previous_index = ord_prev removed; next_index = ord_next removed;
          b1 = (if previous_index = kInvalidIndex
                then upd_level b s l (\<lambda>pl. pl\<lparr>pl_head := next_index\<rparr>)
                else upd_order b previous_index (\<lambda>y. y\<lparr>ord_next := next_index\<rparr>));
          b2 = (if next_index = kInvalidIndex
                then upd_level b1 s l (\<lambda>pl. pl\<lparr>pl_tail := previous_index\<rparr>)
                else upd_order b1 next_index (\<lambda>y. y\<lparr>ord_prev := previous_index\<rparr>));
          b3 = upd_level b2 s l (\<lambda>pl. pl\<lparr>pl_aggregate := pl_aggregate pl - aggregate_reduction,
                                          pl_count := pl_count pl - 1\<rparr>);
          b4 = (if pl_count (level b3 s l) = 0
                then set_occupancy b3 s (snd (bm_clear (occupancy b3 s) l)) else b3)
      in release_slot b4 h)"

text \<open>The writes to the parallel arrays when a slot becomes a resting order.\<close>

definition set_rest_arrays :: "book \<Rightarrow> nat \<Rightarrow> trader_id \<Rightarrow> u64 \<Rightarrow> book" where
  "set_rest_arrays b i trader display_quantity =
     b\<lparr>ob_trader_ids := (ob_trader_ids b)[i := trader],
       ob_display_quantities := (ob_display_quantities b)[i := display_quantity],
       ob_displayed_remaining := (ob_displayed_remaining b)[i := display_quantity],
       ob_stop_trigger_prices := (ob_stop_trigger_prices b)[i := 0],
       ob_stop_limit_prices := (ob_stop_limit_prices b)[i := 0],
       ob_stop_prev := (ob_stop_prev b)[i := 0],
       ob_stop_next := (ob_stop_next b)[i := 0]\<rparr>"

text \<open>The common end of \<^verbatim>\<open>rest\<close> and \<^verbatim>\<open>rest_existing\<close>: link slot \<open>i\<close> behind the tail of its level.\<close>

definition link_at_tail :: "book \<Rightarrow> nat \<Rightarrow> side \<Rightarrow> nat \<Rightarrow> u64 \<Rightarrow> book" where
  "link_at_tail b i s l remaining =
     (let t = pl_tail (level b s l);
          b1 = (if t = kInvalidIndex
                then let b' = upd_level b s l (\<lambda>pl. pl\<lparr>pl_head := i\<rparr>)
                     in set_occupancy b' s (snd (bm_set (occupancy b' s) l))
                else upd_order b t (\<lambda>y. y\<lparr>ord_next := i\<rparr>))
      in upd_level b1 s l (\<lambda>pl. pl\<lparr>pl_tail := i, pl_aggregate := pl_aggregate pl + remaining,
                                   pl_count := pl_count pl + 1\<rparr>))"

definition resting_order :: "book \<Rightarrow> order_id \<Rightarrow> side \<Rightarrow> nat \<Rightarrow> u64 \<Rightarrow> order" where
  "resting_order b oid s l remaining = \<lparr>ord_id = oid, ord_remaining = remaining,
     ord_prev = pl_tail (level b s l), ord_next = kInvalidIndex,
     ord_encoded = encode_level_side l s, ord_flags = 0\<rparr>"

definition rest :: "book \<Rightarrow> order_id \<Rightarrow> trader_id \<Rightarrow> side \<Rightarrow> nat \<Rightarrow> u64 \<Rightarrow> u64 \<Rightarrow> (handle \<times> book) run" where
  "rest b oid trader s l remaining display_quantity =
     (let (acquired, ar) = acquire (ob_arena b) (resting_order b oid s l remaining);
          h = acq_handle acquired; i = h_index h
      in if acq_error acquired \<noteq> Arena_None then crash Arena_Overflow
         else ret (h, link_at_tail (set_rest_arrays (b\<lparr>ob_arena := ar\<rparr>) i trader display_quantity)
                        i s l remaining))"

definition rest_existing :: "book \<Rightarrow> handle \<Rightarrow> order_id \<Rightarrow> trader_id \<Rightarrow> side \<Rightarrow> nat \<Rightarrow> u64 \<Rightarrow> u64 \<Rightarrow> book" where
  "rest_existing b h oid trader s l remaining display_quantity =
     (let i = h_index h;
          b1 = upd_order b i (\<lambda>_. resting_order b oid s l remaining)
      in link_at_tail (set_rest_arrays b1 i trader display_quantity) i s l remaining)"

section \<open>Matching\<close>

record exec =
  ex_book :: book
  ex_remaining :: u64
  ex_trades :: "trade list"
  ex_count :: nat

definition would_self_trade_at :: "book \<Rightarrow> trader_id \<Rightarrow> nat \<Rightarrow> bool" where
  "would_self_trade_at b trader i \<longleftrightarrow>
     ob_self_trade_policy b = STP_Cancel_Taker \<and> ob_trader_ids b ! i = trader"

text \<open>The report of an execution: a new trade, or more quantity on the maker's trade of this epoch.\<close>

definition report_trade :: "exec \<Rightarrow> order_id \<Rightarrow> side \<Rightarrow> nat \<Rightarrow> price \<Rightarrow> u64 \<Rightarrow> exec run" where
  "report_trade x taker_id taker_side maker_index execution_price execution =
     (let b = ex_book x
      in if ob_trade_report_epochs b ! maker_index = ob_trade_report_epoch b
         then let k = ob_trade_report_indices b ! maker_index
              in if k \<ge> length (ex_trades x) then crash Trade_Buffer_Overflow
                 else ret (x\<lparr>ex_trades := (ex_trades x)[k := (ex_trades x ! k)
                        \<lparr>tr_quantity := tr_quantity (ex_trades x ! k) + execution\<rparr>]\<rparr>)
         else if ex_count x \<ge> length (ex_trades x) then crash Trade_Buffer_Overflow
         else ret (x\<lparr>ex_book := b\<lparr>
                  ob_trade_report_epochs := (ob_trade_report_epochs b)[maker_index := ob_trade_report_epoch b],
                  ob_trade_report_indices := (ob_trade_report_indices b)[maker_index := ex_count x]\<rparr>,
                ex_trades := (ex_trades x)[ex_count x := make_trade taker_side taker_id
                  (ord_id (bk_order b maker_index)) execution_price execution],
                ex_count := ex_count x + 1\<rparr>))"

text \<open>The effect of an execution on the maker: displayed and total quantity, replenishment, removal.\<close>

definition reduce_maker :: "book \<Rightarrow> side \<Rightarrow> nat \<Rightarrow> nat \<Rightarrow> u64 \<Rightarrow> book" where
  "reduce_maker b maker_side level_index maker_index execution =
     (let b1 = upd_level b maker_side level_index (\<lambda>pl. pl\<lparr>pl_aggregate := pl_aggregate pl - execution\<rparr>);
          b2 = b1\<lparr>ob_displayed_remaining := (ob_displayed_remaining b1)
                 [maker_index := ob_displayed_remaining b1 ! maker_index - execution]\<rparr>
      in if execution = ord_remaining (bk_order b2 maker_index)
         then unlink b2 (handle_at (ob_arena b2) maker_index) 0
         else let b3 = upd_order b2 maker_index (\<lambda>y. y\<lparr>ord_remaining := ord_remaining y - execution\<rparr>)
              in if ob_displayed_remaining b3 ! maker_index = 0
                 then move_to_tail (b3\<lparr>ob_displayed_remaining := (ob_displayed_remaining b3)
                        [maker_index := min (ob_display_quantities b3 ! maker_index)
                                            (ord_remaining (bk_order b3 maker_index))]\<rparr>) maker_index
                 else b3)"

definition execute_match :: "order_id \<Rightarrow> side \<Rightarrow> nat \<Rightarrow> nat \<Rightarrow> u64 \<Rightarrow> exec \<Rightarrow> exec run" where
  "execute_match taker_id taker_side level_index maker_index execution x =
     (case price_at (ob_domain (ex_book x)) level_index of
        None \<Rightarrow> ret x
      | Some execution_price \<Rightarrow>
          run_bind (report_trade x taker_id taker_side maker_index execution_price execution) (\<lambda>x1.
          let b1 = (ex_book x1)\<lparr>ob_last_execution_price := Some execution_price\<rparr>
          in ret (x1\<lparr>ex_remaining := ex_remaining x1 - execution,
                     ex_book := reduce_maker b1 (opposite_side taker_side) level_index maker_index execution\<rparr>)))"

partial_function (option) match_level_fifo ::
    "order_id \<Rightarrow> trader_id \<Rightarrow> side \<Rightarrow> nat \<Rightarrow> exec \<Rightarrow> exec run" where
  [code]: "match_level_fifo taker_id trader taker_side level_index x =
     (let b = ex_book x; maker_index = pl_head (level b (opposite_side taker_side) level_index)
      in if \<not> (ex_remaining x \<noteq> 0 \<and> maker_index \<noteq> kInvalidIndex) then ret x
         else if would_self_trade_at b trader maker_index then ret x
         else let execution = min (ex_remaining x) (ob_displayed_remaining b ! maker_index)
              in run_bind (execute_match taker_id taker_side level_index maker_index execution x)
                   (match_level_fifo taker_id trader taker_side level_index))"

text \<open>The first loop of pro-rata: the displayed total before the first maker of the taker's own.\<close>

partial_function (option) displayed_total ::
    "book \<Rightarrow> trader_id \<Rightarrow> nat \<Rightarrow> u64 \<Rightarrow> (u64 \<times> nat) run" where
  [code]: "displayed_total b trader index total_displayed =
     (if index = kInvalidIndex then ret (total_displayed, kInvalidIndex)
      else if would_self_trade_at b trader index then ret (total_displayed, index)
      else displayed_total b trader (ord_next (bk_order b index))
             (total_displayed + ob_displayed_remaining b ! index))"

text \<open>The share of one maker, computed at 128 bits, rounded down and dropped below the minimum.\<close>

definition pro_rata_share :: "u64 \<Rightarrow> u64 \<Rightarrow> u64 \<Rightarrow> u64 \<Rightarrow> u64" where
  "pro_rata_share displayed pro_rata_quantity total_displayed minimum =
     (let execution = min (word_of_nat (unat displayed * unat pro_rata_quantity div unat total_displayed)) displayed
      in if execution < minimum then 0 else execution)"

partial_function (option) pro_rata_pass ::
    "order_id \<Rightarrow> side \<Rightarrow> nat \<Rightarrow> nat \<Rightarrow> u64 \<Rightarrow> u64 \<Rightarrow> nat \<Rightarrow> exec \<Rightarrow> exec run" where
  [code]: "pro_rata_pass taker_id taker_side level_index end_index pro_rata_quantity total_displayed index x =
     (if \<not> (index \<noteq> end_index \<and> index \<noteq> kInvalidIndex \<and> ex_remaining x \<noteq> 0) then ret x
      else let b = ex_book x;
               next_index = ord_next (bk_order b index);
               execution = pro_rata_share (ob_displayed_remaining b ! index) pro_rata_quantity total_displayed
                             (ob_pro_rata_minimum b)
           in run_bind (if execution \<noteq> 0
                        then execute_match taker_id taker_side level_index index execution x else ret x)
                (pro_rata_pass taker_id taker_side level_index end_index pro_rata_quantity total_displayed next_index))"

definition match_level_threshold_pro_rata ::
    "order_id \<Rightarrow> trader_id \<Rightarrow> side \<Rightarrow> nat \<Rightarrow> exec \<Rightarrow> exec run" where
  "match_level_threshold_pro_rata taker_id trader taker_side level_index x =
     (let b = ex_book x; head = pl_head (level b (opposite_side taker_side) level_index)
      in run_bind (displayed_total b trader head 0) (\<lambda>(total_displayed, end_index).
         run_bind (if total_displayed \<noteq> 0
                   then pro_rata_pass taker_id taker_side level_index end_index (ex_remaining x) total_displayed head x
                   else ret x)
           (match_level_fifo taker_id trader taker_side level_index)))"

definition match_level :: "order_id \<Rightarrow> trader_id \<Rightarrow> side \<Rightarrow> nat \<Rightarrow> exec \<Rightarrow> exec run" where
  "match_level taker_id trader taker_side level_index x =
     (if ob_allocation_mode (ex_book x) = Threshold_Pro_Rata
      then match_level_threshold_pro_rata taker_id trader taker_side level_index x
      else match_level_fifo taker_id trader taker_side level_index x)"

definition next_report_epoch :: "book \<Rightarrow> book" where
  "next_report_epoch b =
     (if ob_trade_report_epoch b = -1
      then b\<lparr>ob_trade_report_epochs := map (\<lambda>_. 0) (ob_trade_report_epochs b), ob_trade_report_epoch := 1\<rparr>
      else b\<lparr>ob_trade_report_epoch := ob_trade_report_epoch b + 1\<rparr>)"

partial_function (option) match_loop ::
    "order_id \<Rightarrow> trader_id \<Rightarrow> side \<Rightarrow> nat option \<Rightarrow> exec \<Rightarrow> exec run" where
  [code]: "match_loop taker_id trader taker_side limit_index x =
     (if ex_remaining x = 0 then ret x
      else case best_index (ex_book x) (opposite_side taker_side) of
        None \<Rightarrow> ret x
      | Some maker_level \<Rightarrow>
          if (case limit_index of None \<Rightarrow> False | Some l \<Rightarrow> \<not> crosses taker_side maker_level l) then ret x
          else run_bind (match_level taker_id trader taker_side maker_level x)
                 (match_loop taker_id trader taker_side limit_index))"

definition match_taker :: "order_id \<Rightarrow> trader_id \<Rightarrow> side \<Rightarrow> nat option \<Rightarrow> exec \<Rightarrow> exec run" where
  "match_taker taker_id trader taker_side limit_index x =
     match_loop taker_id trader taker_side limit_index (x\<lparr>ex_book := next_report_epoch (ex_book x)\<rparr>)"

partial_function (option) self_trade_walk :: "book \<Rightarrow> trader_id \<Rightarrow> nat \<Rightarrow> bool run" where
  [code]: "self_trade_walk b trader order_index =
     (if order_index = kInvalidIndex then ret False
      else if ob_trader_ids b ! order_index = trader then ret True
      else self_trade_walk b trader (ord_next (bk_order b order_index)))"

partial_function (option) would_self_trade_loop ::
    "book \<Rightarrow> trader_id \<Rightarrow> side \<Rightarrow> nat \<Rightarrow> nat option \<Rightarrow> bool run" where
  [code]: "would_self_trade_loop b trader s limit_index maker_level =
     (case maker_level of
        None \<Rightarrow> ret False
      | Some l \<Rightarrow>
          if \<not> crosses s l limit_index then ret False
          else run_bind (self_trade_walk b trader (pl_head (level b (opposite_side s) l))) (\<lambda>found.
            if found then ret True
            else would_self_trade_loop b trader s limit_index (next_level b (opposite_side s) l)))"

definition would_self_trade :: "book \<Rightarrow> trader_id \<Rightarrow> side \<Rightarrow> nat \<Rightarrow> bool run" where
  "would_self_trade b trader s limit_index =
     would_self_trade_loop b trader s limit_index (best_index b (opposite_side s))"

section \<open>Stop orders\<close>

definition reset_stop_activations :: "book \<Rightarrow> book" where
  "reset_stop_activations b = b\<lparr>ob_stop_activation_count := 0\<rparr>"

definition stop_is_triggered :: "book \<Rightarrow> side \<Rightarrow> price \<Rightarrow> bool" where
  "stop_is_triggered b s trigger_price =
     (case ob_last_execution_price b of
        None \<Rightarrow> False
      | Some p \<Rightarrow> if s = Buy then p \<ge> trigger_price else p \<le> trigger_price)"

definition stop_order :: "order_id \<Rightarrow> side \<Rightarrow> price option \<Rightarrow> quantity \<Rightarrow> order" where
  "stop_order oid s limit_price quantity = \<lparr>ord_id = oid, ord_remaining = quantity,
     ord_prev = kInvalidIndex, ord_next = kInvalidIndex, ord_encoded = encode_level_side 0 s,
     ord_flags = kOrderFlagDormantStop OR (if limit_price \<noteq> None then 0 else kOrderFlagStopMarket)\<rparr>"

definition link_stop :: "book \<Rightarrow> nat \<Rightarrow> price \<Rightarrow> price option \<Rightarrow> book" where
  "link_stop b index trigger_price limit_price =
     (let b1 = b\<lparr>ob_trader_ids := (ob_trader_ids b)[index := 0],
                 ob_display_quantities := (ob_display_quantities b)[index := 0],
                 ob_displayed_remaining := (ob_displayed_remaining b)[index := 0],
                 ob_stop_trigger_prices := (ob_stop_trigger_prices b)[index := trigger_price],
                 ob_stop_limit_prices := (ob_stop_limit_prices b)
                   [index := (case limit_price of None \<Rightarrow> 0 | Some p \<Rightarrow> p)],
                 ob_stop_prev := (ob_stop_prev b)[index := ob_stop_tail b],
                 ob_stop_next := (ob_stop_next b)[index := kInvalidIndex]\<rparr>;
          b2 = (if ob_stop_tail b1 = kInvalidIndex then b1\<lparr>ob_stop_head := index\<rparr>
                else b1\<lparr>ob_stop_next := (ob_stop_next b1)[ob_stop_tail b1 := index]\<rparr>)
      in b2\<lparr>ob_stop_tail := index, ob_dormant_stop_count := ob_dormant_stop_count b2 + 1\<rparr>)"

definition rest_stop ::
    "book \<Rightarrow> order_id \<Rightarrow> side \<Rightarrow> price \<Rightarrow> price option \<Rightarrow> quantity \<Rightarrow> (handle \<times> book) run" where
  "rest_stop b oid s trigger_price limit_price quantity =
     (let (acquired, ar) = acquire (ob_arena b) (stop_order oid s limit_price quantity)
      in if acq_error acquired \<noteq> Arena_None then crash Arena_Overflow
         else ret (acq_handle acquired,
                link_stop (b\<lparr>ob_arena := ar\<rparr>) (h_index (acq_handle acquired)) trigger_price limit_price))"

definition detach_stop :: "book \<Rightarrow> nat \<Rightarrow> book" where
  "detach_stop b index =
     (let previous = ob_stop_prev b ! index; nxt = ob_stop_next b ! index;
          b1 = (if previous = kInvalidIndex then b\<lparr>ob_stop_head := nxt\<rparr>
                else b\<lparr>ob_stop_next := (ob_stop_next b)[previous := nxt]\<rparr>);
          b2 = (if nxt = kInvalidIndex then b1\<lparr>ob_stop_tail := previous\<rparr>
                else b1\<lparr>ob_stop_prev := (ob_stop_prev b1)[nxt := previous]\<rparr>)
      in b2\<lparr>ob_dormant_stop_count := ob_dormant_stop_count b2 - 1\<rparr>)"

definition unlink_stop :: "book \<Rightarrow> handle \<Rightarrow> book" where
  "unlink_stop b h = release_slot (detach_stop b (h_index h)) h"

definition record_activation :: "book \<Rightarrow> stop_activation \<Rightarrow> book run" where
  "record_activation b sa =
     (if ob_stop_activation_count b \<ge> length (ob_stop_activations b) then crash Activation_Overflow
      else ret (b\<lparr>ob_stop_activations := (ob_stop_activations b)[ob_stop_activation_count b := sa],
                  ob_stop_activation_count := ob_stop_activation_count b + 1\<rparr>))"

definition activate_stop ::
    "book \<Rightarrow> handle \<Rightarrow> trade list \<Rightarrow> nat \<Rightarrow> (submit_result \<times> book \<times> trade list \<times> nat) run" where
  "activate_stop b h trades trade_count =
     (let stop = bk_order b (h_index h);
          s = decode_side (ord_encoded stop);
          market = is_stop_market stop;
          limit_index = (if market then None
                         else index_of (ob_domain b) (ob_stop_limit_prices b ! h_index h));
          original = ord_remaining stop;
          b1 = detach_stop b (h_index h)
      in run_bind (match_taker (ord_id stop) 0 s limit_index
           \<lparr>ex_book = b1, ex_remaining = original, ex_trades = trades, ex_count = trade_count\<rparr>) (\<lambda>x.
         let remaining = ex_remaining x
         in if \<not> market \<and> remaining \<noteq> 0 \<and> limit_index = None then crash Empty_Optional
            else
         let (resting, b2) =
               (if \<not> market \<and> remaining \<noteq> 0
                then (h, rest_existing (ex_book x) h (ord_id stop) 0 s (the limit_index) remaining remaining)
                else (kInvalidHandle, release_slot (ex_book x) h));
             result = \<lparr>sr_reason = RR_None, sr_executed = original - remaining,
                        sr_unfilled = remaining, sr_trade_count = ex_count x, sr_handle = resting\<rparr>
         in run_bind (record_activation b2 \<lparr>sa_id = ord_id stop, sa_executed = sr_executed result,
              sa_unfilled = sr_unfilled result, sa_handle = resting\<rparr>) (\<lambda>b3.
            ret (result, b3, ex_trades x, ex_count x))))"

text \<open>The inner loop of \<^verbatim>\<open>trigger_stops\<close>: the first dormant stop, in arrival order, that is triggered.\<close>

partial_function (option) find_triggered :: "book \<Rightarrow> nat \<Rightarrow> nat run" where
  [code]: "find_triggered b index =
     (if index = kInvalidIndex then ret kInvalidIndex
      else if stop_is_triggered b (decode_side (ord_encoded (bk_order b index)))
                (ob_stop_trigger_prices b ! index) then ret index
      else find_triggered b (ob_stop_next b ! index))"

partial_function (option) trigger_stops ::
    "book \<Rightarrow> trade list \<Rightarrow> nat \<Rightarrow> (book \<times> trade list \<times> nat) run" where
  [code]: "trigger_stops b trades trade_count =
     run_bind (find_triggered b (ob_stop_head b)) (\<lambda>index.
       if index = kInvalidIndex then ret (b, trades, trade_count)
       else run_bind (activate_stop b (handle_at (ob_arena b) index) trades trade_count)
              (\<lambda>(_, b', trades', trade_count'). trigger_stops b' trades' trade_count'))"

section \<open>Submission\<close>

type_synonym submit_run = "(submit_result \<times> book \<times> trade list) run"

definition submitted :: "quantity \<Rightarrow> u64 \<Rightarrow> nat \<Rightarrow> handle \<Rightarrow> submit_result" where
  "submitted quantity remaining trade_count h = \<lparr>sr_reason = RR_None, sr_executed = quantity - remaining,
     sr_unfilled = remaining, sr_trade_count = trade_count, sr_handle = h\<rparr>"

text \<open>
  The overload of \<^verbatim>\<open>submit_limit\<close> every other one forwards to.  The display quantity the order would
  rest with is the remaining quantity here and a parameter of \<^verbatim>\<open>submit_iceberg\<close>.
\<close>

definition self_trade_check :: "book \<Rightarrow> trader_id \<Rightarrow> side \<Rightarrow> nat \<Rightarrow> bool run" where
  "self_trade_check b trader s level_index =
     (if ob_self_trade_policy b = STP_Cancel_Taker then would_self_trade b trader s level_index
      else ret False)"

definition submit_limit :: "book \<Rightarrow> order_id \<Rightarrow> trader_id \<Rightarrow> raw_side \<Rightarrow> price \<Rightarrow> quantity \<Rightarrow>
    time_in_force \<Rightarrow> trade list \<Rightarrow> submit_run" where
  "submit_limit b0 oid trader rs p quantity tif trades =
     (let b = reset_stop_activations b0;
          basic = preflight b rs quantity;
          preflight_result = preflight_limit b rs p quantity tif
      in if \<not> is_valid_time_in_force tif
         then ret (rejected RR_Invalid_Time_In_Force quantity, b, trades)
         else if basic \<noteq> RR_None then ret (rejected basic quantity, b, trades)
         else if length trades < required_trade_capacity b
         then ret (rejected RR_Insufficient_Trade_Capacity quantity, b, trades)
         else if preflight_result \<noteq> RR_None then ret (rejected preflight_result quantity, b, trades)
         else case rs of Raw_Side _ \<Rightarrow> ret (rejected RR_Invalid_Side quantity, b, trades) | Valid_Side s \<Rightarrow>
         (let level_index = the (index_of (ob_domain b) p)
          in run_bind (self_trade_check b trader s level_index) (\<lambda>self_trade.
             if self_trade then ret (rejected RR_Self_Trade_Prevented quantity, b, trades)
             else
             run_bind (if ob_trading_state b = Continuous
                       then match_taker oid trader s (Some level_index) \<lparr>ex_book = b,
                              ex_remaining = quantity, ex_trades = trades, ex_count = 0\<rparr>
                       else ret \<lparr>ex_book = b, ex_remaining = quantity, ex_trades = trades, ex_count = 0\<rparr>)
             (\<lambda>x. let remaining = ex_remaining x
              in run_bind (if tif = GTC \<and> remaining \<noteq> 0
                           then rest (ex_book x) oid trader s level_index remaining remaining
                           else ret (kInvalidHandle, ex_book x)) (\<lambda>(h, b1).
                 run_bind (trigger_stops b1 (ex_trades x) (ex_count x)) (\<lambda>(b2, trades', trade_count).
                 ret (submitted quantity remaining trade_count h, b2, trades')))))))"

definition submit_limit_gtc ::
    "book \<Rightarrow> order_id \<Rightarrow> raw_side \<Rightarrow> price \<Rightarrow> quantity \<Rightarrow> trade list \<Rightarrow> submit_run" where
  "submit_limit_gtc b oid rs p quantity trades = submit_limit b oid 0 rs p quantity GTC trades"

definition submit_limit_trader ::
    "book \<Rightarrow> order_id \<Rightarrow> trader_id \<Rightarrow> raw_side \<Rightarrow> price \<Rightarrow> quantity \<Rightarrow> trade list \<Rightarrow> submit_run" where
  "submit_limit_trader b oid trader rs p quantity trades = submit_limit b oid trader rs p quantity GTC trades"

definition submit_limit_tif ::
    "book \<Rightarrow> order_id \<Rightarrow> raw_side \<Rightarrow> price \<Rightarrow> quantity \<Rightarrow> time_in_force \<Rightarrow> trade list \<Rightarrow> submit_run" where
  "submit_limit_tif b oid rs p quantity tif trades = submit_limit b oid 0 rs p quantity tif trades"

definition submit_post_only ::
    "book \<Rightarrow> order_id \<Rightarrow> raw_side \<Rightarrow> price \<Rightarrow> quantity \<Rightarrow> trade list \<Rightarrow> submit_run" where
  "submit_post_only b oid rs p quantity trades =
     (if length trades < required_trade_capacity b
      then ret (rejected RR_Insufficient_Trade_Capacity quantity, b, trades)
      else let preflight_result = preflight_post_only b rs p quantity
           in if preflight_result \<noteq> RR_None then ret (rejected preflight_result quantity, b, trades)
              else submit_limit b oid 0 rs p quantity GTC trades)"

definition submit_iceberg :: "book \<Rightarrow> order_id \<Rightarrow> trader_id \<Rightarrow> raw_side \<Rightarrow> price \<Rightarrow> quantity \<Rightarrow>
    quantity \<Rightarrow> trade list \<Rightarrow> submit_run" where
  "submit_iceberg b0 oid trader rs p quantity display_quantity trades =
     (let b = reset_stop_activations b0;
          basic = preflight b rs quantity;
          preflight_result = preflight_limit b rs p quantity GTC
      in if ob_trading_state b = Opening_Auction
         then ret (rejected RR_Invalid_Trading_State quantity, b, trades)
         else if display_quantity = 0 \<or> display_quantity > quantity
         then ret (rejected RR_Invalid_Display_Quantity quantity, b, trades)
         else if basic \<noteq> RR_None then ret (rejected basic quantity, b, trades)
         else if length trades < required_trade_capacity b
         then ret (rejected RR_Insufficient_Trade_Capacity quantity, b, trades)
         else if preflight_result \<noteq> RR_None then ret (rejected preflight_result quantity, b, trades)
         else case rs of Raw_Side _ \<Rightarrow> ret (rejected RR_Invalid_Side quantity, b, trades) | Valid_Side s \<Rightarrow>
         (let level_index = the (index_of (ob_domain b) p)
          in run_bind (self_trade_check b trader s level_index) (\<lambda>self_trade.
             if self_trade then ret (rejected RR_Self_Trade_Prevented quantity, b, trades)
             else
             run_bind (match_taker oid trader s (Some level_index) \<lparr>ex_book = b,
                         ex_remaining = quantity, ex_trades = trades, ex_count = 0\<rparr>)
             (\<lambda>x. let remaining = ex_remaining x
              in run_bind (if remaining = 0 then ret (kInvalidHandle, ex_book x)
                           else rest (ex_book x) oid trader s level_index remaining
                                  (min display_quantity remaining)) (\<lambda>(h, b1).
                 run_bind (trigger_stops b1 (ex_trades x) (ex_count x)) (\<lambda>(b2, trades', trade_count).
                 ret (submitted quantity remaining trade_count h, b2, trades')))))))"

definition submit_iceberg_gtc :: "book \<Rightarrow> order_id \<Rightarrow> raw_side \<Rightarrow> price \<Rightarrow> quantity \<Rightarrow>
    quantity \<Rightarrow> trade list \<Rightarrow> submit_run" where
  "submit_iceberg_gtc b oid rs p quantity display_quantity trades =
     submit_iceberg b oid 0 rs p quantity display_quantity trades"

definition submit_market ::
    "book \<Rightarrow> order_id \<Rightarrow> raw_side \<Rightarrow> quantity \<Rightarrow> trade list \<Rightarrow> submit_run" where
  "submit_market b0 oid rs quantity trades =
     (let b = reset_stop_activations b0; basic = preflight_market b rs quantity
      in if basic \<noteq> RR_None then ret (rejected basic quantity, b, trades)
         else if length trades < required_trade_capacity b
         then ret (rejected RR_Insufficient_Trade_Capacity quantity, b, trades)
         else case rs of Raw_Side _ \<Rightarrow> ret (rejected RR_Invalid_Side quantity, b, trades) | Valid_Side s \<Rightarrow>
           run_bind (match_taker oid 0 s None \<lparr>ex_book = b, ex_remaining = quantity,
                       ex_trades = trades, ex_count = 0\<rparr>) (\<lambda>x.
           run_bind (trigger_stops (ex_book x) (ex_trades x) (ex_count x)) (\<lambda>(b2, trades', trade_count).
           ret (submitted quantity (ex_remaining x) trade_count kInvalidHandle, b2, trades'))))"

text \<open>\<^verbatim>\<open>submit_stop\<close> (no limit price) and \<^verbatim>\<open>submit_stop_limit\<close> share their text in the source.\<close>

definition submit_stop_common :: "book \<Rightarrow> order_id \<Rightarrow> raw_side \<Rightarrow> price \<Rightarrow> price option \<Rightarrow> quantity \<Rightarrow>
    trade list \<Rightarrow> submit_run" where
  "submit_stop_common b0 oid rs trigger_price limit_price quantity trades =
     (let b = reset_stop_activations b0; preflight_result = preflight_stop b rs limit_price quantity
      in if preflight_result \<noteq> RR_None then ret (rejected preflight_result quantity, b, trades)
         else if length trades < required_trade_capacity b
         then ret (rejected RR_Insufficient_Trade_Capacity quantity, b, trades)
         else case rs of Raw_Side _ \<Rightarrow> ret (rejected RR_Invalid_Side quantity, b, trades) | Valid_Side s \<Rightarrow>
           run_bind (rest_stop b oid s trigger_price limit_price quantity) (\<lambda>(h, b1).
           if \<not> stop_is_triggered b1 s trigger_price
           then ret (\<lparr>sr_reason = RR_None, sr_executed = 0, sr_unfilled = quantity,
                       sr_trade_count = 0, sr_handle = h\<rparr>, b1, trades)
           else run_bind (activate_stop b1 h trades 0) (\<lambda>(result, b2, trades2, count2).
                run_bind (trigger_stops b2 trades2 count2) (\<lambda>(b3, trades3, count3).
                ret (result\<lparr>sr_trade_count := count3\<rparr>, b3, trades3)))))"

definition submit_stop ::
    "book \<Rightarrow> order_id \<Rightarrow> raw_side \<Rightarrow> price \<Rightarrow> quantity \<Rightarrow> trade list \<Rightarrow> submit_run" where
  "submit_stop b oid rs trigger_price quantity trades =
     submit_stop_common b oid rs trigger_price None quantity trades"

definition submit_stop_limit ::
    "book \<Rightarrow> order_id \<Rightarrow> raw_side \<Rightarrow> price \<Rightarrow> price \<Rightarrow> quantity \<Rightarrow> trade list \<Rightarrow> submit_run" where
  "submit_stop_limit b oid rs trigger_price limit_price quantity trades =
     submit_stop_common b oid rs trigger_price (Some limit_price) quantity trades"

section \<open>Cancel, amend, replace\<close>

definition cancel :: "book \<Rightarrow> handle \<Rightarrow> cancel_result \<times> book" where
  "cancel b h =
     (case resolve (ob_arena b) h of
        None \<Rightarrow> (\<lparr>cr_reason = CR_Invalid_Handle, cr_id = 0, cr_quantity = 0\<rparr>, b)
      | Some x \<Rightarrow>
          let result = \<lparr>cr_reason = CR_None, cr_id = ord_id x, cr_quantity = ord_remaining x\<rparr>
          in if is_dormant x then (result, unlink_stop b h)
             else (result, unlink b h (ord_remaining x)))"

definition amend_quantity :: "book \<Rightarrow> handle \<Rightarrow> quantity \<Rightarrow> amend_result \<times> book" where
  "amend_quantity b h new_remaining =
     (case resolve (ob_arena b) h of
        None \<Rightarrow> (\<lparr>am_reason = AR_Invalid_Handle, am_id = 0, am_previous = 0, am_new = new_remaining,
                  am_handle = h\<rparr>, b)
      | Some x \<Rightarrow>
          let previous = ord_remaining x;
              result = (\<lambda>reason. \<lparr>am_reason = reason, am_id = ord_id x, am_previous = previous,
                                  am_new = new_remaining, am_handle = h\<rparr>)
          in if new_remaining = 0 then (result AR_Zero_Quantity, b)
             else if new_remaining > ob_max_quantity b then (result AR_Quantity_Too_Large, b)
             else if new_remaining > previous then (result AR_Increase_Not_Allowed, b)
             else if new_remaining = previous then (result AR_None, b)
             else let set_remaining = (\<lambda>b'. upd_order b' (h_index h) (\<lambda>y. y\<lparr>ord_remaining := new_remaining\<rparr>))
                  in if is_dormant x then (result AR_None, set_remaining b)
                  else let s = decode_side (ord_encoded x); l = decode_level (ord_encoded x);
                           b1 = upd_level b s l (\<lambda>pl. pl\<lparr>pl_aggregate :=
                                  pl_aggregate pl - (previous - new_remaining)\<rparr>);
                           b2 = set_remaining b1
                       in (result AR_None, b2\<lparr>ob_displayed_remaining := (ob_displayed_remaining b2)
                             [h_index h := min (ob_displayed_remaining b2 ! h_index h) new_remaining]\<rparr>))"

definition replace :: "book \<Rightarrow> handle \<Rightarrow> price \<Rightarrow> quantity \<Rightarrow> trade list \<Rightarrow> submit_run" where
  "replace b0 h new_price new_quantity trades =
     (let b = reset_stop_activations b0;
          preflight_result = preflight_replace b h new_price new_quantity
      in if preflight_result \<noteq> RR_None \<and> preflight_result \<noteq> RR_Price_Out_Of_Domain
         then ret (rejected preflight_result new_quantity, b, trades)
         else if length trades < required_trade_capacity b
         then ret (rejected RR_Insufficient_Trade_Capacity new_quantity, b, trades)
         else if preflight_result \<noteq> RR_None then ret (rejected preflight_result new_quantity, b, trades)
         else let x = the (resolve (ob_arena b) h);
                  b1 = unlink b h (ord_remaining x)
              in submit_limit_tif b1 (ord_id x) (Valid_Side (decode_side (ord_encoded x)))
                   new_price new_quantity GTC trades)"

section \<open>Opening auction\<close>

definition reduce_auction_order :: "book \<Rightarrow> nat \<Rightarrow> u64 \<Rightarrow> book" where
  "reduce_auction_order b index execution =
     (let x = bk_order b index;
          h = handle_at (ob_arena b) index;
          remaining = ord_remaining x - execution
      in if remaining = 0 then unlink b h execution
         else let b1 = upd_order b index (\<lambda>y. y\<lparr>ord_remaining := remaining\<rparr>);
                  s = decode_side (ord_encoded x);
                  b2 = upd_level b1 s (decode_level (ord_encoded x))
                         (\<lambda>pl. pl\<lparr>pl_aggregate := pl_aggregate pl - execution\<rparr>);
                  b3 = b2\<lparr>ob_displayed_remaining := (ob_displayed_remaining b2)
                         [index := ob_displayed_remaining b2 ! index - execution]\<rparr>
              in if ob_displayed_remaining b3 ! index = 0
                 then move_to_tail (b3\<lparr>ob_displayed_remaining := (ob_displayed_remaining b3)
                        [index := min (ob_display_quantities b3 ! index) remaining]\<rparr>) index
                 else b3)"

definition execute_auction_match :: "nat \<Rightarrow> nat \<Rightarrow> price \<Rightarrow> u64 \<Rightarrow> exec \<Rightarrow> exec run" where
  "execute_auction_match bid_index ask_index clearing_price execution x =
     (let b = ex_book x
      in if ex_count x \<ge> length (ex_trades x) then crash Trade_Buffer_Overflow
         else ret (x\<lparr>ex_trades := (ex_trades x)[ex_count x := \<lparr>tr_buy = ord_id (bk_order b bid_index),
                       tr_sell = ord_id (bk_order b ask_index), tr_price = clearing_price,
                       tr_quantity = execution\<rparr>],
                    ex_count := ex_count x + 1,
                    ex_book := reduce_auction_order (reduce_auction_order b bid_index execution)
                                 ask_index execution\<rparr>))"

text \<open>The search for the clearing level: one step of the second \<^verbatim>\<open>for\<close> loop, on its local variables.\<close>

record auction_search =
  as_bids :: u64
  as_asks :: u64
  as_level :: "nat option"
  as_executable :: u64
  as_imbalance :: u64

definition level_gap :: "nat \<Rightarrow> nat \<Rightarrow> nat" where
  "level_gap reference_level candidate =
     (if candidate > reference_level then candidate - reference_level else reference_level - candidate)"

definition auction_step :: "book \<Rightarrow> nat \<Rightarrow> auction_search \<Rightarrow> nat \<Rightarrow> auction_search" where
  "auction_step b reference_level a l =
     (let asks = as_asks a + pl_aggregate (level b Sell l);
          bids = as_bids a;
          executable = min bids asks;
          imbalance = (if bids > asks then bids - asks else asks - bids);
          tie = (executable = as_executable a \<and> imbalance = as_imbalance a);
          better = (executable > as_executable a \<or>
            (executable = as_executable a \<and> imbalance < as_imbalance a) \<or>
            (tie \<and> (case as_level a of None \<Rightarrow> True
                     | Some c \<Rightarrow> level_gap reference_level l < level_gap reference_level c)) \<or>
            (tie \<and> (case as_level a of None \<Rightarrow> False
                     | Some c \<Rightarrow> level_gap reference_level l = level_gap reference_level c \<and> l > c)));
          a1 = (if better then a\<lparr>as_level := Some l, as_executable := executable,
                                 as_imbalance := imbalance\<rparr> else a)
      in a1\<lparr>as_asks := asks, as_bids := bids - pl_aggregate (level b Buy l)\<rparr>)"

definition clearing_search :: "book \<Rightarrow> auction_search" where
  "clearing_search b =
     (let start = \<lparr>as_bids = 0, as_asks = 0, as_level = None, as_executable = 0, as_imbalance = -1\<rparr>
      in case (best_index b Buy, best_index b Sell) of
           (Some bid, Some ask) \<Rightarrow>
             if bid \<ge> ask
             then let reference_level = ask + (bid - ask) div 2;
                      eligible_bids = foldl (\<lambda>acc l. acc + pl_aggregate (level b Buy l)) 0 [ask..<Suc bid]
                  in foldl (auction_step b reference_level) (start\<lparr>as_bids := eligible_bids\<rparr>) [ask..<Suc bid]
             else start
         | _ \<Rightarrow> start)"

partial_function (option) auction_loop :: "nat \<Rightarrow> price \<Rightarrow> exec \<Rightarrow> exec run" where
  [code]: "auction_loop clearing_level clearing_price x =
     (let b = ex_book x
      in if ex_remaining x = 0 then ret x
         else case best_index b Buy of None \<Rightarrow> ret x | Some bid_level \<Rightarrow>
              (case best_index b Sell of None \<Rightarrow> ret x | Some ask_level \<Rightarrow>
               if \<not> (bid_level \<ge> clearing_level \<and> ask_level \<le> clearing_level) then ret x
               else let bid_index = pl_head (level b Buy bid_level);
                        ask_index = pl_head (level b Sell ask_level);
                        execution = min (ex_remaining x) (min (ob_displayed_remaining b ! bid_index)
                                                              (ob_displayed_remaining b ! ask_index))
                    in run_bind (execute_auction_match bid_index ask_index clearing_price execution x) (\<lambda>x1.
                       auction_loop clearing_level clearing_price
                         (x1\<lparr>ex_remaining := ex_remaining x1 - execution\<rparr>))))"

definition uncross_opening_auction ::
    "book \<Rightarrow> trade list \<Rightarrow> (auction_result \<times> book \<times> trade list) run" where
  "uncross_opening_auction b trades =
     (let failed = (\<lambda>e. \<lparr>au_error = e, au_clearing_price = None, au_executed = 0, au_trade_count = 0\<rparr>)
      in if ob_trading_state b \<noteq> Opening_Auction then ret (failed AE_Not_Opening_Auction, b, trades)
         else if length trades < required_trade_capacity b
         then ret (failed AE_Insufficient_Trade_Capacity, b, trades)
         else let a = clearing_search b;
                  b1 = b\<lparr>ob_trading_state := Continuous\<rparr>
              in case as_level a of
                   None \<Rightarrow> ret (failed AE_None, b1, trades)
                 | Some clearing_level \<Rightarrow>
                     if as_executable a = 0 then ret (failed AE_None, b1, trades)
                     else let clearing_price = the (price_at (ob_domain b1) clearing_level)
                          in run_bind (auction_loop clearing_level clearing_price
                               \<lparr>ex_book = b1, ex_remaining = as_executable a, ex_trades = trades, ex_count = 0\<rparr>) (\<lambda>x.
                             ret (\<lparr>au_error = AE_None, au_clearing_price = Some clearing_price,
                                    au_executed = as_executable a - ex_remaining x,
                                    au_trade_count = ex_count x\<rparr>,
                                  (ex_book x)\<lparr>ob_last_execution_price := Some clearing_price\<rparr>, ex_trades x)))"

section \<open>Queries\<close>

definition best_bid :: "book \<Rightarrow> price option" where
  "best_bid b = (case best_index b Buy of None \<Rightarrow> None | Some i \<Rightarrow> price_at (ob_domain b) i)"

definition best_ask :: "book \<Rightarrow> price option" where
  "best_ask b = (case best_index b Sell of None \<Rightarrow> None | Some i \<Rightarrow> price_at (ob_domain b) i)"

definition get_level_info :: "book \<Rightarrow> raw_side \<Rightarrow> price \<Rightarrow> level_info option" where
  "get_level_info b rs p =
     (case rs of Raw_Side _ \<Rightarrow> None | Valid_Side s \<Rightarrow>
       (case index_of (ob_domain b) p of None \<Rightarrow> None
        | Some i \<Rightarrow> Some \<lparr>li_aggregate = pl_aggregate (level b s i), li_count = pl_count (level b s i)\<rparr>))"

definition get_order_info :: "book \<Rightarrow> handle \<Rightarrow> order_info option" where
  "get_order_info b h =
     (case resolve (ob_arena b) h of
        None \<Rightarrow> None
      | Some x \<Rightarrow>
          if is_dormant x
          then Some \<lparr>oi_id = ord_id x, oi_side = decode_side (ord_encoded x),
                     oi_price = (if is_stop_market x then 0 else ob_stop_limit_prices b ! h_index h),
                     oi_remaining = ord_remaining x\<rparr>
          else (case price_at (ob_domain b) (decode_level (ord_encoded x)) of
                  None \<Rightarrow> None
                | Some p \<Rightarrow> Some \<lparr>oi_id = ord_id x, oi_side = decode_side (ord_encoded x),
                                 oi_price = p, oi_remaining = ord_remaining x\<rparr>))"

definition stop_activations :: "book \<Rightarrow> stop_activation list" where
  "stop_activations b = take (ob_stop_activation_count b) (ob_stop_activations b)"

end
