(* ===== verification/Intrusive_Queue.thy ===== *)
theory Intrusive_Queue
  imports ME_Types
begin

text \<open>
  The intrusive doubly linked queues of the order book.  A price level threads its FIFO queue
  through \<^verbatim>\<open>prev_index\<close>/\<^verbatim>\<open>next_index\<close> of the arena's orders, the dormant stops use two arrays of
  their own; both keep a head and a tail index and \<^verbatim>\<open>kInvalidIndex\<close> as the null link.  \<open>dll\<close> relates the
  link functions and the two end indices to the list of slots they stand for.
\<close>

fun dseg :: "(nat \<Rightarrow> nat) \<Rightarrow> (nat \<Rightarrow> nat) \<Rightarrow> nat \<Rightarrow> nat list \<Rightarrow> nat \<Rightarrow> bool" where
  "dseg prv nxt p [] n \<longleftrightarrow> True"
| "dseg prv nxt p (x # xs) n \<longleftrightarrow> prv x = p \<and> nxt x = hd (xs @ [n]) \<and> dseg prv nxt x xs n"

definition dll :: "(nat \<Rightarrow> nat) \<Rightarrow> (nat \<Rightarrow> nat) \<Rightarrow> nat \<Rightarrow> nat \<Rightarrow> nat list \<Rightarrow> bool" where
  "dll prv nxt h t q \<longleftrightarrow> h = hd (q @ [kInvalidIndex]) \<and> t = last (kInvalidIndex # q) \<and>
     dseg prv nxt kInvalidIndex q kInvalidIndex \<and> distinct q \<and> kInvalidIndex \<notin> set q"

lemma dseg_append:
  "dseg prv nxt p (xs @ ys) n \<longleftrightarrow>
     dseg prv nxt p xs (hd (ys @ [n])) \<and> dseg prv nxt (last (p # xs)) ys n"
  by (induction xs arbitrary: p) auto

lemma dseg_cong:
  "(\<And>x. x \<in> set xs \<Longrightarrow> prv x = prv' x) \<Longrightarrow> (\<And>x. x \<in> set xs \<Longrightarrow> nxt x = nxt' x) \<Longrightarrow>
     dseg prv nxt p xs n = dseg prv' nxt' p xs n"
  by (induction xs arbitrary: p) auto

lemma dll_cong:
  "(\<And>x. x \<in> set q \<Longrightarrow> prv x = prv' x) \<Longrightarrow> (\<And>x. x \<in> set q \<Longrightarrow> nxt x = nxt' x) \<Longrightarrow>
     dll prv nxt h t q = dll prv' nxt' h t q"
  using dseg_cong [of q prv prv' nxt nxt'] by (simp add: dll_def)

lemma dll_Nil [simp]: "dll prv nxt h t [] \<longleftrightarrow> h = kInvalidIndex \<and> t = kInvalidIndex"
  by (auto simp: dll_def)

lemma dll_distinct: "dll prv nxt h t q \<Longrightarrow> distinct q"
  by (simp add: dll_def)

lemma dll_head_eq: "dll prv nxt h t q \<Longrightarrow> h = kInvalidIndex \<longleftrightarrow> q = []"
  by (cases q) (auto simp: dll_def)

lemma dll_tail_eq: "dll prv nxt h t q \<Longrightarrow> t = kInvalidIndex \<longleftrightarrow> q = []"
  by (cases q rule: rev_cases) (auto simp: dll_def)

lemma dll_Cons: "dll prv nxt h t (x # q) \<Longrightarrow> h = x \<and> nxt x = hd (q @ [kInvalidIndex])"
  by (simp add: dll_def)

lemma dll_links:
  assumes "dll prv nxt h t (xs @ i # ys)"
  shows "prv i = last (kInvalidIndex # xs)" "nxt i = hd (ys @ [kInvalidIndex])"
  using assms by (auto simp: dll_def dseg_append)

lemma dll_tail_last: "dll prv nxt h t (xs @ [i]) \<Longrightarrow> t = i"
  by (simp add: dll_def)

lemma dll_tail_iff: "dll prv nxt h t (xs @ i # ys) \<Longrightarrow> t = i \<longleftrightarrow> ys = []"
  by (cases ys rule: rev_cases) (auto simp: dll_def)

text \<open>Changing the successor of the last cell of a segment, or the predecessor of the first.\<close>

lemma dseg_set_next:
  "dseg prv nxt p (xs @ [x]) n \<Longrightarrow> x \<notin> set xs \<Longrightarrow> dseg prv (nxt(x := m)) p (xs @ [x]) m"
  by (subst dseg_append, subst (asm) dseg_append, subst dseg_cong [of xs prv prv _ nxt]) auto

lemma dseg_set_prev:
  "dseg prv nxt p (x # xs) n \<Longrightarrow> x \<notin> set xs \<Longrightarrow> dseg (prv(x := m)) nxt m (x # xs) n"
  by (simp, subst dseg_cong [of xs _ prv nxt nxt]) auto

lemma dll_remove:
  assumes "dll prv nxt h t (xs @ i # ys)"
  defines "p \<equiv> prv i" and "n \<equiv> nxt i"
  shows "dll (if n = kInvalidIndex then prv else prv(n := p))
             (if p = kInvalidIndex then nxt else nxt(p := n))
             (if p = kInvalidIndex then n else h) (if n = kInvalidIndex then p else t) (xs @ ys)"
proof -
  let ?K = kInvalidIndex
  have seg: "dseg prv nxt ?K xs i" "dseg prv nxt i ys ?K" and dist: "distinct (xs @ i # ys)"
    and inv: "?K \<notin> set (xs @ i # ys)"
    and ht: "h = hd ((xs @ i # ys) @ [?K])" "t = last (?K # xs @ i # ys)"
    using assms(1) by (auto simp: dll_def dseg_append)
  have pn: "p = last (?K # xs)" "n = hd (ys @ [?K])"
    using dll_links [OF assms(1)] by (auto simp: p_def n_def)
  have p: "p = ?K \<longleftrightarrow> xs = []" using pn(1) inv by (cases xs rule: rev_cases) auto
  have n: "n = ?K \<longleftrightarrow> ys = []" using pn(2) inv by (cases ys) auto
  let ?prv = "if n = ?K then prv else prv(n := p)" and ?nxt = "if p = ?K then nxt else nxt(p := n)"
  have ys: "dseg ?prv ?nxt p ys ?K"
  proof (cases ys)
    case (Cons y ys')
    have "last (?K # xs) \<notin> set ys" using dist inv by (cases xs rule: rev_cases) auto
    then have ny: "n = y" "n \<noteq> ?K" "y \<notin> set ys'" "p \<notin> set ys" using pn n dist Cons by simp_all
    then have "dseg (prv(n := p)) nxt p ys ?K"
      using dseg_set_prev [of prv nxt i y ys' ?K p] seg(2) Cons by simp
    moreover have "dseg ?prv ?nxt p ys ?K = dseg (prv(n := p)) nxt p ys ?K"
      by (rule dseg_cong) (use ny in auto)
    ultimately show ?thesis by simp
  qed simp
  have xs: "dseg ?prv ?nxt ?K xs n"
  proof (cases xs rule: rev_cases)
    case (snoc xs' x)
    have "hd (ys @ [?K]) \<notin> set xs" using dist inv by (cases ys) auto
    then have px: "p = x" "p \<noteq> ?K" "x \<notin> set xs'" "n \<notin> set xs" using pn p dist snoc by simp_all
    have "dseg prv (nxt(p := n)) ?K xs n"
      using dseg_set_next [of prv nxt ?K xs' x i n] seg(1) px snoc by simp
    moreover have "dseg ?prv ?nxt ?K xs n = dseg prv (nxt(p := n)) ?K xs n"
      by (rule dseg_cong) (use px in auto)
    ultimately show ?thesis by simp
  qed simp
  show ?thesis
    unfolding dll_def dseg_append
  proof (intro conjI)
    show "(if p = ?K then n else h) = hd ((xs @ ys) @ [?K])"
      using p pn(2) ht(1) by (cases xs) auto
    show "(if n = ?K then p else t) = last (?K # xs @ ys)"
      using n pn(1) ht(2) by (cases ys rule: rev_cases) auto
  qed (use xs ys pn dist inv in auto)
qed

lemma dll_append:
  assumes "dll prv nxt h t q" and "i \<notin> set q" and "i \<noteq> kInvalidIndex"
  shows "dll (prv(i := t)) ((if t = kInvalidIndex then nxt else nxt(t := i))(i := kInvalidIndex))
             (if t = kInvalidIndex then i else h) i (q @ [i])"
proof -
  let ?K = kInvalidIndex
  let ?prv = "prv(i := t)" and ?nxt = "(if t = ?K then nxt else nxt(t := i))(i := ?K)"
  have seg: "dseg prv nxt ?K q ?K" "h = hd (q @ [?K])" "t = last (?K # q)" "distinct q" "?K \<notin> set q"
    using assms(1) by (auto simp: dll_def)
  have t: "t = ?K \<longleftrightarrow> q = []" using dll_tail_eq [OF assms(1)] .
  have "dseg ?prv ?nxt ?K q i"
  proof (cases q rule: rev_cases)
    case (snoc q' x)
    then have tx: "t = x" "t \<noteq> ?K" "x \<notin> set q'" using seg t by auto
    have "dseg prv (nxt(t := i)) ?K q i"
      using dseg_set_next [of prv nxt ?K q' x ?K i] seg(1) tx snoc by simp
    moreover have "dseg ?prv ?nxt ?K q i = dseg prv (nxt(t := i)) ?K q i"
      by (rule dseg_cong) (use tx assms(2) in auto)
    ultimately show ?thesis by simp
  qed simp
  then show ?thesis using seg t assms(2,3) by (auto simp: dll_def dseg_append)
qed

text \<open>Following the links from the head visits the queue in order.\<close>

lemma dll_hd_Cons:
  "dll prv nxt h t q \<Longrightarrow> h \<noteq> kInvalidIndex \<Longrightarrow> \<exists>q'. q = h # q' \<and> nxt h = hd (q' @ [kInvalidIndex])"
  by (cases q) (auto simp: dll_def)

end
