(* ===== verification/Order_Book_Rep.thy ===== *)
theory Order_Book_Rep
  imports Order_Book Intrusive_Queue
begin

text \<open>
  What the order book's arrays, links and bitmaps stand for: a FIFO queue of arena slots per side
  and price level, a queue of dormant stops, and the relation \<open>book_rep\<close> between a book and those
  queues.  The lemmas show how every primitive of the book (linking at a tail, unlinking, moving to
  the tail, reducing a maker, the stop queue) acts on the queues, so that the properties of the
  operations are proved on lists.
\<close>

section \<open>Fields the primitives do not touch\<close>

lemma upd_level_fields [simp]:
  "ob_domain (upd_level b s l f) = ob_domain b"
  "ob_max_quantity (upd_level b s l f) = ob_max_quantity b"
  "ob_bid_occupancy (upd_level b s l f) = ob_bid_occupancy b"
  "ob_ask_occupancy (upd_level b s l f) = ob_ask_occupancy b"
  "ob_arena (upd_level b s l f) = ob_arena b"
  "ob_trader_ids (upd_level b s l f) = ob_trader_ids b"
  "ob_display_quantities (upd_level b s l f) = ob_display_quantities b"
  "ob_displayed_remaining (upd_level b s l f) = ob_displayed_remaining b"
  "ob_stop_trigger_prices (upd_level b s l f) = ob_stop_trigger_prices b"
  "ob_stop_limit_prices (upd_level b s l f) = ob_stop_limit_prices b"
  "ob_stop_prev (upd_level b s l f) = ob_stop_prev b"
  "ob_stop_next (upd_level b s l f) = ob_stop_next b"
  "ob_stop_head (upd_level b s l f) = ob_stop_head b"
  "ob_stop_tail (upd_level b s l f) = ob_stop_tail b"
  "ob_dormant_stop_count (upd_level b s l f) = ob_dormant_stop_count b"
  "ob_stop_activations (upd_level b s l f) = ob_stop_activations b"
  "ob_stop_activation_count (upd_level b s l f) = ob_stop_activation_count b"
  "ob_last_execution_price (upd_level b s l f) = ob_last_execution_price b"
  "ob_self_trade_policy (upd_level b s l f) = ob_self_trade_policy b"
  "ob_allocation_mode (upd_level b s l f) = ob_allocation_mode b"
  "ob_pro_rata_minimum (upd_level b s l f) = ob_pro_rata_minimum b"
  "ob_trading_state (upd_level b s l f) = ob_trading_state b"
  "ob_trade_report_indices (upd_level b s l f) = ob_trade_report_indices b"
  "ob_trade_report_epochs (upd_level b s l f) = ob_trade_report_epochs b"
  "ob_trade_report_epoch (upd_level b s l f) = ob_trade_report_epoch b"
  "ob_visit_marks (upd_level b s l f) = ob_visit_marks b"
  "ob_visit_epoch (upd_level b s l f) = ob_visit_epoch b"
  by (cases s; simp)+

lemma set_occupancy_fields [simp]:
  "ob_domain (set_occupancy b s m) = ob_domain b"
  "ob_max_quantity (set_occupancy b s m) = ob_max_quantity b"
  "ob_bids (set_occupancy b s m) = ob_bids b"
  "ob_asks (set_occupancy b s m) = ob_asks b"
  "ob_arena (set_occupancy b s m) = ob_arena b"
  "ob_trader_ids (set_occupancy b s m) = ob_trader_ids b"
  "ob_display_quantities (set_occupancy b s m) = ob_display_quantities b"
  "ob_displayed_remaining (set_occupancy b s m) = ob_displayed_remaining b"
  "ob_stop_trigger_prices (set_occupancy b s m) = ob_stop_trigger_prices b"
  "ob_stop_limit_prices (set_occupancy b s m) = ob_stop_limit_prices b"
  "ob_stop_prev (set_occupancy b s m) = ob_stop_prev b"
  "ob_stop_next (set_occupancy b s m) = ob_stop_next b"
  "ob_stop_head (set_occupancy b s m) = ob_stop_head b"
  "ob_stop_tail (set_occupancy b s m) = ob_stop_tail b"
  "ob_dormant_stop_count (set_occupancy b s m) = ob_dormant_stop_count b"
  "ob_stop_activations (set_occupancy b s m) = ob_stop_activations b"
  "ob_stop_activation_count (set_occupancy b s m) = ob_stop_activation_count b"
  "ob_last_execution_price (set_occupancy b s m) = ob_last_execution_price b"
  "ob_self_trade_policy (set_occupancy b s m) = ob_self_trade_policy b"
  "ob_allocation_mode (set_occupancy b s m) = ob_allocation_mode b"
  "ob_pro_rata_minimum (set_occupancy b s m) = ob_pro_rata_minimum b"
  "ob_trading_state (set_occupancy b s m) = ob_trading_state b"
  "ob_trade_report_indices (set_occupancy b s m) = ob_trade_report_indices b"
  "ob_trade_report_epochs (set_occupancy b s m) = ob_trade_report_epochs b"
  "ob_trade_report_epoch (set_occupancy b s m) = ob_trade_report_epoch b"
  "ob_visit_marks (set_occupancy b s m) = ob_visit_marks b"
  "ob_visit_epoch (set_occupancy b s m) = ob_visit_epoch b"
  by (cases s; simp)+

lemma upd_order_fields [simp]:
  "ob_domain (upd_order b i f) = ob_domain b"
  "ob_max_quantity (upd_order b i f) = ob_max_quantity b"
  "ob_bids (upd_order b i f) = ob_bids b"
  "ob_asks (upd_order b i f) = ob_asks b"
  "ob_bid_occupancy (upd_order b i f) = ob_bid_occupancy b"
  "ob_ask_occupancy (upd_order b i f) = ob_ask_occupancy b"
  "ob_trader_ids (upd_order b i f) = ob_trader_ids b"
  "ob_display_quantities (upd_order b i f) = ob_display_quantities b"
  "ob_displayed_remaining (upd_order b i f) = ob_displayed_remaining b"
  "ob_stop_trigger_prices (upd_order b i f) = ob_stop_trigger_prices b"
  "ob_stop_limit_prices (upd_order b i f) = ob_stop_limit_prices b"
  "ob_stop_prev (upd_order b i f) = ob_stop_prev b"
  "ob_stop_next (upd_order b i f) = ob_stop_next b"
  "ob_stop_head (upd_order b i f) = ob_stop_head b"
  "ob_stop_tail (upd_order b i f) = ob_stop_tail b"
  "ob_dormant_stop_count (upd_order b i f) = ob_dormant_stop_count b"
  "ob_stop_activations (upd_order b i f) = ob_stop_activations b"
  "ob_stop_activation_count (upd_order b i f) = ob_stop_activation_count b"
  "ob_last_execution_price (upd_order b i f) = ob_last_execution_price b"
  "ob_self_trade_policy (upd_order b i f) = ob_self_trade_policy b"
  "ob_allocation_mode (upd_order b i f) = ob_allocation_mode b"
  "ob_pro_rata_minimum (upd_order b i f) = ob_pro_rata_minimum b"
  "ob_trading_state (upd_order b i f) = ob_trading_state b"
  "ob_trade_report_indices (upd_order b i f) = ob_trade_report_indices b"
  "ob_trade_report_epochs (upd_order b i f) = ob_trade_report_epochs b"
  "ob_trade_report_epoch (upd_order b i f) = ob_trade_report_epoch b"
  "ob_visit_marks (upd_order b i f) = ob_visit_marks b"
  "ob_visit_epoch (upd_order b i f) = ob_visit_epoch b"
  by (simp_all add: upd_order_def)

lemma release_slot_fields [simp]:
  "ob_domain (release_slot b h) = ob_domain b"
  "ob_max_quantity (release_slot b h) = ob_max_quantity b"
  "ob_bids (release_slot b h) = ob_bids b"
  "ob_asks (release_slot b h) = ob_asks b"
  "ob_bid_occupancy (release_slot b h) = ob_bid_occupancy b"
  "ob_ask_occupancy (release_slot b h) = ob_ask_occupancy b"
  "ob_trader_ids (release_slot b h) = ob_trader_ids b"
  "ob_display_quantities (release_slot b h) = ob_display_quantities b"
  "ob_displayed_remaining (release_slot b h) = ob_displayed_remaining b"
  "ob_stop_trigger_prices (release_slot b h) = ob_stop_trigger_prices b"
  "ob_stop_limit_prices (release_slot b h) = ob_stop_limit_prices b"
  "ob_stop_prev (release_slot b h) = ob_stop_prev b"
  "ob_stop_next (release_slot b h) = ob_stop_next b"
  "ob_stop_head (release_slot b h) = ob_stop_head b"
  "ob_stop_tail (release_slot b h) = ob_stop_tail b"
  "ob_dormant_stop_count (release_slot b h) = ob_dormant_stop_count b"
  "ob_stop_activations (release_slot b h) = ob_stop_activations b"
  "ob_stop_activation_count (release_slot b h) = ob_stop_activation_count b"
  "ob_last_execution_price (release_slot b h) = ob_last_execution_price b"
  "ob_self_trade_policy (release_slot b h) = ob_self_trade_policy b"
  "ob_allocation_mode (release_slot b h) = ob_allocation_mode b"
  "ob_pro_rata_minimum (release_slot b h) = ob_pro_rata_minimum b"
  "ob_trading_state (release_slot b h) = ob_trading_state b"
  "ob_trade_report_indices (release_slot b h) = ob_trade_report_indices b"
  "ob_trade_report_epochs (release_slot b h) = ob_trade_report_epochs b"
  "ob_trade_report_epoch (release_slot b h) = ob_trade_report_epoch b"
  "ob_visit_marks (release_slot b h) = ob_visit_marks b"
  "ob_visit_epoch (release_slot b h) = ob_visit_epoch b"
  by (simp_all add: release_slot_def)

lemma upd_level_occupancy [simp]: "occupancy (upd_level b s l f) s' = occupancy b s'"
  by (cases s') simp_all

lemma upd_order_occupancy [simp]: "occupancy (upd_order b i f) s' = occupancy b s'"
  by (cases s') simp_all

lemma release_slot_occupancy [simp]: "occupancy (release_slot b h) s' = occupancy b s'"
  by (cases s') simp_all

lemma set_occupancy_occupancy [simp]:
  "occupancy (set_occupancy b s m) s' = (if s' = s then m else occupancy b s')"
  by (cases s; cases s') simp_all

lemma level_frame [simp]:
  "level (upd_order b i f) s l = level b s l" "level (set_occupancy b s' m) s l = level b s l"
  "level (release_slot b h) s l = level b s l"
  by (cases s; cases s'; simp)+

lemma level_length [simp]:
  "length (ob_bids (upd_level b s l f)) = length (ob_bids b)"
  "length (ob_asks (upd_level b s l f)) = length (ob_asks b)"
  by (cases s; simp)+

lemma bk_order_frame [simp]:
  "bk_order (upd_level b s l f) = bk_order b" "bk_order (set_occupancy b s m) = bk_order b"
  by (simp_all add: bk_order_def fun_eq_iff)

lemma bk_order_release_slot [simp]: "bk_order (release_slot b h) j = bk_order b j"
proof -
  have "sl_order (ar_slots (snd (release a h)) ! j) = sl_order (ar_slots a ! j)" for a
    by (cases "h_index h < length (ar_slots a)")
      (auto simp: release_def Let_def nth_list_update list_update_beyond)
  then show ?thesis by (simp add: bk_order_def order_at_def release_slot_def)
qed

declare level.simps [simp del] upd_level.simps [simp del] occupancy.simps [simp del]
  set_occupancy.simps [simp del] best_index.simps [simp del] next_level.simps [simp del]

section \<open>Shape\<close>

abbreviation ticks :: "book \<Rightarrow> nat" where
  "ticks b \<equiv> pd_tick_count (ob_domain b)"

abbreviation slots :: "book \<Rightarrow> nat" where
  "slots b \<equiv> ar_capacity (ob_arena b)"

definition arrays_ok :: "book \<Rightarrow> bool" where
  "arrays_ok b \<longleftrightarrow> length (ob_trader_ids b) = slots b \<and> length (ob_display_quantities b) = slots b \<and>
     length (ob_displayed_remaining b) = slots b \<and> length (ob_stop_trigger_prices b) = slots b \<and>
     length (ob_stop_limit_prices b) = slots b \<and> length (ob_stop_prev b) = slots b \<and>
     length (ob_stop_next b) = slots b \<and> length (ob_stop_activations b) = slots b \<and>
     length (ob_trade_report_indices b) = slots b \<and> length (ob_trade_report_epochs b) = slots b \<and>
     length (ob_visit_marks b) = slots b"

text \<open>The part of the invariant that no operation changes: sizes, configuration, well-formed parts.\<close>

definition book_shape :: "book \<Rightarrow> bool" where
  "book_shape b \<longleftrightarrow> domain_ok (ob_domain b) \<and> ticks b \<le> kMaximumPriceLevels \<and>
     0 < ob_max_quantity b \<and> unat (ob_max_quantity b) \<le> kUint32Max \<and>
     length (ob_bids b) = ticks b \<and> length (ob_asks b) = ticks b \<and>
     (\<forall>s. bm_inv (occupancy b s) \<and> bm_bit_count (occupancy b s) = ticks b) \<and>
     arena_ok (ob_arena b) \<and> arrays_ok b"

lemma arrays_ok_frame [simp]:
  "arrays_ok (upd_level b s l f) = arrays_ok b" "arrays_ok (set_occupancy b s m) = arrays_ok b"
  "arrays_ok (upd_order b i g) = arrays_ok b"
  by (simp_all add: arrays_ok_def upd_order_def)

lemma book_shape_upd_level [simp]: "book_shape (upd_level b s l f) = book_shape b"
  by (simp add: book_shape_def)

lemma book_shape_upd_order [simp]: "book_shape (upd_order b i f) = book_shape b"
  by (simp add: book_shape_def) (simp add: upd_order_def)

lemma book_shape_set_occupancy:
  "book_shape b \<Longrightarrow> bm_inv m \<Longrightarrow> bm_bit_count m = ticks b \<Longrightarrow> book_shape (set_occupancy b s m)"
  by (simp add: book_shape_def)

lemma level_upd_level:
  "book_shape b \<Longrightarrow> l < ticks b \<Longrightarrow>
     level (upd_level b s l f) s' l' = (if s' = s \<and> l' = l then f (level b s l) else level b s' l')"
  by (cases s; cases s') (auto simp: book_shape_def level.simps upd_level.simps)

lemma bk_order_upd_order:
  "book_shape b \<Longrightarrow> i < slots b \<Longrightarrow>
     bk_order (upd_order b i f) j = (if j = i then f (bk_order b i) else bk_order b j)"
  by (simp add: bk_order_def upd_order_def order_at_set_order_at book_shape_def)

lemma slots_frame [simp]: "slots (upd_order b i f) = slots b"
  by (simp add: upd_order_def)

lemma live_set_upd_order [simp]: "live_set (ob_arena (upd_order b i f)) = live_set (ob_arena b)"
  by (simp add: upd_order_def)

lemma handle_at_upd_order [simp]: "handle_at (ob_arena (upd_order b i f)) j = handle_at (ob_arena b) j"
  by (simp add: upd_order_def)

lemma shape_ticks: "book_shape b \<Longrightarrow> l < ticks b \<Longrightarrow> l < 2 ^ 31"
  by (simp add: book_shape_def kMaximumPriceLevels_def)

lemma shape_slots: "book_shape b \<Longrightarrow> i < slots b \<Longrightarrow> i \<noteq> kInvalidIndex"
  using arena_index_valid by (auto simp: book_shape_def)

lemma shape_arena [simp, dest]: "book_shape b \<Longrightarrow> arena_ok (ob_arena b)"
  by (simp add: book_shape_def)

lemma shape_arrays: "book_shape b \<Longrightarrow> arrays_ok b"
  by (simp add: book_shape_def)

lemma shape_occ: "book_shape b \<Longrightarrow> bm_inv (occupancy b s)" "book_shape b \<Longrightarrow> bm_bit_count (occupancy b s) = ticks b"
  by (simp_all add: book_shape_def)

section \<open>Representation\<close>

abbreviation o_prev :: "book \<Rightarrow> nat \<Rightarrow> nat" where
  "o_prev b i \<equiv> ord_prev (bk_order b i)"

abbreviation o_next :: "book \<Rightarrow> nat \<Rightarrow> nat" where
  "o_next b i \<equiv> ord_next (bk_order b i)"

abbreviation o_rem :: "book \<Rightarrow> nat \<Rightarrow> u64" where
  "o_rem b i \<equiv> ord_remaining (bk_order b i)"

abbreviation o_disp :: "book \<Rightarrow> nat \<Rightarrow> u64" where
  "o_disp b i \<equiv> ob_displayed_remaining b ! i"

abbreviation o_peak :: "book \<Rightarrow> nat \<Rightarrow> u64" where
  "o_peak b i \<equiv> ob_display_quantities b ! i"

definition active_ok :: "book \<Rightarrow> side \<Rightarrow> nat \<Rightarrow> nat \<Rightarrow> bool" where
  "active_ok b s l i \<longleftrightarrow> ord_encoded (bk_order b i) = encode_level_side l s \<and> ord_flags (bk_order b i) = 0 \<and>
     o_rem b i \<noteq> 0 \<and> o_rem b i \<le> ob_max_quantity b \<and>
     o_disp b i \<noteq> 0 \<and> o_disp b i \<le> o_peak b i \<and> o_disp b i \<le> o_rem b i"

definition level_rep :: "book \<Rightarrow> side \<Rightarrow> nat \<Rightarrow> nat list \<Rightarrow> bool" where
  "level_rep b s l q \<longleftrightarrow>
     dll (o_prev b) (o_next b) (pl_head (level b s l)) (pl_tail (level b s l)) q \<and>
     pl_count (level b s l) = word_of_nat (length q) \<and>
     pl_aggregate (level b s l) = sum_list (map (o_rem b) q) \<and>
     (\<forall>i \<in> set q. active_ok b s l i)"

definition stop_ok :: "book \<Rightarrow> nat \<Rightarrow> bool" where
  "stop_ok b i \<longleftrightarrow> ord_flags (bk_order b i) \<in> {kOrderFlagDormantStop, kOrderFlagDormantStop OR kOrderFlagStopMarket} \<and>
     o_rem b i \<noteq> 0 \<and> o_rem b i \<le> ob_max_quantity b \<and>
     (is_stop_market (bk_order b i) \<or> index_of (ob_domain b) (ob_stop_limit_prices b ! i) \<noteq> None)"

definition stop_rep :: "book \<Rightarrow> nat list \<Rightarrow> bool" where
  "stop_rep b S \<longleftrightarrow> dll ((!) (ob_stop_prev b)) ((!) (ob_stop_next b)) (ob_stop_head b) (ob_stop_tail b) S \<and>
     ob_dormant_stop_count b = length S \<and> (\<forall>i \<in> set S. stop_ok b i)"

type_synonym queues = "side \<Rightarrow> nat \<Rightarrow> nat list"

definition queued :: "queues \<Rightarrow> nat set" where
  "queued Q = {i. \<exists>s l. i \<in> set (Q s l)}"

definition setq :: "queues \<Rightarrow> side \<Rightarrow> nat \<Rightarrow> nat list \<Rightarrow> queues" where
  "setq Q s l q = Q(s := (Q s)(l := q))"

text \<open>
  \<open>book_rep b Q S X\<close>: the price queues are \<open>Q\<close>, the dormant stops \<open>S\<close>, and the live slots of \<open>X\<close> are in
  neither (the stop an activation has detached; empty between operations).
\<close>

definition book_rep :: "book \<Rightarrow> queues \<Rightarrow> nat list \<Rightarrow> nat set \<Rightarrow> bool" where
  "book_rep b Q S X \<longleftrightarrow> book_shape b \<and>
     (\<forall>s l. l < ticks b \<longrightarrow> level_rep b s l (Q s l)) \<and> (\<forall>s l. ticks b \<le> l \<longrightarrow> Q s l = []) \<and>
     stop_rep b S \<and> (\<forall>s. bm_elems (occupancy b s) = {l. Q s l \<noteq> []}) \<and>
     live_set (ob_arena b) = queued Q \<union> set S \<union> X \<and> X \<inter> (queued Q \<union> set S) = {}"

lemma setq_apply [simp]: "setq Q s l q s' l' = (if s' = s \<and> l' = l then q else Q s' l')"
  by (simp add: setq_def)

lemma setq_same [simp]: "setq Q s l (Q s l) = Q"
  by (simp add: setq_def)

lemma queued_memI: "i \<in> set (Q s l) \<Longrightarrow> i \<in> queued Q"
  by (auto simp: queued_def)

lemma rep_shape [dest]: "book_rep b Q S X \<Longrightarrow> book_shape b"
  by (simp add: book_rep_def)

lemma rep_level: "book_rep b Q S X \<Longrightarrow> l < ticks b \<Longrightarrow> level_rep b s l (Q s l)"
  by (simp add: book_rep_def)

lemma rep_mem_level: "book_rep b Q S X \<Longrightarrow> i \<in> set (Q s l) \<Longrightarrow> l < ticks b"
  by (auto simp: book_rep_def not_le [symmetric])

lemma rep_active: "book_rep b Q S X \<Longrightarrow> i \<in> set (Q s l) \<Longrightarrow> active_ok b s l i"
  using rep_mem_level [of b Q S X i s l] by (auto simp: book_rep_def level_rep_def)

lemma rep_live: "book_rep b Q S X \<Longrightarrow> i \<in> queued Q \<union> set S \<union> X \<longleftrightarrow> i \<in> live_set (ob_arena b)"
  by (simp add: book_rep_def)

lemma rep_slot: "book_rep b Q S X \<Longrightarrow> i \<in> queued Q \<union> set S \<union> X \<Longrightarrow> i < slots b"
  using live_set_bound [of i "ob_arena b"] by (simp add: book_rep_def)

lemma rep_slot_q: "book_rep b Q S X \<Longrightarrow> i \<in> set (Q s l) \<Longrightarrow> i < slots b"
  by (rule rep_slot) (auto simp: queued_def)

lemma active_decode:
  "active_ok b s l i \<Longrightarrow> book_shape b \<Longrightarrow> l < ticks b \<Longrightarrow>
     decode_side (ord_encoded (bk_order b i)) = s \<and> decode_level (ord_encoded (bk_order b i)) = l"
  using shape_ticks [of b l] by (simp add: active_ok_def)

lemma rep_disjoint:
  assumes "book_rep b Q S X" "i \<in> set (Q s l)" "i \<in> set (Q s' l')"
  shows "s = s' \<and> l = l'"
  using active_decode [OF rep_active [OF assms(1,2)]] active_decode [OF rep_active [OF assms(1,3)]]
    rep_mem_level [OF assms(1,2)] rep_mem_level [OF assms(1,3)] rep_shape [OF assms(1)] by auto

lemma stop_not_active: "stop_ok b i \<Longrightarrow> \<not> active_ok b s l i"
  by (auto simp: stop_ok_def active_ok_def kOrderFlagDormantStop_def kOrderFlagStopMarket_def)

lemma rep_stop: "book_rep b Q S X \<Longrightarrow> i \<in> set S \<Longrightarrow> stop_ok b i"
  by (simp add: book_rep_def stop_rep_def)

lemma rep_stop_disjoint: "book_rep b Q S X \<Longrightarrow> i \<in> set S \<Longrightarrow> i \<notin> set (Q s l)"
  using stop_not_active rep_stop rep_active by blast

lemma is_dormant_active: "active_ok b s l i \<Longrightarrow> \<not> is_dormant (bk_order b i)"
  by (simp add: active_ok_def is_dormant_def)

lemma is_dormant_stop: "stop_ok b i \<Longrightarrow> is_dormant (bk_order b i)"
  by (auto simp: stop_ok_def is_dormant_def kOrderFlagDormantStop_def kOrderFlagStopMarket_def)

section \<open>Frame rules\<close>

lemma active_ok_cong:
  "bk_order b' i = bk_order b i \<Longrightarrow> o_disp b' i = o_disp b i \<Longrightarrow> o_peak b' i = o_peak b i \<Longrightarrow>
     ob_max_quantity b' = ob_max_quantity b \<Longrightarrow> active_ok b' s l i = active_ok b s l i"
  by (simp add: active_ok_def)

lemma level_rep_cong:
  assumes "level b' s l = level b s l" "ob_max_quantity b' = ob_max_quantity b"
    and "\<And>i. i \<in> set q \<Longrightarrow> bk_order b' i = bk_order b i \<and> o_disp b' i = o_disp b i \<and> o_peak b' i = o_peak b i"
  shows "level_rep b' s l q = level_rep b s l q"
proof -
  have "dll (o_prev b') (o_next b') h t q = dll (o_prev b) (o_next b) h t q" for h t
    by (rule dll_cong) (use assms(3) in auto)
  moreover have "sum_list (map (o_rem b') q) = sum_list (map (o_rem b) q)"
    using assms(3) by (metis (no_types, lifting) map_eq_conv)
  moreover have "(\<forall>i \<in> set q. active_ok b' s l i) = (\<forall>i \<in> set q. active_ok b s l i)"
    using assms(2,3) active_ok_cong by blast
  ultimately show ?thesis by (simp add: level_rep_def assms(1))
qed

lemma stop_ok_cong:
  "bk_order b' i = bk_order b i \<Longrightarrow> ob_stop_limit_prices b' ! i = ob_stop_limit_prices b ! i \<Longrightarrow>
     ob_max_quantity b' = ob_max_quantity b \<Longrightarrow> ob_domain b' = ob_domain b \<Longrightarrow> stop_ok b' i = stop_ok b i"
  by (simp add: stop_ok_def)

lemma stop_rep_cong:
  assumes "ob_stop_head b' = ob_stop_head b" "ob_stop_tail b' = ob_stop_tail b"
    "ob_dormant_stop_count b' = ob_dormant_stop_count b"
    "ob_max_quantity b' = ob_max_quantity b" "ob_domain b' = ob_domain b"
    and "\<And>i. i \<in> set S \<Longrightarrow> bk_order b' i = bk_order b i \<and> ob_stop_limit_prices b' ! i = ob_stop_limit_prices b ! i \<and>
      ob_stop_prev b' ! i = ob_stop_prev b ! i \<and> ob_stop_next b' ! i = ob_stop_next b ! i"
  shows "stop_rep b' S = stop_rep b S"
proof -
  have "dll ((!) (ob_stop_prev b')) ((!) (ob_stop_next b')) h t S =
      dll ((!) (ob_stop_prev b)) ((!) (ob_stop_next b)) h t S" for h t
    by (rule dll_cong) (use assms(6) in auto)
  moreover have "(\<forall>i \<in> set S. stop_ok b' i) = (\<forall>i \<in> set S. stop_ok b i)"
    using assms(4-6) stop_ok_cong by blast
  ultimately show ?thesis by (simp add: stop_rep_def assms(1-3))
qed

text \<open>A change confined to one price level, its orders and slots in no queue.\<close>

lemma rep_change_level:
  assumes rep: "book_rep b Q S X" and shape: "book_shape b'"
    and cfg: "ob_domain b' = ob_domain b" "ob_max_quantity b' = ob_max_quantity b"
    and l: "l < ticks b" and lr: "level_rep b' s l q'"
    and other: "\<And>s' l'. \<not> (s' = s \<and> l' = l) \<Longrightarrow> level b' s' l' = level b s' l'"
    and same: "\<And>i. i \<in> queued Q \<union> set S \<Longrightarrow> i \<notin> set (Q s l) \<Longrightarrow>
      bk_order b' i = bk_order b i \<and> o_disp b' i = o_disp b i \<and> o_peak b' i = o_peak b i"
    and stops: "ob_stop_head b' = ob_stop_head b" "ob_stop_tail b' = ob_stop_tail b"
      "ob_dormant_stop_count b' = ob_dormant_stop_count b"
      "\<And>i. i \<in> set S \<Longrightarrow> ob_stop_limit_prices b' ! i = ob_stop_limit_prices b ! i \<and>
         ob_stop_prev b' ! i = ob_stop_prev b ! i \<and> ob_stop_next b' ! i = ob_stop_next b ! i"
    and occ: "\<And>s'. s' \<noteq> s \<Longrightarrow> bm_elems (occupancy b' s') = bm_elems (occupancy b s')"
      "bm_elems (occupancy b' s) = (if q' = [] then bm_elems (occupancy b s) - {l} else insert l (bm_elems (occupancy b s)))"
    and live: "live_set (ob_arena b') = queued (setq Q s l q') \<union> set S \<union> X'"
      "X' \<inter> (queued (setq Q s l q') \<union> set S) = {}"
  shows "book_rep b' (setq Q s l q') S X'"
  unfolding book_rep_def
proof (intro conjI allI impI)
  fix s' l'
  assume l': "l' < ticks b'"
  show "level_rep b' s' l' (setq Q s l q' s' l')"
  proof (cases "s' = s \<and> l' = l")
    case False
    have "level_rep b' s' l' (Q s' l') = level_rep b s' l' (Q s' l')"
    proof (rule level_rep_cong)
      fix i assume i: "i \<in> set (Q s' l')"
      then have "i \<notin> set (Q s l)" using rep_disjoint [OF rep] False by blast
      then show "bk_order b' i = bk_order b i \<and> o_disp b' i = o_disp b i \<and> o_peak b' i = o_peak b i"
        using same i by (auto simp: queued_def)
    qed (use other False cfg in auto)
    then show ?thesis using False rep_level [OF rep] l' cfg by auto
  qed (use lr in simp)
next
  show "stop_rep b' S"
  proof (subst stop_rep_cong [of b' b])
    show "stop_rep b S" using rep by (simp add: book_rep_def)
  qed (use stops cfg same rep_stop_disjoint [OF rep] in auto)
next
  fix s'
  show "bm_elems (occupancy b' s') = {l'. setq Q s l q' s' l' \<noteq> []}"
    using occ rep by (cases "s' = s") (auto simp: book_rep_def)
next
  fix s' l'
  assume "ticks b' \<le> l'"
  then show "setq Q s l q' s' l' = []" using rep cfg l by (auto simp: book_rep_def)
qed (use shape live in auto)

text \<open>A change that no queue sees.\<close>

lemma rep_same:
  assumes rep: "book_rep b Q S X" and shape: "book_shape b'"
    and "ob_domain b' = ob_domain b" "ob_max_quantity b' = ob_max_quantity b"
    and "\<And>s' l'. level b' s' l' = level b s' l'" "\<And>s'. occupancy b' s' = occupancy b s'"
    and "\<And>i. bk_order b' i = bk_order b i" "ob_displayed_remaining b' = ob_displayed_remaining b"
      "ob_display_quantities b' = ob_display_quantities b"
    and "ob_stop_head b' = ob_stop_head b" "ob_stop_tail b' = ob_stop_tail b"
      "ob_dormant_stop_count b' = ob_dormant_stop_count b"
      "ob_stop_limit_prices b' = ob_stop_limit_prices b"
      "ob_stop_prev b' = ob_stop_prev b" "ob_stop_next b' = ob_stop_next b"
    and "live_set (ob_arena b') = live_set (ob_arena b)"
  shows "book_rep b' Q S X"
proof -
  have "level_rep b' s l q = level_rep b s l q" for s l q
    by (rule level_rep_cong) (use assms in auto)
  moreover have "stop_rep b' S = stop_rep b S" by (rule stop_rep_cong) (use assms in auto)
  ultimately show ?thesis using assms by (simp add: book_rep_def)
qed

end
