(* ===== verification/Order_Book_Queue.thy ===== *)
theory Order_Book_Queue
  imports Order_Book_Rep
begin

text \<open>How the queue primitives of the order book act on the queues a book represents.\<close>

section \<open>Makers\<close>

text \<open>What matching sees of a resting order.\<close>

record maker =
  mk_slot :: nat
  mk_id :: order_id
  mk_trader :: trader_id
  mk_rem :: u64
  mk_disp :: u64
  mk_peak :: u64

definition maker_of :: "book \<Rightarrow> nat \<Rightarrow> maker" where
  "maker_of b i = \<lparr>mk_slot = i, mk_id = ord_id (bk_order b i), mk_trader = ob_trader_ids b ! i,
     mk_rem = o_rem b i, mk_disp = o_disp b i, mk_peak = o_peak b i\<rparr>"

lemma bk_order_upd_order_cases:
  "bk_order (upd_order b i f) j = f (bk_order b i) \<and> j = i \<or> bk_order (upd_order b i f) j = bk_order b j"
  by (cases "i < length (ar_slots (ob_arena b))")
    (auto simp: bk_order_def upd_order_def order_at_def set_order_at_def nth_list_update list_update_beyond)

lemma maker_of_link [simp]:
  "maker_of (upd_order b i (\<lambda>y. y\<lparr>ord_next := n\<rparr>)) j = maker_of b j"
  "maker_of (upd_order b i (\<lambda>y. y\<lparr>ord_prev := p\<rparr>)) j = maker_of b j"
  "maker_of (upd_order b i (\<lambda>y. y\<lparr>ord_prev := p, ord_next := n\<rparr>)) j = maker_of b j"
  using bk_order_upd_order_cases [of b i "\<lambda>y. y\<lparr>ord_next := n\<rparr>" j]
    bk_order_upd_order_cases [of b i "\<lambda>y. y\<lparr>ord_prev := p\<rparr>" j]
    bk_order_upd_order_cases [of b i "\<lambda>y. y\<lparr>ord_prev := p, ord_next := n\<rparr>" j]
  by (auto simp: maker_of_def)

lemma maker_of_frame [simp]:
  "maker_of (upd_level b s l f) j = maker_of b j" "maker_of (set_occupancy b s m) j = maker_of b j"
  "maker_of (release_slot b h) j = maker_of b j"
  by (simp_all add: maker_of_def)

lemma maker_of_unlink [simp]: "maker_of (unlink b h r) j = maker_of b j"
  by (simp add: unlink_def Let_def)

lemma maker_of_move_to_tail [simp]: "maker_of (move_to_tail b i) j = maker_of b j"
  by (simp add: move_to_tail_def Let_def)

lemma maker_of_link_at_tail [simp]: "maker_of (link_at_tail b i s l r) j = maker_of b j"
  by (simp add: link_at_tail_def Let_def)

section \<open>Fields that stay\<close>

text \<open>The configuration and the reporting state, which the queue primitives leave alone.\<close>

definition same_env :: "book \<Rightarrow> book \<Rightarrow> bool" where
  "same_env b b' \<longleftrightarrow> ob_domain b' = ob_domain b \<and> ob_max_quantity b' = ob_max_quantity b \<and>
     ob_self_trade_policy b' = ob_self_trade_policy b \<and> ob_allocation_mode b' = ob_allocation_mode b \<and>
     ob_pro_rata_minimum b' = ob_pro_rata_minimum b \<and> ob_trading_state b' = ob_trading_state b \<and>
     slots b' = slots b"

definition same_report :: "book \<Rightarrow> book \<Rightarrow> bool" where
  "same_report b b' \<longleftrightarrow> ob_trade_report_indices b' = ob_trade_report_indices b \<and>
     ob_trade_report_epochs b' = ob_trade_report_epochs b \<and>
     ob_trade_report_epoch b' = ob_trade_report_epoch b \<and>
     ob_last_execution_price b' = ob_last_execution_price b \<and>
     ob_stop_activations b' = ob_stop_activations b \<and>
     ob_stop_activation_count b' = ob_stop_activation_count b \<and>
     ob_visit_marks b' = ob_visit_marks b \<and> ob_visit_epoch b' = ob_visit_epoch b"

definition same_stops :: "book \<Rightarrow> book \<Rightarrow> bool" where
  "same_stops b b' \<longleftrightarrow> ob_stop_head b' = ob_stop_head b \<and> ob_stop_tail b' = ob_stop_tail b \<and>
     ob_dormant_stop_count b' = ob_dormant_stop_count b \<and> ob_stop_prev b' = ob_stop_prev b \<and>
     ob_stop_next b' = ob_stop_next b \<and> ob_stop_limit_prices b' = ob_stop_limit_prices b \<and>
     ob_stop_trigger_prices b' = ob_stop_trigger_prices b"

lemma slots_release_slot [simp]: "slots (release_slot b h) = slots b"
  by (simp add: release_slot_def release_def Let_def)

lemma same_env_refl [simp]: "same_env b b" and same_report_refl [simp]: "same_report b b"
  and same_stops_refl [simp]: "same_stops b b"
  by (simp_all add: same_env_def same_report_def same_stops_def)

lemma same_env_trans [trans]: "same_env a b \<Longrightarrow> same_env b c \<Longrightarrow> same_env a c"
  by (simp add: same_env_def)

lemma same_report_trans [trans]: "same_report a b \<Longrightarrow> same_report b c \<Longrightarrow> same_report a c"
  by (simp add: same_report_def)

lemma same_stops_trans [trans]: "same_stops a b \<Longrightarrow> same_stops b c \<Longrightarrow> same_stops a c"
  by (simp add: same_stops_def)

lemma unlink_same [simp]:
  "same_env b (unlink b h r)" "same_report b (unlink b h r)" "same_stops b (unlink b h r)"
  by (simp_all add: same_env_def same_report_def same_stops_def unlink_def Let_def)

lemma move_to_tail_same [simp]:
  "same_env b (move_to_tail b i)" "same_report b (move_to_tail b i)" "same_stops b (move_to_tail b i)"
  by (simp_all add: same_env_def same_report_def same_stops_def move_to_tail_def Let_def)

lemma link_at_tail_same [simp]:
  "same_env b (link_at_tail b i s l r)" "same_report b (link_at_tail b i s l r)"
  "same_stops b (link_at_tail b i s l r)"
  by (simp_all add: same_env_def same_report_def same_stops_def link_at_tail_def Let_def)

section \<open>Unlinking\<close>

text \<open>The queues other than that of one level.\<close>

definition queued_except :: "queues \<Rightarrow> side \<Rightarrow> nat \<Rightarrow> nat set" where
  "queued_except Q s l = {i. \<exists>s' l'. \<not> (s' = s \<and> l' = l) \<and> i \<in> set (Q s' l')}"

lemma queued_setq: "queued (setq Q s l q) = set q \<union> queued_except Q s l"
  by (auto simp: queued_def queued_except_def split: if_splits)

lemma queued_split: "queued Q = set (Q s l) \<union> queued_except Q s l"
  using queued_setq [of Q s l "Q s l"] by simp

lemma queued_except_disjoint:
  "book_rep b Q S X \<Longrightarrow> i \<in> set (Q s l) \<Longrightarrow> i \<notin> queued_except Q s l"
  using rep_disjoint by (fastforce simp: queued_except_def)

lemma rep_floating: "book_rep b Q S X \<Longrightarrow> i \<in> X \<Longrightarrow> i \<notin> set (Q s l) \<and> i \<notin> set S"
  by (auto simp: book_rep_def dest: queued_memI)

lemma word_count_zero:
  assumes "n \<le> kUint32Max" shows "(word_of_nat n :: u32) = 0 \<longleftrightarrow> n = 0"
proof -
  have u: "unat (word_of_nat n :: u32) = n" using assms by (intro unat_of_nat_u32) (simp add: kUint32Max_def)
  have "(word_of_nat n :: u32) = 0 \<longleftrightarrow> unat (word_of_nat n :: u32) = 0" by (simp only: unat_eq_zero)
  then show ?thesis unfolding u .
qed

lemma queue_length:
  assumes "book_rep b Q S X" shows "length (Q s l) \<le> slots b"
proof (cases "l < ticks b")
  case True
  have "distinct (Q s l)" using rep_level [OF assms True] by (auto simp: level_rep_def dest: dll_distinct)
  moreover have "set (Q s l) \<subseteq> {..<slots b}" using rep_slot_q [OF assms] by blast
  ultimately show ?thesis using card_mono [of "{..<slots b}" "set (Q s l)"] by (simp add: distinct_card)
next
  case False
  then show ?thesis using assms by (simp add: book_rep_def)
qed

lemma shape_slots_max: "book_shape b \<Longrightarrow> slots b \<le> kUint32Max"
  by (auto simp: book_shape_def arena_ok_def)


text \<open>
  Unlinking slot \<open>i\<close> from the middle of its queue.  The caller may have lowered the level's aggregate
  and the slot's displayed quantity first, as an execution does.
\<close>

lemma unlink_links:
  fixes r :: u64
  assumes shape: "book_shape b" and l: "l < ticks b"
    and d: "dll (o_prev b) (o_next b) (pl_head (level b s l)) (pl_tail (level b s l)) (xs @ i # ys)"
    and bound: "\<forall>j \<in> set (xs @ i # ys). j < slots b"
    and enc: "decode_side (ord_encoded (bk_order b i)) = s" "decode_level (ord_encoded (bk_order b i)) = l"
    and h: "h_index h = i"
  defines "b' \<equiv> unlink b h r"
  shows "dll (o_prev b') (o_next b') (pl_head (level b' s l)) (pl_tail (level b' s l)) (xs @ ys)"
    and "pl_count (level b' s l) = pl_count (level b s l) - 1"
    and "pl_aggregate (level b' s l) = pl_aggregate (level b s l) - r"
    and "\<not> (s' = s \<and> l' = l) \<Longrightarrow> level b' s' l' = level b s' l'"
    and "bk_order b' j = (bk_order b j)\<lparr>ord_prev := o_prev b' j, ord_next := o_next b' j\<rparr>"
    and "j \<notin> set (xs @ ys) \<Longrightarrow> bk_order b' j = bk_order b j"
    and "occupancy b' s' = (if s' = s \<and> pl_count (level b s l) - 1 = 0
           then snd (bm_clear (occupancy b s) l) else occupancy b s')"
proof -
  let ?K = kInvalidIndex
  let ?p = "o_prev b i" and ?n = "o_next b i"
  have pn: "?p = last (?K # xs)" "?n = hd (ys @ [?K])" using dll_links [OF d] by simp_all
  have p: "?p \<noteq> ?K \<Longrightarrow> ?p < slots b \<and> ?p \<in> set (xs @ ys)" using pn(1) bound by (auto split: if_splits)
  have n: "?n \<noteq> ?K \<Longrightarrow> ?n < slots b \<and> ?n \<in> set (xs @ ys)" using pn(2) bound by (cases ys) auto
  define b1 where "b1 = (if ?p = ?K then upd_level b s l (\<lambda>pl. pl\<lparr>pl_head := ?n\<rparr>)
                else upd_order b ?p (\<lambda>y. y\<lparr>ord_next := ?n\<rparr>))"
  define b2 where "b2 = (if ?n = ?K then upd_level b1 s l (\<lambda>pl. pl\<lparr>pl_tail := ?p\<rparr>)
                else upd_order b1 ?n (\<lambda>y. y\<lparr>ord_prev := ?p\<rparr>))"
  define b3 where "b3 = upd_level b2 s l (\<lambda>pl. pl\<lparr>pl_aggregate := pl_aggregate pl - r, pl_count := pl_count pl - 1\<rparr>)"
  have b': "b' = release_slot (if pl_count (level b3 s l) = 0
      then set_occupancy b3 s (snd (bm_clear (occupancy b3 s) l)) else b3) h"
    by (simp add: b'_def unlink_def h enc b1_def b2_def b3_def Let_def)
  have sh: "book_shape b1" "book_shape b2" "ticks b1 = ticks b" "ticks b2 = ticks b" "slots b1 = slots b"
    using shape by (auto simp: b1_def b2_def)
  have lv: "level b3 s' l' = (if s' = s \<and> l' = l then
      \<lparr>pl_head = (if ?p = ?K then ?n else pl_head (level b s l)),
       pl_tail = (if ?n = ?K then ?p else pl_tail (level b s l)),
       pl_aggregate = pl_aggregate (level b s l) - r, pl_count = pl_count (level b s l) - 1\<rparr>
      else level b s' l')" for s' l'
    using shape l by (simp add: b3_def b2_def b1_def level_upd_level)
  have ord: "bk_order b' j = (bk_order b j)\<lparr>ord_prev := (if ?n = ?K then o_prev b else (o_prev b)(?n := ?p)) j,
      ord_next := (if ?p = ?K then o_next b else (o_next b)(?p := ?n)) j\<rparr>" for j
  proof -
    have 1: "bk_order b1 j = (bk_order b j)\<lparr>ord_next := (if ?p = ?K then o_next b else (o_next b)(?p := ?n)) j\<rparr>" for j
      using p by (auto simp: b1_def bk_order_upd_order [OF shape])
    have "bk_order b2 j = (bk_order b1 j)\<lparr>ord_prev := (if ?n = ?K then o_prev b else (o_prev b)(?n := ?p)) j\<rparr>"
      using n by (auto simp: b2_def bk_order_upd_order [OF sh(1), unfolded sh(5)] 1)
    then show ?thesis by (simp add: b' b3_def 1)
  qed
  have lvb: "level b' s' l' = level b3 s' l'" for s' l' by (simp add: b')
  have views: "o_prev b' = (if ?n = ?K then o_prev b else (o_prev b)(?n := ?p))"
    "o_next b' = (if ?p = ?K then o_next b else (o_next b)(?p := ?n))" by (auto simp: ord)
  show "dll (o_prev b') (o_next b') (pl_head (level b' s l)) (pl_tail (level b' s l)) (xs @ ys)"
    using dll_remove [OF d] by (simp add: views lvb lv)
  show "pl_count (level b' s l) = pl_count (level b s l) - 1"
    "pl_aggregate (level b' s l) = pl_aggregate (level b s l) - r"
    by (simp_all add: lvb lv)
  show "\<not> (s' = s \<and> l' = l) \<Longrightarrow> level b' s' l' = level b s' l'" by (auto simp: lvb lv)
  show "bk_order b' j = (bk_order b j)\<lparr>ord_prev := o_prev b' j, ord_next := o_next b' j\<rparr>"
    by (simp add: ord)
  show "j \<notin> set (xs @ ys) \<Longrightarrow> bk_order b' j = bk_order b j"
    unfolding ord using p n by auto
  show "occupancy b' s' = (if s' = s \<and> pl_count (level b s l) - 1 = 0
           then snd (bm_clear (occupancy b s) l) else occupancy b s')"
    by (auto simp: b' lv) (simp_all add: b3_def b2_def b1_def)
qed

lemma unlink_arena:
  assumes "book_shape b" "i \<in> live_set (ob_arena b)" "h = handle_at (ob_arena b) i"
  shows "live_set (ob_arena (unlink b h r)) = live_set (ob_arena b) - {i}" "arena_ok (ob_arena (unlink b h r))"
proof -
  have key: "live_set (ob_arena (release_slot c h)) = live_set (ob_arena b) - {i} \<and> arena_ok (ob_arena (release_slot c h))"
    if "arena_ok (ob_arena c)" "live_set (ob_arena c) = live_set (ob_arena b)"
      "handle_at (ob_arena c) i = handle_at (ob_arena b) i" for c
    using release_ok [OF that(1), of i] that assms by (simp add: release_slot_def)
  have "live_set (ob_arena (unlink b h r)) = live_set (ob_arena b) - {i} \<and> arena_ok (ob_arena (unlink b h r))"
    unfolding unlink_def Let_def
    by (rule key) (use assms(1) in \<open>auto simp: upd_order_def dest: shape_arena\<close>)
  then show "live_set (ob_arena (unlink b h r)) = live_set (ob_arena b) - {i}" "arena_ok (ob_arena (unlink b h r))"
    by simp_all
qed

lemma unlink_shape:
  assumes "book_shape b" "l < ticks b" "decode_side (ord_encoded (bk_order b i)) = s"
    "decode_level (ord_encoded (bk_order b i)) = l" "i \<in> live_set (ob_arena b)" "h = handle_at (ob_arena b) i"
  shows "book_shape (unlink b h r)"
proof -
  let ?b = "unlink b h r"
  have occ: "occupancy ?b s' \<in> {occupancy b s', snd (bm_clear (occupancy b s') l)}" for s'
    unfolding unlink_def using assms(3,4,6) by (auto simp: Let_def)
  have "bm_inv (occupancy ?b s') \<and> bm_bit_count (occupancy ?b s') = ticks b" for s'
    using occ [of s'] bm_clear_ok [OF shape_occ(1) [OF assms(1)], of l s'] shape_occ [OF assms(1)] assms(2) by auto
  moreover have "length (ob_bids ?b) = length (ob_bids b)" "length (ob_asks ?b) = length (ob_asks b)"
    by (simp_all add: unlink_def Let_def)
  moreover have "arrays_ok ?b = arrays_ok b"
    using unlink_same(1) [of b h r] by (simp add: arrays_ok_def same_env_def) (simp add: unlink_def Let_def)
  ultimately show ?thesis
    using assms(1) unlink_arena(2) [OF assms(1,5,6), of r] unlink_same(1) [of b h r]
    by (simp add: book_shape_def same_env_def)
qed


lemma upd_level_eqI: "f (level b s l) = g (level b s l) \<Longrightarrow> upd_level b s l f = upd_level b s l g"
  by (cases s) (simp_all add: upd_level.simps level.simps)

lemma upd_level_id: "upd_level b s l (\<lambda>pl. pl\<lparr>pl_aggregate := pl_aggregate (level b s l)\<rparr>) = b"
  by (cases s) (simp_all add: upd_level.simps level.simps)

text \<open>Overwriting the displayed quantity of one slot.\<close>

definition set_disp :: "book \<Rightarrow> nat \<Rightarrow> u64 \<Rightarrow> book" where
  "set_disp b i d = b\<lparr>ob_displayed_remaining := (ob_displayed_remaining b)[i := d]\<rparr>"

lemma set_disp_frame [simp]:
  "level (set_disp b i d) s l = level b s l" "occupancy (set_disp b i d) s = occupancy b s"
  "bk_order (set_disp b i d) = bk_order b" "ob_arena (set_disp b i d) = ob_arena b"
  "ob_display_quantities (set_disp b i d) = ob_display_quantities b"
  "length (ob_displayed_remaining (set_disp b i d)) = length (ob_displayed_remaining b)"
  by (cases s; simp add: set_disp_def level.simps occupancy.simps bk_order_def fun_eq_iff)+

lemma set_disp_same [simp]:
  "same_env b (set_disp b i d)" "same_report b (set_disp b i d)" "same_stops b (set_disp b i d)"
  by (simp_all add: set_disp_def same_env_def same_report_def same_stops_def)

lemma arrays_ok_set_disp [simp]: "arrays_ok (set_disp b i d) = arrays_ok b"
  by (simp add: set_disp_def arrays_ok_def)

lemma book_shape_set_disp [simp]: "book_shape (set_disp b i d) = book_shape b"
proof -
  have "occupancy (set_disp b i d) = occupancy b" by (auto simp: fun_eq_iff)
  then show ?thesis by (simp add: book_shape_def) (simp add: set_disp_def)
qed

lemma ticks_set_disp [simp]: "ob_domain (set_disp b i d) = ob_domain b"
  by (simp add: set_disp_def)

lemma o_disp_set_disp:
  "book_shape b \<Longrightarrow> i < slots b \<Longrightarrow> o_disp (set_disp b i d) j = (if j = i then d else o_disp b j)"
  by (simp add: set_disp_def book_shape_def arrays_ok_def)

lemma same_env_rep:
  "same_env b b' \<Longrightarrow> ob_domain b' = ob_domain b" "same_env b b' \<Longrightarrow> ob_max_quantity b' = ob_max_quantity b"
  by (simp_all add: same_env_def)

lemma same_stops_rep:
  assumes "same_stops b b'"
  shows "ob_stop_head b' = ob_stop_head b" "ob_stop_tail b' = ob_stop_tail b"
      "ob_dormant_stop_count b' = ob_dormant_stop_count b"
      "ob_stop_limit_prices b' ! i = ob_stop_limit_prices b ! i \<and>
         ob_stop_prev b' ! i = ob_stop_prev b ! i \<and> ob_stop_next b' ! i = ob_stop_next b ! i"
  using assms by (simp_all add: same_stops_def)

lemma sum_list_split: "sum_list (map f (xs @ i # ys)) = f i + sum_list (map (f :: nat \<Rightarrow> u64) (xs @ ys))"
  by (simp add: algebra_simps)

lemma unlink_rep:
  assumes rep: "book_rep b0 Q S X" and q: "Q s l = xs @ i # ys"
    and b: "b = set_disp (upd_level b0 s l (\<lambda>pl. pl\<lparr>pl_aggregate := A\<rparr>)) i d"
    and A: "A - r = sum_list (map (o_rem b0) (xs @ ys))"
  shows "book_rep (unlink b (handle_at (ob_arena b) i) r) (setq Q s l (xs @ ys)) S X"
proof -
  have mem: "i \<in> set (Q s l)" using q by simp
  note shape0 = rep_shape [OF rep] and l = rep_mem_level [OF rep mem] and i = rep_slot_q [OF rep mem]
  have shape: "book_shape b" "l < ticks b" using shape0 l by (simp_all add: b)
  have lr: "level_rep b0 s l (xs @ i # ys)" using rep_level [OF rep l, of s] q by simp
  have ordb: "bk_order b = bk_order b0" by (simp add: b)
  have lvb: "level b s' l' = (if s' = s \<and> l' = l then (level b0 s l)\<lparr>pl_aggregate := A\<rparr> else level b0 s' l')" for s' l'
    by (simp add: b level_upd_level [OF shape0 l])
  have dec: "decode_side (ord_encoded (bk_order b i)) = s" "decode_level (ord_encoded (bk_order b i)) = l"
    using active_decode [OF rep_active [OF rep mem] shape0 l] by (simp_all add: ordb)
  have live: "i \<in> live_set (ob_arena b)" using rep_live [OF rep, of i] mem by (auto simp: b queued_def)
  let ?h = "handle_at (ob_arena b) i" let ?b = "unlink b ?h r"
  have d: "dll (o_prev b) (o_next b) (pl_head (level b s l)) (pl_tail (level b s l)) (xs @ i # ys)"
    using lr by (simp add: level_rep_def ordb lvb)
  have bound: "\<forall>j \<in> set (xs @ i # ys). j < slots b"
    using rep_slot_q [OF rep] q by (metis b set_disp_frame(4) upd_level_fields(5))
  note U = unlink_links [OF shape d bound dec handle_at_fields [of "ob_arena b" i], where r = r]
  have dist: "i \<notin> set (xs @ ys)" using dll_distinct [OF d] by simp
  have env: "same_env b0 ?b" "same_stops b0 ?b"
    using unlink_same(1,3) [of b ?h r] by (simp_all add: b same_env_def same_stops_def set_disp_def)
  have disp: "o_disp ?b j = o_disp b0 j \<and> o_peak ?b j = o_peak b0 j" if "j \<noteq> i" for j
  proof -
    have "maker_of ?b j = maker_of b j" by simp
    then show ?thesis using that by (simp add: maker_of_def) (simp add: b set_disp_def)
  qed
  have ordU: "bk_order ?b j = (bk_order b0 j)\<lparr>ord_prev := o_prev ?b j, ord_next := o_next ?b j\<rparr>" for j
    using U(5) [where j = j] by (simp only: ordb)
  have rem: "o_rem ?b j = o_rem b0 j" "ord_encoded (bk_order ?b j) = ord_encoded (bk_order b0 j)"
    "ord_flags (bk_order ?b j) = ord_flags (bk_order b0 j)" for j by (subst ordU, simp)+
  have cnt: "pl_count (level b s l) - 1 = word_of_nat (length (xs @ ys))"
    using lr by (simp add: lvb level_rep_def)
  have cnt0: "pl_count (level b s l) - 1 = 0 \<longleftrightarrow> xs @ ys = []"
    unfolding cnt using word_count_zero [of "length (xs @ ys)"] queue_length [OF rep, of s l] q
      shape_slots_max [OF shape0] by simp
  have occ: "bm_elems (snd (bm_clear (occupancy b0 s) l)) = bm_elems (occupancy b0 s) - {l}"
    using bm_clear_ok(3) [OF shape_occ(1) [OF shape0]] shape_occ(2) [OF shape0] l by simp
  have ins: "insert l (bm_elems (occupancy b0 s)) = bm_elems (occupancy b0 s)"
    using rep q by (auto simp: book_rep_def)
  show ?thesis
  proof (rule rep_change_level [OF rep])
    show "book_shape ?b" by (rule unlink_shape [OF shape dec live refl])
    show "level_rep ?b s l (xs @ ys)"
      unfolding level_rep_def
    proof (intro conjI ballI)
      show "pl_count (level ?b s l) = word_of_nat (length (xs @ ys))" using U(2) cnt by simp
      show "pl_aggregate (level ?b s l) = sum_list (map (o_rem ?b) (xs @ ys))"
        using A by (simp add: U(3) lvb rem)
      fix j assume j: "j \<in> set (xs @ ys)"
      then have "active_ok b0 s l j" "j \<noteq> i" using lr dist by (auto simp: level_rep_def)
      then show "active_ok ?b s l j" using disp [of j] env(1) by (simp add: active_ok_def rem same_env_def)
    qed (rule U(1))
    show "level ?b s' l' = level b0 s' l'" if "\<not> (s' = s \<and> l' = l)" for s' l'
      using U(4) [OF that] that by (auto simp: lvb)
    fix j assume "j \<in> queued Q \<union> set S" "j \<notin> set (Q s l)"
    then have "j \<notin> set (xs @ ys)" "j \<noteq> i" using q by auto
    then show "bk_order ?b j = bk_order b0 j \<and> o_disp ?b j = o_disp b0 j \<and> o_peak ?b j = o_peak b0 j"
      using U(6) [where j = j] disp [of j] by (simp add: ordb)
  next
    fix s' assume "s' \<noteq> s"
    then show "bm_elems (occupancy ?b s') = bm_elems (occupancy b0 s')" by (simp add: U(7)) (simp add: b)
  next
    show "bm_elems (occupancy ?b s) = (if xs @ ys = [] then bm_elems (occupancy b0 s) - {l}
        else insert l (bm_elems (occupancy b0 s)))"
      unfolding U(7) cnt0 ins by (simp add: b occ)
    have "queued Q = insert i (set (xs @ ys)) \<union> queued_except Q s l" using queued_split [of Q s l] q by auto
    moreover have "i \<notin> queued_except Q s l" "i \<notin> set S" "i \<notin> X"
      using queued_except_disjoint [OF rep mem] rep_stop_disjoint [OF rep] mem rep_floating [OF rep]
      by blast+
    ultimately show "live_set (ob_arena ?b) = queued (setq Q s l (xs @ ys)) \<union> set S \<union> X"
      "X \<inter> (queued (setq Q s l (xs @ ys)) \<union> set S) = {}"
      using unlink_arena(1) [OF shape(1) live refl, of r] dist rep
      by (auto simp: book_rep_def queued_setq b)
  qed (use env l same_env_rep same_stops_rep in auto)
qed

end
