(* ===== verification/Order_Book_Rest.thy ===== *)
theory Order_Book_Rest
  imports Order_Book_Queue
begin

text \<open>Moving to the tail, linking at the tail, resting, and changing quantities in place.\<close>

section \<open>Moving to the tail\<close>

lemma move_to_tail_last:
  assumes "dll (o_prev b) (o_next b) (pl_head (level b s l)) (pl_tail (level b s l)) (xs @ [i])"
    "decode_side (ord_encoded (bk_order b i)) = s" "decode_level (ord_encoded (bk_order b i)) = l"
  shows "move_to_tail b i = b"
  using dll_tail_last [OF assms(1)] assms(2,3) by (simp add: move_to_tail_def)

lemma move_to_tail_links:
  assumes shape: "book_shape b" and l: "l < ticks b"
    and d: "dll (o_prev b) (o_next b) (pl_head (level b s l)) (pl_tail (level b s l)) (xs @ i # ys)"
    and bound: "\<forall>j \<in> set (xs @ i # ys). j < slots b" and ys: "ys \<noteq> []"
    and enc: "decode_side (ord_encoded (bk_order b i)) = s" "decode_level (ord_encoded (bk_order b i)) = l"
  defines "b' \<equiv> move_to_tail b i"
  shows "dll (o_prev b') (o_next b') (pl_head (level b' s l)) (pl_tail (level b' s l)) (xs @ ys @ [i])"
    and "pl_count (level b' s l) = pl_count (level b s l)"
    and "pl_aggregate (level b' s l) = pl_aggregate (level b s l)"
    and "\<not> (s' = s \<and> l' = l) \<Longrightarrow> level b' s' l' = level b s' l'"
    and "bk_order b' j = (bk_order b j)\<lparr>ord_prev := o_prev b' j, ord_next := o_next b' j\<rparr>"
    and "j \<notin> set (xs @ i # ys) \<Longrightarrow> bk_order b' j = bk_order b j"
    and "book_shape b'" and "occupancy b' s' = occupancy b s'"
    and "live_set (ob_arena b') = live_set (ob_arena b)"
proof -
  let ?K = kInvalidIndex
  let ?p = "o_prev b i" and ?n = "o_next b i" and ?t = "pl_tail (level b s l)"
  have pn: "?p = last (?K # xs)" "?n = hd (ys @ [?K])" using dll_links [OF d] by simp_all
  have t: "?t = last ys" "?t \<noteq> i" using dll_tail_iff [OF d] ys d by (auto simp: dll_def)
  have p: "?p \<noteq> ?K \<Longrightarrow> ?p < slots b \<and> ?p \<in> set xs" using pn(1) bound by (auto split: if_splits)
  have n: "?n \<noteq> ?K" "?n < slots b" "?n \<in> set ys" using pn(2) bound ys d by (cases ys; auto simp: dll_def)+
  have tb: "?t < slots b" "?t \<in> set ys" "?t \<noteq> ?K" using t bound ys dll_tail_eq [OF d] by auto
  have ib: "i < slots b" "i \<noteq> ?K" "i \<notin> set (xs @ ys)" using bound d by (auto simp: dll_def)
  define b1 where "b1 = (if ?p = ?K then upd_level b s l (\<lambda>pl. pl\<lparr>pl_head := ?n\<rparr>)
                else upd_order b ?p (\<lambda>y. y\<lparr>ord_next := ?n\<rparr>))"
  define b2 where "b2 = upd_order b1 ?n (\<lambda>y. y\<lparr>ord_prev := ?p\<rparr>)"
  define b3 where "b3 = upd_order b2 ?t (\<lambda>y. y\<lparr>ord_next := i\<rparr>)"
  define b4 where "b4 = upd_order b3 i (\<lambda>y. y\<lparr>ord_prev := ?t, ord_next := ?K\<rparr>)"
  have tl: "pl_tail (level b2 s l) = ?t" "pl_tail (level b3 s l) = ?t"
    using shape l by (simp_all add: b3_def b2_def b1_def level_upd_level)
  have b': "b' = upd_level b4 s l (\<lambda>pl. pl\<lparr>pl_tail := i\<rparr>)"
    using t(2) enc shape l
    by (simp add: b'_def move_to_tail_def b4_def b3_def b2_def b1_def Let_def level_upd_level)
  have sh: "book_shape b1" "book_shape b2" "book_shape b3" "book_shape b4" "ticks b4 = ticks b"
    "slots b1 = slots b" "slots b2 = slots b" "slots b3 = slots b"
    using shape by (auto simp: b1_def b2_def b3_def b4_def)
  have lv: "level b' s' l' = (if s' = s \<and> l' = l then
      (level b s l)\<lparr>pl_head := (if ?p = ?K then ?n else pl_head (level b s l)), pl_tail := i\<rparr>
      else level b s' l')" for s' l'
    using shape l by (simp add: b' b4_def b3_def b2_def b1_def level_upd_level)
  have 1: "bk_order b1 j = (bk_order b j)\<lparr>ord_next := (if ?p = ?K then o_next b else (o_next b)(?p := ?n)) j\<rparr>" for j
    using p by (auto simp: b1_def bk_order_upd_order [OF shape])
  have 2: "bk_order b2 j = (bk_order b1 j)\<lparr>ord_prev := ((o_prev b)(?n := ?p)) j\<rparr>" for j
    using n by (auto simp: b2_def bk_order_upd_order [OF sh(1), unfolded sh(6)] 1)
  have 3: "bk_order b3 j = (bk_order b2 j)\<lparr>ord_next := (if j = ?t then i else o_next b2 j)\<rparr>" for j
    using tb by (auto simp: b3_def bk_order_upd_order [OF sh(2), unfolded sh(7)])
  have ord: "bk_order b' j = (bk_order b j)\<lparr>ord_prev := ((o_prev b)(?n := ?p, i := ?t)) j,
      ord_next := ((if ?p = ?K then o_next b else (o_next b)(?p := ?n))(?t := i, i := ?K)) j\<rparr>" for j
    using ib t(2) by (auto simp: b' b4_def bk_order_upd_order [OF sh(3), unfolded sh(8)] 3 2 1)
  have views: "o_prev b' = (o_prev b)(?n := ?p, i := ?t)"
    "o_next b' = (if ?p = ?K then o_next b else (o_next b)(?p := ?n))(?t := i, i := ?K)" by (auto simp: ord)
  have "dll ((o_prev b)(?n := ?p)) (if ?p = ?K then o_next b else (o_next b)(?p := ?n))
      (if ?p = ?K then ?n else pl_head (level b s l)) ?t (xs @ ys)"
    using dll_remove [OF d] n(1) by simp
  from dll_append [OF this ib(3,2)] tb(3)
  show "dll (o_prev b') (o_next b') (pl_head (level b' s l)) (pl_tail (level b' s l)) (xs @ ys @ [i])"
    by (simp add: views lv)
  show "pl_count (level b' s l) = pl_count (level b s l)"
    "pl_aggregate (level b' s l) = pl_aggregate (level b s l)" by (simp_all add: lv)
  show "\<not> (s' = s \<and> l' = l) \<Longrightarrow> level b' s' l' = level b s' l'" by (auto simp: lv)
  show "bk_order b' j = (bk_order b j)\<lparr>ord_prev := o_prev b' j, ord_next := o_next b' j\<rparr>" by (simp add: ord)
  show "j \<notin> set (xs @ i # ys) \<Longrightarrow> bk_order b' j = bk_order b j" unfolding ord using p n tb by auto
  show "book_shape b'" using sh by (simp add: b')
  show "occupancy b' s' = occupancy b s'" "live_set (ob_arena b') = live_set (ob_arena b)"
    by (simp_all add: b' b4_def b3_def b2_def b1_def)
qed

lemma move_to_tail_rep:
  assumes rep: "book_rep b Q S X" and q: "Q s l = xs @ i # ys"
  shows "book_rep (move_to_tail b i) (setq Q s l (xs @ ys @ [i])) S X"
proof -
  have mem: "i \<in> set (Q s l)" using q by simp
  note shape = rep_shape [OF rep] and l = rep_mem_level [OF rep mem]
  have lr: "level_rep b s l (xs @ i # ys)" using rep_level [OF rep l, of s] q by simp
  then have d: "dll (o_prev b) (o_next b) (pl_head (level b s l)) (pl_tail (level b s l)) (xs @ i # ys)"
    by (simp add: level_rep_def)
  have dec: "decode_side (ord_encoded (bk_order b i)) = s" "decode_level (ord_encoded (bk_order b i)) = l"
    using active_decode [OF rep_active [OF rep mem] shape l] by simp_all
  show ?thesis
  proof (cases "ys = []")
    case True
    then have "move_to_tail b i = b" using move_to_tail_last [OF _ dec] d by simp
    then show ?thesis using True rep q by (metis append_Nil setq_same)
  next
    case False
    have bound: "\<forall>j \<in> set (xs @ i # ys). j < slots b" using rep_slot_q [OF rep] q by metis
    note M = move_to_tail_links [OF shape l d bound False dec]
    let ?b = "move_to_tail b i"
    have mk: "maker_of ?b j = maker_of b j" for j by simp
    have disp: "o_disp ?b j = o_disp b j" "o_peak ?b j = o_peak b j" "o_rem ?b j = o_rem b j" for j
      using mk [of j] unfolding maker_of_def by simp_all
    have ordM: "ord_encoded (bk_order ?b j) = ord_encoded (bk_order b j)"
      "ord_flags (bk_order ?b j) = ord_flags (bk_order b j)" for j by (subst M(5), simp)+
    have env: "same_env b ?b" "same_stops b ?b" by simp_all
    show ?thesis
    proof (rule rep_change_level [OF rep M(7)])
      show "level_rep ?b s l (xs @ ys @ [i])"
        unfolding level_rep_def
      proof (intro conjI ballI)
        show "pl_count (level ?b s l) = word_of_nat (length (xs @ ys @ [i]))"
          using lr by (simp add: M(2) level_rep_def)
        show "pl_aggregate (level ?b s l) = sum_list (map (o_rem ?b) (xs @ ys @ [i]))"
          using lr by (simp add: M(3) level_rep_def disp)
        fix j assume "j \<in> set (xs @ ys @ [i])"
        then have "active_ok b s l j" using lr by (auto simp: level_rep_def)
        then show "active_ok ?b s l j" using env(1) by (simp add: active_ok_def disp ordM same_env_def)
      qed (rule M(1))
      show "level ?b s' l' = level b s' l'" if "\<not> (s' = s \<and> l' = l)" for s' l' by (rule M(4) [OF that])
      show "bk_order ?b j = bk_order b j \<and> o_disp ?b j = o_disp b j \<and> o_peak ?b j = o_peak b j"
        if "j \<in> queued Q \<union> set S" "j \<notin> set (Q s l)" for j
        using M(6) [where j = j] that q by (simp add: disp)
      show "bm_elems (occupancy ?b s) = (if xs @ ys @ [i] = [] then bm_elems (occupancy b s) - {l}
          else insert l (bm_elems (occupancy b s)))"
        using rep q by (auto simp: M(8) book_rep_def)
      have "queued (setq Q s l (xs @ ys @ [i])) = queued Q"
        using q by (auto simp: queued_setq queued_split [of Q s l])
      then show "live_set (ob_arena ?b) = queued (setq Q s l (xs @ ys @ [i])) \<union> set S \<union> X"
        "X \<inter> (queued (setq Q s l (xs @ ys @ [i])) \<union> set S) = {}"
        using rep by (auto simp: M(9) book_rep_def)
    qed (use env l M(8) same_env_rep same_stops_rep in auto)
  qed
qed

section \<open>Changing quantities in place\<close>

text \<open>
  The effect shared by a partial execution, an auction reduction and an amendment: the order at slot
  \<open>i\<close> gets the remaining quantity \<open>r\<close> and the displayed quantity \<open>d\<close>, its level the matching aggregate.
\<close>

lemma requantify_rep:
  assumes rep: "book_rep b Q S X" and i: "i \<in> set (Q s l)" and shape: "book_shape b'"
    and env: "same_env b b'" "same_stops b b'"
    and lv: "\<And>s' l'. level b' s' l' = (if s' = s \<and> l' = l
      then (level b s l)\<lparr>pl_aggregate := pl_aggregate (level b s l) - (o_rem b i - r)\<rparr> else level b s' l')"
    and ord: "\<And>j. bk_order b' j = (if j = i then (bk_order b i)\<lparr>ord_remaining := r\<rparr> else bk_order b j)"
    and disp: "\<And>j. o_disp b' j = (if j = i then d else o_disp b j)" "\<And>j. o_peak b' j = o_peak b j"
    and occ: "\<And>s'. occupancy b' s' = occupancy b s'" and live: "live_set (ob_arena b') = live_set (ob_arena b)"
    and r: "r \<noteq> 0" "r \<le> ob_max_quantity b" "d \<noteq> 0" "d \<le> r" "d \<le> o_peak b i"
  shows "book_rep b' Q S X"
proof -
  note l = rep_mem_level [OF rep i]
  have lr: "level_rep b s l (Q s l)" by (rule rep_level [OF rep l])
  obtain xs ys where q: "Q s l = xs @ i # ys" using split_list [OF i] by blast
  have dist: "i \<notin> set xs" "i \<notin> set ys" using lr q by (auto simp: level_rep_def dest!: dll_distinct)
  have sums: "sum_list (map (o_rem b') xs) = sum_list (map (o_rem b) xs)"
      "sum_list (map (o_rem b') ys) = sum_list (map (o_rem b) ys)"
    using dist by (auto simp: ord intro!: arg_cong [where f = sum_list])
  have ri: "o_rem b' i = r" by (simp add: ord)
  have links: "dll (o_prev b') (o_next b') h t (Q s l) = dll (o_prev b) (o_next b) h t (Q s l)" for h t
    by (rule dll_cong) (simp_all add: ord)
  have "book_rep b' (setq Q s l (Q s l)) S X"
  proof (rule rep_change_level [OF rep shape])
    show "level_rep b' s l (Q s l)"
      unfolding level_rep_def
    proof (intro conjI ballI)
      show "pl_aggregate (level b' s l) = sum_list (map (o_rem b') (Q s l))"
        using lr ri by (simp add: lv level_rep_def q sums)
      fix j assume "j \<in> set (Q s l)"
      then have "active_ok b s l j" using lr by (simp add: level_rep_def)
      then show "active_ok b' s l j"
        using env(1) r by (auto simp: active_ok_def ord disp same_env_def)
    qed (use lr in \<open>simp_all add: level_rep_def lv links\<close>)
    show "bk_order b' j = bk_order b j \<and> o_disp b' j = o_disp b j \<and> o_peak b' j = o_peak b j"
      if "j \<in> queued Q \<union> set S" "j \<notin> set (Q s l)" for j
      using that i by (auto simp: ord disp)
    show "bm_elems (occupancy b' s) = (if Q s l = [] then bm_elems (occupancy b s) - {l}
        else insert l (bm_elems (occupancy b s)))"
      using rep q by (auto simp: occ book_rep_def)
    show "live_set (ob_arena b') = queued (setq Q s l (Q s l)) \<union> set S \<union> X"
      "X \<inter> (queued (setq Q s l (Q s l)) \<union> set S) = {}"
      using rep by (auto simp: live book_rep_def)
  qed (use env l lv occ same_env_rep same_stops_rep in auto)
  then show ?thesis by simp
qed

section \<open>Linking at the tail\<close>

text \<open>A floating slot with a fresh order for level \<open>l\<close> becomes the last of its queue.\<close>

lemma link_at_tail_rep:
  assumes rep: "book_rep b Q S X" and i: "i \<in> X" and l: "l < ticks b"
    and new: "o_prev b i = pl_tail (level b s l)" "o_next b i = kInvalidIndex"
      "o_rem b i = r" "active_ok b s l i"
  shows "book_rep (link_at_tail b i s l r) (setq Q s l (Q s l @ [i])) S (X - {i})"
proof -
  let ?K = kInvalidIndex
  let ?t = "pl_tail (level b s l)" and ?b = "link_at_tail b i s l r"
  note shape = rep_shape [OF rep]
  have lr: "level_rep b s l (Q s l)" by (rule rep_level [OF rep l])
  then have d: "dll (o_prev b) (o_next b) (pl_head (level b s l)) ?t (Q s l)" by (simp add: level_rep_def)
  have ib: "i < slots b" "i \<noteq> ?K" "i \<notin> set (Q s l)" "i \<notin> set S"
    using rep_slot [OF rep] shape_slots [OF shape] rep_floating [OF rep i] i by auto
  have tb: "?t \<noteq> ?K \<Longrightarrow> ?t < slots b \<and> ?t \<in> set (Q s l)"
    using d rep_slot_q [OF rep, of ?t s l] by (auto simp: dll_def split: if_splits)
  define b1 where "b1 = (if ?t = ?K
       then set_occupancy (upd_level b s l (\<lambda>pl. pl\<lparr>pl_head := i\<rparr>)) s (snd (bm_set (occupancy b s) l))
       else upd_order b ?t (\<lambda>y. y\<lparr>ord_next := i\<rparr>))"
  have b: "?b = upd_level b1 s l (\<lambda>pl. pl\<lparr>pl_tail := i, pl_aggregate := pl_aggregate pl + r, pl_count := pl_count pl + 1\<rparr>)"
    by (simp add: link_at_tail_def b1_def Let_def)
  note bs = bm_set_ok [OF shape_occ(1) [OF shape], of l s, unfolded shape_occ(2) [OF shape], OF l]
  have sh: "book_shape b1" using shape bs by (auto simp: b1_def intro!: book_shape_set_occupancy)
  have lv: "level ?b s' l' = (if s' = s \<and> l' = l then
      \<lparr>pl_head = (if ?t = ?K then i else pl_head (level b s l)), pl_tail = i,
       pl_aggregate = pl_aggregate (level b s l) + r, pl_count = pl_count (level b s l) + 1\<rparr>
      else level b s' l')" for s' l'
  proof -
    have "ticks b1 = ticks b" by (simp add: b1_def)
    then show ?thesis unfolding b using shape sh l by (simp add: level_upd_level) (simp add: b1_def level_upd_level)
  qed
  have ord: "bk_order ?b j = (bk_order b j)\<lparr>ord_next := (if ?t \<noteq> ?K \<and> j = ?t then i else o_next b j)\<rparr>" for j
    using tb by (auto simp: b b1_def bk_order_upd_order [OF shape])
  have ti: "?t \<noteq> i" using tb ib by auto
  have views: "dll (o_prev ?b) (o_next ?b) h t (Q s l @ [i]) =
      dll ((o_prev b)(i := ?t)) ((if ?t = ?K then o_next b else (o_next b)(?t := i))(i := ?K)) h t (Q s l @ [i])" for h t
    by (rule dll_cong) (use new ti in \<open>auto simp: ord\<close>)
  have mk: "maker_of ?b j = maker_of b j" for j by simp
  have same: "o_disp ?b j = o_disp b j" "o_peak ?b j = o_peak b j" "o_rem ?b j = o_rem b j" for j
    using mk [of j] unfolding maker_of_def by simp_all
  have env: "same_env b ?b" "same_stops b ?b" by simp_all
  have occ: "occupancy ?b s' = (if s' = s \<and> ?t = ?K then snd (bm_set (occupancy b s) l) else occupancy b s')" for s'
    by (simp add: b b1_def)
  have te: "?t = ?K \<longleftrightarrow> Q s l = []" using dll_tail_eq [OF d] .
  show ?thesis
  proof (rule rep_change_level [OF rep])
    show "book_shape ?b" using sh by (simp add: b)
    show "level_rep ?b s l (Q s l @ [i])"
      unfolding level_rep_def
    proof (intro conjI ballI)
      show "dll (o_prev ?b) (o_next ?b) (pl_head (level ?b s l)) (pl_tail (level ?b s l)) (Q s l @ [i])"
        using dll_append [OF d ib(3,2)] by (simp add: views lv)
      show "pl_count (level ?b s l) = word_of_nat (length (Q s l @ [i]))"
        using lr by (simp add: lv level_rep_def)
      show "pl_aggregate (level ?b s l) = sum_list (map (o_rem ?b) (Q s l @ [i]))"
        using lr new by (simp add: lv level_rep_def same)
      fix j assume "j \<in> set (Q s l @ [i])"
      then have "active_ok b s l j" using lr new by (auto simp: level_rep_def)
      then show "active_ok ?b s l j" using env(1) by (simp add: active_ok_def same ord same_env_def)
    qed
    show "level ?b s' l' = level b s' l'" if "\<not> (s' = s \<and> l' = l)" for s' l' using that by (auto simp: lv)
    show "bk_order ?b j = bk_order b j \<and> o_disp ?b j = o_disp b j \<and> o_peak ?b j = o_peak b j"
      if "j \<in> queued Q \<union> set S" "j \<notin> set (Q s l)" for j
      using that tb by (auto simp: ord same)
    show "bm_elems (occupancy ?b s) = (if Q s l @ [i] = [] then bm_elems (occupancy b s) - {l}
        else insert l (bm_elems (occupancy b s)))"
      using rep te bs(3) by (auto simp: occ book_rep_def)
    have "live_set (ob_arena ?b) = live_set (ob_arena b)" by (simp add: b b1_def)
    moreover have "i \<notin> queued_except Q s l" using rep_floating [OF rep i] by (auto simp: queued_except_def)
    ultimately show "live_set (ob_arena ?b) = queued (setq Q s l (Q s l @ [i])) \<union> set S \<union> (X - {i})"
      "(X - {i}) \<inter> (queued (setq Q s l (Q s l @ [i])) \<union> set S) = {}"
      using rep i by (auto simp: book_rep_def queued_setq queued_split [of Q s l])
  qed (use env l occ same_env_rep same_stops_rep in auto)
qed

section \<open>Floating slots\<close>

text \<open>A change to slots that are in no queue.\<close>

lemma rep_frame:
  assumes rep: "book_rep b Q S X" and shape: "book_shape b'" and env: "same_env b b'"
    and lv: "\<And>s l. level b' s l = level b s l" and occ: "\<And>s. occupancy b' s = occupancy b s"
    and stops: "ob_stop_head b' = ob_stop_head b" "ob_stop_tail b' = ob_stop_tail b"
      "ob_dormant_stop_count b' = ob_dormant_stop_count b"
    and same: "\<And>j. j \<in> queued Q \<Longrightarrow> bk_order b' j = bk_order b j \<and> o_disp b' j = o_disp b j \<and> o_peak b' j = o_peak b j"
    and stop: "\<And>j. j \<in> set S \<Longrightarrow> bk_order b' j = bk_order b j \<and>
      ob_stop_limit_prices b' ! j = ob_stop_limit_prices b ! j \<and>
      ob_stop_prev b' ! j = ob_stop_prev b ! j \<and> ob_stop_next b' ! j = ob_stop_next b ! j"
    and live: "live_set (ob_arena b') = queued Q \<union> set S \<union> X'" "X' \<inter> (queued Q \<union> set S) = {}"
  shows "book_rep b' Q S X'"
proof -
  have "level_rep b' s l (Q s l) = level_rep b s l (Q s l)" for s l
    by (rule level_rep_cong) (use lv env same in \<open>auto simp: same_env_def dest: queued_memI\<close>)
  moreover have "stop_rep b' S = stop_rep b S"
    by (rule stop_rep_cong) (use stops stop env in \<open>auto simp: same_env_def\<close>)
  ultimately show ?thesis using rep shape live env occ by (simp add: book_rep_def same_env_def)
qed

lemma set_arena_frame [simp]:
  "level (b\<lparr>ob_arena := ar\<rparr>) s l = level b s l" "occupancy (b\<lparr>ob_arena := ar\<rparr>) s = occupancy b s"
  by (cases s; simp add: level.simps occupancy.simps)+

lemma acquire_rep:
  assumes rep: "book_rep b Q S X" and room: "\<not> arena_exhausted b"
  obtains i ar where "acquire (ob_arena b) x = (\<lparr>acq_handle = handle_at (ob_arena b) i, acq_error = Arena_None\<rparr>, ar)"
    "i < slots b" "i \<notin> live_set (ob_arena b)" "book_rep (b\<lparr>ob_arena := ar\<rparr>) Q S (insert i X)"
    "bk_order (b\<lparr>ob_arena := ar\<rparr>) i = x" "\<And>j. j \<noteq> i \<Longrightarrow> bk_order (b\<lparr>ob_arena := ar\<rparr>) j = bk_order b j"
    "ar_capacity ar = slots b" "\<And>j. handle_at ar j = handle_at (ob_arena b) j"
proof -
  have ok: "arena_ok (ob_arena b)" using rep by blast
  obtain i where i: "i < slots b" "i \<notin> live_set (ob_arena b)"
    "fst (acquire (ob_arena b) x) = \<lparr>acq_handle = handle_at (ob_arena b) i, acq_error = Arena_None\<rparr>"
    "arena_ok (snd (acquire (ob_arena b) x))"
    "live_set (snd (acquire (ob_arena b) x)) = insert i (live_set (ob_arena b))"
    "ar_capacity (snd (acquire (ob_arena b) x)) = slots b"
    "ar_slots (snd (acquire (ob_arena b) x)) =
       (ar_slots (ob_arena b))[i := (ar_slots (ob_arena b) ! i)\<lparr>sl_order := x, sl_live := True\<rparr>]"
    using acquire_ok [OF ok, of x] room by (auto simp: arena_exhausted_def)
  define ar where "ar = snd (acquire (ob_arena b) x)"
  let ?b = "b\<lparr>ob_arena := ar\<rparr>"
  have len: "length (ar_slots (ob_arena b)) = slots b" using ok by (simp add: arena_ok_def)
  have ord: "bk_order ?b j = (if j = i then x else bk_order b j)" for j
    using i(1) by (simp add: bk_order_def order_at_def ar_def i(7) len nth_list_update)
  have notin: "i \<notin> queued Q" "i \<notin> set S" "i \<notin> X" using rep i(2) by (auto simp: book_rep_def)
  have shape: "book_shape ?b"
    using rep_shape [OF rep] i(4,6) by (simp add: book_shape_def arrays_ok_def ar_def)
  have "book_rep ?b Q S (insert i X)"
    by (rule rep_frame [OF rep shape])
      (use rep notin i(5,6) in \<open>auto simp: same_env_def ord book_rep_def i(5,6) [folded ar_def]\<close>)
  moreover have "handle_at ar j = handle_at (ob_arena b) j" for j
    using i(1) by (cases "j = i") (simp_all add: handle_at_def ar_def i(7) len)
  ultimately show ?thesis
    using that [of i ar] i(1,2,3,6) ord by (simp add: ar_def prod_eq_iff)
qed

lemma set_rest_arrays_frame [simp]:
  "level (set_rest_arrays b i tr d) s l = level b s l"
  "occupancy (set_rest_arrays b i tr d) s = occupancy b s"
  "bk_order (set_rest_arrays b i tr d) = bk_order b"
  "ob_arena (set_rest_arrays b i tr d) = ob_arena b"
  by (cases s; simp add: set_rest_arrays_def level.simps occupancy.simps bk_order_def fun_eq_iff)+

lemma set_rest_arrays_env [simp]:
  "same_env b (set_rest_arrays b i tr d)" "same_report b (set_rest_arrays b i tr d)"
  "ob_stop_head (set_rest_arrays b i tr d) = ob_stop_head b"
  "ob_stop_tail (set_rest_arrays b i tr d) = ob_stop_tail b"
  "ob_dormant_stop_count (set_rest_arrays b i tr d) = ob_dormant_stop_count b"
  "ob_domain (set_rest_arrays b i tr d) = ob_domain b"
  "ob_max_quantity (set_rest_arrays b i tr d) = ob_max_quantity b"
  by (simp_all add: set_rest_arrays_def same_env_def same_report_def)

lemma set_rest_arrays_other:
  assumes "j \<noteq> i"
  shows "o_disp (set_rest_arrays b i tr d) j = o_disp b j" "o_peak (set_rest_arrays b i tr d) j = o_peak b j"
    "ob_stop_limit_prices (set_rest_arrays b i tr d) ! j = ob_stop_limit_prices b ! j"
    "ob_stop_prev (set_rest_arrays b i tr d) ! j = ob_stop_prev b ! j"
    "ob_stop_next (set_rest_arrays b i tr d) ! j = ob_stop_next b ! j"
    "ob_stop_trigger_prices (set_rest_arrays b i tr d) ! j = ob_stop_trigger_prices b ! j"
  using assms by (simp_all add: set_rest_arrays_def)

lemma set_rest_arrays_shape [simp]: "book_shape (set_rest_arrays b i tr d) = book_shape b"
proof -
  have "arrays_ok (set_rest_arrays b i tr d) = arrays_ok b" by (simp add: arrays_ok_def set_rest_arrays_def)
  then show ?thesis by (simp add: book_shape_def) (simp add: set_rest_arrays_def)
qed

lemma set_rest_arrays_maker:
  assumes "book_shape b" "i < slots b"
  shows "maker_of (set_rest_arrays b i tr d) j =
    (if j = i then (maker_of b i)\<lparr>mk_trader := tr, mk_disp := d, mk_peak := d\<rparr> else maker_of b j)"
  using assms by (simp add: maker_of_def) (simp add: set_rest_arrays_def book_shape_def arrays_ok_def)

lemma set_rest_arrays_rep:
  assumes rep: "book_rep b Q S X" and i: "i \<in> X"
  shows "book_rep (set_rest_arrays b i tr d) Q S X"
proof -
  have ne: "j \<noteq> i" if "j \<in> queued Q \<or> j \<in> set S" for j using that rep i by (auto simp: book_rep_def)
  show ?thesis
    by (intro rep_frame [OF rep]) (use rep ne in \<open>auto simp: book_rep_def set_rest_arrays_other\<close>)
qed

lemma release_slot_rep:
  assumes rep: "book_rep b Q S X" and i: "i \<in> X"
  shows "book_rep (release_slot b (handle_at (ob_arena b) i)) Q S (X - {i})"
proof -
  have live: "i \<in> live_set (ob_arena b)" using rep i by (simp add: book_rep_def)
  note r = release_ok [OF shape_arena [OF rep_shape [OF rep]] live]
  let ?b = "release_slot b (handle_at (ob_arena b) i)"
  have "book_shape ?b"
    using rep_shape [OF rep] r(1,4) by (simp add: book_shape_def arrays_ok_def) (simp add: release_slot_def)
  moreover have "same_env b ?b" by (simp add: same_env_def)
  moreover have "live_set (ob_arena ?b) = live_set (ob_arena b) - {i}" using r(3) by (simp add: release_slot_def)
  ultimately show ?thesis
    by (intro rep_frame [OF rep]) (use rep i in \<open>auto simp: book_rep_def\<close>)
qed

section \<open>Resting\<close>

lemma link_at_tail_handle [simp]:
  "handle_at (ob_arena (link_at_tail b i s l r)) j = handle_at (ob_arena b) j"
  by (simp add: link_at_tail_def Let_def)

text \<open>The state after a slot that floats is filled with a resting order and linked.\<close>

lemma settle_rep:
  fixes tr :: trader_id
  assumes rep: "book_rep b Q S X" and i: "i \<in> X" and l: "l < ticks b"
    and ord: "bk_order b i = resting_order b0 oid s l r" "level b0 s l = level b s l"
    and r: "r \<noteq> 0" "r \<le> ob_max_quantity b" "d \<noteq> 0" "d \<le> r"
  defines "b' \<equiv> link_at_tail (set_rest_arrays b i tr d) i s l r"
  shows "book_rep b' (setq Q s l (Q s l @ [i])) S (X - {i})" "same_env b b'" "same_report b b'"
    "maker_of b' j = (if j = i then \<lparr>mk_slot = i, mk_id = oid, mk_trader = tr, mk_rem = r, mk_disp = d, mk_peak = d\<rparr>
       else maker_of b j)"
    "handle_at (ob_arena b') j = handle_at (ob_arena b) j"
proof -
  let ?b = "set_rest_arrays b i tr d"
  have ib: "i < slots b" using rep_slot [OF rep] i by simp
  note shape = rep_shape [OF rep]
  have mk: "maker_of ?b j = (if j = i then \<lparr>mk_slot = i, mk_id = oid, mk_trader = tr, mk_rem = r, mk_disp = d, mk_peak = d\<rparr>
       else maker_of b j)" for j
    unfolding set_rest_arrays_maker [OF shape ib] by (simp add: maker_of_def ord resting_order_def)
  have views: "o_disp ?b i = d" "o_peak ?b i = d" using mk [of i] by (simp_all add: maker_of_def)
  show "book_rep b' (setq Q s l (Q s l @ [i])) S (X - {i})"
    unfolding b'_def
    by (rule link_at_tail_rep [OF set_rest_arrays_rep [OF rep i] i])
      (use l r ord views in \<open>simp_all add: resting_order_def active_ok_def\<close>)
  show "same_env b b'" unfolding b'_def by (rule same_env_trans [of _ ?b]) simp_all
  show "same_report b b'" unfolding b'_def by (rule same_report_trans [of _ ?b]) simp_all
  show "maker_of b' j = (if j = i then \<lparr>mk_slot = i, mk_id = oid, mk_trader = tr, mk_rem = r, mk_disp = d, mk_peak = d\<rparr>
       else maker_of b j)"
    by (simp add: b'_def mk)
  show "handle_at (ob_arena b') j = handle_at (ob_arena b) j" by (simp add: b'_def)
qed

lemma rest_rep:
  assumes rep: "book_rep b Q S X" and room: "\<not> arena_exhausted b" and l: "l < ticks b"
    and r: "r \<noteq> 0" "r \<le> ob_max_quantity b" "d \<noteq> 0" "d \<le> r"
  obtains i b' where "rest b oid tr s l r d = ret (handle_at (ob_arena b) i, b')"
    "i < slots b" "i \<notin> live_set (ob_arena b)" "book_rep b' (setq Q s l (Q s l @ [i])) S X"
    "same_env b b'" "same_report b b'"
    "\<And>j. maker_of b' j = (if j = i then \<lparr>mk_slot = i, mk_id = oid, mk_trader = tr, mk_rem = r, mk_disp = d, mk_peak = d\<rparr>
       else maker_of b j)"
    "\<And>j. handle_at (ob_arena b') j = handle_at (ob_arena b) j"
proof -
  obtain i ar where a: "acquire (ob_arena b) (resting_order b oid s l r) =
      (\<lparr>acq_handle = handle_at (ob_arena b) i, acq_error = Arena_None\<rparr>, ar)"
    "i < slots b" "i \<notin> live_set (ob_arena b)" "book_rep (b\<lparr>ob_arena := ar\<rparr>) Q S (insert i X)"
    "bk_order (b\<lparr>ob_arena := ar\<rparr>) i = resting_order b oid s l r"
    "\<And>j. j \<noteq> i \<Longrightarrow> bk_order (b\<lparr>ob_arena := ar\<rparr>) j = bk_order b j"
    "ar_capacity ar = slots b" "\<And>j. handle_at ar j = handle_at (ob_arena b) j"
    by (rule acquire_rep [OF rep room]) blast
  let ?b1 = "b\<lparr>ob_arena := ar\<rparr>"
  define b' where "b' = link_at_tail (set_rest_arrays ?b1 i tr d) i s l r"
  note st = settle_rep [OF a(4) insertI1 _ a(5) _ r(1) _ r(3,4), of tr, folded b'_def]
  have nX: "i \<notin> X" using rep a(3) by (auto simp: book_rep_def)
  have mk: "maker_of ?b1 j = maker_of b j" if "j \<noteq> i" for j using a(6) [OF that] by (simp add: maker_of_def)
  have env: "same_env b ?b1" "same_report b ?b1" using a(7) by (simp_all add: same_env_def same_report_def)
  show ?thesis
  proof (rule that)
    show "rest b oid tr s l r d = ret (handle_at (ob_arena b) i, b')"
      by (simp add: rest_def a(1) b'_def)
    show "book_rep b' (setq Q s l (Q s l @ [i])) S X" using st(1) nX l r by simp
    show "same_env b b'" "same_report b b'"
      using same_env_trans [OF env(1) st(2)] same_report_trans [OF env(2) st(3)] l r by simp_all
    show "maker_of b' j = (if j = i then \<lparr>mk_slot = i, mk_id = oid, mk_trader = tr, mk_rem = r, mk_disp = d, mk_peak = d\<rparr>
       else maker_of b j)" for j
      using st(4) [of j] mk [of j] l r by simp
    show "handle_at (ob_arena b') j = handle_at (ob_arena b) j" for j using st(5) [of j] a(8) l r by simp
  qed (use a in auto)
qed

section \<open>The stop queue\<close>

lemma stop_arrays_frame [simp]:
  "level (b\<lparr>ob_stop_head := h, ob_stop_tail := t, ob_dormant_stop_count := c, ob_stop_prev := p, ob_stop_next := n\<rparr>) s l = level b s l"
  "occupancy (b\<lparr>ob_stop_head := h, ob_stop_tail := t, ob_dormant_stop_count := c, ob_stop_prev := p, ob_stop_next := n\<rparr>) s = occupancy b s"
  "bk_order (b\<lparr>ob_stop_head := h, ob_stop_tail := t, ob_dormant_stop_count := c, ob_stop_prev := p, ob_stop_next := n\<rparr>) = bk_order b"
  by (cases s; simp add: level.simps occupancy.simps bk_order_def fun_eq_iff)+

text \<open>Unlinking a stop is the list removal on the stop links; nothing else changes.\<close>

lemma detach_stop_eq:
  assumes len: "length (ob_stop_prev b) = slots b" "length (ob_stop_next b) = slots b"
    and bound: "ob_stop_prev b ! i \<noteq> kInvalidIndex \<longrightarrow> ob_stop_prev b ! i < slots b"
      "ob_stop_next b ! i \<noteq> kInvalidIndex \<longrightarrow> ob_stop_next b ! i < slots b"
  defines "p \<equiv> ob_stop_prev b ! i" and "n \<equiv> ob_stop_next b ! i"
  obtains P N where
    "detach_stop b i = b\<lparr>ob_stop_head := (if p = kInvalidIndex then n else ob_stop_head b),
       ob_stop_tail := (if n = kInvalidIndex then p else ob_stop_tail b),
       ob_dormant_stop_count := ob_dormant_stop_count b - 1, ob_stop_prev := P, ob_stop_next := N\<rparr>"
    "(!) P = (if n = kInvalidIndex then (!) (ob_stop_prev b) else ((!) (ob_stop_prev b))(n := p))"
    "(!) N = (if p = kInvalidIndex then (!) (ob_stop_next b) else ((!) (ob_stop_next b))(p := n))"
    "length P = slots b" "length N = slots b"
proof
  let ?P = "if n = kInvalidIndex then ob_stop_prev b else (ob_stop_prev b)[n := p]"
  let ?N = "if p = kInvalidIndex then ob_stop_next b else (ob_stop_next b)[p := n]"
  show "detach_stop b i = b\<lparr>ob_stop_head := (if p = kInvalidIndex then n else ob_stop_head b),
       ob_stop_tail := (if n = kInvalidIndex then p else ob_stop_tail b),
       ob_dormant_stop_count := ob_dormant_stop_count b - 1, ob_stop_prev := ?P, ob_stop_next := ?N\<rparr>"
    by (simp add: detach_stop_def p_def n_def Let_def)
  show "(!) ?P = (if n = kInvalidIndex then (!) (ob_stop_prev b) else ((!) (ob_stop_prev b))(n := p))"
    "(!) ?N = (if p = kInvalidIndex then (!) (ob_stop_next b) else ((!) (ob_stop_next b))(p := n))"
    using len bound by (auto simp: fun_eq_iff n_def p_def)
qed (use len in auto)

lemma detach_stop_rep:
  assumes rep: "book_rep b Q S X" and S: "S = xs @ i # ys"
  shows "book_rep (detach_stop b i) Q (xs @ ys) (insert i X)" "same_env b (detach_stop b i)"
    "same_report b (detach_stop b i)" "maker_of (detach_stop b i) j = maker_of b j"
    "bk_order (detach_stop b i) = bk_order b" "ob_arena (detach_stop b i) = ob_arena b"
    "ob_stop_trigger_prices (detach_stop b i) = ob_stop_trigger_prices b"
    "ob_stop_limit_prices (detach_stop b i) = ob_stop_limit_prices b"
    "level (detach_stop b i) s l = level b s l" "occupancy (detach_stop b i) s = occupancy b s"
proof -
  have sr: "dll ((!) (ob_stop_prev b)) ((!) (ob_stop_next b)) (ob_stop_head b) (ob_stop_tail b) (xs @ i # ys)"
    "ob_dormant_stop_count b = length S" "\<forall>j \<in> set S. stop_ok b j"
    using rep S by (auto simp: book_rep_def stop_rep_def)
  have arr: "length (ob_stop_prev b) = slots b" "length (ob_stop_next b) = slots b"
    using rep_shape [OF rep] by (simp_all add: book_shape_def arrays_ok_def)
  let ?p = "ob_stop_prev b ! i" and ?n = "ob_stop_next b ! i"
  have mem: "j < slots b" if "j \<in> set S" for j using rep_slot [OF rep] that by simp
  have bound: "?p \<noteq> kInvalidIndex \<longrightarrow> ?p < slots b" "?n \<noteq> kInvalidIndex \<longrightarrow> ?n < slots b"
    using dll_links [OF sr(1)] mem S by (auto split: if_splits) (cases ys; auto)+
  obtain P N where e: "detach_stop b i = b\<lparr>ob_stop_head := (if ?p = kInvalidIndex then ?n else ob_stop_head b),
       ob_stop_tail := (if ?n = kInvalidIndex then ?p else ob_stop_tail b),
       ob_dormant_stop_count := ob_dormant_stop_count b - 1, ob_stop_prev := P, ob_stop_next := N\<rparr>"
    and P: "(!) P = (if ?n = kInvalidIndex then (!) (ob_stop_prev b) else ((!) (ob_stop_prev b))(?n := ?p))"
    and N: "(!) N = (if ?p = kInvalidIndex then (!) (ob_stop_next b) else ((!) (ob_stop_next b))(?p := ?n))"
    and len: "length P = slots b" "length N = slots b"
    by (rule detach_stop_eq [OF arr bound]) blast
  let ?b = "detach_stop b i"
  show lv: "level ?b s l = level b s l" "occupancy ?b s = occupancy b s" for s l unfolding e by simp_all
  show same: "bk_order ?b = bk_order b" "ob_arena ?b = ob_arena b"
    "ob_stop_trigger_prices ?b = ob_stop_trigger_prices b" "ob_stop_limit_prices ?b = ob_stop_limit_prices b"
    unfolding e by simp_all
  show env: "same_env b ?b" "same_report b ?b" unfolding e by (simp_all add: same_env_def same_report_def)
  show "maker_of ?b j = maker_of b j" unfolding maker_of_def same(1) by (simp add: e)
  have disp: "ob_displayed_remaining ?b = ob_displayed_remaining b" "ob_display_quantities ?b = ob_display_quantities b"
    unfolding e by simp_all
  have "book_shape ?b"
  proof -
    have "arrays_ok ?b" using rep_shape [OF rep] len unfolding book_shape_def arrays_ok_def by (simp add: e)
    moreover have "length (ob_bids ?b) = length (ob_bids b)" "length (ob_asks ?b) = length (ob_asks b)"
      unfolding e by simp_all
    ultimately show ?thesis
      using rep_shape [OF rep] env(1) by (simp add: book_shape_def lv same same_env_def)
  qed
  moreover have "level_rep ?b s l (Q s l) = level_rep b s l (Q s l)" for s l
    by (rule level_rep_cong) (use env(1) in \<open>simp_all add: lv same disp same_env_def\<close>)
  moreover have "stop_rep ?b (xs @ ys)"
    unfolding stop_rep_def
  proof (intro conjI ballI)
    show "dll ((!) (ob_stop_prev ?b)) ((!) (ob_stop_next ?b)) (ob_stop_head ?b) (ob_stop_tail ?b) (xs @ ys)"
      using dll_remove [OF sr(1)] by (simp add: e P N)
    show "ob_dormant_stop_count ?b = length (xs @ ys)" using sr(2) S by (simp add: e)
    show "stop_ok ?b j" if "j \<in> set (xs @ ys)" for j
      using sr(3) S that env(1) by (auto simp: stop_ok_def same same_env_def)
  qed
  moreover have "i \<notin> queued Q" "i \<notin> set (xs @ ys)" "i \<notin> X"
    using rep_stop_disjoint [OF rep, of i] S dll_distinct [OF sr(1)] rep
    by (auto simp: queued_def book_rep_def)
  ultimately show "book_rep ?b Q (xs @ ys) (insert i X)"
    using rep env(1) by (auto simp: book_rep_def lv same same_env_def S)
qed

lemma unlink_stop_rep:
  assumes rep: "book_rep b Q S X" and S: "S = xs @ i # ys"
  shows "book_rep (unlink_stop b (handle_at (ob_arena b) i)) Q (xs @ ys) X"
proof -
  note d = detach_stop_rep [OF rep S]
  have "i \<notin> X" using rep_floating [OF rep] S by auto
  then show ?thesis
    using release_slot_rep [OF d(1), of i] by (simp add: unlink_stop_def d(6))
qed

text \<open>A floating slot that holds a stop order joins the stop queue at its end.\<close>

lemma link_stop_rep:
  assumes rep: "book_rep b Q S X" and i: "i \<in> X"
    and ord: "bk_order b i = stop_order oid s lp q" and q: "q \<noteq> 0" "q \<le> ob_max_quantity b"
    and lp: "\<And>p. lp = Some p \<Longrightarrow> index_of (ob_domain b) p \<noteq> None"
  shows "book_rep (link_stop b i tp lp) Q (S @ [i]) (X - {i})" "same_env b (link_stop b i tp lp)"
    "same_report b (link_stop b i tp lp)" "bk_order (link_stop b i tp lp) = bk_order b"
    "j \<noteq> i \<Longrightarrow> maker_of (link_stop b i tp lp) j = maker_of b j"
    "ob_arena (link_stop b i tp lp) = ob_arena b"
    "ob_stop_trigger_prices (link_stop b i tp lp) ! j = (if j = i then tp else ob_stop_trigger_prices b ! j)"
    "ob_stop_limit_prices (link_stop b i tp lp) ! j =
       (if j = i then (case lp of None \<Rightarrow> 0 | Some p \<Rightarrow> p) else ob_stop_limit_prices b ! j)"
proof -
  let ?K = kInvalidIndex and ?t = "ob_stop_tail b" and ?b = "link_stop b i tp lp"
  have sr: "dll ((!) (ob_stop_prev b)) ((!) (ob_stop_next b)) (ob_stop_head b) ?t S"
    "ob_dormant_stop_count b = length S" "\<forall>j \<in> set S. stop_ok b j"
    using rep by (auto simp: book_rep_def stop_rep_def)
  have arr: "arrays_ok b" using rep_shape [OF rep] by (simp add: book_shape_def)
  have ib: "i < slots b" "i \<noteq> ?K" "i \<notin> set S" "i \<notin> queued Q"
    using rep_slot [OF rep] shape_slots [OF rep_shape [OF rep]] rep_floating [OF rep i] i by (auto simp: queued_def)
  have tb: "?t \<noteq> ?K \<Longrightarrow> ?t < slots b \<and> ?t \<in> set S"
    using sr(1) rep_slot [OF rep, of ?t] by (auto simp: dll_def split: if_splits)
  have lv: "level ?b s l = level b s l" "occupancy ?b s = occupancy b s" for s l
    by (cases s; simp add: link_stop_def Let_def level.simps occupancy.simps)+
  show ord': "bk_order ?b = bk_order b" "ob_arena ?b = ob_arena b"
    by (simp_all add: link_stop_def Let_def bk_order_def fun_eq_iff)
  show env: "same_env b ?b" "same_report b ?b"
    by (simp_all add: link_stop_def Let_def same_env_def same_report_def)
  have disp: "o_disp ?b j = o_disp b j" "o_peak ?b j = o_peak b j" "ob_trader_ids ?b ! j = ob_trader_ids b ! j" if "j \<noteq> i" for j
    using that by (simp_all add: link_stop_def Let_def)
  show "maker_of ?b j = maker_of b j" if "j \<noteq> i" for j using disp [OF that] by (simp add: maker_of_def ord')
  show trg: "ob_stop_trigger_prices ?b ! j = (if j = i then tp else ob_stop_trigger_prices b ! j)"
    "ob_stop_limit_prices ?b ! j = (if j = i then (case lp of None \<Rightarrow> 0 | Some p \<Rightarrow> p) else ob_stop_limit_prices b ! j)" for j
    using ib(1) arr by (simp_all add: link_stop_def Let_def arrays_ok_def)
  have shape: "book_shape ?b"
  proof -
    have "arrays_ok ?b" using arr by (simp add: arrays_ok_def link_stop_def Let_def)
    moreover have "length (ob_bids ?b) = length (ob_bids b)" "length (ob_asks ?b) = length (ob_asks b)"
      by (simp_all add: link_stop_def Let_def)
    ultimately show ?thesis
      using rep_shape [OF rep] env(1) by (simp add: book_shape_def lv ord' same_env_def)
  qed
  have views: "dll ((!) (ob_stop_prev ?b)) ((!) (ob_stop_next ?b)) h t (S @ [i]) =
      dll (((!) (ob_stop_prev b))(i := ?t)) ((if ?t = ?K then (!) (ob_stop_next b) else ((!) (ob_stop_next b))(?t := i))(i := ?K)) h t (S @ [i])" for h t
    by (rule dll_cong) (use arr ib(1,3) tb in \<open>auto simp: link_stop_def Let_def arrays_ok_def nth_list_update\<close>)
  have "stop_rep ?b (S @ [i])"
    unfolding stop_rep_def
  proof (intro conjI ballI)
    show "dll ((!) (ob_stop_prev ?b)) ((!) (ob_stop_next ?b)) (ob_stop_head ?b) (ob_stop_tail ?b) (S @ [i])"
      unfolding views using dll_append [OF sr(1) ib(3,2)]
      by (cases "?t = ?K") (simp_all add: link_stop_def Let_def)
    show "ob_dormant_stop_count ?b = length (S @ [i])" using sr(2) by (simp add: link_stop_def Let_def)
    fix j assume j: "j \<in> set (S @ [i])"
    show "stop_ok ?b j"
    proof (cases "j = i")
      case True
      then show ?thesis using q lp env(1)
        by (auto simp: stop_ok_def ord' ord stop_order_def trg is_stop_market_def same_env_def
            kOrderFlagDormantStop_def kOrderFlagStopMarket_def split: option.splits)
    next
      case False
      then show ?thesis using sr(3) j env(1) by (auto simp: stop_ok_def ord' trg same_env_def)
    qed
  qed
  moreover have "level_rep ?b s l (Q s l) = level_rep b s l (Q s l)" for s l
  proof (rule level_rep_cong)
    fix j assume "j \<in> set (Q s l)"
    then have "j \<noteq> i" using ib(4) queued_memI by blast
    then show "bk_order ?b j = bk_order b j \<and> o_disp ?b j = o_disp b j \<and> o_peak ?b j = o_peak b j"
      using disp by (simp add: ord')
  qed (use env(1) in \<open>simp_all add: lv same_env_def\<close>)
  ultimately show "book_rep ?b Q (S @ [i]) (X - {i})"
    using rep shape env(1) i ib by (auto simp: book_rep_def lv ord' same_env_def)
qed

end
