(* ===== verification/Order_Book_Exec.thy ===== *)
theory Order_Book_Exec
  imports Order_Book_Rest
begin

text \<open>One execution against a resting order: its effect on the queues and on the trade reports.\<close>

section \<open>The maker side\<close>

text \<open>The maker after an execution that does not fill it, and the queue after any execution.\<close>

definition reduced :: "u64 \<Rightarrow> maker \<Rightarrow> maker" where
  "reduced e m = m\<lparr>mk_rem := mk_rem m - e,
     mk_disp := (if mk_disp m = e then min (mk_peak m) (mk_rem m - e) else mk_disp m - e)\<rparr>"

definition requeue :: "u64 \<Rightarrow> maker \<Rightarrow> 'a list \<Rightarrow> 'a \<Rightarrow> 'a list \<Rightarrow> 'a list" where
  "requeue e m xs x ys = (if e = mk_rem m then xs @ ys else if mk_disp m = e then xs @ ys @ [x] else xs @ x # ys)"

lemma reduced_slot [simp]: "mk_slot (reduced e m) = mk_slot m" "mk_id (reduced e m) = mk_id m"
  "mk_trader (reduced e m) = mk_trader m" "mk_peak (reduced e m) = mk_peak m" "mk_rem (reduced e m) = mk_rem m - e"
  by (simp_all add: reduced_def)

lemma maker_of_fields [simp]: "mk_slot (maker_of b i) = i" "mk_id (maker_of b i) = ord_id (bk_order b i)"
  "mk_trader (maker_of b i) = ob_trader_ids b ! i" "mk_rem (maker_of b i) = o_rem b i"
  "mk_disp (maker_of b i) = o_disp b i" "mk_peak (maker_of b i) = o_peak b i"
  by (simp_all add: maker_of_def)

lemma word_minus_eq_0: "(a::u64) - b = 0 \<longleftrightarrow> a = b"
  by simp

lemma word_minus_le: "(b::u64) \<le> a \<Longrightarrow> a - b \<le> a"
  by (simp add: word_le_nat_alt unat_minus_le)

lemma set_disp_maker:
  "book_shape b \<Longrightarrow> i < slots b \<Longrightarrow>
     maker_of (set_disp b i d) j = (if j = i then (maker_of b i)\<lparr>mk_disp := d\<rparr> else maker_of b j)"
  by (simp add: maker_of_def) (simp add: set_disp_def book_shape_def arrays_ok_def)

lemma upd_remaining_maker:
  "book_shape b \<Longrightarrow> i < slots b \<Longrightarrow>
     maker_of (upd_order b i (\<lambda>y. y\<lparr>ord_remaining := f y\<rparr>)) j =
       (if j = i then (maker_of b i)\<lparr>mk_rem := f (bk_order b i)\<rparr> else maker_of b j)"
  by (simp add: maker_of_def bk_order_upd_order)

lemma same_trans:
  "same_env a b \<and> same_report a b \<and> same_stops a b \<Longrightarrow> same_env b c \<and> same_report b c \<and> same_stops b c \<Longrightarrow>
     same_env a c \<and> same_report a c \<and> same_stops a c"
  using same_env_trans same_report_trans same_stops_trans by blast

lemma reduce_maker_rep:
  assumes rep: "book_rep b Q S X" and q: "Q s l = xs @ i # ys"
    and e: "e \<noteq> 0" "e \<le> o_disp b i"
  defines "b' \<equiv> reduce_maker b s l i e"
  shows "book_rep b' (setq Q s l (requeue e (maker_of b i) xs i ys)) S X"
    and "j \<noteq> i \<Longrightarrow> maker_of b' j = maker_of b j"
    and "e \<noteq> o_rem b i \<Longrightarrow> maker_of b' i = reduced e (maker_of b i)"
    and "same_env b b' \<and> same_report b b' \<and> same_stops b b'"
proof -
  have mem: "i \<in> set (Q s l)" using q by simp
  note shape = rep_shape [OF rep] and l = rep_mem_level [OF rep mem] and i = rep_slot_q [OF rep mem]
  have act: "active_ok b s l i" by (rule rep_active [OF rep mem])
  have lr: "level_rep b s l (xs @ i # ys)" using rep_level [OF rep l, of s] q by simp
  let ?A = "pl_aggregate (level b s l) - e"
  define b2 where "b2 = set_disp (upd_level b s l (\<lambda>pl. pl\<lparr>pl_aggregate := ?A\<rparr>)) i (o_disp b i - e)"
  define b3 where "b3 = upd_order b2 i (\<lambda>y. y\<lparr>ord_remaining := ord_remaining y - e\<rparr>)"
  define b4 where "b4 = set_disp b3 i (min (o_peak b i) (o_rem b i - e))"
  have sh2: "book_shape b2" "slots b2 = slots b" "bk_order b2 = bk_order b" using shape by (simp_all add: b2_def)
  have sh3: "book_shape b3" "slots b3 = slots b" using sh2 by (simp_all add: b3_def)
  have ups: "upd_level b s l (\<lambda>pl. pl\<lparr>pl_aggregate := pl_aggregate pl - e\<rparr>) = upd_level b s l (\<lambda>pl. pl\<lparr>pl_aggregate := ?A\<rparr>)"
    by (rule upd_level_eqI) simp
  have ord3: "bk_order b3 j = (if j = i then (bk_order b i)\<lparr>ord_remaining := o_rem b i - e\<rparr> else bk_order b j)" for j
    using i by (simp add: b3_def bk_order_upd_order [OF sh2(1)] sh2)
  have d3: "o_disp b3 j = (if j = i then o_disp b i - e else o_disp b j)" "o_peak b3 j = o_peak b j" for j
    using i shape by (simp_all add: b3_def b2_def o_disp_set_disp)
  have b': "b' = (if e = o_rem b i then unlink b2 (handle_at (ob_arena b2) i) 0
      else if o_disp b i = e then move_to_tail b4 i else b3)"
  proof -
    have b2': "(upd_level b s l (\<lambda>pl. pl\<lparr>pl_aggregate := pl_aggregate pl - e\<rparr>))\<lparr>ob_displayed_remaining :=
        (ob_displayed_remaining (upd_level b s l (\<lambda>pl. pl\<lparr>pl_aggregate := pl_aggregate pl - e\<rparr>)))
          [i := ob_displayed_remaining (upd_level b s l (\<lambda>pl. pl\<lparr>pl_aggregate := pl_aggregate pl - e\<rparr>)) ! i - e]\<rparr> = b2"
      by (simp add: b2_def ups set_disp_def)
    have b4': "b3\<lparr>ob_displayed_remaining := (ob_displayed_remaining b3)[i := min (o_peak b3 i) (o_rem b3 i)]\<rparr> = b4"
      by (simp add: b4_def set_disp_def d3 ord3)
    show ?thesis
      unfolding b'_def reduce_maker_def Let_def b2' b3_def [symmetric] b4' unfolding d3 sh2(3) by simp
  qed
  have env2: "same_env b b2 \<and> same_report b b2 \<and> same_stops b b2"
    by (simp add: b2_def same_env_def same_report_def same_stops_def set_disp_def)
  have env3: "same_env b b3 \<and> same_report b b3 \<and> same_stops b b3"
    using env2 by (simp add: b3_def same_env_def same_report_def same_stops_def)
  have env4: "same_env b b4 \<and> same_report b b4 \<and> same_stops b b4"
    using env3 by (simp add: b4_def same_env_def same_report_def same_stops_def set_disp_def)
  show "same_env b b' \<and> same_report b b' \<and> same_stops b b'"
    unfolding b' using env3 same_trans [OF env2, of "unlink b2 (handle_at (ob_arena b2) i) 0"]
      same_trans [OF env4, of "move_to_tail b4 i"] by simp
  have lv3: "level b3 s' l' = (if s' = s \<and> l' = l then (level b s l)\<lparr>pl_aggregate := ?A\<rparr> else level b s' l')" for s' l'
    by (simp add: b3_def b2_def level_upd_level [OF shape l])
  have mk2: "maker_of b2 j = (if j = i then (maker_of b i)\<lparr>mk_disp := o_disp b i - e\<rparr> else maker_of b j)" for j
    using i shape by (simp add: b2_def set_disp_maker)
  have mk3: "maker_of b3 j = (if j = i then (maker_of b i)\<lparr>mk_disp := o_disp b i - e, mk_rem := o_rem b i - e\<rparr> else maker_of b j)" for j
    using i sh2 by (simp add: b3_def upd_remaining_maker mk2)
  have mk4: "maker_of b4 j = (if j = i then (maker_of b i)\<lparr>mk_disp := min (o_peak b i) (o_rem b i - e), mk_rem := o_rem b i - e\<rparr> else maker_of b j)" for j
    using i sh3 by (simp add: b4_def set_disp_maker mk3)
  show "maker_of b' j = maker_of b j" if "j \<noteq> i" using that by (simp add: b' mk2 mk3 mk4)
  show "maker_of b' i = reduced e (maker_of b i)" if "e \<noteq> o_rem b i"
    using that by (simp add: b' mk3 mk4 reduced_def)
  have le: "e \<le> o_rem b i" "o_disp b i \<le> o_rem b i" "o_disp b i \<le> o_peak b i" "o_rem b i \<le> ob_max_quantity b"
    using e act by (auto simp: active_ok_def)
  have rem: "o_rem b i - (o_rem b i - e) = e" by simp
  have occ3: "occupancy b3 s' = occupancy b s'" "live_set (ob_arena b3) = live_set (ob_arena b)" for s'
    by (simp_all add: b3_def b2_def)
  show "book_rep b' (setq Q s l (requeue e (maker_of b i) xs i ys)) S X"
  proof (cases "e = o_rem b i")
    case True
    have "?A - 0 = sum_list (map (o_rem b) (xs @ ys))"
      using lr True by (simp add: level_rep_def)
    from unlink_rep [OF rep q b2_def this] show ?thesis using True by (simp add: b' requeue_def)
  next
    case False
    have r: "o_rem b i - e \<noteq> 0" "o_rem b i - e \<le> ob_max_quantity b"
      using False le by (auto intro: order.trans [OF word_minus_le])
    show ?thesis
    proof (cases "o_disp b i = e")
      case True
      have d: "min (o_peak b i) (o_rem b i - e) \<noteq> 0" using r le True e by (auto simp: min_def)
      have "book_rep b4 Q S X"
      proof (rule requantify_rep [OF rep mem, where r = "o_rem b i - e" and d = "min (o_peak b i) (o_rem b i - e)"])
        show "book_shape b4" using sh3 by (simp add: b4_def)
        show "level b4 s' l' = (if s' = s \<and> l' = l then (level b s l)\<lparr>pl_aggregate := pl_aggregate (level b s l) -
            (o_rem b i - (o_rem b i - e))\<rparr> else level b s' l')" for s' l' by (simp add: b4_def lv3)
        show "bk_order b4 j = (if j = i then (bk_order b i)\<lparr>ord_remaining := o_rem b i - e\<rparr> else bk_order b j)" for j
          by (simp add: b4_def ord3)
        show "o_disp b4 j = (if j = i then min (o_peak b i) (o_rem b i - e) else o_disp b j)" "o_peak b4 j = o_peak b j" for j
          using i d3 sh3 by (simp_all add: b4_def o_disp_set_disp)
        show "occupancy b4 s' = occupancy b s'" "live_set (ob_arena b4) = live_set (ob_arena b)" for s'
          by (simp_all add: b4_def occ3)
      qed (use env4 r d in auto)
      from move_to_tail_rep [OF this q] show ?thesis using True False by (simp add: b' requeue_def)
    next
      case False2: False
      then have d: "o_disp b i - e \<noteq> 0" by simp
      have dl: "o_disp b i - e \<le> o_rem b i - e" "o_disp b i - e \<le> o_peak b i"
        using le e by (simp_all add: word_le_nat_alt unat_minus_le)
      have "book_rep b3 Q S X"
      proof (rule requantify_rep [OF rep mem, where r = "o_rem b i - e" and d = "o_disp b i - e"])
        show "level b3 s' l' = (if s' = s \<and> l' = l then (level b s l)\<lparr>pl_aggregate := pl_aggregate (level b s l) -
            (o_rem b i - (o_rem b i - e))\<rparr> else level b s' l')" for s' l' by (simp add: lv3)
      qed (use env3 sh3 ord3 d3 occ3 r d dl in auto)
      then show ?thesis using False False2 q by (simp add: b' requeue_def setq_same [of Q s l, unfolded q])
    qed
  qed
qed

section \<open>Trade reports\<close>

text \<open>
  The reports of one \<^verbatim>\<open>match\<close> call as a list of (maker slot, trade): an execution against a maker that
  has a report adds to its quantity, any other appends one.
\<close>

definition tally :: "(nat \<times> trade) list \<Rightarrow> nat \<Rightarrow> trade \<Rightarrow> (nat \<times> trade) list" where
  "tally acc i t = (if i \<in> fst ` set acc
     then map (\<lambda>(j, u). (j, if j = i then u\<lparr>tr_quantity := tr_quantity u + tr_quantity t\<rparr> else u)) acc
     else acc @ [(i, t)])"

lemma map_fst_tally: "map fst (tally acc i t) = (if i \<in> fst ` set acc then map fst acc else map fst acc @ [i])"
  by (simp add: tally_def o_def split_def)

lemma fst_set_tally [simp]: "fst ` set (tally acc i t) = insert i (fst ` set acc)"
proof -
  have "set (map fst (tally acc i t)) = insert i (set (map fst acc))" unfolding map_fst_tally by auto
  then show ?thesis by simp
qed

lemma length_tally: "length (tally acc i t) = (if i \<in> fst ` set acc then length acc else Suc (length acc))"
  by (simp add: tally_def)

text \<open>
  \<open>report_ok x c acc\<close>: from position \<open>c\<close> on, the trade buffer holds the reports \<open>acc\<close>, and the epoch and
  index arrays say which slots have one, and where.
\<close>

definition report_ok :: "exec \<Rightarrow> nat \<Rightarrow> (nat \<times> trade) list \<Rightarrow> bool" where
  "report_ok x c acc \<longleftrightarrow> ex_count x = c + length acc \<and> ex_count x \<le> length (ex_trades x) \<and>
     distinct (map fst acc) \<and>
     (\<forall>k < length acc. ex_trades x ! (c + k) = snd (acc ! k) \<and>
        ob_trade_report_indices (ex_book x) ! fst (acc ! k) = c + k) \<and>
     (\<forall>i < slots (ex_book x). ob_trade_report_epochs (ex_book x) ! i = ob_trade_report_epoch (ex_book x) \<longleftrightarrow>
        i \<in> fst ` set acc)"

lemma tr_quantity_make_trade [simp]: "tr_quantity (make_trade s a b p q) = q"
  by (cases s) simp_all

lemma report_trade_known:
  assumes ro: "report_ok x c acc" and i: "i < slots (ex_book x)" "i \<in> fst ` set acc"
  shows "\<exists>T. report_trade x tid s i p e = ret (x\<lparr>ex_trades := T\<rparr>) \<and> length T = length (ex_trades x) \<and>
    take c T = take c (ex_trades x) \<and>
    report_ok (x\<lparr>ex_trades := T\<rparr>) c (tally acc i (make_trade s tid mid p e))"
proof -
  obtain k where k: "k < length acc" "fst (acc ! k) = i" using i(2) by (auto simp: in_set_conv_nth)
  let ?b = "ex_book x" and ?T = "(ex_trades x)[c + k := (snd (acc ! k))\<lparr>tr_quantity := tr_quantity (snd (acc ! k)) + e\<rparr>]"
  have ix: "ob_trade_report_indices ?b ! i = c + k" "ex_trades x ! (c + k) = snd (acc ! k)"
    "ob_trade_report_epochs ?b ! i = ob_trade_report_epoch ?b" "c + k < length (ex_trades x)"
    using ro k i by (auto simp: report_ok_def)
  have eq: "report_trade x tid s i p e = ret (x\<lparr>ex_trades := ?T\<rparr>)"
    using ix by (simp add: report_trade_def Let_def)
  let ?acc = "tally acc i (make_trade s tid mid p e)"
  have d: "distinct (map fst acc)" using ro by (simp add: report_ok_def)
  have nth: "fst (?acc ! j) = fst (acc ! j)" "snd (?acc ! j) = (if j = k then (snd (acc ! k))\<lparr>tr_quantity := tr_quantity (snd (acc ! k)) + e\<rparr> else snd (acc ! j))"
    if "j < length acc" for j
  proof -
    have "fst (acc ! j) = i \<longleftrightarrow> j = k" using d k that by (metis nth_eq_iff_index_eq length_map nth_map)
    then show "fst (?acc ! j) = fst (acc ! j)" "snd (?acc ! j) = (if j = k then (snd (acc ! k))\<lparr>tr_quantity := tr_quantity (snd (acc ! k)) + e\<rparr> else snd (acc ! j))"
      using i(2) that by (auto simp: tally_def split_def)
  qed
  have "report_ok (x\<lparr>ex_trades := ?T\<rparr>) c ?acc"
    using ro i(2) ix(4) unfolding report_ok_def
    by (auto simp: length_tally map_fst_tally nth nth_list_update)
  then show ?thesis using eq by (intro exI [of _ ?T]) simp
qed

lemma report_trade_new:
  assumes ro: "report_ok x c acc" and sh: "book_shape (ex_book x)"
    and i: "i < slots (ex_book x)" "i \<notin> fst ` set acc" and room: "ex_count x < length (ex_trades x)"
  shows "\<exists>T E I. report_trade x tid s i p e = ret (x\<lparr>ex_book := (ex_book x)\<lparr>ob_trade_report_epochs := E,
      ob_trade_report_indices := I\<rparr>, ex_trades := T, ex_count := ex_count x + 1\<rparr>) \<and>
    length T = length (ex_trades x) \<and> take c T = take c (ex_trades x) \<and>
    length E = slots (ex_book x) \<and> length I = slots (ex_book x) \<and>
    (\<forall>j < slots (ex_book x). E ! j \<in> {ob_trade_report_epochs (ex_book x) ! j, ob_trade_report_epoch (ex_book x)}) \<and>
    report_ok (x\<lparr>ex_book := (ex_book x)\<lparr>ob_trade_report_epochs := E, ob_trade_report_indices := I\<rparr>,
        ex_trades := T, ex_count := ex_count x + 1\<rparr>) c
      (tally acc i (make_trade s tid (ord_id (bk_order (ex_book x) i)) p e))"
proof -
  let ?b = "ex_book x"
  let ?t = "make_trade s tid (ord_id (bk_order ?b i)) p e"
  let ?T = "(ex_trades x)[ex_count x := ?t]"
  let ?E = "(ob_trade_report_epochs ?b)[i := ob_trade_report_epoch ?b]"
  let ?I = "(ob_trade_report_indices ?b)[i := ex_count x]"
  have arr: "length (ob_trade_report_epochs ?b) = slots ?b" "length (ob_trade_report_indices ?b) = slots ?b"
    using sh by (simp_all add: book_shape_def arrays_ok_def)
  have ep: "ob_trade_report_epochs ?b ! i \<noteq> ob_trade_report_epoch ?b" and cnt: "ex_count x = c + length acc"
    using ro i by (auto simp: report_ok_def)
  have eq: "report_trade x tid s i p e = ret (x\<lparr>ex_book := ?b\<lparr>ob_trade_report_epochs := ?E,
      ob_trade_report_indices := ?I\<rparr>, ex_trades := ?T, ex_count := ex_count x + 1\<rparr>)"
    using ep room by (simp add: report_trade_def Let_def)
  have tl: "tally acc i ?t = acc @ [(i, ?t)]" using i(2) by (simp add: tally_def)
  have ne: "fst (acc ! k) \<noteq> i" if "k < length acc" for k using i(2) that by (metis image_eqI nth_mem)
  have "report_ok (x\<lparr>ex_book := ?b\<lparr>ob_trade_report_epochs := ?E, ob_trade_report_indices := ?I\<rparr>,
        ex_trades := ?T, ex_count := ex_count x + 1\<rparr>) c (tally acc i ?t)"
    using ro i arr room ne unfolding tl report_ok_def
    by (auto simp: nth_append nth_list_update less_Suc_eq)
  moreover have "\<forall>j < slots ?b. ?E ! j \<in> {ob_trade_report_epochs ?b ! j, ob_trade_report_epoch ?b}"
    using arr i(1) by (auto simp: nth_list_update)
  ultimately show ?thesis using eq arr cnt by (intro exI [of _ ?T] exI [of _ ?E] exI [of _ ?I]) simp
qed

section \<open>One execution\<close>

text \<open>What an execution leaves alone.\<close>

definition exec_frame :: "book \<Rightarrow> book \<Rightarrow> bool" where
  "exec_frame b b' \<longleftrightarrow> same_env b b' \<and> same_stops b b' \<and>
     ob_trade_report_epoch b' = ob_trade_report_epoch b \<and>
     ob_stop_activations b' = ob_stop_activations b \<and> ob_stop_activation_count b' = ob_stop_activation_count b \<and>
     ob_visit_marks b' = ob_visit_marks b \<and> ob_visit_epoch b' = ob_visit_epoch b \<and>
     (\<forall>j < slots b. ob_trade_report_epochs b' ! j \<in> {ob_trade_report_epochs b ! j, ob_trade_report_epoch b})"

lemma exec_frame_refl [simp]: "exec_frame b b"
  by (simp add: exec_frame_def)

lemma exec_frame_trans [trans]: "exec_frame a b \<Longrightarrow> exec_frame b c \<Longrightarrow> exec_frame a c"
  unfolding exec_frame_def same_env_def same_stops_def by (auto 4 4)

lemma exec_frame_same: "same_env b b' \<and> same_report b b' \<and> same_stops b b' \<Longrightarrow> exec_frame b b'"
  by (simp add: exec_frame_def same_report_def)

lemma report_ok_same:
  "report_ok x c acc \<Longrightarrow> same_report (ex_book x) b' \<Longrightarrow> same_env (ex_book x) b' \<Longrightarrow>
     report_ok (x\<lparr>ex_book := b', ex_remaining := r\<rparr>) c acc"
  by (simp add: report_ok_def same_report_def same_env_def)

lemma set_report_rep:
  assumes "book_rep b Q S X" "length E = slots b" "length I = slots b"
  shows "book_rep (b\<lparr>ob_trade_report_epochs := E, ob_trade_report_indices := I, ob_last_execution_price := p\<rparr>) Q S X"
proof -
  let ?b = "b\<lparr>ob_trade_report_epochs := E, ob_trade_report_indices := I, ob_last_execution_price := p\<rparr>"
  have fr: "level ?b s l = level b s l" "occupancy ?b s = occupancy b s" "bk_order ?b i = bk_order b i" for s l i
    by (cases s; simp add: level.simps occupancy.simps bk_order_def)+
  have "book_shape ?b" using rep_shape [OF assms(1)] assms(2,3) by (simp add: book_shape_def arrays_ok_def fr)
  then show ?thesis by (rule rep_same [OF assms(1)]) (simp_all add: fr)
qed

lemma execute_match_ok:
  assumes rep: "book_rep (ex_book x) Q S X" and ro: "report_ok x c acc"
    and s: "s = opposite_side ts" and q: "Q s l = xs @ i # ys"
    and e: "e \<noteq> 0" "e \<le> o_disp (ex_book x) i"
    and room: "i \<in> fst ` set acc \<or> ex_count x < length (ex_trades x)"
  obtains x' where "execute_match tid ts l i e x = ret x'"
    "book_rep (ex_book x') (setq Q s l (requeue e (maker_of (ex_book x) i) xs i ys)) S X"
    "report_ok x' c (tally acc i (make_trade ts tid (mk_id (maker_of (ex_book x) i)) (pd_minimum (ob_domain (ex_book x)) + int l) e))"
    "ex_remaining x' = ex_remaining x - e" "length (ex_trades x') = length (ex_trades x)"
    "take c (ex_trades x') = take c (ex_trades x)"
    "\<And>j. j \<noteq> i \<Longrightarrow> maker_of (ex_book x') j = maker_of (ex_book x) j"
    "e \<noteq> o_rem (ex_book x) i \<Longrightarrow> maker_of (ex_book x') i = reduced e (maker_of (ex_book x) i)"
    "exec_frame (ex_book x) (ex_book x')"
    "ob_last_execution_price (ex_book x') = Some (pd_minimum (ob_domain (ex_book x)) + int l)"
proof -
  let ?b = "ex_book x"
  have mem: "i \<in> set (Q s l)" using q by simp
  note l = rep_mem_level [OF rep mem] and i = rep_slot_q [OF rep mem]
  define p where "p = pd_minimum (ob_domain ?b) + int l"
  let ?acc = "tally acc i (make_trade ts tid (ord_id (bk_order ?b i)) p e)"
  have "\<exists>T E I n. report_trade x tid ts i p e = ret (x\<lparr>ex_book := ?b\<lparr>ob_trade_report_epochs := E,
      ob_trade_report_indices := I\<rparr>, ex_trades := T, ex_count := n\<rparr>) \<and>
    length T = length (ex_trades x) \<and> take c T = take c (ex_trades x) \<and>
    length E = slots ?b \<and> length I = slots ?b \<and>
    (\<forall>j < slots ?b. E ! j \<in> {ob_trade_report_epochs ?b ! j, ob_trade_report_epoch ?b}) \<and>
    report_ok (x\<lparr>ex_book := ?b\<lparr>ob_trade_report_epochs := E, ob_trade_report_indices := I\<rparr>,
        ex_trades := T, ex_count := n\<rparr>) c ?acc"
  proof (cases "i \<in> fst ` set acc")
    case True
    have "length (ob_trade_report_epochs ?b) = slots ?b" "length (ob_trade_report_indices ?b) = slots ?b"
      using rep_shape [OF rep] by (simp_all add: book_shape_def arrays_ok_def)
    then show ?thesis
      using report_trade_known [OF ro i True, of tid ts p e "ord_id (bk_order ?b i)"]
      by (auto intro!: exI [of _ "ob_trade_report_epochs ?b"] exI [of _ "ob_trade_report_indices ?b"] exI [of _ "ex_count x"])
  next
    case False
    then show ?thesis using report_trade_new [OF ro rep_shape [OF rep] i False, of tid ts p e] room by blast
  qed
  then obtain T E I n where r: "report_trade x tid ts i p e = ret (x\<lparr>ex_book := ?b\<lparr>ob_trade_report_epochs := E,
      ob_trade_report_indices := I\<rparr>, ex_trades := T, ex_count := n\<rparr>)"
    and T: "length T = length (ex_trades x)" "take c T = take c (ex_trades x)"
    and EI: "length E = slots ?b" "length I = slots ?b"
      "\<forall>j < slots ?b. E ! j \<in> {ob_trade_report_epochs ?b ! j, ob_trade_report_epoch ?b}"
    and ro': "report_ok (x\<lparr>ex_book := ?b\<lparr>ob_trade_report_epochs := E, ob_trade_report_indices := I\<rparr>,
        ex_trades := T, ex_count := n\<rparr>) c ?acc" by blast
  define b1 where "b1 = ?b\<lparr>ob_trade_report_epochs := E, ob_trade_report_indices := I, ob_last_execution_price := Some p\<rparr>"
  have rep1: "book_rep b1 Q S X" unfolding b1_def by (rule set_report_rep [OF rep EI(1,2)])
  have mk1: "maker_of b1 j = maker_of ?b j" for j by (simp add: maker_of_def b1_def bk_order_def)
  have e1: "e \<le> o_disp b1 i" using e by (simp add: b1_def)
  note R = reduce_maker_rep [OF rep1 q e(1) e1]
  define x' where "x' = x\<lparr>ex_book := reduce_maker b1 s l i e, ex_trades := T, ex_count := n, ex_remaining := ex_remaining x - e\<rparr>"
  have ex: "execute_match tid ts l i e x = ret x'"
    using l by (simp add: execute_match_def price_at_Some r [unfolded p_def] s x'_def b1_def p_def)
  have fr1: "exec_frame ?b b1" using EI by (simp add: exec_frame_def b1_def same_env_def same_stops_def)
  have ro1: "report_ok (x\<lparr>ex_book := b1, ex_trades := T, ex_count := n\<rparr>) c ?acc"
    using ro' by (simp add: report_ok_def b1_def)
  show ?thesis
  proof (rule that [OF ex])
    show "book_rep (ex_book x') (setq Q s l (requeue e (maker_of ?b i) xs i ys)) S X"
      using R(1) by (simp add: x'_def mk1)
    show "report_ok x' c (tally acc i (make_trade ts tid (mk_id (maker_of ?b i)) (pd_minimum (ob_domain ?b) + int l) e))"
      using report_ok_same [OF ro1, of "reduce_maker b1 s l i e" "ex_remaining x - e"] R(4)
      by (simp add: x'_def p_def report_ok_def)
    show "exec_frame ?b (ex_book x')"
      using exec_frame_trans [OF fr1 exec_frame_same [OF R(4)]] by (simp add: x'_def)
    show "ob_last_execution_price (ex_book x') = Some (pd_minimum (ob_domain ?b) + int l)"
      using R(4) by (simp add: x'_def same_report_def) (simp add: b1_def p_def)
    show "j \<noteq> i \<Longrightarrow> maker_of (ex_book x') j = maker_of ?b j" for j using R(2) by (simp add: x'_def mk1)
    show "e \<noteq> o_rem ?b i \<Longrightarrow> maker_of (ex_book x') i = reduced e (maker_of ?b i)"
      using R(3) mk1 [of i] by (simp add: x'_def) (simp add: maker_of_def b1_def bk_order_def)
  qed (simp_all add: x'_def T)
qed

text \<open>Without a report for the maker and with a full buffer, the write goes past the end.\<close>

lemma execute_match_overflow:
  assumes rep: "book_rep (ex_book x) Q S X" and ro: "report_ok x c acc" and i: "i \<in> set (Q s l)"
    and room: "i \<notin> fst ` set acc" "\<not> ex_count x < length (ex_trades x)"
  shows "execute_match tid ts l i e x = crash Trade_Buffer_Overflow"
proof -
  have "ob_trade_report_epochs (ex_book x) ! i \<noteq> ob_trade_report_epoch (ex_book x)"
    using ro room(1) rep_slot_q [OF rep i] by (auto simp: report_ok_def)
  then show ?thesis
    using rep_mem_level [OF rep i] room(2) by (simp add: execute_match_def price_at_Some report_trade_def Let_def)
qed

end
