(* ===== verification/Fifo_Spec.thy ===== *)
theory Fifo_Spec
  imports Order_Book_Exec
begin

text \<open>
  The specification of continuous matching, on lists: a side of the book is its ladder, the
  occupied price levels in priority order with their makers in time order; an incoming quantity is
  matched level by level, always against the first maker of the level, an iceberg that has shown its
  whole peak going to the back of its level.  No links, no bitmaps, no slots.
\<close>

section \<open>One level\<close>

lemma unat_pos_minus: "(e::u64) \<noteq> 0 \<Longrightarrow> e \<le> r \<Longrightarrow> unat (r - e) < unat r"
proof -
  assume a: "e \<noteq> 0" "e \<le> r"
  then have "0 < unat e" "unat e \<le> unat r" by (simp_all add: unat_gt_0 word_le_nat_alt)
  then show ?thesis using unat_minus_le [OF a(2)] by simp
qed

function fill :: "u64 \<Rightarrow> maker list \<Rightarrow> (maker \<times> u64) list \<times> u64 \<times> maker list" where
  "fill r [] = ([], r, [])"
| "fill r (m # ms) =
     (if r = 0 \<or> mk_disp m = 0 then ([], r, m # ms)
      else let e = min r (mk_disp m);
               (es, r', ms') = fill (r - e) (requeue e m [] (reduced e m) ms)
           in ((m, e) # es, r', ms'))"
  by pat_completeness auto
termination
proof (relation "measure (\<lambda>(r, _). unat r)")
  fix r :: u64 and m :: maker and ms e
  assume "\<not> (r = 0 \<or> mk_disp m = 0)" "e = min r (mk_disp m)"
  then have "e \<noteq> 0" "e \<le> r" by (auto simp: min_def)
  then show "((r - e, requeue e m [] (reduced e m) ms), r, m # ms) \<in> measure (\<lambda>(r, _). unat r)"
    using unat_pos_minus by simp
qed simp

declare fill.simps(2) [simp del]

text \<open>A maker as the book keeps it: something shown, no more shown than left or than the peak.\<close>

definition maker_ok :: "maker \<Rightarrow> bool" where
  "maker_ok m \<longleftrightarrow> mk_disp m \<noteq> 0 \<and> mk_disp m \<le> mk_rem m \<and> mk_disp m \<le> mk_peak m"

definition quantity_of :: "maker list \<Rightarrow> nat" where
  "quantity_of ms = sum_list (map (unat \<circ> mk_rem) ms)"

definition executed :: "(maker \<times> u64) list \<Rightarrow> nat" where
  "executed es = sum_list (map (unat \<circ> snd) es)"

lemma quantity_of_simps [simp]:
  "quantity_of [] = 0" "quantity_of (m # ms) = unat (mk_rem m) + quantity_of ms"
  "quantity_of (xs @ ys) = quantity_of xs + quantity_of ys"
  by (simp_all add: quantity_of_def)

lemma executed_simps [simp]: "executed [] = 0" "executed ((m, e) # es) = unat e + executed es"
  "executed (es @ es') = executed es + executed es'"
  by (simp_all add: executed_def)

lemma reduced_ok:
  assumes "maker_ok m" "e \<le> mk_disp m" "e \<noteq> mk_rem m"
  shows "maker_ok (reduced e m)"
proof -
  have le: "e \<le> mk_rem m" using assms by (auto simp: maker_ok_def)
  have "mk_rem m - e \<noteq> 0" "mk_peak m \<noteq> 0" using assms by (auto simp: maker_ok_def)
  moreover have "mk_disp m - e \<le> mk_rem m - e" "mk_disp m - e \<le> mk_peak m"
    using assms le by (auto simp: maker_ok_def word_le_nat_alt unat_minus_le)
  ultimately show ?thesis using assms(2) by (auto simp: maker_ok_def reduced_def min_def)
qed

lemma requeue_ok:
  assumes "maker_ok m" "list_all maker_ok ms" "e \<le> mk_disp m"
  shows "list_all maker_ok (requeue e m [] (reduced e m) ms)"
    "quantity_of (requeue e m [] (reduced e m) ms) + unat e = quantity_of (m # ms)"
proof -
  have le: "e \<le> mk_rem m" using assms(1,3) by (auto simp: maker_ok_def)
  then have u: "unat (mk_rem m - e) + unat e = unat (mk_rem m)"
    by (simp add: unat_minus_le word_le_nat_alt)
  show "list_all maker_ok (requeue e m [] (reduced e m) ms)"
    using assms reduced_ok [OF assms(1,3)] by (auto simp: requeue_def)
  show "quantity_of (requeue e m [] (reduced e m) ms) + unat e = quantity_of (m # ms)"
    using u by (auto simp: requeue_def)
qed

lemma fill_zero [simp]: "fill 0 ms = ([], 0, ms)"
  by (cases ms) (simp_all add: fill.simps(2))

text \<open>Nothing is lost: what the makers give is what the taker gets, and the rest is still there.\<close>

lemma fill_conserves:
  assumes "fill r ms = (es, r', ms')" "list_all maker_ok ms"
  shows "unat r = executed es + unat r'" "quantity_of ms = executed es + quantity_of ms'"
    "list_all maker_ok ms'" "r' \<noteq> 0 \<Longrightarrow> ms' = []"
proof -
  have "unat r = executed es + unat r' \<and> quantity_of ms = executed es + quantity_of ms' \<and>
    list_all maker_ok ms' \<and> (r' \<noteq> 0 \<longrightarrow> ms' = [])"
    using assms
  proof (induction r ms arbitrary: es r' ms' rule: fill.induct)
    case (2 r m ms)
    show ?case
    proof (cases "r = 0")
      case False
      define e where "e = min r (mk_disp m)"
      have m: "maker_ok m" "list_all maker_ok ms" "mk_disp m \<noteq> 0" using "2.prems"(2) by simp_all (simp add: maker_ok_def)
      have le: "e \<le> r" "e \<le> mk_disp m" by (simp_all add: e_def)
      obtain es1 where f: "fill (r - e) (requeue e m [] (reduced e m) ms) = (es1, r', ms')" "es = (m, e) # es1"
        using "2.prems"(1) False m(3) by (auto simp: fill.simps(2) e_def [symmetric] Let_def split: prod.splits)
      from requeue_ok [OF m(1,2) le(2)] "2.IH" [OF _ e_def f(1)] False m(3) f(2) le(1)
      show ?thesis by (simp add: unat_minus_le word_le_nat_alt) linarith
    qed (use 2 in \<open>simp add: fill.simps(2)\<close>)
  qed simp
  then show "unat r = executed es + unat r'" "quantity_of ms = executed es + quantity_of ms'"
    "list_all maker_ok ms'" "r' \<noteq> 0 \<Longrightarrow> ms' = []" by auto
qed

text \<open>So the level gives the taker's quantity or all it has, whichever is less.\<close>

lemma fill_executed:
  assumes "fill r ms = (es, r', ms')" "list_all maker_ok ms"
  shows "executed es = min (unat r) (quantity_of ms)"
proof (cases "r' = 0")
  case True
  then show ?thesis using fill_conserves(1,2) [OF assms] by simp
next
  case False
  then show ?thesis using fill_conserves(1,2,4) [OF assms] by simp
qed

lemma fill_makers:
  assumes "fill r ms = (es, r', ms')"
  shows "mk_slot ` set ms' \<subseteq> mk_slot ` set ms \<and> mk_slot ` fst ` set es \<subseteq> mk_slot ` set ms \<and>
    mk_trader ` set ms' \<subseteq> mk_trader ` set ms"
  using assms
proof (induction r ms arbitrary: es r' ms' rule: fill.induct)
  case (2 r m ms)
  show ?case
  proof (cases "r = 0 \<or> mk_disp m = 0")
    case False
    define e where "e = min r (mk_disp m)"
    obtain es1 where f: "fill (r - e) (requeue e m [] (reduced e m) ms) = (es1, r', ms')" "es = (m, e) # es1"
      using 2(2) False by (auto simp: fill.simps(2) e_def [symmetric] Let_def split: prod.splits)
    have "mk_slot ` set (requeue e m [] (reduced e m) ms) \<subseteq> mk_slot ` set (m # ms)"
      "mk_trader ` set (requeue e m [] (reduced e m) ms) \<subseteq> mk_trader ` set (m # ms)"
      by (auto simp: requeue_def split: if_splits)
    note sub = this
    from "2.IH" [OF False e_def f(1)]
    have "mk_slot ` set ms' \<subseteq> mk_slot ` set (m # ms)" "mk_slot ` fst ` set es1 \<subseteq> mk_slot ` set (m # ms)"
      "mk_trader ` set ms' \<subseteq> mk_trader ` set (m # ms)"
      using sub by (meson subset_trans)+
    then show ?thesis unfolding f(2) by simp
  qed (use 2 in \<open>simp add: fill.simps(2)\<close>)
qed simp

section \<open>The ladder\<close>

type_synonym ladder = "(nat \<times> maker list) list"

fun within :: "side \<Rightarrow> nat option \<Rightarrow> nat \<Rightarrow> bool" where
  "within ts None l = True"
| "within ts (Some limit) l = crosses ts l limit"

fun fill_ladder :: "side \<Rightarrow> nat option \<Rightarrow> u64 \<Rightarrow> ladder \<Rightarrow> (nat \<times> maker \<times> u64) list \<times> u64 \<times> ladder" where
  "fill_ladder ts limit r [] = ([], r, [])"
| "fill_ladder ts limit r ((l, ms) # lad) =
     (if r = 0 \<or> \<not> within ts limit l then ([], r, (l, ms) # lad)
      else let (es, r1, ms') = fill r ms; (es', r', lad') = fill_ladder ts limit r1 lad
           in (map (Pair l) es @ es', r', (if ms' = [] then lad' else (l, ms') # lad')))"

definition ladder_quantity :: "ladder \<Rightarrow> nat" where
  "ladder_quantity lad = sum_list (map (quantity_of \<circ> snd) lad)"

definition ladder_ok :: "ladder \<Rightarrow> bool" where
  "ladder_ok lad \<longleftrightarrow> (\<forall>(l, ms) \<in> set lad. ms \<noteq> [] \<and> list_all maker_ok ms)"

text \<open>The levels a taker with a limit may trade at.\<close>

definition crossing :: "side \<Rightarrow> nat option \<Rightarrow> ladder \<Rightarrow> ladder" where
  "crossing ts limit lad = takeWhile (\<lambda>(l, ms). within ts limit l) lad"

lemma ladder_quantity_simps [simp]:
  "ladder_quantity [] = 0" "ladder_quantity ((l, ms) # lad) = quantity_of ms + ladder_quantity lad"
  by (simp_all add: ladder_quantity_def)

lemma ladder_ok_simps [simp]:
  "ladder_ok []" "ladder_ok ((l, ms) # lad) \<longleftrightarrow> ms \<noteq> [] \<and> list_all maker_ok ms \<and> ladder_ok lad"
  by (auto simp: ladder_ok_def)

lemma executed_Pair [simp]: "executed (map snd (map (Pair l) es)) = executed es"
  by (simp add: o_def)

lemma map_snd_Pair [simp]: "map snd (map (Pair l) es) = es"
  by (simp add: o_def)

lemma fill_ladder_zero [simp]: "fill_ladder ts limit 0 lad = ([], 0, lad)"
  by (cases lad) auto

lemma quantity_pos: "list_all maker_ok ms \<Longrightarrow> ms \<noteq> [] \<Longrightarrow> 0 < quantity_of ms"
proof (cases ms)
  case (Cons m ms')
  assume "list_all maker_ok ms"
  then have "0 < unat (mk_disp m)" "unat (mk_disp m) \<le> unat (mk_rem m)"
    using Cons by (simp_all add: maker_ok_def unat_gt_0 word_le_nat_alt)
  then show ?thesis using Cons by simp
qed simp

lemma fill_ladder_conserves:
  assumes "fill_ladder ts limit r lad = (es, r', lad')" "ladder_ok lad"
  shows "unat r = executed (map snd es) + unat r' \<and>
    ladder_quantity lad = executed (map snd es) + ladder_quantity lad' \<and> ladder_ok lad' \<and>
    executed (map snd es) = min (unat r) (ladder_quantity (crossing ts limit lad))"
  using assms
proof (induction ts limit r lad arbitrary: es r' lad' rule: fill_ladder.induct)
  case (2 ts limit r l ms lad)
  show ?case
  proof (cases "r = 0 \<or> \<not> within ts limit l")
    case False
    obtain es1 r1 ms' where f: "fill r ms = (es1, r1, ms')" by (metis prod_cases3)
    obtain es2 lad2 where g: "fill_ladder ts limit r1 lad = (es2, r', lad2)"
      "es = map (Pair l) es1 @ es2" "lad' = (if ms' = [] then lad2 else (l, ms') # lad2)"
      using "2.prems"(1) False f by (auto split: prod.splits)
    have ok: "list_all maker_ok ms" "ladder_ok lad" using "2.prems"(2) by auto
    note c = fill_conserves [OF f ok(1)]
    have ih: "unat r1 = executed (map snd es2) + unat r' \<and>
      ladder_quantity lad = executed (map snd es2) + ladder_quantity lad2 \<and> ladder_ok lad2 \<and>
      executed (map snd es2) = min (unat r1) (ladder_quantity (crossing ts limit lad))"
      using "2.IH" [OF False f [symmetric] refl refl g(1) ok(2)] .
    have cr: "crossing ts limit ((l, ms) # lad) = (l, ms) # crossing ts limit lad"
      using False by (simp add: crossing_def)
    have ok2: "ladder_ok lad2" using ih by blast
    have q: "ladder_quantity lad' = quantity_of ms' + ladder_quantity lad2" "ladder_ok lad'"
      unfolding g(3) using ok2 c(3) by auto
    have x: "executed (map snd es) = executed es1 + executed (map snd es2)"
      by (simp add: g(2) o_def)
    have m: "r1 = 0 \<or> executed es1 = quantity_of ms" using c(2,4) by (cases "r1 = 0") auto
    have ih': "unat r1 = executed (map snd es2) + unat r'"
      "ladder_quantity lad = executed (map snd es2) + ladder_quantity lad2"
      "executed (map snd es2) = min (unat r1) (ladder_quantity (crossing ts limit lad))"
      using ih by blast+
    have z: "unat r1 = 0 \<or> executed es1 = quantity_of ms" using m by auto
    show ?thesis
    proof (intro conjI)
      show "unat r = executed (map snd es) + unat r'" using x c(1) ih'(1) by linarith
      show "ladder_quantity ((l, ms) # lad) = executed (map snd es) + ladder_quantity lad'"
        unfolding ladder_quantity_simps using x c(2) ih'(2) q(1) by linarith
      show "executed (map snd es) = min (unat r) (ladder_quantity (crossing ts limit ((l, ms) # lad)))"
        unfolding cr ladder_quantity_simps using x z ih'(3) c(1,2) by linarith
    qed (rule q(2))
  qed (use 2 in \<open>auto simp: crossing_def\<close>)
qed (simp add: crossing_def)

end
