(* ===== verification/Order_Book_Match.thy ===== *)
theory Order_Book_Match
  imports Fifo_Spec
begin

text \<open>
  The matching loops of the book refine the list specification: under the FIFO allocation, with
  room in the trade buffer and no maker of the taker's own, \<^verbatim>\<open>match\<close> returns, and what it leaves in the
  arrays and in the trade buffer is what \<open>fill_ladder\<close> computes on the ladder.
\<close>

section \<open>Views\<close>

lemma setq_setq [simp]: "setq (setq Q s l a) s l c = setq Q s l c"
  by (simp add: setq_def)

lemma map_requeue: "map f (requeue e m xs x ys) = requeue e m (map f xs) (f x) (map f ys)"
  by (simp add: requeue_def)

lemma set_requeue: "set (requeue e m xs x ys) \<subseteq> set (xs @ x # ys)"
  by (auto simp: requeue_def)

lemma rep_maker_ok: "book_rep b Q S X \<Longrightarrow> i \<in> set (Q s l) \<Longrightarrow> maker_ok (maker_of b i)"
  using rep_active [of b Q S X i s l] by (simp add: active_ok_def maker_ok_def)

lemma rep_distinct: "book_rep b Q S X \<Longrightarrow> distinct (Q s l)"
proof (cases "l < ticks b")
  case True
  assume "book_rep b Q S X"
  then show ?thesis using rep_level [of b Q S X l s] True by (auto simp: level_rep_def dest: dll_distinct)
qed (simp add: book_rep_def)

definition makers :: "book \<Rightarrow> nat list \<Rightarrow> maker list" where
  "makers b q = map (maker_of b) q"

lemma makers_simps [simp]: "makers b [] = []" "makers b (i # q) = maker_of b i # makers b q"
  "makers b (p @ q) = makers b p @ makers b q"
  by (simp_all add: makers_def)

lemma map_slot_makers [simp]: "map mk_slot (makers b q) = q"
  by (simp add: makers_def o_def)

lemma makers_eq_Nil [simp]: "makers b q = [] \<longleftrightarrow> q = []"
  by (simp add: makers_def)

lemma makers_cong: "(\<And>i. i \<in> set q \<Longrightarrow> maker_of b' i = maker_of b i) \<Longrightarrow> makers b' q = makers b q"
  by (simp add: makers_def)

text \<open>The reports of a list of executions at one price.\<close>

definition reports :: "side \<Rightarrow> order_id \<Rightarrow> price \<Rightarrow> (maker \<times> u64) list \<Rightarrow> (nat \<times> trade) list \<Rightarrow> (nat \<times> trade) list" where
  "reports ts tid p es acc = foldl (\<lambda>a (m, e). tally a (mk_slot m) (make_trade ts tid (mk_id m) p e)) acc es"

lemma reports_simps [simp]: "reports ts tid p [] acc = acc"
  "reports ts tid p ((m, e) # es) acc = reports ts tid p es (tally acc (mk_slot m) (make_trade ts tid (mk_id m) p e))"
  by (simp_all add: reports_def)

lemma length_reports: "length acc \<le> length (reports ts tid p es acc)"
proof (induction es arbitrary: acc)
  case (Cons a es)
  obtain m e where a: "a = (m, e)" by (cases a)
  have "length acc \<le> length (tally acc (mk_slot m) (make_trade ts tid (mk_id m) p e))" by (simp add: length_tally)
  also have "\<dots> \<le> length (reports ts tid p (a # es) acc)" using Cons by (simp add: a)
  finally show ?case .
qed simp

section \<open>One level\<close>

definition self_maker :: "book \<Rightarrow> trader_id \<Rightarrow> maker \<Rightarrow> bool" where
  "self_maker b trader m \<longleftrightarrow> ob_self_trade_policy b = STP_Cancel_Taker \<and> mk_trader m = trader"

lemma would_self_trade_at_maker: "would_self_trade_at b trader i = self_maker b trader (maker_of b i)"
  by (simp add: would_self_trade_at_def self_maker_def)

text \<open>What the match of one level, and of the ladder, has changed.\<close>

definition exec_to :: "exec \<Rightarrow> exec \<Rightarrow> nat \<Rightarrow> nat set \<Rightarrow> bool" where
  "exec_to x x' c I \<longleftrightarrow> exec_frame (ex_book x) (ex_book x') \<and> length (ex_trades x') = length (ex_trades x) \<and>
     take c (ex_trades x') = take c (ex_trades x) \<and>
     (\<forall>j. j \<notin> I \<longrightarrow> maker_of (ex_book x') j = maker_of (ex_book x) j)"

lemma exec_to_refl [simp]: "exec_to x x c I"
  by (simp add: exec_to_def)

lemma exec_to_trans: "exec_to x y c I \<Longrightarrow> exec_to y z c J \<Longrightarrow> I \<subseteq> K \<Longrightarrow> J \<subseteq> K \<Longrightarrow> exec_to x z c K"
proof -
  assume a: "exec_to x y c I" "exec_to y z c J" "I \<subseteq> K" "J \<subseteq> K"
  have "maker_of (ex_book z) j = maker_of (ex_book x) j" if "j \<notin> K" for j
    using a that by (metis exec_to_def subsetD)
  moreover have "exec_frame (ex_book x) (ex_book z)" using a(1,2) exec_frame_trans unfolding exec_to_def by blast
  ultimately show ?thesis using a(1,2) by (simp add: exec_to_def)
qed

lemma exec_frame_env: "exec_frame b b' \<Longrightarrow> same_env b b'"
  by (simp add: exec_frame_def)

text \<open>One round of the loop against the head of the queue, when there is room for its report.\<close>

lemma match_level_fifo_step:
  assumes rep: "book_rep (ex_book x) Q S X" and ro: "report_ok x c acc" and s: "s = opposite_side ts"
    and l: "l < ticks (ex_book x)" and q: "Q s l = i # q" and m: "m = maker_of (ex_book x) i"
    and self: "\<not> self_maker (ex_book x) trader m" and r: "ex_remaining x \<noteq> 0"
    and p: "p = pd_minimum (ob_domain (ex_book x)) + int l" and e: "e = min (ex_remaining x) (mk_disp m)"
    and room: "i \<in> fst ` set acc \<or> ex_count x < length (ex_trades x)"
  obtains y where "match_level_fifo tid trader ts l x = match_level_fifo tid trader ts l y"
    "book_rep (ex_book y) (setq Q s l (requeue e m [] i q)) S X"
    "makers (ex_book y) (requeue e m [] i q) = requeue e m [] (reduced e m) (makers (ex_book x) q)"
    "report_ok y c (tally acc i (make_trade ts tid (mk_id m) p e))" "ex_remaining y = ex_remaining x - e"
    "exec_to x y c (set (Q s l))" "ob_last_execution_price (ex_book y) = Some p"
proof -
  let ?b = "ex_book x"
  have lr: "level_rep ?b s l (Q s l)" using rep_level [OF rep l] .
  have head: "pl_head (level ?b s l) = i" "i \<noteq> kInvalidIndex"
    using lr unfolding q level_rep_def dll_def by auto
  have mok: "maker_ok m" unfolding m by (rule rep_maker_ok [OF rep, of _ s l]) (simp add: q)
  have e0: "e \<noteq> 0" "e \<le> o_disp ?b i" using r mok by (auto simp: e min_def maker_ok_def m)
  obtain y where y: "execute_match tid ts l i e x = ret y"
    "book_rep (ex_book y) (setq Q s l (requeue e (maker_of ?b i) [] i q)) S X"
    "report_ok y c (tally acc i (make_trade ts tid (mk_id m) p e))"
    "ex_remaining y = ex_remaining x - e" "length (ex_trades y) = length (ex_trades x)"
    "take c (ex_trades y) = take c (ex_trades x)"
    "\<And>j. j \<noteq> i \<Longrightarrow> maker_of (ex_book y) j = maker_of ?b j"
    "e \<noteq> o_rem ?b i \<Longrightarrow> maker_of (ex_book y) i = reduced e (maker_of ?b i)"
    "exec_frame ?b (ex_book y)" "ob_last_execution_price (ex_book y) = Some p"
    by (rule execute_match_ok [OF rep ro s, of l "[]" i q e tid]) (use q e0 room in \<open>simp_all add: m p\<close>)
  show thesis
  proof (rule that)
    have "\<not> would_self_trade_at ?b trader i" using self by (simp add: would_self_trade_at_maker m)
    moreover have "min (ex_remaining x) (o_disp ?b i) = e" by (simp add: e m)
    ultimately show "match_level_fifo tid trader ts l x = match_level_fifo tid trader ts l y"
      using r head s y(1) by (subst match_level_fifo.simps) (simp add: Let_def)
    have iq: "i \<notin> set q" using rep_distinct [OF rep, of s l] q by simp
    have "makers (ex_book y) q = makers ?b q" by (rule makers_cong, rule y(7)) (use iq in auto)
    moreover have "e \<noteq> mk_rem m \<Longrightarrow> maker_of (ex_book y) i = reduced e m" using y(8) by (simp add: m)
    ultimately show "makers (ex_book y) (requeue e m [] i q) = requeue e m [] (reduced e m) (makers ?b q)"
      by (auto simp: requeue_def)
    show "exec_to x y c (set (Q s l))" using y(5,6,7,9) q by (auto simp: exec_to_def)
  qed (use y m in simp_all)
qed

text \<open>Without room the same round writes past the end of the buffer.\<close>

lemma match_level_fifo_step_overflow:
  assumes rep: "book_rep (ex_book x) Q S X" and ro: "report_ok x c acc" and s: "s = opposite_side ts"
    and l: "l < ticks (ex_book x)" and q: "Q s l = i # q"
    and self: "\<not> self_maker (ex_book x) trader (maker_of (ex_book x) i)" and r: "ex_remaining x \<noteq> 0"
    and room: "i \<notin> fst ` set acc" "\<not> ex_count x < length (ex_trades x)"
  shows "match_level_fifo tid trader ts l x = crash Trade_Buffer_Overflow"
proof -
  have "level_rep (ex_book x) s l (Q s l)" using rep_level [OF rep l] .
  then have "pl_head (level (ex_book x) s l) = i" "i \<noteq> kInvalidIndex" unfolding q level_rep_def dll_def by auto
  moreover have "execute_match tid ts l i e x = crash Trade_Buffer_Overflow" for e
    by (rule execute_match_overflow [OF rep ro _ room, of s l]) (simp add: q)
  ultimately show ?thesis using r s self
    by (subst match_level_fifo.simps) (simp add: Let_def would_self_trade_at_maker)
qed

lemma match_level_fifo_stop:
  assumes "book_rep (ex_book x) Q S X" "s = opposite_side ts" "l < ticks (ex_book x)" "Q s l = [] \<or> ex_remaining x = 0"
  shows "match_level_fifo tid trader ts l x = ret x"
proof (cases "ex_remaining x = 0")
  case True
  then show ?thesis by (subst match_level_fifo.simps) (simp add: Let_def)
next
  case False
  then have "pl_head (level (ex_book x) s l) = kInvalidIndex"
    using rep_level [OF assms(1,3), of s] assms(4) by (auto simp: level_rep_def)
  then show ?thesis using assms(2) by (subst match_level_fifo.simps) (simp add: Let_def)
qed

lemma fill_Cons:
  assumes "fill r (m # ms) = (es, r', ms')" "r \<noteq> 0" "maker_ok m"
  obtains es1 where "fill (r - min r (mk_disp m)) (requeue (min r (mk_disp m)) m [] (reduced (min r (mk_disp m)) m) ms) = (es1, r', ms')"
    "es = (m, min r (mk_disp m)) # es1"
  using assms by (auto simp: fill.simps(2) Let_def maker_ok_def split: prod.splits)

lemma requeue_self:
  "\<forall>m' \<in> set (m # ms). \<not> self_maker b trader m' \<Longrightarrow> same_env b b' \<Longrightarrow>
     \<forall>m' \<in> set (requeue e m [] (reduced e m) ms). \<not> self_maker b' trader m'"
  by (auto simp: requeue_def self_maker_def same_env_def split: if_splits)

text \<open>
  The level as a whole: the buffer has room for the reports of \<open>fill\<close> and the result is that of
  \<open>fill\<close>, or it has not and the loop ends in the overflow.
\<close>

lemma match_level_fifo_total:
  assumes "fill (ex_remaining x) ms = (es, r', ms')"
    and "book_rep (ex_book x) Q S X" and "report_ok x c acc" and "s = opposite_side ts" and "l < ticks (ex_book x)"
    and "makers (ex_book x) (Q s l) = ms" and "\<forall>m \<in> set ms. \<not> self_maker (ex_book x) trader m"
    and "p = pd_minimum (ob_domain (ex_book x)) + int l"
  shows "if c + length (reports ts tid p es acc) \<le> length (ex_trades x)
    then \<exists>x' q'. match_level_fifo tid trader ts l x = ret x' \<and> book_rep (ex_book x') (setq Q s l q') S X \<and>
      makers (ex_book x') q' = ms' \<and> report_ok x' c (reports ts tid p es acc) \<and> ex_remaining x' = r' \<and>
      exec_to x x' c (set (Q s l)) \<and> set q' \<subseteq> set (Q s l) \<and>
      ob_last_execution_price (ex_book x') = (if es = [] then ob_last_execution_price (ex_book x) else Some p)
    else match_level_fifo tid trader ts l x = crash Trade_Buffer_Overflow"
  using assms
proof (induction "ex_remaining x" ms arbitrary: x es r' ms' Q acc rule: fill.induct)
  case (1 x)
  have "match_level_fifo tid trader ts l x = ret x" using match_level_fifo_stop [OF 1(2,4,5)] 1(6) by simp
  moreover have "ex_count x \<le> length (ex_trades x)" "ex_count x = c + length acc" using 1(3) by (auto simp: report_ok_def)
  ultimately show ?case using 1 setq_same [of Q s l] by (auto intro!: exI [of _ x] exI [of _ "[]"])
next
  case (2 m ms x)
  let ?b = "ex_book x"
  note fil = 2(2) and rep = 2(3) and ro = 2(4) and s = 2(5) and l = 2(6) and mks = 2(7) and self = 2(8) and p = 2(9)
  obtain i q where q: "Q s l = i # q" and m: "m = maker_of ?b i" and ms: "ms = makers ?b q"
    using mks by (cases "Q s l") auto
  have mok: "maker_ok m" unfolding m by (rule rep_maker_ok [OF rep, of _ s l]) (simp add: q)
  have cnt: "ex_count x = c + length acc" "ex_count x \<le> length (ex_trades x)" using ro by (auto simp: report_ok_def)
  show ?case
  proof (cases "ex_remaining x = 0")
    case True
    then have "match_level_fifo tid trader ts l x = ret x" using match_level_fifo_stop [OF rep s l] by simp
    then show ?thesis using True fil rep ro mks cnt setq_same [of Q s l]
      by (auto simp: fill.simps(2) intro!: exI [of _ x] exI [of _ "Q s l"])
  next
    case False
    define e where "e = min (ex_remaining x) (mk_disp m)"
    have disp: "mk_disp m \<noteq> 0" using mok by (simp add: maker_ok_def)
    obtain es1 where f: "fill (ex_remaining x - e) (requeue e m [] (reduced e m) ms) = (es1, r', ms')"
      and es: "es = (m, e) # es1" using fill_Cons [OF fil False mok] unfolding e_def by metis
    let ?acc = "tally acc i (make_trade ts tid (mk_id m) p e)"
    have rep_acc: "reports ts tid p es acc = reports ts tid p es1 ?acc" by (simp add: es m)
    have len: "length ?acc \<le> length (reports ts tid p es acc)" unfolding rep_acc by (rule length_reports)
    show ?thesis
    proof (cases "i \<in> fst ` set acc \<or> ex_count x < length (ex_trades x)")
      case room: True
      obtain y where y: "match_level_fifo tid trader ts l x = match_level_fifo tid trader ts l y"
        "book_rep (ex_book y) (setq Q s l (requeue e m [] i q)) S X"
        "makers (ex_book y) (requeue e m [] i q) = requeue e m [] (reduced e m) (makers ?b q)"
        "report_ok y c ?acc" "ex_remaining y = ex_remaining x - e"
        "exec_to x y c (set (Q s l))" "ob_last_execution_price (ex_book y) = Some p"
        by (rule match_level_fifo_step [OF rep ro s l q m _ False p e_def room, of trader tid]) (use self in auto)
      let ?Q = "setq Q s l (requeue e m [] i q)"
      have env: "same_env ?b (ex_book y)" using y(6) by (simp add: exec_to_def exec_frame_def)
      have sub: "set (?Q s l) \<subseteq> set (Q s l)" using set_requeue [of e m "[]" i q] by (simp add: q)
      have lent: "length (ex_trades y) = length (ex_trades x)" using y(6) by (simp add: exec_to_def)
      have ih: "if c + length (reports ts tid p es1 ?acc) \<le> length (ex_trades y)
        then \<exists>x' q'. match_level_fifo tid trader ts l y = ret x' \<and> book_rep (ex_book x') (setq ?Q s l q') S X \<and>
          makers (ex_book x') q' = ms' \<and> report_ok x' c (reports ts tid p es1 ?acc) \<and> ex_remaining x' = r' \<and>
          exec_to y x' c (set (?Q s l)) \<and> set q' \<subseteq> set (?Q s l) \<and>
          ob_last_execution_price (ex_book x') = (if es1 = [] then ob_last_execution_price (ex_book y) else Some p)
        else match_level_fifo tid trader ts l y = crash Trade_Buffer_Overflow"
      proof (rule "2.hyps" [OF _ e_def])
        show "fill (ex_remaining y) (requeue e m [] (reduced e m) ms) = (es1, r', ms')" using f y(5) by simp
        show "book_rep (ex_book y) ?Q S X" by (rule y(2))
        show "makers (ex_book y) (?Q s l) = requeue e m [] (reduced e m) ms" using y(3) ms by simp
        show "\<forall>m \<in> set (requeue e m [] (reduced e m) ms). \<not> self_maker (ex_book y) trader m"
          by (rule requeue_self [OF self env])
      qed (use False disp y(4,5) s l env p in \<open>auto simp: same_env_def\<close>)
      show ?thesis
      proof (cases "c + length (reports ts tid p es acc) \<le> length (ex_trades x)")
        case True
        then obtain x' q' where ih: "match_level_fifo tid trader ts l y = ret x'" "book_rep (ex_book x') (setq ?Q s l q') S X"
          "makers (ex_book x') q' = ms'" "report_ok x' c (reports ts tid p es1 ?acc)" "ex_remaining x' = r'"
          "exec_to y x' c (set (?Q s l))" "set q' \<subseteq> set (?Q s l)"
          "ob_last_execution_price (ex_book x') = (if es1 = [] then ob_last_execution_price (ex_book y) else Some p)"
          using ih unfolding rep_acc lent by (simp only: if_True) blast
        have "exec_to x x' c (set (Q s l))" by (rule exec_to_trans [OF y(6) ih(6) _ sub]) simp
        then show ?thesis unfolding rep_acc using True ih sub y(1,7) es unfolding rep_acc
          by (simp only: if_True) (intro exI [of _ x'] exI [of _ q'], auto)
      next
        case False
        then show ?thesis using ih y(1) lent unfolding rep_acc by simp
      qed
    next
      case full: False
      then have "match_level_fifo tid trader ts l x = crash Trade_Buffer_Overflow"
        using match_level_fifo_step_overflow [OF rep ro s l q _ False] self m by simp
      moreover have "\<not> c + length (reports ts tid p es acc) \<le> length (ex_trades x)"
        using full len cnt by (auto simp: length_tally)
      ultimately show ?thesis by simp
    qed
  qed
qed

section \<open>The ladder of a book\<close>

definition priority :: "side \<Rightarrow> nat \<Rightarrow> nat list" where
  "priority s n = (if s = Sell then [0..<n] else rev [0..<n])"

definition ladder_of :: "book \<Rightarrow> queues \<Rightarrow> side \<Rightarrow> ladder" where
  "ladder_of b Q s = map (\<lambda>l. (l, makers b (Q s l))) (filter (\<lambda>l. Q s l \<noteq> []) (priority s (ticks b)))"

fun better :: "side \<Rightarrow> nat \<Rightarrow> nat \<Rightarrow> bool" where
  "better Sell l k \<longleftrightarrow> l < k"
| "better Buy l k \<longleftrightarrow> k < l"

lemma priority_distinct [simp]: "distinct (priority s n)" and priority_set [simp]: "set (priority s n) = {..<n}"
  by (auto simp: priority_def)

lemma priority_sorted: "sorted_wrt (better s) (priority s n)"
proof (cases s)
  case Buy
  have e: "better Buy = (\<lambda>x y. y < x)" by (auto simp: fun_eq_iff)
  show ?thesis unfolding Buy e by (simp add: priority_def sorted_wrt_rev)
next
  case Sell
  have e: "better Sell = (<)" by (auto simp: fun_eq_iff)
  show ?thesis unfolding Sell e by (simp add: priority_def)
qed

lemma best_index_ladder:
  assumes rep: "book_rep b Q S X"
  shows "best_index b s = (case ladder_of b Q s of [] \<Rightarrow> None | (l, _) # _ \<Rightarrow> Some l)"
proof -
  note sh = rep_shape [OF rep]
  let ?E = "bm_elems (occupancy b s)" and ?f = "filter (\<lambda>l. Q s l \<noteq> []) (priority s (ticks b))"
  have E: "?E = set ?f" using rep by (auto simp: book_rep_def not_le [symmetric])
  have bi: "best_index b s = (case s of Buy \<Rightarrow> last_set (occupancy b s) | Sell \<Rightarrow> first_set (occupancy b s))"
    by (cases s) (simp_all add: best_index.simps occupancy.simps)
  show ?thesis
  proof (cases ?f)
    case Nil
    then have "?E = {}" using E by simp
    then have "best_index b s = None"
      unfolding bi using bm.least_eq_None_iff [OF shape_occ(1) [OF sh]] bm.greatest_eq_None_iff [OF shape_occ(1) [OF sh]]
      by (cases s) auto
    then show ?thesis using Nil by (simp add: ladder_of_def)
  next
    case (Cons l ls)
    have "sorted_wrt (better s) ?f" by (rule sorted_wrt_filter [OF priority_sorted])
    then have "\<forall>k \<in> set ls. better s l k" unfolding Cons by simp
    moreover have "?E = insert l (set ls)" using E Cons by simp
    ultimately have "best_index b s = Some l"
      unfolding bi using bm.least_eq_Some_iff [OF shape_occ(1) [OF sh], of s l] bm.greatest_eq_Some_iff [OF shape_occ(1) [OF sh], of s l]
      by (cases s) (auto intro: less_imp_le)
    then show ?thesis using Cons by (simp add: ladder_of_def)
  qed
qed

lemma filter_setq:
  assumes "filter (\<lambda>k. Q s k \<noteq> []) L = l # ks" "distinct L"
  shows "filter (\<lambda>k. setq Q s l q s k \<noteq> []) L = (if q = [] then ks else l # ks)"
proof (cases "q = []")
  case True
  have d: "l \<notin> set ks" using distinct_filter [OF assms(2), of "\<lambda>k. Q s k \<noteq> []"] unfolding assms(1) by simp
  have "filter (\<lambda>k. setq Q s l q s k \<noteq> []) L = filter (\<lambda>k. k \<noteq> l) (filter (\<lambda>k. Q s k \<noteq> []) L)"
    using True by (simp add: conj_commute) (rule filter_cong, auto)
  moreover have "filter (\<lambda>k. k \<noteq> l) ks = ks" using d by (auto simp: filter_id_conv)
  ultimately show ?thesis using True unfolding assms(1) by simp
next
  case False
  have l: "Q s l \<noteq> []" using assms(1) by (metis (mono_tags, lifting) filter_eq_ConsD)
  have "filter (\<lambda>k. setq Q s l q s k \<noteq> []) L = filter (\<lambda>k. Q s k \<noteq> []) L"
    by (rule filter_cong) (use False l in auto)
  then show ?thesis using False assms(1) by simp
qed

lemma ladder_of_cong:
  assumes "ticks b' = ticks b" "\<And>l. Q' s l = Q s l" "\<And>l i. i \<in> set (Q s l) \<Longrightarrow> maker_of b' i = maker_of b i"
  shows "ladder_of b' Q' s = ladder_of b Q s"
  using assms makers_cong [of _ b' b] by (simp add: ladder_of_def)

lemma ladder_of_setq:
  assumes rep: "book_rep b Q S X" and lad: "ladder_of b Q s = (l, ms) # tl0" and t: "ticks b' = ticks b"
    and same: "\<And>j. j \<notin> set (Q s l) \<Longrightarrow> maker_of b' j = maker_of b j"
  shows "ladder_of b' (setq Q s l q) s = (if q = [] then tl0 else (l, makers b' q) # tl0)"
proof -
  obtain ks where f: "filter (\<lambda>k. Q s k \<noteq> []) (priority s (ticks b)) = l # ks"
    and r: "tl0 = map (\<lambda>k. (k, makers b (Q s k))) ks" and ms: "ms = makers b (Q s l)"
    using lad by (auto simp: ladder_of_def Cons_eq_map_conv)
  have d: "l \<notin> set ks" using distinct_filter [OF priority_distinct, of "\<lambda>k. Q s k \<noteq> []" s "ticks b"] unfolding f by simp
  have "makers b' (setq Q s l q s k) = makers b (Q s k)" if "k \<in> set ks" for k
  proof -
    have "k \<noteq> l" using that d by auto
    then have "setq Q s l q s k = Q s k" by simp
    moreover have "makers b' (Q s k) = makers b (Q s k)"
      by (rule makers_cong, rule same) (use rep_disjoint [OF rep] \<open>k \<noteq> l\<close> in blast)
    ultimately show ?thesis by simp
  qed
  then show ?thesis
    unfolding ladder_of_def t filter_setq [of Q s, OF f priority_distinct] r by auto
qed

section \<open>The ladder loop\<close>

fun ladder_reports :: "side \<Rightarrow> order_id \<Rightarrow> price \<Rightarrow> (nat \<times> maker \<times> u64) list \<Rightarrow> (nat \<times> trade) list \<Rightarrow> (nat \<times> trade) list" where
  "ladder_reports ts tid base [] acc = acc"
| "ladder_reports ts tid base ((l, m, e) # es) acc =
     ladder_reports ts tid base es (tally acc (mk_slot m) (make_trade ts tid (mk_id m) (base + int l) e))"

lemma ladder_reports_append:
  "ladder_reports ts tid base (es @ es') acc = ladder_reports ts tid base es' (ladder_reports ts tid base es acc)"
  by (induction es acc rule: ladder_reports.induct) simp_all

lemma ladder_reports_level: "ladder_reports ts tid base (map (Pair l) es) acc = reports ts tid (base + int l) es acc"
  by (induction es arbitrary: acc) auto

lemma length_ladder_reports: "length acc \<le> length (ladder_reports ts tid base es acc)"
proof (induction es acc rule: ladder_reports.induct)
  case (2 ts tid base l m e es acc)
  then show ?case by (simp add: length_tally split: if_splits)
qed simp

definition last_price :: "price \<Rightarrow> (nat \<times> maker \<times> u64) list \<Rightarrow> price option \<Rightarrow> price option" where
  "last_price base es old = (if es = [] then old else Some (base + int (fst (last es))))"

lemma rep_list_ok: "book_rep b Q S X \<Longrightarrow> list_all maker_ok (makers b (Q s l))"
  by (auto simp: list_all_iff makers_def rep_maker_ok)

lemma fill_nonempty:
  assumes "fill r ms = (es, r', ms')" "list_all maker_ok ms" "ms \<noteq> []" "r \<noteq> 0"
  shows "es \<noteq> []"
proof
  assume "es = []"
  then have "min (unat r) (quantity_of ms) = 0" using fill_executed [OF assms(1,2)] by simp
  moreover have "0 < unat r" using assms(4) by (simp add: unat_gt_0)
  ultimately show False using quantity_pos [OF assms(2,3)] by simp
qed

text \<open>The statement about the loop from state \<open>x\<close>, with the result of \<open>fill_ladder\<close> as its arguments.\<close>

definition loop_result :: "order_id \<Rightarrow> trader_id \<Rightarrow> side \<Rightarrow> nat option \<Rightarrow> nat list \<Rightarrow> nat set \<Rightarrow> nat \<Rightarrow> exec \<Rightarrow> queues \<Rightarrow>
    (nat \<times> maker \<times> u64) list \<Rightarrow> u64 \<Rightarrow> ladder \<Rightarrow> (nat \<times> trade) list \<Rightarrow> exec \<Rightarrow> queues \<Rightarrow> bool" where
  "loop_result tid trader ts limit S X c x Q es r' lad' acc' x' Q' \<longleftrightarrow>
     (let s = opposite_side ts in match_loop tid trader ts limit x = ret x' \<and> book_rep (ex_book x') Q' S X \<and>
      ladder_of (ex_book x') Q' s = lad' \<and> Q' ts = Q ts \<and>
      report_ok x' c acc' \<and> ex_remaining x' = r' \<and>
      exec_to x x' c (\<Union>l. set (Q s l)) \<and> (\<forall>l. set (Q' s l) \<subseteq> set (Q s l)) \<and>
      ob_last_execution_price (ex_book x') =
        last_price (pd_minimum (ob_domain (ex_book x))) es (ob_last_execution_price (ex_book x)))"

lemma opposite_neq [simp]: "opposite_side s \<noteq> s" "s \<noteq> opposite_side s"
  by (cases s; simp)+

lemma opposite_opposite [simp]: "opposite_side (opposite_side s) = s"
  by (cases s) simp_all

lemma loop_result_refl:
  assumes "match_loop tid trader ts limit x = ret x" "book_rep (ex_book x) Q S X"
    "ladder_of (ex_book x) Q (opposite_side ts) = lad" "report_ok x c acc"
  shows "loop_result tid trader ts limit S X c x Q [] (ex_remaining x) lad acc x Q"
  using assms by (simp add: loop_result_def last_price_def Let_def)

lemma match_loop_total:
  assumes "ladder_of (ex_book x) Q s = lad" and "fill_ladder ts limit (ex_remaining x) lad = (es, r', lad')"
    and "book_rep (ex_book x) Q S X" and "report_ok x c acc" and "s = opposite_side ts"
    and "ob_allocation_mode (ex_book x) \<noteq> Threshold_Pro_Rata"
    and "\<forall>(l, ms) \<in> set (crossing ts limit lad). \<forall>m \<in> set ms. \<not> self_maker (ex_book x) trader m"
    and "base = pd_minimum (ob_domain (ex_book x))"
  shows "if c + length (ladder_reports ts tid base es acc) \<le> length (ex_trades x)
    then \<exists>x' Q'. loop_result tid trader ts limit S X c x Q es r' lad' (ladder_reports ts tid base es acc) x' Q'
    else match_loop tid trader ts limit x = crash Trade_Buffer_Overflow"
  using assms
proof (induction lad arbitrary: x Q acc es r' lad')
  case Nil
  have "best_index (ex_book x) s = None" using best_index_ladder [OF Nil(3), of s] Nil(1) by simp
  then have "match_loop tid trader ts limit x = ret x" using Nil(5) by (subst match_loop.simps) simp
  moreover have "c + length acc \<le> length (ex_trades x)" using Nil(4) by (auto simp: report_ok_def)
  ultimately show ?case using Nil loop_result_refl [of tid trader ts limit x Q S X "[]" c acc] by auto
next
  case (Cons a lad)
  obtain l ms where a: "a = (l, ms)" by (cases a)
  let ?b = "ex_book x"
  note lad = Cons(2) [unfolded a] and fil = Cons(3) [unfolded a] and rep = Cons(4) and ro = Cons(5) and s = Cons(6)
    and mode = Cons(7) and self = Cons(8) [unfolded a] and base = Cons(9)
  have bestts: "best_index ?b (opposite_side ts) = Some l" using best_index_ladder [OF rep, of s] lad s by simp
  have cnt: "c + length acc \<le> length (ex_trades x)" using ro by (auto simp: report_ok_def)
  show ?case
  proof (cases "ex_remaining x = 0 \<or> \<not> within ts limit l")
    case True
    have "match_loop tid trader ts limit x = ret x"
      using True bestts by (subst match_loop.simps) (cases limit; auto)
    then have "loop_result tid trader ts limit S X c x Q [] (ex_remaining x) ((l, ms) # lad) acc x Q"
      using loop_result_refl rep lad ro s by blast
    then show ?thesis using True fil cnt by auto
  next
    case False
    obtain es1 r1 ms' where f: "fill (ex_remaining x) ms = (es1, r1, ms')" by (metis prod_cases3)
    obtain es2 lad2 where g: "fill_ladder ts limit r1 lad = (es2, r', lad2)"
      "es = map (Pair l) es1 @ es2" "lad' = (if ms' = [] then lad2 else (l, ms') # lad2)"
      using fil False f by (auto split: prod.splits)
    have mem: "l < ticks ?b" "Q s l \<noteq> []" "ms = makers ?b (Q s l)"
    proof -
      have "(l, ms) \<in> set (ladder_of ?b Q s)" unfolding lad by simp
      then show "l < ticks ?b" "Q s l \<noteq> []" "ms = makers ?b (Q s l)" by (auto simp: ladder_of_def)
    qed
    have ok: "list_all maker_ok ms" unfolding mem(3) by (rule rep_list_ok [OF rep])
    let ?p = "base + int l" let ?acc = "reports ts tid ?p es1 acc"
    have racc: "ladder_reports ts tid base es acc = ladder_reports ts tid base es2 ?acc"
      by (simp add: g(2) ladder_reports_append ladder_reports_level)
    have nself: "\<forall>m \<in> set ms. \<not> self_maker ?b trader m" using self False by (auto simp: crossing_def)
    have lev: "match_level tid trader ts l x = match_level_fifo tid trader ts l x" using mode by (simp add: match_level_def)
    have unf: "match_loop tid trader ts limit x =
        run_bind (match_level_fifo tid trader ts l x) (match_loop tid trader ts limit)"
      using False bestts lev by (subst match_loop.simps) (cases limit; auto)
    note level = match_level_fifo_total [OF f rep ro s mem(1) mem(3) [symmetric] nself, of ?p tid]
    show ?thesis
    proof (cases "c + length ?acc \<le> length (ex_trades x)")
      case full: False
      then have "match_loop tid trader ts limit x = crash Trade_Buffer_Overflow" using level base unf by simp
      moreover have "\<not> c + length (ladder_reports ts tid base es acc) \<le> length (ex_trades x)"
        using full length_ladder_reports [of ?acc ts tid base es2] unfolding racc by linarith
      ultimately show ?thesis by simp
    next
      case rm: True
      then obtain y q' where y: "match_level_fifo tid trader ts l x = ret y" "book_rep (ex_book y) (setq Q s l q') S X"
        "makers (ex_book y) q' = ms'" "report_ok y c ?acc" "ex_remaining y = r1"
        "exec_to x y c (set (Q s l))" "set q' \<subseteq> set (Q s l)"
        "ob_last_execution_price (ex_book y) = (if es1 = [] then ob_last_execution_price ?b else Some ?p)"
        using level base by (simp only: if_True) blast
      let ?Q = "setq Q s l q'"
      have unfy: "match_loop tid trader ts limit x = match_loop tid trader ts limit y" using unf y(1) by simp
      have env: "same_env ?b (ex_book y)" using y(6) by (auto simp: exec_to_def dest: exec_frame_env)
      have lent: "length (ex_trades y) = length (ex_trades x)" using y(6) by (simp add: exec_to_def)
      have ladr: "ladder_of (ex_book y) ?Q s = (if q' = [] then lad else (l, ms') # lad)"
        using ladder_of_setq [OF rep lad, of "ex_book y" q'] y(3,6) env by (auto simp: exec_to_def same_env_def)
      have es1: "es1 \<noteq> []" using fill_nonempty [OF f ok] mem(2,3) False by simp
      have Qo: "?Q ts = Q ts" using s by (auto simp: setq_def)
      have sub: "set (?Q s k) \<subseteq> set (Q s k)" for k using y(7) by simp
      have lp: "last_price base es old = last_price base es2 (ob_last_execution_price (ex_book y))" for old
        using y(8) es1 by (auto simp: last_price_def g(2) last_map)
      have chain: "loop_result tid trader ts limit S X c x Q es r' lad' (ladder_reports ts tid base es acc) x' Q'"
        if res: "loop_result tid trader ts limit S X c y ?Q es2 r' lad' (ladder_reports ts tid base es2 ?acc) x' Q'" for x' Q'
      proof -
        have "exec_to x x' c (\<Union>l. set (Q s l))"
          by (rule exec_to_trans [OF y(6), of x' "\<Union>l. set (?Q s l)"])
            (use res s sub in \<open>auto simp: loop_result_def Let_def simp del: setq_apply\<close>)
        moreover have "\<forall>k. set (Q' s k) \<subseteq> set (Q s k)" using res s sub unfolding loop_result_def Let_def by blast
        ultimately show ?thesis using res unfy Qo racc lp base env s
          unfolding loop_result_def Let_def by (simp add: same_env_def del: setq_apply)
      qed
      show ?thesis
      proof (cases "r1 = 0")
        case True
        have z: "es2 = []" "r' = 0" "lad2 = lad" using g(1) True by auto
        have "match_loop tid trader ts limit y = ret y" using True y(5) by (subst match_loop.simps) simp
        moreover have "ladder_of (ex_book y) ?Q s = lad'" using ladr g(3) z y(3) by auto
        ultimately have "loop_result tid trader ts limit S X c y ?Q [] (ex_remaining y) lad' ?acc y ?Q"
          using y(2,4) s loop_result_refl by blast
        then have "loop_result tid trader ts limit S X c x Q es r' lad' (ladder_reports ts tid base es acc) y ?Q"
          using chain z True y(5) by simp
        then show ?thesis using rm racc z by auto
      next
        case more: False
        then have q'e: "q' = []" "ms' = []" using fill_conserves(4) [OF f ok] y(3) by auto
        have "if c + length (ladder_reports ts tid base es2 ?acc) \<le> length (ex_trades y)
          then \<exists>x' Q'. loop_result tid trader ts limit S X c y ?Q es2 r' lad2 (ladder_reports ts tid base es2 ?acc) x' Q'
          else match_loop tid trader ts limit y = crash Trade_Buffer_Overflow"
        proof (rule Cons.IH)
          show "ladder_of (ex_book y) ?Q s = lad" using ladr q'e by simp
          show "fill_ladder ts limit (ex_remaining y) lad = (es2, r', lad2)" using g(1) y(5) by simp
          show "\<forall>(l, ms) \<in> set (crossing ts limit lad). \<forall>m \<in> set ms. \<not> self_maker (ex_book y) trader m"
            using self False env by (auto simp: crossing_def self_maker_def same_env_def)
          show "book_rep (ex_book y) ?Q S X" by (rule y(2))
          show "report_ok y c ?acc" by (rule y(4))
        qed (use s mode env base in \<open>simp_all add: same_env_def\<close>)
        then show ?thesis using chain g(3) q'e unfy racc lent by (auto split: if_splits)
      qed
    qed
  qed
qed

end
