(* ===== verification/Order_Book_View.thy ===== *)
theory Order_Book_View
  imports Order_Book_Match
begin

text \<open>
  The state of an order book as a client sees it, read off the arrays by following the links: the
  queues of makers, the dormant stops in arrival order, the last execution price.  \<open>book_ok\<close> is the
  invariant every operation keeps between commands.
\<close>

section \<open>Reading the queues\<close>

fun walk :: "(nat \<Rightarrow> nat) \<Rightarrow> nat \<Rightarrow> nat \<Rightarrow> nat list" where
  "walk nxt 0 i = []"
| "walk nxt (Suc n) i = (if i = kInvalidIndex then [] else i # walk nxt n (nxt i))"

definition queue_of :: "book \<Rightarrow> queues" where
  "queue_of b s l = (if l < ticks b then walk (o_next b) (slots b) (pl_head (level b s l)) else [])"

definition stop_queue :: "book \<Rightarrow> nat list" where
  "stop_queue b = walk ((!) (ob_stop_next b)) (slots b) (ob_stop_head b)"

lemma walk_dseg:
  assumes "dseg prv nxt p q kInvalidIndex" "kInvalidIndex \<notin> set q" "length q \<le> n"
  shows "walk nxt n (hd (q @ [kInvalidIndex])) = q"
  using assms
proof (induction q arbitrary: n p)
  case Nil
  then show ?case by (cases n) auto
next
  case (Cons i q)
  then show ?case by (cases n) auto
qed

lemma walk_dll: "dll prv nxt h t q \<Longrightarrow> length q \<le> n \<Longrightarrow> walk nxt n h = q"
  by (auto simp: dll_def intro: walk_dseg)

lemma rep_stop_length: assumes "book_rep b Q S X" shows "length S \<le> slots b"
proof -
  have "distinct S" using assms by (auto simp: book_rep_def stop_rep_def dest: dll_distinct)
  moreover have "set S \<subseteq> {..<slots b}" using rep_slot [OF assms] by auto
  ultimately show ?thesis by (metis card_lessThan card_mono distinct_card finite_lessThan)
qed

lemma rep_queue_of: assumes "book_rep b Q S X" shows "queue_of b = Q"
proof (intro ext)
  fix s l
  show "queue_of b s l = Q s l"
  proof (cases "l < ticks b")
    case True
    then have "dll (o_prev b) (o_next b) (pl_head (level b s l)) (pl_tail (level b s l)) (Q s l)"
      using rep_level [OF assms, of l s] by (simp add: level_rep_def)
    then show ?thesis using True queue_length [OF assms] by (simp add: queue_of_def walk_dll)
  next
    case False
    then show ?thesis using assms by (simp add: queue_of_def book_rep_def)
  qed
qed

lemma rep_stop_queue: assumes "book_rep b Q S X" shows "stop_queue b = S"
  using assms rep_stop_length [OF assms] by (auto simp: stop_queue_def book_rep_def stop_rep_def intro: walk_dll)

section \<open>The invariant\<close>

text \<open>No slot carries a report epoch of the future, so a new epoch starts with no report.\<close>

definition epochs_ok :: "book \<Rightarrow> bool" where
  "epochs_ok b \<longleftrightarrow> (\<forall>i < slots b. ob_trade_report_epochs b ! i \<le> ob_trade_report_epoch b)"

definition book_ok :: "book \<Rightarrow> bool" where
  "book_ok b \<longleftrightarrow> book_rep b (queue_of b) (stop_queue b) {} \<and> epochs_ok b"

lemma book_okI: "book_rep b Q S {} \<Longrightarrow> epochs_ok b \<Longrightarrow> book_ok b"
  by (simp add: book_ok_def rep_queue_of rep_stop_queue)

lemma epochs_ok_same: "same_report b b' \<Longrightarrow> same_env b b' \<Longrightarrow> epochs_ok b' = epochs_ok b"
  by (simp add: epochs_ok_def same_report_def same_env_def)

lemma epochs_ok_exec: "exec_frame b b' \<Longrightarrow> epochs_ok b \<Longrightarrow> epochs_ok b'"
  by (fastforce simp: epochs_ok_def exec_frame_def same_env_def)

lemma next_report_epoch_rep:
  assumes "book_rep b Q S X" shows "book_rep (next_report_epoch b) Q S X"
proof -
  have occ: "occupancy (next_report_epoch b) s = occupancy b s" and lev: "level (next_report_epoch b) s l = level b s l" for s l
    by (cases s; simp add: next_report_epoch_def level.simps occupancy.simps)+
  have "arrays_ok (next_report_epoch b) = arrays_ok b" by (simp add: arrays_ok_def next_report_epoch_def)
  then have "book_shape (next_report_epoch b) = book_shape b"
    unfolding book_shape_def occ by (simp add: next_report_epoch_def)
  then have "book_shape (next_report_epoch b)" using assms by auto
  then show ?thesis
    by (rule rep_same [OF assms]) (simp_all add: occ lev, simp_all add: next_report_epoch_def bk_order_def)
qed

lemma u32_less_suc: "(e::u32) \<noteq> -1 \<Longrightarrow> a \<le> e \<Longrightarrow> a < e + 1"
proof -
  assume e: "e \<noteq> -1" and a: "a \<le> e"
  have "1 + e \<noteq> 0" using e by (simp add: eq_neg_iff_add_eq_0 add.commute)
  then have "unat (1 + e) = Suc (unat e)" by (rule unatSuc)
  then show ?thesis using a by (simp add: word_less_nat_alt word_le_nat_alt add.commute)
qed

lemma next_report_epoch_ok:
  assumes "epochs_ok b" "book_shape b"
  shows "epochs_ok (next_report_epoch b)"
    "i < slots b \<Longrightarrow> ob_trade_report_epochs (next_report_epoch b) ! i \<noteq> ob_trade_report_epoch (next_report_epoch b)"
proof -
  have len: "length (ob_trade_report_epochs b) = slots b" using assms(2) by (simp add: book_shape_def arrays_ok_def)
  have less: "ob_trade_report_epochs (next_report_epoch b) ! i < ob_trade_report_epoch (next_report_epoch b)"
    if "i < slots b" for i
  proof (cases "ob_trade_report_epoch b = -1")
    case True
    then show ?thesis using that len by (simp add: next_report_epoch_def)
  next
    case False
    have "ob_trade_report_epochs b ! i \<le> ob_trade_report_epoch b" using assms(1) that by (simp add: epochs_ok_def)
    note L = u32_less_suc [OF False this]
    have "ob_trade_report_epoch (next_report_epoch b) = ob_trade_report_epoch b + 1"
      and "ob_trade_report_epochs (next_report_epoch b) = ob_trade_report_epochs b"
      using False by (simp_all add: next_report_epoch_def)
    then show ?thesis using L by metis
  qed
  have "slots (next_report_epoch b) = slots b" by (simp add: next_report_epoch_def)
  then show "epochs_ok (next_report_epoch b)" using less by (auto simp: epochs_ok_def intro: less_imp_le)
  show "i < slots b \<Longrightarrow> ob_trade_report_epochs (next_report_epoch b) ! i \<noteq> ob_trade_report_epoch (next_report_epoch b)"
    by (rule less_imp_neq) (rule less)
qed

end
