(* ===== verification/Book_Check.thy ===== *)
theory Book_Check
  imports Order_Book_View
begin

text \<open>
  The order book's check of itself (\<^verbatim>\<open>OrderBook::check_invariants\<close>): it walks the stop queue and every level, marks the
  slots it reaches with an epoch of its own and compares what it found with the counters.  The loops
  follow links that may be corrupt and are therefore partial functions; that they return on every book is a theorem.
\<close>

section \<open>Results\<close>

datatype invariant_violation = IV_None | IV_Bitmap_Hierarchy_Inconsistent | IV_Occupancy_Mismatch | IV_Empty_Level_Metadata
  | IV_Nonempty_Invalid_Head | IV_Nonempty_Invalid_Tail | IV_Order_Index_Out_Of_Range | IV_Dead_Order_Reachable
  | IV_Head_Prev_Not_Invalid | IV_Tail_Next_Not_Invalid | IV_Previous_Not_Reciprocal | IV_Next_Not_Reciprocal
  | IV_Duplicate_Order_Reachable | IV_Order_Side_Mismatch | IV_Order_Level_Mismatch | IV_Nonpositive_Remaining
  | IV_Invalid_Display_State | IV_Aggregate_Overflow | IV_Level_Tail_Mismatch | IV_Level_Count_Mismatch
  | IV_Level_Aggregate_Mismatch | IV_Live_Order_Unreachable | IV_Reachable_Count_Mismatch | IV_Invalid_Stop_State | IV_Crossed_Book

record invariant_result =
  ir_violation :: invariant_violation
  ir_side :: side
  ir_level_index :: nat
  ir_order_index :: nat
  ir_reachable_count :: u32

definition invariant_failure :: "invariant_violation \<Rightarrow> side \<Rightarrow> nat \<Rightarrow> nat \<Rightarrow> u32 \<Rightarrow> invariant_result" where
  "invariant_failure v s l i r = \<lparr>ir_violation = v, ir_side = s, ir_level_index = l, ir_order_index = i, ir_reachable_count = r\<rparr>"

definition invariant_success :: "u32 \<Rightarrow> invariant_result" where
  "invariant_success r = \<lparr>ir_violation = IV_None, ir_side = Buy, ir_level_index = kInvalidIndex, ir_order_index = kInvalidIndex,
     ir_reachable_count = r\<rparr>"

text \<open>The marks and the count of reached slots, which every part of the check updates.\<close>

type_synonym reached = "u32 list \<times> u32"

section \<open>One level\<close>

text \<open>The checks of one order before it is marked.\<close>

definition check_order :: "book \<Rightarrow> side \<Rightarrow> nat \<Rightarrow> u32 \<Rightarrow> nat \<Rightarrow> nat \<Rightarrow> u64 \<Rightarrow> u32 list \<Rightarrow> invariant_violation" where
  "check_order b s l epoch current previous walked_quantity marks =
     (let ord = bk_order b current
      in if current \<ge> ar_capacity (ob_arena b) then IV_Order_Index_Out_Of_Range
         else if \<not> is_live_index (ob_arena b) current then IV_Dead_Order_Reachable
         else if marks ! current = epoch then IV_Duplicate_Order_Reachable
         else if ord_prev ord \<noteq> previous then IV_Previous_Not_Reciprocal
         else if decode_side (ord_encoded ord) \<noteq> s then IV_Order_Side_Mismatch
         else if decode_level (ord_encoded ord) \<noteq> l then IV_Order_Level_Mismatch
         else if ord_remaining ord = 0 then IV_Nonpositive_Remaining
         else if ord_flags ord \<noteq> 0 then IV_Invalid_Stop_State
         else if ob_display_quantities b ! current = 0 \<or> ob_displayed_remaining b ! current = 0 \<or>
                 ob_displayed_remaining b ! current > ob_display_quantities b ! current \<or>
                 ob_displayed_remaining b ! current > ord_remaining ord then IV_Invalid_Display_State
         else if walked_quantity > - 1 - ord_remaining ord then IV_Aggregate_Overflow
         else IV_None)"

text \<open>The link to the next order, checked after this one is marked; with the slot the violation names.\<close>

definition check_next_link :: "book \<Rightarrow> nat \<Rightarrow> invariant_violation \<times> nat" where
  "check_next_link b current =
     (let next_index = ord_next (bk_order b current)
      in if next_index = kInvalidIndex then (IV_None, current)
         else if next_index \<ge> ar_capacity (ob_arena b) then (IV_Order_Index_Out_Of_Range, next_index)
         else if \<not> is_live_index (ob_arena b) next_index then (IV_Dead_Order_Reachable, next_index)
         else if ord_prev (bk_order b next_index) \<noteq> current then (IV_Next_Not_Reciprocal, current)
         else (IV_None, current))"

partial_function (option) check_queue :: "book \<Rightarrow> side \<Rightarrow> nat \<Rightarrow> u32 \<Rightarrow> nat \<Rightarrow> nat \<Rightarrow> u32 \<Rightarrow> u64 \<Rightarrow> reached \<Rightarrow>
    ((invariant_result + nat \<times> u32 \<times> u64) \<times> reached) option" where
  [code]: "check_queue b s l epoch current previous walked_count walked_quantity st =
     (if current = kInvalidIndex then Some (Inr (previous, walked_count, walked_quantity), st)
      else let v = check_order b s l epoch current previous walked_quantity (fst st)
      in if v \<noteq> IV_None then Some (Inl (invariant_failure v s l current (snd st)), st)
      else let st1 = ((fst st)[current := epoch], snd st + 1); (v', i) = check_next_link b current
      in if v' \<noteq> IV_None then Some (Inl (invariant_failure v' s l i (snd st1)), st1)
      else check_queue b s l epoch (ord_next (bk_order b current)) current (walked_count + 1)
             (walked_quantity + ord_remaining (bk_order b current)) st1)"

text \<open>The checks of a nonempty level before its queue is walked.\<close>

definition check_ends :: "book \<Rightarrow> price_level \<Rightarrow> invariant_violation \<times> nat" where
  "check_ends b pl =
     (if pl_head pl = kInvalidIndex then (IV_Nonempty_Invalid_Head, kInvalidIndex)
      else if pl_tail pl = kInvalidIndex then (IV_Nonempty_Invalid_Tail, kInvalidIndex)
      else if pl_head pl \<ge> ar_capacity (ob_arena b) then (IV_Order_Index_Out_Of_Range, pl_head pl)
      else if \<not> is_live_index (ob_arena b) (pl_head pl) then (IV_Dead_Order_Reachable, pl_head pl)
      else if pl_tail pl \<ge> ar_capacity (ob_arena b) then (IV_Order_Index_Out_Of_Range, pl_tail pl)
      else if \<not> is_live_index (ob_arena b) (pl_tail pl) then (IV_Dead_Order_Reachable, pl_tail pl)
      else if ord_prev (bk_order b (pl_head pl)) \<noteq> kInvalidIndex then (IV_Head_Prev_Not_Invalid, pl_head pl)
      else if ord_next (bk_order b (pl_tail pl)) \<noteq> kInvalidIndex then (IV_Tail_Next_Not_Invalid, pl_tail pl)
      else (IV_None, kInvalidIndex))"

text \<open>What the walk found against the level's fields.\<close>

definition check_walked :: "price_level \<Rightarrow> nat \<times> u32 \<times> u64 \<Rightarrow> invariant_violation \<times> nat" where
  "check_walked pl w = (case w of (previous, walked_count, walked_quantity) \<Rightarrow>
     if previous \<noteq> pl_tail pl then (IV_Level_Tail_Mismatch, previous)
     else if walked_count \<noteq> pl_count pl then (IV_Level_Count_Mismatch, kInvalidIndex)
     else if walked_quantity \<noteq> pl_aggregate pl then (IV_Level_Aggregate_Mismatch, kInvalidIndex)
     else (IV_None, kInvalidIndex))"

definition check_level :: "book \<Rightarrow> side \<Rightarrow> u32 \<Rightarrow> nat \<Rightarrow> reached \<Rightarrow> (invariant_result option \<times> reached) option" where
  "check_level b s epoch l st =
     (let pl = level b s l; nonempty = (pl_count pl \<noteq> 0); occupied = (bm_test (occupancy b s) l = Some True);
          stop = (\<lambda>v i st. Some (Some (invariant_failure v s l i (snd st)), st))
      in if occupied \<noteq> nonempty then stop IV_Occupancy_Mismatch kInvalidIndex st
         else if \<not> nonempty then
           (if pl_head pl \<noteq> kInvalidIndex \<or> pl_tail pl \<noteq> kInvalidIndex \<or> pl_aggregate pl \<noteq> 0
            then stop IV_Empty_Level_Metadata kInvalidIndex st else Some (None, st))
         else if fst (check_ends b pl) \<noteq> IV_None then stop (fst (check_ends b pl)) (snd (check_ends b pl)) st
         else case check_queue b s l epoch (pl_head pl) kInvalidIndex 0 0 st of
                None \<Rightarrow> None
              | Some (Inl f, st1) \<Rightarrow> Some (Some f, st1)
              | Some (Inr w, st1) \<Rightarrow>
                  if fst (check_walked pl w) \<noteq> IV_None then stop (fst (check_walked pl w)) (snd (check_walked pl w)) st1
                  else Some (None, st1))"

fun check_levels :: "book \<Rightarrow> side \<Rightarrow> u32 \<Rightarrow> nat list \<Rightarrow> reached \<Rightarrow> (invariant_result option \<times> reached) option" where
  "check_levels b s epoch [] st = Some (None, st)"
| "check_levels b s epoch (l # ls) st = (case check_level b s epoch l st of
     None \<Rightarrow> None
   | Some (Some f, st1) \<Rightarrow> Some (Some f, st1)
   | Some (None, st1) \<Rightarrow> check_levels b s epoch ls st1)"

definition check_side_invariants :: "book \<Rightarrow> side \<Rightarrow> u32 \<Rightarrow> reached \<Rightarrow> (invariant_result option \<times> reached) option" where
  "check_side_invariants b s epoch st = check_levels b s epoch [0..<pd_tick_count (ob_domain b)] st"

section \<open>The stops\<close>

definition check_stop :: "book \<Rightarrow> u32 \<Rightarrow> nat \<Rightarrow> nat \<Rightarrow> u32 list \<Rightarrow> side option" where
  "check_stop b epoch stop previous_stop marks =
     (if stop \<ge> ar_capacity (ob_arena b) \<or> \<not> is_live_index (ob_arena b) stop \<or> marks ! stop = epoch then Some Buy
      else let ord = bk_order b stop
           in if ord_flags ord AND kOrderFlagDormantStop = 0 \<or>
                 ord_flags ord AND NOT (kOrderFlagDormantStop OR kOrderFlagStopMarket) \<noteq> 0 \<or>
                 ord_remaining ord = 0 \<or> ob_stop_prev b ! stop \<noteq> previous_stop
              then Some (decode_side (ord_encoded ord)) else None)"

partial_function (option) check_stops :: "book \<Rightarrow> u32 \<Rightarrow> nat \<Rightarrow> nat \<Rightarrow> reached \<Rightarrow> ((invariant_result + nat) \<times> reached) option" where
  [code]: "check_stops b epoch stop previous_stop st =
     (if stop = kInvalidIndex then Some (Inr previous_stop, st)
      else case check_stop b epoch stop previous_stop (fst st) of
             Some s \<Rightarrow> Some (Inl (invariant_failure IV_Invalid_Stop_State s kInvalidIndex stop (snd st)), st)
           | None \<Rightarrow> check_stops b epoch (ob_stop_next b ! stop) stop ((fst st)[stop := epoch], snd st + 1))"

definition check_stop_queue :: "book \<Rightarrow> u32 \<Rightarrow> reached \<Rightarrow> (invariant_result option \<times> reached) option" where
  "check_stop_queue b epoch st = (case check_stops b epoch (ob_stop_head b) kInvalidIndex st of
     None \<Rightarrow> None
   | Some (Inl f, st1) \<Rightarrow> Some (Some f, st1)
   | Some (Inr previous_stop, st1) \<Rightarrow>
       if previous_stop \<noteq> ob_stop_tail b
       then Some (Some (invariant_failure IV_Invalid_Stop_State Buy kInvalidIndex previous_stop (snd st1)), st1)
       else if unat (snd st1) \<noteq> ob_dormant_stop_count b
       then Some (Some (invariant_failure IV_Invalid_Stop_State Buy kInvalidIndex (ob_stop_tail b) (snd st1)), st1)
       else Some (None, st1))"

section \<open>The whole book\<close>

text \<open>Every live slot has been reached.\<close>

fun check_live :: "book \<Rightarrow> u32 \<Rightarrow> reached \<Rightarrow> nat list \<Rightarrow> invariant_result option" where
  "check_live b epoch st [] = None"
| "check_live b epoch st (i # is) =
     (let ord = bk_order b i; stop = (\<lambda>v. Some (invariant_failure v (decode_side (ord_encoded ord)) (decode_level (ord_encoded ord)) i (snd st)))
      in if \<not> is_live_index (ob_arena b) i then check_live b epoch st is
         else if ord_remaining ord = 0 then stop IV_Nonpositive_Remaining
         else if fst st ! i \<noteq> epoch then stop IV_Live_Order_Unreachable
         else check_live b epoch st is)"

definition crossed_levels :: "book \<Rightarrow> nat option" where
  "crossed_levels b = (case (best_index b Buy, best_index b Sell) of
     (Some bid, Some ask) \<Rightarrow> if ob_trading_state b = Continuous \<and> bid \<ge> ask then Some bid else None
   | _ \<Rightarrow> None)"

definition next_visit_epoch :: "book \<Rightarrow> book" where
  "next_visit_epoch b =
     (if ob_visit_epoch b = - 1
      then b\<lparr>ob_visit_marks := replicate (ar_capacity (ob_arena b)) 0, ob_visit_epoch := 1\<rparr>
      else b\<lparr>ob_visit_epoch := ob_visit_epoch b + 1\<rparr>)"

definition check_reached :: "book \<Rightarrow> u32 \<Rightarrow> reached \<Rightarrow> invariant_result" where
  "check_reached b epoch st = (case check_live b epoch st [0..<ar_capacity (ob_arena b)] of
     Some f \<Rightarrow> f
   | None \<Rightarrow>
       if unat (snd st) \<noteq> ar_size (ob_arena b) then invariant_failure IV_Reachable_Count_Mismatch Buy kInvalidIndex kInvalidIndex (snd st)
       else case crossed_levels b of
              Some bid \<Rightarrow> invariant_failure IV_Crossed_Book Buy bid kInvalidIndex (snd st)
            | None \<Rightarrow> invariant_success (snd st))"

definition check_parts :: "book \<Rightarrow> u32 \<Rightarrow> reached \<Rightarrow> (invariant_result option \<times> reached) option" where
  "check_parts b epoch st = (case check_stop_queue b epoch st of
     None \<Rightarrow> None
   | Some (Some f, st1) \<Rightarrow> Some (Some f, st1)
   | Some (None, st1) \<Rightarrow> (case check_side_invariants b Buy epoch st1 of
       None \<Rightarrow> None
     | Some (Some f, st2) \<Rightarrow> Some (Some f, st2)
     | Some (None, st2) \<Rightarrow> check_side_invariants b Sell epoch st2))"

definition check_invariants :: "book \<Rightarrow> (invariant_result \<times> book) option" where
  "check_invariants b =
     (if \<not> hierarchy_consistent (ob_bid_occupancy b)
      then Some (invariant_failure IV_Bitmap_Hierarchy_Inconsistent Buy kInvalidIndex kInvalidIndex 0, b)
      else if \<not> hierarchy_consistent (ob_ask_occupancy b)
      then Some (invariant_failure IV_Bitmap_Hierarchy_Inconsistent Sell kInvalidIndex kInvalidIndex 0, b)
      else let b1 = next_visit_epoch b; epoch = ob_visit_epoch b1
      in case check_parts b1 epoch (ob_visit_marks b1, 0) of
           None \<Rightarrow> None
         | Some (Some f, st) \<Rightarrow> Some (f, b1\<lparr>ob_visit_marks := fst st\<rparr>)
         | Some (None, st) \<Rightarrow> Some (check_reached b1 epoch st, b1\<lparr>ob_visit_marks := fst st\<rparr>))"

end
