(* ===== verification/Gateway.thy ===== *)
theory Gateway
  imports ME_Types
begin

text \<open>
  The gateway validator (\<^verbatim>\<open>gateway.hpp\<close>, \<^verbatim>\<open>gateway.cpp\<close>): duplicate, capacity, size, price collar, notional and
  rate checks in front of the engine.
\<close>

section \<open>The validator\<close>

record gateway_config =
  gc_max_active_orders :: nat
  gc_max_lanes :: nat
  gc_max_quantity :: quantity
  gc_max_notional :: u64
  gc_min_price :: price
  gc_max_price :: price
  gc_max_orders_per_second :: u64

datatype gateway_reject_reason = GR_None | GR_Duplicate_Order_Id | GR_Order_Capacity_Exhausted | GR_Quantity_Too_Large
  | GR_Price_Out_Of_Collar | GR_Rate_Limited | GR_Notional_Too_Large | GR_Invalid_Lane

record rate_window =
  rw_start :: u64
  rw_count :: u64

record gateway =
  gw_config :: gateway_config
  gw_active_order_ids :: "u64 list"
  gw_rate_windows :: "rate_window list"

definition make_gateway :: "gateway_config \<Rightarrow> gateway" where
  "make_gateway config =
     (let c1 = (if gc_max_orders_per_second config = 0 then config\<lparr>gc_max_orders_per_second := 1\<rparr> else config);
          c2 = (if gc_max_lanes c1 = 0 then c1\<lparr>gc_max_lanes := 1\<rparr> else c1)
      in \<lparr>gw_config = c2, gw_active_order_ids = [], gw_rate_windows = replicate (gc_max_lanes c2) \<lparr>rw_start = 0, rw_count = 0\<rparr>\<rparr>)"

definition kRateWindowSize :: u64 where
  "kRateWindowSize = 1000"

definition rate_limit_exceeded :: "gateway \<Rightarrow> nat \<Rightarrow> u64 \<Rightarrow> bool \<times> gateway" where
  "rate_limit_exceeded g lane_id logical_time =
     (if gc_max_orders_per_second (gw_config g) = 0 then (False, g)
      else let bucket_start = logical_time div kRateWindowSize;
               window = gw_rate_windows g ! lane_id;
               w1 = (if rw_count window = 0 \<or> bucket_start \<noteq> rw_start window then \<lparr>rw_start = bucket_start, rw_count = 0\<rparr> else window)
           in if rw_count w1 \<ge> gc_max_orders_per_second (gw_config g)
              then (True, g\<lparr>gw_rate_windows := (gw_rate_windows g)[lane_id := w1]\<rparr>)
              else (False, g\<lparr>gw_rate_windows := (gw_rate_windows g)[lane_id := w1\<lparr>rw_count := rw_count w1 + 1\<rparr>]\<rparr>))"

definition absolute_notional :: "price \<Rightarrow> quantity \<Rightarrow> u64" where
  "absolute_notional ticks quantity_value =
     (let price_ticks = (if ticks < 0 then word_of_int (- (ticks + 1)) + 1 else word_of_int ticks)
      in if price_ticks \<noteq> 0 \<and> quantity_value > (- 1) div price_ticks then - 1
         else price_ticks * quantity_value)"

definition gateway_validate :: "gateway \<Rightarrow> nat \<Rightarrow> order_id \<Rightarrow> raw_side \<Rightarrow> price \<Rightarrow> quantity \<Rightarrow> u64 \<Rightarrow>
    gateway_reject_reason \<times> gateway" where
  "gateway_validate g lane_id oid s p q logical_time =
     (if lane_id \<ge> gc_max_lanes (gw_config g) then (GR_Invalid_Lane, g)
      else if oid = 0 then (GR_Duplicate_Order_Id, g)
      else if oid \<in> set (gw_active_order_ids g) then (GR_Duplicate_Order_Id, g)
      else if length (gw_active_order_ids g) \<ge> gc_max_active_orders (gw_config g) then (GR_Order_Capacity_Exhausted, g)
      else if q > gc_max_quantity (gw_config g) then (GR_Quantity_Too_Large, g)
      else if p < gc_min_price (gw_config g) \<or> p > gc_max_price (gw_config g) then (GR_Price_Out_Of_Collar, g)
      else if absolute_notional p q > gc_max_notional (gw_config g) then (GR_Notional_Too_Large, g)
      else case rate_limit_exceeded g lane_id logical_time of (exceeded, g1) \<Rightarrow>
        if exceeded then (GR_Rate_Limited, g1)
        else (GR_None, g1\<lparr>gw_active_order_ids := gw_active_order_ids g1 @ [oid]\<rparr>))"

definition gateway_validate_lane0 :: "gateway \<Rightarrow> order_id \<Rightarrow> raw_side \<Rightarrow> price \<Rightarrow> quantity \<Rightarrow> u64 \<Rightarrow>
    gateway_reject_reason \<times> gateway" where
  "gateway_validate_lane0 g oid s p q logical_time = gateway_validate g 0 oid s p q logical_time"

text \<open>The position of the first occurrence, the length of the list when there is none (\<^verbatim>\<open>std::find\<close>).\<close>

fun find_index :: "u64 \<Rightarrow> u64 list \<Rightarrow> nat" where
  "find_index x [] = 0"
| "find_index x (y # ys) = (if x = y then 0 else Suc (find_index x ys))"

definition gateway_release :: "gateway \<Rightarrow> order_id \<Rightarrow> gateway" where
  "gateway_release g oid =
     (let ids = gw_active_order_ids g; i = find_index oid ids
      in if i \<noteq> length ids then g\<lparr>gw_active_order_ids := butlast (ids[i := last ids])\<rparr> else g)"

section \<open>The notional\<close>

lemma abs_ticks:
  assumes "int64_range t"
  shows "unat (if t < 0 then word_of_int (- (t + 1)) + 1 else word_of_int t :: u64) = nat \<bar>t\<bar>"
proof -
  have "(if t < 0 then word_of_int (- (t + 1)) + 1 else word_of_int t :: u64) = word_of_int \<bar>t\<bar>" by simp
  moreover have "\<bar>t\<bar> < 2 ^ 64" using assms by (auto simp: int64_range_def kInt64Min_def kInt64Max_def)
  ultimately show ?thesis by (simp add: unsigned_of_int take_bit_int_eq_self)
qed

lemma notional_min:
  assumes "int64_range p"
  shows "unat (absolute_notional p q) = min (2 ^ 64 - 1) (nat \<bar>p\<bar> * unat q)"
proof -
  define w :: u64 where "w = (if p < 0 then word_of_int (- (p + 1)) + 1 else word_of_int p)"
  have w: "unat w = nat \<bar>p\<bar>" unfolding w_def by (rule abs_ticks [OF assms])
  have top: "unat (- 1 :: u64) = 2 ^ 64 - 1" by (simp add: unsigned_minus_1_eq_mask mask_eq_exp_minus_1)
  have lt: "q > (- 1) div w \<longleftrightarrow> (2 ^ 64 - 1) div unat w < unat q"
    unfolding word_less_nat_alt unat_div_distrib top ..
  have an: "absolute_notional p q = (if w \<noteq> 0 \<and> q > (- 1) div w then - 1 else w * q)"
    unfolding absolute_notional_def Let_def w_def [symmetric] ..
  show ?thesis
  proof (cases "w \<noteq> 0 \<and> q > (- 1) div w")
    case True
    then have "0 < unat w" by (simp add: unat_gt_0)
    moreover have "(2 ^ 64 - 1) div unat w < unat q" using True lt by blast
    ultimately have "2 ^ 64 - 1 < unat q * unat w" by (simp only: div_less_iff_less_mult)
    then have "min (2 ^ 64 - 1) (unat w * unat q) = 2 ^ 64 - 1" by (simp add: mult.commute)
    moreover have "absolute_notional p q = - 1" using an True by simp
    ultimately show ?thesis using top w by simp
  next
    case False
    have le: "unat w * unat q \<le> 2 ^ 64 - 1"
    proof (cases "w = 0")
      case nz: False
      then have "unat q \<le> (2 ^ 64 - 1) div unat w" using False lt by auto
      then show ?thesis using nz less_eq_div_iff_mult_less_eq [of "unat w" "unat q" "2 ^ 64 - 1"] by (simp add: unat_gt_0 mult.commute)
    qed simp
    then have "unat (w * q) = unat w * unat q" by (simp add: unat_word_ariths)
    moreover have "absolute_notional p q = w * q" using an False by auto
    ultimately show ?thesis using le w by simp
  qed
qed

end
