(* ===== verification/Command.thy ===== *)
theory Command
  imports Order_Book
begin

text \<open>
  Commands (\<^verbatim>\<open>command.hpp\<close>, \<^verbatim>\<open>command.cpp\<close>): the payload record, its validation, its 36-byte encoding, and
  the sequencer that stamps payloads with consecutive sequence numbers.
\<close>

section \<open>Payloads\<close>

datatype command_type = CT_Submit_Limit | CT_Submit_Market | CT_Cancel | CT_Amend_Quantity | CT_Replace
  | CT_Submit_Iceberg | CT_Submit_Stop | CT_Submit_Stop_Limit | CT_Uncross_Opening_Auction | CT_Raw u8

datatype command_validation_error = CV_None | CV_Invalid_Tag | CV_Invalid_Side | CV_Invalid_Time_In_Force | CV_Noncanonical

datatype command_codec_error = CC_None | CC_Invalid_Length | CC_Invalid_Tag | CC_Invalid_Side
  | CC_Invalid_Time_In_Force | CC_Noncanonical

record command_payload =
  cp_tag :: command_type
  cp_side :: raw_side
  cp_time_in_force :: time_in_force
  cp_reserved :: u8
  cp_order_id :: u64
  cp_price_ticks :: int
  cp_quantity :: u64
  cp_handle_index :: u32
  cp_handle_generation :: u32

definition default_payload :: command_payload where
  "default_payload = \<lparr>cp_tag = CT_Submit_Limit, cp_side = Valid_Side Buy, cp_time_in_force = GTC, cp_reserved = 0,
     cp_order_id = 0, cp_price_ticks = 0, cp_quantity = 0, cp_handle_index = 0, cp_handle_generation = 0\<rparr>"

definition payload_submit_limit :: "order_id \<Rightarrow> raw_side \<Rightarrow> price \<Rightarrow> quantity \<Rightarrow> time_in_force \<Rightarrow> command_payload" where
  "payload_submit_limit oid s p q tif = default_payload\<lparr>cp_tag := CT_Submit_Limit, cp_side := s,
     cp_time_in_force := tif, cp_order_id := oid, cp_price_ticks := p, cp_quantity := q\<rparr>"

definition payload_submit_market :: "order_id \<Rightarrow> raw_side \<Rightarrow> quantity \<Rightarrow> command_payload" where
  "payload_submit_market oid s q = default_payload\<lparr>cp_tag := CT_Submit_Market, cp_side := s, cp_order_id := oid, cp_quantity := q\<rparr>"

definition payload_cancel :: "handle \<Rightarrow> command_payload" where
  "payload_cancel h = default_payload\<lparr>cp_tag := CT_Cancel, cp_handle_index := word_of_nat (h_index h),
     cp_handle_generation := h_generation h\<rparr>"

definition payload_amend_quantity :: "handle \<Rightarrow> quantity \<Rightarrow> command_payload" where
  "payload_amend_quantity h q = default_payload\<lparr>cp_tag := CT_Amend_Quantity, cp_quantity := q,
     cp_handle_index := word_of_nat (h_index h), cp_handle_generation := h_generation h\<rparr>"

definition payload_replace :: "handle \<Rightarrow> price \<Rightarrow> quantity \<Rightarrow> command_payload" where
  "payload_replace h p q = default_payload\<lparr>cp_tag := CT_Replace, cp_price_ticks := p, cp_quantity := q,
     cp_handle_index := word_of_nat (h_index h), cp_handle_generation := h_generation h\<rparr>"

text \<open>The two handle fields carry the low and high half of a 64-bit value in some commands.\<close>

definition low_half :: "u64 \<Rightarrow> u32" where
  "low_half w = ucast w"

definition high_half :: "u64 \<Rightarrow> u32" where
  "high_half w = ucast (drop_bit 32 w)"

definition join_halves :: "command_payload \<Rightarrow> u64" where
  "join_halves p = ucast (cp_handle_index p) OR push_bit 32 (ucast (cp_handle_generation p))"

definition payload_submit_iceberg :: "order_id \<Rightarrow> raw_side \<Rightarrow> price \<Rightarrow> quantity \<Rightarrow> quantity \<Rightarrow> command_payload" where
  "payload_submit_iceberg oid s p q disp = default_payload\<lparr>cp_tag := CT_Submit_Iceberg, cp_side := s, cp_order_id := oid,
     cp_price_ticks := p, cp_quantity := q, cp_handle_index := low_half disp, cp_handle_generation := high_half disp\<rparr>"

definition iceberg_display_quantity :: "command_payload \<Rightarrow> quantity" where
  "iceberg_display_quantity p = join_halves p"

text \<open>\<^verbatim>\<open>std::bit_cast\<close> between the signed price and its 64 bits.\<close>

definition price_bits :: "int \<Rightarrow> u64" where
  "price_bits p = word_of_int p"

definition bits_price :: "u64 \<Rightarrow> int" where
  "bits_price w = sint w"

definition payload_submit_stop :: "order_id \<Rightarrow> raw_side \<Rightarrow> price \<Rightarrow> quantity \<Rightarrow> command_payload" where
  "payload_submit_stop oid s trigger q = default_payload\<lparr>cp_tag := CT_Submit_Stop, cp_side := s, cp_order_id := oid,
     cp_quantity := q, cp_handle_index := low_half (price_bits trigger), cp_handle_generation := high_half (price_bits trigger)\<rparr>"

definition payload_submit_stop_limit :: "order_id \<Rightarrow> raw_side \<Rightarrow> price \<Rightarrow> price \<Rightarrow> quantity \<Rightarrow> command_payload" where
  "payload_submit_stop_limit oid s trigger lim q = default_payload\<lparr>cp_tag := CT_Submit_Stop_Limit, cp_side := s, cp_order_id := oid,
     cp_price_ticks := lim, cp_quantity := q, cp_handle_index := low_half (price_bits trigger),
     cp_handle_generation := high_half (price_bits trigger)\<rparr>"

definition stop_trigger_price :: "command_payload \<Rightarrow> price" where
  "stop_trigger_price p = bits_price (join_halves p)"

definition payload_uncross_opening_auction :: command_payload where
  "payload_uncross_opening_auction = default_payload\<lparr>cp_tag := CT_Uncross_Opening_Auction\<rparr>"

section \<open>Validation\<close>

definition is_zero_handle :: "command_payload \<Rightarrow> bool" where
  "is_zero_handle p \<longleftrightarrow> cp_handle_index p = 0 \<and> cp_handle_generation p = 0"

definition has_zero_common_unused :: "command_payload \<Rightarrow> bool" where
  "has_zero_common_unused p \<longleftrightarrow> cp_side p = Valid_Side Buy \<and> cp_time_in_force p = GTC \<and> cp_order_id p = 0"

definition canonical_if :: "bool \<Rightarrow> command_validation_error" where
  "canonical_if c = (if c then CV_None else CV_Noncanonical)"

definition validate_command_payload :: "command_payload \<Rightarrow> command_validation_error" where
  "validate_command_payload p =
     (if (case cp_tag p of CT_Raw _ \<Rightarrow> True | _ \<Rightarrow> False) then CV_Invalid_Tag
      else if cp_reserved p \<noteq> 0 then CV_Noncanonical
      else if \<not> is_valid_side (cp_side p) then CV_Invalid_Side
      else if \<not> is_valid_time_in_force (cp_time_in_force p) then CV_Invalid_Time_In_Force
      else case cp_tag p of
        CT_Submit_Limit \<Rightarrow> canonical_if (is_zero_handle p)
      | CT_Submit_Iceberg \<Rightarrow> canonical_if (cp_time_in_force p = GTC)
      | CT_Submit_Stop \<Rightarrow> canonical_if (cp_time_in_force p = GTC \<and> cp_price_ticks p = 0)
      | CT_Submit_Stop_Limit \<Rightarrow> canonical_if (cp_time_in_force p = GTC)
      | CT_Submit_Market \<Rightarrow> canonical_if (\<not> (cp_time_in_force p \<noteq> GTC \<or> cp_price_ticks p \<noteq> 0 \<or> \<not> is_zero_handle p))
      | CT_Cancel \<Rightarrow> canonical_if (has_zero_common_unused p \<and> cp_price_ticks p = 0 \<and> cp_quantity p = 0)
      | CT_Amend_Quantity \<Rightarrow> canonical_if (has_zero_common_unused p \<and> cp_price_ticks p = 0)
      | CT_Replace \<Rightarrow> canonical_if (has_zero_common_unused p)
      | CT_Uncross_Opening_Auction \<Rightarrow> canonical_if (has_zero_common_unused p \<and> cp_price_ticks p = 0 \<and>
          cp_quantity p = 0 \<and> is_zero_handle p)
      | CT_Raw _ \<Rightarrow> CV_Invalid_Tag)"

fun codec_error :: "command_validation_error \<Rightarrow> command_codec_error" where
  "codec_error CV_None = CC_None"
| "codec_error CV_Invalid_Tag = CC_Invalid_Tag"
| "codec_error CV_Invalid_Side = CC_Invalid_Side"
| "codec_error CV_Invalid_Time_In_Force = CC_Invalid_Time_In_Force"
| "codec_error CV_Noncanonical = CC_Noncanonical"

section \<open>Bytes\<close>

text \<open>The values of the enumerations; a byte that is none of them stays as it is.\<close>

fun tag_byte :: "command_type \<Rightarrow> u8" where
  "tag_byte CT_Submit_Limit = 1" | "tag_byte CT_Submit_Market = 2" | "tag_byte CT_Cancel = 3"
| "tag_byte CT_Amend_Quantity = 4" | "tag_byte CT_Replace = 5" | "tag_byte CT_Submit_Iceberg = 6"
| "tag_byte CT_Submit_Stop = 7" | "tag_byte CT_Submit_Stop_Limit = 8" | "tag_byte CT_Uncross_Opening_Auction = 9"
| "tag_byte (CT_Raw b) = b"

definition tag_of_byte :: "u8 \<Rightarrow> command_type" where
  "tag_of_byte b = (if b = 1 then CT_Submit_Limit else if b = 2 then CT_Submit_Market else if b = 3 then CT_Cancel
     else if b = 4 then CT_Amend_Quantity else if b = 5 then CT_Replace else if b = 6 then CT_Submit_Iceberg
     else if b = 7 then CT_Submit_Stop else if b = 8 then CT_Submit_Stop_Limit
     else if b = 9 then CT_Uncross_Opening_Auction else CT_Raw b)"

fun side_byte :: "raw_side \<Rightarrow> u8" where
  "side_byte (Valid_Side Buy) = 0" | "side_byte (Valid_Side Sell) = 1" | "side_byte (Raw_Side b) = b"

definition side_of_byte :: "u8 \<Rightarrow> raw_side" where
  "side_of_byte b = (if b = 0 then Valid_Side Buy else if b = 1 then Valid_Side Sell else Raw_Side b)"

fun tif_byte :: "time_in_force \<Rightarrow> u8" where
  "tif_byte GTC = 0" | "tif_byte IOC = 1" | "tif_byte FOK = 2" | "tif_byte (TIF_Raw b) = b"

definition tif_of_byte :: "u8 \<Rightarrow> time_in_force" where
  "tif_of_byte b = (if b = 0 then GTC else if b = 1 then IOC else if b = 2 then FOK else TIF_Raw b)"

definition byte_at :: "'a::len word \<Rightarrow> nat \<Rightarrow> u8" where
  "byte_at value index = ucast (drop_bit (index * 8) value AND 255)"

definition write_u32 :: "u8 list \<Rightarrow> nat \<Rightarrow> u32 \<Rightarrow> u8 list" where
  "write_u32 output offset value = foldl (\<lambda>out index. out[offset + index := byte_at value index]) output [0..<4]"

definition write_u64 :: "u8 list \<Rightarrow> nat \<Rightarrow> u64 \<Rightarrow> u8 list" where
  "write_u64 output offset value = foldl (\<lambda>out index. out[offset + index := byte_at value index]) output [0..<8]"

definition read_u32 :: "u8 list \<Rightarrow> nat \<Rightarrow> u32" where
  "read_u32 input offset = foldl (\<lambda>value index. value OR push_bit (index * 8) (ucast (input ! (offset + index)))) 0 [0..<4]"

definition read_u64 :: "u8 list \<Rightarrow> nat \<Rightarrow> u64" where
  "read_u64 input offset = foldl (\<lambda>value index. value OR push_bit (index * 8) (ucast (input ! (offset + index)))) 0 [0..<8]"

definition kEncodedCommandPayloadSize :: nat where
  "kEncodedCommandPayloadSize = 36"

definition encode_command_payload :: "command_payload \<Rightarrow> u8 list \<Rightarrow> command_codec_error \<times> u8 list" where
  "encode_command_payload p output =
     (if length output \<noteq> kEncodedCommandPayloadSize then (CC_Invalid_Length, output)
      else let validation = validate_command_payload p
           in if validation \<noteq> CV_None then (codec_error validation, output)
              else let o1 = output[0 := tag_byte (cp_tag p), 1 := side_byte (cp_side p),
                                   2 := tif_byte (cp_time_in_force p), 3 := 0];
                       o2 = write_u64 o1 4 (cp_order_id p);
                       o3 = write_u64 o2 12 (price_bits (cp_price_ticks p));
                       o4 = write_u64 o3 20 (cp_quantity p);
                       o5 = write_u32 o4 28 (cp_handle_index p)
                   in (CC_None, write_u32 o5 32 (cp_handle_generation p)))"

definition decode_command_payload :: "u8 list \<Rightarrow> command_codec_error + command_payload" where
  "decode_command_payload input =
     (if length input \<noteq> kEncodedCommandPayloadSize then Inl CC_Invalid_Length
      else let p = \<lparr>cp_tag = tag_of_byte (input ! 0), cp_side = side_of_byte (input ! 1),
                    cp_time_in_force = tif_of_byte (input ! 2), cp_reserved = input ! 3,
                    cp_order_id = read_u64 input 4, cp_price_ticks = bits_price (read_u64 input 12),
                    cp_quantity = read_u64 input 20, cp_handle_index = read_u32 input 28,
                    cp_handle_generation = read_u32 input 32\<rparr>;
               validation = codec_error (validate_command_payload p)
           in if validation \<noteq> CC_None then Inl validation else Inr p)"

section \<open>The sequencer\<close>

record sequenced_command =
  sc_payload :: command_payload
  sc_sequence :: sequence
  sc_logical_time :: u64

datatype sequencer_error = SE_Invalid_Payload | SE_Decreasing_Logical_Time | SE_Sequence_Exhausted

record sequencer =
  sq_next_sequence :: sequence
  sq_last_logical_time :: u64
  sq_exhausted :: bool

definition make_sequencer :: "sequence \<Rightarrow> u64 \<Rightarrow> sequencer" where
  "make_sequencer next_sequence last_logical_time =
     \<lparr>sq_next_sequence = next_sequence, sq_last_logical_time = last_logical_time, sq_exhausted = False\<rparr>"

definition stamp :: "sequencer \<Rightarrow> command_payload \<Rightarrow> u64 \<Rightarrow> (sequencer_error + sequenced_command) \<times> sequencer" where
  "stamp sq p logical_time =
     (if validate_command_payload p \<noteq> CV_None then (Inl SE_Invalid_Payload, sq)
      else if logical_time < sq_last_logical_time sq then (Inl SE_Decreasing_Logical_Time, sq)
      else if sq_exhausted sq then (Inl SE_Sequence_Exhausted, sq)
      else let result = \<lparr>sc_payload = p, sc_sequence = sq_next_sequence sq, sc_logical_time = logical_time\<rparr>;
               sq1 = (if sq_next_sequence sq = -1 then sq\<lparr>sq_exhausted := True\<rparr>
                      else sq\<lparr>sq_next_sequence := sq_next_sequence sq + 1\<rparr>)
           in (Inr result, sq1\<lparr>sq_last_logical_time := logical_time\<rparr>))"

end
