(* ===== verification/Sequenced_Engine.thy ===== *)
theory Sequenced_Engine
  imports Command
begin

text \<open>
  The sequenced engine (\<^verbatim>\<open>sequenced_engine.hpp\<close>, \<^verbatim>\<open>sequenced_engine.cpp\<close>): it accepts commands in
  sequence, runs them on the order book and writes their events to a caller-supplied span.
\<close>

section \<open>Data\<close>

datatype engine_event_type = EV_Submit_Result | EV_Trade | EV_Cancel_Result | EV_Amend_Result
  | EV_Stop_Triggered | EV_Auction_Result | EV_Raw u8

record engine_event =
  ev_command_sequence :: sequence
  ev_order_id :: order_id
  ev_secondary_order_id :: order_id
  ev_price :: price
  ev_quantity :: quantity
  ev_secondary_quantity :: quantity
  ev_handle :: handle
  ev_event_index :: nat
  ev_type :: engine_event_type
  ev_reason :: u8
  ev_reserved :: u16

definition default_event :: engine_event where
  "default_event = \<lparr>ev_command_sequence = 0, ev_order_id = 0, ev_secondary_order_id = 0, ev_price = 0,
     ev_quantity = 0, ev_secondary_quantity = 0, ev_handle = \<lparr>h_index = 0, h_generation = 0\<rparr>, ev_event_index = 0,
     ev_type = EV_Submit_Result, ev_reason = 0, ev_reserved = 0\<rparr>"

definition trade_event :: "sequence \<Rightarrow> nat \<Rightarrow> trade \<Rightarrow> engine_event" where
  "trade_event sequence index t = default_event\<lparr>ev_command_sequence := sequence, ev_order_id := tr_buy t,
     ev_secondary_order_id := tr_sell t, ev_price := tr_price t, ev_quantity := tr_quantity t,
     ev_event_index := index, ev_type := EV_Trade\<rparr>"

datatype apply_status = AS_Applied | AS_Invalid_Command | AS_Invalid_Sequence | AS_Sequence_Exhausted
  | AS_Decreasing_Logical_Time | AS_Insufficient_Event_Capacity

record apply_result =
  ap_status :: apply_status
  ap_event_count :: nat

record engine =
  se_book :: book
  se_trade_scratch :: "trade list"
  se_trade_capacity :: nat
  se_next_sequence :: u64
  se_last_logical_time :: u64
  se_sequence_exhausted :: bool

text \<open>The values of the reason enumerations.\<close>

fun reject_code :: "reject_reason \<Rightarrow> u8" where
  "reject_code RR_None = 0" | "reject_code RR_Invalid_Side = 1" | "reject_code RR_Invalid_Time_In_Force = 2"
| "reject_code RR_Invalid_Handle = 3" | "reject_code RR_Zero_Quantity = 4" | "reject_code RR_Quantity_Too_Large = 5"
| "reject_code RR_Price_Out_Of_Domain = 6" | "reject_code RR_Insufficient_Trade_Capacity = 7"
| "reject_code RR_Order_Capacity_Exhausted = 8" | "reject_code RR_Fok_Not_Fillable = 9"
| "reject_code RR_Post_Only_Would_Cross = 10" | "reject_code RR_Self_Trade_Prevented = 11"
| "reject_code RR_Invalid_Display_Quantity = 12" | "reject_code RR_Invalid_Trading_State = 13"

fun cancel_code :: "cancel_reason \<Rightarrow> u8" where
  "cancel_code CR_None = 0" | "cancel_code CR_Invalid_Handle = 1"

fun amend_code :: "amend_reason \<Rightarrow> u8" where
  "amend_code AR_None = 0" | "amend_code AR_Invalid_Handle = 1" | "amend_code AR_Zero_Quantity = 2"
| "amend_code AR_Quantity_Too_Large = 3" | "amend_code AR_Increase_Not_Allowed = 4"

fun auction_code :: "auction_error \<Rightarrow> u8" where
  "auction_code AE_None = 0" | "auction_code AE_Not_Opening_Auction = 1"
| "auction_code AE_Insufficient_Trade_Capacity = 2"

definition submit_event :: "sequenced_command \<Rightarrow> order_id \<Rightarrow> submit_result \<Rightarrow> engine_event" where
  "submit_event command oid result = default_event\<lparr>ev_command_sequence := sc_sequence command, ev_order_id := oid,
     ev_quantity := sr_executed result, ev_secondary_quantity := sr_unfilled result,
     ev_handle := sr_handle result, ev_event_index := 0, ev_type := EV_Submit_Result,
     ev_reason := reject_code (sr_reason result)\<rparr>"

definition stop_triggered_event :: "sequenced_command \<Rightarrow> nat \<Rightarrow> stop_activation \<Rightarrow> engine_event" where
  "stop_triggered_event command event_index a = default_event\<lparr>ev_command_sequence := sc_sequence command,
     ev_order_id := sa_id a, ev_quantity := sa_executed a, ev_secondary_quantity := sa_unfilled a,
     ev_handle := sa_handle a, ev_event_index := event_index, ev_type := EV_Stop_Triggered\<rparr>"

section \<open>Construction and capacity\<close>

definition make_engine :: "price_domain \<Rightarrow> nat \<Rightarrow> quantity \<Rightarrow> sequence \<Rightarrow> u64 \<Rightarrow> self_trade_policy \<Rightarrow>
    allocation_mode \<Rightarrow> quantity \<Rightarrow> trading_state \<Rightarrow> cpp_exception + engine" where
  "make_engine d max_orders max_quantity next_sequence last_logical_time policy mode minimum state =
     sum_bind (make_book d max_orders max_quantity policy mode minimum state) (\<lambda>b.
       if next_sequence = 0 then Inl Invalid_Argument
       else Inr \<lparr>se_book = b,
          se_trade_scratch = replicate max_orders \<lparr>tr_buy = 0, tr_sell = 0, tr_price = 0, tr_quantity = 0\<rparr>,
          se_trade_capacity = max_orders, se_next_sequence = next_sequence,
          se_last_logical_time = last_logical_time, se_sequence_exhausted = False\<rparr>)"

definition maximum_event_capacity :: "engine \<Rightarrow> nat" where
  "maximum_event_capacity e = se_trade_capacity e * 2 + 1"

definition payload_handle :: "command_payload \<Rightarrow> handle" where
  "payload_handle p = \<lparr>h_index = unat (cp_handle_index p), h_generation = cp_handle_generation p\<rparr>"

definition required_event_capacity :: "engine \<Rightarrow> command_payload \<Rightarrow> nat" where
  "required_event_capacity e p =
     (let b = se_book e; matching_capacity = se_trade_capacity e + 1 + ob_dormant_stop_count b
      in case cp_tag p of
        CT_Submit_Limit \<Rightarrow>
          (if preflight_limit b (cp_side p) (cp_price_ticks p) (cp_quantity p) (cp_time_in_force p) = RR_None
           then matching_capacity else 1)
      | CT_Submit_Market \<Rightarrow>
          (if preflight_market b (cp_side p) (cp_quantity p) = RR_None then matching_capacity else 1)
      | CT_Submit_Iceberg \<Rightarrow>
          (if preflight_limit b (cp_side p) (cp_price_ticks p) (cp_quantity p) GTC = RR_None
           then matching_capacity else 1)
      | CT_Submit_Stop \<Rightarrow>
          (if preflight_stop b (cp_side p) None (cp_quantity p) = RR_None then matching_capacity + 1 else 1)
      | CT_Submit_Stop_Limit \<Rightarrow>
          (if preflight_stop b (cp_side p) (Some (cp_price_ticks p)) (cp_quantity p) = RR_None
           then matching_capacity + 1 else 1)
      | CT_Replace \<Rightarrow>
          (if preflight_replace b (payload_handle p) (cp_price_ticks p) (cp_quantity p) \<noteq> RR_None then 1
           else se_trade_capacity e + ob_dormant_stop_count b)
      | CT_Cancel \<Rightarrow> 1
      | CT_Amend_Quantity \<Rightarrow> 1
      | CT_Uncross_Opening_Auction \<Rightarrow> se_trade_capacity e + 1
      | CT_Raw _ \<Rightarrow> 0)"

section \<open>Writing events\<close>

text \<open>A loop that writes \<open>n\<close> events from position \<open>k\<close> on, each computed from its position.\<close>

fun write_from :: "(nat \<Rightarrow> engine_event) \<Rightarrow> nat \<Rightarrow> nat \<Rightarrow> engine_event list \<Rightarrow> engine_event list run" where
  "write_from ev k 0 events = ret events"
| "write_from ev k (Suc n) events =
     (if k \<ge> length events then crash Event_Buffer_Overflow
      else write_from ev (k + 1) n (events[k := ev k]))"

definition write_submit_events :: "engine \<Rightarrow> sequenced_command \<Rightarrow> submit_result \<Rightarrow> order_id \<Rightarrow> engine_event list \<Rightarrow>
    engine_event list run" where
  "write_submit_events e command result oid events =
     run_bind (write_from (\<lambda>_. submit_event command oid result) 0 1 events) (\<lambda>events1.
     run_bind (write_from (\<lambda>k. trade_event (sc_sequence command) k (se_trade_scratch e ! (k - 1))) 1
                 (sr_trade_count result) events1) (\<lambda>events2.
     write_from (\<lambda>k. stop_triggered_event command k (stop_activations (se_book e) ! (k - (sr_trade_count result + 1))))
       (sr_trade_count result + 1) (length (stop_activations (se_book e))) events2))"

section \<open>Applying a command\<close>

text \<open>
  The five submit commands and \<^verbatim>\<open>replace\<close> end alike: the book and the scratch buffer are updated, the
  events written, and the events counted.  \<^verbatim>\<open>replace\<close> overwrites the order identifier of event 0 with
  that of the replaced order; both reach event 0 through \<open>oid\<close> here.
\<close>

definition finish_submit :: "engine \<Rightarrow> sequenced_command \<Rightarrow> order_id \<Rightarrow> submit_run \<Rightarrow> engine_event list \<Rightarrow>
    (nat \<times> engine \<times> engine_event list) run" where
  "finish_submit e command oid run events =
     run_bind run (\<lambda>(result, b, trades).
       let e1 = e\<lparr>se_book := b, se_trade_scratch := trades\<rparr>
       in run_bind (write_submit_events e1 command result oid events) (\<lambda>events'.
          ret (1 + sr_trade_count result + length (stop_activations b), e1, events')))"

definition apply_cancel :: "engine \<Rightarrow> sequenced_command \<Rightarrow> engine_event list \<Rightarrow> (nat \<times> engine \<times> engine_event list) run" where
  "apply_cancel e command events =
     (let h = payload_handle (sc_payload command); (result, b) = cancel (se_book e) h
      in run_bind (write_from (\<lambda>_. default_event\<lparr>ev_command_sequence := sc_sequence command, ev_order_id := cr_id result,
             ev_quantity := cr_quantity result, ev_handle := h, ev_type := EV_Cancel_Result,
             ev_reason := cancel_code (cr_reason result)\<rparr>) 0 1 events) (\<lambda>events'.
         ret (1, e\<lparr>se_book := b\<rparr>, events')))"

definition apply_amend :: "engine \<Rightarrow> sequenced_command \<Rightarrow> engine_event list \<Rightarrow> (nat \<times> engine \<times> engine_event list) run" where
  "apply_amend e command events =
     (let p = sc_payload command; (result, b) = amend_quantity (se_book e) (payload_handle p) (cp_quantity p)
      in run_bind (write_from (\<lambda>_. default_event\<lparr>ev_command_sequence := sc_sequence command, ev_order_id := am_id result,
             ev_quantity := am_previous result, ev_secondary_quantity := am_new result, ev_handle := am_handle result,
             ev_type := EV_Amend_Result, ev_reason := amend_code (am_reason result)\<rparr>) 0 1 events) (\<lambda>events'.
         ret (1, e\<lparr>se_book := b\<rparr>, events')))"

definition apply_uncross :: "engine \<Rightarrow> sequenced_command \<Rightarrow> engine_event list \<Rightarrow> (nat \<times> engine \<times> engine_event list) run" where
  "apply_uncross e command events =
     run_bind (uncross_opening_auction (se_book e) (se_trade_scratch e)) (\<lambda>(result, b, trades).
     run_bind (write_from (\<lambda>_. default_event\<lparr>ev_command_sequence := sc_sequence command,
             ev_price := (case au_clearing_price result of None \<Rightarrow> 0 | Some p \<Rightarrow> p), ev_quantity := au_executed result,
             ev_type := EV_Auction_Result, ev_reason := auction_code (au_error result)\<rparr>) 0 1 events) (\<lambda>events1.
     run_bind (write_from (\<lambda>k. trade_event (sc_sequence command) k (trades ! (k - 1))) 1 (au_trade_count result) events1)
       (\<lambda>events2. ret (1 + au_trade_count result, e\<lparr>se_book := b, se_trade_scratch := trades\<rparr>, events2))))"

definition dispatch :: "engine \<Rightarrow> sequenced_command \<Rightarrow> engine_event list \<Rightarrow> (nat \<times> engine \<times> engine_event list) run" where
  "dispatch e command events =
     (let p = sc_payload command; b = se_book e; trades = se_trade_scratch e; oid = cp_order_id p
      in case cp_tag p of
        CT_Submit_Limit \<Rightarrow> finish_submit e command oid
          (submit_limit_tif b oid (cp_side p) (cp_price_ticks p) (cp_quantity p) (cp_time_in_force p) trades) events
      | CT_Submit_Market \<Rightarrow> finish_submit e command oid (submit_market b oid (cp_side p) (cp_quantity p) trades) events
      | CT_Submit_Iceberg \<Rightarrow> finish_submit e command oid
          (submit_iceberg_gtc b oid (cp_side p) (cp_price_ticks p) (cp_quantity p) (iceberg_display_quantity p) trades) events
      | CT_Submit_Stop \<Rightarrow> finish_submit e command oid
          (submit_stop b oid (cp_side p) (stop_trigger_price p) (cp_quantity p) trades) events
      | CT_Submit_Stop_Limit \<Rightarrow> finish_submit e command oid
          (submit_stop_limit b oid (cp_side p) (stop_trigger_price p) (cp_price_ticks p) (cp_quantity p) trades) events
      | CT_Cancel \<Rightarrow> apply_cancel e command events
      | CT_Amend_Quantity \<Rightarrow> apply_amend e command events
      | CT_Replace \<Rightarrow> finish_submit e command
          (case get_order_info b (payload_handle p) of None \<Rightarrow> oid | Some previous \<Rightarrow> oi_id previous)
          (replace b (payload_handle p) (cp_price_ticks p) (cp_quantity p) trades) events
      | CT_Uncross_Opening_Auction \<Rightarrow> apply_uncross e command events
      | CT_Raw _ \<Rightarrow> ret (1, e, events))"

definition advance :: "engine \<Rightarrow> u64 \<Rightarrow> engine" where
  "advance e logical_time =
     (let e1 = (if se_next_sequence e = -1 then e\<lparr>se_sequence_exhausted := True\<rparr>
                else e\<lparr>se_next_sequence := se_next_sequence e + 1\<rparr>)
      in e1\<lparr>se_last_logical_time := logical_time\<rparr>)"

definition apply_refused :: "engine \<Rightarrow> sequenced_command \<Rightarrow> nat \<Rightarrow> apply_status" where
  "apply_refused e command capacity =
     (if se_sequence_exhausted e then AS_Sequence_Exhausted
      else if validate_command_payload (sc_payload command) \<noteq> CV_None then AS_Invalid_Command
      else if sc_sequence command \<noteq> se_next_sequence e then AS_Invalid_Sequence
      else if sc_logical_time command < se_last_logical_time e then AS_Decreasing_Logical_Time
      else if capacity < required_event_capacity e (sc_payload command) then AS_Insufficient_Event_Capacity
      else AS_Applied)"

definition apply_command :: "engine \<Rightarrow> sequenced_command \<Rightarrow> engine_event list \<Rightarrow>
    (apply_result \<times> engine \<times> engine_event list) run" where
  "apply_command e command events =
     (let refused = apply_refused e command (length events)
      in if refused \<noteq> AS_Applied then ret (\<lparr>ap_status = refused, ap_event_count = 0\<rparr>, e, events)
         else run_bind (dispatch e command events) (\<lambda>(event_count, e1, events1).
           ret (\<lparr>ap_status = AS_Applied, ap_event_count = event_count\<rparr>, advance e1 (sc_logical_time command), events1)))"

end
