(* ===== verification/Frames.thy ===== *)
theory Frames
  imports Bbo Sequenced_Engine
begin

text \<open>
  The wire formats built on fixed-size frames: the command frame (\<^verbatim>\<open>command_protocol.cpp\<close>), the
  best-bid-and-offer frame (\<^verbatim>\<open>bbo_protocol.cpp\<close>), the market data frame (\<^verbatim>\<open>market_data_protocol.cpp\<close>), the
  engine event record and its fingerprint (\<^verbatim>\<open>replay.cpp\<close>), and the publishers that write them.
\<close>

section \<open>Command frames\<close>

definition kCommandProtocolVersion :: u8 where
  "kCommandProtocolVersion = 1"

definition kEncodedCommandFrameSize :: nat where
  "kEncodedCommandFrameSize = 40"

datatype command_frame_error = CF_Invalid_Length | CF_Unsupported_Version | CF_Noncanonical_Header | CF_Invalid_Payload

text \<open>
  The error enumeration has no value for success; \<^verbatim>\<open>CommandFrameError{}\<close>, which the encoder returns then,
  is its first enumerator.
\<close>

definition command_frame_success :: command_frame_error where
  "command_frame_success = CF_Invalid_Length"

definition encode_command_frame :: "command_payload \<Rightarrow> u8 list \<Rightarrow> command_frame_error \<times> u8 list" where
  "encode_command_frame p output =
     (if length output \<noteq> kEncodedCommandFrameSize then (CF_Invalid_Length, output)
      else let o1 = output[0 := kCommandProtocolVersion, 1 := 0, 2 := 0, 3 := 0];
               (error, body) = encode_command_payload p (drop 4 o1)
           in (if error = CC_None then command_frame_success else CF_Invalid_Payload, take 4 o1 @ body))"

definition decode_command_frame :: "u8 list \<Rightarrow> command_frame_error + command_payload" where
  "decode_command_frame input =
     (if length input \<noteq> kEncodedCommandFrameSize then Inl CF_Invalid_Length
      else if input ! 0 \<noteq> kCommandProtocolVersion then Inl CF_Unsupported_Version
      else if input ! 1 \<noteq> 0 \<or> input ! 2 \<noteq> 0 \<or> input ! 3 \<noteq> 0 then Inl CF_Noncanonical_Header
      else case decode_command_payload (drop 4 input) of Inl _ \<Rightarrow> Inl CF_Invalid_Payload | Inr p \<Rightarrow> Inr p)"

section \<open>Little-endian fields\<close>

text \<open>The templates write or read \<^verbatim>\<open>sizeof(Integer)\<close> bytes of the span that starts at \<open>offset\<close>.\<close>

definition encode_little_endian :: "'a::len word \<Rightarrow> nat \<Rightarrow> u8 list \<Rightarrow> u8 list" where
  "encode_little_endian value offset output =
     foldl (\<lambda>out index. out[offset + index := byte_at value index]) output [0..<LENGTH('a) div 8]"

definition decode_little_endian :: "u8 list \<Rightarrow> nat \<Rightarrow> 'a::len word" where
  "decode_little_endian input offset =
     foldl (\<lambda>value index. value OR push_bit (index * 8) (ucast (input ! (offset + index)))) 0 [0..<LENGTH('a) div 8]"

definition is_zero :: "u8 list \<Rightarrow> bool" where
  "is_zero bytes \<longleftrightarrow> (\<forall>b \<in> set bytes. b = 0)"

definition subspan :: "u8 list \<Rightarrow> nat \<Rightarrow> nat \<Rightarrow> u8 list" where
  "subspan bytes offset count = take count (drop offset bytes)"

section \<open>Best-bid-and-offer frames\<close>

definition kBboProtocolVersion :: u8 where
  "kBboProtocolVersion = 1"

definition kEncodedBboFrameSize :: nat where
  "kEncodedBboFrameSize = 40"

datatype bbo_frame_error = BF_None | BF_Invalid_Length | BF_Unsupported_Version | BF_Noncanonical

definition encode_bbo_side :: "price option \<Rightarrow> quantity \<Rightarrow> nat \<Rightarrow> nat \<Rightarrow> u8 list \<Rightarrow> u8 list" where
  "encode_bbo_side p q price_offset quantity_offset out =
     (case p of None \<Rightarrow> out
      | Some ticks \<Rightarrow> encode_little_endian q quantity_offset (encode_little_endian (price_bits ticks) price_offset out))"

definition encode_bbo_frame :: "bbo_state \<Rightarrow> u8 list \<Rightarrow> bbo_frame_error \<times> u8 list" where
  "encode_bbo_frame s output =
     (if length output \<noteq> kEncodedBboFrameSize then (BF_Invalid_Length, output)
      else let o1 = (replicate (length output) 0)[0 := kBboProtocolVersion,
                      4 := (if bs_bid_price s \<noteq> None then 1 else 0), 5 := (if bs_ask_price s \<noteq> None then 1 else 0)];
               o2 = encode_bbo_side (bs_bid_price s) (bs_bid_quantity s) 8 16 o1
           in (BF_None, encode_bbo_side (bs_ask_price s) (bs_ask_quantity s) 24 32 o2))"

definition decode_bbo_frame :: "u8 list \<Rightarrow> bbo_frame_error + bbo_state" where
  "decode_bbo_frame input =
     (if length input \<noteq> kEncodedBboFrameSize then Inl BF_Invalid_Length
      else if input ! 0 \<noteq> kBboProtocolVersion then Inl BF_Unsupported_Version
      else if \<not> is_zero (subspan input 1 3) \<or> input ! 4 > 1 \<or> input ! 5 > 1 \<or> \<not> is_zero (subspan input 6 2) then Inl BF_Noncanonical
      else let bid_present = (input ! 4 = 1); ask_present = (input ! 5 = 1)
           in if (\<not> bid_present \<and> (\<not> is_zero (subspan input 8 8) \<or> \<not> is_zero (subspan input 16 8))) \<or>
                 (\<not> ask_present \<and> (\<not> is_zero (subspan input 24 8) \<or> \<not> is_zero (subspan input 32 8)))
              then Inl BF_Noncanonical
              else Inr \<lparr>bs_bid_price = (if bid_present then Some (bits_price (decode_little_endian input 8)) else None),
                        bs_bid_quantity = (if bid_present then decode_little_endian input 16 else 0),
                        bs_ask_price = (if ask_present then Some (bits_price (decode_little_endian input 24)) else None),
                        bs_ask_quantity = (if ask_present then decode_little_endian input 32 else 0)\<rparr>)"

section \<open>Market data frames\<close>

definition kMarketDataProtocolVersion :: u8 where
  "kMarketDataProtocolVersion = 1"

definition kEncodedMarketDataFrameSize :: nat where
  "kEncodedMarketDataFrameSize = 64"

datatype market_data_message_type = MD_Add_Order | MD_Replace_Order | MD_Delete_Order | MD_Trade | MD_Level_Update | MD_Raw u8

record market_data_message =
  md_sequence :: u64
  md_order_id :: order_id
  md_secondary_order_id :: order_id
  md_price :: price
  md_quantity :: quantity
  md_secondary_quantity :: quantity
  md_order_count :: u32
  md_type :: market_data_message_type
  md_side :: raw_side

datatype market_data_frame_error = MF_None | MF_Invalid_Length | MF_Unsupported_Version | MF_Invalid_Type | MF_Invalid_Side
  | MF_Noncanonical | MF_Sequence_Gap

definition validate_market_data_sequence :: "u64 \<Rightarrow> market_data_message \<Rightarrow> market_data_frame_error" where
  "validate_market_data_sequence previous m =
     (if previous \<noteq> 0 \<and> (previous = - 1 \<or> md_sequence m \<noteq> previous + 1) then MF_Sequence_Gap else MF_None)"

fun md_type_byte :: "market_data_message_type \<Rightarrow> u8" where
  "md_type_byte MD_Add_Order = 1" | "md_type_byte MD_Replace_Order = 2" | "md_type_byte MD_Delete_Order = 3"
| "md_type_byte MD_Trade = 4" | "md_type_byte MD_Level_Update = 5" | "md_type_byte (MD_Raw b) = b"

definition md_type_of_byte :: "u8 \<Rightarrow> market_data_message_type" where
  "md_type_of_byte b = (if b = 1 then MD_Add_Order else if b = 2 then MD_Replace_Order else if b = 3 then MD_Delete_Order
     else if b = 4 then MD_Trade else if b = 5 then MD_Level_Update else MD_Raw b)"

definition md_is_valid_type :: "market_data_message_type \<Rightarrow> bool" where
  "md_is_valid_type t \<longleftrightarrow> t = MD_Add_Order \<or> t = MD_Replace_Order \<or> t = MD_Delete_Order \<or> t = MD_Trade \<or> t = MD_Level_Update"

definition has_buy_side_sentinel :: "market_data_message \<Rightarrow> bool" where
  "has_buy_side_sentinel m \<longleftrightarrow> md_side m = Valid_Side Buy"

definition is_canonical :: "market_data_message \<Rightarrow> bool" where
  "is_canonical m = (case md_type m of
     MD_Add_Order \<Rightarrow> is_valid_side (md_side m) \<and> md_secondary_order_id m = 0 \<and> md_secondary_quantity m = 0 \<and> md_order_count m = 0
   | MD_Replace_Order \<Rightarrow> has_buy_side_sentinel m \<and> md_secondary_order_id m = 0 \<and> md_price m = 0 \<and>
       md_secondary_quantity m = 0 \<and> md_order_count m = 0
   | MD_Delete_Order \<Rightarrow> has_buy_side_sentinel m \<and> md_secondary_order_id m = 0 \<and> md_price m = 0 \<and> md_quantity m = 0 \<and>
       md_secondary_quantity m = 0 \<and> md_order_count m = 0
   | MD_Trade \<Rightarrow> has_buy_side_sentinel m \<and> md_secondary_quantity m = 0 \<and> md_order_count m = 0
   | MD_Level_Update \<Rightarrow> is_valid_side (md_side m) \<and> md_order_id m = 0 \<and> md_secondary_order_id m = 0 \<and> md_secondary_quantity m = 0
   | MD_Raw _ \<Rightarrow> False)"

definition noncanonical_error :: "market_data_message \<Rightarrow> market_data_frame_error" where
  "noncanonical_error m = (if (md_type m = MD_Add_Order \<or> md_type m = MD_Level_Update) \<and> \<not> is_valid_side (md_side m)
     then MF_Invalid_Side else MF_Noncanonical)"

definition encode_market_data_frame :: "market_data_message \<Rightarrow> u8 list \<Rightarrow> market_data_frame_error \<times> u8 list" where
  "encode_market_data_frame m output =
     (if length output \<noteq> kEncodedMarketDataFrameSize then (MF_Invalid_Length, output)
      else if \<not> md_is_valid_type (md_type m) then (MF_Invalid_Type, output)
      else if \<not> is_canonical m then (noncanonical_error m, output)
      else let o1 = (replicate (length output) 0)[0 := kMarketDataProtocolVersion, 1 := md_type_byte (md_type m),
                      2 := side_byte (md_side m)];
               o2 = encode_little_endian (md_sequence m) 8 o1;
               o3 = encode_little_endian (md_order_id m) 16 o2;
               o4 = encode_little_endian (md_secondary_order_id m) 24 o3;
               o5 = encode_little_endian (price_bits (md_price m)) 32 o4;
               o6 = encode_little_endian (md_quantity m) 40 o5;
               o7 = encode_little_endian (md_secondary_quantity m) 48 o6
           in (MF_None, encode_little_endian (md_order_count m) 56 o7))"

definition decode_market_data_frame :: "u8 list \<Rightarrow> market_data_frame_error + market_data_message" where
  "decode_market_data_frame input =
     (if length input \<noteq> kEncodedMarketDataFrameSize then Inl MF_Invalid_Length
      else if input ! 0 \<noteq> kMarketDataProtocolVersion then Inl MF_Unsupported_Version
      else let t = md_type_of_byte (input ! 1)
           in if \<not> md_is_valid_type t then Inl MF_Invalid_Type
              else if \<not> is_zero (subspan input 3 5) \<or> \<not> is_zero (subspan input 60 4) then Inl MF_Noncanonical
              else let m = \<lparr>md_sequence = decode_little_endian input 8, md_order_id = decode_little_endian input 16,
                       md_secondary_order_id = decode_little_endian input 24, md_price = bits_price (decode_little_endian input 32),
                       md_quantity = decode_little_endian input 40, md_secondary_quantity = decode_little_endian input 48,
                       md_order_count = decode_little_endian input 56, md_type = t, md_side = side_of_byte (input ! 2)\<rparr>
                   in if \<not> is_canonical m then Inl (noncanonical_error m) else Inr m)"

section \<open>Engine event records\<close>

definition kEncodedEngineEventSize :: nat where
  "kEncodedEngineEventSize = 64"

datatype event_codec_error = EC_None | EC_Invalid_Length | EC_Invalid_Type | EC_Noncanonical

fun event_type_byte :: "engine_event_type \<Rightarrow> u8" where
  "event_type_byte EV_Submit_Result = 0" | "event_type_byte EV_Trade = 1" | "event_type_byte EV_Cancel_Result = 2"
| "event_type_byte EV_Amend_Result = 3" | "event_type_byte EV_Stop_Triggered = 4" | "event_type_byte EV_Auction_Result = 5"
| "event_type_byte (EV_Raw b) = b"

definition event_type_of_byte :: "u8 \<Rightarrow> engine_event_type" where
  "event_type_of_byte b = (if b = 0 then EV_Submit_Result else if b = 1 then EV_Trade else if b = 2 then EV_Cancel_Result
     else if b = 3 then EV_Amend_Result else if b = 4 then EV_Stop_Triggered else if b = 5 then EV_Auction_Result else EV_Raw b)"

definition valid_event_type :: "engine_event_type \<Rightarrow> bool" where
  "valid_event_type t \<longleftrightarrow> t = EV_Submit_Result \<or> t = EV_Trade \<or> t = EV_Cancel_Result \<or> t = EV_Amend_Result \<or>
     t = EV_Stop_Triggered \<or> t = EV_Auction_Result"

definition encode_engine_event :: "engine_event \<Rightarrow> u8 list \<Rightarrow> event_codec_error \<times> u8 list" where
  "encode_engine_event e output =
     (if length output \<noteq> kEncodedEngineEventSize then (EC_Invalid_Length, output)
      else if \<not> valid_event_type (ev_type e) then (EC_Invalid_Type, output)
      else if ev_reserved e \<noteq> 0 then (EC_Noncanonical, output)
      else let o1 = write_u64 (replicate (length output) 0) 0 (ev_command_sequence e);
               o2 = write_u64 o1 8 (ev_order_id e);
               o3 = write_u64 o2 16 (ev_secondary_order_id e);
               o4 = write_u64 o3 24 (price_bits (ev_price e));
               o5 = write_u64 o4 32 (ev_quantity e);
               o6 = write_u64 o5 40 (ev_secondary_quantity e);
               o7 = write_u32 o6 48 (word_of_nat (h_index (ev_handle e)));
               o8 = write_u32 o7 52 (h_generation (ev_handle e));
               o9 = write_u32 o8 56 (word_of_nat (ev_event_index e))
           in (EC_None, o9[60 := event_type_byte (ev_type e), 61 := ev_reason e]))"

definition decode_engine_event :: "u8 list \<Rightarrow> event_codec_error + engine_event" where
  "decode_engine_event input =
     (if length input \<noteq> kEncodedEngineEventSize then Inl EC_Invalid_Length
      else let t = event_type_of_byte (input ! 60)
           in if \<not> valid_event_type t then Inl EC_Invalid_Type
              else if input ! 62 \<noteq> 0 \<or> input ! 63 \<noteq> 0 then Inl EC_Noncanonical
              else Inr \<lparr>ev_command_sequence = read_u64 input 0, ev_order_id = read_u64 input 8,
                        ev_secondary_order_id = read_u64 input 16, ev_price = bits_price (read_u64 input 24),
                        ev_quantity = read_u64 input 32, ev_secondary_quantity = read_u64 input 40,
                        ev_handle = \<lparr>h_index = unat (read_u32 input 48), h_generation = read_u32 input 52\<rparr>,
                        ev_event_index = unat (read_u32 input 56), ev_type = t, ev_reason = input ! 61, ev_reserved = 0\<rparr>)"

section \<open>The replay fingerprint\<close>

record replay_fingerprint =
  fp_crc_state :: u32
  fp_event_count :: u64
  fp_byte_count :: u64

definition empty_fingerprint :: replay_fingerprint where
  "empty_fingerprint = \<lparr>fp_crc_state = 0xffffffff, fp_event_count = 0, fp_byte_count = 0\<rparr>"

definition crc_bit :: "u32 \<Rightarrow> u32" where
  "crc_bit crc = (let mask = 0 - (crc AND 1) in drop_bit 1 crc XOR (0x82f63b78 AND mask))"

definition crc_byte :: "u32 \<Rightarrow> u8 \<Rightarrow> u32" where
  "crc_byte crc b = (crc_bit ^^ 8) (crc XOR ucast b)"

definition fingerprint_add :: "replay_fingerprint \<Rightarrow> engine_event \<Rightarrow> event_codec_error \<times> replay_fingerprint" where
  "fingerprint_add f e =
     (let (encoded, bytes) = encode_engine_event e (replicate kEncodedEngineEventSize 0)
      in if encoded \<noteq> EC_None then (encoded, f)
         else (EC_None, \<lparr>fp_crc_state = foldl crc_byte (fp_crc_state f) bytes, fp_event_count = fp_event_count f + 1,
                         fp_byte_count = fp_byte_count f + word_of_nat (length bytes)\<rparr>))"

definition crc32c :: "replay_fingerprint \<Rightarrow> u32" where
  "crc32c f = NOT (fp_crc_state f)"

section \<open>Publishers\<close>

datatype mbo_publish_status = MBO_Published | MBO_Output_Error

text \<open>The publisher's state is the error of the last call.\<close>

definition mbo_publish :: "engine_event \<Rightarrow> u8 list \<Rightarrow> mbo_publish_status \<times> event_codec_error \<times> u8 list" where
  "mbo_publish e output =
     (let (error, out) = encode_engine_event e output
      in (if error = EC_None then MBO_Published else MBO_Output_Error, error, out))"

datatype mbp_publish_status = MBP_Published | MBP_Output_Error

definition mbp_publish_best :: "engine_event \<Rightarrow> book \<Rightarrow> raw_side \<Rightarrow> u8 list \<Rightarrow>
    mbp_publish_status \<times> market_data_frame_error \<times> u8 list" where
  "mbp_publish_best e b s output =
     (let p = (if s = Valid_Side Buy then best_bid b else best_ask b);
          lvl = (case p of None \<Rightarrow> None | Some px \<Rightarrow> get_level_info b s px);
          m = \<lparr>md_sequence = ev_command_sequence e, md_order_id = 0, md_secondary_order_id = 0,
               md_price = (case p of None \<Rightarrow> 0 | Some px \<Rightarrow> px),
               md_quantity = (case lvl of None \<Rightarrow> 0 | Some l \<Rightarrow> li_aggregate l), md_secondary_quantity = 0,
               md_order_count = (case lvl of None \<Rightarrow> 0 | Some l \<Rightarrow> li_count l),
               md_type = MD_Level_Update, md_side = s\<rparr>;
          (error, out) = encode_market_data_frame m output
      in (if error = MF_None then MBP_Published else MBP_Output_Error, error, out))"

datatype bbo_publish_status = BP_Published | BP_Unchanged | BP_Snapshot_Unavailable | BP_Output_Error

record bbo_publisher =
  bp_last_published :: "bbo_state option"
  bp_last_frame_error :: bbo_frame_error

definition bbo_try_publish :: "bbo_publisher \<Rightarrow> bbo_state option \<Rightarrow> u8 list \<Rightarrow> bbo_publish_status \<times> bbo_publisher \<times> u8 list" where
  "bbo_try_publish pub snapshot output =
     (case snapshot of None \<Rightarrow> (BP_Snapshot_Unavailable, pub, output)
      | Some s \<Rightarrow>
          if bp_last_published pub = Some s then (BP_Unchanged, pub, output)
          else let (error, out) = encode_bbo_frame s output; pub1 = pub\<lparr>bp_last_frame_error := error\<rparr>
               in if error \<noteq> BF_None then (BP_Output_Error, pub1, out)
                  else (BP_Published, pub1\<lparr>bp_last_published := Some s\<rparr>, out))"

end
