(* ===== verification/Market_Data.thy ===== *)
theory Market_Data
  imports Gateway Frames
begin

text \<open>
  Market data as input: the reader of a file of frames (\<^verbatim>\<open>market_data_input.cpp\<close>) and the adapter that turns its
  messages into commands and follows the handles of the orders it entered (\<^verbatim>\<open>market_data_adapter.cpp\<close>).
\<close>

section \<open>The reader\<close>

datatype market_data_input_error = MI_Open_Failed | MI_Truncated_Frame | MI_Malformed_Frame | MI_Sequence_Gap

text \<open>The stream is the bytes not yet read.\<close>

record market_data_input =
  mi_input :: "u8 list"
  mi_previous_sequence :: u64

definition open_input :: "u8 list option \<Rightarrow> market_data_input_error + market_data_input" where
  "open_input file = (case file of None \<Rightarrow> Inl MI_Open_Failed | Some bytes \<Rightarrow> Inr \<lparr>mi_input = bytes, mi_previous_sequence = 0\<rparr>)"

definition read_next :: "market_data_input \<Rightarrow> (market_data_input_error + market_data_message option) \<times> market_data_input" where
  "read_next s =
     (let frame = take kEncodedMarketDataFrameSize (mi_input s); s1 = s\<lparr>mi_input := drop kEncodedMarketDataFrameSize (mi_input s)\<rparr>
      in if length frame = 0 then (Inr None, s1)
         else if length frame \<noteq> kEncodedMarketDataFrameSize then (Inl MI_Truncated_Frame, s1)
         else case decode_market_data_frame frame of
                Inl _ \<Rightarrow> (Inl MI_Malformed_Frame, s1)
              | Inr m \<Rightarrow>
                  if validate_market_data_sequence (mi_previous_sequence s) m \<noteq> MF_None then (Inl MI_Sequence_Gap, s1)
                  else (Inr (Some m), s1\<lparr>mi_previous_sequence := md_sequence m\<rparr>))"

section \<open>The adapter\<close>

datatype market_data_adapt_error = AD_Unsupported_Message | AD_Invalid_Command | AD_Sequence_Mismatch | AD_Sequence_Exhausted | AD_Unknown_Order

record market_data_adapter =
  ad_gateway :: gateway
  ad_sequencer :: sequencer
  ad_previous_sequence :: u64
  ad_last_reject :: gateway_reject_reason
  ad_handles :: "(order_id \<times> handle) list"

definition make_adapter :: "gateway \<Rightarrow> market_data_adapter" where
  "make_adapter g = \<lparr>ad_gateway = g, ad_sequencer = make_sequencer 1 0, ad_previous_sequence = 0, ad_last_reject = GR_None, ad_handles = []\<rparr>"

definition find_handle :: "market_data_adapter \<Rightarrow> order_id \<Rightarrow> handle option" where
  "find_handle a oid = map_of (ad_handles a) oid"

text \<open>The payload for a message, with the adapter after the gateway was asked.\<close>

definition adapt_payload :: "market_data_adapter \<Rightarrow> market_data_message \<Rightarrow>
    (market_data_adapt_error + command_payload) \<times> market_data_adapter" where
  "adapt_payload a m = (case md_type m of
     MD_Add_Order \<Rightarrow>
       (let (reason, g) = gateway_validate_lane0 (ad_gateway a) (md_order_id m) (md_side m) (md_price m) (md_quantity m) (md_sequence m);
            a1 = a\<lparr>ad_gateway := g, ad_last_reject := reason\<rparr>
        in if reason \<noteq> GR_None then (Inl AD_Invalid_Command, a1)
           else (Inr (payload_submit_limit (md_order_id m) (md_side m) (md_price m) (md_quantity m) GTC), a1))
   | MD_Delete_Order \<Rightarrow>
       (case find_handle a (md_order_id m) of None \<Rightarrow> (Inl AD_Unknown_Order, a) | Some h \<Rightarrow> (Inr (payload_cancel h), a))
   | MD_Replace_Order \<Rightarrow>
       (case find_handle a (md_order_id m) of None \<Rightarrow> (Inl AD_Unknown_Order, a)
        | Some h \<Rightarrow> (Inr (payload_amend_quantity h (md_quantity m)), a))
   | _ \<Rightarrow> (Inl AD_Unsupported_Message, a))"

fun stamp_error :: "sequencer_error \<Rightarrow> market_data_adapt_error" where
  "stamp_error SE_Invalid_Payload = AD_Invalid_Command"
| "stamp_error SE_Decreasing_Logical_Time = AD_Sequence_Mismatch"
| "stamp_error SE_Sequence_Exhausted = AD_Sequence_Exhausted"

definition adapt :: "market_data_adapter \<Rightarrow> market_data_message \<Rightarrow> (market_data_adapt_error + sequenced_command) \<times> market_data_adapter" where
  "adapt a m =
     (if validate_market_data_sequence (ad_previous_sequence a) m \<noteq> MF_None then (Inl AD_Sequence_Mismatch, a)
      else case adapt_payload a m of
             (Inl e, a1) \<Rightarrow> (Inl e, a1)
           | (Inr payload, a1) \<Rightarrow>
               (case stamp (ad_sequencer a1) payload (md_sequence m) of
                  (Inl e, sq) \<Rightarrow> (Inl (stamp_error e), a1\<lparr>ad_sequencer := sq\<rparr>)
                | (Inr c, sq) \<Rightarrow> (Inr c, a1\<lparr>ad_sequencer := sq, ad_previous_sequence := md_sequence m\<rparr>)))"

text \<open>The first entry with the identifier is overwritten by the last one, which is dropped.\<close>

definition drop_handle :: "order_id \<Rightarrow> (order_id \<times> handle) list \<Rightarrow> (order_id \<times> handle) list" where
  "drop_handle oid hs =
     (let i = find_index oid (map fst hs) in if i \<noteq> length hs then butlast (hs[i := last hs]) else hs)"

definition record_applied_event :: "market_data_adapter \<Rightarrow> engine_event \<Rightarrow> market_data_adapter" where
  "record_applied_event a e =
     (if ev_type e = EV_Submit_Result \<or> ev_type e = EV_Stop_Triggered then
        (if h_index (ev_handle e) = kInvalidIndex then
           a\<lparr>ad_handles := drop_handle (ev_order_id e) (ad_handles a), ad_gateway := gateway_release (ad_gateway a) (ev_order_id e)\<rparr>
         else case find_handle a (ev_order_id e) of
                Some _ \<Rightarrow> a\<lparr>ad_handles := (ad_handles a)[find_index (ev_order_id e) (map fst (ad_handles a)) := (ev_order_id e, ev_handle e)]\<rparr>
              | None \<Rightarrow> a\<lparr>ad_handles := ad_handles a @ [(ev_order_id e, ev_handle e)]\<rparr>)
      else if ev_type e \<noteq> EV_Cancel_Result \<or> ev_reason e \<noteq> 0 then a
      else if find_handle a (ev_order_id e) = None then a
      else a\<lparr>ad_handles := drop_handle (ev_order_id e) (ad_handles a), ad_gateway := gateway_release (ad_gateway a) (ev_order_id e)\<rparr>)"

end
