(* ===== verification/Journal.thy ===== *)
theory Journal
  imports Frames
begin

text \<open>
  The memory-mapped command journal (\<^verbatim>\<open>journal.hpp\<close>, \<^verbatim>\<open>journal.cpp\<close>): the file is a 64-byte header and a fixed
  number of 80-byte records, the mapping its bytes.  The operating system is a parameter: each operation
  takes the results of the calls it makes (\<^verbatim>\<open>open\<close>, \<^verbatim>\<open>flock\<close>, \<^verbatim>\<open>mmap\<close>, \<^verbatim>\<open>msync\<close>, \<^verbatim>\<open>fsync\<close>, \<^verbatim>\<open>getpid\<close>, ...) in a record of outcomes.
\<close>

section \<open>Constants and errors\<close>

definition kJournalFormatVersion :: u32 where "kJournalFormatVersion = 2"

definition kMaximumJournalCapacity :: u64 where "kMaximumJournalCapacity = 1000000"

definition kJournalHeaderSize :: u64 where "kJournalHeaderSize = 64"

definition kJournalRecordSize :: u64 where "kJournalRecordSize = 80"

definition kCommittedMarker :: u32 where "kCommittedMarker = 0x54494d43"

definition kMagic :: "u8 list" where "kMagic = [77, 69, 74, 78, 76, 52, 65, 0]"

datatype journal_error = JE_None | JE_Invalid_Path | JE_Invalid_Capacity | JE_Invalid_Base_Sequence | JE_Already_Exists | JE_Not_Found
  | JE_Permission_Denied | JE_Symlink | JE_Not_Regular_File | JE_File_Size_Overflow | JE_File_Size_Mismatch | JE_Invalid_Header
  | JE_Unsupported_Platform | JE_Map_Failed | JE_Io_Error | JE_Locked | JE_Commit_Indeterminate | JE_Writer_Poisoned | JE_Wrong_Process
  | JE_Corrupt_Record | JE_Full | JE_Invalid_Command | JE_Sequence_Discontinuity | JE_Decreasing_Logical_Time | JE_Out_Of_Range | JE_Closed

record journal_open_failure =
  of_operation :: journal_error
  of_cleanup :: journal_error

fun journal_error_message :: "journal_error \<Rightarrow> string" where
  "journal_error_message JE_None = ''none''"
| "journal_error_message JE_Invalid_Path = ''invalid journal path''"
| "journal_error_message JE_Invalid_Capacity = ''invalid capacity''"
| "journal_error_message JE_Invalid_Base_Sequence = ''invalid base sequence''"
| "journal_error_message JE_Already_Exists = ''path already exists''"
| "journal_error_message JE_Not_Found = ''path not found''"
| "journal_error_message JE_Permission_Denied = ''permission denied or mode is not 0600''"
| "journal_error_message JE_Symlink = ''symlink rejected''"
| "journal_error_message JE_Not_Regular_File = ''not a regular file''"
| "journal_error_message JE_File_Size_Overflow = ''file size overflow''"
| "journal_error_message JE_File_Size_Mismatch = ''file size mismatch''"
| "journal_error_message JE_Invalid_Header = ''invalid journal header''"
| "journal_error_message JE_Unsupported_Platform = ''unsupported platform''"
| "journal_error_message JE_Map_Failed = ''mmap failed''"
| "journal_error_message JE_Io_Error = ''I/O error''"
| "journal_error_message JE_Locked = ''journal is owned by another open writer''"
| "journal_error_message JE_Commit_Indeterminate = ''commit durability is indeterminate; close and recover''"
| "journal_error_message JE_Writer_Poisoned = ''writer is poisoned; close and recover''"
| "journal_error_message JE_Wrong_Process = ''journal belongs to a different process''"
| "journal_error_message JE_Corrupt_Record = ''corrupt committed record''"
| "journal_error_message JE_Full = ''journal full''"
| "journal_error_message JE_Invalid_Command = ''invalid command''"
| "journal_error_message JE_Sequence_Discontinuity = ''sequence discontinuity''"
| "journal_error_message JE_Decreasing_Logical_Time = ''decreasing logical time''"
| "journal_error_message JE_Out_Of_Range = ''record index out of range''"
| "journal_error_message JE_Closed = ''journal closed''"

definition journal_failure_messages :: "journal_open_failure \<Rightarrow> string \<times> string" where
  "journal_failure_messages f = (journal_error_message (of_operation f), journal_error_message (of_cleanup f))"

section \<open>Operating system results\<close>

datatype errno = EEXIST | ENOENT | EACCES | EPERM | ELOOP | EWOULDBLOCK | EAGAIN | E_Other

definition errno_error :: "errno \<Rightarrow> journal_error" where
  "errno_error e =
     (if e = EEXIST then JE_Already_Exists
      else if e = ENOENT then JE_Not_Found
      else if e = EACCES \<or> e = EPERM then JE_Permission_Denied
      else if e = ELOOP then JE_Symlink
      else JE_Io_Error)"

text \<open>A call that returns nothing but its success is \<^typ>\<open>errno option\<close>, or a truth value where the code ignores \<^verbatim>\<open>errno\<close>.\<close>

definition acquire_ownership_lock :: "errno option \<Rightarrow> journal_error" where
  "acquire_ownership_lock flock = (case flock of None \<Rightarrow> JE_None
     | Some e \<Rightarrow> if e = EWOULDBLOCK \<or> e = EAGAIN then JE_Locked else errno_error e)"

datatype file_kind = Regular_File | Symbolic_Link | Other_File

record file_status =
  st_kind :: file_kind
  st_permissions :: nat
  st_size :: int

definition validate_regular_file :: "errno + file_status \<Rightarrow> journal_error" where
  "validate_regular_file fstat = (case fstat of Inl e \<Rightarrow> errno_error e
     | Inr st \<Rightarrow> if st_kind st \<noteq> Regular_File then JE_Not_Regular_File
                 else if st_permissions st \<noteq> 6 * 64 then JE_Permission_Denied
                 else JE_None)"

record cleanup_results =
  cl_unmap :: bool
  cl_unlink :: bool
  cl_parent_fsync :: bool
  cl_close :: bool
  cl_parent_close :: bool

definition cleanup_after_open_failure :: "journal_error \<Rightarrow> bool \<Rightarrow> bool \<Rightarrow> bool \<Rightarrow> bool \<Rightarrow> cleanup_results \<Rightarrow> journal_open_failure" where
  "cleanup_after_open_failure operation parent_open descriptor_open mapped created r =
     \<lparr>of_operation = operation,
      of_cleanup = (if (mapped \<and> \<not> cl_unmap r) \<or> (created \<and> \<not> cl_unlink r) \<or> (created \<and> \<not> cl_parent_fsync r) \<or>
                       (descriptor_open \<and> \<not> cl_close r) \<or> (parent_open \<and> \<not> cl_parent_close r)
                    then JE_Io_Error else JE_None)\<rparr>"

definition checked_file_size :: "u64 \<Rightarrow> nat option" where
  "checked_file_size cap =
     (if cap = 0 \<or> cap > kMaximumJournalCapacity then None
      else if cap > (- 1 - kJournalHeaderSize) div kJournalRecordSize then None
      else let wide_size = kJournalHeaderSize + cap * kJournalRecordSize
           in if unat wide_size > 2 ^ 64 - 1 \<or> unat wide_size > 2 ^ 63 - 1 then None else Some (unat wide_size))"

section \<open>Records\<close>

definition record_offset :: "u64 \<Rightarrow> nat" where
  "record_offset index = unat (kJournalHeaderSize + index * kJournalRecordSize)"

definition record_span :: "u8 list \<Rightarrow> u64 \<Rightarrow> u8 list" where
  "record_span mapping index = subspan mapping (record_offset index) (unat kJournalRecordSize)"

text \<open>A span is a view: writing through it writes the mapping.\<close>

definition store_record :: "u8 list \<Rightarrow> u64 \<Rightarrow> u8 list \<Rightarrow> u8 list" where
  "store_record mapping index rec =
     take (record_offset index) mapping @ rec @ drop (record_offset index + unat kJournalRecordSize) mapping"

definition journal_crc32c :: "u8 list \<Rightarrow> u32" where
  "journal_crc32c bytes = NOT (foldl crc_byte 0xffffffff bytes)"

definition decode_record :: "u8 list \<Rightarrow> journal_error + sequenced_command" where
  "decode_record rec =
     (if read_u32 rec 0 \<noteq> kCommittedMarker then Inl JE_Corrupt_Record
      else if read_u32 rec 20 \<noteq> word_of_nat kEncodedCommandPayloadSize \<or> \<not> is_zero (drop 64 rec) then Inl JE_Corrupt_Record
      else if journal_crc32c (subspan rec 4 56) \<noteq> read_u32 rec 60 then Inl JE_Corrupt_Record
      else case decode_command_payload (subspan rec 24 kEncodedCommandPayloadSize) of
             Inl _ \<Rightarrow> Inl JE_Corrupt_Record
           | Inr p \<Rightarrow> Inr \<lparr>sc_payload = p, sc_sequence = read_u64 rec 4, sc_logical_time = read_u64 rec 12\<rparr>)"

section \<open>The journal\<close>

record journal =
  j_descriptor :: int
  j_mapping :: "u8 list option"
  j_capacity :: u64
  j_base_sequence :: u64
  j_size :: u64
  j_last_logical_time :: u64
  j_owner_pid :: int
  j_writer_poisoned :: bool

definition make_journal :: "int \<Rightarrow> u8 list \<Rightarrow> u64 \<Rightarrow> u64 \<Rightarrow> int \<Rightarrow> journal" where
  "make_journal descriptor mapping cap base_sequence pid =
     \<lparr>j_descriptor = descriptor, j_mapping = Some mapping, j_capacity = cap, j_base_sequence = base_sequence,
      j_size = 0, j_last_logical_time = 0, j_owner_pid = pid, j_writer_poisoned = False\<rparr>"

definition journal_full :: "journal \<Rightarrow> bool" where
  "journal_full j \<longleftrightarrow> j_size j = j_capacity j"

definition journal_writable :: "journal \<Rightarrow> bool" where
  "journal_writable j \<longleftrightarrow> j_descriptor j \<ge> 0 \<and> j_mapping j \<noteq> None \<and> \<not> j_writer_poisoned j"

record create_results =
  cr_path :: "journal_error option"
  cr_parent :: "errno option"
  cr_open :: "errno + int"
  cr_flock :: "errno option"
  cr_chmod :: "errno option"
  cr_stat :: "errno + file_status"
  cr_truncate :: "errno option"
  cr_map :: bool
  cr_msync :: bool
  cr_fsync :: bool
  cr_parent_fsync :: bool
  cr_parent_close :: bool
  cr_cleanup :: cleanup_results
  cr_pid :: int

definition write_magic :: "u8 list \<Rightarrow> u8 list" where
  "write_magic mapping = foldl (\<lambda>m index. m[index := kMagic ! index]) mapping [0..<length kMagic]"

definition initial_mapping :: "nat \<Rightarrow> u64 \<Rightarrow> u64 \<Rightarrow> u8 list" where
  "initial_mapping file_size cap base_sequence =
     (let m0 = write_magic (replicate file_size 0);
          m1 = write_u32 m0 8 kJournalFormatVersion;
          m2 = write_u32 m1 12 (ucast kJournalHeaderSize);
          m3 = write_u32 m2 16 (ucast kJournalRecordSize);
          m4 = write_u64 m3 20 cap
      in write_u64 m4 28 base_sequence)"

definition create_failure :: "create_results \<Rightarrow> bool \<Rightarrow> journal_error \<Rightarrow> journal_open_failure + journal" where
  "create_failure r mapped e = Inl (cleanup_after_open_failure e True True mapped True (cr_cleanup r))"

definition create_file :: "create_results \<Rightarrow> int \<Rightarrow> u64 \<Rightarrow> u64 \<Rightarrow> nat \<Rightarrow> journal_open_failure + journal" where
  "create_file r descriptor cap base_sequence file_size =
     (if acquire_ownership_lock (cr_flock r) \<noteq> JE_None then create_failure r False (acquire_ownership_lock (cr_flock r))
      else case cr_chmod r of Some e \<Rightarrow> create_failure r False (errno_error e) | None \<Rightarrow>
      if validate_regular_file (cr_stat r) \<noteq> JE_None then create_failure r False (validate_regular_file (cr_stat r))
      else case cr_truncate r of Some e \<Rightarrow> create_failure r False (errno_error e) | None \<Rightarrow>
      if \<not> cr_map r then create_failure r False JE_Map_Failed
      else if \<not> cr_msync r \<or> \<not> cr_fsync r then create_failure r True JE_Io_Error
      else if \<not> cr_parent_fsync r then create_failure r True JE_Io_Error
      else if \<not> cr_parent_close r then create_failure r True JE_Io_Error
      else Inr (make_journal descriptor (initial_mapping file_size cap base_sequence) cap base_sequence (cr_pid r)))"

definition create_journal :: "create_results \<Rightarrow> u64 \<Rightarrow> u64 \<Rightarrow> journal_open_failure + journal" where
  "create_journal r cap base_sequence =
     (let refuse = (\<lambda>e. Inl \<lparr>of_operation = e, of_cleanup = JE_None\<rparr>)
      in if cap = 0 \<or> cap > kMaximumJournalCapacity then refuse JE_Invalid_Capacity
         else if base_sequence = 0 \<or> cap - 1 > - 1 - base_sequence then refuse JE_Invalid_Base_Sequence
         else case checked_file_size cap of None \<Rightarrow> refuse JE_File_Size_Overflow | Some file_size \<Rightarrow>
         case cr_path r of Some e \<Rightarrow> refuse e | None \<Rightarrow>
         case cr_parent r of Some e \<Rightarrow> refuse (errno_error e) | None \<Rightarrow>
         case cr_open r of
           Inl e \<Rightarrow> Inl (cleanup_after_open_failure (errno_error e) True False False False (cr_cleanup r))
         | Inr descriptor \<Rightarrow> create_file r descriptor cap base_sequence file_size)"

section \<open>Recovery\<close>

definition record_marker :: "u8 list \<Rightarrow> nat \<Rightarrow> u32" where
  "record_marker mapping index = read_u32 (record_span mapping (word_of_nat index)) 0"

text \<open>The loop over the records; \<open>sz\<close> and \<open>time\<close> are the fields it updates.\<close>

function recover_loop :: "u8 list \<Rightarrow> nat \<Rightarrow> u64 \<Rightarrow> nat \<Rightarrow> u64 \<Rightarrow> u64 \<Rightarrow> journal_error \<times> u64 \<times> u64" where
  "recover_loop mapping cap base_sequence index sz time =
     (if index < cap then
        let marker = record_marker mapping index
        in if marker = 0 then
             (if list_all (\<lambda>trailing. record_marker mapping trailing = 0) [index + 1..<cap]
              then (JE_None, sz, time) else (JE_Corrupt_Record, sz, time))
           else if marker \<noteq> kCommittedMarker then (JE_Corrupt_Record, sz, time)
           else case decode_record (record_span mapping (word_of_nat index)) of
                  Inl _ \<Rightarrow> (JE_Corrupt_Record, sz, time)
                | Inr c \<Rightarrow>
                    if sc_sequence c \<noteq> base_sequence + word_of_nat index \<or> sc_logical_time c < time
                    then (JE_Corrupt_Record, sz, time)
                    else recover_loop mapping cap base_sequence (index + 1) (word_of_nat index + 1) (sc_logical_time c)
      else (JE_None, sz, time))"
  by pat_completeness auto
termination by (relation "measure (\<lambda>(m, cap, b, index, s, t). cap - index)") auto

declare recover_loop.simps [simp del]

definition recover :: "journal \<Rightarrow> u8 list \<Rightarrow> journal_error \<times> journal" where
  "recover j mapping =
     (let (e, sz, time) = recover_loop mapping (unat (j_capacity j)) (j_base_sequence j) 0 0 0
      in (e, j\<lparr>j_size := sz, j_last_logical_time := time\<rparr>))"

section \<open>Opening\<close>

record open_results =
  or_path :: "journal_error option"
  or_parent :: "errno option"
  or_lstat :: "errno + file_kind"
  or_open :: "errno + int"
  or_flock :: "errno option"
  or_stat :: "errno + file_status"
  or_file :: "u8 list"
  or_size_stat :: "errno + file_status"
  or_map :: bool
  or_parent_close :: bool
  or_cleanup :: cleanup_results
  or_pid :: int

text \<open>The header: capacity and base sequence, or nothing.\<close>

definition parse_header :: "u8 list \<Rightarrow> (u64 \<times> u64) option" where
  "parse_header header =
     (if take (length kMagic) header \<noteq> kMagic then None
      else let version = read_u32 header 8;
               reserved_offset = (if version = 1 then 28 else 36)
           in if (version \<noteq> 1 \<and> version \<noteq> kJournalFormatVersion) \<or> read_u32 header 12 \<noteq> ucast kJournalHeaderSize \<or>
                 read_u32 header 16 \<noteq> ucast kJournalRecordSize \<or> \<not> is_zero (drop reserved_offset header)
              then None
              else let cap = read_u64 header 20;
                       base_sequence = (if version = 1 then 1 else read_u64 header 28)
                   in if base_sequence = 0 \<or> cap = 0 \<or> cap - 1 > - 1 - base_sequence then None else Some (cap, base_sequence))"

definition open_failure :: "open_results \<Rightarrow> bool \<Rightarrow> journal_error \<Rightarrow> journal_open_failure + journal" where
  "open_failure r mapped e = Inl (cleanup_after_open_failure e True True mapped False (or_cleanup r))"

definition open_mapped :: "open_results \<Rightarrow> int \<Rightarrow> u64 \<Rightarrow> u64 \<Rightarrow> journal_open_failure + journal" where
  "open_mapped r descriptor cap base_sequence =
     (let (recovery, j) = recover (make_journal descriptor (or_file r) cap base_sequence (or_pid r)) (or_file r)
      in if recovery \<noteq> JE_None then open_failure r True recovery
         else if \<not> or_parent_close r then open_failure r True JE_Io_Error
         else Inr j)"

definition open_file :: "open_results \<Rightarrow> int \<Rightarrow> journal_open_failure + journal" where
  "open_file r descriptor =
     (if acquire_ownership_lock (or_flock r) \<noteq> JE_None then open_failure r False (acquire_ownership_lock (or_flock r))
      else if validate_regular_file (or_stat r) \<noteq> JE_None then open_failure r False (validate_regular_file (or_stat r))
      else if length (or_file r) < unat kJournalHeaderSize then open_failure r False JE_Invalid_Header
      else case parse_header (take (unat kJournalHeaderSize) (or_file r)) of
             None \<Rightarrow> open_failure r False JE_Invalid_Header
           | Some (cap, base_sequence) \<Rightarrow>
               (case checked_file_size cap of None \<Rightarrow> open_failure r False JE_Invalid_Header | Some file_size \<Rightarrow>
                case or_size_stat r of Inl e \<Rightarrow> open_failure r False (errno_error e) | Inr st \<Rightarrow>
                if st_size st < 0 \<or> nat (st_size st) \<noteq> file_size then open_failure r False JE_File_Size_Mismatch
                else if \<not> or_map r then open_failure r False JE_Map_Failed
                else open_mapped r descriptor cap base_sequence))"

definition open_journal :: "open_results \<Rightarrow> journal_open_failure + journal" where
  "open_journal r =
     (let refuse = (\<lambda>e. Inl \<lparr>of_operation = e, of_cleanup = JE_None\<rparr>);
          fail_without_file = (\<lambda>e. Inl (cleanup_after_open_failure e True False False False (or_cleanup r)))
      in case or_path r of Some e \<Rightarrow> refuse e | None \<Rightarrow>
         case or_parent r of Some e \<Rightarrow> refuse (errno_error e) | None \<Rightarrow>
         case or_lstat r of Inl e \<Rightarrow> fail_without_file (errno_error e) | Inr kind \<Rightarrow>
         if kind = Symbolic_Link then fail_without_file JE_Symlink
         else if kind \<noteq> Regular_File then fail_without_file JE_Not_Regular_File
         else case or_open r of Inl e \<Rightarrow> fail_without_file (errno_error e)
              | Inr descriptor \<Rightarrow> open_file r descriptor)"

section \<open>Append, read and close\<close>

record append_results =
  ar_pid :: int
  ar_pre_msync :: bool
  ar_pre_fsync :: bool
  ar_post_msync :: bool
  ar_post_fsync :: bool

text \<open>The record of a command before its commit marker is written.\<close>

definition prepare_record :: "sequenced_command \<Rightarrow> command_codec_error \<times> u8 list" where
  "prepare_record c =
     (let r0 = replicate (unat kJournalRecordSize) 0;
          r1 = write_u64 r0 4 (sc_sequence c);
          r2 = write_u64 r1 12 (sc_logical_time c);
          r3 = write_u32 r2 20 (word_of_nat kEncodedCommandPayloadSize);
          (error, body) = encode_command_payload (sc_payload c) (subspan r3 24 kEncodedCommandPayloadSize);
          r4 = take 24 r3 @ body @ drop (24 + kEncodedCommandPayloadSize) r3
      in if error \<noteq> CC_None then (error, r4)
         else (CC_None, write_u32 r4 60 (journal_crc32c (subspan r4 4 56))))"

definition append_refused :: "append_results \<Rightarrow> journal \<Rightarrow> sequenced_command \<Rightarrow> journal_error" where
  "append_refused r j c =
     (if ar_pid r \<noteq> j_owner_pid j then JE_Wrong_Process
      else if j_mapping j = None \<or> j_descriptor j < 0 then JE_Closed
      else if j_writer_poisoned j then JE_Writer_Poisoned
      else if j_size j = j_capacity j then JE_Full
      else if validate_command_payload (sc_payload c) \<noteq> CV_None then JE_Invalid_Command
      else if sc_sequence c \<noteq> j_base_sequence j + j_size j then JE_Sequence_Discontinuity
      else if sc_logical_time c < j_last_logical_time j then JE_Decreasing_Logical_Time
      else JE_None)"

definition journal_append :: "append_results \<Rightarrow> journal \<Rightarrow> sequenced_command \<Rightarrow> journal_error \<times> journal" where
  "journal_append r j c =
     (if append_refused r j c \<noteq> JE_None then (append_refused r j c, j)
      else let mapping = the (j_mapping j);
               (error, rec) = prepare_record c;
               j1 = j\<lparr>j_mapping := Some (store_record mapping (j_size j) rec)\<rparr>
           in if error \<noteq> CC_None then (JE_Invalid_Command, j1)
              else if \<not> ar_pre_msync r \<or> \<not> ar_pre_fsync r then (JE_Io_Error, j1)
              else let j2 = j\<lparr>j_mapping := Some (store_record mapping (j_size j) (write_u32 rec 0 kCommittedMarker))\<rparr>
                   in if \<not> ar_post_msync r \<or> \<not> ar_post_fsync r then (JE_Commit_Indeterminate, j2\<lparr>j_writer_poisoned := True\<rparr>)
                      else (JE_None, j2\<lparr>j_size := j_size j + 1, j_last_logical_time := sc_logical_time c\<rparr>))"

definition journal_read :: "journal \<Rightarrow> u64 \<Rightarrow> journal_error + sequenced_command" where
  "journal_read j index =
     (case j_mapping j of None \<Rightarrow> Inl JE_Closed
      | Some mapping \<Rightarrow> if index \<ge> j_size j then Inl JE_Out_Of_Range else decode_record (record_span mapping index))"

record close_results =
  cz_pid :: int
  cz_msync :: bool
  cz_unmap :: bool
  cz_fsync :: bool
  cz_close :: bool

definition journal_close :: "close_results \<Rightarrow> journal \<Rightarrow> journal_error \<times> journal" where
  "journal_close r j =
     (if j_mapping j = None \<and> j_descriptor j < 0 then (JE_None, j)
      else let foreign = (cz_pid r \<noteq> j_owner_pid j);
               mapped = (j_mapping j \<noteq> None);
               opened = (j_descriptor j \<ge> 0);
               result = (if (mapped \<and> \<not> cz_unmap r) \<or> (opened \<and> \<not> cz_close r) \<or>
                            (\<not> foreign \<and> ((mapped \<and> \<not> cz_msync r) \<or> (opened \<and> \<not> cz_fsync r)))
                         then JE_Io_Error else if foreign then JE_Wrong_Process else JE_None);
               j1 = (if mapped \<and> cz_unmap r then j\<lparr>j_mapping := None\<rparr> else j)
           in (result, if opened \<and> cz_close r then j1\<lparr>j_descriptor := - 1\<rparr> else j1))"

end
