(* ===== verification/Journal_Segments.thy ===== *)
theory Journal_Segments
  imports Journal
begin

text \<open>
  Journals in segments (\<^verbatim>\<open>journal.cpp\<close>): the writer that starts a new file when the active one is full and the
  reader that opens all files of a prefix.  The listing of the directory and the results of the system calls
  are parameters.
\<close>

datatype journal_set_error = JS_None | JS_Invalid_Path | JS_Io_Error | JS_Malformed_Segment_Name | JS_No_Segments | JS_Journal_Open
  | JS_Sequence_Gap | JS_Sequence_Overlap | JS_Nonfinal_Partial_Segment

fun journal_set_error_message :: "journal_set_error \<Rightarrow> string" where
  "journal_set_error_message JS_None = ''none''"
| "journal_set_error_message JS_Invalid_Path = ''invalid journal segment prefix''"
| "journal_set_error_message JS_Io_Error = ''journal segment I/O error''"
| "journal_set_error_message JS_Malformed_Segment_Name = ''malformed journal segment name''"
| "journal_set_error_message JS_No_Segments = ''no journal segments''"
| "journal_set_error_message JS_Journal_Open = ''journal segment failed validation''"
| "journal_set_error_message JS_Sequence_Gap = ''journal segment sequence gap''"
| "journal_set_error_message JS_Sequence_Overlap = ''journal segment sequence overlap''"
| "journal_set_error_message JS_Nonfinal_Partial_Segment = ''non-final journal segment is partial''"

section \<open>Segment names\<close>

fun decimal :: "nat \<Rightarrow> string" where
  "decimal n = (if n < 10 then [char_of (48 + n)] else decimal (n div 10) @ [char_of (48 + n mod 10)])"

declare decimal.simps [simp del]

definition segment_path :: "string \<Rightarrow> u64 \<Rightarrow> journal_error + string" where
  "segment_path path_prefix base_sequence =
     (if path_prefix = [] \<or> base_sequence = 0 then Inl JE_Invalid_Path
      else let digits = decimal (unat base_sequence)
           in Inr (path_prefix @ ''.'' @ replicate (20 - length digits) (CHR ''0'') @ digits @ ''.journal''))"

definition path_filename :: "string \<Rightarrow> string" where
  "path_filename path = rev (takeWhile (\<lambda>c. c \<noteq> CHR ''/'') (rev path))"

definition is_digit :: "char \<Rightarrow> bool" where
  "is_digit c \<longleftrightarrow> 48 \<le> (of_char c :: nat) \<and> (of_char c :: nat) \<le> 57"

definition digits_value :: "string \<Rightarrow> nat" where
  "digits_value ds = foldl (\<lambda>v c. 10 * v + (of_char c - 48)) 0 ds"

text \<open>\<^verbatim>\<open>std::from_chars\<close> on all of the text: digits only, and a value that fits.\<close>

definition from_chars :: "string \<Rightarrow> u64 option" where
  "from_chars ds = (if ds \<noteq> [] \<and> list_all is_digit ds \<and> digits_value ds < 2 ^ 64 then Some (word_of_nat (digits_value ds)) else None)"

definition ends_with :: "string \<Rightarrow> string \<Rightarrow> bool" where
  "ends_with name suffix \<longleftrightarrow> length suffix \<le> length name \<and> drop (length name - length suffix) name = suffix"

definition starts_with :: "string \<Rightarrow> string \<Rightarrow> bool" where
  "starts_with name pre \<longleftrightarrow> take (length pre) name = pre"

text \<open>
  One directory entry: not a segment, a malformed one, or its base sequence.  The number of digits is computed
  with wrap-around when prefix and suffix overlap.
\<close>

definition parse_segment_name :: "string \<Rightarrow> string \<Rightarrow> journal_set_error + u64 option" where
  "parse_segment_name name_prefix name =
     (if \<not> starts_with name name_prefix \<or> \<not> ends_with name ''.journal'' then Inr None
      else let digits_begin = length name_prefix
           in if length name < digits_begin + 8 \<or> length name - digits_begin - 8 \<noteq> 20 then Inl JS_Malformed_Segment_Name
              else case from_chars (take 20 (drop digits_begin name)) of
                     None \<Rightarrow> Inl JS_Malformed_Segment_Name
                   | Some base \<Rightarrow> if base = 0 then Inl JS_Malformed_Segment_Name else Inr (Some base))"

fun collect_candidates :: "string \<Rightarrow> string list \<Rightarrow> (u64 \<times> string) list \<Rightarrow> journal_set_error + (u64 \<times> string) list" where
  "collect_candidates name_prefix [] candidates = Inr candidates"
| "collect_candidates name_prefix (name # names) candidates =
     (case parse_segment_name name_prefix name of
        Inl e \<Rightarrow> Inl e
      | Inr None \<Rightarrow> collect_candidates name_prefix names candidates
      | Inr (Some base) \<Rightarrow> collect_candidates name_prefix names (candidates @ [(base, name)]))"

section \<open>The set of segments\<close>

record segment_set =
  ss_paths :: "string list"
  ss_segments :: "journal list"

text \<open>The loop over the sorted candidates, with the segments opened so far.\<close>

fun open_segments :: "(string \<Rightarrow> open_results) \<Rightarrow> (u64 \<times> string) list \<Rightarrow> segment_set \<Rightarrow> journal_set_error + segment_set" where
  "open_segments files [] set0 = Inr set0"
| "open_segments files ((named_base, path) # candidates) set0 =
     (case open_journal (files path) of
        Inl _ \<Rightarrow> Inl JS_Journal_Open
      | Inr segment \<Rightarrow>
          if j_base_sequence segment \<noteq> named_base then Inl JS_Malformed_Segment_Name
          else if ss_segments set0 \<noteq> [] \<and> \<not> journal_full (last (ss_segments set0)) then Inl JS_Nonfinal_Partial_Segment
          else if ss_segments set0 \<noteq> [] \<and>
             named_base < j_base_sequence (last (ss_segments set0)) + j_size (last (ss_segments set0)) then Inl JS_Sequence_Overlap
          else if ss_segments set0 \<noteq> [] \<and>
             named_base > j_base_sequence (last (ss_segments set0)) + j_size (last (ss_segments set0)) then Inl JS_Sequence_Gap
          else open_segments files candidates
                 \<lparr>ss_paths = ss_paths set0 @ [path], ss_segments = ss_segments set0 @ [segment]\<rparr>)"

text \<open>A listing that throws is \<^term>\<open>None\<close>.\<close>

definition open_segment_set :: "(string \<Rightarrow> open_results) \<Rightarrow> string list option \<Rightarrow> string \<Rightarrow> journal_set_error + segment_set" where
  "open_segment_set files listing path_prefix =
     (let basename = path_filename path_prefix
      in if path_prefix = [] \<or> basename = [] \<or> basename = ''.'' \<or> basename = ''..'' then Inl JS_Invalid_Path
         else case listing of None \<Rightarrow> Inl JS_Io_Error | Some names \<Rightarrow>
         case collect_candidates (basename @ ''.'') names [] of Inl e \<Rightarrow> Inl e | Inr candidates \<Rightarrow>
         if candidates = [] then Inl JS_No_Segments
         else open_segments files (sort_key fst candidates) \<lparr>ss_paths = [], ss_segments = []\<rparr>)"

fun close_all :: "close_results list \<Rightarrow> journal list \<Rightarrow> bool" where
  "close_all _ [] = True"
| "close_all (r # rs) (j # js) = (fst (journal_close r j) = JE_None \<and> close_all rs js)"
| "close_all [] (j # js) = False"

definition release_last :: "close_results list \<Rightarrow> segment_set \<Rightarrow> journal_set_error + journal" where
  "release_last closes s =
     (if ss_segments s = [] then Inl JS_No_Segments
      else if \<not> close_all closes (butlast (ss_segments s)) then Inl JS_Io_Error
      else Inr (last (ss_segments s)))"

section \<open>The rotating writer\<close>

record rotating =
  rj_path_prefix :: string
  rj_segment_capacity :: u64
  rj_active :: "journal option"
  rj_segment_count :: u64
  rj_last_logical_time :: u64

definition make_rotating :: "string \<Rightarrow> u64 \<Rightarrow> journal \<Rightarrow> rotating" where
  "make_rotating path_prefix segment_capacity active =
     \<lparr>rj_path_prefix = path_prefix, rj_segment_capacity = segment_capacity, rj_active = Some active,
      rj_segment_count = 1, rj_last_logical_time = 0\<rparr>"

definition create_rotating :: "create_results \<Rightarrow> string \<Rightarrow> u64 \<Rightarrow> u64 \<Rightarrow> journal_open_failure + rotating" where
  "create_rotating r path_prefix segment_capacity base_sequence =
     (case segment_path path_prefix base_sequence of
        Inl e \<Rightarrow> Inl \<lparr>of_operation = e, of_cleanup = JE_None\<rparr>
      | Inr path \<Rightarrow>
          (case create_journal r segment_capacity base_sequence of
             Inl f \<Rightarrow> Inl f
           | Inr j \<Rightarrow> Inr (make_rotating path_prefix segment_capacity j)))"

definition resume_rotating :: "(string \<Rightarrow> open_results) \<Rightarrow> string list option \<Rightarrow> close_results list \<Rightarrow> string \<Rightarrow> journal_set_error + rotating" where
  "resume_rotating files listing closes path_prefix =
     (case open_segment_set files listing path_prefix of
        Inl e \<Rightarrow> Inl e
      | Inr segments \<Rightarrow>
          (case release_last closes segments of
             Inl e \<Rightarrow> Inl e
           | Inr active \<Rightarrow>
               Inr ((make_rotating path_prefix (j_capacity active) active)
                 \<lparr>rj_segment_count := word_of_nat (length (ss_segments segments)),
                  rj_last_logical_time := j_last_logical_time active\<rparr>)))"

definition rotate_journal :: "close_results \<Rightarrow> create_results \<Rightarrow> rotating \<Rightarrow> journal_error \<times> rotating" where
  "rotate_journal cz cr w =
     (case rj_active w of None \<Rightarrow> (JE_Closed, w)
      | Some active \<Rightarrow>
          let next_base = j_base_sequence active + j_size active;
              (close_error, closed) = journal_close cz active;
              w1 = w\<lparr>rj_active := Some closed\<rparr>
          in if close_error \<noteq> JE_None then (close_error, w1)
             else case segment_path (rj_path_prefix w) next_base of
                    Inl e \<Rightarrow> (e, w1)
                  | Inr path \<Rightarrow>
                      (case create_journal cr (rj_segment_capacity w) next_base of
                         Inl f \<Rightarrow> (of_operation f, w1)
                       | Inr next \<Rightarrow> (JE_None, w1\<lparr>rj_active := Some next, rj_segment_count := rj_segment_count w + 1\<rparr>)))"

definition rotating_write :: "append_results \<Rightarrow> rotating \<Rightarrow> sequenced_command \<Rightarrow> journal_error \<times> rotating" where
  "rotating_write ar w c =
     (case rj_active w of None \<Rightarrow> (JE_Closed, w)
      | Some active \<Rightarrow>
          let (result, j) = journal_append ar active c;
              w1 = w\<lparr>rj_active := Some j\<rparr>
          in (result, if result = JE_None then w1\<lparr>rj_last_logical_time := sc_logical_time c\<rparr> else w1))"

definition rotating_append :: "close_results \<Rightarrow> create_results \<Rightarrow> append_results \<Rightarrow> rotating \<Rightarrow> sequenced_command \<Rightarrow> journal_error \<times> rotating" where
  "rotating_append cz cr ar w c =
     (case rj_active w of None \<Rightarrow> (JE_Closed, w)
      | Some active \<Rightarrow>
          if validate_command_payload (sc_payload c) \<noteq> CV_None then (JE_Invalid_Command, w)
          else if sc_sequence c \<noteq> j_base_sequence active + j_size active then (JE_Sequence_Discontinuity, w)
          else if sc_logical_time c < rj_last_logical_time w then (JE_Decreasing_Logical_Time, w)
          else if journal_full active then
            (let (rotation, w1) = rotate_journal cz cr w
             in if rotation \<noteq> JE_None then (rotation, w1) else rotating_write ar w1 c)
          else rotating_write ar w c)"

definition rotating_close :: "close_results \<Rightarrow> rotating \<Rightarrow> journal_error \<times> rotating" where
  "rotating_close cz w =
     (case rj_active w of None \<Rightarrow> (JE_None, w)
      | Some active \<Rightarrow>
          let (result, j) = journal_close cz active
          in (result, w\<lparr>rj_active := (if result = JE_None then None else Some j)\<rparr>))"

definition active_base_sequence :: "rotating \<Rightarrow> u64" where
  "active_base_sequence w = (case rj_active w of None \<Rightarrow> 0 | Some j \<Rightarrow> j_base_sequence j)"

end
