(* ===== verification/Replay.thy ===== *)
theory Replay
  imports Book_Check Market_Data Journal_Segments Sequenced_Engine
begin

text \<open>
  Rebuilding an engine (\<^verbatim>\<open>replay.cpp\<close>): the commands of a journal or a set of segments behind a snapshot point, or of a
  market data feed, are applied one after another; the events are collected in a fingerprint and the book checks
  itself after every command.
\<close>

section \<open>Results\<close>

datatype replay_error = RE_Journal | RE_Engine_State_Mismatch | RE_Unverifiable_Boundary | RE_Boundary_Missing
  | RE_Boundary_Time_Mismatch | RE_Sequence_Gap | RE_Apply | RE_Invariant

datatype market_data_replay_error = MR_Input | MR_Adapter | MR_Apply | MR_Invariant

record replay_result =
  rr_commands_applied :: u64
  rr_first_sequence :: u64
  rr_last_sequence :: u64
  rr_fingerprint :: replay_fingerprint

definition empty_result :: replay_result where
  "empty_result = \<lparr>rr_commands_applied = 0, rr_first_sequence = 0, rr_last_sequence = 0, rr_fingerprint = empty_fingerprint\<rparr>"

text \<open>The engine, the caller's event buffer and the result so far.\<close>

type_synonym replaying = "engine \<times> engine_event list \<times> replay_result"

section \<open>One command\<close>

definition count_command :: "sequenced_command \<Rightarrow> replay_result \<Rightarrow> replay_result" where
  "count_command c r =
     (let r1 = (if rr_commands_applied r = 0 then r\<lparr>rr_first_sequence := sc_sequence c\<rparr> else r)
      in r1\<lparr>rr_last_sequence := sc_sequence c, rr_commands_applied := rr_commands_applied r1 + 1\<rparr>)"

fun add_events :: "replay_fingerprint \<Rightarrow> engine_event list \<Rightarrow> bool \<times> replay_fingerprint" where
  "add_events f [] = (True, f)"
| "add_events f (ev # evs) = (let (err, f1) = fingerprint_add f ev in if err \<noteq> EC_None then (False, f1) else add_events f1 evs)"

text \<open>The check writes its marks into the engine's book.\<close>

definition check_engine :: "engine \<Rightarrow> (bool \<times> engine) run" where
  "check_engine e = (case check_invariants (se_book e) of
     None \<Rightarrow> None
   | Some (r, b) \<Rightarrow> ret (ir_violation r = IV_None, e\<lparr>se_book := b\<rparr>))"

definition replay_command :: "sequenced_command \<Rightarrow> replaying \<Rightarrow> (replay_error option \<times> replaying) run" where
  "replay_command c st = (case st of (e, events, r) \<Rightarrow>
     run_bind (apply_command e c events) (\<lambda>(applied, e1, events1).
       if ap_status applied \<noteq> AS_Applied then ret (Some RE_Apply, e1, events1, r)
       else let r1 = count_command c r; (ok, f) = add_events (rr_fingerprint r1) (take (ap_event_count applied) events1);
                r2 = r1\<lparr>rr_fingerprint := f\<rparr>
            in if \<not> ok then ret (Some RE_Apply, e1, events1, r2)
               else run_bind (check_engine e1) (\<lambda>(fine, e2).
                 ret (if fine then None else Some RE_Invariant, e2, events1, r2))))"

section \<open>A journal\<close>

text \<open>Where the commands to apply begin: the checks of the snapshot point against the engine and the journal.\<close>

definition snapshot_matches :: "engine \<Rightarrow> u64 \<Rightarrow> u64 \<Rightarrow> bool" where
  "snapshot_matches e snapshot_value snapshot_logical_time \<longleftrightarrow>
     \<not> (snapshot_value = 0 \<and> snapshot_logical_time \<noteq> 0 \<or> se_next_sequence e \<noteq> snapshot_value + 1 \<or>
        se_last_logical_time e \<noteq> snapshot_logical_time)"

definition check_boundary :: "journal \<Rightarrow> u64 \<Rightarrow> u64 \<Rightarrow> replay_error option" where
  "check_boundary j snapshot_value snapshot_logical_time =
     (let base = j_base_sequence j; end_sequence = base + j_size j
      in if base > snapshot_value + 1 then Some RE_Sequence_Gap
         else if snapshot_value \<noteq> 0 then
           (if snapshot_value \<ge> base \<and> snapshot_value < end_sequence then
              (case journal_read j (snapshot_value - base) of
                 Inl _ \<Rightarrow> Some RE_Journal
               | Inr boundary \<Rightarrow>
                   if sc_sequence boundary \<noteq> snapshot_value then Some RE_Boundary_Missing
                   else if sc_logical_time boundary \<noteq> snapshot_logical_time then Some RE_Boundary_Time_Mismatch else None)
            else if base \<noteq> snapshot_value + 1 then Some RE_Boundary_Missing else None)
         else if base \<noteq> 1 then Some RE_Sequence_Gap else None)"

definition replay_start :: "journal \<Rightarrow> engine \<Rightarrow> u64 \<Rightarrow> u64 \<Rightarrow> nat \<Rightarrow> replay_error + u64" where
  "replay_start j e snapshot_value snapshot_logical_time buffer_size =
     (if snapshot_value = - 1 \<or> se_sequence_exhausted e then
        (if snapshot_value = - 1 \<and> se_sequence_exhausted e \<and> se_next_sequence e = - 1 \<and> se_last_logical_time e = snapshot_logical_time
         then Inl RE_Unverifiable_Boundary else Inl RE_Engine_State_Mismatch)
      else if \<not> snapshot_matches e snapshot_value snapshot_logical_time then Inl RE_Engine_State_Mismatch
      else case check_boundary j snapshot_value snapshot_logical_time of
             Some err \<Rightarrow> Inl err
           | None \<Rightarrow>
               let next_sequence = snapshot_value + 1; base = j_base_sequence j; first_index = next_sequence - base
               in if next_sequence < base \<or> next_sequence > base + j_size j then Inl RE_Sequence_Gap
                  else if first_index < j_size j \<and> (case journal_read j first_index of Inl _ \<Rightarrow> True | Inr _ \<Rightarrow> False)
                  then Inl RE_Journal
                  else if first_index < j_size j \<and>
                      (case journal_read j first_index of Inl _ \<Rightarrow> False | Inr first_suffix \<Rightarrow> sc_sequence first_suffix \<noteq> se_next_sequence e)
                  then Inl RE_Sequence_Gap
                  else if buffer_size < maximum_event_capacity e then Inl RE_Apply
                  else Inr first_index)"

fun replay_records :: "journal \<Rightarrow> u64 list \<Rightarrow> replaying \<Rightarrow> (replay_error option \<times> replaying) run" where
  "replay_records j [] st = ret (None, st)"
| "replay_records j (index # is) st = (case journal_read j index of
     Inl _ \<Rightarrow> ret (Some RE_Journal, st)
   | Inr c \<Rightarrow>
       if sc_sequence c \<noteq> se_next_sequence (fst st) then ret (Some RE_Sequence_Gap, st)
       else run_bind (replay_command c st) (\<lambda>(err, st1). if err \<noteq> None then ret (err, st1) else replay_records j is st1))"

definition finished :: "replay_error option \<times> replaying \<Rightarrow> (replay_error + replay_result) \<times> engine \<times> engine_event list" where
  "finished x = (case x of (err, e, events, r) \<Rightarrow> (case err of None \<Rightarrow> Inr r | Some er \<Rightarrow> Inl er, e, events))"

definition replay_journal :: "journal \<Rightarrow> engine \<Rightarrow> u64 \<Rightarrow> u64 \<Rightarrow> engine_event list \<Rightarrow>
    ((replay_error + replay_result) \<times> engine \<times> engine_event list) run" where
  "replay_journal j e snapshot_value snapshot_logical_time events =
     (case replay_start j e snapshot_value snapshot_logical_time (length events) of
        Inl err \<Rightarrow> ret (Inl err, e, events)
      | Inr first_index \<Rightarrow>
          run_bind (replay_records j (map word_of_nat [unat first_index..<unat (j_size j)]) (e, events, empty_result)) (\<lambda>x. ret (finished x)))"

section \<open>A set of segments\<close>

fun read_sequence :: "journal list \<Rightarrow> u64 \<Rightarrow> replay_error + sequenced_command" where
  "read_sequence [] seqno = Inl RE_Boundary_Missing"
| "read_sequence (segment # segments) seqno =
     (if seqno \<ge> j_base_sequence segment \<and> seqno < j_base_sequence segment + j_size segment
      then (case journal_read segment (seqno - j_base_sequence segment) of Inl _ \<Rightarrow> Inl RE_Journal | Inr c \<Rightarrow> Inr c)
      else read_sequence segments seqno)"

definition check_segments :: "journal list \<Rightarrow> engine \<Rightarrow> u64 \<Rightarrow> u64 \<Rightarrow> nat \<Rightarrow> replay_error option" where
  "check_segments segments e snapshot_value snapshot_logical_time buffer_size =
     (if snapshot_value = - 1 \<or> se_sequence_exhausted e then Some RE_Unverifiable_Boundary
      else if \<not> snapshot_matches e snapshot_value snapshot_logical_time \<or> segments = [] then Some RE_Engine_State_Mismatch
      else let first_base = j_base_sequence (hd segments);
               end_sequence = j_base_sequence (last segments) + j_size (last segments);
               next_sequence = snapshot_value + 1
      in if first_base > snapshot_value + 1 then Some RE_Sequence_Gap
         else if snapshot_value = 0 \<and> first_base \<noteq> 1 then Some RE_Sequence_Gap
         else let boundary = (if snapshot_value \<noteq> 0 \<and> first_base \<noteq> snapshot_value + 1 then
               (case read_sequence segments snapshot_value of
                  Inl err \<Rightarrow> Some err
                | Inr c \<Rightarrow> if sc_logical_time c \<noteq> snapshot_logical_time then Some RE_Boundary_Time_Mismatch else None)
             else None)
         in if boundary \<noteq> None then boundary
         else if next_sequence < first_base \<or> next_sequence > end_sequence then Some RE_Sequence_Gap
         else if buffer_size < maximum_event_capacity e then Some RE_Apply
         else None)"

text \<open>The records of one segment; those up to the snapshot point are skipped.\<close>

fun replay_segment :: "u64 \<Rightarrow> journal \<Rightarrow> u64 list \<Rightarrow> replaying \<Rightarrow> (replay_error option \<times> replaying) run" where
  "replay_segment next_sequence j [] st = ret (None, st)"
| "replay_segment next_sequence j (index # is) st = (case journal_read j index of
     Inl _ \<Rightarrow> ret (Some RE_Journal, st)
   | Inr c \<Rightarrow>
       if sc_sequence c < next_sequence then replay_segment next_sequence j is st
       else if sc_sequence c \<noteq> se_next_sequence (fst st) then ret (Some RE_Sequence_Gap, st)
       else run_bind (replay_command c st) (\<lambda>(err, st1). if err \<noteq> None then ret (err, st1) else replay_segment next_sequence j is st1))"

fun replay_segments :: "u64 \<Rightarrow> journal list \<Rightarrow> replaying \<Rightarrow> (replay_error option \<times> replaying) run" where
  "replay_segments next_sequence [] st = ret (None, st)"
| "replay_segments next_sequence (j # js) st =
     run_bind (replay_segment next_sequence j (map word_of_nat [0..<unat (j_size j)]) st)
       (\<lambda>(err, st1). if err \<noteq> None then ret (err, st1) else replay_segments next_sequence js st1)"

definition replay_journal_segments :: "segment_set \<Rightarrow> engine \<Rightarrow> u64 \<Rightarrow> u64 \<Rightarrow> engine_event list \<Rightarrow>
    ((replay_error + replay_result) \<times> engine \<times> engine_event list) run" where
  "replay_journal_segments js e snapshot_value snapshot_logical_time events =
     (case check_segments (ss_segments js) e snapshot_value snapshot_logical_time (length events) of
        Some err \<Rightarrow> ret (Inl err, e, events)
      | None \<Rightarrow> run_bind (replay_segments (snapshot_value + 1) (ss_segments js) (e, events, empty_result)) (\<lambda>x. ret (finished x)))"

section \<open>A market data feed\<close>

text \<open>The events go to the adapter and to the fingerprint, one by one.\<close>

fun record_events :: "market_data_adapter \<Rightarrow> replay_fingerprint \<Rightarrow> engine_event list \<Rightarrow> bool \<times> market_data_adapter \<times> replay_fingerprint" where
  "record_events a f [] = (True, a, f)"
| "record_events a f (ev # evs) =
     (let a1 = record_applied_event a ev; (err, f1) = fingerprint_add f ev
      in if err \<noteq> EC_None then (False, a1, f1) else record_events a1 f1 evs)"

definition feed_command :: "sequenced_command \<Rightarrow> market_data_adapter \<Rightarrow> replaying \<Rightarrow>
    (market_data_replay_error option \<times> market_data_adapter \<times> replaying) run" where
  "feed_command c a st = (case st of (e, events, r) \<Rightarrow>
     run_bind (apply_command e c events) (\<lambda>(applied, e1, events1).
       if ap_status applied \<noteq> AS_Applied then ret (Some MR_Apply, a, e1, events1, r)
       else let r1 = count_command c r; (ok, a1, f) = record_events a (rr_fingerprint r1) (take (ap_event_count applied) events1);
                r2 = r1\<lparr>rr_fingerprint := f\<rparr>
            in if \<not> ok then ret (Some MR_Apply, a1, e1, events1, r2)
               else run_bind (check_engine e1) (\<lambda>(fine, e2).
                 ret (if fine then None else Some MR_Invariant, a1, e2, events1, r2))))"

partial_function (option) feed_loop :: "market_data_input \<Rightarrow> market_data_adapter \<Rightarrow> replaying \<Rightarrow>
    ((market_data_replay_error + replay_result) \<times> market_data_input \<times> market_data_adapter \<times> engine \<times> engine_event list) run" where
  [code]: "feed_loop input a st =
     (let (message, input1) = read_next input
      in case message of
           Inl _ \<Rightarrow> ret (Inl MR_Input, input1, a, fst st, fst (snd st))
         | Inr None \<Rightarrow> ret (Inr (snd (snd st)), input1, a, fst st, fst (snd st))
         | Inr (Some m) \<Rightarrow>
             (let (command, a1) = adapt a m
              in case command of
                   Inl _ \<Rightarrow> ret (Inl MR_Adapter, input1, a1, fst st, fst (snd st))
                 | Inr c \<Rightarrow>
                     run_bind (feed_command c a1 st) (\<lambda>(err, a2, st2).
                       case err of Some er \<Rightarrow> ret (Inl er, input1, a2, fst st2, fst (snd st2)) | None \<Rightarrow> feed_loop input1 a2 st2)))"

definition replay_market_data :: "market_data_input \<Rightarrow> market_data_adapter \<Rightarrow> engine \<Rightarrow> engine_event list \<Rightarrow>
    ((market_data_replay_error + replay_result) \<times> market_data_input \<times> market_data_adapter \<times> engine \<times> engine_event list) run" where
  "replay_market_data input a e events =
     (if length events < maximum_event_capacity e then ret (Inl MR_Apply, input, a, e, events)
      else feed_loop input a (e, events, empty_result))"

end
