(* ===== verification/Command_Properties.thy ===== *)
theory Command_Properties
  imports Command
begin

text \<open>The command codec and the sequencer: round trips, exact validation, consecutive stamps.\<close>

section \<open>Little-endian words\<close>

lemma bit_255: "bit (255 :: 'a::len word) k \<longleftrightarrow> k < LENGTH('a) \<and> k < 8"
proof -
  have m: "(255 :: 'a word) = mask 8" by (simp add: mask_eq_decr_exp)
  show ?thesis unfolding m bit_mask_iff by (simp add: possible_bit_word)
qed

lemma bit_byte_at: "bit (byte_at v i) k \<longleftrightarrow> k < 8 \<and> bit v (i * 8 + k)"
  unfolding byte_at_def bit_ucast_iff bit_and_iff bit_255 bit_drop_bit_eq comp_def
  using bit_imp_le_length [of v "i * 8 + k"] by (auto simp: possible_bit_word)

lemma bit_join:
  "bit (foldl (\<lambda>value i. value OR push_bit (i * 8) (ucast (g i :: u8))) 0 [0..<n] :: 'a::len word) m \<longleftrightarrow>
     m < LENGTH('a) \<and> m < 8 * n \<and> bit (g (m div 8)) (m mod 8)"
proof (induction n)
  case (Suc n)
  have small: "bit w k \<Longrightarrow> k < 8" for w :: u8 and k using bit_imp_le_length [of w k] by simp
  have "n * 8 \<le> m \<and> bit (g n) (m - n * 8) \<longleftrightarrow> m div 8 = n \<and> bit (g (m div 8)) (m mod 8)"
  proof
    assume a: "n * 8 \<le> m \<and> bit (g n) (m - n * 8)"
    then have "m - n * 8 < 8" using small by blast
    then obtain r where "m = n * 8 + r" "r < 8" using a le_Suc_ex by (metis add_diff_cancel_left')
    then have "m div 8 = n" "m mod 8 = m - n * 8" by auto
    then show "m div 8 = n \<and> bit (g (m div 8)) (m mod 8)" using a by simp
  next
    assume a: "m div 8 = n \<and> bit (g (m div 8)) (m mod 8)"
    moreover have "m - n * 8 = m mod 8" "n * 8 \<le> m" using a by (auto simp: minus_div_mult_eq_mod)
    ultimately show "n * 8 \<le> m \<and> bit (g n) (m - n * 8)" by auto
  qed
  moreover have "m < 8 * n \<or> m div 8 = n \<longleftrightarrow> m < 8 * Suc n" "m < 8 * n \<longleftrightarrow> m div 8 < n" by auto
  ultimately show ?case using Suc by (auto simp: bit_simps)
qed simp

lemma join_bytes:
  fixes v :: "'a::len word"
  assumes "\<And>i. i < n \<Longrightarrow> g i = byte_at v i" and len: "LENGTH('a) = 8 * n"
  shows "foldl (\<lambda>value i. value OR push_bit (i * 8) (ucast (g i))) 0 [0..<n] = v"
proof (rule bit_eqI)
  fix m assume "possible_bit TYPE('a word) m"
  then have m: "m < 8 * n" using assms(2) by (simp add: possible_bit_word)
  then have "g (m div 8) = byte_at v (m div 8)" using assms(1) by auto
  then show "bit (foldl (\<lambda>value i. value OR push_bit (i * 8) (ucast (g i))) 0 [0..<n] :: 'a word) m = bit v m"
    using m assms(2) by (simp add: bit_join bit_byte_at)
qed

lemma byte_at_join:
  assumes "i < n" "LENGTH('a::len) = 8 * n"
  shows "byte_at (foldl (\<lambda>value i. value OR push_bit (i * 8) (ucast (g i))) 0 [0..<n] :: 'a word) i = g i"
proof (rule bit_eqI)
  fix k assume "possible_bit TYPE(u8) k"
  then have k: "k < 8" by (simp add: possible_bit_word)
  have "i * 8 + k < 8 * n" using assms(1) k by linarith
  then show "bit (byte_at (foldl (\<lambda>value i. value OR push_bit (i * 8) (ucast (g i))) 0 [0..<n] :: 'a word) i) k = bit (g i) k"
    using k assms(2) by (simp add: bit_byte_at bit_join)
qed

lemma length_write: "length (foldl (\<lambda>out i. out[off + i := f i]) out is) = length out"
  by (induction "is" arbitrary: out) auto

lemma write_nth:
  "off + n \<le> length out \<Longrightarrow>
     foldl (\<lambda>out i. out[off + i := f i]) out [0..<n] ! k = (if off \<le> k \<and> k < off + n then f (k - off) else out ! k)"
proof (induction n)
  case (Suc n)
  then show ?case by (auto simp: length_write nth_list_update)
qed auto

lemma length_write_words [simp]: "length (write_u32 out off v) = length out" "length (write_u64 out off w) = length out"
  by (simp_all add: write_u32_def write_u64_def length_write)

lemma write_words_nth:
  "off + 4 \<le> length out \<Longrightarrow> write_u32 out off v ! k = (if off \<le> k \<and> k < off + 4 then byte_at v (k - off) else out ! k)"
  "off + 8 \<le> length out \<Longrightarrow> write_u64 out off w ! k = (if off \<le> k \<and> k < off + 8 then byte_at w (k - off) else out ! k)"
  unfolding write_u32_def write_u64_def by (simp_all add: write_nth)

lemma read_words:
  "(\<And>i. i < 4 \<Longrightarrow> inp ! (off + i) = byte_at v i) \<Longrightarrow> read_u32 inp off = v"
  "(\<And>i. i < 8 \<Longrightarrow> inp ! (off + i) = byte_at w i) \<Longrightarrow> read_u64 inp off = w"
  unfolding read_u32_def read_u64_def by (rule join_bytes; simp)+

lemma byte_at_read:
  "i < 4 \<Longrightarrow> byte_at (read_u32 inp off) i = inp ! (off + i)" "i < 8 \<Longrightarrow> byte_at (read_u64 inp off) i = inp ! (off + i)"
  unfolding read_u32_def read_u64_def by (rule byte_at_join; simp)+

section \<open>Enumerations as bytes\<close>

lemma tag_of_byte_inv: "tag_byte (tag_of_byte b) = b" "\<forall>r. t \<noteq> CT_Raw r \<Longrightarrow> tag_of_byte (tag_byte t) = t"
  by (simp add: tag_of_byte_def) (cases t; simp add: tag_of_byte_def)

lemma side_of_byte_inv: "side_byte (side_of_byte b) = b" "is_valid_side s \<Longrightarrow> side_of_byte (side_byte s) = s"
  by (simp add: side_of_byte_def) (auto simp: is_valid_side_def side_of_byte_def)

lemma tif_of_byte_inv: "tif_byte (tif_of_byte b) = b" "is_valid_time_in_force t \<Longrightarrow> tif_of_byte (tif_byte t) = t"
  by (simp add: tif_of_byte_def) (auto simp: is_valid_time_in_force_def tif_of_byte_def)

lemma bits_price_inv: "price_bits (bits_price w) = w" "int64_range p \<Longrightarrow> bits_price (price_bits p) = p"
proof -
  show "price_bits (bits_price w) = w" by (simp add: price_bits_def bits_price_def)
  assume "int64_range p"
  then show "bits_price (price_bits p) = p"
    unfolding bits_price_def price_bits_def sint_sbintrunc'
    by (intro signed_take_bit_int_eq_self) (simp_all add: int64_range_def kInt64Min_def kInt64Max_def)
qed

lemma validate_None:
  assumes "validate_command_payload p = CV_None"
  shows "\<forall>r. cp_tag p \<noteq> CT_Raw r" "cp_reserved p = 0" "is_valid_side (cp_side p)" "is_valid_time_in_force (cp_time_in_force p)"
  using assms by (auto simp: validate_command_payload_def split: if_splits)

lemma codec_error_None [simp]: "codec_error v = CC_None \<longleftrightarrow> v = CV_None"
  by (cases v) simp_all

section \<open>The codec\<close>

lemma encode_nth:
  assumes "length out = 36" "validate_command_payload p = CV_None"
  obtains bs where "encode_command_payload p out = (CC_None, bs)" "length bs = 36"
    "bs ! 0 = tag_byte (cp_tag p)" "bs ! 1 = side_byte (cp_side p)" "bs ! 2 = tif_byte (cp_time_in_force p)" "bs ! 3 = 0"
    "\<And>i. i < 8 \<Longrightarrow> bs ! (4 + i) = byte_at (cp_order_id p) i" "\<And>i. i < 8 \<Longrightarrow> bs ! (12 + i) = byte_at (price_bits (cp_price_ticks p)) i"
    "\<And>i. i < 8 \<Longrightarrow> bs ! (20 + i) = byte_at (cp_quantity p) i" "\<And>i. i < 4 \<Longrightarrow> bs ! (28 + i) = byte_at (cp_handle_index p) i"
    "\<And>i. i < 4 \<Longrightarrow> bs ! (32 + i) = byte_at (cp_handle_generation p) i"
  by (rule that [of "snd (encode_command_payload p out)"])
    (use assms in \<open>simp_all add: encode_command_payload_def kEncodedCommandPayloadSize_def Let_def write_words_nth nth_list_update\<close>)

lemma encode_decode:
  assumes out: "length out = 36" and val: "validate_command_payload p = CV_None" and rng: "int64_range (cp_price_ticks p)"
  shows "\<exists>bs. encode_command_payload p out = (CC_None, bs) \<and> decode_command_payload bs = Inr p"
proof -
  obtain bs where bs: "encode_command_payload p out = (CC_None, bs)" "length bs = 36"
    "bs ! 0 = tag_byte (cp_tag p)" "bs ! 1 = side_byte (cp_side p)" "bs ! 2 = tif_byte (cp_time_in_force p)" "bs ! 3 = 0"
    "\<And>i. i < 8 \<Longrightarrow> bs ! (4 + i) = byte_at (cp_order_id p) i" "\<And>i. i < 8 \<Longrightarrow> bs ! (12 + i) = byte_at (price_bits (cp_price_ticks p)) i"
    "\<And>i. i < 8 \<Longrightarrow> bs ! (20 + i) = byte_at (cp_quantity p) i" "\<And>i. i < 4 \<Longrightarrow> bs ! (28 + i) = byte_at (cp_handle_index p) i"
    "\<And>i. i < 4 \<Longrightarrow> bs ! (32 + i) = byte_at (cp_handle_generation p) i"
    by (rule encode_nth [OF out val]) blast
  note v = validate_None [OF val]
  have "\<lparr>cp_tag = tag_of_byte (bs ! 0), cp_side = side_of_byte (bs ! 1),
      cp_time_in_force = tif_of_byte (bs ! 2), cp_reserved = bs ! 3,
      cp_order_id = read_u64 bs 4, cp_price_ticks = bits_price (read_u64 bs 12),
      cp_quantity = read_u64 bs 20, cp_handle_index = read_u32 bs 28, cp_handle_generation = read_u32 bs 32\<rparr> = p"
    using bs(3-6) v tag_of_byte_inv(2) side_of_byte_inv(2) tif_of_byte_inv(2) bits_price_inv(2) [OF rng]
      read_words(2) [OF bs(7)] read_words(2) [OF bs(8)] read_words(2) [OF bs(9)] read_words(1) [OF bs(10)] read_words(1) [OF bs(11)]
    by simp
  then show ?thesis using bs(1,2) val by (simp add: decode_command_payload_def kEncodedCommandPayloadSize_def)
qed

lemma nth_split_36:
  fixes bs :: "'a list"
  assumes "length bs = 36" "length cs = 36" "bs ! 0 = cs ! 0" "bs ! 1 = cs ! 1" "bs ! 2 = cs ! 2" "bs ! 3 = cs ! 3"
    "\<And>i. i < 8 \<Longrightarrow> bs ! (4 + i) = cs ! (4 + i)" "\<And>i. i < 8 \<Longrightarrow> bs ! (12 + i) = cs ! (12 + i)"
    "\<And>i. i < 8 \<Longrightarrow> bs ! (20 + i) = cs ! (20 + i)" "\<And>i. i < 4 \<Longrightarrow> bs ! (28 + i) = cs ! (28 + i)"
    "\<And>i. i < 4 \<Longrightarrow> bs ! (32 + i) = cs ! (32 + i)"
  shows "bs = cs"
proof (rule nth_equalityI)
  fix k assume "k < length bs"
  then consider "k \<in> {0, 1, 2, 3}" | i where "i < 8" "k = 4 + i" | i where "i < 8" "k = 12 + i" | i where "i < 8" "k = 20 + i"
    | i where "i < 4" "k = 28 + i" | i where "i < 4" "k = 32 + i"
  proof -
    assume a: "k < length bs"
    consider "k < 4" | "4 \<le> k \<and> k < 12" | "12 \<le> k \<and> k < 20" | "20 \<le> k \<and> k < 28" | "28 \<le> k \<and> k < 32" | "32 \<le> k \<and> k < 36"
      using a assms(1) by linarith
    then show thesis
    proof cases
      case 1
      then have "k \<in> {0, 1, 2, 3}" by auto
      then show ?thesis by (rule that(1))
    next
      case 2
      then show ?thesis using that(2) [of "k - 4"] by auto
    next
      case 3
      then show ?thesis using that(3) [of "k - 12"] by auto
    next
      case 4
      then show ?thesis using that(4) [of "k - 20"] by auto
    next
      case 5
      then show ?thesis using that(5) [of "k - 28"] by auto
    next
      case 6
      then show ?thesis using that(6) [of "k - 32"] by auto
    qed
  qed
  then show "bs ! k = cs ! k" using assms(3-) by cases auto
qed (use assms in simp)

lemma decode_encode:
  assumes dec: "decode_command_payload inp = Inr p" and out: "length out = 36"
  shows "encode_command_payload p out = (CC_None, inp)"
proof -
  have len: "length inp = 36" and val: "validate_command_payload p = CV_None"
    and p: "p = \<lparr>cp_tag = tag_of_byte (inp ! 0), cp_side = side_of_byte (inp ! 1),
                    cp_time_in_force = tif_of_byte (inp ! 2), cp_reserved = inp ! 3,
                    cp_order_id = read_u64 inp 4, cp_price_ticks = bits_price (read_u64 inp 12),
                    cp_quantity = read_u64 inp 20, cp_handle_index = read_u32 inp 28,
                    cp_handle_generation = read_u32 inp 32\<rparr>"
    using dec by (auto simp: decode_command_payload_def kEncodedCommandPayloadSize_def Let_def split: if_splits)
  have r0: "inp ! 3 = 0" using validate_None(2) [OF val] by (simp add: p)
  obtain bs where bs: "encode_command_payload p out = (CC_None, bs)" "length bs = 36"
    "bs ! 0 = tag_byte (cp_tag p)" "bs ! 1 = side_byte (cp_side p)" "bs ! 2 = tif_byte (cp_time_in_force p)" "bs ! 3 = 0"
    "\<And>i. i < 8 \<Longrightarrow> bs ! (4 + i) = byte_at (cp_order_id p) i" "\<And>i. i < 8 \<Longrightarrow> bs ! (12 + i) = byte_at (price_bits (cp_price_ticks p)) i"
    "\<And>i. i < 8 \<Longrightarrow> bs ! (20 + i) = byte_at (cp_quantity p) i" "\<And>i. i < 4 \<Longrightarrow> bs ! (28 + i) = byte_at (cp_handle_index p) i"
    "\<And>i. i < 4 \<Longrightarrow> bs ! (32 + i) = byte_at (cp_handle_generation p) i"
    by (rule encode_nth [OF out val]) blast
  have "bs = inp"
    by (rule nth_split_36 [OF bs(2) len])
      (use bs(3-) r0 in \<open>simp_all add: p tag_of_byte_inv side_of_byte_inv tif_of_byte_inv bits_price_inv byte_at_read\<close>)
  then show ?thesis using bs(1) by simp
qed

text \<open>
  C30. The codec is a bijection between the valid payloads and the accepted byte strings: a valid payload
  encodes into any buffer of the right length and decodes to itself; an accepted byte string is the
  encoding of the payload it decodes to, whatever the output buffer held.  An invalid payload or a
  buffer of another length is refused with the error of the validation and nothing is written.
\<close>

theorem command_codec_roundtrip:
  "(length out = kEncodedCommandPayloadSize \<and> validate_command_payload p = CV_None \<and> int64_range (cp_price_ticks p) \<longrightarrow>
      (\<exists>bs. encode_command_payload p out = (CC_None, bs) \<and> decode_command_payload bs = Inr p)) \<and>
   (length out = kEncodedCommandPayloadSize \<and> decode_command_payload inp = Inr q \<longrightarrow>
      encode_command_payload q out = (CC_None, inp)) \<and>
   (length out \<noteq> kEncodedCommandPayloadSize \<longrightarrow> encode_command_payload p out = (CC_Invalid_Length, out)) \<and>
   (length out = kEncodedCommandPayloadSize \<and> validate_command_payload p \<noteq> CV_None \<longrightarrow>
      encode_command_payload p out = (codec_error (validate_command_payload p), out))"
proof (intro conjI impI)
  assume "length out = kEncodedCommandPayloadSize \<and> validate_command_payload p = CV_None \<and> int64_range (cp_price_ticks p)"
  then show "\<exists>bs. encode_command_payload p out = (CC_None, bs) \<and> decode_command_payload bs = Inr p"
    using encode_decode by (simp add: kEncodedCommandPayloadSize_def)
next
  assume "length out = kEncodedCommandPayloadSize \<and> decode_command_payload inp = Inr q"
  then show "encode_command_payload q out = (CC_None, inp)" using decode_encode by (simp add: kEncodedCommandPayloadSize_def)
qed (simp_all add: encode_command_payload_def Let_def)

definition demo_payload :: command_payload where
  "demo_payload = payload_submit_limit 7 (Valid_Side Sell) (- 5) 300 IOC"

theorem command_codec_roundtrip_witness:
  "(\<exists>bs. encode_command_payload demo_payload (replicate 36 9) = (CC_None, bs) \<and> decode_command_payload bs = Inr demo_payload \<and>
      encode_command_payload demo_payload (replicate 36 0) = (CC_None, bs)) \<and>
   encode_command_payload demo_payload [] = (CC_Invalid_Length, []) \<and>
   encode_command_payload (demo_payload\<lparr>cp_reserved := 1\<rparr>) (replicate 36 0) = (CC_Noncanonical, replicate 36 0)"
proof -
  have v: "validate_command_payload demo_payload = CV_None" "int64_range (cp_price_ticks demo_payload)"
    "validate_command_payload (demo_payload\<lparr>cp_reserved := 1\<rparr>) = CV_Noncanonical" by code_simp+
  obtain bs where bs: "encode_command_payload demo_payload (replicate 36 9) = (CC_None, bs)" "decode_command_payload bs = Inr demo_payload"
    using command_codec_roundtrip [of "replicate 36 9" demo_payload] v by (auto simp: kEncodedCommandPayloadSize_def)
  moreover have "encode_command_payload demo_payload (replicate 36 0) = (CC_None, bs)"
    using command_codec_roundtrip [of "replicate 36 0" demo_payload bs demo_payload] bs by (auto simp: kEncodedCommandPayloadSize_def)
  ultimately show ?thesis
    using command_codec_roundtrip [of "[]" demo_payload] v
      command_codec_roundtrip [of "replicate 36 0" "demo_payload\<lparr>cp_reserved := 1\<rparr>"]
    by (simp add: kEncodedCommandPayloadSize_def)
qed

section \<open>Payload constructors\<close>

lemma join_split_halves:
  assumes "cp_handle_index p = low_half w" "cp_handle_generation p = high_half w"
  shows "join_halves p = w"
proof (rule bit_word_eqI)
  fix n assume "n < LENGTH(64)"
  then show "bit (join_halves p) n = bit w n"
    by (auto simp: join_halves_def assms low_half_def high_half_def bit_simps)
qed

lemmas payload_defs = default_payload_def payload_submit_limit_def payload_submit_market_def payload_cancel_def
  payload_amend_quantity_def payload_replace_def payload_submit_iceberg_def payload_submit_stop_def
  payload_submit_stop_limit_def payload_uncross_opening_auction_def

lemma packed_values:
  "iceberg_display_quantity (payload_submit_iceberg oid rs p q disp) = disp"
  "int64_range trigger \<Longrightarrow> stop_trigger_price (payload_submit_stop oid rs trigger q) = trigger"
  "int64_range trigger \<Longrightarrow> stop_trigger_price (payload_submit_stop_limit oid rs trigger p q) = trigger"
proof -
  show "iceberg_display_quantity (payload_submit_iceberg oid rs p q disp) = disp"
    unfolding iceberg_display_quantity_def by (rule join_split_halves) (simp_all add: payload_defs)
  have "join_halves (payload_submit_stop oid rs trigger q) = price_bits trigger"
    "join_halves (payload_submit_stop_limit oid rs trigger p q) = price_bits trigger"
    by (rule join_split_halves; simp add: payload_defs)+
  then show "int64_range trigger \<Longrightarrow> stop_trigger_price (payload_submit_stop oid rs trigger q) = trigger"
    "int64_range trigger \<Longrightarrow> stop_trigger_price (payload_submit_stop_limit oid rs trigger p q) = trigger"
    by (simp_all add: stop_trigger_price_def bits_price_inv(2))
qed

lemma valid_side [simp]: "is_valid_side (Valid_Side s)"
  by (cases s) (simp_all add: is_valid_side_def)

text \<open>
  What the payload constructors build from valid arguments passes the validation, and the values packed
  into the two handle fields are read back unchanged: the display quantity of an iceberg and the
  trigger price of a stop, whose sign survives the cast.
\<close>

theorem payload_constructors_valid:
  assumes "is_valid_time_in_force tif" "int64_range trigger"
  shows "(\<forall>p \<in> {payload_submit_limit oid (Valid_Side s) px q tif, payload_submit_market oid (Valid_Side s) q, payload_cancel h,
        payload_amend_quantity h q, payload_replace h px q, payload_submit_iceberg oid (Valid_Side s) px q disp,
        payload_submit_stop oid (Valid_Side s) trigger q, payload_submit_stop_limit oid (Valid_Side s) trigger px q,
        payload_uncross_opening_auction}. validate_command_payload p = CV_None) \<and>
    iceberg_display_quantity (payload_submit_iceberg oid (Valid_Side s) px q disp) = disp \<and>
    stop_trigger_price (payload_submit_stop oid (Valid_Side s) trigger q) = trigger \<and>
    stop_trigger_price (payload_submit_stop_limit oid (Valid_Side s) trigger px q) = trigger"
proof -
  have "is_valid_time_in_force GTC" by (simp add: is_valid_time_in_force_def)
  then show ?thesis using assms packed_values
    by (simp add: validate_command_payload_def canonical_if_def is_zero_handle_def has_zero_common_unused_def payload_defs)
qed

theorem payload_constructors_valid_witness:
  "validate_command_payload (payload_submit_limit 1 (Valid_Side Buy) 100 5 FOK) = CV_None \<and>
   stop_trigger_price (payload_submit_stop 1 (Valid_Side Buy) (- 9) 5) = - 9"
proof -
  have "is_valid_time_in_force FOK" "int64_range (- 9)" by code_simp+
  from payload_constructors_valid [OF this, of 1 Buy 100 5] show ?thesis by simp
qed

section \<open>The sequencer\<close>

text \<open>A history of requests to the sequencer, and the commands it let through.\<close>

fun stamp_all :: "sequencer \<Rightarrow> (command_payload \<times> u64) list \<Rightarrow> sequenced_command list \<times> sequencer" where
  "stamp_all sq [] = ([], sq)"
| "stamp_all sq ((p, t) # rs) =
     (case stamp sq p t of (Inl _, sq1) \<Rightarrow> stamp_all sq1 rs
      | (Inr c, sq1) \<Rightarrow> let (cs, sq2) = stamp_all sq1 rs in (c # cs, sq2))"

text \<open>The next number as a natural; after the last one has been used it is one past the range.\<close>

definition next_number :: "sequencer \<Rightarrow> nat" where
  "next_number sq = unat (sq_next_sequence sq) + (if sq_exhausted sq then 1 else 0)"

definition sequencer_ok :: "sequencer \<Rightarrow> bool" where
  "sequencer_ok sq \<longleftrightarrow> (sq_exhausted sq \<longrightarrow> sq_next_sequence sq = -1)"

lemma unat_minus_one_u64: "unat (-1 :: u64) = 2 ^ 64 - 1"
  by (simp add: unsigned_minus_1_eq_mask mask_eq_exp_minus_1)

lemma unat_suc_u64: "(w::u64) \<noteq> -1 \<Longrightarrow> unat (w + 1) = unat w + 1"
proof -
  assume "w \<noteq> -1"
  then have "1 + w \<noteq> 0" by (simp add: eq_neg_iff_add_eq_0 add.commute)
  then show ?thesis using unatSuc [of w] by (simp add: add.commute)
qed

lemma stamp_cases:
  assumes "sequencer_ok sq"
  obtains e where "stamp sq p t = (Inl e, sq)"
  | c sq1 where "stamp sq p t = (Inr c, sq1)" "sc_payload c = p" "sc_logical_time c = t" "unat (sc_sequence c) = next_number sq"
      "validate_command_payload p = CV_None" "sq_last_logical_time sq \<le> t" "sq_last_logical_time sq1 = t"
      "next_number sq1 = next_number sq + 1" "sequencer_ok sq1" "next_number sq < 2 ^ 64"
proof (cases "stamp sq p t")
  case (Pair r sq1)
  show thesis
  proof (cases r)
    case (Inl e)
    then show ?thesis using Pair that(1) by (auto simp: stamp_def Let_def split: if_splits)
  next
    case (Inr c)
    then have c: "validate_command_payload p = CV_None" "sq_last_logical_time sq \<le> t" "\<not> sq_exhausted sq"
      "c = \<lparr>sc_payload = p, sc_sequence = sq_next_sequence sq, sc_logical_time = t\<rparr>"
      "sq1 = (if sq_next_sequence sq = -1 then sq\<lparr>sq_exhausted := True\<rparr>
         else sq\<lparr>sq_next_sequence := sq_next_sequence sq + 1\<rparr>)\<lparr>sq_last_logical_time := t\<rparr>"
      using Pair by (auto simp: stamp_def Let_def not_less split: if_splits)
    have "next_number sq1 = next_number sq + 1"
      using c(3) unat_suc_u64 [of "sq_next_sequence sq"] by (simp add: next_number_def c(5))
    moreover have "next_number sq < 2 ^ 64" using c(3) unat_u64_less [of "sq_next_sequence sq"] by (simp add: next_number_def)
    moreover have "sequencer_ok sq1" using c(3) by (simp add: sequencer_ok_def c(5))
    moreover have "sq_last_logical_time sq1 = t" by (simp add: c(5))
    ultimately show ?thesis using Pair Inr c by (intro that(2) [of c sq1]) (auto simp: next_number_def)
  qed
qed

lemma stamp_all_ok:
  assumes "sequencer_ok sq" "stamp_all sq rs = (cs, sq')"
  shows "map (\<lambda>c. unat (sc_sequence c)) cs = [next_number sq..<next_number sq + length cs] \<and>
    sorted (sq_last_logical_time sq # map sc_logical_time cs) \<and> (\<forall>c \<in> set cs. validate_command_payload (sc_payload c) = CV_None) \<and>
    next_number sq' = next_number sq + length cs \<and> sequencer_ok sq'"
  using assms
proof (induction rs arbitrary: sq cs)
  case (Cons r rs)
  obtain p t where r: "r = (p, t)" by (cases r)
  from Cons.prems(1) show ?case
  proof (cases rule: stamp_cases [where p = p and t = t])
    case (1 e)
    then show ?thesis using Cons by (simp add: r)
  next
    case (2 c sq1)
    obtain ds where ds: "stamp_all sq1 rs = (ds, sq')" "cs = c # ds" using Cons.prems(2) 2(1) by (auto simp: r split: prod.splits)
    have "[next_number sq..<next_number sq + length cs] = next_number sq # [next_number sq1..<next_number sq1 + length ds]"
      using 2(8) ds(2) upt_conv_Cons [of "next_number sq" "next_number sq + length cs"] by simp
    then show ?thesis using Cons.IH [OF 2(9) ds(1)] 2 ds(2) by (auto intro: order_trans)
  qed
qed simp

text \<open>
  C29. Over any history of requests the sequencer hands out consecutive numbers from its next one on, with
  no gap for a refused request, in nondecreasing logical time and only to valid payloads; it never
  wraps: after the number \<open>2 ^ 64 - 1\<close> every further request is refused.
\<close>

theorem sequencer_total_order:
  assumes "stamp_all (make_sequencer n t0) rs = (cs, sq')"
  shows "map (\<lambda>c. unat (sc_sequence c)) cs = [unat n..<unat n + length cs] \<and> unat n + length cs \<le> 2 ^ 64 \<and>
    sorted (t0 # map sc_logical_time cs) \<and> (\<forall>c \<in> set cs. validate_command_payload (sc_payload c) = CV_None) \<and>
    (unat n + length cs = 2 ^ 64 \<longrightarrow> (\<forall>p t. \<exists>e. stamp sq' p t = (Inl e, sq')))"
proof -
  let ?sq = "make_sequencer n t0"
  have ok: "sequencer_ok ?sq" and n: "next_number ?sq = unat n" "sq_last_logical_time ?sq = t0"
    by (simp_all add: sequencer_ok_def next_number_def make_sequencer_def)
  note all = stamp_all_ok [OF ok assms, unfolded n]
  have "next_number sq' \<le> unat (sq_next_sequence sq') + 1" by (simp add: next_number_def)
  then have "next_number sq' \<le> 18446744073709551616" using unat_u64_less [of "sq_next_sequence sq'"] by linarith
  then have "next_number sq' \<le> 2 ^ 64" by simp
  moreover have "\<exists>e. stamp sq' p t = (Inl e, sq')" if "next_number sq' = 2 ^ 64" for p t
  proof -
    have "sequencer_ok sq'" using all by simp
    then show ?thesis by (cases rule: stamp_cases [where p = p and t = t]) (use that in auto)
  qed
  ultimately show ?thesis using all by auto
qed

theorem sequencer_total_order_witness:
  "map (\<lambda>c. unat (sc_sequence c)) (fst (stamp_all (make_sequencer (- 1) 5) [(demo_payload, 4), (demo_payload, 6), (demo_payload, 7)]))
     = [2 ^ 64 - 1]"
proof -
  define run where "run = stamp_all (make_sequencer (- 1) 5) [(demo_payload, 4), (demo_payload, 6), (demo_payload, 7)]"
  have "length (fst run) = 1" unfolding run_def by code_simp
  moreover have "stamp_all (make_sequencer (- 1) 5) [(demo_payload, 4), (demo_payload, 6), (demo_payload, 7)] = (fst run, snd run)"
    by (simp add: run_def)
  from sequencer_total_order [OF this]
  have "map (\<lambda>c. unat (sc_sequence c)) (fst run) = [unat (-1::u64)..<unat (-1::u64) + length (fst run)]" by blast
  ultimately show ?thesis unfolding unat_minus_one_u64 run_def by (simp del: stamp_all.simps)
qed

end
