(* ===== verification/Frame_Properties.thy ===== *)
theory Frame_Properties
  imports Frames Command_Properties
begin

text \<open>The wire formats: every encoder and decoder pair is a bijection between canonical values and accepted frames.\<close>

section \<open>Fields\<close>

lemma length_encode_le [simp]: "length (encode_little_endian v off out) = length out"
  by (simp add: encode_little_endian_def length_write)

lemma encode_le_nth:
  fixes v :: "'a::len word"
  assumes "off + LENGTH('a) div 8 \<le> length out"
  shows "encode_little_endian v off out ! k = (if off \<le> k \<and> k < off + LENGTH('a) div 8 then byte_at v (k - off) else out ! k)"
  unfolding encode_little_endian_def by (rule write_nth [OF assms])

lemmas encode_u64_nth = encode_le_nth [where ?'a = 64, simplified]
lemmas encode_u32_nth = encode_le_nth [where ?'a = 32, simplified]

lemma decode_u64: "(\<And>i. i < 8 \<Longrightarrow> inp ! (off + i) = byte_at v i) \<Longrightarrow> decode_little_endian inp off = (v :: u64)"
  unfolding decode_little_endian_def by (rule join_bytes) simp_all

lemma decode_u32: "(\<And>i. i < 4 \<Longrightarrow> inp ! (off + i) = byte_at v i) \<Longrightarrow> decode_little_endian inp off = (v :: u32)"
  unfolding decode_little_endian_def by (rule join_bytes) simp_all

lemma byte_at_decode:
  "i < 8 \<Longrightarrow> byte_at (decode_little_endian inp off :: u64) i = inp ! (off + i)"
  "i < 4 \<Longrightarrow> byte_at (decode_little_endian inp off :: u32) i = inp ! (off + i)"
  unfolding decode_little_endian_def by (rule byte_at_join; simp)+

lemma is_zero_nth: "is_zero (subspan bs off n) \<Longrightarrow> off + n \<le> length bs \<Longrightarrow> i < n \<Longrightarrow> bs ! (off + i) = 0"
  by (metis add_leD2 add_diff_cancel_left' diff_le_mono is_zero_def length_drop length_take min.absorb2 nth_drop nth_mem nth_take subspan_def add_leD1)

lemma is_zeroI: "off + n \<le> length bs \<Longrightarrow> (\<And>i. i < n \<Longrightarrow> bs ! (off + i) = 0) \<Longrightarrow> is_zero (subspan bs off n)"
  by (auto simp: is_zero_def subspan_def in_set_conv_nth)

text \<open>Two byte strings that agree on segments tiling them are equal.\<close>

fun tiles :: "nat \<Rightarrow> (nat \<times> nat) list \<Rightarrow> nat \<Rightarrow> bool" where
  "tiles a [] n \<longleftrightarrow> a = n"
| "tiles a ((off, len) # segs) n \<longleftrightarrow> off = a \<and> tiles (off + len) segs n"

lemma tiles_cover: "tiles a segs n \<Longrightarrow> a \<le> k \<Longrightarrow> k < n \<Longrightarrow> \<exists>(off, len) \<in> set segs. off \<le> k \<and> k < off + len"
  by (induction a segs n rule: tiles.induct) (simp, fastforce simp: not_less)

lemma segments_eq:
  assumes "length bs = n" "length cs = n"
    and tiles: "tiles 0 segs n"
    and agree: "\<And>off len i. (off, len) \<in> set segs \<Longrightarrow> i < len \<Longrightarrow> bs ! (off + i) = cs ! (off + i)"
  shows "bs = cs"
proof (rule nth_equalityI)
  fix k assume "k < length bs"
  then obtain off len where s: "(off, len) \<in> set segs" "off \<le> k" "k < off + len" using tiles_cover [OF tiles, of k] assms(1) by auto
  then have "k - off < len" "off + (k - off) = k" by auto
  then show "bs ! k = cs ! k" using agree [OF s(1)] by metis
qed (use assms in simp)

section \<open>Command frames\<close>

lemma four_prefix:
  assumes "4 \<le> length xs" obtains a b c d r where "xs = a # b # c # d # r"
  using assms by (auto simp: numeral_eq_Suc Suc_le_length_iff)

lemma command_frame_encode:
  assumes "length out = 40" "validate_command_payload p = CV_None"
  obtains body where "encode_command_payload p (drop 4 out) = (CC_None, body)" "length body = 36"
    "encode_command_frame p out = (command_frame_success, [kCommandProtocolVersion, 0, 0, 0] @ body)"
proof -
  obtain a0 a1 a2 a3 rest where out: "out = a0 # a1 # a2 # a3 # rest"
    by (rule four_prefix [of out]) (use assms(1) in auto)
  have len: "length (drop 4 out) = 36" using assms(1) by simp
  obtain body where b: "encode_command_payload p (drop 4 out) = (CC_None, body)" "length body = 36"
    by (rule encode_nth [OF len assms(2)]) blast
  have "encode_command_frame p out = (command_frame_success, [kCommandProtocolVersion, 0, 0, 0] @ body)"
    using assms(1) b(1) by (simp add: encode_command_frame_def kEncodedCommandFrameSize_def out)
  with b show thesis by (rule that)
qed

text \<open>
  A valid payload encodes into a command frame that decodes to it, and an accepted frame is the encoding of
  the payload it decodes to.
\<close>

theorem command_frame_roundtrip:
  "(length out = 40 \<and> validate_command_payload p = CV_None \<and> int64_range (cp_price_ticks p) \<longrightarrow>
      decode_command_frame (snd (encode_command_frame p out)) = Inr p) \<and>
   (length out = 40 \<and> decode_command_frame inp = Inr q \<longrightarrow> encode_command_frame q out = (command_frame_success, inp))"
proof (intro conjI impI)
  assume a: "length out = 40 \<and> validate_command_payload p = CV_None \<and> int64_range (cp_price_ticks p)"
  obtain body where b: "encode_command_payload p (drop 4 out) = (CC_None, body)" "length body = 36"
    "encode_command_frame p out = (command_frame_success, [kCommandProtocolVersion, 0, 0, 0] @ body)"
    by (rule command_frame_encode) (use a in auto)
  have "decode_command_payload body = Inr p" using encode_decode [of "drop 4 out" p] a b(1) by auto
  then show "decode_command_frame (snd (encode_command_frame p out)) = Inr p"
    using b by (simp add: decode_command_frame_def kEncodedCommandFrameSize_def)
next
  assume a: "length out = 40 \<and> decode_command_frame inp = Inr q"
  then have i: "length inp = 40" "inp ! 0 = kCommandProtocolVersion" "inp ! 1 = 0" "inp ! 2 = 0" "inp ! 3 = 0"
    "decode_command_payload (drop 4 inp) = Inr q"
    by (auto simp: decode_command_frame_def kEncodedCommandFrameSize_def split: if_splits sum.splits)
  obtain a0 a1 a2 a3 rest where inp: "inp = a0 # a1 # a2 # a3 # rest"
    by (rule four_prefix [of inp]) (use i(1) in auto)
  have val: "validate_command_payload q = CV_None" using i(6) by (auto simp: decode_command_payload_def Let_def split: if_splits)
  obtain body where b: "encode_command_payload q (drop 4 out) = (CC_None, body)"
    "encode_command_frame q out = (command_frame_success, [kCommandProtocolVersion, 0, 0, 0] @ body)"
    by (rule command_frame_encode) (use a val in auto)
  have "body = drop 4 inp" using decode_encode [OF i(6), of "drop 4 out"] a b(1) by simp
  then show "encode_command_frame q out = (command_frame_success, inp)" using b(2) i(2-5) by (simp add: inp)
qed

theorem command_frame_roundtrip_witness:
  "decode_command_frame (snd (encode_command_frame demo_payload (replicate 40 7))) = Inr demo_payload"
proof -
  have "validate_command_payload demo_payload = CV_None" "int64_range (cp_price_ticks demo_payload)" by code_simp+
  then show ?thesis using command_frame_roundtrip [of "replicate 40 7" demo_payload] by simp
qed

text \<open>
  The frame encoder reports a success with the same value as a buffer of the wrong length, so its caller
  cannot tell whether the frame was written.
\<close>

theorem command_frame_success_is_an_error_code:
  "fst (encode_command_frame demo_payload (replicate 40 0)) = fst (encode_command_frame demo_payload []) \<and>
   snd (encode_command_frame demo_payload (replicate 40 0)) \<noteq> replicate 40 0 \<and> snd (encode_command_frame demo_payload []) = []"
proof -
  have v: "validate_command_payload demo_payload = CV_None" by code_simp
  obtain body where e: "encode_command_frame demo_payload (replicate 40 0) = (command_frame_success, [kCommandProtocolVersion, 0, 0, 0] @ body)"
    by (rule command_frame_encode [OF _ v, of "replicate 40 0"]) simp_all
  have "hd ([kCommandProtocolVersion, 0, 0, 0] @ body) \<noteq> hd (replicate 40 0)" by (simp add: kCommandProtocolVersion_def)
  then have "[kCommandProtocolVersion, 0, 0, 0] @ body \<noteq> replicate 40 0" by metis
  moreover have "encode_command_frame demo_payload [] = (CF_Invalid_Length, [])"
    by (simp add: encode_command_frame_def kEncodedCommandFrameSize_def)
  ultimately show ?thesis unfolding e by (simp add: command_frame_success_def)
qed

section \<open>Best-bid-and-offer frames\<close>

text \<open>An absent side has no quantity on the wire.\<close>

definition normal_bbo :: "bbo_state \<Rightarrow> bbo_state" where
  "normal_bbo s = s\<lparr>bs_bid_quantity := (if bs_bid_price s = None then 0 else bs_bid_quantity s),
     bs_ask_quantity := (if bs_ask_price s = None then 0 else bs_ask_quantity s)\<rparr>"

lemma bbo_side_nth:
  assumes "po + 8 \<le> length out" "qo + 8 \<le> length out" "po + 8 \<le> qo"
  shows "length (encode_bbo_side p q po qo out) = length out"
    "encode_bbo_side p q po qo out ! k = (case p of None \<Rightarrow> out ! k
       | Some t \<Rightarrow> if po \<le> k \<and> k < po + 8 then byte_at (price_bits t) (k - po)
                   else if qo \<le> k \<and> k < qo + 8 then byte_at q (k - qo) else out ! k)"
  using assms by (auto simp: encode_bbo_side_def encode_u64_nth split: option.splits)

text \<open>The layout of a frame, byte by byte.\<close>

definition bbo_bytes :: "bbo_state \<Rightarrow> u8 list \<Rightarrow> bool" where
  "bbo_bytes s bs \<longleftrightarrow> length bs = 40 \<and> bs ! 0 = 1 \<and>
     bs ! 4 = (if bs_bid_price s \<noteq> None then 1 else 0) \<and> bs ! 5 = (if bs_ask_price s \<noteq> None then 1 else 0) \<and>
     (\<forall>i < 3. bs ! (1 + i) = 0) \<and> (\<forall>i < 2. bs ! (6 + i) = 0) \<and>
     (\<forall>i < 8. bs ! (8 + i) = (case bs_bid_price s of None \<Rightarrow> 0 | Some t \<Rightarrow> byte_at (price_bits t) i)) \<and>
     (\<forall>i < 8. bs ! (16 + i) = (if bs_bid_price s = None then 0 else byte_at (bs_bid_quantity s) i)) \<and>
     (\<forall>i < 8. bs ! (24 + i) = (case bs_ask_price s of None \<Rightarrow> 0 | Some t \<Rightarrow> byte_at (price_bits t) i)) \<and>
     (\<forall>i < 8. bs ! (32 + i) = (if bs_ask_price s = None then 0 else byte_at (bs_ask_quantity s) i))"

lemma encode_bbo_bytes:
  assumes "length out = 40"
  obtains bs where "encode_bbo_frame s out = (BF_None, bs)" "bbo_bytes s bs"
proof -
  define o1 where "o1 = (replicate 40 (0::u8))[0 := 1, 4 := (if bs_bid_price s \<noteq> None then 1 else 0), 5 := (if bs_ask_price s \<noteq> None then 1 else 0)]"
  define o2 where "o2 = encode_bbo_side (bs_bid_price s) (bs_bid_quantity s) 8 16 o1"
  define o3 where "o3 = encode_bbo_side (bs_ask_price s) (bs_ask_quantity s) 24 32 o2"
  have l1: "length o1 = 40" by (simp add: o1_def)
  have l2: "length o2 = 40" unfolding o2_def using l1 by (subst bbo_side_nth(1)) simp_all
  have l3: "length o3 = 40" unfolding o3_def using l2 by (subst bbo_side_nth(1)) simp_all
  have n1: "o1 ! k = (if k = 5 then if bs_ask_price s \<noteq> None then 1 else 0 else if k = 4 then if bs_bid_price s \<noteq> None then 1 else 0
      else if k = 0 then 1 else 0)" if "k < 40" for k using that by (simp add: o1_def nth_list_update)
  have n2: "o2 ! k = (case bs_bid_price s of None \<Rightarrow> o1 ! k | Some t \<Rightarrow> if 8 \<le> k \<and> k < 16 then byte_at (price_bits t) (k - 8)
      else if 16 \<le> k \<and> k < 24 then byte_at (bs_bid_quantity s) (k - 16) else o1 ! k)" for k
    unfolding o2_def using l1 by (subst bbo_side_nth(2)) (auto split: option.splits)
  have n3: "o3 ! k = (case bs_ask_price s of None \<Rightarrow> o2 ! k | Some t \<Rightarrow> if 24 \<le> k \<and> k < 32 then byte_at (price_bits t) (k - 24)
      else if 32 \<le> k \<and> k < 40 then byte_at (bs_ask_quantity s) (k - 32) else o2 ! k)" for k
    unfolding o3_def using l2 by (subst bbo_side_nth(2)) (auto split: option.splits)
  show thesis
  proof (rule that [of o3])
    show "encode_bbo_frame s out = (BF_None, o3)"
      using assms by (simp add: encode_bbo_frame_def kEncodedBboFrameSize_def kBboProtocolVersion_def Let_def o1_def o2_def o3_def)
    show "bbo_bytes s o3" by (simp add: bbo_bytes_def l3 n3 n2 n1 split: option.splits)
  qed
qed

lemma decode_bbo_bytes:
  assumes "decode_bbo_frame inp = Inr s"
  shows "bbo_bytes s inp"
proof -
  have le1: "b = 0" if "\<not> (b::u8) > 1" "b \<noteq> 1" for b
    using that by unat_arith
  note d = assms [unfolded decode_bbo_frame_def kEncodedBboFrameSize_def kBboProtocolVersion_def Let_def]
  have len: "length inp = 40" and v: "inp ! 0 = 1" using d by (auto split: if_splits)
  have z: "is_zero (subspan inp 1 3)" "is_zero (subspan inp 6 2)" "\<not> inp ! 4 > 1" "\<not> inp ! 5 > 1"
    "inp ! 4 \<noteq> 1 \<Longrightarrow> is_zero (subspan inp 8 8) \<and> is_zero (subspan inp 16 8)"
    "inp ! 5 \<noteq> 1 \<Longrightarrow> is_zero (subspan inp 24 8) \<and> is_zero (subspan inp 32 8)"
    using d by (auto split: if_splits)
  have s: "s = \<lparr>bs_bid_price = (if inp ! 4 = 1 then Some (bits_price (decode_little_endian inp 8)) else None),
                bs_bid_quantity = (if inp ! 4 = 1 then decode_little_endian inp 16 else 0),
                bs_ask_price = (if inp ! 5 = 1 then Some (bits_price (decode_little_endian inp 24)) else None),
                bs_ask_quantity = (if inp ! 5 = 1 then decode_little_endian inp 32 else 0)\<rparr>"
    using d by (auto split: if_splits)
  have z1: "\<forall>i < 3. inp ! (1 + i) = 0" "\<forall>i < 2. inp ! (6 + i) = 0"
    using is_zero_nth [OF z(1)] is_zero_nth [OF z(2)] len by auto
  have present: "inp ! 4 = (if bs_bid_price s \<noteq> None then 1 else 0)" "inp ! 5 = (if bs_ask_price s \<noteq> None then 1 else 0)"
    using le1 [OF z(3)] le1 [OF z(4)] by (auto simp: s)
  have bid: "inp ! (8 + i) = 0 \<and> inp ! (16 + i) = 0" if "inp ! 4 \<noteq> 1" "i < 8" for i
    using is_zero_nth [of inp 8 8 i] is_zero_nth [of inp 16 8 i] z(5) that len by auto
  have ask: "inp ! (24 + i) = 0 \<and> inp ! (32 + i) = 0" if "inp ! 5 \<noteq> 1" "i < 8" for i
    using is_zero_nth [of inp 24 8 i] is_zero_nth [of inp 32 8 i] z(6) that len by auto
  have "\<forall>i < 8. inp ! (8 + i) = (case bs_bid_price s of None \<Rightarrow> 0 | Some t \<Rightarrow> byte_at (price_bits t) i)"
    "\<forall>i < 8. inp ! (16 + i) = (if bs_bid_price s = None then 0 else byte_at (bs_bid_quantity s) i)"
    "\<forall>i < 8. inp ! (24 + i) = (case bs_ask_price s of None \<Rightarrow> 0 | Some t \<Rightarrow> byte_at (price_bits t) i)"
    "\<forall>i < 8. inp ! (32 + i) = (if bs_ask_price s = None then 0 else byte_at (bs_ask_quantity s) i)"
    using bid ask by (auto simp: s byte_at_decode bits_price_inv(1))
  with len v z1 present show ?thesis unfolding bbo_bytes_def by blast
qed

lemma bbo_bytes_unique:
  assumes "bbo_bytes s bs" "bbo_bytes s cs"
  shows "bs = cs"
proof (rule segments_eq [where segs = "[(0, 1), (1, 3), (4, 1), (5, 1), (6, 2), (8, 8), (16, 8), (24, 8), (32, 8)]" and n = 40])
  fix off len i :: nat
  assume "(off, len) \<in> set [(0, 1), (1, 3), (4, 1), (5, 1), (6, 2), (8, 8), (16, 8), (24, 8), (32, 8)]" "i < len"
  then show "bs ! (off + i) = cs ! (off + i)" using assms unfolding bbo_bytes_def by (elim conjE) auto
qed (use assms in \<open>simp_all add: bbo_bytes_def\<close>)

lemma bbo_bytes_decode:
  assumes "bbo_bytes s bs" and rng: "pred_option int64_range (bs_bid_price s)" "pred_option int64_range (bs_ask_price s)"
  shows "decode_bbo_frame bs = Inr (normal_bbo s)"
proof -
  note b = assms(1) [unfolded bbo_bytes_def]
  have bid: "bs_bid_price s = Some p \<Longrightarrow> bits_price (decode_little_endian bs 8) = p"
    "bs_bid_price s = Some p \<Longrightarrow> decode_little_endian bs 16 = bs_bid_quantity s" for p
    using b rng decode_u64 [of bs 8 "price_bits p"] decode_u64 [of bs 16 "bs_bid_quantity s"] by (simp_all add: bits_price_inv(2))
  have ask: "bs_ask_price s = Some p \<Longrightarrow> bits_price (decode_little_endian bs 24) = p"
    "bs_ask_price s = Some p \<Longrightarrow> decode_little_endian bs 32 = bs_ask_quantity s" for p
    using b rng decode_u64 [of bs 24 "price_bits p"] decode_u64 [of bs 32 "bs_ask_quantity s"] by (simp_all add: bits_price_inv(2))
  have z: "is_zero (subspan bs 1 3)" "is_zero (subspan bs 6 2)"
    "bs_bid_price s = None \<Longrightarrow> is_zero (subspan bs 8 8)" "bs_bid_price s = None \<Longrightarrow> is_zero (subspan bs 16 8)"
    "bs_ask_price s = None \<Longrightarrow> is_zero (subspan bs 24 8)" "bs_ask_price s = None \<Longrightarrow> is_zero (subspan bs 32 8)"
    by (rule is_zeroI; use b in simp)+
  have h: "length bs = 40" "bs ! 0 = 1" "bs ! 4 = (if bs_bid_price s \<noteq> None then 1 else 0)"
    "bs ! 5 = (if bs_ask_price s \<noteq> None then 1 else 0)" using b by blast+
  show ?thesis
    using bid ask z
    by (cases "bs_bid_price s"; cases "bs_ask_price s")
      (simp_all add: h decode_bbo_frame_def kEncodedBboFrameSize_def kBboProtocolVersion_def normal_bbo_def)
qed

text \<open>
  A best-bid-and-offer snapshot survives its frame, up to the quantity of an absent side; an accepted frame is
  the encoding of the snapshot it decodes to.
\<close>

theorem bbo_frame_roundtrip:
  "(length out = 40 \<and> pred_option int64_range (bs_bid_price s) \<and> pred_option int64_range (bs_ask_price s) \<longrightarrow>
      decode_bbo_frame (snd (encode_bbo_frame s out)) = Inr (normal_bbo s)) \<and>
   (length out = 40 \<and> decode_bbo_frame inp = Inr t \<longrightarrow> encode_bbo_frame t out = (BF_None, inp))"
proof (intro conjI impI; elim conjE)
  assume a: "length out = 40" "pred_option int64_range (bs_bid_price s)" "pred_option int64_range (bs_ask_price s)"
  show "decode_bbo_frame (snd (encode_bbo_frame s out)) = Inr (normal_bbo s)"
    by (rule encode_bbo_bytes [OF a(1), of s]) (use bbo_bytes_decode a in auto)
next
  assume a: "length out = 40" "decode_bbo_frame inp = Inr t"
  show "encode_bbo_frame t out = (BF_None, inp)"
    by (rule encode_bbo_bytes [OF a(1), of t]) (use bbo_bytes_unique decode_bbo_bytes [OF a(2)] in blast)
qed

theorem bbo_frame_roundtrip_witness:
  "decode_bbo_frame (snd (encode_bbo_frame
     \<lparr>bs_bid_price = Some (- 3), bs_bid_quantity = 7, bs_ask_price = None, bs_ask_quantity = 9\<rparr> (replicate 40 0))) =
   Inr \<lparr>bs_bid_price = Some (- 3), bs_bid_quantity = 7, bs_ask_price = None, bs_ask_quantity = 0\<rparr>"
proof -
  have "int64_range (- 3)" by (simp add: int64_range_def kInt64Min_def kInt64Max_def)
  then show ?thesis
    using bbo_frame_roundtrip [of "replicate 40 0" "\<lparr>bs_bid_price = Some (- 3), bs_bid_quantity = 7, bs_ask_price = None, bs_ask_quantity = 9\<rparr>"]
    by (simp add: normal_bbo_def)
qed

section \<open>Market data frames\<close>

definition md_bytes :: "market_data_message \<Rightarrow> u8 list \<Rightarrow> bool" where
  "md_bytes m bs \<longleftrightarrow> length bs = 64 \<and> bs ! 0 = 1 \<and> bs ! 1 = md_type_byte (md_type m) \<and> bs ! 2 = side_byte (md_side m) \<and>
     (\<forall>i < 5. bs ! (3 + i) = 0) \<and> (\<forall>i < 8. bs ! (8 + i) = byte_at (md_sequence m) i) \<and>
     (\<forall>i < 8. bs ! (16 + i) = byte_at (md_order_id m) i) \<and> (\<forall>i < 8. bs ! (24 + i) = byte_at (md_secondary_order_id m) i) \<and>
     (\<forall>i < 8. bs ! (32 + i) = byte_at (price_bits (md_price m)) i) \<and> (\<forall>i < 8. bs ! (40 + i) = byte_at (md_quantity m) i) \<and>
     (\<forall>i < 8. bs ! (48 + i) = byte_at (md_secondary_quantity m) i) \<and> (\<forall>i < 4. bs ! (56 + i) = byte_at (md_order_count m) i) \<and>
     (\<forall>i < 4. bs ! (60 + i) = 0)"

lemma md_type_of_byte_inv: "md_type_byte (md_type_of_byte b) = b" "md_is_valid_type t \<Longrightarrow> md_type_of_byte (md_type_byte t) = t"
  by (auto simp: md_type_of_byte_def md_is_valid_type_def)

lemma is_canonicalD: "is_canonical m \<Longrightarrow> md_is_valid_type (md_type m) \<and> is_valid_side (md_side m)"
  by (auto simp: is_canonical_def md_is_valid_type_def has_buy_side_sentinel_def is_valid_side_def split: market_data_message_type.splits)

lemma noncanonical_error_neq [simp]: "noncanonical_error m \<noteq> MF_None"
  by (simp add: noncanonical_error_def)

lemma encode_md_bytes:
  assumes "length out = 64" "is_canonical m"
  obtains bs where "encode_market_data_frame m out = (MF_None, bs)" "md_bytes m bs"
proof -
  define o1 where "o1 = (replicate 64 (0::u8))[0 := 1, 1 := md_type_byte (md_type m), 2 := side_byte (md_side m)]"
  define bs where "bs = encode_little_endian (md_order_count m) 56 (encode_little_endian (md_secondary_quantity m) 48
    (encode_little_endian (md_quantity m) 40 (encode_little_endian (price_bits (md_price m)) 32
    (encode_little_endian (md_secondary_order_id m) 24 (encode_little_endian (md_order_id m) 16
    (encode_little_endian (md_sequence m) 8 o1))))))"
  have l1: "length o1 = 64" by (simp add: o1_def)
  have n1: "o1 ! k = (if k = 2 then side_byte (md_side m) else if k = 1 then md_type_byte (md_type m) else if k = 0 then 1 else 0)"
    if "k < 64" for k using that by (simp add: o1_def nth_list_update)
  have "encode_market_data_frame m out = (MF_None, bs)"
    using assms is_canonicalD [OF assms(2)]
    by (simp add: encode_market_data_frame_def kEncodedMarketDataFrameSize_def kMarketDataProtocolVersion_def bs_def o1_def Let_def)
  moreover have "md_bytes m bs"
    unfolding md_bytes_def by (simp add: bs_def encode_u64_nth encode_u32_nth l1 n1)
  ultimately show thesis by (rule that)
qed

lemma decode_md_bytes:
  assumes "decode_market_data_frame inp = Inr m"
  shows "md_bytes m inp" "is_canonical m"
proof -
  note d = assms [unfolded decode_market_data_frame_def kEncodedMarketDataFrameSize_def kMarketDataProtocolVersion_def Let_def]
  have h: "length inp = 64" "inp ! 0 = 1" and z: "is_zero (subspan inp 3 5)" "is_zero (subspan inp 60 4)"
    and m: "m = \<lparr>md_sequence = decode_little_endian inp 8, md_order_id = decode_little_endian inp 16,
       md_secondary_order_id = decode_little_endian inp 24, md_price = bits_price (decode_little_endian inp 32),
       md_quantity = decode_little_endian inp 40, md_secondary_quantity = decode_little_endian inp 48,
       md_order_count = decode_little_endian inp 56, md_type = md_type_of_byte (inp ! 1), md_side = side_of_byte (inp ! 2)\<rparr>"
    using d by (simp_all split: if_splits)
  show "is_canonical m" using d by (auto split: if_splits)
  have "\<forall>i < 5. inp ! (3 + i) = 0" "\<forall>i < 4. inp ! (60 + i) = 0"
    using is_zero_nth [OF z(1)] is_zero_nth [OF z(2)] h(1) by auto
  then show "md_bytes m inp"
    unfolding md_bytes_def m by (simp add: h md_type_of_byte_inv side_of_byte_inv bits_price_inv byte_at_decode)
qed

lemma md_bytes_unique:
  assumes "md_bytes m bs" "md_bytes m cs"
  shows "bs = cs"
proof (rule segments_eq [where segs = "[(0, 1), (1, 1), (2, 1), (3, 5), (8, 8), (16, 8), (24, 8), (32, 8), (40, 8), (48, 8), (56, 4), (60, 4)]" and n = 64])
  fix off len i :: nat
  assume "(off, len) \<in> set [(0, 1), (1, 1), (2, 1), (3, 5), (8, 8), (16, 8), (24, 8), (32, 8), (40, 8), (48, 8), (56, 4), (60, 4)]" "i < len"
  then show "bs ! (off + i) = cs ! (off + i)" using assms unfolding md_bytes_def by (elim conjE) auto
qed (use assms in \<open>simp_all add: md_bytes_def\<close>)

lemma md_bytes_decode:
  assumes "md_bytes m bs" and c: "is_canonical m" and rng: "int64_range (md_price m)"
  shows "decode_market_data_frame bs = Inr m"
proof -
  note b = assms(1) [unfolded md_bytes_def]
  have h: "length bs = 64" "bs ! 0 = 1" "bs ! 1 = md_type_byte (md_type m)" "bs ! 2 = side_byte (md_side m)" using b by blast+
  have f: "decode_little_endian bs 8 = md_sequence m" "decode_little_endian bs 16 = md_order_id m"
    "decode_little_endian bs 24 = md_secondary_order_id m" "decode_little_endian bs 32 = price_bits (md_price m)"
    "decode_little_endian bs 40 = md_quantity m" "decode_little_endian bs 48 = md_secondary_quantity m"
    by (rule decode_u64; use b in blast)+
  have g: "decode_little_endian bs 56 = md_order_count m" by (rule decode_u32) (use b in blast)
  have z: "is_zero (subspan bs 3 5)" "is_zero (subspan bs 60 4)" by (rule is_zeroI; use b in simp)+
  note v = is_canonicalD [OF c]
  have "\<lparr>md_sequence = decode_little_endian bs 8, md_order_id = decode_little_endian bs 16,
      md_secondary_order_id = decode_little_endian bs 24, md_price = bits_price (decode_little_endian bs 32),
      md_quantity = decode_little_endian bs 40, md_secondary_quantity = decode_little_endian bs 48,
      md_order_count = decode_little_endian bs 56, md_type = md_type_of_byte (bs ! 1), md_side = side_of_byte (bs ! 2)\<rparr> = m"
    unfolding f g h using v by (simp add: md_type_of_byte_inv side_of_byte_inv bits_price_inv(2) [OF rng])
  then show ?thesis
    using c v h z md_type_of_byte_inv(2) [of "md_type m"]
    by (simp add: decode_market_data_frame_def kEncodedMarketDataFrameSize_def kMarketDataProtocolVersion_def)
qed

text \<open>
  A canonical market data message survives its frame, the encoder refuses every other message, and an accepted
  frame is the encoding of the message it decodes to.
\<close>

theorem market_data_frame_roundtrip:
  "(length out = 64 \<longrightarrow> (fst (encode_market_data_frame m out) = MF_None \<longleftrightarrow> is_canonical m)) \<and>
   (length out = 64 \<and> is_canonical m \<and> int64_range (md_price m) \<longrightarrow>
      decode_market_data_frame (snd (encode_market_data_frame m out)) = Inr m) \<and>
   (length out = 64 \<and> decode_market_data_frame inp = Inr t \<longrightarrow> encode_market_data_frame t out = (MF_None, inp))"
proof (intro conjI impI; (elim conjE)?)
  show "fst (encode_market_data_frame m out) = MF_None \<longleftrightarrow> is_canonical m" if "length out = 64"
    using that is_canonicalD [of m]
    by (simp add: encode_market_data_frame_def kEncodedMarketDataFrameSize_def Let_def)
next
  assume a: "length out = 64" "is_canonical m" "int64_range (md_price m)"
  show "decode_market_data_frame (snd (encode_market_data_frame m out)) = Inr m"
    by (rule encode_md_bytes [OF a(1,2)]) (use md_bytes_decode a in auto)
next
  assume a: "length out = 64" "decode_market_data_frame inp = Inr t"
  show "encode_market_data_frame t out = (MF_None, inp)"
    by (rule encode_md_bytes [OF a(1) decode_md_bytes(2) [OF a(2)]]) (use md_bytes_unique decode_md_bytes(1) [OF a(2)] in blast)
qed

theorem market_data_frame_roundtrip_witness:
  "decode_market_data_frame (snd (encode_market_data_frame
     \<lparr>md_sequence = 9, md_order_id = 0, md_secondary_order_id = 0, md_price = 105, md_quantity = 30, md_secondary_quantity = 0,
      md_order_count = 2, md_type = MD_Level_Update, md_side = Valid_Side Sell\<rparr> (replicate 64 0))) =
   Inr \<lparr>md_sequence = 9, md_order_id = 0, md_secondary_order_id = 0, md_price = 105, md_quantity = 30, md_secondary_quantity = 0,
      md_order_count = 2, md_type = MD_Level_Update, md_side = Valid_Side Sell\<rparr>"
proof -
  let ?m = "\<lparr>md_sequence = 9, md_order_id = 0, md_secondary_order_id = 0, md_price = 105, md_quantity = 30, md_secondary_quantity = 0,
      md_order_count = 2, md_type = MD_Level_Update, md_side = Valid_Side Sell\<rparr>"
  have "is_canonical ?m" "int64_range (md_price ?m)"
    by (simp_all add: is_canonical_def is_valid_side_def int64_range_def kInt64Min_def kInt64Max_def)
  then show ?thesis using market_data_frame_roundtrip [of "replicate 64 0" ?m] by simp
qed

end
