(* ===== verification/Journal_Properties.thy ===== *)
theory Journal_Properties
  imports Journal Frame_Properties
begin

text \<open>The journal: what its bytes hold, that recovery finds exactly that, and that an append is atomic across a crash.\<close>

section \<open>Record positions\<close>

lemma record_offset_of_nat:
  assumes "i \<le> 1000000"
  shows "record_offset (word_of_nat i) = 64 + 80 * i"
proof -
  have "kJournalHeaderSize + word_of_nat i * kJournalRecordSize = word_of_nat (64 + 80 * i)"
    by (simp add: kJournalHeaderSize_def kJournalRecordSize_def)
  then show ?thesis unfolding record_offset_def using assms by (simp add: unat_of_nat_u64 del: of_nat_add of_nat_mult)
qed

lemma unat_kJournalRecordSize [simp]: "unat kJournalRecordSize = 80"
  by (simp add: kJournalRecordSize_def)

lemma length_subspan [simp]: "off + n \<le> length bs \<Longrightarrow> length (subspan bs off n) = n"
  by (simp add: subspan_def)

lemma subspan_nth: "off + n \<le> length bs \<Longrightarrow> i < n \<Longrightarrow> subspan bs off n ! i = bs ! (off + i)"
  by (simp add: subspan_def)

lemma subspan_cong:
  "off + n \<le> length bs \<Longrightarrow> length cs = length bs \<Longrightarrow> (\<And>i. i < n \<Longrightarrow> bs ! (off + i) = cs ! (off + i)) \<Longrightarrow> subspan bs off n = subspan cs off n"
  by (rule nth_equalityI) (simp_all add: subspan_nth)

lemma record_span_nth:
  assumes "length m = 64 + 80 * cap" "i < cap" "cap \<le> 1000000" "k < 80"
  shows "record_span m (word_of_nat i) ! k = m ! (64 + 80 * i + k)"
  unfolding record_span_def using assms by (simp add: record_offset_of_nat subspan_nth)

lemma length_record_span:
  assumes "length m = 64 + 80 * cap" "i < cap" "cap \<le> 1000000"
  shows "length (record_span m (word_of_nat i)) = 80"
  unfolding record_span_def using assms by (simp add: record_offset_of_nat)

lemma slots_apart: "i \<noteq> j \<Longrightarrow> k < 80 \<Longrightarrow> \<not> (64 + 80 * i \<le> 64 + 80 * j + k \<and> 64 + 80 * j + k < 64 + 80 * i + 80)" for i j k :: nat
  by presburger

lemma store_record:
  assumes m: "length m = 64 + 80 * cap" "i < cap" "cap \<le> 1000000" and r: "length r = 80"
  shows "length (store_record m (word_of_nat i) r) = 64 + 80 * cap" "record_span (store_record m (word_of_nat i) r) (word_of_nat i) = r"
    "j < cap \<Longrightarrow> j \<noteq> i \<Longrightarrow> record_span (store_record m (word_of_nat i) r) (word_of_nat j) = record_span m (word_of_nat j)"
    "take 64 (store_record m (word_of_nat i) r) = take 64 m"
    "k < length m \<Longrightarrow> store_record m (word_of_nat i) r ! k = (if 64 + 80 * i \<le> k \<and> k < 64 + 80 * i + 80 then r ! (k - (64 + 80 * i)) else m ! k)"
proof -
  have o: "record_offset (word_of_nat i) = 64 + 80 * i" by (rule record_offset_of_nat) (use m in simp)
  show len: "length (store_record m (word_of_nat i) r) = 64 + 80 * cap"
    unfolding store_record_def o using m r by simp
  show nth: "store_record m (word_of_nat i) r ! k = (if 64 + 80 * i \<le> k \<and> k < 64 + 80 * i + 80 then r ! (k - (64 + 80 * i)) else m ! k)"
    if "k < length m" for k
    unfolding store_record_def o using that m r by (auto simp: nth_append)
  show "record_span (store_record m (word_of_nat i) r) (word_of_nat i) = r"
    by (rule nth_equalityI) (use m r len in \<open>simp_all add: length_record_span record_span_nth nth\<close>)
  show "record_span (store_record m (word_of_nat i) r) (word_of_nat j) = record_span m (word_of_nat j)" if j: "j < cap" "j \<noteq> i"
  proof (rule nth_equalityI)
    fix k assume "k < length (record_span (store_record m (word_of_nat i) r) (word_of_nat j))"
    then have k: "k < 80" using j m len by (simp add: length_record_span)
    have no: "\<not> (64 + 80 * i \<le> 64 + 80 * j + k \<and> 64 + 80 * j + k < 64 + 80 * i + 80)" by (rule slots_apart) (use j k in auto)
    have b: "64 + 80 * j + k < length m" using j k m by simp
    have "store_record m (word_of_nat i) r ! (64 + 80 * j + k) = m ! (64 + 80 * j + k)"
      unfolding nth [OF b] by (rule if_not_P [OF no])
    then show "record_span (store_record m (word_of_nat i) r) (word_of_nat j) ! k = record_span m (word_of_nat j) ! k"
      using j k m len by (simp add: record_span_nth)
  qed (use j m len in \<open>simp add: length_record_span\<close>)
  show "take 64 (store_record m (word_of_nat i) r) = take 64 m"
    unfolding store_record_def o using m by simp
qed

section \<open>The record of a command\<close>

definition record_layout :: "sequenced_command \<Rightarrow> u8 list \<Rightarrow> u8 list \<Rightarrow> bool" where
  "record_layout c body rec \<longleftrightarrow> length rec = 80 \<and> (\<forall>i < 4. rec ! i = 0) \<and> (\<forall>i < 8. rec ! (4 + i) = byte_at (sc_sequence c) i) \<and>
     (\<forall>i < 8. rec ! (12 + i) = byte_at (sc_logical_time c) i) \<and> (\<forall>i < 4. rec ! (20 + i) = byte_at (36 :: u32) i) \<and>
     (\<forall>i < 36. rec ! (24 + i) = body ! i) \<and> (\<forall>i < 4. rec ! (60 + i) = byte_at (journal_crc32c (subspan rec 4 56)) i) \<and>
     (\<forall>i < 16. rec ! (64 + i) = 0)"

lemma prepared_record:
  assumes v: "validate_command_payload (sc_payload c) = CV_None"
  obtains rec body where "prepare_record c = (CC_None, rec)"
    "encode_command_payload (sc_payload c) (replicate 36 0) = (CC_None, body)" "length body = 36" "record_layout c body rec"
proof -
  define r0 where "r0 = replicate 80 (0::u8)"
  define r3 where "r3 = write_u32 (write_u64 (write_u64 r0 4 (sc_sequence c)) 12 (sc_logical_time c)) 20 36"
  have l0: "length r0 = 80" and n0: "k < 80 \<Longrightarrow> r0 ! k = 0" for k by (simp_all add: r0_def)
  have l3: "length r3 = 80" by (simp add: r3_def l0)
  have n3: "k < 80 \<Longrightarrow> r3 ! k = (if 20 \<le> k \<and> k < 24 then byte_at (36::u32) (k - 20) else if 12 \<le> k \<and> k < 20 then byte_at (sc_logical_time c) (k - 12)
    else if 4 \<le> k \<and> k < 12 then byte_at (sc_sequence c) (k - 4) else 0)" for k
    by (simp add: r3_def write_words_nth l0 n0)
  have z: "subspan r3 24 36 = replicate 36 0"
    by (rule nth_equalityI) (simp_all add: l3 subspan_nth n3)
  obtain body where b: "encode_command_payload (sc_payload c) (replicate 36 0) = (CC_None, body)" "length body = 36"
    by (rule encode_nth [of "replicate 36 0", OF _ v]) auto
  define r4 where "r4 = take 24 r3 @ body @ drop 60 r3"
  have l4: "length r4 = 80" using l3 b(2) by (simp add: r4_def)
  have n4: "k < 80 \<Longrightarrow> r4 ! k = (if 24 \<le> k \<and> k < 60 then body ! (k - 24) else r3 ! k)" for k
    using l3 b(2) by (auto simp: r4_def nth_append)
  define rec where "rec = write_u32 r4 60 (journal_crc32c (subspan r4 4 56))"
  have l: "length rec = 80" using l4 by (simp add: rec_def)
  have n: "k < 80 \<Longrightarrow> rec ! k = (if 60 \<le> k \<and> k < 64 then byte_at (journal_crc32c (subspan r4 4 56)) (k - 60) else r4 ! k)" for k
    using l4 by (simp add: rec_def write_words_nth)
  have s: "subspan rec 4 56 = subspan r4 4 56" by (rule subspan_cong) (simp_all add: l l4 n)
  have p: "prepare_record c = (CC_None, rec)"
    using z b(1) by (simp add: prepare_record_def Let_def kEncodedCommandPayloadSize_def rec_def r4_def r3_def r0_def)
  show thesis
    by (rule that [OF p b]) (simp add: record_layout_def l n n4 n3 s)
qed

lemma nth_committed:
  assumes "length rec = 80" "k < 80"
  shows "write_u32 rec 0 kCommittedMarker ! k = (if k < 4 then byte_at kCommittedMarker k else rec ! k)"
  using assms by (simp add: write_words_nth)

lemma committed_record:
  assumes v: "validate_command_payload (sc_payload c) = CV_None" and rng: "int64_range (cp_price_ticks (sc_payload c))"
  obtains rec where "prepare_record c = (CC_None, rec)" "length rec = 80" "\<And>i. i < 4 \<Longrightarrow> rec ! i = 0"
    "decode_record (write_u32 rec 0 kCommittedMarker) = Inr c"
proof -
  obtain rec body where p: "prepare_record c = (CC_None, rec)"
    and b: "encode_command_payload (sc_payload c) (replicate 36 0) = (CC_None, body)" "length body = 36" and lay: "record_layout c body rec"
    by (rule prepared_record [OF v])
  have r: "length rec = 80" and n0: "\<And>i. i < 4 \<Longrightarrow> rec ! i = 0" using lay by (auto simp: record_layout_def)
  note n = lay [unfolded record_layout_def]
  let ?r = "write_u32 rec 0 kCommittedMarker"
  have l: "length ?r = 80" using r by simp
  note nc = nth_committed [OF r]
  have "read_u32 ?r 0 = kCommittedMarker" "read_u32 ?r 20 = 36" "read_u32 ?r 60 = journal_crc32c (subspan rec 4 56)"
    by (rule read_words(1); use n in \<open>simp add: nc\<close>)+
  moreover have "read_u64 ?r 4 = sc_sequence c" "read_u64 ?r 12 = sc_logical_time c" by (rule read_words(2); use n in \<open>simp add: nc\<close>)+
  moreover have "is_zero (drop 64 ?r)" using n by (auto simp: is_zero_def in_set_conv_nth l nc)
  moreover have "subspan ?r 4 56 = subspan rec 4 56" by (rule subspan_cong) (simp_all add: r nc)
  moreover have "subspan ?r 24 36 = body" by (rule nth_equalityI) (use n in \<open>simp_all add: l b(2) subspan_nth nc\<close>)
  moreover have "decode_command_payload body = Inr (sc_payload c)" using encode_decode [of "replicate 36 0" "sc_payload c", OF _ v rng] b(1) by simp
  ultimately have "decode_record ?r = Inr c" by (simp add: decode_record_def kEncodedCommandPayloadSize_def)
  with p r n0 show thesis by (rule that)
qed

section \<open>What an image holds\<close>

definition image_holds :: "u8 list \<Rightarrow> nat \<Rightarrow> u64 \<Rightarrow> sequenced_command list \<Rightarrow> bool" where
  "image_holds m cap base cs \<longleftrightarrow> length m = 64 + 80 * cap \<and> cap \<le> 1000000 \<and> length cs \<le> cap \<and>
     (\<forall>i < length cs. decode_record (record_span m (word_of_nat i)) = Inr (cs ! i) \<and> sc_sequence (cs ! i) = base + word_of_nat i) \<and>
     sorted (map sc_logical_time cs) \<and> (\<forall>i. length cs \<le> i \<and> i < cap \<longrightarrow> record_marker m i = 0)"

definition last_time :: "sequenced_command list \<Rightarrow> u64" where
  "last_time cs = (if cs = [] then 0 else sc_logical_time (last cs))"

lemma decode_marker: "decode_record r = Inr c \<Longrightarrow> read_u32 r 0 = kCommittedMarker"
  by (auto simp: decode_record_def split: if_splits)

lemma marker_nonzero: "kCommittedMarker \<noteq> 0"
  by (simp add: kCommittedMarker_def)

lemma last_time_take: "i \<le> length cs \<Longrightarrow> last_time (take i cs) = (if i = 0 then 0 else sc_logical_time (cs ! (i - 1)))"
  by (cases cs) (auto simp: last_time_def last_conv_nth min_def)

lemma recover_loop_holds:
  assumes h: "image_holds m cap base cs"
  shows "i \<le> length cs \<Longrightarrow> recover_loop m cap base i (word_of_nat i) (last_time (take i cs)) = (JE_None, word_of_nat (length cs), last_time cs)"
proof (induction "length cs - i" arbitrary: i)
  case 0
  then have i: "i = length cs" by simp
  show ?case
    using h unfolding i by (subst recover_loop.simps) (auto simp: image_holds_def list_all_iff Let_def)
next
  case (Suc n)
  then have i: "i < length cs" by simp
  then have d: "decode_record (record_span m (word_of_nat i)) = Inr (cs ! i)" "sc_sequence (cs ! i) = base + word_of_nat i" "i < cap"
    using h by (auto simp: image_holds_def)
  have mk: "record_marker m i = kCommittedMarker" using decode_marker [OF d(1)] by (simp add: record_marker_def)
  have t: "\<not> sc_logical_time (cs ! i) < last_time (take i cs)"
    using h i sorted_nth_mono [of "map sc_logical_time cs" "i - 1" i] by (auto simp: image_holds_def last_time_take not_less)
  have n: "last_time (take (Suc i) cs) = sc_logical_time (cs ! i)" using i by (subst last_time_take) auto
  have "recover_loop m cap base i (word_of_nat i) (last_time (take i cs)) =
      recover_loop m cap base (Suc i) (word_of_nat (Suc i)) (last_time (take (Suc i) cs))"
    by (subst recover_loop.simps) (simp add: d mk t n marker_nonzero add.commute)
  then show ?case using Suc.hyps(1) [of "Suc i"] Suc.hyps(2) i by simp
qed

lemma recover_holds:
  assumes "image_holds m (unat cap) base cs"
  shows "recover (make_journal d m cap base pid) m =
    (JE_None, (make_journal d m cap base pid)\<lparr>j_size := word_of_nat (length cs), j_last_logical_time := last_time cs\<rparr>)"
  using recover_loop_holds [OF assms, of 0] by (simp add: recover_def make_journal_def last_time_def)

text \<open>Recovery accepts nothing else.\<close>

lemma sorted_le_last: "sorted xs \<Longrightarrow> x \<in> set xs \<Longrightarrow> x \<le> last xs"
  by (induction xs) auto

lemma recover_loop_sound:
  assumes "recover_loop m cap base i (word_of_nat i) (last_time cs) = (JE_None, sz, t)"
    and "length m = 64 + 80 * cap" "cap \<le> 1000000" "length cs = i" "i \<le> cap" "sorted (map sc_logical_time cs)"
    and "\<forall>k < length cs. decode_record (record_span m (word_of_nat k)) = Inr (cs ! k) \<and> sc_sequence (cs ! k) = base + word_of_nat k"
  shows "\<exists>ds. image_holds m cap base ds \<and> sz = word_of_nat (length ds) \<and> t = last_time ds"
  using assms
proof (induction "cap - i" arbitrary: i cs)
  case 0
  then have "i = cap" by simp
  then have "image_holds m cap base cs" using 0 by (auto simp: image_holds_def)
  moreover have "sz = word_of_nat (length cs) \<and> t = last_time cs" using 0 \<open>i = cap\<close> by (simp add: recover_loop.simps)
  ultimately show ?case by blast
next
  case (Suc n)
  then have i: "i < cap" by simp
  note r = Suc.prems(1) [unfolded recover_loop.simps [of m cap base i]]
  show ?case
  proof (cases "record_marker m i = 0")
    case True
    then have "list_all (\<lambda>k. record_marker m k = 0) [i + 1..<cap]" "sz = word_of_nat i" "t = last_time cs"
      using r i by (auto split: if_splits)
    moreover have "record_marker m k = 0" if "i \<le> k" "k < cap" for k
      using that True calculation(1) by (cases "k = i") (auto simp: list_all_iff)
    ultimately have "image_holds m cap base cs \<and> sz = word_of_nat (length cs) \<and> t = last_time cs"
      using Suc.prems by (auto simp: image_holds_def)
    then show ?thesis by blast
  next
    case False
    then obtain c where c: "decode_record (record_span m (word_of_nat i)) = Inr c" "sc_sequence c = base + word_of_nat i"
      "\<not> sc_logical_time c < last_time cs"
      "recover_loop m cap base (i + 1) (word_of_nat i + 1) (sc_logical_time c) = (JE_None, sz, t)"
      using r i by (auto simp: Let_def split: if_splits sum.splits)
    have "x \<le> sc_logical_time c" if "x \<in> set (map sc_logical_time cs)" for x
    proof -
      have "cs \<noteq> []" using that by auto
      then have "last (map sc_logical_time cs) = last_time cs" by (simp add: last_time_def last_map)
      moreover have "x \<le> last (map sc_logical_time cs)" using that Suc.prems(6)
        by (intro sorted_le_last)
      ultimately show ?thesis using c(3) by simp
    qed
    then have s: "sorted (map sc_logical_time (cs @ [c]))" using Suc.prems(6) by (simp add: sorted_append)
    have "\<forall>k < length (cs @ [c]). decode_record (record_span m (word_of_nat k)) = Inr ((cs @ [c]) ! k) \<and>
        sc_sequence ((cs @ [c]) ! k) = base + word_of_nat k"
      using Suc.prems(4,7) c(1,2) by (auto simp: nth_append less_Suc_eq)
    then show ?thesis
      using Suc.hyps(1) [of "i + 1" "cs @ [c]"] Suc.hyps(2) Suc.prems(2-4) c(4) s i
      by (simp add: last_time_def add.commute)
  qed
qed

section \<open>Appending to an image\<close>

lemma image_spans_cong:
  assumes h: "image_holds m cap base cs" and l: "length m' = length m"
    and same: "\<And>i k. i < cap \<Longrightarrow> i \<noteq> length cs \<Longrightarrow> k < 80 \<Longrightarrow> m' ! (64 + 80 * i + k) = m ! (64 + 80 * i + k)"
    and mark: "length cs < cap \<Longrightarrow> record_marker m' (length cs) = 0"
  shows "image_holds m' cap base cs"
proof -
  have lm: "length m = 64 + 80 * cap" "length m' = 64 + 80 * cap" and c: "cap \<le> 1000000" "length cs \<le> cap"
    using h l by (auto simp: image_holds_def)
  have span: "record_span m' (word_of_nat i) = record_span m (word_of_nat i)" if "i < cap" "i \<noteq> length cs" for i
    by (rule nth_equalityI) (use that lm c same in \<open>simp_all add: length_record_span record_span_nth\<close>)
  have "record_marker m' i = 0" if "length cs \<le> i" "i < cap" for i
    using that mark h span [of i] by (cases "i = length cs") (auto simp: record_marker_def image_holds_def)
  moreover have "decode_record (record_span m' (word_of_nat i)) = decode_record (record_span m (word_of_nat i))" if "i < length cs" for i
    using span [of i] that c by simp
  ultimately show ?thesis using h lm(2) c unfolding image_holds_def by simp
qed

lemma image_mixture:
  assumes h: "image_holds m cap base cs" and n: "length cs < cap" and r: "length rec = 80" "\<And>i. i < 4 \<Longrightarrow> rec ! i = 0"
    and l: "length m' = length m"
    and mix: "\<And>k. k < length m \<Longrightarrow> m' ! k = m ! k \<or> m' ! k = store_record m (word_of_nat (length cs)) rec ! k"
  shows "image_holds m' cap base cs"
proof (rule image_spans_cong [OF h l])
  have m: "length m = 64 + 80 * cap" "cap \<le> 1000000" using h by (auto simp: image_holds_def)
  note st = store_record(5) [OF m(1) n m(2) r(1)]
  fix i k :: nat assume i: "i < cap" "i \<noteq> length cs" "k < 80"
  have b: "64 + 80 * i + k < length m" using i m by simp
  have no: "\<not> (64 + 80 * length cs \<le> 64 + 80 * i + k \<and> 64 + 80 * i + k < 64 + 80 * length cs + 80)"
    by (rule slots_apart) (use i in auto)
  show "m' ! (64 + 80 * i + k) = m ! (64 + 80 * i + k)" using mix [OF b] unfolding st [OF b] if_not_P [OF no] by simp
next
  have m: "length m = 64 + 80 * cap" "cap \<le> 1000000" using h by (auto simp: image_holds_def)
  note st = store_record(5) [OF m(1) n m(2) r(1)]
  have z: "m ! (64 + 80 * length cs + i) = 0" if "i < 4" for i
  proof -
    have "read_u32 (record_span m (word_of_nat (length cs))) 0 = 0" using h n by (simp add: image_holds_def record_marker_def)
    then have "byte_at (0 :: u32) i = record_span m (word_of_nat (length cs)) ! (0 + i)"
      using byte_at_read(1) [OF that, of "record_span m (word_of_nat (length cs))" 0] by simp
    then show ?thesis using m n that by (simp add: record_span_nth byte_at_def)
  qed
  have "m' ! (64 + 80 * length cs + i) = 0" if "i < 4" for i
    using mix [of "64 + 80 * length cs + i"] st [of "64 + 80 * length cs + i"] z [OF that] r(2) [OF that] that m n by auto
  then have "read_u32 (record_span m' (word_of_nat (length cs))) 0 = 0"
    using m n l by (intro read_words(1)) (simp add: record_span_nth byte_at_def)
  then show "record_marker m' (length cs) = 0" by (simp add: record_marker_def)
qed

lemma image_commit:
  assumes h: "image_holds m cap base cs" and n: "length cs < cap" and r: "length rec = 80" "decode_record rec = Inr c"
    and c: "sc_sequence c = base + word_of_nat (length cs)" "\<not> sc_logical_time c < last_time cs"
  shows "image_holds (store_record m (word_of_nat (length cs)) rec) cap base (cs @ [c])"
proof -
  have m: "length m = 64 + 80 * cap" "cap \<le> 1000000" using h by (auto simp: image_holds_def)
  note st = store_record [OF m(1) n m(2) r(1)]
  have dec: "decode_record (record_span (store_record m (word_of_nat (length cs)) rec) (word_of_nat i)) = Inr ((cs @ [c]) ! i) \<and>
      sc_sequence ((cs @ [c]) ! i) = base + word_of_nat i" if "i < length (cs @ [c])" for i
    using that h n r(2) c(1) st(2) st(3) [of i] by (cases "i = length cs") (auto simp: image_holds_def nth_append)
  have "x \<le> sc_logical_time c" if "x \<in> set (map sc_logical_time cs)" for x
  proof -
    have "cs \<noteq> []" using that by auto
    then have "last (map sc_logical_time cs) = last_time cs" by (simp add: last_time_def last_map)
    moreover have "x \<le> last (map sc_logical_time cs)" by (rule sorted_le_last [OF _ that]) (use h in \<open>simp add: image_holds_def\<close>)
    ultimately show ?thesis using c(2) by simp
  qed
  then have s: "sorted (map sc_logical_time (cs @ [c]))" using h by (simp add: sorted_append image_holds_def)
  have mk: "record_marker (store_record m (word_of_nat (length cs)) rec) i = 0" if "length (cs @ [c]) \<le> i" "i < cap" for i
    using that h st(3) [of i] by (auto simp: image_holds_def record_marker_def)
  show ?thesis unfolding image_holds_def using st(1) m(2) n dec s mk by auto
qed

section \<open>The open journal\<close>

text \<open>
  The journal acknowledges \<open>cs\<close> and its bytes hold \<open>xs\<close>, which has one command more when the durability of the
  last one is not known.
\<close>

definition journal_inv :: "journal \<Rightarrow> sequenced_command list \<Rightarrow> sequenced_command list \<Rightarrow> bool" where
  "journal_inv j cs xs \<longleftrightarrow> (\<exists>m. j_mapping j = Some m \<and> image_holds m (unat (j_capacity j)) (j_base_sequence j) xs \<and>
       parse_header (take 64 m) = Some (j_capacity j, j_base_sequence j)) \<and>
     j_capacity j \<noteq> 0 \<and> j_size j = word_of_nat (length cs) \<and> j_last_logical_time j = last_time cs \<and>
     (if j_writer_poisoned j then \<exists>c. xs = cs @ [c] else xs = cs)"

lemma journal_inv_prefix:
  assumes "journal_inv j cs xs"
  shows "length cs \<le> length xs" "length xs \<le> unat (j_capacity j)" "unat (j_capacity j) \<le> 1000000" "i < length cs \<Longrightarrow> xs ! i = cs ! i"
  using assms by (auto simp: journal_inv_def image_holds_def nth_append split: if_splits)

lemma append_room:
  assumes "journal_inv j cs xs" "append_refused r j c = JE_None"
  shows "xs = cs" "\<not> j_writer_poisoned j" "length cs < unat (j_capacity j)" "validate_command_payload (sc_payload c) = CV_None"
    "sc_sequence c = j_base_sequence j + word_of_nat (length cs)" "\<not> sc_logical_time c < last_time cs"
proof -
  note a = assms(2) [unfolded append_refused_def]
  show p: "\<not> j_writer_poisoned j" "validate_command_payload (sc_payload c) = CV_None" using a by (auto split: if_splits)
  show "xs = cs" using assms(1) p by (simp add: journal_inv_def)
  have "j_size j \<noteq> j_capacity j" using a by (auto split: if_splits)
  then have "word_of_nat (length cs) \<noteq> j_capacity j" using assms(1) by (simp add: journal_inv_def)
  then have "length cs \<noteq> unat (j_capacity j)" by auto
  then show "length cs < unat (j_capacity j)" using journal_inv_prefix(1,2) [OF assms(1)] by simp
  show "sc_sequence c = j_base_sequence j + word_of_nat (length cs)" "\<not> sc_logical_time c < last_time cs"
    using a assms(1) by (auto simp: journal_inv_def split: if_splits)
qed

lemma append_cases:
  assumes inv: "journal_inv j cs xs" and ok: "append_refused r j c = JE_None" and rng: "int64_range (cp_price_ticks (sc_payload c))"
  obtains m rec where "j_mapping j = Some m" "prepare_record c = (CC_None, rec)" "length rec = 80" "\<And>i. i < 4 \<Longrightarrow> rec ! i = 0"
    "image_holds m (unat (j_capacity j)) (j_base_sequence j) cs"
    "image_holds (store_record m (j_size j) (write_u32 rec 0 kCommittedMarker)) (unat (j_capacity j)) (j_base_sequence j) (cs @ [c])"
    "take 64 (store_record m (j_size j) (write_u32 rec 0 kCommittedMarker)) = take 64 m"
    "take 64 (store_record m (j_size j) rec) = take 64 m"
    "image_holds (store_record m (j_size j) rec) (unat (j_capacity j)) (j_base_sequence j) cs"
proof -
  note a = append_room [OF inv ok]
  obtain m where m: "j_mapping j = Some m" "image_holds m (unat (j_capacity j)) (j_base_sequence j) cs"
    using inv a(1) by (auto simp: journal_inv_def)
  obtain rec where r: "prepare_record c = (CC_None, rec)" "length rec = 80" "\<And>i. i < 4 \<Longrightarrow> rec ! i = 0"
    "decode_record (write_u32 rec 0 kCommittedMarker) = Inr c" by (rule committed_record [OF a(4) rng]) blast
  have sz: "j_size j = word_of_nat (length cs)" using inv by (simp add: journal_inv_def)
  have lm: "length m = 64 + 80 * unat (j_capacity j)" "unat (j_capacity j) \<le> 1000000" using m(2) by (auto simp: image_holds_def)
  have lw: "length (write_u32 rec 0 kCommittedMarker) = 80" using r(2) by simp
  show thesis
  proof (rule that [OF m(1) r(1,2) _ m(2), unfolded sz])
    show "image_holds (store_record m (word_of_nat (length cs)) (write_u32 rec 0 kCommittedMarker)) (unat (j_capacity j)) (j_base_sequence j) (cs @ [c])"
      by (rule image_commit [OF m(2) a(3) lw r(4) a(5,6)])
    show "image_holds (store_record m (word_of_nat (length cs)) rec) (unat (j_capacity j)) (j_base_sequence j) cs"
      by (rule image_mixture [OF m(2) a(3) r(2,3)]) (use store_record(1) [OF lm(1) a(3) lm(2) r(2)] lm(1) in auto)
  qed (use store_record(4) [OF lm(1) a(3) lm(2)] lw r in simp_all)
qed

end
