(* ===== verification/Journal_History.thy ===== *)
theory Journal_History
  imports Journal_Properties
begin

text \<open>Histories of journal operations: creation, appends with any outcome of the system calls, a crash, reopening.\<close>

section \<open>The header\<close>

lemma length_kMagic: "length kMagic = 8"
  by (simp add: kMagic_def)

lemma initial_mapping_nth:
  assumes "64 \<le> n" "k < n"
  shows "initial_mapping n cap base ! k = (if k < 8 then kMagic ! k else if k < 12 then byte_at kJournalFormatVersion (k - 8)
    else if k < 16 then byte_at (64 :: u32) (k - 12) else if k < 20 then byte_at (80 :: u32) (k - 16)
    else if k < 28 then byte_at cap (k - 20) else if k < 36 then byte_at base (k - 28) else 0)"
proof -
  define m0 where "m0 = write_magic (replicate n (0::u8))"
  have "length m0 = n" unfolding m0_def write_magic_def using length_write [where off = 0 and f = "\<lambda>i. kMagic ! i"] by simp
  moreover have "m0 ! k = (if k < 8 then kMagic ! k else 0)" if "k < n" for k
    unfolding m0_def write_magic_def
    using write_nth [of 0 8 "replicate n 0" "\<lambda>i. kMagic ! i" k] assms(1) that by (simp add: length_kMagic)
  ultimately show ?thesis
    unfolding initial_mapping_def using assms
    by (simp add: Let_def write_words_nth kJournalHeaderSize_def kJournalRecordSize_def flip: m0_def)
qed

lemma length_initial_mapping [simp]: "length (initial_mapping n cap base) = n"
  using length_write [where off = 0 and f = "\<lambda>i. kMagic ! i"] by (simp add: initial_mapping_def Let_def write_magic_def)

lemma initial_header:
  assumes "64 \<le> n" "cap \<noteq> 0" "base \<noteq> 0" "\<not> cap - 1 > - 1 - base"
  shows "parse_header (take 64 (initial_mapping n cap base)) = Some (cap, base)"
proof -
  define h where "h = take 64 (initial_mapping n cap base)"
  have l: "length h = 64" using assms(1) by (simp add: h_def)
  have nth: "k < 64 \<Longrightarrow> h ! k = (if k < 8 then kMagic ! k else if k < 12 then byte_at kJournalFormatVersion (k - 8)
    else if k < 16 then byte_at (64 :: u32) (k - 12) else if k < 20 then byte_at (80 :: u32) (k - 16)
    else if k < 28 then byte_at cap (k - 20) else if k < 36 then byte_at base (k - 28) else 0)" for k
    using assms(1) by (simp add: h_def initial_mapping_nth)
  have "take (length kMagic) h = kMagic"
    by (rule nth_equalityI) (simp_all add: length_kMagic l nth)
  moreover have "read_u32 h 8 = kJournalFormatVersion" "read_u32 h 12 = 64" "read_u32 h 16 = 80" by (rule read_words(1); simp add: nth)+
  moreover have "read_u64 h 20 = cap" "read_u64 h 28 = base" by (rule read_words(2); simp add: nth)+
  moreover have "is_zero (drop 36 h)" using l by (auto simp: is_zero_def in_set_conv_nth nth)
  ultimately show ?thesis
    using assms(2-4) unfolding h_def by (simp add: parse_header_def Let_def kJournalFormatVersion_def kJournalHeaderSize_def kJournalRecordSize_def)
qed

lemma checked_file_size_Some:
  assumes "cap \<noteq> 0" "\<not> cap > kMaximumJournalCapacity"
  shows "checked_file_size cap = Some (64 + 80 * unat cap)" "unat cap \<le> 1000000"
proof -
  show u: "unat cap \<le> 1000000" using assms(2) by (simp add: kMaximumJournalCapacity_def not_less word_le_nat_alt)
  have w: "kJournalHeaderSize + cap * kJournalRecordSize = word_of_nat (64 + 80 * unat cap)"
    by (simp add: kJournalHeaderSize_def kJournalRecordSize_def)
  have s: "unat (kJournalHeaderSize + cap * kJournalRecordSize) = 64 + 80 * unat cap"
    unfolding w using u by (intro unat_of_nat_u64) simp
  have d: "(- 1 - kJournalHeaderSize) div kJournalRecordSize = 230584300921369394" by (simp add: kJournalHeaderSize_def kJournalRecordSize_def)
  have "\<not> cap > (- 1 - kJournalHeaderSize) div kJournalRecordSize" unfolding d using u by (simp add: not_less word_le_nat_alt)
  then show "checked_file_size cap = Some (64 + 80 * unat cap)"
    using assms u by (simp add: checked_file_size_def s)
qed

section \<open>Creation\<close>

lemma empty_image:
  assumes "cap \<le> 1000000"
  shows "image_holds (initial_mapping (64 + 80 * cap) c b) cap base []"
proof -
  have "record_marker (initial_mapping (64 + 80 * cap) c b) i = 0" if "i < cap" for i
    unfolding record_marker_def by (rule read_words(1)) (use that assms in \<open>simp add: record_span_nth initial_mapping_nth byte_at_def\<close>)
  then show ?thesis using assms by (simp add: image_holds_def)
qed

lemma created_inv:
  assumes "create_journal r cap base = Inr j"
  shows "journal_inv j [] []" "j_capacity j = cap" "j_base_sequence j = base" "checked_file_size cap = Some (64 + 80 * unat cap)"
proof -
  note c = assms [unfolded create_journal_def Let_def]
  have a: "cap \<noteq> 0" "\<not> cap > kMaximumJournalCapacity" "base \<noteq> 0" "\<not> cap - 1 > - 1 - base"
    using c by (auto split: if_splits)
  note s = checked_file_size_Some [OF a(1,2)]
  show "checked_file_size cap = Some (64 + 80 * unat cap)" by (rule s(1))
  obtain d where d: "j = make_journal d (initial_mapping (64 + 80 * unat cap) cap base) cap base (cr_pid r)"
    using c s(1) by (auto simp: create_file_def create_failure_def split: if_splits option.splits sum.splits)
  show "j_capacity j = cap" "j_base_sequence j = base" by (simp_all add: d make_journal_def)
  show "journal_inv j [] []"
    unfolding d journal_inv_def make_journal_def using a s(2) initial_header [of "64 + 80 * unat cap" cap base] empty_image [OF s(2)]
    by (simp add: last_time_def)
qed

section \<open>Reopening\<close>

text \<open>The results of the system calls when a file with the given bytes opens without a failure.\<close>

definition opens :: "open_results \<Rightarrow> u8 list \<Rightarrow> bool" where
  "opens r file \<longleftrightarrow> or_path r = None \<and> or_parent r = None \<and> or_lstat r = Inr Regular_File \<and> (\<exists>d. or_open r = Inr d) \<and>
     or_flock r = None \<and> validate_regular_file (or_stat r) = JE_None \<and> or_file r = file \<and>
     (\<exists>st. or_size_stat r = Inr st \<and> st_size st = int (length file)) \<and> or_map r \<and> or_parent_close r"

definition contents_of :: "journal \<Rightarrow> sequenced_command list \<Rightarrow> bool" where
  "contents_of j cs \<longleftrightarrow> j_size j = word_of_nat (length cs) \<and> j_last_logical_time j = last_time cs \<and>
     (\<forall>i < length cs. journal_read j (word_of_nat i) = Inr (cs ! i))"

lemma inv_contents:
  assumes "journal_inv j cs xs" shows "contents_of j cs"
proof -
  note p = journal_inv_prefix [OF assms]
  obtain m where m: "j_mapping j = Some m" "image_holds m (unat (j_capacity j)) (j_base_sequence j) xs"
    and j: "j_size j = word_of_nat (length cs)" "j_last_logical_time j = last_time cs"
    using assms by (auto simp: journal_inv_def)
  have "journal_read j (word_of_nat i) = Inr (cs ! i)" if "i < length cs" for i
  proof -
    have "(word_of_nat i :: u64) < word_of_nat (length cs)"
      using that p(1-3) by (simp add: word_less_nat_alt unat_of_nat_u64)
    then show ?thesis using that p(1,4) m j by (auto simp: journal_read_def image_holds_def)
  qed
  then show ?thesis using j by (simp add: contents_of_def)
qed

lemma reopened:
  assumes o: "opens r file" and h: "image_holds file (unat cap) base cs" "parse_header (take 64 file) = Some (cap, base)"
    and s: "checked_file_size cap = Some (64 + 80 * unat cap)"
  obtains j where "open_journal r = Inr j" "journal_inv j cs cs"
proof -
  obtain d st where d: "or_open r = Inr d" "or_size_stat r = Inr st" "st_size st = int (length file)" using o by (auto simp: opens_def)
  have l: "length file = 64 + 80 * unat cap" using h(1) by (simp add: image_holds_def)
  have cap0: "cap \<noteq> 0" using s by (auto simp: checked_file_size_def)
  let ?j = "(make_journal d file cap base (or_pid r))\<lparr>j_size := word_of_nat (length cs), j_last_logical_time := last_time cs\<rparr>"
  have "open_mapped r d cap base = Inr ?j" using o by (simp add: open_mapped_def opens_def recover_holds [OF h(1)])
  moreover have "\<not> st_size st < 0" by (simp only: d(3) of_nat_less_0_iff simp_thms)
  moreover have "nat (st_size st) = 64 + 80 * unat cap" by (simp only: d(3) nat_int l)
  ultimately have "open_journal r = Inr ?j"
    using o d(1,2) l h(2) s by (simp add: open_journal_def open_file_def opens_def acquire_ownership_lock_def kJournalHeaderSize_def)
  moreover have "journal_inv ?j cs cs" using h cap0 by (simp add: journal_inv_def make_journal_def)
  ultimately show thesis by (rule that)
qed

section \<open>Appends\<close>

lemma append_inv:
  assumes inv: "journal_inv j cs xs" and rng: "int64_range (cp_price_ticks (sc_payload c))"
  shows "append_refused r j c \<noteq> JE_None \<Longrightarrow> journal_append r j c = (append_refused r j c, j)"
    "append_refused r j c = JE_None \<Longrightarrow> case journal_append r j c of (e, j') \<Rightarrow>
       j_capacity j' = j_capacity j \<and> j_base_sequence j' = j_base_sequence j \<and> xs = cs \<and>
       (e = JE_None \<and> journal_inv j' (cs @ [c]) (cs @ [c]) \<or> e = JE_Io_Error \<and> journal_inv j' cs cs \<or>
        e = JE_Commit_Indeterminate \<and> journal_inv j' cs (cs @ [c]) \<and> j_writer_poisoned j')"
proof -
  show "append_refused r j c \<noteq> JE_None \<Longrightarrow> journal_append r j c = (append_refused r j c, j)" by (simp add: journal_append_def)
  assume ok: "append_refused r j c = JE_None"
  note a = append_room [OF inv ok]
  obtain m rec where m: "j_mapping j = Some m" "prepare_record c = (CC_None, rec)"
    and h: "image_holds (store_record m (j_size j) (write_u32 rec 0 kCommittedMarker)) (unat (j_capacity j)) (j_base_sequence j) (cs @ [c])"
      "take 64 (store_record m (j_size j) (write_u32 rec 0 kCommittedMarker)) = take 64 m"
      "take 64 (store_record m (j_size j) rec) = take 64 m"
      "image_holds (store_record m (j_size j) rec) (unat (j_capacity j)) (j_base_sequence j) cs"
    by (rule append_cases [OF inv ok rng]) blast
  have hd: "parse_header (take 64 m) = Some (j_capacity j, j_base_sequence j)" "j_capacity j \<noteq> 0"
    and f: "j_size j = word_of_nat (length cs)" "j_last_logical_time j = last_time cs"
    using inv m(1) by (auto simp: journal_inv_def)
  have t: "last_time (cs @ [c]) = sc_logical_time c" by (simp add: last_time_def)
  show "case journal_append r j c of (e, j') \<Rightarrow>
       j_capacity j' = j_capacity j \<and> j_base_sequence j' = j_base_sequence j \<and> xs = cs \<and>
       (e = JE_None \<and> journal_inv j' (cs @ [c]) (cs @ [c]) \<or> e = JE_Io_Error \<and> journal_inv j' cs cs \<or>
        e = JE_Commit_Indeterminate \<and> journal_inv j' cs (cs @ [c]) \<and> j_writer_poisoned j')"
    using a(1,2) h hd f t
    by (simp add: journal_append_def ok m Let_def journal_inv_def add.commute)
qed

text \<open>The bytes a crash can leave recover to the given commands.\<close>

definition recovers_to :: "u8 list \<Rightarrow> u64 \<Rightarrow> u64 \<Rightarrow> sequenced_command list \<Rightarrow> bool" where
  "recovers_to m cap base cs \<longleftrightarrow> (case recover (make_journal 0 m cap base 0) m of (e, j) \<Rightarrow> e = JE_None \<and> contents_of j cs)"

lemma image_recovers:
  assumes "image_holds m (unat cap) base cs"
  shows "recovers_to m cap base cs"
proof -
  have "length cs \<le> 1000000" using assms by (simp add: image_holds_def)
  then have "\<not> (word_of_nat (length cs) :: u64) \<le> word_of_nat i" if "i < length cs" for i
    using that by (simp add: word_le_nat_alt unat_of_nat_u64)
  then show ?thesis
    unfolding recovers_to_def recover_holds [OF assms]
    using assms by (auto simp: contents_of_def make_journal_def journal_read_def image_holds_def)
qed

text \<open>
  C6. An append is atomic across a crash.  Whatever mixture of old and new bytes of the record under construction
  reaches the disk, recovery finds exactly the commands acknowledged before; once the record is committed, recovery
  finds them with the new command behind; an append that fails before the commit changes nothing that recovery
  sees, and one whose commit is in doubt stops the writer.
\<close>

theorem journal_append_crash_atomic:
  assumes "journal_inv j cs xs" "append_refused r j c = JE_None" "int64_range (cp_price_ticks (sc_payload c))"
  shows "(\<forall>image. length image = length (the (j_mapping j)) \<and>
        (\<forall>k < length image. image ! k = the (j_mapping j) ! k \<or>
           image ! k = store_record (the (j_mapping j)) (j_size j) (snd (prepare_record c)) ! k) \<longrightarrow>
        recovers_to image (j_capacity j) (j_base_sequence j) cs) \<and>
     (case journal_append r j c of (e, j') \<Rightarrow>
        (e = JE_None \<and> contents_of j' (cs @ [c]) \<and> recovers_to (the (j_mapping j')) (j_capacity j) (j_base_sequence j) (cs @ [c])) \<or>
        (e = JE_Io_Error \<and> contents_of j' cs \<and> recovers_to (the (j_mapping j')) (j_capacity j) (j_base_sequence j) cs) \<or>
        (e = JE_Commit_Indeterminate \<and> \<not> journal_writable j' \<and> contents_of j' cs \<and>
           recovers_to (the (j_mapping j')) (j_capacity j) (j_base_sequence j) (cs @ [c])))"
proof (intro conjI allI impI)
  fix image
  assume im: "length image = length (the (j_mapping j)) \<and> (\<forall>k < length image. image ! k = the (j_mapping j) ! k \<or>
           image ! k = store_record (the (j_mapping j)) (j_size j) (snd (prepare_record c)) ! k)"
  note a = append_room [OF assms(1,2)]
  have sz: "j_size j = word_of_nat (length cs)" using assms(1) by (simp add: journal_inv_def)
  obtain m rec where m: "j_mapping j = Some m" "prepare_record c = (CC_None, rec)" "length rec = 80" "\<And>i. i < 4 \<Longrightarrow> rec ! i = 0"
    "image_holds m (unat (j_capacity j)) (j_base_sequence j) cs" by (rule append_cases [OF assms]) blast
  have "image_holds image (unat (j_capacity j)) (j_base_sequence j) cs"
    by (rule image_mixture [OF m(5) a(3) m(3,4)]) (use im m(1,2) sz in auto)
  then show "recovers_to image (j_capacity j) (j_base_sequence j) cs" by (rule image_recovers)
next
  have rec: "journal_inv j' ds ys \<Longrightarrow> recovers_to (the (j_mapping j')) (j_capacity j') (j_base_sequence j') ys" for j' ds ys
    by (auto simp: journal_inv_def intro: image_recovers)
  obtain e j' where ap: "journal_append r j c = (e, j')" by fastforce
  have f: "j_capacity j' = j_capacity j" "j_base_sequence j' = j_base_sequence j"
    and o: "e = JE_None \<and> journal_inv j' (cs @ [c]) (cs @ [c]) \<or> e = JE_Io_Error \<and> journal_inv j' cs cs \<or>
        e = JE_Commit_Indeterminate \<and> journal_inv j' cs (cs @ [c]) \<and> j_writer_poisoned j'"
    using append_inv(2) [OF assms(1,3,2)] unfolding ap by simp_all
  show "case journal_append r j c of (e, j') \<Rightarrow>
        (e = JE_None \<and> contents_of j' (cs @ [c]) \<and> recovers_to (the (j_mapping j')) (j_capacity j) (j_base_sequence j) (cs @ [c])) \<or>
        (e = JE_Io_Error \<and> contents_of j' cs \<and> recovers_to (the (j_mapping j')) (j_capacity j) (j_base_sequence j) cs) \<or>
        (e = JE_Commit_Indeterminate \<and> \<not> journal_writable j' \<and> contents_of j' cs \<and>
           recovers_to (the (j_mapping j')) (j_capacity j) (j_base_sequence j) (cs @ [c]))"
    unfolding ap prod.case using o rec [of j'] inv_contents [of j'] unfolding f by (auto simp: journal_writable_def)
qed

section \<open>Histories\<close>

fun journal_run :: "journal \<Rightarrow> (append_results \<times> sequenced_command) list \<Rightarrow> sequenced_command list \<times> journal" where
  "journal_run j [] = ([], j)"
| "journal_run j ((r, c) # reqs) =
     (let (e, j1) = journal_append r j c; (acks, j2) = journal_run j1 reqs in (if e = JE_None then c # acks else acks, j2))"

lemma journal_run_inv:
  assumes "journal_inv j cs xs" "\<forall>(r, c) \<in> set reqs. int64_range (cp_price_ticks (sc_payload c))" "journal_run j reqs = (acks, j')"
  shows "j_capacity j' = j_capacity j \<and> j_base_sequence j' = j_base_sequence j \<and> (\<exists>ys. journal_inv j' (cs @ acks) ys)"
  using assms
proof (induction reqs arbitrary: j cs xs acks)
  case Nil
  then show ?case by auto
next
  case (Cons q reqs)
  obtain r c where q: "q = (r, c)" by fastforce
  obtain e j1 where ap: "journal_append r j c = (e, j1)" by fastforce
  obtain acks1 where run: "journal_run j1 reqs = (acks1, j')" and acks: "acks = (if e = JE_None then c # acks1 else acks1)"
    using Cons.prems(3) by (auto simp: q ap split: prod.splits)
  have rng: "int64_range (cp_price_ticks (sc_payload c))" "\<forall>(r, c) \<in> set reqs. int64_range (cp_price_ticks (sc_payload c))"
    using Cons.prems(2) by (auto simp: q)
  have step: "j_capacity j1 = j_capacity j \<and> j_base_sequence j1 = j_base_sequence j \<and>
      (\<exists>ys. journal_inv j1 (if e = JE_None then cs @ [c] else cs) ys)"
    using append_inv [OF Cons.prems(1) rng(1), of r] Cons.prems(1) ap by (cases "append_refused r j c = JE_None") auto
  then obtain ys where "journal_inv j1 (if e = JE_None then cs @ [c] else cs) ys" by blast
  from Cons.IH [OF this rng(2) run] show ?case using step by (cases "e = JE_None") (auto simp: acks)
qed

lemma inv_reopens:
  assumes inv: "journal_inv j cs xs" and s: "checked_file_size (j_capacity j) = Some (64 + 80 * unat (j_capacity j))"
    and o: "opens r (the (j_mapping j))"
  shows "\<exists>found j'. open_journal r = Inr j' \<and> journal_inv j' found found \<and>
    (found = cs \<or> \<not> journal_writable j \<and> (\<exists>c. found = cs @ [c]))"
proof -
  obtain m where m: "j_mapping j = Some m" "image_holds m (unat (j_capacity j)) (j_base_sequence j) xs"
      "parse_header (take 64 m) = Some (j_capacity j, j_base_sequence j)"
    and xs: "if j_writer_poisoned j then \<exists>c. xs = cs @ [c] else xs = cs"
    using inv by (auto simp: journal_inv_def)
  have o': "opens r m" using o m(1) by simp
  obtain j' where j: "open_journal r = Inr j'" "journal_inv j' xs xs" by (rule reopened [OF o' m(2,3) s])
  moreover have "xs = cs \<or> \<not> journal_writable j \<and> (\<exists>c. xs = cs @ [c])"
    using xs by (cases "j_writer_poisoned j") (auto simp: journal_writable_def)
  ultimately show ?thesis by blast
qed

lemma inv_numbered:
  assumes "journal_inv j cs xs"
  shows "map sc_sequence cs = map (\<lambda>i. j_base_sequence j + word_of_nat i) [0..<length cs]" "sorted (map sc_logical_time cs)"
proof -
  note p = journal_inv_prefix [OF assms]
  obtain m where m: "image_holds m (unat (j_capacity j)) (j_base_sequence j) xs" and xs: "xs = cs \<or> (\<exists>c. xs = cs @ [c])"
    using assms by (auto simp: journal_inv_def split: if_splits)
  have "sc_sequence (cs ! i) = j_base_sequence j + word_of_nat i" if "i < length cs" for i
  proof -
    have "i < length xs" using p(1) that by simp
    then have "sc_sequence (xs ! i) = j_base_sequence j + word_of_nat i" using m by (simp add: image_holds_def)
    then show ?thesis by (simp add: p(4) [OF that])
  qed
  then show "map sc_sequence cs = map (\<lambda>i. j_base_sequence j + word_of_nat i) [0..<length cs]" by (auto intro: nth_equalityI)
  show "sorted (map sc_logical_time cs)" using m xs by (auto simp: image_holds_def sorted_append)
qed

text \<open>
  C10. A journal that was created and then written with any commands and any outcomes of the system calls reads back
  exactly the acknowledged commands, numbered consecutively from its base in nondecreasing time; opening its file
  succeeds and gives the same commands, with at most the one command behind whose commit was in doubt.
\<close>

theorem journal_history_reopens:
  assumes "create_journal r cap base = Inr j" "\<forall>(a, c) \<in> set reqs. int64_range (cp_price_ticks (sc_payload c))"
    "journal_run j reqs = (acks, j')" "opens o' (the (j_mapping j'))"
  shows "contents_of j' acks \<and> map sc_sequence acks = map (\<lambda>i. base + word_of_nat i) [0..<length acks] \<and>
     sorted (map sc_logical_time acks) \<and>
     (\<exists>found. (found = acks \<or> \<not> journal_writable j' \<and> (\<exists>c. found = acks @ [c])) \<and>
        (\<exists>j''. open_journal o' = Inr j'' \<and> contents_of j'' found \<and> journal_writable j'' = (j_descriptor j'' \<ge> 0)))"
proof -
  note c = created_inv [OF assms(1)]
  obtain ys where f: "j_capacity j' = cap" "j_base_sequence j' = base" and inv: "journal_inv j' acks ys"
    using journal_run_inv [OF c(1) assms(2,3)] c(2,3) by auto
  have s: "checked_file_size (j_capacity j') = Some (64 + 80 * unat (j_capacity j'))" using c(4) f by simp
  obtain found j'' where j: "open_journal o' = Inr j''" "journal_inv j'' found found"
    "found = acks \<or> \<not> journal_writable j' \<and> (\<exists>c. found = acks @ [c])" using inv_reopens [OF inv s assms(4)] by blast
  have "journal_writable j'' = (j_descriptor j'' \<ge> 0)" using j(2) by (auto simp: journal_inv_def journal_writable_def split: if_splits)
  then show ?thesis using inv_contents [OF inv] inv_contents [OF j(2)] inv_numbered [OF inv] j(1,3) unfolding f by blast
qed

section \<open>A concrete journal\<close>

definition demo_cleanup :: cleanup_results where
  "demo_cleanup = \<lparr>cl_unmap = True, cl_unlink = True, cl_parent_fsync = True, cl_close = True, cl_parent_close = True\<rparr>"

definition demo_status :: "nat \<Rightarrow> file_status" where
  "demo_status n = \<lparr>st_kind = Regular_File, st_permissions = 384, st_size = int n\<rparr>"

definition demo_create :: create_results where
  "demo_create = \<lparr>cr_path = None, cr_parent = None, cr_open = Inr 3, cr_flock = None, cr_chmod = None, cr_stat = Inr (demo_status 0),
     cr_truncate = None, cr_map = True, cr_msync = True, cr_fsync = True, cr_parent_fsync = True, cr_parent_close = True,
     cr_cleanup = demo_cleanup, cr_pid = 7\<rparr>"

definition demo_open :: "u8 list \<Rightarrow> open_results" where
  "demo_open file = \<lparr>or_path = None, or_parent = None, or_lstat = Inr Regular_File, or_open = Inr 4, or_flock = None,
     or_stat = Inr (demo_status (length file)), or_file = file, or_size_stat = Inr (demo_status (length file)), or_map = True,
     or_parent_close = True, or_cleanup = demo_cleanup, or_pid = 8\<rparr>"

definition demo_append :: "bool \<Rightarrow> append_results" where
  "demo_append ok = \<lparr>ar_pid = 7, ar_pre_msync = True, ar_pre_fsync = True, ar_post_msync = True, ar_post_fsync = ok\<rparr>"

definition demo_journal :: journal where
  "demo_journal = make_journal 3 (initial_mapping 224 2 5) 2 5 7"

definition demo_entry :: "u64 \<Rightarrow> u64 \<Rightarrow> sequenced_command" where
  "demo_entry n t = \<lparr>sc_payload = demo_payload, sc_sequence = n, sc_logical_time = t\<rparr>"

lemma demo_payload_ok: "validate_command_payload demo_payload = CV_None" "int64_range (cp_price_ticks demo_payload)"
  by code_simp+

lemma demo_created: "create_journal demo_create 2 5 = Inr demo_journal"
  using checked_file_size_Some(1) [of 2]
  by (simp add: create_journal_def demo_create_def create_file_def demo_journal_def demo_status_def validate_regular_file_def
      acquire_ownership_lock_def kMaximumJournalCapacity_def)

lemma demo_accepts: "append_refused (demo_append ok) demo_journal (demo_entry 5 9) = JE_None"
  by (simp add: append_refused_def demo_append_def demo_journal_def make_journal_def demo_entry_def demo_payload_ok)

lemma demo_opens: "opens (demo_open file) file"
  by (simp add: opens_def demo_open_def demo_status_def validate_regular_file_def)

theorem journal_append_crash_atomic_witness:
  "case journal_append (demo_append False) demo_journal (demo_entry 5 9) of (e, j') \<Rightarrow>
     recovers_to (the (j_mapping j')) 2 5 [] \<or> recovers_to (the (j_mapping j')) 2 5 [demo_entry 5 9]"
proof -
  have i: "journal_inv demo_journal [] []" by (rule created_inv(1) [OF demo_created])
  have r: "int64_range (cp_price_ticks (sc_payload (demo_entry 5 9)))" by (simp add: demo_entry_def demo_payload_ok)
  have "j_capacity demo_journal = 2" "j_base_sequence demo_journal = 5" by (simp_all add: demo_journal_def make_journal_def)
  then show ?thesis
    using conjunct2 [OF journal_append_crash_atomic [OF i demo_accepts r, of False]] by auto
qed

theorem journal_history_reopens_witness:
  "\<exists>found j. open_journal (demo_open (the (j_mapping (snd (journal_run demo_journal
     [(demo_append True, demo_entry 5 9), (demo_append False, demo_entry 6 9)]))))) = Inr j \<and> contents_of j found"
proof -
  let ?reqs = "[(demo_append True, demo_entry 5 9), (demo_append False, demo_entry 6 9)]"
  obtain acks j' where run: "journal_run demo_journal ?reqs = (acks, j')" by fastforce
  have r: "\<forall>(a, c) \<in> set ?reqs. int64_range (cp_price_ticks (sc_payload c))" by (simp add: demo_entry_def demo_payload_ok)
  show ?thesis using journal_history_reopens [OF demo_created r run demo_opens] unfolding run by auto
qed

end
