(* ===== verification/Segment_Properties.thy ===== *)
theory Segment_Properties
  imports Journal_Segments Journal_History
begin

text \<open>Journals in segments: what an accepted set of segments holds, and what a resumed writer knows.\<close>

section \<open>Opening is sound\<close>

text \<open>The size the system reports for a file is the number of its bytes.\<close>

definition honest :: "open_results \<Rightarrow> bool" where
  "honest r \<longleftrightarrow> (\<forall>st. or_size_stat r = Inr st \<longrightarrow> st_size st = int (length (or_file r)))"

lemma open_journal_fields:
  assumes "open_journal r = Inr j" "honest r"
  obtains d cap base cs where "image_holds (or_file r) (unat cap) base cs" "parse_header (take 64 (or_file r)) = Some (cap, base)"
    "checked_file_size cap = Some (64 + 80 * unat cap)"
    "j = (make_journal d (or_file r) cap base (or_pid r))\<lparr>j_size := word_of_nat (length cs), j_last_logical_time := last_time cs\<rparr>"
proof -
  obtain d where f: "open_file r d = Inr j" using assms(1)
    by (auto simp: open_journal_def Let_def split: option.splits sum.splits if_splits)
  obtain cap base n st where h: "parse_header (take 64 (or_file r)) = Some (cap, base)" "checked_file_size cap = Some n"
    "or_size_stat r = Inr st" "\<not> st_size st < 0" "nat (st_size st) = n" and m: "open_mapped r d cap base = Inr j"
    using f by (auto simp: open_file_def open_failure_def kJournalHeaderSize_def split: option.splits sum.splits if_splits prod.splits)
  have c: "cap \<noteq> 0" "\<not> cap > kMaximumJournalCapacity" using h(2) by (auto simp: checked_file_size_def split: if_splits)
  note s = checked_file_size_Some [OF c]
  have len: "length (or_file r) = 64 + 80 * unat cap" using h s(1) assms(2) by (auto simp: honest_def)
  obtain e sz t where l: "recover_loop (or_file r) (unat cap) base 0 0 0 = (e, sz, t)" by (cases "recover_loop (or_file r) (unat cap) base 0 0 0")
  have e: "e = JE_None" and j: "j = (make_journal d (or_file r) cap base (or_pid r))\<lparr>j_size := sz, j_last_logical_time := t\<rparr>"
    using m l by (auto simp: open_mapped_def recover_def make_journal_def open_failure_def split: if_splits)
  have "recover_loop (or_file r) (unat cap) base 0 (word_of_nat 0) (last_time []) = (JE_None, sz, t)" using l e by (simp add: last_time_def)
  from recover_loop_sound [OF this len s(2)] obtain cs where
    "image_holds (or_file r) (unat cap) base cs" "sz = word_of_nat (length cs)" "t = last_time cs" by auto
  with h(1) s(1) j show thesis by (intro that) simp_all
qed

lemma open_journal_sound:
  assumes "open_journal r = Inr j" "honest r"
  obtains cs where "journal_inv j cs cs"
proof -
  obtain d cap base cs where o: "image_holds (or_file r) (unat cap) base cs" "parse_header (take 64 (or_file r)) = Some (cap, base)"
    "checked_file_size cap = Some (64 + 80 * unat cap)"
    "j = (make_journal d (or_file r) cap base (or_pid r))\<lparr>j_size := word_of_nat (length cs), j_last_logical_time := last_time cs\<rparr>"
    by (rule open_journal_fields [OF assms])
  have "cap \<noteq> 0" using o(3) by (auto simp: checked_file_size_def)
  then have "journal_inv j cs cs" unfolding o(4) using o(1,2) by (simp add: journal_inv_def make_journal_def)
  then show thesis by (rule that)
qed

section \<open>Segments follow each other\<close>

definition numbered :: "u64 \<Rightarrow> sequenced_command list \<Rightarrow> bool" where
  "numbered base cs \<longleftrightarrow> map sc_sequence cs = map (\<lambda>i. base + word_of_nat i) [0..<length cs]"

lemma numbered_append:
  assumes "numbered base cs" "numbered (base + word_of_nat (length cs)) ds"
  shows "numbered base (cs @ ds)"
proof -
  have "map (\<lambda>i. base + word_of_nat (length cs) + word_of_nat i) [0..<length ds] = map (\<lambda>i. base + word_of_nat i) [length cs..<length cs + length ds]"
    by (rule nth_equalityI) (simp_all add: add.assoc)
  then show ?thesis using assms unfolding numbered_def by (simp add: upt_add_eq_append [of 0 "length cs" "length ds"])
qed

definition chained :: "journal list \<Rightarrow> sequenced_command list list \<Rightarrow> bool" where
  "chained js css \<longleftrightarrow> list_all2 (\<lambda>j cs. journal_inv j cs cs) js css \<and>
     (js \<noteq> [] \<longrightarrow> numbered (j_base_sequence (hd js)) (concat css) \<and>
        j_base_sequence (last js) + j_size (last js) = j_base_sequence (hd js) + word_of_nat (length (concat css)))"

lemma chained_snoc:
  assumes "chained js css" "journal_inv j cs cs" "js \<noteq> [] \<Longrightarrow> j_base_sequence j = j_base_sequence (last js) + j_size (last js)"
  shows "chained (js @ [j]) (css @ [cs])"
proof -
  have n: "numbered (j_base_sequence j) cs" using inv_numbered(1) [OF assms(2)] by (simp add: numbered_def)
  have s: "j_size j = word_of_nat (length cs)" using assms(2) by (simp add: journal_inv_def)
  have all: "list_all2 (\<lambda>j cs. journal_inv j cs cs) (js @ [j]) (css @ [cs])" using assms(1,2) by (simp add: chained_def list_all2_appendI)
  show ?thesis
  proof (cases "js = []")
    case True
    then show ?thesis using assms(1) n s all by (simp add: chained_def)
  next
    case False
    then have b: "numbered (j_base_sequence (hd js)) (concat css)" "j_base_sequence j = j_base_sequence (hd js) + word_of_nat (length (concat css))"
      using assms(1,3) by (simp_all add: chained_def)
    then show ?thesis using all False n s numbered_append [OF b(1), of cs] by (simp add: chained_def add.assoc)
  qed
qed

lemma open_segments_chained:
  assumes "open_segments files cands set0 = Inr s" "\<And>path. honest (files path)" "chained (ss_segments set0) css"
  shows "\<exists>css'. chained (ss_segments s) css'"
  using assms
proof (induction files cands set0 arbitrary: css rule: open_segments.induct)
  case (2 files named_base path cands set0)
  obtain j where j: "open_journal (files path) = Inr j" using "2.prems"(1) by (auto split: sum.splits)
  obtain cs where cs: "journal_inv j cs cs" by (rule open_journal_sound [OF j "2.prems"(2)])
  let ?last = "last (ss_segments set0)" and ?set = "\<lparr>ss_paths = ss_paths set0 @ [path], ss_segments = ss_segments set0 @ [j]\<rparr>"
  have c: "j_base_sequence j = named_base" "\<not> (ss_segments set0 \<noteq> [] \<and> \<not> journal_full ?last)"
    "\<not> (ss_segments set0 \<noteq> [] \<and> named_base < j_base_sequence ?last + j_size ?last)"
    "\<not> (ss_segments set0 \<noteq> [] \<and> named_base > j_base_sequence ?last + j_size ?last)" "open_segments files cands ?set = Inr s"
    using "2.prems"(1) unfolding open_segments.simps j sum.case by (simp_all split: if_splits)
  have "ss_segments set0 \<noteq> [] \<Longrightarrow> j_base_sequence j = j_base_sequence ?last + j_size ?last" using c(1,3,4) by auto
  from chained_snoc [OF "2.prems"(3) cs this] have ch: "chained (ss_segments ?set) (css @ [cs])" by simp
  show ?case
    by (rule "2.IH" [of j, OF j _ _ _ _ c(5) "2.prems"(2) ch]) (use c(1-4) in auto)
qed auto

lemma chained_contents: "chained js css \<Longrightarrow> list_all2 contents_of js css"
  by (auto simp: chained_def intro: list_all2_mono inv_contents)

text \<open>
  C18. A set of journal segments that opens is one journal: every segment reads back its commands, and the commands of all
  segments in order are numbered consecutively from the base of the first, with no gap and no overlap.
\<close>

theorem segment_set_contiguous:
  assumes "open_segment_set files listing path_prefix = Inr s" "\<And>path. honest (files path)"
  shows "ss_segments s \<noteq> [] \<and> (\<exists>css. list_all2 contents_of (ss_segments s) css \<and>
    map sc_sequence (concat css) = map (\<lambda>i. j_base_sequence (hd (ss_segments s)) + word_of_nat i) [0..<length (concat css)])"
proof -
  obtain cands where c: "cands \<noteq> []" "open_segments files cands \<lparr>ss_paths = [], ss_segments = []\<rparr> = Inr s"
    using assms(1) by (auto simp: open_segment_set_def Let_def split: if_splits option.splits sum.splits)
      (metis length_0_conv length_sort)
  have mono: "open_segments files cs s0 = Inr s1 \<Longrightarrow> length (ss_segments s1) = length (ss_segments s0) + length cs" for cs s0 s1
    by (induction files cs s0 rule: open_segments.induct) (auto split: sum.splits if_splits)
  have ne: "ss_segments s \<noteq> []" using mono [OF c(2)] c(1) by auto
  have "chained [] []" by (simp add: chained_def)
  then obtain css where ch: "chained (ss_segments s) css" using open_segments_chained [OF c(2) assms(2)] by auto
  then show ?thesis using ne chained_contents [OF ch] by (auto simp: chained_def numbered_def)
qed

section \<open>Resuming\<close>

lemma opened_fields:
  assumes "opens r file" "image_holds file (unat cap) base cs" "parse_header (take 64 file) = Some (cap, base)"
    "checked_file_size cap = Some (64 + 80 * unat cap)"
  obtains j where "open_journal r = Inr j" "journal_inv j cs cs" "j_capacity j = cap" "j_base_sequence j = base" "j_owner_pid j = or_pid r"
    "Inr (j_descriptor j) = or_open r"
proof -
  obtain j where j: "open_journal r = Inr j" "journal_inv j cs cs" by (rule reopened [OF assms])
  have hon: "honest r" using assms(1) by (auto simp: opens_def honest_def)
  obtain d cap' base' cs' where o: "parse_header (take 64 (or_file r)) = Some (cap', base')"
    "j = (make_journal d (or_file r) cap' base' (or_pid r))\<lparr>j_size := word_of_nat (length cs'), j_last_logical_time := last_time cs'\<rparr>"
    by (rule open_journal_fields [OF j(1) hon])
  have "or_file r = file" using assms(1) by (simp add: opens_def)
  moreover have "or_open r = Inr d" using j(1) o(2)
    by (auto simp: open_journal_def open_file_def open_failure_def open_mapped_def recover_def make_journal_def Let_def
        split: option.splits sum.splits if_splits prod.splits)
  ultimately show thesis using that [OF j] o assms(3) by (simp add: make_journal_def)
qed

text \<open>Two segments of one record: a full one whose command came at time 100, and an empty one after it.\<close>

definition demo_full :: journal where
  "demo_full = snd (journal_append (demo_append True) (make_journal 3 (initial_mapping 144 1 1) 1 1 7) (demo_entry 1 100))"

definition demo_files :: "string \<Rightarrow> open_results" where
  "demo_files name = demo_open (if name = ''p.00000000000000000001.journal'' then the (j_mapping demo_full) else initial_mapping 144 1 2)"

definition demo_listing :: "string list" where
  "demo_listing = [''p.00000000000000000002.journal'', ''p.00000000000000000001.journal'', ''notes'']"

definition demo_closes :: "close_results list" where
  "demo_closes = [\<lparr>cz_pid = 8, cz_msync = True, cz_unmap = True, cz_fsync = True, cz_close = True\<rparr>]"

lemma demo_full_inv: "journal_inv demo_full [demo_entry 1 100] [demo_entry 1 100] \<and> j_capacity demo_full = 1 \<and> j_base_sequence demo_full = 1"
proof -
  let ?j = "make_journal 3 (initial_mapping 144 1 1) 1 1 7"
  have "create_journal demo_create 1 1 = Inr ?j"
    using checked_file_size_Some(1) [of 1]
    by (simp add: create_journal_def demo_create_def create_file_def demo_status_def validate_regular_file_def
        acquire_ownership_lock_def kMaximumJournalCapacity_def)
  then have i: "journal_inv ?j [] []" by (rule created_inv)
  have a: "append_refused (demo_append True) ?j (demo_entry 1 100) = JE_None"
    by (simp add: append_refused_def demo_append_def make_journal_def demo_entry_def demo_payload_ok)
  have r: "int64_range (cp_price_ticks (sc_payload (demo_entry 1 100)))" by (simp add: demo_entry_def demo_payload_ok)
  have e: "fst (journal_append (demo_append True) ?j (demo_entry 1 100)) = JE_None"
    by (rule committed_record [OF _ r]) (use a in \<open>simp_all add: journal_append_def demo_append_def Let_def demo_entry_def demo_payload_ok\<close>)
  show ?thesis using append_inv(2) [OF i r a] e by (auto simp: demo_full_def make_journal_def split: prod.splits)
qed

lemma demo_candidates:
  "collect_candidates ''p.'' demo_listing [] = Inr [(2, ''p.00000000000000000002.journal''), (1, ''p.00000000000000000001.journal'')]"
  "path_filename ''p'' = ''p''"
  by code_simp+

lemma demo_opened:
  obtains j1 j2 where "open_journal (demo_files ''p.00000000000000000001.journal'') = Inr j1" "journal_inv j1 [demo_entry 1 100] [demo_entry 1 100]"
    "j_capacity j1 = 1" "j_base_sequence j1 = 1" "j_owner_pid j1 = 8" "j_descriptor j1 = 4"
    "open_journal (demo_files ''p.00000000000000000002.journal'') = Inr j2" "journal_inv j2 [] []"
    "j_capacity j2 = 1" "j_base_sequence j2 = 2" "j_owner_pid j2 = 8" "j_descriptor j2 = 4"
proof -
  have s: "checked_file_size 1 = Some (64 + 80 * unat (1 :: u64))" using checked_file_size_Some(1) [of 1] by (simp add: kMaximumJournalCapacity_def)
  obtain m where m: "j_mapping demo_full = Some m" "image_holds m (unat (1 :: u64)) 1 [demo_entry 1 100]" "parse_header (take 64 m) = Some (1, 1)"
    using demo_full_inv by (auto simp: journal_inv_def split: if_splits)
  have f: "demo_files ''p.00000000000000000001.journal'' = demo_open m"
    "demo_files ''p.00000000000000000002.journal'' = demo_open (initial_mapping 144 1 2)" by (simp_all add: demo_files_def m(1))
  have e: "image_holds (initial_mapping 144 1 2) (unat (1 :: u64)) 2 []" using empty_image [of 1 1 2 2] by simp
  have h: "parse_header (take 64 (initial_mapping 144 1 2)) = Some (1, 2)" by (rule initial_header) simp_all
  have p: "or_pid (demo_open x) = 8" "or_open (demo_open x) = Inr 4" for x by (simp_all add: demo_open_def)
  obtain j1 where 1: "open_journal (demo_open m) = Inr j1" "journal_inv j1 [demo_entry 1 100] [demo_entry 1 100]"
    "j_capacity j1 = 1" "j_base_sequence j1 = 1" "j_owner_pid j1 = 8" "j_descriptor j1 = 4"
    by (rule opened_fields [OF demo_opens m(2,3) s]) (simp add: p)
  obtain j2 where 2: "open_journal (demo_open (initial_mapping 144 1 2)) = Inr j2" "journal_inv j2 [] []"
    "j_capacity j2 = 1" "j_base_sequence j2 = 2" "j_owner_pid j2 = 8" "j_descriptor j2 = 4"
    by (rule opened_fields [OF demo_opens e h s]) (simp add: p)
  show thesis by (rule that [unfolded f, OF 1 2])
qed

lemma demo_set:
  obtains j1 j2 where "open_segment_set demo_files (Some demo_listing) ''p'' =
      Inr \<lparr>ss_paths = [''p.00000000000000000001.journal'', ''p.00000000000000000002.journal''], ss_segments = [j1, j2]\<rparr>"
    "journal_inv j1 [demo_entry 1 100] [demo_entry 1 100]" "j_owner_pid j1 = 8" "j_descriptor j1 = 4"
    "journal_inv j2 [] []" "j_capacity j2 = 1" "j_base_sequence j2 = 2" "j_owner_pid j2 = 8" "j_descriptor j2 = 4"
proof (rule demo_opened)
  fix j1 j2
  assume o: "open_journal (demo_files ''p.00000000000000000001.journal'') = Inr j1" "journal_inv j1 [demo_entry 1 100] [demo_entry 1 100]"
    "j_capacity j1 = 1" "j_base_sequence j1 = 1" "j_owner_pid j1 = 8" "j_descriptor j1 = 4"
    "open_journal (demo_files ''p.00000000000000000002.journal'') = Inr j2" "journal_inv j2 [] []"
    "j_capacity j2 = 1" "j_base_sequence j2 = 2" "j_owner_pid j2 = 8" "j_descriptor j2 = 4"
  have sz: "j_size j1 = 1" using o(2) by (simp add: journal_inv_def)
  have "open_segment_set demo_files (Some demo_listing) ''p'' =
      Inr \<lparr>ss_paths = [''p.00000000000000000001.journal'', ''p.00000000000000000002.journal''], ss_segments = [j1, j2]\<rparr>"
    using demo_candidates by (simp add: open_segment_set_def o(1,3,4,7,9,10) sz journal_full_def word_le_nat_alt)
  then show thesis by (rule that) (fact o)+
qed

text \<open>
  C40. A writer that resumes on an empty last segment can accept a command that is older than the journal, as it has forgotten the time of the segments before it: here the
  set opens with a command of time 100 in its first segment, yet the resumed writer accepts a command of time 5.
\<close>

theorem resume_forgets_time:
  "\<exists>w j w'. resume_rotating demo_files (Some demo_listing) demo_closes ''p'' = Inr w \<and> rj_last_logical_time w = 0 \<and>
     open_journal (demo_files ''p.00000000000000000001.journal'') = Inr j \<and> contents_of j [demo_entry 1 100] \<and>
     rotating_append c r \<lparr>ar_pid = 8, ar_pre_msync = True, ar_pre_fsync = True, ar_post_msync = True, ar_post_fsync = True\<rparr> w (demo_entry 2 5) = (JE_None, w')"
proof -
  let ?ar = "\<lparr>ar_pid = 8, ar_pre_msync = True, ar_pre_fsync = True, ar_post_msync = True, ar_post_fsync = True\<rparr>"
  obtain j where j: "open_journal (demo_files ''p.00000000000000000001.journal'') = Inr j" "journal_inv j [demo_entry 1 100] [demo_entry 1 100]"
    by (rule demo_opened) blast
  obtain j1 j2 where s: "open_segment_set demo_files (Some demo_listing) ''p'' =
      Inr \<lparr>ss_paths = [''p.00000000000000000001.journal'', ''p.00000000000000000002.journal''], ss_segments = [j1, j2]\<rparr>"
    and j1: "journal_inv j1 [demo_entry 1 100] [demo_entry 1 100]" "j_owner_pid j1 = 8" "j_descriptor j1 = 4"
    and j2: "journal_inv j2 [] []" "j_capacity j2 = 1" "j_base_sequence j2 = 2" "j_owner_pid j2 = 8" "j_descriptor j2 = 4" by (rule demo_set)
  let ?w = "(make_rotating ''p'' 1 j2)\<lparr>rj_segment_count := 2, rj_last_logical_time := 0\<rparr>"
  have f2: "j_size j2 = 0" "j_last_logical_time j2 = 0" "j_mapping j2 \<noteq> None" "\<not> j_writer_poisoned j2"
    using j2(1) by (auto simp: journal_inv_def last_time_def split: if_splits)
  have m1: "j_mapping j1 \<noteq> None" using j1(1) by (auto simp: journal_inv_def)
  have "resume_rotating demo_files (Some demo_listing) demo_closes ''p'' = Inr ?w"
    using m1 by (simp add: resume_rotating_def s release_last_def demo_closes_def journal_close_def j1(2,3) f2(2) j2(2))
  moreover have a: "append_refused ?ar j2 (demo_entry 2 5) = JE_None"
    using f2 j2 by (simp add: append_refused_def demo_entry_def demo_payload_ok)
  have r: "validate_command_payload (sc_payload (demo_entry 2 5)) = CV_None" "int64_range (cp_price_ticks (sc_payload (demo_entry 2 5)))"
    by (simp_all add: demo_entry_def demo_payload_ok)
  have "fst (journal_append ?ar j2 (demo_entry 2 5)) = JE_None"
    by (rule committed_record [OF r]) (use a in \<open>simp add: journal_append_def Let_def\<close>)
  then have "fst (rotating_append c r ?ar ?w (demo_entry 2 5)) = JE_None" for c r
    using f2 j2 r by (auto simp: rotating_append_def make_rotating_def rotating_write_def journal_full_def demo_entry_def Let_def split: prod.splits)
  ultimately show ?thesis using j(1) inv_contents [OF j(2)]
    by (intro exI [of _ ?w] exI [of _ j] exI [of _ "snd (rotating_append c r ?ar ?w (demo_entry 2 5))"]) (simp add: prod_eq_iff)
qed

theorem segment_set_contiguous_witness:
  "\<exists>s css. open_segment_set demo_files (Some demo_listing) ''p'' = Inr s \<and> list_all2 contents_of (ss_segments s) css"
proof -
  obtain j1 j2 where s: "open_segment_set demo_files (Some demo_listing) ''p'' =
      Inr \<lparr>ss_paths = [''p.00000000000000000001.journal'', ''p.00000000000000000002.journal''], ss_segments = [j1, j2]\<rparr>" by (rule demo_set)
  have "honest (demo_files path)" for path by (simp add: honest_def demo_files_def demo_open_def demo_status_def)
  from segment_set_contiguous [OF s this] s show ?thesis by blast
qed

end
