(* ===== verification/Market_Spec.thy ===== *)
theory Market_Spec
  imports Order_Book_View
begin

text \<open>
  The specification of an order entry as a whole: an incoming order takes liquidity from the
  opposite side, a limit order may join its queue with what is left, and then the stops run: as long
  as the last execution price triggers a dormant stop, the first such stop in arrival order enters
  the market.  The market is a queue of makers per side and level, a list of stops and a price.
\<close>

section \<open>Markets\<close>

record stop_spec =
  st_slot :: nat
  st_id :: order_id
  st_side :: side
  st_trigger :: price
  st_limit :: "nat option"
  st_quantity :: u64

record market =
  mkt_queue :: "side \<Rightarrow> nat \<Rightarrow> maker list"
  mkt_stops :: "stop_spec list"
  mkt_last :: "price option"

record activation =
  act_id :: order_id
  act_executed :: u64
  act_unfilled :: u64

definition ladder :: "nat \<Rightarrow> (nat \<Rightarrow> maker list) \<Rightarrow> side \<Rightarrow> ladder" where
  "ladder n V s = map (\<lambda>l. (l, V l)) (filter (\<lambda>l. V l \<noteq> []) (priority s n))"

definition of_ladder :: "ladder \<Rightarrow> nat \<Rightarrow> maker list" where
  "of_ladder lad l = (case map_of lad l of None \<Rightarrow> [] | Some ms \<Rightarrow> ms)"

definition take_liquidity :: "price_domain \<Rightarrow> order_id \<Rightarrow> side \<Rightarrow> nat option \<Rightarrow> u64 \<Rightarrow> market \<Rightarrow>
    trade list \<times> u64 \<times> market" where
  "take_liquidity d tid ts limit r M =
     (let s = opposite_side ts;
          (es, r', lad') = fill_ladder ts limit r (ladder (pd_tick_count d) (mkt_queue M s) s)
      in (map snd (ladder_reports ts tid (pd_minimum d) es []), r',
          M\<lparr>mkt_queue := (mkt_queue M)(s := of_ladder lad'),
            mkt_last := last_price (pd_minimum d) es (mkt_last M)\<rparr>))"

definition join_queue :: "side \<Rightarrow> nat \<Rightarrow> maker \<Rightarrow> market \<Rightarrow> market" where
  "join_queue s l m M = M\<lparr>mkt_queue := (mkt_queue M)(s := (mkt_queue M s)(l := mkt_queue M s l @ [m]))\<rparr>"

definition new_maker :: "nat \<Rightarrow> order_id \<Rightarrow> trader_id \<Rightarrow> u64 \<Rightarrow> u64 \<Rightarrow> maker" where
  "new_maker i oid trader r d =
     \<lparr>mk_slot = i, mk_id = oid, mk_trader = trader, mk_rem = r, mk_disp = d, mk_peak = d\<rparr>"

definition triggered :: "price option \<Rightarrow> stop_spec \<Rightarrow> bool" where
  "triggered lp st = (case lp of None \<Rightarrow> False
     | Some p \<Rightarrow> if st_side st = Buy then p \<ge> st_trigger st else p \<le> st_trigger st)"

definition run_stop :: "price_domain \<Rightarrow> stop_spec \<Rightarrow> market \<Rightarrow> trade list \<times> activation \<times> market" where
  "run_stop d st M =
     (let (ts, r', M1) = take_liquidity d (st_id st) (st_side st) (st_limit st) (st_quantity st)
            (M\<lparr>mkt_stops := remove1 st (mkt_stops M)\<rparr>)
      in (ts, \<lparr>act_id = st_id st, act_executed = st_quantity st - r', act_unfilled = r'\<rparr>,
          (case st_limit st of None \<Rightarrow> M1
           | Some l \<Rightarrow> if r' = 0 then M1
               else join_queue (st_side st) l (new_maker (st_slot st) (st_id st) 0 r' r') M1)))"

lemma take_liquidity_stops: "take_liquidity d tid ts limit r M = (t, r', M') \<Longrightarrow> mkt_stops M' = mkt_stops M"
  by (auto simp: take_liquidity_def Let_def split: prod.splits)

lemma join_queue_stops [simp]: "mkt_stops (join_queue s l m M) = mkt_stops M"
  by (simp add: join_queue_def)

lemma run_stop_stops: "run_stop d st M = (ts, a, M') \<Longrightarrow> mkt_stops M' = remove1 st (mkt_stops M)"
  by (auto simp: run_stop_def Let_def dest: take_liquidity_stops split: prod.splits option.splits if_splits)

function run_stops :: "price_domain \<Rightarrow> market \<Rightarrow> trade list \<times> activation list \<times> market" where
  "run_stops d M =
     (case find (triggered (mkt_last M)) (mkt_stops M) of
        None \<Rightarrow> ([], [], M)
      | Some st \<Rightarrow> let (ts, a, M1) = run_stop d st M; (ts', as, M2) = run_stops d M1
                   in (ts @ ts', a # as, M2))"
  by pat_completeness auto
termination
proof (relation "measure (\<lambda>(d, M). length (mkt_stops M))", goal_cases)
  case (2 d M st x ts y a M1)
  have "st \<in> set (mkt_stops M)" using 2(1) by (auto simp: find_Some_iff)
  moreover have "mkt_stops M1 = remove1 st (mkt_stops M)" using 2(2-4) run_stop_stops [of d st M ts a M1] by simp
  ultimately show ?case by (simp add: length_remove1) (metis diff_less length_pos_if_in_set zero_less_one One_nat_def)
qed simp

declare run_stops.simps [simp del]

text \<open>A limit order (good till cancelled or not), an iceberg (with its peak), and a market order.\<close>

definition enter_limit :: "price_domain \<Rightarrow> order_id \<Rightarrow> trader_id \<Rightarrow> side \<Rightarrow> nat \<Rightarrow> u64 \<Rightarrow> u64 \<Rightarrow> bool \<Rightarrow> nat \<Rightarrow> market \<Rightarrow>
    u64 \<times> trade list \<times> activation list \<times> market" where
  "enter_limit d oid trader s l q peak rests slot M =
     (let (t1, r', M1) = take_liquidity d oid s (Some l) q M;
          M2 = (if rests \<and> r' \<noteq> 0 then join_queue s l (new_maker slot oid trader r' (min peak r')) M1 else M1);
          (t2, acts, M3) = run_stops d M2
      in (r', t1 @ t2, acts, M3))"

definition enter_market :: "price_domain \<Rightarrow> order_id \<Rightarrow> side \<Rightarrow> u64 \<Rightarrow> market \<Rightarrow>
    u64 \<times> trade list \<times> activation list \<times> market" where
  "enter_market d oid s q M =
     (let (t1, r', M1) = take_liquidity d oid s None q M; (t2, acts, M2) = run_stops d M1
      in (r', t1 @ t2, acts, M2))"

section \<open>The market of a book\<close>

definition stop_of :: "book \<Rightarrow> nat \<Rightarrow> stop_spec" where
  "stop_of b i = \<lparr>st_slot = i, st_id = ord_id (bk_order b i), st_side = decode_side (ord_encoded (bk_order b i)),
     st_trigger = ob_stop_trigger_prices b ! i,
     st_limit = (if is_stop_market (bk_order b i) then None else index_of (ob_domain b) (ob_stop_limit_prices b ! i)),
     st_quantity = o_rem b i\<rparr>"

definition market_of :: "book \<Rightarrow> queues \<Rightarrow> nat list \<Rightarrow> market" where
  "market_of b Q S = \<lparr>mkt_queue = \<lambda>s l. makers b (Q s l), mkt_stops = map (stop_of b) S,
     mkt_last = ob_last_execution_price b\<rparr>"

definition view :: "book \<Rightarrow> market" where
  "view b = market_of b (queue_of b) (stop_queue b)"

lemma rep_view: "book_rep b Q S X \<Longrightarrow> view b = market_of b Q S"
  by (simp add: view_def rep_queue_of rep_stop_queue)

lemma ladder_of_view: "ladder_of b Q s = ladder (ticks b) (mkt_queue (market_of b Q S) s) s"
  by (simp add: ladder_of_def ladder_def market_of_def)

lemma of_ladder_ladder_of:
  assumes "book_rep b Q S X" shows "of_ladder (ladder_of b Q s) = (\<lambda>l. makers b (Q s l))"
proof
  fix l
  have "map_of (map (\<lambda>l. (l, makers b (Q s l))) ks) l = (if l \<in> set ks then Some (makers b (Q s l)) else None)" for ks
    by (induction ks) auto
  moreover have "\<not> l < ticks b \<Longrightarrow> Q s l = []" using assms by (simp add: book_rep_def)
  ultimately show "of_ladder (ladder_of b Q s) l = makers b (Q s l)"
    by (auto simp: of_ladder_def ladder_of_def)
qed

lemma ladder_of_ok: "book_rep b Q S X \<Longrightarrow> ladder_ok (ladder_of b Q s)"
  by (auto simp: ladder_ok_def ladder_of_def rep_list_ok)

end
