(* ===== verification/Order_Book_Taker.thy ===== *)
theory Order_Book_Taker
  imports Market_Spec
begin

text \<open>\<^verbatim>\<open>match\<close> as a whole, from a book between commands to the market the specification computes.\<close>

section \<open>What matching keeps of every order\<close>

definition tag_of :: "book \<Rightarrow> nat \<Rightarrow> u32 \<times> u32" where
  "tag_of b j = (ord_encoded (bk_order b j), ord_flags (bk_order b j))"

lemma tag_of_upd_order:
  assumes "ord_encoded (f (bk_order b i)) = ord_encoded (bk_order b i)" "ord_flags (f (bk_order b i)) = ord_flags (bk_order b i)"
  shows "tag_of (upd_order b i f) j = tag_of b j"
  using bk_order_upd_order_cases [of b i f j] assms by (auto simp: tag_of_def)

lemma tag_of_frame [simp]:
  "tag_of (upd_level b s l g) j = tag_of b j" "tag_of (set_occupancy b s m) j = tag_of b j"
  "tag_of (release_slot b h) j = tag_of b j" "tag_of (set_disp b i d) j = tag_of b j"
  "tag_of (upd_order b i (\<lambda>y. y\<lparr>ord_next := n\<rparr>)) j = tag_of b j"
  "tag_of (upd_order b i (\<lambda>y. y\<lparr>ord_prev := n\<rparr>)) j = tag_of b j"
  "tag_of (upd_order b i (\<lambda>y. y\<lparr>ord_prev := n, ord_next := n'\<rparr>)) j = tag_of b j"
  "tag_of (upd_order b i (\<lambda>y. y\<lparr>ord_remaining := f y\<rparr>)) j = tag_of b j"
  "tag_of (b\<lparr>ob_displayed_remaining := ds\<rparr>) j = tag_of b j"
  "tag_of (b\<lparr>ob_last_execution_price := lp\<rparr>) j = tag_of b j"
  "tag_of (b\<lparr>ob_trade_report_epochs := es, ob_trade_report_indices := ks\<rparr>) j = tag_of b j"
  by (simp_all add: tag_of_upd_order) (simp_all add: tag_of_def, simp_all add: bk_order_def)

text \<open>Matching never takes a slot, so a slot that is live afterwards has kept its handle.\<close>

definition keeps :: "book \<Rightarrow> book \<Rightarrow> bool" where
  "keeps b b' \<longleftrightarrow> (\<forall>j. tag_of b' j = tag_of b j) \<and>
     (\<forall>j \<in> live_set (ob_arena b'). j \<in> live_set (ob_arena b) \<and> handle_at (ob_arena b') j = handle_at (ob_arena b) j)"

lemma keeps_refl [simp]: "keeps b b"
  by (simp add: keeps_def)

lemma keeps_trans: "keeps a b \<Longrightarrow> keeps b c \<Longrightarrow> keeps a c"
  by (simp add: keeps_def)

lemma keeps_same:
  "(\<And>j. tag_of b' j = tag_of b j) \<Longrightarrow> live_set (ob_arena b') = live_set (ob_arena b) \<Longrightarrow>
     (\<And>j. handle_at (ob_arena b') j = handle_at (ob_arena b) j) \<Longrightarrow> keeps b b'"
  by (simp add: keeps_def)

lemma release_slot_keeps: "keeps b (release_slot b h)"
proof -
  let ?a = "ob_arena b"
  have "j \<in> live_set ?a \<and> handle_at (snd (release ?a h)) j = handle_at ?a j" if "j \<in> live_set (snd (release ?a h))" for j
    using that by (cases "j = h_index h"; cases "h_index h < length (ar_slots ?a)")
      (auto simp: release_def Let_def live_set_def handle_at_def list_update_beyond split: if_splits)
  then show ?thesis by (simp add: keeps_def) (simp add: release_slot_def)
qed

lemma unlink_keeps: "keeps b (unlink b h r)"
  unfolding unlink_def Let_def by (rule keeps_trans [OF _ release_slot_keeps], rule keeps_same) simp_all

lemma move_to_tail_keeps: "keeps b (move_to_tail b i)"
  unfolding move_to_tail_def Let_def by (rule keeps_same) auto

lemma reduce_maker_keeps: "keeps b (reduce_maker b s l i e)"
  unfolding reduce_maker_def Let_def
  by (auto intro!: keeps_trans [OF _ unlink_keeps] keeps_trans [OF _ move_to_tail_keeps] keeps_same)

lemma report_trade_keeps: "report_trade x tid s i p e = ret y \<Longrightarrow> keeps (ex_book x) (ex_book y)"
  by (auto simp: report_trade_def Let_def ret_def crash_def split: if_splits intro!: keeps_same)

lemma execute_match_keeps:
  assumes "execute_match tid ts l i e x = ret y" shows "keeps (ex_book x) (ex_book y)"
proof (cases "price_at (ob_domain (ex_book x)) l")
  case None
  then show ?thesis using assms by (simp add: execute_match_def)
next
  case (Some p)
  then obtain x1 where x1: "report_trade x tid ts i p e = ret x1"
    and y: "ex_book y = reduce_maker ((ex_book x1)\<lparr>ob_last_execution_price := Some p\<rparr>) (opposite_side ts) l i e"
    using assms by (auto simp: execute_match_def Let_def run_bind_eq_ret_iff)
  have "keeps (ex_book x1) ((ex_book x1)\<lparr>ob_last_execution_price := Some p\<rparr>)" by (rule keeps_same) simp_all
  then show ?thesis unfolding y by (rule keeps_trans [OF keeps_trans [OF report_trade_keeps [OF x1]] reduce_maker_keeps])
qed

lemma match_level_fifo_keeps:
  assumes "match_level_fifo tid trader ts l x = ret y"
  shows "keeps (ex_book x) (ex_book y)"
proof -
  let ?P = "\<lambda>(_::order_id) (_::trader_id) (_::side) (_::nat) x z. \<forall>y. Some z = ret y \<longrightarrow> keeps (ex_book x) (ex_book y)"
  have "?P tid trader ts l x (Inr y)"
  proof (rule match_level_fifo.raw_induct [of ?P "((((tid, trader), ts), l), x)" "Inr y", unfolded split_conv])
    show "match_level_fifo tid trader ts l x = Some (Inr y)" using assms by (simp add: ret_def)
  next
    fix f :: "order_id \<Rightarrow> trader_id \<Rightarrow> side \<Rightarrow> nat \<Rightarrow> exec \<Rightarrow> exec run" and tid trader ts l x z
    assume f: "\<And>tid trader ts l x z. f tid trader ts l x = Some z \<Longrightarrow> ?P tid trader ts l x z"
      and body: "(let b = ex_book x; i = pl_head (level b (opposite_side ts) l)
        in if \<not> (ex_remaining x \<noteq> 0 \<and> i \<noteq> kInvalidIndex) then ret x
           else if would_self_trade_at b trader i then ret x
           else let e = min (ex_remaining x) (o_disp b i)
                in run_bind (execute_match tid ts l i e x) (f tid trader ts l)) = Some z"
    show "?P tid trader ts l x z"
    proof (intro allI impI)
      fix y assume "Some z = ret y"
      then show "keeps (ex_book x) (ex_book y)"
        using body f unfolding Let_def
        by (auto simp: run_bind_eq_ret_iff split: if_splits) (metis execute_match_keeps keeps_trans ret_def)
    qed
  qed
  then show ?thesis by (simp add: ret_def)
qed

lemma pro_rata_pass_keeps:
  assumes "pro_rata_pass tid ts l n q t i x = ret y"
  shows "keeps (ex_book x) (ex_book y)"
proof -
  let ?P = "\<lambda>(_::order_id) (_::side) (_::nat) (_::nat) (_::u64) (_::u64) (_::nat) x z.
    \<forall>y. Some z = ret y \<longrightarrow> keeps (ex_book x) (ex_book y)"
  have "?P tid ts l n q t i x (Inr y)"
  proof (rule pro_rata_pass.raw_induct [of ?P "(((((((tid, ts), l), n), q), t), i), x)" "Inr y", unfolded split_conv])
    show "pro_rata_pass tid ts l n q t i x = Some (Inr y)" using assms by (simp add: ret_def)
  next
    fix f :: "order_id \<Rightarrow> side \<Rightarrow> nat \<Rightarrow> nat \<Rightarrow> u64 \<Rightarrow> u64 \<Rightarrow> nat \<Rightarrow> exec \<Rightarrow> exec run" and tid ts l n q t i x z
    assume f: "\<And>tid ts l n q t i x z. f tid ts l n q t i x = Some z \<Longrightarrow> ?P tid ts l n q t i x z"
      and body: "(if \<not> (i \<noteq> n \<and> i \<noteq> kInvalidIndex \<and> ex_remaining x \<noteq> 0) then ret x
        else let b = ex_book x; next_index = o_next b i;
                 e = pro_rata_share (o_disp b i) q t (ob_pro_rata_minimum b)
             in run_bind (if e \<noteq> 0 then execute_match tid ts l i e x else ret x) (f tid ts l n q t next_index)) = Some z"
    show "?P tid ts l n q t i x z"
    proof (intro allI impI)
      fix y assume y: "Some z = ret y"
      show "keeps (ex_book x) (ex_book y)"
      proof (cases "i \<noteq> n \<and> i \<noteq> kInvalidIndex \<and> ex_remaining x \<noteq> 0")
        case True
        then obtain w k where w: "w = x \<or> (\<exists>e. execute_match tid ts l i e x = ret w)" and fw: "f tid ts l n q t k w = ret y"
          using body y by (auto simp: Let_def run_bind_eq_ret_iff split: if_splits)
        have "keeps (ex_book x) (ex_book w)" using w execute_match_keeps by auto
        moreover have "keeps (ex_book w) (ex_book y)" using f [of tid ts l n q t k w z] fw y by simp
        ultimately show ?thesis by (rule keeps_trans)
      qed (use body y in auto)
    qed
  qed
  then show ?thesis by (simp add: ret_def)
qed

lemma match_level_keeps:
  assumes "match_level tid trader ts l x = ret y"
  shows "keeps (ex_book x) (ex_book y)"
proof -
  have "\<exists>w. (w = x \<or> (\<exists>n q t i. pro_rata_pass tid ts l n q t i x = ret w)) \<and> match_level_fifo tid trader ts l w = ret y"
  proof (cases "ob_allocation_mode (ex_book x) = Threshold_Pro_Rata")
    case True
    let ?h = "pl_head (level (ex_book x) (opposite_side ts) l)"
    obtain td ei where "run_bind (if td \<noteq> 0 then pro_rata_pass tid ts l ei (ex_remaining x) td ?h x else ret x)
        (match_level_fifo tid trader ts l) = ret y"
      using assms True by (auto simp: match_level_def match_level_threshold_pro_rata_def Let_def run_bind_eq_ret_iff)
    then obtain w where "(if td \<noteq> 0 then pro_rata_pass tid ts l ei (ex_remaining x) td ?h x else ret x) = ret w"
      "match_level_fifo tid trader ts l w = ret y" unfolding run_bind_eq_ret_iff by blast
    then show ?thesis by (intro exI [of _ w]) (cases "td = 0", simp, simp, blast)
  next
    case False
    then show ?thesis using assms by (auto simp: match_level_def)
  qed
  then obtain w where w: "w = x \<or> (\<exists>n q t i. pro_rata_pass tid ts l n q t i x = ret w)"
    "match_level_fifo tid trader ts l w = ret y" by blast
  have "keeps (ex_book x) (ex_book w)" using w(1) pro_rata_pass_keeps by auto
  then show ?thesis by (rule keeps_trans [OF _ match_level_fifo_keeps [OF w(2)]])
qed

lemma match_loop_keeps:
  assumes "match_loop tid trader ts limit x = ret y"
  shows "keeps (ex_book x) (ex_book y)"
proof -
  let ?P = "\<lambda>(_::order_id) (_::trader_id) (_::side) (_::nat option) x z. \<forall>y. Some z = ret y \<longrightarrow> keeps (ex_book x) (ex_book y)"
  have "?P tid trader ts limit x (Inr y)"
  proof (rule match_loop.raw_induct [of ?P "((((tid, trader), ts), limit), x)" "Inr y", unfolded split_conv])
    show "match_loop tid trader ts limit x = Some (Inr y)" using assms by (simp add: ret_def)
  next
    fix f :: "order_id \<Rightarrow> trader_id \<Rightarrow> side \<Rightarrow> nat option \<Rightarrow> exec \<Rightarrow> exec run" and tid trader ts limit x z
    assume f: "\<And>tid trader ts limit x z. f tid trader ts limit x = Some z \<Longrightarrow> ?P tid trader ts limit x z"
      and body: "(if ex_remaining x = 0 then ret x
        else case best_index (ex_book x) (opposite_side ts) of None \<Rightarrow> ret x
          | Some m \<Rightarrow> if (case limit of None \<Rightarrow> False | Some l \<Rightarrow> \<not> crosses ts m l) then ret x
             else run_bind (match_level tid trader ts m x) (f tid trader ts limit)) = Some z"
    show "?P tid trader ts limit x z"
    proof (intro allI impI)
      fix y assume y: "Some z = ret y"
      then have "y = x \<or> (\<exists>m w. match_level tid trader ts m x = ret w \<and> f tid trader ts limit w = Some z)"
        using body by (auto simp: run_bind_eq_ret_iff split: if_splits option.splits)
      then show "keeps (ex_book x) (ex_book y)"
        using keeps_trans [OF match_level_keeps] f y by (metis keeps_refl)
    qed
  qed
  then show ?thesis by (simp add: ret_def)
qed

section \<open>From the loop to the market\<close>

lemma report_ok_take:
  assumes "report_ok x c acc" shows "take (ex_count x) (ex_trades x) = take c (ex_trades x) @ map snd acc"
proof (rule nth_equalityI)
  have c: "ex_count x = c + length acc" "ex_count x \<le> length (ex_trades x)" using assms by (auto simp: report_ok_def)
  then show "length (take (ex_count x) (ex_trades x)) = length (take c (ex_trades x) @ map snd acc)" by simp
  fix k assume "k < length (take (ex_count x) (ex_trades x))"
  then have k: "k < c + length acc" using c by simp
  show "take (ex_count x) (ex_trades x) ! k = (take c (ex_trades x) @ map snd acc) ! k"
  proof (cases "k < c")
    case True
    then show ?thesis using c by (simp add: nth_append)
  next
    case False
    then obtain n where n: "k = c + n" "n < length acc" using k by (metis add_less_cancel_left le_iff_add not_less)
    then have "ex_trades x ! (c + n) = snd (acc ! n)" using assms by (simp add: report_ok_def)
    then show ?thesis using n c by (simp add: nth_append)
  qed
qed

lemma stop_of_cong:
  assumes "tag_of b' i = tag_of b i" "maker_of b' i = maker_of b i" "same_env b b'" "same_stops b b'"
  shows "stop_of b' i = stop_of b i"
proof -
  have "ord_id (bk_order b' i) = ord_id (bk_order b i)" "o_rem b' i = o_rem b i" using assms(2) by (auto simp: maker_of_def)
  then show ?thesis using assms(1,3,4)
    by (simp add: stop_of_def tag_of_def is_stop_market_def same_env_def same_stops_def)
qed

text \<open>
  \<open>taken b Q S X T c tr r' M x' Q'\<close>: from the book \<open>b\<close> with \<open>c\<close> trades in the buffer \<open>T\<close>, the state \<open>x'\<close> with
  queues \<open>Q'\<close> has the trades \<open>tr\<close> appended, \<open>r'\<close> left and the market \<open>M\<close>.
\<close>

definition taken :: "book \<Rightarrow> queues \<Rightarrow> nat list \<Rightarrow> nat set \<Rightarrow> trade list \<Rightarrow> nat \<Rightarrow> trade list \<Rightarrow> u64 \<Rightarrow> market \<Rightarrow>
    exec \<Rightarrow> queues \<Rightarrow> bool" where
  "taken b Q S X T c tr r' M x' Q' \<longleftrightarrow> book_rep (ex_book x') Q' S X \<and> epochs_ok (ex_book x') \<and>
     same_env b (ex_book x') \<and> market_of (ex_book x') Q' S = M \<and> ex_remaining x' = r' \<and>
     ex_count x' = c + length tr \<and> take (ex_count x') (ex_trades x') = take c T @ tr \<and>
     length (ex_trades x') = length T \<and>
     ob_stop_activations (ex_book x') = ob_stop_activations b \<and>
     ob_stop_activation_count (ex_book x') = ob_stop_activation_count b \<and>
     (\<forall>s l. set (Q' s l) \<subseteq> set (Q s l)) \<and>
     (\<forall>i \<in> X. maker_of (ex_book x') i = maker_of b i) \<and> keeps b (ex_book x')"

lemma next_report_epoch_frame [simp]:
  "same_env b (next_report_epoch b)" "same_stops b (next_report_epoch b)" "maker_of (next_report_epoch b) = maker_of b"
  "tag_of (next_report_epoch b) = tag_of b" "ob_domain (next_report_epoch b) = ob_domain b"
  "ob_allocation_mode (next_report_epoch b) = ob_allocation_mode b" "self_maker (next_report_epoch b) = self_maker b"
  "ob_stop_activations (next_report_epoch b) = ob_stop_activations b"
  "ob_stop_activation_count (next_report_epoch b) = ob_stop_activation_count b"
  "ob_last_execution_price (next_report_epoch b) = ob_last_execution_price b" "slots (next_report_epoch b) = slots b"
  by (auto simp: next_report_epoch_def same_env_def same_stops_def maker_of_def bk_order_def tag_of_def self_maker_def fun_eq_iff)

lemma next_report_epoch_report:
  assumes "epochs_ok b" "book_shape b" "c \<le> length T"
  shows "report_ok \<lparr>ex_book = next_report_epoch b, ex_remaining = r, ex_trades = T, ex_count = c\<rparr> c []"
  using next_report_epoch_ok(2) [OF assms(1,2)] assms(3) by (simp add: report_ok_def)

lemma loop_result_taken:
  assumes res: "loop_result tid trader ts limit S X c \<lparr>ex_book = next_report_epoch b, ex_remaining = r, ex_trades = T, ex_count = c\<rparr>
      Q es r' lad' (ladder_reports ts tid (pd_minimum (ob_domain b)) es []) x' Q'"
    and rep: "book_rep b Q S X" and ep: "epochs_ok b"
    and fil: "fill_ladder ts limit r (ladder_of b Q (opposite_side ts)) = (es, r', lad')"
  shows "taken b Q S X T c (map snd (ladder_reports ts tid (pd_minimum (ob_domain b)) es [])) r'
    (snd (snd (take_liquidity (ob_domain b) tid ts limit r (market_of b Q S)))) x' Q'"
proof -
  let ?s = "opposite_side ts" let ?b = "next_report_epoch b"
  note r = res [unfolded loop_result_def Let_def, simplified]
  have run: "match_loop tid trader ts limit \<lparr>ex_book = ?b, ex_remaining = r, ex_trades = T, ex_count = c\<rparr> = ret x'" using r by simp
  have rep': "book_rep (ex_book x') Q' S X" using r by simp
  have et: "exec_to \<lparr>ex_book = ?b, ex_remaining = r, ex_trades = T, ex_count = c\<rparr> x' c (\<Union>l. set (Q ?s l))" using r by simp
  have fr: "exec_frame ?b (ex_book x')" using et by (simp add: exec_to_def)
  have env: "same_env b (ex_book x')" "same_stops b (ex_book x')"
    using fr same_env_trans [of b ?b] same_stops_trans [of b ?b] by (auto simp: exec_frame_def)
  have mk: "maker_of (ex_book x') j = maker_of b j" if "j \<notin> (\<Union>l. set (Q ?s l))" for j
    using et that by (simp add: exec_to_def)
  have "keeps b ?b" by (rule keeps_same) (simp_all, simp_all add: next_report_epoch_def)
  then have keep: "keeps b (ex_book x')" using match_loop_keeps [OF run] keeps_trans by simp
  have tag: "tag_of (ex_book x') j = tag_of b j" for j using keep by (simp add: keeps_def)
  have sub: "set (Q' s l) \<subseteq> set (Q s l)" for s l using r by (cases "s = ?s") (auto, (cases s; cases ts; auto))
  have "stop_of (ex_book x') i = stop_of b i" if "i \<in> set S" for i
    by (rule stop_of_cong [OF tag mk env]) (use rep_stop_disjoint [OF rep that] in auto)
  then have stops: "map (stop_of (ex_book x')) S = map (stop_of b) S" by simp
  have "makers (ex_book x') (Q' s l) = (if s = ?s then of_ladder lad' l else makers b (Q s l))" for s l
  proof (cases "s = ?s")
    case True
    then show ?thesis using of_ladder_ladder_of [OF rep', of ?s] r by (auto simp: fun_eq_iff)
  next
    case False
    then have s: "s = ts" by (cases s; cases ts) auto
    moreover have "maker_of (ex_book x') i = maker_of b i" if "i \<in> set (Q ts l)" for i
      by (rule mk) (use rep_disjoint [OF rep that, of ?s] in auto)
    ultimately show ?thesis using r False by (auto intro: makers_cong)
  qed
  then have "market_of (ex_book x') Q' S = snd (snd (take_liquidity (ob_domain b) tid ts limit r (market_of b Q S)))"
    using fil r stops unfolding take_liquidity_def Let_def ladder_of_view [of b Q ?s S, symmetric]
    by (auto simp: market_of_def fun_eq_iff)
  moreover have "take (ex_count x') (ex_trades x') = take c T @ map snd (ladder_reports ts tid (pd_minimum (ob_domain b)) es [])"
    using report_ok_take [of x' c] r et by (simp add: exec_to_def)
  moreover have "\<forall>i \<in> X. maker_of (ex_book x') i = maker_of b i" using mk rep_floating [OF rep] by blast
  moreover have "epochs_ok (ex_book x')" using epochs_ok_exec [OF fr] next_report_epoch_ok(1) [OF ep] rep by auto
  ultimately show ?thesis using rep' env r fr et sub keep
    by (simp add: taken_def exec_frame_def exec_to_def report_ok_def)
qed

lemma match_taker_total:
  assumes rep: "book_rep b Q S X" and ep: "epochs_ok b" and mode: "ob_allocation_mode b \<noteq> Threshold_Pro_Rata"
    and self: "\<forall>(l, ms) \<in> set (crossing ts limit (ladder_of b Q (opposite_side ts))). \<forall>m \<in> set ms. \<not> self_maker b trader m"
    and c: "c \<le> length T" and tk: "take_liquidity (ob_domain b) tid ts limit r (market_of b Q S) = (tr, r', M')"
  defines "x \<equiv> \<lparr>ex_book = b, ex_remaining = r, ex_trades = T, ex_count = c\<rparr>"
  shows "if c + length tr \<le> length T
    then \<exists>x' Q'. match_taker tid trader ts limit x = ret x' \<and> taken b Q S X T c tr r' M' x' Q'
    else match_taker tid trader ts limit x = crash Trade_Buffer_Overflow"
proof -
  let ?s = "opposite_side ts" let ?b = "next_report_epoch b"
  let ?x = "\<lparr>ex_book = ?b, ex_remaining = r, ex_trades = T, ex_count = c\<rparr>"
  have un: "match_taker tid trader ts limit x = match_loop tid trader ts limit ?x" by (simp add: match_taker_def x_def)
  obtain es lad' where fil: "fill_ladder ts limit r (ladder_of b Q ?s) = (es, r', lad')"
    and tr: "tr = map snd (ladder_reports ts tid (pd_minimum (ob_domain b)) es [])"
    using tk unfolding take_liquidity_def Let_def ladder_of_view [of b Q ?s S, symmetric] by (auto split: prod.splits)
  have lad: "ladder_of ?b Q ?s = ladder_of b Q ?s" by (rule ladder_of_cong) simp_all
  have ro: "report_ok ?x c []" by (rule next_report_epoch_report [OF ep _ c]) (use rep in auto)
  have "if c + length (ladder_reports ts tid (pd_minimum (ob_domain b)) es []) \<le> length T
    then \<exists>x' Q'. loop_result tid trader ts limit S X c ?x Q es r' lad' (ladder_reports ts tid (pd_minimum (ob_domain b)) es []) x' Q'
    else match_loop tid trader ts limit ?x = crash Trade_Buffer_Overflow"
    using match_loop_total [of ?x Q ?s "ladder_of b Q ?s" ts limit es r' lad' S X c "[]" trader "pd_minimum (ob_domain b)" tid]
      lad fil next_report_epoch_rep [OF rep] ro mode self by simp
  moreover have "loop_result tid trader ts limit S X c ?x Q es r' lad' (ladder_reports ts tid (pd_minimum (ob_domain b)) es []) x' Q'
    \<Longrightarrow> match_taker tid trader ts limit x = ret x' \<and> taken b Q S X T c tr r' M' x' Q'" for x' Q'
    using loop_result_taken [of tid trader ts limit S X c b r T Q es r' lad' x' Q', OF _ rep ep fil] tk tr un
    by (simp add: loop_result_def Let_def)
  ultimately show ?thesis using tr un by (metis length_map)
qed

end
