(* ===== verification/Order_Book_Stops.thy ===== *)
theory Order_Book_Stops
  imports Order_Book_Taker
begin

text \<open>Stop orders: \<^verbatim>\<open>activate_stop\<close> and \<^verbatim>\<open>trigger_stops\<close> refine \<open>run_stop\<close> and \<open>run_stops\<close>.\<close>

section \<open>One activation\<close>

definition act_of :: "stop_activation \<Rightarrow> activation" where
  "act_of sa = \<lparr>act_id = sa_id sa, act_executed = sa_executed sa, act_unfilled = sa_unfilled sa\<rparr>"

definition activations :: "book \<Rightarrow> activation list" where
  "activations b = map act_of (stop_activations b)"

text \<open>Room for the reports of the stops that may still run.\<close>

definition stop_room :: "book \<Rightarrow> nat list \<Rightarrow> bool" where
  "stop_room b S \<longleftrightarrow> ob_stop_activation_count b + length S \<le> slots b"

lemma map_cong_mem: "(\<And>x. x \<in> set xs \<Longrightarrow> f x = g x) \<Longrightarrow> map f xs = map g xs"
  by simp

lemma market_of_eqI:
  assumes "\<And>s l. makers b' (Q' s l) = mkt_queue M s l" "map (stop_of b') S' = mkt_stops M"
    "ob_last_execution_price b' = mkt_last M"
  shows "market_of b' Q' S' = M"
  using assms by (simp add: market_of_def fun_eq_iff)

lemma stop_of_slot [simp]: "st_slot (stop_of b i) = i"
  by (simp add: stop_of_def)

lemma remove1_stop_of:
  assumes "i \<notin> set xs" shows "remove1 (stop_of b i) (map (stop_of b) (xs @ i # ys)) = map (stop_of b) (xs @ ys)"
proof -
  have "stop_of b i \<notin> stop_of b ` set xs" using assms by (metis imageE stop_of_slot)
  then show ?thesis by (simp add: remove1_append)
qed

lemma detach_stop_market:
  assumes rep: "book_rep b Q S X" and S: "S = xs @ i # ys"
  shows "market_of (detach_stop b i) Q (xs @ ys) =
    (market_of b Q S)\<lparr>mkt_stops := remove1 (stop_of b i) (mkt_stops (market_of b Q S))\<rparr>"
proof -
  note d = detach_stop_rep [OF rep S]
  have "i \<notin> set xs" using rep S by (auto simp: book_rep_def stop_rep_def dest!: dll_distinct)
  moreover have "stop_of (detach_stop b i) j = stop_of b j" for j
    using d(2,5,7,8) by (simp add: stop_of_def same_env_def)
  moreover have "makers (detach_stop b i) (Q s l) = makers b (Q s l)" for s l by (rule makers_cong) (rule d(4))
  ultimately show ?thesis using d(3) S remove1_stop_of [of i xs b ys]
    by (simp add: market_of_def same_report_def)
qed

lemma record_activation_ok:
  assumes rep: "book_rep b Q S X" and room: "ob_stop_activation_count b < slots b"
  obtains b' where "record_activation b sa = ret b'" "book_rep b' Q S X" "same_env b b'"
    "epochs_ok b' = epochs_ok b" "market_of b' Q S = market_of b Q S"
    "activations b' = activations b @ [act_of sa]" "ob_stop_activation_count b' = Suc (ob_stop_activation_count b)"
    "ob_arena b' = ob_arena b"
proof -
  let ?n = "ob_stop_activation_count b"
  define b' where "b' = b\<lparr>ob_stop_activations := (ob_stop_activations b)[?n := sa], ob_stop_activation_count := ?n + 1\<rparr>"
  have len: "length (ob_stop_activations b) = slots b" using rep by (auto simp: book_rep_def book_shape_def arrays_ok_def)
  have occ: "occupancy b' s = occupancy b s" and lev: "level b' s l = level b s l" for s l
    by (cases s; simp add: b'_def level.simps occupancy.simps)+
  have "arrays_ok b' = arrays_ok b" by (simp add: arrays_ok_def b'_def)
  then have "book_shape b' = book_shape b" unfolding book_shape_def occ by (simp add: b'_def)
  then have "book_shape b'" using rep by auto
  then have rep': "book_rep b' Q S X"
    by (rule rep_same [OF rep]) (simp_all add: occ lev, simp_all add: b'_def bk_order_def)
  have "maker_of b' = maker_of b" "stop_of b' = stop_of b"
    by (simp_all add: fun_eq_iff maker_of_def stop_of_def b'_def bk_order_def)
  then have "market_of b' Q S = market_of b Q S" by (simp add: market_of_def makers_def) (simp add: b'_def)
  moreover have "activations b' = activations b @ [act_of sa]"
    using room len by (simp add: activations_def stop_activations_def b'_def take_Suc_conv_app_nth)
  ultimately show thesis
    using that [of b'] rep' room len by (simp add: record_activation_def b'_def same_env_def epochs_ok_def)
qed

text \<open>The stops other than a slot that is written do not see the write.\<close>

lemma stop_of_cong2:
  assumes "tag_of b' i = tag_of b i" "maker_of b' i = maker_of b i" "ob_domain b' = ob_domain b"
    "ob_stop_trigger_prices b' ! i = ob_stop_trigger_prices b ! i" "ob_stop_limit_prices b' ! i = ob_stop_limit_prices b ! i"
  shows "stop_of b' i = stop_of b i"
proof -
  have "ord_id (bk_order b' i) = ord_id (bk_order b i)" "o_rem b' i = o_rem b i" using assms(2) by (auto simp: maker_of_def)
  then show ?thesis using assms(1,3-) by (simp add: stop_of_def tag_of_def is_stop_market_def)
qed

lemma tag_of_link_at_tail [simp]: "tag_of (link_at_tail b i s l r) j = tag_of b j"
  by (simp add: link_at_tail_def Let_def)

lemma stop_of_settle:
  assumes "j \<noteq> i" shows "stop_of (link_at_tail (set_rest_arrays b i tr d) i s l r) j = stop_of b j"
proof -
  let ?c = "set_rest_arrays b i tr d" let ?b = "link_at_tail ?c i s l r"
  have st: "same_stops ?c ?b" and en: "same_env ?c ?b" by simp_all
  have "tag_of ?b j = tag_of b j" by (simp) (simp add: tag_of_def)
  moreover have "maker_of ?b j = maker_of b j"
    unfolding maker_of_link_at_tail using assms by (simp add: maker_of_def) (simp add: set_rest_arrays_def)
  ultimately show ?thesis
    using st en set_rest_arrays_other(3,6) [OF assms] by (intro stop_of_cong2) (auto simp: same_stops_def same_env_def)
qed

lemma stop_of_upd_order: assumes "j \<noteq> i" shows "stop_of (upd_order b i f) j = stop_of b j"
proof -
  have "bk_order (upd_order b i f) j = bk_order b j"
    using assms by (simp add: bk_order_def upd_order_def order_at_def set_order_at_def)
  then show ?thesis by (simp add: stop_of_def)
qed

lemma market_of_join:
  assumes mk: "\<And>j. maker_of b' j = (if j = i then new_maker i oid tr r d else maker_of b j)"
    and fresh: "i \<notin> queued Q" "i \<notin> set S" and st: "\<And>j. j \<noteq> i \<Longrightarrow> stop_of b' j = stop_of b j"
    and lp: "ob_last_execution_price b' = ob_last_execution_price b"
  shows "market_of b' (setq Q s l (Q s l @ [i])) S = join_queue s l (new_maker i oid tr r d) (market_of b Q S)"
proof (rule market_of_eqI)
  have same: "makers b' (Q s' l') = makers b (Q s' l')" for s' l'
    by (rule makers_cong) (use mk fresh in \<open>auto simp: queued_def\<close>)
  then show "makers b' (setq Q s l (Q s l @ [i]) s' l') = mkt_queue (join_queue s l (new_maker i oid tr r d) (market_of b Q S)) s' l'" for s' l'
    using mk [of i] by (simp add: join_queue_def market_of_def)
  show "map (stop_of b') S = mkt_stops (join_queue s l (new_maker i oid tr r d) (market_of b Q S))"
    using st fresh by (simp add: market_of_def) metis
qed (use lp in \<open>simp add: join_queue_def market_of_def\<close>)

lemma rep_upd_floating:
  assumes rep: "book_rep b Q S X" and i: "i \<in> X" shows "book_rep (upd_order b i f) Q S X"
proof (rule rep_frame [OF rep])
  have sh: "book_shape b" and sl: "i < slots b" using rep rep_slot [OF rep, of i] i by auto
  have no: "j \<noteq> i" if "j \<in> queued Q \<union> set S" for j using rep i that by (auto simp: book_rep_def)
  show "book_shape (upd_order b i f)" using sh by simp
  show "same_env b (upd_order b i f)" by (simp add: same_env_def)
  show "\<And>j. j \<in> queued Q \<Longrightarrow> bk_order (upd_order b i f) j = bk_order b j \<and> o_disp (upd_order b i f) j = o_disp b j \<and>
    o_peak (upd_order b i f) j = o_peak b j"
    using no by (simp add: bk_order_upd_order [OF sh sl])
  show "\<And>j. j \<in> set S \<Longrightarrow> bk_order (upd_order b i f) j = bk_order b j \<and>
      ob_stop_limit_prices (upd_order b i f) ! j = ob_stop_limit_prices b ! j \<and>
      ob_stop_prev (upd_order b i f) ! j = ob_stop_prev b ! j \<and> ob_stop_next (upd_order b i f) ! j = ob_stop_next b ! j"
    using no by (simp add: bk_order_upd_order [OF sh sl])
qed (use rep in \<open>auto simp: book_rep_def\<close>)

lemma rest_existing_ok:
  fixes oid :: order_id and s :: side
  assumes rep: "book_rep b Q S {i}" and h: "h_index h = i" and l: "l < ticks b" and r: "r \<noteq> 0" "r \<le> ob_max_quantity b"
  defines "b' \<equiv> rest_existing b h oid 0 s l r r"
  shows "book_rep b' (setq Q s l (Q s l @ [i])) S {}" "same_env b b'" "same_report b b'"
    "market_of b' (setq Q s l (Q s l @ [i])) S = join_queue s l (new_maker i oid 0 r r) (market_of b Q S)"
proof -
  let ?b1 = "upd_order b i (\<lambda>_. resting_order b oid s l r)"
  have sh: "book_shape b" and sl: "i < slots b" using rep rep_slot [OF rep, of i] by auto
  have fresh: "i \<notin> queued Q" "i \<notin> set S" using rep by (auto simp: book_rep_def)
  have b': "b' = link_at_tail (set_rest_arrays ?b1 i 0 r) i s l r" by (simp add: b'_def rest_existing_def h)
  have rep1: "book_rep ?b1 Q S {i}" by (rule rep_upd_floating [OF rep]) simp
  have same: "same_env b ?b1" "same_report b ?b1" by (simp_all add: same_env_def same_report_def)
  have ord: "bk_order ?b1 i = resting_order b oid s l r" by (simp add: bk_order_upd_order [OF sh sl])
  note st = settle_rep [OF rep1 _ _ ord, where tr = 0 and d = r, folded b']
  show "book_rep b' (setq Q s l (Q s l @ [i])) S {}" using st(1) l r by simp
  show env: "same_env b b'" "same_report b b'"
    using same_env_trans [OF same(1) st(2)] same_report_trans [OF same(2) st(3)] l r by simp_all
  have mk: "maker_of b' j = (if j = i then new_maker i oid 0 r r else maker_of b j)" for j
  proof -
    have "maker_of ?b1 j = maker_of b j" if "j \<noteq> i" using that by (simp add: maker_of_def bk_order_upd_order [OF sh sl])
    then show ?thesis using st(4) [of j] l r by (simp add: new_maker_def)
  qed
  show "market_of b' (setq Q s l (Q s l @ [i])) S = join_queue s l (new_maker i oid 0 r r) (market_of b Q S)"
    by (rule market_of_join [OF mk fresh])
      (use env(2) in \<open>simp_all add: b' stop_of_settle stop_of_upd_order same_report_def\<close>)
qed

lemma release_floating_ok:
  assumes rep: "book_rep b Q S {i}"
  defines "b' \<equiv> release_slot b (handle_at (ob_arena b) i)"
  shows "book_rep b' Q S {}" "same_env b b'" "same_report b b'" "market_of b' Q S = market_of b Q S"
proof -
  show "book_rep b' Q S {}" using release_slot_rep [OF rep, of i] by (simp add: b'_def)
  show "same_env b b'" "same_report b b'" by (simp_all add: b'_def same_env_def same_report_def)
  have "maker_of b' = maker_of b" "stop_of b' = stop_of b"
    by (simp_all add: fun_eq_iff b'_def stop_of_def)
  then show "market_of b' Q S = market_of b Q S" by (simp add: market_of_def makers_def) (simp add: b'_def)
qed

text \<open>
  \<open>moved b T c tr M' b' S' T'\<close>: the book \<open>b'\<close> has stops \<open>S'\<close> and market \<open>M'\<close>, and the buffer \<open>T'\<close> is \<open>T\<close> with the
  trades \<open>tr\<close> written from position \<open>c\<close> on.
\<close>

definition moved :: "book \<Rightarrow> trade list \<Rightarrow> nat \<Rightarrow> trade list \<Rightarrow> market \<Rightarrow> book \<Rightarrow> queues \<Rightarrow> nat list \<Rightarrow> trade list \<Rightarrow> bool" where
  "moved b T c tr M' b' Q' S' T' \<longleftrightarrow> book_rep b' Q' S' {} \<and> market_of b' Q' S' = M' \<and> epochs_ok b' \<and>
     same_env b b' \<and> length T' = length T \<and> take (c + length tr) T' = take c T @ tr"

lemma moved_trans:
  assumes "moved b T c tr M' b' Q' S' T'" "moved b' T' (c + length tr) tr' M'' b'' Q'' S'' T''"
  shows "moved b T c (tr @ tr') M'' b'' Q'' S'' T''"
  using assms same_env_trans by (fastforce simp: moved_def add.assoc)

definition free_trading :: "book \<Rightarrow> bool" where
  "free_trading b \<longleftrightarrow> ob_allocation_mode b \<noteq> Threshold_Pro_Rata \<and> ob_self_trade_policy b \<noteq> STP_Cancel_Taker"

lemma free_trading_env: "same_env b b' \<Longrightarrow> free_trading b' = free_trading b"
  by (simp add: free_trading_def same_env_def)

lemma free_trading_self: "free_trading b \<Longrightarrow> \<not> self_maker b trader m"
  by (simp add: free_trading_def self_maker_def)

lemma rep_stop_limit:
  assumes "book_rep b Q S X" "i \<in> set S" "st_limit (stop_of b i) = None"
  shows "is_stop_market (bk_order b i)"
  using rep_stop [OF assms(1,2)] assms(3) by (auto simp: stop_ok_def stop_of_def split: if_splits)

lemma take_liquidity_le:
  assumes rep: "book_rep b Q S X"
    and tk: "take_liquidity (ob_domain b) tid ts limit r (market_of b Q S) = (tr, r', M')"
  shows "r' \<le> r"
proof -
  let ?s = "opposite_side ts"
  obtain es lad' where "fill_ladder ts limit r (ladder_of b Q ?s) = (es, r', lad')"
    using tk unfolding take_liquidity_def Let_def ladder_of_view [of b Q ?s S, symmetric] by (auto split: prod.splits)
  from fill_ladder_conserves [OF this ladder_of_ok [OF rep]] have "unat r' \<le> unat r" by linarith
  then show ?thesis by (simp only: word_le_nat_alt)
qed

lemma activate_stop_eq:
  fixes b :: book and i :: nat
  assumes limit: "st_limit (stop_of b i) = None \<longrightarrow> is_stop_market (bk_order b i)"
  defines "st \<equiv> stop_of b i" and "h \<equiv> handle_at (ob_arena b) i"
  shows "activate_stop b h T c =
    run_bind (match_taker (st_id st) 0 (st_side st) (st_limit st)
        \<lparr>ex_book = detach_stop b i, ex_remaining = st_quantity st, ex_trades = T, ex_count = c\<rparr>) (\<lambda>x.
      let r = ex_remaining x; rests = (\<not> is_stop_market (bk_order b i) \<and> r \<noteq> 0);
          hd = (if rests then h else kInvalidHandle)
      in run_bind (record_activation (if rests then rest_existing (ex_book x) h (st_id st) 0 (st_side st) (the (st_limit st)) r r
                      else release_slot (ex_book x) h)
            \<lparr>sa_id = st_id st, sa_executed = st_quantity st - r, sa_unfilled = r, sa_handle = hd\<rparr>) (\<lambda>b3.
         ret (\<lparr>sr_reason = RR_None, sr_executed = st_quantity st - r, sr_unfilled = r, sr_trade_count = ex_count x, sr_handle = hd\<rparr>,
              b3, ex_trades x, ex_count x)))"
proof -
  have st: "st_id st = ord_id (bk_order b i)" "st_side st = decode_side (ord_encoded (bk_order b i))" "st_quantity st = o_rem b i"
    "st_limit st = (if is_stop_market (bk_order b i) then None else index_of (ob_domain b) (ob_stop_limit_prices b ! i))"
    by (simp_all add: st_def stop_of_def)
  have lim: "st_limit st = None \<Longrightarrow> is_stop_market (bk_order b i)" using limit by (simp add: st_def)
  show ?thesis unfolding activate_stop_def Let_def st h_def handle_at_fields
    by (rule arg_cong2 [where f = run_bind]) (use lim in \<open>auto simp: fun_eq_iff st\<close>)
qed

lemma activate_stop_total:
  assumes rep: "book_rep b Q S {}" and S: "S = xs @ i # ys" and ep: "epochs_ok b" and free: "free_trading b"
    and c: "c \<le> length T" and room: "ob_stop_activation_count b < slots b"
    and spec: "run_stop (ob_domain b) (stop_of b i) (market_of b Q S) = (tr, a, M')"
  shows "if c + length tr \<le> length T
    then \<exists>hd b' Q' T'. activate_stop b (handle_at (ob_arena b) i) T c =
          ret (\<lparr>sr_reason = RR_None, sr_executed = act_executed a, sr_unfilled = act_unfilled a,
                 sr_trade_count = c + length tr, sr_handle = hd\<rparr>, b', T', c + length tr) \<and>
        moved b T c tr M' b' Q' (xs @ ys) T' \<and> activations b' = activations b @ [a] \<and>
        ob_stop_activation_count b' = Suc (ob_stop_activation_count b)
    else activate_stop b (handle_at (ob_arena b) i) T c = crash Trade_Buffer_Overflow"
proof -
  let ?b1 = "detach_stop b i" and ?st = "stop_of b i" and ?h = "handle_at (ob_arena b) i"
  note d = detach_stop_rep [OF rep S]
  have iS: "i \<in> set S" by (simp add: S)
  have limit: "st_limit ?st = None \<longrightarrow> is_stop_market (bk_order b i)" using rep_stop_limit [OF rep iS] by blast
  note eq = activate_stop_eq [OF limit]
  obtain r' M1 where tk: "take_liquidity (ob_domain b) (st_id ?st) (st_side ?st) (st_limit ?st) (st_quantity ?st)
      (market_of ?b1 Q (xs @ ys)) = (tr, r', M1)"
    and a: "a = \<lparr>act_id = st_id ?st, act_executed = st_quantity ?st - r', act_unfilled = r'\<rparr>"
    and M': "M' = (case st_limit ?st of None \<Rightarrow> M1 | Some l \<Rightarrow> if r' = 0 then M1
               else join_queue (st_side ?st) l (new_maker (st_slot ?st) (st_id ?st) 0 r' r') M1)"
    using spec unfolding run_stop_def detach_stop_market [OF rep S] by (auto simp: Let_def split: prod.splits)
  let ?x = "\<lparr>ex_book = ?b1, ex_remaining = st_quantity ?st, ex_trades = T, ex_count = c\<rparr>"
  have rep1: "book_rep ?b1 Q (xs @ ys) {i}" using d(1) by simp
  have ep1: "epochs_ok ?b1" using ep epochs_ok_same [OF d(3,2)] by simp
  have free1: "free_trading ?b1" using free free_trading_env [OF d(2)] by simp
  have dom: "ob_domain ?b1 = ob_domain b" using d(2) by (simp add: same_env_def)
  have total: "if c + length tr \<le> length T
    then \<exists>x' Q'. match_taker (st_id ?st) 0 (st_side ?st) (st_limit ?st) ?x = ret x' \<and> taken ?b1 Q (xs @ ys) {i} T c tr r' M1 x' Q'
    else match_taker (st_id ?st) 0 (st_side ?st) (st_limit ?st) ?x = crash Trade_Buffer_Overflow"
    by (rule match_taker_total [OF rep1 ep1 _ _ c tk [folded dom]])
      (use free1 in \<open>auto simp: free_trading_def free_trading_self\<close>)
  have st: "st_id ?st = ord_id (bk_order b i)" "st_side ?st = decode_side (ord_encoded (bk_order b i))" "st_quantity ?st = o_rem b i"
    "st_limit ?st = (if is_stop_market (bk_order b i) then None else index_of (ob_domain b) (ob_stop_limit_prices b ! i))"
    by (simp_all add: stop_of_def)
  show ?thesis
  proof (cases "c + length tr \<le> length T")
    case False
    then have "activate_stop b ?h T c = crash Trade_Buffer_Overflow" using total unfolding eq by simp
    then show ?thesis using False by simp
  next
    case True
    then obtain x' Q' where run: "match_taker (st_id ?st) 0 (st_side ?st) (st_limit ?st) ?x = ret x'"
      and tkn: "taken ?b1 Q (xs @ ys) {i} T c tr r' M1 x' Q'" using total by auto
    let ?b2 = "ex_book x'"
    have rep2: "book_rep ?b2 Q' (xs @ ys) {i}" and env2: "same_env ?b1 ?b2" and m2: "market_of ?b2 Q' (xs @ ys) = M1"
      and ep2: "epochs_ok ?b2" and keep: "keeps ?b1 ?b2" and rem: "ex_remaining x' = r'"
      using tkn by (auto simp: taken_def)
    have "i \<in> live_set (ob_arena ?b2)" using rep2 by (simp add: book_rep_def)
    then have h: "?h = handle_at (ob_arena ?b2) i" using keep d(6) by (simp add: keeps_def)
    define rests where "rests \<longleftrightarrow> \<not> is_stop_market (bk_order b i) \<and> r' \<noteq> 0"
    define b3 where "b3 = (if rests then rest_existing ?b2 ?h (st_id ?st) 0 (st_side ?st) (the (st_limit ?st)) r' r'
      else release_slot ?b2 ?h)"
    have "\<exists>Q3. book_rep b3 Q3 (xs @ ys) {} \<and> same_env ?b2 b3 \<and> same_report ?b2 b3 \<and> market_of b3 Q3 (xs @ ys) = M'"
    proof (cases rests)
      case True
      then obtain l where l: "st_limit ?st = Some l" using rep_stop_limit [OF rep iS] by (auto simp: rests_def)
      have "l < ticks b" using l rep index_of_less [of "ob_domain b"]
        by (auto simp: st book_rep_def book_shape_def split: if_splits)
      then have lt: "l < ticks ?b2" using env2 dom by (simp add: same_env_def)
      have "r' \<le> o_rem b i"
      proof -
        have "r' \<le> st_quantity ?st" by (rule take_liquidity_le [OF rep1 tk [folded dom]])
        then show ?thesis by (simp add: st)
      qed
      then have "r' \<le> ob_max_quantity ?b2"
        using rep_stop [OF rep iS] env2 d(2) by (auto simp: stop_ok_def same_env_def)
      then show ?thesis using rest_existing_ok [OF rep2 _ lt, of ?h r' "st_id ?st" "st_side ?st"] True l m2
        by (auto simp: b3_def rests_def M')
    next
      case False
      then have "M' = M1" using M' by (auto simp: rests_def st split: option.splits)
      then show ?thesis using release_floating_ok [OF rep2] False m2 h by (auto simp: b3_def)
    qed
    then obtain Q3 where r3: "book_rep b3 Q3 (xs @ ys) {}" and env3: "same_env ?b2 b3" and rp3: "same_report ?b2 b3"
      and m3: "market_of b3 Q3 (xs @ ys) = M'" by blast
    let ?sa = "\<lambda>hd. \<lparr>sa_id = st_id ?st, sa_executed = st_quantity ?st - r', sa_unfilled = r', sa_handle = hd\<rparr>"
    let ?hd = "if rests then ?h else kInvalidHandle"
    have acts: "ob_stop_activations b3 = ob_stop_activations b" "ob_stop_activation_count b3 = ob_stop_activation_count b"
      using tkn rp3 d(3) by (auto simp: taken_def same_report_def)
    have env: "same_env b b3" using same_env_trans [OF same_env_trans [OF d(2) env2] env3] .
    have "ob_stop_activation_count b3 < slots b3" using room acts env by (simp add: same_env_def)
    then obtain b' where b': "record_activation b3 (?sa ?hd) = ret b'" "book_rep b' Q3 (xs @ ys) {}" "same_env b3 b'"
      "epochs_ok b' = epochs_ok b3" "market_of b' Q3 (xs @ ys) = market_of b3 Q3 (xs @ ys)"
      "activations b' = activations b3 @ [act_of (?sa ?hd)]" "ob_stop_activation_count b' = Suc (ob_stop_activation_count b3)"
      using record_activation_ok [OF r3] by metis
    have "epochs_ok b'" using b'(4) epochs_ok_same [OF rp3 env3] ep2 by simp
    then have "moved b T c tr M' b' Q3 (xs @ ys) (ex_trades x')"
      using b'(2,5) m3 same_env_trans [OF env b'(3)] tkn by (auto simp: moved_def taken_def)
    moreover have "activations b' = activations b @ [a]"
      using b'(6) acts a by (simp add: activations_def stop_activations_def act_of_def)
    moreover have "activate_stop b ?h T c = ret (\<lparr>sr_reason = RR_None, sr_executed = act_executed a, sr_unfilled = act_unfilled a,
        sr_trade_count = c + length tr, sr_handle = ?hd\<rparr>, b', ex_trades x', c + length tr)"
      unfolding eq run run_bind_ret Let_def rem using b'(1) tkn
      by (simp add: b3_def rests_def a taken_def cong: if_cong)
    ultimately show ?thesis using True b'(7) acts by auto
  qed
qed

section \<open>The cascade\<close>

lemma find_triggered_dseg:
  assumes "dseg prv ((!) (ob_stop_next b)) p q kInvalidIndex" "kInvalidIndex \<notin> set q"
  shows "find_triggered b (hd (q @ [kInvalidIndex])) =
    ret (case find (\<lambda>i. triggered (ob_last_execution_price b) (stop_of b i)) q of None \<Rightarrow> kInvalidIndex | Some i \<Rightarrow> i)"
  using assms
proof (induction q arbitrary: p)
  case Nil
  then show ?case by (subst find_triggered.simps) simp
next
  case (Cons i q)
  have t: "stop_is_triggered b (decode_side (ord_encoded (bk_order b i))) (ob_stop_trigger_prices b ! i) =
    triggered (ob_last_execution_price b) (stop_of b i)"
    by (cases "ob_last_execution_price b") (simp_all add: stop_is_triggered_def triggered_def stop_of_def)
  show ?case using Cons.IH [of i] Cons.prems by (subst find_triggered.simps) (auto simp: t)
qed

lemma find_triggered_ok:
  assumes "book_rep b Q S X"
  shows "find_triggered b (ob_stop_head b) =
    ret (case find (\<lambda>i. triggered (ob_last_execution_price b) (stop_of b i)) S of None \<Rightarrow> kInvalidIndex | Some i \<Rightarrow> i)"
  using assms find_triggered_dseg [of "(!) (ob_stop_prev b)" b kInvalidIndex S]
  by (auto simp: book_rep_def stop_rep_def dll_def)

lemma find_map: "find P (map f xs) = map_option f (find (\<lambda>x. P (f x)) xs)"
  by (induction xs) auto

lemma find_split: "find P xs = Some x \<Longrightarrow> \<exists>ys zs. xs = ys @ x # zs"
  by (metis find_Some_iff nth_mem split_list)

theorem trigger_stops_total:
  assumes "book_rep b Q S {}" "epochs_ok b" "free_trading b" "c \<le> length T" "stop_room b S"
    and "run_stops (ob_domain b) (market_of b Q S) = (tr, acts, M')"
  shows "if c + length tr \<le> length T
    then \<exists>b' Q' S' T'. trigger_stops b T c = ret (b', T', c + length tr) \<and>
      moved b T c tr M' b' Q' S' T' \<and> activations b' = activations b @ acts
    else trigger_stops b T c = crash Trade_Buffer_Overflow"
  using assms
proof (induction "length S" arbitrary: b Q S c T tr acts M' rule: less_induct)
  case less
  note rep = less(2) and ep = less(3) and free = less(4) and c = less(5) and room = less(6) and spec = less(7)
  let ?tr = "\<lambda>i. triggered (ob_last_execution_price b) (stop_of b i)"
  have fm: "find (triggered (mkt_last (market_of b Q S))) (mkt_stops (market_of b Q S)) = map_option (stop_of b) (find ?tr S)"
    by (simp add: market_of_def find_map)
  show ?case
  proof (cases "find ?tr S")
    case None
    then have "trigger_stops b T c = ret (b, T, c)" using find_triggered_ok [OF rep] by (subst trigger_stops.simps) simp
    moreover have "tr = []" "acts = []" "M' = market_of b Q S" using spec fm None by (auto simp: run_stops.simps)
    ultimately show ?thesis using c rep ep by (auto simp: moved_def)
  next
    case (Some i)
    then obtain xs ys where S: "S = xs @ i # ys" using find_split by metis
    obtain tr1 a M1 where one: "run_stop (ob_domain b) (stop_of b i) (market_of b Q S) = (tr1, a, M1)" by (metis prod_cases3)
    obtain tr2 as where rest: "run_stops (ob_domain b) M1 = (tr2, as, M')" "tr = tr1 @ tr2" "acts = a # as"
      using spec fm Some one by (subst (asm) run_stops.simps) (auto split: prod.splits)
    have i: "i \<noteq> kInvalidIndex" using rep S by (auto simp: book_rep_def stop_rep_def dll_def)
    have un: "trigger_stops b T c = run_bind (activate_stop b (handle_at (ob_arena b) i) T c)
        (\<lambda>(_, b', T', c'). trigger_stops b' T' c')"
      using find_triggered_ok [OF rep] Some i by (subst trigger_stops.simps) simp
    have rm: "ob_stop_activation_count b < slots b" using room by (simp add: stop_room_def S)
    note act = activate_stop_total [OF rep S ep free c rm one]
    show ?thesis
    proof (cases "c + length tr1 \<le> length T")
      case False
      then show ?thesis using act un rest(2) by simp
    next
      case True
      then obtain hd b1 Q1 T1 where b1: "activate_stop b (handle_at (ob_arena b) i) T c =
          ret (\<lparr>sr_reason = RR_None, sr_executed = act_executed a, sr_unfilled = act_unfilled a,
                 sr_trade_count = c + length tr1, sr_handle = hd\<rparr>, b1, T1, c + length tr1)"
        and mv: "moved b T c tr1 M1 b1 Q1 (xs @ ys) T1" and ac: "activations b1 = activations b @ [a]"
        and cnt: "ob_stop_activation_count b1 = Suc (ob_stop_activation_count b)" using act by auto
      have env: "same_env b b1" using mv by (simp add: moved_def)
      have "if (c + length tr1) + length tr2 \<le> length T1
        then \<exists>b' Q' S' T'. trigger_stops b1 T1 (c + length tr1) = ret (b', T', (c + length tr1) + length tr2) \<and>
          moved b1 T1 (c + length tr1) tr2 M' b' Q' S' T' \<and> activations b' = activations b1 @ as
        else trigger_stops b1 T1 (c + length tr1) = crash Trade_Buffer_Overflow"
      proof (rule less(1) [of "xs @ ys" b1 Q1])
        show "length (xs @ ys) < length S" by (simp add: S)
        show "book_rep b1 Q1 (xs @ ys) {}" "epochs_ok b1" using mv by (simp_all add: moved_def)
        show "free_trading b1" using free free_trading_env [OF env] by simp
        show "c + length tr1 \<le> length T1" using mv True by (simp add: moved_def)
        show "stop_room b1 (xs @ ys)" using room cnt env by (simp add: stop_room_def S same_env_def)
        show "run_stops (ob_domain b1) (market_of b1 Q1 (xs @ ys)) = (tr2, as, M')"
          using rest(1) mv env by (simp add: moved_def same_env_def)
      qed
      moreover have "length T1 = length T" using mv by (simp add: moved_def)
      moreover have "trigger_stops b T c = trigger_stops b1 T1 (c + length tr1)" using un b1 by simp
      ultimately show ?thesis
        using moved_trans [OF mv] ac rest(2,3) by (auto simp: add.assoc split: if_splits) blast
    qed
  qed
qed

end
