(* ===== verification/Order_Book_Submit.thy ===== *)
theory Order_Book_Submit
  imports Order_Book_Stops
begin

text \<open>The order entry points refine the market specification; construction establishes the invariant.\<close>

section \<open>Admission\<close>

lemma reset_frame [simp]:
  "occupancy (reset_stop_activations b) s = occupancy b s" "level (reset_stop_activations b) s l = level b s l"
  "bk_order (reset_stop_activations b) = bk_order b" "maker_of (reset_stop_activations b) = maker_of b"
  "ob_domain (reset_stop_activations b) = ob_domain b" "ob_arena (reset_stop_activations b) = ob_arena b"
  "ob_max_quantity (reset_stop_activations b) = ob_max_quantity b"
  "ob_trading_state (reset_stop_activations b) = ob_trading_state b"
  "ob_self_trade_policy (reset_stop_activations b) = ob_self_trade_policy b"
  "ob_stop_activation_count (reset_stop_activations b) = 0"
  "stop_of (reset_stop_activations b) = stop_of b" "market_of (reset_stop_activations b) Q S = market_of b Q S"
  "same_env b (reset_stop_activations b)" "epochs_ok (reset_stop_activations b) = epochs_ok b"
  "activations (reset_stop_activations b) = []"
proof -
  show o: "occupancy (reset_stop_activations b) s = occupancy b s" and l: "level (reset_stop_activations b) s l = level b s l"
    by (cases s; simp add: reset_stop_activations_def level.simps occupancy.simps)+
  show k: "bk_order (reset_stop_activations b) = bk_order b" by (simp add: fun_eq_iff reset_stop_activations_def bk_order_def)
  show m: "maker_of (reset_stop_activations b) = maker_of b"
    by (simp add: fun_eq_iff maker_of_def k) (simp add: reset_stop_activations_def)
  show s: "stop_of (reset_stop_activations b) = stop_of b"
    by (simp add: fun_eq_iff stop_of_def k) (simp add: reset_stop_activations_def)
  show "market_of (reset_stop_activations b) Q S = market_of b Q S"
    by (simp add: market_of_def makers_def m s) (simp add: reset_stop_activations_def)
qed (simp_all add: reset_stop_activations_def same_env_def epochs_ok_def activations_def stop_activations_def)

lemma best_index_occ: "best_index b s = (case s of Buy \<Rightarrow> last_set (occupancy b Buy) | Sell \<Rightarrow> first_set (occupancy b Sell))"
  by (cases s) (simp_all add: best_index.simps occupancy.simps)

lemma reset_best [simp]: "best_index (reset_stop_activations b) s = best_index b s"
  by (cases s) (simp_all add: best_index_occ)

lemma reset_next_level [simp]: "next_level (reset_stop_activations b) s l = next_level b s l"
  by (cases s) (simp_all add: next_level.simps)

lemma reset_can_fully_fill [simp]: "can_fully_fill (reset_stop_activations b) s l q = can_fully_fill b s l q"
proof -
  have "can_fully_fill_loop (reset_stop_activations b) s l q a m = can_fully_fill_loop b s l q a m" for a m
    by (induction b s l q a m rule: can_fully_fill_loop.induct)
      (subst (1 2) can_fully_fill_loop.simps, auto simp: Let_def split: option.splits)
  then show ?thesis by (simp add: can_fully_fill_def)
qed

lemma reset_preflight [simp]:
  "preflight (reset_stop_activations b) rs q = preflight b rs q"
  "preflight_limit (reset_stop_activations b) rs p q tif = preflight_limit b rs p q tif"
  "preflight_market (reset_stop_activations b) rs q = preflight_market b rs q"
  "preflight_stop (reset_stop_activations b) rs lp q = preflight_stop b rs lp q"
  "required_trade_capacity (reset_stop_activations b) = required_trade_capacity b"
  "has_crossing_order (reset_stop_activations b) s l = has_crossing_order b s l"
  "arena_exhausted (reset_stop_activations b) = arena_exhausted b"
proof -
  show p: "preflight (reset_stop_activations b) rs q = preflight b rs q" for rs q by (simp add: preflight_def)
  show h: "has_crossing_order (reset_stop_activations b) s l = has_crossing_order b s l" for s l
    by (simp add: has_crossing_order_def)
  show a: "arena_exhausted (reset_stop_activations b) = arena_exhausted b" by (simp add: arena_exhausted_def)
  show "preflight_limit (reset_stop_activations b) rs p q tif = preflight_limit b rs p q tif"
    unfolding preflight_limit_def p h a reset_frame reset_can_fully_fill ..
  show "preflight_stop (reset_stop_activations b) rs lp q = preflight_stop b rs lp q"
    unfolding preflight_stop_def p a reset_frame ..
qed (simp_all add: preflight_market_def preflight_def required_trade_capacity_def)

lemma reset_rep: assumes "book_rep b Q S X" shows "book_rep (reset_stop_activations b) Q S X"
proof -
  have "arrays_ok (reset_stop_activations b) = arrays_ok b" by (simp add: arrays_ok_def reset_stop_activations_def)
  then have "book_shape (reset_stop_activations b) = book_shape b"
    unfolding book_shape_def by (simp) (simp add: reset_stop_activations_def)
  then have "book_shape (reset_stop_activations b)" using assms by auto
  then show ?thesis by (rule rep_same [OF assms]) (simp_all, simp_all add: reset_stop_activations_def)
qed

section \<open>Resting\<close>

lemma rest_ok:
  assumes rep: "book_rep b Q S X" and room: "\<not> arena_exhausted b" and l: "l < ticks b"
    and r: "r \<noteq> 0" "r \<le> ob_max_quantity b" "d \<noteq> 0" "d \<le> r"
  obtains i b' where "rest b oid tr s l r d = ret (handle_at (ob_arena b) i, b')"
    "i < slots b" "i \<notin> live_set (ob_arena b)" "book_rep b' (setq Q s l (Q s l @ [i])) S X" "same_env b b'" "same_report b b'"
    "market_of b' (setq Q s l (Q s l @ [i])) S = join_queue s l (new_maker i oid tr r d) (market_of b Q S)"
proof -
  obtain i b' where run: "rest b oid tr s l r d = ret (handle_at (ob_arena b) i, b')"
    and i: "i < slots b" "i \<notin> live_set (ob_arena b)" and b': "book_rep b' (setq Q s l (Q s l @ [i])) S X"
    "same_env b b'" "same_report b b'"
    and mk: "\<And>j. maker_of b' j = (if j = i then \<lparr>mk_slot = i, mk_id = oid, mk_trader = tr, mk_rem = r, mk_disp = d, mk_peak = d\<rparr>
       else maker_of b j)" by (rule rest_rep [OF rep room l r, of oid tr s]) blast
  let ?ac = "acquire (ob_arena b) (resting_order b oid s l r)"
  have ix: "h_index (acq_handle (fst ?ac)) = i" and form: "b' = link_at_tail (set_rest_arrays (b\<lparr>ob_arena := snd ?ac\<rparr>) i tr d) i s l r"
    using run by (auto simp: rest_def Let_def crash_def ret_def split: prod.splits if_splits)
  have "bk_order (b\<lparr>ob_arena := snd ?ac\<rparr>) j = bk_order b j" if "j \<noteq> i" for j
    using that ix by (auto simp: acquire_def Let_def bk_order_def order_at_def split: if_splits)
  then have "stop_of (b\<lparr>ob_arena := snd ?ac\<rparr>) j = stop_of b j" if "j \<noteq> i" for j
    using that by (simp add: stop_of_def)
  then have st: "stop_of b' j = stop_of b j" if "j \<noteq> i" for j using that by (simp add: form stop_of_settle)
  have fresh: "i \<notin> queued Q" "i \<notin> set S" using i(2) rep by (auto simp: book_rep_def)
  have mk': "maker_of b' j = (if j = i then new_maker i oid tr r d else maker_of b j)" for j using mk by (simp add: new_maker_def)
  show thesis using that [OF run i b' market_of_join [OF mk' fresh st]] b'(3) by (simp add: same_report_def)
qed

lemma fill_ladder_levels:
  "fill_ladder ts limit r lad = (es, r', lad') \<Longrightarrow> fst ` set lad' \<subseteq> fst ` set lad"
proof (induction ts limit r lad arbitrary: es r' lad' rule: fill_ladder.induct)
  case (2 ts limit r l ms lad)
  obtain es1 r1 ms' where f: "fill r ms = (es1, r1, ms')" by (metis prod_cases3)
  obtain es2 r2 lad2 where g: "fill_ladder ts limit r1 lad = (es2, r2, lad2)" by (metis prod_cases3)
  show ?case
  proof (cases "r = 0 \<or> \<not> within ts limit l")
    case False
    then have "fst ` set lad2 \<subseteq> fst ` set lad" using 2(1) [of "(es1, r1, ms')" es1 "(r1, ms')" r1 ms'] f g by auto
    moreover have "fst ` set lad' \<subseteq> insert l (fst ` set lad2)" using 2(2) f g False by (auto split: if_splits)
    ultimately show ?thesis by simp blast
  qed (use 2(2) in auto)
qed simp

lemma fill_ladder_exhausts:
  assumes "fill_ladder ts limit r ((k, ms) # lad) = (es, r', lad')" "r' \<noteq> 0" "within ts limit k"
    "list_all maker_ok ms" "k \<notin> fst ` set lad"
  shows "k \<notin> fst ` set lad'"
proof -
  obtain es1 r1 ms' where f: "fill r ms = (es1, r1, ms')" by (metis prod_cases3)
  obtain es2 r2 lad2 where g: "fill_ladder ts limit r1 lad = (es2, r2, lad2)" by (metis prod_cases3)
  have "r \<noteq> 0" using assms(1,2) by auto
  then have e: "r' = r2" "lad' = (if ms' = [] then lad2 else (k, ms') # lad2)" using assms(1,3) f g by auto
  have "r1 \<noteq> 0" using g e(1) assms(2) by auto
  then have "ms' = []" using fill_conserves(4) [OF f assms(4)] by simp
  then show ?thesis using e(2) fill_ladder_levels [OF g] assms(5) by auto
qed

lemma ladder_of_keys: "map fst (ladder_of b Q s) = filter (\<lambda>l. Q s l \<noteq> []) (priority s (ticks b))"
  by (simp add: ladder_of_def comp_def)

lemma ladder_of_distinct: "distinct (map fst (ladder_of b Q s))"
  by (simp add: ladder_of_keys)

text \<open>A limit order that crossed and still has quantity has emptied a level, so a slot is free for it.\<close>

lemma taken_room:
  assumes rep: "book_rep b Q S {}" and tkn: "taken b Q S {} T c tr r' M' x' Q'" and r': "r' \<noteq> 0"
    and room: "\<not> arena_exhausted b \<or> has_crossing_order b s l"
    and tk: "take_liquidity (ob_domain b) tid s (Some l) r (market_of b Q S) = (tr, r', M')"
  shows "\<not> arena_exhausted (ex_book x')"
proof -
  let ?b = "ex_book x'" let ?s = "opposite_side s"
  have rep': "book_rep ?b Q' S {}" and sub: "\<And>s l. set (Q' s l) \<subseteq> set (Q s l)" and cap: "slots ?b = slots b"
    and M: "market_of ?b Q' S = M'" using tkn by (auto simp: taken_def same_env_def)
  have live: "live_set (ob_arena b) = queued Q \<union> set S" "live_set (ob_arena ?b) = queued Q' \<union> set S"
    using rep rep' by (auto simp: book_rep_def)
  have le: "live_set (ob_arena ?b) \<subseteq> live_set (ob_arena b)" unfolding live queued_def using sub by blast
  have size: "ar_size (ob_arena ?b) = card (live_set (ob_arena ?b))" "ar_size (ob_arena b) = card (live_set (ob_arena b))"
    and max: "ar_size (ob_arena b) \<le> slots b"
  proof -
    have ok: "arena_ok (ob_arena b)" "arena_ok (ob_arena ?b)" using rep rep' by (auto simp: book_rep_def book_shape_def)
    show "ar_size (ob_arena ?b) = card (live_set (ob_arena ?b))" "ar_size (ob_arena b) = card (live_set (ob_arena b))"
      using ok by (simp_all add: arena_ok_def)
    show "ar_size (ob_arena b) \<le> slots b" by (rule size_le_capacity [OF ok(1)])
  qed
  show ?thesis
  proof (cases "arena_exhausted b")
    case False
    have "card (live_set (ob_arena ?b)) \<le> card (live_set (ob_arena b))" by (rule card_mono [OF finite_live_set le])
    then show ?thesis using False size max cap by (simp add: arena_exhausted_def)
  next
    case True
    then have "has_crossing_order b s l" using room by simp
    then obtain k where best: "best_index b ?s = Some k" and cr: "crosses s k l"
      by (auto simp: has_crossing_order_def split: option.splits)
    then obtain ms lad where lad: "ladder_of b Q ?s = (k, ms) # lad"
      using best_index_ladder [OF rep, of ?s] by (auto split: list.splits)
    have "(k, ms) \<in> set (ladder_of b Q ?s)" unfolding lad by simp
    then have q: "Q ?s k \<noteq> []" and ms: "ms = makers b (Q ?s k)" by (auto simp: ladder_of_def)
    obtain es lad' where fil: "fill_ladder s (Some l) r ((k, ms) # lad) = (es, r', lad')"
      and M': "mkt_queue M' ?s = of_ladder lad'"
      using tk unfolding take_liquidity_def Let_def ladder_of_view [of b Q ?s S, symmetric] lad by (auto split: prod.splits)
    have "k \<notin> fst ` set lad'"
      by (rule fill_ladder_exhausts [OF fil r']) (use cr rep_list_ok [OF rep] ladder_of_distinct [of b Q ?s] lad ms in auto)
    then have "map_of lad' k = None" by (simp add: map_of_eq_None_iff)
    then have "mkt_queue M' ?s k = []" by (simp add: M' of_ladder_def)
    then have "Q' ?s k = []" using M by (auto simp: market_of_def)
    obtain i where i: "i \<in> set (Q ?s k)" using q by (cases "Q ?s k") auto
    have "i \<notin> live_set (ob_arena ?b)"
    proof
      assume "i \<in> live_set (ob_arena ?b)"
      then obtain s' l' where "i \<in> set (Q' s' l')" using live(2) rep_stop_disjoint [OF rep, of i ?s k] i by (auto simp: queued_def)
      moreover from this have "s' = ?s \<and> l' = k" using sub rep_disjoint [OF rep _ i] by blast
      ultimately show False using \<open>Q' ?s k = []\<close> by simp
    qed
    moreover have "i \<in> live_set (ob_arena b)" using i live(1) by (auto simp: queued_def)
    ultimately have "live_set (ob_arena ?b) \<subset> live_set (ob_arena b)" using le by blast
    then have "card (live_set (ob_arena ?b)) < card (live_set (ob_arena b))" by (rule psubset_card_mono [OF finite_live_set])
    then show ?thesis using size max cap by (simp add: arena_exhausted_def)
  qed
qed

section \<open>The common part of the limit entries\<close>

definition entry_run :: "book \<Rightarrow> order_id \<Rightarrow> trader_id \<Rightarrow> side \<Rightarrow> nat \<Rightarrow> u64 \<Rightarrow> (u64 \<Rightarrow> u64) \<Rightarrow> bool \<Rightarrow> trade list \<Rightarrow> submit_run" where
  "entry_run b oid trader s l q disp rests T =
     run_bind (match_taker oid trader s (Some l) \<lparr>ex_book = b, ex_remaining = q, ex_trades = T, ex_count = 0\<rparr>) (\<lambda>x.
     run_bind (if rests \<and> ex_remaining x \<noteq> 0 then rest (ex_book x) oid trader s l (ex_remaining x) (disp (ex_remaining x))
               else ret (kInvalidHandle, ex_book x)) (\<lambda>(h, b1).
     run_bind (trigger_stops b1 (ex_trades x) (ex_count x)) (\<lambda>(b2, T', n).
     ret (submitted q (ex_remaining x) n h, b2, T'))))"

lemma settle_entry:
  assumes rep: "book_rep b Q S {}" and tkn: "taken b Q S {} T 0 tr r' M1 x' Q'" and l: "l < ticks b"
    and q: "q \<le> ob_max_quantity b" "r' \<le> q" and disp: "\<And>r. r \<noteq> 0 \<Longrightarrow> r \<le> q \<Longrightarrow> disp r = min peak r" and peak: "peak \<noteq> 0"
    and room: "rests \<Longrightarrow> \<not> arena_exhausted b \<or> has_crossing_order b s l"
    and tk: "take_liquidity (ob_domain b) oid s (Some l) q (market_of b Q S) = (tr, r', M1)"
  obtains h slot b1 Q1 where
    "(if rests \<and> r' \<noteq> 0 then rest (ex_book x') oid trader s l r' (disp r') else ret (kInvalidHandle, ex_book x')) = ret (h, b1)"
    "if rests \<and> r' \<noteq> 0 then h_index h = slot \<and> slot < slots b else h = kInvalidHandle"
    "moved b T 0 tr (if rests \<and> r' \<noteq> 0 then join_queue s l (new_maker slot oid trader r' (min peak r')) M1 else M1) b1 Q1 S (ex_trades x')"
    "same_report (ex_book x') b1"
proof (cases "rests \<and> r' \<noteq> 0")
  case False
  then show thesis using that [of kInvalidHandle "ex_book x'" 0 Q'] tkn by (auto simp: moved_def taken_def)
next
  case True
  let ?b = "ex_book x'"
  have t: "book_rep ?b Q' S {}" "same_env b ?b" "market_of ?b Q' S = M1" "epochs_ok ?b" using tkn by (auto simp: taken_def)
  have nex: "\<not> arena_exhausted ?b" by (rule taken_room [OF rep tkn _ room tk]) (use True in auto)
  have "r' \<le> ob_max_quantity ?b" "l < ticks ?b" "slots ?b = slots b" using q t(2) l by (auto simp: same_env_def)
  moreover have "disp r' \<noteq> 0" "disp r' \<le> r'" using disp [of r'] True q(2) peak by (auto simp: min_def)
  ultimately obtain i b1 where r: "rest ?b oid trader s l r' (disp r') = ret (handle_at (ob_arena ?b) i, b1)" "i < slots b"
    "book_rep b1 (setq Q' s l (Q' s l @ [i])) S {}" "same_env ?b b1" "same_report ?b b1"
    "market_of b1 (setq Q' s l (Q' s l @ [i])) S = join_queue s l (new_maker i oid trader r' (disp r')) M1"
    using rest_ok [OF t(1) nex, of l r' "disp r'" oid trader s] True t(3) by metis
  have "moved b T 0 tr (join_queue s l (new_maker i oid trader r' (min peak r')) M1) b1 (setq Q' s l (Q' s l @ [i])) S (ex_trades x')"
    using r(3,6) same_env_trans [OF t(2) r(4)] epochs_ok_same [OF r(5,4)] t(4) tkn disp [of r'] True q(2)
    by (auto simp: moved_def taken_def simp del: setq_apply)
  then show thesis using that [of "handle_at (ob_arena ?b) i" b1 i] r(1,2,5) True by simp
qed

lemma entry_total:
  assumes rep: "book_rep b Q S {}" and ep: "epochs_ok b" and free: "free_trading b" and n0: "ob_stop_activation_count b = 0"
    and l: "l < ticks b" and q: "q \<le> ob_max_quantity b"
    and disp: "\<And>r. r \<noteq> 0 \<Longrightarrow> r \<le> q \<Longrightarrow> disp r = min peak r" and peak: "peak \<noteq> 0"
    and room: "rests \<Longrightarrow> \<not> arena_exhausted b \<or> has_crossing_order b s l"
  shows "\<exists>slot. case enter_limit (ob_domain b) oid trader s l q peak rests slot (market_of b Q S) of (r', tr, acts, M') \<Rightarrow>
    if length tr \<le> length T
    then \<exists>h b' Q' S' T'. entry_run b oid trader s l q disp rests T = ret (submitted q r' (length tr) h, b', T') \<and>
      moved b T 0 tr M' b' Q' S' T' \<and> activations b' = acts \<and>
      (if rests \<and> r' \<noteq> 0 then h_index h = slot \<and> slot < slots b else h = kInvalidHandle)
    else entry_run b oid trader s l q disp rests T = crash Trade_Buffer_Overflow"
proof -
  obtain t1 r' M1 where tk: "take_liquidity (ob_domain b) oid s (Some l) q (market_of b Q S) = (t1, r', M1)" by (metis prod_cases3)
  let ?x = "\<lparr>ex_book = b, ex_remaining = q, ex_trades = T, ex_count = 0\<rparr>"
  have total: "if 0 + length t1 \<le> length T
    then \<exists>x' Q'. match_taker oid trader s (Some l) ?x = ret x' \<and> taken b Q S {} T 0 t1 r' M1 x' Q'
    else match_taker oid trader s (Some l) ?x = crash Trade_Buffer_Overflow"
    by (rule match_taker_total [OF rep ep _ _ _ tk]) (use free in \<open>auto simp: free_trading_def free_trading_self\<close>)
  show ?thesis
  proof (cases "length t1 \<le> length T")
    case False
    then have "entry_run b oid trader s l q disp rests T = crash Trade_Buffer_Overflow" using total by (simp add: entry_run_def)
    then show ?thesis using False tk by (auto simp: enter_limit_def Let_def split: prod.splits)
  next
    case True
    then obtain x' Q1 where run: "match_taker oid trader s (Some l) ?x = ret x'" and tkn: "taken b Q S {} T 0 t1 r' M1 x' Q1"
      using total by auto
    have rem: "ex_remaining x' = r'" "ex_count x' = length t1" using tkn by (auto simp: taken_def)
    obtain h slot b1 Q2 where st:
      "(if rests \<and> r' \<noteq> 0 then rest (ex_book x') oid trader s l r' (disp r') else ret (kInvalidHandle, ex_book x')) = ret (h, b1)"
      "if rests \<and> r' \<noteq> 0 then h_index h = slot \<and> slot < slots b else h = kInvalidHandle"
      "moved b T 0 t1 (if rests \<and> r' \<noteq> 0 then join_queue s l (new_maker slot oid trader r' (min peak r')) M1 else M1) b1 Q2 S (ex_trades x')"
      "same_report (ex_book x') b1"
      by (rule settle_entry [OF rep tkn l q take_liquidity_le [OF rep tk] disp peak room tk, of rests trader]) blast
    let ?M2 = "if rests \<and> r' \<noteq> 0 then join_queue s l (new_maker slot oid trader r' (min peak r')) M1 else M1"
    obtain t2 acts M3 where rs: "run_stops (ob_domain b) ?M2 = (t2, acts, M3)" by (metis prod_cases3)
    have spec: "enter_limit (ob_domain b) oid trader s l q peak rests slot (market_of b Q S) = (r', t1 @ t2, acts, M3)"
      using tk rs by (simp add: enter_limit_def Let_def)
    have mv: "book_rep b1 Q2 S {}" "epochs_ok b1" "same_env b b1" "market_of b1 Q2 S = ?M2" "length (ex_trades x') = length T"
      using st(3) by (auto simp: moved_def)
    have cnt: "ob_stop_activation_count b1 = 0" using st(4) tkn n0 by (simp add: same_report_def taken_def)
    have trig: "if length t1 + length t2 \<le> length (ex_trades x')
      then \<exists>b' Q' S' T'. trigger_stops b1 (ex_trades x') (length t1) = ret (b', T', length t1 + length t2) \<and>
        moved b1 (ex_trades x') (length t1) t2 M3 b' Q' S' T' \<and> activations b' = activations b1 @ acts
      else trigger_stops b1 (ex_trades x') (length t1) = crash Trade_Buffer_Overflow"
    proof (rule trigger_stops_total [OF mv(1,2)])
      show "free_trading b1" using free free_trading_env [OF mv(3)] by simp
      show "length t1 \<le> length (ex_trades x')" using True mv(5) by simp
      show "stop_room b1 S" using cnt rep_stop_length [OF mv(1)] by (simp add: stop_room_def)
      show "run_stops (ob_domain b1) (market_of b1 Q2 S) = (t2, acts, M3)" using rs mv(3,4) by (simp add: same_env_def)
    qed
    have act0: "activations b1 = []" using cnt by (simp add: activations_def stop_activations_def)
    have un: "entry_run b oid trader s l q disp rests T =
        run_bind (trigger_stops b1 (ex_trades x') (length t1)) (\<lambda>(b2, T', n). ret (submitted q r' n h, b2, T'))"
      unfolding entry_run_def run run_bind_ret rem st(1) by simp
    show ?thesis
    proof (cases "length t1 + length t2 \<le> length T")
      case True
      then obtain b' Q' S' T' where b': "trigger_stops b1 (ex_trades x') (length t1) = ret (b', T', length t1 + length t2)"
        "moved b1 (ex_trades x') (length t1) t2 M3 b' Q' S' T'" "activations b' = acts"
        using trig mv(5) act0 by auto
      have mv': "moved b T 0 (t1 @ t2) M3 b' Q' S' T'" using moved_trans [OF st(3)] b'(2) by simp
      have "entry_run b oid trader s l q disp rests T = ret (submitted q r' (length (t1 @ t2)) h, b', T')" using un b'(1) by simp
      then have "\<exists>h b' Q' S' T'. entry_run b oid trader s l q disp rests T = ret (submitted q r' (length (t1 @ t2)) h, b', T') \<and>
        moved b T 0 (t1 @ t2) M3 b' Q' S' T' \<and> activations b' = acts \<and>
        (if rests \<and> r' \<noteq> 0 then h_index h = slot \<and> slot < slots b else h = kInvalidHandle)"
        using mv' b'(3) st(2) by blast
      then show ?thesis unfolding spec [symmetric] by (intro exI [of _ slot]) (use spec True in simp)
    next
      case False
      then show ?thesis using trig mv(5) un spec by (intro exI [of _ slot]) simp
    qed
  qed
qed

end
