(* ===== verification/Order_Book_Entry.thy ===== *)
theory Order_Book_Entry
  imports Order_Book_Submit
begin

text \<open>The entry points of the order book as a whole: limit, iceberg and market orders.\<close>

lemma book_ok_rep: "book_ok b \<Longrightarrow> book_rep b (queue_of b) (stop_queue b) {}"
  by (simp add: book_ok_def)

lemma moved_ok: "moved b T c tr M' b' Q' S' T' \<Longrightarrow> book_ok b' \<and> view b' = M'"
  using book_okI rep_view by (auto simp: moved_def)

text \<open>How a refined entry reads: the result, the book, the trades and the activations, or the overflow.\<close>

definition entered :: "submit_run \<Rightarrow> book \<Rightarrow> trade list \<Rightarrow> quantity \<Rightarrow> bool \<Rightarrow> nat \<Rightarrow>
    (u64 \<times> trade list \<times> activation list \<times> market) \<Rightarrow> bool" where
  "entered run b T q rests slot spec = (case spec of (r', tr, acts, M') \<Rightarrow>
     if length tr \<le> length T
     then \<exists>h b' T'. run = ret (submitted q r' (length tr) h, b', T') \<and> book_ok b' \<and> same_env b b' \<and> view b' = M' \<and>
       take (length tr) T' = tr \<and> length T' = length T \<and> activations b' = acts \<and>
       (if rests \<and> r' \<noteq> 0 then h_index h = slot \<and> slot < slots b else h = kInvalidHandle)
     else run = crash Trade_Buffer_Overflow)"

lemma enteredI:
  assumes "case spec of (r', tr, acts, M') \<Rightarrow> if length tr \<le> length T
    then \<exists>h b' Q' S' T'. run = ret (submitted q r' (length tr) h, b', T') \<and>
      moved b0 T 0 tr M' b' Q' S' T' \<and> activations b' = acts \<and>
      (if rests \<and> r' \<noteq> 0 then h_index h = slot \<and> slot < slots b else h = kInvalidHandle)
    else run = crash Trade_Buffer_Overflow"
    and env: "same_env b b0"
  shows "entered run b T q rests slot spec"
proof -
  obtain r' tr acts M' where s: "spec = (r', tr, acts, M')" by (metis prod_cases4)
  show ?thesis
  proof (cases "length tr \<le> length T")
    case True
    then obtain h b' Q' S' T' where "run = ret (submitted q r' (length tr) h, b', T')" and mv: "moved b0 T 0 tr M' b' Q' S' T'"
      and "activations b' = acts" "if rests \<and> r' \<noteq> 0 then h_index h = slot \<and> slot < slots b else h = kInvalidHandle"
      using assms s by auto
    moreover have "same_env b b'" using same_env_trans [OF env] mv by (simp add: moved_def)
    moreover have "book_ok b'" "view b' = M'" "take (length tr) T' = tr" "length T' = length T"
      using moved_ok [OF mv] mv by (auto simp: moved_def)
    ultimately show ?thesis using True s unfolding entered_def by auto
  qed (use assms s in \<open>simp add: entered_def\<close>)
qed

lemma ex_enteredI:
  assumes "\<exists>slot. case spec slot of (r', tr, acts, M') \<Rightarrow> if length tr \<le> length T
    then \<exists>h b' Q' S' T'. run = ret (submitted q r' (length tr) h, b', T') \<and>
      moved b0 T 0 tr M' b' Q' S' T' \<and> activations b' = acts \<and>
      (if rests \<and> r' \<noteq> 0 then h_index h = slot \<and> slot < slots b else h = kInvalidHandle)
    else run = crash Trade_Buffer_Overflow"
    and env: "same_env b b0"
  shows "\<exists>slot. entered run b T q rests slot (spec slot)"
  using assms(1) by (elim exE) (rule exI, erule enteredI [OF _ env])

lemma preflight_None: "preflight b rs q = RR_None \<longleftrightarrow> is_valid_side rs \<and> q \<noteq> 0 \<and> q \<le> ob_max_quantity b"
  by (auto simp: preflight_def not_less)

lemma preflight_limit_None:
  assumes "preflight_limit b (Valid_Side s) p q tif = RR_None"
  obtains l where "is_valid_time_in_force tif" "preflight b (Valid_Side s) q = RR_None" "index_of (ob_domain b) p = Some l"
    "tif = GTC \<Longrightarrow> \<not> arena_exhausted b \<or> ob_trading_state b \<noteq> Opening_Auction \<and> has_crossing_order b s l"
    "tif = FOK \<Longrightarrow> can_fully_fill b s l q" "ob_trading_state b = Opening_Auction \<Longrightarrow> tif = GTC"
  using assms by (auto simp: preflight_limit_def Let_def split: if_splits option.splits)

lemma limit_entered:
  assumes ok: "book_ok b" and free: "free_trading b" and cont: "ob_trading_state b = Continuous"
    and pre: "preflight_limit b (Valid_Side s) p q tif = RR_None" and cap: "slots b \<le> length T"
  shows "\<exists>slot l. index_of (ob_domain b) p = Some l \<and>
    entered (submit_limit b oid trader (Valid_Side s) p q tif T) b T q (tif = GTC) slot
      (enter_limit (ob_domain b) oid trader s l q q (tif = GTC) slot (view b))"
proof -
  let ?b = "reset_stop_activations b" and ?Q = "queue_of b" and ?S = "stop_queue b"
  obtain l where l: "is_valid_time_in_force tif" "preflight b (Valid_Side s) q = RR_None" "index_of (ob_domain b) p = Some l"
    and room: "tif = GTC \<Longrightarrow> \<not> arena_exhausted b \<or> has_crossing_order b s l"
    using preflight_limit_None [OF pre] by metis
  have rep: "book_rep ?b ?Q ?S {}" by (rule reset_rep [OF book_ok_rep [OF ok]])
  have lt: "l < ticks ?b" using index_of_less [OF _ l(3)] rep by (auto simp: book_rep_def book_shape_def)
  have free': "free_trading ?b" using free free_trading_env [of b ?b] by simp
  have q: "q \<noteq> 0" "q \<le> ob_max_quantity ?b" using l(2) by (auto simp: preflight_None)
  have stc: "self_trade_check ?b trader s l = ret False" using free' by (simp add: self_trade_check_def free_trading_def)
  have un: "submit_limit b oid trader (Valid_Side s) p q tif T = entry_run ?b oid trader s l q (\<lambda>r. r) (tif = GTC) T"
    using l pre cap cont stc
    unfolding submit_limit_def Let_def entry_run_def reset_frame reset_preflight l(3) option.sel
    by (simp add: required_trade_capacity_def)
  have "\<exists>slot. case enter_limit (ob_domain ?b) oid trader s l q q (tif = GTC) slot (market_of ?b ?Q ?S) of (r', tr, acts, M') \<Rightarrow>
    if length tr \<le> length T
    then \<exists>h b' Q' S' T'. entry_run ?b oid trader s l q (\<lambda>r. r) (tif = GTC) T = ret (submitted q r' (length tr) h, b', T') \<and>
      moved ?b T 0 tr M' b' Q' S' T' \<and> activations b' = acts \<and>
      (if tif = GTC \<and> r' \<noteq> 0 then h_index h = slot \<and> slot < slots ?b else h = kInvalidHandle)
    else entry_run ?b oid trader s l q (\<lambda>r. r) (tif = GTC) T = crash Trade_Buffer_Overflow"
    by (rule entry_total [OF rep _ free' _ lt q(2) _ q(1)]) (use ok room in \<open>auto simp: book_ok_def min_def\<close>)
  then have "\<exists>slot. entered (entry_run ?b oid trader s l q (\<lambda>r. r) (tif = GTC) T) b T q (tif = GTC) slot
      (enter_limit (ob_domain b) oid trader s l q q (tif = GTC) slot (view b))"
    unfolding reset_frame view_def by (rule ex_enteredI) simp
  then show ?thesis using l(3) un by metis
qed

lemma iceberg_entered:
  assumes ok: "book_ok b" and free: "free_trading b" and cont: "ob_trading_state b \<noteq> Opening_Auction"
    and pre: "preflight_limit b (Valid_Side s) p q GTC = RR_None" and cap: "slots b \<le> length T"
    and peak: "peak \<noteq> 0" "peak \<le> q"
  shows "\<exists>slot l. index_of (ob_domain b) p = Some l \<and>
    entered (submit_iceberg b oid trader (Valid_Side s) p q peak T) b T q True slot
      (enter_limit (ob_domain b) oid trader s l q peak True slot (view b))"
proof -
  let ?b = "reset_stop_activations b" and ?Q = "queue_of b" and ?S = "stop_queue b"
  obtain l where l: "preflight b (Valid_Side s) q = RR_None" "index_of (ob_domain b) p = Some l"
    and room: "\<not> arena_exhausted b \<or> has_crossing_order b s l"
    using preflight_limit_None [OF pre] by metis
  have rep: "book_rep ?b ?Q ?S {}" by (rule reset_rep [OF book_ok_rep [OF ok]])
  have lt: "l < ticks ?b" using index_of_less [OF _ l(2)] rep by (auto simp: book_rep_def book_shape_def)
  have free': "free_trading ?b" using free free_trading_env [of b ?b] by simp
  have q: "q \<le> ob_max_quantity ?b" using l(1) by (auto simp: preflight_None)
  have stc: "self_trade_check ?b trader s l = ret False" using free' by (simp add: self_trade_check_def free_trading_def)
  have flip: "(if r = 0 then A else B) = (if True \<and> r \<noteq> 0 then B else A)" for r :: u64 and A B :: "(handle \<times> book) run" by simp
  have un: "submit_iceberg b oid trader (Valid_Side s) p q peak T = entry_run ?b oid trader s l q (\<lambda>r. min peak r) True T"
    using l pre cap cont stc peak
    unfolding submit_iceberg_def Let_def entry_run_def reset_frame reset_preflight l(2) option.sel flip
    by (simp add: required_trade_capacity_def not_less [symmetric])
  have "\<exists>slot. case enter_limit (ob_domain ?b) oid trader s l q peak True slot (market_of ?b ?Q ?S) of (r', tr, acts, M') \<Rightarrow>
    if length tr \<le> length T
    then \<exists>h b' Q' S' T'. entry_run ?b oid trader s l q (\<lambda>r. min peak r) True T = ret (submitted q r' (length tr) h, b', T') \<and>
      moved ?b T 0 tr M' b' Q' S' T' \<and> activations b' = acts \<and>
      (if True \<and> r' \<noteq> 0 then h_index h = slot \<and> slot < slots ?b else h = kInvalidHandle)
    else entry_run ?b oid trader s l q (\<lambda>r. min peak r) True T = crash Trade_Buffer_Overflow"
    by (rule entry_total [OF rep _ free' _ lt q _ peak(1)]) (use ok room in \<open>auto simp: book_ok_def\<close>)
  then have "\<exists>slot. entered (entry_run ?b oid trader s l q (\<lambda>r. min peak r) True T) b T q True slot
      (enter_limit (ob_domain b) oid trader s l q peak True slot (view b))"
    unfolding reset_frame view_def by (rule ex_enteredI) simp
  then show ?thesis using l(2) un by metis
qed

lemma market_entered:
  assumes ok: "book_ok b" and free: "free_trading b"
    and pre: "preflight_market b (Valid_Side s) q = RR_None" and cap: "slots b \<le> length T"
  shows "entered (submit_market b oid (Valid_Side s) q T) b T q False 0 (enter_market (ob_domain b) oid s q (view b))"
proof -
  let ?b = "reset_stop_activations b" and ?Q = "queue_of b" and ?S = "stop_queue b"
  have rep: "book_rep ?b ?Q ?S {}" by (rule reset_rep [OF book_ok_rep [OF ok]])
  have free': "free_trading ?b" using free free_trading_env [of b ?b] by simp
  obtain t1 r' M1 where tk: "take_liquidity (ob_domain ?b) oid s None q (market_of ?b ?Q ?S) = (t1, r', M1)" by (metis prod_cases3)
  obtain t2 acts M2 where rs: "run_stops (ob_domain ?b) M1 = (t2, acts, M2)" by (metis prod_cases3)
  have spec: "enter_market (ob_domain b) oid s q (view b) = (r', t1 @ t2, acts, M2)"
    using tk rs by (simp add: enter_market_def Let_def view_def)
  let ?x = "\<lparr>ex_book = ?b, ex_remaining = q, ex_trades = T, ex_count = 0\<rparr>"
  have un: "submit_market b oid (Valid_Side s) q T = run_bind (match_taker oid 0 s None ?x) (\<lambda>x.
      run_bind (trigger_stops (ex_book x) (ex_trades x) (ex_count x)) (\<lambda>(b2, T', n).
      ret (submitted q (ex_remaining x) n kInvalidHandle, b2, T')))"
    using pre cap by (simp add: submit_market_def Let_def required_trade_capacity_def)
  have total: "if 0 + length t1 \<le> length T
    then \<exists>x' Q'. match_taker oid 0 s None ?x = ret x' \<and> taken ?b ?Q ?S {} T 0 t1 r' M1 x' Q'
    else match_taker oid 0 s None ?x = crash Trade_Buffer_Overflow"
    by (rule match_taker_total [OF rep _ _ _ _ tk])
      (use ok free' in \<open>auto simp: book_ok_def free_trading_def free_trading_self\<close>)
  show ?thesis
  proof (cases "length t1 \<le> length T")
    case False
    then show ?thesis using total un by (simp add: entered_def spec)
  next
    case True
    then obtain x' Q' where run: "match_taker oid 0 s None ?x = ret x'" and tkn: "taken ?b ?Q ?S {} T 0 t1 r' M1 x' Q'"
      using total by auto
    let ?b1 = "ex_book x'"
    have t: "book_rep ?b1 Q' ?S {}" "epochs_ok ?b1" "same_env ?b ?b1" "market_of ?b1 Q' ?S = M1" "ex_remaining x' = r'"
      "ex_count x' = length t1" "length (ex_trades x') = length T" "ob_stop_activation_count ?b1 = 0"
      using tkn by (auto simp: taken_def)
    have mv: "moved ?b T 0 t1 M1 ?b1 Q' ?S (ex_trades x')" using tkn by (auto simp: moved_def taken_def)
    have trig: "if length t1 + length t2 \<le> length (ex_trades x')
      then \<exists>b' Q' S' T'. trigger_stops ?b1 (ex_trades x') (length t1) = ret (b', T', length t1 + length t2) \<and>
        moved ?b1 (ex_trades x') (length t1) t2 M2 b' Q' S' T' \<and> activations b' = activations ?b1 @ acts
      else trigger_stops ?b1 (ex_trades x') (length t1) = crash Trade_Buffer_Overflow"
    proof (rule trigger_stops_total [OF t(1,2)])
      show "free_trading ?b1" using free' free_trading_env [OF t(3)] by simp
      show "length t1 \<le> length (ex_trades x')" using True t(7) by simp
      show "stop_room ?b1 ?S" using t(8) rep_stop_length [OF t(1)] by (simp add: stop_room_def)
      show "run_stops (ob_domain ?b1) (market_of ?b1 Q' ?S) = (t2, acts, M2)" using rs t(3,4) by (simp add: same_env_def)
    qed
    have un': "submit_market b oid (Valid_Side s) q T = run_bind (trigger_stops ?b1 (ex_trades x') (length t1))
        (\<lambda>(b2, T', n). ret (submitted q r' n kInvalidHandle, b2, T'))"
      unfolding un run run_bind_ret t(5,6) ..
    show ?thesis
    proof (cases "length t1 + length t2 \<le> length T")
      case True
      then obtain b' Q2 S' T' where b': "trigger_stops ?b1 (ex_trades x') (length t1) = ret (b', T', length t1 + length t2)"
        "moved ?b1 (ex_trades x') (length t1) t2 M2 b' Q2 S' T'" "activations b' = acts"
        using trig t(7,8) by (auto simp: activations_def stop_activations_def)
      have mv': "moved ?b T 0 (t1 @ t2) M2 b' Q2 S' T'" using moved_trans [OF mv] b'(2) by simp
      have "same_env b ?b" by simp
      then have "same_env b b'" using same_env_trans mv' unfolding moved_def by blast
      then show ?thesis using moved_ok [OF mv'] mv' b'(1,3) un' True by (simp add: entered_def spec moved_def)
    next
      case False
      then show ?thesis using trig t(7) un' by (simp add: entered_def spec)
    qed
  qed
qed

text \<open>What the invariant keeps when an entry returns.\<close>

lemma entered_ok: "entered run b T q rests slot spec \<Longrightarrow> run = ret (res, b', T') \<Longrightarrow> book_ok b'"
  by (auto simp: entered_def split: prod.splits if_splits)

section \<open>A taker that meets its own order\<close>

text \<open>
  Under the cancel-taker policy a level whose first maker belongs to the taker is left as it is, and
  the loop looks at the same level again: it has no other way out, so it does not return.
\<close>

lemma match_level_fifo_self:
  assumes "pl_head (level (ex_book x) (opposite_side ts) l) = i" "would_self_trade_at (ex_book x) trader i"
  shows "match_level_fifo tid trader ts l x = ret x"
  using assms by (subst match_level_fifo.simps) (simp add: Let_def)

lemma match_loop_diverges:
  assumes r: "ex_remaining x0 \<noteq> 0" and best: "best_index (ex_book x0) (opposite_side ts0) = Some k"
    and lim: "within ts0 limit0 k" and stuck: "match_level tid0 trader0 ts0 k x0 = ret x0"
  shows "match_loop tid0 trader0 ts0 limit0 x0 = None"
proof (rule ccontr)
  assume "match_loop tid0 trader0 ts0 limit0 x0 \<noteq> None"
  then obtain y where y: "match_loop tid0 trader0 ts0 limit0 x0 = Some y" by blast
  let ?P = "\<lambda>tid trader ts limit x (_ :: fault + exec). (tid, trader, ts, limit, x) \<noteq> (tid0, trader0, ts0, limit0, x0)"
  have "?P tid0 trader0 ts0 limit0 x0 y"
  proof (rule match_loop.raw_induct [of ?P "((((tid0, trader0), ts0), limit0), x0)" y, unfolded split_conv])
    show "match_loop tid0 trader0 ts0 limit0 x0 = Some y" by (rule y)
  next
    fix f :: "order_id \<Rightarrow> trader_id \<Rightarrow> side \<Rightarrow> nat option \<Rightarrow> exec \<Rightarrow> exec run" and tid trader ts limit x z
    assume f: "\<And>tid trader ts limit x z. f tid trader ts limit x = Some z \<Longrightarrow> ?P tid trader ts limit x z"
      and body: "(if ex_remaining x = 0 then ret x
        else case best_index (ex_book x) (opposite_side ts) of None \<Rightarrow> ret x
          | Some m \<Rightarrow> if (case limit of None \<Rightarrow> False | Some l \<Rightarrow> \<not> crosses ts m l) then ret x
             else run_bind (match_level tid trader ts m x) (f tid trader ts limit)) = Some z"
    show "?P tid trader ts limit x z"
    proof
      assume "(tid, trader, ts, limit, x) = (tid0, trader0, ts0, limit0, x0)"
      then have "f tid0 trader0 ts0 limit0 x0 = Some z" using body r best lim stuck by (cases limit0) auto
      then show False using f by blast
    qed
  qed
  then show False by simp
qed

lemma market_diverges:
  assumes ok: "book_ok b" and mode: "ob_allocation_mode b \<noteq> Threshold_Pro_Rata" and pol: "ob_self_trade_policy b = STP_Cancel_Taker"
    and pre: "preflight_market b (Valid_Side s) q = RR_None" and cap: "slots b \<le> length T"
    and best: "best_index b (opposite_side s) = Some k" and head: "mkt_queue (view b) (opposite_side s) k = m # ms" "mk_trader m = 0"
  shows "submit_market b oid (Valid_Side s) q T = None"
proof -
  let ?b = "next_report_epoch (reset_stop_activations b)" and ?s = "opposite_side s"
  have rep: "book_rep ?b (queue_of b) (stop_queue b) {}" by (rule next_report_epoch_rep [OF reset_rep [OF book_ok_rep [OF ok]]])
  obtain i js where q: "queue_of b ?s k = i # js" and m: "m = maker_of b i"
    using head(1) by (cases "queue_of b ?s k") (auto simp: view_def market_of_def)
  have kt: "k < ticks ?b" using rep_mem_level [OF rep, of i ?s k] q by simp
  have lr: "level_rep ?b ?s k (i # js)" using rep_level [OF rep kt, of ?s] q by simp
  have hd: "pl_head (level ?b ?s k) = i" using lr by (auto simp: level_rep_def dll_def)
  have tr: "ob_trader_ids ?b ! i = 0" using head(2) m by (simp add: next_report_epoch_def reset_stop_activations_def maker_of_def)
  have self: "would_self_trade_at ?b 0 i" using tr pol by (simp add: would_self_trade_at_def) (simp add: next_report_epoch_def reset_stop_activations_def)
  have occ: "occupancy ?b s' = occupancy b s'" for s'
    by (cases s') (simp_all add: next_report_epoch_def reset_stop_activations_def occupancy.simps)
  have bi: "best_index ?b ?s = Some k" using best by (cases ?s) (simp_all add: best_index_occ occ)
  let ?x = "\<lparr>ex_book = ?b, ex_remaining = q, ex_trades = T, ex_count = 0\<rparr>"
  have lev: "match_level oid 0 s k ?x = ret ?x"
    using match_level_fifo_self [of ?x s k i 0 oid] hd self mode
    by (simp add: match_level_def) (simp add: reset_stop_activations_def)
  have "q \<noteq> 0" using pre by (auto simp: preflight_market_def preflight_None split: if_splits)
  then have "match_loop oid 0 s None ?x = None" using match_loop_diverges [of ?x s k None oid 0] bi lev by simp
  then show ?thesis using pre cap by (simp add: submit_market_def Let_def required_trade_capacity_def match_taker_def)
qed

end
