(* ===== verification/Order_Book_Init.thy ===== *)
theory Order_Book_Init
  imports Order_Book_Submit
begin

text \<open>Construction, cancellation and amendment: the invariant and the effect on the market.\<close>

section \<open>Construction\<close>

definition empty_market :: market where
  "empty_market = \<lparr>mkt_queue = \<lambda>_ _. [], mkt_stops = [], mkt_last = None\<rparr>"

lemma sum_bind_Inr: "sum_bind m k = Inr y \<longleftrightarrow> (\<exists>x. m = Inr x \<and> k x = Inr y)"
  by (cases m) (auto simp: sum_bind_def)

text \<open>The state the constructor leaves, with the parts it builds.\<close>

definition fresh_book :: "price_domain \<Rightarrow> nat \<Rightarrow> u64 \<Rightarrow> self_trade_policy \<Rightarrow> allocation_mode \<Rightarrow> u64 \<Rightarrow> trading_state \<Rightarrow>
    bitmap \<Rightarrow> bitmap \<Rightarrow> arena \<Rightarrow> book" where
  "fresh_book d n mq pol mode minq' st bo ao ar = \<lparr>ob_domain = d, ob_max_quantity = mq,
          ob_bids = replicate (pd_tick_count d) empty_level, ob_asks = replicate (pd_tick_count d) empty_level,
          ob_bid_occupancy = bo, ob_ask_occupancy = ao, ob_arena = ar,
          ob_trader_ids = replicate n 0, ob_display_quantities = replicate n 0,
          ob_displayed_remaining = replicate n 0, ob_stop_trigger_prices = replicate n 0,
          ob_stop_limit_prices = replicate n 0, ob_stop_prev = replicate n 0,
          ob_stop_next = replicate n 0, ob_stop_head = kInvalidIndex, ob_stop_tail = kInvalidIndex,
          ob_dormant_stop_count = 0, ob_stop_activations = replicate n empty_activation,
          ob_stop_activation_count = 0, ob_last_execution_price = None,
          ob_self_trade_policy = pol, ob_allocation_mode = mode, ob_pro_rata_minimum = minq',
          ob_trading_state = st, ob_trade_report_indices = replicate n 0,
          ob_trade_report_epochs = replicate n 0, ob_trade_report_epoch = 0,
          ob_visit_marks = replicate n 0, ob_visit_epoch = 0\<rparr>"

lemma make_book_fields:
  assumes "make_book d n mq pol mode minq st = Inr b" "domain_ok d"
  obtains bo ao ar minq' where
    "b = fresh_book d n mq pol mode minq' st bo ao ar"
    "bm_inv bo" "bm_bit_count bo = pd_tick_count d" "bm_elems bo = {}"
    "bm_inv ao" "bm_bit_count ao = pd_tick_count d" "bm_elems ao = {}"
    "arena_ok ar" "live_set ar = {}" "ar_capacity ar = n"
    "pd_tick_count d \<le> kMaximumPriceLevels" "mq \<noteq> 0" "unat mq \<le> kUint32Max"
proof -
  obtain bo ar minq' where p: "checked_domain d = Inr d" "checked_max_quantity mq = Inr mq" "make_bitmap (pd_tick_count d) = Inr bo"
    "make_arena n = Inr ar" "checked_pro_rata_minimum mode minq mq = Inr minq'"
    using assms(1) by (auto simp: make_book_def sum_bind_Inr checked_domain_def checked_max_quantity_def split: if_splits)
  have t: "pd_tick_count d \<le> kMaximumPriceLevels" using p(1) by (auto simp: checked_domain_def split: if_splits)
  have pos: "0 < pd_tick_count d" "pd_tick_count d < 2 ^ 32" using assms(2) t by (auto simp: domain_ok_def kMaximumPriceLevels_def)
  have bm: "bm_inv bo" "bm_bit_count bo = pd_tick_count d" "bm_elems bo = {}" using make_bitmap_ok [OF pos] p(3) by auto
  have mq: "mq \<noteq> 0" "unat mq \<le> kUint32Max" using p(2) by (auto simp: checked_max_quantity_def split: if_splits)
  note ar = make_arena_ok [OF p(4)]
  have "b = fresh_book d n mq pol mode minq' st bo bo ar"
    using assms(1) p ar(3) by (auto simp: make_book_def sum_bind_Inr Let_def fresh_book_def split: if_splits)
  then show thesis by (rule that [OF _ bm bm ar(1,2,3) t mq])
qed

lemma make_book_ok:
  assumes "make_book d n mq pol mode minq st = Inr b" "domain_ok d"
  shows "book_ok b" "view b = empty_market" "slots b = n" "ob_domain b = d" "ob_max_quantity b = mq"
    "ob_self_trade_policy b = pol" "ob_allocation_mode b = mode" "ob_trading_state b = st"
proof -
  obtain bo ao ar minq' where b: "b = fresh_book d n mq pol mode minq' st bo ao ar"
    and p: "bm_inv bo" "bm_bit_count bo = pd_tick_count d" "bm_elems bo = {}"
    "bm_inv ao" "bm_bit_count ao = pd_tick_count d" "bm_elems ao = {}"
    "arena_ok ar" "live_set ar = {}" "ar_capacity ar = n"
    "pd_tick_count d \<le> kMaximumPriceLevels" "mq \<noteq> 0" "unat mq \<le> kUint32Max"
    by (rule make_book_fields [OF assms]) blast
  have lev: "level b s l = empty_level" if "l < pd_tick_count d" for s l using that by (cases s) (simp_all add: b fresh_book_def level.simps)
  have occ: "occupancy b s = (if s = Buy then bo else ao)" for s by (cases s) (simp_all add: b fresh_book_def occupancy.simps)
  have "arrays_ok b" by (simp add: b fresh_book_def arrays_ok_def p(9))
  then have "book_shape b" unfolding book_shape_def occ
    using assms(2) p by (simp add: b fresh_book_def word_gt_0)
  moreover have "level_rep b s l []" if "l < pd_tick_count d" for s l using lev [OF that, of s] by (simp add: level_rep_def empty_level_def)
  moreover have "stop_rep b []" by (simp add: stop_rep_def b fresh_book_def)
  moreover have "bm_elems (occupancy b s) = {}" for s by (simp add: occ p)
  ultimately have rep: "book_rep b (\<lambda>_ _. []) [] {}" unfolding book_rep_def by (auto simp: queued_def b fresh_book_def p(8))
  then show "book_ok b" by (rule book_okI) (simp add: epochs_ok_def b fresh_book_def p(9))
  show "view b = empty_market" using rep_view [OF rep] by (simp add: market_of_def empty_market_def b fresh_book_def)
  show "slots b = n" "ob_domain b = d" "ob_max_quantity b = mq"
    "ob_self_trade_policy b = pol" "ob_allocation_mode b = mode" "ob_trading_state b = st"
    by (simp_all add: b fresh_book_def p)
qed

section \<open>Cancellation\<close>

definition drop_slot :: "nat \<Rightarrow> market \<Rightarrow> market" where
  "drop_slot i M = M\<lparr>mkt_queue := \<lambda>s l. filter (\<lambda>m. mk_slot m \<noteq> i) (mkt_queue M s l),
     mkt_stops := filter (\<lambda>st. st_slot st \<noteq> i) (mkt_stops M)\<rparr>"

lemma resolve_SomeD:
  assumes "resolve (ob_arena b) h = Some x" "book_rep b Q S {}"
  shows "h_index h \<in> queued Q \<union> set S" "x = bk_order b (h_index h)" "h = handle_at (ob_arena b) (h_index h)"
proof -
  have live: "is_live_handle (ob_arena b) h" and x: "x = bk_order b (h_index h)"
    using assms(1) by (auto simp: resolve_def bk_order_def order_at_def split: if_splits)
  then have "h_index h \<in> live_set (ob_arena b)" by (auto simp: is_live_handle_def live_set_def)
  then show "h_index h \<in> queued Q \<union> set S" using assms(2) by (simp add: book_rep_def)
  show "x = bk_order b (h_index h)" by (rule x)
  show "h = handle_at (ob_arena b) (h_index h)" using live by (cases h) (simp add: is_live_handle_def handle_at_def)
qed

lemma resolve_dead: "h_index h \<notin> live_set (ob_arena b) \<Longrightarrow> resolve (ob_arena b) h = None"
  by (auto simp: resolve_def is_live_handle_def live_set_def)

lemma filter_slot_makers: "filter (\<lambda>m. mk_slot m \<noteq> i) (makers b q) = makers b (filter (\<lambda>j. j \<noteq> i) q)"
  by (simp add: makers_def filter_map comp_def)

lemma filter_slot_stops: "filter (\<lambda>st. st_slot st \<noteq> i) (map (stop_of b) S) = map (stop_of b) (filter (\<lambda>j. j \<noteq> i) S)"
  by (simp add: filter_map comp_def)

lemma filter_neq_id: "i \<notin> set xs \<Longrightarrow> filter (\<lambda>j. j \<noteq> i) xs = xs"
  by (induction xs) auto

lemma filter_neq_split: "distinct (xs @ i # ys) \<Longrightarrow> filter (\<lambda>j. j \<noteq> i) (xs @ i # ys) = xs @ ys"
  by (simp add: filter_neq_id)

lemma market_of_drop:
  assumes "\<And>j. maker_of b' j = maker_of b j" "\<And>j. j \<in> set S \<Longrightarrow> stop_of b' j = stop_of b j"
    "ob_last_execution_price b' = ob_last_execution_price b"
    and "\<And>s l. Q' s l = filter (\<lambda>j. j \<noteq> i) (Q s l)" "S' = filter (\<lambda>j. j \<noteq> i) S"
  shows "market_of b' Q' S' = drop_slot i (market_of b Q S)"
proof (rule market_of_eqI)
  have "makers b' q = makers b q" for q by (rule makers_cong) (rule assms(1))
  then show "makers b' (Q' s l) = mkt_queue (drop_slot i (market_of b Q S)) s l" for s l
    by (simp add: drop_slot_def market_of_def filter_slot_makers assms(4))
  have "map (stop_of b') S' = map (stop_of b) S'" using assms(2,5) by simp
  then show "map (stop_of b') S' = mkt_stops (drop_slot i (market_of b Q S))"
    by (simp add: drop_slot_def market_of_def filter_slot_stops assms(5))
qed (simp add: drop_slot_def market_of_def assms(3))

text \<open>Unlinking a resting order as \<^verbatim>\<open>cancel\<close> does, with the order's whole quantity.\<close>

lemma unlink_order_ok:
  assumes rep: "book_rep b Q S {}" and q: "Q s l = xs @ i # ys"
  defines "b' \<equiv> unlink b (handle_at (ob_arena b) i) (o_rem b i)"
  shows "book_rep b' (setq Q s l (xs @ ys)) S {}" "market_of b' (setq Q s l (xs @ ys)) S = drop_slot i (market_of b Q S)"
proof -
  have iq: "i \<in> set (Q s l)" by (simp add: q)
  have l: "l < ticks b" by (rule rep_mem_level [OF rep iq])
  have self: "b = set_disp (upd_level b s l (\<lambda>pl. pl\<lparr>pl_aggregate := pl_aggregate (level b s l)\<rparr>)) i (o_disp b i)"
    by (simp add: upd_level_id set_disp_def)
  have "pl_aggregate (level b s l) = sum_list (map (o_rem b) (Q s l))" using rep_level [OF rep l] by (simp add: level_rep_def)
  then have "pl_aggregate (level b s l) - o_rem b i = sum_list (map (o_rem b) (xs @ ys))" by (simp add: q sum_list_split)
  from unlink_rep [OF rep q self this] show "book_rep b' (setq Q s l (xs @ ys)) S {}" by (simp add: b'_def)
  have dist: "distinct (xs @ i # ys)" using rep_distinct [OF rep, of s l] q by simp
  show "market_of b' (setq Q s l (xs @ ys)) S = drop_slot i (market_of b Q S)"
  proof (rule market_of_drop)
    show "maker_of b' j = maker_of b j" for j by (simp add: b'_def)
    show "stop_of b' j = stop_of b j" for j
      by (rule stop_of_cong) (use unlink_keeps [of b "handle_at (ob_arena b) i" "o_rem b i"] in \<open>simp_all add: b'_def keeps_def\<close>)
    show "ob_last_execution_price b' = ob_last_execution_price b"
      using unlink_same(2) [of b "handle_at (ob_arena b) i" "o_rem b i"] by (simp add: b'_def same_report_def)
    have other: "i \<notin> set (Q s' l')" if "\<not> (s' = s \<and> l' = l)" for s' l' using rep_disjoint [OF rep iq] that by blast
    show "setq Q s l (xs @ ys) s' l' = filter (\<lambda>j. j \<noteq> i) (Q s' l')" for s' l'
      using filter_neq_split [OF dist] q filter_neq_id [OF other] by (cases "s' = s \<and> l' = l") auto
    have "i \<notin> set S" using rep_stop_disjoint [OF rep] iq by blast
    then show "S = filter (\<lambda>j. j \<noteq> i) S" by (simp add: filter_neq_id)
  qed
qed

lemma unlink_stop_ok:
  assumes rep: "book_rep b Q S {}" and S: "S = xs @ i # ys"
  defines "b' \<equiv> unlink_stop b (handle_at (ob_arena b) i)"
  shows "book_rep b' Q (xs @ ys) {}" "market_of b' Q (xs @ ys) = drop_slot i (market_of b Q S)"
    "same_report b b'" "same_env b b'"
proof -
  note d = detach_stop_rep [OF rep S]
  show "book_rep b' Q (xs @ ys) {}" unfolding b'_def by (rule unlink_stop_rep [OF rep S])
  have dist: "distinct (xs @ i # ys)" using rep S by (auto simp: book_rep_def stop_rep_def dest!: dll_distinct)
  have "same_report (detach_stop b i) b'" "same_env (detach_stop b i) b'"
    by (simp_all add: b'_def unlink_stop_def same_report_def same_env_def)
  then show same: "same_report b b'" "same_env b b'" using same_report_trans [OF d(3)] same_env_trans [OF d(2)] by auto
  show "market_of b' Q (xs @ ys) = drop_slot i (market_of b Q S)"
  proof (rule market_of_drop)
    show "maker_of b' j = maker_of b j" for j by (simp add: b'_def unlink_stop_def d(4))
    have "bk_order b' j = bk_order b j" for j by (simp add: b'_def unlink_stop_def d(5))
    then show "stop_of b' j = stop_of b j" for j
      using same(2) d(7,8) by (simp add: stop_of_def same_env_def) (simp add: b'_def unlink_stop_def)
    show "ob_last_execution_price b' = ob_last_execution_price b" using same(1) by (simp add: same_report_def)
    have "i \<notin> set (Q s l)" for s l using rep_stop_disjoint [OF rep] S by simp
    then show "Q s l = filter (\<lambda>j. j \<noteq> i) (Q s l)" for s l by (simp add: filter_neq_id)
    show "xs @ ys = filter (\<lambda>j. j \<noteq> i) S" using filter_neq_split [OF dist] S by simp
  qed
qed

lemma cancel_ok:
  assumes ok: "book_ok b" and res: "resolve (ob_arena b) h = Some x"
  shows "\<exists>b'. cancel b h = (\<lparr>cr_reason = CR_None, cr_id = ord_id x, cr_quantity = ord_remaining x\<rparr>, b') \<and>
    book_ok b' \<and> view b' = drop_slot (h_index h) (view b) \<and> resolve (ob_arena b') h = None"
proof -
  let ?Q = "queue_of b" and ?S = "stop_queue b" and ?i = "h_index h"
  have rep: "book_rep b ?Q ?S {}" and ep: "epochs_ok b" using ok by (auto simp: book_ok_def)
  note r = resolve_SomeD [OF res rep]
  have fin: "book_ok b' \<and> view b' = drop_slot ?i (view b) \<and> resolve (ob_arena b') h = None"
    if "book_rep b' Q' S' {}" "market_of b' Q' S' = drop_slot ?i (market_of b ?Q ?S)" "same_report b b'" "same_env b b'"
      "?i \<notin> queued Q' \<union> set S'" for b' Q' S'
  proof -
    have "live_set (ob_arena b') = queued Q' \<union> set S'" using that(1) by (simp add: book_rep_def)
    then show ?thesis
      using that book_okI [OF that(1)] ep epochs_ok_same [OF that(3,4)] rep_view [OF that(1)] resolve_dead [of h b'] by (simp add: view_def)
  qed
  show ?thesis
  proof (cases "?i \<in> set ?S")
    case True
    then obtain xs ys where S: "?S = xs @ ?i # ys" using split_list by metis
    have dist: "distinct (xs @ ?i # ys)" using rep S by (auto simp: book_rep_def stop_rep_def dest!: dll_distinct)
    have nq: "?i \<notin> queued ?Q" using rep_stop_disjoint [OF rep True] by (auto simp: queued_def)
    have "is_dormant x" using is_dormant_stop [OF rep_stop [OF rep True]] r(2) by simp
    then have "cancel b h = (\<lparr>cr_reason = CR_None, cr_id = ord_id x, cr_quantity = ord_remaining x\<rparr>, unlink_stop b (handle_at (ob_arena b) ?i))"
      using res r(3) by (simp add: cancel_def Let_def)
    moreover note fin [OF unlink_stop_ok [OF rep S]]
    ultimately show ?thesis using dist nq by auto
  next
    case False
    then obtain s l where q: "?i \<in> set (?Q s l)" using r(1) by (auto simp: queued_def)
    then obtain xs ys where sp: "?Q s l = xs @ ?i # ys" using split_list by metis
    have "\<not> is_dormant x" using is_dormant_active [OF rep_active [OF rep q]] r(2) by simp
    then have run: "cancel b h = (\<lparr>cr_reason = CR_None, cr_id = ord_id x, cr_quantity = ord_remaining x\<rparr>,
        unlink b (handle_at (ob_arena b) ?i) (o_rem b ?i))"
      using res r(2,3) by (simp add: cancel_def Let_def)
    have "?i \<notin> queued (setq ?Q s l (xs @ ys))"
      using queued_except_disjoint [OF rep q] rep_distinct [OF rep, of s l] sp by (simp add: queued_setq)
    then show ?thesis using fin [OF unlink_order_ok [OF rep sp]] run False by auto
  qed
qed

section \<open>Amendment\<close>

definition amend_slot :: "nat \<Rightarrow> u64 \<Rightarrow> market \<Rightarrow> market" where
  "amend_slot i q M = M\<lparr>
     mkt_queue := \<lambda>s l. map (\<lambda>m. if mk_slot m = i then m\<lparr>mk_rem := q, mk_disp := min (mk_disp m) q\<rparr> else m) (mkt_queue M s l),
     mkt_stops := map (\<lambda>st. if st_slot st = i then st\<lparr>st_quantity := q\<rparr> else st) (mkt_stops M)\<rparr>"

lemma market_of_amend:
  assumes "\<And>s l j. j \<in> set (Q s l) \<Longrightarrow> maker_of b' j = (if j = i then (maker_of b i)\<lparr>mk_rem := q, mk_disp := min (o_disp b i) q\<rparr> else maker_of b j)"
    "\<And>j. j \<in> set S \<Longrightarrow> stop_of b' j = (if j = i then (stop_of b i)\<lparr>st_quantity := q\<rparr> else stop_of b j)"
    "ob_last_execution_price b' = ob_last_execution_price b"
  shows "market_of b' Q S = amend_slot i q (market_of b Q S)"
proof (rule market_of_eqI)
  show "makers b' (Q s l) = mkt_queue (amend_slot i q (market_of b Q S)) s l" for s l
    using assms(1) [of _ s l] by (auto simp: makers_def amend_slot_def market_of_def)
  show "map (stop_of b') S = mkt_stops (amend_slot i q (market_of b Q S))"
    using assms(2) by (auto simp: amend_slot_def market_of_def)
qed (simp add: amend_slot_def market_of_def assms(3))

lemma amend_active_ok:
  assumes rep: "book_rep b Q S {}" and i: "i \<in> set (Q s l)" and q: "q \<noteq> 0" "q < o_rem b i"
  defines "b' \<equiv> set_disp (upd_order (upd_level b s l (\<lambda>pl. pl\<lparr>pl_aggregate := pl_aggregate pl - (o_rem b i - q)\<rparr>)) i
      (\<lambda>y. y\<lparr>ord_remaining := q\<rparr>)) i (min (o_disp b i) q)"
  shows "book_rep b' Q S {}" "market_of b' Q S = amend_slot i q (market_of b Q S)" "same_report b b'" "same_env b b'"
proof -
  have sh: "book_shape b" and l: "l < ticks b" and sl: "i < slots b"
    using rep rep_mem_level [OF rep i] rep_slot_q [OF rep i] by auto
  have act: "active_ok b s l i" by (rule rep_active [OF rep i])
  show env: "same_report b b'" "same_env b b'" by (simp_all add: b'_def same_report_def same_env_def set_disp_def)
  have stops: "same_stops b b'" by (simp add: b'_def same_stops_def set_disp_def)
  have ord: "bk_order b' j = (if j = i then (bk_order b i)\<lparr>ord_remaining := q\<rparr> else bk_order b j)" for j
    by (simp add: b'_def bk_order_upd_order sh sl)
  have disp: "o_disp b' j = (if j = i then min (o_disp b i) q else o_disp b j)" "o_peak b' j = o_peak b j" for j
    by (simp_all add: b'_def o_disp_set_disp sh sl)
  show "book_rep b' Q S {}"
  proof (rule requantify_rep [OF rep i _ env(2) stops _ ord disp])
    show "book_shape b'" using sh by (simp add: b'_def)
    show "level b' s' l' = (if s' = s \<and> l' = l then (level b s l)\<lparr>pl_aggregate := pl_aggregate (level b s l) - (o_rem b i - q)\<rparr>
      else level b s' l')" for s' l' by (simp add: b'_def level_upd_level [OF sh l])
    show "q \<le> ob_max_quantity b" using act q(2) by (auto simp: active_ok_def)
    show "min (o_disp b i) q \<noteq> 0" using act q(1) by (auto simp: active_ok_def min_def)
    show "min (o_disp b i) q \<le> o_peak b i" using act by (auto simp: active_ok_def intro: order_trans [OF min.cobounded1])
  qed (use q(1) in \<open>simp_all add: b'_def\<close>)
  show "market_of b' Q S = amend_slot i q (market_of b Q S)"
  proof (rule market_of_amend)
    show "maker_of b' j = (if j = i then (maker_of b i)\<lparr>mk_rem := q, mk_disp := min (o_disp b i) q\<rparr> else maker_of b j)" for j
      by (simp add: maker_of_def ord disp) (simp add: b'_def set_disp_def)
    show "stop_of b' j = (if j = i then (stop_of b i)\<lparr>st_quantity := q\<rparr> else stop_of b j)" if "j \<in> set S" for j
    proof -
      have "j \<noteq> i" using rep_stop_disjoint [OF rep that] i by blast
      then show ?thesis using env(2) stops by (simp add: stop_of_def ord same_env_def same_stops_def)
    qed
    show "ob_last_execution_price b' = ob_last_execution_price b" using env(1) by (simp add: same_report_def)
  qed
qed

lemma amend_stop_ok:
  assumes rep: "book_rep b Q S {}" and i: "i \<in> set S" and q: "q \<noteq> 0" "q < o_rem b i"
  defines "b' \<equiv> upd_order b i (\<lambda>y. y\<lparr>ord_remaining := q\<rparr>)"
  shows "book_rep b' Q S {}" "market_of b' Q S = amend_slot i q (market_of b Q S)" "same_report b b'" "same_env b b'"
proof -
  have sh: "book_shape b" and sl: "i < slots b" using rep rep_slot [OF rep] i by auto
  have nq: "j \<noteq> i" if "j \<in> set (Q s l)" for j s l using rep_stop_disjoint [OF rep i] that by blast
  show env: "same_report b b'" "same_env b b'" by (simp_all add: b'_def same_report_def same_env_def)
  have ord: "bk_order b' j = (if j = i then (bk_order b i)\<lparr>ord_remaining := q\<rparr> else bk_order b j)" for j
    by (simp add: b'_def bk_order_upd_order sh sl)
  have "level_rep b' s l (Q s l) = level_rep b s l (Q s l)" for s l
    by (rule level_rep_cong) (use nq in \<open>auto simp: ord\<close>, simp_all add: b'_def)
  moreover have "stop_rep b' S"
  proof -
    have "stop_ok b' j" if j: "j \<in> set S" for j
    proof (cases "j = i")
      case True
      then have "q \<le> ob_max_quantity b" using rep_stop [OF rep i] q(2) by (auto simp: stop_ok_def)
      then show ?thesis using rep_stop [OF rep i] True q(1) by (simp add: stop_ok_def ord is_stop_market_def) (simp add: b'_def)
    next
      case False
      then show ?thesis using rep_stop [OF rep j] by (simp add: stop_ok_def ord) (simp add: b'_def)
    qed
    then show ?thesis using rep by (simp add: book_rep_def stop_rep_def) (simp add: b'_def)
  qed
  ultimately show "book_rep b' Q S {}" using rep sh by (simp add: book_rep_def) (simp add: b'_def)
  show "market_of b' Q S = amend_slot i q (market_of b Q S)"
  proof (rule market_of_amend)
    show "maker_of b' j = (if j = i then (maker_of b i)\<lparr>mk_rem := q, mk_disp := min (o_disp b i) q\<rparr> else maker_of b j)"
      if "j \<in> set (Q s l)" for s l j using nq [OF that] by (simp add: maker_of_def ord) (simp add: b'_def)
    show "stop_of b' j = (if j = i then (stop_of b i)\<lparr>st_quantity := q\<rparr> else stop_of b j)" for j
      by (simp add: stop_of_def ord is_stop_market_def) (simp add: b'_def)
    show "ob_last_execution_price b' = ob_last_execution_price b" using env(1) by (simp add: same_report_def)
  qed
qed

lemma amend_ok:
  assumes ok: "book_ok b" and res: "resolve (ob_arena b) h = Some x" and q: "q \<noteq> 0" "q < ord_remaining x"
  shows "\<exists>b'. amend_quantity b h q = (\<lparr>am_reason = AR_None, am_id = ord_id x, am_previous = ord_remaining x, am_new = q, am_handle = h\<rparr>, b') \<and>
    book_ok b' \<and> view b' = amend_slot (h_index h) q (view b)"
proof -
  let ?Q = "queue_of b" and ?S = "stop_queue b" and ?i = "h_index h"
  have rep: "book_rep b ?Q ?S {}" and ep: "epochs_ok b" using ok by (auto simp: book_ok_def)
  note r = resolve_SomeD [OF res rep]
  have fin: "book_ok b' \<and> view b' = amend_slot ?i q (view b)"
    if "book_rep b' ?Q ?S {}" "market_of b' ?Q ?S = amend_slot ?i q (market_of b ?Q ?S)" "same_report b b'" "same_env b b'" for b'
    using that book_okI [OF that(1)] ep epochs_ok_same [OF that(3,4)] rep_view [OF that(1)] by (simp add: view_def)
  have qr: "q < o_rem b ?i" using q(2) r(2) by simp
  show ?thesis
  proof (cases "?i \<in> set ?S")
    case True
    have d: "is_dormant x" and m: "o_rem b ?i \<le> ob_max_quantity b"
      using is_dormant_stop [OF rep_stop [OF rep True]] rep_stop [OF rep True] r(2) by (auto simp: stop_ok_def)
    then have "amend_quantity b h q = (\<lparr>am_reason = AR_None, am_id = ord_id x, am_previous = ord_remaining x, am_new = q, am_handle = h\<rparr>,
        upd_order b ?i (\<lambda>y. y\<lparr>ord_remaining := q\<rparr>))"
      using res q qr r(2) by (auto simp: amend_quantity_def Let_def)
    then show ?thesis using fin [OF amend_stop_ok [OF rep True q(1) qr]] by auto
  next
    case False
    then obtain s l where iq: "?i \<in> set (?Q s l)" using r(1) by (auto simp: queued_def)
    have act: "active_ok b s l ?i" by (rule rep_active [OF rep iq])
    have d: "\<not> is_dormant x" using is_dormant_active [OF act] r(2) by simp
    have m: "o_rem b ?i \<le> ob_max_quantity b" using act by (simp add: active_ok_def)
    have dec: "decode_side (ord_encoded x) = s" "decode_level (ord_encoded x) = l"
      using active_decode [OF act] rep rep_mem_level [OF rep iq] r(2) by auto
    have "amend_quantity b h q = (\<lparr>am_reason = AR_None, am_id = ord_id x, am_previous = ord_remaining x, am_new = q, am_handle = h\<rparr>,
        set_disp (upd_order (upd_level b s l (\<lambda>pl. pl\<lparr>pl_aggregate := pl_aggregate pl - (o_rem b ?i - q)\<rparr>)) ?i
          (\<lambda>y. y\<lparr>ord_remaining := q\<rparr>)) ?i (min (o_disp b ?i) q))"
      using res q qr r(2) d m dec by (auto simp: amend_quantity_def Let_def set_disp_def)
    then show ?thesis using fin [OF amend_active_ok [OF rep iq q(1) qr]] by auto
  qed
qed

end
