(* ===== verification/Order_Book_Demo.thy ===== *)
theory Order_Book_Demo
  imports Order_Book_Entry Order_Book_Init
begin

text \<open>
  Small concrete books for the witnesses, written out, with the proofs that the operations reach them.
\<close>

definition demo_domain :: price_domain where
  "demo_domain = \<lparr>pd_minimum = 103, pd_maximum = 104, pd_tick_count = 2\<rparr>"

definition tick_domain :: price_domain where
  "tick_domain = \<lparr>pd_minimum = 103, pd_maximum = 103, pd_tick_count = 1\<rparr>"

definition no_trade :: trade where
  "no_trade = \<lparr>tr_buy = 0, tr_sell = 0, tr_price = 0, tr_quantity = 0\<rparr>"

definition buffer :: "nat \<Rightarrow> trade list" where
  "buffer n = replicate n no_trade"

definition run_book :: "submit_run \<Rightarrow> book" where
  "run_book r = (case r of Some (Inr (_, b, _)) \<Rightarrow> b)"

text \<open>A new book of two ticks and two slots.\<close>

definition demo_new :: book where
  "demo_new =
     \<lparr>ob_domain = \<lparr>pd_minimum = 103, pd_maximum = 104, pd_tick_count = 2\<rparr>,
    ob_max_quantity = 100,
    ob_bids =
      [\<lparr>pl_head = 4294967295, pl_tail = 4294967295, pl_aggregate = 0,
          pl_count = 0\<rparr>,
       \<lparr>pl_head = 4294967295, pl_tail = 4294967295, pl_aggregate = 0,
          pl_count = 0\<rparr>],
    ob_asks =
      [\<lparr>pl_head = 4294967295, pl_tail = 4294967295, pl_aggregate = 0,
          pl_count = 0\<rparr>,
       \<lparr>pl_head = 4294967295, pl_tail = 4294967295, pl_aggregate = 0,
          pl_count = 0\<rparr>],
    ob_bid_occupancy =
      \<lparr>bm_bit_count = 2, bm_offsets = [0, 0, 0, 0, 0, 0],
         bm_word_counts = [1, 0, 0, 0, 0, 0], bm_level_count = 1,
         bm_total_words = 1, bm_words = [0]\<rparr>,
    ob_ask_occupancy =
      \<lparr>bm_bit_count = 2, bm_offsets = [0, 0, 0, 0, 0, 0],
         bm_word_counts = [1, 0, 0, 0, 0, 0], bm_level_count = 1,
         bm_total_words = 1, bm_words = [0]\<rparr>,
    ob_arena =
      \<lparr>ar_capacity = 2,
         ar_slots =
           [\<lparr>sl_order =
               \<lparr>ord_id = 0, ord_remaining = 0, ord_prev = 4294967295,
                  ord_next = 4294967295, ord_encoded = 0, ord_flags = 0\<rparr>,
               sl_generation = 1, sl_free_next = 1, sl_live = False\<rparr>,
            \<lparr>sl_order =
               \<lparr>ord_id = 0, ord_remaining = 0, ord_prev = 4294967295,
                  ord_next = 4294967295, ord_encoded = 0, ord_flags = 0\<rparr>,
               sl_generation = 1, sl_free_next = 4294967295,
               sl_live = False\<rparr>],
         ar_size = 0, ar_free_head = 0\<rparr>,
    ob_trader_ids = [0, 0], ob_display_quantities = [0, 0],
    ob_displayed_remaining = [0, 0], ob_stop_trigger_prices = [0, 0],
    ob_stop_limit_prices = [0, 0], ob_stop_prev = [0, 0],
    ob_stop_next = [0, 0], ob_stop_head = 4294967295,
    ob_stop_tail = 4294967295, ob_dormant_stop_count = 0,
    ob_stop_activations =
      [\<lparr>sa_id = 0, sa_executed = 0, sa_unfilled = 0,
          sa_handle = \<lparr>h_index = 0, h_generation = 0\<rparr>\<rparr>,
       \<lparr>sa_id = 0, sa_executed = 0, sa_unfilled = 0,
          sa_handle = \<lparr>h_index = 0, h_generation = 0\<rparr>\<rparr>],
    ob_stop_activation_count = 0, ob_last_execution_price = None,
    ob_self_trade_policy = STP_None, ob_allocation_mode = Fifo,
    ob_pro_rata_minimum = 0, ob_trading_state = Continuous,
    ob_trade_report_indices = [0, 0], ob_trade_report_epochs = [0, 0],
    ob_trade_report_epoch = 0, ob_visit_marks = [0, 0], ob_visit_epoch = 0\<rparr>"

text \<open>The same after a sell order of five at the lower tick.\<close>

definition demo_ask :: book where
  "demo_ask =
     \<lparr>ob_domain = \<lparr>pd_minimum = 103, pd_maximum = 104, pd_tick_count = 2\<rparr>,
    ob_max_quantity = 100,
    ob_bids =
      [\<lparr>pl_head = 4294967295, pl_tail = 4294967295, pl_aggregate = 0,
          pl_count = 0\<rparr>,
       \<lparr>pl_head = 4294967295, pl_tail = 4294967295, pl_aggregate = 0,
          pl_count = 0\<rparr>],
    ob_asks =
      [\<lparr>pl_head = 0, pl_tail = 0, pl_aggregate = 5, pl_count = 1\<rparr>,
       \<lparr>pl_head = 4294967295, pl_tail = 4294967295, pl_aggregate = 0,
          pl_count = 0\<rparr>],
    ob_bid_occupancy =
      \<lparr>bm_bit_count = 2, bm_offsets = [0, 0, 0, 0, 0, 0],
         bm_word_counts = [1, 0, 0, 0, 0, 0], bm_level_count = 1,
         bm_total_words = 1, bm_words = [0]\<rparr>,
    ob_ask_occupancy =
      \<lparr>bm_bit_count = 2, bm_offsets = [0, 0, 0, 0, 0, 0],
         bm_word_counts = [1, 0, 0, 0, 0, 0], bm_level_count = 1,
         bm_total_words = 1, bm_words = [1]\<rparr>,
    ob_arena =
      \<lparr>ar_capacity = 2,
         ar_slots =
           [\<lparr>sl_order =
               \<lparr>ord_id = 1, ord_remaining = 5, ord_prev = 4294967295,
                  ord_next = 4294967295, ord_encoded = 2147483648,
                  ord_flags = 0\<rparr>,
               sl_generation = 1, sl_free_next = 1, sl_live = True\<rparr>,
            \<lparr>sl_order =
               \<lparr>ord_id = 0, ord_remaining = 0, ord_prev = 4294967295,
                  ord_next = 4294967295, ord_encoded = 0, ord_flags = 0\<rparr>,
               sl_generation = 1, sl_free_next = 4294967295,
               sl_live = False\<rparr>],
         ar_size = 1, ar_free_head = 1\<rparr>,
    ob_trader_ids = [0, 0], ob_display_quantities = [5, 0],
    ob_displayed_remaining = [5, 0], ob_stop_trigger_prices = [0, 0],
    ob_stop_limit_prices = [0, 0], ob_stop_prev = [0, 0],
    ob_stop_next = [0, 0], ob_stop_head = 4294967295,
    ob_stop_tail = 4294967295, ob_dormant_stop_count = 0,
    ob_stop_activations =
      [\<lparr>sa_id = 0, sa_executed = 0, sa_unfilled = 0,
          sa_handle = \<lparr>h_index = 0, h_generation = 0\<rparr>\<rparr>,
       \<lparr>sa_id = 0, sa_executed = 0, sa_unfilled = 0,
          sa_handle = \<lparr>h_index = 0, h_generation = 0\<rparr>\<rparr>],
    ob_stop_activation_count = 0, ob_last_execution_price = None,
    ob_self_trade_policy = STP_None, ob_allocation_mode = Fifo,
    ob_pro_rata_minimum = 0, ob_trading_state = Continuous,
    ob_trade_report_indices = [0, 0], ob_trade_report_epochs = [0, 0],
    ob_trade_report_epoch = 1, ob_visit_marks = [0, 0], ob_visit_epoch = 0\<rparr>"

text \<open>The same order in a book with self-trade prevention: it has no trader identity.\<close>

definition demo_own :: book where
  "demo_own = demo_ask\<lparr>ob_self_trade_policy := STP_Cancel_Taker\<rparr>"

text \<open>Two icebergs at the only price and a dormant buy stop, in a book of three slots.\<close>

definition demo_cascade :: book where
  "demo_cascade =
     \<lparr>ob_domain = \<lparr>pd_minimum = 103, pd_maximum = 103, pd_tick_count = 1\<rparr>,
    ob_max_quantity = 100,
    ob_bids =
      [\<lparr>pl_head = 4294967295, pl_tail = 4294967295, pl_aggregate = 0,
          pl_count = 0\<rparr>],
    ob_asks = [\<lparr>pl_head = 0, pl_tail = 1, pl_aggregate = 10, pl_count = 2\<rparr>],
    ob_bid_occupancy =
      \<lparr>bm_bit_count = 1, bm_offsets = [0, 0, 0, 0, 0, 0],
         bm_word_counts = [1, 0, 0, 0, 0, 0], bm_level_count = 1,
         bm_total_words = 1, bm_words = [0]\<rparr>,
    ob_ask_occupancy =
      \<lparr>bm_bit_count = 1, bm_offsets = [0, 0, 0, 0, 0, 0],
         bm_word_counts = [1, 0, 0, 0, 0, 0], bm_level_count = 1,
         bm_total_words = 1, bm_words = [1]\<rparr>,
    ob_arena =
      \<lparr>ar_capacity = 3,
         ar_slots =
           [\<lparr>sl_order =
               \<lparr>ord_id = 1, ord_remaining = 5, ord_prev = 4294967295,
                  ord_next = 1, ord_encoded = 2147483648, ord_flags = 0\<rparr>,
               sl_generation = 1, sl_free_next = 1, sl_live = True\<rparr>,
            \<lparr>sl_order =
               \<lparr>ord_id = 2, ord_remaining = 5, ord_prev = 0,
                  ord_next = 4294967295, ord_encoded = 2147483648,
                  ord_flags = 0\<rparr>,
               sl_generation = 1, sl_free_next = 2, sl_live = True\<rparr>,
            \<lparr>sl_order =
               \<lparr>ord_id = 3, ord_remaining = 2, ord_prev = 4294967295,
                  ord_next = 4294967295, ord_encoded = 0, ord_flags = 3\<rparr>,
               sl_generation = 1, sl_free_next = 4294967295,
               sl_live = True\<rparr>],
         ar_size = 3, ar_free_head = 4294967295\<rparr>,
    ob_trader_ids = [0, 0, 0], ob_display_quantities = [1, 1, 0],
    ob_displayed_remaining = [1, 1, 0],
    ob_stop_trigger_prices = [0, 0, 103], ob_stop_limit_prices = [0, 0, 0],
    ob_stop_prev = [0, 0, 4294967295], ob_stop_next = [0, 0, 4294967295],
    ob_stop_head = 2, ob_stop_tail = 2, ob_dormant_stop_count = 1,
    ob_stop_activations =
      [\<lparr>sa_id = 0, sa_executed = 0, sa_unfilled = 0,
          sa_handle = \<lparr>h_index = 0, h_generation = 0\<rparr>\<rparr>,
       \<lparr>sa_id = 0, sa_executed = 0, sa_unfilled = 0,
          sa_handle = \<lparr>h_index = 0, h_generation = 0\<rparr>\<rparr>,
       \<lparr>sa_id = 0, sa_executed = 0, sa_unfilled = 0,
          sa_handle = \<lparr>h_index = 0, h_generation = 0\<rparr>\<rparr>],
    ob_stop_activation_count = 0, ob_last_execution_price = None,
    ob_self_trade_policy = STP_None, ob_allocation_mode = Fifo,
    ob_pro_rata_minimum = 0, ob_trading_state = Continuous,
    ob_trade_report_indices = [0, 0, 0], ob_trade_report_epochs = [0, 0, 0],
    ob_trade_report_epoch = 2, ob_visit_marks = [0, 0, 0],
    ob_visit_epoch = 0\<rparr>"

text \<open>An iceberg and a plain order at one price under threshold pro-rata allocation.\<close>

definition demo_pro_rata :: book where
  "demo_pro_rata =
     \<lparr>ob_domain = \<lparr>pd_minimum = 103, pd_maximum = 103, pd_tick_count = 1\<rparr>,
    ob_max_quantity = 100,
    ob_bids =
      [\<lparr>pl_head = 4294967295, pl_tail = 4294967295, pl_aggregate = 0,
          pl_count = 0\<rparr>],
    ob_asks = [\<lparr>pl_head = 0, pl_tail = 1, pl_aggregate = 8, pl_count = 2\<rparr>],
    ob_bid_occupancy =
      \<lparr>bm_bit_count = 1, bm_offsets = [0, 0, 0, 0, 0, 0],
         bm_word_counts = [1, 0, 0, 0, 0, 0], bm_level_count = 1,
         bm_total_words = 1, bm_words = [0]\<rparr>,
    ob_ask_occupancy =
      \<lparr>bm_bit_count = 1, bm_offsets = [0, 0, 0, 0, 0, 0],
         bm_word_counts = [1, 0, 0, 0, 0, 0], bm_level_count = 1,
         bm_total_words = 1, bm_words = [1]\<rparr>,
    ob_arena =
      \<lparr>ar_capacity = 2,
         ar_slots =
           [\<lparr>sl_order =
               \<lparr>ord_id = 1, ord_remaining = 6, ord_prev = 4294967295,
                  ord_next = 1, ord_encoded = 2147483648, ord_flags = 0\<rparr>,
               sl_generation = 1, sl_free_next = 1, sl_live = True\<rparr>,
            \<lparr>sl_order =
               \<lparr>ord_id = 2, ord_remaining = 2, ord_prev = 0,
                  ord_next = 4294967295, ord_encoded = 2147483648,
                  ord_flags = 0\<rparr>,
               sl_generation = 1, sl_free_next = 4294967295,
               sl_live = True\<rparr>],
         ar_size = 2, ar_free_head = 4294967295\<rparr>,
    ob_trader_ids = [0, 0], ob_display_quantities = [2, 2],
    ob_displayed_remaining = [2, 2], ob_stop_trigger_prices = [0, 0],
    ob_stop_limit_prices = [0, 0], ob_stop_prev = [0, 0],
    ob_stop_next = [0, 0], ob_stop_head = 4294967295,
    ob_stop_tail = 4294967295, ob_dormant_stop_count = 0,
    ob_stop_activations =
      [\<lparr>sa_id = 0, sa_executed = 0, sa_unfilled = 0,
          sa_handle = \<lparr>h_index = 0, h_generation = 0\<rparr>\<rparr>,
       \<lparr>sa_id = 0, sa_executed = 0, sa_unfilled = 0,
          sa_handle = \<lparr>h_index = 0, h_generation = 0\<rparr>\<rparr>],
    ob_stop_activation_count = 0, ob_last_execution_price = None,
    ob_self_trade_policy = STP_None,
    ob_allocation_mode = Threshold_Pro_Rata, ob_pro_rata_minimum = 1,
    ob_trading_state = Continuous, ob_trade_report_indices = [0, 0],
    ob_trade_report_epochs = [0, 0], ob_trade_report_epoch = 2,
    ob_visit_marks = [0, 0], ob_visit_epoch = 0\<rparr>"

section \<open>Reached\<close>

lemma demo_domain_ok: "domain_ok demo_domain"
  by code_simp

lemma demo_new_make: "make_book demo_domain 2 100 STP_None Fifo 0 Continuous = Inr demo_new"
  by code_simp

lemma demo_ask_reached:
  "submit_limit demo_new 1 0 (Valid_Side Sell) 103 5 GTC (buffer 2) =
     ret (submitted 5 5 0 \<lparr>h_index = 0, h_generation = 1\<rparr>, demo_ask, buffer 2)"
  by code_simp

lemma demo_own_reached:
  "submit_limit (demo_new\<lparr>ob_self_trade_policy := STP_Cancel_Taker\<rparr>) 1 0 (Valid_Side Sell) 103 5 GTC (buffer 2) =
     ret (submitted 5 5 0 \<lparr>h_index = 0, h_generation = 1\<rparr>, demo_own, buffer 2)"
  by code_simp

lemma demo_cascade_reached:
  "(let b0 = projr (make_book tick_domain 3 100 STP_None Fifo 0 Continuous);
        b1 = run_book (submit_iceberg b0 1 0 (Valid_Side Sell) 103 5 1 (buffer 3));
        b2 = run_book (submit_iceberg b1 2 0 (Valid_Side Sell) 103 5 1 (buffer 3))
    in run_book (submit_stop b2 3 (Valid_Side Buy) 103 2 (buffer 3))) = demo_cascade"
  by code_simp

lemma demo_pro_rata_reached:
  "(let b0 = projr (make_book tick_domain 2 100 STP_None Threshold_Pro_Rata 1 Continuous);
        b1 = run_book (submit_iceberg b0 1 0 (Valid_Side Sell) 103 6 2 (buffer 2))
    in run_book (submit_limit b1 2 0 (Valid_Side Sell) 103 2 GTC (buffer 2))) = demo_pro_rata"
  by code_simp

section \<open>Invariants\<close>

lemma demo_new_ok: "book_ok demo_new" "free_trading demo_new" "ob_trading_state demo_new = Continuous" "slots demo_new \<le> length (buffer 2)"
  using make_book_ok [OF demo_new_make demo_domain_ok] by (auto simp: free_trading_def buffer_def)

lemma demo_ask_ok:
  "book_ok demo_ask" "free_trading demo_ask" "ob_trading_state demo_ask = Continuous" "slots demo_ask \<le> length (buffer 2)"
proof -
  have pre: "preflight_limit demo_new (Valid_Side Sell) 103 5 GTC = RR_None" by code_simp
  from limit_entered [OF demo_new_ok(1-3) pre demo_new_ok(4)] show "book_ok demo_ask" using entered_ok demo_ask_reached by blast
qed (simp_all add: demo_ask_def free_trading_def buffer_def)

text \<open>The invariant does not depend on the self-trade policy.\<close>

lemma book_ok_policy:
  assumes "book_ok b" shows "book_ok (b\<lparr>ob_self_trade_policy := pol\<rparr>)"
proof -
  let ?b = "b\<lparr>ob_self_trade_policy := pol\<rparr>"
  have rep: "book_rep b (queue_of b) (stop_queue b) {}" and ep: "epochs_ok b" using assms by (auto simp: book_ok_def)
  have occ: "occupancy ?b s = occupancy b s" and lev: "level ?b s l = level b s l" for s l
    by (cases s; simp add: level.simps occupancy.simps)+
  have "arrays_ok ?b = arrays_ok b" by (simp add: arrays_ok_def)
  then have "book_shape ?b = book_shape b" unfolding book_shape_def occ by simp
  then have "book_shape ?b" using rep by auto
  then have "book_rep ?b (queue_of b) (stop_queue b) {}"
    by (rule rep_same [OF rep]) (simp_all add: occ lev, simp_all add: bk_order_def)
  then show ?thesis by (rule book_okI) (use ep in \<open>simp add: epochs_ok_def\<close>)
qed

lemma demo_own_ok: "book_ok demo_own"
  unfolding demo_own_def by (rule book_ok_policy [OF demo_ask_ok(1)])

end
