(* ===== verification/Engine_Properties.thy ===== *)
theory Engine_Properties
  imports Sequenced_Engine Command_Properties Order_Book_Demo
begin

text \<open>
  The sequenced engine over its book: the events of a command, the invariant, and the agreement with
  the sequencer that stamps the commands.  The locale \<open>book_entry\<close> is what the engine relies on of
  an order entry of the book; limit, market and iceberg entry are its instances.
\<close>

section \<open>Writing events\<close>

lemma write_from_ret:
  "k + n \<le> length evs \<Longrightarrow> write_from f k n evs = ret (take k evs @ map f [k..<k + n] @ drop (k + n) evs)"
proof (induction n arbitrary: k evs)
  case (Suc n)
  have "take (k + 1) (evs[k := f k]) = take k evs @ [f k]" using Suc.prems by (simp add: take_Suc_conv_app_nth)
  moreover have "[k..<k + Suc n] = k # [Suc k..<Suc k + n]" using upt_conv_Cons [of k "k + Suc n"] by simp
  ultimately show ?case using Suc.prems Suc.IH [of "Suc k" "evs[k := f k]"] by simp
qed simp

lemma write_from_append:
  assumes "n \<le> length ys" "k = length xs"
  shows "write_from f k n (xs @ ys) = ret ((xs @ map f [k..<k + n]) @ drop n ys)"
  using write_from_ret [of k n "xs @ ys" f] assms by simp

text \<open>The events of a submission: its result, its trades, the stops it set off.\<close>

definition submit_report :: "sequenced_command \<Rightarrow> order_id \<Rightarrow> submit_result \<Rightarrow> trade list \<Rightarrow> stop_activation list \<Rightarrow> engine_event list" where
  "submit_report c oid res tr acts = submit_event c oid res #
     map (\<lambda>(k, t). trade_event (sc_sequence c) k t) (enumerate 1 tr) @
     map (\<lambda>(k, a). stop_triggered_event c k a) (enumerate (1 + length tr) acts)"

lemma map_upt_enumerate: "map (\<lambda>k. f k (xs ! (k - m))) [m..<m + length xs] = map (\<lambda>(k, x). f k x) (enumerate m xs)"
  by (rule nth_equalityI) (simp_all add: nth_enumerate_eq)

lemma write_submit_events_ret:
  assumes room: "1 + sr_trade_count res + length (stop_activations (se_book e)) \<le> length evs"
    and tr: "take (sr_trade_count res) (se_trade_scratch e) = tr" "length tr = sr_trade_count res"
  shows "write_submit_events e c res oid evs = ret (submit_report c oid res tr (stop_activations (se_book e)) @
    drop (1 + sr_trade_count res + length (stop_activations (se_book e))) evs)"
proof -
  let ?n = "sr_trade_count res" and ?acts = "stop_activations (se_book e)"
  let ?t = "\<lambda>k. trade_event (sc_sequence c) k (se_trade_scratch e ! (k - 1))"
  let ?a = "\<lambda>k. stop_triggered_event c k (?acts ! (k - (?n + 1)))"
  have t: "map ?t [1..<1 + ?n] = map (\<lambda>(k, t). trade_event (sc_sequence c) k t) (enumerate 1 tr)"
  proof -
    have "map ?t [1..<1 + ?n] = map (\<lambda>k. trade_event (sc_sequence c) k (tr ! (k - 1))) [1..<1 + length tr]"
      using tr by (auto simp: tr(2))
    then show ?thesis using map_upt_enumerate [of "\<lambda>k. trade_event (sc_sequence c) k" tr 1] by simp
  qed
  have a: "map ?a [?n + 1..<?n + 1 + length ?acts] = map (\<lambda>(k, a). stop_triggered_event c k a) (enumerate (1 + length tr) ?acts)"
    using map_upt_enumerate [of "stop_triggered_event c" ?acts "?n + 1"] tr(2) by simp
  let ?x1 = "[submit_event c oid res]"
  let ?x2 = "?x1 @ map ?t [1..<1 + ?n]"
  have w1: "write_from (\<lambda>_. submit_event c oid res) 0 1 evs = ret (?x1 @ drop 1 evs)"
    using write_from_append [of 1 evs 0 "[]" "\<lambda>_. submit_event c oid res"] room by simp
  have w2: "write_from ?t 1 ?n (?x1 @ drop 1 evs) = ret (?x2 @ drop ?n (drop 1 evs))"
    by (rule write_from_append) (use room in simp_all)
  have w3: "write_from ?a (?n + 1) (length ?acts) (?x2 @ drop ?n (drop 1 evs)) =
      ret ((?x2 @ map ?a [?n + 1..<?n + 1 + length ?acts]) @ drop (length ?acts) (drop ?n (drop 1 evs)))"
    by (rule write_from_append) (use room in \<open>simp_all del: upt_Suc\<close>)
  show ?thesis unfolding write_submit_events_def w1 w2 w3 run_bind_ret unfolding t a by (simp add: submit_report_def add.commute)
qed

section \<open>The invariant\<close>

definition trading_ok :: "book \<Rightarrow> bool" where
  "trading_ok b \<longleftrightarrow> book_ok b \<and> free_trading b \<and> ob_trading_state b = Continuous"

definition engine_ok :: "engine \<Rightarrow> bool" where
  "engine_ok e \<longleftrightarrow> trading_ok (se_book e) \<and> slots (se_book e) = se_trade_capacity e \<and>
     length (se_trade_scratch e) = se_trade_capacity e"

text \<open>What may have changed in the engine before its sequence advances.\<close>

definition same_clock :: "engine \<Rightarrow> engine \<Rightarrow> bool" where
  "same_clock e e' \<longleftrightarrow> se_trade_capacity e' = se_trade_capacity e \<and> se_next_sequence e' = se_next_sequence e \<and>
     se_last_logical_time e' = se_last_logical_time e \<and> se_sequence_exhausted e' = se_sequence_exhausted e"

text \<open>A command that was carried out: the events at the front of the span, the rest untouched.\<close>

definition carried_out :: "(nat \<times> engine \<times> engine_event list) run \<Rightarrow> engine \<Rightarrow> nat \<Rightarrow> engine_event list \<Rightarrow> bool" where
  "carried_out run e need evs \<longleftrightarrow> (\<exists>n e' evs'. run = ret (n, e', evs') \<and> engine_ok e' \<and> same_clock e e' \<and>
     1 \<le> n \<and> n \<le> need \<and> length evs' = length evs \<and> drop n evs' = drop n evs \<and>
     (\<forall>k < n. ev_event_index (evs' ! k) = k))"

lemma trading_ok_env: "trading_ok b \<Longrightarrow> same_env b b' \<Longrightarrow> book_ok b' \<Longrightarrow> trading_ok b'"
  using free_trading_env [of b b'] by (simp add: trading_ok_def) (simp add: same_env_def)

lemma event_index [simp]:
  "ev_event_index (submit_event c oid res) = 0" "ev_event_index (trade_event s k t) = k"
  "ev_event_index (stop_triggered_event c k a) = k"
  by (simp_all add: submit_event_def trade_event_def stop_triggered_event_def default_event_def)

lemma submit_report_index:
  "k < length (submit_report c oid res tr acts) \<Longrightarrow> ev_event_index (submit_report c oid res tr acts ! k) = k"
  by (auto simp: submit_report_def nth_Cons nth_append nth_enumerate_eq split: nat.splits)

lemma length_submit_report [simp]: "length (submit_report c oid res tr acts) = 1 + length tr + length acts"
  by (simp add: submit_report_def)

section \<open>What the engine relies on of an order entry\<close>

locale book_entry =
  fixes submit :: "book \<Rightarrow> trade list \<Rightarrow> submit_run" and accepted :: "book \<Rightarrow> bool"
  assumes entry: "trading_ok b \<Longrightarrow> length T = slots b \<Longrightarrow>
    submit b T = crash Trade_Buffer_Overflow \<or>
    (\<exists>res b' T'. submit b T = ret (res, b', T') \<and> book_ok b' \<and> same_env b b' \<and> length T' = length T \<and>
       sr_trade_count res \<le> length T \<and> length (stop_activations b') \<le> ob_dormant_stop_count b \<and>
       (accepted b \<or> sr_trade_count res = 0 \<and> stop_activations b' = []))"
begin

lemma finish_submit_carried_out:
  assumes ok: "engine_ok e" and room: "need \<le> length evs"
    and need: "need = (if accepted (se_book e) then se_trade_capacity e + 1 + ob_dormant_stop_count (se_book e) else 1)"
  shows "finish_submit e c oid (submit (se_book e) (se_trade_scratch e)) evs = crash Trade_Buffer_Overflow \<or>
    carried_out (finish_submit e c oid (submit (se_book e) (se_trade_scratch e)) evs) e need evs"
proof -
  let ?b = "se_book e" and ?T = "se_trade_scratch e"
  have tok: "trading_ok ?b" and len: "length ?T = slots ?b" "slots ?b = se_trade_capacity e" using ok by (simp_all add: engine_ok_def)
  consider "submit ?b ?T = crash Trade_Buffer_Overflow" | res b' T' where "submit ?b ?T = ret (res, b', T')" "book_ok b'" "same_env ?b b'"
    "length T' = length ?T" "sr_trade_count res \<le> length ?T" "length (stop_activations b') \<le> ob_dormant_stop_count ?b"
    "accepted ?b \<or> sr_trade_count res = 0 \<and> stop_activations b' = []"
    using entry [OF tok len(1)] by blast
  then show ?thesis
  proof cases
    case 1
    then show ?thesis by (simp add: finish_submit_def)
  next
    case (2 res b' T')
    let ?e = "e\<lparr>se_book := b', se_trade_scratch := T'\<rparr>"
    let ?n = "1 + sr_trade_count res + length (stop_activations b')"
    have n: "?n \<le> need" using 2(5-7) need len by auto
    have w: "write_submit_events ?e c res oid evs = ret (submit_report c oid res (take (sr_trade_count res) T') (stop_activations b') @ drop ?n evs)"
      using write_submit_events_ret [of res ?e evs "take (sr_trade_count res) T'" c oid] n room 2(4,5) by simp
    have run: "finish_submit e c oid (submit ?b ?T) evs = ret (?n, ?e, submit_report c oid res (take (sr_trade_count res) T') (stop_activations b') @ drop ?n evs)"
      unfolding finish_submit_def 2(1) run_bind_ret split_conv Let_def w by simp
    have "engine_ok ?e" using trading_ok_env [OF tok 2(3,2)] 2(3,4) len by (simp add: engine_ok_def same_env_def)
    moreover have "same_clock e ?e" by (simp add: same_clock_def)
    moreover have "length (submit_report c oid res (take (sr_trade_count res) T') (stop_activations b')) = ?n" using 2(4,5) by simp
    ultimately have "carried_out (ret (?n, ?e, submit_report c oid res (take (sr_trade_count res) T') (stop_activations b') @ drop ?n evs)) e need evs"
      using n room unfolding carried_out_def ret_inject
      by (intro exI [of _ ?n] exI [of _ ?e]) (auto simp: nth_append submit_report_index)
    then show ?thesis using run by simp
  qed
qed

end

section \<open>The entries of the book\<close>

lemma run_stops_length: "run_stops d M = (t, acts, M') \<Longrightarrow> length acts \<le> length (mkt_stops M)"
proof (induction d M arbitrary: t acts M' rule: run_stops.induct)
  case (1 d M)
  show ?case
  proof (cases "find (triggered (mkt_last M)) (mkt_stops M)")
    case None
    then show ?thesis using 1(2) by (subst (asm) run_stops.simps) simp
  next
    case (Some st)
    obtain ts a M1 where rs: "run_stop d st M = (ts, a, M1)" by (metis prod_cases3)
    obtain ts' as M2 where rr: "run_stops d M1 = (ts', as, M2)" by (metis prod_cases3)
    have acts: "acts = a # as" using 1(2) Some rs rr by (subst (asm) run_stops.simps) simp
    have "length as \<le> length (mkt_stops M1)" using 1(1) [OF Some rs [symmetric] refl refl rr] .
    moreover have "st \<in> set (mkt_stops M)" using Some by (auto simp: find_Some_iff)
    moreover have "mkt_stops M1 = remove1 st (mkt_stops M)" by (rule run_stop_stops [OF rs])
    ultimately show ?thesis using acts length_pos_if_in_set [of st "mkt_stops M"] by (simp add: length_remove1 Suc_le_eq) (cases "mkt_stops M", auto)
  qed
qed

lemma enter_acts_length:
  "enter_limit d oid trader s l q peak rests slot M = (r', tr, acts, M') \<Longrightarrow> length acts \<le> length (mkt_stops M)"
  "enter_market d oid s q M = (r', tr, acts, M') \<Longrightarrow> length acts \<le> length (mkt_stops M)"
  by (auto simp: enter_limit_def enter_market_def Let_def split: prod.splits if_splits dest!: take_liquidity_stops run_stops_length)

lemma view_stops: "book_ok b \<Longrightarrow> length (mkt_stops (view b)) = ob_dormant_stop_count b"
  by (simp add: view_def market_of_def book_ok_def book_rep_def stop_rep_def)

lemma entered_entry:
  assumes "entered run b T q rests slot spec" "book_ok b"
    and "\<And>r' tr acts M'. spec = (r', tr, acts, M') \<Longrightarrow> length acts \<le> length (mkt_stops (view b))"
  shows "run = crash Trade_Buffer_Overflow \<or>
    (\<exists>res b' T'. run = ret (res, b', T') \<and> book_ok b' \<and> same_env b b' \<and> length T' = length T \<and>
       sr_trade_count res \<le> length T \<and> length (stop_activations b') \<le> ob_dormant_stop_count b)"
proof -
  obtain r' tr acts M' where s: "spec = (r', tr, acts, M')" by (metis prod_cases4)
  have len: "length (stop_activations b') = length (activations b')" for b' by (simp add: activations_def)
  show ?thesis
  proof (cases "length tr \<le> length T")
    case True
    then obtain h b' T' where "run = ret (submitted q r' (length tr) h, b', T')" "book_ok b'" "same_env b b'"
      "length T' = length T" "activations b' = acts"
      using assms(1) by (auto simp: entered_def s)
    then show ?thesis using True assms(3) [OF s] view_stops [OF assms(2)] len by (auto simp: submitted_def)
  qed (use assms(1) in \<open>simp add: entered_def s\<close>)
qed

lemma rejected_entry:
  assumes "run = ret (rejected r q, reset_stop_activations b, T)" "book_ok b"
  shows "\<exists>res b' T'. run = ret (res, b', T') \<and> book_ok b' \<and> same_env b b' \<and> length T' = length T \<and>
       sr_trade_count res \<le> length T \<and> length (stop_activations b') \<le> ob_dormant_stop_count b \<and>
       sr_trade_count res = 0 \<and> stop_activations b' = []"
proof -
  have "book_ok (reset_stop_activations b)" using book_okI [OF reset_rep [OF book_ok_rep [OF assms(2)]]] assms(2) by (simp add: book_ok_def)
  then show ?thesis using assms(1) by (auto simp: rejected_def stop_activations_def)
qed

interpretation limit_entry: book_entry "\<lambda>b T. submit_limit_tif b oid rs p q tif T" "\<lambda>b. preflight_limit b rs p q tif = RR_None"
  for oid rs p q tif
proof
  fix b and T :: "trade list" assume tok: "trading_ok b" and len: "length T = slots b"
  have ok: "book_ok b" "free_trading b" "ob_trading_state b = Continuous" using tok by (simp_all add: trading_ok_def)
  show "submit_limit_tif b oid rs p q tif T = crash Trade_Buffer_Overflow \<or>
    (\<exists>res b' T'. submit_limit_tif b oid rs p q tif T = ret (res, b', T') \<and> book_ok b' \<and> same_env b b' \<and> length T' = length T \<and>
       sr_trade_count res \<le> length T \<and> length (stop_activations b') \<le> ob_dormant_stop_count b \<and>
       (preflight_limit b rs p q tif = RR_None \<or> sr_trade_count res = 0 \<and> stop_activations b' = []))"
  proof (cases "preflight_limit b rs p q tif = RR_None")
    case True
    then obtain s where rs: "rs = Valid_Side s" by (auto simp: preflight_limit_def Let_def split: if_splits raw_side.splits)
    obtain slot l where "entered (submit_limit_tif b oid rs p q tif T) b T q (tif = GTC) slot
      (enter_limit (ob_domain b) oid 0 s l q q (tif = GTC) slot (view b))"
      using limit_entered [OF ok, of s p q tif T oid 0] True len unfolding rs submit_limit_tif_def by auto
    from entered_entry [OF this ok(1) enter_acts_length(1)] True show ?thesis by auto
  next
    case False
    then have "\<exists>r. submit_limit_tif b oid rs p q tif T = ret (rejected r q, reset_stop_activations b, T)"
      using len by (auto simp: submit_limit_tif_def submit_limit_def Let_def)
    then show ?thesis using rejected_entry [OF _ ok(1)] False by blast
  qed
qed

interpretation market_entry: book_entry "\<lambda>b T. submit_market b oid rs q T" "\<lambda>b. preflight_market b rs q = RR_None"
  for oid rs q
proof
  fix b and T :: "trade list" assume tok: "trading_ok b" and len: "length T = slots b"
  have ok: "book_ok b" "free_trading b" using tok by (simp_all add: trading_ok_def)
  show "submit_market b oid rs q T = crash Trade_Buffer_Overflow \<or>
    (\<exists>res b' T'. submit_market b oid rs q T = ret (res, b', T') \<and> book_ok b' \<and> same_env b b' \<and> length T' = length T \<and>
       sr_trade_count res \<le> length T \<and> length (stop_activations b') \<le> ob_dormant_stop_count b \<and>
       (preflight_market b rs q = RR_None \<or> sr_trade_count res = 0 \<and> stop_activations b' = []))"
  proof (cases "preflight_market b rs q = RR_None")
    case True
    then obtain s where rs: "rs = Valid_Side s" by (cases rs) (auto simp: preflight_market_def preflight_def is_valid_side_def split: if_splits)
    have "entered (submit_market b oid rs q T) b T q False 0 (enter_market (ob_domain b) oid s q (view b))"
      using market_entered [OF ok, of s q T oid] True len unfolding rs by simp
    from entered_entry [OF this ok(1) enter_acts_length(2)] True show ?thesis by auto
  next
    case False
    then have "\<exists>r. submit_market b oid rs q T = ret (rejected r q, reset_stop_activations b, T)"
      by (auto simp: submit_market_def Let_def)
    then show ?thesis using rejected_entry [OF _ ok(1)] False by blast
  qed
qed

interpretation iceberg_entry: book_entry "\<lambda>b T. submit_iceberg_gtc b oid rs p q peak T" "\<lambda>b. preflight_limit b rs p q GTC = RR_None"
  for oid rs p q peak
proof
  fix b and T :: "trade list" assume tok: "trading_ok b" and len: "length T = slots b"
  have ok: "book_ok b" "free_trading b" "ob_trading_state b \<noteq> Opening_Auction" using tok by (simp_all add: trading_ok_def)
  show "submit_iceberg_gtc b oid rs p q peak T = crash Trade_Buffer_Overflow \<or>
    (\<exists>res b' T'. submit_iceberg_gtc b oid rs p q peak T = ret (res, b', T') \<and> book_ok b' \<and> same_env b b' \<and> length T' = length T \<and>
       sr_trade_count res \<le> length T \<and> length (stop_activations b') \<le> ob_dormant_stop_count b \<and>
       (preflight_limit b rs p q GTC = RR_None \<or> sr_trade_count res = 0 \<and> stop_activations b' = []))"
  proof (cases "preflight_limit b rs p q GTC = RR_None \<and> peak \<noteq> 0 \<and> peak \<le> q")
    case True
    then obtain s where rs: "rs = Valid_Side s" by (auto simp: preflight_limit_def Let_def split: if_splits raw_side.splits)
    obtain slot l where "entered (submit_iceberg_gtc b oid rs p q peak T) b T q True slot
      (enter_limit (ob_domain b) oid 0 s l q peak True slot (view b))"
      using iceberg_entered [OF ok, of s p q T peak oid 0] True len unfolding rs submit_iceberg_gtc_def by auto
    from entered_entry [OF this ok(1) enter_acts_length(1)] True show ?thesis by auto
  next
    case False
    then have "\<exists>r. submit_iceberg_gtc b oid rs p q peak T = ret (rejected r q, reset_stop_activations b, T)"
      using ok(3) by (auto simp: submit_iceberg_gtc_def submit_iceberg_def Let_def)
    then show ?thesis using rejected_entry [OF _ ok(1)] by blast
  qed
qed

section \<open>Carrying out a command\<close>

lemma single_event:
  assumes "1 \<le> length evs" "engine_ok e'" "same_clock e e'" "ev_event_index v = 0" "1 \<le> need"
  shows "carried_out (run_bind (write_from (\<lambda>_. v) 0 (Suc 0) evs) (\<lambda>evs'. ret (Suc 0, e', evs'))) e need evs"
  using assms by (cases evs) (auto simp: carried_out_def)

lemma engine_ok_book:
  assumes "engine_ok e" "book_ok b'" "same_env (se_book e) b'"
  shows "engine_ok (e\<lparr>se_book := b'\<rparr>)"
  using assms trading_ok_env [OF _ assms(3,2)] by (simp add: engine_ok_def) (simp add: same_env_def)

lemma cancel_env: "book_ok b \<Longrightarrow> cancel b h = (r, b') \<Longrightarrow> book_ok b' \<and> same_env b b'"
proof -
  assume ok: "book_ok b" and run: "cancel b h = (r, b')"
  show ?thesis
  proof (cases "resolve (ob_arena b) h")
    case None
    then show ?thesis using run ok by (simp add: cancel_def)
  next
    case (Some x)
    have "same_env b b'" using run Some unlink_same(1) unfolding cancel_def Let_def
      by (auto simp: unlink_stop_def detach_stop_def same_env_def Let_def split: if_splits)
    then show ?thesis using cancel_ok [OF ok Some] run by auto
  qed
qed

lemma amend_env: "book_ok b \<Longrightarrow> amend_quantity b h q = (r, b') \<Longrightarrow> book_ok b' \<and> same_env b b'"
proof -
  assume ok: "book_ok b" and run: "amend_quantity b h q = (r, b')"
  have env: "same_env b b'" using run unfolding amend_quantity_def Let_def
    by (auto simp: same_env_def split: if_splits option.splits)
  show ?thesis
  proof (cases "resolve (ob_arena b) h")
    case None
    then show ?thesis using run ok by (simp add: amend_quantity_def)
  next
    case (Some x)
    show ?thesis
    proof (cases "q \<noteq> 0 \<and> q < ord_remaining x")
      case True
      then obtain b'' where "amend_quantity b h q = (\<lparr>am_reason = AR_None, am_id = ord_id x, am_previous = ord_remaining x,
          am_new = q, am_handle = h\<rparr>, b'')" "book_ok b''"
        using amend_ok [OF ok Some, of q] by blast
      then show ?thesis using run env by simp
    next
      case False
      then have "b' = b" using run Some unfolding amend_quantity_def Let_def by (auto split: if_splits)
      then show ?thesis using ok env by simp
    qed
  qed
qed

text \<open>The commands whose book operation is covered by the refinement theorems of the book.\<close>

definition refined_tag :: "command_type \<Rightarrow> bool" where
  "refined_tag t \<longleftrightarrow> t \<in> {CT_Submit_Limit, CT_Submit_Market, CT_Submit_Iceberg, CT_Cancel, CT_Amend_Quantity,
     CT_Uncross_Opening_Auction}"

lemma dispatch_carried_out:
  assumes ok: "engine_ok e" and tag: "refined_tag (cp_tag (sc_payload c))"
    and room: "required_event_capacity e (sc_payload c) \<le> length evs"
  shows "dispatch e c evs = crash Trade_Buffer_Overflow \<or>
    carried_out (dispatch e c evs) e (required_event_capacity e (sc_payload c)) evs"
proof -
  let ?p = "sc_payload c" and ?b = "se_book e" and ?need = "required_event_capacity e (sc_payload c)"
  have bok: "book_ok ?b" and cont: "ob_trading_state ?b = Continuous" using ok by (simp_all add: engine_ok_def trading_ok_def)
  from tag consider (limit) "cp_tag ?p = CT_Submit_Limit" | (market) "cp_tag ?p = CT_Submit_Market" | (iceberg) "cp_tag ?p = CT_Submit_Iceberg"
    | (cancel) "cp_tag ?p = CT_Cancel" | (amend) "cp_tag ?p = CT_Amend_Quantity" | (uncross) "cp_tag ?p = CT_Uncross_Opening_Auction"
    by (auto simp: refined_tag_def)
  then show ?thesis
  proof cases
    case limit
    then have "dispatch e c evs = finish_submit e c (cp_order_id ?p)
        (submit_limit_tif ?b (cp_order_id ?p) (cp_side ?p) (cp_price_ticks ?p) (cp_quantity ?p) (cp_time_in_force ?p) (se_trade_scratch e)) evs"
      by (simp add: dispatch_def Let_def)
    then show ?thesis
      by (simp only:) (rule limit_entry.finish_submit_carried_out [OF ok room], simp add: limit required_event_capacity_def)
  next
    case market
    then have "dispatch e c evs = finish_submit e c (cp_order_id ?p)
        (submit_market ?b (cp_order_id ?p) (cp_side ?p) (cp_quantity ?p) (se_trade_scratch e)) evs"
      by (simp add: dispatch_def Let_def)
    then show ?thesis
      by (simp only:) (rule market_entry.finish_submit_carried_out [OF ok room], simp add: market required_event_capacity_def)
  next
    case iceberg
    then have "dispatch e c evs = finish_submit e c (cp_order_id ?p)
        (submit_iceberg_gtc ?b (cp_order_id ?p) (cp_side ?p) (cp_price_ticks ?p) (cp_quantity ?p) (iceberg_display_quantity ?p) (se_trade_scratch e)) evs"
      by (simp add: dispatch_def Let_def)
    then show ?thesis
      by (simp only:) (rule iceberg_entry.finish_submit_carried_out [OF ok room], simp add: iceberg required_event_capacity_def)
  next
    case cancel
    obtain r b' where run: "Order_Book.cancel ?b (payload_handle ?p) = (r, b')" by fastforce
    have "engine_ok (e\<lparr>se_book := b'\<rparr>)" using engine_ok_book [OF ok] cancel_env [OF bok run] by simp
    then show ?thesis using cancel room run
      by (simp add: dispatch_def apply_cancel_def Let_def required_event_capacity_def single_event same_clock_def default_event_def del: write_from.simps)
  next
    case amend
    obtain r b' where run: "amend_quantity ?b (payload_handle ?p) (cp_quantity ?p) = (r, b')" by fastforce
    have "engine_ok (e\<lparr>se_book := b'\<rparr>)" using engine_ok_book [OF ok] amend_env [OF bok run] by simp
    then show ?thesis using amend room run
      by (simp add: dispatch_def apply_amend_def Let_def required_event_capacity_def single_event same_clock_def default_event_def del: write_from.simps)
  next
    case uncross
    have "dispatch e c evs = run_bind (write_from (\<lambda>_. default_event\<lparr>ev_command_sequence := sc_sequence c, ev_price := 0, ev_quantity := 0,
        ev_type := EV_Auction_Result, ev_reason := auction_code AE_Not_Opening_Auction\<rparr>) 0 1 evs) (\<lambda>evs'. ret (1, e, evs'))"
      using uncross cont by (simp add: dispatch_def apply_uncross_def uncross_opening_auction_def Let_def run_bind_assoc)
    then show ?thesis using uncross room ok
      by (simp add: required_event_capacity_def single_event same_clock_def default_event_def del: write_from.simps)
  qed
qed

lemma engine_ok_advance [simp]: "engine_ok (advance e t) = engine_ok e"
  by (simp add: engine_ok_def advance_def Let_def)

lemma dispatch_same_clock: "dispatch e c evs = ret (n, e1, evs1) \<Longrightarrow> same_clock e e1"
  by (auto simp: dispatch_def finish_submit_def apply_cancel_def apply_amend_def apply_uncross_def Let_def run_bind_eq_ret_iff
      same_clock_def split: command_type.splits prod.splits)

section \<open>Properties\<close>

text \<open>
  C4. The engine carries out every command it does not refuse: in continuous FIFO trading without
  self-trade prevention, a limit, market or iceberg submission, a cancel, an amendment or an auction
  command that passes the checks returns, reports \<^verbatim>\<open>applied\<close> with at least one event and at most the
  advertised capacity, writes the events with their positions to the front of the span and nothing
  behind them, keeps the invariant and advances the sequence.  The one exception is the trade buffer
  overrun by a stop cascade; the event span is never overrun.
\<close>

theorem engine_applies:
  assumes "engine_ok e" "refined_tag (cp_tag (sc_payload c))" "apply_refused e c (length evs) = AS_Applied"
  shows "apply_command e c evs = crash Trade_Buffer_Overflow \<or>
    (\<exists>n e1 evs'. apply_command e c evs = ret (\<lparr>ap_status = AS_Applied, ap_event_count = n\<rparr>, advance e1 (sc_logical_time c), evs') \<and>
       engine_ok (advance e1 (sc_logical_time c)) \<and> same_clock e e1 \<and> 1 \<le> n \<and> n \<le> required_event_capacity e (sc_payload c) \<and>
       length evs' = length evs \<and> drop n evs' = drop n evs \<and> (\<forall>k < n. ev_event_index (evs' ! k) = k))"
proof -
  have "required_event_capacity e (sc_payload c) \<le> length evs"
    using assms(3) by (auto simp: apply_refused_def not_less split: if_splits)
  from dispatch_carried_out [OF assms(1,2) this] show ?thesis
  proof
    assume "carried_out (dispatch e c evs) e (required_event_capacity e (sc_payload c)) evs"
    then obtain n e1 evs' where "dispatch e c evs = ret (n, e1, evs')" "engine_ok e1" "same_clock e e1" "1 \<le> n"
      "n \<le> required_event_capacity e (sc_payload c)" "length evs' = length evs" "drop n evs' = drop n evs"
      "\<forall>k < n. ev_event_index (evs' ! k) = k" by (auto simp: carried_out_def)
    then show ?thesis using assms(3) by (intro disjI2 exI [of _ n] exI [of _ e1] exI [of _ evs']) (simp add: apply_command_def Let_def)
  qed (use assms(3) in \<open>simp add: apply_command_def Let_def\<close>)
qed

definition demo_engine :: engine where
  "demo_engine = \<lparr>se_book = demo_ask, se_trade_scratch = buffer 2, se_trade_capacity = 2, se_next_sequence = 7,
     se_last_logical_time = 40, se_sequence_exhausted = False\<rparr>"

definition demo_command :: sequenced_command where
  "demo_command = \<lparr>sc_payload = payload_cancel \<lparr>h_index = 0, h_generation = 1\<rparr>, sc_sequence = 7, sc_logical_time = 41\<rparr>"

lemma demo_engine_ok: "engine_ok demo_engine"
proof -
  have "slots demo_ask = 2" "length (buffer 2) = 2" by code_simp+
  then show ?thesis using demo_ask_ok by (simp add: engine_ok_def demo_engine_def trading_ok_def)
qed

theorem engine_applies_witness:
  "apply_refused demo_engine demo_command (length [default_event]) = AS_Applied \<and>
   (apply_command demo_engine demo_command [default_event] = crash Trade_Buffer_Overflow \<or>
    (\<exists>n e1 evs'. apply_command demo_engine demo_command [default_event] =
        ret (\<lparr>ap_status = AS_Applied, ap_event_count = n\<rparr>, advance e1 41, evs') \<and> engine_ok (advance e1 41) \<and> 1 \<le> n))"
proof -
  have t: "cp_tag (sc_payload demo_command) = CT_Cancel" "sc_logical_time demo_command = 41" by code_simp+
  have "apply_refused demo_engine demo_command (length [default_event]) = AS_Applied" by code_simp
  moreover have "refined_tag (cp_tag (sc_payload demo_command))" by (simp add: t refined_tag_def)
  ultimately show ?thesis using engine_applies [OF demo_engine_ok, of demo_command "[default_event]"] unfolding t by blast
qed

text \<open>A sequencer and an engine at the same point of the command stream.\<close>

definition lockstep :: "sequencer \<Rightarrow> engine \<Rightarrow> bool" where
  "lockstep sq e \<longleftrightarrow> se_next_sequence e = sq_next_sequence sq \<and> se_last_logical_time e = sq_last_logical_time sq \<and>
     se_sequence_exhausted e = sq_exhausted sq"

lemma advance_lockstep:
  assumes "lockstep sq e" "same_clock e e1" "stamp sq p t = (Inr c, sq')"
  shows "lockstep sq' (advance e1 (sc_logical_time c))"
  using assms by (auto simp: lockstep_def same_clock_def stamp_def advance_def Let_def split: if_splits)

lemma applied_clock:
  assumes "apply_command e c evs = ret (r, e', evs')" "ap_status r = AS_Applied"
  obtains e1 where "e' = advance e1 (sc_logical_time c)" "same_clock e e1" "sc_sequence c = se_next_sequence e"
  using assms dispatch_same_clock [of e c evs]
  by (auto simp: apply_command_def Let_def run_bind_eq_ret_iff apply_refused_def split: if_splits)

text \<open>
  C5. Every stamped command is executed exactly once: an engine in step with the sequencer accepts the
  command the sequencer stamps next, given room for its events; when the command returns both are in
  step again, and the same command handed in a second time is refused without any effect.
\<close>

theorem stamped_command_applied_once:
  assumes "lockstep sq e" "stamp sq p t = (Inr c, sq')" "required_event_capacity e p \<le> length evs"
  shows "apply_refused e c (length evs) = AS_Applied \<and>
    (\<forall>r e' evs'. apply_command e c evs = ret (r, e', evs') \<longrightarrow> ap_status r = AS_Applied \<and> lockstep sq' e' \<and>
       (\<forall>evs2. \<exists>s. s \<noteq> AS_Applied \<and> apply_command e' c evs2 = ret (\<lparr>ap_status = s, ap_event_count = 0\<rparr>, e', evs2)))"
proof (intro conjI allI impI)
  have c: "validate_command_payload p = CV_None" "sq_last_logical_time sq \<le> t" "\<not> sq_exhausted sq" "sc_payload c = p"
    "sc_sequence c = sq_next_sequence sq" "sc_logical_time c = t"
    using assms(2) by (auto simp: stamp_def Let_def not_less split: if_splits)
  show acc: "apply_refused e c (length evs) = AS_Applied"
    using c assms(1,3) by (simp add: apply_refused_def lockstep_def not_less)
  fix r e' evs' assume run: "apply_command e c evs = ret (r, e', evs')"
  show st: "ap_status r = AS_Applied" using run acc by (auto simp: apply_command_def Let_def run_bind_eq_ret_iff)
  obtain e1 where e1: "e' = advance e1 (sc_logical_time c)" "same_clock e e1" "sc_sequence c = se_next_sequence e"
    by (rule applied_clock [OF run st])
  show "lockstep sq' e'" unfolding e1(1) by (rule advance_lockstep [OF assms(1) e1(2) assms(2)])
  have "se_sequence_exhausted e' \<or> sc_sequence c \<noteq> se_next_sequence e'"
    using e1 by (auto simp: advance_def Let_def same_clock_def)
  then have "apply_refused e' c n \<noteq> AS_Applied" for n by (auto simp: apply_refused_def)
  then show "\<exists>s. s \<noteq> AS_Applied \<and> apply_command e' c evs2 = ret (\<lparr>ap_status = s, ap_event_count = 0\<rparr>, e', evs2)" for evs2
    by (simp add: apply_command_def Let_def)
qed

theorem stamped_command_applied_once_witness:
  "stamp (make_sequencer 7 40) (sc_payload demo_command) 41 = (Inr demo_command, make_sequencer 8 41) \<and>
   apply_refused demo_engine demo_command (length [default_event]) = AS_Applied"
proof -
  have s: "stamp (make_sequencer 7 40) (sc_payload demo_command) 41 = (Inr demo_command, make_sequencer 8 41)" by code_simp
  have l: "lockstep (make_sequencer 7 40) demo_engine" by (simp add: lockstep_def make_sequencer_def demo_engine_def)
  have "required_event_capacity demo_engine (sc_payload demo_command) \<le> length [default_event]" by code_simp
  from stamped_command_applied_once [OF l s this] s show ?thesis by blast
qed

end
