(* ===== verification/Publisher_Properties.thy ===== *)
theory Publisher_Properties
  imports Frame_Properties
begin

text \<open>Engine event records, the replay fingerprint over them and the publishers.\<close>

section \<open>Engine event records\<close>

definition event_bytes :: "engine_event \<Rightarrow> u8 list \<Rightarrow> bool" where
  "event_bytes e bs \<longleftrightarrow> length bs = 64 \<and> (\<forall>i < 8. bs ! (0 + i) = byte_at (ev_command_sequence e) i) \<and>
     (\<forall>i < 8. bs ! (8 + i) = byte_at (ev_order_id e) i) \<and> (\<forall>i < 8. bs ! (16 + i) = byte_at (ev_secondary_order_id e) i) \<and>
     (\<forall>i < 8. bs ! (24 + i) = byte_at (price_bits (ev_price e)) i) \<and> (\<forall>i < 8. bs ! (32 + i) = byte_at (ev_quantity e) i) \<and>
     (\<forall>i < 8. bs ! (40 + i) = byte_at (ev_secondary_quantity e) i) \<and>
     (\<forall>i < 4. bs ! (48 + i) = byte_at (word_of_nat (h_index (ev_handle e)) :: u32) i) \<and>
     (\<forall>i < 4. bs ! (52 + i) = byte_at (h_generation (ev_handle e)) i) \<and>
     (\<forall>i < 4. bs ! (56 + i) = byte_at (word_of_nat (ev_event_index e) :: u32) i) \<and>
     bs ! 60 = event_type_byte (ev_type e) \<and> bs ! 61 = ev_reason e \<and> bs ! 62 = 0 \<and> bs ! 63 = 0"

text \<open>The values the event's C++ fields can hold, with the reserved field clear and a named type.\<close>

definition event_canonical :: "engine_event \<Rightarrow> bool" where
  "event_canonical e \<longleftrightarrow> valid_event_type (ev_type e) \<and> ev_reserved e = 0 \<and> int64_range (ev_price e) \<and>
     h_index (ev_handle e) < 2 ^ 32 \<and> ev_event_index e < 2 ^ 32"

lemma int64_range_bits: "int64_range (bits_price w)"
  using sint_ge [of w] sint_lt [of w] by (simp add: int64_range_def bits_price_def kInt64Min_def kInt64Max_def)

lemma event_type_of_byte_inv:
  "event_type_byte (event_type_of_byte b) = b" "valid_event_type t \<Longrightarrow> event_type_of_byte (event_type_byte t) = t"
  by (auto simp: event_type_of_byte_def valid_event_type_def)

lemma encode_event_bytes:
  assumes "length out = 64" "valid_event_type (ev_type e)" "ev_reserved e = 0"
  obtains bs where "encode_engine_event e out = (EC_None, bs)" "event_bytes e bs"
proof -
  define o1 where "o1 = replicate 64 (0::u8)"
  define o9 where "o9 = write_u32 (write_u32 (write_u32 (write_u64 (write_u64 (write_u64 (write_u64 (write_u64 (write_u64 o1
    0 (ev_command_sequence e)) 8 (ev_order_id e)) 16 (ev_secondary_order_id e)) 24 (price_bits (ev_price e))) 32 (ev_quantity e))
    40 (ev_secondary_quantity e)) 48 (word_of_nat (h_index (ev_handle e)))) 52 (h_generation (ev_handle e)))
    56 (word_of_nat (ev_event_index e))"
  let ?bs = "o9[60 := event_type_byte (ev_type e), 61 := ev_reason e]"
  have l1: "length o1 = 64" and n1: "k < 64 \<Longrightarrow> o1 ! k = 0" for k by (simp_all add: o1_def)
  have l9: "length o9 = 64" by (simp add: o9_def l1)
  have "encode_engine_event e out = (EC_None, ?bs)"
    using assms by (simp add: encode_engine_event_def kEncodedEngineEventSize_def o9_def o1_def Let_def)
  moreover have "event_bytes e ?bs"
    unfolding event_bytes_def by (simp add: l9 nth_list_update) (simp add: o9_def write_words_nth l1 n1)
  ultimately show thesis by (rule that)
qed

lemma decode_event_bytes:
  assumes "decode_engine_event inp = Inr e"
  shows "event_bytes e inp" "event_canonical e"
proof -
  note d = assms [unfolded decode_engine_event_def kEncodedEngineEventSize_def Let_def]
  have h: "length inp = 64" "inp ! 62 = 0" "inp ! 63 = 0" "valid_event_type (event_type_of_byte (inp ! 60))"
    and e: "e = \<lparr>ev_command_sequence = read_u64 inp 0, ev_order_id = read_u64 inp 8,
       ev_secondary_order_id = read_u64 inp 16, ev_price = bits_price (read_u64 inp 24),
       ev_quantity = read_u64 inp 32, ev_secondary_quantity = read_u64 inp 40,
       ev_handle = \<lparr>h_index = unat (read_u32 inp 48), h_generation = read_u32 inp 52\<rparr>,
       ev_event_index = unat (read_u32 inp 56), ev_type = event_type_of_byte (inp ! 60), ev_reason = inp ! 61, ev_reserved = 0\<rparr>"
    using d by (simp_all split: if_splits)
  show "event_bytes e inp"
    unfolding event_bytes_def e by (simp add: h event_type_of_byte_inv bits_price_inv byte_at_read)
  show "event_canonical e" unfolding event_canonical_def e
    using h(4) by (simp add: int64_range_bits)
qed

lemma event_bytes_unique:
  assumes "event_bytes e bs" "event_bytes e cs"
  shows "bs = cs"
proof (rule segments_eq [where segs = "[(0, 8), (8, 8), (16, 8), (24, 8), (32, 8), (40, 8), (48, 4), (52, 4), (56, 4), (60, 1), (61, 1), (62, 1), (63, 1)]" and n = 64])
  fix off len i :: nat
  assume "(off, len) \<in> set [(0, 8), (8, 8), (16, 8), (24, 8), (32, 8), (40, 8), (48, 4), (52, 4), (56, 4), (60, 1), (61, 1), (62, 1), (63, 1)]" "i < len"
  then show "bs ! (off + i) = cs ! (off + i)" using assms unfolding event_bytes_def by (elim conjE) auto
qed (use assms in \<open>simp_all add: event_bytes_def\<close>)

lemma event_bytes_decode:
  assumes "event_bytes e bs" and c: "event_canonical e"
  shows "decode_engine_event bs = Inr e"
proof -
  note b = assms(1) [unfolded event_bytes_def]
  have h: "length bs = 64" "bs ! 60 = event_type_byte (ev_type e)" "bs ! 61 = ev_reason e" "bs ! 62 = 0" "bs ! 63 = 0" using b by blast+
  have f: "read_u64 bs 0 = ev_command_sequence e" "read_u64 bs 8 = ev_order_id e" "read_u64 bs 16 = ev_secondary_order_id e"
    "read_u64 bs 24 = price_bits (ev_price e)" "read_u64 bs 32 = ev_quantity e" "read_u64 bs 40 = ev_secondary_quantity e"
    by (rule read_words(2); use b in blast)+
  have g: "read_u32 bs 48 = word_of_nat (h_index (ev_handle e))" "read_u32 bs 52 = h_generation (ev_handle e)"
    "read_u32 bs 56 = word_of_nat (ev_event_index e)" by (rule read_words(1); use b in blast)+
  note v = c [unfolded event_canonical_def]
  have "\<lparr>ev_command_sequence = read_u64 bs 0, ev_order_id = read_u64 bs 8,
       ev_secondary_order_id = read_u64 bs 16, ev_price = bits_price (read_u64 bs 24),
       ev_quantity = read_u64 bs 32, ev_secondary_quantity = read_u64 bs 40,
       ev_handle = \<lparr>h_index = unat (read_u32 bs 48), h_generation = read_u32 bs 52\<rparr>,
       ev_event_index = unat (read_u32 bs 56), ev_type = event_type_of_byte (bs ! 60), ev_reason = bs ! 61, ev_reserved = 0\<rparr> = e"
    unfolding f g h using v by (simp add: event_type_of_byte_inv bits_price_inv(2) unat_of_nat_u32)
  then show ?thesis
    using v h event_type_of_byte_inv(2) [of "ev_type e"] by (simp add: decode_engine_event_def kEncodedEngineEventSize_def)
qed

text \<open>
  A canonical engine event survives its 64-byte record, an accepted record is the encoding of the event it decodes
  to, and that event is canonical.
\<close>

theorem engine_event_roundtrip:
  "(length out = 64 \<and> event_canonical e \<longrightarrow> decode_engine_event (snd (encode_engine_event e out)) = Inr e) \<and>
   (length out = 64 \<and> decode_engine_event inp = Inr t \<longrightarrow> encode_engine_event t out = (EC_None, inp) \<and> event_canonical t)"
proof (intro conjI impI; elim conjE)
  assume a: "length out = 64" "event_canonical e"
  show "decode_engine_event (snd (encode_engine_event e out)) = Inr e"
    by (rule encode_event_bytes [OF a(1), of e]) (use event_bytes_decode a(2) in \<open>auto simp: event_canonical_def\<close>)
next
  assume a: "length out = 64" "decode_engine_event inp = Inr t"
  note t = decode_event_bytes [OF a(2)]
  show "encode_engine_event t out = (EC_None, inp)"
    by (rule encode_event_bytes [OF a(1), of t]) (use event_bytes_unique t in \<open>auto simp: event_canonical_def\<close>)
  show "event_canonical t" by (rule t(2))
qed

definition demo_event :: engine_event where
  "demo_event = \<lparr>ev_command_sequence = 3, ev_order_id = 11, ev_secondary_order_id = 5, ev_price = 104, ev_quantity = 2,
     ev_secondary_quantity = 0, ev_handle = \<lparr>h_index = 1, h_generation = 7\<rparr>, ev_event_index = 0, ev_type = EV_Trade,
     ev_reason = 0, ev_reserved = 0\<rparr>"

lemma demo_event_canonical: "event_canonical demo_event"
  by (simp add: event_canonical_def demo_event_def valid_event_type_def int64_range_def kInt64Min_def kInt64Max_def)

theorem engine_event_roundtrip_witness:
  "decode_engine_event (snd (encode_engine_event demo_event (replicate 64 9))) = Inr demo_event"
  using engine_event_roundtrip [of "replicate 64 9" demo_event] demo_event_canonical by simp

section \<open>The replay fingerprint\<close>

text \<open>One step of the register loses nothing: the bit shifted out selects the polynomial, whose top bit records it.\<close>

lemma crc_bit_cases: "crc_bit c = drop_bit 1 c XOR (if bit c 0 then 0x82f63b78 else 0)"
proof -
  have "c AND 1 = of_bool (bit c 0)" by (simp add: and_one_eq mod_2_eq_odd bit_0)
  then show ?thesis unfolding crc_bit_def Let_def by (cases "bit c 0") simp_all
qed

lemma crc_bit_top: "bit (crc_bit c) 31 \<longleftrightarrow> bit c 0"
proof -
  have "\<not> bit c 32" using bit_imp_le_length [of c 32] by auto
  then show ?thesis by (simp add: crc_bit_cases bit_xor_iff bit_drop_bit_eq)
qed

lemma crc_bit_inj: "inj crc_bit"
proof (rule injI)
  fix c d assume eq: "crc_bit c = crc_bit d"
  then have b0: "bit c 0 \<longleftrightarrow> bit d 0" using crc_bit_top by metis
  have "drop_bit 1 c = crc_bit c XOR (if bit c 0 then 0x82f63b78 else 0)" for c :: u32
    by (simp add: crc_bit_cases xor.assoc)
  from this [of c] this [of d] have "drop_bit 1 c = drop_bit 1 d" unfolding eq b0 by (rule trans [OF _ sym])
  moreover have "bit w (Suc n) \<longleftrightarrow> bit (drop_bit 1 w) n" for w :: u32 and n by (simp add: bit_drop_bit_eq)
  ultimately have "bit c (Suc n) \<longleftrightarrow> bit d (Suc n)" for n by (simp only:)
  then have "bit c n \<longleftrightarrow> bit d n" for n using b0 by (cases n) simp_all
  then show "c = d" by (simp add: bit_eq_iff)
qed

lemma xor_cancel: "(x :: u32) XOR m = y XOR m \<Longrightarrow> x = y"
  by (drule arg_cong [of _ _ "\<lambda>w. w XOR m"]) (simp add: xor.assoc)

lemma crc_byte_inj:
  "crc_byte c b = crc_byte d b \<Longrightarrow> c = d" "crc_byte c b = crc_byte c b' \<Longrightarrow> b = b'"
proof -
  have i: "inj (crc_bit ^^ 8)" by (rule inj_fn [OF crc_bit_inj])
  show "crc_byte c b = crc_byte d b \<Longrightarrow> c = d"
    unfolding crc_byte_def by (drule injD [OF i]) (rule xor_cancel)
  assume "crc_byte c b = crc_byte c b'"
  then have "c XOR ucast b = c XOR ucast b'" unfolding crc_byte_def by (rule injD [OF i])
  then have "ucast b XOR c = ucast b' XOR c" by (simp only: xor.commute [of _ c])
  then have "(ucast b :: u32) = ucast b'" by (rule xor_cancel)
  then have u: "bit (ucast b :: u32) n = bit (ucast b' :: u32) n" for n by (rule arg_cong)
  show "b = b'"
  proof (rule bit_word_eqI)
    fix n assume "n < LENGTH(8)"
    then show "bit b n = bit b' n" using u [of n] by (simp add: bit_ucast_iff)
  qed
qed

lemma crc_fold_inj: "foldl crc_byte c bs = foldl crc_byte d bs \<Longrightarrow> c = d"
  by (induction bs arbitrary: c d) (auto dest: crc_byte_inj(1))

text \<open>The records of a sequence of events.\<close>

definition event_record :: "engine_event \<Rightarrow> u8 list" where
  "event_record e = snd (encode_engine_event e (replicate kEncodedEngineEventSize 0))"

definition accepted_event :: "engine_event \<Rightarrow> bool" where
  "accepted_event e \<longleftrightarrow> valid_event_type (ev_type e) \<and> ev_reserved e = 0"

lemma event_record:
  assumes "accepted_event e"
  shows "encode_engine_event e (replicate kEncodedEngineEventSize 0) = (EC_None, event_record e)" "event_bytes e (event_record e)"
    "length (event_record e) = 64"
proof -
  obtain bs where "encode_engine_event e (replicate kEncodedEngineEventSize 0) = (EC_None, bs)" "event_bytes e bs"
    by (rule encode_event_bytes [of "replicate kEncodedEngineEventSize 0" e])
      (use assms in \<open>simp_all add: accepted_event_def kEncodedEngineEventSize_def\<close>)
  then show "encode_engine_event e (replicate kEncodedEngineEventSize 0) = (EC_None, event_record e)"
    and b: "event_bytes e (event_record e)" by (simp_all add: event_record_def)
  show "length (event_record e) = 64" using b by (simp add: event_bytes_def)
qed

lemma fingerprint_add_ok:
  assumes "accepted_event e"
  shows "fingerprint_add f e = (EC_None, \<lparr>fp_crc_state = foldl crc_byte (fp_crc_state f) (event_record e),
    fp_event_count = fp_event_count f + 1, fp_byte_count = fp_byte_count f + 64\<rparr>)"
  by (simp add: fingerprint_add_def event_record [OF assms])

definition fingerprint_all :: "replay_fingerprint \<Rightarrow> engine_event list \<Rightarrow> replay_fingerprint" where
  "fingerprint_all f es = foldl (\<lambda>f e. snd (fingerprint_add f e)) f es"

lemma fingerprint_all_ok:
  "list_all accepted_event es \<Longrightarrow> fingerprint_all f es = \<lparr>fp_crc_state = foldl crc_byte (fp_crc_state f) (concat (map event_record es)),
    fp_event_count = fp_event_count f + word_of_nat (length es), fp_byte_count = fp_byte_count f + 64 * word_of_nat (length es)\<rparr>"
  unfolding fingerprint_all_def
  by (induction es arbitrary: f) (simp_all add: fingerprint_add_ok algebra_simps)

lemma reason_only:
  assumes "event_bytes e bs" "event_bytes (e\<lparr>ev_reason := r\<rparr>) cs"
  shows "cs = bs[61 := r]" "bs ! 61 = ev_reason e" "61 < length bs"
proof -
  have "event_bytes (e\<lparr>ev_reason := r\<rparr>) (bs[61 := r])"
    using assms(1) unfolding event_bytes_def by (elim conjE) (simp add: nth_list_update)
  then show "cs = bs[61 := r]" using event_bytes_unique assms(2) by blast
qed (use assms(1) in \<open>auto simp: event_bytes_def\<close>)

text \<open>
  The fingerprint of accepted events is the CRC of their concatenated records together with their number and
  size; an event the codec refuses leaves it as it was; and changing the reason of one event in a run always
  changes the checksum.
\<close>

theorem fingerprint_detects_change:
  "(list_all accepted_event es \<longrightarrow> fingerprint_all empty_fingerprint es =
      \<lparr>fp_crc_state = foldl crc_byte 0xffffffff (concat (map event_record es)),
       fp_event_count = word_of_nat (length es), fp_byte_count = 64 * word_of_nat (length es)\<rparr>) \<and>
   (\<not> accepted_event e \<longrightarrow> snd (fingerprint_add f e) = f \<and> fst (fingerprint_add f e) \<noteq> EC_None) \<and>
   (list_all accepted_event (as @ e # cs) \<and> r \<noteq> ev_reason e \<longrightarrow>
      crc32c (fingerprint_all f (as @ e\<lparr>ev_reason := r\<rparr> # cs)) \<noteq> crc32c (fingerprint_all f (as @ e # cs)))"
proof (intro conjI impI; (elim conjE)?)
  show "fingerprint_all empty_fingerprint es = \<lparr>fp_crc_state = foldl crc_byte 0xffffffff (concat (map event_record es)),
       fp_event_count = word_of_nat (length es), fp_byte_count = 64 * word_of_nat (length es)\<rparr>" if "list_all accepted_event es"
    using fingerprint_all_ok [OF that] by (simp add: empty_fingerprint_def)
  assume "\<not> accepted_event e"
  then show "snd (fingerprint_add f e) = f" "fst (fingerprint_add f e) \<noteq> EC_None"
    by (auto simp: fingerprint_add_def accepted_event_def encode_engine_event_def kEncodedEngineEventSize_def)
next
  assume a: "list_all accepted_event (as @ e # cs)" "r \<noteq> ev_reason e"
  then have e: "accepted_event e" "accepted_event (e\<lparr>ev_reason := r\<rparr>)" by (auto simp: accepted_event_def)
  note rec = reason_only [OF event_record(2) [OF e(1)] event_record(2) [OF e(2)]]
  define pre post where "pre = take 61 (event_record e)" and "post = drop 62 (event_record e)"
  have sp: "event_record e = pre @ ev_reason e # post" "event_record (e\<lparr>ev_reason := r\<rparr>) = pre @ r # post"
    using id_take_nth_drop [OF rec(3)] rec upd_conv_take_nth_drop [OF rec(3)] by (simp_all add: pre_def post_def)
  have ok: "list_all accepted_event (as @ e\<lparr>ev_reason := r\<rparr> # cs)" using a(1) e(2) by simp
  show "crc32c (fingerprint_all f (as @ e\<lparr>ev_reason := r\<rparr> # cs)) \<noteq> crc32c (fingerprint_all f (as @ e # cs))"
  proof
    assume "crc32c (fingerprint_all f (as @ e\<lparr>ev_reason := r\<rparr> # cs)) = crc32c (fingerprint_all f (as @ e # cs))"
    then have "fp_crc_state (fingerprint_all f (as @ e\<lparr>ev_reason := r\<rparr> # cs)) = fp_crc_state (fingerprint_all f (as @ e # cs))"
      unfolding crc32c_def by (metis bit.double_compl)
    then have "r = ev_reason e"
      by (auto simp: fingerprint_all_ok [OF ok] fingerprint_all_ok [OF a(1)] sp dest!: crc_fold_inj crc_byte_inj(2))
    with a(2) show False by simp
  qed
qed

theorem fingerprint_detects_change_witness:
  "crc32c (fingerprint_all empty_fingerprint [demo_event, demo_event\<lparr>ev_reason := 1\<rparr>]) \<noteq>
   crc32c (fingerprint_all empty_fingerprint [demo_event, demo_event])"
  using fingerprint_detects_change [of "[]" demo_event empty_fingerprint "[demo_event]" "[]" 1] demo_event_canonical
  by (simp add: event_canonical_def accepted_event_def demo_event_def)

end
