(* ===== verification/Replay_Properties.thy ===== *)
theory Replay_Properties
  imports Replay Segment_Properties Engine_Properties Publisher_Properties
begin

text \<open>
  Replay as a fold over commands: a journal that holds a list of commands, or a set of segments that holds them piecewise,
  is replayed by applying the commands behind the snapshot point one after another, so that replay can be
  interrupted and resumed at any command.
\<close>

section \<open>Replay as a fold\<close>

fun apply_all :: "sequenced_command list \<Rightarrow> replaying \<Rightarrow> (replay_error option \<times> replaying) run" where
  "apply_all [] st = ret (None, st)"
| "apply_all (c # cs) st =
     (if sc_sequence c \<noteq> se_next_sequence (fst st) then ret (Some RE_Sequence_Gap, st)
      else run_bind (replay_command c st) (\<lambda>(err, st1). if err \<noteq> None then ret (err, st1) else apply_all cs st1))"

lemma run_bind_if: "run_bind (if p then a else b) k = (if p then run_bind a k else run_bind b k)"
  by simp

lemma apply_all_append:
  "apply_all (cs @ ds) st = run_bind (apply_all cs st) (\<lambda>(err, st1). if err \<noteq> None then ret (err, st1) else apply_all ds st1)"
proof (induction cs arbitrary: st)
  case (Cons c cs)
  then show ?case by (auto simp: run_bind_assoc split_def intro!: arg_cong [where f = "run_bind _"])
qed simp

lemma replay_records_apply_all:
  "(\<And>i. i \<in> set is \<Longrightarrow> journal_read j i = Inr (f i)) \<Longrightarrow> replay_records j is st = apply_all (map f is) st"
  by (induction "is" arbitrary: st) (auto intro!: arg_cong [where f = "run_bind _"])

lemma contents_replay:
  assumes "contents_of j cs" "length cs < 2 ^ 64" "k \<le> length cs"
  shows "replay_records j (map word_of_nat [k..<unat (j_size j)]) st = apply_all (drop k cs) st"
proof -
  have n: "unat (j_size j) = length cs" using assms(1,2) by (simp add: contents_of_def unat_of_nat)
  have "map (\<lambda>i. cs ! unat (word_of_nat i :: u64)) [k..<length cs] = map ((!) cs) [k..<length cs]"
    by (rule map_cong) (use assms(2) in \<open>auto simp: unat_of_nat\<close>)
  also have "\<dots> = drop k cs" by (metis add_0 drop_map drop_upt map_nth)
  finally have "map (\<lambda>w. cs ! unat w) (map (word_of_nat :: nat \<Rightarrow> u64) [k..<length cs]) = drop k cs" by (simp add: comp_def)
  moreover have "journal_read j w = Inr (cs ! unat w)" if "w \<in> set (map word_of_nat [k..<length cs])" for w
    using that assms(1,2) by (auto simp: contents_of_def unat_of_nat)
  ultimately show ?thesis
    unfolding n by (simp only: replay_records_apply_all [of "map word_of_nat [k..<length cs]" j "\<lambda>w. cs ! unat w" st])
qed

section \<open>The clock of a replay\<close>

lemma write_from_length: "write_from f k n evs = ret evs' \<Longrightarrow> length evs' = length evs"
  by (induction n arbitrary: k evs) (fastforce simp: crash_def ret_def split: if_splits)+

lemma dispatch_length: "dispatch e c evs = ret (n, e1, evs1) \<Longrightarrow> length evs1 = length evs"
  by (auto simp: dispatch_def Let_def finish_submit_def apply_cancel_def apply_amend_def apply_uncross_def write_submit_events_def
      run_bind_eq_ret_iff split_def simp del: write_from.simps dest!: write_from_length split: command_type.splits)

lemma apply_command_clock:
  assumes "apply_command e c evs = ret (r, e', evs')" "ap_status r = AS_Applied"
  shows "length evs' = length evs \<and> se_trade_capacity e' = se_trade_capacity e \<and> se_last_logical_time e' = sc_logical_time c \<and>
    (se_next_sequence e \<noteq> - 1 \<longrightarrow> se_next_sequence e' = se_next_sequence e + 1 \<and> se_sequence_exhausted e' = se_sequence_exhausted e)"
proof -
  obtain n e1 where d: "dispatch e c evs = ret (n, e1, evs')" "e' = advance e1 (sc_logical_time c)"
    using assms by (auto simp: apply_command_def Let_def run_bind_eq_ret_iff split: if_splits)
  show ?thesis using dispatch_length [OF d(1)] dispatch_same_clock [OF d(1)] by (auto simp: d(2) advance_def same_clock_def Let_def)
qed

definition in_step :: "engine \<Rightarrow> engine_event list \<Rightarrow> replaying \<Rightarrow> bool" where
  "in_step e evs st \<longleftrightarrow> (case st of (e', evs', _) \<Rightarrow> length evs' = length evs \<and> se_trade_capacity e' = se_trade_capacity e \<and>
     se_sequence_exhausted e' = se_sequence_exhausted e)"

lemma replay_command_clock:
  assumes "replay_command c (e, evs, r) = ret (None, st)" "se_next_sequence e \<noteq> - 1"
  shows "in_step e evs st \<and> se_next_sequence (fst st) = se_next_sequence e + 1 \<and> se_last_logical_time (fst st) = sc_logical_time c"
proof -
  obtain ap e1 evs1 e2 r2 where a: "apply_command e c evs = ret (ap, e1, evs1)" "ap_status ap = AS_Applied"
    and s: "st = (e2, evs1, r2)" and k: "check_engine e1 = ret (True, e2)"
    using assms(1) by (auto simp: replay_command_def Let_def run_bind_eq_ret_iff split_def split: if_splits)
  obtain b where "e2 = e1\<lparr>se_book := b\<rparr>" using k by (auto simp: check_engine_def ret_def split: option.splits)
  then show ?thesis using apply_command_clock [OF a] assms(2) by (simp add: in_step_def s)
qed

definition numbered_from :: "u64 \<Rightarrow> sequenced_command list \<Rightarrow> bool" where
  "numbered_from base cs \<longleftrightarrow> (\<forall>i < length cs. sc_sequence (cs ! i) = base + word_of_nat i)"

lemma numbered_from_Cons: "numbered_from base (c # cs) \<longleftrightarrow> sc_sequence c = base \<and> numbered_from (base + 1) cs"
proof -
  have "(\<forall>i < Suc (length cs). sc_sequence ((c # cs) ! i) = base + word_of_nat i) \<longleftrightarrow>
      sc_sequence c = base \<and> (\<forall>i < length cs. sc_sequence (cs ! i) = base + word_of_nat (Suc i))"
    by (subst All_less_Suc2) simp
  then show ?thesis by (simp add: numbered_from_def add.assoc)
qed

lemma numbered_from_append: "numbered_from base (cs @ ds) \<longleftrightarrow> numbered_from base cs \<and> numbered_from (base + word_of_nat (length cs)) ds"
  by (induction cs arbitrary: base) (auto simp: numbered_from_Cons add.assoc, simp add: numbered_from_def)

lemma next_not_last: "unat (w :: u64) + Suc n < 2 ^ 64 \<Longrightarrow> w \<noteq> - 1 \<and> unat (w + 1) = Suc (unat w)"
proof -
  assume a: "unat w + Suc n < 2 ^ 64"
  then have w: "w \<noteq> - 1" by (auto simp: unsigned_minus_1_eq_mask mask_eq_exp_minus_1)
  have "unat (w + 1) = Suc (unat w)" using a by (simp add: unat_word_ariths)
  then show ?thesis using w by simp
qed

lemma apply_all_clock:
  assumes "apply_all cs (e, evs, r) = ret (None, st)" "unat (se_next_sequence e) + length cs < 2 ^ 64"
  shows "in_step e evs st \<and> se_next_sequence (fst st) = se_next_sequence e + word_of_nat (length cs) \<and>
    (cs \<noteq> [] \<longrightarrow> se_last_logical_time (fst st) = sc_logical_time (last cs))"
  using assms
proof (induction cs arbitrary: e evs r)
  case (Cons c cs)
  have w: "se_next_sequence e \<noteq> - 1" "unat (se_next_sequence e + 1) = Suc (unat (se_next_sequence e))"
    using next_not_last Cons.prems(2) by auto
  obtain st1 where 1: "replay_command c (e, evs, r) = ret (None, st1)" "apply_all cs st1 = ret (None, st)"
    using Cons.prems(1) by (auto simp: run_bind_eq_ret_iff split: if_splits)
  obtain e1 evs1 r1 where st1: "st1 = (e1, evs1, r1)" by (cases st1)
  note k = replay_command_clock [OF 1(1) w(1)]
  have "unat (se_next_sequence e1) + length cs < 2 ^ 64" using k w Cons.prems(2) by (simp add: st1)
  then show ?case using Cons.IH [OF 1(2) [unfolded st1]] k 1(2) by (auto simp: st1 in_step_def add.assoc ret_def)
qed (auto simp: in_step_def ret_def)

section \<open>What the result does not influence\<close>

definition outcome :: "(replay_error option \<times> replaying) run \<Rightarrow> (replay_error option \<times> engine \<times> engine_event list) run" where
  "outcome x = run_bind x (\<lambda>(err, e, evs, _). ret (err, e, evs))"

lemma fingerprint_add_err: "fst (fingerprint_add f ev) = fst (fingerprint_add f' ev)"
  by (simp add: fingerprint_add_def Let_def split_def)

lemma add_events_ok: "fst (add_events f evs) = fst (add_events f' evs)"
proof (induction evs arbitrary: f f')
  case (Cons ev evs)
  then show ?case
    using fingerprint_add_err [of f ev f'] Cons.IH [of "snd (fingerprint_add f ev)" "snd (fingerprint_add f' ev)"] by (simp add: split_def Let_def)
qed simp

lemma replay_command_outcome: "outcome (replay_command c (e, evs, r)) = outcome (replay_command c (e, evs, r'))"
proof -
  have "fst (add_events (rr_fingerprint (count_command c r)) xs) = fst (add_events (rr_fingerprint (count_command c r')) xs)" for xs
    by (rule add_events_ok)
  then show ?thesis
    by (auto simp: replay_command_def outcome_def run_bind_assoc split_def Let_def run_bind_if intro!: arg_cong [where f = "run_bind _"])
qed

lemma outcome_bind:
  assumes "outcome x = outcome y" "\<And>err e evs r r'. outcome (k (err, e, evs, r)) = outcome (k (err, e, evs, r'))"
  shows "outcome (run_bind x k) = outcome (run_bind y k)"
proof -
  have "outcome (run_bind z k) = run_bind (outcome z) (\<lambda>(err, e, evs). outcome (k (err, e, evs, undefined)))" for z
    unfolding outcome_def run_bind_assoc
    by (intro arg_cong [where f = "run_bind z"] ext) (use assms(2) in \<open>auto simp: outcome_def split_def\<close>)
  then show ?thesis using assms(1) by simp
qed

lemma apply_all_outcome: "outcome (apply_all cs (e, evs, r)) = outcome (apply_all cs (e, evs, r'))"
proof (induction cs arbitrary: e evs r r')
  case (Cons c cs)
  then show ?case
    by (auto simp: outcome_def [of "ret _"] intro!: outcome_bind replay_command_outcome)
qed (simp add: outcome_def)

section \<open>The snapshot point\<close>

lemma unat_plus_of_nat: "unat (base :: u64) + k < 2 ^ 64 \<Longrightarrow> unat (base + word_of_nat k) = unat base + k"
  by (simp add: unat_word_ariths unat_of_nat)

lemma unat_minus_base: "base \<le> w \<Longrightarrow> unat (w - base :: u64) = unat w - unat base"
  by (simp add: unat_sub)

text \<open>A journal that holds the commands \<open>cs\<close>, numbered from its base without reaching the last sequence number.\<close>

definition holds_numbered :: "journal \<Rightarrow> sequenced_command list \<Rightarrow> bool" where
  "holds_numbered j cs \<longleftrightarrow> contents_of j cs \<and> numbered_from (j_base_sequence j) cs \<and> j_base_sequence j \<noteq> 0 \<and>
     unat (j_base_sequence j) + length cs < 2 ^ 64"

lemma holds_size: assumes "holds_numbered j cs"
  shows "unat (j_size j) = length cs" "unat (j_base_sequence j + j_size j) = unat (j_base_sequence j) + length cs"
  using assms unat_plus_of_nat [of "j_base_sequence j" "length cs"] by (auto simp: holds_numbered_def contents_of_def unat_of_nat)

lemma contents_read:
  assumes "contents_of j cs" "unat w < length cs" shows "journal_read j w = Inr (cs ! unat w)"
proof -
  have "journal_read j (word_of_nat (unat w)) = Inr (cs ! unat w)" using assms unfolding contents_of_def by blast
  then show ?thesis by simp
qed

lemma holds_read: "holds_numbered j cs \<Longrightarrow> unat w < length cs \<Longrightarrow> journal_read j w = Inr (cs ! unat w)"
  by (simp add: contents_read holds_numbered_def)

lemma replay_start_facts:
  assumes "replay_start j e s t n = Inr f"
  shows "f = s + 1 - j_base_sequence j" "j_base_sequence j \<le> s + 1" "s + 1 \<le> j_base_sequence j + j_size j"
    "se_next_sequence e = s + 1" "\<not> se_sequence_exhausted e" "se_last_logical_time e = t" "maximum_event_capacity e \<le> n" "s \<noteq> - 1"
  using assms by (auto simp: replay_start_def snapshot_matches_def Let_def split: if_splits option.splits)

lemma start_index:
  assumes "holds_numbered j cs" "replay_start j e s t n = Inr f"
  shows "unat f \<le> length cs" "unat (s + 1) = unat (j_base_sequence j) + unat f"
proof -
  note r = replay_start_facts [OF assms(2)]
  have "unat f = unat (s + 1) - unat (j_base_sequence j)" unfolding r(1) by (rule unat_minus_base [OF r(2)])
  moreover have "unat (j_base_sequence j) \<le> unat (s + 1)" using r(2) by (simp add: word_le_nat_alt)
  moreover have "unat (s + 1) \<le> unat (j_base_sequence j) + length cs"
    using r(3) holds_size(2) [OF assms(1)] by (simp add: word_le_nat_alt)
  ultimately show "unat f \<le> length cs" "unat (s + 1) = unat (j_base_sequence j) + unat f" by simp_all
qed

definition settled :: "((replay_error + replay_result) \<times> engine \<times> engine_event list) run \<Rightarrow> (replay_error option \<times> engine \<times> engine_event list) run" where
  "settled x = run_bind x (\<lambda>(res, e, evs). ret (case res of Inl err \<Rightarrow> Some err | Inr _ \<Rightarrow> None, e, evs))"

lemma replay_journal_apply_all:
  assumes "holds_numbered j cs" "replay_start j e s t (length evs) = Inr f"
  shows "replay_journal j e s t evs = run_bind (apply_all (drop (unat f) cs) (e, evs, empty_result)) (\<lambda>x. ret (finished x))"
  using contents_replay [of j cs "unat f"] start_index(1) [OF assms] assms by (simp add: replay_journal_def holds_numbered_def)

lemma settled_finished: "settled (run_bind x (\<lambda>x. ret (finished x))) = outcome x"
  unfolding settled_def outcome_def run_bind_assoc
  by (rule arg_cong [where f = "run_bind x"]) (auto simp: finished_def fun_eq_iff split: option.split)

lemma replay_start_extend:
  assumes "holds_numbered j0 cs" "holds_numbered j (cs @ ds)" "j_base_sequence j0 = j_base_sequence j" "replay_start j0 e s t n = Inr f"
  shows "replay_start j e s t n = Inr f"
proof -
  let ?b = "j_base_sequence j"
  note r = replay_start_facts [OF assms(4)] and i = start_index [OF assms(1,4)]
  have b: "unat ?b \<le> unat (s + 1)" using r(2) assms(3) by (simp add: word_le_nat_alt)
  have s: "unat (s + 1) = Suc (unat s)" using r(8) by (metis add.commute add_eq_0_iff2 unatSuc)
  have bnd: "check_boundary j s t = None"
  proof -
    have b0: "check_boundary j0 s t = None"
      using assms(4) by (auto simp: replay_start_def Let_def split: if_splits option.splits)
    have end0: "unat (?b + j_size j0) = unat ?b + length cs" "unat (?b + j_size j) = unat ?b + length cs + length ds"
      using holds_size(2) [OF assms(1)] holds_size(2) [OF assms(2)] assms(3) by auto
    show ?thesis
    proof (cases "s \<noteq> 0 \<and> s \<ge> ?b")
      case True
      have u: "unat (s - ?b) = unat s - unat ?b" using True unat_minus_base by blast
      have le: "unat ?b \<le> unat s" using True by (simp add: word_le_nat_alt)
      have "s < ?b + j_size j0" using i(1,2) assms(3) s le by (simp add: word_less_nat_alt end0)
      moreover have "s < ?b + j_size j" using i(1,2) assms(3) s le by (simp add: word_less_nat_alt end0)
      moreover have "unat (s - ?b) < length cs" using u i assms(3) s le by simp
      then have "journal_read j0 (s - ?b) = journal_read j (s - ?b)"
        using holds_read [OF assms(1)] holds_read [OF assms(2), of "s - ?b"] by (simp add: nth_append)
      ultimately show ?thesis using b0 True assms(3) by (simp add: check_boundary_def Let_def split: if_splits)
    next
      case False
      then show ?thesis using b0 assms(3) by (auto simp: check_boundary_def Let_def split: if_splits)
    qed
  qed
  have rd: "journal_read j f = Inr ((cs @ ds) ! unat f) \<and> sc_sequence ((cs @ ds) ! unat f) = s + 1" if "f < j_size j"
  proof -
    have "unat f < length (cs @ ds)" using that holds_size(1) [OF assms(2)] by (simp add: word_less_nat_alt)
    then have "journal_read j f = Inr ((cs @ ds) ! unat f)" "sc_sequence ((cs @ ds) ! unat f) = ?b + f"
      using holds_read [OF assms(2)] assms(2) by (auto simp: holds_numbered_def numbered_from_def)
    then show ?thesis using r(1) assms(3) by simp
  qed
  have "s + 1 \<le> ?b + j_size j"
    using i holds_size(2) [OF assms(2)] assms(3) by (simp add: word_le_nat_alt)
  moreover have "\<not> s + 1 < ?b" using b by (simp add: word_less_nat_alt)
  ultimately show ?thesis
    using bnd r rd assms(3,4) by (auto simp: replay_start_def snapshot_matches_def Let_def split: if_splits option.splits)
qed

lemma holds_last:
  assumes "holds_numbered j (cs @ ds)" "cs \<noteq> []"
  shows "sc_sequence (last cs) + 1 = j_base_sequence j + word_of_nat (length cs)"
    "unat (sc_sequence (last cs)) = unat (j_base_sequence j) + (length cs - 1)"
    "journal_read j (sc_sequence (last cs) - j_base_sequence j) = Inr (last cs)"
proof -
  let ?k = "length cs - 1"
  have n: "0 < length cs" using assms(2) by simp
  then have k0: "?k < length cs" by linarith
  have "?k < length cs + length ds" using k0 by linarith
  then have k: "?k < length (cs @ ds)" "(cs @ ds) ! ?k = last cs" "Suc ?k = length cs"
    using assms(2) n k0 by (simp_all add: nth_append last_conv_nth)
  have s: "sc_sequence (last cs) = j_base_sequence j + word_of_nat ?k"
    using assms(1) k(1,2) by (auto simp: holds_numbered_def numbered_from_def)
  have "word_of_nat ?k + (1 :: u64) = word_of_nat (length cs)" using k(3) by (metis of_nat_Suc add.commute)
  then show "sc_sequence (last cs) + 1 = j_base_sequence j + word_of_nat (length cs)" by (simp add: s add.assoc)
  have "unat (j_base_sequence j) + (length cs + length ds) < 2 ^ 64" using assms(1) by (simp add: holds_numbered_def)
  then have b: "unat (j_base_sequence j) + ?k < 2 ^ 64" by linarith
  then show "unat (sc_sequence (last cs)) = unat (j_base_sequence j) + ?k" unfolding s by (rule unat_plus_of_nat)
  have "unat (word_of_nat ?k :: u64) = ?k" using b by (simp add: unat_of_nat)
  then show "journal_read j (sc_sequence (last cs) - j_base_sequence j) = Inr (last cs)"
    using holds_read [OF assms(1), of "word_of_nat ?k"] k by (simp add: s)
qed

lemma replay_start_resume:
  assumes h: "holds_numbered j (cs @ ds)" "cs \<noteq> []"
    and e: "se_next_sequence e = j_base_sequence j + word_of_nat (length cs)" "\<not> se_sequence_exhausted e"
      "se_last_logical_time e = sc_logical_time (last cs)" "maximum_event_capacity e \<le> n"
  shows "replay_start j e (sc_sequence (last cs)) (sc_logical_time (last cs)) n = Inr (word_of_nat (length cs))"
proof -
  let ?s = "sc_sequence (last cs)" and ?b = "j_base_sequence j"
  note l = holds_last [OF h]
  have b: "unat ?b + length cs + length ds < 2 ^ 64" "?b \<noteq> 0" using h(1) by (auto simp: holds_numbered_def)
  have us: "unat (?s + 1) = unat ?b + length cs" unfolding l(1) using b by (intro unat_plus_of_nat) simp
  have len: "0 < length cs" using h(2) by simp
  have ue: "unat (?b + j_size j) = unat ?b + length cs + length ds" using holds_size(2) [OF h(1)] by simp
  have s0: "?s \<noteq> 0"
  proof
    assume "?s = 0"
    then have "unat ?b = 0" using l(2) by simp
    then show False using b(2) by (simp add: unat_eq_zero)
  qed
  have s1: "?s \<noteq> - 1"
  proof
    assume "?s = - 1"
    then have "unat (?s + 1) = 0" by simp
    then show False using us len by simp
  qed
  have bs: "?b \<le> ?s" "?s < ?b + j_size j" "?b \<le> ?s + 1" "?s + 1 \<le> ?b + j_size j"
    using l(2) us ue len unfolding word_le_nat_alt word_less_nat_alt by linarith+
  have bnd: "check_boundary j ?s (sc_logical_time (last cs)) = None"
    using bs s0 l(3) by (auto simp: check_boundary_def Let_def)
  have f: "?s + 1 - ?b = word_of_nat (length cs)" using l(1) by simp
  have rd: "journal_read j (word_of_nat (length cs)) = Inr ((cs @ ds) ! length cs) \<and> sc_sequence ((cs @ ds) ! length cs) = se_next_sequence e"
    if "word_of_nat (length cs) < j_size j"
  proof -
    have u: "unat (word_of_nat (length cs) :: u64) = length cs" using b(1) by (simp add: unat_of_nat)
    then have "length cs < length (cs @ ds)" using that holds_size(1) [OF h(1)] by (simp add: word_less_nat_alt)
    then show ?thesis using holds_read [OF h(1), of "word_of_nat (length cs)"] u h(1) e(1)
      by (auto simp: holds_numbered_def numbered_from_def)
  qed
  show ?thesis
    using s0 s1 e bnd f rd bs l(1) by (auto simp: replay_start_def snapshot_matches_def Let_def not_less split: option.split)
qed

lemma replay_start_time:
  assumes "holds_numbered j cs" "cs \<noteq> []" "replay_start j e (sc_sequence (last cs)) t n = Inr f"
  shows "t = sc_logical_time (last cs)"
proof -
  let ?s = "sc_sequence (last cs)"
  have l: "unat ?s = unat (j_base_sequence j) + (length cs - 1)" "journal_read j (?s - j_base_sequence j) = Inr (last cs)"
    using holds_last [of j cs "[]"] assms(1,2) by auto
  have len: "0 < length cs" using assms(2) by simp
  have b: "j_base_sequence j \<noteq> 0" using assms(1) by (simp add: holds_numbered_def)
  have "?s \<noteq> 0" using l(1) b by (auto simp: unat_eq_zero)
  moreover have "j_base_sequence j \<le> ?s" "?s < j_base_sequence j + j_size j"
    using l(1) holds_size(2) [OF assms(1)] len unfolding word_le_nat_alt word_less_nat_alt by linarith+
  moreover have "check_boundary j ?s t = None"
    using assms(3) by (auto simp: replay_start_def Let_def split: if_splits option.splits)
  ultimately show ?thesis using l(2) by (auto simp: check_boundary_def Let_def split: if_splits)
qed

text \<open>The two replays from the command on at which the shorter journal ends.\<close>

lemma replay_split:
  assumes "holds_numbered j0 cs" "holds_numbered j (cs @ ds)" "j_base_sequence j0 = j_base_sequence j" "cs \<noteq> []"
    and r0: "replay_journal j0 e s t evs = ret (Inr r, e0, evs0)"
  shows "replay_journal j e s t evs = run_bind (apply_all ds (e0, evs0, r)) (\<lambda>x. ret (finished x))"
    and "replay_journal j e0 (sc_sequence (last cs)) (sc_logical_time (last cs)) evs0 =
      run_bind (apply_all ds (e0, evs0, empty_result)) (\<lambda>x. ret (finished x))"
proof -
  obtain f where f: "replay_start j0 e s t (length evs) = Inr f"
    using r0 by (auto simp: replay_journal_def ret_def split: sum.splits)
  note f' = replay_start_extend [OF assms(1-3) f] and i = start_index [OF assms(1) f] and q = replay_start_facts [OF f]
  let ?k = "unat f" and ?st = "(e, evs, empty_result)"
  have p: "apply_all (drop ?k cs) ?st = ret (None, e0, evs0, r)"
    using r0 unfolding replay_journal_apply_all [OF assms(1) f]
    by (auto simp: run_bind_eq_ret_iff finished_def split: option.splits)
  have nx: "unat (se_next_sequence e) + length (drop ?k cs) < 2 ^ 64"
    using i q(4) assms(2,3) by (simp add: holds_numbered_def)
  note c = apply_all_clock [OF p nx]
  have nxt: "se_next_sequence e0 = j_base_sequence j + word_of_nat (length cs)"
  proof -
    have "se_next_sequence e0 = j_base_sequence j + f + word_of_nat (length cs - ?k)" using c q(1,4) assms(3) by simp
    moreover have "f + word_of_nat (length cs - ?k) = word_of_nat (length cs)"
    proof -
      have "f + word_of_nat (length cs - ?k) = word_of_nat (?k + (length cs - ?k))" by simp
      then show ?thesis using i(1) by simp
    qed
    ultimately show ?thesis by (simp add: add.assoc)
  qed
  have tm: "se_last_logical_time e0 = sc_logical_time (last cs)"
  proof (cases "drop ?k cs = []")
    case False
    then show ?thesis using c by (simp add: last_drop)
  next
    case True
    then have "length cs \<le> ?k" by simp
    then have k: "?k = length cs" using i(1) by simp
    have "s + 1 = sc_sequence (last cs) + 1"
    proof -
      have "f = word_of_nat (unat f)" by simp
      then have "s + 1 = j_base_sequence j0 + word_of_nat (length cs)" using q(1) unfolding k by (simp add: diff_eq_eq add.commute)
      then show ?thesis using holds_last(1) [of j0 cs "[]"] assms(1,4) by simp
    qed
    then have "s = sc_sequence (last cs)" by simp
    then have "t = sc_logical_time (last cs)" using replay_start_time [OF assms(1,4), of e t "length evs" f] f by simp
    then show ?thesis using p True q(6) by simp
  qed
  have "drop ?k (cs @ ds) = drop ?k cs @ ds" using i(1) by simp
  then show "replay_journal j e s t evs = run_bind (apply_all ds (e0, evs0, r)) (\<lambda>x. ret (finished x))"
    by (simp add: replay_journal_apply_all [OF assms(2) f'] apply_all_append p)
  have "replay_start j e0 (sc_sequence (last cs)) (sc_logical_time (last cs)) (length evs0) = Inr (word_of_nat (length cs))"
    using c q(5,7) by (intro replay_start_resume [OF assms(2,4) nxt _ tm]) (auto simp: in_step_def maximum_event_capacity_def)
  note rr = replay_journal_apply_all [OF assms(2) this]
  have "unat (word_of_nat (length cs) :: u64) = length cs" using assms(2) by (simp add: holds_numbered_def unat_of_nat)
  then show "replay_journal j e0 (sc_sequence (last cs)) (sc_logical_time (last cs)) evs0 =
      run_bind (apply_all ds (e0, evs0, empty_result)) (\<lambda>x. ret (finished x))" unfolding rr by simp
qed

text \<open>What a replay adds to the result: a list of events that does not depend on the result it starts from.\<close>

lemma add_events_append:
  "add_events f xs = (True, f1) \<Longrightarrow> add_events f (xs @ ys) = add_events f1 ys"
  by (induction xs arbitrary: f) (auto simp: Let_def split_def split: if_splits)

lemma replay_command_adds:
  assumes "replay_command c (e, evs, r) = ret (None, e2, evs2, R)"
  shows "\<exists>xs. \<forall>r'. \<exists>R'. replay_command c (e, evs, r') = ret (None, e2, evs2, R') \<and> add_events (rr_fingerprint r') xs = (True, rr_fingerprint R') \<and>
    rr_commands_applied R' = rr_commands_applied r' + 1"
proof -
  obtain ap e1 where a: "apply_command e c evs = ret (ap, e1, evs2)" "ap_status ap = AS_Applied" "check_engine e1 = ret (True, e2)"
    and f: "fst (add_events (rr_fingerprint (count_command c r)) (take (ap_event_count ap) evs2))"
    using assms by (auto simp: replay_command_def Let_def run_bind_eq_ret_iff split_def split: if_splits)
  let ?xs = "take (ap_event_count ap) evs2"
  have fp: "rr_fingerprint (count_command c r') = rr_fingerprint r'" "rr_commands_applied (count_command c r') = rr_commands_applied r' + 1" for r'
    by (simp_all add: count_command_def Let_def)
  have ok: "fst (add_events (rr_fingerprint r') ?xs)" for r' using f add_events_ok fp(1) by metis
  show ?thesis
  proof (intro exI [of _ ?xs] allI)
    fix r'
    let ?R = "(count_command c r')\<lparr>rr_fingerprint := snd (add_events (rr_fingerprint r') ?xs)\<rparr>"
    have "replay_command c (e, evs, r') = ret (None, e2, evs2, ?R)"
      using a ok [of r'] by (simp add: replay_command_def Let_def split_def fp)
    then show "\<exists>R'. replay_command c (e, evs, r') = ret (None, e2, evs2, R') \<and> add_events (rr_fingerprint r') ?xs = (True, rr_fingerprint R') \<and>
        rr_commands_applied R' = rr_commands_applied r' + 1"
      using ok [of r'] fp by (intro exI [of _ ?R]) (simp add: prod_eq_iff)
  qed
qed

lemma apply_all_adds:
  assumes "apply_all cs (e, evs, r) = ret (None, e2, evs2, R)"
  shows "\<exists>xs. \<forall>r'. \<exists>R'. apply_all cs (e, evs, r') = ret (None, e2, evs2, R') \<and> add_events (rr_fingerprint r') xs = (True, rr_fingerprint R') \<and>
    rr_commands_applied R' = rr_commands_applied r' + word_of_nat (length cs)"
  using assms
proof (induction cs arbitrary: e evs r)
  case Nil
  then show ?case by (intro exI [of _ "[]"]) (simp add: ret_def)
next
  case (Cons c cs)
  obtain e1 evs1 r1 where n: "sc_sequence c = se_next_sequence e"
    and 1: "replay_command c (e, evs, r) = ret (None, e1, evs1, r1)" "apply_all cs (e1, evs1, r1) = ret (None, e2, evs2, R)"
    using Cons.prems by (auto simp: run_bind_eq_ret_iff split: if_splits)
  obtain xs where x: "\<forall>r'. \<exists>R'. replay_command c (e, evs, r') = ret (None, e1, evs1, R') \<and> add_events (rr_fingerprint r') xs = (True, rr_fingerprint R') \<and>
      rr_commands_applied R' = rr_commands_applied r' + 1" using replay_command_adds [OF 1(1)] by blast
  obtain ys where y: "\<forall>r'. \<exists>R'. apply_all cs (e1, evs1, r') = ret (None, e2, evs2, R') \<and> add_events (rr_fingerprint r') ys = (True, rr_fingerprint R') \<and>
      rr_commands_applied R' = rr_commands_applied r' + word_of_nat (length cs)" using Cons.IH [OF 1(2)] by blast
  show ?case
  proof (intro exI [of _ "xs @ ys"] allI)
    fix r'
    obtain M where M: "replay_command c (e, evs, r') = ret (None, e1, evs1, M)" "add_events (rr_fingerprint r') xs = (True, rr_fingerprint M)"
      "rr_commands_applied M = rr_commands_applied r' + 1" using x by blast
    obtain R' where "apply_all cs (e1, evs1, M) = ret (None, e2, evs2, R')" "add_events (rr_fingerprint M) ys = (True, rr_fingerprint R')"
      "rr_commands_applied R' = rr_commands_applied M + word_of_nat (length cs)" using y by blast
    then show "\<exists>R'. apply_all (c # cs) (e, evs, r') = ret (None, e2, evs2, R') \<and> add_events (rr_fingerprint r') (xs @ ys) = (True, rr_fingerprint R') \<and>
        rr_commands_applied R' = rr_commands_applied r' + word_of_nat (length (c # cs))"
      using n M add_events_append [OF M(2)] by (intro exI [of _ R']) (simp add: add.assoc)
  qed
qed

text \<open>
  C11. Recovery from a snapshot reaches the engine that replaying everything reaches: replaying a journal and then resuming at its
  last command on a longer journal gives the same error or success, engine and events as replaying the longer journal from the
  start, also where that crashes or does not return.  The result of the resumed replay covers the suffix only: when it succeeds,
  the full replay has applied as many commands as the first and the resumed replay together, and its fingerprint is that of the first replay
  continued by the events whose fingerprint, begun empty, is that of the resumed one.
\<close>

theorem replay_resumes:
  assumes "holds_numbered j0 cs" "holds_numbered j (cs @ ds)" "j_base_sequence j0 = j_base_sequence j" "cs \<noteq> []"
    and r0: "replay_journal j0 e s t evs = ret (Inr r, e0, evs0)"
  shows "settled (replay_journal j e s t evs) =
      settled (replay_journal j e0 (sc_sequence (last cs)) (sc_logical_time (last cs)) evs0) \<and>
    (\<forall>R' e1 evs1. replay_journal j e0 (sc_sequence (last cs)) (sc_logical_time (last cs)) evs0 = ret (Inr R', e1, evs1) \<longrightarrow>
      (\<exists>R xs. replay_journal j e s t evs = ret (Inr R, e1, evs1) \<and>
        rr_commands_applied R = rr_commands_applied r + rr_commands_applied R' \<and>
        add_events (rr_fingerprint r) xs = (True, rr_fingerprint R) \<and> add_events empty_fingerprint xs = (True, rr_fingerprint R')))"
proof -
  note sp = replay_split [OF assms]
  have "settled (replay_journal j e s t evs) = settled (replay_journal j e0 (sc_sequence (last cs)) (sc_logical_time (last cs)) evs0)"
    unfolding sp settled_finished by (rule apply_all_outcome)
  moreover have "\<exists>R xs. replay_journal j e s t evs = ret (Inr R, e1, evs1) \<and>
        rr_commands_applied R = rr_commands_applied r + rr_commands_applied R' \<and>
        add_events (rr_fingerprint r) xs = (True, rr_fingerprint R) \<and> add_events empty_fingerprint xs = (True, rr_fingerprint R')"
    if suffix: "replay_journal j e0 (sc_sequence (last cs)) (sc_logical_time (last cs)) evs0 = ret (Inr R', e1, evs1)" for R' e1 evs1
  proof -
    have a: "apply_all ds (e0, evs0, empty_result) = ret (None, e1, evs1, R')"
      using suffix unfolding sp(2) by (auto simp: run_bind_eq_ret_iff finished_def split: option.splits)
    obtain xs where x: "\<forall>q. \<exists>Q. apply_all ds (e0, evs0, q) = ret (None, e1, evs1, Q) \<and> add_events (rr_fingerprint q) xs = (True, rr_fingerprint Q) \<and>
        rr_commands_applied Q = rr_commands_applied q + word_of_nat (length ds)" using apply_all_adds [OF a] by blast
    obtain R where R: "apply_all ds (e0, evs0, r) = ret (None, e1, evs1, R)" "add_events (rr_fingerprint r) xs = (True, rr_fingerprint R)"
      "rr_commands_applied R = rr_commands_applied r + word_of_nat (length ds)" using x by blast
    have e: "rr_fingerprint empty_result = empty_fingerprint" "rr_commands_applied empty_result = 0" by (simp_all add: empty_result_def)
    have R': "add_events empty_fingerprint xs = (True, rr_fingerprint R')" "rr_commands_applied R' = word_of_nat (length ds)"
      using x [THEN spec, of empty_result] a e by (auto simp: ret_def)
    have "replay_journal j e s t evs = ret (Inr R, e1, evs1)" unfolding sp(1) R(1) by (simp add: finished_def)
    then show ?thesis using R R' by (intro exI [of _ R] exI [of _ xs]) simp
  qed
  ultimately show ?thesis by blast
qed

section \<open>Segments\<close>

text \<open>Segments that hold the commands piece by piece, each numbered from where the one before it ends.\<close>

fun segments_hold :: "u64 \<Rightarrow> journal list \<Rightarrow> sequenced_command list list \<Rightarrow> bool" where
  "segments_hold base [] [] = True"
| "segments_hold base (j # js) (cs # css) \<longleftrightarrow>
     contents_of j cs \<and> j_base_sequence j = base \<and> segments_hold (base + word_of_nat (length cs)) js css"
| "segments_hold _ _ _ = False"

lemma replay_segment_apply_all:
  "(\<And>i. i \<in> set is \<Longrightarrow> journal_read j i = Inr (f i)) \<Longrightarrow>
     replay_segment nxt j is st = apply_all (filter (\<lambda>c. \<not> sc_sequence c < nxt) (map f is)) st"
  by (induction "is" arbitrary: st) (auto intro!: arg_cong [where f = "run_bind _"])

lemma contents_map:
  assumes "contents_of j cs" "length cs < 2 ^ 64"
  shows "unat (j_size j) = length cs" "map (\<lambda>w. cs ! unat w) (map (word_of_nat :: nat \<Rightarrow> u64) [0..<length cs]) = cs"
    "w \<in> set (map word_of_nat [0..<length cs]) \<Longrightarrow> journal_read j w = Inr (cs ! unat w)"
proof -
  show "unat (j_size j) = length cs" using assms by (simp add: contents_of_def unat_of_nat)
  have "map (\<lambda>i. cs ! unat (word_of_nat i :: u64)) [0..<length cs] = map ((!) cs) [0..<length cs]"
    by (rule map_cong) (use assms(2) in \<open>auto simp: unat_of_nat\<close>)
  then show "map (\<lambda>w. cs ! unat w) (map (word_of_nat :: nat \<Rightarrow> u64) [0..<length cs]) = cs" by (simp add: comp_def map_nth)
  show "journal_read j w = Inr (cs ! unat w)" if "w \<in> set (map word_of_nat [0..<length cs])"
    using that assms by (auto simp: contents_of_def unat_of_nat)
qed

lemma replay_segments_apply_all:
  "segments_hold base js css \<Longrightarrow> length (concat css) < 2 ^ 64 \<Longrightarrow>
     replay_segments nxt js st = apply_all (filter (\<lambda>c. \<not> sc_sequence c < nxt) (concat css)) st"
proof (induction base js css arbitrary: st rule: segments_hold.induct)
  case (2 base j js cs css)
  have l: "length cs < 2 ^ 64" "length (concat css) < 2 ^ 64" using 2(3) by simp_all
  note m = contents_map [of j cs, OF _ l(1)]
  have "replay_segment nxt j (map word_of_nat [0..<unat (j_size j)]) st = apply_all (filter (\<lambda>c. \<not> sc_sequence c < nxt) cs) st" for st
    using 2(2) replay_segment_apply_all [of "map word_of_nat [0..<length cs]" j "\<lambda>w. cs ! unat w" nxt st] m by (simp only: segments_hold.simps)
  then show ?case
    using 2 l by (auto simp: apply_all_append intro!: arg_cong [where f = "run_bind _"])
qed simp_all

lemma numbered_from_filter:
  "numbered_from base cs \<Longrightarrow> unat base + length cs < 2 ^ 64 \<Longrightarrow> k \<le> length cs \<Longrightarrow>
     filter (\<lambda>c. \<not> sc_sequence c < base + word_of_nat k) cs = drop k cs"
proof -
  assume a: "numbered_from base cs" "unat base + length cs < 2 ^ 64" "k \<le> length cs"
  have s: "unat (sc_sequence (cs ! i)) = unat base + i" if "i < length cs" for i
    using a that by (auto simp: numbered_from_def intro!: unat_plus_of_nat)
  have k: "unat (base + word_of_nat k) = unat base + k" using a by (intro unat_plus_of_nat) simp
  have "sc_sequence c < base + word_of_nat k" if "c \<in> set (take k cs)" for c
    using that a(3) by (auto simp: in_set_conv_nth word_less_nat_alt s k)
  moreover have "\<not> sc_sequence c < base + word_of_nat k" if "c \<in> set (drop k cs)" for c
    using that a(3) by (auto simp: in_set_conv_nth word_less_nat_alt s k)
  ultimately have "filter (\<lambda>c. \<not> sc_sequence c < base + word_of_nat k) (take k cs @ drop k cs) = drop k cs"
    unfolding filter_append by (simp add: filter_empty_conv)
  then show ?thesis by simp
qed

lemma read_sequence_holds:
  "segments_hold base js css \<Longrightarrow> unat base + length (concat css) < 2 ^ 64 \<Longrightarrow> base \<le> s \<Longrightarrow> unat s < unat base + length (concat css) \<Longrightarrow>
     read_sequence js s = Inr (concat css ! (unat s - unat base))"
proof (induction base js css rule: segments_hold.induct)
  case (2 base j js cs css)
  have c: "contents_of j cs" "j_base_sequence j = base" "segments_hold (base + word_of_nat (length cs)) js css" using 2(2) by auto
  have u: "unat (base + word_of_nat (length cs)) = unat base + length cs" using 2(3) by (intro unat_plus_of_nat) simp
  have e: "base + j_size j = base + word_of_nat (length cs)" using c(1) by (simp add: contents_of_def)
  have b: "unat base \<le> unat s" using 2(4) by (simp add: word_le_nat_alt)
  show ?case
  proof (cases "unat s < unat base + length cs")
    case True
    have "unat (s - base) = unat s - unat base" using 2(4) by (rule unat_minus_base)
    moreover have "unat s - unat base < length cs" using True b by linarith
    ultimately have "journal_read j (s - base) = Inr (cs ! (unat s - unat base))" using contents_read [OF c(1), of "s - base"] by simp
    then show ?thesis using True b c(2) 2(4) e u by (simp add: word_less_nat_alt nth_append less_diff_conv2)
  next
    case False
    then have "base + word_of_nat (length cs) \<le> s" by (simp add: word_le_nat_alt u)
    then have "read_sequence js s = Inr (concat css ! (unat s - unat (base + word_of_nat (length cs))))"
      using 2(1) [OF c(3)] 2(3,5) u by simp
    then show ?thesis using False b c(2) e u by (simp add: word_less_nat_alt nth_append not_less diff_diff_left)
  qed
qed (simp_all add: word_le_nat_alt)

lemma segments_end:
  "segments_hold base js css \<Longrightarrow> js \<noteq> [] \<Longrightarrow>
     j_base_sequence (hd js) = base \<and> j_base_sequence (last js) + j_size (last js) = base + word_of_nat (length (concat css))"
proof (induction base js css rule: segments_hold.induct)
  case (2 base j js cs css)
  then show ?case by (cases js; cases css) (auto simp: contents_of_def add.assoc)
qed simp_all

text \<open>
  C12. A journal split into segments is replayed like one journal: where the snapshot point is accepted for a journal that holds
  all commands, replaying segments that hold them piece by piece gives the same result, engine and events.
\<close>

theorem segments_replay_like_one_journal:
  assumes h: "holds_numbered j (concat css)" and g: "segments_hold (j_base_sequence j) (ss_segments ss) css" "ss_segments ss \<noteq> []"
    and f: "replay_start j e s t (length evs) = Inr f"
  shows "replay_journal_segments ss e s t evs = replay_journal j e s t evs"
proof -
  let ?b = "j_base_sequence j" and ?js = "ss_segments ss" and ?cs = "concat css"
  have n: "unat ?b + length ?cs < 2 ^ 64" "numbered_from ?b ?cs" using h by (auto simp: holds_numbered_def)
  note q = replay_start_facts [OF f] and i = start_index [OF h f] and en = segments_end [OF g]
  have nx: "s + 1 = ?b + word_of_nat (unat f)" using q(1) by (simp add: diff_eq_eq add.commute)
  have ends: "\<not> s + 1 < ?b" "\<not> s + 1 > ?b + word_of_nat (length ?cs)"
    using q(2,3) h by (auto simp: not_less holds_numbered_def contents_of_def)
  have bnd: "check_boundary j s t = None" using f by (auto simp: replay_start_def Let_def split: if_splits option.splits)
  have rd: "\<exists>c. read_sequence ?js s = Inr c \<and> sc_logical_time c = t" if "s \<noteq> 0" "?b \<noteq> s + 1"
  proof -
    have r: "?b \<le> s" "s < ?b + j_size j" using bnd that by (auto simp: check_boundary_def Let_def split: if_splits)
    have u: "unat ?b \<le> unat s" "unat s < unat ?b + length ?cs"
      using r holds_size(2) [OF h] by (simp_all add: word_le_nat_alt word_less_nat_alt)
    have "unat (s - ?b) = unat s - unat ?b" using r(1) by (rule unat_minus_base)
    moreover have "unat s - unat ?b < length ?cs" using u by linarith
    ultimately have "journal_read j (s - ?b) = Inr (?cs ! (unat s - unat ?b))" using holds_read [OF h, of "s - ?b"] by simp
    then have "sc_logical_time (?cs ! (unat s - unat ?b)) = t"
      using bnd that(1) r by (auto simp: check_boundary_def Let_def split: if_splits)
    then show ?thesis using read_sequence_holds [OF g(1) n(1) r(1) u(2)] by blast
  qed
  have "s = 0 \<Longrightarrow> ?b = 1" using bnd by (auto simp: check_boundary_def Let_def split: if_splits)
  then have "check_segments ?js e s t (length evs) = None"
    using q g(2) en ends rd f
    by (auto simp: check_segments_def Let_def replay_start_def not_less split: if_splits)
  moreover have "filter (\<lambda>c. \<not> sc_sequence c < s + 1) ?cs = drop (unat f) ?cs"
    unfolding nx by (rule numbered_from_filter [OF n(2,1) i(1)])
  ultimately show ?thesis
    using replay_segments_apply_all [OF g(1), of "s + 1" "(e, evs, empty_result)"] n(1)
    by (simp add: replay_journal_segments_def replay_journal_apply_all [OF h f])
qed

section \<open>A concrete recovery\<close>

definition demo_replay_command :: "u64 \<Rightarrow> u64 \<Rightarrow> sequenced_command" where
  "demo_replay_command n t = \<lparr>sc_payload = payload_submit_market 9 (Valid_Side Buy) 2, sc_sequence = n, sc_logical_time = t\<rparr>"

definition demo_replay_requests :: "(append_results \<times> sequenced_command) list" where
  "demo_replay_requests = [(demo_append True, demo_replay_command 5 9), (demo_append True, demo_replay_command 6 10)]"

definition demo_replay_journal :: "nat \<Rightarrow> journal" where
  "demo_replay_journal n = snd (journal_run demo_journal (take n demo_replay_requests))"

definition demo_replay_engine :: engine where
  "demo_replay_engine = demo_engine\<lparr>se_next_sequence := 5, se_last_logical_time := 8\<rparr>"

lemma append_accepted:
  assumes "append_refused (demo_append True) j c = JE_None" "int64_range (cp_price_ticks (sc_payload c))"
  shows "\<exists>m. journal_append (demo_append True) j c =
    (JE_None, j\<lparr>j_mapping := Some m, j_size := j_size j + 1, j_last_logical_time := sc_logical_time c\<rparr>)"
proof -
  have "validate_command_payload (sc_payload c) = CV_None" using assms(1) by (auto simp: append_refused_def split: if_splits)
  then obtain rec where "prepare_record c = (CC_None, rec)" by (rule committed_record [OF _ assms(2)]) blast
  then show ?thesis using assms(1) by (auto simp: journal_append_def demo_append_def)
qed

lemma demo_replay_command_ok:
  "validate_command_payload (sc_payload (demo_replay_command n t)) = CV_None" "int64_range (cp_price_ticks (sc_payload (demo_replay_command n t)))"
  "sc_sequence (demo_replay_command n t) = n" "sc_logical_time (demo_replay_command n t) = t"
proof -
  have "validate_command_payload (payload_submit_market 9 (Valid_Side Buy) 2) = CV_None" by code_simp
  then show "validate_command_payload (sc_payload (demo_replay_command n t)) = CV_None" by (simp add: demo_replay_command_def)
qed (simp_all add: demo_replay_command_def payload_defs int64_range_def kInt64Min_def kInt64Max_def)

lemma demo_replay_acks:
  "fst (journal_run demo_journal (take 1 demo_replay_requests)) = [demo_replay_command 5 9]"
  "fst (journal_run demo_journal (take 2 demo_replay_requests)) = [demo_replay_command 5 9, demo_replay_command 6 10]"
proof -
  let ?c = "demo_replay_command 5 9" and ?d = "demo_replay_command 6 10" and ?a = "demo_append True"
  have j: "j_base_sequence demo_journal = 5" "j_size demo_journal = 0" "j_capacity demo_journal = 2" "j_owner_pid demo_journal = 7"
    "j_descriptor demo_journal = 3" "\<not> j_writer_poisoned demo_journal" "j_last_logical_time demo_journal = 0" "j_mapping demo_journal \<noteq> None"
    by (simp_all add: demo_journal_def make_journal_def)
  have "append_refused ?a demo_journal ?c = JE_None"
    using j by (auto simp: append_refused_def demo_append_def demo_replay_command_ok)
  from append_accepted [OF this demo_replay_command_ok(2)] obtain m where
    1: "journal_append ?a demo_journal ?c = (JE_None, demo_journal\<lparr>j_mapping := Some m, j_size := 1, j_last_logical_time := 9\<rparr>)"
    by (auto simp: j demo_replay_command_ok)
  let ?j = "demo_journal\<lparr>j_mapping := Some m, j_size := 1, j_last_logical_time := 9\<rparr>"
  have "append_refused ?a ?j ?d = JE_None" using j by (auto simp: append_refused_def demo_append_def demo_replay_command_ok)
  from append_accepted [OF this demo_replay_command_ok(2)] obtain j' where 2: "journal_append ?a ?j ?d = (JE_None, j')" by auto
  show "fst (journal_run demo_journal (take 1 demo_replay_requests)) = [?c]"
    "fst (journal_run demo_journal (take 2 demo_replay_requests)) = [?c, ?d]"
    using 1 2 by (simp_all add: demo_replay_requests_def)
qed

lemma demo_replay_holds:
  assumes "fst (journal_run demo_journal (take n demo_replay_requests)) = cs" "numbered_from 5 cs" "length cs < 100"
  shows "holds_numbered (demo_replay_journal n) cs" "j_base_sequence (demo_replay_journal n) = 5"
proof -
  have r: "\<forall>(a, c) \<in> set (take n demo_replay_requests). int64_range (cp_price_ticks (sc_payload c))"
    by (auto simp: demo_replay_requests_def demo_replay_command_ok dest!: in_set_takeD)
  have run: "journal_run demo_journal (take n demo_replay_requests) = (cs, demo_replay_journal n)"
    using assms(1) by (simp add: demo_replay_journal_def prod_eq_iff)
  obtain ys where b: "j_base_sequence (demo_replay_journal n) = j_base_sequence demo_journal" "journal_inv (demo_replay_journal n) cs ys"
    using journal_run_inv [OF created_inv(1) [OF demo_created] r run] by auto
  then show "j_base_sequence (demo_replay_journal n) = 5" using created_inv(3) [OF demo_created] by simp
  then show "holds_numbered (demo_replay_journal n) cs"
    using inv_contents [OF b(2)] assms(2,3) by (simp add: holds_numbered_def)
qed

lemma add_events_accepted: "list_all accepted_event evs \<Longrightarrow> fst (add_events f evs)"
  by (induction evs arbitrary: f) (auto simp: fingerprint_add_ok)

lemma demo_replay_holds_one:
  "holds_numbered (demo_replay_journal 1) [demo_replay_command 5 9]" "j_base_sequence (demo_replay_journal 1) = 5"
proof -
  have "numbered_from 5 [demo_replay_command 5 9]" by (simp add: numbered_from_Cons demo_replay_command_ok) (simp add: numbered_from_def)
  then show "holds_numbered (demo_replay_journal 1) [demo_replay_command 5 9]" "j_base_sequence (demo_replay_journal 1) = 5"
    by (rule demo_replay_holds [OF demo_replay_acks(1)], simp)+
qed

lemma demo_replay_holds_two:
  "holds_numbered (demo_replay_journal 2) [demo_replay_command 5 9, demo_replay_command 6 10]" "j_base_sequence (demo_replay_journal 2) = 5"
proof -
  have nil: "numbered_from base []" for base by (simp add: numbered_from_def)
  have "numbered_from 5 [demo_replay_command 5 9, demo_replay_command 6 10]" by (simp add: numbered_from_Cons nil demo_replay_command_ok)
  then show "holds_numbered (demo_replay_journal 2) [demo_replay_command 5 9, demo_replay_command 6 10]" "j_base_sequence (demo_replay_journal 2) = 5"
    by (rule demo_replay_holds [OF demo_replay_acks(2)], simp)+
qed

lemma demo_replay_start:
  assumes "holds_numbered j (demo_replay_command 5 9 # cs)" "j_base_sequence j = 5"
  shows "replay_start j demo_replay_engine 4 8 5 = Inr 0"
proof -
  have e: "se_next_sequence demo_replay_engine = 5" "se_last_logical_time demo_replay_engine = 8" "\<not> se_sequence_exhausted demo_replay_engine"
    "maximum_event_capacity demo_replay_engine = 5" by code_simp+
  show ?thesis
    using e assms(2) holds_read [OF assms(1), of 0] holds_size [OF assms(1)]
    by (auto simp: replay_start_def snapshot_matches_def check_boundary_def Let_def demo_replay_command_ok word_less_nat_alt)
qed

text \<open>The same two commands in two files of one record each.\<close>

definition demo_piece :: "u64 \<Rightarrow> u64 \<Rightarrow> journal" where
  "demo_piece n t = snd (journal_append (demo_append True) (make_journal 3 (initial_mapping 144 1 n) 1 n 7) (demo_replay_command n t))"

definition demo_pieces :: "string \<Rightarrow> open_results" where
  "demo_pieces name = demo_open (the (j_mapping (if name = ''p.00000000000000000005.journal'' then demo_piece 5 9 else demo_piece 6 10)))"

lemma demo_piece_inv:
  assumes "n \<in> {5, 6}"
  shows "journal_inv (demo_piece n t) [demo_replay_command n t] [demo_replay_command n t] \<and> j_capacity (demo_piece n t) = 1 \<and> j_base_sequence (demo_piece n t) = n"
proof -
  let ?j = "make_journal 3 (initial_mapping 144 1 n) 1 n 7" and ?c = "demo_replay_command n t"
  have "create_journal demo_create 1 n = Inr ?j"
    using checked_file_size_Some(1) [of 1] assms
    by (auto simp: create_journal_def demo_create_def create_file_def demo_status_def validate_regular_file_def
        acquire_ownership_lock_def kMaximumJournalCapacity_def)
  then have i: "journal_inv ?j [] []" by (rule created_inv)
  have a: "append_refused (demo_append True) ?j ?c = JE_None"
    using assms by (auto simp: append_refused_def demo_append_def make_journal_def demo_replay_command_ok)
  obtain m where "journal_append (demo_append True) ?j ?c =
      (JE_None, ?j\<lparr>j_mapping := Some m, j_size := j_size ?j + 1, j_last_logical_time := sc_logical_time ?c\<rparr>)"
    using append_accepted [OF a demo_replay_command_ok(2)] by blast
  then show ?thesis using append_inv(2) [OF i demo_replay_command_ok(2) a] by (auto simp: demo_piece_def make_journal_def split: prod.splits)
qed

lemma demo_piece_opens:
  assumes "n \<in> {5, 6}"
  obtains j where "open_journal (demo_open (the (j_mapping (demo_piece n t)))) = Inr j" "journal_inv j [demo_replay_command n t] [demo_replay_command n t]"
    "j_capacity j = 1" "j_base_sequence j = n"
proof -
  have s: "checked_file_size 1 = Some (64 + 80 * unat (1 :: u64))" using checked_file_size_Some(1) [of 1] by (simp add: kMaximumJournalCapacity_def)
  obtain m where m: "j_mapping (demo_piece n t) = Some m" "image_holds m (unat (1 :: u64)) n [demo_replay_command n t]" "parse_header (take 64 m) = Some (1, n)"
    using demo_piece_inv [OF assms, of t] by (auto simp: journal_inv_def split: if_splits)
  show thesis by (rule opened_fields [OF demo_opens m(2,3) s]) (use that m(1) in simp)
qed

lemma demo_pieces_open:
  obtains ss where "open_segment_set demo_pieces (Some [''p.00000000000000000006.journal'', ''p.00000000000000000005.journal'']) ''p'' = Inr ss"
    "segments_hold 5 (ss_segments ss) [[demo_replay_command 5 9], [demo_replay_command 6 10]]"
proof -
  obtain j1 j2 where 1: "open_journal (demo_open (the (j_mapping (demo_piece 5 9)))) = Inr j1" "journal_inv j1 [demo_replay_command 5 9] [demo_replay_command 5 9]"
      "j_capacity j1 = 1" "j_base_sequence j1 = 5"
    and 2: "open_journal (demo_open (the (j_mapping (demo_piece 6 10)))) = Inr j2" "journal_inv j2 [demo_replay_command 6 10] [demo_replay_command 6 10]"
      "j_capacity j2 = 1" "j_base_sequence j2 = 6"
    by (rule demo_piece_opens [of 5 9]; rule demo_piece_opens [of 6 10]) auto
  have sz: "j_size j1 = 1" using 1(2) by (simp add: journal_inv_def)
  have f: "open_journal (demo_pieces ''p.00000000000000000005.journal'') = Inr j1" "open_journal (demo_pieces ''p.00000000000000000006.journal'') = Inr j2"
    using 1(1) 2(1) by (simp_all add: demo_pieces_def)
  have "collect_candidates ''p.'' [''p.00000000000000000006.journal'', ''p.00000000000000000005.journal''] [] =
      Inr [(6, ''p.00000000000000000006.journal''), (5, ''p.00000000000000000005.journal'')]" "path_filename ''p'' = ''p''" by code_simp+
  then have "open_segment_set demo_pieces (Some [''p.00000000000000000006.journal'', ''p.00000000000000000005.journal'']) ''p'' =
      Inr \<lparr>ss_paths = [''p.00000000000000000005.journal'', ''p.00000000000000000006.journal''], ss_segments = [j1, j2]\<rparr>"
    by (simp add: open_segment_set_def f 1(3,4) 2(3,4) sz journal_full_def word_le_nat_alt)
  moreover have "segments_hold 5 [j1, j2] [[demo_replay_command 5 9], [demo_replay_command 6 10]]"
    using inv_contents [OF 1(2)] inv_contents [OF 2(2)] 1(4) 2(4) by simp
  ultimately show thesis using that by simp
qed

theorem segments_replay_like_one_journal_witness:
  "\<exists>ss. open_segment_set demo_pieces (Some [''p.00000000000000000006.journal'', ''p.00000000000000000005.journal'']) ''p'' = Inr ss \<and>
     replay_journal_segments ss demo_replay_engine 4 8 (replicate 5 default_event) =
     replay_journal (demo_replay_journal 2) demo_replay_engine 4 8 (replicate 5 default_event)"
proof -
  obtain ss where o: "open_segment_set demo_pieces (Some [''p.00000000000000000006.journal'', ''p.00000000000000000005.journal'']) ''p'' = Inr ss"
    and h: "segments_hold 5 (ss_segments ss) [[demo_replay_command 5 9], [demo_replay_command 6 10]]" by (rule demo_pieces_open)
  have ne: "ss_segments ss \<noteq> []" using h by auto
  have "replay_journal_segments ss demo_replay_engine 4 8 (replicate 5 default_event) =
     replay_journal (demo_replay_journal 2) demo_replay_engine 4 8 (replicate 5 default_event)"
    by (rule segments_replay_like_one_journal [where css = "[[demo_replay_command 5 9], [demo_replay_command 6 10]]" and f = 0])
      (use h ne demo_replay_holds_two demo_replay_start [OF demo_replay_holds_two] in simp_all)
  then show ?thesis using o by blast
qed

lemma demo_replay_runs:
  obtains r e0 evs0 where "replay_journal (demo_replay_journal 1) demo_replay_engine 4 8 (replicate 5 default_event) = ret (Inr r, e0, evs0)"
proof -
  let ?c = "demo_replay_command 5 9" and ?evs = "replicate 5 default_event" and ?j = "demo_replay_journal 1"
  have "case apply_command demo_replay_engine ?c ?evs of Some (Inr (ap, e1, evs1)) \<Rightarrow> ap_status ap = AS_Applied \<and>
      list_all accepted_event (take (ap_event_count ap) evs1) \<and>
      (case check_engine e1 of Some (Inr (fine, e2)) \<Rightarrow> fine | _ \<Rightarrow> False) | _ \<Rightarrow> False"
    by code_simp
  then obtain ap e1 evs1 e2 where ap: "apply_command demo_replay_engine ?c ?evs = ret (ap, e1, evs1)" "ap_status ap = AS_Applied"
    "list_all accepted_event (take (ap_event_count ap) evs1)" "check_engine e1 = ret (True, e2)"
    by (auto simp: ret_def split: option.splits sum.splits)
  have "\<exists>r. replay_command ?c (demo_replay_engine, ?evs, empty_result) = ret (None, e2, evs1, r)"
    using ap add_events_accepted [OF ap(3)] by (auto simp: replay_command_def Let_def split_def)
  then obtain r where r: "replay_command ?c (demo_replay_engine, ?evs, empty_result) = ret (None, e2, evs1, r)" ..
  have e: "se_next_sequence demo_replay_engine = 5" by code_simp
  note h = demo_replay_holds_one
  have "replay_start ?j demo_replay_engine 4 8 (length ?evs) = Inr 0" using demo_replay_start [OF demo_replay_holds_one] by simp
  then show ?thesis
    using that replay_journal_apply_all [OF h(1), of demo_replay_engine 4 8 ?evs 0] r e
    by (simp add: demo_replay_command_ok finished_def)
qed

theorem replay_resumes_witness:
  "\<exists>r e0 evs0. replay_journal (demo_replay_journal 1) demo_replay_engine 4 8 (replicate 5 default_event) = ret (Inr r, e0, evs0) \<and>
     settled (replay_journal (demo_replay_journal 2) demo_replay_engine 4 8 (replicate 5 default_event)) =
     settled (replay_journal (demo_replay_journal 2) e0 5 9 evs0)"
proof -
  obtain r e0 evs0 where r: "replay_journal (demo_replay_journal 1) demo_replay_engine 4 8 (replicate 5 default_event) = ret (Inr r, e0, evs0)"
    by (rule demo_replay_runs)
  have h: "holds_numbered (demo_replay_journal 2) ([demo_replay_command 5 9] @ [demo_replay_command 6 10])" using demo_replay_holds_two by simp
  show ?thesis using replay_resumes [OF demo_replay_holds_one(1) h _ _ r] demo_replay_holds_one(2) demo_replay_holds_two(2) r
    by (auto simp: demo_replay_command_ok)
qed

end
