(* ===== verification/Snapshot.thy ===== *)
theory Snapshot
  imports Book_Check Sequenced_Engine Frames Journal
begin

text \<open>
  Snapshots of the engine (\<^verbatim>\<open>snapshot.hpp\<close>, \<^verbatim>\<open>snapshot.cpp\<close>): the file is a header and one record per arena slot; the price
  levels, the occupancy bitmaps and the ends of the stop queue are not stored but rebuilt from the slots.
  Allocation failures are not modelled; the system calls of saving and loading are parameters.
\<close>

section \<open>Format\<close>

definition kSnapshotFormatVersion :: u32 where
  "kSnapshotFormatVersion = 6"

definition kSnapshotHeaderSize :: nat where
  "kSnapshotHeaderSize = 124"

definition kSnapshotSlotSize :: nat where
  "kSnapshotSlotSize = 96"

definition kMaximumSnapshotSlots :: nat where
  "kMaximumSnapshotSlots = 1000000"

definition kMaximumSnapshotBytes :: nat where
  "kMaximumSnapshotBytes = kSnapshotHeaderSize + kMaximumSnapshotSlots * kSnapshotSlotSize"

definition kLegacySnapshotHeaderSize :: nat where
  "kLegacySnapshotHeaderSize = 112"

definition kChecksumOffset :: nat where
  "kChecksumOffset = 96"

definition kHeaderReservedOffset :: nat where
  "kHeaderReservedOffset = 100"

definition kSnapshotMagic :: "u8 list" where
  "kSnapshotMagic = [77, 69, 83, 78, 65, 80, 52, 0]"

record snapshot_point =
  sp_sequence :: u64
  sp_logical_time :: u64

datatype snapshot_error = SN_None | SN_Invalid_Path | SN_Not_Found | SN_Permission_Denied | SN_Symlink | SN_Not_Regular_File
  | SN_File_Too_Large | SN_Invalid_Length | SN_Invalid_Header | SN_Unsupported_Version | SN_Checksum_Mismatch
  | SN_Price_Level_Limit | SN_Invalid_Configuration | SN_Invalid_Sequence_State | SN_Noncanonical_Slot | SN_Invalid_Slot_Metadata
  | SN_Live_Count_Mismatch | SN_Invalid_Free_List | SN_Invalid_Order | SN_Invalid_Order_Graph | SN_Aggregate_Overflow
  | SN_Crossed_Book | SN_Allocation_Failed | SN_Invalid_State | SN_Io_Error | SN_Commit_Indeterminate | SN_Temp_Collision_Limit

definition snapshot_crc :: "u8 list \<Rightarrow> u32" where
  "snapshot_crc bytes = NOT (foldl crc_byte 0xffffffff (take kChecksumOffset bytes @ drop (kChecksumOffset + 4) bytes))"

definition snapshot_invariant_error :: "invariant_violation \<Rightarrow> snapshot_error" where
  "snapshot_invariant_error v = (case v of
     IV_Aggregate_Overflow \<Rightarrow> SN_Aggregate_Overflow
   | IV_Crossed_Book \<Rightarrow> SN_Crossed_Book
   | IV_Reachable_Count_Mismatch \<Rightarrow> SN_Live_Count_Mismatch
   | IV_None \<Rightarrow> SN_None
   | _ \<Rightarrow> SN_Invalid_Order_Graph)"

text \<open>The numbers of the enumerations of the book's configuration, and the casts back.\<close>

fun policy_code :: "self_trade_policy \<Rightarrow> u32" where
  "policy_code STP_None = 0" | "policy_code STP_Cancel_Taker = 1" | "policy_code (STP_Raw b) = ucast b"

fun allocation_code :: "allocation_mode \<Rightarrow> u32" where
  "allocation_code Fifo = 0" | "allocation_code Threshold_Pro_Rata = 1" | "allocation_code (Allocation_Raw b) = ucast b"

fun trading_code :: "trading_state \<Rightarrow> u32" where
  "trading_code Continuous = 0" | "trading_code Opening_Auction = 1" | "trading_code (Trading_Raw b) = ucast b"

definition policy_of :: "u32 \<Rightarrow> self_trade_policy" where
  "policy_of v = (if v = 0 then STP_None else if v = 1 then STP_Cancel_Taker else STP_Raw (ucast v))"

definition allocation_of :: "u32 \<Rightarrow> allocation_mode" where
  "allocation_of v = (if v = 0 then Fifo else if v = 1 then Threshold_Pro_Rata else Allocation_Raw (ucast v))"

definition trading_of :: "u32 \<Rightarrow> trading_state" where
  "trading_of v = (if v = 0 then Continuous else if v = 1 then Opening_Auction else Trading_Raw (ucast v))"

section \<open>Encoding\<close>

definition point_matches :: "engine \<Rightarrow> snapshot_point \<Rightarrow> bool" where
  "point_matches e p \<longleftrightarrow>
     \<not> (\<not> se_sequence_exhausted e \<and> (sp_sequence p = - 1 \<or> se_next_sequence e \<noteq> sp_sequence p + 1) \<or>
        se_sequence_exhausted e \<and> (sp_sequence p \<noteq> - 1 \<or> se_next_sequence e \<noteq> - 1) \<or>
        sp_logical_time p \<noteq> se_last_logical_time e)"

definition snapshot_size :: "nat \<Rightarrow> nat" where
  "snapshot_size cap = kSnapshotHeaderSize + cap * kSnapshotSlotSize"

text \<open>The writes are those of the source in its order, each at its offset.\<close>

definition write_sized :: "u8 list \<Rightarrow> nat \<Rightarrow> u64 \<Rightarrow> nat \<Rightarrow> u8 list" where
  "write_sized bytes offset value width = (if width = 4 then write_u32 bytes offset (ucast value) else write_u64 bytes offset value)"

definition header_fields :: "engine \<Rightarrow> snapshot_point \<Rightarrow> (nat \<times> nat \<times> u64) list" where
  "header_fields e p = (let b = se_book e in
     [(8, 4, ucast kSnapshotFormatVersion), (12, 4, word_of_nat kSnapshotHeaderSize), (16, 4, word_of_nat kSnapshotSlotSize),
      (20, 4, ucast (policy_code (ob_self_trade_policy b))), (24, 8, word_of_nat (snapshot_size (ar_capacity (ob_arena b)))),
      (32, 8, price_bits (pd_minimum (ob_domain b))), (40, 4, word_of_nat (pd_tick_count (ob_domain b))),
      (44, 4, ob_max_quantity b), (48, 4, word_of_nat (ar_capacity (ob_arena b))), (52, 4, word_of_nat (ar_size (ob_arena b))),
      (56, 4, word_of_nat (ar_free_head (ob_arena b))), (60, 4, if se_sequence_exhausted e then 1 else 0),
      (64, 8, se_next_sequence e), (72, 8, se_last_logical_time e), (80, 8, sp_sequence p), (88, 8, sp_logical_time p),
      (100, 8, price_bits (case ob_last_execution_price b of None \<Rightarrow> 0 | Some x \<Rightarrow> x)),
      (108, 4, if ob_last_execution_price b \<noteq> None then 1 else 0),
      (112, 4, ucast (allocation_code (ob_allocation_mode b))), (116, 4, ob_pro_rata_minimum b),
      (120, 4, ucast (trading_code (ob_trading_state b)))])"

definition slot_fields :: "book \<Rightarrow> nat \<Rightarrow> (nat \<times> nat \<times> u64) list" where
  "slot_fields b index = (let sl = ar_slots (ob_arena b) ! index; ord = sl_order sl in
     [(12, 8, ord_id ord), (20, 8, ord_remaining ord), (28, 4, word_of_nat (ord_prev ord)), (32, 4, word_of_nat (ord_next ord)),
      (36, 4, ucast (ord_encoded ord)), (40, 4, ucast (ord_flags ord)), (48, 8, ob_trader_ids b ! index),
      (56, 8, ob_display_quantities b ! index), (64, 8, ob_displayed_remaining b ! index),
      (72, 8, price_bits (ob_stop_trigger_prices b ! index)), (80, 8, price_bits (ob_stop_limit_prices b ! index)),
      (88, 4, word_of_nat (ob_stop_prev b ! index)), (92, 4, word_of_nat (ob_stop_next b ! index))])"

definition write_fields :: "nat \<Rightarrow> (nat \<times> nat \<times> u64) list \<Rightarrow> u8 list \<Rightarrow> u8 list" where
  "write_fields base fs bytes = foldl (\<lambda>bs (off, width, v). write_sized bs (base + off) v width) bytes fs"

definition encode_slot :: "book \<Rightarrow> u8 list \<Rightarrow> nat \<Rightarrow> u8 list" where
  "encode_slot b bytes index =
     (let sl = ar_slots (ob_arena b) ! index; offset = kSnapshotHeaderSize + index * kSnapshotSlotSize;
          bytes1 = write_u32 bytes offset (sl_generation sl);
          bytes2 = write_u32 bytes1 (offset + 4) (word_of_nat (sl_free_next sl));
          bytes3 = bytes2[offset + 8 := if sl_live sl then 1 else 0]
      in if sl_live sl then write_fields offset (slot_fields b index) bytes3 else bytes3)"

definition encode_bytes :: "engine \<Rightarrow> snapshot_point \<Rightarrow> u8 list" where
  "encode_bytes e p =
     (let b = se_book e; cap = ar_capacity (ob_arena b);
          bytes1 = foldl (\<lambda>bs index. bs[index := kSnapshotMagic ! index]) (replicate (snapshot_size cap) 0) [0..<length kSnapshotMagic];
          bytes2 = write_fields 0 (header_fields e p) bytes1;
          bytes3 = foldl (encode_slot b) bytes2 [0..<cap]
      in write_u32 bytes3 kChecksumOffset (snapshot_crc bytes3))"

text \<open>The check of the book writes its marks, also through the constant reference.\<close>

definition encode_snapshot :: "engine \<Rightarrow> snapshot_point \<Rightarrow> ((snapshot_error + u8 list) \<times> engine) option" where
  "encode_snapshot e p =
     (if ar_capacity (ob_arena (se_book e)) > kMaximumSnapshotSlots then Some (Inl SN_Invalid_State, e)
      else case check_invariants (se_book e) of
             None \<Rightarrow> None
           | Some (r, b) \<Rightarrow> let e1 = e\<lparr>se_book := b\<rparr> in
               if ir_violation r \<noteq> IV_None \<or> \<not> point_matches e1 p then Some (Inl SN_Invalid_State, e1)
               else Some (Inr (encode_bytes e1 p), e1))"

section \<open>Decoding the header\<close>

record snapshot_header =
  sh_version :: u32
  sh_header_size :: nat
  sh_slot_size :: nat
  sh_policy :: u32
  sh_allocation :: u32
  sh_pro_rata_minimum :: u32
  sh_trading_state :: u32
  sh_capacity :: nat
  sh_live_count :: nat
  sh_tick_count :: nat
  sh_max_quantity :: u32
  sh_next_sequence :: u64
  sh_last_time :: u64
  sh_point :: snapshot_point
  sh_exhausted :: u32

definition header_size_of :: "u32 \<Rightarrow> nat" where
  "header_size_of version = (if version = kSnapshotFormatVersion then kSnapshotHeaderSize
     else if version = 5 then 120 else kLegacySnapshotHeaderSize)"

definition slot_size_of :: "u32 \<Rightarrow> nat" where
  "slot_size_of version = (if version = 1 then 48 else if version = 2 then 56 else if version = 3 then 72 else kSnapshotSlotSize)"

definition read_header :: "u8 list \<Rightarrow> snapshot_header" where
  "read_header bytes = (let version = read_u32 bytes 8 in
     \<lparr>sh_version = version, sh_header_size = header_size_of version, sh_slot_size = slot_size_of version,
      sh_policy = read_u32 bytes 20, sh_allocation = (if version < 5 then 0 else read_u32 bytes 112),
      sh_pro_rata_minimum = (if version < 5 then 0 else read_u32 bytes 116),
      sh_trading_state = (if version < 6 then 0 else read_u32 bytes 120),
      sh_capacity = unat (read_u32 bytes 48), sh_live_count = unat (read_u32 bytes 52), sh_tick_count = unat (read_u32 bytes 40),
      sh_max_quantity = read_u32 bytes 44, sh_next_sequence = read_u64 bytes 64, sh_last_time = read_u64 bytes 72,
      sh_point = \<lparr>sp_sequence = read_u64 bytes 80, sp_logical_time = read_u64 bytes 88\<rparr>, sh_exhausted = read_u32 bytes 60\<rparr>)"

definition header_malformed :: "u8 list \<Rightarrow> snapshot_header \<Rightarrow> bool" where
  "header_malformed bytes h \<longleftrightarrow>
     unat (read_u32 bytes 12) \<noteq> sh_header_size h \<or> unat (read_u32 bytes 16) \<noteq> sh_slot_size h \<or>
     sh_version h = 1 \<and> sh_policy h \<noteq> 0 \<or> sh_version h \<ge> 2 \<and> sh_policy h > 1 \<or>
     sh_version h < 4 \<and> \<not> is_zero (subspan bytes kHeaderReservedOffset (kLegacySnapshotHeaderSize - kHeaderReservedOffset)) \<or>
     sh_version h \<ge> 4 \<and> (read_u32 bytes 108 > 1 \<or> read_u32 bytes 108 = 0 \<and> read_u64 bytes 100 \<noteq> 0) \<or>
     sh_allocation h > 1 \<or> sh_trading_state h > 1"

definition configuration_invalid :: "snapshot_header \<Rightarrow> bool" where
  "configuration_invalid h \<longleftrightarrow> sh_max_quantity h = 0 \<or> sh_allocation h = 0 \<and> sh_pro_rata_minimum h \<noteq> 0 \<or>
     sh_allocation h = 1 \<and> (sh_pro_rata_minimum h = 0 \<or> sh_pro_rata_minimum h > sh_max_quantity h)"

definition sequence_invalid :: "snapshot_header \<Rightarrow> bool" where
  "sequence_invalid h \<longleftrightarrow> sh_next_sequence h = 0 \<or> sh_exhausted h > 1 \<or> sp_logical_time (sh_point h) \<noteq> sh_last_time h \<or>
     sh_exhausted h = 0 \<and> (sp_sequence (sh_point h) = - 1 \<or> sh_next_sequence h \<noteq> sp_sequence (sh_point h) + 1) \<or>
     sh_exhausted h = 1 \<and> (sp_sequence (sh_point h) \<noteq> - 1 \<or> sh_next_sequence h \<noteq> - 1)"

definition parse_snapshot_header :: "u8 list \<Rightarrow> snapshot_error + snapshot_header" where
  "parse_snapshot_header bytes =
     (if length bytes < kLegacySnapshotHeaderSize then Inl SN_Invalid_Length
      else if take (length kSnapshotMagic) bytes \<noteq> kSnapshotMagic then Inl SN_Invalid_Header
      else if read_u32 bytes 8 \<notin> {1, 2, 3, 4, 5, kSnapshotFormatVersion} then Inl SN_Unsupported_Version
      else if length bytes < header_size_of (read_u32 bytes 8) then Inl SN_Invalid_Length
      else let h = read_header bytes; expected = sh_header_size h + sh_capacity h * sh_slot_size h
      in if header_malformed bytes h then Inl SN_Invalid_Header
         else if sh_capacity h > kMaximumSnapshotSlots \<or> sh_capacity h > (2 ^ 64 - 1 - sh_header_size h) div sh_slot_size h
         then Inl SN_File_Too_Large
         else if length bytes \<noteq> expected \<or> unat (read_u64 bytes 24) \<noteq> expected then Inl SN_Invalid_Length
         else if snapshot_crc bytes \<noteq> read_u32 bytes kChecksumOffset then Inl SN_Checksum_Mismatch
         else if sh_tick_count h = 0 \<or> sh_tick_count h > kMaximumPriceLevels then Inl SN_Price_Level_Limit
         else if sh_live_count h > sh_capacity h then Inl SN_Live_Count_Mismatch
         else if configuration_invalid h then Inl SN_Invalid_Configuration
         else if sequence_invalid h then Inl SN_Invalid_Sequence_State
         else Inr h)"

section \<open>Rebuilding the book\<close>

definition empty_engine :: "u8 list \<Rightarrow> snapshot_header \<Rightarrow> cpp_exception + engine" where
  "empty_engine bytes h =
     sum_bind (make_price_domain (bits_price (read_u64 bytes 32)) (sh_tick_count h)) (\<lambda>d.
     sum_bind (make_engine d (sh_capacity h) (ucast (sh_max_quantity h)) (sh_next_sequence h) (sh_last_time h)
                 (policy_of (sh_policy h)) (allocation_of (sh_allocation h)) (ucast (sh_pro_rata_minimum h)) (trading_of (sh_trading_state h)))
       (\<lambda>e. Inr (e\<lparr>se_sequence_exhausted := (sh_exhausted h = 1),
              se_book := (se_book e)\<lparr>ob_last_execution_price :=
                  (if sh_version h \<ge> 4 \<and> read_u32 bytes 108 = 1 then Some (bits_price (read_u64 bytes 100)) else None),
                ob_arena := (ob_arena (se_book e))\<lparr>ar_size := sh_live_count h, ar_free_head := unat (read_u32 bytes 56)\<rparr>\<rparr>\<rparr>)))"

definition set_slot :: "book \<Rightarrow> nat \<Rightarrow> slot \<Rightarrow> book" where
  "set_slot b index sl = b\<lparr>ob_arena := (ob_arena b)\<lparr>ar_slots := (ar_slots (ob_arena b))[index := sl]\<rparr>\<rparr>"

definition read_order :: "u8 list \<Rightarrow> nat \<Rightarrow> order" where
  "read_order bytes offset = \<lparr>ord_id = read_u64 bytes (offset + 12), ord_remaining = read_u64 bytes (offset + 20),
     ord_prev = unat (read_u32 bytes (offset + 28)), ord_next = unat (read_u32 bytes (offset + 32)),
     ord_encoded = read_u32 bytes (offset + 36), ord_flags = read_u32 bytes (offset + 40)\<rparr>"

definition cleared_order :: order where
  "cleared_order = \<lparr>ord_id = 0, ord_remaining = 0, ord_prev = 0, ord_next = 0, ord_encoded = 0, ord_flags = 0\<rparr>"

text \<open>The arrays beside the arena, with the defaults of the older versions.\<close>

definition read_arrays :: "u8 list \<Rightarrow> u32 \<Rightarrow> nat \<Rightarrow> nat \<Rightarrow> book \<Rightarrow> book" where
  "read_arrays bytes version offset index b = (let remaining = read_u64 bytes (offset + 20) in b\<lparr>
     ob_trader_ids := (ob_trader_ids b)[index := if version = 1 then 0 else read_u64 bytes (offset + 48)],
     ob_display_quantities := (ob_display_quantities b)[index := if version < 3 then remaining else read_u64 bytes (offset + 56)],
     ob_displayed_remaining := (ob_displayed_remaining b)[index := if version < 3 then remaining else read_u64 bytes (offset + 64)],
     ob_stop_trigger_prices := (ob_stop_trigger_prices b)[index := if version < 4 then 0 else bits_price (read_u64 bytes (offset + 72))],
     ob_stop_limit_prices := (ob_stop_limit_prices b)[index := if version < 4 then 0 else bits_price (read_u64 bytes (offset + 80))],
     ob_stop_prev := (ob_stop_prev b)[index := if version < 4 then 0 else unat (read_u32 bytes (offset + 88))],
     ob_stop_next := (ob_stop_next b)[index := if version < 4 then 0 else unat (read_u32 bytes (offset + 92))]\<rparr>)"

definition link_out_of_range :: "nat \<Rightarrow> nat \<Rightarrow> bool" where
  "link_out_of_range cap link \<longleftrightarrow> link \<noteq> kInvalidIndex \<and> link \<ge> cap"

definition stop_invalid :: "snapshot_header \<Rightarrow> book \<Rightarrow> nat \<Rightarrow> bool" where
  "stop_invalid h b index \<longleftrightarrow> (let ord = bk_order b index in
     sh_version h < 4 \<or> ord_flags ord AND NOT (kOrderFlagDormantStop OR kOrderFlagStopMarket) \<noteq> 0 \<or>
     ord_remaining ord = 0 \<or> ord_remaining ord > ucast (sh_max_quantity h) \<or>
     ord_prev ord \<noteq> kInvalidIndex \<or> ord_next ord \<noteq> kInvalidIndex \<or> decode_level (ord_encoded ord) \<noteq> 0 \<or>
     ob_trader_ids b ! index \<noteq> 0 \<or> ob_display_quantities b ! index \<noteq> 0 \<or> ob_displayed_remaining b ! index \<noteq> 0 \<or>
     is_stop_market ord \<and> ob_stop_limit_prices b ! index \<noteq> 0 \<or>
     link_out_of_range (sh_capacity h) (ob_stop_prev b ! index) \<or> link_out_of_range (sh_capacity h) (ob_stop_next b ! index))"

definition add_stop :: "book \<Rightarrow> nat \<Rightarrow> snapshot_error + book" where
  "add_stop b index =
     (if ob_stop_prev b ! index = kInvalidIndex \<and> ob_stop_head b \<noteq> kInvalidIndex then Inl SN_Invalid_Order_Graph
      else let b1 = (if ob_stop_prev b ! index = kInvalidIndex then b\<lparr>ob_stop_head := index\<rparr> else b)
      in if ob_stop_next b1 ! index = kInvalidIndex \<and> ob_stop_tail b1 \<noteq> kInvalidIndex then Inl SN_Invalid_Order_Graph
      else let b2 = (if ob_stop_next b1 ! index = kInvalidIndex then b1\<lparr>ob_stop_tail := index\<rparr> else b1)
      in Inr (b2\<lparr>ob_dormant_stop_count := ob_dormant_stop_count b2 + 1\<rparr>))"

definition active_invalid :: "snapshot_header \<Rightarrow> book \<Rightarrow> nat \<Rightarrow> bool" where
  "active_invalid h b index \<longleftrightarrow> (let ord = bk_order b index in
     ord_remaining ord = 0 \<or> ord_remaining ord > ucast (sh_max_quantity h) \<or>
     ob_display_quantities b ! index = 0 \<or> ob_displayed_remaining b ! index = 0 \<or>
     ob_displayed_remaining b ! index > ob_display_quantities b ! index \<or>
     ob_displayed_remaining b ! index > ord_remaining ord \<or>
     decode_level (ord_encoded ord) \<ge> sh_tick_count h \<or> ord_flags ord \<noteq> 0 \<or>
     sh_version h \<ge> 4 \<and> (ob_stop_trigger_prices b ! index \<noteq> 0 \<or> ob_stop_limit_prices b ! index \<noteq> 0 \<or>
       ob_stop_prev b ! index \<noteq> 0 \<or> ob_stop_next b ! index \<noteq> 0))"

definition add_active :: "book \<Rightarrow> nat \<Rightarrow> snapshot_error + book" where
  "add_active b index =
     (let ord = bk_order b index; s = decode_side (ord_encoded ord); l = decode_level (ord_encoded ord); pl = level b s l
      in if pl_aggregate pl > - 1 - ord_remaining ord then Inl SN_Aggregate_Overflow
         else if ord_prev ord = kInvalidIndex \<and> pl_head pl \<noteq> kInvalidIndex then Inl SN_Invalid_Order_Graph
         else if ord_next ord = kInvalidIndex \<and> pl_tail pl \<noteq> kInvalidIndex then Inl SN_Invalid_Order_Graph
         else let b1 = upd_level b s l (\<lambda>pl. pl\<lparr>pl_aggregate := pl_aggregate pl + ord_remaining ord, pl_count := pl_count pl + 1,
                pl_head := (if ord_prev ord = kInvalidIndex then index else pl_head pl),
                pl_tail := (if ord_next ord = kInvalidIndex then index else pl_tail pl)\<rparr>)
         in Inr (set_occupancy b1 s (snd (bm_set (occupancy b1 s) l))))"

definition decode_live_slot :: "snapshot_header \<Rightarrow> book \<Rightarrow> nat \<Rightarrow> snapshot_error + book" where
  "decode_live_slot h b index = (let ord = bk_order b index in
     if is_dormant ord then (if stop_invalid h b index then Inl SN_Invalid_Order else add_stop b index)
     else if link_out_of_range (sh_capacity h) (ord_prev ord) \<or> link_out_of_range (sh_capacity h) (ord_next ord)
     then Inl SN_Invalid_Order_Graph
     else if active_invalid h b index then Inl SN_Invalid_Order
     else add_active b index)"

text \<open>One slot; the count is that of the live slots seen.\<close>

definition decode_slot :: "u8 list \<Rightarrow> snapshot_header \<Rightarrow> nat \<Rightarrow> book \<times> nat \<Rightarrow> snapshot_error + book \<times> nat" where
  "decode_slot bytes h index st = (case st of (b, observed_live) \<Rightarrow>
     let offset = sh_header_size h + index * sh_slot_size h; live = bytes ! (offset + 8);
         sl = \<lparr>sl_order = (if live = 1 then read_order bytes offset else cleared_order), sl_generation = read_u32 bytes offset,
               sl_free_next = unat (read_u32 bytes (offset + 4)), sl_live = (live = 1)\<rparr>
     in if live > 1 \<or> \<not> is_zero (subspan bytes (offset + 9) 3) then Inl SN_Noncanonical_Slot
        else if sl_generation sl = 0 then Inl SN_Invalid_Slot_Metadata
        else if live = 0 then
          (if \<not> is_zero (subspan bytes (offset + 12) (sh_slot_size h - 12)) then Inl SN_Noncanonical_Slot
           else Inr (set_slot b index sl, observed_live))
        else sum_bind (decode_live_slot h (read_arrays bytes (sh_version h) offset index (set_slot b index sl)) index)
               (\<lambda>b1. Inr (b1, observed_live + 1)))"

fun decode_slots :: "u8 list \<Rightarrow> snapshot_header \<Rightarrow> nat list \<Rightarrow> book \<times> nat \<Rightarrow> snapshot_error + book \<times> nat" where
  "decode_slots bytes h [] st = Inr st"
| "decode_slots bytes h (index # is) st = sum_bind (decode_slot bytes h index st) (decode_slots bytes h is)"

partial_function (option) walk_free_list :: "arena \<Rightarrow> nat \<Rightarrow> bool list \<Rightarrow> nat \<Rightarrow> (snapshot_error + bool list \<times> nat) option" where
  [code]: "walk_free_list a current free_seen free_count =
     (if current = kInvalidIndex then Some (Inr (free_seen, free_count))
      else if current \<ge> ar_capacity a \<or> sl_live (ar_slots a ! current) \<or> free_seen ! current then Some (Inl SN_Invalid_Free_List)
      else walk_free_list a (sl_free_next (ar_slots a ! current)) (free_seen[current := True]) (free_count + 1))"

definition check_free_list :: "arena \<Rightarrow> nat \<Rightarrow> snapshot_error option" where
  "check_free_list a live_count =
     (case walk_free_list a (ar_free_head a) (replicate (ar_capacity a) False) 0 of
        None \<Rightarrow> None
      | Some (Inl err) \<Rightarrow> Some err
      | Some (Inr (free_seen, free_count)) \<Rightarrow>
          if free_count \<noteq> ar_capacity a - live_count then Some SN_Invalid_Free_List
          else if \<exists>index \<in> set [0..<ar_capacity a]. \<not> sl_live (ar_slots a ! index) \<and> \<not> free_seen ! index then Some SN_Invalid_Free_List
          else Some SN_None)"

definition decode_book :: "u8 list \<Rightarrow> snapshot_header \<Rightarrow> book \<Rightarrow> (snapshot_error + book) option" where
  "decode_book bytes h b0 =
     (case decode_slots bytes h [0..<sh_capacity h] (b0, 0) of
        Inl err \<Rightarrow> Some (Inl err)
      | Inr (b, observed_live) \<Rightarrow>
          if observed_live \<noteq> sh_live_count h then Some (Inl SN_Live_Count_Mismatch)
          else case check_free_list (ob_arena b) (sh_live_count h) of
                 None \<Rightarrow> None
               | Some err \<Rightarrow>
                   if err \<noteq> SN_None then Some (Inl err)
                   else case check_invariants b of
                          None \<Rightarrow> None
                        | Some (r, b1) \<Rightarrow>
                            if ir_violation r \<noteq> IV_None then Some (Inl (snapshot_invariant_error (ir_violation r))) else Some (Inr b1))"

definition decode_snapshot :: "u8 list \<Rightarrow> (snapshot_error + engine \<times> snapshot_point) option" where
  "decode_snapshot bytes = (case parse_snapshot_header bytes of
     Inl err \<Rightarrow> Some (Inl err)
   | Inr h \<Rightarrow> (case empty_engine bytes h of
       Inl _ \<Rightarrow> Some (Inl SN_Invalid_Configuration)
     | Inr e \<Rightarrow> (case decode_book bytes h (se_book e) of
         None \<Rightarrow> None
       | Some (Inl err) \<Rightarrow> Some (Inl err)
       | Some (Inr b) \<Rightarrow> Some (Inr (e\<lparr>se_book := b\<rparr>, sh_point h)))))"

end
