(* ===== verification/Compaction.thy ===== *)
theory Compaction
  imports Replay_Properties Snapshot
begin

text \<open>
  Deleting the journal segments a snapshot has made obsolete (\<^verbatim>\<open>compact_journal_segments\<close> of \<^verbatim>\<open>replay.cpp\<close>).  The result says how many of
  the first segments were deleted and which empty successor was created, so that the segments left on disk are known on every path.
\<close>

datatype journal_compaction_error = JC_None | JC_Snapshot | JC_Journal_Set | JC_Snapshot_Before_Retained_History
  | JC_Snapshot_Ahead_Of_Journal | JC_Io_Error | JC_Commit_Indeterminate

fun journal_compaction_error_message :: "journal_compaction_error \<Rightarrow> string" where
  "journal_compaction_error_message JC_None = ''none''"
| "journal_compaction_error_message JC_Snapshot = ''snapshot failed validation''"
| "journal_compaction_error_message JC_Journal_Set = ''journal segments failed validation''"
| "journal_compaction_error_message JC_Snapshot_Before_Retained_History = ''snapshot predates retained journal history''"
| "journal_compaction_error_message JC_Snapshot_Ahead_Of_Journal = ''snapshot is ahead of journal history''"
| "journal_compaction_error_message JC_Io_Error = ''journal compaction I/O error''"
| "journal_compaction_error_message JC_Commit_Indeterminate = ''journal compaction durability is indeterminate''"

record compact_results =
  co_create :: create_results
  co_close :: "nat \<Rightarrow> close_results"
  co_remove :: "nat \<Rightarrow> bool"
  co_successor_close :: close_results
  co_parent :: bool
  co_fsync :: bool
  co_parent_close :: bool

fun obsolete_count :: "u64 \<Rightarrow> journal list \<Rightarrow> nat" where
  "obsolete_count snapshot_next [] = 0"
| "obsolete_count snapshot_next (segment # segments) =
     (if j_size segment = 0 \<or> j_base_sequence segment + j_size segment > snapshot_next then 0
      else Suc (obsolete_count snapshot_next segments))"

text \<open>The loop that closes and deletes; whether it got through, and how many files are gone.\<close>

fun delete_segments :: "compact_results \<Rightarrow> nat \<Rightarrow> journal list \<Rightarrow> bool \<times> nat" where
  "delete_segments r index [] = (True, index)"
| "delete_segments r index (segment # segments) =
     (if fst (journal_close (co_close r index) segment) \<noteq> JE_None then (False, index)
      else if \<not> co_remove r index then (False, index)
      else delete_segments r (index + 1) segments)"

definition sync_parent :: "compact_results \<Rightarrow> journal_compaction_error" where
  "sync_parent r = (if \<not> co_parent r \<or> \<not> co_fsync r \<or> \<not> co_parent_close r then JC_Commit_Indeterminate else JC_None)"

text \<open>The empty segment that takes over when all are obsolete.\<close>

definition make_successor :: "compact_results \<Rightarrow> string \<Rightarrow> u64 \<Rightarrow> u64 \<Rightarrow> journal option" where
  "make_successor r path_prefix cap snapshot_next =
     (case segment_path path_prefix snapshot_next of
        Inl _ \<Rightarrow> None
      | Inr _ \<Rightarrow> (case create_journal (co_create r) cap snapshot_next of Inl _ \<Rightarrow> None | Inr j \<Rightarrow> Some j))"

definition delete_obsolete :: "compact_results \<Rightarrow> nat \<Rightarrow> journal list \<Rightarrow> journal option \<Rightarrow> journal_compaction_error \<times> nat \<times> journal option" where
  "delete_obsolete r obsolete segments successor =
     (let (ok, removed) = delete_segments r 0 (take obsolete segments)
      in if \<not> ok then (JC_Io_Error, removed, successor)
         else if (case successor of None \<Rightarrow> False | Some j \<Rightarrow> fst (journal_close (co_successor_close r) j) \<noteq> JE_None)
         then (JC_Io_Error, removed, successor)
         else (sync_parent r, removed, successor))"

definition compact_journal_segments :: "compact_results \<Rightarrow> string \<Rightarrow> snapshot_error + engine \<times> snapshot_point \<Rightarrow>
    journal_set_error + segment_set \<Rightarrow> journal_compaction_error \<times> nat \<times> journal option" where
  "compact_journal_segments r path_prefix snapshot journals =
     (case snapshot of
        Inl _ \<Rightarrow> (JC_Snapshot, 0, None)
      | Inr (_, point) \<Rightarrow>
          if sp_sequence point = - 1 then (JC_Snapshot, 0, None)
          else case journals of
            Inl _ \<Rightarrow> (JC_Journal_Set, 0, None)
          | Inr segment_set \<Rightarrow>
              let snapshot_next = sp_sequence point + 1;
                  segments = ss_segments segment_set;
                  first_base = j_base_sequence (hd segments);
                  journal_end = j_base_sequence (last segments) + j_size (last segments);
                  obsolete = obsolete_count snapshot_next segments
              in if snapshot_next < first_base then (JC_Snapshot_Before_Retained_History, 0, None)
                 else if snapshot_next > journal_end then (JC_Snapshot_Ahead_Of_Journal, 0, None)
                 else if obsolete = 0 then (JC_None, 0, None)
                 else if obsolete = length segments then
                   (case make_successor r path_prefix (j_capacity (last segments)) snapshot_next of
                      None \<Rightarrow> (JC_Io_Error, 0, None)
                    | Some j \<Rightarrow> delete_obsolete r obsolete segments (Some j))
                 else delete_obsolete r obsolete segments None)"

section \<open>What is left\<close>

definition remaining_segments :: "journal list \<Rightarrow> nat \<Rightarrow> journal option \<Rightarrow> journal list" where
  "remaining_segments segments removed successor = drop removed segments @ (case successor of None \<Rightarrow> [] | Some j \<Rightarrow> [j])"

lemma delete_segments_bound: "delete_segments r index segments = (ok, removed) \<Longrightarrow> index \<le> removed \<and> removed \<le> index + length segments"
  by (induction r index segments rule: delete_segments.induct) (auto split: if_splits)

lemma obsolete_count_le: "obsolete_count n segments \<le> length segments"
  by (induction segments) auto

lemma obsolete_ends:
  assumes "segments_hold base js css" "unat base + length (concat css) < 2 ^ 64" "k \<le> obsolete_count n js"
  shows "unat base + length (concat (take k css)) \<le> max (unat base) (unat n)"
  using assms
proof (induction base js css arbitrary: k rule: segments_hold.induct)
  case (2 base j js cs css)
  show ?case
  proof (cases k)
    case (Suc k')
    have u: "unat (base + word_of_nat (length cs)) = unat base + length cs" using 2(3) by (intro unat_plus_of_nat) simp
    have o: "j_base_sequence j + j_size j \<le> n" "k' \<le> obsolete_count n js" using 2(4) Suc by (auto split: if_splits)
    have e: "unat base + length cs \<le> unat n" using o(1) 2(2) u by (simp add: word_le_nat_alt contents_of_def)
    have "unat base + length cs + length (concat (take k' css)) \<le> max (unat base + length cs) (unat n)"
      using 2(1) [of k'] 2(2,3) o(2) u by simp
    then show ?thesis using Suc e by simp
  qed simp
qed simp_all

end
