(* ===== verification/Segment_Directory.thy ===== *)
theory Segment_Directory
  imports Segment_Properties Replay_Properties
begin

text \<open>
  Segments as files of a directory: the name of a segment and its parse are inverse, the segments that open are
  exactly those whose headers link, and a set of files with the same bytes opens to the same journal.
\<close>

section \<open>Segment names\<close>

lemma digits_value_snoc: "digits_value (ds @ [c]) = 10 * digits_value ds + (of_char c - 48)"
  by (simp add: digits_value_def)

lemma digits_value_zeros: "digits_value (replicate k (CHR ''0'') @ ds) = digits_value ds"
  by (induction k) (simp_all add: digits_value_def)

lemma digit_char: "k < 10 \<Longrightarrow> of_char (char_of (48 + k) :: char) = (48 + k :: nat)"
  by simp

lemma decimal_digits: "list_all is_digit (decimal n) \<and> digits_value (decimal n) = n \<and> decimal n \<noteq> []"
proof (induction n rule: decimal.induct)
  case (1 n)
  show ?case
  proof (cases "n < 10")
    case True
    then show ?thesis using digit_char [of n] by (subst (1 2 3) decimal.simps) (simp add: is_digit_def digits_value_def)
  next
    case False
    have d: "n mod 10 < 10" by simp
    have "is_digit (char_of (48 + n mod 10))" using digit_char [OF d] d unfolding is_digit_def by simp
    then show ?thesis using 1 False digit_char [OF d] by (subst (1 2 3) decimal.simps) (simp add: digits_value_snoc)
  qed
qed

lemma decimal_length: "n < 10 ^ Suc k \<Longrightarrow> length (decimal n) \<le> Suc k"
proof (induction k arbitrary: n)
  case 0
  then show ?case by (subst decimal.simps) simp
next
  case (Suc k)
  have "n div 10 < 10 ^ Suc k" using Suc.prems by (simp add: less_mult_imp_div_less)
  then show ?case using Suc.IH [of "n div 10"] by (subst decimal.simps) simp
qed

lemma digits_value_inj:
  "length xs = length ys \<Longrightarrow> list_all is_digit xs \<Longrightarrow> list_all is_digit ys \<Longrightarrow> digits_value xs = digits_value ys \<Longrightarrow> xs = ys"
proof (induction xs arbitrary: ys rule: rev_induct)
  case (snoc c xs)
  then obtain ys' c' where ys: "ys = ys' @ [c']" by (cases ys rule: rev_cases) auto
  have d: "48 \<le> (of_char c :: nat)" "(of_char c :: nat) \<le> 57" "48 \<le> (of_char c' :: nat)" "(of_char c' :: nat) \<le> 57"
    using snoc.prems ys by (auto simp: is_digit_def)
  have v: "10 * digits_value xs + (of_char c - 48) = 10 * digits_value ys' + (of_char c' - 48)"
    using snoc.prems(4) ys by (simp add: digits_value_snoc)
  have "digits_value xs = digits_value ys'" "(of_char c :: nat) = of_char c'" using v d by presburger+
  then show ?case using snoc ys by simp
qed simp

definition successor_name :: "string \<Rightarrow> u64 \<Rightarrow> string" where
  "successor_name path_prefix base = (case segment_path path_prefix base of Inl _ \<Rightarrow> [] | Inr path \<Rightarrow> path_filename path)"

lemma path_filename_append:
  assumes "CHR ''/'' \<notin> set ys" shows "path_filename (xs @ ys) = path_filename xs @ ys"
proof -
  have "takeWhile (\<lambda>c. c \<noteq> CHR ''/'') (rev ys @ rev xs) = rev ys @ takeWhile (\<lambda>c. c \<noteq> CHR ''/'') (rev xs)"
    using assms by (intro takeWhile_append2) auto
  then show ?thesis by (simp add: path_filename_def)
qed

lemma successor_name_parses:
  assumes "pre \<noteq> []" "base \<noteq> 0"
  shows "parse_segment_name (path_filename pre @ ''.'') (successor_name pre base) = Inr (Some base)"
proof -
  define ds where "ds = replicate (20 - length (decimal (unat base))) (CHR ''0'') @ decimal (unat base)"
  note d = decimal_digits [of "unat base"]
  have lt: "unat base < 2 ^ 64" by (rule order.strict_trans2 [OF unsigned_less]) simp
  then have "unat base < 10 ^ Suc 19" by (rule order.strict_trans2) simp
  then have len: "length ds = 20" using decimal_length [of "unat base" 19] by (simp add: ds_def)
  have "list_all is_digit (replicate k (CHR ''0''))" for k by (simp add: list_all_iff is_digit_def)
  then have dig: "list_all is_digit ds" using d by (simp add: ds_def)
  have val: "digits_value ds = unat base" using d by (simp add: ds_def digits_value_zeros)
  have fc: "from_chars ds = Some base" using dig val len lt by (auto simp: from_chars_def)
  have "CHR ''/'' \<notin> set (''.'' @ ds @ ''.journal'')" using dig by (auto simp: list_all_iff is_digit_def)
  from path_filename_append [OF this, of pre]
  have name: "successor_name pre base = (path_filename pre @ ''.'') @ ds @ ''.journal''"
    using assms by (simp add: successor_name_def segment_path_def Let_def ds_def)
  show ?thesis unfolding name parse_segment_name_def
    using fc len assms(2) by (simp add: starts_with_def ends_with_def)
qed

lemma parse_determines_name:
  assumes "parse_segment_name np a = Inr (Some base)" "parse_segment_name np b = Inr (Some base)"
  shows "a = b"
proof -
  have shape: "\<exists>ds. name = np @ ds @ ''.journal'' \<and> length ds = 20 \<and> list_all is_digit ds \<and> digits_value ds < 2 ^ 64 \<and> base = word_of_nat (digits_value ds)"
    if p: "parse_segment_name np name = Inr (Some base)" for name
  proof -
    let ?ds = "take 20 (drop (length np) name)"
    have c: "take (length np) name = np" "drop (length name - length ''.journal'') name = ''.journal''" "length name = length np + 28"
      "from_chars ?ds = Some base"
      using p by (auto simp: parse_segment_name_def starts_with_def ends_with_def Let_def split: if_splits option.splits)
    have "name = take (length np) name @ ?ds @ drop (length np + 20) name"
      by (metis append_take_drop_id drop_drop add.commute)
    moreover have "length name - length ''.journal'' = length np + 20" using c(3) by simp
    then have "drop (length np + 20) name = ''.journal''" using c(2) by metis
    moreover have "length ?ds = 20" using c(3) by simp
    ultimately show ?thesis using c(1,4) by (intro exI [of _ ?ds]) (auto simp: from_chars_def split: if_splits)
  qed
  obtain xs ys where x: "a = np @ xs @ ''.journal''" "length xs = 20" "list_all is_digit xs" "digits_value xs < 2 ^ 64" "base = word_of_nat (digits_value xs)"
    and y: "b = np @ ys @ ''.journal''" "length ys = 20" "list_all is_digit ys" "digits_value ys < 2 ^ 64" "base = word_of_nat (digits_value ys)"
    using shape [OF assms(1)] shape [OF assms(2)] by blast
  have "digits_value xs = digits_value ys" using x(4,5) y(4,5) by (metis unat_of_nat_u64)
  then show ?thesis using digits_value_inj [of xs ys] x y by simp
qed

section \<open>The candidates of a directory\<close>

definition listed :: "string \<Rightarrow> string list \<Rightarrow> (u64 \<times> string) set" where
  "listed np names = {(b, n). n \<in> set names \<and> parse_segment_name np n = Inr (Some b)}"

lemma collect_candidates_Inr:
  "collect_candidates np names acc = Inr cs \<Longrightarrow>
     (\<forall>n \<in> set names. \<not> isl (parse_segment_name np n)) \<and> set cs = set acc \<union> listed np names \<and>
     (distinct acc \<and> distinct names \<and> set (map snd acc) \<inter> set names = {} \<longrightarrow> distinct cs)"
proof (induction np names acc arbitrary: cs rule: collect_candidates.induct)
  case (2 np name names acc)
  show ?case
  proof (cases "parse_segment_name np name")
    case (Inr r)
    show ?thesis
    proof (cases r)
      case None
      then have "listed np (name # names) = listed np names" using Inr by (auto simp: listed_def)
      then show ?thesis using 2(1) [OF Inr None] 2(3) Inr None by auto
    next
      case (Some b)
      have "listed np (name # names) = insert (b, name) (listed np names)" using Inr Some by (auto simp: listed_def)
      moreover have "(b, name) \<in> set acc \<Longrightarrow> name \<in> snd ` set acc" by force
      ultimately show ?thesis using 2(2) [OF Inr Some] 2(3) Inr Some by auto
    qed
  qed (use 2 in simp)
qed (simp add: listed_def)

lemma collect_candidates_total:
  "\<forall>n \<in> set names. \<not> isl (parse_segment_name np n) \<Longrightarrow> \<exists>cs. collect_candidates np names acc = Inr cs"
  by (induction np names acc rule: collect_candidates.induct) (auto simp: isl_def split: sum.splits option.splits)

lemma listed_inj: "inj_on fst (listed np names)"
  by (auto simp: inj_on_def listed_def dest: parse_determines_name)

text \<open>The sorted candidates are the one ordered enumeration of the listed segments.\<close>

lemma candidates_unique:
  assumes "collect_candidates np names [] = Inr cs" "distinct names" "set ys = listed np names" "distinct ys" "sorted (map fst ys)"
  shows "sort_key fst cs = ys"
proof -
  have c: "set cs = listed np names" "distinct cs" using collect_candidates_Inr [OF assms(1)] assms(2) by simp_all
  show ?thesis
  proof (rule map_sorted_distinct_set_unique [of fst])
    show "inj_on fst (set (sort_key fst cs) \<union> set ys)" using c(1) assms(3) listed_inj [of np names] by simp
    show "distinct (map fst (sort_key fst cs))" "distinct (map fst ys)"
      using c assms(3,4) listed_inj [of np names] by (auto simp: distinct_map)
  qed (use c(1) assms(3,5) in simp_all)
qed

section \<open>Linked segments\<close>

definition segment_link :: "journal \<Rightarrow> journal \<Rightarrow> bool" where
  "segment_link a b \<longleftrightarrow> journal_full a \<and> j_base_sequence b = j_base_sequence a + j_size a"

definition opens_as :: "(string \<Rightarrow> open_results) \<Rightarrow> u64 \<times> string \<Rightarrow> journal \<Rightarrow> bool" where
  "opens_as files c j \<longleftrightarrow> open_journal (files (snd c)) = Inr j \<and> j_base_sequence j = fst c"

lemma open_segments_Inr:
  "open_segments files cands set0 = Inr s \<Longrightarrow> successively segment_link (ss_segments set0) \<Longrightarrow>
     \<exists>js. list_all2 (opens_as files) cands js \<and> successively segment_link (ss_segments set0 @ js) \<and>
       s = \<lparr>ss_paths = ss_paths set0 @ map snd cands, ss_segments = ss_segments set0 @ js\<rparr>"
proof (induction files cands set0 rule: open_segments.induct)
  case (2 files named_base path cands set0)
  obtain j where j: "open_journal (files path) = Inr j" using "2.prems"(1) by (auto split: sum.splits)
  let ?last = "last (ss_segments set0)" and ?set = "\<lparr>ss_paths = ss_paths set0 @ [path], ss_segments = ss_segments set0 @ [j]\<rparr>"
  have c: "j_base_sequence j = named_base" "\<not> (ss_segments set0 \<noteq> [] \<and> \<not> journal_full ?last)"
    "\<not> (ss_segments set0 \<noteq> [] \<and> named_base < j_base_sequence ?last + j_size ?last)"
    "\<not> (ss_segments set0 \<noteq> [] \<and> named_base > j_base_sequence ?last + j_size ?last)" "open_segments files cands ?set = Inr s"
    using "2.prems"(1) unfolding open_segments.simps j sum.case by (simp_all split: if_splits)
  have "ss_segments set0 \<noteq> [] \<Longrightarrow> segment_link ?last j" using c by (auto simp: segment_link_def)
  then have l: "successively segment_link (ss_segments ?set)" using "2.prems"(2) by (auto simp: successively_append_iff)
  obtain js where "list_all2 (opens_as files) cands js" "successively segment_link (ss_segments ?set @ js)"
    "s = \<lparr>ss_paths = ss_paths ?set @ map snd cands, ss_segments = ss_segments ?set @ js\<rparr>"
    using "2.IH" [of j, OF j _ _ _ _ c(5) l] c(1-4) by auto
  moreover have "opens_as files (named_base, path) j" using j c(1) by (simp add: opens_as_def)
  ultimately show ?case by (intro exI [of _ "j # js"]) simp
qed simp

lemma open_segments_linked:
  "list_all2 (opens_as files) cands js \<Longrightarrow> successively segment_link (ss_segments set0 @ js) \<Longrightarrow>
     open_segments files cands set0 = Inr \<lparr>ss_paths = ss_paths set0 @ map snd cands, ss_segments = ss_segments set0 @ js\<rparr>"
proof (induction cands js arbitrary: set0 rule: list_all2_induct)
  case (Cons c cands j js)
  obtain b p where c: "c = (b, p)" by fastforce
  let ?set = "\<lparr>ss_paths = ss_paths set0 @ [p], ss_segments = ss_segments set0 @ [j]\<rparr>"
  have "ss_segments set0 = [] \<or> segment_link (last (ss_segments set0)) j"
    using Cons.prems by (auto simp: successively_append_iff)
  moreover have "successively segment_link (ss_segments ?set @ js)" using Cons.prems by simp
  ultimately show ?case using Cons.IH [of ?set] Cons.hyps c by (auto simp: opens_as_def segment_link_def)
qed simp

lemma open_segments_append:
  "open_segments files (xs @ ys) set0 = (case open_segments files xs set0 of Inl e \<Rightarrow> Inl e | Inr s \<Rightarrow> open_segments files ys s)"
  by (induction files xs set0 rule: open_segments.induct) (auto split: sum.split)

lemma open_segment_set_Inr:
  assumes "open_segment_set files (Some names) pre = Inr ss"
  obtains cs js where "collect_candidates (path_filename pre @ ''.'') names [] = Inr cs" "list_all2 (opens_as files) (sort_key fst cs) js"
    "successively segment_link js" "ss = \<lparr>ss_paths = map snd (sort_key fst cs), ss_segments = js\<rparr>" "js \<noteq> []"
    "pre \<noteq> []" "path_filename pre \<noteq> []" "path_filename pre \<noteq> ''.''" "path_filename pre \<noteq> ''..''"
proof -
  obtain cs where c: "collect_candidates (path_filename pre @ ''.'') names [] = Inr cs" "cs \<noteq> []"
    "open_segments files (sort_key fst cs) \<lparr>ss_paths = [], ss_segments = []\<rparr> = Inr ss"
    "pre \<noteq> []" "path_filename pre \<noteq> []" "path_filename pre \<noteq> ''.''" "path_filename pre \<noteq> ''..''"
    using assms by (auto simp: open_segment_set_def Let_def split: if_splits sum.splits)
  obtain js where j: "list_all2 (opens_as files) (sort_key fst cs) js" "successively segment_link js"
    "ss = \<lparr>ss_paths = map snd (sort_key fst cs), ss_segments = js\<rparr>"
    using open_segments_Inr [OF c(3)] by auto
  have "js \<noteq> []" using list_all2_lengthD [OF j(1)] c(2) by auto
  then show thesis using that [OF c(1) j] c(4-7) by blast
qed

section \<open>What linked segments hold\<close>

abbreviation holds_all :: "journal list \<Rightarrow> sequenced_command list list \<Rightarrow> bool" where
  "holds_all \<equiv> list_all2 (\<lambda>j cs. journal_inv j cs cs)"

lemma linked_hold:
  "holds_all js css \<Longrightarrow> successively segment_link js \<Longrightarrow> js \<noteq> [] \<Longrightarrow> segments_hold (j_base_sequence (hd js)) js css"
proof (induction js css rule: list_all2_induct)
  case (Cons j js cs css)
  have c: "contents_of j cs" by (rule inv_contents [OF Cons.hyps(1)])
  show ?case
  proof (cases "js = []")
    case True
    then show ?thesis using Cons.hyps(2) c by simp
  next
    case False
    then have "j_base_sequence (hd js) = j_base_sequence j + j_size j" "successively segment_link js"
      using Cons.prems(1) by (auto simp: successively_Cons segment_link_def)
    then show ?thesis using Cons.IH False c by (simp add: contents_of_def)
  qed
qed simp

lemma hold_numbered: "segments_hold base js css \<Longrightarrow> holds_all js css \<Longrightarrow> numbered base (concat css)"
proof (induction base js css rule: segments_hold.induct)
  case (2 base j js cs css)
  have "numbered base cs" using 2 inv_numbered(1) [of j cs cs] by (simp add: numbered_def)
  then show ?case using 2 numbered_append [of base cs "concat css"] by simp
qed (simp_all add: numbered_def)

lemma numbered_iff: "numbered base cs \<longleftrightarrow> numbered_from base cs"
proof -
  have "numbered base cs \<longleftrightarrow> (\<forall>i < length cs. map sc_sequence cs ! i = map (\<lambda>i. base + word_of_nat i) [0..<length cs] ! i)"
    unfolding numbered_def list_eq_iff_nth_eq by simp
  then show ?thesis by (simp add: numbered_from_def)
qed

lemma inv_room:
  assumes "journal_inv j cs xs"
  shows "j_base_sequence j \<noteq> 0" "unat (j_base_sequence j) + length cs \<le> 2 ^ 64" "unat (j_size j) = length cs"
proof -
  let ?b = "j_base_sequence j" and ?c = "j_capacity j"
  obtain m where m: "image_holds m (unat ?c) ?b xs" "parse_header (take 64 m) = Some (?c, ?b)" using assms by (auto simp: journal_inv_def)
  have p: "?b \<noteq> 0" "?c \<noteq> 0" "?c - 1 \<le> - 1 - ?b" using m(2) by (auto simp: parse_header_def Let_def split: if_splits)
  show "?b \<noteq> 0" by (rule p(1))
  have l: "length cs \<le> unat ?c" "unat ?c \<le> 1000000"
    using m(1) assms by (auto simp: image_holds_def journal_inv_def split: if_splits)
  have "?b \<le> - 1" by simp
  then have "unat (- 1 - ?b) = unat (- 1 :: u64) - unat ?b" by (rule unat_sub)
  moreover have "unat (?c - 1) = unat ?c - 1" using p(2) unat_sub [of 1 ?c] by (simp add: word_le_nat_alt unat_eq_0 Suc_le_eq unat_gt_0)
  moreover have "unat (- 1 :: u64) = 2 ^ 64 - 1" by (simp add: unsigned_minus_1_eq_mask mask_eq_exp_minus_1)
  ultimately have "unat ?c - 1 \<le> 2 ^ 64 - 1 - unat ?b" using p(3) by (simp add: word_le_nat_alt)
  moreover have "unat ?b < 2 ^ 64" by (rule order.strict_trans2 [OF unsigned_less]) simp
  ultimately show "unat ?b + length cs \<le> 2 ^ 64" using l by linarith
  show "unat (j_size j) = length cs" using assms l by (simp add: journal_inv_def unat_of_nat_u64)
qed

lemma of_nat_2p_u64: "word_of_nat (2 ^ 64) = (0 :: u64)"
  by simp

lemma hold_fits:
  "segments_hold base js css \<Longrightarrow> holds_all js css \<Longrightarrow> js \<noteq> [] \<Longrightarrow> unat base + length (concat css) \<le> 2 ^ 64"
proof (induction base js css rule: segments_hold.induct)
  case (2 base j js cs css)
  have b: "j_base_sequence j = base" "journal_inv j cs cs" using "2.prems" by simp_all
  note r = inv_room [OF b(2)]
  show ?case
  proof (cases js)
    case Nil
    then show ?thesis using 2 r(2) b(1) by (cases css) simp_all
  next
    case (Cons j' js')
    then obtain cs' css' where c: "css = cs' # css'" "j_base_sequence j' = base + word_of_nat (length cs)" "journal_inv j' cs' cs'"
      using "2.prems" by (cases css) auto
    have "base + word_of_nat (length cs) \<noteq> 0" using inv_room(1) [OF c(3)] c(2) by simp
    moreover have "base + word_of_nat (length cs) = word_of_nat (unat base + length cs)" by simp
    ultimately have "unat base + length cs \<noteq> 2 ^ 64" by (metis of_nat_2p_u64)
    then have "unat (base + word_of_nat (length cs)) = unat base + length cs" using r(2) b(1) by (intro unat_plus_of_nat) simp
    then show ?thesis using 2 Cons by simp
  qed
qed simp_all

section \<open>Reopening\<close>

definition same_segment :: "journal \<Rightarrow> journal \<Rightarrow> bool" where
  "same_segment j j' \<longleftrightarrow> j_base_sequence j' = j_base_sequence j \<and> j_capacity j' = j_capacity j \<and> j_size j' = j_size j"

lemma opens_contents:
  assumes "list_all2 (opens_as files) cands js" "\<And>path. honest (files path)"
  shows "\<exists>css. holds_all js css"
  using assms(1)
proof (induction rule: list_all2_induct)
  case (Cons c cands j js)
  then obtain css where "holds_all js css" by blast
  moreover obtain cs where "journal_inv j cs cs"
    using open_journal_sound [of "files (snd c)" j] Cons.hyps(1) assms(2) by (auto simp: opens_as_def)
  ultimately show ?case by (intro exI [of _ "cs # css"]) simp
qed simp

lemma reopen_one:
  assumes "open_journal r = Inr j" "honest r" "opens r' (or_file r)"
  obtains j' cs where "open_journal r' = Inr j'" "journal_inv j cs cs" "journal_inv j' cs cs" "same_segment j j'"
proof -
  obtain d cap base cs where o: "image_holds (or_file r) (unat cap) base cs" "parse_header (take 64 (or_file r)) = Some (cap, base)"
    "checked_file_size cap = Some (64 + 80 * unat cap)"
    "j = (make_journal d (or_file r) cap base (or_pid r))\<lparr>j_size := word_of_nat (length cs), j_last_logical_time := last_time cs\<rparr>"
    by (rule open_journal_fields [OF assms(1,2)])
  have "cap \<noteq> 0" using o(3) by (auto simp: checked_file_size_def)
  then have i: "journal_inv j cs cs" unfolding o(4) using o(1,2) by (simp add: journal_inv_def make_journal_def)
  obtain j' where j': "open_journal r' = Inr j'" "journal_inv j' cs cs" "j_capacity j' = cap" "j_base_sequence j' = base"
    by (rule opened_fields [OF assms(3) o(1-3)])
  have "same_segment j j'" using j'(2-4) i o(4) by (simp add: same_segment_def make_journal_def journal_inv_def)
  then show thesis using that j' i by blast
qed

lemma reopen_all:
  assumes "list_all2 (opens_as files) cands js" "\<And>path. honest (files path)"
    "\<And>path. path \<in> set (map snd cands) \<Longrightarrow> opens (files' path) (or_file (files path))"
  shows "\<exists>js' css. list_all2 (opens_as files') cands js' \<and> holds_all js css \<and> holds_all js' css \<and> list_all2 same_segment js js'"
  using assms(1,3)
proof (induction rule: list_all2_induct)
  case (Cons c cands j js)
  then obtain js' css where js': "list_all2 (opens_as files') cands js'" "holds_all js css" "holds_all js' css" "list_all2 same_segment js js'" by auto
  obtain j' cs where "open_journal (files' (snd c)) = Inr j'" "journal_inv j cs cs" "journal_inv j' cs cs" "same_segment j j'"
    by (rule reopen_one [of "files (snd c)" j "files' (snd c)"]) (use Cons assms(2) in \<open>auto simp: opens_as_def\<close>)
  moreover from this have "opens_as files' c j'" using Cons.hyps(1) by (simp add: opens_as_def same_segment_def)
  ultimately show ?case using js' by (intro exI [of _ "j' # js'"] exI [of _ "cs # css"]) simp
qed simp

lemma same_hold:
  "segments_hold base js css \<Longrightarrow> list_all2 same_segment js js' \<Longrightarrow> holds_all js' css \<Longrightarrow> segments_hold base js' css"
proof (induction base js css arbitrary: js' rule: segments_hold.induct)
  case (2 base j js cs css)
  then show ?case by (auto simp: list_all2_Cons1 same_segment_def intro: inv_contents)
qed simp_all

lemma same_linked: "list_all2 same_segment js js' \<Longrightarrow> successively segment_link js' \<longleftrightarrow> successively segment_link js"
proof (induction js js' rule: list_all2_induct)
  case (Cons j js j' js')
  show ?case
  proof (cases js)
    case (Cons k ks)
    then obtain k' ks' where "js' = k' # ks'" "same_segment k k'" using Cons.hyps(2) by (auto simp: list_all2_Cons1)
    then show ?thesis using Cons.IH Cons.hyps(1) Cons
      by (auto simp: segment_link_def same_segment_def journal_full_def)
  qed (use Cons.hyps(2) in simp)
qed simp

end
