(* ===== verification/Compaction_Properties.thy ===== *)
theory Compaction_Properties
  imports Compaction Segment_Directory
begin

text \<open>
  Compaction deletes nothing that recovery needs: whatever the system calls return, the files that are left open as a set of
  segments whose replay from the snapshot gives what replay over all segments gave, with one exception: a compaction that is
  interrupted while its last segment is partly filled leaves a set that does not open.
\<close>

section \<open>Pieces of a journal\<close>

lemma segments_hold_drop:
  "segments_hold base js css \<Longrightarrow> k \<le> length js \<Longrightarrow>
     segments_hold (base + word_of_nat (length (concat (take k css)))) (drop k js) (drop k css)"
proof (induction base js css arbitrary: k rule: segments_hold.induct)
  case (2 base j js cs css)
  then show ?case by (cases k) (auto simp: add.assoc)
qed simp_all

lemma segments_hold_snoc:
  "segments_hold base js css \<Longrightarrow> contents_of j [] \<Longrightarrow> j_base_sequence j = base + word_of_nat (length (concat css)) \<Longrightarrow>
     segments_hold base (js @ [j]) (css @ [[]])"
  by (induction base js css rule: segments_hold.induct) (auto simp: add.assoc)

lemma segments_hold_length: "segments_hold base js css \<Longrightarrow> length css = length js"
  by (induction base js css rule: segments_hold.induct) auto

section \<open>Replay of the rest\<close>

text \<open>The segments \<open>js'\<close> hold what is left of the journal in \<open>js\<close> without its first \<open>k\<close> records.\<close>

definition journal_rest :: "u64 \<Rightarrow> journal list \<Rightarrow> sequenced_command list list \<Rightarrow> nat \<Rightarrow> journal list \<Rightarrow> sequenced_command list list \<Rightarrow> bool" where
  "journal_rest base js css k js' css' \<longleftrightarrow>
     segments_hold base js css \<and> js \<noteq> [] \<and> numbered_from base (concat css) \<and> unat base + length (concat css) < 2 ^ 64 \<and>
     segments_hold (base + word_of_nat k) js' css' \<and> js' \<noteq> [] \<and> concat css' = drop k (concat css) \<and> k \<le> length (concat css)"

lemma journal_restD:
  assumes "journal_rest base js css k js' css'"
  shows "segments_hold base js css" "js \<noteq> []" "numbered_from base (concat css)" "unat base + length (concat css) < 2 ^ 64"
    "segments_hold (base + word_of_nat k) js' css'" "js' \<noteq> []" "concat css' = drop k (concat css)" "k \<le> length (concat css)"
    "unat (base + word_of_nat k) = unat base + k" "length (concat css') = length (concat css) - k"
proof -
  show r: "segments_hold base js css" "js \<noteq> []" "numbered_from base (concat css)" "unat base + length (concat css) < 2 ^ 64"
    "segments_hold (base + word_of_nat k) js' css'" "js' \<noteq> []" "concat css' = drop k (concat css)" "k \<le> length (concat css)"
    using assms by (auto simp: journal_rest_def)
  show "unat (base + word_of_nat k) = unat base + k" using r(4,8) by (intro unat_plus_of_nat) simp
  show "length (concat css') = length (concat css) - k" using r(7) by simp
qed

lemma rest_ends:
  assumes jr: "journal_rest base js css k js' css'"
  shows "j_base_sequence (hd js') = base + word_of_nat k" "j_base_sequence (last js') + j_size (last js') = base + word_of_nat (length (concat css))"
  "j_base_sequence (hd js) = base" "j_base_sequence (last js) + j_size (last js) = base + word_of_nat (length (concat css))"
  using segments_end [OF journal_restD(5,6) [OF jr]] segments_end [OF journal_restD(1,2) [OF jr]] journal_restD(8,10) [OF jr] by (auto simp: add.assoc of_nat_diff)

lemma rest_read:
  assumes jr: "journal_rest base js css k js' css'"
    and "base + word_of_nat k \<le> s" "unat s < unat base + length (concat css)"
  shows "read_sequence js' s = read_sequence js s"
proof -
  note whole = journal_restD(1-4) [OF jr] and rest = journal_restD(5-8) [OF jr] and rest_base = journal_restD(9) [OF jr] and rest_length = journal_restD(10) [OF jr]
  have b: "unat base + k \<le> unat s" using assms(2) rest_base by (simp add: word_le_nat_alt)
  have "read_sequence js' s = Inr (concat css' ! (unat s - unat (base + word_of_nat k)))"
    using read_sequence_holds [OF rest(1) _ assms(2)] assms(3) whole(4) rest_length rest_base rest(4) b by simp
  also have "\<dots> = Inr (concat css ! (unat s - unat base))"
    unfolding rest(3) rest_base using b rest(4) by simp
  also have "\<dots> = read_sequence js s"
    using read_sequence_holds [OF whole(1,4) _ assms(3)] b by (simp add: word_le_nat_alt)
  finally show ?thesis .
qed

lemma rest_check:
  assumes jr: "journal_rest base js css k js' css'"
    and acc: "check_segments js e s t n = None" and k: "unat base + k \<le> unat s + 1" and z: "s = 0 \<Longrightarrow> k = 0"
  shows "check_segments js' e s t n = None"
proof -
  note whole = journal_restD(1-4) [OF jr] and rest = journal_restD(5-8) [OF jr] and rest_base = journal_restD(9) [OF jr] and rest_length = journal_restD(10) [OF jr]
  have s: "s \<noteq> - 1" using acc by (auto simp: check_segments_def)
  have u: "unat (s + 1) = unat s + 1" using s by (metis unat_suc_u64)
  have e: "\<not> base + word_of_nat (length (concat css)) < s + 1"
    using acc rest_ends [OF jr] by (auto simp: check_segments_def Let_def split: if_splits)
  have l: "unat s < unat base + length (concat css)"
  proof -
    have "unat (base + word_of_nat (length (concat css))) = unat base + length (concat css)" using whole(4) by (intro unat_plus_of_nat) simp
    then show ?thesis using e u by (simp add: word_less_nat_alt)
  qed
  have b: "\<not> s + 1 < base + word_of_nat k" using k u rest_base by (simp add: word_less_nat_alt)
  have rd: "read_sequence js' s = read_sequence js s \<and> base \<noteq> s + 1" if "base + word_of_nat k \<noteq> s + 1"
  proof -
    have "unat (base + word_of_nat k) \<noteq> unat (s + 1)" using that by (simp add: word_unat_eq_iff)
    then have "base + word_of_nat k \<le> s" using k u rest_base by (simp add: word_le_nat_alt)
    moreover from this have "base \<noteq> s + 1" using rest_base u by (auto simp: word_le_nat_alt)
    ultimately show ?thesis using rest_read [OF jr _ l] by simp
  qed
  show ?thesis
    using acc rest(2) whole(2) rest_ends [OF jr] e b rd z
    by (auto simp: check_segments_def Let_def split: if_splits sum.splits)
qed

lemma rest_replay:
  assumes jr: "journal_rest base js css k js' css'"
    and acc: "check_segments js e s t (length evs) = None" and k: "unat base + k \<le> unat s + 1" and z: "s = 0 \<Longrightarrow> k = 0"
  shows "replay_journal_segments (ss\<lparr>ss_segments := js'\<rparr>) e s t evs = replay_journal_segments (ss'\<lparr>ss_segments := js\<rparr>) e s t evs"
proof -
  note whole = journal_restD(1-4) [OF jr] and rest = journal_restD(5-8) [OF jr] and rest_base = journal_restD(9) [OF jr] and rest_length = journal_restD(10) [OF jr]
  have s: "s \<noteq> - 1" using acc by (auto simp: check_segments_def)
  have u: "unat (s + 1) = unat s + 1" using s by (metis unat_suc_u64)
  have "sc_sequence c < s + 1" if c: "c \<in> set (take k (concat css))" for c
  proof -
    obtain i where "i < length (take k (concat css))" "take k (concat css) ! i = c" using c unfolding in_set_conv_nth by blast
    then have i: "i < k" "c = concat css ! i" by auto
    then have "unat (sc_sequence c) = unat base + i"
      using whole(3,4) rest(4) by (auto simp: numbered_from_def intro!: unat_plus_of_nat)
    then show ?thesis using i(1) k u by (simp add: word_less_nat_alt)
  qed
  then have "filter (\<lambda>c. \<not> sc_sequence c < s + 1) (take k (concat css) @ drop k (concat css)) = filter (\<lambda>c. \<not> sc_sequence c < s + 1) (drop k (concat css))"
    unfolding filter_append by (simp add: filter_empty_conv)
  then have f: "filter (\<lambda>c. \<not> sc_sequence c < s + 1) (concat css) = filter (\<lambda>c. \<not> sc_sequence c < s + 1) (concat css')" by (simp add: rest(3))
  have "replay_segments (s + 1) js' st = replay_segments (s + 1) js st" for st
    using replay_segments_apply_all [OF rest(1), of "s + 1" st] replay_segments_apply_all [OF whole(1), of "s + 1" st] whole(4) rest_length f by simp
  then show ?thesis using acc rest_check [OF jr acc k z] by (simp add: replay_journal_segments_def)
qed


section \<open>Compaction\<close>

lemma obsolete_after: "obsolete_count n (drop (obsolete_count n js) js) = 0"
  by (induction js) auto

lemma obsolete_append_empty: "obsolete_count n js = 0 \<Longrightarrow> j_size j = 0 \<Longrightarrow> obsolete_count n (js @ [j]) = 0"
  by (cases js) (auto split: if_splits)

lemma delete_all: "delete_segments r i js = (True, removed) \<Longrightarrow> removed = i + length js"
  by (induction r i js rule: delete_segments.induct) (auto split: if_splits)

lemma made_successor:
  assumes "make_successor r pre cap n = Some j"
  shows "contents_of j []" "j_base_sequence j = n" "j_size j = 0" "journal_inv j [] []"
    "checked_file_size (j_capacity j) = Some (64 + 80 * unat (j_capacity j))"
proof -
  have c: "create_journal (co_create r) cap n = Inr j" using assms by (auto simp: make_successor_def split: sum.splits)
  show x: "contents_of j []" by (rule inv_contents [OF created_inv(1) [OF c]])
  show "j_base_sequence j = n" by (rule created_inv(3) [OF c])
  show "j_size j = 0" using x by (simp add: contents_of_def)
  show "journal_inv j [] []" by (rule created_inv(1) [OF c])
  show "checked_file_size (j_capacity j) = Some (64 + 80 * unat (j_capacity j))" using created_inv(2,4) [OF c] by simp
qed

text \<open>What a compaction did, on every path: a prefix of the obsolete segments is gone, and a successor exists only when all were obsolete.\<close>

lemma compact_outcome:
  assumes "compact_journal_segments r pre (Inr (e, p)) (Inr ss) = (err, removed, succ)"
  defines "n \<equiv> sp_sequence p + 1" and "js \<equiv> ss_segments ss"
  shows "removed \<le> obsolete_count n js"
    and "succ = None \<Longrightarrow> removed = 0 \<or> obsolete_count n js < length js"
    and "succ = Some j \<Longrightarrow> contents_of j [] \<and> j_base_sequence j = n \<and> j_size j = 0 \<and> obsolete_count n js = length js \<and>
      \<not> n > j_base_sequence (last js) + j_size (last js) \<and> journal_inv j [] [] \<and>
      checked_file_size (j_capacity j) = Some (64 + 80 * unat (j_capacity j))"
    and "err = JC_None \<Longrightarrow> removed = obsolete_count n js"
proof -
  have d: "y \<le> k" "z = succ'" "x = JC_None \<Longrightarrow> y = k" if "delete_obsolete r k js succ' = (x, y, z)" "k = obsolete_count n js" for k succ' x y z
  proof -
    obtain ok m where m: "delete_segments r 0 (take k js) = (ok, m)" by (cases "delete_segments r 0 (take k js)")
    have k: "length (take k js) = k" using obsolete_count_le [of n js] that(2) by simp
    have "m \<le> k" using delete_segments_bound [OF m] k by simp
    then show "y \<le> k" "z = succ'" using that(1) m by (auto simp: delete_obsolete_def split: if_splits)
    show "x = JC_None \<Longrightarrow> y = k" using that(1) m delete_all [of r 0 "take k js" m] k by (auto simp: delete_obsolete_def split: if_splits)
  qed
  have c: "compact_journal_segments r pre (Inr (e, p)) (Inr ss) =
    (if sp_sequence p = - 1 then (JC_Snapshot, 0, None)
     else if n < j_base_sequence (hd js) then (JC_Snapshot_Before_Retained_History, 0, None)
     else if n > j_base_sequence (last js) + j_size (last js) then (JC_Snapshot_Ahead_Of_Journal, 0, None)
     else if obsolete_count n js = 0 then (JC_None, 0, None)
     else if obsolete_count n js = length js then (case make_successor r pre (j_capacity (last js)) n of
         None \<Rightarrow> (JC_Io_Error, 0, None) | Some j \<Rightarrow> delete_obsolete r (obsolete_count n js) js (Some j))
     else delete_obsolete r (obsolete_count n js) js None)"
    unfolding compact_journal_segments_def Let_def n_def js_def by simp
  note c' = assms(1) [unfolded c] and lt = obsolete_count_le [of n js]
  show "removed \<le> obsolete_count n js" using c' d(1) [OF _ refl] by (auto split: if_splits option.splits)
  show "succ = None \<Longrightarrow> removed = 0 \<or> obsolete_count n js < length js"
    using c' d(2) [OF _ refl] lt by (fastforce split: if_splits option.splits)
  show "succ = Some j \<Longrightarrow> contents_of j [] \<and> j_base_sequence j = n \<and> j_size j = 0 \<and> obsolete_count n js = length js \<and>
      \<not> n > j_base_sequence (last js) + j_size (last js) \<and> journal_inv j [] [] \<and>
      checked_file_size (j_capacity j) = Some (64 + 80 * unat (j_capacity j))"
    using c' d(2) [OF _ refl] made_successor [of r pre "j_capacity (last js)" n] by (fastforce split: if_splits option.splits)
  show "err = JC_None \<Longrightarrow> removed = obsolete_count n js" using c' d(3) [OF _ refl] by (auto split: if_splits option.splits)
qed


lemma remaining_rest:
  assumes h: "segments_hold base js css" "js \<noteq> []" "numbered_from base (concat css)" "unat base + length (concat css) < 2 ^ 64"
    and m: "m \<le> obsolete_count n js" "succ = None \<Longrightarrow> m = 0 \<or> obsolete_count n js < length js"
      "\<And>j. succ = Some j \<Longrightarrow> contents_of j [] \<and> j_base_sequence j = base + word_of_nat (length (concat css))"
  shows "journal_rest base js css (length (concat (take m css))) (remaining_segments js m succ)
    (drop m css @ (case succ of None \<Rightarrow> [] | Some j \<Rightarrow> [[]]))"
proof -
  let ?k = "length (concat (take m css))" and ?tail = "case succ of None \<Rightarrow> [] | Some j \<Rightarrow> [[]]"
  have m': "m \<le> length js" using m(1) obsolete_count_le [of n js] by simp
  have split: "concat css = concat (take m css) @ concat (drop m css)" by (metis append_take_drop_id concat_append)
  have d: "segments_hold (base + word_of_nat ?k) (drop m js) (drop m css)" by (rule segments_hold_drop [OF h(1) m'])
  have "segments_hold (base + word_of_nat ?k) (remaining_segments js m succ) (drop m css @ ?tail)"
  proof (cases succ)
    case (Some j)
    have "j_base_sequence j = base + word_of_nat ?k + word_of_nat (length (concat (drop m css)))"
      using m(3) [OF Some] split by (simp add: add.assoc flip: of_nat_add)
    then show ?thesis using segments_hold_snoc [OF d, of j] m(3) [OF Some] Some by (simp add: remaining_segments_def)
  qed (use d in \<open>simp add: remaining_segments_def\<close>)
  moreover have "remaining_segments js m succ \<noteq> []"
    using m(1,2) h(2) by (cases succ) (auto simp: remaining_segments_def)
  moreover have "concat (drop m css @ ?tail) = drop ?k (concat css)" using split by (cases succ) (simp_all add: append_eq_conv_conj)
  moreover have "?k \<le> length (concat css)" using split by (metis le_add1 length_append)
  ultimately show ?thesis using h unfolding journal_rest_def by blast
qed

lemma obsolete_zero:
  assumes "segments_hold base js css" "base \<noteq> 0" "unat base + length (concat css) < 2 ^ 64" shows "obsolete_count 1 js = 0"
proof (cases js)
  case (Cons j js')
  then obtain cs css' where c: "css = cs # css'" using assms(1) by (cases css) auto
  have j: "j_base_sequence j = base" "j_size j = word_of_nat (length cs)" using assms(1) Cons c by (auto simp: contents_of_def)
  have "unat (base + word_of_nat (length cs)) = unat base + length cs" using assms(3) c by (intro unat_plus_of_nat) simp
  moreover have "0 < unat base" using assms(2) by (simp add: unat_gt_0)
  ultimately have "cs = [] \<or> base + word_of_nat (length cs) > 1" by (cases cs) (auto simp: word_less_nat_alt)
  then show ?thesis using Cons j by auto
qed simp

text \<open>The replay over what is left, as the segments stand in memory.\<close>

lemma remaining_replay:
  assumes h: "segments_hold base (ss_segments ss) css" "ss_segments ss \<noteq> []" "numbered_from base (concat css)" "unat base + length (concat css) < 2 ^ 64"
      "base \<noteq> 0"
    and acc: "check_segments (ss_segments ss) e s t (length evs) = None"
    and co: "compact_journal_segments r pre (Inr (e0, \<lparr>sp_sequence = s, sp_logical_time = t\<rparr>)) (Inr ss) = (err, removed, succ)"
  defines "k \<equiv> length (concat (take removed css))"
  shows "journal_rest base (ss_segments ss) css k (remaining_segments (ss_segments ss) removed succ)
      (drop removed css @ (case succ of None \<Rightarrow> [] | Some j \<Rightarrow> [[]]))"
    and "succ \<noteq> None \<Longrightarrow> s + 1 = base + word_of_nat (length (concat css))"
    and "unat base + k \<le> unat s + 1" and "s = 0 \<Longrightarrow> k = 0"
    and "err = JC_None \<Longrightarrow> obsolete_count (s + 1) (remaining_segments (ss_segments ss) removed succ) = 0"
proof -
  let ?js = "ss_segments ss"
  note c = compact_outcome [OF co, simplified]
  have s: "s \<noteq> - 1" using acc by (auto simp: check_segments_def)
  have u: "unat (s + 1) = unat s + 1" using s by (metis unat_suc_u64)
  have en: "j_base_sequence (hd ?js) = base" "j_base_sequence (last ?js) + j_size (last ?js) = base + word_of_nat (length (concat css))"
    using segments_end [OF h(1,2)] by auto
  have ub: "unat (base + word_of_nat (length (concat css))) = unat base + length (concat css)" using h(4) by (intro unat_plus_of_nat) simp
  have lo: "unat base \<le> unat s + 1" using acc en(1) u by (auto simp: check_segments_def Let_def word_less_nat_alt split: if_splits)
  show "unat base + k \<le> unat s + 1" using obsolete_ends [OF h(1,4) c(1)] lo u by (simp add: k_def)
  have succ: "contents_of j [] \<and> j_base_sequence j = base + word_of_nat (length (concat css)) \<and> s + 1 = base + word_of_nat (length (concat css))"
    if "succ = Some j" for j
  proof -
    have j: "contents_of j []" "j_base_sequence j = s + 1" "obsolete_count (s + 1) ?js = length ?js" "\<not> s + 1 > base + word_of_nat (length (concat css))"
      using c(3) [OF that] en(2) by auto
    have "take (length ?js) css = css" using segments_hold_length [OF h(1)] by simp
    then have "unat base + length (concat css) \<le> unat s + 1" using obsolete_ends [OF h(1,4), of "length ?js" "s + 1"] j(3) lo u by simp
    then have "unat (s + 1) = unat (base + word_of_nat (length (concat css)))" using j(4) ub u by (simp add: word_less_nat_alt)
    then show ?thesis using j(1,2) by (simp add: word_unat_eq_iff)
  qed
  show "succ \<noteq> None \<Longrightarrow> s + 1 = base + word_of_nat (length (concat css))" using succ by blast
  show "journal_rest base ?js css k (remaining_segments ?js removed succ) (drop removed css @ (case succ of None \<Rightarrow> [] | Some j \<Rightarrow> [[]]))"
    unfolding k_def by (rule remaining_rest [OF h(1-4) c(1) c(2)]) (use succ in auto)
  show "k = 0" if "s = 0" using c(1) obsolete_zero [OF h(1,5,4)] that by (simp add: k_def)
  show "obsolete_count (s + 1) (remaining_segments ?js removed succ) = 0" if "err = JC_None"
    using c(4) [OF that] obsolete_after [of "s + 1" ?js] obsolete_append_empty c(3)
    by (cases succ) (auto simp: remaining_segments_def)
qed

section \<open>The directory afterwards\<close>

text \<open>
  What is on disk when compaction has returned: the names without those of the removed segments, with the name of the successor when one
  was created, every kept file with its bytes and the successor with the bytes its creation wrote.  Nothing is said of the
  other results of opening the files again, of process identifiers and descriptors in particular.
\<close>

definition compacted_directory :: "string \<Rightarrow> u64 \<Rightarrow> (string \<Rightarrow> open_results) \<Rightarrow> string list \<Rightarrow> segment_set \<Rightarrow> nat \<Rightarrow> journal option \<Rightarrow>
    (string \<Rightarrow> open_results) \<Rightarrow> string list \<Rightarrow> bool" where
  "compacted_directory pre n files names ss removed succ files' names' \<longleftrightarrow> distinct names \<and> distinct names' \<and>
     set names' = set names - set (take removed (ss_paths ss)) \<union> (if succ = None then {} else {successor_name pre n}) \<and>
     (\<forall>path \<in> set (drop removed (ss_paths ss)). opens (files' path) (or_file (files path))) \<and>
     (\<forall>j. succ = Some j \<longrightarrow> opens (files' (successor_name pre n)) (the (j_mapping j)))"

lemma candidates_left:
  assumes c: "collect_candidates np names [] = Inr cs" and d: "distinct names" "distinct names'"
    and S: "S = sort_key fst cs" and left: "set names' = set names - set (take m (map snd S)) \<union> set (map snd N)"
    and N: "\<forall>(b, n) \<in> set N. parse_segment_name np n = Inr (Some b)" "sorted (map fst (drop m S @ N))" "distinct (drop m S @ N)"
  shows "\<exists>cs'. collect_candidates np names' [] = Inr cs' \<and> sort_key fst cs' = drop m S @ N"
proof -
  note ci = collect_candidates_Inr [OF c]
  have "\<forall>n \<in> set names'. \<not> isl (parse_segment_name np n)" using ci left N(1) by fastforce
  then obtain cs' where c': "collect_candidates np names' [] = Inr cs'" using collect_candidates_total by blast
  have S1: "set S = listed np names" "distinct S" using ci d(1) S by simp_all
  have dS: "distinct (map snd S)" unfolding distinct_map using S1 by (auto simp: inj_on_def listed_def)
  have split: "set S = set (take m S) \<union> set (drop m S)" "set (map snd (take m S)) \<inter> set (map snd (drop m S)) = {}"
    using dS by (metis append_take_drop_id set_append, metis append_take_drop_id distinct_append map_append)
  have kept: "(b, n) \<in> set (drop m S) \<longleftrightarrow> (b, n) \<in> set S \<and> n \<notin> set (take m (map snd S))" for b n
  proof
    assume d: "(b, n) \<in> set (drop m S)"
    then have "n \<in> set (map snd (drop m S))" by force
    then show "(b, n) \<in> set S \<and> n \<notin> set (take m (map snd S))" using split d by (auto simp only: take_map)
  next
    assume a: "(b, n) \<in> set S \<and> n \<notin> set (take m (map snd S))"
    then have "(b, n) \<notin> set (take m S)" by (force simp: take_map)
    then show "(b, n) \<in> set (drop m S)" using split(1) a by blast
  qed
  have new: "parse_segment_name np n = Inr (Some b) \<and> n \<in> set (map snd N) \<longleftrightarrow> (b, n) \<in> set N" for b n
    using N(1) by force
  have "set (drop m S @ N) = listed np names'"
  proof (intro set_eqI, clarify)
    fix b n
    show "(b, n) \<in> set (drop m S @ N) \<longleftrightarrow> (b, n) \<in> listed np names'"
      using kept [of b n] new [of n b] S1(1) left by (auto simp: listed_def)
  qed
  from candidates_unique [OF c' d(2) this N(3,2)] c' show ?thesis by blast
qed

lemma list_all2_in1: "list_all2 P xs ys \<Longrightarrow> x \<in> set xs \<Longrightarrow> \<exists>y \<in> set ys. P x y"
  by (induction rule: list_all2_induct) auto

lemma bases_below:
  "segments_hold base js css \<Longrightarrow> unat base + length (concat css) < 2 ^ 64 \<Longrightarrow> \<forall>j \<in> set js. j_size j \<noteq> 0 \<Longrightarrow>
     \<forall>j \<in> set js. j_base_sequence j < base + word_of_nat (length (concat css))"
proof (induction base js css rule: segments_hold.induct)
  case (2 base j js cs css)
  have u: "unat (base + word_of_nat (length cs)) = unat base + length cs"
    "unat (base + word_of_nat (length (concat (cs # css)))) = unat base + length (concat (cs # css))"
    using "2.prems"(2) by (intro unat_plus_of_nat; simp)+
  have "cs \<noteq> []" using "2.prems"(1,3) by (auto simp: contents_of_def)
  then have "base < base + word_of_nat (length (concat (cs # css)))" using u(2) by (simp add: word_less_nat_alt)
  then show ?case using 2 u(1) by (auto simp: add.assoc)
qed simp_all

lemma obsolete_all: "obsolete_count n js = length js \<Longrightarrow> \<forall>j \<in> set js. j_size j \<noteq> 0"
  by (induction js) (auto split: if_splits)

lemma obsolete_same: "list_all2 same_segment js js' \<Longrightarrow> obsolete_count n js' = obsolete_count n js"
  by (induction rule: list_all2_induct) (auto simp: same_segment_def)

lemma same_last: "list_all2 same_segment js js' \<Longrightarrow> js \<noteq> [] \<Longrightarrow> same_segment (last js) (last js')"
  by (induction rule: list_all2_induct) auto

lemma journal_rest_same:
  assumes "journal_rest base js css k r css'" "list_all2 same_segment r r'" "holds_all r' css'"
  shows "journal_rest base js css k r' css'"
  using assms same_hold [OF _ assms(2,3)] by (auto simp: journal_rest_def)

text \<open>The facts about an opened set that the proofs below share.\<close>

lemma opened_set_holds:
  assumes "open_segment_set files (Some names) pre = Inr ss" "\<And>path. honest (files path)"
    and acc: "check_segments (ss_segments ss) e s t n = None" and h: "holds_all (ss_segments ss) css"
  defines "base \<equiv> j_base_sequence (hd (ss_segments ss))"
  shows "segments_hold base (ss_segments ss) css" "ss_segments ss \<noteq> []" "numbered_from base (concat css)"
    "unat base + length (concat css) < 2 ^ 64" "base \<noteq> 0"
proof -
  obtain cs js where "list_all2 (opens_as files) (sort_key fst cs) js" and l: "successively segment_link js"
    and ss: "ss = \<lparr>ss_paths = map snd (sort_key fst cs), ss_segments = js\<rparr>" and ne: "js \<noteq> []"
    by (rule open_segment_set_Inr [OF assms(1)])
  show ne': "ss_segments ss \<noteq> []" using ne ss by simp
  show hold: "segments_hold base (ss_segments ss) css" unfolding base_def using linked_hold [OF h] l ne ss by simp
  show "numbered_from base (concat css)" using hold_numbered [OF hold h] by (simp add: numbered_iff)
  obtain j js' c css' where "ss_segments ss = j # js'" "css = c # css'" "journal_inv j c c" using h ne' by (cases css) (auto simp: neq_Nil_conv)
  then show "base \<noteq> 0" using inv_room(1) [of j c c] by (simp add: base_def)
  have le: "unat base + length (concat css) \<le> 2 ^ 64" by (rule hold_fits [OF hold h ne'])
  have "\<not> base + word_of_nat (length (concat css)) < s + 1" "s \<noteq> - 1"
    using acc segments_end [OF hold ne'] by (auto simp: check_segments_def Let_def split: if_splits)
  moreover have "s + 1 \<noteq> 0" using calculation(2) by (metis add.inverse_inverse add_eq_0_iff)
  ultimately have "base + word_of_nat (length (concat css)) \<noteq> 0" by (metis word_gt_0)
  moreover have "base + word_of_nat (length (concat css)) = word_of_nat (unat base + length (concat css))" by simp
  ultimately have "unat base + length (concat css) \<noteq> 2 ^ 64" by (metis of_nat_2p_u64)
  then show "unat base + length (concat css) < 2 ^ 64" using le by simp
qed

text \<open>The candidates that are left, the successor's included, and the segments they open to.\<close>

lemma directory_reopens:
  assumes o: "open_segment_set files (Some names) pre = Inr ss" and hon: "\<And>path. honest (files path)"
    and acc: "check_segments (ss_segments ss) e s t (length evs) = None"
    and co: "compact_journal_segments r pre (Inr (e0, \<lparr>sp_sequence = s, sp_logical_time = t\<rparr>)) (Inr ss) = (err, removed, succ)"
    and dir: "compacted_directory pre (s + 1) files names ss removed succ files' names'"
  obtains cs' D N js' css where "collect_candidates (path_filename pre @ ''.'') names' [] = Inr cs'" "sort_key fst cs' = D @ N"
    "N = (if succ = None then [] else [(s + 1, successor_name pre (s + 1))])"
    "list_all2 (opens_as files') (D @ N) js'" "list_all2 same_segment (remaining_segments (ss_segments ss) removed succ) js'"
    "holds_all (ss_segments ss) css" "holds_all js' (drop removed css @ (case succ of None \<Rightarrow> [] | Some j \<Rightarrow> [[]]))"
    "length D = length (drop removed (ss_segments ss))"
proof -
  obtain cs js where cs: "collect_candidates (path_filename pre @ ''.'') names [] = Inr cs" and js: "list_all2 (opens_as files) (sort_key fst cs) js"
    and ss: "ss = \<lparr>ss_paths = map snd (sort_key fst cs), ss_segments = js\<rparr>" and pre: "pre \<noteq> []"
    by (rule open_segment_set_Inr [OF o])
  let ?S = "sort_key fst cs" and ?name = "successor_name pre (s + 1)"
  let ?D = "drop removed ?S" and ?N = "if succ = None then [] else [(s + 1, ?name)]"
  have d: "distinct names" "distinct names'" "set names' = set names - set (take removed (map snd ?S)) \<union> set (map snd ?N)"
    "\<And>path. path \<in> set (map snd ?D) \<Longrightarrow> opens (files' path) (or_file (files path))"
    "\<And>j. succ = Some j \<Longrightarrow> opens (files' ?name) (the (j_mapping j))"
    using dir ss by (auto simp: compacted_directory_def drop_map)
  obtain css1 where css1: "holds_all (take removed js) css1" using opens_contents [OF list_all2_takeI [OF js] hon] by blast
  obtain jd css2 where jd: "list_all2 (opens_as files') ?D jd" "holds_all (drop removed js) css2" "holds_all jd css2"
    "list_all2 same_segment (drop removed js) jd"
    using reopen_all [OF list_all2_dropI [OF js] hon d(4)] by blast
  let ?css = "css1 @ css2"
  have h: "holds_all (ss_segments ss) ?css" using list_all2_appendI [OF css1 jd(2)] ss by simp
  note held = opened_set_holds [OF o hon acc h] and out = compact_outcome [OF co, simplified]
  have rem: "removed \<le> length js" using out(1) obsolete_count_le [of "s + 1" js] ss by simp
  have css: "drop removed ?css = css2" using list_all2_lengthD [OF css1] rem by simp
  have "s \<noteq> - 1" using acc by (auto simp: check_segments_def)
  then have s: "s + 1 \<noteq> 0" by (metis add.inverse_inverse add_eq_0_iff)
  have below: "\<forall>c \<in> set ?S. fst c < s + 1" if "succ \<noteq> None"
  proof -
    have "s + 1 = j_base_sequence (hd (ss_segments ss)) + word_of_nat (length (concat ?css))"
      using remaining_replay(2) [OF held acc co that] .
    moreover have "\<forall>j \<in> set js. j_size j \<noteq> 0" using out(3) that obsolete_all [of "s + 1" js] ss by auto
    ultimately have "\<forall>j \<in> set js. j_base_sequence j < s + 1" using bases_below [OF held(1,4)] ss by simp
    then show ?thesis using list_all2_in1 [OF js] by (metis opens_as_def)
  qed
  have "\<exists>cs'. collect_candidates (path_filename pre @ ''.'') names' [] = Inr cs' \<and> sort_key fst cs' = ?D @ ?N"
  proof (rule candidates_left [OF cs d(1,2) refl d(3)])
    show "\<forall>(b, n) \<in> set ?N. parse_segment_name (path_filename pre @ ''.'') n = Inr (Some b)" using successor_name_parses [OF pre s] by simp
    have "sorted (map fst ?D)" using sorted_sort_key [of fst cs] by (metis drop_map sorted_wrt_drop)
    moreover have "fst c \<le> s + 1" if "c \<in> set ?D" "succ \<noteq> None" for c using below that by (meson in_set_dropD order_less_imp_le)
    ultimately show "sorted (map fst (?D @ ?N))" by (simp add: sorted_append)
    have "distinct ?S" using collect_candidates_Inr [OF cs] d(1) by simp
    moreover have "(s + 1, ?name) \<notin> set ?D" if "succ \<noteq> None"
    proof
      assume "(s + 1, ?name) \<in> set ?D"
      from bspec [OF below [OF that] in_set_dropD [OF this]] show False by simp
    qed
    ultimately show "distinct (?D @ ?N)" by simp
  qed
  then obtain cs' where cs': "collect_candidates (path_filename pre @ ''.'') names' [] = Inr cs'" "sort_key fst cs' = ?D @ ?N" by blast
  have len: "length ?D = length (drop removed (ss_segments ss))" using list_all2_lengthD [OF js] ss by simp
  show thesis
  proof (cases succ)
    case None
    then show thesis using that [OF cs' refl _ _ h _ len, of jd] jd css ss by (simp add: remaining_segments_def)
  next
    case (Some j)
    note j = out(3) [OF Some]
    obtain m where m: "j_mapping j = Some m" "image_holds m (unat (j_capacity j)) (j_base_sequence j) []" "parse_header (take 64 m) = Some (j_capacity j, j_base_sequence j)"
      using j by (auto simp: journal_inv_def split: if_splits)
    have "opens (files' ?name) m" using d(5) [OF Some] m(1) by simp
    from opened_fields [OF this m(2,3)] obtain jn where jn: "open_journal (files' ?name) = Inr jn" "journal_inv jn [] []"
      "j_capacity jn = j_capacity j" "j_base_sequence jn = j_base_sequence j" using j by metis
    have "same_segment j jn" "opens_as files' (s + 1, ?name) jn" using jn j by (simp_all add: same_segment_def opens_as_def journal_inv_def)
    moreover have "holds_all (jd @ [jn]) (drop removed ?css @ [[]])" unfolding css using jd(3) jn(2) by (simp add: list_all2_appendI)
    ultimately show thesis using jd(1,4) ss Some
      by (intro that [OF cs' refl _ _ h _ len, of "jd @ [jn]"]) (simp_all add: remaining_segments_def list_all2_appendI)
  qed
qed

text \<open>
  C16. Compaction deletes nothing recovery needs.  Take a set of segments that opens and whose replay from the snapshot point
  is accepted, any outcome of the system calls of the compaction, and the directory it leaves: opening that directory again
  gives a set whose replay from the snapshot gives the same result, engine and events, and no obsolete segment is left in it when the compaction reported success.
  The exception: when a successor was created, not all old segments are gone, and the last of them is only partly
  filled, opening is refused with nonfinal-partial-segment; this never follows a compaction that reported success.
  A successor file that a failed creation could not remove is not covered.
\<close>

theorem compaction_keeps_recovery:
  assumes o: "open_segment_set files (Some names) pre = Inr ss" and hon: "\<And>path. honest (files path)"
    and acc: "check_segments (ss_segments ss) e s t (length evs) = None"
    and co: "compact_journal_segments r pre (Inr (e0, \<lparr>sp_sequence = s, sp_logical_time = t\<rparr>)) (Inr ss) = (err, removed, succ)"
    and dir: "compacted_directory pre (s + 1) files names ss removed succ files' names'"
  shows "if succ \<noteq> None \<and> removed < length (ss_segments ss) \<and> \<not> journal_full (last (ss_segments ss))
    then open_segment_set files' (Some names') pre = Inl JS_Nonfinal_Partial_Segment \<and> err \<noteq> JC_None
    else \<exists>ss'. open_segment_set files' (Some names') pre = Inr ss' \<and>
      replay_journal_segments ss' e s t evs = replay_journal_segments ss e s t evs \<and>
      (err = JC_None \<longrightarrow> obsolete_count (s + 1) (ss_segments ss') = 0)"
proof -
  let ?js = "ss_segments ss" and ?rem = "remaining_segments (ss_segments ss) removed succ"
  let ?stuck = "succ \<noteq> None \<and> removed < length ?js \<and> \<not> journal_full (last ?js)"
  obtain cs' D N js' css where c: "collect_candidates (path_filename pre @ ''.'') names' [] = Inr cs'" "sort_key fst cs' = D @ N"
      "N = (if succ = None then [] else [(s + 1, successor_name pre (s + 1))])"
    and j: "list_all2 (opens_as files') (D @ N) js'" "list_all2 same_segment ?rem js'"
    and h: "holds_all ?js css" "holds_all js' (drop removed css @ (case succ of None \<Rightarrow> [] | Some j \<Rightarrow> [[]]))" and len: "length D = length (drop removed ?js)"
    by (rule directory_reopens [OF assms])
  note held = opened_set_holds [OF o hon acc h(1)] and out = compact_outcome [OF co, simplified]
  note rp = remaining_replay [OF held acc co]
  have jr: "journal_rest (j_base_sequence (hd ?js)) ?js css (length (concat (take removed css))) js' (drop removed css @ (case succ of None \<Rightarrow> [] | Some j \<Rightarrow> [[]]))"
    by (rule journal_rest_same [OF rp(1) j(2) h(2)])
  have link: "successively segment_link ?js" and pre: "pre \<noteq> []" "path_filename pre \<noteq> []" "path_filename pre \<noteq> ''.''" "path_filename pre \<noteq> ''..''"
    by (rule open_segment_set_Inr [OF o], simp)+
  have "D @ N \<noteq> []" using list_all2_lengthD [OF j(1)] journal_restD(6) [OF jr] by auto
  then have op: "open_segment_set files' (Some names') pre = open_segments files' (D @ N) \<lparr>ss_paths = [], ss_segments = []\<rparr>"
    using c(1,2) pre by (auto simp: open_segment_set_def Let_def)
  have dl: "successively segment_link (drop removed ?js)"
    using link by (metis append_take_drop_id successively_append_iff)
  show ?thesis
  proof (cases ?stuck)
    case True
    then obtain j where succ: "succ = Some j" by blast
    then obtain jd jn where js': "js' = jd @ [jn]" and same: "list_all2 same_segment (drop removed ?js) jd"
      using j(2) by (auto simp: remaining_segments_def list_all2_append1 list_all2_Cons1)
    then have jd: "list_all2 (opens_as files') D jd" "opens_as files' (s + 1, successor_name pre (s + 1)) jn"
      using j(1) c(3) succ len list_all2_lengthD [OF same] by (simp_all add: list_all2_append)
    have ne: "drop removed ?js \<noteq> []" "jd \<noteq> []" using True list_all2_lengthD [OF same] by auto
    have "\<not> journal_full (last jd)" using True same_last [OF same ne(1)] by (simp add: same_segment_def journal_full_def)
    moreover have "open_segments files' D \<lparr>ss_paths = [], ss_segments = []\<rparr> = Inr \<lparr>ss_paths = map snd D, ss_segments = jd\<rparr>"
      using open_segments_linked [OF jd(1)] same_linked [OF same] dl by simp
    ultimately have "open_segment_set files' (Some names') pre = Inl JS_Nonfinal_Partial_Segment"
      using jd(2) ne(2) succ c(3) by (simp add: op open_segments_append opens_as_def)
    moreover have "err \<noteq> JC_None" using True succ out(3,4) by auto
    ultimately show ?thesis using True by simp
  next
    case False
    have "segment_link (last (drop removed ?js)) j" if "succ = Some j" "removed < length ?js" for j
      using False that out(3) [OF that(1)] rp(2) segments_end [OF held(1,2)] by (simp add: segment_link_def)
    then have "successively segment_link ?rem"
      using dl by (cases "removed < length ?js") (simp_all add: remaining_segments_def successively_append_iff split: option.split)
    then have "open_segment_set files' (Some names') pre = Inr \<lparr>ss_paths = map snd (D @ N), ss_segments = js'\<rparr>"
      unfolding op using open_segments_linked [OF j(1)] same_linked [OF j(2)] by simp
    moreover have "replay_journal_segments \<lparr>ss_paths = map snd (D @ N), ss_segments = js'\<rparr> e s t evs = replay_journal_segments ss e s t evs"
      using rest_replay [OF jr acc rp(3,4), where ss = "\<lparr>ss_paths = map snd (D @ N), ss_segments = []\<rparr>" and ss' = ss] by simp
    ultimately show ?thesis unfolding if_not_P [OF False] using rp(5) obsolete_same [OF j(2)] by simp
  qed
qed

section \<open>A concrete compaction\<close>

definition demo_compact :: compact_results where
  "demo_compact = (let cz = \<lparr>cz_pid = 8, cz_msync = True, cz_unmap = True, cz_fsync = True, cz_close = True\<rparr>
     in \<lparr>co_create = demo_create, co_close = \<lambda>_. cz, co_remove = \<lambda>_. True, co_successor_close = cz, co_parent = True, co_fsync = True, co_parent_close = True\<rparr>)"

definition demo_recovered :: engine where
  "demo_recovered = demo_replay_engine\<lparr>se_next_sequence := 2, se_last_logical_time := 100\<rparr>"

theorem compaction_keeps_recovery_witness:
  "\<exists>ss ss'. open_segment_set demo_files (Some demo_listing) ''p'' = Inr ss \<and>
     compact_journal_segments demo_compact ''p'' (Inr (demo_recovered, \<lparr>sp_sequence = 1, sp_logical_time = 100\<rparr>)) (Inr ss) = (JC_None, 1, None) \<and>
     open_segment_set demo_files (Some [''notes'', ''p.00000000000000000002.journal'']) ''p'' = Inr ss' \<and>
     replay_journal_segments ss' demo_recovered 1 100 (replicate 5 default_event) = replay_journal_segments ss demo_recovered 1 100 (replicate 5 default_event)"
proof -
  obtain j1 j2 where s: "open_segment_set demo_files (Some demo_listing) ''p'' =
      Inr \<lparr>ss_paths = [''p.00000000000000000001.journal'', ''p.00000000000000000002.journal''], ss_segments = [j1, j2]\<rparr>" (is "_ = Inr ?ss")
    and j1: "journal_inv j1 [demo_entry 1 100] [demo_entry 1 100]" "j_owner_pid j1 = 8" "j_descriptor j1 = 4"
    and j2: "journal_inv j2 [] []" "j_capacity j2 = 1" "j_base_sequence j2 = 2" "j_owner_pid j2 = 8" "j_descriptor j2 = 4" by (rule demo_set)
  have hon: "honest (demo_files path)" for path by (simp add: honest_def demo_files_def demo_open_def demo_status_def)
  have b1: "j_base_sequence j1 = 1" using s by (auto simp: open_segment_set_def demo_candidates Let_def split: if_splits sum.splits)
  have f: "j_size j1 = 1" "j_size j2 = 0" "j_mapping j1 \<noteq> None" using j1(1) j2(1) by (auto simp: journal_inv_def)
  have e: "se_next_sequence demo_recovered = 2" "se_last_logical_time demo_recovered = 100" "\<not> se_sequence_exhausted demo_recovered"
    "maximum_event_capacity demo_recovered = 5" by code_simp+
  have "journal_read j1 0 = Inr (demo_entry 1 100)" using contents_read [OF inv_contents [OF j1(1)], of 0] by simp
  then have "read_sequence [j1, j2] 1 = Inr (demo_entry 1 100)" by (simp add: b1 f)
  then have acc: "check_segments (ss_segments ?ss) demo_recovered 1 100 (length (replicate 5 default_event)) = None"
    using e b1 j2(3) f by (simp add: check_segments_def Let_def snapshot_matches_def demo_entry_def)
  have co: "compact_journal_segments demo_compact ''p'' (Inr (demo_recovered, \<lparr>sp_sequence = 1, sp_logical_time = 100\<rparr>)) (Inr ?ss) = (JC_None, 1, None)"
    using b1 j1 j2 f by (simp add: compact_journal_segments_def Let_def delete_obsolete_def demo_compact_def journal_close_def sync_parent_def)
  have "opens (demo_files path) (or_file (demo_files path))" for path
    using demo_opens by (simp add: demo_files_def demo_open_def opens_def)
  then have dir: "compacted_directory ''p'' (1 + 1) demo_files demo_listing ?ss 1 None demo_files [''notes'', ''p.00000000000000000002.journal'']"
    by (simp add: compacted_directory_def demo_listing_def) auto
  from compaction_keeps_recovery [OF s hon acc co dir] s co show ?thesis by auto
qed

end
