(* ===== verification/Foundation_Properties.thy ===== *)
theory Foundation_Properties
  imports Hierarchical_Bitmap Order_Arena
begin

text \<open>
  What the order book's building blocks guarantee, stated over whole runs from construction: the
  packed level/side word, the price domain, the hierarchical bitmap and the order arena.
\<close>

section \<open>Runs of the bitmap\<close>

datatype bm_op = Mark nat | Unmark nat

fun bm_step :: "bitmap \<Rightarrow> bm_op \<Rightarrow> bitmap" where
  "bm_step b (Mark i) = snd (bm_set b i)"
| "bm_step b (Unmark i) = snd (bm_clear b i)"

text \<open>The set the operations describe; an index out of range is refused and changes nothing.\<close>

fun set_step :: "nat \<Rightarrow> nat set \<Rightarrow> bm_op \<Rightarrow> nat set" where
  "set_step n X (Mark i) = (if i < n then insert i X else X)"
| "set_step n X (Unmark i) = (if i < n then X - {i} else X)"

lemma bm_step_refines:
  assumes "bm_inv b"
  shows "bm_inv (bm_step b p)" "bm_bit_count (bm_step b p) = bm_bit_count b"
    "bm_elems (bm_step b p) = set_step (bm_bit_count b) (bm_elems b) p"
proof -
  have out: "bm_step b p = b" if "case p of Mark i \<Rightarrow> i \<ge> bm_bit_count b | Unmark i \<Rightarrow> i \<ge> bm_bit_count b"
    using that by (cases p) (simp_all add: bm_set_def bm_clear_def)
  show "bm_inv (bm_step b p)" "bm_bit_count (bm_step b p) = bm_bit_count b"
    "bm_elems (bm_step b p) = set_step (bm_bit_count b) (bm_elems b) p"
    using out assms bm_set_ok [OF assms] bm_clear_ok [OF assms]
    by (cases p; cases "case p of Mark i \<Rightarrow> i < bm_bit_count b | Unmark i \<Rightarrow> i < bm_bit_count b";
        simp)+
qed

lemma bm_run_refines:
  assumes "bm_inv b"
  shows "bm_inv (foldl bm_step b ops) \<and> bm_bit_count (foldl bm_step b ops) = bm_bit_count b \<and>
    bm_elems (foldl bm_step b ops) = foldl (set_step (bm_bit_count b)) (bm_elems b) ops"
  using assms by (induction ops arbitrary: b) (simp_all add: bm_step_refines)

lemma is_least_Min:
  assumes "is_least (\<lambda>j. j \<in> X) i n r" "\<forall>j \<in> X. j < n"
  shows "r = (if {j \<in> X. i \<le> j} = {} then None else Some (Min {j \<in> X. i \<le> j}))"
proof (cases r)
  case None
  then show ?thesis using assms by (auto simp: is_least_def)
next
  case (Some m)
  have fin: "finite {j \<in> X. i \<le> j}" by (rule finite_subset [of _ "{..<n}"]) (use assms(2) in auto)
  have m: "i \<le> m" "m \<in> X" and least: "\<And>k. i \<le> k \<Longrightarrow> k < m \<Longrightarrow> k \<notin> X"
    using Some assms(1) by (auto simp: is_least_def)
  have "Min {j \<in> X. i \<le> j} = m"
  proof (rule Min_eqI [OF fin])
    show "m \<le> k" if "k \<in> {j \<in> X. i \<le> j}" for k using least [of k] that by fastforce
  qed (use m in simp)
  then show ?thesis using Some m by auto
qed

lemma is_greatest_Max:
  assumes "is_greatest (\<lambda>j. j \<in> X) i r"
  shows "r = (if {j \<in> X. j \<le> i} = {} then None else Some (Max {j \<in> X. j \<le> i}))"
proof (cases r)
  case None
  then show ?thesis using assms by (auto simp: is_greatest_def)
next
  case (Some m)
  have fin: "finite {j \<in> X. j \<le> i}" by (rule finite_subset [of _ "{..i}"]) auto
  have m: "m \<le> i" "m \<in> X" and grt: "\<And>k. m < k \<Longrightarrow> k \<le> i \<Longrightarrow> k \<notin> X"
    using Some assms(1) by (auto simp: is_greatest_def)
  have "Max {j \<in> X. j \<le> i} = m"
  proof (rule Max_eqI [OF fin])
    show "k \<le> m" if "k \<in> {j \<in> X. j \<le> i}" for k using grt [of k] that by fastforce
  qed (use m in simp)
  then show ?thesis using Some m by auto
qed

lemma word_counts_bound:
  assumes "bm_inv b"
  shows "l < bm_level_count b \<Longrightarrow> bm_word_counts b ! l \<le> bm_bit_count b"
proof -
  have lay: "layout_ok b" using assms by (simp add: bm_inv_def)
  have step: "bm_word_counts b ! l \<le> lbits b l" if "l < bm_level_count b" for l
    using lay that lbits_pos [OF lay that] by (auto simp: layout_ok_def)
  show "l < bm_level_count b \<Longrightarrow> bm_word_counts b ! l \<le> bm_bit_count b"
    by (induction l) (use step in \<open>fastforce dest: step\<close>)+
qed

text \<open>
  C22.  The hierarchical bitmap is an ordered set.  After construction and any sequence of \<^verbatim>\<open>set\<close> and
  \<^verbatim>\<open>clear\<close> calls, in range or not, \<^verbatim>\<open>test\<close> answers membership, \<^verbatim>\<open>first_set\<close> and \<^verbatim>\<open>last_set\<close> return the
  minimum and the maximum, \<^verbatim>\<open>next_set\<close> and \<^verbatim>\<open>previous_set\<close> the nearest element at or beyond an index, and
  the self-check \<^verbatim>\<open>hierarchy_consistent\<close> succeeds.
\<close>

theorem bitmap_run_is_ordered_set:
  assumes "make_bitmap n = Inr b0" and "n < 2 ^ 32"
    and "b = foldl bm_step b0 ops" and "X = foldl (set_step n) {} ops"
  shows "bm_test b i = (if i < n then Some (i \<in> X) else None) \<and>
    first_set b = (if X = {} then None else Some (Min X)) \<and>
    last_set b = (if X = {} then None else Some (Max X)) \<and>
    next_set b i = (if {j \<in> X. i \<le> j} = {} then None else Some (Min {j \<in> X. i \<le> j})) \<and>
    previous_set b i = (if i < n \<and> {j \<in> X. j \<le> i} \<noteq> {} then Some (Max {j \<in> X. j \<le> i}) else None) \<and>
    hierarchy_consistent b"
proof (intro conjI)
  have n0: "0 < n" using assms(1) by (cases n) (auto simp: make_bitmap_def make_layout_def)
  then have b0: "bm_inv b0" "bm_bit_count b0 = n" "bm_elems b0 = {}"
    using make_bitmap_ok [OF n0 assms(2)] assms(1) by auto
  then have b: "bm_inv b" "bm_bit_count b = n" "bm_elems b = X"
    using bm_run_refines [OF b0(1), of ops] assms(3,4) by auto
  have bd: "\<forall>j \<in> X. j < n" using bm.elems_bound [OF b(1)] b by auto
  show "bm_test b i = (if i < n then Some (i \<in> X) else None)"
    using bm_test_ok [OF b(1), of i] b by (auto simp: bm_test_def)
  show "first_set b = (if X = {} then None else Some (Min X))"
    using is_least_Min [OF first_set_ok [OF b(1)]] b bd by auto
  have "{j \<in> X. j \<le> n - 1} = X" using bd n0 by auto
  then show "last_set b = (if X = {} then None else Some (Max X))"
    using is_greatest_Max [OF last_set_ok [OF b(1)]] b by auto
  show "next_set b i = (if {j \<in> X. i \<le> j} = {} then None else Some (Min {j \<in> X. i \<le> j}))"
    using is_least_Min [OF next_set_ok [OF b(1), of i]] b bd by auto
  show "previous_set b i = (if i < n \<and> {j \<in> X. j \<le> i} \<noteq> {} then Some (Max {j \<in> X. j \<le> i}) else None)"
    using is_greatest_Max [OF previous_set_ok [OF b(1), of i]] b by (auto simp: previous_set_def)
  have len: "length (bm_words b) = bm_total_words b" using b(1) by (simp add: bm_inv_def layout_ok_def)
  have "\<forall>l < bm_level_count b. bm_word_counts b ! l \<le> kUint32Max"
    using word_counts_bound [OF b(1)] assms(2) b(2) by (fastforce simp: kUint32Max_def)
  then show "hierarchy_consistent b"
    using hierarchy_consistent_iff [of b] b(1) len by blast
qed

text \<open>The bitmap of a book with 100 price levels, two of them marked and one of these cleared again.\<close>

definition sample_ops :: "bm_op list" where
  "sample_ops = [Mark 3, Mark 70, Mark 99, Unmark 3, Mark 100]"

theorem bitmap_run_is_ordered_set_witness:
  "next_set (foldl bm_step (projr (make_bitmap 100)) sample_ops) 5 = Some 70 \<and>
   previous_set (foldl bm_step (projr (make_bitmap 100)) sample_ops) 98 = Some 70 \<and>
   first_set (foldl bm_step (projr (make_bitmap 100)) sample_ops) = Some 70"
proof -
  have b0: "make_bitmap 100 = Inr (projr (make_bitmap 100))" by code_simp
  have X: "foldl (set_step 100) {} sample_ops = {70, 99}" by (auto simp: sample_ops_def)
  have s: "{j \<in> {70, 99}. 5 \<le> j} = {70, 99::nat}" "{j \<in> {70, 99}. j \<le> 98} = {70::nat}" by auto
  show ?thesis
    using bitmap_run_is_ordered_set [OF b0 _ refl refl, of sample_ops 5]
      bitmap_run_is_ordered_set [OF b0 _ refl refl, of sample_ops 98]
    unfolding X s by simp
qed

section \<open>Packed words and prices\<close>

lemma encode_decode_word: "encode_level_side (decode_level w) (decode_side w) = w"
proof -
  have lv: "(word_of_nat (decode_level w) :: u32) = w AND kOrderLevelMask"
    by (simp add: decode_level_def)
  have side: "decode_side w = (if bit w 31 then Sell else Buy)"
  proof -
    have "bit (w AND kOrderSideMask) n \<longleftrightarrow> bit w 31 \<and> n = 31" for n
      by (auto simp: bit_and_iff bit_kOrderSideMask)
    then have "w AND kOrderSideMask = 0 \<longleftrightarrow> \<not> bit w 31"
      by (metis bit_0_eq bit_word_eqI bot_apply bot_bool_def)
    then show ?thesis by (simp add: decode_side_def)
  qed
  have high: "n < 32 \<Longrightarrow> n < 31 \<or> n = 31" for n :: nat by auto
  show ?thesis
  proof (cases "bit w 31")
    case True
    show ?thesis unfolding side using True
      by (simp add: lv) (rule bit_word_eqI, use high in \<open>auto simp: bit_and_iff bit_or_iff bit_kOrderLevelMask bit_kOrderSideMask\<close>)
  next
    case False
    show ?thesis unfolding side using False
      by (simp add: lv) (rule bit_word_eqI, use high in \<open>auto simp: bit_and_iff bit_kOrderLevelMask\<close>)
  qed
qed

lemma is_encodable_1000000: "is_encodable_tick_count 1000000"
  by (simp add: is_encodable_tick_count_def kOrderLevelMask_def)

text \<open>
  The packed word of an order loses nothing: every level below \<open>2 ^ 31\<close> and every side survive
  packing, every 32-bit word is the packing of what it decodes to, and the tick counts the book
  accepts have only such levels.
\<close>

theorem order_word_roundtrip:
  "(\<forall>l s. l < 2 ^ 31 \<longrightarrow> decode_level (encode_level_side l s) = l \<and> decode_side (encode_level_side l s) = s) \<and>
   (\<forall>w. encode_level_side (decode_level w) (decode_side w) = w) \<and>
   (\<forall>n l. is_encodable_tick_count n \<longrightarrow> l < n \<longrightarrow> l < 2 ^ 31)"
  by (auto simp: encode_decode_word is_encodable_tick_count_def kOrderLevelMask_def)

theorem order_word_roundtrip_witness:
  "decode_level (encode_level_side 999999 Sell) = 999999 \<and> decode_side (encode_level_side 999999 Sell) = Sell \<and>
   is_encodable_tick_count 1000000"
proof -
  have "(999999 :: nat) < 2 ^ 31" by simp
  then show ?thesis
    using order_word_roundtrip by (metis is_encodable_1000000)
qed

text \<open>
   A price domain is a bijection between its tick indices and its prices: the constructor
  succeeds exactly when the domain is not empty and its last price is a 64-bit integer, and then
  \<^verbatim>\<open>index_of\<close> and \<^verbatim>\<open>price_at\<close> are inverse to each other, with \<^verbatim>\<open>contains\<close> telling when \<^verbatim>\<open>index_of\<close> has a value.
\<close>

theorem price_domain_bijection:
  assumes "int64_range m"
  shows "(make_price_domain m n = Inl Invalid_Argument \<longleftrightarrow> n = 0) \<and>
    (make_price_domain m n = Inl Overflow_Error \<longleftrightarrow> n \<noteq> 0 \<and> m + int (n - 1) > kInt64Max) \<and>
    (\<forall>d p i. make_price_domain m n = Inr d \<longrightarrow>
       (index_of d p = Some i \<longleftrightarrow> price_at d i = Some p) \<and>
       (index_of d p \<noteq> None \<longleftrightarrow> pd_contains d p) \<and> (price_at d i \<noteq> None \<longleftrightarrow> i < n) \<and>
       (price_at d i = Some p \<longrightarrow> int64_range p))"
proof (intro conjI allI impI)
  fix d p i
  assume "make_price_domain m n = Inr d"
  with assms have d: "domain_ok d" "pd_minimum d = m" "pd_tick_count d = n"
    using make_price_domain_ok by blast+
  show "index_of d p = Some i \<longleftrightarrow> price_at d i = Some p"
    using index_of_Some_iff [OF d(1)] by (auto simp: price_at_def)
  show "index_of d p \<noteq> None \<longleftrightarrow> pd_contains d p" by (simp add: index_of_def)
  show "price_at d i \<noteq> None \<longleftrightarrow> i < n" by (simp add: price_at_def d)
  show "price_at d i = Some p \<Longrightarrow> int64_range p" by (rule price_at_int64 [OF d(1)])
qed (auto simp: make_price_domain_def checked_maximum_def Let_def)

theorem price_domain_bijection_witness:
  "int64_range 100 \<and> make_price_domain 100 8 = Inr \<lparr>pd_minimum = 100, pd_maximum = 107, pd_tick_count = 8\<rparr> \<and>
   index_of \<lparr>pd_minimum = 100, pd_maximum = 107, pd_tick_count = 8\<rparr> 103 = Some 3"
proof -
  have r: "int64_range 100" by code_simp
  have d: "make_price_domain 100 8 = Inr \<lparr>pd_minimum = 100, pd_maximum = 107, pd_tick_count = 8\<rparr>" by code_simp
  show ?thesis using price_domain_bijection [OF r, of 8] r d by (simp add: price_at_def)
qed

section \<open>Runs of the arena\<close>

text \<open>
  C27.  The arena is a finite map from handles to orders.  In every state reached from construction
  by acquires and releases, \<^verbatim>\<open>acquire\<close> succeeds exactly when fewer orders are live than the capacity;
  it then hands out a handle that did not resolve before, the handle resolves to the new order
  and no other handle changes meaning; a release succeeds exactly on a handle that resolves,
  and removes exactly that handle.
\<close>

theorem arena_run_is_handle_map:
  assumes "make_arena n = Inr a0" and "a = foldl arena_step a0 ops"
  shows "(acq_error (fst (acquire a x)) = Arena_None \<longleftrightarrow> ar_size a < n) \<and>
    (ar_size a < n \<longrightarrow> resolve a (acq_handle (fst (acquire a x))) = None \<and>
       (\<forall>g. resolve (snd (acquire a x)) g =
          (if g = acq_handle (fst (acquire a x)) then Some x else resolve a g))) \<and>
    (fst (release a h) = Arena_None \<longleftrightarrow> resolve a h \<noteq> None) \<and>
    (\<forall>g. resolve (snd (release a h)) g = (if g = h then None else resolve a g))"
proof -
  have ok: "arena_ok a" "ar_capacity a = n"
  proof -
    show "arena_ok a" using assms make_arena_ok(1) fold_arena_step_ok by simp
    have "ar_capacity (foldl arena_step c ops) = ar_capacity c" for c
    proof (induction ops arbitrary: c)
      case (Cons p ops)
      then show ?case by (cases p) (simp_all add: acquire_def release_def Let_def)
    qed simp
    then show "ar_capacity a = n" using assms make_arena_ok(3) by simp
  qed
  have acq: "acq_error (fst (acquire a x)) = Arena_None \<longleftrightarrow> ar_size a < n"
    using arena.acquire_Some_iff [OF ok(1), of x] ok(2)
    by (auto simp: acquire_handle_def split: prod.splits if_splits)
  moreover have "resolve a (acq_handle (fst (acquire a x))) = None \<and>
       (\<forall>g. resolve (snd (acquire a x)) g =
          (if g = acq_handle (fst (acquire a x)) then Some x else resolve a g))" if "ar_size a < n"
  proof -
    have "acquire_handle a x = (Some (acq_handle (fst (acquire a x))), snd (acquire a x))"
      using that acq by (auto simp: acquire_handle_def split: prod.splits)
    from arena.resolve_acquire [OF ok(1) this] show ?thesis by simp
  qed
  moreover have "fst (release a h) = Arena_None \<longleftrightarrow> resolve a h \<noteq> None"
    by (simp add: release_def resolve_def Let_def)
  moreover have "resolve (snd (release a h)) g = (if g = h then None else resolve a g)" for g
  proof (cases "resolve a h = None")
    case True
    then have "release a h = (Arena_Invalid_Handle, a)"
      by (auto simp: release_def resolve_def split: if_splits)
    then show ?thesis using True by simp
  next
    case False
    then have "release_handle a h = (True, snd (release a h))"
      by (auto simp: release_handle_def release_def resolve_def Let_def split: if_splits)
    from arena.resolve_release [OF ok(1) this] show ?thesis .
  qed
  ultimately show ?thesis by blast
qed

theorem arena_run_is_handle_map_witness:
  "acq_error (fst (acquire (projr (make_arena 2)) initial_order)) = Arena_None \<and>
   ar_size (projr (make_arena 2)) < 2"
proof -
  have a: "make_arena 2 = Inr (projr (make_arena 2))" by code_simp
  have s: "ar_size (projr (make_arena 2)) < 2" by code_simp
  show ?thesis using arena_run_is_handle_map [OF a, of _ "[]" initial_order] s by simp
qed

text \<open>
   A stale handle cannot name a later order of its slot: when a handle that resolves now
  resolves again after any run of the arena, the number of releases of its slot in between is a
  multiple of \<open>2 ^ 32 - 1\<close> (the generation counter skips 0), so it is 0 unless the slot was reused more
  than four billion times.
\<close>

theorem arena_stale_handles:
  assumes "make_arena n = Inr a0" and "a = foldl arena_step a0 ops"
    and "resolve a h \<noteq> None" and "resolve (foldl arena_step a ops') h \<noteq> None"
  shows "(2 ^ 32 - 1) dvd slot_releases a ops' (h_index h)"
proof -
  have ok: "arena_ok a" using assms(1,2) make_arena_ok(1) fold_arena_step_ok by simp
  let ?a' = "foldl arena_step a ops'"
  have g: "sl_generation (ar_slots a ! h_index h) = h_generation h" "h_generation h \<noteq> 0"
    using assms(3) by (auto simp: resolve_def is_live_handle_def split: if_splits)
  have "sl_generation (ar_slots ?a' ! h_index h) = h_generation h"
    using assms(4) by (auto simp: resolve_def is_live_handle_def split: if_splits)
  then have "(next_generation ^^ slot_releases a ops' (h_index h)) (h_generation h) = h_generation h"
    using run_generation [OF ok, of ops' "h_index h"] g by simp
  then show ?thesis using next_generation_cycle [OF g(2)] by simp
qed

theorem arena_stale_handles_witness:
  "resolve (foldl arena_step (projr (make_arena 2))
       [Op_Acquire initial_order, Op_Release \<lparr>h_index = 0, h_generation = 1\<rparr>, Op_Acquire initial_order])
     \<lparr>h_index = 0, h_generation = 1\<rparr> = None"
proof (rule ccontr)
  let ?a = "foldl arena_step (projr (make_arena 2)) [Op_Acquire initial_order]"
  let ?ops = "[Op_Release \<lparr>h_index = 0, h_generation = 1\<rparr>, Op_Acquire initial_order]"
  assume "\<not> ?thesis"
  then have r': "resolve (foldl arena_step ?a ?ops) \<lparr>h_index = 0, h_generation = 1\<rparr> \<noteq> None" by simp
  have a: "make_arena 2 = Inr (projr (make_arena 2))" by code_simp
  have r: "resolve ?a \<lparr>h_index = 0, h_generation = 1\<rparr> \<noteq> None" by code_simp
  have "slot_releases ?a ?ops 0 = 1" by code_simp
  then show False using arena_stale_handles [OF a refl r r'] by simp
qed

end
