(* ===== verification/Spsc_Queue.thy ===== *)
theory Spsc_Queue
  imports Order_Book
begin

text \<open>
  The bounded single-producer single-consumer queue (\<^verbatim>\<open>spsc_queue.hpp\<close>): a ring of slots addressed by
  64-bit indices that are never reduced, a producer that publishes its tail and a consumer that
  publishes its head.  The operations are given as they run alone; the interleaved steps of the two
  threads are in \<^verbatim>\<open>Spsc_Concurrent\<close>.
\<close>

section \<open>The queue\<close>

definition kMaximumSpscCapacity :: nat where
  "kMaximumSpscCapacity = 1000000"

record 'a spsc =
  q_capacity :: nat
  q_slots :: "'a list"
  q_tail :: u64
  q_cached_head :: u64
  q_published_tail :: u64
  q_head :: u64
  q_cached_tail :: u64
  q_published_head :: u64
  q_producer_claimed :: bool
  q_consumer_claimed :: bool

text \<open>\<open>element_size\<close> is \<^verbatim>\<open>sizeof(T)\<close>, which is never zero; \<open>initial\<close> is a value-initialised \<^verbatim>\<open>T\<close>.\<close>

definition validate_capacity :: "nat \<Rightarrow> nat \<Rightarrow> cpp_exception + nat" where
  "validate_capacity element_size capacity =
     (if capacity = 0 \<or> capacity > kMaximumSpscCapacity \<or> capacity > (2 ^ 64 - 1) div element_size
      then Inl Invalid_Argument else Inr capacity)"

definition make_spsc :: "nat \<Rightarrow> 'a \<Rightarrow> nat \<Rightarrow> cpp_exception + 'a spsc" where
  "make_spsc element_size initial capacity =
     sum_bind (validate_capacity element_size capacity) (\<lambda>n.
       Inr \<lparr>q_capacity = n, q_slots = replicate n initial, q_tail = 0, q_cached_head = 0, q_published_tail = 0,
            q_head = 0, q_cached_tail = 0, q_published_head = 0, q_producer_claimed = False, q_consumer_claimed = False\<rparr>)"

text \<open>The result of a claim is whether a handle was given out.\<close>

definition claim_producer :: "'a spsc \<Rightarrow> bool \<times> 'a spsc" where
  "claim_producer q = (if q_producer_claimed q then (False, q) else (True, q\<lparr>q_producer_claimed := True\<rparr>))"

definition claim_consumer :: "'a spsc \<Rightarrow> bool \<times> 'a spsc" where
  "claim_consumer q = (if q_consumer_claimed q then (False, q) else (True, q\<lparr>q_consumer_claimed := True\<rparr>))"

definition spsc_empty :: "'a spsc \<Rightarrow> bool" where
  "spsc_empty q \<longleftrightarrow> q_published_head q = q_published_tail q"

definition set_empty_index_for_testing :: "'a spsc \<Rightarrow> u64 \<Rightarrow> 'a spsc" where
  "set_empty_index_for_testing q index =
     (if q_producer_claimed q \<or> q_consumer_claimed q \<or> \<not> spsc_empty q then q
      else q\<lparr>q_tail := index, q_cached_head := index, q_published_tail := index,
             q_head := index, q_cached_tail := index, q_published_head := index\<rparr>)"

section \<open>The producer\<close>

definition slot_of :: "'a spsc \<Rightarrow> u64 \<Rightarrow> nat" where
  "slot_of q index = unat index mod q_capacity q"

definition producer_available :: "'a spsc \<Rightarrow> nat \<times> 'a spsc" where
  "producer_available q =
     (let q1 = q\<lparr>q_cached_head := q_published_head q\<rparr>
      in (q_capacity q1 - unat (q_tail q1 - q_cached_head q1), q1))"

definition write_slot :: "u64 \<Rightarrow> nat \<Rightarrow> 'a \<Rightarrow> 'a spsc \<Rightarrow> 'a spsc" where
  "write_slot tail index v q = q\<lparr>q_slots := (q_slots q)[slot_of q (tail + word_of_nat index) := v]\<rparr>"

fun write_slots :: "u64 \<Rightarrow> nat \<Rightarrow> 'a list \<Rightarrow> 'a spsc \<Rightarrow> 'a spsc" where
  "write_slots tail index [] q = q"
| "write_slots tail index (v # vs) q = write_slots tail (index + 1) vs (write_slot tail index v q)"

definition publish_tail :: "nat \<Rightarrow> 'a spsc \<Rightarrow> 'a spsc" where
  "publish_tail n q = q\<lparr>q_tail := q_tail q + word_of_nat n, q_published_tail := q_tail q + word_of_nat n\<rparr>"

definition try_push_batch :: "'a spsc \<Rightarrow> 'a list \<Rightarrow> bool \<times> 'a spsc" where
  "try_push_batch q values =
     (if values = [] then (True, q)
      else if length values > q_capacity q then (False, q)
      else let (available, q1) = producer_available q
           in if available < length values then (False, q1)
              else (True, publish_tail (length values) (write_slots (q_tail q1) 0 values q1)))"

definition try_push :: "'a spsc \<Rightarrow> 'a \<Rightarrow> bool \<times> 'a spsc" where
  "try_push q v = try_push_batch q [v]"

section \<open>The consumer\<close>

definition refresh_tail :: "'a spsc \<Rightarrow> 'a spsc" where
  "refresh_tail q = (if q_head q = q_cached_tail q then q\<lparr>q_cached_tail := q_published_tail q\<rparr> else q)"

definition try_peek :: "'a spsc \<Rightarrow> 'a option \<times> 'a spsc" where
  "try_peek q =
     (let q1 = refresh_tail q
      in if q_head q1 = q_cached_tail q1 then (None, q1) else (Some (q_slots q1 ! slot_of q1 (q_head q1)), q1))"

definition publish_head :: "'a spsc \<Rightarrow> 'a spsc" where
  "publish_head q = q\<lparr>q_head := q_head q + 1, q_published_head := q_head q + 1\<rparr>"

definition try_pop :: "'a spsc \<Rightarrow> 'a option \<times> 'a spsc" where
  "try_pop q =
     (case try_peek q of (None, q1) \<Rightarrow> (None, q1) | (Some v, q1) \<Rightarrow> (Some v, publish_head q1))"

section \<open>The handles\<close>

text \<open>A handle that has been moved from holds no queue: every call on it fails and touches nothing.\<close>

definition producer_try_push :: "bool \<Rightarrow> 'a spsc \<Rightarrow> 'a \<Rightarrow> bool \<times> 'a spsc" where
  "producer_try_push attached q v = (if attached then try_push q v else (False, q))"

definition producer_try_push_batch :: "bool \<Rightarrow> 'a spsc \<Rightarrow> 'a list \<Rightarrow> bool \<times> 'a spsc" where
  "producer_try_push_batch attached q vs = (if attached then try_push_batch q vs else (False, q))"

definition producer_handle_available :: "bool \<Rightarrow> 'a spsc \<Rightarrow> nat \<times> 'a spsc" where
  "producer_handle_available attached q = (if attached then producer_available q else (0, q))"

definition producer_handle_capacity :: "bool \<Rightarrow> 'a spsc \<Rightarrow> nat" where
  "producer_handle_capacity attached q = (if attached then q_capacity q else 0)"

definition consumer_try_peek :: "bool \<Rightarrow> 'a spsc \<Rightarrow> 'a option \<times> 'a spsc" where
  "consumer_try_peek attached q = (if attached then try_peek q else (None, q))"

definition consumer_try_pop :: "bool \<Rightarrow> 'a spsc \<Rightarrow> 'a option \<times> 'a spsc" where
  "consumer_try_pop attached q = (if attached then try_pop q else (None, q))"

section \<open>Ring arithmetic\<close>

text \<open>
  The slots of \<open>n\<close> consecutive indices from \<open>h\<close> are those of a linear count as long as the capacity
  divides \<open>2 ^ 64\<close> or the count does not wrap.
\<close>

definition linear :: "nat \<Rightarrow> u64 \<Rightarrow> nat \<Rightarrow> bool" where
  "linear cap h n \<longleftrightarrow> cap dvd 2 ^ 64 \<or> unat h + n \<le> 2 ^ 64"

lemma unat_add_of_nat: "unat (h + word_of_nat i :: u64) = (unat h + i) mod 2 ^ 64"
  by (simp add: unat_word_ariths unsigned_of_nat take_bit_eq_mod mod_add_right_eq)

lemma linear_slot:
  assumes "linear cap h n" "i < n"
  shows "unat (h + word_of_nat i) mod cap = (unat h + i) mod cap"
proof -
  have "cap dvd 2 ^ 64 \<or> unat h + i < 2 ^ 64" using assms by (auto simp: linear_def)
  then show ?thesis
  proof
    assume "cap dvd 2 ^ 64"
    then show ?thesis unfolding unat_add_of_nat by (rule mod_mod_cancel)
  qed (simp add: unat_add_of_nat)
qed

lemma mod_window_inj:
  fixes a :: nat
  assumes "(a + i) mod c = (a + j) mod c" "i < c" "j < c" shows "i = j"
proof -
  have "i = j" if "(a + i) mod c = (a + j) mod c" "i < c" "j < c" "i \<le> j" for i j
  proof -
    have "c dvd (a + j) - (a + i)" using that(1) by (metis mod_eq_dvd_iff_nat add_le_cancel_left that(4))
    then have "c dvd j - i" by simp
    then show ?thesis using that(3,4) by (metis diff_is_0_eq' dvd_imp_le le_antisym less_imp_diff_less not_le zero_less_diff)
  qed
  then show ?thesis using assms by (metis nle_le)
qed

lemma linear_inj:
  assumes "linear cap h n" "n \<le> cap" "i < n" "j < n" "unat (h + word_of_nat i) mod cap = unat (h + word_of_nat j) mod cap"
  shows "i = j"
  using assms linear_slot [OF assms(1)] by (intro mod_window_inj [of "unat h" i cap j]) auto

section \<open>The queue as a bounded list\<close>

text \<open>What a client relies on: a first-in first-out list of bounded length.\<close>

locale bounded_fifo =
  fixes inv :: "'q \<Rightarrow> bool" and contents :: "'q \<Rightarrow> 'a list" and capacity :: "'q \<Rightarrow> nat"
    and fits :: "'q \<Rightarrow> nat \<Rightarrow> bool"
    and push :: "'q \<Rightarrow> 'a list \<Rightarrow> bool \<times> 'q" and peek pop :: "'q \<Rightarrow> 'a option \<times> 'q" and available :: "'q \<Rightarrow> nat \<times> 'q"
  assumes bounded: "inv q \<Longrightarrow> length (contents q) \<le> capacity q"
    and push_law: "inv q \<Longrightarrow> fits q (length vs) \<Longrightarrow> push q vs = (ok, q') \<Longrightarrow>
      inv q' \<and> capacity q' = capacity q \<and> (ok \<longleftrightarrow> length (contents q) + length vs \<le> capacity q) \<and>
      contents q' = (if ok then contents q @ vs else contents q)"
    and peek_law: "inv q \<Longrightarrow> peek q = (r, q') \<Longrightarrow>
      inv q' \<and> capacity q' = capacity q \<and> contents q' = contents q \<and> r = (case contents q of [] \<Rightarrow> None | v # _ \<Rightarrow> Some v)"
    and pop_law: "inv q \<Longrightarrow> pop q = (r, q') \<Longrightarrow>
      inv q' \<and> capacity q' = capacity q \<and> contents q' = tl (contents q) \<and> r = (case contents q of [] \<Rightarrow> None | v # _ \<Rightarrow> Some v)"
    and available_law: "inv q \<Longrightarrow> available q = (n, q') \<Longrightarrow>
      inv q' \<and> capacity q' = capacity q \<and> contents q' = contents q \<and> n = capacity q - length (contents q)"
begin

text \<open>Drain: popping until nothing is left returns the contents in order.\<close>

fun drain :: "nat \<Rightarrow> 'q \<Rightarrow> 'a list \<times> 'q" where
  "drain 0 q = ([], q)"
| "drain (Suc n) q = (case pop q of (None, q') \<Rightarrow> ([], q') | (Some v, q') \<Rightarrow> let (vs, q'') = drain n q' in (v # vs, q''))"

lemma drain_all: "inv q \<Longrightarrow> length (contents q) \<le> n \<Longrightarrow> \<exists>q'. drain n q = (contents q, q') \<and> inv q' \<and> contents q' = []"
proof (induction n arbitrary: q)
  case (Suc n)
  obtain r q1 where p: "pop q = (r, q1)" by fastforce
  note l = pop_law [OF Suc.prems(1) p]
  show ?case
  proof (cases "contents q")
    case Nil
    then show ?thesis using l p by auto
  next
    case (Cons v vs)
    then have "length (contents q1) \<le> n" "inv q1" using l Suc.prems by auto
    then show ?thesis using Suc.IH [of q1] l p Cons by auto
  qed
qed auto

lemma push_then_pop:
  assumes "inv q" "fits q 1" "contents q = []" "1 \<le> capacity q"
  shows "\<exists>q1 q2. push q [v] = (True, q1) \<and> pop q1 = (Some v, q2) \<and> contents q2 = []"
proof -
  obtain ok q1 where p: "push q [v] = (ok, q1)" by fastforce
  obtain r q2 where p2: "pop q1 = (r, q2)" by fastforce
  have "inv q1 \<and> contents q1 = [v] \<and> ok" using push_law [OF assms(1) _ p] assms by auto
  then show ?thesis using p p2 pop_law [OF _ p2] by auto
qed

end

definition outstanding :: "'a spsc \<Rightarrow> nat" where
  "outstanding q = unat (q_tail q - q_head q)"

definition contents :: "'a spsc \<Rightarrow> 'a list" where
  "contents q = map (\<lambda>i. q_slots q ! slot_of q (q_head q + word_of_nat i)) [0..<outstanding q]"

definition spsc_ok :: "'a spsc \<Rightarrow> bool" where
  "spsc_ok q \<longleftrightarrow> 0 < q_capacity q \<and> q_capacity q \<le> kMaximumSpscCapacity \<and> length (q_slots q) = q_capacity q \<and>
     outstanding q \<le> q_capacity q \<and> q_published_tail q = q_tail q \<and> q_published_head q = q_head q \<and>
     unat (q_cached_tail q - q_head q) \<le> outstanding q \<and> linear (q_capacity q) (q_head q) (outstanding q)"

definition spsc_fits :: "'a spsc \<Rightarrow> nat \<Rightarrow> bool" where
  "spsc_fits q n \<longleftrightarrow> linear (q_capacity q) (q_head q) (outstanding q + n)"

lemma length_contents [simp]: "length (contents q) = outstanding q"
  by (simp add: contents_def)

lemma tail_eq: "q_tail q = q_head q + word_of_nat (outstanding q)"
  by (simp add: outstanding_def)

lemma outstanding_grow:
  assumes "spsc_ok q" "n \<le> q_capacity q"
  shows "unat (q_tail q + word_of_nat n - q_head q) = outstanding q + n"
proof -
  have "outstanding q + n < 2 ^ 64" using assms by (simp add: spsc_ok_def kMaximumSpscCapacity_def)
  moreover have e: "q_tail q + word_of_nat n - q_head q = word_of_nat (outstanding q + n)" by (simp add: outstanding_def)
  ultimately show ?thesis unfolding e unsigned_of_nat take_bit_eq_mod by simp
qed

lemma write_slots_frame [simp]:
  "q_capacity (write_slots t k vs q) = q_capacity q" "q_tail (write_slots t k vs q) = q_tail q"
  "q_head (write_slots t k vs q) = q_head q" "q_cached_tail (write_slots t k vs q) = q_cached_tail q"
  "q_published_head (write_slots t k vs q) = q_published_head q" "q_published_tail (write_slots t k vs q) = q_published_tail q"
  "length (q_slots (write_slots t k vs q)) = length (q_slots q)" "q_cached_head (write_slots t k vs q) = q_cached_head q"
  by (induction vs arbitrary: k q) (simp_all add: write_slot_def)

lemma write_slots_other:
  assumes "\<And>i. k \<le> i \<Longrightarrow> i < k + length vs \<Longrightarrow> slot_of q (t + word_of_nat i) \<noteq> j"
  shows "q_slots (write_slots t k vs q) ! j = q_slots q ! j"
  using assms
proof (induction vs arbitrary: k q)
  case (Cons v vs)
  have "q_slots (write_slots t (k + 1) vs (write_slot t k v q)) ! j = q_slots (write_slot t k v q) ! j"
    by (rule Cons.IH) (use Cons.prems in \<open>auto simp: slot_of_def write_slot_def\<close>)
  moreover have "slot_of q (t + word_of_nat k) \<noteq> j" using Cons.prems [of k] by simp
  ultimately show ?case by (simp add: write_slot_def)
qed simp

lemma write_slots_nth:
  assumes "j < length vs" "length (q_slots q) = q_capacity q" "0 < q_capacity q"
    and "\<And>i. j < i \<Longrightarrow> i < length vs \<Longrightarrow> slot_of q (t + word_of_nat (k + i)) \<noteq> slot_of q (t + word_of_nat (k + j))"
  shows "q_slots (write_slots t k vs q) ! slot_of q (t + word_of_nat (k + j)) = vs ! j"
  using assms
proof (induction vs arbitrary: j k q)
  case (Cons v vs)
  let ?q = "write_slot t k v q"
  have slot: "slot_of ?q = slot_of q" by (auto simp: slot_of_def write_slot_def)
  show ?case
  proof (cases j)
    case 0
    have "q_slots (write_slots t (k + 1) vs ?q) ! slot_of q (t + word_of_nat k) = q_slots ?q ! slot_of q (t + word_of_nat k)"
    proof (rule write_slots_other)
      fix i assume "k + 1 \<le> i" "i < k + 1 + length vs"
      then obtain m where "i = k + m" "0 < m" "m < length (v # vs)" using le_Suc_ex by fastforce
      then show "slot_of ?q (t + word_of_nat i) \<noteq> slot_of q (t + word_of_nat k)" using Cons.prems(4) [of m] 0 by (simp add: slot)
    qed
    moreover have "slot_of q (t + word_of_nat k) < q_capacity q" using Cons.prems(3) by (simp add: slot_of_def)
    ultimately show ?thesis using 0 Cons.prems(2) by (simp add: write_slot_def)
  next
    case (Suc m)
    have "q_slots (write_slots t (k + 1) vs ?q) ! slot_of ?q (t + word_of_nat (k + 1 + m)) = vs ! m"
    proof (rule Cons.IH)
      show "m < length vs" using Cons.prems(1) Suc by simp
      show "length (q_slots ?q) = q_capacity ?q" "0 < q_capacity ?q" using Cons.prems(2,3) by (simp_all add: write_slot_def)
      fix i assume "m < i" "i < length vs"
      then show "slot_of ?q (t + word_of_nat (k + 1 + i)) \<noteq> slot_of ?q (t + word_of_nat (k + 1 + m))"
        using Cons.prems(4) [of "Suc i"] Suc by (simp add: slot)
    qed
    then show ?thesis using Suc by (simp add: slot)
  qed
qed simp

lemma slot_offset: "slot_of q (q_tail q + word_of_nat i) = slot_of q (q_head q + word_of_nat (outstanding q + i))"
  unfolding tail_eq [of q] by (simp add: add.assoc)

lemma push_contents:
  assumes ok: "spsc_ok q" and room: "outstanding q + length vs \<le> q_capacity q" and fits: "spsc_fits q (length vs)"
  defines "q' \<equiv> publish_tail (length vs) (write_slots (q_tail q) 0 vs q)"
  shows "spsc_ok q' \<and> q_capacity q' = q_capacity q \<and> contents q' = contents q @ vs"
proof -
  let ?n = "outstanding q" and ?m = "length vs" and ?w = "write_slots (q_tail q) 0 vs q"
  have lin: "linear (q_capacity q) (q_head q) (?n + ?m)" using fits by (simp add: spsc_fits_def)
  have inj: "i = j" if "i < ?n + ?m" "j < ?n + ?m" "slot_of q (q_head q + word_of_nat i) = slot_of q (q_head q + word_of_nat j)" for i j
    using linear_inj [OF lin room that(1,2)] that(3) by (simp add: slot_of_def)
  have out: "outstanding q' = ?n + ?m" using outstanding_grow [OF ok, of ?m] room by (simp add: outstanding_def q'_def publish_tail_def)
  have f: "q_capacity q' = q_capacity q" "q_head q' = q_head q" "q_slots q' = q_slots ?w" "q_tail q' = q_tail q + word_of_nat ?m"
    "q_published_tail q' = q_tail q'" "q_published_head q' = q_head q'" "q_cached_tail q' = q_cached_tail q"
    using ok by (simp_all add: q'_def publish_tail_def spsc_ok_def)
  have slot: "slot_of q' = slot_of q" by (auto simp: slot_of_def f)
  have old: "q_slots ?w ! slot_of q (q_head q + word_of_nat i) = q_slots q ! slot_of q (q_head q + word_of_nat i)" if "i < ?n" for i
  proof (rule write_slots_other)
    fix k assume "k < 0 + ?m"
    then show "slot_of q (q_tail q + word_of_nat k) \<noteq> slot_of q (q_head q + word_of_nat i)"
      using inj [of "?n + k" i] that unfolding slot_offset by auto
  qed
  have new: "q_slots ?w ! slot_of q (q_head q + word_of_nat (?n + j)) = vs ! j" if "j < ?m" for j
  proof -
    have "q_slots ?w ! slot_of q (q_tail q + word_of_nat (0 + j)) = vs ! j"
    proof (rule write_slots_nth [OF that])
      fix i assume "j < i" "i < ?m"
      then show "slot_of q (q_tail q + word_of_nat (0 + i)) \<noteq> slot_of q (q_tail q + word_of_nat (0 + j))"
        using inj [of "?n + i" "?n + j"] unfolding slot_offset by auto
    qed (use ok in \<open>simp_all add: spsc_ok_def\<close>)
    then show ?thesis unfolding slot_offset by simp
  qed
  have "contents q' = contents q @ vs"
  proof (rule nth_equalityI)
    fix i assume "i < length (contents q')"
    then have i: "i < ?n + ?m" by (simp add: out)
    show "contents q' ! i = (contents q @ vs) ! i"
    proof (cases "i < ?n")
      case True
      then show ?thesis using old [of i] by (simp add: contents_def out slot f nth_append del: upt_Suc)
    next
      case False
      then obtain j where j: "i = ?n + j" "j < ?m" using i le_Suc_ex by fastforce
      have "contents q' ! i = q_slots ?w ! slot_of q (q_head q + word_of_nat i)" using i by (simp add: contents_def out slot f del: upt_Suc)
      then show ?thesis using new [OF j(2)] unfolding j(1) by (simp add: nth_append)
    qed
  qed (simp add: out)
  moreover have "spsc_ok q'" using ok room lin by (simp add: spsc_ok_def out f)
  ultimately show ?thesis using f(1) by simp
qed

lemma available_contents:
  assumes "spsc_ok q" "producer_available q = (n, q')"
  shows "spsc_ok q' \<and> q_capacity q' = q_capacity q \<and> contents q' = contents q \<and> n = q_capacity q - length (contents q) \<and>
    outstanding q' = outstanding q \<and> q_tail q' = q_tail q \<and> q_head q' = q_head q"
  using assms by (auto simp: producer_available_def Let_def spsc_ok_def contents_def outstanding_def slot_of_def)

lemma refresh_contents:
  assumes "spsc_ok q"
  shows "spsc_ok (refresh_tail q) \<and> q_capacity (refresh_tail q) = q_capacity q \<and> contents (refresh_tail q) = contents q \<and>
    q_head (refresh_tail q) = q_head q \<and> outstanding (refresh_tail q) = outstanding q \<and> q_slots (refresh_tail q) = q_slots q \<and>
    (q_head q = q_cached_tail (refresh_tail q) \<longleftrightarrow> outstanding q = 0)"
  using assms
  by (auto simp: refresh_tail_def spsc_ok_def contents_def outstanding_def slot_of_def unat_eq_0)

lemma hd_contents: "outstanding q \<noteq> 0 \<Longrightarrow> contents q = q_slots q ! slot_of q (q_head q) # tl (contents q)"
  by (cases "outstanding q") (simp_all add: contents_def upt_conv_Cons del: upt_Suc)

lemma peek_contents:
  assumes "spsc_ok q" "try_peek q = (r, q')"
  shows "spsc_ok q' \<and> q_capacity q' = q_capacity q \<and> contents q' = contents q \<and> r = (case contents q of [] \<Rightarrow> None | v # _ \<Rightarrow> Some v) \<and>
    (r \<noteq> None \<longrightarrow> q_head q' \<noteq> q_cached_tail q')"
proof -
  note r = refresh_contents [OF assms(1)]
  have q': "q' = refresh_tail q" using assms(2) by (auto simp: try_peek_def Let_def split: if_splits)
  show ?thesis
  proof (cases "outstanding q = 0")
    case True
    then have "contents q = []" by (simp add: contents_def)
    then show ?thesis using r assms(2) True q' by (auto simp: try_peek_def Let_def split: if_splits)
  next
    case False
    then show ?thesis using r assms(2) hd_contents [OF False] q'
      by (auto simp: try_peek_def Let_def slot_of_def split: list.splits if_splits)
  qed
qed

lemma pop_contents:
  assumes ok: "spsc_ok q" and ne: "outstanding q \<noteq> 0" "q_head q \<noteq> q_cached_tail q"
  shows "spsc_ok (publish_head q) \<and> q_capacity (publish_head q) = q_capacity q \<and> contents (publish_head q) = tl (contents q)"
proof -
  let ?q = "publish_head q"
  have sub: "unat (w - (q_head q + 1)) = unat (w - q_head q) - 1" if "w \<noteq> q_head q" for w :: u64
  proof -
    have "w - q_head q \<noteq> 0" using that by simp
    then have "unat (w - q_head q - 1) = unat (w - q_head q) - 1" by (simp add: unat_minus_one)
    then show ?thesis by (simp add: diff_diff_eq)
  qed
  have "q_tail q \<noteq> q_head q" using ne(1) by (auto simp: outstanding_def)
  then have out: "outstanding ?q = outstanding q - 1" using sub [of "q_tail q"] by (simp add: outstanding_def publish_head_def)
  have ct: "unat (q_cached_tail ?q - q_head ?q) \<le> outstanding ?q"
    using sub [of "q_cached_tail q"] ne(2) ok out by (simp add: publish_head_def spsc_ok_def diff_le_mono)
  have lin: "linear (q_capacity q) (q_head ?q) (outstanding ?q)"
  proof -
    have "unat (q_head q + 1) + (outstanding q - 1) \<le> 2 ^ 64" if "unat (q_head q) + outstanding q \<le> 2 ^ 64"
      using that ne(1) unat_add_of_nat [of "q_head q" 1] mod_less_eq_dividend [of "unat (q_head q) + 1" "2 ^ 64"] by simp
    moreover have "q_head ?q = q_head q + 1" by (simp add: publish_head_def)
    ultimately show ?thesis using ok unfolding linear_def spsc_ok_def out by metis
  qed
  have "contents ?q = tl (contents q)"
  proof (rule nth_equalityI)
    fix i assume "i < length (contents ?q)"
    then have i: "i < outstanding q - 1" by (simp add: out)
    then have i': "Suc i < outstanding q" by simp
    have "tl (contents q) ! i = contents q ! Suc i" using i by (simp add: nth_tl)
    also have "\<dots> = q_slots q ! slot_of q (q_head q + 1 + word_of_nat i)" using i' by (simp add: contents_def add.assoc)
    also have "\<dots> = contents ?q ! i" using i by (simp add: contents_def out) (simp add: slot_of_def publish_head_def)
    finally show "contents ?q ! i = tl (contents q) ! i" ..
  qed (simp add: out)
  moreover have "outstanding ?q \<le> q_capacity q" using ok unfolding out spsc_ok_def by linarith
  ultimately show ?thesis using ok ct lin unfolding spsc_ok_def by (simp) (simp add: publish_head_def)
qed

interpretation fifo: bounded_fifo spsc_ok contents q_capacity spsc_fits try_push_batch try_peek try_pop producer_available
proof
  fix q :: "'a spsc" assume ok: "spsc_ok q"
  show "length (contents q) \<le> q_capacity q" using ok by (simp add: spsc_ok_def)
  show "spsc_ok q' \<and> q_capacity q' = q_capacity q \<and> contents q' = contents q \<and> n = q_capacity q - length (contents q)"
    if "producer_available q = (n, q')" for n q' using available_contents [OF ok that] by simp
  show "spsc_ok q' \<and> q_capacity q' = q_capacity q \<and> contents q' = contents q \<and> r = (case contents q of [] \<Rightarrow> None | v # _ \<Rightarrow> Some v)"
    if "try_peek q = (r, q')" for r q' using peek_contents [OF ok that] by simp
  show "spsc_ok q' \<and> q_capacity q' = q_capacity q \<and> contents q' = tl (contents q) \<and> r = (case contents q of [] \<Rightarrow> None | v # _ \<Rightarrow> Some v)"
    if pop: "try_pop q = (r, q')" for r q'
  proof -
    obtain r1 q1 where pk: "try_peek q = (r1, q1)" by fastforce
    note l = peek_contents [OF ok pk]
    show ?thesis
    proof (cases r1)
      case None
      then have "contents q = []" using l by (auto split: list.splits)
      then show ?thesis using pop pk None l by (simp add: try_pop_def)
    next
      case (Some v)
      then have "contents q1 \<noteq> []" using l by (auto split: list.splits)
      then have "outstanding q1 \<noteq> 0" by (metis length_contents length_0_conv)
      then show ?thesis using pop pk Some l pop_contents [of q1] by (auto simp: try_pop_def)
    qed
  qed
  show "spsc_ok q' \<and> q_capacity q' = q_capacity q \<and> (b \<longleftrightarrow> length (contents q) + length vs \<le> q_capacity q) \<and>
      contents q' = (if b then contents q @ vs else contents q)"
    if fits: "spsc_fits q (length vs)" and push: "try_push_batch q vs = (b, q')" for vs b q'
  proof -
    obtain n q1 where av: "producer_available q = (n, q1)" by fastforce
    note l = available_contents [OF ok av]
    have le: "outstanding q \<le> q_capacity q" using ok by (simp add: spsc_ok_def)
    consider "vs = []" | "vs \<noteq> []" "length vs > q_capacity q" | "vs \<noteq> []" "length vs \<le> q_capacity q" "n < length vs"
      | "vs \<noteq> []" "length vs \<le> q_capacity q" "length vs \<le> n" by linarith
    then show ?thesis
    proof cases
      case 1
      then show ?thesis using push ok le by (simp add: try_push_batch_def)
    next
      case 2
      then show ?thesis using push ok by (simp add: try_push_batch_def)
    next
      case 3
      then show ?thesis using push av l by (auto simp: try_push_batch_def)
    next
      case 4
      then have "outstanding q1 + length vs \<le> q_capacity q1" "spsc_fits q1 (length vs)" using l le fits by (auto simp: spsc_fits_def)
      from push_contents [OF _ this] show ?thesis using 4 push av l le by (auto simp: try_push_batch_def)
    qed
  qed
qed

lemma make_spsc_ok:
  assumes "make_spsc sz x n = Inr q"
  shows "spsc_ok q \<and> contents q = [] \<and> q_capacity q = n \<and> q_head q = 0 \<and> outstanding q = 0 \<and>
    \<not> q_producer_claimed q \<and> \<not> q_consumer_claimed q"
  using assms by (auto simp: make_spsc_def sum_bind_def validate_capacity_def spsc_ok_def contents_def outstanding_def linear_def
      split: if_splits)

end
