(* ===== verification/Lane_Merge.thy ===== *)
theory Lane_Merge
  imports Spsc_Queue Command "HOL-Library.Product_Lexorder" "HOL-Library.Multiset"
begin

text \<open>
  The deterministic lane merger (\<^verbatim>\<open>lane_merge.hpp\<close>): of the commands at the heads of the lanes it takes the
  one with the least logical time, lane identifier and lane sequence.
\<close>

section \<open>The merger\<close>

record lane_command =
  lc_payload :: command_payload
  lc_logical_time :: u64
  lc_lane_id :: u32
  lc_lane_sequence :: u64

record merger =
  mg_consumers :: "lane_command spsc list"
  mg_selected_command :: lane_command

definition lane_less :: "lane_command \<Rightarrow> lane_command \<Rightarrow> bool" where
  "lane_less left right =
     (if lc_logical_time left \<noteq> lc_logical_time right then lc_logical_time left < lc_logical_time right
      else if lc_lane_id left \<noteq> lc_lane_id right then lc_lane_id left < lc_lane_id right
      else lc_lane_sequence left < lc_lane_sequence right)"

text \<open>The loop over the lanes, from lane \<open>index\<close> on; the result carries the lanes, whose cached tails move.\<close>

fun scan_lanes :: "nat \<Rightarrow> bool \<Rightarrow> nat \<Rightarrow> lane_command \<Rightarrow> lane_command spsc list \<Rightarrow>
    bool \<times> nat \<times> lane_command \<times> lane_command spsc list" where
  "scan_lanes index found selected best [] = (found, selected, best, [])"
| "scan_lanes index found selected best (q # qs) =
     (case try_peek q of
        (None, q') \<Rightarrow> (case scan_lanes (index + 1) found selected best qs of (f, s, b, qs') \<Rightarrow> (f, s, b, q' # qs'))
      | (Some candidate, q') \<Rightarrow>
          if \<not> found \<or> lane_less candidate best
          then (case scan_lanes (index + 1) True index candidate qs of (f, s, b, qs') \<Rightarrow> (f, s, b, q' # qs'))
          else (case scan_lanes (index + 1) found selected best qs of (f, s, b, qs') \<Rightarrow> (f, s, b, q' # qs')))"

definition merge_try_pop :: "merger \<Rightarrow> lane_command option \<times> merger" where
  "merge_try_pop m =
     (case scan_lanes 0 False 0 (mg_selected_command m) (mg_consumers m) of
        (found, selected, best, qs) \<Rightarrow>
          let m1 = m\<lparr>mg_consumers := qs, mg_selected_command := best\<rparr>
          in if \<not> found then (None, m1)
             else case try_pop (qs ! selected) of (r, q') \<Rightarrow> (r, m1\<lparr>mg_consumers := qs[selected := q']\<rparr>))"

section \<open>The order of the lanes\<close>

definition lane_key :: "lane_command \<Rightarrow> u64 \<times> u32 \<times> u64" where
  "lane_key c = (lc_logical_time c, lc_lane_id c, lc_lane_sequence c)"

lemma lane_less_key: "lane_less a b \<longleftrightarrow> lane_key a < lane_key b"
  by (auto simp: lane_less_def lane_key_def less_prod_def)

definition lanes :: "merger \<Rightarrow> lane_command list list" where
  "lanes m = map contents (mg_consumers m)"

definition merger_ok :: "merger \<Rightarrow> bool" where
  "merger_ok m \<longleftrightarrow> (\<forall>q \<in> set (mg_consumers m). spsc_ok q)"

text \<open>The choice over the lists of commands the lanes hold.\<close>

fun best_head :: "nat \<Rightarrow> bool \<Rightarrow> nat \<Rightarrow> lane_command \<Rightarrow> lane_command list list \<Rightarrow> bool \<times> nat \<times> lane_command" where
  "best_head i f s b [] = (f, s, b)"
| "best_head i f s b ([] # Ls) = best_head (i + 1) f s b Ls"
| "best_head i f s b ((c # cs) # Ls) = (if \<not> f \<or> lane_less c b then best_head (i + 1) True i c Ls else best_head (i + 1) f s b Ls)"

lemma scan_lanes_heads:
  assumes "\<forall>q \<in> set qs. spsc_ok q"
  shows "\<exists>qs'. scan_lanes i f s b qs = (case best_head i f s b (map contents qs) of (f', s', b') \<Rightarrow> (f', s', b', qs')) \<and>
    map contents qs' = map contents qs \<and> (\<forall>q \<in> set qs'. spsc_ok q)"
  using assms
proof (induction qs arbitrary: i f s b)
  case (Cons q qs)
  obtain r q' where pk: "try_peek q = (r, q')" by fastforce
  note l = fifo.peek_law [OF _ pk]
  have ok: "spsc_ok q" "\<forall>q \<in> set qs. spsc_ok q" using Cons.prems by auto
  show ?case
  proof (cases "contents q")
    case Nil
    obtain qs' where "scan_lanes (i + 1) f s b qs = (case best_head (i + 1) f s b (map contents qs) of (f', s', b') \<Rightarrow> (f', s', b', qs'))"
      "map contents qs' = map contents qs" "\<forall>q \<in> set qs'. spsc_ok q" using Cons.IH [OF ok(2), of "i + 1" f s b] by blast
    then show ?thesis using pk l ok Nil by (intro exI [of _ "q' # qs'"]) (auto split: prod.splits)
  next
    case (Cons c cs)
    obtain f1 s1 b1 where n: "(if \<not> f \<or> lane_less c b then (True, i, c) else (f, s, b)) = (f1, s1, b1)" by (metis prod_cases3)
    obtain qs' where "scan_lanes (i + 1) f1 s1 b1 qs = (case best_head (i + 1) f1 s1 b1 (map contents qs) of (f', s', b') \<Rightarrow> (f', s', b', qs'))"
      "map contents qs' = map contents qs" "\<forall>q \<in> set qs'. spsc_ok q" using Cons.IH [OF ok(2), of "i + 1" f1 s1 b1] by blast
    then show ?thesis using pk l ok Cons n by (intro exI [of _ "q' # qs'"]) (auto split: prod.splits if_splits)
  qed
qed simp

lemma best_head_found:
  assumes "best_head i f s b Ls = (f', s', b')"
  shows "(f' \<longleftrightarrow> f \<or> (\<exists>L \<in> set Ls. L \<noteq> [])) \<and>
    (f' \<longrightarrow> (f \<and> s' = s \<and> b' = b \<or> (\<exists>j < length Ls. s' = i + j \<and> Ls ! j \<noteq> [] \<and> b' = hd (Ls ! j)))) \<and>
    (f \<longrightarrow> lane_key b' \<le> lane_key b) \<and> (\<forall>L \<in> set Ls. L \<noteq> [] \<longrightarrow> lane_key b' \<le> lane_key (hd L))"
  using assms
proof (induction i f s b Ls rule: best_head.induct)
  case (2 i f s b Ls)
  from 2(1) [of] 2(2) have ih: "(f' \<longleftrightarrow> f \<or> (\<exists>L \<in> set Ls. L \<noteq> []))"
    "f' \<longrightarrow> (f \<and> s' = s \<and> b' = b \<or> (\<exists>j < length Ls. s' = (i + 1) + j \<and> Ls ! j \<noteq> [] \<and> b' = hd (Ls ! j)))"
    "f \<longrightarrow> lane_key b' \<le> lane_key b" "\<forall>L \<in> set Ls. L \<noteq> [] \<longrightarrow> lane_key b' \<le> lane_key (hd L)" by simp_all
  show ?case
  proof (intro conjI)
    show "f' \<longrightarrow> (f \<and> s' = s \<and> b' = b \<or> (\<exists>j < length ([] # Ls). s' = i + j \<and> ([] # Ls) ! j \<noteq> [] \<and> b' = hd (([] # Ls) ! j)))"
      using ih(2) by (metis Suc_less_eq add_Suc_shift length_Cons nth_Cons_Suc Suc_eq_plus1)
  qed (use ih in simp_all)
next
  case (3 i f s b c cs Ls)
  let ?t = "\<not> f \<or> lane_less c b"
  have ih: "(f' \<longleftrightarrow> True)"
    "(s' = (if ?t then i else s) \<and> b' = (if ?t then c else b)) \<or> (\<exists>j < length Ls. s' = (i + 1) + j \<and> Ls ! j \<noteq> [] \<and> b' = hd (Ls ! j))"
    "lane_key b' \<le> lane_key (if ?t then c else b)" "\<forall>L \<in> set Ls. L \<noteq> [] \<longrightarrow> lane_key b' \<le> lane_key (hd L)"
    using 3 by (cases ?t; auto)+
  show ?case
  proof (intro conjI)
    have "\<exists>j < length ((c # cs) # Ls). s' = i + j \<and> ((c # cs) # Ls) ! j \<noteq> [] \<and> b' = hd (((c # cs) # Ls) ! j)"
      if "\<exists>j < length Ls. s' = (i + 1) + j \<and> Ls ! j \<noteq> [] \<and> b' = hd (Ls ! j)"
      using that by (metis Suc_less_eq add_Suc_shift length_Cons nth_Cons_Suc Suc_eq_plus1)
    then show "f' \<longrightarrow> (f \<and> s' = s \<and> b' = b \<or> (\<exists>j < length ((c # cs) # Ls). s' = i + j \<and> ((c # cs) # Ls) ! j \<noteq> [] \<and> b' = hd (((c # cs) # Ls) ! j)))"
      using ih(2) by (cases ?t) (force split: if_splits)+
    show "f \<longrightarrow> lane_key b' \<le> lane_key b" using ih(3) by (auto simp: lane_less_key split: if_splits)
    show "\<forall>L \<in> set ((c # cs) # Ls). L \<noteq> [] \<longrightarrow> lane_key b' \<le> lane_key (hd L)"
      using ih(3,4) by (auto simp: lane_less_key split: if_splits)
  qed (use ih in simp_all)
qed auto

section \<open>Taking the next command\<close>

lemma merge_try_pop_least:
  assumes ok: "merger_ok m" and run: "merge_try_pop m = (r, m')"
  shows "merger_ok m' \<and> (case r of
      None \<Rightarrow> (\<forall>L \<in> set (lanes m). L = []) \<and> lanes m' = lanes m
    | Some c \<Rightarrow> \<exists>i < length (lanes m). lanes m ! i \<noteq> [] \<and> c = hd (lanes m ! i) \<and> lanes m' = (lanes m)[i := tl (lanes m ! i)] \<and>
        (\<forall>L \<in> set (lanes m). L \<noteq> [] \<longrightarrow> lane_key c \<le> lane_key (hd L)))"
proof -
  obtain f s b where ch: "best_head 0 False 0 (mg_selected_command m) (lanes m) = (f, s, b)" by (metis prod_cases3)
  obtain qs where qs: "scan_lanes 0 False 0 (mg_selected_command m) (mg_consumers m) = (f, s, b, qs)"
    "map contents qs = lanes m" "\<forall>q \<in> set qs. spsc_ok q"
    using scan_lanes_heads [of "mg_consumers m" 0 False 0 "mg_selected_command m"] ok ch unfolding merger_ok_def lanes_def by auto
  note found = best_head_found [OF ch]
  show ?thesis
  proof (cases f)
    case False
    then have "r = None" "m' = m\<lparr>mg_consumers := qs, mg_selected_command := b\<rparr>"
      using run qs(1) by (simp_all add: merge_try_pop_def)
    then show ?thesis using False found qs by (auto simp: merger_ok_def lanes_def)
  next
    case True
    then have i: "s < length (lanes m)" "lanes m ! s \<noteq> []" "b = hd (lanes m ! s)" using found by auto
    have len: "length qs = length (lanes m)" using qs(2) by (metis length_map)
    have c: "contents (qs ! s) = lanes m ! s" using qs(2) i(1) len by (metis nth_map)
    have sq: "spsc_ok (qs ! s)" using qs(3) i(1) len by simp
    obtain r1 q' where pop: "try_pop (qs ! s) = (r1, q')" by fastforce
    note l = fifo.pop_law [OF sq pop]
    have rm: "r = r1" "m\<lparr>mg_selected_command := b, mg_consumers := qs[s := q']\<rparr> = m'"
      using run qs(1) True pop by (simp_all add: merge_try_pop_def)
    have r: "r = Some b" using rm l c i by (auto split: list.splits)
    have "lanes m' = (lanes m)[s := tl (lanes m ! s)]" unfolding rm(2) [symmetric] using l c qs(2) by (simp add: lanes_def map_update)
    moreover have "merger_ok m'" unfolding rm(2) [symmetric] using l qs(3) set_update_subset_insert [of qs s q'] by (auto simp: merger_ok_def)
    ultimately show ?thesis using r i found True by auto
  qed
qed

text \<open>Popping until the lanes are empty.\<close>

fun merge_all :: "nat \<Rightarrow> merger \<Rightarrow> lane_command list \<times> merger" where
  "merge_all 0 m = ([], m)"
| "merge_all (Suc n) m =
     (case merge_try_pop m of (None, m') \<Rightarrow> ([], m') | (Some c, m') \<Rightarrow> (case merge_all n m' of (cs, m'') \<Rightarrow> (c # cs, m'')))"

lemma mset_concat_update:
  assumes "i < length Ls" "Ls ! i = x # xs"
  shows "mset (concat Ls) = add_mset x (mset (concat (Ls[i := xs])))"
  using assms
proof (induction Ls arbitrary: i)
  case (Cons L Ls)
  then show ?case by (cases i) auto
qed simp

lemma merge_all_sorted:
  assumes "merger_ok m" "\<forall>L \<in> set (lanes m). sorted (map lane_key L)" "length (concat (lanes m)) \<le> n" "merge_all n m = (cs, m')"
  shows "sorted (map lane_key cs) \<and> mset cs = mset (concat (lanes m)) \<and> concat (lanes m') = []"
  using assms
proof (induction n arbitrary: m cs)
  case (Suc n)
  obtain r m1 where pop: "merge_try_pop m = (r, m1)" by fastforce
  note l = merge_try_pop_least [OF Suc.prems(1) pop]
  show ?case
  proof (cases r)
    case None
    then show ?thesis using l pop Suc.prems(4) by auto
  next
    case (Some c)
    then obtain i where i: "i < length (lanes m)" "lanes m ! i \<noteq> []" "c = hd (lanes m ! i)" "lanes m1 = (lanes m)[i := tl (lanes m ! i)]"
      and least: "\<forall>L \<in> set (lanes m). L \<noteq> [] \<longrightarrow> lane_key c \<le> lane_key (hd L)" and ok: "merger_ok m1" using l by auto
    obtain ds where ds: "merge_all n m1 = (ds, m')" "cs = c # ds" using Suc.prems(4) pop Some by (auto split: prod.splits)
    have ms: "mset (concat (lanes m)) = add_mset c (mset (concat (lanes m1)))"
      unfolding i(4) by (rule mset_concat_update [OF i(1)]) (use i(2,3) in simp)
    have sub: "\<forall>L \<in> set (lanes m1). sorted (map lane_key L)"
    proof
      fix L assume "L \<in> set (lanes m1)"
      then consider "L \<in> set (lanes m)" | "L = tl (lanes m ! i)" using set_update_subset_insert [of "lanes m" i] i(4) by auto
      then show "sorted (map lane_key L)" using Suc.prems(2) i(1) by cases (auto simp: map_tl sorted_tl)
    qed
    have "size (mset (concat (lanes m))) = Suc (size (mset (concat (lanes m1))))" using ms by simp
    then have len: "length (concat (lanes m1)) \<le> n" using Suc.prems(3) unfolding size_mset by simp
    note ih = Suc.IH [OF ok sub len ds(1)]
    have "lane_key c \<le> lane_key x" if "x \<in> set (concat (lanes m))" for x
    proof -
      obtain L where L: "L \<in> set (lanes m)" "x \<in> set L" using \<open>x \<in> set (concat (lanes m))\<close> by auto
      have "sorted (map lane_key L)" using Suc.prems(2) L(1) by blast
      then have "lane_key (hd L) \<le> lane_key x" using L(2) by (cases L) auto
      moreover have "lane_key c \<le> lane_key (hd L)" using least L by auto
      ultimately show ?thesis by (rule order_trans [rotated])
    qed
    moreover have "set ds = set (concat (lanes m1))" using ih by (metis set_mset_mset)
    moreover have "set (concat (lanes m)) = insert c (set (concat (lanes m1)))" using ms by (metis set_mset_mset set_mset_add_mset_insert)
    ultimately have "\<forall>x \<in> set ds. lane_key c \<le> lane_key x" by blast
    then show ?thesis using ih ms ds(2) by auto
  qed
qed auto

text \<open>
  The merger always takes the least command at the head of a lane, in the order of logical time, lane
  and lane sequence, removes exactly that command, and returns nothing only when every lane is empty.
\<close>

theorem merger_takes_least:
  assumes "merger_ok m" "merge_try_pop m = (r, m')"
  shows "merger_ok m' \<and> (case r of
      None \<Rightarrow> (\<forall>L \<in> set (lanes m). L = []) \<and> lanes m' = lanes m
    | Some c \<Rightarrow> \<exists>i < length (lanes m). lanes m ! i \<noteq> [] \<and> c = hd (lanes m ! i) \<and> lanes m' = (lanes m)[i := tl (lanes m ! i)] \<and>
        (\<forall>L \<in> set (lanes m). L \<noteq> [] \<longrightarrow> \<not> lane_less (hd L) c))"
  using merge_try_pop_least [OF assms] unfolding lane_less_key not_less .

definition demo_lane :: "lane_command spsc" where
  "demo_lane = \<lparr>q_capacity = 2, q_slots = replicate 2 \<lparr>lc_payload = default_payload, lc_logical_time = 4, lc_lane_id = 1, lc_lane_sequence = 1\<rparr>,
     q_tail = 1, q_cached_head = 0, q_published_tail = 1, q_head = 0, q_cached_tail = 0, q_published_head = 0,
     q_producer_claimed = True, q_consumer_claimed = True\<rparr>"

definition demo_merger :: merger where
  "demo_merger = \<lparr>mg_consumers = [demo_lane, demo_lane\<lparr>q_slots := replicate 2 \<lparr>lc_payload = default_payload, lc_logical_time = 3,
     lc_lane_id = 2, lc_lane_sequence = 1\<rparr>\<rparr>],
     mg_selected_command = \<lparr>lc_payload = default_payload, lc_logical_time = 0, lc_lane_id = 0, lc_lane_sequence = 0\<rparr>\<rparr>"

lemma demo_merger_ok: "merger_ok demo_merger"
  by (simp add: merger_ok_def demo_merger_def demo_lane_def spsc_ok_def outstanding_def kMaximumSpscCapacity_def linear_def)

theorem merger_takes_least_witness:
  "\<exists>r m'. merge_try_pop demo_merger = (r, m') \<and> merger_ok m'"
proof -
  obtain r m' where "merge_try_pop demo_merger = (r, m')" by fastforce
  then show ?thesis using merger_takes_least [OF demo_merger_ok] by blast
qed

text \<open>
  C31. Draining lanes that are each in order merges them: every command comes out exactly once and the whole
  output is in the order of logical time, lane and lane sequence, so it does not depend on how the
  lanes are arranged.
\<close>

theorem merger_sorts:
  assumes "merger_ok m" "\<forall>L \<in> set (lanes m). sorted (map lane_key L)" "merge_all (length (concat (lanes m))) m = (cs, m')"
  shows "sorted (map lane_key cs) \<and> mset cs = mset (concat (lanes m)) \<and> concat (lanes m') = []"
  by (rule merge_all_sorted [OF assms(1,2) order_refl assms(3)])

theorem merger_sorts_witness:
  "\<exists>cs m'. merge_all (length (concat (lanes demo_merger))) demo_merger = (cs, m') \<and> sorted (map lane_key cs) \<and> length cs = 2"
proof -
  have len: "length (concat (lanes demo_merger)) = 2" "\<forall>L \<in> set (lanes demo_merger). sorted (map lane_key L)"
    by (simp_all add: lanes_def demo_merger_def demo_lane_def contents_def outstanding_def)
  obtain cs m' where run: "merge_all (length (concat (lanes demo_merger))) demo_merger = (cs, m')" by fastforce
  note m = merger_sorts [OF demo_merger_ok len(2) run]
  then have "size (mset cs) = size (mset (concat (lanes demo_merger)))" by simp
  then have "length cs = 2" using len(1) unfolding size_mset by simp
  then show ?thesis using run m by blast
qed

end
