(* ===== verification/Gateway_Properties.thy ===== *)
theory Gateway_Properties
  imports Gateway
begin

text \<open>The gateway: its invariant, exact admission, the notional without overflow, the rate limit over time.\<close>

section \<open>The invariant\<close>

definition gateway_ok :: "gateway \<Rightarrow> bool" where
  "gateway_ok g \<longleftrightarrow> distinct (gw_active_order_ids g) \<and> 0 \<notin> set (gw_active_order_ids g) \<and>
     length (gw_active_order_ids g) \<le> gc_max_active_orders (gw_config g) \<and>
     length (gw_rate_windows g) = gc_max_lanes (gw_config g) \<and> gc_max_orders_per_second (gw_config g) \<noteq> 0"

lemma rate_limit_frame:
  assumes "rate_limit_exceeded g l t = (b, g')"
  shows "gw_config g' = gw_config g \<and> gw_active_order_ids g' = gw_active_order_ids g \<and>
    length (gw_rate_windows g') = length (gw_rate_windows g)"
  using assms by (auto simp: rate_limit_exceeded_def Let_def split: if_splits)

lemma find_index_less: "find_index x xs \<noteq> length xs \<longleftrightarrow> x \<in> set xs"
  by (induction xs) auto

lemma find_index_nth: "x \<in> set xs \<Longrightarrow> find_index x xs < length xs \<and> xs ! find_index x xs = x"
  by (induction xs) auto

lemma swap_remove:
  assumes "distinct xs" "i < length xs"
  shows "distinct (butlast (xs[i := last xs])) \<and> set (butlast (xs[i := last xs])) = set xs - {xs ! i} \<and>
    length (butlast (xs[i := last xs])) = length xs - 1"
proof -
  obtain ys z where xs: "xs = ys @ [z]" using assms(2) by (cases xs rule: rev_cases) auto
  show ?thesis
  proof (cases "i = length ys")
    case True
    then show ?thesis using assms(1) by (auto simp: xs nth_append)
  next
    case False
    then have i: "i < length ys" using assms(2) xs by simp
    have "butlast (xs[i := last xs]) = ys[i := z]" using i by (simp add: xs list_update_append butlast_append)
    moreover have "distinct (ys[i := z])" using assms(1) xs distinct_list_update [of ys z i] by auto
    moreover have "set (ys[i := z]) = set xs - {xs ! i}"
    proof -
      have d: "distinct ys" "z \<notin> set ys" using assms(1) xs by auto
      have "set (ys[i := z]) = insert z (set ys - {ys ! i})" using i d by (simp add: set_update_distinct)
      then show ?thesis using i d by (auto simp: xs nth_append)
    qed
    ultimately show ?thesis by (simp add: xs)
  qed
qed

text \<open>The checks before the rate limit, none of which changes the gateway.\<close>

definition static_check :: "gateway \<Rightarrow> nat \<Rightarrow> order_id \<Rightarrow> price \<Rightarrow> quantity \<Rightarrow> gateway_reject_reason" where
  "static_check g l oid p q =
     (if l \<ge> gc_max_lanes (gw_config g) then GR_Invalid_Lane
      else if oid = 0 \<or> oid \<in> set (gw_active_order_ids g) then GR_Duplicate_Order_Id
      else if length (gw_active_order_ids g) \<ge> gc_max_active_orders (gw_config g) then GR_Order_Capacity_Exhausted
      else if q > gc_max_quantity (gw_config g) then GR_Quantity_Too_Large
      else if \<not> (gc_min_price (gw_config g) \<le> p \<and> p \<le> gc_max_price (gw_config g)) then GR_Price_Out_Of_Collar
      else if absolute_notional p q > gc_max_notional (gw_config g) then GR_Notional_Too_Large
      else GR_None)"

lemma validate_static:
  "gateway_validate g l oid s p q t = (if static_check g l oid p q \<noteq> GR_None then (static_check g l oid p q, g)
     else case rate_limit_exceeded g l t of (b, g1) \<Rightarrow>
       if b then (GR_Rate_Limited, g1) else (GR_None, g1\<lparr>gw_active_order_ids := gw_active_order_ids g1 @ [oid]\<rparr>))"
  by (simp add: gateway_validate_def static_check_def)

lemma static_check_None:
  assumes "static_check g l oid p q = GR_None"
  shows "l < gc_max_lanes (gw_config g)" "oid \<noteq> 0" "oid \<notin> set (gw_active_order_ids g)"
    "length (gw_active_order_ids g) < gc_max_active_orders (gw_config g)"
  using assms by (auto simp: static_check_def split: if_splits)

text \<open>
  C32. The gateway admits an order exactly when its lane exists, its identifier is new and not zero, a place is
  free, and quantity, price and notional are within the limits and the lane is not over its rate; the
  reason reported is that of the first failing check.  Admission records exactly this identifier,
  refusal records nothing, and release forgets exactly this identifier; the active set stays a set
  of at most the configured size.
\<close>

theorem gateway_admission:
  assumes "gateway_ok g"
  shows "(case gateway_validate g l oid s p q t of (r, g') \<Rightarrow> gateway_ok g' \<and> gw_config g' = gw_config g \<and>
      r = (if l \<ge> gc_max_lanes (gw_config g) then GR_Invalid_Lane
           else if oid = 0 \<or> oid \<in> set (gw_active_order_ids g) then GR_Duplicate_Order_Id
           else if length (gw_active_order_ids g) \<ge> gc_max_active_orders (gw_config g) then GR_Order_Capacity_Exhausted
           else if q > gc_max_quantity (gw_config g) then GR_Quantity_Too_Large
           else if \<not> (gc_min_price (gw_config g) \<le> p \<and> p \<le> gc_max_price (gw_config g)) then GR_Price_Out_Of_Collar
           else if absolute_notional p q > gc_max_notional (gw_config g) then GR_Notional_Too_Large
           else if fst (rate_limit_exceeded g l t) then GR_Rate_Limited else GR_None) \<and>
      set (gw_active_order_ids g') = set (gw_active_order_ids g) \<union> (if r = GR_None then {oid} else {})) \<and>
    gateway_ok (gateway_release g oid) \<and> set (gw_active_order_ids (gateway_release g oid)) = set (gw_active_order_ids g) - {oid}"
proof (intro conjI)
  obtain b g1 where rl: "rate_limit_exceeded g l t = (b, g1)" by fastforce
  note f = rate_limit_frame [OF rl]
  let ?r = "if static_check g l oid p q \<noteq> GR_None then static_check g l oid p q
    else if fst (rate_limit_exceeded g l t) then GR_Rate_Limited else GR_None"
  have "case gateway_validate g l oid s p q t of (r, g') \<Rightarrow> gateway_ok g' \<and> gw_config g' = gw_config g \<and> r = ?r \<and>
      set (gw_active_order_ids g') = set (gw_active_order_ids g) \<union> (if r = GR_None then {oid} else {})"
  proof (cases "static_check g l oid p q = GR_None")
    case True
    then show ?thesis using assms f static_check_None [OF True] by (simp add: validate_static rl gateway_ok_def)
  qed (use assms in \<open>simp add: validate_static\<close>)
  moreover have "?r = (if l \<ge> gc_max_lanes (gw_config g) then GR_Invalid_Lane
           else if oid = 0 \<or> oid \<in> set (gw_active_order_ids g) then GR_Duplicate_Order_Id
           else if length (gw_active_order_ids g) \<ge> gc_max_active_orders (gw_config g) then GR_Order_Capacity_Exhausted
           else if q > gc_max_quantity (gw_config g) then GR_Quantity_Too_Large
           else if \<not> (gc_min_price (gw_config g) \<le> p \<and> p \<le> gc_max_price (gw_config g)) then GR_Price_Out_Of_Collar
           else if absolute_notional p q > gc_max_notional (gw_config g) then GR_Notional_Too_Large
           else if fst (rate_limit_exceeded g l t) then GR_Rate_Limited else GR_None)"
    by (simp add: static_check_def)
  ultimately show "case gateway_validate g l oid s p q t of (r, g') \<Rightarrow> gateway_ok g' \<and> gw_config g' = gw_config g \<and>
      r = (if l \<ge> gc_max_lanes (gw_config g) then GR_Invalid_Lane
           else if oid = 0 \<or> oid \<in> set (gw_active_order_ids g) then GR_Duplicate_Order_Id
           else if length (gw_active_order_ids g) \<ge> gc_max_active_orders (gw_config g) then GR_Order_Capacity_Exhausted
           else if q > gc_max_quantity (gw_config g) then GR_Quantity_Too_Large
           else if \<not> (gc_min_price (gw_config g) \<le> p \<and> p \<le> gc_max_price (gw_config g)) then GR_Price_Out_Of_Collar
           else if absolute_notional p q > gc_max_notional (gw_config g) then GR_Notional_Too_Large
           else if fst (rate_limit_exceeded g l t) then GR_Rate_Limited else GR_None) \<and>
      set (gw_active_order_ids g') = set (gw_active_order_ids g) \<union> (if r = GR_None then {oid} else {})"
    by (simp only:)
  let ?ids = "gw_active_order_ids g" and ?i = "find_index oid (gw_active_order_ids g)"
  have rel: "gateway_ok (gateway_release g oid) \<and> set (gw_active_order_ids (gateway_release g oid)) = set ?ids - {oid}"
  proof (cases "oid \<in> set ?ids")
    case True
    have d: "distinct ?ids" using assms by (simp add: gateway_ok_def)
    note n = find_index_nth [OF True]
    define ids' where "ids' = butlast (?ids[?i := last ?ids])"
    have sw: "distinct ids' \<and> set ids' = set ?ids - {oid} \<and> length ids' = length ?ids - 1"
      using swap_remove [OF d, of ?i] n unfolding ids'_def by simp
    have r: "gateway_release g oid = g\<lparr>gw_active_order_ids := ids'\<rparr>"
      using True find_index_less [of oid ?ids] by (simp add: gateway_release_def Let_def ids'_def)
    show "gateway_ok (gateway_release g oid) \<and> set (gw_active_order_ids (gateway_release g oid)) = set ?ids - {oid}"
      using sw assms unfolding r gateway_ok_def by (simp_all add: le_diff_conv)
  next
    case False
    then have "gateway_release g oid = g" using find_index_less [of oid ?ids] by (simp add: gateway_release_def Let_def)
    then show "gateway_ok (gateway_release g oid) \<and> set (gw_active_order_ids (gateway_release g oid)) = set ?ids - {oid}"
      using assms False by auto
  qed
  then show "gateway_ok (gateway_release g oid)" "set (gw_active_order_ids (gateway_release g oid)) = set ?ids - {oid}" by simp_all
qed

definition demo_gateway :: gateway where
  "demo_gateway = make_gateway \<lparr>gc_max_active_orders = 2, gc_max_lanes = 1, gc_max_quantity = 10, gc_max_notional = 500,
     gc_min_price = - 100, gc_max_price = 100, gc_max_orders_per_second = 2\<rparr>"

lemma demo_gateway_ok: "gateway_ok demo_gateway"
  by (simp add: gateway_ok_def demo_gateway_def make_gateway_def)

theorem gateway_admission_witness:
  "fst (gateway_validate demo_gateway 0 7 (Valid_Side Buy) (- 50) 10 3) = GR_None \<and> gateway_ok (gateway_release demo_gateway 7)"
proof -
  have "\<not> fst (rate_limit_exceeded demo_gateway 0 3)" "\<not> absolute_notional (- 50) 10 > gc_max_notional (gw_config demo_gateway)"
    by (simp_all add: demo_gateway_def make_gateway_def rate_limit_exceeded_def absolute_notional_def)
  then show ?thesis using gateway_admission [OF demo_gateway_ok, where l = 0 and oid = 7 and s = "Valid_Side Buy" and p = "- 50" and q = 10 and t = 3]
    by (simp add: demo_gateway_def make_gateway_def split: prod.splits)
qed

text \<open>
  The notional is the product of the absolute price and the quantity, saturated at the largest 64-bit
  value: neither the sign change of the smallest price nor the product wraps.
\<close>

theorem notional_saturates:
  assumes "int64_range p"
  shows "unat (absolute_notional p q) = min (2 ^ 64 - 1) (nat \<bar>p\<bar> * unat q)"
  by (rule notional_min [OF assms])

theorem notional_saturates_witness:
  "unat (absolute_notional (- (2 ^ 63)) 2) = 2 ^ 64 - 1 \<and> unat (absolute_notional (- 3) 5) = 15"
proof -
  have "int64_range (- (2 ^ 63))" "int64_range (- 3)" by (simp_all add: int64_range_def kInt64Min_def kInt64Max_def)
  from notional_saturates [OF this(1), of 2] notional_saturates [OF this(2), of 5] show ?thesis by simp
qed

section \<open>The rate limit over time\<close>

datatype gateway_call = Validate nat order_id raw_side price quantity u64 | Release order_id

text \<open>A history of calls: the log of admitted orders by lane and window, the gateway, the latest time.\<close>

fun gateway_step :: "(nat \<times> u64) list \<times> gateway \<Rightarrow> gateway_call \<Rightarrow> (nat \<times> u64) list \<times> gateway" where
  "gateway_step (log, g) (Validate l oid s p q t) =
     (case gateway_validate g l oid s p q t of (r, g') \<Rightarrow> (if r = GR_None then (l, t div kRateWindowSize) # log else log, g'))"
| "gateway_step (log, g) (Release oid) = (log, gateway_release g oid)"

fun call_times :: "gateway_call list \<Rightarrow> u64 list" where
  "call_times [] = []"
| "call_times (Validate l oid s p q t # cs) = t # call_times cs"
| "call_times (Release oid # cs) = call_times cs"

text \<open>What the window of a lane says about the log up to time \<open>T\<close>.\<close>

definition window_ok :: "u64 \<Rightarrow> u64 \<Rightarrow> (nat \<times> u64) list \<Rightarrow> nat \<Rightarrow> rate_window \<Rightarrow> bool" where
  "window_ok limit T log l w \<longleftrightarrow> (\<forall>k. count_list log (l, k) \<le> unat limit) \<and>
     (if rw_count w = 0 then \<forall>k. count_list log (l, k) = 0
      else count_list log (l, rw_start w) = unat (rw_count w) \<and> (\<forall>k > rw_start w. count_list log (l, k) = 0) \<and>
           rw_start w \<le> T div kRateWindowSize)"

definition rate_ok :: "u64 \<Rightarrow> (nat \<times> u64) list \<Rightarrow> gateway \<Rightarrow> bool" where
  "rate_ok T log g \<longleftrightarrow> gc_max_orders_per_second (gw_config g) \<noteq> 0 \<and> length (gw_rate_windows g) = gc_max_lanes (gw_config g) \<and>
     (\<forall>(l, k) \<in> set log. l < gc_max_lanes (gw_config g)) \<and>
     (\<forall>l < gc_max_lanes (gw_config g). window_ok (gc_max_orders_per_second (gw_config g)) T log l (gw_rate_windows g ! l))"

lemma bucket_mono: "(T :: u64) \<le> t \<Longrightarrow> T div kRateWindowSize \<le> t div kRateWindowSize"
  by (simp add: word_le_nat_alt unat_div_distrib div_le_mono)

lemma window_ok_later: "window_ok lim T log l w \<Longrightarrow> T \<le> t \<Longrightarrow> window_ok lim t log l w"
  using bucket_mono [of T t] by (auto simp: window_ok_def)

lemma window_ok_other: "l' \<noteq> l \<Longrightarrow> window_ok lim T ((l', k) # log) l w = window_ok lim T log l w"
  by (simp add: window_ok_def)

lemma window_ok_admit:
  assumes ok: "window_ok lim t log l w" and lim: "lim \<noteq> 0"
  defines "k \<equiv> t div kRateWindowSize"
  defines "w1 \<equiv> if rw_count w = 0 \<or> k \<noteq> rw_start w then \<lparr>rw_start = k, rw_count = 0\<rparr> else w"
  assumes room: "\<not> rw_count w1 \<ge> lim"
  shows "window_ok lim t ((l, k) # log) l (w1\<lparr>rw_count := rw_count w1 + 1\<rparr>)"
proof -
  have lt: "unat (rw_count w1) < unat lim" using room by (simp add: word_less_nat_alt word_le_nat_alt)
  have suc: "unat (rw_count w1 + 1) = unat (rw_count w1) + 1"
  proof -
    have "rw_count w1 \<noteq> - 1" using room by auto
    then have "1 + rw_count w1 \<noteq> 0" by (simp add: eq_neg_iff_add_eq_0 add.commute)
    then show ?thesis using unatSuc [of "rw_count w1"] by (simp add: add.commute)
  qed
  then have nz: "rw_count w1 + 1 \<noteq> 0" by auto
  have st: "rw_start w1 = k" by (auto simp: w1_def)
  have cnt: "count_list log (l, k) = unat (rw_count w1)" and later: "\<forall>k' > k. count_list log (l, k') = 0"
  proof -
    show "count_list log (l, k) = unat (rw_count w1)"
    proof (cases "rw_count w = 0 \<or> k \<noteq> rw_start w")
      case True
      have "count_list log (l, k) = 0"
      proof (cases "rw_count w = 0")
        case False
        then have "rw_start w < k" using ok True by (auto simp: window_ok_def k_def order.order_iff_strict)
        then show ?thesis using ok False by (simp add: window_ok_def)
      qed (use ok in \<open>simp add: window_ok_def\<close>)
      then show ?thesis using True by (simp add: w1_def)
    qed (use ok in \<open>auto simp: window_ok_def w1_def\<close>)
    show "\<forall>k' > k. count_list log (l, k') = 0"
    proof (cases "rw_count w = 0")
      case False
      then have "rw_start w \<le> k" using ok by (simp add: window_ok_def k_def)
      then show ?thesis using ok False by (auto simp: window_ok_def intro: order.strict_trans1)
    qed (use ok in \<open>simp add: window_ok_def\<close>)
  qed
  have "count_list ((l, k) # log) (l, k') \<le> unat lim" for k'
    using ok lt cnt by (cases "k' = k") (auto simp: window_ok_def)
  then show ?thesis using nz suc st cnt later by (simp add: window_ok_def k_def)
qed

lemma rate_ok_step:
  assumes ok: "rate_ok T log g" and t: "\<And>l oid s p q t. c = Validate l oid s p q t \<Longrightarrow> T \<le> t"
    and step: "gateway_step (log, g) c = (log', g')"
  shows "rate_ok (case c of Validate l oid s p q t \<Rightarrow> t | Release oid \<Rightarrow> T) log' g' \<and>
    gc_max_orders_per_second (gw_config g') = gc_max_orders_per_second (gw_config g)"
proof (cases c)
  case (Release oid)
  have "gw_config (gateway_release g oid) = gw_config g" "gw_rate_windows (gateway_release g oid) = gw_rate_windows g"
    by (simp_all add: gateway_release_def Let_def)
  then show ?thesis using ok step Release by (auto simp: rate_ok_def)
next
  case (Validate l oid s p q t)
  let ?lim = "gc_max_orders_per_second (gw_config g)"
  have Tt: "T \<le> t" using t Validate by blast
  have ok': "rate_ok t log g" using ok window_ok_later [OF _ Tt] by (auto simp: rate_ok_def)
  obtain b g1 where rl: "rate_limit_exceeded g l t = (b, g1)" by fastforce
  let ?w = "gw_rate_windows g ! l"
  define w1 where "w1 = (if rw_count ?w = 0 \<or> t div kRateWindowSize \<noteq> rw_start ?w then \<lparr>rw_start = t div kRateWindowSize, rw_count = 0\<rparr> else ?w)"
  have lim: "?lim \<noteq> 0" using ok by (simp add: rate_ok_def)
  have rl': "(b, g1) = (if rw_count w1 \<ge> ?lim then (True, g\<lparr>gw_rate_windows := (gw_rate_windows g)[l := w1]\<rparr>)
      else (False, g\<lparr>gw_rate_windows := (gw_rate_windows g)[l := w1\<lparr>rw_count := rw_count w1 + 1\<rparr>]\<rparr>))"
    unfolding rl [symmetric] rate_limit_exceeded_def Let_def w1_def [symmetric] using lim by simp
  consider (static) "static_check g l oid p q \<noteq> GR_None" "log' = log" "g' = g"
    | (limited) "b" "log' = log" "g' = g1"
    | (admitted) "\<not> b" "static_check g l oid p q = GR_None" "log' = (l, t div kRateWindowSize) # log"
        "g' = g1\<lparr>gw_active_order_ids := gw_active_order_ids g1 @ [oid]\<rparr>"
    using step Validate rl by (auto simp: validate_static split: if_splits)
  then have "rate_ok t log' g' \<and> gc_max_orders_per_second (gw_config g') = ?lim"
  proof cases
    case static
    then show ?thesis using ok' by simp
  next
    case limited
    then have "rw_count w1 \<ge> ?lim" "g1 = g\<lparr>gw_rate_windows := (gw_rate_windows g)[l := w1]\<rparr>" using rl' by (auto split: if_splits)
    moreover have "w1 = ?w" using \<open>rw_count w1 \<ge> ?lim\<close> lim by (auto simp: w1_def split: if_splits)
    ultimately show ?thesis using limited ok' by (simp add: rate_ok_def)
  next
    case admitted
    then have nb: "\<not> rw_count w1 \<ge> ?lim" "g1 = g\<lparr>gw_rate_windows := (gw_rate_windows g)[l := w1\<lparr>rw_count := rw_count w1 + 1\<rparr>]\<rparr>"
      using rl' by (auto split: if_splits)
    have l: "l < gc_max_lanes (gw_config g)" by (rule static_check_None(1) [OF admitted(2)])
    have "window_ok ?lim t ((l, t div kRateWindowSize) # log) l (w1\<lparr>rw_count := rw_count w1 + 1\<rparr>)"
      unfolding w1_def by (rule window_ok_admit) (use ok' l lim nb(1) in \<open>auto simp: rate_ok_def w1_def\<close>)
    then show ?thesis using ok' l admitted(3,4) nb(2) window_ok_other by (auto simp: rate_ok_def nth_list_update)
  qed
  then show ?thesis using Validate by simp
qed

lemma rate_ok_run:
  assumes "rate_ok T log g" "sorted (T # call_times cs)" "foldl gateway_step (log, g) cs = (log', g')"
  shows "\<exists>T'. rate_ok T' log' g' \<and> gc_max_orders_per_second (gw_config g') = gc_max_orders_per_second (gw_config g)"
  using assms
proof (induction cs arbitrary: T log g)
  case (Cons c cs)
  obtain log1 g1 where st: "gateway_step (log, g) c = (log1, g1)" by fastforce
  have t: "\<And>l oid s p q t. c = Validate l oid s p q t \<Longrightarrow> T \<le> t" using Cons.prems(2) by auto
  note r = rate_ok_step [OF Cons.prems(1) t st]
  have "sorted ((case c of Validate l oid s p q t \<Rightarrow> t | Release oid \<Rightarrow> T) # call_times cs)"
    using Cons.prems(2) by (cases c) auto
  then show ?case using Cons.IH [OF conjunct1 [OF r], of] Cons.prems(3) st r by auto
qed auto

text \<open>
  C33. Whatever is validated and released in between, as long as the times passed in do not decrease, no lane
  has more than \<^verbatim>\<open>max_orders_per_second\<close> orders admitted in any window of 1000 time units.
\<close>

theorem gateway_rate_bounded:
  assumes "sorted (call_times cs)" "foldl gateway_step ([], make_gateway config) cs = (log, g)"
  shows "count_list log (l, k) \<le> unat (gc_max_orders_per_second (gw_config (make_gateway config)))"
proof -
  have "rate_ok 0 [] (make_gateway config)" by (auto simp: rate_ok_def make_gateway_def Let_def window_ok_def)
  moreover have "sorted (0 # call_times cs)" using assms(1) by simp
  ultimately obtain T where T: "rate_ok T log g"
    "gc_max_orders_per_second (gw_config g) = gc_max_orders_per_second (gw_config (make_gateway config))"
    using rate_ok_run [OF _ _ assms(2)] by blast
  show ?thesis
  proof (cases "l < gc_max_lanes (gw_config g)")
    case True
    then show ?thesis using T by (auto simp: rate_ok_def window_ok_def)
  next
    case False
    then have "(l, k) \<notin> set log" using T(1) by (auto simp: rate_ok_def)
    then show ?thesis by (simp add: count_list_0_iff)
  qed
qed

theorem gateway_rate_bounded_witness:
  "\<exists>log g. foldl gateway_step ([], demo_gateway) [Validate 0 7 (Valid_Side Buy) 5 1 3, Release 7, Validate 0 8 (Valid_Side Buy) 5 1 900] = (log, g) \<and>
     count_list log (0, 0) \<le> 2"
proof -
  let ?cs = "[Validate 0 7 (Valid_Side Buy) 5 1 3, Release 7, Validate 0 8 (Valid_Side Buy) 5 1 900]"
  obtain log g where run: "foldl gateway_step ([], demo_gateway) ?cs = (log, g)" by fastforce
  have "sorted (call_times ?cs)" by simp
  from gateway_rate_bounded [OF this run [unfolded demo_gateway_def], of 0 0] run show ?thesis by (auto simp: make_gateway_def)
qed

end
