(* ===== verification/Market_Data_Properties.thy ===== *)
theory Market_Data_Properties
  imports Market_Data Gateway_Properties Frame_Properties Engine_Properties
begin

text \<open>
  The market data reader returns a gap-free feed as it was given, and the adapter's vector of handles is the finite map of
  the handles last recorded.
\<close>

section \<open>The reader\<close>

definition md_frame :: "market_data_message \<Rightarrow> u8 list" where
  "md_frame m = snd (encode_market_data_frame m (replicate 64 0))"

fun read_many :: "nat \<Rightarrow> market_data_input \<Rightarrow> (market_data_input_error + market_data_message option) list" where
  "read_many 0 s = []"
| "read_many (Suc n) s = (let (r, s1) = read_next s in r # read_many n s1)"

text \<open>Messages that have a frame, and feeds in which every number is one more than the number before.\<close>

definition framed :: "market_data_message \<Rightarrow> bool" where
  "framed m \<longleftrightarrow> is_canonical m \<and> int64_range (md_price m)"

fun gap_free :: "market_data_message list \<Rightarrow> bool" where
  "gap_free (m # m' # ms) \<longleftrightarrow> unat (md_sequence m') = unat (md_sequence m) + 1 \<and> gap_free (m' # ms)"
| "gap_free _ \<longleftrightarrow> True"

lemma validate_sequence_iff:
  "validate_market_data_sequence p m = MF_None \<longleftrightarrow> p = 0 \<or> unat (md_sequence m) = unat p + 1"
proof -
  have "p \<noteq> - 1 \<and> md_sequence m = p + 1 \<longleftrightarrow> unat (md_sequence m) = unat p + 1"
  proof (cases "p = - 1")
    case True
    have lt: "unat (md_sequence m) < 2 ^ 64" by (rule order.strict_trans2 [OF unsigned_less]) simp
    have "unat p + 1 = 2 ^ 64" using True by (simp add: unsigned_minus_1_eq_mask mask_eq_exp_minus_1)
    then have "unat (md_sequence m) \<noteq> unat p + 1" using lt by linarith
    then show ?thesis using True by blast
  next
    case False
    then have "unat (p + 1) = unat p + 1" by (metis unat_suc_u64)
    then show ?thesis using False by (metis word_unat_eq_iff)
  qed
  then show ?thesis by (auto simp: validate_market_data_sequence_def)
qed

lemma md_frame_decode:
  assumes "is_canonical m" "int64_range (md_price m)"
  shows "decode_market_data_frame (md_frame m) = Inr m"
  unfolding md_frame_def by (rule encode_md_bytes [of "replicate 64 0" m]) (use md_bytes_decode assms in auto)

lemma length_md_frame: "is_canonical m \<Longrightarrow> int64_range (md_price m) \<Longrightarrow> length (md_frame m) = 64"
  using md_frame_decode [of m] by (auto simp: decode_market_data_frame_def kEncodedMarketDataFrameSize_def split: if_splits)

lemma read_next_frame:
  assumes "framed m"
  shows "read_next \<lparr>mi_input = md_frame m @ bs, mi_previous_sequence = p\<rparr> =
    (if p = 0 \<or> unat (md_sequence m) = unat p + 1 then (Inr (Some m), \<lparr>mi_input = bs, mi_previous_sequence = md_sequence m\<rparr>)
     else (Inl MI_Sequence_Gap, \<lparr>mi_input = bs, mi_previous_sequence = p\<rparr>))"
proof -
  have f: "is_canonical m" "int64_range (md_price m)" using assms by (simp_all add: framed_def)
  have n: "md_frame m \<noteq> []" using length_md_frame [OF f] by auto
  show ?thesis unfolding validate_sequence_iff [symmetric]
    using n by (simp add: read_next_def kEncodedMarketDataFrameSize_def length_md_frame [OF f] md_frame_decode [OF f] Let_def)
qed

lemma read_many_feed:
  "list_all framed ms \<Longrightarrow> gap_free ms \<Longrightarrow> ms = [] \<or> p = 0 \<or> unat (md_sequence (hd ms)) = unat p + 1 \<Longrightarrow>
     read_many (length ms + n) \<lparr>mi_input = concat (map md_frame ms) @ bs, mi_previous_sequence = p\<rparr> =
     map (Inr \<circ> Some) ms @ read_many n \<lparr>mi_input = bs, mi_previous_sequence = (if ms = [] then p else md_sequence (last ms))\<rparr>"
proof (induction ms arbitrary: p)
  case (Cons m ms)
  have g: "gap_free ms" "ms = [] \<or> md_sequence m = 0 \<or> unat (md_sequence (hd ms)) = unat (md_sequence m) + 1"
    using Cons.prems(2) by (cases ms; simp)+
  show ?case using Cons.IH [OF _ g] Cons.prems(1,3) by (auto simp: read_next_frame)
qed simp

lemma read_next_empty: "read_next \<lparr>mi_input = [], mi_previous_sequence = p\<rparr> = (Inr None, \<lparr>mi_input = [], mi_previous_sequence = p\<rparr>)"
  by (simp add: read_next_def)

lemma read_next_short:
  assumes "bs \<noteq> []" "length bs < 64"
  shows "read_next \<lparr>mi_input = bs, mi_previous_sequence = p\<rparr> = (Inl MI_Truncated_Frame, \<lparr>mi_input = [], mi_previous_sequence = p\<rparr>)"
  using assms by (simp add: read_next_def kEncodedMarketDataFrameSize_def)

text \<open>
  C38. A file holding the frames of a feed whose numbers increase by one is read back as exactly that feed, then as end of input or,
  with a partial frame behind it, as a truncated frame.  In every state of the reader the next frame is returned when no number has been
  recorded yet or its number is one more than the recorded one, and is otherwise refused as a gap; the recorded number 0 stands for
  none, so behind a message numbered 0 every number is accepted.  And whatever the input, the number of a returned message is recorded
  and is one more than the number recorded before, unless that was 0.
\<close>

theorem input_reads_feed:
  "(list_all framed ms \<and> gap_free ms \<and> length bs < 64 \<longrightarrow>
      read_many (length ms + 2) \<lparr>mi_input = concat (map md_frame ms) @ bs, mi_previous_sequence = 0\<rparr> =
        map (Inr \<circ> Some) ms @ [if bs = [] then Inr None else Inl MI_Truncated_Frame, Inr None]) \<and>
   (framed f \<longrightarrow> read_next \<lparr>mi_input = md_frame f @ rest_of_input, mi_previous_sequence = p\<rparr> =
      (if p = 0 \<or> unat (md_sequence f) = unat p + 1
       then (Inr (Some f), \<lparr>mi_input = rest_of_input, mi_previous_sequence = md_sequence f\<rparr>)
       else (Inl MI_Sequence_Gap, \<lparr>mi_input = rest_of_input, mi_previous_sequence = p\<rparr>))) \<and>
   (read_next s = (Inr (Some m), s') \<longrightarrow> mi_previous_sequence s' = md_sequence m \<and>
      (mi_previous_sequence s = 0 \<or> unat (md_sequence m) = unat (mi_previous_sequence s) + 1))"
proof (intro conjI impI; (elim conjE)?)
  assume a: "list_all framed ms" "gap_free ms" "length bs < 64"
  have "read_many 2 \<lparr>mi_input = bs, mi_previous_sequence = p\<rparr> = [if bs = [] then Inr None else Inl MI_Truncated_Frame, Inr None]" for p
    using a(3) by (simp add: numeral_2_eq_2 read_next_empty read_next_short)
  then show "read_many (length ms + 2) \<lparr>mi_input = concat (map md_frame ms) @ bs, mi_previous_sequence = 0\<rparr> =
        map (Inr \<circ> Some) ms @ [if bs = [] then Inr None else Inl MI_Truncated_Frame, Inr None]"
    using read_many_feed [OF a(1,2), of 0 2 bs] by (simp only: simp_thms)
next
  assume "framed f"
  then show "read_next \<lparr>mi_input = md_frame f @ rest_of_input, mi_previous_sequence = p\<rparr> =
      (if p = 0 \<or> unat (md_sequence f) = unat p + 1
       then (Inr (Some f), \<lparr>mi_input = rest_of_input, mi_previous_sequence = md_sequence f\<rparr>)
       else (Inl MI_Sequence_Gap, \<lparr>mi_input = rest_of_input, mi_previous_sequence = p\<rparr>))" by (rule read_next_frame)
next
  assume a: "read_next s = (Inr (Some m), s')"
  then show "mi_previous_sequence s' = md_sequence m"
    by (auto simp: read_next_def Let_def split: if_splits sum.splits)
  from a show "mi_previous_sequence s = 0 \<or> unat (md_sequence m) = unat (mi_previous_sequence s) + 1"
    unfolding validate_sequence_iff [symmetric] by (auto simp: read_next_def Let_def split: if_splits sum.splits)
qed

definition demo_md :: "u64 \<Rightarrow> market_data_message" where
  "demo_md n = \<lparr>md_sequence = n, md_order_id = 0, md_secondary_order_id = 0, md_price = 105, md_quantity = 30, md_secondary_quantity = 0,
      md_order_count = 2, md_type = MD_Level_Update, md_side = Valid_Side Sell\<rparr>"

lemma demo_framed: "framed (demo_md n)"
  by (simp add: demo_md_def framed_def is_canonical_def is_valid_side_def int64_range_def kInt64Min_def kInt64Max_def)

lemma demo_md_sequence: "md_sequence (demo_md n) = n"
  by (simp add: demo_md_def)

theorem input_reads_feed_witness:
  "read_many 4 \<lparr>mi_input = concat (map md_frame [demo_md 7, demo_md 8]) @ [1, 2], mi_previous_sequence = 0\<rparr> =
     [Inr (Some (demo_md 7)), Inr (Some (demo_md 8)), Inl MI_Truncated_Frame, Inr None] \<and>
   fst (read_next \<lparr>mi_input = md_frame (demo_md 9), mi_previous_sequence = 7\<rparr>) = Inl MI_Sequence_Gap"
proof
  have "list_all framed [demo_md 7, demo_md 8] \<and> gap_free [demo_md 7, demo_md 8] \<and> length [1 :: u8, 2] < 64"
    by (simp add: demo_framed demo_md_sequence)
  from input_reads_feed [THEN conjunct1, rule_format, OF this]
  have "read_many (length [demo_md 7, demo_md 8] + 2) \<lparr>mi_input = concat (map md_frame [demo_md 7, demo_md 8]) @ [1, 2], mi_previous_sequence = 0\<rparr> =
    map (Inr \<circ> Some) [demo_md 7, demo_md 8] @ [if [1 :: u8, 2] = [] then Inr None else Inl MI_Truncated_Frame, Inr None]" .
  moreover have "length [demo_md 7, demo_md 8] + 2 = 4" by simp
  ultimately show "read_many 4 \<lparr>mi_input = concat (map md_frame [demo_md 7, demo_md 8]) @ [1, 2], mi_previous_sequence = 0\<rparr> =
     [Inr (Some (demo_md 7)), Inr (Some (demo_md 8)), Inl MI_Truncated_Frame, Inr None]" by (simp only: list.simps comp_apply append.simps if_False)
  show "fst (read_next \<lparr>mi_input = md_frame (demo_md 9), mi_previous_sequence = 7\<rparr>) = Inl MI_Sequence_Gap"
    using input_reads_feed [THEN conjunct2, THEN conjunct1, rule_format, OF demo_framed, of 9 "[]" 7] by (simp add: demo_md_sequence)
qed

text \<open>A feed that jumps from 0 to 9 is not gap-free, yet it is read without an error.\<close>

lemma zero_hides_gap:
  "\<not> gap_free [demo_md 0, demo_md 9] \<and>
   read_many 2 \<lparr>mi_input = concat (map md_frame [demo_md 0, demo_md 9]), mi_previous_sequence = 0\<rparr> = [Inr (Some (demo_md 0)), Inr (Some (demo_md 9))]"
proof
  show "\<not> gap_free [demo_md 0, demo_md 9]" by (simp add: demo_md_sequence)
  have "read_many (Suc (Suc 0)) \<lparr>mi_input = concat (map md_frame [demo_md 0, demo_md 9]), mi_previous_sequence = 0\<rparr> = [Inr (Some (demo_md 0)), Inr (Some (demo_md 9))]"
    using read_next_frame [OF demo_framed, of 0 "md_frame (demo_md 9)" 0] read_next_frame [OF demo_framed, of 9 "[]" 0]
    by (simp add: demo_md_sequence)
  then show "read_many 2 \<lparr>mi_input = concat (map md_frame [demo_md 0, demo_md 9]), mi_previous_sequence = 0\<rparr> = [Inr (Some (demo_md 0)), Inr (Some (demo_md 9))]"
    by (simp only: numeral_2_eq_2)
qed

section \<open>The adapter's handles\<close>

definition handles_ok :: "market_data_adapter \<Rightarrow> bool" where
  "handles_ok a \<longleftrightarrow> distinct (map fst (ad_handles a))"

text \<open>
  The events that decide about the identifier \<open>x\<close>, and the handle such an event records.  Trades are not among them.
\<close>

definition decides :: "order_id \<Rightarrow> engine_event \<Rightarrow> bool" where
  "decides x e \<longleftrightarrow> ev_order_id e = x \<and> (ev_type e = EV_Submit_Result \<or> ev_type e = EV_Stop_Triggered \<or> ev_type e = EV_Cancel_Result \<and> ev_reason e = 0)"

definition recorded :: "engine_event \<Rightarrow> handle option" where
  "recorded e = (if ev_type e = EV_Cancel_Result \<or> h_index (ev_handle e) = kInvalidIndex then None else Some (ev_handle e))"

text \<open>One event, as an update of the map.\<close>

definition track :: "(order_id \<rightharpoonup> handle) \<Rightarrow> engine_event \<Rightarrow> (order_id \<rightharpoonup> handle)" where
  "track f e =
     (if ev_type e \<in> {EV_Submit_Result, EV_Stop_Triggered} then
        f(ev_order_id e := if h_index (ev_handle e) = kInvalidIndex then None else Some (ev_handle e))
      else if ev_type e = EV_Cancel_Result \<and> ev_reason e = 0 then f(ev_order_id e := None) else f)"

lemma option_ext: "(\<And>v. a = Some v \<longleftrightarrow> b = Some v) \<Longrightarrow> a = b"
  by (metis not_None_eq)

lemma map_of_swap_remove:
  assumes "distinct (map fst hs)" "x \<in> fst ` set hs"
  shows "distinct (map fst (drop_handle x hs)) \<and> map_of (drop_handle x hs) = (map_of hs)(x := None)"
proof -
  let ?i = "find_index x (map fst hs)"
  have i: "?i < length hs" "fst (hs ! ?i) = x" using find_index_nth [of x "map fst hs"] assms(2) by auto
  have d: "distinct hs" using assms(1) by (simp add: distinct_map)
  have e: "drop_handle x hs = butlast (hs[?i := last hs])" using i by (simp add: drop_handle_def)
  have s: "set (drop_handle x hs) = set hs - {hs ! ?i}" using swap_remove [OF d i(1)] e by simp
  have "hs \<noteq> []" using i by auto
  then have m: "map fst (drop_handle x hs) = butlast ((map fst hs)[?i := last (map fst hs)])"
    by (simp add: e map_butlast map_update last_map)
  then have dk: "distinct (map fst (drop_handle x hs))" using swap_remove [OF assms(1)] i by simp
  have u: "(y, v) = hs ! ?i \<longleftrightarrow> y = x" if "(y, v) \<in> set hs" for y v
    using that i nth_mem [OF i(1)] assms(1) by (metis eq_key_imp_eq_value fst_conv prod.collapse)
  have "map_of (drop_handle x hs) y = ((map_of hs)(x := None)) y" for y
  proof -
    have "map_of (drop_handle x hs) y = Some v \<longleftrightarrow> ((map_of hs)(x := None)) y = Some v" for v
    proof -
      have "(y, v) \<in> set hs - {hs ! ?i} \<longleftrightarrow> y \<noteq> x \<and> (y, v) \<in> set hs" using u by blast
      then show ?thesis by (cases "y = x") (simp_all add: map_of_eq_Some_iff [OF dk] map_of_eq_Some_iff [OF assms(1)] s)
    qed
    then show ?thesis by (rule option_ext)
  qed
  then show ?thesis using dk by blast
qed

lemma drop_handle_absent: "x \<notin> fst ` set hs \<Longrightarrow> drop_handle x hs = hs"
  using find_index_less [of x "map fst hs"] by (auto simp: drop_handle_def Let_def)

lemma map_of_drop_handle:
  assumes "distinct (map fst hs)"
  shows "distinct (map fst (drop_handle x hs)) \<and> map_of (drop_handle x hs) = (map_of hs)(x := None)"
proof (cases "x \<in> fst ` set hs")
  case True
  then show ?thesis by (rule map_of_swap_remove [OF assms])
next
  case False
  then have "map_of hs x = None" by (simp add: map_of_eq_None_iff)
  then show ?thesis using assms by (simp add: drop_handle_absent [OF False] fun_upd_idem)
qed

lemma map_of_set_handle:
  assumes "distinct (map fst hs)" "map_of hs x \<noteq> None"
  shows "distinct (map fst (hs[find_index x (map fst hs) := (x, h)])) \<and>
    map_of (hs[find_index x (map fst hs) := (x, h)]) = (map_of hs)(x \<mapsto> h)"
  using assms
proof (induction hs)
  case (Cons p hs)
  show ?case
  proof (cases "fst p = x")
    case True
    then show ?thesis using Cons.prems(1) by (cases p) auto
  next
    case False
    then have IH: "distinct (map fst (hs[find_index x (map fst hs) := (x, h)]))"
        "map_of (hs[find_index x (map fst hs) := (x, h)]) = (map_of hs)(x \<mapsto> h)"
      using Cons by auto
    have "x \<in> set (map fst hs)" using Cons.prems(2) False by (cases p) (force dest: map_of_SomeD split: if_splits)
    then have "map fst (hs[find_index x (map fst hs) := (x, h)]) = map fst hs"
      using find_index_nth [of x "map fst hs"] by (simp add: map_update list_update_same_conv)
    then show ?thesis using IH False Cons.prems(1) by (cases p) (auto simp: fun_upd_twist)
  qed
qed simp

lemma record_tracks:
  assumes "handles_ok a"
  shows "handles_ok (record_applied_event a e) \<and>
    map_of (ad_handles (record_applied_event a e)) = track (map_of (ad_handles a)) e"
proof -
  have d: "distinct (map fst (ad_handles a))" using assms by (simp add: handles_ok_def)
  have n: "distinct (map fst (ad_handles a @ [(x, h)])) \<and> map_of (ad_handles a @ [(x, h)]) = (map_of (ad_handles a))(x \<mapsto> h)"
    if "map_of (ad_handles a) x = None" for x h
  proof -
    have "x \<notin> fst ` set (ad_handles a)" using that by (simp add: map_of_eq_None_iff)
    then show ?thesis using that d by (auto simp: map_add_def fun_eq_iff split: option.split)
  qed
  show ?thesis
    using map_of_drop_handle [OF d, of "ev_order_id e"] map_of_set_handle [OF d, of "ev_order_id e" "ev_handle e"]
      n [of "ev_order_id e" "ev_handle e"] d
    by (auto simp: record_applied_event_def find_handle_def handles_ok_def track_def fun_upd_idem split: option.splits)
qed

lemma track_decides: "track f e x = (if decides x e then recorded e else f x)"
  by (auto simp: track_def decides_def recorded_def)

lemma record_one:
  assumes "handles_ok a"
  shows "handles_ok (record_applied_event a e) \<and>
    find_handle (record_applied_event a e) x = (if decides x e then recorded e else find_handle a x)"
  using record_tracks [OF assms, of e] by (simp add: find_handle_def track_decides)

lemma record_many:
  assumes "handles_ok a"
  shows "handles_ok (foldl record_applied_event a es) \<and>
    find_handle (foldl record_applied_event a es) x =
      (if filter (decides x) es = [] then find_handle a x else recorded (last (filter (decides x) es)))"
  using assms
proof (induction es arbitrary: a)
  case (Cons e es)
  then show ?case using record_one [OF Cons.prems, of e x] Cons.IH [of "record_applied_event a e"] by auto
qed simp

text \<open>
  C37. The adapter's vector of handles, kept by overwriting and swapping with the last element, is the finite map of the handles
  recorded last: after any events its identifiers are distinct, and looking one up gives what the last submit result, triggered stop or
  successful cancel for it left, a handle or nothing, and what was there before when there was no such event.  Trades do not
  change it: an identifier is still found when its order has been filled completely as a maker, so the map is not one
  to resting orders only.
\<close>

theorem adapter_tracks_handles:
  "handles_ok (make_adapter g) \<and> find_handle (make_adapter g) x = None \<and>
   (handles_ok a \<longrightarrow> handles_ok (foldl record_applied_event a es) \<and>
      find_handle (foldl record_applied_event a es) x =
        (if filter (decides x) es = [] then find_handle a x else recorded (last (filter (decides x) es))) \<and>
      (list_all (\<lambda>t. ev_type t = EV_Trade) fills \<longrightarrow>
        find_handle (foldl record_applied_event a (es @ fills)) x = find_handle (foldl record_applied_event a es) x))"
proof -
  have "find_handle (foldl record_applied_event a (es @ fills)) x = find_handle (foldl record_applied_event a es) x"
    if "handles_ok a" "list_all (\<lambda>t. ev_type t = EV_Trade) fills"
  proof -
    have "filter (decides x) fills = []" using that(2) by (auto simp: filter_empty_conv list_all_iff decides_def)
    then show ?thesis using record_many [of "foldl record_applied_event a es" fills x] record_many [OF that(1), of es x] by simp
  qed
  then show ?thesis using record_many [of a es x] by (simp add: handles_ok_def make_adapter_def find_handle_def)
qed

definition demo_md_event :: "engine_event_type \<Rightarrow> order_id \<Rightarrow> handle \<Rightarrow> engine_event" where
  "demo_md_event t oid h = \<lparr>ev_command_sequence = 1, ev_order_id = oid, ev_secondary_order_id = 0, ev_price = 0, ev_quantity = 1,
     ev_secondary_quantity = 0, ev_handle = h, ev_event_index = 0, ev_type = t, ev_reason = 0, ev_reserved = 0\<rparr>"

theorem adapter_tracks_handles_witness:
  "let es = [demo_md_event EV_Submit_Result 7 \<lparr>h_index = 1, h_generation = 1\<rparr>, demo_md_event EV_Submit_Result 8 \<lparr>h_index = 2, h_generation = 1\<rparr>,
      demo_md_event EV_Cancel_Result 7 \<lparr>h_index = 1, h_generation = 1\<rparr>]; a = make_adapter demo_gateway
   in find_handle (foldl record_applied_event a es) 7 = None \<and>
      find_handle (foldl record_applied_event a (es @ [demo_md_event EV_Trade 8 kInvalidHandle])) 8 = Some \<lparr>h_index = 2, h_generation = 1\<rparr>"
proof -
  let ?es = "[demo_md_event EV_Submit_Result 7 \<lparr>h_index = 1, h_generation = 1\<rparr>, demo_md_event EV_Submit_Result 8 \<lparr>h_index = 2, h_generation = 1\<rparr>,
      demo_md_event EV_Cancel_Result 7 \<lparr>h_index = 1, h_generation = 1\<rparr>]" and ?a = "make_adapter demo_gateway"
  have ok: "handles_ok ?a" and t: "list_all (\<lambda>t. ev_type t = EV_Trade) [demo_md_event EV_Trade 8 kInvalidHandle]"
    by (simp_all add: handles_ok_def make_adapter_def demo_md_event_def)
  have f: "filter (decides 7) ?es = [?es ! 0, ?es ! 2]" "filter (decides 8) ?es = [?es ! 1]" by (simp_all add: decides_def demo_md_event_def)
  have "find_handle (foldl record_applied_event ?a ?es) 7 = recorded (?es ! 2)"
    "find_handle (foldl record_applied_event ?a (?es @ [demo_md_event EV_Trade 8 kInvalidHandle])) 8 = recorded (?es ! 1)"
    using adapter_tracks_handles [of demo_gateway 7 ?a ?es "[]"]
      adapter_tracks_handles [of demo_gateway 8 ?a ?es "[demo_md_event EV_Trade 8 kInvalidHandle]"] ok t unfolding f by simp_all
  then show ?thesis by (simp add: recorded_def demo_md_event_def kInvalidIndex_def)
qed

text \<open>
  The engine and the adapter together: order 3 rests, order 4 fills it completely, and the adapter still finds the handle of order 3, which the
  book no longer resolves.
\<close>

definition demo_feed :: "sequenced_command list" where
  "demo_feed = [\<lparr>sc_payload = payload_submit_limit 3 (Valid_Side Sell) 103 5 GTC, sc_sequence = 7, sc_logical_time = 41\<rparr>,
     \<lparr>sc_payload = payload_submit_market 4 (Valid_Side Buy) 5, sc_sequence = 8, sc_logical_time = 42\<rparr>]"

fun feed_engine :: "sequenced_command list \<Rightarrow> engine \<Rightarrow> market_data_adapter \<Rightarrow> (engine \<times> market_data_adapter) option" where
  "feed_engine [] e a = Some (e, a)"
| "feed_engine (c # cs) e a = (case apply_command e c (replicate 5 default_event) of
     Some (Inr (r, e1, evs)) \<Rightarrow>
       if ap_status r = AS_Applied then feed_engine cs e1 (foldl record_applied_event a (take (ap_event_count r) evs)) else None
   | _ \<Rightarrow> None)"

lemma filled_maker_stale_handle:
  "case feed_engine demo_feed (demo_engine\<lparr>se_book := demo_new\<rparr>) (make_adapter demo_gateway) of
     Some (e, a) \<Rightarrow> (case find_handle a 3 of Some h \<Rightarrow> get_order_info (se_book e) h = None | None \<Rightarrow> False) | None \<Rightarrow> False"
  by code_simp

end
