(* ===== verification/Order_Book_Admission.thy ===== *)
theory Order_Book_Admission
  imports Order_Book_Submit
begin

text \<open>
  The admission checks of a limit order, read off the market a client sees: the walk over the levels that decides whether a fill-or-kill order
  can be filled finds the quantity of the crossing part of the ladder, and an order crosses exactly when that part is not empty.
\<close>

section \<open>Levels in priority order\<close>

lemma ladder_split_keys:
  assumes "ladder_of b Q s = pre @ (l, ms) # tl0"
  shows "filter (\<lambda>k. Q s k \<noteq> []) (priority s (ticks b)) = map fst pre @ l # map fst tl0" "ms = makers b (Q s l)" "Q s l \<noteq> []" "l < ticks b"
proof -
  let ?ks = "filter (\<lambda>k. Q s k \<noteq> []) (priority s (ticks b))"
  have "map fst (ladder_of b Q s) = ?ks" by (simp add: ladder_of_def comp_def)
  then show ks: "?ks = map fst pre @ l # map fst tl0" using assms by simp
  have "(l, ms) \<in> set (ladder_of b Q s)" using assms by simp
  then show "ms = makers b (Q s l)" "Q s l \<noteq> []" "l < ticks b" by (auto simp: ladder_of_def)
qed

lemma next_level_ladder:
  assumes rep: "book_rep b Q S X" and lad: "ladder_of b Q s = pre @ (l, ms) # tl0"
  shows "next_level b s l = (case tl0 of [] \<Rightarrow> None | (k, _) # _ \<Rightarrow> Some k)"
proof -
  note sh = rep_shape [OF rep] and ks = ladder_split_keys [OF lad]
  let ?E = "bm_elems (occupancy b s)" and ?ks = "filter (\<lambda>k. Q s k \<noteq> []) (priority s (ticks b))"
  have E: "?E = set ?ks" using rep by (auto simp: book_rep_def not_le [symmetric])
  have "sorted_wrt (better s) ?ks" by (rule sorted_wrt_filter [OF priority_sorted])
  then have so: "\<forall>k \<in> set (map fst pre). better s k l" "\<forall>k \<in> set (map fst tl0). better s l k" "sorted_wrt (better s) (map fst tl0)"
    unfolding ks(1) by (auto simp: sorted_wrt_append)
  have mem: "k \<in> ?E \<longleftrightarrow> k \<in> set (map fst pre) \<or> k = l \<or> k \<in> set (map fst tl0)" for k unfolding E ks(1) by auto
  have after: "k \<in> ?E \<and> better s l k \<longleftrightarrow> k \<in> set (map fst tl0)" for k
    using so(1,2) mem [of k] by (cases s) (auto dest: bspec)
  have bounded: "k < ticks b" if "k \<in> ?E" for k using that unfolding E by simp
  have none: "tl0 = [] \<Longrightarrow> \<not> (k \<in> ?E \<and> better s l k)" for k using after by simp
  have first: "k \<in> ?E \<and> better s l k \<and> (\<forall>m. m \<in> ?E \<and> better s l m \<longrightarrow> m = k \<or> better s k m)" if "tl0 = (k, x) # rest0" for k x rest0
    using that after so(3) by auto
  show ?thesis
  proof (cases s)
    case Sell
    have ls: "is_least (\<lambda>j. j \<in> ?E) (l + 1) (ticks b) (next_level b s l)"
      using next_set_ok [OF shape_occ(1) [OF sh], of s "l + 1"] shape_occ(2) [OF sh, of s] Sell
      by (auto simp: next_level.simps is_least_def split: option.splits)
    show ?thesis
    proof (cases tl0)
      case Nil
      then have "\<not> (l + 1 \<le> k \<and> k < ticks b \<and> k \<in> ?E)" for k using none [OF Nil, of k] Sell by auto
      then show ?thesis using ls Nil by (cases "next_level b s l") (auto simp: is_least_def)
    next
      case (Cons p rest0)
      obtain k x where p: "p = (k, x)" by fastforce
      note f = first [OF Cons [unfolded p]]
      then have "is_least (\<lambda>j. j \<in> ?E) (l + 1) (ticks b) (Some k)" using Sell bounded by (fastforce simp: is_least_def)
      then have "next_level b s l = Some k" using is_least_eq_Some [OF ls, of k] by (auto simp: is_least_def)
      then show ?thesis by (simp add: Cons p)
    qed
  next
    case Buy
    have gr: "l \<noteq> 0 \<Longrightarrow> is_greatest (\<lambda>j. j \<in> ?E) (l - 1) (next_level b s l)" "l = 0 \<Longrightarrow> next_level b s l = None"
      using previous_set_ok [OF shape_occ(1) [OF sh], of "l - 1" s] shape_occ(2) [OF sh, of s] Buy ks(4)
      by (auto simp: next_level.simps)
    show ?thesis
    proof (cases tl0)
      case Nil
      then have "\<not> (k < l \<and> k \<in> ?E)" for k using none [OF Nil, of k] Buy by auto
      then have "next_level b s l = None" using gr by (cases "l = 0"; cases "next_level b s l") (auto simp: is_greatest_def)
      then show ?thesis using Nil by simp
    next
      case (Cons p rest0)
      obtain k x where p: "p = (k, x)" by fastforce
      note f = first [OF Cons [unfolded p]]
      have l0: "l \<noteq> 0" using f Buy by auto
      obtain j where j: "next_level b s l = Some j" "j \<le> l - 1" "j \<in> ?E" "\<forall>m. j < m \<and> m \<le> l - 1 \<longrightarrow> m \<notin> ?E"
        using gr(1) [OF l0] f Buy by (cases "next_level b s l") (auto simp: is_greatest_def)
      have "better s l j" using j(2) l0 Buy by simp
      then have "j = k \<or> j < k" using f j(3) Buy by auto
      moreover have "k \<le> l - 1" using f Buy by auto
      ultimately have "j = k" using j(4) f by auto
      then show ?thesis using j(1) by (simp add: Cons p)
    qed
  qed
qed

section \<open>Quantities\<close>

lemma sum_of_words: "sum_list (map (\<lambda>i. unat (f i)) q) < 2 ^ 64 \<Longrightarrow> unat (sum_list (map f q) :: u64) = sum_list (map (\<lambda>i. unat (f i)) q)"
  by (induction q) (auto simp: unat_word_ariths)

lemma level_quantity:
  assumes rep: "book_rep b Q S X" and l: "l < ticks b"
  shows "unat (pl_aggregate (level b s l)) = quantity_of (makers b (Q s l))"
proof -
  let ?q = "Q s l"
  have lv: "level_rep b s l ?q" by (rule rep_level [OF rep l])
  have "unat (o_rem b i) \<le> kUint32Max" if "i \<in> set ?q" for i
  proof -
    have "o_rem b i \<le> ob_max_quantity b" using rep_active [OF rep that] by (simp add: active_ok_def)
    moreover have "unat (ob_max_quantity b) \<le> kUint32Max" using rep_shape [OF rep] by (simp add: book_shape_def)
    ultimately show ?thesis by (simp add: word_le_nat_alt)
  qed
  then have "sum_list (map (\<lambda>i. unat (o_rem b i)) ?q) \<le> length ?q * kUint32Max"
    using sum_list_mono [of ?q "\<lambda>i. unat (o_rem b i)" "\<lambda>_. kUint32Max"] by (simp add: sum_list_triv)
  also have "\<dots> \<le> kUint32Max * kUint32Max"
    using queue_length [OF rep, of s l] shape_slots_max [OF rep_shape [OF rep]] by (intro mult_le_mono) simp_all
  also have "\<dots> < 2 ^ 64" by (simp add: kUint32Max_def)
  finally have "unat (sum_list (map (o_rem b) ?q)) = sum_list (map (\<lambda>i. unat (o_rem b i)) ?q)" by (rule sum_of_words)
  then show ?thesis using lv by (simp add: level_rep_def quantity_of_def makers_def maker_of_def comp_def)
qed

lemma crossing_Cons: "crossing ts limit ((l, ms) # lad) = (if within ts limit l then (l, ms) # crossing ts limit lad else [])"
  by (simp add: crossing_def)

text \<open>The loop of \<^verbatim>\<open>can_fully_fill\<close> from any level on.\<close>

lemma can_fully_fill_loop_ladder:
  assumes rep: "book_rep b Q S X" and lad: "ladder_of b Q (opposite_side s) = pre @ lad" and av: "a < q"
  shows "can_fully_fill_loop b s l q a (case lad of [] \<Rightarrow> None | (k, _) # _ \<Rightarrow> Some k) \<longleftrightarrow>
    unat q \<le> unat a + ladder_quantity (crossing s (Some l) lad)"
  using lad av
proof (induction lad arbitrary: pre a)
  case Nil
  then show ?case by (subst can_fully_fill_loop.simps) (simp add: crossing_def word_less_nat_alt)
next
  case (Cons p lad)
  obtain k ms where p: "p = (k, ms)" by fastforce
  note sp = ladder_split_keys [OF Cons.prems(1) [unfolded p]]
  let ?s = "opposite_side s" and ?lq = "pl_aggregate (level b (opposite_side s) k)"
  have lq: "unat ?lq = quantity_of ms" using level_quantity [OF rep sp(4), of ?s] sp(2) by simp
  have lt: "unat a < unat q" using Cons.prems(2) by (simp add: word_less_nat_alt)
  have nx: "next_level b ?s k = (case lad of [] \<Rightarrow> None | (k, _) # _ \<Rightarrow> Some k)"
    by (rule next_level_ladder [OF rep Cons.prems(1) [unfolded p]])
  let ?a = "a + min ?lq (q - a)"
  have d: "unat (q - a) = unat q - unat a" using Cons.prems(2) by (simp add: unat_sub less_imp_le)
  have ua: "unat ?a = unat a + min (quantity_of ms) (unat q - unat a)"
  proof -
    have "unat (min ?lq (q - a)) = min (quantity_of ms) (unat q - unat a)" using lq d by (simp add: min_def word_le_nat_alt)
    moreover have "unat q < 2 ^ 64" by (rule order.strict_trans2 [OF unsigned_less]) simp
    then have "unat a + min (quantity_of ms) (unat q - unat a) < 2 ^ 64"
      using lt min.cobounded2 [of "quantity_of ms" "unat q - unat a"] by linarith
    ultimately show ?thesis by (simp add: unat_word_ariths)
  qed
  have fin: "?a = q \<longleftrightarrow> unat q \<le> unat a + quantity_of ms" using ua lt by (auto simp: word_unat_eq_iff min_def)
  have un: "can_fully_fill_loop b s l q a (Some k) \<longleftrightarrow> crosses s k l \<and> (?a = q \<or> can_fully_fill_loop b s l q ?a (next_level b ?s k))"
    by (subst can_fully_fill_loop.simps) (simp add: Let_def)
  show ?case
  proof (cases "crosses s k l \<and> ?a \<noteq> q")
    case True
    then have "?a < q" "unat ?a = unat a + quantity_of ms" using ua lt fin by (auto simp: word_less_nat_alt min_def)
    then show ?thesis using True un Cons.IH [of "pre @ [p]" ?a] Cons.prems(1) nx p by (simp add: crossing_Cons add.assoc)
  next
    case False
    then show ?thesis using un fin lt p by (auto simp: crossing_Cons)
  qed
qed

section \<open>The checks on the market\<close>

text \<open>The part of the opposite side that an order with the limit \<open>l\<close> may trade with.\<close>

definition reachable_makers :: "book \<Rightarrow> side \<Rightarrow> nat \<Rightarrow> ladder" where
  "reachable_makers b s l = crossing s (Some l) (ladder (ticks b) (mkt_queue (view b) (opposite_side s)) (opposite_side s))"

lemma reachable_rep: "book_ok b \<Longrightarrow> reachable_makers b s l = crossing s (Some l) (ladder_of b (queue_of b) (opposite_side s))"
  by (simp add: reachable_makers_def view_def ladder_of_view [of b "queue_of b" "opposite_side s" "stop_queue b", symmetric])

lemma can_fully_fill_view:
  assumes "book_ok b" "q \<noteq> 0"
  shows "can_fully_fill b s l q \<longleftrightarrow> unat q \<le> ladder_quantity (reachable_makers b s l)"
proof -
  have rep: "book_rep b (queue_of b) (stop_queue b) {}" using assms(1) by (simp add: book_ok_def)
  have "0 < q" using assms(2) by (simp add: word_gt_0)
  from can_fully_fill_loop_ladder [OF rep _ this, where pre = "[]"] show ?thesis
    unfolding can_fully_fill_def best_index_ladder [OF rep] reachable_rep [OF assms(1)] by simp
qed

lemma has_crossing_view:
  assumes "book_ok b" shows "has_crossing_order b s l \<longleftrightarrow> reachable_makers b s l \<noteq> []"
proof -
  have rep: "book_rep b (queue_of b) (stop_queue b) {}" using assms by (simp add: book_ok_def)
  show ?thesis unfolding has_crossing_order_def best_index_ladder [OF rep] reachable_rep [OF assms]
    by (auto simp: crossing_def split: list.split)
qed

text \<open>
  What a client can work out beforehand: the first reason not to admit a limit order, from the configuration of the book, the market it
  shows, the number of orders it holds and the size of the caller's trade buffer.
\<close>

definition limit_verdict :: "book \<Rightarrow> raw_side \<Rightarrow> price \<Rightarrow> quantity \<Rightarrow> time_in_force \<Rightarrow> nat \<Rightarrow> reject_reason" where
  "limit_verdict b rs p q tif room =
     (if tif \<notin> {GTC, IOC, FOK} then RR_Invalid_Time_In_Force
      else case rs of Raw_Side _ \<Rightarrow> RR_Invalid_Side | Valid_Side s \<Rightarrow>
        if q = 0 then RR_Zero_Quantity
        else if ob_max_quantity b < q then RR_Quantity_Too_Large
        else if room < slots b then RR_Insufficient_Trade_Capacity
        else if p < pd_minimum (ob_domain b) \<or> pd_maximum (ob_domain b) < p then RR_Price_Out_Of_Domain
        else if ob_trading_state b = Opening_Auction \<and> tif \<noteq> GTC then RR_Invalid_Trading_State
        else if tif = FOK \<and> ladder_quantity (reachable_makers b s (nat (p - pd_minimum (ob_domain b)))) < unat q then RR_Fok_Not_Fillable
        else if tif = GTC \<and> card (live_set (ob_arena b)) = slots b \<and>
            (ob_trading_state b = Opening_Auction \<or> reachable_makers b s (nat (p - pd_minimum (ob_domain b))) = []) then RR_Order_Capacity_Exhausted
        else RR_None)"

lemma limit_checks_verdict:
  assumes ok: "book_ok b"
  shows "limit_verdict b rs p q tif room =
    (if \<not> is_valid_time_in_force tif then RR_Invalid_Time_In_Force
     else if preflight b rs q \<noteq> RR_None then preflight b rs q
     else if room < slots b then RR_Insufficient_Trade_Capacity
     else preflight_limit b rs p q tif)"
proof (cases rs)
  case (Valid_Side s)
  have sh: "book_shape b" using ok by (auto simp: book_ok_def)
  have ex: "arena_exhausted b \<longleftrightarrow> card (live_set (ob_arena b)) = slots b"
    using sh by (simp add: arena_exhausted_def book_shape_def arena_ok_def)
  have v: "is_valid_side rs" using Valid_Side by (cases s) (simp_all add: is_valid_side_def)
  let ?l = "nat (p - pd_minimum (ob_domain b))"
  have ix: "index_of (ob_domain b) p = (if p < pd_minimum (ob_domain b) \<or> pd_maximum (ob_domain b) < p then None else Some ?l)"
    by (auto simp: index_of_def pd_contains_def)
  have tf: "is_valid_time_in_force tif \<longleftrightarrow> tif \<in> {GTC, IOC, FOK}" by (auto simp: is_valid_time_in_force_def)
  show ?thesis
  proof (cases "q = 0")
    case True
    then show ?thesis using v by (simp add: limit_verdict_def preflight_def tf Valid_Side del: insert_iff)
  next
    case False
    have ff: "can_fully_fill b s ?l q \<longleftrightarrow> \<not> ladder_quantity (reachable_makers b s ?l) < unat q"
      using can_fully_fill_view [OF ok False] by (simp add: not_less)
    show ?thesis unfolding limit_verdict_def preflight_def preflight_limit_def Let_def tf Valid_Side ix
      using v False by (simp add: Valid_Side ff ex has_crossing_view [OF ok] del: insert_iff)
  qed
qed (simp add: limit_verdict_def preflight_def is_valid_side_def is_valid_time_in_force_def)

end
