(* ===== verification/Order_Book_Properties.thy ===== *)
theory Order_Book_Properties
  imports Order_Book_Demo Order_Book_Admission
begin

text \<open>The properties of the order book's operations, each over the whole operation.\<close>

section \<open>Order entry\<close>

text \<open>
  C1. A limit order that passes the admission checks in continuous trading, under FIFO allocation and
  without self-trade prevention, does what the market specification says: it takes liquidity in
  price-time priority up to its limit, joins the back of its queue with the rest when it is good till
  cancelled, and sets off the cascade of stop orders.  The call returns; its result, the trades in the
  buffer, the activation reports and the new book are those of the specification, the invariant
  holds and the configuration is unchanged.  The only other outcome is a write past the end of the trade buffer, exactly when the
  specification has more trade reports than the buffer has room for.
\<close>

theorem submit_limit_refines:
  assumes "book_ok b" "free_trading b" "ob_trading_state b = Continuous"
    and "preflight_limit b (Valid_Side s) p q tif = RR_None" "slots b \<le> length T"
  shows "\<exists>slot l. index_of (ob_domain b) p = Some l \<and>
    entered (submit_limit b oid trader (Valid_Side s) p q tif T) b T q (tif = GTC) slot
      (enter_limit (ob_domain b) oid trader s l q q (tif = GTC) slot (view b))"
  by (rule limit_entered [OF assms])

theorem submit_limit_refines_witness:
  "\<exists>slot l. index_of (ob_domain demo_ask) 104 = Some l \<and>
    entered (submit_limit demo_ask 2 7 (Valid_Side Buy) 104 8 GTC (buffer 2)) demo_ask (buffer 2) 8 True slot
      (enter_limit (ob_domain demo_ask) 2 7 Buy l 8 8 True slot (view demo_ask))"
proof -
  have "preflight_limit demo_ask (Valid_Side Buy) 104 8 GTC = RR_None" by code_simp
  from submit_limit_refines [OF demo_ask_ok(1-3) this demo_ask_ok(4)] show ?thesis by simp
qed

text \<open>
  C2. A market order that passes the admission checks does what the market specification says, under FIFO allocation and without
  self-trade prevention (cancel-taker): it takes liquidity at any price in price-time priority, never rests, and
  sets off the cascade of stop orders.  The call returns with the result, trades, activation reports and new book of the
  specification, and the invariant holds; or it writes past the end of the trade buffer, exactly when the specification has
  more trade reports than the buffer has room for.
\<close>

theorem submit_market_refines:
  assumes "book_ok b" "free_trading b" "preflight_market b (Valid_Side s) q = RR_None" "slots b \<le> length T"
  shows "entered (submit_market b oid (Valid_Side s) q T) b T q False 0 (enter_market (ob_domain b) oid s q (view b))"
  by (rule market_entered [OF assms])

theorem submit_market_refines_witness:
  "entered (submit_market demo_ask 2 (Valid_Side Buy) 9 (buffer 2)) demo_ask (buffer 2) 9 False 0
     (enter_market (ob_domain demo_ask) 2 Buy 9 (view demo_ask))"
proof -
  have "preflight_market demo_ask (Valid_Side Buy) 9 = RR_None" by code_simp
  from submit_market_refines [OF demo_ask_ok(1,2) this demo_ask_ok(4)] show ?thesis .
qed

text \<open>
  C3. An iceberg order that passes the admission checks outside the opening auction does what the market specification says,
  under FIFO allocation and without self-trade prevention (cancel-taker): it matches with its whole quantity up to its
  limit, rests with what is left, showing the smaller of its display quantity and the rest, and sets off the cascade
  of stop orders.  The call returns as specified; or it writes past the end of the trade buffer, exactly when the
  specification has more trade reports than the buffer has room for.
\<close>

theorem submit_iceberg_refines:
  assumes "book_ok b" "free_trading b" "ob_trading_state b \<noteq> Opening_Auction"
    and "preflight_limit b (Valid_Side s) p q GTC = RR_None" "slots b \<le> length T"
    and "peak \<noteq> 0" "peak \<le> q"
  shows "\<exists>slot l. index_of (ob_domain b) p = Some l \<and>
    entered (submit_iceberg b oid trader (Valid_Side s) p q peak T) b T q True slot
      (enter_limit (ob_domain b) oid trader s l q peak True slot (view b))"
  by (rule iceberg_entered [OF assms])

theorem submit_iceberg_refines_witness:
  "\<exists>slot l. index_of (ob_domain demo_ask) 103 = Some l \<and>
    entered (submit_iceberg demo_ask 2 7 (Valid_Side Buy) 103 9 2 (buffer 2)) demo_ask (buffer 2) 9 True slot
      (enter_limit (ob_domain demo_ask) 2 7 Buy l 9 2 True slot (view demo_ask))"
proof -
  have "ob_trading_state demo_ask \<noteq> Opening_Auction" "preflight_limit demo_ask (Valid_Side Buy) 103 9 GTC = RR_None" by code_simp+
  from submit_iceberg_refines [OF demo_ask_ok(1,2) this demo_ask_ok(4), of 2] show ?thesis by simp
qed

text \<open>
  C28. The admission of a limit order to a book in a valid state, from what a client can see: the first of these reasons that applies is
  reported, in this order: a time in force other than good till cancelled, immediate or cancel and fill or kill; an
  invalid side; a zero quantity; a quantity above the maximum; a trade buffer smaller than the number of slots; a price outside the domain; in the
  opening auction, a time in force other than good till cancelled; for fill or kill, less quantity on the crossing levels of the opposite side than ordered;
  for good till cancelled, all slots in use and nothing to trade with, or the auction.  The order is then refused as a whole and only the
  count of stop activations is reset: the market and the trade buffer are untouched.  When no reason applies, an order is refused
  only by self-trade prevention.
\<close>

theorem submit_limit_rejects:
  assumes ok: "book_ok b"
  shows "(limit_verdict b rs p q tif (length T) \<noteq> RR_None \<longrightarrow>
      submit_limit b oid trader rs p q tif T =
        ret (rejected (limit_verdict b rs p q tif (length T)) q, b\<lparr>ob_stop_activation_count := 0\<rparr>, T) \<and>
      view (b\<lparr>ob_stop_activation_count := 0\<rparr>) = view b) \<and>
    (limit_verdict b rs p q tif (length T) = RR_None \<longrightarrow>
      (\<forall>r b' T'. submit_limit b oid trader rs p q tif T = ret (r, b', T') \<longrightarrow> sr_reason r \<in> {RR_None, RR_Self_Trade_Prevented}))"
proof -
  have r: "reset_stop_activations b = b\<lparr>ob_stop_activation_count := 0\<rparr>" by (simp add: reset_stop_activations_def)
  have v: "view (reset_stop_activations b) = view b"
    unfolding view_def reset_frame queue_of_def stop_queue_def by (simp) (simp add: reset_stop_activations_def)
  note e = limit_checks_verdict [OF ok, of rs p q tif "length T"]
  have "submit_limit b oid trader rs p q tif T = ret (rejected (limit_verdict b rs p q tif (length T)) q, reset_stop_activations b, T)"
    if "limit_verdict b rs p q tif (length T) \<noteq> RR_None"
    using that unfolding e by (auto simp: submit_limit_def Let_def required_trade_capacity_def split: if_splits)
  moreover have "sr_reason x \<in> {RR_None, RR_Self_Trade_Prevented}"
    if "limit_verdict b rs p q tif (length T) = RR_None" "submit_limit b oid trader rs p q tif T = ret (x, b', T')" for x b' T'
  proof -
    have "is_valid_time_in_force tif" "preflight b rs q = RR_None" "\<not> length T < slots b" "preflight_limit b rs p q tif = RR_None"
      using that(1) unfolding e by (auto split: if_splits)
    then show ?thesis using that(2)
      by (auto simp: submit_limit_def Let_def required_trade_capacity_def preflight_def is_valid_side_def run_bind_eq_ret_iff rejected_def
          submitted_def split: raw_side.splits if_splits prod.splits)
  qed
  ultimately show ?thesis using v unfolding r by blast
qed

theorem submit_limit_rejects_witness:
  "limit_verdict demo_ask (Valid_Side Buy) 103 9 FOK 2 = RR_Fok_Not_Fillable \<and>
   submit_limit demo_ask 2 7 (Valid_Side Buy) 103 9 FOK (buffer 2) = ret (rejected RR_Fok_Not_Fillable 9, demo_ask\<lparr>ob_stop_activation_count := 0\<rparr>, buffer 2)"
proof -
  have "preflight demo_ask (Valid_Side Buy) 9 = RR_None" "preflight_limit demo_ask (Valid_Side Buy) 103 9 FOK = RR_Fok_Not_Fillable" "slots demo_ask = 2"
    by code_simp+
  then have v: "limit_verdict demo_ask (Valid_Side Buy) 103 9 FOK (length (buffer 2)) = RR_Fok_Not_Fillable"
    unfolding limit_checks_verdict [OF demo_ask_ok(1)] by (simp add: is_valid_time_in_force_def buffer_def)
  then show ?thesis using submit_limit_rejects [OF demo_ask_ok(1), of "Valid_Side Buy" 103 9 FOK "buffer 2" 2 7] by (simp add: buffer_def)
qed

section \<open>Orders that rest\<close>

text \<open>
  C25. Cancelling with a live handle removes exactly that order, resting or dormant, from the market and
  reports its identifier and remaining quantity, and the handle is dead afterwards; with any other
  handle nothing changes.
\<close>

theorem cancel_correct:
  assumes "book_ok b"
  shows "(case resolve (ob_arena b) h of
      None \<Rightarrow> cancel b h = (\<lparr>cr_reason = CR_Invalid_Handle, cr_id = 0, cr_quantity = 0\<rparr>, b)
    | Some x \<Rightarrow> \<exists>b'. cancel b h = (\<lparr>cr_reason = CR_None, cr_id = ord_id x, cr_quantity = ord_remaining x\<rparr>, b') \<and>
        book_ok b' \<and> view b' = drop_slot (h_index h) (view b) \<and> resolve (ob_arena b') h = None)"
proof (cases "resolve (ob_arena b) h")
  case None
  then show ?thesis by (simp add: cancel_def)
next
  case (Some x)
  then show ?thesis using cancel_ok [OF assms Some] by simp
qed

theorem cancel_correct_witness:
  "resolve (ob_arena demo_ask) \<lparr>h_index = 0, h_generation = 1\<rparr> \<noteq> None \<and>
   (\<exists>(x::order) b'. cancel demo_ask \<lparr>h_index = 0, h_generation = 1\<rparr> =
      (\<lparr>cr_reason = CR_None, cr_id = ord_id x, cr_quantity = ord_remaining x\<rparr>, b') \<and>
    view b' = drop_slot 0 (view demo_ask))"
proof -
  let ?h = "\<lparr>h_index = 0, h_generation = 1\<rparr>"
  have "resolve (ob_arena demo_ask) ?h \<noteq> None" by code_simp
  then obtain x where x: "resolve (ob_arena demo_ask) ?h = Some x" by auto
  obtain b' where "cancel demo_ask ?h = (\<lparr>cr_reason = CR_None, cr_id = ord_id x, cr_quantity = ord_remaining x\<rparr>, b')"
    "view b' = drop_slot 0 (view demo_ask)"
    using cancel_correct [OF demo_ask_ok(1), of ?h] unfolding x option.case handle.select_convs by blast
  then show ?thesis using x by (intro conjI exI [of _ x] exI [of _ b']) simp_all
qed

text \<open>
  C26. An amendment to a smaller, non-zero quantity keeps the order's place in its queue and lowers its
  remaining quantity, and the displayed one with it when it was larger; an equal quantity is accepted
  without effect, and a zero, too large or larger quantity or a dead handle is refused without effect.
\<close>

theorem amend_correct:
  assumes "book_ok b"
  shows "(case resolve (ob_arena b) h of
      None \<Rightarrow> amend_quantity b h q = (\<lparr>am_reason = AR_Invalid_Handle, am_id = 0, am_previous = 0, am_new = q, am_handle = h\<rparr>, b)
    | Some x \<Rightarrow> \<exists>b'. amend_quantity b h q = (\<lparr>am_reason =
          (if q = 0 then AR_Zero_Quantity else if q > ob_max_quantity b then AR_Quantity_Too_Large
           else if q > ord_remaining x then AR_Increase_Not_Allowed else AR_None),
          am_id = ord_id x, am_previous = ord_remaining x, am_new = q, am_handle = h\<rparr>, b') \<and>
        book_ok b' \<and> view b' = (if q \<noteq> 0 \<and> q < ord_remaining x then amend_slot (h_index h) q (view b) else view b))"
proof (cases "resolve (ob_arena b) h")
  case None
  then show ?thesis by (simp add: amend_quantity_def)
next
  case (Some x)
  note rep = book_ok_rep [OF assms]
  show ?thesis
  proof (cases "q \<noteq> 0 \<and> q < ord_remaining x")
    case True
    have "ord_remaining x \<le> ob_max_quantity b"
      using resolve_SomeD [OF Some rep] rep_stop [OF rep] rep_active [OF rep] by (auto simp: queued_def stop_ok_def active_ok_def)
    then have "\<not> q > ob_max_quantity b" "\<not> q > ord_remaining x" using True by auto
    then show ?thesis using Some amend_ok [OF assms Some] True by simp
  next
    case False
    then show ?thesis using Some assms by (auto simp: amend_quantity_def Let_def)
  qed
qed

theorem amend_correct_witness:
  "\<exists>b' r. amend_quantity demo_ask \<lparr>h_index = 0, h_generation = 1\<rparr> 3 = (r, b') \<and> am_reason r = AR_None \<and>
    view b' = amend_slot 0 3 (view demo_ask)"
proof -
  let ?h = "\<lparr>h_index = 0, h_generation = 1\<rparr>"
  have "map_option ord_remaining (resolve (ob_arena demo_ask) ?h) = Some 5" by code_simp
  then obtain x where x: "resolve (ob_arena demo_ask) ?h = Some x" "ord_remaining x = 5" by auto
  have "ob_max_quantity demo_ask = 100" by code_simp
  then show ?thesis using amend_correct [OF demo_ask_ok(1), of ?h 3] x by auto
qed

text \<open>
  Every book the constructor returns satisfies the invariant and has an empty market, with the
  configuration asked for.
\<close>

theorem make_book_correct:
  assumes "make_book d n mq pol mode minq st = Inr b" "domain_ok d"
  shows "book_ok b \<and> view b = empty_market \<and> slots b = n \<and> ob_domain b = d \<and> ob_max_quantity b = mq \<and>
    ob_self_trade_policy b = pol \<and> ob_allocation_mode b = mode \<and> ob_trading_state b = st"
  using make_book_ok [OF assms] by simp

theorem make_book_correct_witness:
  "make_book demo_domain 2 100 STP_None Fifo 0 Continuous = Inr demo_new \<and> view demo_new = empty_market"
  using make_book_correct [OF demo_new_make demo_domain_ok] demo_new_make by simp

section \<open>Where the code falls short\<close>

text \<open>
  C39. With the cancel-taker policy and an allocation other than pro-rata, a market order that meets an order without trader identity at the
  front of the best level never returns: \<^verbatim>\<open>match_level_fifo\<close> gives the level back unchanged and \<^verbatim>\<open>match\<close>
  selects it again.
\<close>

theorem market_self_trade_diverges:
  assumes "book_ok b" "ob_allocation_mode b \<noteq> Threshold_Pro_Rata" "ob_self_trade_policy b = STP_Cancel_Taker"
    and "preflight_market b (Valid_Side s) q = RR_None" "slots b \<le> length T"
    and "best_index b (opposite_side s) = Some k" "mkt_queue (view b) (opposite_side s) k = m # ms" "mk_trader m = 0"
  shows "submit_market b oid (Valid_Side s) q T = None"
  by (rule market_diverges [OF assms])

theorem market_self_trade_diverges_witness:
  "submit_market demo_own 2 (Valid_Side Buy) 3 (buffer 2) = None"
proof (rule market_self_trade_diverges [OF demo_own_ok])
  show "ob_allocation_mode demo_own \<noteq> Threshold_Pro_Rata" by code_simp
  show "ob_self_trade_policy demo_own = STP_Cancel_Taker" by code_simp
  show "preflight_market demo_own (Valid_Side Buy) 3 = RR_None" by code_simp
  show "slots demo_own \<le> length (buffer 2)" by code_simp
  show "best_index demo_own (opposite_side Buy) = Some 0" by code_simp
  show "mkt_queue (view demo_own) (opposite_side Buy) 0 =
    \<lparr>mk_slot = 0, mk_id = 1, mk_trader = 0, mk_rem = 5, mk_disp = 5, mk_peak = 5\<rparr> # []" by code_simp
  show "mk_trader \<lparr>mk_slot = 0, mk_id = 1, mk_trader = 0, mk_rem = 5, mk_disp = 5, mk_peak = 5\<rparr> = 0" by simp
qed

text \<open>
  The trade buffer the code asks for, one entry per order slot, is too small when stops cascade: with
  two icebergs at the best price and a stop that the taker triggers, the activation reports both
  makers again, and a buffer of \<^verbatim>\<open>required_trade_capacity()\<close> entries is written past its end.
\<close>

theorem stop_cascade_overflows_trade_buffer:
  "submit_limit demo_cascade 5 0 (Valid_Side Buy) 103 2 IOC (buffer (required_trade_capacity demo_cascade)) =
     crash Trade_Buffer_Overflow"
proof -
  have "required_trade_capacity demo_cascade = 3" by code_simp
  then show ?thesis by (simp only:) code_simp
qed

text \<open>
  Threshold pro-rata allocation can execute more than the taker asked for: an iceberg that replenishes
  during the pass is visited again at the back of the queue with the share computed for the whole
  order, and the unsigned remaining quantity wraps below zero.  Here a taker of five buys eight.
\<close>

theorem pro_rata_overfills:
  "map_option (map_sum id fst) (submit_limit demo_pro_rata 3 0 (Valid_Side Buy) 103 5 IOC (buffer 2)) =
     Some (Inr \<lparr>sr_reason = RR_None, sr_executed = 8, sr_unfilled = - 3, sr_trade_count = 2, sr_handle = kInvalidHandle\<rparr>)"
  by code_simp

end
