(* ===== verification/Snapshot_File.thy ===== *)
theory Snapshot_File
  imports Snapshot Journal_Segments
begin

text \<open>
  Saving and loading a snapshot (\<^verbatim>\<open>save_snapshot_atomic\<close> and \<^verbatim>\<open>load_snapshot\<close> of \<^verbatim>\<open>snapshot.cpp\<close>).  The parent directory is a map from
  names to contents; every call that changes it keeps the state before it, so that the states a crash can leave are those of the
  history.  The results of the system calls are parameters; that of opening a file for reading is its content.  A call that is interrupted for ever makes the loop around it diverge.
\<close>

section \<open>The directory\<close>

type_synonym entries = "string \<rightharpoonup> u8 list"

record directory =
  dir_entries :: entries
  dir_past :: "entries list"

definition change :: "(entries \<Rightarrow> entries) \<Rightarrow> directory \<Rightarrow> directory" where
  "change f d = \<lparr>dir_entries = f (dir_entries d), dir_past = dir_entries d # dir_past d\<rparr>"

text \<open>Creating an empty file, appending to an open file, renaming and unlinking, as the system calls document them.\<close>

definition make_file :: "string \<Rightarrow> directory \<Rightarrow> directory" where
  "make_file name d = change (\<lambda>m. m(name \<mapsto> [])) d"

definition append_file :: "string \<Rightarrow> u8 list \<Rightarrow> directory \<Rightarrow> directory" where
  "append_file name bytes d = change (\<lambda>m. m(name := map_option (\<lambda>c. c @ bytes) (m name))) d"

definition rename_file :: "string \<Rightarrow> string \<Rightarrow> directory \<Rightarrow> directory" where
  "rename_file old new d = change (\<lambda>m. (m(new := m old))(old := None)) d"

definition remove_file :: "string \<Rightarrow> directory \<Rightarrow> directory" where
  "remove_file name d = change (\<lambda>m. m(name := None)) d"

section \<open>Names and errors\<close>

definition snapshot_errno_error :: "errno \<Rightarrow> snapshot_error" where
  "snapshot_errno_error e =
     (if e = ENOENT then SN_Not_Found
      else if e = EACCES \<or> e = EPERM then SN_Permission_Denied
      else if e = ELOOP then SN_Symlink
      else SN_Io_Error)"

text \<open>The last component of the path; the directory before it is opened by a call of its own.\<close>

definition parse_path :: "string \<Rightarrow> snapshot_error + string" where
  "parse_path path = (let name = path_filename path in
     if path = [] \<or> last path = CHR ''/'' \<or> CHR 0x00 \<in> set path \<or>
        name = [] \<or> name = ''.'' \<or> name = ''..'' \<or> CHR ''/'' \<in> set name \<or> CHR 0x00 \<in> set name
     then Inl SN_Invalid_Path else Inr name)"

definition kTempAttempts :: nat where
  "kTempAttempts = 16"

definition temporary_name :: "string \<Rightarrow> nat \<Rightarrow> u64 \<Rightarrow> string" where
  "temporary_name basename pid counter = basename @ ''.tmp.'' @ decimal pid @ ''.'' @ decimal (unat counter)"

section \<open>Reading and writing whole buffers\<close>

text \<open>A call transfers some bytes, is interrupted, or fails.\<close>

datatype transfer = Transferred nat | Interrupted | Transfer_Failed

text \<open>The outcomes are numbered by call.\<close>

partial_function (option) write_exact :: "(nat \<Rightarrow> transfer) \<Rightarrow> nat \<Rightarrow> string \<Rightarrow> u8 list \<Rightarrow> nat \<Rightarrow> directory \<Rightarrow> (bool \<times> directory) option" where
  [code]: "write_exact calls k name bytes completed d =
     (if completed < length bytes then
        (case calls k of
           Interrupted \<Rightarrow> write_exact calls (k + 1) name bytes completed d
         | Transfer_Failed \<Rightarrow> Some (False, d)
         | Transferred n \<Rightarrow>
             if n = 0 then Some (False, d)
             else write_exact calls (k + 1) name bytes (completed + n) (append_file name (take n (drop completed bytes)) d))
      else Some (True, d))"

partial_function (option) read_exact :: "(nat \<Rightarrow> transfer) \<Rightarrow> nat \<Rightarrow> u8 list \<Rightarrow> u8 list \<Rightarrow> nat \<Rightarrow> (bool \<times> u8 list) option" where
  [code]: "read_exact calls k content bytes completed =
     (if completed < length bytes then
        (case calls k of
           Interrupted \<Rightarrow> read_exact calls (k + 1) content bytes completed
         | Transfer_Failed \<Rightarrow> Some (False, bytes)
         | Transferred n \<Rightarrow>
             if n = 0 then Some (False, bytes)
             else read_exact calls (k + 1) content
                    (take completed bytes @ take n (drop completed content) @ drop (completed + n) bytes) (completed + n))
      else Some (True, bytes))"

section \<open>Saving\<close>

record save_results =
  sv_parent :: "errno option"
  sv_open :: "nat \<Rightarrow> errno option"
  sv_pid :: nat
  sv_chmod :: bool
  sv_stat :: "file_status option"
  sv_write :: "nat \<Rightarrow> transfer"
  sv_fsync :: bool
  sv_rename :: bool
  sv_parent_fsync :: bool
  sv_unlink :: "errno option"
  sv_close :: bool
  sv_parent_close :: bool

text \<open>The attempts to create the temporary file: the last \<^verbatim>\<open>errno\<close>, the name and the counter; \<open>left\<close> attempts remain.\<close>

fun create_temporary :: "save_results \<Rightarrow> string \<Rightarrow> nat \<Rightarrow> nat \<Rightarrow> u64 \<Rightarrow> errno option \<times> string \<times> u64" where
  "create_temporary r basename attempt 0 counter = (Some EEXIST, [], counter)"
| "create_temporary r basename attempt (Suc left) counter =
     (let temporary = temporary_name basename (sv_pid r) counter; counter1 = counter + 1
      in case sv_open r attempt of
           None \<Rightarrow> (None, temporary, counter1)
         | Some e \<Rightarrow> if e \<noteq> EEXIST \<or> left = 0 then (Some e, temporary, counter1)
                     else create_temporary r basename (attempt + 1) left counter1)"

text \<open>The condition of the replacement, with its short-circuit order.\<close>

definition fill_and_rename :: "save_results \<Rightarrow> string \<Rightarrow> string \<Rightarrow> u8 list \<Rightarrow> directory \<Rightarrow> (bool \<times> directory) option" where
  "fill_and_rename r temporary basename bytes d =
     (if \<not> sv_chmod r \<or> (case sv_stat r of None \<Rightarrow> True | Some st \<Rightarrow> st_kind st \<noteq> Regular_File \<or> st_permissions st \<noteq> 6 * 64)
      then Some (False, d)
      else case write_exact (sv_write r) 0 temporary bytes 0 d of
             None \<Rightarrow> None
           | Some (ok, d1) \<Rightarrow>
               if \<not> ok \<or> \<not> sv_fsync r \<or> \<not> sv_rename r then Some (False, d1)
               else Some (True, rename_file temporary basename d1))"

definition save_error :: "save_results \<Rightarrow> bool \<Rightarrow> snapshot_error" where
  "save_error r renamed =
     (let result = (if \<not> renamed then SN_Io_Error else if \<not> sv_parent_fsync r then SN_Commit_Indeterminate else SN_None);
          result1 = (if \<not> renamed \<and> (case sv_unlink r of None \<Rightarrow> False | Some e \<Rightarrow> e \<noteq> ENOENT) then SN_Io_Error else result);
          result2 = (if \<not> sv_close r \<and> result1 = SN_None then SN_Io_Error else result1)
      in if \<not> sv_parent_close r \<and> result2 = SN_None then (if renamed then SN_Commit_Indeterminate else SN_Io_Error) else result2)"

definition save_snapshot_atomic :: "save_results \<Rightarrow> string \<Rightarrow> engine \<Rightarrow> snapshot_point \<Rightarrow> u64 \<Rightarrow> directory \<Rightarrow>
    (snapshot_error \<times> engine \<times> u64 \<times> directory) option" where
  "save_snapshot_atomic r path e p counter d =
     (case encode_snapshot e p of
        None \<Rightarrow> None
      | Some (Inl err, e1) \<Rightarrow> Some (err, e1, counter, d)
      | Some (Inr bytes, e1) \<Rightarrow>
          (case parse_path path of
             Inl err \<Rightarrow> Some (err, e1, counter, d)
           | Inr basename \<Rightarrow>
               (case sv_parent r of
                  Some er \<Rightarrow> Some (snapshot_errno_error er, e1, counter, d)
                | None \<Rightarrow>
                    (case create_temporary r basename 0 kTempAttempts counter of
                       (Some er, _, counter1) \<Rightarrow>
                         Some (if er = EEXIST then SN_Temp_Collision_Limit else snapshot_errno_error er, e1, counter1, d)
                     | (None, temporary, counter1) \<Rightarrow>
                         (case fill_and_rename r temporary basename bytes (make_file temporary d) of
                            None \<Rightarrow> None
                          | Some (renamed, d1) \<Rightarrow>
                              let d2 = (if \<not> renamed \<and> sv_unlink r = None then remove_file temporary d1 else d1)
                              in Some (save_error r renamed, e1, counter1, d2))))))"

section \<open>Loading\<close>

record file_identity = file_status +
  st_device :: nat
  st_inode :: nat

record load_results =
  ld_parent :: "errno option"
  ld_lstat :: "errno + file_kind"
  ld_open :: "errno + u8 list"
  ld_stat :: "errno + file_identity"
  ld_read :: "nat \<Rightarrow> transfer"
  ld_stat_after :: "file_identity option"
  ld_close :: bool
  ld_parent_close :: bool

definition check_size :: "errno + file_identity \<Rightarrow> snapshot_error" where
  "check_size fstat = (case fstat of
     Inl e \<Rightarrow> snapshot_errno_error e
   | Inr st \<Rightarrow>
       if st_kind st \<noteq> Regular_File then SN_Not_Regular_File
       else if st_permissions st \<noteq> 6 * 64 then SN_Permission_Denied
       else if st_size st < 0 \<or> nat (st_size st) > kMaximumSnapshotBytes then SN_File_Too_Large
       else if nat (st_size st) < kLegacySnapshotHeaderSize then SN_Invalid_Length
       else SN_None)"

definition same_file :: "file_identity \<Rightarrow> file_identity \<Rightarrow> bool" where
  "same_file before after \<longleftrightarrow> st_device before = st_device after \<and> st_inode before = st_inode after \<and> st_size before = st_size after"

text \<open>The open file: its bytes, or the first error.\<close>

definition read_file :: "load_results \<Rightarrow> u8 list \<Rightarrow> (snapshot_error \<times> u8 list) option" where
  "read_file r content =
     (if check_size (ld_stat r) \<noteq> SN_None then Some (check_size (ld_stat r), [])
      else case ld_stat r of
             Inl e \<Rightarrow> Some (snapshot_errno_error e, [])
           | Inr before \<Rightarrow>
               (case read_exact (ld_read r) 0 content (replicate (nat (st_size before)) 0) 0 of
                  None \<Rightarrow> None
                | Some (ok, bytes) \<Rightarrow>
                    if \<not> ok then Some (SN_Io_Error, bytes)
                    else (case ld_stat_after r of
                            None \<Rightarrow> Some (SN_Io_Error, bytes)
                          | Some after \<Rightarrow> Some (if same_file before after then SN_None else SN_Io_Error, bytes))))"

definition load_snapshot :: "load_results \<Rightarrow> string \<Rightarrow> (snapshot_error + engine \<times> snapshot_point) option" where
  "load_snapshot r path =
     (case parse_path path of
        Inl err \<Rightarrow> Some (Inl err)
      | Inr basename \<Rightarrow>
          (case ld_parent r of
             Some e \<Rightarrow> Some (Inl (snapshot_errno_error e))
           | None \<Rightarrow>
               (case ld_lstat r of
                  Inl e \<Rightarrow> Some (Inl (snapshot_errno_error e))
                | Inr kind \<Rightarrow>
                    if kind = Symbolic_Link then Some (Inl SN_Symlink)
                    else (case ld_open r of
                            Inl e \<Rightarrow> Some (Inl (snapshot_errno_error e))
                          | Inr content \<Rightarrow>
                              (case read_file r content of
                                 None \<Rightarrow> None
                               | Some (err, bytes) \<Rightarrow>
                                   let err1 = (if \<not> ld_close r \<and> err = SN_None then SN_Io_Error else err);
                                       err2 = (if \<not> ld_parent_close r \<and> err1 = SN_None then SN_Io_Error else err1)
                                   in if err2 \<noteq> SN_None then Some (Inl err2) else decode_snapshot bytes)))))"

end
