(* ===== verification/Snapshot_Bytes.thy ===== *)
theory Snapshot_Bytes
  imports Snapshot Command_Properties Frame_Properties
begin

text \<open>
  What the bytes of a snapshot hold: every field of the header and of every slot reads back as it was written, and the bytes the
  encoder does not write are zero.
\<close>

section \<open>Fields\<close>

text \<open>Fields in ascending order from \<open>a\<close> to \<open>n\<close>, none overlapping another.\<close>

fun fields_from :: "nat \<Rightarrow> (nat \<times> nat \<times> u64) list \<Rightarrow> nat \<Rightarrow> bool" where
  "fields_from a [] n \<longleftrightarrow> a \<le> n"
| "fields_from a ((off, width, v) # fs) n \<longleftrightarrow> a \<le> off \<and> (width = 4 \<or> width = 8) \<and> fields_from (off + width) fs n"

definition field_at :: "u8 list \<Rightarrow> nat \<Rightarrow> nat \<times> nat \<times> u64 \<Rightarrow> bool" where
  "field_at bs base f = (case f of (off, width, v) \<Rightarrow>
     if width = 4 then read_u32 bs (base + off) = ucast v else read_u64 bs (base + off) = v)"

lemma read_words_cong:
  "(\<And>i. i < 4 \<Longrightarrow> bs ! (off + i) = cs ! (off + i)) \<Longrightarrow> read_u32 bs off = read_u32 cs off"
  "(\<And>i. i < 8 \<Longrightarrow> bs ! (off + i) = cs ! (off + i)) \<Longrightarrow> read_u64 bs off = read_u64 cs off"
  by (rule read_words; simp add: byte_at_read)+

lemma read_written:
  "off + 4 \<le> length bs \<Longrightarrow> read_u32 (write_u32 bs off v) off = v" "off + 8 \<le> length bs \<Longrightarrow> read_u64 (write_u64 bs off w) off = w"
  by (rule read_words; simp add: write_words_nth)+

lemma length_write_sized [simp]: "length (write_sized bs off v w) = length bs"
  by (simp add: write_sized_def)

lemma write_sized_nth:
  "w = 4 \<or> w = 8 \<Longrightarrow> off + w \<le> length bs \<Longrightarrow> k < off \<or> off + w \<le> k \<Longrightarrow> write_sized bs off v w ! k = bs ! k"
  by (auto simp: write_sized_def write_words_nth)

lemma write_fields_simps [simp]:
  "write_fields base [] bs = bs" "write_fields base ((off, w, v) # fs) bs = write_fields base fs (write_sized bs (base + off) v w)"
  by (simp_all add: write_fields_def)

lemma length_write_fields [simp]: "length (write_fields base fs bs) = length bs"
  by (induction fs arbitrary: bs) auto

lemma fields_from_le: "fields_from a fs n \<Longrightarrow> a \<le> n"
  by (induction a fs n rule: fields_from.induct) auto

lemma write_fields_other:
  "fields_from a fs n \<Longrightarrow> base + n \<le> length bs \<Longrightarrow> k < base + a \<or> base + n \<le> k \<Longrightarrow> write_fields base fs bs ! k = bs ! k"
proof (induction a fs n arbitrary: bs rule: fields_from.induct)
  case (2 a off width v fs n)
  have n: "off + width \<le> n" using fields_from_le 2(2) by auto
  then have "write_sized bs (base + off) v width ! k = bs ! k"
    using 2(2-4) by (intro write_sized_nth) auto
  then show ?case using 2 n by auto
qed simp

lemma field_at_cong:
  "(\<And>k. base + off \<le> k \<Longrightarrow> k < base + off + w \<Longrightarrow> bs ! k = cs ! k) \<Longrightarrow> w = 4 \<or> w = 8 \<Longrightarrow>
     field_at bs base (off, w, v) = field_at cs base (off, w, v)"
  using read_words_cong(1) [of bs "base + off" cs] read_words_cong(2) [of bs "base + off" cs] by (auto simp: field_at_def)

lemma field_at_written:
  "w = 4 \<or> w = 8 \<Longrightarrow> base + off + w \<le> length bs \<Longrightarrow> field_at (write_sized bs (base + off) v w) base (off, w, v)"
  by (auto simp: field_at_def write_sized_def read_written)

lemma write_fields_at:
  "fields_from a fs n \<Longrightarrow> base + n \<le> length bs \<Longrightarrow> f \<in> set fs \<Longrightarrow> field_at (write_fields base fs bs) base f"
proof (induction a fs n arbitrary: bs rule: fields_from.induct)
  case (2 a off width v fs n)
  have w: "width = 4 \<or> width = 8" and fs: "fields_from (off + width) fs n" using 2(2) by auto
  have n: "off + width \<le> n" using fields_from_le fs by auto
  show ?case
  proof (cases "f \<in> set fs")
    case True
    then show ?thesis using 2 fs by simp
  next
    case False
    then have f: "f = (off, width, v)" using 2(4) by simp
    let ?cs = "write_sized bs (base + off) v width"
    have "field_at (write_fields base fs ?cs) base f = field_at ?cs base f"
      unfolding f by (rule field_at_cong [OF _ w]) (use write_fields_other [OF fs] 2(3) in auto)
    then show ?thesis using field_at_written [OF w] 2(3) n by (simp add: f)
  qed
qed simp

section \<open>Slots\<close>

abbreviation slot_offset :: "nat \<Rightarrow> nat" where
  "slot_offset i \<equiv> 124 + i * 96"

definition slot_image :: "book \<Rightarrow> u8 list \<Rightarrow> nat \<Rightarrow> bool" where
  "slot_image b bs i \<longleftrightarrow> (let sl = ar_slots (ob_arena b) ! i; off = slot_offset i in
     read_u32 bs off = sl_generation sl \<and> read_u32 bs (off + 4) = word_of_nat (sl_free_next sl) \<and>
     bs ! (off + 8) = (if sl_live sl then 1 else 0) \<and> (\<forall>k < 3. bs ! (off + 9 + k) = 0) \<and>
     (if sl_live sl then \<forall>f \<in> set (slot_fields b i). field_at bs off f else \<forall>k < 84. bs ! (off + 12 + k) = 0))"

lemma slot_fields_from: "fields_from 12 (slot_fields b i) 96"
  by (simp add: slot_fields_def Let_def)

lemma field_mem_bounds: "fields_from a fs n \<Longrightarrow> (off, w, v) \<in> set fs \<Longrightarrow> a \<le> off \<and> off + w \<le> n \<and> (w = 4 \<or> w = 8)"
  by (induction a fs n rule: fields_from.induct) (auto dest: fields_from_le)

lemma slot_image_cong:
  assumes "\<And>k. k < 96 \<Longrightarrow> bs ! (slot_offset i + k) = cs ! (slot_offset i + k)"
  shows "slot_image b bs i = slot_image b cs i"
proof -
  let ?o = "slot_offset i"
  have eq: "bs ! k = cs ! k" if "?o \<le> k" "k < ?o + 96" for k using assms [of "k - ?o"] that by auto
  have "field_at bs ?o f = field_at cs ?o f" if "f \<in> set (slot_fields b i)" for f
  proof -
    obtain off w v where f: "f = (off, w, v)" by (cases f)
    show ?thesis using field_mem_bounds [OF slot_fields_from] that unfolding f by (intro field_at_cong eq) fastforce+
  qed
  moreover have "read_u32 bs ?o = read_u32 cs ?o" "read_u32 bs (?o + 4) = read_u32 cs (?o + 4)"
    by (rule read_words_cong; simp add: eq)+
  ultimately show ?thesis unfolding slot_image_def Let_def by (auto simp: eq)
qed

lemma length_encode_slot [simp]: "length (encode_slot b bs i) = length bs"
  by (simp add: encode_slot_def Let_def)

lemma encode_slot_other:
  assumes "slot_offset i + 96 \<le> length bs" "k < slot_offset i \<or> slot_offset i + 96 \<le> k"
  shows "encode_slot b bs i ! k = bs ! k"
proof -
  have "write_fields (slot_offset i) (slot_fields b i) cs ! k = cs ! k" if "length cs = length bs" for cs
    by (rule write_fields_other [OF slot_fields_from]) (use assms that in auto)
  then show ?thesis using assms by (auto simp: encode_slot_def Let_def kSnapshotHeaderSize_def kSnapshotSlotSize_def write_words_nth nth_list_update)
qed

lemma encode_slot_image:
  assumes "slot_offset i + 96 \<le> length bs" "\<And>k. slot_offset i \<le> k \<Longrightarrow> k < slot_offset i + 96 \<Longrightarrow> bs ! k = 0"
  shows "slot_image b (encode_slot b bs i) i"
proof -
  let ?sl = "ar_slots (ob_arena b) ! i" and ?o = "slot_offset i"
  let ?b2 = "write_u32 (write_u32 bs ?o (sl_generation ?sl)) (?o + 4) (word_of_nat (sl_free_next ?sl))"
  define b3 where "b3 = ?b2[?o + 8 := if sl_live ?sl then 1 else 0]"
  have len: "length b3 = length bs" by (simp add: b3_def)
  have n: "b3 ! k = (if k = ?o + 8 then if sl_live ?sl then 1 else 0 else if ?o + 4 \<le> k \<and> k < ?o + 8 then byte_at (word_of_nat (sl_free_next ?sl) :: u32) (k - (?o + 4))
      else if ?o \<le> k \<and> k < ?o + 4 then byte_at (sl_generation ?sl) (k - ?o) else bs ! k)" for k
    unfolding b3_def using assms(1) by (auto simp: write_words_nth nth_list_update)
  have r: "read_u32 b3 ?o = sl_generation ?sl" "read_u32 b3 (?o + 4) = word_of_nat (sl_free_next ?sl)"
    by (rule read_words; simp add: n)+
  define cs where "cs = encode_slot b bs i"
  have cs: "cs = (if sl_live ?sl then write_fields ?o (slot_fields b i) b3 else b3)"
    by (simp add: cs_def b3_def encode_slot_def Let_def kSnapshotHeaderSize_def kSnapshotSlotSize_def)
  have lo: "cs ! k = b3 ! k" if "k < ?o + 12" for k
    unfolding cs using write_fields_other [OF slot_fields_from, of ?o b3 k b i] assms(1) that len by (simp only: split: if_split) auto
  have "read_u32 cs ?o = sl_generation ?sl" "read_u32 cs (?o + 4) = word_of_nat (sl_free_next ?sl)"
    using r read_words_cong(1) [of cs ?o b3] read_words_cong(1) [of cs "?o + 4" b3] lo by auto
  moreover have "cs ! (?o + 8) = (if sl_live ?sl then 1 else 0)" using lo [of "?o + 8"] n [of "?o + 8"] by simp
  moreover have "cs ! (?o + 9 + k) = 0" if "k < 3" for k using lo [of "?o + 9 + k"] n [of "?o + 9 + k"] assms(2) that by simp
  moreover have "\<forall>f \<in> set (slot_fields b i). field_at cs ?o f" if "sl_live ?sl"
    unfolding cs using that write_fields_at [OF slot_fields_from, of ?o b3] assms(1) len by simp
  moreover have "cs ! (?o + 12 + k) = 0" if "\<not> sl_live ?sl" "k < 84" for k
    using that n [of "?o + 12 + k"] assms(2) by (simp add: cs)
  ultimately show ?thesis unfolding cs_def [symmetric] slot_image_def Let_def by auto
qed

lemma encode_slots:
  assumes "slot_offset n \<le> length bs" "\<And>k. 124 \<le> k \<Longrightarrow> k < length bs \<Longrightarrow> bs ! k = 0"
  shows "length (foldl (encode_slot b) bs [0..<n]) = length bs \<and>
    (\<forall>i < n. slot_image b (foldl (encode_slot b) bs [0..<n]) i) \<and>
    (\<forall>k. k < 124 \<or> slot_offset n \<le> k \<longrightarrow> foldl (encode_slot b) bs [0..<n] ! k = bs ! k)"
  using assms(1)
proof (induction n)
  case (Suc n)
  let ?cs = "foldl (encode_slot b) bs [0..<n]" and ?ds = "foldl (encode_slot b) bs [0..<Suc n]"
  have ds: "?ds = encode_slot b ?cs n" by simp
  have IH: "length ?cs = length bs" "\<And>i. i < n \<Longrightarrow> slot_image b ?cs i" "\<And>k. k < 124 \<or> slot_offset n \<le> k \<Longrightarrow> ?cs ! k = bs ! k"
    using Suc by auto
  have room: "slot_offset n + 96 \<le> length ?cs" using Suc.prems IH(1) by simp
  have oth: "?ds ! k = ?cs ! k" if "k < slot_offset n \<or> slot_offset n + 96 \<le> k" for k unfolding ds by (rule encode_slot_other [OF room that])
  have "slot_image b ?ds i" if "i < Suc n" for i
  proof (cases "i = n")
    case True
    have "?cs ! k = 0" if "slot_offset n \<le> k" "k < slot_offset n + 96" for k using IH(1,3) assms(2) that room by auto
    then show ?thesis unfolding ds True by (rule encode_slot_image [OF room])
  next
    case False
    then have i: "i < n" using that by simp
    then have "slot_offset i + 96 \<le> slot_offset n" by simp
    then have "slot_image b ?ds i = slot_image b ?cs i" by (intro slot_image_cong oth) simp
    then show ?thesis using IH(2) [OF i] by simp
  qed
  moreover have "?ds ! k = bs ! k" if "k < 124 \<or> slot_offset (Suc n) \<le> k" for k
  proof -
    have "k < slot_offset n \<or> slot_offset n + 96 \<le> k" "k < 124 \<or> slot_offset n \<le> k" using that by auto
    then show ?thesis using oth IH(3) by simp
  qed
  moreover have "length ?ds = length bs" using IH(1) by simp
  ultimately show ?case by blast
qed simp

section \<open>The whole file\<close>

lemma header_fields_split: "header_fields e p = take 16 (header_fields e p) @ drop 16 (header_fields e p)"
  by simp

lemma header_fields_from: "fields_from 8 (header_fields e p) 124"
  by (simp add: header_fields_def Let_def)

lemma length_snapshot_magic [simp]: "length kSnapshotMagic = 8"
  by (simp add: kSnapshotMagic_def)

definition file_image :: "engine \<Rightarrow> snapshot_point \<Rightarrow> u8 list \<Rightarrow> bool" where
  "file_image e p bs \<longleftrightarrow> length bs = snapshot_size (ar_capacity (ob_arena (se_book e))) \<and> take 8 bs = kSnapshotMagic \<and>
     (\<forall>f \<in> set (header_fields e p). field_at bs 0 f) \<and> (\<forall>i < ar_capacity (ob_arena (se_book e)). slot_image (se_book e) bs i) \<and>
     read_u32 bs 96 = snapshot_crc bs"

lemma snapshot_crc_write: "100 \<le> length bs \<Longrightarrow> snapshot_crc (write_u32 bs 96 v) = snapshot_crc bs"
proof -
  assume l: "100 \<le> length bs"
  have "take 96 (write_u32 bs 96 v) = take 96 bs" by (rule nth_equalityI) (use l in \<open>auto simp: write_words_nth\<close>)
  moreover have "drop 100 (write_u32 bs 96 v) = drop 100 bs" by (rule nth_equalityI) (use l in \<open>auto simp: write_words_nth\<close>)
  ultimately show ?thesis by (simp add: snapshot_crc_def kChecksumOffset_def)
qed

lemma encode_bytes_image: "file_image e p (encode_bytes e p)"
proof -
  let ?b = "se_book e" and ?cap = "ar_capacity (ob_arena (se_book e))"
  let ?z = "replicate (snapshot_size ?cap) 0 :: u8 list"
  define b1 where "b1 = foldl (\<lambda>bs i. bs[0 + i := kSnapshotMagic ! i]) ?z [0..<8]"
  define b2 where "b2 = write_fields 0 (header_fields e p) b1"
  define b3 where "b3 = foldl (encode_slot ?b) b2 [0..<?cap]"
  define b4 where "b4 = write_u32 b3 96 (snapshot_crc b3)"
  have size: "length ?z = slot_offset ?cap" by (simp add: snapshot_size_def kSnapshotHeaderSize_def kSnapshotSlotSize_def)
  have l1: "length b1 = slot_offset ?cap" by (simp only: b1_def length_write size)
  have n1: "b1 ! k = (if k < 8 then kSnapshotMagic ! k else 0)" if "k < slot_offset ?cap" for k
    using that size unfolding b1_def by (subst write_nth) auto
  have l2: "length b2 = slot_offset ?cap" using l1 by (simp add: b2_def)
  have o2: "b2 ! k = b1 ! k" if "k < 8 \<or> 124 \<le> k" for k
    unfolding b2_def using write_fields_other [OF header_fields_from, of 0 b1 k] that l1 by simp
  have f2: "field_at b2 0 f" if "f \<in> set (header_fields e p)" for f
    unfolding b2_def by (rule write_fields_at [OF header_fields_from _ that]) (use l1 in simp)
  have z2: "b2 ! k = 0" if "124 \<le> k" "k < length b2" for k using that o2 n1 l2 by simp
  note s3 = encode_slots [of ?cap b2 ?b, OF _ z2, folded b3_def]
  have l3: "length b3 = slot_offset ?cap" and i3: "\<And>i. i < ?cap \<Longrightarrow> slot_image ?b b3 i" and o3: "\<And>k. k < 124 \<Longrightarrow> b3 ! k = b2 ! k"
    using s3 l2 by auto
  have o4: "b4 ! k = b3 ! k" if "k < 96 \<or> 100 \<le> k" for k unfolding b4_def using that l3 by (subst write_words_nth) auto
  have len: "length b4 = snapshot_size ?cap" using l3 size by (simp add: b4_def)
  moreover have "take 8 b4 = kSnapshotMagic"
    by (rule nth_equalityI) (use len size o4 o3 o2 n1 in \<open>auto simp: snapshot_size_def kSnapshotHeaderSize_def\<close>)
  moreover have "field_at b4 0 f" if f: "f \<in> set (header_fields e p)" for f
  proof -
    obtain off w v where fe: "f = (off, w, v)" by (cases f)
    have "off + w \<le> 96 \<or> 100 \<le> off" using f unfolding fe header_fields_def Let_def by auto
    moreover have "off + w \<le> 124" "w = 4 \<or> w = 8" using field_mem_bounds [OF header_fields_from] f fe by auto
    ultimately have "field_at b4 0 f = field_at b2 0 f"
      unfolding fe by (intro field_at_cong) (use o4 o3 in auto)
    then show ?thesis using f2 [OF f] by simp
  qed
  moreover have "slot_image ?b b4 i" if "i < ?cap" for i
    using i3 [OF that] slot_image_cong [of b4 i b3 ?b] o4 by simp
  moreover have "read_u32 b4 96 = snapshot_crc b4"
    unfolding b4_def using l3 by (simp add: read_written snapshot_crc_write)
  ultimately have "file_image e p b4" by (simp add: file_image_def)
  moreover have "encode_bytes e p = b4"
    by (simp add: encode_bytes_def Let_def b4_def b3_def b2_def b1_def kChecksumOffset_def)
  ultimately show ?thesis by simp
qed

end
