(* ===== verification/Book_Check_Properties.thy ===== *)
theory Book_Check_Properties
  imports Book_Check Order_Book_Demo
begin

text \<open>
  The book's check of itself returns on every book, however corrupt its links, and on a book that satisfies
  the representation invariant it reports no violation except a crossed book when the book is crossed.
\<close>

section \<open>Marks\<close>

definition unmarked :: "u32 \<Rightarrow> u32 list \<Rightarrow> nat" where
  "unmarked e marks = length (filter (\<lambda>m. m \<noteq> e) marks)"

definition mark_all :: "u32 \<Rightarrow> nat list \<Rightarrow> u32 list \<Rightarrow> u32 list" where
  "mark_all e q marks = foldl (\<lambda>ms i. ms[i := e]) marks q"

lemma mark_all_simps [simp]:
  "mark_all e [] marks = marks" "mark_all e (i # q) marks = mark_all e q (marks[i := e])"
  "mark_all e (q @ q') marks = mark_all e q' (mark_all e q marks)"
  by (simp_all add: mark_all_def)

lemma length_mark_all [simp]: "length (mark_all e q marks) = length marks"
  by (induction q arbitrary: marks) simp_all

lemma nth_mark_all: "i < length marks \<Longrightarrow> mark_all e q marks ! i = (if i \<in> set q then e else marks ! i)"
  by (induction q arbitrary: marks) (auto simp: nth_list_update)

lemma unmarked_less: "i < length marks \<Longrightarrow> marks ! i \<noteq> e \<Longrightarrow> unmarked e (marks[i := e]) < unmarked e marks"
proof (induction marks arbitrary: i)
  case (Cons m marks)
  then show ?case by (cases i) (auto simp: unmarked_def)
qed simp

section \<open>The check returns\<close>

lemma check_order_None:
  "check_order b s l e i p w marks = IV_None \<Longrightarrow> i < slots b \<and> marks ! i \<noteq> e"
  by (auto simp: check_order_def Let_def split: if_splits)

lemma check_queue_returns:
  "length (fst st) = slots b \<Longrightarrow> \<exists>x st'. check_queue b s l e i p n w st = Some (x, st') \<and> length (fst st') = slots b"
proof (induction "unmarked e (fst st)" arbitrary: i p n w st rule: less_induct)
  case less
  show ?case
  proof (cases "i \<noteq> kInvalidIndex \<and> check_order b s l e i p w (fst st) = IV_None \<and> fst (check_next_link b i) = IV_None")
    case True
    then have "unmarked e ((fst st)[i := e]) < unmarked e (fst st)"
      using check_order_None [of b s l e i p w "fst st"] unmarked_less less.prems by simp
    then show ?thesis
      using less.hyps [of "((fst st)[i := e], snd st + 1)" "ord_next (bk_order b i)" i "n + 1" "w + ord_remaining (bk_order b i)"]
        less.prems True by (subst check_queue.simps) (simp add: Let_def split: prod.split)
  next
    case False
    then show ?thesis using less.prems by (cases st, subst check_queue.simps) (auto simp: Let_def split: prod.split)
  qed
qed

lemma check_level_returns:
  assumes "length (fst st) = slots b"
  shows "\<exists>x st'. check_level b s e l st = Some (x, st') \<and> length (fst st') = slots b"
  using check_queue_returns [OF assms, of s l e "pl_head (level b s l)" kInvalidIndex 0 0] assms
  by (cases st) (auto simp: check_level_def Let_def split: sum.split)

lemma check_levels_returns:
  "length (fst st) = slots b \<Longrightarrow> \<exists>x st'. check_levels b s e ls st = Some (x, st') \<and> length (fst st') = slots b"
proof (induction ls arbitrary: st)
  case (Cons l ls)
  obtain x st' where "check_level b s e l st = Some (x, st')" "length (fst st') = slots b"
    using check_level_returns [OF Cons.prems] by blast
  then show ?case using Cons.IH [of st'] by (cases x) auto
qed simp

lemma check_stops_returns:
  "length (fst st) = slots b \<Longrightarrow> \<exists>x st'. check_stops b e i p st = Some (x, st') \<and> length (fst st') = slots b"
proof (induction "unmarked e (fst st)" arbitrary: i p st rule: less_induct)
  case less
  show ?case
  proof (cases "i \<noteq> kInvalidIndex \<and> check_stop b e i p (fst st) = None")
    case True
    then have "i < slots b" "fst st ! i \<noteq> e" by (auto simp: check_stop_def split: if_splits)
    then have "unmarked e ((fst st)[i := e]) < unmarked e (fst st)" using unmarked_less less.prems by simp
    then show ?thesis
      using less.hyps [of "((fst st)[i := e], snd st + 1)" "ob_stop_next b ! i" i] less.prems True
      by (subst check_stops.simps) simp
  next
    case False
    then show ?thesis using less.prems by (cases st, subst check_stops.simps) auto
  qed
qed

lemma check_stop_queue_returns:
  assumes "length (fst st) = slots b"
  shows "\<exists>x st'. check_stop_queue b e st = Some (x, st') \<and> length (fst st') = slots b"
  using check_stops_returns [OF assms, of e "ob_stop_head b" kInvalidIndex]
  by (auto simp: check_stop_queue_def split: sum.split)

lemma check_parts_returns:
  assumes "length (fst st) = slots b"
  shows "\<exists>x st'. check_parts b e st = Some (x, st') \<and> length (fst st') = slots b"
proof -
  obtain x1 st1 where 1: "check_stop_queue b e st = Some (x1, st1)" "length (fst st1) = slots b"
    using check_stop_queue_returns [OF assms] by blast
  obtain x2 st2 where 2: "check_side_invariants b Buy e st1 = Some (x2, st2)" "length (fst st2) = slots b"
    using check_levels_returns [OF 1(2)] unfolding check_side_invariants_def by blast
  obtain x3 st3 where 3: "check_side_invariants b Sell e st2 = Some (x3, st3)" "length (fst st3) = slots b"
    using check_levels_returns [OF 2(2)] unfolding check_side_invariants_def by blast
  show ?thesis using 1 2 3 by (cases x1; cases x2) (simp_all add: check_parts_def)
qed

lemma next_visit_epoch_eq: "\<exists>marks. next_visit_epoch b = b\<lparr>ob_visit_marks := marks, ob_visit_epoch := ob_visit_epoch (next_visit_epoch b)\<rparr> \<and>
    (length (ob_visit_marks b) = slots b \<longrightarrow> length marks = slots b)"
proof (cases "ob_visit_epoch b = - 1")
  case True
  then show ?thesis by (intro exI [of _ "replicate (slots b) 0"]) (simp add: next_visit_epoch_def)
next
  case False
  then show ?thesis by (intro exI [of _ "ob_visit_marks b"]) (simp add: next_visit_epoch_def)
qed

section \<open>A well-formed book passes\<close>

lemma word_counts_le:
  assumes "layout_ok m" "l < bm_level_count m" shows "bm_word_counts m ! l \<le> bm_bit_count m"
  using assms(2)
proof (induction l)
  case 0
  then show ?case using assms(1) by (auto simp: layout_ok_def)
next
  case (Suc l)
  have "bm_word_counts m ! l = (lbits m l - 1) div 64 + 1" "bm_word_counts m ! Suc l = (bm_word_counts m ! l - 1) div 64 + 1"
    using assms(1) Suc.prems by (auto simp: layout_ok_def)
  moreover have "(bm_word_counts m ! l - 1) div 64 \<le> bm_word_counts m ! l - 1" by (rule div_le_dividend)
  moreover have "bm_word_counts m ! l \<le> bm_bit_count m" using Suc by simp
  ultimately show ?case by linarith
qed

lemma shape_hierarchy: assumes "book_shape b" shows "hierarchy_consistent (occupancy b s)"
proof -
  have "bm_inv (occupancy b s)" "bm_bit_count (occupancy b s) \<le> kUint32Max"
    using assms by (auto simp: book_shape_def kMaximumPriceLevels_def kUint32Max_def)
  moreover from this have "layout_ok (occupancy b s)" by (simp add: bm_inv_def)
  moreover from this have "length (bm_words (occupancy b s)) = bm_total_words (occupancy b s)" by (simp add: layout_ok_def)
  ultimately show ?thesis using hierarchy_consistent_iff word_counts_le le_trans by blast
qed

lemma flags_stop:
  "f \<in> {kOrderFlagDormantStop, kOrderFlagDormantStop OR kOrderFlagStopMarket} \<Longrightarrow>
     f AND kOrderFlagDormantStop \<noteq> 0 \<and> f AND NOT (kOrderFlagDormantStop OR kOrderFlagStopMarket) = 0"
  by (auto simp: kOrderFlagDormantStop_def kOrderFlagStopMarket_def)

text \<open>Slots that can be walked: live, not yet marked.\<close>

definition fresh :: "book \<Rightarrow> u32 \<Rightarrow> u32 list \<Rightarrow> nat list \<Rightarrow> bool" where
  "fresh b e marks q \<longleftrightarrow> length marks = slots b \<and> distinct q \<and> (\<forall>i \<in> set q. i < slots b \<and> i \<in> live_set (ob_arena b) \<and>
     i \<noteq> kInvalidIndex \<and> marks ! i \<noteq> e)"

lemma fresh_Cons: "fresh b e marks (i # q) \<Longrightarrow> fresh b e (marks[i := e]) q"
  by (auto simp: fresh_def nth_list_update)

lemma fresh_append: "fresh b e marks (q @ q') \<Longrightarrow> fresh b e marks q \<and> fresh b e (mark_all e q marks) q'"
  by (auto simp: fresh_def nth_mark_all)

lemma check_stops_walk:
  assumes "fresh b e ms S" "dseg ((!) (ob_stop_prev b)) ((!) (ob_stop_next b)) p S kInvalidIndex" "\<forall>i \<in> set S. stop_ok b i"
  shows "check_stops b e (hd (S @ [kInvalidIndex])) p (ms, r) =
    Some (Inr (last (p # S)), (mark_all e S ms, r + of_nat (length S)))"
  using assms
proof (induction S arbitrary: p ms r)
  case Nil
  then show ?case by (simp add: check_stops.simps)
next
  case (Cons i S)
  have "check_stop b e i p ms = None"
    using Cons.prems flags_stop [of "ord_flags (bk_order b i)"]
    by (auto simp: check_stop_def fresh_def is_live_index_iff stop_ok_def)
  then show ?case
    using Cons.IH [of "ms[i := e]" i "r + 1"] Cons.prems fresh_Cons [of b e ms i S]
    by (subst check_stops.simps) (auto simp: fresh_def add.assoc)
qed

lemma not_overflow: "unat (w :: u64) + unat (r :: u64) < 2 ^ 64 \<Longrightarrow> \<not> w > - 1 - r"
proof -
  assume a: "unat w + unat r < 2 ^ 64"
  have "unat (- 1 - r) = 2 ^ 64 - 1 - unat r" by (simp add: unat_sub word_n1_ge unsigned_minus_1_eq_mask mask_eq_exp_minus_1)
  then show ?thesis using a by (simp add: word_less_nat_alt)
qed

lemma check_order_ok:
  assumes "book_shape b" "l < ticks b" "fresh b e ms (i # q)" "active_ok b s l i" "o_prev b i = p" "unat w + unat (o_rem b i) < 2 ^ 64"
  shows "check_order b s l e i p w ms = IV_None"
proof -
  have "o_peak b i \<noteq> 0" using assms(4) by (auto simp: active_ok_def)
  then show ?thesis
    using assms active_decode [OF assms(4,1,2)] not_overflow [OF assms(6)]
    by (auto simp: check_order_def fresh_def is_live_index_iff active_ok_def Let_def)
qed

lemma check_next_link_ok:
  assumes "fresh b e ms (i # q)" "dseg (o_prev b) (o_next b) p (i # q) kInvalidIndex"
  shows "check_next_link b i = (IV_None, i)"
  using assms by (cases q) (auto simp: check_next_link_def fresh_def is_live_index_iff)

lemma check_queue_walk:
  assumes "book_shape b" "l < ticks b" "fresh b e ms q" "dseg (o_prev b) (o_next b) p q kInvalidIndex" "\<forall>i \<in> set q. active_ok b s l i"
    "unat w + sum_list (map (\<lambda>i. unat (o_rem b i)) q) < 2 ^ 64"
  shows "check_queue b s l e (hd (q @ [kInvalidIndex])) p n w (ms, r) =
    Some (Inr (last (p # q), n + of_nat (length q), w + sum_list (map (o_rem b) q)), (mark_all e q ms, r + of_nat (length q)))"
  using assms(3-)
proof (induction q arbitrary: p n w ms r)
  case Nil
  then show ?case by (simp add: check_queue.simps)
next
  case (Cons i q)
  have w: "unat w + unat (o_rem b i) < 2 ^ 64" using Cons.prems(4) by simp
  have u: "unat (w + o_rem b i) = unat w + unat (o_rem b i)" using w by (simp add: unat_word_ariths)
  have "check_order b s l e i p w ms = IV_None"
    using Cons.prems w by (intro check_order_ok [OF assms(1,2) Cons.prems(1)]) auto
  moreover have "check_next_link b i = (IV_None, i)" by (rule check_next_link_ok [OF Cons.prems(1,2)])
  moreover have "i \<noteq> kInvalidIndex" using Cons.prems(1) by (simp add: fresh_def)
  ultimately show ?case
    using Cons.IH [of "ms[i := e]" i "w + o_rem b i" "n + 1" "r + 1"] Cons.prems fresh_Cons [OF Cons.prems(1)] u
    by (subst check_queue.simps) (simp add: add.assoc)
qed

lemma level_sum_bound:
  assumes "book_rep b Q S X" shows "sum_list (map (\<lambda>i. unat (o_rem b i)) (Q s l)) < 2 ^ 64"
proof -
  have k: "unat (o_rem b i) \<le> kUint32Max" if "i \<in> set (Q s l)" for i
  proof -
    have "o_rem b i \<le> ob_max_quantity b" using rep_active [OF assms that] by (simp add: active_ok_def)
    then show ?thesis using rep_shape [OF assms] by (auto simp: book_shape_def word_le_nat_alt)
  qed
  have "sum_list (map (\<lambda>i. unat (o_rem b i)) q) \<le> length q * kUint32Max" if "set q \<subseteq> set (Q s l)" for q
    using that by (induction q) (use k in fastforce)+
  then have "sum_list (map (\<lambda>i. unat (o_rem b i)) (Q s l)) \<le> length (Q s l) * kUint32Max" by blast
  also have "\<dots> \<le> kUint32Max * kUint32Max"
    using queue_length [OF assms, of s l] rep_shape [OF assms] by (auto simp: book_shape_def arena_ok_def)
  finally show ?thesis by (simp add: kUint32Max_def)
qed

lemma check_ends_ok:
  assumes "dll (o_prev b) (o_next b) (pl_head pl) (pl_tail pl) q" "q \<noteq> []" "fresh b e ms q"
  shows "check_ends b pl = (IV_None, kInvalidIndex)"
proof -
  obtain xs t where t: "q = xs @ [t]" using assms(2) by (cases q rule: rev_cases) auto
  obtain h ys where h: "q = h # ys" using assms(2) by (cases q) auto
  have "pl_head pl = h" "o_prev b h = kInvalidIndex" using assms(1) by (auto simp: h dll_def)
  moreover have "pl_tail pl = t" "o_next b t = kInvalidIndex" using assms(1) by (auto simp: t dll_def dseg_append)
  moreover have "h \<in> set q" by (simp add: h)
  moreover have "t \<in> set q" by (simp add: t)
  ultimately show ?thesis using assms(3) by (auto simp: check_ends_def fresh_def is_live_index_iff)
qed

lemma check_level_ok:
  assumes "book_rep b Q S X" "l < ticks b" "fresh b e ms (Q s l)"
  shows "check_level b s e l (ms, r) = Some (None, (mark_all e (Q s l) ms, r + of_nat (length (Q s l))))"
proof -
  let ?q = "Q s l" and ?pl = "level b s l"
  have lr: "level_rep b s l ?q" by (rule rep_level [OF assms(1,2)])
  then have d: "dll (o_prev b) (o_next b) (pl_head ?pl) (pl_tail ?pl) ?q" and c: "pl_count ?pl = word_of_nat (length ?q)"
    and a: "pl_aggregate ?pl = sum_list (map (o_rem b) ?q)" and ac: "\<forall>i \<in> set ?q. active_ok b s l i"
    by (auto simp: level_rep_def)
  have sh: "book_shape b" using assms(1) by blast
  have "length ?q < 2 ^ 32" using queue_length [OF assms(1), of s l] sh by (auto simp: book_shape_def arena_ok_def kUint32Max_def)
  then have "unat (pl_count ?pl) = length ?q" unfolding c by (simp add: unat_of_nat)
  then have ne: "pl_count ?pl \<noteq> 0 \<longleftrightarrow> ?q \<noteq> []" by (metis length_0_conv unat_eq_zero)
  have occ: "bm_test (occupancy b s) l = Some (?q \<noteq> [])"
    using bm_test_ok [OF shape_occ(1) [OF sh]] shape_occ(2) [OF sh] assms(1,2) by (auto simp: book_rep_def)
  show ?thesis
  proof (cases "?q = []")
    case True
    then show ?thesis using ne occ d a by (simp add: check_level_def)
  next
    case False
    have "check_queue b s l e (pl_head ?pl) kInvalidIndex 0 0 (ms, r) =
        Some (Inr (last (kInvalidIndex # ?q), 0 + of_nat (length ?q), 0 + sum_list (map (o_rem b) ?q)), (mark_all e ?q ms, r + of_nat (length ?q)))"
      using check_queue_walk [OF sh assms(2,3) _ ac, of kInvalidIndex 0 0 r] d level_sum_bound [OF assms(1), of s l] by (simp add: dll_def)
    moreover have "check_walked ?pl (last (kInvalidIndex # ?q), 0 + of_nat (length ?q), 0 + sum_list (map (o_rem b) ?q)) = (IV_None, kInvalidIndex)"
      using d c a by (simp add: check_walked_def dll_def)
    ultimately show ?thesis using False ne occ check_ends_ok [OF d False assms(3)] by (simp add: check_level_def)
  qed
qed

lemma check_levels_ok:
  assumes "book_rep b Q S X" "\<forall>l \<in> set ls. l < ticks b" "fresh b e ms (concat (map (Q s) ls))"
  shows "check_levels b s e ls (ms, r) = Some (None, (mark_all e (concat (map (Q s) ls)) ms, r + of_nat (length (concat (map (Q s) ls)))))"
  using assms(2,3)
proof (induction ls arbitrary: ms r)
  case (Cons l ls)
  have f: "fresh b e ms (Q s l)" "fresh b e (mark_all e (Q s l) ms) (concat (map (Q s) ls))"
    using fresh_append [of b e ms "Q s l" "concat (map (Q s) ls)"] Cons.prems(2) by auto
  then show ?case
    using check_level_ok [OF assms(1) _ f(1), of r] Cons.IH [OF _ f(2), of "r + of_nat (length (Q s l))"] Cons.prems(1)
    by (simp add: add.assoc)
qed simp

section \<open>The slots reached\<close>

definition side_slots :: "book \<Rightarrow> queues \<Rightarrow> side \<Rightarrow> nat list" where
  "side_slots b Q s = concat (map (Q s) [0..<ticks b])"

definition all_slots :: "book \<Rightarrow> queues \<Rightarrow> nat list \<Rightarrow> nat list" where
  "all_slots b Q S = S @ side_slots b Q Buy @ side_slots b Q Sell"

lemma set_side_slots: "book_rep b Q S X \<Longrightarrow> set (side_slots b Q s) = {i. \<exists>l. i \<in> set (Q s l)}"
  using rep_mem_level [of b Q S X] by (fastforce simp: side_slots_def)

lemma distinct_side_slots: assumes "book_rep b Q S X" shows "distinct (side_slots b Q s)"
proof -
  have "distinct (Q s l)" for l
    using rep_level [OF assms, of l s] assms by (cases "l < ticks b") (auto simp: level_rep_def book_rep_def dest: dll_distinct)
  moreover have "distinct (concat (map (Q s) ls))" if "distinct ls" "\<And>l. distinct (Q s l)" for ls
    using that(1)
  proof (induction ls)
    case (Cons l ls)
    then have "set (Q s l) \<inter> set (concat (map (Q s) ls)) = {}" using rep_disjoint [OF assms, of _ s l s] by fastforce
    then show ?case using Cons that(2) by auto
  qed simp
  ultimately show ?thesis by (simp add: side_slots_def)
qed

lemma all_slots_live:
  assumes "book_rep b Q S {}" shows "distinct (all_slots b Q S)" "set (all_slots b Q S) = live_set (ob_arena b)"
proof -
  have "distinct S" using assms by (auto simp: book_rep_def stop_rep_def dest: dll_distinct)
  then show "distinct (all_slots b Q S)"
    using distinct_side_slots [OF assms] set_side_slots [OF assms] rep_stop_disjoint [OF assms] rep_disjoint [OF assms]
    by (fastforce simp: all_slots_def)
  have "queued Q = {i. \<exists>l. i \<in> set (Q Buy l)} \<union> {i. \<exists>l. i \<in> set (Q Sell l)}"
    unfolding queued_def by (auto, metis side.exhaust)
  then show "set (all_slots b Q S) = live_set (ob_arena b)"
    using assms by (auto simp: all_slots_def set_side_slots [OF assms] book_rep_def)
qed

lemma length_all_slots: assumes "book_rep b Q S {}" shows "length (all_slots b Q S) = ar_size (ob_arena b)"
  using distinct_card [OF all_slots_live(1) [OF assms]] all_slots_live(2) [OF assms] rep_shape [OF assms]
  by (auto simp: book_shape_def arena_ok_def)

lemma check_parts_ok:
  assumes "book_rep b Q S {}" "fresh b e ms (all_slots b Q S)"
  shows "check_parts b e (ms, 0) = Some (None, (mark_all e (all_slots b Q S) ms, of_nat (ar_size (ob_arena b))))"
proof -
  have f: "fresh b e ms S" "fresh b e (mark_all e S ms) (side_slots b Q Buy)"
      "fresh b e (mark_all e (side_slots b Q Buy) (mark_all e S ms)) (side_slots b Q Sell)"
    using assms(2) unfolding all_slots_def by (metis fresh_append)+
  have sr: "stop_rep b S" using assms(1) by (simp add: book_rep_def)
  have len: "length S < 2 ^ 32"
    using rep_stop_length [OF assms(1)] rep_shape [OF assms(1)] by (auto simp: book_shape_def arena_ok_def kUint32Max_def)
  have "check_stops b e (ob_stop_head b) kInvalidIndex (ms, 0) = Some (Inr (last (kInvalidIndex # S)), (mark_all e S ms, 0 + of_nat (length S)))"
    using check_stops_walk [OF f(1), of kInvalidIndex 0] sr by (simp add: stop_rep_def dll_def)
  then have 1: "check_stop_queue b e (ms, 0) = Some (None, (mark_all e S ms, of_nat (length S)))"
    using sr len by (simp add: check_stop_queue_def stop_rep_def dll_def unat_of_nat)
  have 2: "check_side_invariants b s e (ms', r) = Some (None, (mark_all e (side_slots b Q s) ms', r + of_nat (length (side_slots b Q s))))"
    if "fresh b e ms' (side_slots b Q s)" for s ms' r
    using check_levels_ok [OF assms(1) _ that [unfolded side_slots_def]] by (simp add: check_side_invariants_def side_slots_def)
  show ?thesis
    using 1 2 [OF f(2)] 2 [OF f(3)] length_all_slots [OF assms(1), symmetric]
    by (simp add: check_parts_def all_slots_def add.assoc)
qed

lemma check_live_ok:
  assumes "\<And>i. i \<in> live_set (ob_arena b) \<Longrightarrow> ord_remaining (bk_order b i) \<noteq> 0 \<and> ms ! i = e"
  shows "check_live b e (ms, r) is = None"
  by (induction "is") (use assms in \<open>auto simp: Let_def is_live_index_iff\<close>)

lemma live_remaining: assumes "book_rep b Q S {}" "i \<in> live_set (ob_arena b)" shows "o_rem b i \<noteq> 0"
proof -
  have "i \<in> set S \<or> (\<exists>s l. i \<in> set (Q s l))" using assms by (auto simp: book_rep_def queued_def)
  then show ?thesis using rep_stop [OF assms(1)] rep_active [OF assms(1)] by (auto simp: stop_ok_def active_ok_def)
qed

definition passed :: "book \<Rightarrow> invariant_result" where
  "passed b = (case crossed_levels b of
     None \<Rightarrow> invariant_success (of_nat (ar_size (ob_arena b)))
   | Some bid \<Rightarrow> invariant_failure IV_Crossed_Book Buy bid kInvalidIndex (of_nat (ar_size (ob_arena b))))"

lemma check_reached_ok:
  assumes "book_rep b Q S {}" "length ms = slots b"
  shows "check_reached b e (mark_all e (all_slots b Q S) ms, of_nat (ar_size (ob_arena b))) = passed b"
proof -
  have "check_live b e (mark_all e (all_slots b Q S) ms, r) is = None" for r "is"
    using live_remaining [OF assms(1)] all_slots_live(2) [OF assms(1)] live_set_bound assms(2)
    by (intro check_live_ok) (auto simp: nth_mark_all)
  moreover have "ar_size (ob_arena b) < 2 ^ 32"
    using size_le_capacity [of "ob_arena b"] rep_shape [OF assms(1)] by (auto simp: book_shape_def arena_ok_def kUint32Max_def)
  ultimately show ?thesis by (simp add: check_reached_def passed_def unat_of_nat split: option.split)
qed

section \<open>The epoch\<close>

text \<open>No slot carries a mark of the future.\<close>

definition visits_ok :: "book \<Rightarrow> bool" where
  "visits_ok b \<longleftrightarrow> (\<forall>i < slots b. ob_visit_marks b ! i \<le> ob_visit_epoch b)"

abbreviation visited :: "book \<Rightarrow> u32 list \<Rightarrow> u32 \<Rightarrow> book" where
  "visited b ms e \<equiv> b\<lparr>ob_visit_marks := ms, ob_visit_epoch := e\<rparr>"

lemma visited_parts [simp]:
  "occupancy (visited b ms e) s = occupancy b s" "level (visited b ms e) s l = level b s l"
  "bk_order (visited b ms e) i = bk_order b i"
  by (cases s; simp add: level.simps occupancy.simps bk_order_def)+

lemma passed_visited: "passed (visited b ms e) = passed b"
proof -
  have "crossed_levels (visited b ms e) = crossed_levels b" by (simp add: crossed_levels_def best_index.simps split: option.split)
  then show ?thesis by (simp add: passed_def split: option.split)
qed

lemma visited_rep: assumes "book_rep b Q S X" "length ms = slots b" shows "book_rep (visited b ms e) Q S X"
proof -
  have "book_shape (visited b ms e)"
    using rep_shape [OF assms(1)] assms(2) by (simp add: book_shape_def arrays_ok_def)
  then show ?thesis by (rule rep_same [OF assms(1)]) simp_all
qed

lemma visited_ok: assumes "book_ok b" "length ms = slots b" shows "book_ok (visited b ms e)"
proof (rule book_okI)
  show "book_rep (visited b ms e) (queue_of b) (stop_queue b) {}" using assms visited_rep by (simp add: book_ok_def)
  show "epochs_ok (visited b ms e)" using assms(1) by (simp add: book_ok_def epochs_ok_def)
qed

lemma next_visit_epoch_ok:
  assumes "visits_ok b" "length (ob_visit_marks b) = slots b" "i < slots b"
  shows "ob_visit_marks (next_visit_epoch b) ! i < ob_visit_epoch (next_visit_epoch b)"
  using assms u32_less_suc [of "ob_visit_epoch b" "ob_visit_marks b ! i"] by (auto simp: next_visit_epoch_def visits_ok_def)

lemma next_visit_epoch_visited:
  assumes "length (ob_visit_marks b) = slots b"
  obtains ms e where "next_visit_epoch b = visited b ms e" "length ms = slots b"
  using next_visit_epoch_eq [of b] assms by blast

lemma check_invariants_returns:
  assumes len: "length (ob_visit_marks b) = slots b"
  obtains r ms e where "check_invariants b = Some (r, visited b ms e)" "length ms = slots b"
proof -
  obtain ms e where v: "next_visit_epoch b = visited b ms e" "length ms = slots b" by (rule next_visit_epoch_visited [OF len])
  obtain x st where p: "check_parts (visited b ms e) e (ms, 0) = Some (x, st)" "length (fst st) = slots b"
    using check_parts_returns [of "(ms, 0)" "visited b ms e" e] v(2) by auto
  show thesis
  proof (cases "hierarchy_consistent (ob_bid_occupancy b) \<and> hierarchy_consistent (ob_ask_occupancy b)")
    case True
    then have "check_invariants b = Some (case x of None \<Rightarrow> check_reached (visited b ms e) e st | Some f \<Rightarrow> f, visited b (fst st) e)"
      using p by (cases x) (simp_all add: check_invariants_def v(1) Let_def)
    then show ?thesis using p(2) that by blast
  next
    case False
    then have "\<exists>r. check_invariants b = Some (r, b)" by (auto simp: check_invariants_def)
    then obtain r where "check_invariants b = Some (r, b)" ..
    then have "check_invariants b = Some (r, visited b (ob_visit_marks b) (ob_visit_epoch b))" by simp
    then show ?thesis using len that by blast
  qed
qed

lemma self_check_ok:
  assumes ok: "book_ok b" and vis: "visits_ok b"
  obtains ms e where "check_invariants b = Some (passed b, visited b ms e)" "length ms = slots b" "visits_ok (visited b ms e)"
proof -
  let ?Q = "queue_of b" and ?S = "stop_queue b"
  have rep: "book_rep b ?Q ?S {}" using ok by (simp add: book_ok_def)
  have sh: "book_shape b" using rep by blast
  have len: "length (ob_visit_marks b) = slots b" using shape_arrays [OF sh] by (simp add: arrays_ok_def)
  obtain ms e where v: "next_visit_epoch b = visited b ms e" "length ms = slots b" by (rule next_visit_epoch_visited [OF len])
  have old: "ms ! i < e" if "i < slots b" for i using next_visit_epoch_ok [OF vis len that] v by simp
  have rep': "book_rep (visited b ms e) ?Q ?S {}" by (rule visited_rep [OF rep v(2)])
  let ?A = "all_slots (visited b ms e) ?Q ?S" and ?ms = "mark_all e (all_slots (visited b ms e) ?Q ?S) ms"
  have "fresh (visited b ms e) e ms ?A"
    using all_slots_live [OF rep'] live_set_bound [of _ "ob_arena b"] old v(2) shape_slots [OF sh] by (fastforce simp: fresh_def)
  then have p: "check_parts (visited b ms e) e (ms, 0) = Some (None, (?ms, of_nat (ar_size (ob_arena b))))"
    using check_parts_ok [OF rep'] by simp
  have r: "check_reached (visited b ms e) e (?ms, of_nat (ar_size (ob_arena b))) = passed b"
    using check_reached_ok [OF rep', of ms e] v(2) by (simp add: passed_visited)
  have "check_invariants b = Some (passed b, visited b ?ms e)"
    using shape_hierarchy [OF sh, of Buy] shape_hierarchy [OF sh, of Sell] p r
    by (simp add: check_invariants_def v(1) Let_def occupancy.simps)
  moreover have "visits_ok (visited b ?ms e)" using old v(2) by (auto simp: visits_ok_def nth_mark_all less_imp_le)
  ultimately show thesis by (intro that [where ms = ?ms and e = e]) (simp_all add: v(2))
qed

text \<open>
  C24. The book's check of itself returns on every book whose arrays have the size of the arena, whatever its links, counters
  and bitmaps hold: a walk marks every slot it passes and stops at a marked one.  It writes only its own marks and epoch.
\<close>

theorem self_check_returns:
  "length (ob_visit_marks b) = slots b \<longrightarrow>
     (\<exists>r ms e. check_invariants b = Some (r, b\<lparr>ob_visit_marks := ms, ob_visit_epoch := e\<rparr>) \<and> length ms = slots b)"
proof
  assume len: "length (ob_visit_marks b) = slots b"
  obtain r ms e where "check_invariants b = Some (r, visited b ms e)" "length ms = slots b" by (rule check_invariants_returns [OF len])
  then show "\<exists>r ms e. check_invariants b = Some (r, visited b ms e) \<and> length ms = slots b" by blast
qed

theorem self_check_returns_witness:
  "\<exists>r ms e. check_invariants (demo_ask\<lparr>ob_stop_head := 1, ob_stop_next := [1, 0]\<rparr>) =
     Some (r, demo_ask\<lparr>ob_stop_head := 1, ob_stop_next := [1, 0]\<rparr>\<lparr>ob_visit_marks := ms, ob_visit_epoch := e\<rparr>) \<and> length ms = 2"
  using self_check_returns [of "demo_ask\<lparr>ob_stop_head := 1, ob_stop_next := [1, 0]\<rparr>"] by (simp add: demo_ask_def)

text \<open>
  C23. On a book that satisfies the representation invariant the check finds nothing: it reports as many reachable orders as the
  arena holds and no violation, or a crossed book exactly when the market is continuous and the best bid is not below the
  best ask.  The book stays well-formed and its next check starts from a fresh epoch.
\<close>

theorem self_check_accepts:
  "book_ok b \<and> visits_ok b \<longrightarrow>
     (\<exists>b'. check_invariants b = Some (passed b, b') \<and> book_ok b' \<and> visits_ok b' \<and> queue_of b' = queue_of b \<and> stop_queue b' = stop_queue b)"
proof (intro impI, elim conjE)
  assume ok: "book_ok b" and vis: "visits_ok b"
  let ?Q = "queue_of b" and ?S = "stop_queue b"
  have rep: "book_rep b ?Q ?S {}" using ok by (simp add: book_ok_def)
  obtain ms e where c: "check_invariants b = Some (passed b, visited b ms e)" "length ms = slots b" "visits_ok (visited b ms e)"
    by (rule self_check_ok [OF ok vis])
  moreover have "book_ok (visited b ms e)" by (rule visited_ok [OF ok c(2)])
  moreover have "queue_of (visited b ms e) = ?Q" "stop_queue (visited b ms e) = ?S"
    using visited_rep [OF rep c(2), of e] by (simp_all add: rep_queue_of rep_stop_queue)
  ultimately show "\<exists>b'. check_invariants b = Some (passed b, b') \<and> book_ok b' \<and> visits_ok b' \<and> queue_of b' = ?Q \<and> stop_queue b' = ?S"
    by blast
qed

theorem self_check_accepts_witness:
  "\<exists>b'. check_invariants demo_ask = Some (invariant_success 1, b') \<and> book_ok b'"
proof -
  have "visits_ok demo_ask" "passed demo_ask = invariant_success 1" by code_simp+
  then show ?thesis using self_check_accepts [of demo_ask] demo_ask_ok(1) by auto
qed

end
