(* ===== verification/Snapshot_Header.thy ===== *)
theory Snapshot_Header
  imports Snapshot_Bytes Book_Check_Properties
begin

text \<open>
  The header of an encoded snapshot is accepted and describes the engine: the empty engine built from it has the configuration, the
  clock and the last execution price of the engine that was encoded.
\<close>

section \<open>What can be stored\<close>

definition config_ok :: "book \<Rightarrow> bool" where
  "config_ok b \<longleftrightarrow> ob_self_trade_policy b \<in> {STP_None, STP_Cancel_Taker} \<and> ob_trading_state b \<in> {Continuous, Opening_Auction} \<and>
     (ob_allocation_mode b = Fifo \<and> ob_pro_rata_minimum b = 0 \<or>
      ob_allocation_mode b = Threshold_Pro_Rata \<and> ob_pro_rata_minimum b \<noteq> 0 \<and> ob_pro_rata_minimum b \<le> ob_max_quantity b) \<and>
     (case ob_last_execution_price b of None \<Rightarrow> True | Some p \<Rightarrow> int64_range p)"

text \<open>
  The arrays beside a live slot hold what the book leaves there: a resting order has no stop fields, a dormant stop no links,
  no level, no trader and no displayed quantity.
\<close>

definition slot_storable :: "book \<Rightarrow> nat \<Rightarrow> bool" where
  "slot_storable b i \<longleftrightarrow> (let sl = ar_slots (ob_arena b) ! i; ord = sl_order sl in
     sl_free_next sl \<le> kInvalidIndex \<and>
     (sl_live sl \<longrightarrow>
        (if is_dormant ord then ord_prev ord = kInvalidIndex \<and> ord_next ord = kInvalidIndex \<and> decode_level (ord_encoded ord) = 0 \<and>
            ob_trader_ids b ! i = 0 \<and> ob_display_quantities b ! i = 0 \<and> ob_displayed_remaining b ! i = 0 \<and>
            (is_stop_market ord \<longrightarrow> ob_stop_limit_prices b ! i = 0) \<and>
            int64_range (ob_stop_trigger_prices b ! i) \<and> int64_range (ob_stop_limit_prices b ! i)
         else ob_stop_trigger_prices b ! i = 0 \<and> ob_stop_limit_prices b ! i = 0 \<and> ob_stop_prev b ! i = 0 \<and> ob_stop_next b ! i = 0)))"

definition storable :: "book \<Rightarrow> bool" where
  "storable b \<longleftrightarrow> book_ok b \<and> visits_ok b \<and> config_ok b \<and> slots b \<le> kMaximumSnapshotSlots \<and> list_all (slot_storable b) [0..<slots b]"

section \<open>Words through bytes\<close>

lemma ucast_of_nat32: "(ucast (word_of_nat n :: u64) :: u32) = word_of_nat n"
  by (rule bit_word_eqI) (simp add: bit_simps)

lemma ucast_down_up: "unat (w :: u64) < 2 ^ 32 \<Longrightarrow> ucast (ucast w :: u32) = w"
proof -
  assume "unat w < 2 ^ 32"
  then have "unat (ucast (ucast w :: u32) :: u64) = unat w" by (simp add: unsigned_ucast_eq unsigned_take_bit_eq take_bit_nat_eq_self)
  then show ?thesis by (simp add: unsigned_word_eqI)
qed

lemma ucast_up_down [simp]: "(ucast (ucast (w :: u32) :: u64) :: u32) = w"
  by (rule bit_word_eqI) (simp add: bit_simps)

lemma unat_of_nat32 [simp]: "n < 2 ^ 32 \<Longrightarrow> unat (word_of_nat n :: u32) = n"
  by (simp add: unat_of_nat)

lemma unat_of_nat64: "n < 2 ^ 64 \<Longrightarrow> unat (word_of_nat n :: u64) = n"
  by (simp add: unat_of_nat)

section \<open>The header\<close>

lemma header_reads:
  assumes "file_image e p bs"
  defines "b \<equiv> se_book e"
  shows "read_u32 bs 8 = 6" "read_u32 bs 12 = 124" "read_u32 bs 16 = 96" "read_u32 bs 20 = policy_code (ob_self_trade_policy b)"
    "read_u64 bs 24 = word_of_nat (snapshot_size (slots b))" "read_u64 bs 32 = price_bits (pd_minimum (ob_domain b))"
    "read_u32 bs 40 = word_of_nat (ticks b)" "read_u32 bs 44 = ucast (ob_max_quantity b)" "read_u32 bs 48 = word_of_nat (slots b)"
    "read_u32 bs 52 = word_of_nat (ar_size (ob_arena b))" "read_u32 bs 56 = word_of_nat (ar_free_head (ob_arena b))"
    "read_u32 bs 60 = (if se_sequence_exhausted e then 1 else 0)" "read_u64 bs 64 = se_next_sequence e"
    "read_u64 bs 72 = se_last_logical_time e" "read_u64 bs 80 = sp_sequence p" "read_u64 bs 88 = sp_logical_time p"
    "read_u64 bs 100 = price_bits (case ob_last_execution_price b of None \<Rightarrow> 0 | Some x \<Rightarrow> x)"
    "read_u32 bs 108 = (if ob_last_execution_price b \<noteq> None then 1 else 0)"
    "read_u32 bs 112 = allocation_code (ob_allocation_mode b)" "read_u32 bs 116 = ucast (ob_pro_rata_minimum b)"
    "read_u32 bs 120 = trading_code (ob_trading_state b)"
  using assms(1) unfolding file_image_def header_fields_def b_def [symmetric] Let_def
  by (simp_all add: field_at_def ucast_of_nat32 kSnapshotFormatVersion_def kSnapshotHeaderSize_def kSnapshotSlotSize_def split: if_splits)

lemma storableD:
  assumes "storable b"
  shows "book_ok b" "visits_ok b" "config_ok b" "slots b \<le> 1000000" "\<And>i. i < slots b \<Longrightarrow> slot_storable b i" "book_shape b"
    "0 < ticks b" "ticks b \<le> 1000000" "0 < unat (ob_max_quantity b)" "unat (ob_max_quantity b) < 2 ^ 32" "ar_size (ob_arena b) \<le> slots b"
proof -
  show ok: "book_ok b" "visits_ok b" "config_ok b" "slots b \<le> 1000000" "\<And>i. i < slots b \<Longrightarrow> slot_storable b i"
    using assms by (auto simp: storable_def kMaximumSnapshotSlots_def list_all_iff)
  show sh: "book_shape b" using ok(1) by (auto simp: book_ok_def)
  show "0 < ticks b" "ticks b \<le> 1000000" "0 < unat (ob_max_quantity b)" "unat (ob_max_quantity b) < 2 ^ 32"
    using sh by (auto simp: book_shape_def domain_ok_def kMaximumPriceLevels_def kUint32Max_def unat_gt_0 word_gt_0)
  show "ar_size (ob_arena b) \<le> slots b" using sh by (intro size_le_capacity) auto
qed

definition stored_header :: "engine \<Rightarrow> snapshot_point \<Rightarrow> snapshot_header" where
  "stored_header e p = (let b = se_book e in \<lparr>sh_version = 6, sh_header_size = 124, sh_slot_size = 96,
     sh_policy = policy_code (ob_self_trade_policy b), sh_allocation = allocation_code (ob_allocation_mode b),
     sh_pro_rata_minimum = ucast (ob_pro_rata_minimum b), sh_trading_state = trading_code (ob_trading_state b), sh_capacity = slots b,
     sh_live_count = ar_size (ob_arena b), sh_tick_count = ticks b, sh_max_quantity = ucast (ob_max_quantity b),
     sh_next_sequence = se_next_sequence e, sh_last_time = se_last_logical_time e, sh_point = p,
     sh_exhausted = (if se_sequence_exhausted e then 1 else 0)\<rparr>)"

lemma read_header_stored:
  assumes "file_image e p bs" "storable (se_book e)" shows "read_header bs = stored_header e p"
proof -
  note r = header_reads [OF assms(1)] and s = storableD [OF assms(2)]
  have "slots (se_book e) < 2 ^ 32" "ar_size (ob_arena (se_book e)) < 2 ^ 32" "ticks (se_book e) < 2 ^ 32" using s(4,8,11) by simp_all
  then show ?thesis
    by (simp add: read_header_def stored_header_def r Let_def header_size_of_def slot_size_of_def kSnapshotFormatVersion_def
        kSnapshotHeaderSize_def kSnapshotSlotSize_def)
qed

lemma code_bounds:
  assumes "config_ok b"
  shows "policy_code (ob_self_trade_policy b) \<le> 1" "allocation_code (ob_allocation_mode b) \<le> 1" "trading_code (ob_trading_state b) \<le> 1"
    "policy_of (policy_code (ob_self_trade_policy b)) = ob_self_trade_policy b"
    "allocation_of (allocation_code (ob_allocation_mode b)) = ob_allocation_mode b"
    "trading_of (trading_code (ob_trading_state b)) = ob_trading_state b"
  using assms by (auto simp: config_ok_def policy_of_def allocation_of_def trading_of_def)

lemma u32_zero_iff: "unat (w :: u64) < 2 ^ 32 \<Longrightarrow> (ucast w :: u32) = 0 \<longleftrightarrow> w = 0"
  by (metis ucast_0 ucast_down_up)

lemma u32_le_iff: "unat (v :: u64) < 2 ^ 32 \<Longrightarrow> unat (w :: u64) < 2 ^ 32 \<Longrightarrow> (ucast v :: u32) \<le> ucast w \<longleftrightarrow> v \<le> w"
  by (simp add: word_le_nat_alt unsigned_ucast_eq unsigned_take_bit_eq take_bit_nat_eq_self)

lemma parse_stored:
  assumes img: "file_image e p bs" and st: "storable (se_book e)" and pm: "point_matches e p"
  shows "parse_snapshot_header bs = Inr (stored_header e p)"
proof -
  let ?b = "se_book e" and ?h = "stored_header e p"
  note r = header_reads [OF img] and s = storableD [OF st] and c = code_bounds [OF storableD(3) [OF st]]
  have len: "length bs = 124 + slots ?b * 96"
    using img by (simp add: file_image_def snapshot_size_def kSnapshotHeaderSize_def kSnapshotSlotSize_def)
  have minq: "unat (ob_pro_rata_minimum ?b) < 2 ^ 32"
    using s(3,10) by (auto simp: config_ok_def word_le_nat_alt)
  have v: "header_size_of 6 = 124" "(6 :: u32) \<in> {1, 2, 3, 4, 5, kSnapshotFormatVersion}"
    by (simp_all add: header_size_of_def kSnapshotFormatVersion_def kSnapshotHeaderSize_def)
  have m: "\<not> header_malformed bs ?h"
    using c by (auto simp: header_malformed_def stored_header_def Let_def r not_less price_bits_def)
  have cfg: "\<not> configuration_invalid ?h"
    using s(3,9,10) minq by (auto simp: configuration_invalid_def stored_header_def Let_def config_ok_def u32_zero_iff not_less u32_le_iff)
  have sq: "\<not> sequence_invalid ?h"
  proof -
    have "se_next_sequence e \<noteq> 0" using pm by (auto simp: point_matches_def eq_neg_iff_add_eq_0)
    then show ?thesis using pm by (auto simp: sequence_invalid_def point_matches_def stored_header_def Let_def)
  qed
  have sz: "unat (read_u64 bs 24) = 124 + slots ?b * 96"
  proof -
    have n: "snapshot_size (slots ?b) = 124 + slots ?b * 96" by (simp add: snapshot_size_def kSnapshotHeaderSize_def kSnapshotSlotSize_def)
    have "unat (read_u64 bs 24) = snapshot_size (slots ?b)" unfolding r by (rule unat_of_nat64) (use s(4) n in simp)
    then show ?thesis using n by simp
  qed
  have crc: "snapshot_crc bs = read_u32 bs 96" using img by (simp add: file_image_def)
  have magic: "take 8 bs = kSnapshotMagic" using img by (simp add: file_image_def)
  have h: "sh_header_size ?h = 124" "sh_slot_size ?h = 96" "sh_capacity ?h = slots ?b" "sh_tick_count ?h = ticks ?b"
    "sh_live_count ?h = ar_size (ob_arena ?b)" by (simp_all add: stored_header_def Let_def)
  show ?thesis
    unfolding parse_snapshot_header_def Let_def read_header_stored [OF img st] r(1) v(1) length_snapshot_magic magic h kChecksumOffset_def crc sz
    using v(2) m cfg sq len s(4,7,8,11)
    by (simp add: kLegacySnapshotHeaderSize_def kMaximumSnapshotSlots_def kMaximumPriceLevels_def)
qed

end
