(* ===== verification/Snapshot_Rebuild.thy ===== *)
theory Snapshot_Rebuild
  imports Snapshot_Header Order_Book_Init
begin

text \<open>
  Decoding rebuilds the book slot by slot: \<open>rebuilt b Q S n b'\<close> says that \<open>b'\<close> is what the first \<open>n\<close> slots of \<open>b\<close>, whose queues are
  \<open>Q\<close> and whose stops are \<open>S\<close>, determine.
\<close>

section \<open>The state in between\<close>

abbreviation seen :: "nat \<Rightarrow> nat list \<Rightarrow> nat list" where
  "seen n q \<equiv> filter (\<lambda>j. j < n) q"

definition first_seen :: "nat \<Rightarrow> nat list \<Rightarrow> nat" where
  "first_seen n q = (if q \<noteq> [] \<and> hd q < n then hd q else kInvalidIndex)"

definition last_seen :: "nat \<Rightarrow> nat list \<Rightarrow> nat" where
  "last_seen n q = (if q \<noteq> [] \<and> last q < n then last q else kInvalidIndex)"

definition seen_level :: "book \<Rightarrow> nat \<Rightarrow> nat list \<Rightarrow> price_level" where
  "seen_level b n q = \<lparr>pl_head = first_seen n q, pl_tail = last_seen n q,
     pl_aggregate = sum_list (map (o_rem b) (seen n q)), pl_count = word_of_nat (length (seen n q))\<rparr>"

definition stored_slot :: "slot \<Rightarrow> slot" where
  "stored_slot sl = (if sl_live sl then sl else sl\<lparr>sl_order := cleared_order\<rparr>)"

definition same_arrays :: "book \<Rightarrow> book \<Rightarrow> nat \<Rightarrow> bool" where
  "same_arrays b b' i \<longleftrightarrow> ob_trader_ids b' ! i = ob_trader_ids b ! i \<and> ob_display_quantities b' ! i = ob_display_quantities b ! i \<and>
     ob_displayed_remaining b' ! i = ob_displayed_remaining b ! i \<and> ob_stop_trigger_prices b' ! i = ob_stop_trigger_prices b ! i \<and>
     ob_stop_limit_prices b' ! i = ob_stop_limit_prices b ! i \<and> ob_stop_prev b' ! i = ob_stop_prev b ! i \<and>
     ob_stop_next b' ! i = ob_stop_next b ! i"

definition same_config :: "book \<Rightarrow> book \<Rightarrow> bool" where
  "same_config b b' \<longleftrightarrow> ob_domain b' = ob_domain b \<and> ob_max_quantity b' = ob_max_quantity b \<and>
     ob_self_trade_policy b' = ob_self_trade_policy b \<and> ob_allocation_mode b' = ob_allocation_mode b \<and>
     ob_pro_rata_minimum b' = ob_pro_rata_minimum b \<and> ob_trading_state b' = ob_trading_state b \<and>
     ob_last_execution_price b' = ob_last_execution_price b \<and> slots b' = slots b \<and> ar_size (ob_arena b') = ar_size (ob_arena b) \<and>
     ar_free_head (ob_arena b') = ar_free_head (ob_arena b)"

text \<open>The parts of a new book that decoding does not touch.\<close>

definition blank :: "book \<Rightarrow> bool" where
  "blank b \<longleftrightarrow> arrays_ok b \<and> length (ar_slots (ob_arena b)) = slots b \<and> length (ob_bids b) = ticks b \<and> length (ob_asks b) = ticks b \<and>
     ob_trade_report_epochs b = replicate (slots b) 0 \<and> ob_trade_report_epoch b = 0 \<and>
     ob_visit_marks b = replicate (slots b) 0 \<and> ob_visit_epoch b = 0"

definition filled :: "book \<Rightarrow> nat \<Rightarrow> book \<Rightarrow> bool" where
  "filled b n b' \<longleftrightarrow> same_config b b' \<and> blank b' \<and>
     (\<forall>i < n. ar_slots (ob_arena b') ! i = stored_slot (ar_slots (ob_arena b) ! i) \<and> (sl_live (ar_slots (ob_arena b) ! i) \<longrightarrow> same_arrays b b' i))"

definition levels_seen :: "book \<Rightarrow> queues \<Rightarrow> nat \<Rightarrow> book \<Rightarrow> bool" where
  "levels_seen b Q n b' \<longleftrightarrow> (\<forall>s l. l < ticks b \<longrightarrow> level b' s l = seen_level b n (Q s l)) \<and>
     (\<forall>s. bm_inv (occupancy b' s) \<and> bm_bit_count (occupancy b' s) = ticks b \<and> bm_elems (occupancy b' s) = {l. seen n (Q s l) \<noteq> []})"

definition stops_seen :: "nat list \<Rightarrow> nat \<Rightarrow> book \<Rightarrow> bool" where
  "stops_seen S n b' \<longleftrightarrow> ob_stop_head b' = first_seen n S \<and> ob_stop_tail b' = last_seen n S \<and> ob_dormant_stop_count b' = length (seen n S)"

definition rebuilt :: "book \<Rightarrow> queues \<Rightarrow> nat list \<Rightarrow> nat \<Rightarrow> book \<Rightarrow> bool" where
  "rebuilt b Q S n b' \<longleftrightarrow> filled b n b' \<and> levels_seen b Q n b' \<and> stops_seen S n b'"

section \<open>The empty engine\<close>

lemma make_book_succeeds:
  assumes "storable b"
  obtains b0 where "make_book (ob_domain b) (slots b) (ob_max_quantity b) (ob_self_trade_policy b) (ob_allocation_mode b)
      (ob_pro_rata_minimum b) (ob_trading_state b) = Inr b0" "ob_pro_rata_minimum b0 = ob_pro_rata_minimum b"
proof -
  note s = storableD [OF assms]
  have t: "0 < ticks b" "ticks b < 2 ^ 32" using s(7,8) by auto
  obtain m where m: "make_bitmap (ticks b) = Inr m" using make_bitmap_ok [OF t] by blast
  have "checked_domain (ob_domain b) = Inr (ob_domain b)"
    using s(7,8) by (auto simp: checked_domain_def is_encodable_tick_count_def kOrderLevelMask_def kMaximumPriceLevels_def)
  moreover have "checked_max_quantity (ob_max_quantity b) = Inr (ob_max_quantity b)"
    using s(9,10) by (auto simp: checked_max_quantity_def kUint32Max_def)
  moreover obtain a where "make_arena (slots b) = Inr a"
    using s(4) by (auto simp: make_arena_def checked_capacity_def kUint32Max_def)
  moreover have "checked_pro_rata_minimum (ob_allocation_mode b) (ob_pro_rata_minimum b) (ob_max_quantity b) = Inr (ob_pro_rata_minimum b)"
    using s(3) by (auto simp: checked_pro_rata_minimum_def config_ok_def)
  ultimately show thesis
    using m s(3) that by (auto simp: make_book_def sum_bind_def Let_def config_ok_def)
qed

lemma free_head_bound: "arena_ok a \<Longrightarrow> ar_free_head a = kInvalidIndex \<or> ar_free_head a < ar_capacity a"
proof -
  assume "arena_ok a"
  then obtain F where F: "free_chain (ar_slots a) (ar_free_head a) F" "set F \<subseteq> {..<ar_capacity a}" by (auto simp: arena_ok_def)
  then show ?thesis by (cases F) auto
qed

lemma empty_engine_stored:
  assumes img: "file_image e p bs" and st: "storable (se_book e)" and pm: "point_matches e p"
    and q: "book_rep (se_book e) Q S {}"
  obtains e0 where "empty_engine bs (stored_header e p) = Inr e0" "rebuilt (se_book e) Q S 0 (se_book e0)"
    "se_next_sequence e0 = se_next_sequence e" "se_last_logical_time e0 = se_last_logical_time e"
    "se_sequence_exhausted e0 = se_sequence_exhausted e" "se_trade_capacity e0 = slots (se_book e)"
    "length (se_trade_scratch e0) = slots (se_book e)"
proof -
  let ?b = "se_book e"
  note r = header_reads [OF img] and s = storableD [OF st] and c = code_bounds [OF storableD(3) [OF st]]
  have dom: "domain_ok (ob_domain ?b)" using s(6) by (simp add: book_shape_def)
  have mq: "ucast (ucast (ob_max_quantity ?b) :: u32) = ob_max_quantity ?b" using s(10) by (rule ucast_down_up)
  have "unat (ob_pro_rata_minimum ?b) < 2 ^ 32" using s(3,10) by (auto simp: config_ok_def word_le_nat_alt)
  then have mn: "ucast (ucast (ob_pro_rata_minimum ?b) :: u32) = ob_pro_rata_minimum ?b" by (rule ucast_down_up)
  have pd: "make_price_domain (bits_price (read_u64 bs 32)) (ticks ?b) = Inr (ob_domain ?b)"
    using dom s(7) by (cases "ob_domain ?b") (auto simp: r bits_price_inv make_price_domain_def checked_maximum_def domain_ok_def Let_def)
  obtain b0 where b0: "make_book (ob_domain ?b) (slots ?b) (ob_max_quantity ?b) (ob_self_trade_policy ?b) (ob_allocation_mode ?b)
      (ob_pro_rata_minimum ?b) (ob_trading_state ?b) = Inr b0" "ob_pro_rata_minimum b0 = ob_pro_rata_minimum ?b"
    by (rule make_book_succeeds [OF st])
  obtain bo ao ar minq where f: "b0 = fresh_book (ob_domain ?b) (slots ?b) (ob_max_quantity ?b) (ob_self_trade_policy ?b)
      (ob_allocation_mode ?b) minq (ob_trading_state ?b) bo ao ar"
    "bm_inv bo" "bm_bit_count bo = ticks ?b" "bm_elems bo = {}" "bm_inv ao" "bm_bit_count ao = ticks ?b" "bm_elems ao = {}"
    "arena_ok ar" "ar_capacity ar = slots ?b"
    by (rule make_book_fields [OF b0(1) dom]) blast
  have nz: "se_next_sequence e \<noteq> 0" using pm by (auto simp: point_matches_def eq_neg_iff_add_eq_0)
  have lp: "(if read_u32 bs 108 = 1 then Some (bits_price (read_u64 bs 100)) else None) = ob_last_execution_price ?b"
    using s(3) by (cases "ob_last_execution_price ?b") (auto simp: r config_ok_def bits_price_inv)
  have fh: "unat (read_u32 bs 56) = ar_free_head (ob_arena ?b)"
  proof -
    have "ar_free_head (ob_arena ?b) < 2 ^ 32"
      using free_head_bound [of "ob_arena ?b"] s(4,6) by (auto simp: book_shape_def kInvalidIndex_def)
    then show ?thesis by (simp add: r)
  qed
  define b1 where "b1 = b0\<lparr>ob_last_execution_price := ob_last_execution_price ?b,
      ob_arena := (ob_arena b0)\<lparr>ar_size := ar_size (ob_arena ?b), ar_free_head := ar_free_head (ob_arena ?b)\<rparr>\<rparr>"
  have e: "empty_engine bs (stored_header e p) = Inr \<lparr>se_book = b1,
      se_trade_scratch = replicate (slots ?b) \<lparr>tr_buy = 0, tr_sell = 0, tr_price = 0, tr_quantity = 0\<rparr>,
      se_trade_capacity = slots ?b, se_next_sequence = se_next_sequence e, se_last_logical_time = se_last_logical_time e,
      se_sequence_exhausted = se_sequence_exhausted e\<rparr>" (is "_ = Inr ?e0")
    unfolding empty_engine_def b1_def using pd nz
    by (simp add: stored_header_def Let_def make_engine_def sum_bind_def c mq mn b0(1) lp fh)
  have lev: "level b1 s l = empty_level" if "l < ticks ?b" for s l using that by (cases s) (simp_all add: b1_def f(1) fresh_book_def level.simps)
  have occ: "occupancy b1 s = (if s = Buy then bo else ao)" for s by (cases s) (simp_all add: b1_def f(1) fresh_book_def occupancy.simps)
  have mn': "minq = ob_pro_rata_minimum ?b" using b0(2) by (simp add: f(1) fresh_book_def)
  have len: "length (ar_slots ar) = slots ?b" using f(8,9) by (simp add: arena_ok_def)
  have "same_config ?b b1" by (simp add: same_config_def b1_def f(1,9) fresh_book_def mn')
  moreover have "blank b1" using len by (simp add: blank_def arrays_ok_def b1_def f(1,9) fresh_book_def)
  ultimately have "filled ?b 0 b1" by (simp add: filled_def)
  moreover have "levels_seen ?b Q 0 b1"
    by (simp add: levels_seen_def lev occ seen_level_def first_seen_def last_seen_def empty_level_def f(2-7))
  moreover have "stops_seen S 0 b1" by (simp add: stops_seen_def first_seen_def last_seen_def b1_def f(1) fresh_book_def)
  ultimately have "rebuilt ?b Q S 0 b1" by (simp add: rebuilt_def)
  then show thesis by (intro that [of ?e0] e) simp_all
qed

section \<open>What a longer prefix has seen\<close>

lemma seen_other: "i \<notin> set q \<Longrightarrow> seen (Suc i) q = seen i q"
  by (rule filter_cong) (auto simp: less_Suc_eq)

lemma seen_here:
  assumes "distinct q" "i \<in> set q"
  obtains xs ys where "seen (Suc i) q = xs @ i # ys" "seen i q = xs @ ys"
proof -
  obtain xs ys where q: "q = xs @ i # ys" using assms(2) by (auto simp: in_set_conv_decomp)
  then show thesis using assms(1) by (intro that [of "seen i xs" "seen i ys"]) (auto simp: seen_other)
qed

lemma ends_other: "i \<notin> set q \<Longrightarrow> first_seen (Suc i) q = first_seen i q" "i \<notin> set q \<Longrightarrow> last_seen (Suc i) q = last_seen i q"
  by (auto simp: first_seen_def last_seen_def less_Suc_eq)

lemma ends_here:
  "first_seen (Suc i) q = (if q \<noteq> [] \<and> hd q = i then i else first_seen i q)"
  "last_seen (Suc i) q = (if q \<noteq> [] \<and> last q = i then i else last_seen i q)"
  by (auto simp: first_seen_def last_seen_def less_Suc_eq)

lemma seen_level_other: "i \<notin> set q \<Longrightarrow> seen_level b (Suc i) q = seen_level b i q"
  by (simp add: seen_level_def ends_other seen_other)

lemma seen_level_here:
  assumes "distinct q" "i \<in> set q"
  shows "seen_level b (Suc i) q = \<lparr>pl_head = (if hd q = i then i else first_seen i q), pl_tail = (if last q = i then i else last_seen i q),
    pl_aggregate = pl_aggregate (seen_level b i q) + o_rem b i, pl_count = pl_count (seen_level b i q) + 1\<rparr>"
proof -
  obtain xs ys where "seen (Suc i) q = xs @ i # ys" "seen i q = xs @ ys" by (rule seen_here [OF assms])
  moreover have "q \<noteq> []" using assms(2) by auto
  ultimately show ?thesis by (simp add: seen_level_def ends_here)
qed

lemma dll_ends:
  assumes "dll prv nxt h t q" "i \<in> set q"
  shows "prv i = kInvalidIndex \<longleftrightarrow> hd q = i" "nxt i = kInvalidIndex \<longleftrightarrow> last q = i"
    "prv i = kInvalidIndex \<or> prv i \<in> set q" "nxt i = kInvalidIndex \<or> nxt i \<in> set q"
proof -
  obtain xs ys where q: "q = xs @ i # ys" using assms(2) by (auto simp: in_set_conv_decomp)
  note l = dll_links [OF assms(1) [unfolded q]] and d = assms(1) [unfolded q dll_def]
  have K: "kInvalidIndex \<notin> set xs" "kInvalidIndex \<notin> set ys" "i \<notin> set xs" "i \<notin> set ys" using d by auto
  have x: "last xs \<noteq> kInvalidIndex" "hd xs \<noteq> i" if "xs \<noteq> []" using that K hd_in_set [of xs] last_in_set [of xs] by metis+
  have y: "hd ys \<noteq> kInvalidIndex" "last ys \<noteq> i" if "ys \<noteq> []" using that K hd_in_set [of ys] last_in_set [of ys] by metis+
  show "prv i = kInvalidIndex \<longleftrightarrow> hd q = i" "prv i = kInvalidIndex \<or> prv i \<in> set q"
    using l(1) x unfolding q by (cases "xs = []"; simp)+
  show "nxt i = kInvalidIndex \<longleftrightarrow> last q = i" "nxt i = kInvalidIndex \<or> nxt i \<in> set q"
    using l(2) y unfolding q by (cases "ys = []"; simp)+
qed

section \<open>Reading a slot\<close>

definition load_slot :: "book \<Rightarrow> nat \<Rightarrow> book \<Rightarrow> book" where
  "load_slot b i b' = (set_slot b' i (ar_slots (ob_arena b) ! i))\<lparr>
     ob_trader_ids := (ob_trader_ids b')[i := ob_trader_ids b ! i],
     ob_display_quantities := (ob_display_quantities b')[i := ob_display_quantities b ! i],
     ob_displayed_remaining := (ob_displayed_remaining b')[i := ob_displayed_remaining b ! i],
     ob_stop_trigger_prices := (ob_stop_trigger_prices b')[i := ob_stop_trigger_prices b ! i],
     ob_stop_limit_prices := (ob_stop_limit_prices b')[i := ob_stop_limit_prices b ! i],
     ob_stop_prev := (ob_stop_prev b')[i := ob_stop_prev b ! i],
     ob_stop_next := (ob_stop_next b')[i := ob_stop_next b ! i]\<rparr>"

lemma set_slot_parts [simp]:
  "level (set_slot b' i sl) s l = level b' s l" "occupancy (set_slot b' i sl) s = occupancy b' s"
  "ob_stop_head (set_slot b' i sl) = ob_stop_head b'" "ob_stop_tail (set_slot b' i sl) = ob_stop_tail b'"
  "ob_dormant_stop_count (set_slot b' i sl) = ob_dormant_stop_count b'"
  by (cases s; simp add: set_slot_def level.simps occupancy.simps)+

lemma load_slot_parts [simp]:
  "level (load_slot b i b') s l = level b' s l" "occupancy (load_slot b i b') s = occupancy b' s"
  "ob_stop_head (load_slot b i b') = ob_stop_head b'" "ob_stop_tail (load_slot b i b') = ob_stop_tail b'"
  "ob_dormant_stop_count (load_slot b i b') = ob_dormant_stop_count b'"
  by (cases s; simp add: load_slot_def set_slot_def level.simps occupancy.simps)+

lemma filled_lengths:
  assumes "filled b n b'"
  shows "length (ar_slots (ob_arena b')) = slots b" "length (ob_bids b') = ticks b" "length (ob_asks b') = ticks b" "arrays_ok b'" "slots b' = slots b"
  using assms by (auto simp: filled_def blank_def same_config_def)

lemma bk_order_load: "filled b i b' \<Longrightarrow> i < slots b \<Longrightarrow> bk_order (load_slot b i b') i = bk_order b i"
  using filled_lengths [of b i b'] by (simp add: bk_order_def order_at_def load_slot_def set_slot_def)

lemma same_arrays_load: "filled b i b' \<Longrightarrow> i < slots b \<Longrightarrow> same_arrays b (load_slot b i b') i"
  using filled_lengths [of b i b'] by (simp add: same_arrays_def load_slot_def set_slot_def arrays_ok_def)

lemma filled_load:
  assumes "filled b i b'" "i < slots b" "sl_live (ar_slots (ob_arena b) ! i)"
  shows "filled b (Suc i) (load_slot b i b')"
  unfolding filled_def
proof (intro conjI allI impI)
  have f: "same_config b b'" "blank b'"
    "\<And>j. j < i \<Longrightarrow> ar_slots (ob_arena b') ! j = stored_slot (ar_slots (ob_arena b) ! j)"
    "\<And>j. j < i \<Longrightarrow> sl_live (ar_slots (ob_arena b) ! j) \<Longrightarrow> same_arrays b b' j"
    using assms(1) by (auto simp: filled_def)
  note len = filled_lengths [OF assms(1)]
  show "same_config b (load_slot b i b')" using f(1) by (simp add: same_config_def load_slot_def set_slot_def)
  show "blank (load_slot b i b')" using f(2) by (simp add: blank_def arrays_ok_def load_slot_def set_slot_def)
  fix j assume j: "j < Suc i"
  show "ar_slots (ob_arena (load_slot b i b')) ! j = stored_slot (ar_slots (ob_arena b) ! j)"
    using j f(3) [of j] assms(2,3) len(1) by (auto simp: load_slot_def set_slot_def stored_slot_def less_Suc_eq)
  show "same_arrays b (load_slot b i b') j" if "sl_live (ar_slots (ob_arena b) ! j)"
  proof (cases "j = i")
    case False
    then show ?thesis using j f(4) [of j] that by (simp add: same_arrays_def load_slot_def set_slot_def)
  qed (use same_arrays_load assms in auto)
qed

lemma filled_dead:
  assumes "filled b i b'" "i < slots b" "\<not> sl_live (ar_slots (ob_arena b) ! i)"
  shows "filled b (Suc i) (set_slot b' i (stored_slot (ar_slots (ob_arena b) ! i)))"
  unfolding filled_def
proof (intro conjI allI impI)
  let ?c = "set_slot b' i (stored_slot (ar_slots (ob_arena b) ! i))"
  have f: "same_config b b'" "blank b'"
    "\<And>j. j < i \<Longrightarrow> ar_slots (ob_arena b') ! j = stored_slot (ar_slots (ob_arena b) ! j)"
    "\<And>j. j < i \<Longrightarrow> sl_live (ar_slots (ob_arena b) ! j) \<Longrightarrow> same_arrays b b' j"
    using assms(1) by (auto simp: filled_def)
  show "same_config b ?c" using f(1) by (simp add: same_config_def set_slot_def)
  show "blank ?c" using f(2) by (simp add: blank_def arrays_ok_def set_slot_def)
  fix j assume j: "j < Suc i"
  show "ar_slots (ob_arena ?c) ! j = stored_slot (ar_slots (ob_arena b) ! j)"
    using j f(3) [of j] assms(2) filled_lengths(1) [OF assms(1)] by (cases "j = i") (simp_all add: set_slot_def)
  show "same_arrays b ?c j" if "sl_live (ar_slots (ob_arena b) ! j)"
    using j f(4) [of j] that assms(3) by (cases "j = i") (simp_all add: same_arrays_def set_slot_def)
qed

lemma filled_frame [simp]:
  "filled b n (upd_level b' s l f) = filled b n b'" "filled b n (set_occupancy b' s m) = filled b n b'"
  "filled b n (b'\<lparr>ob_stop_head := h\<rparr>) = filled b n b'" "filled b n (b'\<lparr>ob_stop_tail := h\<rparr>) = filled b n b'"
  "filled b n (b'\<lparr>ob_dormant_stop_count := c\<rparr>) = filled b n b'"
  by (simp_all add: filled_def same_config_def blank_def same_arrays_def arrays_ok_def)


lemma is_zero_subspan: "a + n \<le> length bs \<Longrightarrow> (\<And>k. k < n \<Longrightarrow> bs ! (a + k) = 0) \<Longrightarrow> is_zero (subspan bs a n)"
  by (auto simp: is_zero_def subspan_def in_set_conv_nth)

lemma stored_header_sizes [simp]:
  "sh_header_size (stored_header e p) = 124" "sh_slot_size (stored_header e p) = 96" "sh_version (stored_header e p) = 6"
  "sh_capacity (stored_header e p) = slots (se_book e)" "sh_tick_count (stored_header e p) = ticks (se_book e)"
  "sh_max_quantity (stored_header e p) = ucast (ob_max_quantity (se_book e))" "sh_live_count (stored_header e p) = ar_size (ob_arena (se_book e))"
  "sh_point (stored_header e p) = p"
  by (simp_all add: stored_header_def Let_def)

lemma decode_dead:
  assumes img: "slot_image (se_book e) bs i" and len: "slot_offset i + 96 \<le> length bs"
    and sl: "\<not> sl_live (ar_slots (ob_arena (se_book e)) ! i)" "sl_generation (ar_slots (ob_arena (se_book e)) ! i) \<noteq> 0"
      "sl_free_next (ar_slots (ob_arena (se_book e)) ! i) \<le> kInvalidIndex"
  shows "decode_slot bs (stored_header e p) i (b', n) = Inr (set_slot b' i (stored_slot (ar_slots (ob_arena (se_book e)) ! i)), n)"
proof -
  let ?sl = "ar_slots (ob_arena (se_book e)) ! i" and ?o = "slot_offset i"
  have r: "read_u32 bs ?o = sl_generation ?sl" "read_u32 bs (?o + 4) = word_of_nat (sl_free_next ?sl)" "bs ! (?o + 8) = 0"
    using img sl(1) by (auto simp: slot_image_def Let_def)
  have z: "is_zero (subspan bs (?o + 9) 3)" "is_zero (subspan bs (?o + 12) 84)"
    using img sl(1) len by (auto simp: slot_image_def Let_def intro!: is_zero_subspan)
  have "sl_free_next ?sl < 2 ^ 32" using sl(3) by (simp add: kInvalidIndex_def)
  then have u: "unat (word_of_nat (sl_free_next ?sl) :: u32) = sl_free_next ?sl" by simp
  show ?thesis
    unfolding decode_slot_def Let_def prod.case stored_header_sizes r
    using sl(1,2) z u by (cases ?sl) (simp add: stored_slot_def)
qed

text \<open>The links and prices of a live slot fit the widths of their fields.\<close>

definition slot_fits :: "book \<Rightarrow> nat \<Rightarrow> bool" where
  "slot_fits b i \<longleftrightarrow> o_prev b i < 2 ^ 32 \<and> o_next b i < 2 ^ 32 \<and> ob_stop_prev b ! i < 2 ^ 32 \<and> ob_stop_next b ! i < 2 ^ 32 \<and>
     int64_range (ob_stop_trigger_prices b ! i) \<and> int64_range (ob_stop_limit_prices b ! i)"

lemma decode_live:
  assumes img: "slot_image (se_book e) bs i" and len: "slot_offset i + 96 \<le> length bs"
    and sl: "sl_live (ar_slots (ob_arena (se_book e)) ! i)" "sl_generation (ar_slots (ob_arena (se_book e)) ! i) \<noteq> 0"
      "sl_free_next (ar_slots (ob_arena (se_book e)) ! i) \<le> kInvalidIndex"
    and fits: "slot_fits (se_book e) i"
  shows "decode_slot bs (stored_header e p) i (b', n) =
    sum_bind (decode_live_slot (stored_header e p) (load_slot (se_book e) i b') i) (\<lambda>b1. Inr (b1, n + 1))"
proof -
  let ?b = "se_book e" and ?sl = "ar_slots (ob_arena (se_book e)) ! i" and ?o = "slot_offset i"
  have r: "read_u32 bs ?o = sl_generation ?sl" "read_u32 bs (?o + 4) = word_of_nat (sl_free_next ?sl)" "bs ! (?o + 8) = 1"
    and f: "\<forall>f \<in> set (slot_fields ?b i). field_at bs ?o f"
    using img sl(1) by (auto simp: slot_image_def Let_def)
  have o: "sl_order ?sl = bk_order ?b i" by (simp add: bk_order_def order_at_def)
  have z: "is_zero (subspan bs (?o + 9) 3)" using img sl(1) len by (auto simp: slot_image_def Let_def intro!: is_zero_subspan)
  have "sl_free_next ?sl < 2 ^ 32" using sl(3) by (simp add: kInvalidIndex_def)
  then have u: "unat (word_of_nat (sl_free_next ?sl) :: u32) = sl_free_next ?sl" by simp
  have g: "read_u64 bs (?o + 12) = ord_id (bk_order ?b i)" "read_u64 bs (?o + 20) = o_rem ?b i"
    "read_u32 bs (?o + 28) = word_of_nat (o_prev ?b i)" "read_u32 bs (?o + 32) = word_of_nat (o_next ?b i)"
    "read_u32 bs (?o + 36) = ord_encoded (bk_order ?b i)" "read_u32 bs (?o + 40) = ord_flags (bk_order ?b i)"
    "read_u64 bs (?o + 48) = ob_trader_ids ?b ! i" "read_u64 bs (?o + 56) = ob_display_quantities ?b ! i"
    "read_u64 bs (?o + 64) = ob_displayed_remaining ?b ! i" "read_u64 bs (?o + 72) = price_bits (ob_stop_trigger_prices ?b ! i)"
    "read_u64 bs (?o + 80) = price_bits (ob_stop_limit_prices ?b ! i)"
    "read_u32 bs (?o + 88) = word_of_nat (ob_stop_prev ?b ! i)" "read_u32 bs (?o + 92) = word_of_nat (ob_stop_next ?b ! i)"
    using f unfolding slot_fields_def Let_def o by (simp_all add: field_at_def ucast_of_nat32)
  have ro: "read_order bs ?o = sl_order ?sl"
    unfolding read_order_def g o using fits by (cases "bk_order ?b i") (simp add: slot_fits_def)
  have ra: "read_arrays bs 6 ?o i (set_slot b' i ?sl) = load_slot ?b i b'"
    unfolding read_arrays_def g Let_def load_slot_def using fits
    by (simp add: slot_fits_def bits_price_inv set_slot_def)
  have "\<lparr>sl_order = sl_order ?sl, sl_generation = sl_generation ?sl, sl_free_next = sl_free_next ?sl, sl_live = True\<rparr> = ?sl"
    using sl(1) by (cases ?sl) simp
  then show ?thesis
    unfolding decode_slot_def Let_def prod.case stored_header_sizes r ro u
    using sl(2) z ra by simp
qed


section \<open>One slot\<close>

lemma link_bound:
  assumes "dll prv nxt h t q" "i \<in> set q" "\<And>j. j \<in> set q \<Longrightarrow> j < n" "n \<le> 1000000"
  shows "\<not> link_out_of_range n (prv i)" "\<not> link_out_of_range n (nxt i)" "prv i < 2 ^ 32" "nxt i < 2 ^ 32"
proof -
  note e = dll_ends(3,4) [OF assms(1,2)]
  show "\<not> link_out_of_range n (prv i)" "\<not> link_out_of_range n (nxt i)"
    using e assms(3) by (auto simp: link_out_of_range_def not_le)
  have "prv i = kInvalidIndex \<or> prv i < n" "nxt i = kInvalidIndex \<or> nxt i < n" using e assms(3) by blast+
  then show "prv i < 2 ^ 32" "nxt i < 2 ^ 32" using assms(4) by (auto simp: kInvalidIndex_def)
qed

lemma unat_sum_list: "sum_list (map (\<lambda>i. unat (f i)) q) < 2 ^ 64 \<Longrightarrow> unat (sum_list (map f q) :: u64) = sum_list (map (\<lambda>i. unat (f i)) q)"
  by (induction q) (auto simp: unat_word_ariths)

lemma seen_room:
  assumes "book_rep b Q S X" "i \<in> set (Q s l)" "distinct (Q s l)"
  shows "\<not> pl_aggregate (seen_level b i (Q s l)) > - 1 - o_rem b i"
proof -
  let ?f = "\<lambda>j. unat (o_rem b j)"
  obtain xs ys where x: "seen (Suc i) (Q s l) = xs @ i # ys" "seen i (Q s l) = xs @ ys" by (rule seen_here [OF assms(3,2)])
  have "sum_list (map ?f (seen (Suc i) (Q s l))) \<le> sum_list (map ?f (Q s l))" by (rule sum_list_filter_le_nat)
  then have b: "sum_list (map ?f (seen i (Q s l))) + ?f i < 2 ^ 64" using level_sum_bound [OF assms(1), of s l] x by simp
  then have "unat (pl_aggregate (seen_level b i (Q s l))) = sum_list (map ?f (seen i (Q s l)))"
    unfolding seen_level_def by (simp add: unat_sum_list)
  moreover have "unat (- 1 - o_rem b i) = 2 ^ 64 - 1 - ?f i" by (subst unat_sub) (simp_all add: unsigned_minus_1_eq_mask mask_eq_exp_minus_1)
  ultimately show ?thesis using b by (simp add: word_less_nat_alt)
qed

lemma level_upd:
  "length (ob_bids b) = n \<Longrightarrow> length (ob_asks b) = n \<Longrightarrow> l < n \<Longrightarrow>
     level (upd_level b s l f) s' l' = (if s' = s \<and> l' = l then f (level b s l) else level b s' l')"
  by (cases s; cases s') (auto simp: level.simps upd_level.simps)

lemma rep_fits:
  assumes rep: "book_rep b Q S {}" and st: "slot_storable b i" and i: "i \<in> live_set (ob_arena b)" and cap: "slots b \<le> 1000000"
  shows "slot_fits b i"
proof -
  have o: "sl_live (ar_slots (ob_arena b) ! i)" "sl_order (ar_slots (ob_arena b) ! i) = bk_order b i"
    using i by (simp_all add: live_set_def bk_order_def order_at_def)
  have K: "kInvalidIndex < 2 ^ 32" "int64_range 0" by (simp_all add: kInvalidIndex_def int64_range_def kInt64Min_def kInt64Max_def)
  consider s l where "i \<in> set (Q s l)" | "i \<in> set S" using rep_live [OF rep, of i] i by (auto simp: queued_def)
  then show ?thesis
  proof cases
    case 1
    have "dll (o_prev b) (o_next b) (pl_head (level b s l)) (pl_tail (level b s l)) (Q s l)"
      using rep_level [OF rep rep_mem_level [OF rep 1], of s] by (simp add: level_rep_def)
    note l = link_bound(3,4) [OF this 1 rep_slot_q [OF rep] cap]
    show ?thesis using st o l K is_dormant_active [OF rep_active [OF rep 1]] by (simp add: slot_storable_def slot_fits_def Let_def)
  next
    case 2
    have "dll ((!) (ob_stop_prev b)) ((!) (ob_stop_next b)) (ob_stop_head b) (ob_stop_tail b) S"
      using rep by (simp add: book_rep_def stop_rep_def)
    note l = link_bound(3,4) [OF this 2 rep_slot [OF rep] cap]
    show ?thesis using st o l K is_dormant_stop [OF rep_stop [OF rep 2]] by (simp add: slot_storable_def slot_fits_def Let_def)
  qed
qed

lemma occupied_here:
  assumes rep: "book_rep b Q S X" and i: "i \<in> set (Q s l)" and d: "distinct (Q s l)"
  shows "{l'. seen (Suc i) (Q s' l') \<noteq> []} = (if s' = s then insert l {l'. seen i (Q s' l') \<noteq> []} else {l'. seen i (Q s' l') \<noteq> []})"
proof (rule set_eqI)
  fix l'
  obtain xs ys where x: "seen (Suc i) (Q s l) = xs @ i # ys" by (rule seen_here [OF d i])
  show "l' \<in> {l'. seen (Suc i) (Q s' l') \<noteq> []} \<longleftrightarrow>
      l' \<in> (if s' = s then insert l {l'. seen i (Q s' l') \<noteq> []} else {l'. seen i (Q s' l') \<noteq> []})"
  proof (cases "s' = s \<and> l' = l")
    case False
    then have "i \<notin> set (Q s' l')" using rep_disjoint [OF rep i] by blast
    then have "seen (Suc i) (Q s' l') = seen i (Q s' l')" by (rule seen_other)
    then show ?thesis using False by auto
  qed (use x in auto)
qed

lemma levels_seen_other:
  assumes "levels_seen b Q i b'" "\<And>s l. i \<notin> set (Q s l)" "\<And>s l. level c s l = level b' s l" "\<And>s. occupancy c s = occupancy b' s"
  shows "levels_seen b Q (Suc i) c"
proof -
  have "seen (Suc i) (Q s l) = seen i (Q s l)" "seen_level b (Suc i) (Q s l) = seen_level b i (Q s l)" for s l
    using assms(2) by (intro seen_other seen_level_other; blast)+
  then show ?thesis using assms(1) unfolding levels_seen_def assms(3,4) by auto
qed

lemma active_accepted:
  assumes st: "storable (se_book e)" and rep: "book_rep (se_book e) Q S {}" and i: "i \<in> set (Q s l)"
    and o: "bk_order c i = bk_order (se_book e) i" and sa: "same_arrays (se_book e) c i"
  shows "decode_live_slot (stored_header e p) c i = add_active c i"
proof -
  let ?b = "se_book e"
  note t = storableD [OF st] and l = rep_mem_level [OF rep i] and ac = rep_active [OF rep i]
  have n: "i < slots ?b" by (rule rep_slot_q [OF rep i])
  have d: "dll (o_prev ?b) (o_next ?b) (pl_head (level ?b s l)) (pl_tail (level ?b s l)) (Q s l)"
    using rep_level [OF rep l] by (simp add: level_rep_def)
  have live: "sl_live (ar_slots (ob_arena ?b) ! i)" using rep_live [OF rep, of i] queued_memI [of i Q s l] i by (auto simp: live_set_def)
  have nd: "\<not> is_dormant (bk_order ?b i)" by (rule is_dormant_active [OF ac])
  have dc: "decode_level (ord_encoded (bk_order ?b i)) = l" using active_decode [OF ac rep_shape [OF rep] l] by auto
  have mq: "ucast (ucast (ob_max_quantity ?b) :: u32) = ob_max_quantity ?b" using t(10) by (rule ucast_down_up)
  have so: "ob_stop_trigger_prices ?b ! i = 0" "ob_stop_limit_prices ?b ! i = 0" "ob_stop_prev ?b ! i = 0" "ob_stop_next ?b ! i = 0"
    using t(5) [OF n] live nd by (simp_all add: slot_storable_def Let_def bk_order_def order_at_def)
  have peak: "o_peak ?b i \<noteq> 0" using ac by (auto simp: active_ok_def)
  have "\<not> active_invalid (stored_header e p) c i"
    using ac sa so dc l peak by (simp add: active_invalid_def Let_def o same_arrays_def active_ok_def mq not_less)
  moreover have "\<not> link_out_of_range (slots ?b) (o_prev ?b i)" "\<not> link_out_of_range (slots ?b) (o_next ?b i)"
    using link_bound(1,2) [OF d i rep_slot_q [OF rep] t(4)] by auto
  ultimately show ?thesis using nd by (simp add: decode_live_slot_def Let_def o)
qed

text \<open>Adding an order to its level, as far as the levels and bitmaps are concerned.\<close>

definition joined :: "book \<Rightarrow> queues \<Rightarrow> side \<Rightarrow> nat \<Rightarrow> nat \<Rightarrow> book \<Rightarrow> book" where
  "joined b Q s l i c = (let c1 = upd_level c s l (\<lambda>pl. pl\<lparr>pl_aggregate := pl_aggregate pl + o_rem b i, pl_count := pl_count pl + 1,
      pl_head := (if hd (Q s l) = i then i else pl_head pl), pl_tail := (if last (Q s l) = i then i else pl_tail pl)\<rparr>)
    in set_occupancy c1 s (snd (bm_set (occupancy c1 s) l)))"

lemma add_active_joined:
  assumes rep: "book_rep b Q S {}" and i: "i \<in> set (Q s l)" and o: "bk_order c i = bk_order b i" and lv: "levels_seen b Q i c"
  shows "add_active c i = Inr (joined b Q s l i c)"
proof -
  have l: "l < ticks b" by (rule rep_mem_level [OF rep i])
  have d: "dll (o_prev b) (o_next b) (pl_head (level b s l)) (pl_tail (level b s l)) (Q s l)"
    using rep_level [OF rep l] by (simp add: level_rep_def)
  have dc: "decode_side (ord_encoded (bk_order b i)) = s" "decode_level (ord_encoded (bk_order b i)) = l"
    using active_decode [OF rep_active [OF rep i] rep_shape [OF rep] l] by auto
  have pl: "level c s l = seen_level b i (Q s l)" using lv l by (simp add: levels_seen_def)
  have fs: "hd (Q s l) = i \<Longrightarrow> pl_head (seen_level b i (Q s l)) = kInvalidIndex" "last (Q s l) = i \<Longrightarrow> pl_tail (seen_level b i (Q s l)) = kInvalidIndex"
    by (simp_all add: seen_level_def first_seen_def last_seen_def)
  show ?thesis
    unfolding add_active_def joined_def Let_def o dc pl dll_ends(1,2) [OF d i]
    using seen_room [OF rep i dll_distinct [OF d]] fs by simp
qed

lemma joined_levels:
  assumes rep: "book_rep b Q S {}" and i: "i \<in> set (Q s l)" and lv: "levels_seen b Q i c"
    and len: "length (ob_bids c) = ticks b" "length (ob_asks c) = ticks b"
  shows "levels_seen b Q (Suc i) (joined b Q s l i c)"
proof -
  let ?c = "joined b Q s l i c"
  have l: "l < ticks b" by (rule rep_mem_level [OF rep i])
  have d: "distinct (Q s l)" using rep_level [OF rep l, of s] by (auto simp: level_rep_def dll_def)
  have "level ?c s' l' = seen_level b (Suc i) (Q s' l')" if "l' < ticks b" for s' l'
  proof (cases "s' = s \<and> l' = l")
    case True
    then show ?thesis
      using seen_level_here [OF d i, of b] l lv by (simp add: joined_def Let_def level_upd [OF len] levels_seen_def) (simp add: seen_level_def)
  next
    case False
    then have "i \<notin> set (Q s' l')" using rep_disjoint [OF rep i] by blast
    moreover have "level ?c s' l' = level c s' l'" using False l by (auto simp: joined_def Let_def level_upd [OF len])
    ultimately show ?thesis using lv that by (simp add: levels_seen_def seen_level_other)
  qed
  moreover have ob: "bm_inv (occupancy c s')" "bm_bit_count (occupancy c s') = ticks b" "bm_elems (occupancy c s') = {l. seen i (Q s' l) \<noteq> []}" for s'
    using lv by (simp_all add: levels_seen_def)
  have "bm_inv (occupancy ?c s') \<and> bm_bit_count (occupancy ?c s') = ticks b \<and> bm_elems (occupancy ?c s') = {l. seen (Suc i) (Q s' l) \<noteq> []}" for s'
    using bm_set_ok(2-4) [OF ob(1), of l s] ob l by (cases "s' = s") (simp_all add: joined_def Let_def occupied_here [OF rep i d])
  ultimately show ?thesis by (simp add: levels_seen_def)
qed

lemma step_active:
  assumes st: "storable (se_book e)" and rep: "book_rep (se_book e) Q S {}" and re: "rebuilt (se_book e) Q S i b'"
    and i: "i \<in> set (Q s l)"
  shows "\<exists>b''. decode_live_slot (stored_header e p) (load_slot (se_book e) i b') i = Inr b'' \<and> rebuilt (se_book e) Q S (Suc i) b''"
proof -
  let ?b = "se_book e" and ?c = "load_slot (se_book e) i b'"
  have n: "i < slots ?b" by (rule rep_slot_q [OF rep i])
  have fl: "filled ?b i b'" and lv: "levels_seen ?b Q i b'" and sp: "stops_seen S i b'" using re by (auto simp: rebuilt_def)
  have live: "sl_live (ar_slots (ob_arena ?b) ! i)" using rep_live [OF rep, of i] queued_memI [of i Q s l] i by (auto simp: live_set_def)
  have fc: "filled ?b (Suc i) ?c" by (rule filled_load [OF fl n live])
  have o: "bk_order ?c i = bk_order ?b i" by (rule bk_order_load [OF fl n])
  have lc: "levels_seen ?b Q i ?c" using lv by (simp add: levels_seen_def)
  have dec: "decode_live_slot (stored_header e p) ?c i = Inr (joined ?b Q s l i ?c)"
    unfolding active_accepted [where p = p, OF st rep i o same_arrays_load [OF fl n]] by (rule add_active_joined [OF rep i o lc])
  have "i \<notin> set S" using rep_stop_disjoint [OF rep] i by blast
  then have "stops_seen S (Suc i) (joined ?b Q s l i ?c)" using sp by (simp add: stops_seen_def joined_def Let_def ends_other seen_other)
  moreover have "levels_seen ?b Q (Suc i) (joined ?b Q s l i ?c)" by (rule joined_levels [OF rep i lc filled_lengths(2,3) [OF fc]])
  moreover have "filled ?b (Suc i) (joined ?b Q s l i ?c)" using fc by (simp add: joined_def Let_def)
  ultimately show ?thesis using dec by (auto simp: rebuilt_def)
qed

lemma step_stop:
  assumes st: "storable (se_book e)" and rep: "book_rep (se_book e) Q S {}" and re: "rebuilt (se_book e) Q S i b'" and i: "i \<in> set S"
  shows "\<exists>b''. decode_live_slot (stored_header e p) (load_slot (se_book e) i b') i = Inr b'' \<and> rebuilt (se_book e) Q S (Suc i) b''"
proof -
  let ?b = "se_book e"
  define c where "c = load_slot ?b i b'"
  note t = storableD [OF st] and ok = rep_stop [OF rep i]
  have n: "i < slots ?b" using rep_slot [OF rep, of i] i by blast
  have fl: "filled ?b i b'" and lv: "levels_seen ?b Q i b'" and sp: "stops_seen S i b'" using re by (auto simp: rebuilt_def)
  have d: "dll ((!) (ob_stop_prev ?b)) ((!) (ob_stop_next ?b)) (ob_stop_head ?b) (ob_stop_tail ?b) S"
    using rep by (simp add: book_rep_def stop_rep_def)
  have live: "sl_live (ar_slots (ob_arena ?b) ! i)" using rep_live [OF rep, of i] i by (auto simp: live_set_def)
  have fc: "filled ?b (Suc i) c" unfolding c_def by (rule filled_load [OF fl n live])
  have o: "bk_order c i = bk_order ?b i" unfolding c_def by (rule bk_order_load [OF fl n])
  have sa: "same_arrays ?b c i" unfolding c_def by (rule same_arrays_load [OF fl n])
  have dm: "is_dormant (bk_order ?b i)" by (rule is_dormant_stop [OF ok])
  have mq: "ucast (ucast (ob_max_quantity ?b) :: u32) = ob_max_quantity ?b" using t(10) by (rule ucast_down_up)
  have so: "o_prev ?b i = kInvalidIndex" "o_next ?b i = kInvalidIndex" "decode_level (ord_encoded (bk_order ?b i)) = 0" "ob_trader_ids ?b ! i = 0"
    "o_peak ?b i = 0" "o_disp ?b i = 0" "is_stop_market (bk_order ?b i) \<longrightarrow> ob_stop_limit_prices ?b ! i = 0"
    using t(5) [OF n] live dm by (simp_all add: slot_storable_def Let_def bk_order_def order_at_def)
  have flg: "ord_flags (bk_order ?b i) AND NOT (kOrderFlagDormantStop OR kOrderFlagStopMarket) = 0"
    using ok by (auto simp: stop_ok_def kOrderFlagDormantStop_def kOrderFlagStopMarket_def)
  have lk: "\<not> link_out_of_range (slots ?b) (ob_stop_prev ?b ! i)" "\<not> link_out_of_range (slots ?b) (ob_stop_next ?b ! i)"
    using link_bound(1,2) [OF d i rep_slot [OF rep] t(4)] by auto
  have inv: "\<not> stop_invalid (stored_header e p) c i"
    using ok sa so flg lk by (simp add: stop_invalid_def Let_def o same_arrays_def stop_ok_def mq not_less)
  have hd: "ob_stop_prev c ! i = kInvalidIndex \<longleftrightarrow> hd S = i" "ob_stop_next c ! i = kInvalidIndex \<longleftrightarrow> last S = i"
    using dll_ends(1,2) [OF d i] sa by (simp_all add: same_arrays_def)
  have fs: "ob_stop_head c = first_seen i S" "ob_stop_tail c = last_seen i S" "ob_dormant_stop_count c = length (seen i S)"
    using sp by (simp_all add: stops_seen_def c_def)
  define c1 where "c1 = (if hd S = i then c\<lparr>ob_stop_head := i\<rparr> else c)"
  define c2 where "c2 = (if last S = i then c1\<lparr>ob_stop_tail := i\<rparr> else c1)"
  define c3 where "c3 = c2\<lparr>ob_dormant_stop_count := ob_dormant_stop_count c2 + 1\<rparr>"
  have c1: "ob_stop_prev c1 = ob_stop_prev c" "ob_stop_next c1 = ob_stop_next c" "ob_stop_tail c1 = ob_stop_tail c" by (simp_all add: c1_def)
  have "add_stop c i = Inr c3"
    unfolding add_stop_def Let_def hd c1_def [symmetric] c1 c2_def [symmetric] c3_def [symmetric] fs
    by (simp add: first_seen_def last_seen_def)
  then have dec: "decode_live_slot (stored_header e p) c i = Inr c3" using inv dm by (simp add: decode_live_slot_def Let_def o)
  obtain xs ys where x: "seen (Suc i) S = xs @ i # ys" "seen i S = xs @ ys" by (rule seen_here [OF dll_distinct [OF d] i])
  have "S \<noteq> []" using i by auto
  then have "stops_seen S (Suc i) c3" using fs x by (simp add: stops_seen_def ends_here c3_def c2_def c1_def)
  moreover have lc: "level c3 s l = level b' s l" "occupancy c3 s = occupancy b' s" for s l
    by (cases s; simp add: c3_def c2_def c1_def c_def level.simps occupancy.simps load_slot_def set_slot_def)+
  have "i \<notin> set (Q s l)" for s l using rep_stop_disjoint [OF rep i] by blast
  then have "levels_seen ?b Q (Suc i) c3" using lv lc by (intro levels_seen_other)
  moreover have "filled ?b (Suc i) c3" using fc by (simp add: c3_def c2_def c1_def)
  ultimately show ?thesis using dec by (auto simp: rebuilt_def c_def)
qed

lemma decode_step:
  assumes img: "file_image e p bs" and st: "storable (se_book e)" and rep: "book_rep (se_book e) Q S {}"
    and re: "rebuilt (se_book e) Q S i b'" and i: "i < slots (se_book e)"
  shows "\<exists>b''. decode_slot bs (stored_header e p) i (b', n) = Inr (b'', if i \<in> live_set (ob_arena (se_book e)) then n + 1 else n) \<and>
    rebuilt (se_book e) Q S (Suc i) b''"
proof -
  let ?b = "se_book e" and ?sl = "ar_slots (ob_arena (se_book e)) ! i"
  note t = storableD [OF st]
  have im: "slot_image ?b bs i" using img i by (simp add: file_image_def)
  have len: "slot_offset i + 96 \<le> length bs"
    using img i by (simp add: file_image_def snapshot_size_def kSnapshotHeaderSize_def kSnapshotSlotSize_def)
  have g: "sl_generation ?sl \<noteq> 0" using t(6) i by (simp add: book_shape_def arena_ok_def)
  have fn: "sl_free_next ?sl \<le> kInvalidIndex" using t(5) [OF i] by (simp add: slot_storable_def Let_def)
  show ?thesis
  proof (cases "i \<in> live_set (ob_arena ?b)")
    case True
    then have live: "sl_live ?sl" by (simp add: live_set_def)
    have "i \<in> set S \<or> (\<exists>s l. i \<in> set (Q s l))" using rep_live [OF rep, of i] True by (auto simp: queued_def)
    then obtain b'' where "decode_live_slot (stored_header e p) (load_slot ?b i b') i = Inr b''" "rebuilt ?b Q S (Suc i) b''"
      using step_stop [OF st rep re] step_active [OF st rep re] by blast
    then show ?thesis
      using decode_live [OF im len live g fn rep_fits [OF rep t(5) [OF i] True t(4)]] True by (simp add: sum_bind_def)
  next
    case False
    then have dead: "\<not> sl_live ?sl" using i by (simp add: live_set_def)
    have no: "i \<notin> set S" "\<And>s l. i \<notin> set (Q s l)" using rep_live [OF rep, of i] False by (auto simp: queued_def)
    let ?c = "set_slot b' i (stored_slot ?sl)"
    have "filled ?b (Suc i) ?c" using filled_dead [OF _ i dead] re by (simp add: rebuilt_def)
    moreover have "stops_seen S (Suc i) ?c" using re no(1) by (simp add: rebuilt_def stops_seen_def ends_other seen_other)
    moreover have "levels_seen ?b Q i b'" using re by (simp add: rebuilt_def)
    then have "levels_seen ?b Q (Suc i) ?c" using no(2) by (rule levels_seen_other) simp_all
    ultimately show ?thesis using decode_dead [OF im len dead g fn] False by (simp add: rebuilt_def)
  qed
qed

lemma decode_slots_append:
  "decode_slots bs h (is @ js) st = sum_bind (decode_slots bs h is st) (decode_slots bs h js)"
  by (induction "is" arbitrary: st) (auto simp: sum_bind_def split: sum.split)

lemma decode_slots_rebuild:
  assumes img: "file_image e p bs" and st: "storable (se_book e)" and rep: "book_rep (se_book e) Q S {}"
    and re: "rebuilt (se_book e) Q S 0 b0"
  shows "n \<le> slots (se_book e) \<Longrightarrow> \<exists>b'. decode_slots bs (stored_header e p) [0..<n] (b0, 0) =
      Inr (b', card {i \<in> live_set (ob_arena (se_book e)). i < n}) \<and> rebuilt (se_book e) Q S n b'"
proof (induction n)
  case 0
  then show ?case using re by simp
next
  case (Suc n)
  let ?L = "live_set (ob_arena (se_book e))"
  have eq: "{i \<in> ?L. i < Suc n} = (if n \<in> ?L then insert n {i \<in> ?L. i < n} else {i \<in> ?L. i < n})" by (auto simp: less_Suc_eq)
  have "card {i \<in> ?L. i < Suc n} = (if n \<in> ?L then card {i \<in> ?L. i < n} + 1 else card {i \<in> ?L. i < n})"
    unfolding eq by simp
  moreover obtain b' where b': "decode_slots bs (stored_header e p) [0..<n] (b0, 0) = Inr (b', card {i \<in> ?L. i < n})" "rebuilt (se_book e) Q S n b'"
    using Suc by auto
  moreover obtain b'' where "decode_slot bs (stored_header e p) n (b', card {i \<in> ?L. i < n}) =
      Inr (b'', if n \<in> ?L then card {i \<in> ?L. i < n} + 1 else card {i \<in> ?L. i < n})" "rebuilt (se_book e) Q S (Suc n) b''"
    using decode_step [OF img st rep b'(2)] Suc.prems by auto
  ultimately show ?case by (simp add: decode_slots_append sum_bind_def)
qed

end
