(* ===== verification/Snapshot_Properties.thy ===== *)
theory Snapshot_Properties
  imports Snapshot_Rebuild Engine_Properties
begin

text \<open>
  A snapshot restores the engine: the book that decoding rebuilds from the slots is well-formed, stands for the same market, passes the
  free list and the book's own check, and is encoded to the same bytes again.
\<close>

section \<open>The rebuilt book\<close>

lemma seen_all: "(\<And>i. i \<in> set q \<Longrightarrow> i < n) \<Longrightarrow> seen n q = q"
  by (simp add: filter_id_conv)

lemma ends_all:
  "(\<And>i. i \<in> set q \<Longrightarrow> i < n) \<Longrightarrow> first_seen n q = hd (q @ [kInvalidIndex])"
  "(\<And>i. i \<in> set q \<Longrightarrow> i < n) \<Longrightarrow> last_seen n q = last (kInvalidIndex # q)"
  by (cases "q = []"; simp add: first_seen_def last_seen_def)+

lemma rebuilt_level:
  assumes "book_rep b Q S {}" "levels_seen b Q (slots b) b'" "l < ticks b" shows "level b' s l = level b s l"
proof -
  have q: "\<And>i. i \<in> set (Q s l) \<Longrightarrow> i < slots b" by (rule rep_slot_q [OF assms(1)])
  have "level b' s l = seen_level b (slots b) (Q s l)" using assms(2,3) by (simp add: levels_seen_def)
  also have "\<dots> = level b s l"
    using rep_level [OF assms(1,3), of s] q
    by (cases "level b s l") (simp add: seen_level_def seen_all ends_all level_rep_def dll_def)
  finally show ?thesis .
qed

text \<open>What a restored book shares with the one that was stored.\<close>

definition restored :: "book \<Rightarrow> book \<Rightarrow> bool" where
  "restored b b' \<longleftrightarrow> same_config b b' \<and>
     (\<forall>i < slots b. ar_slots (ob_arena b') ! i = stored_slot (ar_slots (ob_arena b) ! i) \<and> (sl_live (ar_slots (ob_arena b) ! i) \<longrightarrow> same_arrays b b' i))"

lemma stored_slot_fields [simp]:
  "sl_live (stored_slot sl) = sl_live sl" "sl_generation (stored_slot sl) = sl_generation sl" "sl_free_next (stored_slot sl) = sl_free_next sl"
  by (simp_all add: stored_slot_def)

lemma restored_live: "restored b b' \<Longrightarrow> live_set (ob_arena b') = live_set (ob_arena b)"
  by (auto simp: restored_def same_config_def live_set_def)

lemma restored_order: "restored b b' \<Longrightarrow> i \<in> live_set (ob_arena b) \<Longrightarrow> bk_order b' i = bk_order b i \<and> same_arrays b b' i"
  by (auto simp: restored_def live_set_def bk_order_def order_at_def stored_slot_def)

lemma restored_arena:
  assumes "restored b b'" "arena_ok (ob_arena b)" "length (ar_slots (ob_arena b')) = slots b" shows "arena_ok (ob_arena b')"
proof -
  have c: "slots b' = slots b" "ar_size (ob_arena b') = ar_size (ob_arena b)" "ar_free_head (ob_arena b') = ar_free_head (ob_arena b)"
    using assms(1) by (auto simp: restored_def same_config_def)
  obtain F where F: "free_chain (ar_slots (ob_arena b)) (ar_free_head (ob_arena b)) F" "distinct F" "set F = {..<slots b} - live_set (ob_arena b)"
    using assms(2) by (auto simp: arena_ok_def)
  have s: "ar_slots (ob_arena b') ! i = stored_slot (ar_slots (ob_arena b) ! i)" if "i < slots b" for i
    using assms(1) that by (simp add: restored_def)
  have "free_chain (ar_slots (ob_arena b')) (ar_free_head (ob_arena b)) F = free_chain (ar_slots (ob_arena b)) (ar_free_head (ob_arena b)) F"
    by (rule free_chain_cong) (use F(3) s in auto)
  then show ?thesis using assms(2,3) F c s restored_live [OF assms(1)] by (auto simp: arena_ok_def)
qed

lemma rebuilt_rep:
  assumes rep: "book_rep b Q S {}" and re: "rebuilt b Q S (slots b) b'"
  shows "book_rep b' Q S {}" "restored b b'" "epochs_ok b'" "visits_ok b'"
proof -
  have fl: "filled b (slots b) b'" and lv: "levels_seen b Q (slots b) b'" and sp: "stops_seen S (slots b) b'" using re by (auto simp: rebuilt_def)
  note len = filled_lengths [OF fl] and sh = rep_shape [OF rep]
  have cf: "ob_domain b' = ob_domain b" "ob_max_quantity b' = ob_max_quantity b" using fl by (auto simp: filled_def same_config_def)
  show rs: "restored b b'" using fl by (simp add: filled_def restored_def)
  show "epochs_ok b'" "visits_ok b'" using fl by (auto simp: filled_def blank_def epochs_ok_def visits_ok_def)
  have live: "live_set (ob_arena b') = live_set (ob_arena b)" by (rule restored_live [OF rs])
  have or: "bk_order b' i = bk_order b i \<and> same_arrays b b' i" if "i \<in> queued Q \<union> set S" for i
    using restored_order [OF rs, of i] rep_live [OF rep, of i] that by auto
  have occ: "bm_inv (occupancy b' s)" "bm_bit_count (occupancy b' s) = ticks b" "bm_elems (occupancy b' s) = {l. Q s l \<noteq> []}" for s
    using lv rep_slot_q [OF rep] seen_all [of "Q s _" "slots b"] by (auto simp: levels_seen_def)
  have shape: "book_shape b'"
    using sh len occ cf restored_arena [OF rs _ len(1)] by (simp add: book_shape_def)
  have "level_rep b' s l (Q s l)" if "l < ticks b" for s l
    using rep_level [OF rep that, of s] rebuilt_level [OF rep lv that, of s] or
    by (subst level_rep_cong) (auto simp: cf same_arrays_def queued_def)
  moreover have "stop_rep b' S"
  proof -
    have st: "stop_rep b S" using rep by (simp add: book_rep_def)
    have S: "i < slots b" if "i \<in> set S" for i using rep_slot [OF rep, of i] that by blast
    have "ob_stop_head b' = ob_stop_head b" "ob_stop_tail b' = ob_stop_tail b" "ob_dormant_stop_count b' = ob_dormant_stop_count b"
      using sp st S by (simp_all add: stops_seen_def ends_all seen_all stop_rep_def dll_def)
    then show ?thesis using st or by (subst stop_rep_cong) (auto simp: cf same_arrays_def)
  qed
  ultimately show "book_rep b' Q S {}" using rep shape cf occ live by (simp add: book_rep_def)
qed

lemma restored_view:
  assumes "book_rep b Q S {}" "book_rep b' Q S {}" "restored b b'" shows "view b' = view b"
proof -
  have or: "bk_order b' i = bk_order b i \<and> same_arrays b b' i" if "i \<in> queued Q \<union> set S" for i
    using restored_order [OF assms(3), of i] rep_live [OF assms(1), of i] that by auto
  have "maker_of b' i = maker_of b i" if "i \<in> set (Q s l)" for s l i
    using or [of i] queued_memI [of i Q s l] that by (simp add: maker_of_def same_arrays_def)
  then have "makers b' (Q s l) = makers b (Q s l)" for s l by (simp add: makers_def)
  moreover have "map (stop_of b') S = map (stop_of b) S"
    using or assms(3) by (auto simp: stop_of_def same_arrays_def restored_def same_config_def)
  moreover have "ob_last_execution_price b' = ob_last_execution_price b" using assms(3) by (simp add: restored_def same_config_def)
  ultimately show ?thesis using rep_view [OF assms(1)] rep_view [OF assms(2)] by (simp add: market_of_def)
qed


section \<open>The free list\<close>

definition mark_seen :: "nat list \<Rightarrow> bool list \<Rightarrow> bool list" where
  "mark_seen F seen_slots = foldl (\<lambda>ss i. ss[i := True]) seen_slots F"

lemma mark_seen_simps [simp]: "mark_seen [] ss = ss" "mark_seen (i # F) ss = mark_seen F (ss[i := True])"
  by (simp_all add: mark_seen_def)

lemma nth_mark_seen: "i < length ss \<Longrightarrow> mark_seen F ss ! i \<longleftrightarrow> i \<in> set F \<or> ss ! i"
proof (induction F arbitrary: ss)
  case (Cons a F)
  then show ?case by (cases "a = i") auto
qed simp

lemma walk_free_chain:
  "free_chain (ar_slots a) h F \<Longrightarrow> distinct F \<Longrightarrow> length ss = ar_capacity a \<Longrightarrow>
     (\<forall>i \<in> set F. i < ar_capacity a \<and> i \<noteq> kInvalidIndex \<and> \<not> sl_live (ar_slots a ! i) \<and> \<not> ss ! i) \<Longrightarrow>
     walk_free_list a h ss n = Some (Inr (mark_seen F ss, n + length F))"
proof (induction F arbitrary: h ss n)
  case Nil
  then show ?case by (simp add: walk_free_list.simps)
next
  case (Cons i F)
  have "walk_free_list a (sl_free_next (ar_slots a ! i)) (ss[i := True]) (n + 1) = Some (Inr (mark_seen F (ss[i := True]), n + 1 + length F))"
    by (rule Cons.IH) (use Cons.prems in \<open>auto simp: nth_list_update\<close>)
  then show ?case using Cons.prems by (subst walk_free_list.simps) (auto simp: not_le)
qed

lemma check_free_list_ok:
  assumes "arena_ok a" shows "check_free_list a (ar_size a) = Some SN_None"
proof -
  obtain F where F: "free_chain (ar_slots a) (ar_free_head a) F" "distinct F" "set F = {..<ar_capacity a} - live_set a"
    and sz: "ar_size a = card (live_set a)" using assms by (auto simp: arena_ok_def)
  let ?ss = "replicate (ar_capacity a) False"
  have "walk_free_list a (ar_free_head a) ?ss 0 = Some (Inr (mark_seen F ?ss, 0 + length F))"
    by (rule walk_free_chain [OF F(1,2)]) (use F(3) arena_index_valid [OF assms] in \<open>auto simp: live_set_def\<close>)
  moreover have "length F = ar_capacity a - ar_size a"
  proof -
    have "live_set a \<subseteq> {..<ar_capacity a}" by (auto simp: live_set_def)
    then have "card ({..<ar_capacity a} - live_set a) = ar_capacity a - card (live_set a)" by (simp add: card_Diff_subset)
    then show ?thesis using distinct_card [OF F(2)] F(3) sz by simp
  qed
  moreover have "sl_live (ar_slots a ! i) \<or> mark_seen F ?ss ! i" if "i < ar_capacity a" for i
    using that F(3) nth_mark_seen [of i ?ss F] by (auto simp: live_set_def)
  ultimately show ?thesis by (auto simp: check_free_list_def)
qed

section \<open>The check of the restored book\<close>

lemma restored_passed:
  assumes "book_rep b Q S {}" "book_rep b' Q S {}" "restored b b'" shows "passed b' = passed b"
proof -
  have c: "ob_domain b' = ob_domain b" "ob_trading_state b' = ob_trading_state b" "ar_size (ob_arena b') = ar_size (ob_arena b)"
    using assms(3) by (auto simp: restored_def same_config_def)
  have bi: "best_index b' s = best_index b s" for s
    unfolding best_index_ladder [OF assms(1)] best_index_ladder [OF assms(2)] 
    by (cases "filter (\<lambda>l. Q s l \<noteq> []) (priority s (ticks b))") (simp_all add: ladder_of_def c(1))
  have "crossed_levels b' = crossed_levels b" by (simp only: crossed_levels_def bi c(2))
  then show ?thesis by (simp add: passed_def c(3) split: option.split)
qed

lemma visited_restored: "restored b b' \<Longrightarrow> restored b (visited b' ms e)"
  by (simp add: restored_def same_config_def same_arrays_def)

lemma decode_book_ok:
  assumes img: "file_image e p bs" and st: "storable (se_book e)" and v: "ir_violation (passed (se_book e)) = IV_None"
    and re: "rebuilt (se_book e) (queue_of (se_book e)) (stop_queue (se_book e)) 0 b0"
  obtains b2 where "decode_book bs (stored_header e p) b0 = Some (Inr b2)" "restored (se_book e) b2"
    "book_rep b2 (queue_of (se_book e)) (stop_queue (se_book e)) {}" "epochs_ok b2" "visits_ok b2"
proof -
  let ?b = "se_book e" and ?Q = "queue_of (se_book e)" and ?S = "stop_queue (se_book e)"
  have rep: "book_rep ?b ?Q ?S {}" using storableD(1) [OF st] by (simp add: book_ok_def)
  obtain b1 where d: "decode_slots bs (stored_header e p) [0..<slots ?b] (b0, 0) = Inr (b1, card {i \<in> live_set (ob_arena ?b). i < slots ?b})"
    "rebuilt ?b ?Q ?S (slots ?b) b1" using decode_slots_rebuild [OF img st rep re order_refl] by blast
  note r = rebuilt_rep [OF rep d(2)]
  have sz: "card {i \<in> live_set (ob_arena ?b). i < slots ?b} = ar_size (ob_arena ?b)"
  proof -
    have "{i \<in> live_set (ob_arena ?b). i < slots ?b} = live_set (ob_arena ?b)" using live_set_bound by auto
    then show ?thesis using storableD(6) [OF st] by (simp add: book_shape_def arena_ok_def)
  qed
  have ar: "arena_ok (ob_arena b1)" "ar_size (ob_arena b1) = ar_size (ob_arena ?b)"
    using rep_shape [OF r(1)] r(2) by (auto simp: restored_def same_config_def)
  have fl: "check_free_list (ob_arena b1) (ar_size (ob_arena ?b)) = Some SN_None" using check_free_list_ok [OF ar(1)] ar(2) by simp
  obtain ms ep where c: "check_invariants b1 = Some (passed b1, visited b1 ms ep)" "length ms = slots b1" "visits_ok (visited b1 ms ep)"
    by (rule self_check_ok [OF book_okI [OF r(1,3)] r(4)])
  have "passed b1 = passed ?b" by (rule restored_passed [OF rep r(1,2)])
  then have "decode_book bs (stored_header e p) b0 = Some (Inr (visited b1 ms ep))"
    using d(1) sz fl c(1) v by (simp add: decode_book_def)
  moreover have "epochs_ok (visited b1 ms ep)" using r(3) by (simp add: epochs_ok_def)
  ultimately show thesis by (intro that [of "visited b1 ms ep"] visited_restored visited_rep r c)
qed


section \<open>Round trip\<close>

lemma slot_fields_restored:
  assumes "restored b b'" "i < slots b" shows "encode_slot b' bs i = encode_slot b bs i"
proof -
  let ?sl = "ar_slots (ob_arena b) ! i"
  have s: "ar_slots (ob_arena b') ! i = stored_slot ?sl" "sl_live ?sl \<Longrightarrow> same_arrays b b' i" using assms by (auto simp: restored_def)
  have f: "slot_fields b' i = slot_fields b i" if "sl_live ?sl"
  proof -
    have "ar_slots (ob_arena b') ! i = ?sl" using s(1) that by (simp add: stored_slot_def)
    then show ?thesis using s(2) [OF that] unfolding slot_fields_def Let_def same_arrays_def by simp
  qed
  show ?thesis
  proof (cases "sl_live ?sl")
    case True
    then show ?thesis using f by (simp add: encode_slot_def Let_def s(1) stored_slot_def)
  next
    case False
    then show ?thesis by (simp add: encode_slot_def Let_def s(1) stored_slot_def)
  qed
qed

lemma encode_bytes_restored:
  assumes r: "restored (se_book e) (se_book e')"
    and c: "se_next_sequence e' = se_next_sequence e" "se_last_logical_time e' = se_last_logical_time e"
      "se_sequence_exhausted e' = se_sequence_exhausted e"
  shows "encode_bytes e' p = encode_bytes e p"
proof -
  have sc: "same_config (se_book e) (se_book e')" using r by (simp add: restored_def)
  then have h: "header_fields e' p = header_fields e p" and n: "slots (se_book e') = slots (se_book e)"
    using c by (simp_all add: header_fields_def Let_def same_config_def)
  have "foldl (encode_slot (se_book e')) bs [0..<n] = foldl (encode_slot (se_book e)) bs [0..<n]" if "n \<le> slots (se_book e)" for bs n
    by (rule foldl_cong) (use slot_fields_restored [OF r] that in auto)
  then show ?thesis by (simp add: encode_bytes_def Let_def h n)
qed

lemma storable_restored:
  assumes st: "storable b" and r: "restored b b'" and ok: "book_rep b' Q S {}" "epochs_ok b'" "visits_ok b'"
  shows "storable b'"
proof -
  have c: "same_config b b'" using r by (simp add: restored_def)
  have "slot_storable b' i" if "i < slots b" for i
  proof -
    have s: "ar_slots (ob_arena b') ! i = stored_slot (ar_slots (ob_arena b) ! i)" "sl_live (ar_slots (ob_arena b) ! i) \<Longrightarrow> same_arrays b b' i"
      using r that by (auto simp: restored_def)
    show ?thesis
      using storableD(5) [OF st that] s by (cases "sl_live (ar_slots (ob_arena b) ! i)") (simp_all add: slot_storable_def Let_def stored_slot_def same_arrays_def)
  qed
  then show ?thesis
    using st c book_okI [OF ok(1,2)] ok(3) by (simp add: storable_def config_ok_def same_config_def list_all_iff)
qed

lemma encode_success:
  assumes "storable (se_book e)" "encode_snapshot e p = Some (Inr bs, e1)"
  obtains ms ep where "e1 = e\<lparr>se_book := visited (se_book e) ms ep\<rparr>" "bs = encode_bytes e1 p" "point_matches e1 p"
    "storable (se_book e1)" "ir_violation (passed (se_book e1)) = IV_None"
proof -
  note s = storableD [OF assms(1)]
  obtain ms ep where c: "check_invariants (se_book e) = Some (passed (se_book e), visited (se_book e) ms ep)"
    "length ms = slots (se_book e)" "visits_ok (visited (se_book e) ms ep)" by (rule self_check_ok [OF s(1,2)])
  let ?e1 = "e\<lparr>se_book := visited (se_book e) ms ep\<rparr>"
  have "e1 = ?e1" "bs = encode_bytes ?e1 p" "point_matches ?e1 p" "ir_violation (passed (se_book e)) = IV_None"
    using assms(2) c(1) by (auto simp: encode_snapshot_def Let_def split: if_splits)
  moreover have "slot_storable (visited (se_book e) ms ep) i = slot_storable (se_book e) i" for i by (simp add: slot_storable_def)
  then have "storable (visited (se_book e) ms ep)"
    using assms(1) visited_ok [OF s(1) c(2)] c(3) by (simp add: storable_def config_ok_def list_all_iff)
  ultimately show thesis using passed_visited by (intro that [where ms = ms and ep = ep]) simp_all
qed

text \<open>The engines agree on everything an operation or a later snapshot can observe.\<close>

definition same_engine :: "engine \<Rightarrow> engine \<Rightarrow> bool" where
  "same_engine e e' \<longleftrightarrow> se_next_sequence e' = se_next_sequence e \<and> se_last_logical_time e' = se_last_logical_time e \<and>
     se_sequence_exhausted e' = se_sequence_exhausted e \<and> restored (se_book e) (se_book e') \<and> view (se_book e') = view (se_book e) \<and>
     queue_of (se_book e') = queue_of (se_book e) \<and> stop_queue (se_book e') = stop_queue (se_book e)"

lemma decode_encoded:
  assumes st: "storable (se_book e)" and pm: "point_matches e p" and v: "ir_violation (passed (se_book e)) = IV_None"
  obtains e2 where "decode_snapshot (encode_bytes e p) = Some (Inr (e2, p))" "same_engine e e2" "storable (se_book e2)"
proof -
  let ?b = "se_book e" and ?Q = "queue_of (se_book e)" and ?S = "stop_queue (se_book e)" and ?bs = "encode_bytes e p"
  have img: "file_image e p ?bs" by (rule encode_bytes_image)
  have rep: "book_rep ?b ?Q ?S {}" using storableD(1) [OF st] by (simp add: book_ok_def)
  obtain e0 where e0: "empty_engine ?bs (stored_header e p) = Inr e0" "rebuilt ?b ?Q ?S 0 (se_book e0)"
    "se_next_sequence e0 = se_next_sequence e" "se_last_logical_time e0 = se_last_logical_time e"
    "se_sequence_exhausted e0 = se_sequence_exhausted e"
    by (rule empty_engine_stored [OF img st pm rep])
  obtain b2 where b2: "decode_book ?bs (stored_header e p) (se_book e0) = Some (Inr b2)" "restored ?b b2" "book_rep b2 ?Q ?S {}"
    "epochs_ok b2" "visits_ok b2" by (rule decode_book_ok [OF img st v e0(2)])
  have "decode_snapshot ?bs = Some (Inr (e0\<lparr>se_book := b2\<rparr>, p))"
    using parse_stored [OF img st pm] e0(1) b2(1) by (simp add: decode_snapshot_def)
  moreover have "same_engine e (e0\<lparr>se_book := b2\<rparr>)"
    using e0(3-5) b2(2) restored_view [OF rep b2(3,2)] rep_queue_of [OF b2(3)] rep_stop_queue [OF b2(3)] by (simp add: same_engine_def)
  moreover have "storable b2" by (rule storable_restored [OF st b2(2-5)])
  ultimately show thesis by (intro that [of "e0\<lparr>se_book := b2\<rparr>"]) simp_all
qed

lemma encode_storable:
  assumes "storable (se_book e)" "point_matches e p" "ir_violation (passed (se_book e)) = IV_None"
  obtains ms ep where "encode_snapshot e p = Some (Inr (encode_bytes (e\<lparr>se_book := visited (se_book e) ms ep\<rparr>) p), e\<lparr>se_book := visited (se_book e) ms ep\<rparr>)"
    "length ms = slots (se_book e)"
proof -
  note s = storableD [OF assms(1)]
  obtain ms ep where c: "check_invariants (se_book e) = Some (passed (se_book e), visited (se_book e) ms ep)" "length ms = slots (se_book e)"
    by (rule self_check_ok [OF s(1,2)])
  have "point_matches (e\<lparr>se_book := b\<rparr>) p" for b using assms(2) by (simp add: point_matches_def)
  then show thesis using c s(4) assms(3) by (intro that) (simp_all add: encode_snapshot_def Let_def kMaximumSnapshotSlots_def)
qed

lemma encode_again:
  assumes e: "storable (se_book e)" "point_matches e p" "ir_violation (passed (se_book e)) = IV_None"
    and s: "same_engine e e2" "storable (se_book e2)"
  obtains e3 where "encode_snapshot e2 p = Some (Inr (encode_bytes e p), e3)"
proof -
  have q: "se_next_sequence e2 = se_next_sequence e" "se_last_logical_time e2 = se_last_logical_time e"
    "se_sequence_exhausted e2 = se_sequence_exhausted e" "restored (se_book e) (se_book e2)"
    "queue_of (se_book e2) = queue_of (se_book e)" "stop_queue (se_book e2) = stop_queue (se_book e)"
    using s(1) by (auto simp: same_engine_def)
  have rep: "book_rep (se_book e) (queue_of (se_book e)) (stop_queue (se_book e)) {}" "book_rep (se_book e2) (queue_of (se_book e)) (stop_queue (se_book e)) {}"
    using storableD(1) [OF e(1)] storableD(1) [OF s(2)] q(5,6) by (simp_all add: book_ok_def)
  have "point_matches e2 p" using e(2) q by (simp add: point_matches_def)
  moreover have "ir_violation (passed (se_book e2)) = IV_None" using restored_passed [OF rep q(4)] e(3) by simp
  ultimately obtain ms ep where x: "encode_snapshot e2 p =
      Some (Inr (encode_bytes (e2\<lparr>se_book := visited (se_book e2) ms ep\<rparr>) p), e2\<lparr>se_book := visited (se_book e2) ms ep\<rparr>)"
    by (rule encode_storable [OF s(2)])
  have "encode_bytes (e2\<lparr>se_book := visited (se_book e2) ms ep\<rparr>) p = encode_bytes e p"
    by (rule encode_bytes_restored) (use q visited_restored [OF q(4)] in simp_all)
  then show thesis using x by (intro that) simp
qed

text \<open>
  C13. Decoding an encoded snapshot gives the engine back: for an engine whose book is well-formed and storable, the bytes of a successful
  encoding are accepted, the snapshot point is returned, and the decoded engine has the same clock, configuration, queues, stops, live
  orders, handles and free list, stands for the same market, and is encoded to the same bytes again.
\<close>

theorem snapshot_roundtrip:
  assumes st: "storable (se_book e)" and en: "encode_snapshot e p = Some (Inr bytes, e1)"
  shows "\<exists>e2. decode_snapshot bytes = Some (Inr (e2, p)) \<and> same_engine e1 e2 \<and> storable (se_book e2) \<and>
    (\<exists>e3. encode_snapshot e2 p = Some (Inr bytes, e3))"
proof -
  obtain ms ep where s: "e1 = e\<lparr>se_book := visited (se_book e) ms ep\<rparr>" "bytes = encode_bytes e1 p" "point_matches e1 p"
    "storable (se_book e1)" "ir_violation (passed (se_book e1)) = IV_None" by (rule encode_success [OF st en])
  obtain e2 where d: "decode_snapshot bytes = Some (Inr (e2, p))" "same_engine e1 e2" "storable (se_book e2)"
    unfolding s(2) by (rule decode_encoded [OF s(4,3,5)])
  obtain e3 where "encode_snapshot e2 p = Some (Inr bytes, e3)" by (rule encode_again [OF s(4,3,5) d(2,3), folded s(2)])
  then show ?thesis using d by blast
qed


definition demo_point :: snapshot_point where
  "demo_point = \<lparr>sp_sequence = 6, sp_logical_time = 40\<rparr>"

lemma demo_storable: "storable (se_book demo_engine)" "ir_violation (passed (se_book demo_engine)) = IV_None" "point_matches demo_engine demo_point"
proof -
  have "visits_ok demo_ask" "config_ok demo_ask" "slots demo_ask \<le> kMaximumSnapshotSlots" "list_all (slot_storable demo_ask) [0..<slots demo_ask]"
    by code_simp+
  then show "storable (se_book demo_engine)" using demo_ask_ok(1) by (simp add: storable_def demo_engine_def)
  have "ir_violation (passed demo_ask) = IV_None" by code_simp
  then show "ir_violation (passed (se_book demo_engine)) = IV_None" by (simp add: demo_engine_def)
qed (simp add: point_matches_def demo_engine_def demo_point_def)

theorem snapshot_roundtrip_witness:
  "\<exists>bytes e1 e2. encode_snapshot demo_engine demo_point = Some (Inr bytes, e1) \<and> decode_snapshot bytes = Some (Inr (e2, demo_point)) \<and>
     se_next_sequence e2 = 7 \<and> se_last_logical_time e2 = 40 \<and> ob_domain (se_book e2) = ob_domain demo_ask \<and> bk_order (se_book e2) 0 = bk_order demo_ask 0"
proof -
  obtain ms ep where en: "encode_snapshot demo_engine demo_point =
      Some (Inr (encode_bytes (demo_engine\<lparr>se_book := visited (se_book demo_engine) ms ep\<rparr>) demo_point), demo_engine\<lparr>se_book := visited (se_book demo_engine) ms ep\<rparr>)"
    by (rule encode_storable [OF demo_storable(1,3,2)])
  from snapshot_roundtrip [OF demo_storable(1) en] obtain e2 where
    d: "decode_snapshot (encode_bytes (demo_engine\<lparr>se_book := visited (se_book demo_engine) ms ep\<rparr>) demo_point) = Some (Inr (e2, demo_point))"
    and s: "same_engine (demo_engine\<lparr>se_book := visited (se_book demo_engine) ms ep\<rparr>) e2" by blast
  have r: "restored (visited demo_ask ms ep) (se_book e2)" using s by (simp add: same_engine_def demo_engine_def)
  have "0 \<in> live_set (ob_arena demo_ask)" by (simp add: live_set_def demo_ask_def)
  then have "bk_order (se_book e2) 0 = bk_order demo_ask 0" using restored_order [OF r, of 0] by simp
  moreover have "ob_domain (se_book e2) = ob_domain demo_ask" using r by (simp add: restored_def same_config_def)
  moreover have "se_next_sequence e2 = 7" "se_last_logical_time e2 = 40" using s by (simp_all add: same_engine_def demo_engine_def)
  ultimately show ?thesis using en d by blast
qed

end
