(* ===== verification/Snapshot_File_Properties.thy ===== *)
theory Snapshot_File_Properties
  imports Snapshot_File Snapshot_Properties
begin

text \<open>
  Replacing a snapshot is atomic: whatever the system calls return and wherever a crash stops it, the destination holds what it held
  before or the complete encoding; and a snapshot that was saved loads as the engine it was taken of.
\<close>

section \<open>Names\<close>

lemma temporary_differs: "temporary_name basename pid c \<noteq> basename"
  by (simp add: temporary_name_def)

lemma create_temporary_name:
  "create_temporary r basename a n c = (None, t, c1) \<Longrightarrow> t \<noteq> basename"
  by (induction r basename a n c rule: create_temporary.induct) (auto simp: Let_def temporary_differs split: option.splits if_splits)

section \<open>The directory\<close>

text \<open>All states of the directory: the present one and those a crash could have left.\<close>

abbreviation states :: "directory \<Rightarrow> entries set" where
  "states d \<equiv> insert (dir_entries d) (set (dir_past d))"

lemma change_simps [simp]: "dir_entries (change f d) = f (dir_entries d)" "dir_past (change f d) = dir_entries d # dir_past d"
  by (simp_all add: change_def)

section \<open>Interrupted calls\<close>

text \<open>No call is interrupted for ever.\<close>

definition answered :: "(nat \<Rightarrow> transfer) \<Rightarrow> bool" where
  "answered calls \<longleftrightarrow> (\<forall>k. \<exists>j \<ge> k. calls j \<noteq> Interrupted)"

text \<open>No call fails or transfers nothing either.\<close>

definition transfers_all :: "(nat \<Rightarrow> transfer) \<Rightarrow> bool" where
  "transfers_all calls \<longleftrightarrow> answered calls \<and> (\<forall>k. calls k \<noteq> Transfer_Failed \<and> calls k \<noteq> Transferred 0)"

lemma next_answer:
  assumes "answered calls" obtains n where "\<forall>i < n. calls (k + i) = Interrupted" "calls (k + n) \<noteq> Interrupted"
proof -
  obtain j where "k \<le> j" "calls j \<noteq> Interrupted" using assms unfolding answered_def by blast
  then have ex: "calls (k + (j - k)) \<noteq> Interrupted" by simp
  let ?n = "LEAST n. calls (k + n) \<noteq> Interrupted"
  have "calls (k + ?n) \<noteq> Interrupted" by (rule LeastI [of "\<lambda>n. calls (k + n) \<noteq> Interrupted", OF ex])
  moreover have "\<forall>i < ?n. calls (k + i) = Interrupted" using not_less_Least by blast
  ultimately show thesis by (intro that)
qed

lemma write_skip:
  "\<forall>i < n. calls (k + i) = Interrupted \<Longrightarrow> completed < length bytes \<Longrightarrow>
     write_exact calls k name bytes completed d = write_exact calls (k + n) name bytes completed d"
proof (induction n arbitrary: k)
  case (Suc n)
  have "calls k = Interrupted" using Suc.prems(1) by (metis add_0_right zero_less_Suc)
  then have "write_exact calls k name bytes completed d = write_exact calls (k + 1) name bytes completed d"
    using Suc.prems(2) by (subst write_exact.simps) simp
  also have "\<dots> = write_exact calls (k + 1 + n) name bytes completed d" by (rule Suc.IH) (use Suc.prems in auto)
  finally show ?case by simp
qed simp

lemma read_skip:
  "\<forall>i < n. calls (k + i) = Interrupted \<Longrightarrow> completed < length bytes \<Longrightarrow>
     read_exact calls k content bytes completed = read_exact calls (k + n) content bytes completed"
proof (induction n arbitrary: k)
  case (Suc n)
  have "calls k = Interrupted" using Suc.prems(1) by (metis add_0_right zero_less_Suc)
  then have "read_exact calls k content bytes completed = read_exact calls (k + 1) content bytes completed"
    using Suc.prems(2) by (subst read_exact.simps) simp
  also have "\<dots> = read_exact calls (k + 1 + n) content bytes completed" by (rule Suc.IH) (use Suc.prems in auto)
  finally show ?case by simp
qed simp

section \<open>Writing\<close>

text \<open>\<open>d1\<close> comes from \<open>d\<close> by changes to the entry \<open>name\<close> only.\<close>

definition only_entry :: "string \<Rightarrow> directory \<Rightarrow> directory \<Rightarrow> bool" where
  "only_entry name d d1 \<longleftrightarrow> (\<forall>m \<in> states d1. m \<in> states d \<or> (\<forall>f. f \<noteq> name \<longrightarrow> m f = dir_entries d f)) \<and>
     (\<forall>f. f \<noteq> name \<longrightarrow> dir_entries d1 f = dir_entries d f)"

lemma only_entry_refl [simp]: "only_entry name d d"
  by (simp add: only_entry_def)

lemma only_entry_trans: "only_entry name d d1 \<Longrightarrow> only_entry name d1 d2 \<Longrightarrow> only_entry name d d2"
  unfolding only_entry_def by (metis (no_types, lifting))

lemma only_entry_change:
  "(\<And>m f. f \<noteq> name \<Longrightarrow> g m f = m f) \<Longrightarrow> only_entry name d (change g d)"
  by (auto simp: only_entry_def)

lemma only_entry_files: "only_entry name d (make_file name d)" "only_entry name d (append_file name bytes d)" "only_entry name d (remove_file name d)"
  by (auto simp: make_file_def append_file_def remove_file_def intro!: only_entry_change)

lemma write_exact_returns:
  assumes "answered calls"
  shows "dir_entries d name = Some (take completed bytes) \<Longrightarrow>
    \<exists>ok d1. write_exact calls k name bytes completed d = Some (ok, d1) \<and> only_entry name d d1 \<and>
      (ok \<longrightarrow> dir_entries d1 name = Some bytes) \<and> (transfers_all calls \<longrightarrow> ok)"
proof (induction "length bytes - completed" arbitrary: completed d k rule: less_induct)
  case less
  show ?case
  proof (cases "completed < length bytes")
    case True
    obtain n where n: "\<forall>i < n. calls (k + i) = Interrupted" "calls (k + n) \<noteq> Interrupted" by (rule next_answer [OF assms])
    note skip = write_skip [OF n(1) True, of name d]
    show ?thesis
    proof (cases "calls (k + n)")
      case (Transferred m)
      show ?thesis
      proof (cases "m = 0")
        case False
        let ?d = "append_file name (take m (drop completed bytes)) d"
        have "dir_entries ?d name = Some (take (completed + m) bytes)" using less.prems by (simp add: append_file_def take_add)
        moreover have "length bytes - (completed + m) < length bytes - completed" using True False by simp
        ultimately obtain ok d1 where "write_exact calls (k + n + 1) name bytes (completed + m) ?d = Some (ok, d1)" "only_entry name ?d d1"
          "ok \<longrightarrow> dir_entries d1 name = Some bytes" "transfers_all calls \<longrightarrow> ok" using less.hyps by blast
        moreover have "write_exact calls k name bytes completed d = write_exact calls (k + n + 1) name bytes (completed + m) ?d"
          unfolding skip using True False Transferred by (subst write_exact.simps) simp
        ultimately show ?thesis using only_entry_trans [OF only_entry_files(2)] by metis
      next
        case True
        then have "\<not> transfers_all calls" using Transferred by (auto simp: transfers_all_def)
        then show ?thesis unfolding skip using Transferred True \<open>completed < length bytes\<close> by (subst write_exact.simps) auto
      qed
    next
      case Transfer_Failed
      then have "\<not> transfers_all calls" by (auto simp: transfers_all_def)
      then show ?thesis unfolding skip using Transfer_Failed True by (subst write_exact.simps) auto
    qed (use n in simp)
  next
    case False
    then show ?thesis using less.prems by (subst write_exact.simps) auto
  qed
qed

lemma read_exact_all:
  assumes "transfers_all calls"
  shows "length bytes = length content \<Longrightarrow> take completed bytes = take completed content \<Longrightarrow>
    read_exact calls k content bytes completed = Some (True, content)"
proof (induction "length bytes - completed" arbitrary: completed bytes k rule: less_induct)
  case less
  show ?case
  proof (cases "completed < length bytes")
    case True
    obtain n where n: "\<forall>i < n. calls (k + i) = Interrupted" "calls (k + n) \<noteq> Interrupted"
      using assms next_answer [of calls k] by (auto simp: transfers_all_def)
    then obtain m where m: "calls (k + n) = Transferred m" "m \<noteq> 0" using assms by (cases "calls (k + n)") (auto simp: transfers_all_def)
    let ?bytes = "take completed bytes @ take m (drop completed content) @ drop (completed + m) bytes"
    have len: "length ?bytes = length content" using less.prems(1) True by auto
    have "take (completed + m) ?bytes = take (completed + m) content"
      using less.prems True by (simp add: take_add) linarith
    then have "read_exact calls (k + n + 1) content ?bytes (completed + m) = Some (True, content)"
      using less.hyps [of ?bytes "completed + m"] len less.prems(1) True m(2) by simp
    then show ?thesis
      unfolding read_skip [OF n(1) True, of content] using True m by (subst read_exact.simps) simp
  next
    case False
    then show ?thesis using less.prems by (subst read_exact.simps) simp
  qed
qed


section \<open>Saving\<close>

text \<open>The calls on the temporary file succeed.\<close>

definition fills :: "save_results \<Rightarrow> bool" where
  "fills r \<longleftrightarrow> sv_chmod r \<and> (\<exists>st. sv_stat r = Some st \<and> st_kind st = Regular_File \<and> st_permissions st = 6 * 64) \<and>
     transfers_all (sv_write r) \<and> sv_fsync r \<and> sv_rename r"

lemma fill_and_rename_result:
  assumes an: "answered (sv_write r)" and t: "dir_entries d t = Some []"
  obtains renamed d1 where "fill_and_rename r t name bytes d = Some (renamed, d1)"
    "\<not> renamed \<Longrightarrow> only_entry t d d1" "renamed \<Longrightarrow> \<exists>d0. only_entry t d d0 \<and> dir_entries d0 t = Some bytes \<and> d1 = rename_file t name d0"
    "fills r \<Longrightarrow> renamed"
proof -
  obtain ok d0 where w: "write_exact (sv_write r) 0 t bytes 0 d = Some (ok, d0)" "only_entry t d d0" "ok \<longrightarrow> dir_entries d0 t = Some bytes"
    "transfers_all (sv_write r) \<longrightarrow> ok" using write_exact_returns [OF an, of d t 0 bytes 0] t by auto
  let ?bad = "\<not> sv_chmod r \<or> (case sv_stat r of None \<Rightarrow> True | Some st \<Rightarrow> st_kind st \<noteq> Regular_File \<or> st_permissions st \<noteq> 6 * 64)"
  let ?stop = "\<not> ok \<or> \<not> sv_fsync r \<or> \<not> sv_rename r"
  have "fill_and_rename r t name bytes d =
      Some (if ?bad then (False, d) else if ?stop then (False, d0) else (True, rename_file t name d0))"
    using w(1) by (simp add: fill_and_rename_def)
  moreover have "\<not> ?bad \<and> \<not> ?stop" if "fills r" using that w(4) by (auto simp: fills_def)
  ultimately show thesis using w(2,3) that by (cases ?bad; cases ?stop) auto
qed

text \<open>What a save leaves: the states of the directory differ from the old one at the destination and at one temporary name.\<close>

definition replaced :: "string \<Rightarrow> u8 list \<Rightarrow> string \<Rightarrow> directory \<Rightarrow> directory \<Rightarrow> bool" where
  "replaced name bytes t d d1 \<longleftrightarrow> (\<forall>m \<in> states d1. m \<in> states d \<or>
     (m name = dir_entries d name \<or> m name = Some bytes) \<and> (\<forall>f. f \<noteq> name \<and> f \<noteq> t \<longrightarrow> m f = dir_entries d f))"

lemma replaced_kept: "only_entry t d d1 \<Longrightarrow> t \<noteq> name \<Longrightarrow> replaced name bytes t d d1 \<and> dir_entries d1 name = dir_entries d name"
  by (fastforce simp: only_entry_def replaced_def)

lemma replaced_renamed:
  assumes "only_entry t d d0" "t \<noteq> name" "dir_entries d0 t = Some bytes"
  shows "replaced name bytes t d (rename_file t name d0) \<and> dir_entries (rename_file t name d0) name = Some bytes \<and>
    dir_entries (rename_file t name d0) t = None"
proof -
  have "replaced name bytes t d d0" using replaced_kept [OF assms(1,2)] by simp
  moreover have "dir_entries d0 f = dir_entries d f" if "f \<noteq> t" for f using assms(1) that by (simp add: only_entry_def)
  ultimately show ?thesis using assms(2,3) by (auto simp: replaced_def rename_file_def)
qed

lemma save_error_cases:
  "save_error r False \<noteq> SN_None" "save_error r False \<noteq> SN_Commit_Indeterminate"
  "sv_close r \<Longrightarrow> save_error r True = SN_None \<or> save_error r True = SN_Commit_Indeterminate"
  by (auto simp: save_error_def Let_def)

text \<open>Every call of a save succeeds, apart from names already taken.\<close>

definition saves_all :: "save_results \<Rightarrow> bool" where
  "saves_all r \<longleftrightarrow> sv_parent r = None \<and> (\<exists>n < kTempAttempts. sv_open r n = None \<and> (\<forall>i < n. sv_open r i = Some EEXIST)) \<and> fills r \<and>
     sv_parent_fsync r \<and> sv_close r \<and> sv_parent_close r"

lemma create_temporary_opens:
  "n < left \<Longrightarrow> sv_open r (a + n) = None \<Longrightarrow> \<forall>i < n. sv_open r (a + i) = Some EEXIST \<Longrightarrow> fst (create_temporary r name a left c) = None"
proof (induction n arbitrary: a left c)
  case 0
  then show ?case by (cases left) (simp_all add: Let_def)
next
  case (Suc n)
  then obtain left' where l: "left = Suc left'" "left' \<noteq> 0" by (cases left) auto
  have "sv_open r a = Some EEXIST" using Suc.prems(3) by (metis add_0_right zero_less_Suc)
  moreover have "fst (create_temporary r name (a + 1) left' (c + 1)) = None" by (rule Suc.IH) (use Suc.prems l in auto)
  ultimately show ?case using l by (simp add: Let_def)
qed

lemma save_result:
  assumes en: "encode_snapshot e p = Some (Inr bytes, e1)" and pa: "parse_path path = Inr name" and an: "answered (sv_write r)"
  shows "\<exists>err c1 d1 t. save_snapshot_atomic r path e p c d = Some (err, e1, c1, d1) \<and> t \<noteq> name \<and> replaced name bytes t d d1 \<and>
    (err = SN_None \<longrightarrow> dir_entries d1 name = Some bytes \<and> dir_entries d1 t = None) \<and>
    (err \<noteq> SN_None \<and> err \<noteq> SN_Commit_Indeterminate \<and> sv_close r \<longrightarrow> dir_entries d1 name = dir_entries d name) \<and> (saves_all r \<longrightarrow> err = SN_None)"
proof -
  have kept: "replaced name bytes (name @ ''.'') d d" "name @ ''.'' \<noteq> name" by (auto simp: replaced_def)
  obtain o' t c1 where ct: "create_temporary r name 0 kTempAttempts c = (o', t, c1)" by (cases "create_temporary r name 0 kTempAttempts c") auto
  have opn: "o' = None" if "saves_all r"
    using create_temporary_opens [of _ kTempAttempts r 0 name c] that ct by (fastforce simp: saves_all_def)
  consider (early) er where "sv_parent r = Some er" "save_snapshot_atomic r path e p c d = Some (snapshot_errno_error er, e1, c, d)"
    | (collision) er where "sv_parent r = None" "o' = Some er" | (opened) "sv_parent r = None" "o' = None"
    using en pa by (cases "sv_parent r"; cases o') (auto simp: save_snapshot_atomic_def)
  then show ?thesis
  proof cases
    case early
    moreover have "snapshot_errno_error er \<noteq> SN_None" by (simp add: snapshot_errno_error_def)
    moreover have "\<not> saves_all r" using early(1) by (simp add: saves_all_def)
    ultimately show ?thesis using kept by blast
  next
    case collision
    then have "save_snapshot_atomic r path e p c d = Some (if er = EEXIST then SN_Temp_Collision_Limit else snapshot_errno_error er, e1, c1, d)"
      using en pa ct by (simp add: save_snapshot_atomic_def)
    moreover have "(if er = EEXIST then SN_Temp_Collision_Limit else snapshot_errno_error er) \<noteq> SN_None" by (simp add: snapshot_errno_error_def)
    moreover have "\<not> saves_all r" using opn collision(2) by auto
    ultimately show ?thesis using kept by blast
  next
    case opened
    have t: "t \<noteq> name" using create_temporary_name [of r name 0 kTempAttempts c t c1] ct opened by simp
    have mk: "only_entry t d (make_file t d)" "dir_entries (make_file t d) t = Some []" by (rule only_entry_files) (simp add: make_file_def)
    obtain renamed d1 where f: "fill_and_rename r t name bytes (make_file t d) = Some (renamed, d1)"
      "\<not> renamed \<Longrightarrow> only_entry t (make_file t d) d1"
      "renamed \<Longrightarrow> \<exists>d0. only_entry t (make_file t d) d0 \<and> dir_entries d0 t = Some bytes \<and> d1 = rename_file t name d0"
      "fills r \<Longrightarrow> renamed"
      using fill_and_rename_result [where r = r and name = name and bytes = bytes, OF an mk(2)] by blast
    let ?d2 = "if \<not> renamed \<and> sv_unlink r = None then remove_file t d1 else d1"
    have sv: "save_snapshot_atomic r path e p c d = Some (save_error r renamed, e1, c1, ?d2)"
      using en pa ct opened f(1) by (simp add: save_snapshot_atomic_def)
    show ?thesis
    proof (cases renamed)
      case True
      then obtain d0 where "only_entry t d d0" "dir_entries d0 t = Some bytes" "d1 = rename_file t name d0"
        using f(3) only_entry_trans [OF mk(1)] by blast
      then have "replaced name bytes t d d1" "dir_entries d1 name = Some bytes" "dir_entries d1 t = None" using replaced_renamed [OF _ t] by auto
      moreover have "save_error r True = SN_None" if "saves_all r" using that by (simp add: saves_all_def save_error_def)
      ultimately show ?thesis using sv True t save_error_cases(3) [of r] by auto
    next
      case False
      then have "only_entry t d ?d2" using f(2) only_entry_trans [OF mk(1)] only_entry_trans [OF _ only_entry_files(3)] by auto
      then have "replaced name bytes t d ?d2" "dir_entries ?d2 name = dir_entries d name" using replaced_kept t by auto
      moreover have "\<not> saves_all r" using f(4) False by (auto simp: saves_all_def)
      ultimately show ?thesis using sv False t save_error_cases(1,2) [of r] by auto
    qed
  qed
qed

text \<open>
  C14. Replacing a snapshot is atomic.  Saving returns unless a write is interrupted for ever, and whatever the system calls return, in every
  state the directory goes through the destination holds its old content or the complete encoding, and only the destination and
  one temporary name change.  Success means that the new snapshot is in place and the temporary file gone; an error other than an
  indeterminate commit leaves the old snapshot, unless closing the file failed; and when every call succeeds the save does.
\<close>

theorem save_snapshot_replaces_atomically:
  assumes "encode_snapshot e p = Some (Inr bytes, e1)" and "parse_path path = Inr name" and "answered (sv_write r)"
  shows "\<exists>err c1 d1 t. save_snapshot_atomic r path e p c d = Some (err, e1, c1, d1) \<and> t \<noteq> name \<and>
    (\<forall>m \<in> states d1. m \<in> states d \<or> (m name = dir_entries d name \<or> m name = Some bytes) \<and> (\<forall>f. f \<noteq> name \<and> f \<noteq> t \<longrightarrow> m f = dir_entries d f)) \<and>
    (err = SN_None \<longrightarrow> dir_entries d1 name = Some bytes \<and> dir_entries d1 t = None) \<and>
    (err \<noteq> SN_None \<and> err \<noteq> SN_Commit_Indeterminate \<and> sv_close r \<longrightarrow> dir_entries d1 name = dir_entries d name) \<and> (saves_all r \<longrightarrow> err = SN_None)"
  using save_result [OF assms, of c d] unfolding replaced_def .

section \<open>Loading\<close>

text \<open>A reader that finds the entry, a regular file with the right permissions, unchanged while it is read.\<close>

definition loads_entry :: "load_results \<Rightarrow> entries \<Rightarrow> string \<Rightarrow> bool" where
  "loads_entry l m name \<longleftrightarrow> ld_parent l = None \<and> ld_lstat l = Inr Regular_File \<and> transfers_all (ld_read l) \<and> ld_close l \<and> ld_parent_close l \<and>
     (\<exists>content st. m name = Some content \<and> ld_open l = Inr content \<and> ld_stat l = Inr st \<and> ld_stat_after l = Some st \<and>
        st_kind st = Regular_File \<and> st_permissions st = 6 * 64 \<and> st_size st = int (length content))"

lemma load_entry:
  assumes l: "loads_entry l m name" and pa: "parse_path path = Inr name" and c: "m name = Some content"
    and len: "kLegacySnapshotHeaderSize \<le> length content" "length content \<le> kMaximumSnapshotBytes"
  shows "load_snapshot l path = decode_snapshot content"
proof -
  obtain st where s: "ld_open l = Inr content" "ld_stat l = Inr st" "ld_stat_after l = Some st" "st_kind st = Regular_File"
    "st_permissions st = 6 * 64" "st_size st = int (length content)" using l c by (auto simp: loads_entry_def)
  have o: "ld_parent l = None" "ld_lstat l = Inr Regular_File" "transfers_all (ld_read l)" "ld_close l" "ld_parent_close l"
    using l by (auto simp: loads_entry_def)
  have "check_size (ld_stat l) = SN_None" using s len by (simp add: check_size_def)
  moreover have "read_exact (ld_read l) 0 content (replicate (length content) 0) 0 = Some (True, content)"
    by (rule read_exact_all [OF o(3)]) simp_all
  ultimately have "read_file l content = Some (SN_None, content)" using s by (simp add: read_file_def same_file_def)
  then show ?thesis using o s(1) pa by (simp add: load_snapshot_def)
qed

text \<open>
  A saved snapshot loads: after a save that reports success, a reader that opens the destination gets the engine that was saved, with
  the snapshot point it was saved for.
\<close>

lemma saved_snapshot_loads:
  assumes st: "storable (se_book e)" and pa: "parse_path path = Inr name" and an: "answered (sv_write r)"
    and sv: "save_snapshot_atomic r path e p c d = Some (SN_None, e1, c1, d1)" and l: "loads_entry l (dir_entries d1) name"
  shows "\<exists>e2. load_snapshot l path = Some (Inr (e2, p)) \<and> same_engine e1 e2 \<and> storable (se_book e2)"
proof -
  obtain x e1' where x: "encode_snapshot e p = Some (x, e1')" using sv by (auto simp: save_snapshot_atomic_def split: option.splits)
  have "x \<noteq> Inl SN_None" using x by (auto simp: encode_snapshot_def Let_def split: option.splits if_splits)
  then obtain bytes where en: "encode_snapshot e p = Some (Inr bytes, e1')"
    using x sv by (cases x) (auto simp: save_snapshot_atomic_def)
  obtain t where r: "e1' = e1" "dir_entries d1 name = Some bytes" using save_result [OF en pa an, of c d] sv by auto
  obtain ms ep where s: "bytes = encode_bytes e1 p" "point_matches e1 p" "storable (se_book e1)" "ir_violation (passed (se_book e1)) = IV_None"
    by (rule encode_success [OF st en [unfolded r(1)]])
  have "length bytes = snapshot_size (slots (se_book e1))" using encode_bytes_image [of e1 p] s(1) by (simp add: file_image_def)
  then have "load_snapshot l path = decode_snapshot bytes"
    using storableD(4) [OF s(3)]
    by (intro load_entry [OF l pa r(2)])
      (simp_all add: snapshot_size_def kSnapshotHeaderSize_def kSnapshotSlotSize_def kLegacySnapshotHeaderSize_def kMaximumSnapshotBytes_def kMaximumSnapshotSlots_def)
  moreover obtain e2 where "decode_snapshot (encode_bytes e1 p) = Some (Inr (e2, p))" "same_engine e1 e2" "storable (se_book e2)"
    by (rule decode_encoded [OF s(3,2,4)])
  ultimately show ?thesis using s(1) by simp
qed

section \<open>A concrete save\<close>

definition demo_save :: save_results where
  "demo_save = \<lparr>sv_parent = None, sv_open = \<lambda>n. if n = 0 then Some EEXIST else None, sv_pid = 42, sv_chmod = True,
     sv_stat = Some \<lparr>st_kind = Regular_File, st_permissions = 384, st_size = 0\<rparr>, sv_write = \<lambda>k. if even k then Interrupted else Transferred 100,
     sv_fsync = True, sv_rename = True, sv_parent_fsync = True, sv_unlink = None, sv_close = True, sv_parent_close = True\<rparr>"

definition demo_directory :: directory where
  "demo_directory = \<lparr>dir_entries = [''book'' \<mapsto> [1, 2, 3]], dir_past = []\<rparr>"

definition demo_load :: "u8 list \<Rightarrow> load_results" where
  "demo_load content = (let st = \<lparr>st_kind = Regular_File, st_permissions = 384, st_size = int (length content), st_device = 1, st_inode = 9\<rparr>
     in \<lparr>ld_parent = None, ld_lstat = Inr Regular_File, ld_open = Inr content, ld_stat = Inr st, ld_read = \<lambda>k. if even k then Interrupted else Transferred 64,
         ld_stat_after = Some st, ld_close = True, ld_parent_close = True\<rparr>)"

lemma odd_calls: "\<exists>j \<ge> k. odd (j :: nat)"
  by (rule exI [of _ "2 * k + 1"]) simp

lemma demo_answered: "answered (sv_write demo_save)" "transfers_all (ld_read (demo_load content))"
  using odd_calls by (auto simp: answered_def transfers_all_def demo_save_def demo_load_def Let_def)

lemma demo_path: "parse_path ''/var/book'' = Inr ''book''"
  by code_simp

lemma demo_saves: "saves_all demo_save"
proof -
  have "\<exists>n < kTempAttempts. sv_open demo_save n = None \<and> (\<forall>i < n. sv_open demo_save i = Some EEXIST)"
    by (rule exI [of _ 1]) (simp add: kTempAttempts_def demo_save_def)
  moreover have "transfers_all (sv_write demo_save)" using demo_answered(1) by (simp add: transfers_all_def demo_save_def)
  ultimately show ?thesis by (simp add: saves_all_def fills_def demo_save_def)
qed

theorem save_snapshot_replaces_atomically_witness:
  "\<exists>bytes e1 err c1 d1 t. encode_snapshot demo_engine demo_point = Some (Inr bytes, e1) \<and>
     save_snapshot_atomic demo_save ''/var/book'' demo_engine demo_point 7 demo_directory = Some (err, e1, c1, d1) \<and> t \<noteq> ''book'' \<and>
     (\<forall>m \<in> states d1. m ''book'' = Some [1, 2, 3] \<or> m ''book'' = Some bytes)"
proof -
  obtain ms ep where en: "encode_snapshot demo_engine demo_point =
      Some (Inr (encode_bytes (demo_engine\<lparr>se_book := visited (se_book demo_engine) ms ep\<rparr>) demo_point), demo_engine\<lparr>se_book := visited (se_book demo_engine) ms ep\<rparr>)"
    by (rule encode_storable [OF demo_storable(1,3,2)])
  have "dir_entries demo_directory ''book'' = Some [1, 2, 3]" "states demo_directory = {dir_entries demo_directory}" by (simp_all add: demo_directory_def)
  then show ?thesis using en save_snapshot_replaces_atomically [OF en demo_path demo_answered(1), of 7 demo_directory] by fastforce
qed

end
