(* ===== verification/Pipeline.thy ===== *)
theory Pipeline
  imports Journal Spsc_Queue
begin

text \<open>
  The pipeline (\<^verbatim>\<open>pipeline.hpp\<close>, \<^verbatim>\<open>pipeline.cpp\<close>): ingress stamps a payload, makes it durable and only then shows it to
  the matcher; the matcher applies the command at the head of its queue, publishes the events in one batch and
  the best prices, and releases the command last; publication drains the events.
\<close>

datatype ingress_status = IS_Progress | IS_Invalid_Payload | IS_Decreasing_Logical_Time | IS_Sequence_Exhausted | IS_Queue_Backpressure
  | IS_Journal_Full | IS_Persistence_Failure | IS_Commit_Indeterminate | IS_Recovery_Required | IS_Stopped_Poisoned

datatype matching_status = MS_Progress | MS_Input_Empty | MS_Output_Backpressure | MS_Invalid_Command | MS_Invalid_Sequence
  | MS_Decreasing_Logical_Time | MS_Sequence_Exhausted | MS_Impossible_Event_Capacity | MS_Internal_Invariant_Failure | MS_Poisoned

datatype publication_status = PS_Progress | PS_Input_Empty

section \<open>Ingress\<close>

text \<open>The stage owns the producer end of the command queue; the queue itself is shared with the matcher.\<close>

record ingress =
  in_sequencer :: sequencer
  in_journal :: journal
  in_last_journal_error :: journal_error
  in_recovery_required :: bool
  in_stopped :: bool

definition make_ingress :: "sequencer \<Rightarrow> journal \<Rightarrow> ingress" where
  "make_ingress sequencer j = \<lparr>in_sequencer = sequencer, in_journal = j, in_last_journal_error = JE_None,
     in_recovery_required = False, in_stopped = False\<rparr>"

fun sequencer_status :: "sequencer_error \<Rightarrow> ingress_status" where
  "sequencer_status SE_Invalid_Payload = IS_Invalid_Payload"
| "sequencer_status SE_Decreasing_Logical_Time = IS_Decreasing_Logical_Time"
| "sequencer_status SE_Sequence_Exhausted = IS_Sequence_Exhausted"

text \<open>The part behind the guards: stamp, append, push.\<close>

definition ingest_command :: "append_results \<Rightarrow> ingress \<Rightarrow> sequenced_command spsc \<Rightarrow> command_payload \<Rightarrow> u64 \<Rightarrow>
    ingress_status \<times> ingress \<times> sequenced_command spsc" where
  "ingest_command r s q payload logical_time =
     (let (stamped, sq) = stamp (in_sequencer s) payload logical_time; s1 = s\<lparr>in_sequencer := sq\<rparr>
      in case stamped of
           Inl e \<Rightarrow> (sequencer_status e, s1, q)
         | Inr c \<Rightarrow>
             let (je, j) = journal_append r (in_journal s) c;
                 s2 = s1\<lparr>in_journal := j, in_last_journal_error := je\<rparr>
             in if je \<noteq> JE_None then
                  (if je = JE_Commit_Indeterminate then IS_Commit_Indeterminate else IS_Persistence_Failure,
                   s2\<lparr>in_recovery_required := True\<rparr>, q)
                else let (pushed, q2) = try_push q c
                     in if \<not> pushed then (IS_Stopped_Poisoned, s2\<lparr>in_stopped := True\<rparr>, q2)
                        else (IS_Progress, s2, q2))"

definition try_ingest :: "append_results \<Rightarrow> ingress \<Rightarrow> sequenced_command spsc \<Rightarrow> command_payload \<Rightarrow> u64 \<Rightarrow>
    ingress_status \<times> ingress \<times> sequenced_command spsc" where
  "try_ingest r s q payload logical_time =
     (if in_stopped s then (IS_Stopped_Poisoned, s, q)
      else if in_recovery_required s \<or> \<not> journal_writable (in_journal s) then
        (IS_Recovery_Required, s\<lparr>in_recovery_required := True\<rparr>, q)
      else if validate_command_payload payload \<noteq> CV_None then (IS_Invalid_Payload, s, q)
      else if sq_exhausted (in_sequencer s) then (IS_Sequence_Exhausted, s, q)
      else if logical_time < sq_last_logical_time (in_sequencer s) then (IS_Decreasing_Logical_Time, s, q)
      else let (free, q1) = producer_available q
           in if free = 0 then (IS_Queue_Backpressure, s, q1)
              else if journal_full (in_journal s) then (IS_Journal_Full, s, q1)
              else ingest_command r s q1 payload logical_time)"

definition ingress_poisoned :: "ingress \<Rightarrow> bool" where
  "ingress_poisoned s \<longleftrightarrow> in_recovery_required s \<or> in_stopped s"

section \<open>Matching\<close>

record matching =
  ms_engine :: engine
  ms_scratch :: "engine_event list"
  ms_bbo :: bbo_cells
  ms_poisoned :: bool

definition make_matching :: "engine option \<Rightarrow> engine_event spsc \<Rightarrow> cpp_exception + matching" where
  "make_matching engine events =
     (case engine of None \<Rightarrow> Inl Invalid_Argument
      | Some e \<Rightarrow>
          if q_capacity events < maximum_event_capacity e then Inl Invalid_Argument
          else Inr \<lparr>ms_engine = e, ms_scratch = replicate (maximum_event_capacity e) default_event, ms_bbo = empty_cells, ms_poisoned = False\<rparr>)"

definition poison :: "matching \<Rightarrow> matching_status \<Rightarrow> sequenced_command spsc \<Rightarrow> engine_event spsc \<Rightarrow>
    (matching_status \<times> matching \<times> sequenced_command spsc \<times> engine_event spsc) run" where
  "poison m status commands events = ret (status, m\<lparr>ms_poisoned := True\<rparr>, commands, events)"

text \<open>The status for a command the engine refuses although the checks before it passed.\<close>

fun refused_status :: "apply_status \<Rightarrow> matching_status" where
  "refused_status AS_Invalid_Command = MS_Invalid_Command"
| "refused_status AS_Invalid_Sequence = MS_Invalid_Sequence"
| "refused_status AS_Decreasing_Logical_Time = MS_Decreasing_Logical_Time"
| "refused_status AS_Sequence_Exhausted = MS_Sequence_Exhausted"
| "refused_status AS_Insufficient_Event_Capacity = MS_Impossible_Event_Capacity"
| "refused_status AS_Applied = MS_Progress"

text \<open>\<^verbatim>\<open>level_info\<close> of a best price is dereferenced without a check.\<close>

definition best_quantity :: "book \<Rightarrow> side \<Rightarrow> price option \<Rightarrow> quantity" where
  "best_quantity b s p = (case p of None \<Rightarrow> 0 | Some px \<Rightarrow> li_aggregate (the (get_level_info b (Valid_Side s) px)))"

definition bbo_of :: "book \<Rightarrow> bbo_state" where
  "bbo_of b = \<lparr>bs_bid_price = best_bid b, bs_bid_quantity = best_quantity b Buy (best_bid b),
     bs_ask_price = best_ask b, bs_ask_quantity = best_quantity b Sell (best_ask b)\<rparr>"

text \<open>The checks between the peek and the call of the engine: a status to poison with, or the required capacity.\<close>

definition precheck :: "matching \<Rightarrow> sequenced_command \<Rightarrow> engine_event spsc \<Rightarrow> matching_status + nat" where
  "precheck m command events =
     (if se_sequence_exhausted (ms_engine m) then Inl MS_Sequence_Exhausted
      else if validate_command_payload (sc_payload command) \<noteq> CV_None then Inl MS_Invalid_Command
      else if sc_sequence command \<noteq> se_next_sequence (ms_engine m) then Inl MS_Invalid_Sequence
      else if sc_logical_time command < se_last_logical_time (ms_engine m) then Inl MS_Decreasing_Logical_Time
      else let required = required_event_capacity (ms_engine m) (sc_payload command)
           in if required = 0 \<or> required > length (ms_scratch m) \<or> required > q_capacity events then Inl MS_Impossible_Event_Capacity
              else Inr required)"

definition finish_one :: "matching \<Rightarrow> sequenced_command \<Rightarrow> nat \<Rightarrow> sequenced_command spsc \<Rightarrow> engine_event spsc \<Rightarrow>
    apply_result \<Rightarrow> (matching_status \<times> matching \<times> sequenced_command spsc \<times> engine_event spsc) run" where
  "finish_one m command required commands events result =
     (if ap_status result \<noteq> AS_Applied then poison m (refused_status (ap_status result)) commands events
      else if ap_event_count result = 0 \<or> ap_event_count result > required then poison m MS_Internal_Invariant_Failure commands events
      else let (pushed, events1) = try_push_batch events (take (ap_event_count result) (ms_scratch m))
           in if \<not> pushed then poison m MS_Internal_Invariant_Failure commands events1
              else let m1 = m\<lparr>ms_bbo := bbo_publish (bbo_of (se_book (ms_engine m))) (ms_bbo m)\<rparr>;
                       (released, commands1) = try_pop commands
                   in if released \<noteq> Some command then poison m1 MS_Internal_Invariant_Failure commands1 events1
                      else ret (MS_Progress, m1, commands1, events1))"

definition process_one :: "matching \<Rightarrow> sequenced_command spsc \<Rightarrow> engine_event spsc \<Rightarrow>
    (matching_status \<times> matching \<times> sequenced_command spsc \<times> engine_event spsc) run" where
  "process_one m commands events =
     (if ms_poisoned m then ret (MS_Poisoned, m, commands, events)
      else let (peeked, commands1) = try_peek commands
           in case peeked of None \<Rightarrow> ret (MS_Input_Empty, m, commands1, events)
              | Some command \<Rightarrow>
                  (case precheck m command events of
                     Inl status \<Rightarrow> poison m status commands1 events
                   | Inr required \<Rightarrow>
                       let (free, events1) = producer_available events
                       in if free < required then ret (MS_Output_Backpressure, m, commands1, events1)
                          else run_bind (apply_command (ms_engine m) command (ms_scratch m)) (\<lambda>(result, e1, scratch1).
                            finish_one (m\<lparr>ms_engine := e1, ms_scratch := scratch1\<rparr>) command required commands1 events1 result)))"

section \<open>Publication\<close>

definition publication_try_pop :: "engine_event spsc \<Rightarrow> publication_status \<times> engine_event option \<times> engine_event spsc" where
  "publication_try_pop q = (let (popped, q1) = try_pop q in (if popped \<noteq> None then PS_Progress else PS_Input_Empty, popped, q1))"

text \<open>
  \<^verbatim>\<open>drain\<close> hands every event to the callback until the queue is empty; run against a producer that keeps up it
  does not end, so the loop carries fuel.
\<close>

fun publication_drain :: "nat \<Rightarrow> engine_event spsc \<Rightarrow> (engine_event list \<times> engine_event spsc) option" where
  "publication_drain 0 q = None"
| "publication_drain (Suc fuel) q =
     (case try_pop q of
        (None, q1) \<Rightarrow> Some ([], q1)
      | (Some e, q1) \<Rightarrow> (case publication_drain fuel q1 of None \<Rightarrow> None | Some (es, q2) \<Rightarrow> Some (e # es, q2)))"

end
