(* ===== verification/Pipeline_Properties.thy ===== *)
theory Pipeline_Properties
  imports Pipeline Journal_History Engine_Properties
begin

text \<open>
  The pipeline: what the matcher sees is durable, every command is carried out once and in order, and a
  command whose events do not fit is kept.
\<close>

section \<open>Queue positions\<close>

lemma push_head: "try_push_batch q vs = (ok, q') \<Longrightarrow> q_head q' = q_head q"
  by (auto simp: try_push_batch_def producer_available_def publish_tail_def Let_def split: if_splits prod.splits)

lemma pop_head: "spsc_ok q \<Longrightarrow> try_pop q = (r, q') \<Longrightarrow> q_head q' = (if contents q = [] then q_head q else q_head q + 1)"
proof -
  assume ok: "spsc_ok q" and p: "try_pop q = (r, q')"
  obtain v q1 where pk: "try_peek q = (v, q1)" by fastforce
  note l = peek_contents [OF ok pk]
  have "q_head q1 = q_head q" using pk by (auto simp: try_peek_def refresh_tail_def Let_def split: if_splits)
  then show ?thesis using p pk l by (cases "contents q") (auto simp: try_pop_def publish_head_def Let_def)
qed

section \<open>Ingress\<close>

definition ingress_inv :: "ingress \<Rightarrow> sequenced_command spsc \<Rightarrow> sequenced_command list \<Rightarrow> sequenced_command list \<Rightarrow> bool" where
  "ingress_inv s q delivered xs \<longleftrightarrow> spsc_ok q \<and> q_head q = word_of_nat (length delivered) \<and>
     journal_inv (in_journal s) (delivered @ contents q) xs"

lemma ingress_fits:
  assumes "ingress_inv s q delivered xs"
  shows "spsc_fits q (Suc 0)"
proof -
  have "length (delivered @ contents q) \<le> 1000000"
    using assms journal_inv_prefix(1-3) [of "in_journal s" "delivered @ contents q" xs] by (auto simp: ingress_inv_def)
  then show ?thesis using assms by (simp add: ingress_inv_def spsc_fits_def linear_def unat_of_nat_u64)
qed

lemma ingest_command_inv:
  assumes inv: "ingress_inv s q delivered xs" and rng: "int64_range (cp_price_ticks p)"
    and room: "length (contents q) < q_capacity q" and run: "ingest_command r s q p t = (st, s', q')"
  shows "(\<exists>ys. ingress_inv s' q' delivered ys) \<and> j_capacity (in_journal s') = j_capacity (in_journal s) \<and>
    j_base_sequence (in_journal s') = j_base_sequence (in_journal s) \<and> in_stopped s' = in_stopped s \<and>
    (if st = IS_Progress then \<exists>c. contents q' = contents q @ [c] \<and> sc_payload c = p \<and> sc_logical_time c = t else contents q' = contents q)"
proof -
  obtain stamped sq where st: "stamp (in_sequencer s) p t = (stamped, sq)" by fastforce
  show ?thesis
  proof (cases stamped)
    case (Inl e)
    then show ?thesis using run st inv by (cases e) (auto simp: ingest_command_def ingress_inv_def)
  next
    case (Inr c)
    have c: "sc_payload c = p" "sc_logical_time c = t" using st Inr by (auto simp: stamp_def Let_def split: if_splits)
    obtain je j where ap: "journal_append r (in_journal s) c = (je, j)" by fastforce
    have ji: "journal_inv (in_journal s) (delivered @ contents q) xs" using inv by (simp add: ingress_inv_def)
    have rng': "int64_range (cp_price_ticks (sc_payload c))" using rng c by simp
    have j: "j_capacity j = j_capacity (in_journal s) \<and> j_base_sequence j = j_base_sequence (in_journal s) \<and>
        (\<exists>ys. journal_inv j (if je = JE_None then (delivered @ contents q) @ [c] else delivered @ contents q) ys)"
      using append_inv [OF ji rng', of r] ji ap by (cases "append_refused r (in_journal s) c = JE_None") auto
    show ?thesis
    proof (cases "je = JE_None")
      case True
      obtain ok q2 where pu: "try_push_batch q [c] = (ok, q2)" by fastforce
      have ok: "spsc_ok q2" "ok" "contents q2 = contents q @ [c]"
        using fifo.push_law [OF _ _ pu] ingress_fits [OF inv] inv room by (auto simp: ingress_inv_def)
      then have "st = IS_Progress" "q' = q2" "in_journal s' = j" "in_stopped s' = in_stopped s"
        using run st Inr ap True pu by (auto simp: ingest_command_def try_push_def)
      then show ?thesis using ok j True push_head [OF pu] inv c by (auto simp: ingress_inv_def)
    next
      case False
      then have "st \<noteq> IS_Progress" "q' = q" "in_journal s' = j" "in_stopped s' = in_stopped s"
        using run st Inr ap by (auto simp: ingest_command_def Let_def split: if_splits)
      then show ?thesis using j False inv by (auto simp: ingress_inv_def)
    qed
  qed
qed

lemma try_ingest_inv:
  assumes inv: "ingress_inv s q delivered xs" and rng: "int64_range (cp_price_ticks p)" and run: "try_ingest r s q p t = (st, s', q')"
  shows "(\<exists>ys. ingress_inv s' q' delivered ys) \<and> j_capacity (in_journal s') = j_capacity (in_journal s) \<and>
    j_base_sequence (in_journal s') = j_base_sequence (in_journal s) \<and> in_stopped s' = in_stopped s \<and>
    (if st = IS_Progress then \<exists>c. contents q' = contents q @ [c] \<and> sc_payload c = p \<and> sc_logical_time c = t else contents q' = contents q)"
proof -
  obtain free q1 where av: "producer_available q = (free, q1)" by fastforce
  have ok: "spsc_ok q" using inv by (simp add: ingress_inv_def)
  note a = available_contents [OF ok av]
  have inv1: "ingress_inv s q1 delivered xs" using inv a by (simp add: ingress_inv_def)
  consider (early) "q' = q" "in_journal s' = in_journal s" "in_stopped s' = in_stopped s" "st \<noteq> IS_Progress"
    | (late) "q' = q1" "s' = s" "st \<noteq> IS_Progress"
    | (go) "free \<noteq> 0" "ingest_command r s q1 p t = (st, s', q')"
    using run unfolding try_ingest_def av by (auto split: if_splits)
  then show ?thesis
  proof cases
    case early
    then show ?thesis using inv by (auto simp: ingress_inv_def)
  next
    case late
    then show ?thesis using inv1 a by auto
  next
    case go
    have "length (contents q1) < q_capacity q1" using go(1) a by simp
    from ingest_command_inv [OF inv1 rng this go(2)] show ?thesis using a by (auto split: if_splits)
  qed
qed

text \<open>Ingress requests interleaved with the matcher taking commands from the queue.\<close>

datatype pipe_op = Ingest append_results command_payload u64 | Take

fun pipe_run :: "ingress \<Rightarrow> sequenced_command spsc \<Rightarrow> pipe_op list \<Rightarrow> sequenced_command list \<times> ingress \<times> sequenced_command spsc" where
  "pipe_run s q [] = ([], s, q)"
| "pipe_run s q (Ingest r p t # ops) = (let (st, s1, q1) = try_ingest r s q p t in pipe_run s1 q1 ops)"
| "pipe_run s q (Take # ops) =
     (let (taken, q1) = try_pop q; (delivered, s2, q2) = pipe_run s q1 ops
      in (case taken of None \<Rightarrow> delivered | Some c \<Rightarrow> c # delivered, s2, q2))"

lemma pipe_run_inv:
  assumes "ingress_inv s q before xs" "\<forall>r p t. Ingest r p t \<in> set ops \<longrightarrow> int64_range (cp_price_ticks p)"
    and "pipe_run s q ops = (delivered, s', q')"
  shows "(\<exists>ys. ingress_inv s' q' (before @ delivered) ys) \<and> j_capacity (in_journal s') = j_capacity (in_journal s) \<and>
    j_base_sequence (in_journal s') = j_base_sequence (in_journal s)"
  using assms
proof (induction s q ops arbitrary: before xs delivered rule: pipe_run.induct)
  case (1 s q)
  then show ?case by auto
next
  case (2 s q r p t ops)
  obtain st s1 q1 where run: "try_ingest r s q p t = (st, s1, q1)" by (cases "try_ingest r s q p t")
  have "int64_range (cp_price_ticks p)" using "2.prems"(2) by simp
  from try_ingest_inv [OF "2.prems"(1) this run] obtain ys where "ingress_inv s1 q1 before ys"
    and f: "j_capacity (in_journal s1) = j_capacity (in_journal s)" "j_base_sequence (in_journal s1) = j_base_sequence (in_journal s)" by blast
  have ops: "\<forall>r p t. Ingest r p t \<in> set ops \<longrightarrow> int64_range (cp_price_ticks p)" and r1: "pipe_run s1 q1 ops = (delivered, s', q')"
    using "2.prems"(2,3) by (auto simp: run)
  from "2.IH" [OF run [symmetric] refl refl \<open>ingress_inv s1 q1 before ys\<close> ops r1] f show ?case by simp
next
  case (3 s q ops)
  obtain taken q1 where pop: "try_pop q = (taken, q1)" by fastforce
  obtain rest' s2 q2 where run: "pipe_run s q1 ops = (rest', s2, q2)" by (cases "pipe_run s q1 ops")
  have ok: "spsc_ok q" using "3.prems"(1) by (simp add: ingress_inv_def)
  note l = fifo.pop_law [OF ok pop] and h = pop_head [OF ok pop]
  have i1: "ingress_inv s q1 (before @ (case taken of None \<Rightarrow> [] | Some c \<Rightarrow> [c])) xs"
    using "3.prems"(1) l h by (cases "contents q") (auto simp: ingress_inv_def add.commute)
  have ops: "\<forall>r p t. Ingest r p t \<in> set ops \<longrightarrow> int64_range (cp_price_ticks p)"
    and e: "s2 = s'" "q2 = q'" "delivered = (case taken of None \<Rightarrow> rest' | Some c \<Rightarrow> c # rest')" using "3.prems"(2,3) by (auto simp: pop run)
  show ?case using "3.IH" [OF pop [symmetric] refl i1 ops run [unfolded e(1,2)]] e(3) by (cases taken) simp_all
qed

text \<open>
  C7. Durability precedes visibility: under any sequence of ingress requests, with any outcomes of the system calls,
  and of commands taken by the matcher, the journal has acknowledged exactly the commands the matcher was or can
  be shown, in that order; reopening the journal file finds them all, and at most one command behind them, then
  only when the ingress writer has stopped.
\<close>

theorem ingest_durable_before_visible:
  assumes "create_journal cr cap base = Inr j" "make_spsc sz x n = Inr q"
    "\<forall>r p t. Ingest r p t \<in> set ops \<longrightarrow> int64_range (cp_price_ticks p)"
    "pipe_run (make_ingress sq j) q ops = (delivered, s, q')" "opens o' (the (j_mapping (in_journal s)))"
  shows "contents_of (in_journal s) (delivered @ contents q') \<and>
    (\<exists>found j'. open_journal o' = Inr j' \<and> contents_of j' found \<and>
       (found = delivered @ contents q' \<or>
        (\<not> journal_writable (in_journal s) \<and> (\<exists>c. found = delivered @ contents q' @ [c]))))"
proof -
  note c = created_inv [OF assms(1)] and m = make_spsc_ok [OF assms(2)]
  have "ingress_inv (make_ingress sq j) q [] []" using c(1) m by (simp add: ingress_inv_def make_ingress_def)
  from pipe_run_inv [OF this assms(3,4)] obtain ys where i: "ingress_inv s q' delivered ys"
    and f: "j_capacity (in_journal s) = cap" "j_base_sequence (in_journal s) = base"
    using c(2,3) by (auto simp: make_ingress_def)
  have inv: "journal_inv (in_journal s) (delivered @ contents q') ys" using i by (simp add: ingress_inv_def)
  have "checked_file_size (j_capacity (in_journal s)) = Some (64 + 80 * unat (j_capacity (in_journal s)))" using c(4) f by simp
  from inv_reopens [OF inv this assms(5)] obtain found j' where "open_journal o' = Inr j'" "journal_inv j' found found"
    "found = delivered @ contents q' \<or> \<not> journal_writable (in_journal s) \<and> (\<exists>c. found = delivered @ contents q' @ [c])" by auto
  then show ?thesis using inv_contents [OF inv] inv_contents [of j' found found] by blast
qed

definition demo_ops :: "pipe_op list" where
  "demo_ops = [Ingest (demo_append True) demo_payload 9, Take, Ingest (demo_append False) demo_payload 9]"

theorem ingest_durable_before_visible_witness:
  "case pipe_run (make_ingress (make_sequencer 5 0) demo_journal) (projr (make_spsc 52 (demo_entry 0 0) 4)) demo_ops of (delivered, s, q) \<Rightarrow>
     contents_of (in_journal s) (delivered @ contents q)"
proof -
  obtain q where q: "make_spsc 52 (demo_entry 0 0) 4 = Inr q" by (simp add: make_spsc_def sum_bind_def validate_capacity_def kMaximumSpscCapacity_def)
  obtain delivered s q' where run: "pipe_run (make_ingress (make_sequencer 5 0) demo_journal) q demo_ops = (delivered, s, q')"
    by (cases "pipe_run (make_ingress (make_sequencer 5 0) demo_journal) q demo_ops")
  have "\<forall>r p t. Ingest r p t \<in> set demo_ops \<longrightarrow> int64_range (cp_price_ticks p)" by (auto simp: demo_ops_def demo_payload_ok)
  from ingest_durable_before_visible [OF demo_created q this run demo_opens] show ?thesis by (simp add: q run)
qed

section \<open>Matching\<close>

lemma fits_less: "spsc_fits q n \<Longrightarrow> k \<le> n \<Longrightarrow> spsc_fits q k"
  by (auto simp: spsc_fits_def linear_def)

lemma precheck_accepted:
  assumes "precheck m c events = Inr required"
  shows "required = required_event_capacity (ms_engine m) (sc_payload c)" "required \<le> length (ms_scratch m)" "required \<noteq> 0"
    "apply_refused (ms_engine m) c (length (ms_scratch m)) = AS_Applied"
  using assms by (auto simp: precheck_def apply_refused_def Let_def not_less split: if_splits)

lemma available_fits:
  assumes "spsc_ok q" "producer_available q = (n, q')" "spsc_fits q k"
  shows "spsc_fits q' k"
  using available_contents [OF assms(1,2)] assms(3) by (simp add: spsc_fits_def)

lemma finish_one_cases:
  assumes ok: "spsc_ok commands" "spsc_ok events" and hd: "contents commands = c # cs"
    and room: "length (contents events) + required \<le> q_capacity events" and fits: "spsc_fits events required"
    and st: "ap_status result = AS_Applied"
    and run: "finish_one m c required commands events result = ret (st, m', commands', events')"
  shows "(st = MS_Progress \<and> contents commands' = cs \<and> spsc_ok commands' \<and> spsc_ok events' \<and> 1 \<le> ap_event_count result \<and> ap_event_count result \<le> required \<and>
      contents events' = contents events @ take (ap_event_count result) (ms_scratch m) \<and>
      m' = m\<lparr>ms_bbo := bbo_publish (bbo_of (se_book (ms_engine m))) (ms_bbo m)\<rparr>) \<or>
    (st = MS_Internal_Invariant_Failure \<and> \<not> (1 \<le> ap_event_count result \<and> ap_event_count result \<le> required) \<and>
      commands' = commands \<and> events' = events \<and> m' = m\<lparr>ms_poisoned := True\<rparr>)"
proof (cases "1 \<le> ap_event_count result \<and> ap_event_count result \<le> required")
  case False
  then show ?thesis using run st by (auto simp: finish_one_def poison_def ret_def)
next
  case True
  let ?vs = "take (ap_event_count result) (ms_scratch m)"
  obtain okp events1 where pu: "try_push_batch events ?vs = (okp, events1)" by fastforce
  have "spsc_fits events (length ?vs)" by (rule fits_less [OF fits]) (use True in auto)
  from fifo.push_law [OF ok(2) this pu] have p: "spsc_ok events1" "okp" "contents events1 = contents events @ ?vs" using room True by auto
  obtain r commands1 where po: "try_pop commands = (r, commands1)" by fastforce
  note l = fifo.pop_law [OF ok(1) po]
  show ?thesis using run st True p l hd pu po by (auto simp: finish_one_def Let_def ret_def)
qed

text \<open>
  C8. One turn of the matcher either makes progress, taking exactly the command at the head of its queue, applying it
  once, publishing its events as one batch behind those already queued and the best prices of the resulting
  book; or it keeps the command in the queue and publishes nothing, with the engine untouched unless the engine
  broke its own event count.  When the events do not fit the turn changes nothing and can be repeated.
\<close>

theorem process_one_exactly_once:
  assumes "spsc_ok commands" "spsc_ok events" "spsc_fits events (length (ms_scratch m))"
    "process_one m commands events = ret (st, m', commands', events')"
  shows "(st = MS_Progress \<and> (\<exists>c n. contents commands = c # contents commands' \<and>
        apply_command (ms_engine m) c (ms_scratch m) = ret (\<lparr>ap_status = AS_Applied, ap_event_count = n\<rparr>, ms_engine m', ms_scratch m') \<and>
        1 \<le> n \<and> contents events' = contents events @ take n (ms_scratch m') \<and>
        ms_bbo m' = bbo_publish (bbo_of (se_book (ms_engine m'))) (ms_bbo m) \<and> \<not> ms_poisoned m')) \<or>
    (st \<noteq> MS_Progress \<and> contents commands' = contents commands \<and> contents events' = contents events \<and> ms_bbo m' = ms_bbo m \<and>
       (m' = m \<and> st \<in> {MS_Poisoned, MS_Input_Empty, MS_Output_Backpressure} \<or>
        ms_poisoned m' \<and> (ms_engine m' = ms_engine m \<or> st = MS_Internal_Invariant_Failure)))"
proof -
  obtain peeked commands1 where pk: "try_peek commands = (peeked, commands1)" by fastforce
  note l = fifo.peek_law [OF assms(1) pk]
  note run = assms(4) [unfolded process_one_def pk]
  consider (poisoned) "ms_poisoned m" | (empty) "\<not> ms_poisoned m" "peeked = None"
    | (refused) c status where "\<not> ms_poisoned m" "peeked = Some c" "precheck m c events = Inl status"
    | (ready) c required where "\<not> ms_poisoned m" "peeked = Some c" "precheck m c events = Inr required"
    by (cases peeked) (auto, metis sum.exhaust)
  then show ?thesis
  proof cases
    case poisoned
    then show ?thesis using run by (auto simp: ret_def)
  next
    case empty
    then show ?thesis using run l by (auto simp: ret_def)
  next
    case refused
    then show ?thesis using run l by (auto simp: ret_def poison_def precheck_def Let_def split: if_splits)
  next
    case (ready c required)
    obtain free events1 where av: "producer_available events = (free, events1)" by fastforce
    note a = fifo.available_law [OF assms(2) av] and p = precheck_accepted [OF ready(3)]
    obtain cs where cs: "contents commands1 = c # cs" using ready(2) l by (cases "contents commands") auto
    show ?thesis
    proof (cases "free < required")
      case True
      then show ?thesis using run ready l a av by (auto simp: ret_def)
    next
      case False
      then obtain result e1 scratch1 where ap: "apply_command (ms_engine m) c (ms_scratch m) = ret (result, e1, scratch1)"
        and fin: "finish_one (m\<lparr>ms_engine := e1, ms_scratch := scratch1\<rparr>) c required commands1 events1 result = ret (st, m', commands', events')"
        using run ready av by (auto simp: run_bind_eq_ret_iff)
      have st: "ap_status result = AS_Applied" using ap p(4) by (auto simp: apply_command_def Let_def run_bind_eq_ret_iff)
      have fits: "spsc_fits events1 required" by (rule fits_less [OF available_fits [OF assms(2) av assms(3)] p(2)])
      have room: "length (contents events1) + required \<le> q_capacity events1" using False a fifo.bounded [OF assms(2)] by simp
      have res: "result = \<lparr>ap_status = AS_Applied, ap_event_count = ap_event_count result\<rparr>" using st by (cases result) simp
      from finish_one_cases [OF _ _ cs room fits st fin] l a
      show ?thesis
        using ap res cs ready(1) l a by (auto intro!: exI [of _ c] exI [of _ "ap_event_count result"])
    qed
  qed
qed

definition demo_commands :: "sequenced_command spsc" where
  "demo_commands = snd (try_push (projr (make_spsc 52 demo_command 4)) demo_command)"

definition demo_events :: "engine_event spsc" where
  "demo_events = projr (make_spsc 64 default_event 8)"

definition demo_matching :: matching where
  "demo_matching = projr (make_matching (Some demo_engine) demo_events)"

lemma demo_progress: "(case process_one demo_matching demo_commands demo_events of
    Some (Inr (st, m, c, e)) \<Rightarrow> st = MS_Progress \<and> outstanding c = 0 \<and> outstanding e = 1 | _ \<Rightarrow> False)"
  by code_simp

lemma demo_queues:
  "spsc_ok demo_commands" "contents demo_commands = [demo_command]" "spsc_ok demo_events" "contents demo_events = []" "q_capacity demo_events = 8"
  "spsc_fits demo_events n" if "n \<le> 8"
proof -
  obtain q where q: "make_spsc 52 demo_command 4 = Inr q" by (simp add: make_spsc_def sum_bind_def validate_capacity_def kMaximumSpscCapacity_def)
  obtain e where e: "make_spsc 64 default_event 8 = Inr e" by (simp add: make_spsc_def sum_bind_def validate_capacity_def kMaximumSpscCapacity_def)
  note mq = make_spsc_ok [OF q] and me = make_spsc_ok [OF e]
  obtain ok q1 where p: "try_push_batch q [demo_command] = (ok, q1)" by fastforce
  have "spsc_fits q (length [demo_command])" using mq by (simp add: spsc_fits_def linear_def)
  from fifo.push_law [OF _ this p] mq have "spsc_ok q1" "contents q1 = [demo_command]" by auto
  then show "spsc_ok demo_commands" "contents demo_commands = [demo_command]" by (simp_all add: demo_commands_def q try_push_def p)
  show "spsc_ok demo_events" "contents demo_events = []" "q_capacity demo_events = 8" using me by (simp_all add: demo_events_def e)
  show "spsc_fits demo_events n" using me that by (simp add: demo_events_def e spsc_fits_def linear_def)
qed

lemma demo_scratch: "length (ms_scratch demo_matching) = 5"
  by code_simp

theorem process_one_exactly_once_witness:
  "\<exists>m commands events. process_one demo_matching demo_commands demo_events = ret (MS_Progress, m, commands, events) \<and>
     [demo_command] = demo_command # contents commands"
proof -
  obtain m commands events where run: "process_one demo_matching demo_commands demo_events = ret (MS_Progress, m, commands, events)"
    using demo_progress by (auto simp: ret_def split: option.splits sum.splits)
  show ?thesis
    using process_one_exactly_once [OF demo_queues(1,3) _ run] demo_queues(2,6) demo_scratch run by auto
qed

text \<open>
  C9. The matcher does not stall: in continuous FIFO trading without self-trade prevention (cancel-taker), a covered command at the head of the queue that is next in
  sequence and whose events fit is carried out in one turn and leaves the queue; the only other outcome is the
  trade buffer overrun by a stop cascade.
\<close>

theorem matcher_makes_progress:
  assumes "spsc_ok commands" "spsc_ok events" "spsc_fits events (length (ms_scratch m))" "engine_ok (ms_engine m)" "\<not> ms_poisoned m"
    "contents commands = c # cs" "refined_tag (cp_tag (sc_payload c))" "precheck m c events = Inr required"
    "length (contents events) + required \<le> q_capacity events"
  shows "process_one m commands events = crash Trade_Buffer_Overflow \<or>
    (\<exists>m' commands' events'. process_one m commands events = ret (MS_Progress, m', commands', events') \<and>
       engine_ok (ms_engine m') \<and> \<not> ms_poisoned m' \<and> contents commands' = cs \<and>
       (\<exists>vs. vs \<noteq> [] \<and> contents events' = contents events @ vs))"
proof -
  obtain peeked commands1 where pk: "try_peek commands = (peeked, commands1)" by fastforce
  note l = fifo.peek_law [OF assms(1) pk]
  obtain free events1 where av: "producer_available events = (free, events1)" by fastforce
  note a = fifo.available_law [OF assms(2) av] and p = precheck_accepted [OF assms(8)]
  have room: "\<not> free < required" using a assms(9) by auto
  have one: "process_one m commands events = run_bind (apply_command (ms_engine m) c (ms_scratch m)) (\<lambda>(result, e1, scratch1).
      finish_one (m\<lparr>ms_engine := e1, ms_scratch := scratch1\<rparr>) c required commands1 events1 result)"
    using assms(5,6,8) l room by (simp add: process_one_def pk av)
  from dispatch_carried_out [OF assms(4,7)] p(1,2) consider
      (over) "dispatch (ms_engine m) c (ms_scratch m) = crash Trade_Buffer_Overflow"
    | (carried) "carried_out (dispatch (ms_engine m) c (ms_scratch m)) (ms_engine m) required (ms_scratch m)" by auto
  then show ?thesis
  proof cases
    case over
    then show ?thesis using p(4) by (simp add: one apply_command_def)
  next
    case carried
    then obtain n e1 evs where d: "dispatch (ms_engine m) c (ms_scratch m) = ret (n, e1, evs)" "engine_ok e1" "1 \<le> n" "n \<le> required"
      "length evs = length (ms_scratch m)" by (auto simp: carried_out_def)
    let ?m = "m\<lparr>ms_engine := advance e1 (sc_logical_time c), ms_scratch := evs\<rparr>" and ?r = "\<lparr>ap_status = AS_Applied, ap_event_count = n\<rparr>"
    have fin: "process_one m commands events = finish_one ?m c required commands1 events1 ?r"
      using p(4) d(1) by (simp add: one apply_command_def)
    let ?vs = "take n evs"
    obtain okp events2 where pu: "try_push_batch events1 ?vs = (okp, events2)" by fastforce
    have lv: "length ?vs = n" using d(4,5) p(2) by simp
    have "spsc_fits events1 (length ?vs)"
      by (rule fits_less [OF available_fits [OF assms(2) av assms(3)]]) (use lv d(4) p(2) in simp)
    from fifo.push_law [OF _ this pu] have e: "okp" "contents events2 = contents events @ ?vs" using a assms(9) d(4) lv by auto
    obtain r commands2 where po: "try_pop commands1 = (r, commands2)" by fastforce
    have "?vs \<noteq> []" using lv d(3) by (metis list.size(3) not_one_le_zero)
    moreover have "r = Some c" "contents commands2 = cs" using fifo.pop_law [OF _ po] l assms(6) by auto
    ultimately show ?thesis
      using fin d(2-4) e po pu assms(5) by (auto simp: finish_one_def)
  qed
qed

theorem matcher_makes_progress_witness:
  "process_one demo_matching demo_commands demo_events = crash Trade_Buffer_Overflow \<or>
   (\<exists>m' commands' events'. process_one demo_matching demo_commands demo_events = ret (MS_Progress, m', commands', events') \<and>
      engine_ok (ms_engine m') \<and> contents commands' = [])"
proof -
  have e: "ms_engine demo_matching = demo_engine" "\<not> ms_poisoned demo_matching"
    using demo_queues(5) [of 0] by (simp_all add: demo_matching_def make_matching_def maximum_event_capacity_def demo_engine_def)
  have "precheck demo_matching demo_command demo_events = Inr 1" by code_simp
  moreover have "cp_tag (sc_payload demo_command) = CT_Cancel" by code_simp
  ultimately show ?thesis
    using matcher_makes_progress [of demo_commands demo_events demo_matching demo_command "[]" 1] demo_queues [of 5] demo_scratch demo_engine_ok e
    by (auto simp: refined_tag_def)
qed

end
