(* ===== verification/Pipeline_Snapshot.thy ===== *)
theory Pipeline_Snapshot
  imports Snapshot_File_Properties Pipeline_Properties Replay_Properties
begin

text \<open>
  The matcher's own snapshot (\<^verbatim>\<open>MatchingStage::save_snapshot\<close> of \<^verbatim>\<open>pipeline.cpp\<close>): it is taken at a command boundary, at the point the engine's
  clock is at, and replay accepts the engine loaded from it there unless its sequence numbers are exhausted.
\<close>

definition snapshot_point_of :: "engine \<Rightarrow> snapshot_point" where
  "snapshot_point_of e = \<lparr>sp_sequence = (if se_sequence_exhausted e then se_next_sequence e else se_next_sequence e - 1),
     sp_logical_time = se_last_logical_time e\<rparr>"

definition stage_save_snapshot :: "save_results \<Rightarrow> string \<Rightarrow> matching \<Rightarrow> u64 \<Rightarrow> directory \<Rightarrow> (snapshot_error \<times> matching \<times> u64 \<times> directory) option" where
  "stage_save_snapshot r path m counter d =
     (if ms_poisoned m then Some (SN_Invalid_State, m, counter, d)
      else case save_snapshot_atomic r path (ms_engine m) (snapshot_point_of (ms_engine m)) counter d of
             None \<Rightarrow> None
           | Some (err, e, counter1, d1) \<Rightarrow> Some (err, m\<lparr>ms_engine := e\<rparr>, counter1, d1))"

lemma save_keeps_clock:
  assumes "save_snapshot_atomic r path e p c d = Some (err, e1, c1, d1)"
  shows "se_next_sequence e1 = se_next_sequence e" "se_last_logical_time e1 = se_last_logical_time e"
    "se_sequence_exhausted e1 = se_sequence_exhausted e"
proof -
  obtain x where "encode_snapshot e p = Some (x, e1)"
    using assms by (auto simp: save_snapshot_atomic_def Let_def split: option.splits sum.splits prod.splits)
  then have "\<exists>b. e1 = e\<lparr>se_book := b\<rparr>" by (auto simp: encode_snapshot_def Let_def split: option.splits if_splits intro: exI [of _ "se_book e"])
  then show "se_next_sequence e1 = se_next_sequence e" "se_last_logical_time e1 = se_last_logical_time e"
    "se_sequence_exhausted e1 = se_sequence_exhausted e" by auto
qed

text \<open>Which loaded engines the state check of replay lets pass: all but the exhausted ones and those no command sequence leads to.\<close>

definition resumable :: "engine \<Rightarrow> bool" where
  "resumable e \<longleftrightarrow> \<not> se_sequence_exhausted e \<and> se_next_sequence e \<noteq> 0 \<and> (se_next_sequence e = 1 \<longrightarrow> se_last_logical_time e = 0)"

lemma check_boundary_errors: "check_boundary j s t \<noteq> Some RE_Engine_State_Mismatch" "check_boundary j s t \<noteq> Some RE_Unverifiable_Boundary"
  by (auto simp: check_boundary_def Let_def split: sum.splits if_splits)

lemma replay_start_state:
  fixes e defines "p \<equiv> snapshot_point_of e"
  shows "replay_start j e (sp_sequence p) (sp_logical_time p) n \<in> {Inl RE_Engine_State_Mismatch, Inl RE_Unverifiable_Boundary} \<longleftrightarrow> \<not> resumable e"
proof (cases "se_sequence_exhausted e")
  case True
  then show ?thesis by (simp add: replay_start_def resumable_def)
next
  case False
  have p: "sp_sequence p = se_next_sequence e - 1" "sp_logical_time p = se_last_logical_time e" using False by (simp_all add: p_def snapshot_point_of_def)
  have w: "se_next_sequence e - 1 = - 1 \<longleftrightarrow> se_next_sequence e = 0" "se_next_sequence e - 1 = 0 \<longleftrightarrow> se_next_sequence e = 1" by auto
  show ?thesis
  proof (cases "resumable e")
    case True
    then have "\<not> (sp_sequence p = - 1 \<or> se_sequence_exhausted e)" "snapshot_matches e (sp_sequence p) (sp_logical_time p)"
      using w by (auto simp: resumable_def snapshot_matches_def p)
    then show ?thesis using True check_boundary_errors [of j "sp_sequence p" "sp_logical_time p"]
      by (auto simp: replay_start_def Let_def split: option.splits if_splits)
  next
    case not: False
    then have "sp_sequence p = - 1 \<or> \<not> snapshot_matches e (sp_sequence p) (sp_logical_time p)"
      using False w by (auto simp: resumable_def snapshot_matches_def p)
    then show ?thesis using not False by (auto simp: replay_start_def)
  qed
qed

text \<open>On a journal that holds the commands up to the engine's clock, replay starts behind them.\<close>

lemma replay_starts_at_point:
  assumes h: "holds_numbered j (cs @ ds)" "cs \<noteq> []"
    and e: "se_next_sequence e = j_base_sequence j + word_of_nat (length cs)" "se_last_logical_time e = sc_logical_time (last cs)"
      "\<not> se_sequence_exhausted e" "maximum_event_capacity e \<le> n"
  shows "replay_start j e (sp_sequence (snapshot_point_of e)) (sp_logical_time (snapshot_point_of e)) n = Inr (word_of_nat (length cs))"
proof -
  have "sp_sequence (snapshot_point_of e) = sc_sequence (last cs)"
    using holds_last(1) [OF h] e(1,3) by (simp add: snapshot_point_of_def) (metis add_diff_cancel_right')
  moreover have "sp_logical_time (snapshot_point_of e) = sc_logical_time (last cs)" using e(2) by (simp add: snapshot_point_of_def)
  ultimately show ?thesis using replay_start_resume [OF h e(1,3,2,4)] by simp
qed

text \<open>
  C15. What the matcher saves can be recovered, for a book within the bounds of the format: after a snapshot that reports success, loading it gives the
  matcher's engine and the point its clock is at.  The state check of replay refuses the loaded engine exactly when its sequence numbers are exhausted, its
  next sequence number is 0, or it has applied nothing but its time is not 0; and on every journal that holds the commands up to the
  engine's clock and possibly more, replay of a not exhausted engine into a large enough buffer starts exactly behind them.
\<close>

theorem stage_snapshot_recovers:
  assumes st: "storable (se_book (ms_engine m))" and pa: "parse_path path = Inr name" and an: "answered (sv_write r)"
    and sv: "stage_save_snapshot r path m c d = Some (SN_None, m1, c1, d1)" and l: "loads_entry l (dir_entries d1) name"
  shows "\<exists>e2 p. load_snapshot l path = Some (Inr (e2, p)) \<and> same_engine (ms_engine m1) e2 \<and> storable (se_book e2) \<and> p = snapshot_point_of e2 \<and>
    (\<forall>j n. replay_start j e2 (sp_sequence p) (sp_logical_time p) n \<in> {Inl RE_Engine_State_Mismatch, Inl RE_Unverifiable_Boundary} \<longleftrightarrow>
      se_sequence_exhausted e2 \<or> se_next_sequence e2 = 0 \<or> se_next_sequence e2 = 1 \<and> se_last_logical_time e2 \<noteq> 0) \<and>
    (\<forall>j cs ds n. holds_numbered j (cs @ ds) \<and> cs \<noteq> [] \<and> se_next_sequence e2 = j_base_sequence j + word_of_nat (length cs) \<and>
      se_last_logical_time e2 = sc_logical_time (last cs) \<and> \<not> se_sequence_exhausted e2 \<and> maximum_event_capacity e2 \<le> n \<longrightarrow>
      replay_start j e2 (sp_sequence p) (sp_logical_time p) n = Inr (word_of_nat (length cs)))"
proof -
  let ?e = "ms_engine m" and ?p = "snapshot_point_of (ms_engine m)"
  obtain e1 where s: "save_snapshot_atomic r path ?e ?p c d = Some (SN_None, e1, c1, d1)" "m1 = m\<lparr>ms_engine := e1\<rparr>"
    using sv by (auto simp: stage_save_snapshot_def split: if_splits option.splits)
  obtain e2 where e2: "load_snapshot l path = Some (Inr (e2, ?p))" "same_engine e1 e2" "storable (se_book e2)"
    using saved_snapshot_loads [OF st pa an s(1) l] by blast
  have "se_next_sequence e2 = se_next_sequence ?e" "se_last_logical_time e2 = se_last_logical_time ?e" "se_sequence_exhausted e2 = se_sequence_exhausted ?e"
    using e2(2) save_keeps_clock [OF s(1)] by (auto simp: same_engine_def)
  then have p: "?p = snapshot_point_of e2" by (simp add: snapshot_point_of_def)
  have "load_snapshot l path = Some (Inr (e2, snapshot_point_of e2))" "same_engine (ms_engine m1) e2" using e2 s(2) p by simp_all
  moreover have "replay_start j e2 (sp_sequence (snapshot_point_of e2)) (sp_logical_time (snapshot_point_of e2)) n
      \<in> {Inl RE_Engine_State_Mismatch, Inl RE_Unverifiable_Boundary} \<longleftrightarrow>
      se_sequence_exhausted e2 \<or> se_next_sequence e2 = 0 \<or> se_next_sequence e2 = 1 \<and> se_last_logical_time e2 \<noteq> 0" for j n
    unfolding replay_start_state by (auto simp: resumable_def)
  ultimately show ?thesis using e2(3) replay_starts_at_point by blast
qed

definition demo_stage :: matching where
  "demo_stage = \<lparr>ms_engine = demo_engine, ms_scratch = [], ms_bbo = empty_cells, ms_poisoned = False\<rparr>"

theorem stage_snapshot_recovers_witness:
  "\<exists>bytes m1 c1 d1 e2. \<forall>j n. stage_save_snapshot demo_save ''/var/book'' demo_stage 7 demo_directory = Some (SN_None, m1, c1, d1) \<and>
     dir_entries d1 ''book'' = Some bytes \<and> load_snapshot (demo_load bytes) ''/var/book'' = Some (Inr (e2, demo_point)) \<and>
     replay_start j e2 6 40 n \<notin> {Inl RE_Engine_State_Mismatch, Inl RE_Unverifiable_Boundary}"
proof -
  have p: "snapshot_point_of demo_engine = demo_point" by (simp add: snapshot_point_of_def demo_engine_def demo_point_def)
  obtain ms ep where en: "encode_snapshot demo_engine demo_point =
      Some (Inr (encode_bytes (demo_engine\<lparr>se_book := visited (se_book demo_engine) ms ep\<rparr>) demo_point), demo_engine\<lparr>se_book := visited (se_book demo_engine) ms ep\<rparr>)"
    (is "_ = Some (Inr ?bytes, ?e1)") by (rule encode_storable [OF demo_storable(1,3,2)])
  obtain c1 d1 where sv: "save_snapshot_atomic demo_save ''/var/book'' demo_engine demo_point 7 demo_directory = Some (SN_None, ?e1, c1, d1)"
    "dir_entries d1 ''book'' = Some ?bytes"
    using save_result [OF en demo_path demo_answered(1), of 7 demo_directory] demo_saves by auto
  have l: "loads_entry (demo_load ?bytes) (dir_entries d1) ''book''"
    unfolding loads_entry_def using sv(2) demo_answered(2) [of ?bytes] by (simp add: demo_load_def Let_def)
  have ss: "stage_save_snapshot demo_save ''/var/book'' demo_stage 7 demo_directory = Some (SN_None, demo_stage\<lparr>ms_engine := ?e1\<rparr>, c1, d1)"
    using sv(1) p by (simp add: stage_save_snapshot_def demo_stage_def)
  have "storable (se_book (ms_engine demo_stage))" using demo_storable(1) by (simp add: demo_stage_def)
  from stage_snapshot_recovers [OF this demo_path demo_answered(1) ss l] obtain e2 q
    where e2: "load_snapshot (demo_load ?bytes) ''/var/book'' = Some (Inr (e2, q))" "same_engine ?e1 e2" "q = snapshot_point_of e2"
      and rs: "\<forall>j n. replay_start j e2 (sp_sequence q) (sp_logical_time q) n \<in> {Inl RE_Engine_State_Mismatch, Inl RE_Unverifiable_Boundary} \<longleftrightarrow>
        se_sequence_exhausted e2 \<or> se_next_sequence e2 = 0 \<or> se_next_sequence e2 = 1 \<and> se_last_logical_time e2 \<noteq> 0" by auto
  have c: "se_next_sequence e2 = 7" "se_last_logical_time e2 = 40" "\<not> se_sequence_exhausted e2" using e2(2) by (simp_all add: same_engine_def demo_engine_def)
  then have q: "q = demo_point" using e2(3) by (simp add: snapshot_point_of_def demo_point_def)
  have "replay_start j e2 6 40 n \<notin> {Inl RE_Engine_State_Mismatch, Inl RE_Unverifiable_Boundary}" for j n
    using rs [rule_format, of j n] c by (simp add: q demo_point_def)
  then show ?thesis using ss sv(2) e2(1) q by blast
qed

end
