(* ===== verification/Runtime_Operations.thy ===== *)
theory Runtime_Operations
  imports Pipeline
begin

text \<open>
  The operational state of a running pipeline (\<^verbatim>\<open>runtime_operations.hpp\<close>, \<^verbatim>\<open>runtime_operations.cpp\<close>): its lifecycle, its
  health and saturating counters, driven by the statuses the stages return.
\<close>

section \<open>The state\<close>

datatype runtime_lifecycle = RL_Starting | RL_Running | RL_Draining | RL_Stopped | RL_Failed

datatype runtime_health = RH_Healthy | RH_Backpressured | RH_Capacity_Exhausted | RH_Recovery_Required | RH_Corruption

text \<open>The enumerators in their order, as the code compares them.\<close>

fun health_rank :: "runtime_health \<Rightarrow> nat" where
  "health_rank RH_Healthy = 0" | "health_rank RH_Backpressured = 1" | "health_rank RH_Capacity_Exhausted = 2"
| "health_rank RH_Recovery_Required = 3" | "health_rank RH_Corruption = 4"

lemma health_rank_inj: "health_rank a = health_rank b \<Longrightarrow> a = b"
  by (cases a; cases b) simp_all

instantiation runtime_health :: linorder
begin

definition less_eq_runtime_health :: "runtime_health \<Rightarrow> runtime_health \<Rightarrow> bool" where
  "less_eq_runtime_health a b \<longleftrightarrow> health_rank a \<le> health_rank b"

definition less_runtime_health :: "runtime_health \<Rightarrow> runtime_health \<Rightarrow> bool" where
  "less_runtime_health a b \<longleftrightarrow> health_rank a < health_rank b"

instance
  by standard (auto simp: less_eq_runtime_health_def less_runtime_health_def intro: health_rank_inj)

end

record runtime_operations =
  ro_lifecycle :: runtime_lifecycle
  ro_health :: runtime_health
  ro_accepted_commands :: u64
  ro_matched_commands :: u64
  ro_published_events :: u64
  ro_backpressure_events :: u64
  ro_capacity_events :: u64
  ro_failure_events :: u64

definition initial_operations :: runtime_operations where
  "initial_operations = \<lparr>ro_lifecycle = RL_Starting, ro_health = RH_Healthy, ro_accepted_commands = 0, ro_matched_commands = 0,
     ro_published_events = 0, ro_backpressure_events = 0, ro_capacity_events = 0, ro_failure_events = 0\<rparr>"

definition increment :: "u64 \<Rightarrow> u64" where
  "increment v = (if v \<noteq> - 1 then v + 1 else v)"

section \<open>Lifecycle\<close>

definition ro_start :: "runtime_operations \<Rightarrow> bool \<times> runtime_operations" where
  "ro_start s = (if ro_lifecycle s \<noteq> RL_Starting then (False, s) else (True, s\<lparr>ro_lifecycle := RL_Running\<rparr>))"

definition begin_shutdown :: "runtime_operations \<Rightarrow> bool \<times> runtime_operations" where
  "begin_shutdown s = (if ro_lifecycle s \<noteq> RL_Running then (False, s) else (True, s\<lparr>ro_lifecycle := RL_Draining\<rparr>))"

definition complete_shutdown :: "runtime_operations \<Rightarrow> bool \<Rightarrow> bool \<Rightarrow> bool \<times> runtime_operations" where
  "complete_shutdown s command_queue_empty event_queue_empty =
     (if ro_lifecycle s \<noteq> RL_Draining \<or> \<not> command_queue_empty \<or> \<not> event_queue_empty then (False, s)
      else (True, s\<lparr>ro_lifecycle := RL_Stopped\<rparr>))"

definition raise_health :: "runtime_health \<Rightarrow> runtime_operations \<Rightarrow> runtime_operations" where
  "raise_health h s = (if h > ro_health s then s\<lparr>ro_health := h\<rparr> else s)"

definition ro_fail :: "runtime_health \<Rightarrow> runtime_operations \<Rightarrow> runtime_operations" where
  "ro_fail h s = (let s1 = raise_health h s in s1\<lparr>ro_failure_events := increment (ro_failure_events s1), ro_lifecycle := RL_Failed\<rparr>)"

definition accepts_ingress :: "runtime_operations \<Rightarrow> bool" where
  "accepts_ingress s \<longleftrightarrow> ro_lifecycle s = RL_Running \<and> ro_health s \<noteq> RH_Recovery_Required \<and> ro_health s \<noteq> RH_Corruption"

section \<open>Observations\<close>

definition count_backpressure :: "runtime_operations \<Rightarrow> runtime_operations" where
  "count_backpressure s = (let s1 = raise_health RH_Backpressured s in s1\<lparr>ro_backpressure_events := increment (ro_backpressure_events s1)\<rparr>)"

definition count_capacity :: "runtime_operations \<Rightarrow> runtime_operations" where
  "count_capacity s = (let s1 = raise_health RH_Capacity_Exhausted s in s1\<lparr>ro_capacity_events := increment (ro_capacity_events s1)\<rparr>)"

definition observe_ingress :: "runtime_operations \<Rightarrow> ingress_status \<Rightarrow> runtime_operations" where
  "observe_ingress s status = (case status of
     IS_Progress \<Rightarrow> s\<lparr>ro_accepted_commands := increment (ro_accepted_commands s)\<rparr>
   | IS_Queue_Backpressure \<Rightarrow> count_backpressure s
   | IS_Journal_Full \<Rightarrow> count_capacity s
   | IS_Sequence_Exhausted \<Rightarrow> count_capacity s
   | IS_Persistence_Failure \<Rightarrow> ro_fail RH_Recovery_Required s
   | IS_Commit_Indeterminate \<Rightarrow> ro_fail RH_Recovery_Required s
   | IS_Recovery_Required \<Rightarrow> ro_fail RH_Recovery_Required s
   | IS_Invalid_Payload \<Rightarrow> s\<lparr>ro_failure_events := increment (ro_failure_events s)\<rparr>
   | IS_Decreasing_Logical_Time \<Rightarrow> s\<lparr>ro_failure_events := increment (ro_failure_events s)\<rparr>
   | IS_Stopped_Poisoned \<Rightarrow> ro_fail RH_Corruption s)"

definition observe_matching :: "runtime_operations \<Rightarrow> matching_status \<Rightarrow> runtime_operations" where
  "observe_matching s status = (case status of
     MS_Progress \<Rightarrow> s\<lparr>ro_matched_commands := increment (ro_matched_commands s)\<rparr>
   | MS_Input_Empty \<Rightarrow> s
   | MS_Output_Backpressure \<Rightarrow> count_backpressure s
   | MS_Sequence_Exhausted \<Rightarrow> count_capacity s
   | MS_Impossible_Event_Capacity \<Rightarrow> count_capacity s
   | MS_Invalid_Command \<Rightarrow> ro_fail RH_Corruption s
   | MS_Invalid_Sequence \<Rightarrow> ro_fail RH_Corruption s
   | MS_Decreasing_Logical_Time \<Rightarrow> ro_fail RH_Corruption s
   | MS_Internal_Invariant_Failure \<Rightarrow> ro_fail RH_Corruption s
   | MS_Poisoned \<Rightarrow> ro_fail RH_Corruption s)"

definition observe_publication :: "runtime_operations \<Rightarrow> publication_status \<Rightarrow> runtime_operations" where
  "observe_publication s status = (if status = PS_Progress then s\<lparr>ro_published_events := increment (ro_published_events s)\<rparr> else s)"

fun runtime_lifecycle_name :: "runtime_lifecycle \<Rightarrow> string" where
  "runtime_lifecycle_name RL_Starting = ''starting''" | "runtime_lifecycle_name RL_Running = ''running''"
| "runtime_lifecycle_name RL_Draining = ''draining''" | "runtime_lifecycle_name RL_Stopped = ''stopped''"
| "runtime_lifecycle_name RL_Failed = ''failed''"

fun runtime_health_name :: "runtime_health \<Rightarrow> string" where
  "runtime_health_name RH_Healthy = ''healthy''" | "runtime_health_name RH_Backpressured = ''backpressured''"
| "runtime_health_name RH_Capacity_Exhausted = ''capacity_exhausted''" | "runtime_health_name RH_Recovery_Required = ''recovery_required''"
| "runtime_health_name RH_Corruption = ''corruption''"

section \<open>The state machine\<close>

datatype runtime_event = R_Start | R_Begin_Shutdown | R_Complete bool bool
  | R_Ingress ingress_status | R_Matching matching_status | R_Publication publication_status

fun runtime_step :: "runtime_operations \<Rightarrow> runtime_event \<Rightarrow> runtime_operations" where
  "runtime_step s R_Start = snd (ro_start s)"
| "runtime_step s R_Begin_Shutdown = snd (begin_shutdown s)"
| "runtime_step s (R_Complete c e) = snd (complete_shutdown s c e)"
| "runtime_step s (R_Ingress st) = observe_ingress s st"
| "runtime_step s (R_Matching st) = observe_matching s st"
| "runtime_step s (R_Publication st) = observe_publication s st"

inductive lifecycle_step :: "runtime_lifecycle \<Rightarrow> runtime_lifecycle \<Rightarrow> bool" where
  starts: "lifecycle_step RL_Starting RL_Running"
| drains: "lifecycle_step RL_Running RL_Draining"
| stops: "lifecycle_step RL_Draining RL_Stopped"
| fails: "lifecycle_step l RL_Failed"

inductive_cases lifecycle_stepE: "lifecycle_step l l'"

lemmas observe_defs = observe_ingress_def observe_matching_def observe_publication_def count_backpressure_def count_capacity_def
  ro_fail_def raise_health_def ro_start_def begin_shutdown_def complete_shutdown_def Let_def

lemma runtime_step_lifecycle: "ro_lifecycle (runtime_step s e) = ro_lifecycle s \<or> lifecycle_step (ro_lifecycle s) (ro_lifecycle (runtime_step s e))"
  by (cases e) (auto simp: observe_defs intro: lifecycle_step.intros split: ingress_status.splits matching_status.splits)

lemma runtime_step_health: "ro_health s \<le> ro_health (runtime_step s e)"
  by (cases e) (auto simp: observe_defs split: ingress_status.splits matching_status.splits)

lemma runtime_run_health: "ro_health s \<le> ro_health (foldl runtime_step s es)"
  by (induction es arbitrary: s) (auto intro: order_trans runtime_step_health)

lemma runtime_run_lifecycle: "lifecycle_step\<^sup>*\<^sup>* (ro_lifecycle s) (ro_lifecycle (foldl runtime_step s es))"
proof (induction es arbitrary: s)
  case (Cons e es)
  have "lifecycle_step\<^sup>*\<^sup>* (ro_lifecycle s) (ro_lifecycle (runtime_step s e))" using runtime_step_lifecycle [of s e] by auto
  then show ?case using Cons [of "runtime_step s e"] by (simp add: rtranclp_trans)
qed simp

lemma failed_stays: "ro_lifecycle s = RL_Failed \<Longrightarrow> ro_lifecycle (foldl runtime_step s es) = RL_Failed"
proof (induction es arbitrary: s)
  case (Cons e es)
  have "ro_lifecycle (runtime_step s e) = RL_Failed" using runtime_step_lifecycle [of s e] Cons.prems by (auto elim: lifecycle_stepE)
  then show ?case using Cons.IH by simp
qed simp

text \<open>Statuses after which the pipeline must not accept commands again.\<close>

definition fatal :: "runtime_event \<Rightarrow> bool" where
  "fatal e \<longleftrightarrow> e \<in> {R_Ingress IS_Persistence_Failure, R_Ingress IS_Commit_Indeterminate, R_Ingress IS_Recovery_Required,
     R_Ingress IS_Stopped_Poisoned, R_Matching MS_Invalid_Command, R_Matching MS_Invalid_Sequence,
     R_Matching MS_Decreasing_Logical_Time, R_Matching MS_Internal_Invariant_Failure, R_Matching MS_Poisoned}"

lemma fatal_fails: "fatal e \<Longrightarrow> ro_lifecycle (runtime_step s e) = RL_Failed"
  by (auto simp: fatal_def observe_defs)

text \<open>
  C36. The runtime state machine: over any sequence of lifecycle calls and observed statuses health never improves, the
  lifecycle moves only forward or to failed, and once a fatal status was observed the pipeline has failed for good
  and never accepts a command again.
\<close>

theorem runtime_failure_is_final:
  "ro_health s \<le> ro_health (foldl runtime_step s es) \<and>
   lifecycle_step\<^sup>*\<^sup>* (ro_lifecycle s) (ro_lifecycle (foldl runtime_step s es)) \<and>
   (fatal e \<longrightarrow> ro_lifecycle (foldl runtime_step s (es @ e # fs)) = RL_Failed \<and> \<not> accepts_ingress (foldl runtime_step s (es @ e # fs)))"
proof (intro conjI impI)
  show "ro_health s \<le> ro_health (foldl runtime_step s es)" by (rule runtime_run_health)
  show "lifecycle_step\<^sup>*\<^sup>* (ro_lifecycle s) (ro_lifecycle (foldl runtime_step s es))" by (rule runtime_run_lifecycle)
  assume "fatal e"
  then show f: "ro_lifecycle (foldl runtime_step s (es @ e # fs)) = RL_Failed" by (simp add: failed_stays fatal_fails)
  then show "\<not> accepts_ingress (foldl runtime_step s (es @ e # fs))" by (simp add: accepts_ingress_def)
qed

theorem runtime_failure_is_final_witness:
  "ro_lifecycle (foldl runtime_step initial_operations ([R_Start, R_Ingress IS_Progress] @ R_Ingress IS_Commit_Indeterminate # [R_Start])) = RL_Failed"
  using runtime_failure_is_final [of initial_operations "[R_Start, R_Ingress IS_Progress]" "R_Ingress IS_Commit_Indeterminate" "[R_Start]"]
  by (simp add: fatal_def)

end
