(* ===== verification/Runtime_Report.thy ===== *)
theory Runtime_Report
  imports Runtime_Operations Journal_Segments
begin

text \<open>
  The health report of a running engine as JSON text (\<^verbatim>\<open>runtime_health_json\<close>), and the pieces of such text.  Failed allocations are not
  modelled, so that the text always exists.
\<close>

definition quoted :: "string \<Rightarrow> string" where
  "quoted text = [CHR 0x22] @ text @ [CHR 0x22]"

definition json_field :: "string \<Rightarrow> string \<Rightarrow> string" where
  "json_field name text = quoted name @ '':'' @ text"

fun comma_separated :: "string list \<Rightarrow> string" where
  "comma_separated [] = []"
| "comma_separated [x] = x"
| "comma_separated (x # y # xs) = x @ '','' @ comma_separated (y # xs)"

definition json_object :: "string list \<Rightarrow> string" where
  "json_object members = ''{'' @ comma_separated members @ ''}''"

definition json_number :: "string \<Rightarrow> u64 \<Rightarrow> string" where
  "json_number name v = json_field name (decimal (unat v))"

definition runtime_health_json :: "runtime_operations \<Rightarrow> string option" where
  "runtime_health_json s = Some (json_object
     [json_field ''schema_version'' ''1'',
      json_field ''lifecycle'' (quoted (runtime_lifecycle_name (ro_lifecycle s))),
      json_field ''health'' (quoted (runtime_health_name (ro_health s))),
      json_number ''accepted_commands'' (ro_accepted_commands s),
      json_number ''matched_commands'' (ro_matched_commands s),
      json_number ''published_events'' (ro_published_events s),
      json_number ''backpressure_events'' (ro_backpressure_events s),
      json_number ''capacity_events'' (ro_capacity_events s),
      json_number ''failure_events'' (ro_failure_events s)])"

end
