(* ===== verification/Runtime_Config.thy ===== *)
theory Runtime_Config
  imports Gateway Journal_Segments Snapshot Pipeline
begin

text \<open>
  The configuration of a running engine (\<^verbatim>\<open>runtime_config.hpp\<close>, \<^verbatim>\<open>runtime_config.cpp\<close>): entries of the form \<^verbatim>\<open>name=value\<close>, each field exactly once,
  checked against the limits of the components they configure.  On the 64-bit targets of the program \<^verbatim>\<open>size_t\<close> has the width of the
  values, so that the comparisons with its limit never fail.  Exceptions of the string copies are not modelled.
\<close>

datatype runtime_config_field = RF_None | RF_Minimum_Price | RF_Tick_Count | RF_Max_Orders | RF_Max_Quantity | RF_Command_Queue_Capacity
  | RF_Event_Queue_Capacity | RF_Journal_Segment_Capacity | RF_Journal_Prefix | RF_Snapshot_Path | RF_Max_Lanes | RF_Max_Notional
  | RF_Max_Orders_Per_Second

datatype runtime_config_error_code = RC_None | RC_Malformed_Entry | RC_Unknown_Field | RC_Duplicate_Field | RC_Missing_Field
  | RC_Invalid_Value | RC_Invalid_Relationship

type_synonym runtime_config_error = "runtime_config_error_code \<times> runtime_config_field"

record runtime_config =
  rc_minimum_price :: price
  rc_tick_count :: u32
  rc_max_orders :: u64
  rc_max_quantity :: quantity
  rc_command_queue_capacity :: u64
  rc_event_queue_capacity :: u64
  rc_journal_segment_capacity :: u64
  rc_journal_prefix :: string
  rc_snapshot_path :: string
  rc_max_lanes :: u64
  rc_max_notional :: u64
  rc_max_orders_per_second :: u64

definition empty_config :: runtime_config where
  "empty_config = \<lparr>rc_minimum_price = 0, rc_tick_count = 0, rc_max_orders = 0, rc_max_quantity = 0, rc_command_queue_capacity = 0,
     rc_event_queue_capacity = 0, rc_journal_segment_capacity = 0, rc_journal_prefix = [], rc_snapshot_path = [], rc_max_lanes = 0,
     rc_max_notional = 0, rc_max_orders_per_second = 0\<rparr>"

definition runtime_api_compatible :: "u32 \<Rightarrow> u32 \<Rightarrow> bool" where
  "runtime_api_compatible major minor \<longleftrightarrow> major = 1 \<and> minor \<le> 0"

fun runtime_config_field_name :: "runtime_config_field \<Rightarrow> string" where
  "runtime_config_field_name RF_None = ''none''"
| "runtime_config_field_name RF_Minimum_Price = ''minimum-price''"
| "runtime_config_field_name RF_Tick_Count = ''tick-count''"
| "runtime_config_field_name RF_Max_Orders = ''max-orders''"
| "runtime_config_field_name RF_Max_Quantity = ''max-quantity''"
| "runtime_config_field_name RF_Command_Queue_Capacity = ''command-queue-capacity''"
| "runtime_config_field_name RF_Event_Queue_Capacity = ''event-queue-capacity''"
| "runtime_config_field_name RF_Journal_Segment_Capacity = ''journal-segment-capacity''"
| "runtime_config_field_name RF_Journal_Prefix = ''journal-prefix''"
| "runtime_config_field_name RF_Snapshot_Path = ''snapshot-path''"
| "runtime_config_field_name RF_Max_Lanes = ''max-lanes''"
| "runtime_config_field_name RF_Max_Notional = ''max-notional''"
| "runtime_config_field_name RF_Max_Orders_Per_Second = ''max-orders-per-second''"

fun runtime_config_error_message :: "runtime_config_error_code \<Rightarrow> string" where
  "runtime_config_error_message RC_None = ''none''"
| "runtime_config_error_message RC_Malformed_Entry = ''malformed configuration entry''"
| "runtime_config_error_message RC_Unknown_Field = ''unknown configuration field''"
| "runtime_config_error_message RC_Duplicate_Field = ''duplicate configuration field''"
| "runtime_config_error_message RC_Missing_Field = ''missing configuration field''"
| "runtime_config_error_message RC_Invalid_Value = ''invalid configuration value''"
| "runtime_config_error_message RC_Invalid_Relationship = ''invalid configuration relationship''"

section \<open>Fields and values\<close>

definition field_from_name :: "string \<Rightarrow> runtime_config_field" where
  "field_from_name name =
     (if name = ''minimum-price'' then RF_Minimum_Price
      else if name = ''tick-count'' then RF_Tick_Count
      else if name = ''max-orders'' then RF_Max_Orders
      else if name = ''max-quantity'' then RF_Max_Quantity
      else if name = ''command-queue-capacity'' then RF_Command_Queue_Capacity
      else if name = ''event-queue-capacity'' then RF_Event_Queue_Capacity
      else if name = ''journal-segment-capacity'' then RF_Journal_Segment_Capacity
      else if name = ''journal-prefix'' then RF_Journal_Prefix
      else if name = ''snapshot-path'' then RF_Snapshot_Path
      else if name = ''max-lanes'' then RF_Max_Lanes
      else if name = ''max-notional'' then RF_Max_Notional
      else if name = ''max-orders-per-second'' then RF_Max_Orders_Per_Second
      else RF_None)"

definition config_fields :: "runtime_config_field list" where
  "config_fields = [RF_Minimum_Price, RF_Tick_Count, RF_Max_Orders, RF_Max_Quantity, RF_Command_Queue_Capacity, RF_Event_Queue_Capacity,
     RF_Journal_Segment_Capacity, RF_Journal_Prefix, RF_Snapshot_Path, RF_Max_Lanes, RF_Max_Notional, RF_Max_Orders_Per_Second]"

definition parse_integer :: "string \<Rightarrow> u64 option" where
  "parse_integer text =
     (if text = [] \<or> hd text = CHR ''+'' \<or> hd text = CHR ''-'' \<or> length text > 1 \<and> hd text = CHR ''0'' then None
      else from_chars text)"

text \<open>\<^verbatim>\<open>std::from_chars\<close> for a signed 64-bit integer: an optional minus sign and digits.\<close>

definition from_chars_signed :: "string \<Rightarrow> int option" where
  "from_chars_signed text =
     (let negative = (text \<noteq> [] \<and> hd text = CHR ''-''); digits = (if negative then tl text else text);
          value = (if negative then - int (digits_value digits) else int (digits_value digits))
      in if digits \<noteq> [] \<and> list_all is_digit digits \<and> kInt64Min \<le> value \<and> value \<le> kInt64Max then Some value else None)"

definition parse_signed :: "string \<Rightarrow> int option" where
  "parse_signed text =
     (if text = [] \<or> hd text = CHR ''+'' \<or> text = ''-0'' \<or> length text > 1 \<and> hd text = CHR ''0'' \<or> length text > 2 \<and> starts_with text ''-0''
      then None else from_chars_signed text)"

definition valid_path :: "string \<Rightarrow> bool" where
  "valid_path value \<longleftrightarrow> value \<noteq> [] \<and> last value \<noteq> CHR ''/'' \<and> CHR 0x00 \<notin> set value \<and> value \<noteq> ''.'' \<and> value \<noteq> ''..''"

section \<open>Parsing\<close>

definition set_number :: "runtime_config_field \<Rightarrow> u64 \<Rightarrow> runtime_config \<Rightarrow> runtime_config option" where
  "set_number field value c = (case field of
     RF_Tick_Count \<Rightarrow> if value > 0xffffffff then None else Some (c\<lparr>rc_tick_count := ucast value\<rparr>)
   | RF_Max_Orders \<Rightarrow> Some (c\<lparr>rc_max_orders := value\<rparr>)
   | RF_Max_Quantity \<Rightarrow> Some (c\<lparr>rc_max_quantity := value\<rparr>)
   | RF_Command_Queue_Capacity \<Rightarrow> Some (c\<lparr>rc_command_queue_capacity := value\<rparr>)
   | RF_Event_Queue_Capacity \<Rightarrow> Some (c\<lparr>rc_event_queue_capacity := value\<rparr>)
   | RF_Journal_Segment_Capacity \<Rightarrow> Some (c\<lparr>rc_journal_segment_capacity := value\<rparr>)
   | RF_Max_Lanes \<Rightarrow> Some (c\<lparr>rc_max_lanes := value\<rparr>)
   | RF_Max_Notional \<Rightarrow> Some (c\<lparr>rc_max_notional := value\<rparr>)
   | RF_Max_Orders_Per_Second \<Rightarrow> Some (c\<lparr>rc_max_orders_per_second := value\<rparr>)
   | _ \<Rightarrow> Some c)"

definition set_field :: "runtime_config_field \<Rightarrow> string \<Rightarrow> runtime_config \<Rightarrow> runtime_config option" where
  "set_field field value c = (case field of
     RF_Minimum_Price \<Rightarrow> (case parse_signed value of None \<Rightarrow> None | Some p \<Rightarrow> Some (c\<lparr>rc_minimum_price := p\<rparr>))
   | RF_Journal_Prefix \<Rightarrow> if valid_path value then Some (c\<lparr>rc_journal_prefix := value\<rparr>) else None
   | RF_Snapshot_Path \<Rightarrow> if valid_path value then Some (c\<lparr>rc_snapshot_path := value\<rparr>) else None
   | _ \<Rightarrow> (case parse_integer value of None \<Rightarrow> None | Some n \<Rightarrow> set_number field n c))"

text \<open>The two halves of an entry around its only separator.\<close>

definition split_entry :: "string \<Rightarrow> (string \<times> string) option" where
  "split_entry entry = (let name = takeWhile (\<lambda>c. c \<noteq> CHR ''='') entry; value = drop (length name + 1) entry in
     if CHR ''='' \<notin> set entry \<or> name = [] \<or> value = [] \<or> CHR ''='' \<in> set value then None else Some (name, value))"

fun parse_entries :: "string list \<Rightarrow> runtime_config_field list \<Rightarrow> runtime_config \<Rightarrow> runtime_config_error + runtime_config_field list \<times> runtime_config" where
  "parse_entries [] seen c = Inr (seen, c)"
| "parse_entries (entry # entries) seen c = (case split_entry entry of
     None \<Rightarrow> Inl (RC_Malformed_Entry, RF_None)
   | Some (name, value) \<Rightarrow>
       let field = field_from_name name
       in if field = RF_None then Inl (RC_Unknown_Field, RF_None)
          else if field \<in> set seen then Inl (RC_Duplicate_Field, field)
          else case set_field field value c of
                 None \<Rightarrow> Inl (RC_Invalid_Value, field)
               | Some c1 \<Rightarrow> parse_entries entries (field # seen) c1)"

text \<open>The checks of the whole configuration, in the order of the source; nothing when all pass.\<close>

definition check_config :: "runtime_config \<Rightarrow> runtime_config_error option" where
  "check_config c =
     (if rc_tick_count c = 0 \<or> unat (rc_tick_count c) > kMaximumPriceLevels \<or>
         rc_minimum_price c > kInt64Max - int (unat (rc_tick_count c - 1)) then Some (RC_Invalid_Value, RF_Tick_Count)
      else if rc_max_orders c = 0 \<or> unat (rc_max_orders c) > kMaximumSnapshotSlots then Some (RC_Invalid_Value, RF_Max_Orders)
      else if rc_max_quantity c = 0 \<or> rc_max_quantity c > 0xffffffff then Some (RC_Invalid_Value, RF_Max_Quantity)
      else if rc_command_queue_capacity c = 0 \<or> unat (rc_command_queue_capacity c) > kMaximumSpscCapacity
      then Some (RC_Invalid_Value, RF_Command_Queue_Capacity)
      else if unat (rc_event_queue_capacity c) > kMaximumSpscCapacity \<or> rc_event_queue_capacity c < rc_max_orders c * 2 + 1
      then Some (RC_Invalid_Relationship, RF_Event_Queue_Capacity)
      else if rc_journal_segment_capacity c = 0 \<or> rc_journal_segment_capacity c > kMaximumJournalCapacity
      then Some (RC_Invalid_Value, RF_Journal_Segment_Capacity)
      else if rc_journal_prefix c = [] \<or> rc_snapshot_path c = []
      then Some (RC_Invalid_Value, if rc_journal_prefix c = [] then RF_Journal_Prefix else RF_Snapshot_Path)
      else if rc_max_lanes c = 0 \<or> rc_max_lanes c > rc_command_queue_capacity c then Some (RC_Invalid_Relationship, RF_Max_Lanes)
      else if rc_max_notional c = 0 \<or> rc_max_orders_per_second c = 0
      then Some (RC_Invalid_Value, if rc_max_notional c = 0 then RF_Max_Notional else RF_Max_Orders_Per_Second)
      else None)"

definition parse_runtime_config :: "string list \<Rightarrow> runtime_config_error + runtime_config" where
  "parse_runtime_config entries = (case parse_entries entries [] empty_config of
     Inl err \<Rightarrow> Inl err
   | Inr (seen, c) \<Rightarrow>
       (case find (\<lambda>f. f \<notin> set seen) config_fields of
          Some f \<Rightarrow> Inl (RC_Missing_Field, f)
        | None \<Rightarrow> (case check_config c of Some err \<Rightarrow> Inl err | None \<Rightarrow> Inr c)))"

definition gateway_config_of :: "runtime_config \<Rightarrow> gateway_config" where
  "gateway_config_of c = \<lparr>gc_max_active_orders = unat (rc_max_orders c), gc_max_lanes = unat (rc_max_lanes c), gc_max_quantity = rc_max_quantity c,
     gc_max_notional = rc_max_notional c, gc_min_price = rc_minimum_price c,
     gc_max_price = rc_minimum_price c + int (unat (rc_tick_count c - 1)), gc_max_orders_per_second = rc_max_orders_per_second c\<rparr>"

end
