(* ===== verification/Book_Construction.thy ===== *)
theory Book_Construction
  imports Order_Book_Init
begin

text \<open>When the constructor of the book succeeds.\<close>

lemma make_book_accepts:
  assumes "domain_ok d" "pd_tick_count d \<le> kMaximumPriceLevels" "n \<le> kUint32Max" "mq \<noteq> 0" "unat mq \<le> kUint32Max"
  obtains b where "make_book d n mq STP_None Fifo minq Continuous = Inr b"
proof -
  have t: "0 < pd_tick_count d" "pd_tick_count d < 2 ^ 32" using assms(1,2) by (auto simp: domain_ok_def kMaximumPriceLevels_def)
  obtain m where m: "make_bitmap (pd_tick_count d) = Inr m" using make_bitmap_ok [OF t] by blast
  have "checked_domain d = Inr d"
    using t(1) assms(2) by (auto simp: checked_domain_def is_encodable_tick_count_def kOrderLevelMask_def kMaximumPriceLevels_def)
  moreover have "checked_max_quantity mq = Inr mq" using assms(4,5) by (simp add: checked_max_quantity_def)
  moreover obtain a where "make_arena n = Inr a"
    using assms(3) by (auto simp: make_arena_def checked_capacity_def)
  ultimately show thesis using m that by (auto simp: make_book_def sum_bind_def Let_def checked_pro_rata_minimum_def)
qed

end
