(* ===== verification/Replay_Cli.thy ===== *)
theory Replay_Cli
  imports Runtime_Report Runtime_Config Book_Construction Snapshot_File_Properties Replay
begin

text \<open>
  The replay command line (\<^verbatim>\<open>replay_cli.cpp\<close>): its options, the engine it starts from, and the whole of \<^verbatim>\<open>main\<close> as a function from the
  arguments and the results of the system calls to the exit code and the two outputs.
\<close>

section \<open>Options\<close>

record cli_options =
  op_journal :: "string option"
  op_journal_prefix :: "string option"
  op_snapshot :: "string option"
  op_minimum :: "int option"
  op_maximum :: "int option"
  op_tick :: "u64 option"
  op_max_orders :: "u64 option"
  op_max_quantity :: "u64 option"
  op_expect_crc :: "u32 option"
  op_expect_events :: "u64 option"
  op_expect_live_orders :: "u64 option"
  op_help :: bool

definition no_options :: cli_options where
  "no_options = \<lparr>op_journal = None, op_journal_prefix = None, op_snapshot = None, op_minimum = None, op_maximum = None, op_tick = None,
     op_max_orders = None, op_max_quantity = None, op_expect_crc = None, op_expect_events = None, op_expect_live_orders = None, op_help = False\<rparr>"

text \<open>The spellings \<^verbatim>\<open>parse_decimal\<close> refuses before it reads the digits, at either type.\<close>

definition decimal_refused :: "string \<Rightarrow> bool" where
  "decimal_refused text \<longleftrightarrow> text = [] \<or> hd text = CHR ''+'' \<or> length text > 1 \<and> hd text = CHR ''0'' \<or>
     length text > 2 \<and> text ! 0 = CHR ''-'' \<and> text ! 1 = CHR ''0''"

definition parse_decimal_unsigned :: "string \<Rightarrow> u64 option" where
  "parse_decimal_unsigned text = (if decimal_refused text then None else from_chars text)"

definition parse_decimal_signed :: "string \<Rightarrow> int option" where
  "parse_decimal_signed text = (if decimal_refused text then None else from_chars_signed text)"

definition hex_digit :: "char \<Rightarrow> nat option" where
  "hex_digit c = (let n = of_char c :: nat in
     if 48 \<le> n \<and> n \<le> 57 then Some (n - 48) else if 97 \<le> n \<and> n \<le> 102 then Some (n - 87) else if 65 \<le> n \<and> n \<le> 70 then Some (n - 55) else None)"

definition parse_hex_crc :: "string \<Rightarrow> u32 option" where
  "parse_hex_crc text =
     (if length text \<noteq> 8 \<or> list_ex (\<lambda>c. hex_digit c = None) text then None
      else Some (word_of_nat (foldl (\<lambda>n c. 16 * n + the (hex_digit c)) 0 text)))"

definition set_once :: "'v option \<Rightarrow> string \<Rightarrow> string \<Rightarrow> (string \<Rightarrow> 'v option) \<Rightarrow> string + 'v" where
  "set_once destination name value parser =
     (if destination \<noteq> None then Inl (''duplicate '' @ name)
      else case parser value of None \<Rightarrow> Inl (''invalid value for '' @ name) | Some v \<Rightarrow> Inr v)"

definition value_options :: "string list" where
  "value_options = [''--journal'', ''--journal-prefix'', ''--snapshot'', ''--min'', ''--max'', ''--tick'', ''--max-orders'', ''--max-quantity'',
     ''--expect-crc32c'', ''--expect-events'', ''--expect-live-orders'']"

definition parse_text :: "string \<Rightarrow> string option" where
  "parse_text value = (if value = [] then None else Some value)"

definition set_option :: "string \<Rightarrow> string \<Rightarrow> cli_options \<Rightarrow> string + cli_options" where
  "set_option name value opts =
     (if name = ''--journal'' then sum_bind (set_once (op_journal opts) name value parse_text) (\<lambda>v. Inr (opts\<lparr>op_journal := Some v\<rparr>))
      else if name = ''--journal-prefix'' then sum_bind (set_once (op_journal_prefix opts) name value parse_text) (\<lambda>v. Inr (opts\<lparr>op_journal_prefix := Some v\<rparr>))
      else if name = ''--snapshot'' then sum_bind (set_once (op_snapshot opts) name value parse_text) (\<lambda>v. Inr (opts\<lparr>op_snapshot := Some v\<rparr>))
      else if name = ''--min'' then sum_bind (set_once (op_minimum opts) name value parse_decimal_signed) (\<lambda>v. Inr (opts\<lparr>op_minimum := Some v\<rparr>))
      else if name = ''--max'' then sum_bind (set_once (op_maximum opts) name value parse_decimal_signed) (\<lambda>v. Inr (opts\<lparr>op_maximum := Some v\<rparr>))
      else if name = ''--tick'' then sum_bind (set_once (op_tick opts) name value parse_decimal_unsigned) (\<lambda>v. Inr (opts\<lparr>op_tick := Some v\<rparr>))
      else if name = ''--max-orders'' then sum_bind (set_once (op_max_orders opts) name value parse_decimal_unsigned) (\<lambda>v. Inr (opts\<lparr>op_max_orders := Some v\<rparr>))
      else if name = ''--max-quantity'' then sum_bind (set_once (op_max_quantity opts) name value parse_decimal_unsigned) (\<lambda>v. Inr (opts\<lparr>op_max_quantity := Some v\<rparr>))
      else if name = ''--expect-crc32c'' then sum_bind (set_once (op_expect_crc opts) name value parse_hex_crc) (\<lambda>v. Inr (opts\<lparr>op_expect_crc := Some v\<rparr>))
      else if name = ''--expect-events'' then sum_bind (set_once (op_expect_events opts) name value parse_decimal_unsigned) (\<lambda>v. Inr (opts\<lparr>op_expect_events := Some v\<rparr>))
      else sum_bind (set_once (op_expect_live_orders opts) name value parse_decimal_unsigned) (\<lambda>v. Inr (opts\<lparr>op_expect_live_orders := Some v\<rparr>)))"

fun parse_options :: "string list \<Rightarrow> cli_options \<Rightarrow> string + cli_options" where
  "parse_options [] opts = Inr opts"
| "parse_options (name # args) opts =
     (if name = ''--help'' then if op_help opts then Inl ''duplicate --help'' else parse_options args (opts\<lparr>op_help := True\<rparr>)
      else if name \<notin> set value_options then Inl (''unknown option '' @ name)
      else case args of
             [] \<Rightarrow> Inl (''missing value for '' @ name)
           | value # args' \<Rightarrow> (case set_option name value opts of Inl err \<Rightarrow> Inl err | Inr opts' \<Rightarrow> parse_options args' opts'))"

section \<open>Messages\<close>

fun replay_error_message :: "replay_error \<Rightarrow> string" where
  "replay_error_message RE_Journal = ''journal read failed''"
| "replay_error_message RE_Engine_State_Mismatch = ''engine and snapshot boundary mismatch''"
| "replay_error_message RE_Unverifiable_Boundary = ''terminal snapshot boundary is unverifiable''"
| "replay_error_message RE_Boundary_Missing = ''snapshot boundary missing from journal''"
| "replay_error_message RE_Boundary_Time_Mismatch = ''snapshot boundary logical time mismatch''"
| "replay_error_message RE_Sequence_Gap = ''journal suffix sequence mismatch''"
| "replay_error_message RE_Apply = ''command apply failed''"
| "replay_error_message RE_Invariant = ''engine invariant failure''"

fun snapshot_error_message :: "snapshot_error \<Rightarrow> string" where
  "snapshot_error_message SN_None = ''none''"
| "snapshot_error_message SN_Invalid_Path = ''invalid snapshot path''"
| "snapshot_error_message SN_Not_Found = ''snapshot not found''"
| "snapshot_error_message SN_Permission_Denied = ''permission denied or mode is not 0600''"
| "snapshot_error_message SN_Symlink = ''symlink rejected''"
| "snapshot_error_message SN_Not_Regular_File = ''not a regular file''"
| "snapshot_error_message SN_File_Too_Large = ''snapshot exceeds bounded size''"
| "snapshot_error_message SN_Invalid_Length = ''invalid snapshot length''"
| "snapshot_error_message SN_Invalid_Header = ''invalid snapshot header''"
| "snapshot_error_message SN_Unsupported_Version = ''unsupported snapshot version''"
| "snapshot_error_message SN_Checksum_Mismatch = ''snapshot CRC32C mismatch''"
| "snapshot_error_message SN_Price_Level_Limit = ''snapshot price-level limit exceeded''"
| "snapshot_error_message SN_Invalid_Configuration = ''invalid snapshot engine configuration''"
| "snapshot_error_message SN_Invalid_Sequence_State = ''invalid snapshot sequence state''"
| "snapshot_error_message SN_Noncanonical_Slot = ''noncanonical snapshot slot''"
| "snapshot_error_message SN_Invalid_Slot_Metadata = ''invalid snapshot slot metadata''"
| "snapshot_error_message SN_Live_Count_Mismatch = ''snapshot live count mismatch''"
| "snapshot_error_message SN_Invalid_Free_List = ''invalid snapshot free list''"
| "snapshot_error_message SN_Invalid_Order = ''invalid snapshot order''"
| "snapshot_error_message SN_Invalid_Order_Graph = ''invalid snapshot order graph''"
| "snapshot_error_message SN_Aggregate_Overflow = ''snapshot aggregate overflow''"
| "snapshot_error_message SN_Crossed_Book = ''snapshot book is crossed''"
| "snapshot_error_message SN_Allocation_Failed = ''snapshot allocation failed''"
| "snapshot_error_message SN_Invalid_State = ''invalid snapshot engine state''"
| "snapshot_error_message SN_Io_Error = ''snapshot I/O error''"
| "snapshot_error_message SN_Commit_Indeterminate = ''snapshot replacement durability indeterminate''"
| "snapshot_error_message SN_Temp_Collision_Limit = ''snapshot temporary-name collision limit''"

section \<open>The program\<close>

record cli_exit =
  ce_code :: nat
  ce_out :: string
  ce_err :: string

definition cli_fail :: "string \<Rightarrow> cli_exit" where
  "cli_fail message = \<lparr>ce_code = 2, ce_out = [], ce_err = ''matching_engine_replay: '' @ message @ [CHR 0x0A]\<rparr>"

definition usage :: string where
  "usage = ''Usage: matching_engine_replay (--journal PATH | --journal-prefix PREFIX) [--snapshot PATH | '' @
     ''--min N --max N --tick 1 --max-orders N --max-quantity N] '' @
     ''[--expect-crc32c XXXXXXXX] [--expect-events N] [--expect-live-orders N]'' @ [CHR 0x0A]"

definition engine_of_options :: "cli_options \<Rightarrow> string + engine" where
  "engine_of_options opts = (case (op_minimum opts, op_maximum opts, op_tick opts, op_max_orders opts, op_max_quantity opts) of
     (Some minimum, Some maximum, Some tick, Some max_orders, Some max_quantity) \<Rightarrow>
       if tick \<noteq> 1 then Inl ''--tick must be 1 for integer Price ticks''
       else if maximum < minimum then Inl ''--max must be greater than or equal to --min''
       else let distance = word_of_int maximum - word_of_int minimum :: u64
            in if unat distance \<ge> kMaximumPriceLevels \<or> unat max_orders > kMaximumSnapshotSlots \<or> max_quantity = 0 \<or> max_quantity > 0xffffffff
               then Inl ''engine config out of range''
               else (case sum_bind (make_price_domain minimum (unat (ucast (distance + 1) :: u32)))
                       (\<lambda>d. make_engine d (unat max_orders) max_quantity 1 0 STP_None Fifo 2 Continuous) of
                       Inl _ \<Rightarrow> Inl ''invalid engine config'' | Inr e \<Rightarrow> Inr e)
   | _ \<Rightarrow> Inl ''missing engine config'')"

record cli_environment =
  en_load :: load_results
  en_journal :: open_results
  en_files :: "string \<Rightarrow> open_results"
  en_listing :: "string list option"

definition start_engine :: "cli_environment \<Rightarrow> cli_options \<Rightarrow> (string + engine \<times> snapshot_point) option" where
  "start_engine env opts = (case op_snapshot opts of
     Some path \<Rightarrow>
       if op_minimum opts \<noteq> None \<or> op_maximum opts \<noteq> None \<or> op_tick opts \<noteq> None \<or> op_max_orders opts \<noteq> None \<or> op_max_quantity opts \<noteq> None
       then Some (Inl ''engine config conflicts with --snapshot'')
       else (case load_snapshot (en_load env) path of
               None \<Rightarrow> None
             | Some (Inl err) \<Rightarrow> Some (Inl (snapshot_error_message err))
             | Some (Inr (e, point)) \<Rightarrow> Some (Inr (e, point)))
   | None \<Rightarrow> Some (sum_bind (engine_of_options opts) (\<lambda>e. Inr (e, \<lparr>sp_sequence = 0, sp_logical_time = 0\<rparr>))))"

definition replay_from :: "cli_environment \<Rightarrow> cli_options \<Rightarrow> engine \<Rightarrow> snapshot_point \<Rightarrow> (string + replay_result \<times> engine) run" where
  "replay_from env opts e point =
     (let events = replicate (maximum_event_capacity e) default_event;
          answer = (\<lambda>(result, e1, events1). ret (case result of Inl err \<Rightarrow> Inl (replay_error_message err) | Inr r \<Rightarrow> Inr (r, e1)))
      in if op_journal opts \<noteq> None
         then (case open_journal (en_journal env) of
                 Inl err \<Rightarrow> ret (Inl (journal_error_message (of_operation err)))
               | Inr j \<Rightarrow> run_bind (replay_journal j e (sp_sequence point) (sp_logical_time point) events) answer)
         else (case open_segment_set (en_files env) (en_listing env) (the (op_journal_prefix opts)) of
                 Inl err \<Rightarrow> ret (Inl (journal_set_error_message err))
               | Inr js \<Rightarrow> run_bind (replay_journal_segments js e (sp_sequence point) (sp_logical_time point) events) answer))"

definition signed_decimal :: "int \<Rightarrow> string" where
  "signed_decimal p = (if p < 0 then ''-'' @ decimal (nat (- p)) else decimal (nat p))"

definition nullable_price :: "price option \<Rightarrow> string" where
  "nullable_price p = (case p of Some p1 \<Rightarrow> signed_decimal p1 | None \<Rightarrow> ''null'')"

definition hex_char :: "nat \<Rightarrow> char" where
  "hex_char n = (if n < 10 then char_of (48 + n) else char_of (87 + n))"

definition hex8 :: "u32 \<Rightarrow> string" where
  "hex8 w = map (\<lambda>i. hex_char (unat w div 16 ^ (7 - i) mod 16)) [0..<8]"

definition report_line :: "replay_result \<Rightarrow> invariant_result \<Rightarrow> book \<Rightarrow> snapshot_point \<Rightarrow> string" where
  "report_line r invariant b point = json_object
     [json_field ''format_version'' ''1'',
      json_number ''commands_applied'' (rr_commands_applied r),
      json_number ''first_sequence'' (rr_first_sequence r),
      json_number ''last_sequence'' (rr_last_sequence r),
      json_number ''event_count'' (fp_event_count (rr_fingerprint r)),
      json_number ''event_bytes'' (fp_byte_count (rr_fingerprint r)),
      json_field ''crc32c'' (quoted (hex8 (crc32c (rr_fingerprint r)))),
      json_field ''live_orders'' (decimal (unat (ir_reachable_count invariant))),
      json_field ''best_bid'' (nullable_price (best_bid b)),
      json_field ''best_ask'' (nullable_price (best_ask b)),
      json_number ''snapshot_sequence'' (sp_sequence point)] @ [CHR 0x0A]"

definition expectation :: "cli_options \<Rightarrow> replay_result \<Rightarrow> invariant_result \<Rightarrow> string option" where
  "expectation opts r invariant =
     (if op_expect_crc opts \<noteq> None \<and> crc32c (rr_fingerprint r) \<noteq> the (op_expect_crc opts) then Some ''expected CRC32C mismatch''
      else if op_expect_events opts \<noteq> None \<and> fp_event_count (rr_fingerprint r) \<noteq> the (op_expect_events opts) then Some ''expected event count mismatch''
      else if op_expect_live_orders opts \<noteq> None \<and> ucast (ir_reachable_count invariant) \<noteq> the (op_expect_live_orders opts)
      then Some ''expected live order count mismatch'' else None)"

definition finish_replay :: "cli_options \<Rightarrow> replay_result \<Rightarrow> engine \<Rightarrow> snapshot_point \<Rightarrow> cli_exit option" where
  "finish_replay opts r e point = (case check_invariants (se_book e) of
     None \<Rightarrow> None
   | Some (invariant, b) \<Rightarrow> Some
       (if ir_violation invariant \<noteq> IV_None then cli_fail ''engine invariant failure''
        else case expectation opts r invariant of
               Some message \<Rightarrow> cli_fail message
             | None \<Rightarrow> \<lparr>ce_code = 0, ce_out = report_line r invariant b point, ce_err = []\<rparr>))"

definition replay_options :: "cli_environment \<Rightarrow> cli_options \<Rightarrow> cli_exit run" where
  "replay_options env opts =
     (if (op_journal opts \<noteq> None) = (op_journal_prefix opts \<noteq> None)
      then ret (cli_fail ''exactly one of --journal or --journal-prefix is required'')
      else case start_engine env opts of
             None \<Rightarrow> None
           | Some (Inl message) \<Rightarrow> ret (cli_fail message)
           | Some (Inr (e, point)) \<Rightarrow>
               run_bind (replay_from env opts e point) (\<lambda>result. case result of
                 Inl message \<Rightarrow> ret (cli_fail message)
               | Inr (r, e1) \<Rightarrow> (case finish_replay opts r e1 point of None \<Rightarrow> None | Some x \<Rightarrow> ret x)))"

definition replay_main :: "cli_environment \<Rightarrow> string list \<Rightarrow> cli_exit run" where
  "replay_main env args = (case parse_options args no_options of
     Inl message \<Rightarrow> ret (cli_fail message)
   | Inr opts \<Rightarrow>
       if op_help opts
       then ret (if length args \<noteq> 1 then cli_fail ''--help cannot be combined with other options'' else \<lparr>ce_code = 0, ce_out = usage, ce_err = []\<rparr>)
       else replay_options env opts)"

end
