(* ===== verification/Replay_Cli_Properties.thy ===== *)
theory Replay_Cli_Properties
  imports Replay_Cli
begin

text \<open>
  The range checks of the replay command line are enough for the constructors behind them, and the checksum it prints is one it accepts as
  an expectation.
\<close>

section \<open>The engine of the options\<close>

definition prices_ranged :: "cli_options \<Rightarrow> bool" where
  "prices_ranged opts \<longleftrightarrow> (\<forall>p. op_minimum opts = Some p \<or> op_maximum opts = Some p \<longrightarrow> int64_range p)"

lemma decimal_ranged: "parse_decimal_signed text = Some p \<Longrightarrow> int64_range p"
  by (auto simp: parse_decimal_signed_def from_chars_signed_def Let_def int64_range_def split: if_splits)

lemma set_option_ranged:
  assumes "set_option name value opts = Inr opts'" "prices_ranged opts"
  shows "prices_ranged opts'"
  using assms unfolding set_option_def
  by (auto simp: sum_bind_Inr set_once_def prices_ranged_def dest: decimal_ranged split: if_splits option.splits)

lemma parse_options_ranged: "parse_options args opts = Inr opts' \<Longrightarrow> prices_ranged opts \<Longrightarrow> prices_ranged opts'"
proof (induction args opts rule: parse_options.induct)
  case (2 name args opts)
  have hp: "prices_ranged (opts\<lparr>op_help := True\<rparr>) = prices_ranged opts" by (simp add: prices_ranged_def)
  show ?case using 2 by (auto simp: hp dest: set_option_ranged split: if_splits list.splits sum.splits)
qed simp

lemma price_distance:
  assumes "int64_range a" "int64_range b" "a \<le> b"
  shows "unat (word_of_int b - word_of_int a :: u64) = nat (b - a)"
proof -
  have "b - a < 2 ^ 64" using assms by (simp add: int64_range_def kInt64Min_def kInt64Max_def)
  then have "uint (word_of_int (b - a) :: u64) = b - a" using assms(3) by (simp add: uint_word_of_int_eq take_bit_int_eq_self del: of_int_diff)
  moreover have "word_of_int b - word_of_int a = (word_of_int (b - a) :: u64)" by simp
  ultimately show ?thesis by (metis nat_uint_eq)
qed

lemma tick_count_of_distance:
  assumes "unat (x :: u64) < kMaximumPriceLevels"
  shows "unat (ucast (x + 1) :: u32) = unat x + 1"
proof -
  have b: "unat x + 1 < 2 ^ 32" using assms by (simp add: kMaximumPriceLevels_def)
  have "ucast (x + 1) = (word_of_nat (unat x + 1) :: u32)"
    using ucast_of_nat32 [of "unat x + 1"] by (simp add: add.commute)
  then show ?thesis using unat_of_nat_u32 [OF b] by simp
qed

lemma options_engine:
  assumes "prices_ranged opts"
  shows "engine_of_options opts \<noteq> Inl ''invalid engine config''"
    and "engine_of_options opts = Inr e \<Longrightarrow> book_ok (se_book e) \<and> view (se_book e) = empty_market \<and>
      op_minimum opts = Some (pd_minimum (ob_domain (se_book e))) \<and> op_maximum opts = Some (pd_maximum (ob_domain (se_book e)))"
proof -
  have *: "\<exists>e b. engine_of_options opts = Inr e \<and> se_book e = b \<and> book_ok b \<and> view b = empty_market \<and>
      pd_minimum (ob_domain b) = lo \<and> pd_maximum (ob_domain b) = hi"
    if o: "op_minimum opts = Some lo" "op_maximum opts = Some hi" "op_tick opts = Some 1" "op_max_orders opts = Some mo" "op_max_quantity opts = Some mq"
      and c: "lo \<le> hi" "unat (word_of_int hi - word_of_int lo :: u64) < kMaximumPriceLevels" "unat mo \<le> kMaximumSnapshotSlots" "mq \<noteq> 0" "mq \<le> 0xffffffff" for lo hi mo mq
  proof -
    have r: "int64_range lo" "int64_range hi" using assms o(1,2) by (auto simp: prices_ranged_def)
    let ?w = "word_of_int hi - word_of_int lo :: u64"
    have w: "unat ?w = nat (hi - lo)" by (rule price_distance [OF r c(1)])
    have t: "unat (ucast (?w + 1) :: u32) = nat (hi - lo) + 1" using tick_count_of_distance [OF c(2)] w by simp
    define d where "d = \<lparr>pd_minimum = lo, pd_maximum = hi, pd_tick_count = nat (hi - lo) + 1\<rparr>"
    have d: "make_price_domain lo (nat (hi - lo) + 1) = Inr d"
      using c(1) r by (auto simp: make_price_domain_def checked_maximum_def Let_def d_def int64_range_def)
    have ok: "domain_ok d" "pd_tick_count d \<le> kMaximumPriceLevels" using make_price_domain_ok [OF r(1) d] c(2) w by auto
    have n: "unat mo \<le> kUint32Max" by (rule order.trans [OF c(3)]) (simp add: kMaximumSnapshotSlots_def kUint32Max_def)
    have q: "unat mq \<le> kUint32Max" using c(5) by (simp add: kUint32Max_def word_le_nat_alt)
    obtain b where b: "make_book d (unat mo) mq STP_None Fifo 2 Continuous = Inr b" by (rule make_book_accepts [OF ok n c(4) q])
    then obtain e where e: "make_engine d (unat mo) mq 1 0 STP_None Fifo 2 Continuous = Inr e" "se_book e = b"
      by (auto simp: make_engine_def sum_bind_def)
    have "sum_bind (make_price_domain lo (unat (ucast (?w + 1) :: u32))) (\<lambda>d. make_engine d (unat mo) mq 1 0 STP_None Fifo 2 Continuous) = Inr e"
      unfolding t d by (simp add: sum_bind_def e(1))
    then have "engine_of_options opts = Inr e" using c by (simp add: engine_of_options_def o Let_def not_less not_le)
    then show ?thesis using e(2) make_book_ok [OF b ok(1)] by (auto simp: d_def)
  qed
  let ?refused = "\<exists>m. engine_of_options opts = Inl m \<and> m \<noteq> ''invalid engine config''"
  have "?refused \<or> (\<exists>e. engine_of_options opts = Inr e \<and> book_ok (se_book e) \<and> view (se_book e) = empty_market \<and>
      op_minimum opts = Some (pd_minimum (ob_domain (se_book e))) \<and> op_maximum opts = Some (pd_maximum (ob_domain (se_book e))))"
  proof (cases "\<exists>lo hi mo mq. op_minimum opts = Some lo \<and> op_maximum opts = Some hi \<and> op_tick opts = Some 1 \<and> op_max_orders opts = Some mo \<and>
      op_max_quantity opts = Some mq \<and> lo \<le> hi \<and> unat (word_of_int hi - word_of_int lo :: u64) < kMaximumPriceLevels \<and>
      unat mo \<le> kMaximumSnapshotSlots \<and> mq \<noteq> 0 \<and> mq \<le> 0xffffffff")
    case True
    then show ?thesis using * by metis
  next
    case False
    then have ?refused
      by (auto simp: engine_of_options_def Let_def not_less not_le split: option.splits)
    then show ?thesis by blast
  qed
  then show "engine_of_options opts \<noteq> Inl ''invalid engine config''"
    "engine_of_options opts = Inr e \<Longrightarrow> book_ok (se_book e) \<and> view (se_book e) = empty_market \<and>
      op_minimum opts = Some (pd_minimum (ob_domain (se_book e))) \<and> op_maximum opts = Some (pd_maximum (ob_domain (se_book e)))"
    by auto
qed

text \<open>
  Whatever the arguments, the branch for a constructor that throws is never reached, and the engine the program builds trades exactly the
  price range that was asked for, on an empty market.
\<close>

theorem cli_engine_valid:
  assumes "parse_options args no_options = Inr opts"
  shows "engine_of_options opts \<noteq> Inl ''invalid engine config'' \<and>
    (\<forall>e. engine_of_options opts = Inr e \<longrightarrow> book_ok (se_book e) \<and> view (se_book e) = empty_market \<and>
      op_minimum opts = Some (pd_minimum (ob_domain (se_book e))) \<and> op_maximum opts = Some (pd_maximum (ob_domain (se_book e))))"
proof -
  have "prices_ranged opts" by (rule parse_options_ranged [OF assms]) (simp add: prices_ranged_def no_options_def)
  then show ?thesis using options_engine by blast
qed

section \<open>The printed checksum\<close>

lemma hex_char_digit: "n < 16 \<Longrightarrow> hex_digit (hex_char n) = Some n"
  by (simp add: hex_digit_def hex_char_def Let_def of_char_of)

lemma hex_fold:
  fixes n :: nat
  assumes "k \<le> Suc m"
  shows "foldl (\<lambda>a i. 16 * a + n div 16 ^ (m - i) mod 16) 0 [0..<k] = n div 16 ^ (Suc m - k) mod 16 ^ k"
  using assms
proof (induction k)
  case (Suc k)
  have s: "Suc m - k = Suc (m - k)" using Suc.prems by simp
  have "n div 16 ^ Suc (m - k) = n div 16 ^ (m - k) div 16" by (simp only: power_Suc2 div_mult2_eq)
  then show ?case using Suc.IH Suc.prems mod_mult2_eq [of "n div 16 ^ (m - k)" 16 "16 ^ k"] by (simp add: s)
qed simp

theorem printed_crc_accepted: "parse_hex_crc (hex8 w) = Some w"
proof -
  let ?d = "\<lambda>i. unat w div 16 ^ (7 - i) mod 16"
  have d: "hex_digit (hex_char (?d i)) = Some (?d i)" for i by (rule hex_char_digit) simp
  have "foldl (\<lambda>n c. 16 * n + the (hex_digit c)) 0 (hex8 w) = foldl (\<lambda>a i. 16 * a + ?d i) 0 [0..<8]"
    by (simp only: hex8_def foldl_map d option.sel)
  also have "\<dots> = unat w div 16 ^ (Suc 7 - 8) mod 16 ^ 8" by (rule hex_fold) simp
  also have "\<dots> = unat w" using unsigned_less [of w] by simp
  finally have "foldl (\<lambda>n c. 16 * n + the (hex_digit c)) 0 (hex8 w) = unat w" .
  then show ?thesis unfolding parse_hex_crc_def by (simp add: hex8_def d list_ex_iff)
qed

end
