(* ===== verification/Runtime_Config_Properties.thy ===== *)
theory Runtime_Config_Properties
  imports Runtime_Config Book_Construction Snapshot_File_Properties Journal_History Journal_Segments
begin

text \<open>
  An accepted configuration fits the components: every constructor accepts it, the engine it builds can be stored, and its paths
  are usable unless they end in one of the two directory names.
\<close>

section \<open>Values\<close>

lemma set_field_range:
  "set_field f v c = Some c1 \<Longrightarrow> int64_range (rc_minimum_price c) \<Longrightarrow> int64_range (rc_minimum_price c1)"
  by (auto simp: set_field_def set_number_def parse_signed_def from_chars_signed_def Let_def int64_range_def
      split: runtime_config_field.splits option.splits if_splits)

lemma parse_entries_range:
  "parse_entries entries fs c = Inr (fs', c') \<Longrightarrow> int64_range (rc_minimum_price c) \<Longrightarrow> int64_range (rc_minimum_price c')"
proof (induction entries arbitrary: fs c)
  case (Cons entry entries)
  then obtain f v c1 where "set_field f v c = Some c1" "parse_entries entries (f # fs) c1 = Inr (fs', c')"
    by (auto simp: Let_def split: option.splits if_splits)
  then show ?case using Cons.IH Cons.prems(2) set_field_range by blast
qed simp

lemma parse_config_checked:
  assumes "parse_runtime_config entries = Inr c"
  shows "check_config c = None" "int64_range (rc_minimum_price c)"
proof -
  obtain fs c' where p: "parse_entries entries [] empty_config = Inr (fs, c')"
    using assms by (auto simp: parse_runtime_config_def split: sum.splits)
  then have c: "c' = c" "check_config c = None" using assms by (auto simp: parse_runtime_config_def split: option.splits)
  show "check_config c = None" by (rule c(2))
  have "int64_range (rc_minimum_price empty_config)" by (simp add: empty_config_def int64_range_def kInt64Min_def kInt64Max_def)
  then show "int64_range (rc_minimum_price c)" using parse_entries_range [OF p] c(1) by simp
qed

text \<open>The limits every accepted configuration keeps, as facts on numbers.\<close>

lemma check_config_limits:
  assumes "check_config c = None"
  shows "0 < unat (rc_tick_count c)" "unat (rc_tick_count c) \<le> kMaximumPriceLevels"
    "rc_minimum_price c + int (unat (rc_tick_count c) - 1) \<le> kInt64Max"
    "0 < unat (rc_max_orders c)" "unat (rc_max_orders c) \<le> kMaximumSnapshotSlots"
    "rc_max_quantity c \<noteq> 0" "unat (rc_max_quantity c) \<le> kUint32Max"
    "0 < unat (rc_command_queue_capacity c)" "unat (rc_command_queue_capacity c) \<le> kMaximumSpscCapacity"
    "unat (rc_event_queue_capacity c) \<le> kMaximumSpscCapacity" "2 * unat (rc_max_orders c) + 1 \<le> unat (rc_event_queue_capacity c)"
    "rc_journal_segment_capacity c \<noteq> 0" "\<not> rc_journal_segment_capacity c > kMaximumJournalCapacity"
    "int (unat (rc_tick_count c - 1)) = int (unat (rc_tick_count c) - 1)"
proof -
  note c = assms [unfolded check_config_def]
  have t: "rc_tick_count c \<noteq> 0" using c by (auto split: if_splits)
  then have m: "unat (rc_tick_count c - 1) = unat (rc_tick_count c) - 1" by (rule unat_minus_one)
  then show "int (unat (rc_tick_count c - 1)) = int (unat (rc_tick_count c) - 1)" by simp
  show "0 < unat (rc_tick_count c)" using t by (simp add: unat_gt_0)
  show "unat (rc_tick_count c) \<le> kMaximumPriceLevels" using c by (auto split: if_splits)
  show "rc_minimum_price c + int (unat (rc_tick_count c) - 1) \<le> kInt64Max" unfolding m [symmetric] using c by (auto split: if_splits)
  show "0 < unat (rc_max_orders c)" using c by (auto simp: unat_gt_0 split: if_splits)
  show n: "unat (rc_max_orders c) \<le> kMaximumSnapshotSlots" using c by (auto split: if_splits)
  show "rc_max_quantity c \<noteq> 0" "unat (rc_max_quantity c) \<le> kUint32Max"
    using c by (auto simp: kUint32Max_def not_less word_le_nat_alt split: if_splits)
  show "0 < unat (rc_command_queue_capacity c)" "unat (rc_command_queue_capacity c) \<le> kMaximumSpscCapacity"
    "unat (rc_event_queue_capacity c) \<le> kMaximumSpscCapacity"
    using c by (auto simp: unat_gt_0 split: if_splits)
  have "unat (rc_max_orders c * 2 + 1) = unat (word_of_nat (2 * unat (rc_max_orders c) + 1) :: u64)" by (simp add: ac_simps)
  also have "\<dots> = 2 * unat (rc_max_orders c) + 1" using n by (intro unat_of_nat_u64) (simp add: kMaximumSnapshotSlots_def)
  finally have u: "unat (rc_max_orders c * 2 + 1) = 2 * unat (rc_max_orders c) + 1" .
  have "\<not> rc_event_queue_capacity c < rc_max_orders c * 2 + 1" using c by (auto split: if_splits)
  then show "2 * unat (rc_max_orders c) + 1 \<le> unat (rc_event_queue_capacity c)" by (simp add: not_less word_le_nat_alt u)
  show "rc_journal_segment_capacity c \<noteq> 0" "\<not> rc_journal_segment_capacity c > kMaximumJournalCapacity" using c by (auto split: if_splits)
qed

section \<open>Paths\<close>

abbreviation path_set :: "string \<Rightarrow> bool" where
  "path_set value \<equiv> value = [] \<or> valid_path value"

lemma set_field_paths:
  "set_field f v c = Some c1 \<Longrightarrow> path_set (rc_snapshot_path c) \<and> path_set (rc_journal_prefix c) \<Longrightarrow>
     path_set (rc_snapshot_path c1) \<and> path_set (rc_journal_prefix c1)"
  by (auto simp: set_field_def set_number_def split: runtime_config_field.splits option.splits if_splits)

lemma parse_entries_paths:
  "parse_entries entries fs c = Inr (fs', c') \<Longrightarrow> path_set (rc_snapshot_path c) \<and> path_set (rc_journal_prefix c) \<Longrightarrow>
     path_set (rc_snapshot_path c') \<and> path_set (rc_journal_prefix c')"
proof (induction entries arbitrary: fs c)
  case (Cons entry entries)
  then obtain f v c1 where "set_field f v c = Some c1" "parse_entries entries (f # fs) c1 = Inr (fs', c')"
    by (auto simp: Let_def split: option.splits if_splits)
  then show ?case using Cons.IH Cons.prems(2) set_field_paths by blast
qed simp

lemma accepted_paths:
  assumes "parse_runtime_config entries = Inr c"
  shows "valid_path (rc_snapshot_path c)" "valid_path (rc_journal_prefix c)"
proof -
  obtain fs where p: "parse_entries entries [] empty_config = Inr (fs, c)"
    using assms by (auto simp: parse_runtime_config_def split: sum.splits option.splits)
  have "path_set (rc_snapshot_path c) \<and> path_set (rc_journal_prefix c)"
    by (rule parse_entries_paths [OF p]) (simp add: empty_config_def)
  moreover have "rc_snapshot_path c \<noteq> []" "rc_journal_prefix c \<noteq> []"
    using parse_config_checked(1) [OF assms] by (auto simp: check_config_def split: if_splits)
  ultimately show "valid_path (rc_snapshot_path c)" "valid_path (rc_journal_prefix c)" by auto
qed

lemma valid_path_filename:
  assumes "valid_path path"
  shows "path_filename path \<noteq> []" "CHR ''/'' \<notin> set (path_filename path)" "set (path_filename path) \<subseteq> set path"
proof -
  have p: "path \<noteq> []" "last path \<noteq> CHR ''/''" using assms by (simp_all add: valid_path_def)
  then have "hd (rev path) \<noteq> CHR ''/''" by (simp add: hd_rev)
  then show "path_filename path \<noteq> []" using p(1) by (cases "rev path") (simp_all add: path_filename_def)
  show "CHR ''/'' \<notin> set (path_filename path)" "set (path_filename path) \<subseteq> set path"
    by (auto simp: path_filename_def dest: set_takeWhileD)
qed

lemma snapshot_path_parsed:
  assumes "valid_path path"
  shows "parse_path path = (if path_filename path \<in> {''.'', ''..''} then Inl SN_Invalid_Path else Inr (path_filename path))"
  using assms valid_path_filename [OF assms] by (auto simp: parse_path_def Let_def valid_path_def)

lemma open_segments_error: "open_segments files cands s0 \<noteq> Inl JS_Invalid_Path"
  by (induction files cands s0 rule: open_segments.induct) (auto split: sum.splits)

lemma collect_candidates_error: "collect_candidates np names acc \<noteq> Inl JS_Invalid_Path"
proof (induction np names acc rule: collect_candidates.induct)
  case (2 np name names acc)
  have "parse_segment_name np name \<noteq> Inl JS_Invalid_Path" by (auto simp: parse_segment_name_def Let_def split: option.splits)
  then show ?case using 2 by (auto split: sum.splits option.splits)
qed simp

lemma journal_prefix_opened:
  assumes "valid_path path"
  shows "open_segment_set files listing path = Inl JS_Invalid_Path \<longleftrightarrow> path_filename path \<in> {''.'', ''..''}"
  using assms valid_path_filename(1) [OF assms] open_segments_error collect_candidates_error
  by (auto simp: open_segment_set_def Let_def valid_path_def split: option.splits sum.splits)

section \<open>Building the components\<close>

lemma new_book_storable:
  assumes "make_book d n mq STP_None Fifo 0 Continuous = Inr b" "domain_ok d" "n \<le> kMaximumSnapshotSlots"
  shows "storable b"
proof -
  note ok = make_book_ok [OF assms(1,2)]
  obtain bo ao ar minq' where f: "b = fresh_book d n mq STP_None Fifo minq' Continuous bo ao ar" "live_set ar = {}" "ar_capacity ar = n"
    by (rule make_book_fields [OF assms(1,2)]) blast
  have z: "minq' = 0" and ar: "make_arena n = Inr ar"
    using assms(1) by (auto simp: f(1) fresh_book_def make_book_def sum_bind_Inr checked_pro_rata_minimum_def Let_def split: if_splits)
  have "sl_free_next (ar_slots ar ! i) \<le> kInvalidIndex \<and> \<not> sl_live (ar_slots ar ! i)" if "i < n" for i
    using ar that assms(3) by (auto simp: make_arena_def checked_capacity_def kInvalidIndex_def kMaximumSnapshotSlots_def split: if_splits)
  then have "list_all (slot_storable b) [0..<slots b]"
    by (simp add: list_all_iff slot_storable_def Let_def f(1,3) fresh_book_def)
  moreover have "visits_ok b" by (simp add: visits_ok_def f(1,3) fresh_book_def)
  moreover have "config_ok b" by (simp add: config_ok_def f(1) fresh_book_def z)
  ultimately show ?thesis using ok(1,3) assms(3) by (simp add: storable_def)
qed

lemma make_spsc_accepts:
  assumes "0 < n" "n \<le> kMaximumSpscCapacity" "0 < sz" "sz \<le> 1024"
  obtains q where "make_spsc sz x n = Inr q" "q_capacity q = n"
proof -
  have "n * sz \<le> kMaximumSpscCapacity * 1024" using assms by (intro mult_le_mono)
  also have "\<dots> \<le> 2 ^ 64 - 1" by (simp add: kMaximumSpscCapacity_def)
  finally have "n \<le> (2 ^ 64 - 1) div sz" using assms(3) by (simp add: less_eq_div_iff_mult_less_eq)
  then have "validate_capacity sz n = Inr n" using assms(1,2) by (simp add: validate_capacity_def not_less)
  then show thesis using that by (simp add: make_spsc_def sum_bind_def)
qed

text \<open>
  C35. An accepted configuration fits the components it configures: the price domain is built and its bounds are those of the gateway,
  the engine and both queues are built, the matcher accepts the event queue, the journal capacity has a file size, and the new engine can be
  stored in a snapshot.  The queue elements are assumed to take at most 1024 bytes.  The two paths are the exception: the snapshot
  path and the journal prefix are refused, as invalid paths, exactly when their last component is one of the two directory
  names, which the configuration does not exclude.
\<close>

theorem accepted_config_builds:
  assumes "parse_runtime_config entries = Inr c" "next \<noteq> 0" "0 < sz" "sz \<le> 1024" "0 < sz'" "sz' \<le> 1024"
  shows "(\<exists>d e commands events m.
    make_price_domain (rc_minimum_price c) (unat (rc_tick_count c)) = Inr d \<and>
    pd_minimum d = gc_min_price (gateway_config_of c) \<and> pd_maximum d = gc_max_price (gateway_config_of c) \<and>
    make_engine d (unat (rc_max_orders c)) (rc_max_quantity c) next 0 STP_None Fifo 0 Continuous = Inr e \<and> storable (se_book e) \<and>
    make_spsc sz (x :: sequenced_command) (unat (rc_command_queue_capacity c)) = Inr commands \<and>
    make_spsc sz' default_event (unat (rc_event_queue_capacity c)) = Inr events \<and>
    make_matching (Some e) events = Inr m \<and>
    checked_file_size (rc_journal_segment_capacity c) = Some (64 + 80 * unat (rc_journal_segment_capacity c))) \<and>
    parse_path (rc_snapshot_path c) = (if path_filename (rc_snapshot_path c) \<in> {''.'', ''..''} then Inl SN_Invalid_Path
      else Inr (path_filename (rc_snapshot_path c))) \<and>
    (open_segment_set files listing (rc_journal_prefix c) = Inl JS_Invalid_Path \<longleftrightarrow> path_filename (rc_journal_prefix c) \<in> {''.'', ''..''})"
proof -
  note p = parse_config_checked [OF assms(1)]
  note l = check_config_limits [OF p(1)]
  define d where "d = \<lparr>pd_minimum = rc_minimum_price c, pd_maximum = rc_minimum_price c + int (unat (rc_tick_count c) - 1),
    pd_tick_count = unat (rc_tick_count c)\<rparr>"
  have d: "make_price_domain (rc_minimum_price c) (unat (rc_tick_count c)) = Inr d"
    using l(1,3) by (simp add: make_price_domain_def checked_maximum_def Let_def d_def)
  have ok: "domain_ok d" "pd_tick_count d = unat (rc_tick_count c)" using make_price_domain_ok [OF p(2) d] by auto
  have g: "pd_minimum d = gc_min_price (gateway_config_of c)" "pd_maximum d = gc_max_price (gateway_config_of c)"
    unfolding d_def gateway_config_of_def l(14) by simp_all
  have n: "unat (rc_max_orders c) \<le> kUint32Max" by (rule order.trans [OF l(5)]) (simp add: kMaximumSnapshotSlots_def kUint32Max_def)
  obtain b where b: "make_book d (unat (rc_max_orders c)) (rc_max_quantity c) STP_None Fifo 0 Continuous = Inr b"
    by (rule make_book_accepts [OF ok(1) _ n l(6,7)]) (use l(2) ok(2) in simp)
  then obtain e where e: "make_engine d (unat (rc_max_orders c)) (rc_max_quantity c) next 0 STP_None Fifo 0 Continuous = Inr e"
      "se_book e = b" "se_trade_capacity e = unat (rc_max_orders c)"
    using assms(2) by (auto simp: make_engine_def sum_bind_def)
  have st: "storable (se_book e)" unfolding e(2) by (rule new_book_storable [OF b ok(1) l(5)])
  obtain commands where q: "make_spsc sz x (unat (rc_command_queue_capacity c)) = Inr commands"
    by (rule make_spsc_accepts [OF l(8,9) assms(3,4)])
  have "0 < unat (rc_event_queue_capacity c)" using l(11) by simp
  then obtain events where v: "make_spsc sz' default_event (unat (rc_event_queue_capacity c)) = Inr events"
      "q_capacity events = unat (rc_event_queue_capacity c)"
    by (rule make_spsc_accepts [OF _ l(10) assms(5,6)])
  obtain m where "make_matching (Some e) events = Inr m"
    using l(11) by (auto simp: make_matching_def maximum_event_capacity_def e(3) v(2))
  with d g e(1) st q v(1) checked_file_size_Some(1) [OF l(12,13)]
    snapshot_path_parsed [OF accepted_paths(1) [OF assms(1)]] journal_prefix_opened [OF accepted_paths(2) [OF assms(1)]] show ?thesis by blast
qed

definition demo_entries :: "string \<Rightarrow> string list" where
  "demo_entries snapshot = [''minimum-price=-5'', ''tick-count=10'', ''max-orders=4'', ''max-quantity=100'', ''command-queue-capacity=8'',
     ''event-queue-capacity=9'', ''journal-segment-capacity=16'', ''journal-prefix=log/j'', ''snapshot-path='' @ snapshot, ''max-lanes=2'',
     ''max-notional=1000'', ''max-orders-per-second=50'']"

definition demo_config :: "string \<Rightarrow> runtime_config" where
  "demo_config snapshot = projr (parse_runtime_config (demo_entries snapshot))"

lemma demo_config_parsed:
  "parse_runtime_config (demo_entries ''state/book'') = Inr (demo_config ''state/book'')"
  "parse_runtime_config (demo_entries ''state/..'') = Inr (demo_config ''state/..'')"
  by code_simp+

theorem accepted_config_builds_witness:
  "\<forall>files listing. (\<exists>d e. make_price_domain (-5) 10 = Inr d \<and> make_engine d 4 100 1 0 STP_None Fifo 0 Continuous = Inr e \<and> storable (se_book e)) \<and>
   parse_path (rc_snapshot_path (demo_config ''state/book'')) = Inr ''book'' \<and>
   open_segment_set files listing (rc_journal_prefix (demo_config ''state/book'')) \<noteq> Inl JS_Invalid_Path"
proof (intro allI)
  fix files listing
  let ?c = "demo_config ''state/book''"
  have c: "rc_minimum_price ?c = -5" "unat (rc_tick_count ?c) = 10" "unat (rc_max_orders ?c) = 4" "rc_max_quantity ?c = 100"
    "path_filename (rc_snapshot_path ?c) = ''book''" "path_filename (rc_journal_prefix ?c) = ''j''"
    by code_simp+
  from accepted_config_builds [OF demo_config_parsed(1), of 1 52 64 undefined files listing] c
  show "(\<exists>d e. make_price_domain (-5) 10 = Inr d \<and> make_engine d 4 100 1 0 STP_None Fifo 0 Continuous = Inr e \<and> storable (se_book e)) \<and>
    parse_path (rc_snapshot_path ?c) = Inr ''book'' \<and> open_segment_set files listing (rc_journal_prefix ?c) \<noteq> Inl JS_Invalid_Path" by auto
qed

text \<open>
  The check of the paths is weaker than the one of the snapshot writer: a path whose last component is the parent directory is
  accepted by the configuration and refused, as an invalid path, by every save and load.
\<close>

theorem accepted_path_refused:
  "\<exists>c. parse_runtime_config (demo_entries ''state/..'') = Inr c \<and> parse_path (rc_snapshot_path c) = Inl SN_Invalid_Path"
proof -
  have "parse_path (rc_snapshot_path (demo_config ''state/..'')) = Inl SN_Invalid_Path" by code_simp
  then show ?thesis using demo_config_parsed(2) by blast
qed

end
