(* ===== verification/Snapshot_Total.thy ===== *)
theory Snapshot_Total
  imports Snapshot_Properties
begin

text \<open>
  Decoding returns on every input, however corrupt: the walk of the free list marks every slot it passes, and the check of the book is
  total.  What it accepts is consistent with the snapshot point and has passed the book's check.
\<close>

section \<open>The free list\<close>

lemma unseen_less: "i < length ss \<Longrightarrow> \<not> ss ! i \<Longrightarrow> length (filter Not (ss[i := True])) < length (filter Not ss)"
proof (induction ss arbitrary: i)
  case (Cons x ss)
  then show ?case by (cases i) auto
qed simp

lemma walk_free_list_returns: "length ss = ar_capacity a \<Longrightarrow> \<exists>r. walk_free_list a i ss n = Some r"
proof (induction "length (filter Not ss)" arbitrary: i ss n rule: less_induct)
  case less
  show ?case
  proof (cases "i = kInvalidIndex \<or> i \<ge> ar_capacity a \<or> sl_live (ar_slots a ! i) \<or> ss ! i")
    case False
    then have "length (filter Not (ss[i := True])) < length (filter Not ss)" using less.prems by (intro unseen_less) auto
    then show ?thesis
      using less.hyps [of "ss[i := True]" "sl_free_next (ar_slots a ! i)" "n + 1"] less.prems False by (subst walk_free_list.simps) simp
  qed (subst walk_free_list.simps; auto)
qed

lemma check_free_list_returns: "\<exists>x. check_free_list a n = Some x"
  using walk_free_list_returns [of "replicate (ar_capacity a) False" a "ar_free_head a" 0]
  by (auto simp: check_free_list_def split: sum.split)

section \<open>The slots\<close>

lemma decode_live_slot_marks:
  assumes "decode_live_slot h b i = Inr b'"
  shows "ob_visit_marks b' = ob_visit_marks b \<and> slots b' = slots b"
  using assms by (auto simp: decode_live_slot_def add_stop_def add_active_def Let_def split: if_splits)

lemma decode_slot_marks:
  assumes "decode_slot bs h i (b, n) = Inr (b', n')"
  shows "ob_visit_marks b' = ob_visit_marks b \<and> slots b' = slots b"
proof -
  have "ob_visit_marks (set_slot b i sl) = ob_visit_marks b" "slots (set_slot b i sl) = slots b"
    "ob_visit_marks (read_arrays bs v o' i (set_slot b i sl)) = ob_visit_marks b" "slots (read_arrays bs v o' i (set_slot b i sl)) = slots b" for sl v o'
    by (simp_all add: set_slot_def read_arrays_def Let_def)
  then show ?thesis
    using assms decode_live_slot_marks by (auto simp: decode_slot_def Let_def sum_bind_Inr split: if_splits)
qed

lemma decode_slots_marks:
  "decode_slots bs h is (b, n) = Inr (b', n') \<Longrightarrow> ob_visit_marks b' = ob_visit_marks b \<and> slots b' = slots b"
proof (induction "is" arbitrary: b n)
  case (Cons i "is")
  then obtain b1 n1 where "decode_slot bs h i (b, n) = Inr (b1, n1)" "decode_slots bs h is (b1, n1) = Inr (b', n')"
    by (auto simp: sum_bind_Inr)
  then show ?case using Cons.IH [of b1 n1] decode_slot_marks [of bs h i b n b1 n1] by simp
qed simp

lemma empty_engine_fields:
  assumes "empty_engine bs h = Inr e"
  shows "length (ob_visit_marks (se_book e)) = slots (se_book e)" "slots (se_book e) = sh_capacity h" "se_next_sequence e = sh_next_sequence h"
    "se_last_logical_time e = sh_last_time h" "se_sequence_exhausted e \<longleftrightarrow> sh_exhausted h = 1"
  using assms
  by (auto simp: empty_engine_def make_engine_def make_book_def make_arena_def checked_capacity_def sum_bind_Inr Let_def split: if_splits)

text \<open>A book that the self-check has just passed.\<close>

definition checked_book :: "book \<Rightarrow> bool" where
  "checked_book b \<longleftrightarrow> (\<exists>b1 x. check_invariants b1 = Some (x, b) \<and> ir_violation x = IV_None)"

lemma decode_book_returns:
  assumes "length (ob_visit_marks b0) = slots b0"
  obtains r where "decode_book bs h b0 = Some r"
    "\<forall>b. r = Inr b \<longrightarrow> slots b = slots b0 \<and> checked_book b"
proof (cases "decode_slots bs h [0..<sh_capacity h] (b0, 0)")
  case (Inl err)
  then show thesis by (intro that [of "Inl err"]) (simp_all add: decode_book_def)
next
  case (Inr r)
  then obtain b1 n where r: "r = (b1, n)" by (cases r)
  have m: "length (ob_visit_marks b1) = slots b1" "slots b1 = slots b0" using decode_slots_marks [of bs h "[0..<sh_capacity h]" b0 0 b1 n] Inr r assms by auto
  obtain x where x: "check_free_list (ob_arena b1) (sh_live_count h) = Some x" using check_free_list_returns by blast
  obtain y ms e where c: "check_invariants b1 = Some (y, visited b1 ms e)" by (rule check_invariants_returns [OF m(1)])
  have "decode_book bs h b0 = Some (if n \<noteq> sh_live_count h then Inl SN_Live_Count_Mismatch else if x \<noteq> SN_None then Inl x
      else if ir_violation y \<noteq> IV_None then Inl (snapshot_invariant_error (ir_violation y)) else Inr (visited b1 ms e))"
    using Inr r x c by (simp add: decode_book_def)
  moreover have "slots b = slots b0 \<and> checked_book b"
    if "b = visited b1 ms e" "ir_violation y = IV_None" for b using c m(2) that by (auto simp: checked_book_def)
  ultimately show thesis by (intro that) (auto split: if_splits)
qed

lemma parse_accepts:
  assumes "parse_snapshot_header bs = Inr h"
  shows "h = read_header bs" "\<not> sequence_invalid h" "sh_capacity h \<le> kMaximumSnapshotSlots" "snapshot_crc bs = read_u32 bs kChecksumOffset"
  using assms by (auto simp: parse_snapshot_header_def Let_def split: if_splits)

text \<open>
  C17. Decoding returns on every sequence of bytes.  When it accepts, the checksum is right, the point is the one the engine's clock is
  at, the arena is within the size limit, and the book is one the self-check has just passed.
\<close>

theorem decode_snapshot_returns:
  "\<exists>r. decode_snapshot bytes = Some r \<and> (\<forall>e p. r = Inr (e, p) \<longrightarrow>
     snapshot_crc bytes = read_u32 bytes kChecksumOffset \<and> point_matches e p \<and> slots (se_book e) \<le> kMaximumSnapshotSlots \<and>
     checked_book (se_book e))"
proof (cases "parse_snapshot_header bytes")
  case (Inl err)
  then show ?thesis by (simp add: decode_snapshot_def)
next
  case (Inr h)
  note a = parse_accepts [OF Inr]
  show ?thesis
  proof (cases "empty_engine bytes h")
    case (Inl x)
    then show ?thesis using Inr by (simp add: decode_snapshot_def)
  next
    case e0: (Inr e0)
    note f = empty_engine_fields [OF e0]
    obtain r where r: "decode_book bytes h (se_book e0) = Some r"
      "\<forall>b. r = Inr b \<longrightarrow> slots b = slots (se_book e0) \<and> checked_book b"
      by (rule decode_book_returns [OF f(1), of bytes h])
    have "unat (sh_exhausted h) \<le> 1" using a(2) by (auto simp: sequence_invalid_def not_less word_le_nat_alt)
    then have "unat (sh_exhausted h) = unat (0 :: u32) \<or> unat (sh_exhausted h) = unat (1 :: u32)" by auto
    then have "sh_exhausted h = 0 \<or> sh_exhausted h = 1" by (simp only: word_unat_eq_iff)
    then have "point_matches (e0\<lparr>se_book := b\<rparr>) (sh_point h)" for b
      using a(2) f(3-5) by (auto simp: point_matches_def sequence_invalid_def)
    then show ?thesis
      using Inr e0 r a(3,4) f(2) by (cases r) (auto simp: decode_snapshot_def)
  qed
qed

theorem decode_snapshot_returns_witness:
  "\<exists>bytes e. decode_snapshot bytes = Some (Inr (e, demo_point)) \<and> point_matches e demo_point \<and> slots (se_book e) \<le> kMaximumSnapshotSlots"
proof -
  obtain e where "decode_snapshot (encode_bytes demo_engine demo_point) = Some (Inr (e, demo_point))"
    by (rule decode_encoded [OF demo_storable(1,3,2)])
  then show ?thesis using decode_snapshot_returns [of "encode_bytes demo_engine demo_point"] by auto
qed

end
