(* ===== verification/Spsc_Concurrent.thy ===== *)
theory Spsc_Concurrent
  imports Spsc_Queue
begin

text \<open>
  The two threads of the queue, interleaved at their shared accesses: the load of the published head,
  each slot write and the release of the tail on one side; the load of the published tail, the slot
  read and the release of the head on the other.  The acquire and release orders of the source make
  the accesses of one thread visible to the other in program order, so an interleaving of these steps
  is an execution.  A consumer that has read a slot either releases it (a pop) or not (a peek).  Two ghost lists record what was
  published and what was taken.
\<close>

section \<open>Steps\<close>

datatype 'a producer_pc = P_Idle | P_Write "'a list" nat

datatype 'a consumer_pc = C_Idle | C_Read | C_Got 'a

record 'a duo =
  du_queue :: "'a spsc"
  du_producer :: "'a producer_pc"
  du_consumer :: "'a consumer_pc"
  du_pushed :: "'a list"
  du_popped :: "'a list"

inductive duo_step :: "'a duo \<Rightarrow> 'a duo \<Rightarrow> bool" where
  load_head: "du_producer d = P_Idle \<Longrightarrow> values \<noteq> [] \<Longrightarrow> length values \<le> q_capacity (du_queue d) \<Longrightarrow>
    producer_available (du_queue d) = (n, q) \<Longrightarrow>
    duo_step d (d\<lparr>du_queue := q, du_producer := (if n < length values then P_Idle else P_Write values 0)\<rparr>)"
| store_slot: "du_producer d = P_Write values i \<Longrightarrow> i < length values \<Longrightarrow>
    duo_step d (d\<lparr>du_queue := write_slot (q_tail (du_queue d)) i (values ! i) (du_queue d), du_producer := P_Write values (i + 1)\<rparr>)"
| release_tail: "du_producer d = P_Write values (length values) \<Longrightarrow>
    duo_step d (d\<lparr>du_queue := publish_tail (length values) (du_queue d), du_producer := P_Idle, du_pushed := du_pushed d @ values\<rparr>)"
| load_tail: "du_consumer d = C_Idle \<Longrightarrow> q = refresh_tail (du_queue d) \<Longrightarrow>
    duo_step d (d\<lparr>du_queue := q, du_consumer := (if q_head q = q_cached_tail q then C_Idle else C_Read)\<rparr>)"
| load_slot: "du_consumer d = C_Read \<Longrightarrow>
    duo_step d (d\<lparr>du_consumer := C_Got (q_slots (du_queue d) ! slot_of (du_queue d) (q_head (du_queue d)))\<rparr>)"
| release_head: "du_consumer d = C_Got v \<Longrightarrow>
    duo_step d (d\<lparr>du_queue := publish_head (du_queue d), du_consumer := C_Idle, du_popped := du_popped d @ [v]\<rparr>)"
| keep_head: "du_consumer d = C_Got v \<Longrightarrow> duo_step d (d\<lparr>du_consumer := C_Idle\<rparr>)"

inductive_cases duo_stepE: "duo_step d d'"

definition start :: "'a spsc \<Rightarrow> 'a duo" where
  "start q = \<lparr>du_queue = q, du_producer = P_Idle, du_consumer = C_Idle, du_pushed = [], du_popped = []\<rparr>"

section \<open>The invariant\<close>

text \<open>How much room the producer has reserved, and what it has already written into it.\<close>

fun reserved :: "'a producer_pc \<Rightarrow> nat" where
  "reserved P_Idle = 0"
| "reserved (P_Write vs i) = length vs"

fun written :: "'a spsc \<Rightarrow> 'a producer_pc \<Rightarrow> bool" where
  "written q P_Idle \<longleftrightarrow> True"
| "written q (P_Write vs i) \<longleftrightarrow> i \<le> length vs \<and> (\<forall>j < i. q_slots q ! slot_of q (q_tail q + word_of_nat j) = vs ! j)"

definition taken_ok :: "'a spsc \<Rightarrow> 'a consumer_pc \<Rightarrow> bool" where
  "taken_ok q pc = (case pc of C_Idle \<Rightarrow> True | C_Read \<Rightarrow> q_head q \<noteq> q_cached_tail q
     | C_Got v \<Rightarrow> q_head q \<noteq> q_cached_tail q \<and> contents q \<noteq> [] \<and> v = hd (contents q))"

definition duo_ok :: "'a duo \<Rightarrow> bool" where
  "duo_ok d \<longleftrightarrow> spsc_ok (du_queue d) \<and> outstanding (du_queue d) + reserved (du_producer d) \<le> q_capacity (du_queue d) \<and>
     spsc_fits (du_queue d) (reserved (du_producer d)) \<and> written (du_queue d) (du_producer d) \<and>
     taken_ok (du_queue d) (du_consumer d) \<and> du_pushed d = du_popped d @ contents (du_queue d) \<and>
     q_head (du_queue d) = word_of_nat (length (du_popped d))"

text \<open>The indices do not wrap in a harmful way over the history.\<close>

definition no_harmful_wrap :: "'a duo \<Rightarrow> bool" where
  "no_harmful_wrap d \<longleftrightarrow> q_capacity (du_queue d) dvd 2 ^ 64 \<or> length (du_pushed d) + q_capacity (du_queue d) < 2 ^ 64"

lemma window_distinct:
  assumes ok: "spsc_ok q" and room: "outstanding q + r \<le> q_capacity q" and fits: "spsc_fits q r"
    and "i < outstanding q + r" "j < outstanding q + r" "slot_of q (q_head q + word_of_nat i) = slot_of q (q_head q + word_of_nat j)"
  shows "i = j"
  using linear_inj [of "q_capacity q" "q_head q" "outstanding q + r" i j] assms by (simp add: spsc_fits_def slot_of_def)

lemma write_slot_frame [simp]:
  "q_capacity (write_slot t k v q) = q_capacity q" "q_tail (write_slot t k v q) = q_tail q" "q_head (write_slot t k v q) = q_head q"
  "q_cached_tail (write_slot t k v q) = q_cached_tail q" "outstanding (write_slot t k v q) = outstanding q"
  "length (q_slots (write_slot t k v q)) = length (q_slots q)" "slot_of (write_slot t k v q) = slot_of q"
  by (auto simp: write_slot_def outstanding_def slot_of_def)

lemma write_slot_ok [simp]: "spsc_ok (write_slot t k v q) = spsc_ok q" "spsc_fits (write_slot t k v q) n = spsc_fits q n"
  by (simp_all add: spsc_ok_def spsc_fits_def) (simp add: write_slot_def)

lemma store_contents:
  assumes "spsc_ok q" "outstanding q + r \<le> q_capacity q" "spsc_fits q r" "i < r"
  shows "contents (write_slot (q_tail q) i v q) = contents q"
proof (rule nth_equalityI)
  fix k assume "k < length (contents (write_slot (q_tail q) i v q))"
  then have k: "k < outstanding q" by simp
  have "slot_of q (q_head q + word_of_nat k) \<noteq> slot_of q (q_tail q + word_of_nat i)"
    using window_distinct [OF assms(1-3), of "outstanding q + i" k] k assms(4) unfolding slot_offset by auto
  then show "contents (write_slot (q_tail q) i v q) ! k = contents q ! k"
    using k by (simp add: contents_def) (simp add: write_slot_def)
qed simp

lemma publish_contents:
  assumes ok: "spsc_ok q" and room: "outstanding q + length vs \<le> q_capacity q" and fits: "spsc_fits q (length vs)"
    and w: "\<forall>j < length vs. q_slots q ! slot_of q (q_tail q + word_of_nat j) = vs ! j"
  shows "spsc_ok (publish_tail (length vs) q) \<and> contents (publish_tail (length vs) q) = contents q @ vs"
proof -
  let ?q = "publish_tail (length vs) q"
  have out: "outstanding ?q = outstanding q + length vs"
    using outstanding_grow [OF ok, of "length vs"] room by (simp add: outstanding_def publish_tail_def)
  have f: "q_capacity ?q = q_capacity q" "q_head ?q = q_head q" "q_slots ?q = q_slots q" "slot_of ?q = slot_of q"
    "q_published_tail ?q = q_tail ?q" "q_published_head ?q = q_published_head q" "q_cached_tail ?q = q_cached_tail q"
    by (auto simp: publish_tail_def slot_of_def)
  have "contents ?q = contents q @ vs"
  proof (rule nth_equalityI)
    fix i assume "i < length (contents ?q)"
    then have i: "i < outstanding q + length vs" by (simp add: out)
    have e: "contents ?q ! i = q_slots q ! slot_of q (q_head q + word_of_nat i)" using i by (simp add: contents_def out f)
    show "contents ?q ! i = (contents q @ vs) ! i"
    proof (cases "i < outstanding q")
      case True
      then show ?thesis using e by (simp add: nth_append) (simp add: contents_def)
    next
      case False
      then obtain j where j: "i = outstanding q + j" "j < length vs" using i le_Suc_ex by fastforce
      have "q_slots q ! slot_of q (q_head q + word_of_nat i) = vs ! j" using w j(2) unfolding j(1) slot_offset [symmetric] by blast
      then show ?thesis using e j by (simp add: nth_append)
    qed
  qed (simp add: out)
  moreover have "spsc_ok ?q" using ok room fits by (simp add: spsc_ok_def spsc_fits_def out f)
  ultimately show ?thesis by simp
qed

lemma linear_pop:
  assumes "linear cap h n" "n \<noteq> 0" shows "linear cap (h + 1) (n - 1)"
proof -
  have "unat (h + 1) + (n - 1) \<le> 2 ^ 64" if "unat h + n \<le> 2 ^ 64"
    using that assms(2) unat_add_of_nat [of h 1] mod_less_eq_dividend [of "unat h + 1" "2 ^ 64"] by simp
  then show ?thesis using assms(1) unfolding linear_def by metis
qed

lemma duo_step_mono:
  assumes "duo_step d d'"
  shows "q_capacity (du_queue d') = q_capacity (du_queue d) \<and> length (du_pushed d) \<le> length (du_pushed d')"
  using assms
  by (cases rule: duo_step.cases) (auto simp: producer_available_def Let_def publish_tail_def refresh_tail_def publish_head_def)

lemma duo_step_ok:
  assumes step: "duo_step d d'" and ok: "duo_ok d" and wrap: "no_harmful_wrap d"
  shows "duo_ok d'"
proof -
  let ?q = "du_queue d"
  have q: "spsc_ok ?q" "outstanding ?q + reserved (du_producer d) \<le> q_capacity ?q" "spsc_fits ?q (reserved (du_producer d))"
    "written ?q (du_producer d)" "taken_ok ?q (du_consumer d)" "du_pushed d = du_popped d @ contents ?q"
    "q_head ?q = word_of_nat (length (du_popped d))"
    using ok by (simp_all add: duo_ok_def)
  from step show ?thesis
  proof (cases rule: duo_step.cases)
    case (load_head vs n q')
    note a = available_contents [OF q(1) load_head(5)]
    have same: "q_slots q' = q_slots ?q" "q_cached_tail q' = q_cached_tail ?q" "slot_of q' = slot_of ?q"
      using load_head(5) by (auto simp: producer_available_def Let_def slot_of_def)
    have room: "outstanding ?q + length vs \<le> q_capacity ?q" if "\<not> n < length vs"
    proof -
      have "outstanding ?q \<le> q_capacity ?q" "n = q_capacity ?q - outstanding ?q" using a q(2) by simp_all
      then show ?thesis using that by linarith
    qed
    have fits: "spsc_fits q' (length vs)" if n: "\<not> n < length vs"
    proof -
      have "unat (q_head ?q) \<le> length (du_popped d)" by (simp add: q(7) unsigned_of_nat take_bit_eq_mod)
      moreover note room [OF n]
      moreover have "length (du_popped d) \<le> length (du_pushed d)" using q(6) by simp
      ultimately have "q_capacity ?q dvd 2 ^ 64 \<or> unat (q_head ?q) + (outstanding ?q + length vs) \<le> 2 ^ 64"
        using wrap unfolding no_harmful_wrap_def by linarith
      then show ?thesis using a by (simp add: spsc_fits_def linear_def)
    qed
    have fits0: "spsc_fits q' 0" using a q(1) by (simp add: spsc_fits_def) (simp add: spsc_ok_def)
    have tk: "taken_ok q' (du_consumer d)" using q(5) a same by (simp add: taken_ok_def split: consumer_pc.splits)
    show ?thesis
    proof (cases "n < length vs")
      case True
      moreover have "outstanding q' \<le> q_capacity q'" using a q(2) by simp
      ultimately show ?thesis using load_head(1) a q fits0 tk by (simp add: duo_ok_def)
    next
      case False
      then show ?thesis using load_head(1) a q fits tk room by (simp add: duo_ok_def)
    qed
  next
    case (store_slot vs i)
    let ?q' = "write_slot (q_tail ?q) i (vs ! i) ?q"
    have r: "outstanding ?q + length vs \<le> q_capacity ?q" "spsc_fits ?q (length vs)" using q(2,3) store_slot(2) by simp_all
    have c: "contents ?q' = contents ?q" by (rule store_contents [OF q(1) r store_slot(3)])
    have "q_slots ?q' ! slot_of ?q (q_tail ?q + word_of_nat j) = vs ! j" if "j < i + 1" for j
    proof (cases "j = i")
      case True
      have "slot_of ?q w < q_capacity ?q" for w using q(1) by (simp add: slot_of_def spsc_ok_def)
      then show ?thesis using True q(1) by (simp add: write_slot_def spsc_ok_def)
    next
      case False
      then have "slot_of ?q (q_tail ?q + word_of_nat j) \<noteq> slot_of ?q (q_tail ?q + word_of_nat i)"
        using window_distinct [OF q(1) r, of "outstanding ?q + j" "outstanding ?q + i"] that store_slot(3) unfolding slot_offset by auto
      then show ?thesis using q(4) store_slot(2) False that by (simp add: write_slot_def)
    qed
    then have "written ?q' (P_Write vs (i + 1))" using store_slot(3) by simp
    then show ?thesis using store_slot(1) q r c by (simp add: duo_ok_def taken_ok_def split: consumer_pc.splits)
  next
    case (release_tail vs)
    let ?q' = "publish_tail (length vs) ?q"
    have p: "spsc_ok ?q' \<and> contents ?q' = contents ?q @ vs"
      using publish_contents [OF q(1), of vs] q(2-4) release_tail(2) by simp
    have f: "q_head ?q' = q_head ?q" "q_cached_tail ?q' = q_cached_tail ?q" by (simp_all add: publish_tail_def)
    have "taken_ok ?q' (du_consumer d)" using q(5) p f by (auto simp: taken_ok_def split: consumer_pc.splits)
    moreover have "outstanding ?q' \<le> q_capacity ?q'" "spsc_fits ?q' 0" using p by (simp_all add: spsc_ok_def spsc_fits_def)
    ultimately show ?thesis using release_tail(1) p q(6,7) f by (simp add: duo_ok_def)
  next
    case (load_tail q')
    note r = refresh_contents [OF q(1)]
    have f: "q_tail q' = q_tail ?q" "slot_of q' = slot_of ?q" "q_slots q' = q_slots ?q"
      unfolding load_tail(3) by (auto simp: refresh_tail_def slot_of_def)
    have "written q' (du_producer d)" using q(4) f by (cases "du_producer d") simp_all
    then show ?thesis using load_tail q r by (simp add: duo_ok_def taken_ok_def spsc_fits_def)
  next
    case load_slot
    have "unat (q_cached_tail ?q - q_head ?q) \<le> outstanding ?q" "q_head ?q \<noteq> q_cached_tail ?q"
      using q(1,5) load_slot(2) by (simp_all add: spsc_ok_def taken_ok_def)
    then have "outstanding ?q \<noteq> 0" by (metis le_zero_eq right_minus_eq unat_eq_0)
    then have "contents ?q \<noteq> []" "hd (contents ?q) = q_slots ?q ! slot_of ?q (q_head ?q)"
      using hd_contents [of ?q] by (metis list.distinct(1), metis list.sel(1))
    then show ?thesis using load_slot q by (simp add: duo_ok_def taken_ok_def)
  next
    case (release_head v)
    let ?q' = "publish_head ?q"
    have t: "q_head ?q \<noteq> q_cached_tail ?q" "contents ?q \<noteq> []" "v = hd (contents ?q)" using q(5) release_head(2) by (simp_all add: taken_ok_def)
    then have ne: "outstanding ?q \<noteq> 0" by (metis length_contents length_0_conv)
    note p = pop_contents [OF q(1) ne t(1)]
    have f: "q_tail ?q' = q_tail ?q" "slot_of ?q' = slot_of ?q" "q_slots ?q' = q_slots ?q" "q_head ?q' = q_head ?q + 1"
      by (auto simp: publish_head_def slot_of_def)
    have out: "outstanding ?q' = outstanding ?q - 1" using p length_contents [of ?q'] by (metis length_contents length_tl)
    have "written ?q' (du_producer d)" using q(4) f by (cases "du_producer d") simp_all
    moreover have "spsc_fits ?q' (reserved (du_producer d))"
      using linear_pop [of "q_capacity ?q" "q_head ?q" "outstanding ?q + reserved (du_producer d)"] q(3) p f(4) out ne
      by (simp add: spsc_fits_def)
    moreover have "du_pushed d = (du_popped d @ [v]) @ contents ?q'" using q(6) p t by simp
    ultimately show ?thesis using release_head(1) p q(2,7) f out by (simp add: duo_ok_def taken_ok_def)
  next
    case (keep_head v)
    then show ?thesis using q by (simp add: duo_ok_def taken_ok_def)
  qed
qed

lemma duo_reachable_ok:
  assumes "duo_step\<^sup>*\<^sup>* (start q) d" "spsc_ok q" "contents q = []" "q_head q = 0" "no_harmful_wrap d"
  shows "duo_ok d"
  using assms(1,5)
proof (induction rule: rtranclp_induct)
  case base
  have "outstanding q = 0" using assms(3) length_contents [of q] by simp
  then show ?case using assms(2-4) by (simp add: duo_ok_def start_def taken_ok_def spsc_fits_def) (simp add: spsc_ok_def linear_def)
next
  case (step d d')
  have "no_harmful_wrap d" using step.prems duo_step_mono [OF step.hyps(2)] by (auto simp: no_harmful_wrap_def)
  then show ?case using duo_step_ok [OF step.hyps(2)] step.IH by blast
qed

section \<open>Properties\<close>

text \<open>
  C19. Under every interleaving of the two threads the queue is first in, first out: what the consumer has
  taken is a prefix of what the producer has published, the rest is what the ring holds and never
  exceeds the capacity, and a batch becomes visible as a whole.  The slot the producer is about to
  write holds no published element, so no slot is written while the consumer may read it.  This needs
  a capacity that divides \<open>2 ^ 64\<close>, or fewer than \<open>2 ^ 64 - capacity\<close> elements over the queue's life.
\<close>

theorem spsc_fifo_under_interleaving:
  assumes "make_spsc sz x n = Inr q" "duo_step\<^sup>*\<^sup>* (start q) d"
    and "n dvd 2 ^ 64 \<or> length (du_pushed d) + n < 2 ^ 64"
  shows "du_pushed d = du_popped d @ contents (du_queue d) \<and> length (contents (du_queue d)) \<le> n \<and>
    (\<forall>vs i k. du_producer d = P_Write vs i \<and> i < length vs \<and> k < length (contents (du_queue d)) \<longrightarrow>
       slot_of (du_queue d) (q_tail (du_queue d) + word_of_nat i) \<noteq> slot_of (du_queue d) (q_head (du_queue d) + word_of_nat k))"
proof -
  note m = make_spsc_ok [OF assms(1)]
  have cap: "q_capacity (du_queue d) = n" using assms(2)
    by (induction rule: rtranclp_induct) (use m duo_step_mono in \<open>auto simp: start_def\<close>)
  have "duo_ok d" by (rule duo_reachable_ok [OF assms(2)]) (use m assms(3) cap in \<open>auto simp: no_harmful_wrap_def\<close>)
  then have ok: "spsc_ok (du_queue d)" "outstanding (du_queue d) + reserved (du_producer d) \<le> q_capacity (du_queue d)"
    "spsc_fits (du_queue d) (reserved (du_producer d))" "du_pushed d = du_popped d @ contents (du_queue d)" by (simp_all add: duo_ok_def)
  have "slot_of (du_queue d) (q_tail (du_queue d) + word_of_nat i) \<noteq> slot_of (du_queue d) (q_head (du_queue d) + word_of_nat k)"
    if "du_producer d = P_Write vs i" "i < length vs" "k < outstanding (du_queue d)" for vs i k
    using window_distinct [OF ok(1-3), of "outstanding (du_queue d) + i" k] that unfolding slot_offset by auto
  then show ?thesis using ok cap by (auto simp: spsc_ok_def)
qed

definition demo_queue :: "nat spsc" where
  "demo_queue = \<lparr>q_capacity = 3, q_slots = [0, 0, 0], q_tail = 0, q_cached_head = 0, q_published_tail = 0,
     q_head = 0, q_cached_tail = 0, q_published_head = 0, q_producer_claimed = False, q_consumer_claimed = False\<rparr>"

lemma demo_queue_make: "make_spsc 8 (0::nat) 3 = Inr demo_queue"
  by code_simp

text \<open>A producer and a consumer that overlap: the second push starts before, and ends after, the first pop.\<close>

lemma demo_overlap:
  "\<exists>d. duo_step\<^sup>*\<^sup>* (start demo_queue) d \<and> du_pushed d = [5, 6, 7] \<and> du_popped d = [5]"
proof -
  define d0 where "d0 = start demo_queue"
  define d1 where "d1 = d0\<lparr>du_producer := P_Write [5, 6] 0\<rparr>"
  define d2 where "d2 = d1\<lparr>du_queue := demo_queue\<lparr>q_slots := [5, 0, 0]\<rparr>, du_producer := P_Write [5, 6] 1\<rparr>"
  define d3 where "d3 = d2\<lparr>du_queue := demo_queue\<lparr>q_slots := [5, 6, 0]\<rparr>, du_producer := P_Write [5, 6] (Suc (Suc 0))\<rparr>"
  define d4 where "d4 = d3\<lparr>du_queue := demo_queue\<lparr>q_slots := [5, 6, 0], q_tail := 2, q_published_tail := 2\<rparr>, du_producer := P_Idle, du_pushed := [5, 6]\<rparr>"
  define d5 where "d5 = d4\<lparr>du_queue := (du_queue d4)\<lparr>q_cached_tail := 2\<rparr>, du_consumer := C_Read\<rparr>"
  define d6 where "d6 = d5\<lparr>du_producer := P_Write [7] 0\<rparr>"
  define d7 where "d7 = d6\<lparr>du_consumer := C_Got 5\<rparr>"
  define d8 where "d8 = d7\<lparr>du_queue := (du_queue d7)\<lparr>q_slots := [5, 6, 7]\<rparr>, du_producer := P_Write [7] 1\<rparr>"
  define d9 where "d9 = d8\<lparr>du_queue := (du_queue d8)\<lparr>q_head := 1, q_published_head := 1\<rparr>, du_consumer := C_Idle, du_popped := [5]\<rparr>"
  define d10 where "d10 = d9\<lparr>du_queue := (du_queue d9)\<lparr>q_tail := 3, q_published_tail := 3\<rparr>, du_producer := P_Idle, du_pushed := [5, 6, 7]\<rparr>"
  note ds = d0_def d1_def d2_def d3_def d4_def d5_def d6_def d7_def d8_def d9_def d10_def start_def demo_queue_def
  have "duo_step d0 d1" using duo_step.load_head [of d0 "[5, 6]" 3 demo_queue] by (simp add: ds producer_available_def)
  moreover have "duo_step d1 d2" using duo_step.store_slot [of d1 "[5, 6]" 0] by (simp add: ds write_slot_def slot_of_def)
  moreover have "duo_step d2 d2" using duo_step.load_tail [of d2 "du_queue d2"] by (simp add: ds refresh_tail_def)
  moreover have "duo_step d2 d3" using duo_step.store_slot [of d2 "[5, 6]" 1] by (simp add: ds write_slot_def slot_of_def)
  moreover have "duo_step d3 d4" using duo_step.release_tail [of d3 "[5, 6]"] by (simp add: ds publish_tail_def)
  moreover have "duo_step d4 d5" using duo_step.load_tail [of d4 "du_queue d5"] by (simp add: ds refresh_tail_def)
  moreover have "duo_step d5 d6" using duo_step.load_head [of d5 "[7]" 1 "du_queue d5"] by (simp add: ds producer_available_def)
  moreover have "duo_step d6 d7" using duo_step.load_slot [of d6] by (simp add: ds slot_of_def)
  moreover have "duo_step d7 d8" using duo_step.store_slot [of d7 "[7]" 0] by (simp add: ds write_slot_def slot_of_def)
  moreover have "duo_step d8 d9" using duo_step.release_head [of d8 5] by (simp add: ds publish_head_def)
  moreover have "duo_step d9 d10" using duo_step.release_tail [of d9 "[7]"] by (simp add: ds publish_tail_def)
  ultimately have "duo_step\<^sup>*\<^sup>* d0 d10" by (meson converse_rtranclp_into_rtranclp rtranclp.rtrancl_refl)
  moreover have "du_pushed d10 = [5, 6, 7]" "du_popped d10 = [5]" by (simp_all add: ds)
  ultimately show ?thesis unfolding d0_def by blast
qed

theorem spsc_fifo_under_interleaving_witness:
  "\<exists>d. duo_step\<^sup>*\<^sup>* (start demo_queue) d \<and> du_pushed d = [5, 6, 7] \<and> du_popped d = [5] \<and> contents (du_queue d) = [6, 7]"
proof -
  obtain d where d: "duo_step\<^sup>*\<^sup>* (start demo_queue) d" "du_pushed d = [5, 6, 7]" "du_popped d = [5]" using demo_overlap by blast
  have "du_pushed d = du_popped d @ contents (du_queue d)"
    using spsc_fifo_under_interleaving [OF demo_queue_make d(1)] d(2) by simp
  then show ?thesis using d by (intro exI [of _ d]) simp
qed

section \<open>The calls as steps\<close>

lemma store_steps:
  "du_producer d = P_Write vs i \<Longrightarrow> i \<le> length vs \<Longrightarrow>
     duo_step\<^sup>*\<^sup>* d (d\<lparr>du_queue := write_slots (q_tail (du_queue d)) i (drop i vs) (du_queue d), du_producer := P_Write vs (length vs)\<rparr>)"
proof (induction "length vs - i" arbitrary: i d)
  case 0
  then have "i = length vs" by simp
  then show ?case using 0 by (cases d) simp
next
  case (Suc k)
  let ?d = "d\<lparr>du_queue := write_slot (q_tail (du_queue d)) i (vs ! i) (du_queue d), du_producer := P_Write vs (i + 1)\<rparr>"
  have i: "i < length vs" using Suc.hyps(2) by simp
  have "duo_step d ?d" by (rule duo_step.store_slot [OF Suc.prems(1) i])
  moreover have "duo_step\<^sup>*\<^sup>* ?d (?d\<lparr>du_queue := write_slots (q_tail (du_queue ?d)) (i + 1) (drop (i + 1) vs) (du_queue ?d), du_producer := P_Write vs (length vs)\<rparr>)"
    by (rule Suc.hyps(1)) (use Suc.hyps(2) i in simp_all)
  moreover have "drop i vs = vs ! i # drop (i + 1) vs" using i by (simp add: Cons_nth_drop_Suc)
  ultimately show ?case by (simp add: converse_rtranclp_into_rtranclp)
qed

lemma push_steps:
  assumes p: "du_producer d = P_Idle" and c: "try_push_batch (du_queue d) vs = (ok, q)"
  shows "duo_step\<^sup>*\<^sup>* d (d\<lparr>du_queue := q, du_pushed := du_pushed d @ (if ok then vs else [])\<rparr>)"
proof (cases "vs = [] \<or> length vs > q_capacity (du_queue d)")
  case True
  then have "q = du_queue d" "ok \<Longrightarrow> vs = []" using c by (auto simp: try_push_batch_def split: if_splits)
  then have "d\<lparr>du_queue := q, du_pushed := du_pushed d @ (if ok then vs else [])\<rparr> = d" by (cases d) auto
  then show ?thesis by simp
next
  case False
  obtain n q1 where a: "producer_available (du_queue d) = (n, q1)" by fastforce
  have s: "duo_step d (d\<lparr>du_queue := q1, du_producer := (if n < length vs then P_Idle else P_Write vs 0)\<rparr>)"
    by (rule duo_step.load_head [OF p _ _ a]) (use False in auto)
  show ?thesis
  proof (cases "n < length vs")
    case True
    then have "q = q1" "\<not> ok" using c a False by (auto simp: try_push_batch_def split: if_splits)
    then show ?thesis using s True p by (cases d) auto
  next
    case room: False
    let ?d1 = "d\<lparr>du_queue := q1, du_producer := P_Write vs 0\<rparr>"
    let ?d2 = "?d1\<lparr>du_queue := write_slots (q_tail q1) 0 vs q1, du_producer := P_Write vs (length vs)\<rparr>"
    have q: "ok" "q = publish_tail (length vs) (write_slots (q_tail q1) 0 vs q1)"
      using c a False room by (auto simp: try_push_batch_def split: if_splits)
    have "duo_step\<^sup>*\<^sup>* ?d1 ?d2" using store_steps [of ?d1 vs 0] by simp
    moreover have "duo_step ?d2 (?d2\<lparr>du_queue := publish_tail (length vs) (du_queue ?d2), du_producer := P_Idle, du_pushed := du_pushed ?d2 @ vs\<rparr>)"
      by (rule duo_step.release_tail) simp
    ultimately have "duo_step\<^sup>*\<^sup>* d (?d2\<lparr>du_queue := publish_tail (length vs) (du_queue ?d2), du_producer := P_Idle, du_pushed := du_pushed ?d2 @ vs\<rparr>)"
      using s room by (simp add: converse_rtranclp_into_rtranclp rtranclp.rtrancl_into_rtrancl)
    then show ?thesis using q p by (cases d) simp
  qed
qed

lemma read_steps:
  assumes "du_consumer d = C_Idle" "try_peek (du_queue d) = (r, q)"
  shows "duo_step\<^sup>*\<^sup>* d (d\<lparr>du_queue := q, du_consumer := (case r of None \<Rightarrow> C_Idle | Some v \<Rightarrow> C_Got v)\<rparr>)"
proof -
  let ?q = "refresh_tail (du_queue d)"
  let ?d1 = "d\<lparr>du_queue := ?q, du_consumer := (if q_head ?q = q_cached_tail ?q then C_Idle else C_Read)\<rparr>"
  have s: "duo_step d ?d1" by (rule duo_step.load_tail [OF assms(1) refl])
  have q: "q = ?q" "r = (if q_head ?q = q_cached_tail ?q then None else Some (q_slots ?q ! slot_of ?q (q_head ?q)))"
    using assms(2) by (auto simp: try_peek_def Let_def split: if_splits)
  show ?thesis
  proof (cases "q_head ?q = q_cached_tail ?q")
    case True
    then show ?thesis using s q by (simp add: r_into_rtranclp)
  next
    case False
    have "duo_step ?d1 (?d1\<lparr>du_consumer := C_Got (q_slots (du_queue ?d1) ! slot_of (du_queue ?d1) (q_head (du_queue ?d1)))\<rparr>)"
      by (rule duo_step.load_slot) (use False in simp)
    then show ?thesis using s q False by (simp add: converse_rtranclp_into_rtranclp r_into_rtranclp)
  qed
qed

text \<open>
  C20. The steps are those of the calls: a call of \<^verbatim>\<open>try_push_batch\<close>, \<^verbatim>\<open>try_peek\<close> or \<^verbatim>\<open>try_pop\<close> by an idle thread, with the other thread
  standing still wherever it is, is a sequence of steps that ends in the queue the call leaves and adds to what was published or taken
  exactly what the call reports.
\<close>

theorem spsc_calls_are_steps:
  "(du_producer d = P_Idle \<longrightarrow> (case try_push_batch (du_queue d) vs of (ok, q) \<Rightarrow>
       duo_step\<^sup>*\<^sup>* d (d\<lparr>du_queue := q, du_pushed := du_pushed d @ (if ok then vs else [])\<rparr>))) \<and>
    (du_consumer d = C_Idle \<longrightarrow>
       (case try_peek (du_queue d) of (r, q) \<Rightarrow> duo_step\<^sup>*\<^sup>* d (d\<lparr>du_queue := q\<rparr>)) \<and>
       (case try_pop (du_queue d) of (r, q) \<Rightarrow>
          duo_step\<^sup>*\<^sup>* d (d\<lparr>du_queue := q, du_popped := du_popped d @ (case r of None \<Rightarrow> [] | Some v \<Rightarrow> [v])\<rparr>)))"
proof -
  have push: "case try_push_batch (du_queue d) vs of (ok, q) \<Rightarrow>
       duo_step\<^sup>*\<^sup>* d (d\<lparr>du_queue := q, du_pushed := du_pushed d @ (if ok then vs else [])\<rparr>)" if "du_producer d = P_Idle"
    using push_steps [OF that] by (auto split: prod.split)
  obtain r q where p: "try_peek (du_queue d) = (r, q)" by fastforce
  have "duo_step\<^sup>*\<^sup>* d (d\<lparr>du_queue := q\<rparr>) \<and> (case try_pop (du_queue d) of (r, q) \<Rightarrow>
          duo_step\<^sup>*\<^sup>* d (d\<lparr>du_queue := q, du_popped := du_popped d @ (case r of None \<Rightarrow> [] | Some v \<Rightarrow> [v])\<rparr>))" if c: "du_consumer d = C_Idle"
  proof -
    note s = read_steps [OF c p]
    show ?thesis
    proof (cases r)
      case None
      then show ?thesis using s p c by (cases d) (simp add: try_pop_def)
    next
      case (Some v)
      let ?d = "d\<lparr>du_queue := q, du_consumer := C_Got v\<rparr>"
      have "duo_step ?d (?d\<lparr>du_consumer := C_Idle\<rparr>)"
        "duo_step ?d (?d\<lparr>du_queue := publish_head (du_queue ?d), du_consumer := C_Idle, du_popped := du_popped ?d @ [v]\<rparr>)"
        by (rule duo_step.keep_head duo_step.release_head, simp)+
      moreover have "duo_step\<^sup>*\<^sup>* d ?d" using s Some by simp
      ultimately have "duo_step\<^sup>*\<^sup>* d (?d\<lparr>du_consumer := C_Idle\<rparr>)"
        "duo_step\<^sup>*\<^sup>* d (?d\<lparr>du_queue := publish_head (du_queue ?d), du_consumer := C_Idle, du_popped := du_popped ?d @ [v]\<rparr>)"
        by (simp_all add: rtranclp.rtrancl_into_rtrancl)
      then show ?thesis using Some p c by (cases d) (simp add: try_pop_def)
    qed
  qed
  then show ?thesis using push p by simp
qed

theorem spsc_calls_are_steps_witness:
  "\<exists>q. try_push_batch demo_queue [5, 6] = (True, q) \<and> duo_step\<^sup>*\<^sup>* (start demo_queue) ((start demo_queue)\<lparr>du_queue := q, du_pushed := [5, 6]\<rparr>)"
proof -
  have "fst (try_push_batch demo_queue [5, 6])" by code_simp
  then obtain q where q: "try_push_batch demo_queue [5, 6] = (True, q)" by (metis prod.collapse)
  then show ?thesis using spsc_calls_are_steps [of "start demo_queue" "[5, 6]"] by (simp add: start_def)
qed

text \<open>
  The queue is a bounded list: on a queue in a reachable state a batch is accepted as a whole exactly
  when it fits, and appended in order; peek shows the oldest element, pop removes it, and the available
  room is what the list leaves of the capacity.
\<close>

theorem spsc_is_bounded_list:
  assumes "spsc_ok q" "spsc_fits q (length vs)"
  shows "(case try_push_batch q vs of (b, q') \<Rightarrow> spsc_ok q' \<and> (b \<longleftrightarrow> length (contents q) + length vs \<le> q_capacity q) \<and>
       contents q' = (if b then contents q @ vs else contents q)) \<and>
    (case try_peek q of (r, q') \<Rightarrow> spsc_ok q' \<and> contents q' = contents q \<and> r = (if contents q = [] then None else Some (hd (contents q)))) \<and>
    (case try_pop q of (r, q') \<Rightarrow> spsc_ok q' \<and> contents q' = tl (contents q) \<and> r = (if contents q = [] then None else Some (hd (contents q)))) \<and>
    (case producer_available q of (n, q') \<Rightarrow> spsc_ok q' \<and> contents q' = contents q \<and> n = q_capacity q - length (contents q))"
proof -
  have r: "(case xs of [] \<Rightarrow> None | v # _ \<Rightarrow> Some v) = (if xs = [] then None else Some (hd xs))" for xs :: "'a list" by (cases xs) simp_all
  have 1: "case try_push_batch q vs of (b, q') \<Rightarrow> spsc_ok q' \<and> (b \<longleftrightarrow> length (contents q) + length vs \<le> q_capacity q) \<and>
       contents q' = (if b then contents q @ vs else contents q)"
    using fifo.push_law [OF assms] by (cases "try_push_batch q vs") (simp only: split_conv)
  have 2: "case try_peek q of (r, q') \<Rightarrow> spsc_ok q' \<and> contents q' = contents q \<and> r = (if contents q = [] then None else Some (hd (contents q)))"
    using fifo.peek_law [OF assms(1)] unfolding r by (cases "try_peek q") (simp only: split_conv)
  have 3: "case try_pop q of (r, q') \<Rightarrow> spsc_ok q' \<and> contents q' = tl (contents q) \<and> r = (if contents q = [] then None else Some (hd (contents q)))"
    using fifo.pop_law [OF assms(1)] unfolding r by (cases "try_pop q") (simp only: split_conv)
  have 4: "case producer_available q of (n, q') \<Rightarrow> spsc_ok q' \<and> contents q' = contents q \<and> n = q_capacity q - length (contents q)"
    using fifo.available_law [OF assms(1)] by (cases "producer_available q") (simp only: split_conv)
  show ?thesis using 1 2 3 4 by (intro conjI)
qed

theorem spsc_is_bounded_list_witness:
  "contents (snd (try_push_batch demo_queue [5, 6])) = [5, 6] \<and> \<not> fst (try_push_batch demo_queue [5, 6, 7, 8])"
proof -
  have ok: "spsc_ok demo_queue" "contents demo_queue = []" "q_capacity demo_queue = 3" "outstanding demo_queue = 0" "q_head demo_queue = 0"
    using make_spsc_ok [OF demo_queue_make] by simp_all
  then have f: "spsc_fits demo_queue (length [5, 6 :: nat])" "spsc_fits demo_queue (length [5, 6, 7, 8 :: nat])"
    by (simp_all add: spsc_fits_def linear_def)
  from spsc_is_bounded_list [OF ok(1) f(1)] have "contents (snd (try_push_batch demo_queue [5, 6])) = [5, 6]"
    using ok(2,3) by (cases "try_push_batch demo_queue [5, 6]") simp
  moreover from spsc_is_bounded_list [OF ok(1) f(2)] have "\<not> fst (try_push_batch demo_queue [5, 6, 7, 8])"
    using ok(2,3) by (cases "try_push_batch demo_queue [5, 6, 7, 8]") simp
  ultimately show ?thesis ..
qed

text \<open>
  With a capacity that does not divide \<open>2 ^ 64\<close> the queue loses an element when its indices wrap: of two
  elements pushed across the wrap the second overwrites the first, and the consumer receives it twice.
\<close>

theorem spsc_wrap_loses_element:
  "let q0 = set_empty_index_for_testing demo_queue (- 1); (b1, q1) = try_push q0 5; (b2, q2) = try_push q1 6;
       (r1, q3) = try_pop q2; (r2, q4) = try_pop q3
   in (b1, b2, r1, r2) = (True, True, Some 6, Some 6)"
proof -
  have top: "unat (- 1 :: u64) = 18446744073709551615" by (simp add: unsigned_minus_1_eq_mask mask_eq_exp_minus_1)
  show ?thesis
    by (simp add: set_empty_index_for_testing_def spsc_empty_def demo_queue_def try_push_def try_push_batch_def producer_available_def
        write_slot_def publish_tail_def try_pop_def try_peek_def refresh_tail_def publish_head_def slot_of_def top)
qed

end
