(* ===== verification/Throughput_Gate.thy ===== *)
theory Throughput_Gate
  imports Order_Book_Entry Order_Book_Init
begin

text \<open>
  The workload of the throughput gate (\<^verbatim>\<open>throughput_gate.cpp\<close>): a book is filled with sell orders, as many buy orders then take
  them one by one, and the captured results are checked against what price-time priority demands and folded into a checksum.  The loops run
  over the event numbers; the readings of the clock around the timed loop are not part of the state.  The statistics of the durations
  are modelled up to the integers; the ratios in floating point are not.
\<close>

section \<open>The batch\<close>

definition kMaximumSamples :: u64 where
  "kMaximumSamples = 1000000"

definition kChecksumBasis :: u64 where
  "kChecksumBasis = 14695981039346656037"

definition kChecksumPrime :: u64 where
  "kChecksumPrime = 1099511628211"

unbundle bit_operations_syntax

definition checksum_value :: "u64 \<Rightarrow> u64 \<Rightarrow> u64" where
  "checksum_value checksum v = (checksum XOR v) * kChecksumPrime"

record captured_event =
  ca_result :: submit_result
  ca_trade :: trade

definition empty_captured :: captured_event where
  "empty_captured = \<lparr>ca_result = \<lparr>sr_reason = RR_Invalid_Handle, sr_executed = 0, sr_unfilled = 0, sr_trade_count = 0, sr_handle = kInvalidHandle\<rparr>,
     ca_trade = \<lparr>tr_buy = 0, tr_sell = 0, tr_price = 0, tr_quantity = 0\<rparr>\<rparr>"

record crossing_batch =
  cb_samples :: u64
  cb_book :: book
  cb_trade_buffer :: "trade list"
  cb_captured :: "captured_event list"
  cb_valid :: bool

fun preload :: "nat list \<Rightarrow> book \<Rightarrow> trade list \<Rightarrow> (bool \<times> book \<times> trade list) run" where
  "preload [] b T = ret (True, b, T)"
| "preload (event # events) b T =
     run_bind (submit_limit_gtc b (word_of_nat event + 1) (Valid_Side Sell) 101 1 T) (\<lambda>(result, b1, T1).
       if sr_reason result \<noteq> RR_None \<or> sr_trade_count result \<noteq> 0 then ret (False, b1, T1) else preload events b1 T1)"

definition make_batch :: "u64 \<Rightarrow> cpp_exception + crossing_batch run" where
  "make_batch samples =
     sum_bind (make_price_domain 100 2) (\<lambda>d.
     sum_bind (make_book d (unat samples) 1 STP_None Fifo 2 Continuous) (\<lambda>b.
     Inr (run_bind (preload [0..<unat samples] b (replicate (unat samples) (ca_trade empty_captured))) (\<lambda>(valid, b1, T1).
       ret \<lparr>cb_samples = samples, cb_book = b1, cb_trade_buffer = T1, cb_captured = replicate (unat samples) empty_captured, cb_valid = valid\<rparr>))))"

fun execute_events :: "nat list \<Rightarrow> crossing_batch \<Rightarrow> crossing_batch run" where
  "execute_events [] c = ret c"
| "execute_events (event # events) c =
     run_bind (submit_limit_tif (cb_book c) (cb_samples c + word_of_nat event + 1) (Valid_Side Buy) 101 1 IOC (cb_trade_buffer c)) (\<lambda>(result, b1, T1).
       execute_events events (c\<lparr>cb_book := b1, cb_trade_buffer := T1,
         cb_captured := (cb_captured c)[event := \<lparr>ca_result = result, ca_trade = hd T1\<rparr>]\<rparr>))"

definition execute :: "crossing_batch \<Rightarrow> crossing_batch run" where
  "execute c = execute_events [0..<unat (cb_samples c)] c"

definition captured_wrong :: "u64 \<Rightarrow> nat \<Rightarrow> captured_event \<Rightarrow> bool" where
  "captured_wrong samples event ca \<longleftrightarrow>
     sr_reason (ca_result ca) \<noteq> RR_None \<or> sr_executed (ca_result ca) \<noteq> 1 \<or> sr_unfilled (ca_result ca) \<noteq> 0 \<or> sr_trade_count (ca_result ca) \<noteq> 1 \<or>
     tr_buy (ca_trade ca) \<noteq> samples + word_of_nat event + 1 \<or> tr_sell (ca_trade ca) \<noteq> word_of_nat event + 1 \<or>
     tr_price (ca_trade ca) \<noteq> 101 \<or> tr_quantity (ca_trade ca) \<noteq> 1"

definition checksum_trade :: "u64 \<Rightarrow> trade \<Rightarrow> u64" where
  "checksum_trade checksum t =
     checksum_value (checksum_value (checksum_value (checksum_value checksum (tr_buy t)) (tr_sell t)) (word_of_int (tr_price t))) (tr_quantity t)"

fun validate_events :: "u64 \<Rightarrow> nat list \<Rightarrow> captured_event list \<Rightarrow> u64 \<Rightarrow> bool \<times> u64" where
  "validate_events samples [] captured checksum = (True, checksum)"
| "validate_events samples (event # events) captured checksum =
     (if captured_wrong samples event (captured ! event) then (False, checksum)
      else validate_events samples events captured (checksum_trade checksum (ca_trade (captured ! event))))"

definition validate_batch :: "crossing_batch \<Rightarrow> bool \<times> u64" where
  "validate_batch c = validate_events (cb_samples c) [0..<unat (cb_samples c)] (cb_captured c) kChecksumBasis"

section \<open>Repetitions\<close>

text \<open>
  The loop of \<^verbatim>\<open>run\<close>: nothing when a preload failed, otherwise whether every repetition was validated and the last checksum.
\<close>

fun gate_repetitions :: "nat \<Rightarrow> u64 \<Rightarrow> bool \<Rightarrow> u64 option \<Rightarrow> cpp_exception + (bool \<times> u64 option) option run" where
  "gate_repetitions 0 samples passed expected = Inr (ret (Some (passed, expected)))"
| "gate_repetitions (Suc n) samples passed expected =
     sum_bind (make_batch samples) (\<lambda>made. case run_bind made (\<lambda>c. if \<not> cb_valid c then ret None else run_bind (execute c) (\<lambda>c1. ret (Some (validate_batch c1)))) of
        None \<Rightarrow> Inr None
      | Some (Inl f) \<Rightarrow> Inr (crash f)
      | Some (Inr None) \<Rightarrow> Inr (ret None)
      | Some (Inr (Some (ok, checksum))) \<Rightarrow>
          gate_repetitions n samples (passed \<and> ok \<and> (case expected of None \<Rightarrow> True | Some x \<Rightarrow> checksum = x)) (Some checksum))"

section \<open>Statistics\<close>

definition median :: "u64 list \<Rightarrow> u64" where
  "median values =
     (if values = [] then 0
      else let sorted = sort values; middle = length values div 2
           in if length values mod 2 \<noteq> 0 then sorted ! middle
              else sorted ! (middle - 1) + (sorted ! middle - sorted ! (middle - 1)) div 2)"

definition deviation :: "u64 \<Rightarrow> u64 \<Rightarrow> u64" where
  "deviation center duration = (if duration > center then duration - center else center - duration)"

text \<open>The integer fields of the summary: the shortest duration, the median and the median of the deviations from it.\<close>

definition summarize_integers :: "u64 list \<Rightarrow> u64 \<Rightarrow> (u64 \<times> u64 \<times> u64) option" where
  "summarize_integers durations samples =
     (if durations = [] \<or> samples = 0 \<or> samples > kMaximumSamples \<or> 0 \<in> set durations then None
      else let center = median durations
           in if center = 0 then None
              else Some (Min (set durations), center, median (map (deviation center) durations)))"

end
