(* ===== verification/Throughput_Gate_Properties.thy ===== *)
theory Throughput_Gate_Properties
  imports Throughput_Gate Book_Construction
begin

text \<open>
  On the verified book the workload of the gate does what its check demands, for every number of samples.
\<close>

section \<open>The market of the batch\<close>

text \<open>Sell orders of one unit at the upper of two prices.\<close>

definition unit_maker :: "maker \<Rightarrow> bool" where
  "unit_maker m \<longleftrightarrow> mk_rem m = 1 \<and> mk_disp m = 1"

definition batch_market :: "maker list \<Rightarrow> price option \<Rightarrow> market" where
  "batch_market ms lp = \<lparr>mkt_queue = \<lambda>s l. if s = Sell \<and> l = 1 then ms else [], mkt_stops = [], mkt_last = lp\<rparr>"

definition batch_domain :: price_domain where
  "batch_domain = \<lparr>pd_minimum = 100, pd_maximum = 101, pd_tick_count = 2\<rparr>"

definition batch_book :: "nat \<Rightarrow> book \<Rightarrow> maker list \<Rightarrow> price option \<Rightarrow> bool" where
  "batch_book n b ms lp \<longleftrightarrow> book_ok b \<and> free_trading b \<and> ob_trading_state b = Continuous \<and> ob_domain b = batch_domain \<and>
     ob_max_quantity b = 1 \<and> slots b = n \<and> view b = batch_market ms lp \<and> list_all unit_maker ms"

lemma batch_env: "batch_book n b ms lp \<Longrightarrow> book_ok b' \<Longrightarrow> same_env b b' \<Longrightarrow> view b' = batch_market ms' lp' \<Longrightarrow>
    list_all unit_maker ms' \<Longrightarrow> batch_book n b' ms' lp'"
  by (simp add: batch_book_def free_trading_def same_env_def)

lemma batch_ladder: "ladder 2 (mkt_queue (batch_market ms lp) Sell) Sell = (if ms = [] then [] else [(1, ms)])"
  by (simp add: ladder_def batch_market_def priority_def upt_rec)

lemma batch_no_stops: "run_stops d (batch_market ms lp) = ([], [], batch_market ms lp)"
  by (subst run_stops.simps) (simp add: batch_market_def)

lemma batch_sell:
  "enter_limit batch_domain oid 0 Sell 1 1 1 True slot (batch_market ms lp) = (1, [], [], batch_market (ms @ [new_maker slot oid 0 1 1]) lp)"
proof -
  have l: "ladder 2 (mkt_queue (batch_market ms lp) Buy) Buy = []" by (simp add: ladder_def batch_market_def)
  have "take_liquidity batch_domain oid Sell (Some 1) 1 (batch_market ms lp) = ([], 1, batch_market ms lp)"
    using l by (simp add: take_liquidity_def batch_domain_def last_price_def of_ladder_def batch_market_def fun_eq_iff)
  moreover have "join_queue Sell 1 (new_maker slot oid 0 1 1) (batch_market ms lp) = batch_market (ms @ [new_maker slot oid 0 1 1]) lp"
    by (simp add: join_queue_def batch_market_def fun_eq_iff)
  ultimately show ?thesis by (simp add: enter_limit_def batch_no_stops)
qed

lemma batch_buy:
  assumes "unit_maker m"
  shows "enter_limit batch_domain oid 0 Buy 1 1 1 False slot (batch_market (m # ms) lp) =
    (0, [\<lparr>tr_buy = oid, tr_sell = mk_id m, tr_price = 101, tr_quantity = 1\<rparr>], [], batch_market ms (Some 101))"
proof -
  have f: "fill 1 (m # ms) = ([(m, 1)], 0, ms)" using assms by (simp add: fill.simps(2) unit_maker_def requeue_def)
  have "take_liquidity batch_domain oid Buy (Some 1) 1 (batch_market (m # ms) lp) =
      ([\<lparr>tr_buy = oid, tr_sell = mk_id m, tr_price = 101, tr_quantity = 1\<rparr>], 0, batch_market ms (Some 101))"
    using batch_ladder [of "m # ms" lp] f
    by (auto simp: take_liquidity_def batch_domain_def last_price_def of_ladder_def batch_market_def fun_eq_iff tally_def)
  then show ?thesis by (simp add: enter_limit_def batch_no_stops)
qed

section \<open>One order\<close>

lemma batch_room:
  assumes "batch_book n b ms lp" "length ms < n"
  shows "\<not> arena_exhausted b"
proof -
  have rep: "book_rep b (queue_of b) (stop_queue b) {}" and v: "view b = batch_market ms lp" and n: "slots b = n"
    using assms(1) by (auto simp: batch_book_def book_ok_rep)
  have q: "makers b (queue_of b s l) = (if s = Sell \<and> l = 1 then ms else [])" for s l
    using arg_cong [OF v, of "\<lambda>M. mkt_queue M s l"] by (simp add: view_def market_of_def batch_market_def)
  have "stop_queue b = []" using arg_cong [OF v, of mkt_stops] by (simp add: view_def market_of_def batch_market_def)
  moreover have "queued (queue_of b) = set (queue_of b Sell 1)"
  proof -
    have "queue_of b s l = []" if "\<not> (s = Sell \<and> l = 1)" for s l using q [of s l] unfolding if_not_P [OF that] makers_def by simp
    then have "s = Sell \<and> l = 1" if "i \<in> set (queue_of b s l)" for i s l using that by (metis list.set(1) empty_iff)
    then show ?thesis unfolding queued_def by blast
  qed
  ultimately have "live_set (ob_arena b) = set (queue_of b Sell 1)" using rep by (simp add: book_rep_def)
  then have "ar_size (ob_arena b) \<le> length (queue_of b Sell 1)"
    using rep card_length [of "queue_of b Sell 1"] by (simp add: book_rep_def book_shape_def arena_ok_def)
  also have "\<dots> = length ms" using arg_cong [OF q [of Sell 1], of length] by (simp add: makers_def)
  finally show ?thesis using assms(2) n by (simp add: arena_exhausted_def)
qed

lemma batch_index: "batch_book n b ms lp \<Longrightarrow> index_of (ob_domain b) 101 = Some 1"
  by (simp add: batch_book_def batch_domain_def index_of_def pd_contains_def)

lemma batch_preflight:
  assumes "batch_book n b ms lp" "tif = IOC \<or> tif = GTC \<and> length ms < n"
  shows "preflight_limit b (Valid_Side s) 101 1 tif = RR_None"
proof -
  have "preflight b (Valid_Side s) 1 = RR_None" using assms(1) by (simp add: preflight_None batch_book_def is_valid_side_def) (cases s, simp_all)
  moreover have "is_valid_time_in_force tif" "tif \<noteq> FOK" "tif = GTC \<Longrightarrow> \<not> arena_exhausted b"
    using assms batch_room [OF assms(1)] by (auto simp: is_valid_time_in_force_def)
  ultimately show ?thesis using batch_index [OF assms(1)] assms(1) by (auto simp: preflight_limit_def batch_book_def)
qed

lemma preload_one:
  assumes "batch_book n b ms lp" "length ms < n" "n \<le> length T"
  obtains res b' T' slot where "submit_limit_gtc b oid (Valid_Side Sell) 101 1 T = ret (res, b', T')" "sr_reason res = RR_None"
    "sr_trade_count res = 0" "batch_book n b' (ms @ [new_maker slot oid 0 1 1]) lp" "length T' = length T"
proof -
  note b = assms(1) [unfolded batch_book_def]
  have pre: "preflight_limit b (Valid_Side Sell) 101 1 GTC = RR_None" "index_of (ob_domain b) 101 = Some 1"
    using batch_preflight [OF assms(1)] batch_index [OF assms(1)] assms(2) by simp_all
  obtain slot where "entered (submit_limit b oid 0 (Valid_Side Sell) 101 1 GTC T) b T 1 True slot
      (enter_limit batch_domain oid 0 Sell 1 1 1 True slot (batch_market ms lp))"
    using limit_entered [OF _ _ _ pre(1), of T oid 0] b assms(3) pre(2) by auto
  then obtain h b' T' where s: "submit_limit b oid 0 (Valid_Side Sell) 101 1 GTC T = ret (submitted 1 1 0 h, b', T')"
      "book_ok b'" "same_env b b'" "view b' = batch_market (ms @ [new_maker slot oid 0 1 1]) lp" "length T' = length T"
    unfolding batch_sell entered_def by auto
  have "list_all unit_maker (ms @ [new_maker slot oid 0 1 1])" using b by (simp add: unit_maker_def new_maker_def)
  from batch_env [OF assms(1) s(2-4) this] show thesis
    using that [OF _ _ _ _ s(5)] s(1) by (simp add: submit_limit_gtc_def submitted_def)
qed

lemma execute_one:
  assumes "batch_book n b (m # ms) lp" "n \<le> length T" "0 < n"
  obtains res b' T' where "submit_limit_tif b oid (Valid_Side Buy) 101 1 IOC T = ret (res, b', T')"
    "sr_reason res = RR_None" "sr_executed res = 1" "sr_unfilled res = 0" "sr_trade_count res = 1"
    "hd T' = \<lparr>tr_buy = oid, tr_sell = mk_id m, tr_price = 101, tr_quantity = 1\<rparr>" "batch_book n b' ms (Some 101)" "length T' = length T"
proof -
  note b = assms(1) [unfolded batch_book_def]
  have u: "unit_maker m" "list_all unit_maker ms" using b by auto
  have pre: "preflight_limit b (Valid_Side Buy) 101 1 IOC = RR_None" "index_of (ob_domain b) 101 = Some 1"
    using batch_preflight [OF assms(1)] batch_index [OF assms(1)] by simp_all
  have ne: "1 \<le> length T" using assms(2,3) by simp
  let ?t = "\<lparr>tr_buy = oid, tr_sell = mk_id m, tr_price = 101, tr_quantity = 1\<rparr>"
  obtain slot where "entered (submit_limit b oid 0 (Valid_Side Buy) 101 1 IOC T) b T 1 False slot
      (enter_limit batch_domain oid 0 Buy 1 1 1 False slot (batch_market (m # ms) lp))"
    using limit_entered [OF _ _ _ pre(1), of T oid 0] b assms(2) pre(2) by auto
  then obtain h b' T' where s: "submit_limit b oid 0 (Valid_Side Buy) 101 1 IOC T = ret (submitted 1 0 1 h, b', T')"
      "book_ok b'" "same_env b b'" "view b' = batch_market ms (Some 101)" "take 1 T' = [?t]" "length T' = length T"
    unfolding batch_buy [OF u(1)] entered_def using ne by auto
  have "hd T' = ?t" using s(5) by (cases T') auto
  then show thesis using that [OF _ _ _ _ _ _ batch_env [OF assms(1) s(2-4) u(2)] s(6)] s(1) by (simp add: submit_limit_tif_def submitted_def)
qed

section \<open>All orders\<close>

abbreviation maker_ids :: "nat list \<Rightarrow> order_id list" where
  "maker_ids events \<equiv> map (\<lambda>i. word_of_nat i + 1) events"

lemma preload_all:
  assumes "batch_book n b ms lp" "map mk_id ms = maker_ids [0..<k]" "k \<le> n" "n \<le> length T"
  shows "\<exists>b' T' ms'. preload [k..<n] b T = ret (True, b', T') \<and> batch_book n b' ms' lp \<and> map mk_id ms' = maker_ids [0..<n] \<and>
    length T' = length T"
  using assms
proof (induction "n - k" arbitrary: k b ms T)
  case 0
  then have k: "k = n" by simp
  show ?case using 0(2-5) unfolding k by auto
next
  case (Suc d)
  have k: "k < n" "length ms = k" using Suc.hyps(2) arg_cong [OF Suc.prems(2), of length] by simp_all
  obtain res b1 T1 slot where s: "submit_limit_gtc b (word_of_nat k + 1) (Valid_Side Sell) 101 1 T = ret (res, b1, T1)" "sr_reason res = RR_None"
      "sr_trade_count res = 0" "batch_book n b1 (ms @ [new_maker slot (word_of_nat k + 1) 0 1 1]) lp" "length T1 = length T"
    by (rule preload_one [OF Suc.prems(1) _ Suc.prems(4)]) (use k in simp)
  have "preload [k..<n] b T = preload [Suc k..<n] b1 T1" using s(1-3) k(1) by (simp add: upt_conv_Cons)
  moreover have "map mk_id (ms @ [new_maker slot (word_of_nat k + 1) 0 1 1]) = maker_ids [0..<Suc k]"
    using Suc.prems(2) by (simp add: new_maker_def)
  ultimately show ?case using Suc.hyps(1) [OF _ s(4), of "Suc k" T1] Suc.hyps(2) Suc.prems(4) k(1) s(5) by simp
qed

text \<open>The first events are captured as the check wants them.\<close>

definition captured_ok :: "nat \<Rightarrow> crossing_batch \<Rightarrow> bool" where
  "captured_ok k c \<longleftrightarrow> (\<forall>i < k. \<not> captured_wrong (cb_samples c) i (cb_captured c ! i))"

lemma execute_all:
  assumes "batch_book n (cb_book c) ms lp" "map mk_id ms = maker_ids [k..<n]" "k \<le> n" "n \<le> length (cb_trade_buffer c)"
    "length (cb_captured c) = n" "captured_ok k c"
  shows "\<exists>c'. execute_events [k..<n] c = ret c' \<and> cb_samples c' = cb_samples c \<and> captured_ok n c'"
  using assms
proof (induction "n - k" arbitrary: k c ms lp)
  case 0
  then have "k = n" by simp
  then show ?case using 0(7) by simp
next
  case (Suc d)
  then have k: "k < n" by simp
  then obtain m ms' where m: "ms = m # ms'" "mk_id m = word_of_nat k + 1" "map mk_id ms' = maker_ids [Suc k..<n]"
    using Suc.prems(2) by (cases ms) (auto simp: upt_conv_Cons)
  let ?id = "cb_samples c + word_of_nat k + 1"
  obtain res b1 T1 where s: "submit_limit_tif (cb_book c) ?id (Valid_Side Buy) 101 1 IOC (cb_trade_buffer c) = ret (res, b1, T1)"
    "sr_reason res = RR_None" "sr_executed res = 1" "sr_unfilled res = 0" "sr_trade_count res = 1"
    "hd T1 = \<lparr>tr_buy = ?id, tr_sell = mk_id m, tr_price = 101, tr_quantity = 1\<rparr>" "batch_book n b1 ms' (Some 101)"
    "length T1 = length (cb_trade_buffer c)"
    by (rule execute_one [OF Suc.prems(1) [unfolded m(1)] Suc.prems(4)]) (use k in simp)
  define c1 where "c1 = c\<lparr>cb_book := b1, cb_trade_buffer := T1, cb_captured := (cb_captured c)[k := \<lparr>ca_result = res, ca_trade = hd T1\<rparr>]\<rparr>"
  have "captured_ok (Suc k) c1" using Suc.prems(5,6) k s(2-6) m(2)
    by (auto simp: captured_ok_def c1_def less_Suc_eq captured_wrong_def)
  moreover have "batch_book n (cb_book c1) ms' (Some 101)" "n \<le> length (cb_trade_buffer c1)" "length (cb_captured c1) = n" "cb_samples c1 = cb_samples c"
    using s(7,8) Suc.prems(4,5) by (simp_all add: c1_def)
  moreover have "execute_events [k..<n] c = execute_events [Suc k..<n] c1" using s(1) k by (simp add: upt_conv_Cons c1_def)
  ultimately show ?case using Suc.hyps(1) [of "Suc k" c1 ms' "Some 101"] Suc.hyps(2) m(3) k by simp
qed

section \<open>The check\<close>

text \<open>The checksum of the trades that price-time priority gives: the orders are taken in the order they came.\<close>

definition expected_trade :: "u64 \<Rightarrow> nat \<Rightarrow> trade" where
  "expected_trade samples event = \<lparr>tr_buy = samples + word_of_nat event + 1, tr_sell = word_of_nat event + 1, tr_price = 101, tr_quantity = 1\<rparr>"

definition crossing_checksum :: "u64 \<Rightarrow> u64" where
  "crossing_checksum samples = foldl (\<lambda>checksum event. checksum_trade checksum (expected_trade samples event)) kChecksumBasis [0..<unat samples]"

lemma captured_trade: "\<not> captured_wrong samples event ca \<Longrightarrow> ca_trade ca = expected_trade samples event"
  by (cases ca; cases "ca_trade ca") (simp add: captured_wrong_def expected_trade_def)

lemma validate_all:
  "\<forall>event \<in> set events. \<not> captured_wrong samples event (captured ! event) \<Longrightarrow>
    validate_events samples events captured checksum =
      (True, foldl (\<lambda>checksum event. checksum_trade checksum (expected_trade samples event)) checksum events)"
  by (induction events arbitrary: checksum) (auto simp: captured_trade)

lemma batch_validates:
  assumes "samples \<noteq> 0" "samples \<le> kMaximumSamples"
  obtains c c1 where "make_batch samples = Inr (ret c)" "cb_valid c" "execute c = ret c1" "validate_batch c1 = (True, crossing_checksum samples)"
proof -
  let ?n = "unat samples"
  have n: "?n \<le> kUint32Max" using assms(2) by (simp add: kMaximumSamples_def kUint32Max_def word_le_nat_alt)
  have d: "make_price_domain 100 2 = Inr batch_domain" "domain_ok batch_domain" "pd_tick_count batch_domain \<le> kMaximumPriceLevels"
    by code_simp+
  obtain b where b: "make_book batch_domain ?n 1 STP_None Fifo 2 Continuous = Inr b"
    by (rule make_book_accepts [OF d(2,3) n, of 1]) (simp_all add: kUint32Max_def)
  have "empty_market = batch_market [] None" by (simp add: empty_market_def batch_market_def fun_eq_iff)
  then have "batch_book ?n b [] None" using make_book_ok [OF b d(2)] by (simp add: batch_book_def free_trading_def)
  then obtain b1 T1 ms where p: "preload [0..<?n] b (replicate ?n (ca_trade empty_captured)) = ret (True, b1, T1)" "batch_book ?n b1 ms None"
      "map mk_id ms = maker_ids [0..<?n]" "length T1 = ?n"
    using preload_all [of ?n b "[]" None 0 "replicate ?n (ca_trade empty_captured)"] by auto
  define c where "c = \<lparr>cb_samples = samples, cb_book = b1, cb_trade_buffer = T1, cb_captured = replicate ?n empty_captured, cb_valid = True\<rparr>"
  have m: "make_batch samples = Inr (ret c)" by (simp add: make_batch_def sum_bind_def d(1) b p(1) c_def)
  obtain c1 where x: "execute c = ret c1" "cb_samples c1 = samples" "captured_ok ?n c1"
    using execute_all [of ?n c ms None 0] p(2-4) by (auto simp: c_def execute_def captured_ok_def)
  have "validate_batch c1 = (True, crossing_checksum samples)"
    unfolding validate_batch_def crossing_checksum_def x(2) by (rule validate_all) (use x(2,3) in \<open>simp add: captured_ok_def\<close>)
  then show thesis using that m x(1) by (simp add: c_def)
qed

lemma repetitions_validate:
  assumes "samples \<noteq> 0" "samples \<le> kMaximumSamples" "expected = None \<or> expected = Some (crossing_checksum samples)"
  shows "gate_repetitions n samples True expected = Inr (ret (Some (True, if n = 0 then expected else Some (crossing_checksum samples))))"
  using assms(3)
proof (induction n arbitrary: expected)
  case (Suc n)
  obtain c c1 where "make_batch samples = Inr (ret c)" "cb_valid c" "execute c = ret c1" "validate_batch c1 = (True, crossing_checksum samples)"
    by (rule batch_validates [OF assms(1,2)])
  then show ?case using Suc.IH [of "Some (crossing_checksum samples)"] Suc.prems by (auto simp: sum_bind_def ret_def [symmetric]) (simp_all add: ret_def)
qed simp

text \<open>
  C34. The workload of the throughput gate passes its own validation on the book: with every admissible number of samples and any number of
  repetitions the book is built, no preloaded order is refused or trades, each buy order takes exactly the oldest sell order, no call crashes
  or diverges, and every repetition has the checksum of the trades in price-time priority.
\<close>

theorem throughput_gate_validates:
  assumes "samples \<noteq> 0" "samples \<le> kMaximumSamples" "n \<noteq> 0"
  shows "gate_repetitions n samples True None = Inr (ret (Some (True, Some (crossing_checksum samples))))"
  using repetitions_validate [OF assms(1,2), of None n] assms(3) by simp

theorem throughput_gate_validates_witness:
  "gate_repetitions 7 100000 True None = Inr (ret (Some (True, Some (crossing_checksum 100000))))"
  by (rule throughput_gate_validates) (simp_all add: kMaximumSamples_def)

end
