(* ===== verification/Spec2Isabelle.thy ===== *)
theory Spec2Isabelle
  imports Bbo_Properties Compaction_Properties Foundation_Properties Lane_Merge Market_Data_Properties Order_Book_Properties Pipeline_Snapshot Replay_Cli_Properties Runtime_Config_Properties Snapshot_Total Spsc_Concurrent Throughput_Gate_Properties
begin

text \<open>
  A verification development for the low-latency order matching engine under \<^verbatim>\<open>src/\<close> (C++): a limit order
  book with price-time priority, the sequenced engine around it, the concurrent pipeline that feeds it, the
  journal that makes its input durable and the formats it speaks.

  \<^bold>\<open>The program.\<close>  A command payload enters through the gateway or the market data lanes, is stamped with a
  sequence number and a logical time, appended to the journal and only then pushed to the matcher's queue.  The
  matcher applies one command at a time to the engine, which carries it out on the order book and writes engine
  events; the events are pushed as one batch to the publication queue, the best prices are published through a
  sequence lock, and publishers encode what they read as frames.  All calls in the pipeline are single-threaded
  except the two queues and the price snapshot.

  \<^bold>\<open>Foundations.\<close>  \<^verbatim>\<open>ME_Prelude\<close> has the machine types, the outcome type of calls that can fault or diverge
  (\<open>'a run\<close>: no value when a loop does not return, a fault for undefined behaviour) and shared lemmas;
  \<^verbatim>\<open>ME_Types\<close> the value types, packed order word and price domain (\<^verbatim>\<open>types.hpp\<close>, \<^verbatim>\<open>order.hpp\<close>, \<^verbatim>\<open>price_domain.hpp\<close>);
  \<^verbatim>\<open>Hierarchical_Bitmap\<close> and \<^verbatim>\<open>Order_Arena\<close> the containers of the same names.  \<^verbatim>\<open>Foundation_Properties\<close> shows that the
  bitmap is an ordered set and the arena a map from handles, after any sequence of calls.

  \<^bold>\<open>The order book.\<close>  \<^verbatim>\<open>Order_Book\<close> translates \<^verbatim>\<open>order_book.cpp\<close>: construction, admission checks, matching, resting,
  stops, cancel, amend, replace, auction.  Loops whose end is not evident are partial functions, so that
  divergence is a result.  The specification is \<^verbatim>\<open>Market_Spec\<close> over \<^verbatim>\<open>Fifo_Spec\<close>: a market is a map from
  prices to lists of orders.  The locales \<open>occupancy_index\<close> (\<^verbatim>\<open>Occupancy_Index\<close>) and \<open>handle_store\<close> (\<^verbatim>\<open>Order_Arena\<close>) are the
  interfaces of the book to its containers, interpreted on the bitmap and the arena; \<^verbatim>\<open>Intrusive_Queue\<close> relates
  linked orders to lists; \<^verbatim>\<open>Order_Book_Rep\<close> states the representation invariant and \<^verbatim>\<open>Order_Book_View\<close>, \<^verbatim>\<open>_Queue\<close>, \<^verbatim>\<open>_Exec\<close>, \<^verbatim>\<open>_Match\<close>, \<^verbatim>\<open>_Rest\<close>, \<^verbatim>\<open>_Stops\<close>, \<^verbatim>\<open>_Taker\<close>, \<^verbatim>\<open>_Submit\<close>,
  \<^verbatim>\<open>_Entry\<close> and \<^verbatim>\<open>_Init\<close> prove one group of operations each against the specification; \<^verbatim>\<open>Order_Book_Admission\<close> reads the
  admission checks off the market.  \<^verbatim>\<open>Order_Book_Properties\<close> states
  that limit, market and iceberg submission, cancel and amend refine the specification, keep the invariant
  and return, under FIFO allocation and without the cancel-taker policy, which reason a refused limit order reports, and that a market order that meets
  an order without trader identity under cancel-taker diverges.  Lemmas on fixed books show that a stop cascade can overrun the trade buffer and that threshold
  pro-rata can overfill.  \<^verbatim>\<open>Book_Check\<close> is the book's check of itself; \<^verbatim>\<open>Book_Check_Properties\<close> shows
  that it returns on every book, however corrupt, and accepts every well-formed one.

  \<^bold>\<open>Commands and engine.\<close>  \<^verbatim>\<open>Command\<close> has payloads, validation, the 36-byte codec and the sequencer
  (\<^verbatim>\<open>command.cpp\<close>); \<^verbatim>\<open>Sequenced_Engine\<close> the engine (\<^verbatim>\<open>sequenced_engine.cpp\<close>).  \<^verbatim>\<open>Command_Properties\<close> proves the codec a
  bijection and the stamps a total order; \<^verbatim>\<open>Engine_Properties\<close> that the engine carries out every covered command
  within its advertised event capacity and each stamped command exactly once; the locale \<open>book_entry\<close> there is
  the contract the engine relies on, interpreted on the three submissions.

  \<^bold>\<open>Concurrency.\<close>  \<^verbatim>\<open>Spsc_Queue\<close> is the ring (\<^verbatim>\<open>spsc_queue.hpp\<close>) with the interface \<open>bounded_fifo\<close> that its clients use;
  \<^verbatim>\<open>Spsc_Concurrent\<close> gives the steps of the two threads between their shared accesses, shows that the calls of the ring are sequences of such steps,
  and proves order and integrity under every interleaving, as long as the indices do not wrap or the capacity divides \<open>2 ^ 64\<close>.  \<^verbatim>\<open>Bbo\<close> and \<^verbatim>\<open>Bbo_Properties\<close> do the same for the sequence lock (\<^verbatim>\<open>bbo.cpp\<close>).
  Both models are sequentially consistent: release and acquire pairs are taken as the synchronisation they are
  documented to give.  \<^verbatim>\<open>Lane_Merge\<close> proves the merger of input lanes deterministic and sorted (\<^verbatim>\<open>lane_merge.hpp\<close>);
  \<^verbatim>\<open>Gateway\<close> and \<^verbatim>\<open>Gateway_Properties\<close> treat admission, notional and rate limits (\<^verbatim>\<open>gateway.cpp\<close>).

  \<^bold>\<open>Formats.\<close>  \<^verbatim>\<open>Frames\<close> has the command, best-price and market data frames, the event record, the replay
  fingerprint and the publishers (\<^verbatim>\<open>command_protocol.cpp\<close>, \<^verbatim>\<open>bbo_protocol.cpp\<close>, \<^verbatim>\<open>market_data_protocol.cpp\<close>, \<^verbatim>\<open>replay.cpp\<close>,
  \<^verbatim>\<open>*_publisher.cpp\<close>); \<^verbatim>\<open>Frame_Properties\<close> and \<^verbatim>\<open>Publisher_Properties\<close> prove each encoder and decoder inverse to each
  other on canonical values and accepted bytes.  \<^verbatim>\<open>Market_Data\<close> has the reader of a frame file and the adapter from
  messages to commands (\<^verbatim>\<open>market_data_input.cpp\<close>, \<^verbatim>\<open>market_data_adapter.cpp\<close>); \<^verbatim>\<open>Market_Data_Properties\<close> shows that a
  gap-free feed is read back as it was written, that a gap is refused except behind the number 0, which the reader takes for no number, and that the
  adapter's vector of handles is the finite map of the handles recorded last.  That map is not one to resting orders: trades do not change it, and
  a lemma runs engine and adapter to a handle that is found but no longer resolves.

  \<^bold>\<open>Durability.\<close>  \<^verbatim>\<open>Journal\<close> and \<^verbatim>\<open>Journal_Segments\<close> translate \<^verbatim>\<open>journal.cpp\<close>; the mapping is a byte list and the system
  calls are parameters, so every theorem holds for all their outcomes.  \<^verbatim>\<open>Journal_Properties\<close> says what bytes hold
  and that recovery finds exactly that; \<^verbatim>\<open>Journal_History\<close> that an append is atomic across a crash and a journal
  reads back and reopens with what it acknowledged; \<^verbatim>\<open>Segment_Properties\<close> that accepted segments form one journal,
  and that a writer resumed on an empty segment forgets the time; \<^verbatim>\<open>Segment_Directory\<close> relates segments to the files of a directory and says when they
  open.  \<^verbatim>\<open>Pipeline\<close> and \<^verbatim>\<open>Pipeline_Properties\<close> put the
  parts together (\<^verbatim>\<open>pipeline.cpp\<close>): what the matcher sees is durable, and each command is applied once.
  \<^verbatim>\<open>Runtime_Operations\<close> is the lifecycle and health of a running pipeline (\<^verbatim>\<open>runtime_operations.cpp\<close>), whose failure is
  final.

  \<^bold>\<open>Recovery.\<close>  \<^verbatim>\<open>Replay\<close> rebuilds an engine from a journal, a set of segments or a feed (\<^verbatim>\<open>replay.cpp\<close>); \<^verbatim>\<open>Replay_Properties\<close> shows
  that replaying the suffix behind a snapshot point ends in the engine replaying everything ends in, with a result that covers the suffix, and that segments
  replay like one journal.  \<^verbatim>\<open>Snapshot\<close> is the codec of \<^verbatim>\<open>snapshot.cpp\<close> with all its versions, in which the levels, bitmaps and ends of the stop queue
  are not stored but rebuilt from the slots.  \<^verbatim>\<open>Snapshot_Bytes\<close> says what the bytes hold, \<^verbatim>\<open>Snapshot_Header\<close> that the header is
  accepted, \<^verbatim>\<open>Snapshot_Rebuild\<close> what the first slots determine, by induction on the slots; \<^verbatim>\<open>Snapshot_Properties\<close> concludes that an
  encoded engine decodes to an equal one, and \<^verbatim>\<open>Snapshot_Total\<close> that decoding returns on every input.  \<^verbatim>\<open>Snapshot_File\<close> has saving
  and loading over a directory that remembers its states; \<^verbatim>\<open>Snapshot_File_Properties\<close> shows that replacement is atomic and
  that a saved snapshot loads.  The round trip is stated for books that are \<open>storable\<close>: well-formed, with a configuration the
  constructor accepts, and with the fields beside a slot that resting and stopping an order write.  It is shown of new and of decoded books; that the
  operations of the book keep it is not shown.
  \<^verbatim>\<open>Pipeline_Snapshot\<close> is the snapshot the matcher takes of itself, with exactly which loaded engines replay accepts: an exhausted one is refused, as
  documented.  \<^verbatim>\<open>Compaction\<close> deletes the segments a snapshot has made obsolete, and \<^verbatim>\<open>Compaction_Properties\<close> shows that the directory it leaves, wherever it
  stops, opens again and recovers the same engine, except when it stops with a successor in place and a partial segment before it, which does not open.  A
  successor file that a failed creation could not remove is outside the statement.

  \<^bold>\<open>Configuration.\<close>  \<^verbatim>\<open>Runtime_Config\<close> parses and checks the entries that configure an engine (\<^verbatim>\<open>runtime_config.cpp\<close>);
  \<^verbatim>\<open>Runtime_Config_Properties\<close> shows that the constructors of the components accept whatever it accepts, and which paths it accepts
  that the snapshot writer and the journal refuse.  \<^verbatim>\<open>Book_Construction\<close> says when the constructor of the book succeeds.

  \<^bold>\<open>Programs.\<close>  \<^verbatim>\<open>Runtime_Report\<close> is the JSON report of \<^verbatim>\<open>runtime_operations.cpp\<close>.  \<^verbatim>\<open>Replay_Cli\<close> is the whole of \<^verbatim>\<open>replay_cli.cpp\<close>, from the
  arguments to the exit code and the printed line; \<^verbatim>\<open>Replay_Cli_Properties\<close> shows that the engine it builds has the price range asked for
  and that the checksum it prints is accepted back.  \<^verbatim>\<open>Throughput_Gate\<close> is the workload of \<^verbatim>\<open>throughput_gate.cpp\<close> on the modelled book, and
  \<^verbatim>\<open>Throughput_Gate_Properties\<close> shows that it always passes its own validation.

  \<^bold>\<open>Bounds and fuel.\<close>  The book's loops carry no fuel.  The reader of the sequence lock is bounded by its own retry
  count; \<open>publication_drain\<close> carries fuel because a producer can keep up with it, and one more than the number of
  queued events is enough when none is added.  Record offsets are computed in 64 bits and cannot wrap
  below the capacity limit of a million records.

  \<^bold>\<open>Not modelled.\<close>  The parts of a path before its last component, failed allocations and the failpoints compiled in for
  tests; clocks, floating-point statistics, report files and the other benchmarks, whose results are measurements; the clock probe, CPU
  pinning and page locking, which are system calls.
  Stop and post-only submission, replace and the auction are modelled but proved only through the matching
  and stop lemmas they share.
\<close>

end
